(* ===== verification/Prelude.thy ===== *)
theory Prelude
  imports "HOL-Library.Word"
begin

text \<open>
  Shared vocabulary of the development: the machine integer types of the C code, the
  combinators that sequence calls of functions returning a success flag together with an
  updated stream, little-endian byte lists, and lemmas on words and lists that several
  components use.

  A C function that returns \<open>bool\<close> and updates a stream in place becomes a HOL function
  that returns the pair of the flag and the updated stream; one that also writes a result
  through an out-parameter returns \<open>None\<close> for \<open>false\<close> and \<open>Some v\<close> for \<open>true\<close>
  with \<open>v\<close> stored. The pattern \<open>if (!f(stream)) return false; rest\<close> is
  \<open>and_then\<close> for the first kind of function and \<open>bind_some\<close> for the second; \<open>with_some\<close>
  sequences a call that produces a value with a rest that produces only a flag.
\<close>

unbundle bit_operations_syntax

type_synonym u8 = "8 word"
type_synonym u16 = "16 word"
type_synonym u32 = "32 word"
type_synonym u64 = "64 word"

named_theorems stream_simps \<open>unfolding rules of the stream primitives\<close>
named_theorems stream_ok \<open>preservation of the well-formedness of streams\<close>

section \<open>Sequencing calls that may fail\<close>

definition and_then :: "bool \<times> 'st \<Rightarrow> ('st \<Rightarrow> bool \<times> 'st) \<Rightarrow> bool \<times> 'st" where
  "and_then r k = (case r of (b, s) \<Rightarrow> if b then k s else (False, s))"

definition bind_some ::
  "'a option \<times> 'st \<Rightarrow> ('a \<Rightarrow> 'st \<Rightarrow> 'b option \<times> 'st) \<Rightarrow> 'b option \<times> 'st" where
  "bind_some r k = (case r of (None, s) \<Rightarrow> (None, s) | (Some a, s) \<Rightarrow> k a s)"

definition with_some :: "'a option \<times> 'st \<Rightarrow> ('a \<Rightarrow> 'st \<Rightarrow> bool \<times> 'st) \<Rightarrow> bool \<times> 'st" where
  "with_some r k = (case r of (None, s) \<Rightarrow> (False, s) | (Some a, s) \<Rightarrow> k a s)"

lemma with_some_simps [simp]:
  "with_some (Some a, s) k = k a s"
  "with_some (None, s) k = (False, s)"
  by (simp_all add: with_some_def)

lemma with_some_split:
  "P (with_some r k) \<longleftrightarrow>
     (\<forall>a s. r = (Some a, s) \<longrightarrow> P (k a s)) \<and> (\<forall>s. r = (None, s) \<longrightarrow> P (False, s))"
  by (cases r) (auto simp: with_some_def split: option.splits)

lemma and_then_simps [simp]:
  "and_then (True, s) k = k s"
  "and_then (False, s) k = (False, s)"
  by (simp_all add: and_then_def)

lemma bind_some_simps [simp]:
  "bind_some (Some a, s) k = k a s"
  "bind_some (None, s) k = (None, s)"
  by (simp_all add: bind_some_def)

lemma and_then_True_iff:
  "and_then r k = (True, t) \<longleftrightarrow> (\<exists>s. r = (True, s) \<and> k s = (True, t))"
  by (cases r) (auto simp: and_then_def)

lemma bind_some_Some_iff:
  "bind_some r k = (Some b, t) \<longleftrightarrow> (\<exists>a s. r = (Some a, s) \<and> k a s = (Some b, t))"
  by (cases r) (auto simp: bind_some_def split: option.splits)

lemma and_then_cong [fundef_cong]:
  "r = r' \<Longrightarrow> (\<And>s. r' = (True, s) \<Longrightarrow> k s = k' s) \<Longrightarrow> and_then r k = and_then r' k'"
  by (cases r') (auto simp: and_then_def)

lemma bind_some_cong [fundef_cong]:
  "r = r' \<Longrightarrow> (\<And>a s. r' = (Some a, s) \<Longrightarrow> k a s = k' a s) \<Longrightarrow> bind_some r k = bind_some r' k'"
  by (cases r') (auto simp: bind_some_def split: option.splits)

lemma and_then_split:
  "P (and_then r k) \<longleftrightarrow>
     (\<forall>s. r = (True, s) \<longrightarrow> P (k s)) \<and> (\<forall>s. r = (False, s) \<longrightarrow> P (False, s))"
  by (cases r) (auto simp: and_then_def)

lemma bind_some_split:
  "P (bind_some r k) \<longleftrightarrow>
     (\<forall>a s. r = (Some a, s) \<longrightarrow> P (k a s)) \<and> (\<forall>s. r = (None, s) \<longrightarrow> P (None, s))"
  by (cases r) (auto simp: bind_some_def split: option.splits)

section \<open>Little-endian byte lists\<close>

fun le_nat :: "u8 list \<Rightarrow> nat" where
  "le_nat [] = 0"
| "le_nat (b # bs) = unat b + 256 * le_nat bs"

fun le_bytes :: "nat \<Rightarrow> nat \<Rightarrow> u8 list" where
  "le_bytes 0 x = []"
| "le_bytes (Suc n) x = word_of_nat (x mod 256) # le_bytes n (x div 256)"

lemma length_le_bytes [simp]: "length (le_bytes n x) = n"
  by (induction n arbitrary: x) auto

lemma unat_u8_lt: "unat (b :: u8) < 256"
  using unsigned_less [of b] by simp

lemma unat_of_nat_u8: "x < 256 \<Longrightarrow> unat (word_of_nat x :: u8) = x"
  by (simp add: unat_of_nat)

lemma le_nat_le_bytes: "le_nat (le_bytes n x) = x mod 256 ^ n"
proof (induction n arbitrary: x)
  case 0
  then show ?case by simp
next
  case (Suc n)
  have "x mod 256 + 256 * (x div 256 mod 256 ^ n) = x mod (256 * 256 ^ n)"
    by (simp add: mod_mult2_eq)
  then show ?case by (simp add: Suc unat_of_nat_u8)
qed

lemma le_nat_less: "le_nat bs < 256 ^ length bs"
proof (induction bs)
  case Nil
  then show ?case by simp
next
  case (Cons b bs)
  have "unat b + 256 * le_nat bs < 256 + 256 * le_nat bs"
    using unat_u8_lt [of b] by simp
  also have "\<dots> = 256 * Suc (le_nat bs)" by simp
  also have "\<dots> \<le> 256 * 256 ^ length bs"
    using Cons.IH by (intro mult_le_mono2) simp
  finally show ?case by simp
qed

lemma le_bytes_le_nat: "le_bytes (length bs) (le_nat bs) = bs"
proof (induction bs)
  case Nil
  then show ?case by simp
next
  case (Cons b bs)
  have "(unat b + 256 * le_nat bs) mod 256 = unat b"
    using unat_u8_lt [of b] by simp
  moreover have "(unat b + 256 * le_nat bs) div 256 = le_nat bs"
    using unat_u8_lt [of b] by simp
  ultimately show ?case using Cons.IH by simp
qed

section \<open>Words\<close>

lemma unat_and_mask7: "unat (b AND 0x7F :: u8) = unat b mod 128"
  using take_bit_eq_mask [of 7 "unat b"]
  by (simp add: unsigned_and_eq mask_eq_exp_minus_1 take_bit_eq_mod)

lemma bit_0x7F: "bit (0x7F :: 'a :: len word) n \<longleftrightarrow> n < 7 \<and> n < LENGTH('a)"
proof -
  have *: "(0x7F :: 'a word) = mask 7"
    by (simp add: mask_eq_exp_minus_1)
  show ?thesis unfolding * by (auto simp: bit_mask_iff)
qed

lemma bit_0x80: "bit (0x80 :: 'a :: len word) n \<longleftrightarrow> n = 7 \<and> 7 < LENGTH('a)"
proof -
  have *: "(0x80 :: 'a word) = push_bit 7 1"
    by (simp add: push_bit_eq_mult)
  show ?thesis unfolding * bit_push_bit_iff bit_1_iff by auto
qed

lemma unat_u16_lt: "unat (w :: u16) < 2 ^ 16"
  using unsigned_less [of w] by simp

lemma unat_u32_lt: "unat (w :: u32) < 2 ^ 32"
  using unsigned_less [of w] by simp

lemma unat_u64_lt: "unat (w :: u64) < 2 ^ 64"
  using unsigned_less [of w] by simp

lemma unat_of_nat_u32: "n < 2 ^ 32 \<Longrightarrow> unat (of_nat n :: u32) = n"
  by (simp add: unat_of_nat)

lemma unat_of_nat_u64: "n < 2 ^ 64 \<Longrightarrow> unat (of_nat n :: u64) = n"
  by (simp add: unat_of_nat)

lemma unat_plus_u64: "unat (a :: u64) + unat b < 2 ^ 64 \<Longrightarrow> unat (a + b) = unat a + unat b"
  by (simp add: unat_word_ariths)

lemma u64_plus_overflow:
  "(a :: u64) + b < a \<longleftrightarrow> 2 ^ 64 \<le> unat a + unat b"
proof -
  have "unat (a + b) = (unat a + unat b) mod 2 ^ 64"
    by (simp add: unat_word_ariths)
  then show ?thesis
    using unat_u64_lt [of a] unat_u64_lt [of b]
    by (auto simp: word_less_nat_alt mod_if not_less)
qed

lemma unat_drop_bit_word: "unat (drop_bit n (v :: 'a :: len word)) = unat v div 2 ^ n"
proof -
  have "unat (drop_bit n v) = drop_bit n (unat v)"
    by (rule bit_eqI) (auto simp: bit_simps dest: bit_imp_le_length)
  then show ?thesis by (simp only: drop_bit_eq_div)
qed

lemma uint_mod_sint: "uint (v :: u64) = sint v mod 2 ^ 64"
  using uint_sint [of v] by (simp add: take_bit_eq_mod)

lemma sint_u64_range: "- (2 ^ 63) \<le> sint (v :: u64)" "sint (v :: u64) < 2 ^ 63"
  using sint_ge [of v] sint_lt [of v] by simp_all

lemma uint_u64_lt: "uint (w :: u64) < 2 ^ 64"
  using uint_lt2p [of w] by simp

lemma mod_add_2_64: "- (2 ^ 64) \<le> i \<Longrightarrow> i < 0 \<Longrightarrow> i mod 2 ^ 64 = i + 2 ^ 64" for i :: int
  by (metis add_less_same_cancel2 le_add_same_cancel2 minus_le_iff mod_add_self2 mod_pos_pos_trivial add.commute le_minus_iff neg_le_iff_le add_increasing2 diff_ge_0_iff_ge diff_minus_eq_add uminus_add_conv_diff)

lemma uint_sint_cases:
  "uint (v :: u64) = (if sint v < 0 then sint v + 2 ^ 64 else sint v)"
  using sint_u64_range [of v] mod_add_2_64 [of "sint v"] by (simp add: uint_mod_sint)

lemma uint_not_u64: "uint (NOT w) = 2 ^ 64 - 1 - uint (w :: u64)"
proof -
  have "- (2 ^ 64) \<le> - uint w - 1" "- uint w - 1 < 0"
    using uint_u64_lt [of w] uint_ge_0 [of w] by linarith+
  then have "(- uint w - 1) mod 2 ^ 64 = 2 ^ 64 - 1 - uint w"
    by (simp only: mod_add_2_64)
  moreover have "uint (NOT w) = (- uint w - 1) mod 2 ^ 64"
    by (simp add: not_eq_complement uint_word_ariths mod_simps)
  ultimately show ?thesis by simp
qed

lemma uint_push_bit_1: "uint (push_bit 1 (v :: u64)) = (2 * uint v) mod 2 ^ 64"
  by (simp add: push_bit_eq_mult uint_word_ariths mult.commute)

lemma unat_ucast_u32_u64: "unat (ucast (w :: u32) :: u64) = unat w"
  using unat_u32_lt [of w] by (simp add: unsigned_ucast_eq take_bit_eq_mod)

lemma byte_at:
  "(ucast (drop_bit k v AND 0xFF :: 'a :: len word) :: u8) = word_of_nat (unat v div 2 ^ k)"
proof -
  have "drop_bit k v AND 0xFF = take_bit 8 (drop_bit k v)"
    by (simp add: take_bit_eq_mask mask_eq_exp_minus_1)
  moreover have "(ucast (take_bit 8 (drop_bit k v)) :: u8) = ucast (drop_bit k v)"
    by (rule bit_word_eqI) (auto simp: bit_simps dest: bit_imp_le_length)
  moreover have "(ucast (drop_bit k v) :: u8) = word_of_nat (unat (drop_bit k v))"
    by (simp add: word_unat_eq_iff unsigned_ucast_eq unat_of_nat take_bit_eq_mod)
  ultimately show ?thesis by (simp only: unat_drop_bit_word)
qed

lemma word_of_nat_mod_256 [simp]: "(word_of_nat (n mod 256) :: u8) = word_of_nat n"
  by (simp add: word_unat_eq_iff unat_of_nat)

lemma byte_at_0:
  "(ucast (v AND 0xFF :: 'a :: len word) :: u8) = word_of_nat (unat v)"
  using byte_at [of 0 v] by simp

lemma le_bytes_shift: "le_bytes n (x div 2 ^ (8 * k)) =
    map (\<lambda>i. word_of_nat (x div 2 ^ (8 * i))) [k..<k + n]"
proof (induction n arbitrary: k)
  case 0
  then show ?case by simp
next
  case (Suc n)
  have "x div 2 ^ (8 * k) div 256 = x div 2 ^ (8 * Suc k)"
    by (simp add: power_add flip: div_mult2_eq) (simp add: mult.commute)
  then show ?case using Suc [of "Suc k"] by (simp add: upt_conv_Cons del: upt_Suc)
qed

lemma le_bytes_map: "le_bytes n x = map (\<lambda>i. word_of_nat (x div 2 ^ (8 * i))) [0..<n]"
  using le_bytes_shift [of n x 0] by simp

lemma list_all_True [simp]: "list_all (\<lambda>x. True) xs"
  by (simp add: list_all_iff)

lemma and_single: "x AND push_bit n 1 = (if bit x n then push_bit n 1 else 0)" for x :: "'a :: len word"
  by (rule bit_word_eqI) (auto simp: bit_and_iff bit_exp_iff)

end
