(* ===== verification/CMemory.thy ===== *)
theory CMemory
  imports Prelude
begin

text \<open>
  The memory a message structure lives in. An address is an integer; the memory maps every
  address to a byte. Integers wider than a byte are stored little-endian, a pointer takes
  eight bytes, \<open>bool\<close> one byte (\<open>sizeof(bool)\<close> on the 64-bit targets of the pods).
  The heap of \<open>malloc\<close>ed blocks is kept beside the bytes: the list of live blocks, each
  with its address and size. \<open>realloc\<close> asks an allocation strategy, a parameter of the
  model, for the address of the new block; \<open>free\<close> of a pointer that is neither NULL nor a
  live block is undefined behaviour in C and is recorded in the flag \<open>bad_free\<close>.
\<close>

type_synonym addr = int
type_synonym mem = "addr \<Rightarrow> u8"

section \<open>Loads and stores\<close>

definition load_bytes :: "mem \<Rightarrow> addr \<Rightarrow> nat \<Rightarrow> u8 list" where
  "load_bytes m a n = map (\<lambda>i. m (a + int i)) [0..<n]"

definition store_bytes :: "mem \<Rightarrow> addr \<Rightarrow> u8 list \<Rightarrow> mem" where
  "store_bytes m a bs =
     (\<lambda>x. if a \<le> x \<and> x < a + int (length bs) then bs ! nat (x - a) else m x)"

definition load_word :: "mem \<Rightarrow> addr \<Rightarrow> 'a :: len word" where
  "load_word m a = word_of_nat (le_nat (load_bytes m a (LENGTH('a) div 8)))"

definition store_word :: "mem \<Rightarrow> addr \<Rightarrow> 'a :: len word \<Rightarrow> mem" where
  "store_word m a w = store_bytes m a (le_bytes (LENGTH('a) div 8) (unat w))"

definition load_ptr :: "mem \<Rightarrow> addr \<Rightarrow> addr" where
  "load_ptr m a = uint (load_word m a :: u64)"

definition store_ptr :: "mem \<Rightarrow> addr \<Rightarrow> addr \<Rightarrow> mem" where
  "store_ptr m a p = store_word m a (word_of_int p :: u64)"

definition store_bool :: "mem \<Rightarrow> addr \<Rightarrow> bool \<Rightarrow> mem" where
  "store_bool m a b = store_word m a (if b then 1 else 0 :: u8)"

lemma length_load_bytes [simp]: "length (load_bytes m a n) = n"
  by (simp add: load_bytes_def)

lemma nth_load_bytes [simp]: "i < n \<Longrightarrow> load_bytes m a n ! i = m (a + int i)"
  by (simp add: load_bytes_def)

lemma load_store_bytes_same [simp]:
  "n = length bs \<Longrightarrow> load_bytes (store_bytes m a bs) a n = bs"
  by (rule nth_equalityI) (auto simp: store_bytes_def)

lemma store_bytes_apply_outside:
  "x < a \<or> a + int (length bs) \<le> x \<Longrightarrow> store_bytes m a bs x = m x"
  by (auto simp: store_bytes_def)

lemma load_bytes_cong:
  "(\<And>i. i < n \<Longrightarrow> m (a + int i) = m' (a + int i)) \<Longrightarrow> load_bytes m a n = load_bytes m' a n"
  by (auto simp: load_bytes_def)

lemma load_store_bytes_disjoint:
  "b + int n \<le> a \<or> a + int (length bs) \<le> b \<Longrightarrow>
     load_bytes (store_bytes m a bs) b n = load_bytes m b n"
  by (rule load_bytes_cong) (auto simp: store_bytes_def)

lemma load_bytes_0 [simp]: "load_bytes m a 0 = []"
  by (simp add: load_bytes_def)

lemma load_bytes_Suc: "load_bytes m a (Suc n) = m a # load_bytes m (a + 1) n"
  by (rule nth_equalityI) (auto simp: nth_Cons algebra_simps split: nat.split)

lemma load_store_word_same:
  assumes "8 dvd LENGTH('a :: len)"
  shows "load_word (store_word m a (w :: 'a word)) a = w"
proof -
  have "256 ^ (LENGTH('a) div 8) = (2 :: nat) ^ LENGTH('a)"
    using assms power_mult [of "2 :: nat" 8 "LENGTH('a) div 8"] by simp
  moreover have "unat w mod 2 ^ LENGTH('a) = unat w"
    using unsigned_less [of w] by simp
  ultimately show ?thesis
    by (simp add: load_word_def store_word_def le_nat_le_bytes)
qed

lemma load_store_word_8 [simp]: "load_word (store_word m a (w :: u8)) a = w"
  by (rule load_store_word_same) simp

lemma load_store_word_16 [simp]: "load_word (store_word m a (w :: u16)) a = w"
  by (rule load_store_word_same) simp

lemma load_store_word_32 [simp]: "load_word (store_word m a (w :: u32)) a = w"
  by (rule load_store_word_same) simp

lemma load_store_word_64 [simp]: "load_word (store_word m a (w :: u64)) a = w"
  by (rule load_store_word_same) simp

lemma load_word_store_bytes_disjoint:
  "b + int (LENGTH('a :: len) div 8) \<le> a \<or> a + int (length bs) \<le> b \<Longrightarrow>
     load_word (store_bytes m a bs) b = (load_word m b :: 'a word)"
  by (simp add: load_word_def load_store_bytes_disjoint)

lemma load_store_ptr_same [simp]:
  "0 \<le> p \<Longrightarrow> p < 2 ^ 64 \<Longrightarrow> load_ptr (store_ptr m a p) a = p"
  by (simp add: load_ptr_def store_ptr_def uint_word_of_int)

section \<open>Frames: which addresses an operation may have changed\<close>

definition same_outside :: "addr set \<Rightarrow> mem \<Rightarrow> mem \<Rightarrow> bool" where
  "same_outside A m m' \<longleftrightarrow> (\<forall>x. x \<notin> A \<longrightarrow> m' x = m x)"

lemma same_outside_refl [simp, intro]: "same_outside A m m"
  by (simp add: same_outside_def)

lemma same_outside_trans:
  "same_outside A m m' \<Longrightarrow> same_outside A m' m'' \<Longrightarrow> same_outside A m m''"
  by (simp add: same_outside_def)

lemma same_outside_mono: "same_outside A m m' \<Longrightarrow> A \<subseteq> B \<Longrightarrow> same_outside B m m'"
  by (auto simp: same_outside_def)

lemma same_outside_store_bytes:
  "{a ..< a + int (length bs)} \<subseteq> A \<Longrightarrow> same_outside A m (store_bytes m a bs)"
  by (auto simp: same_outside_def store_bytes_def)

lemma same_outside_store_word:
  "{a ..< a + int (LENGTH('a :: len) div 8)} \<subseteq> A \<Longrightarrow>
     same_outside A m (store_word m a (w :: 'a word))"
  unfolding store_word_def by (rule same_outside_store_bytes) simp

section \<open>The heap\<close>

text \<open>
  The state of the C program a decoder works on: the bytes, the live blocks of the heap and
  two flags. \<open>bad_free\<close> records that a pointer which is no live block was freed or
  reallocated, \<open>stuck\<close> that the model stopped following an execution (a recursion deeper
  than the fuel given, or a user callback that makes no progress in a loop that waits for it).
  An allocator answers a request for a size, given the live blocks, with an address or not at
  all; the C library's allocator is a parameter of the model.
\<close>

record cstate =
  mem :: mem
  blocks :: "(addr \<times> nat) list"
  bad_free :: bool
  stuck :: bool

type_synonym allocator = "(addr \<times> nat) list \<Rightarrow> nat \<Rightarrow> addr option"

definition live :: "cstate \<Rightarrow> addr \<Rightarrow> bool" where
  "live c p \<longleftrightarrow> p \<in> fst ` set (blocks c)"

definition without_block :: "addr \<Rightarrow> (addr \<times> nat) list \<Rightarrow> (addr \<times> nat) list" where
  "without_block p bs = filter (\<lambda>b. fst b \<noteq> p) bs"

definition block_size :: "(addr \<times> nat) list \<Rightarrow> addr \<Rightarrow> nat" where
  "block_size bs p = (case map_of bs p of Some n \<Rightarrow> n | None \<Rightarrow> 0)"

definition pb_realloc :: "allocator \<Rightarrow> addr \<Rightarrow> nat \<Rightarrow> cstate \<Rightarrow> addr \<times> cstate" where
  "pb_realloc alloc p n c =
     (if p \<noteq> 0 \<and> \<not> live c p then (0, c\<lparr>bad_free := True\<rparr>)
      else
        let rest = without_block p (blocks c);
            old = load_bytes (mem c) p (min (block_size (blocks c) p) n)
        in case alloc rest n of
             None \<Rightarrow> (0, c)
           | Some q \<Rightarrow> (q, c\<lparr>mem := store_bytes (mem c) q old, blocks := (q, n) # rest\<rparr>))"

definition pb_free :: "addr \<Rightarrow> cstate \<Rightarrow> cstate" where
  "pb_free p c =
     (if p = 0 then c
      else if live c p then c\<lparr>blocks := without_block p (blocks c)\<rparr>
      else c\<lparr>bad_free := True\<rparr>)"

text \<open>What \<open>malloc\<close> promises: a non-null block inside the address space, apart from the others.\<close>

definition apart :: "addr \<times> nat \<Rightarrow> addr \<times> nat \<Rightarrow> bool" where
  "apart a b \<longleftrightarrow> fst a + int (snd a) \<le> fst b \<or> fst b + int (snd b) \<le> fst a"

definition good_allocator :: "allocator \<Rightarrow> bool" where
  "good_allocator alloc \<longleftrightarrow>
     (\<forall>bs n q. alloc bs n = Some q \<longrightarrow>
        0 < q \<and> q + int n < 2 ^ 64 \<and> list_all (apart (q, n)) bs)"

end
