(* ===== verification/PbTypes.thy ===== *)
theory PbTypes
  imports CMemory
begin

text \<open>
  The data model of \<open>nanopb/pb.h\<close>: the type byte of a field and its masks, the field
  descriptor \<open>pb_field_t\<close>, the wire types, the extension structures and the macros that
  build descriptor tables from a C structure. The options are those of the pod's build
  settings: \<open>PB_FIELD_32BIT\<close> (so \<open>pb_size_t\<close> has 32 bits), \<open>PB_ENABLE_MALLOC\<close> and
  \<open>PB_NO_PACKED_STRUCTS\<close>, with 64-bit integers, error messages and packed arrays enabled.
  The numbers of a descriptor are compile-time constants and are natural numbers here
  (\<open>size_offset\<close>, which may be negative, is an integer); the tag is compared with decoded
  32-bit tags and keeps its width.
\<close>

type_synonym pb_type_t = u8
type_synonym pb_size_t = u32
type_synonym pb_byte_t = u8

section \<open>The type byte\<close>

definition PB_LTYPE_BOOL :: pb_type_t where "PB_LTYPE_BOOL = 0x00"
definition PB_LTYPE_VARINT :: pb_type_t where "PB_LTYPE_VARINT = 0x01"
definition PB_LTYPE_UVARINT :: pb_type_t where "PB_LTYPE_UVARINT = 0x02"
definition PB_LTYPE_SVARINT :: pb_type_t where "PB_LTYPE_SVARINT = 0x03"
definition PB_LTYPE_FIXED32 :: pb_type_t where "PB_LTYPE_FIXED32 = 0x04"
definition PB_LTYPE_FIXED64 :: pb_type_t where "PB_LTYPE_FIXED64 = 0x05"
definition PB_LTYPE_LAST_PACKABLE :: pb_type_t where "PB_LTYPE_LAST_PACKABLE = 0x05"
definition PB_LTYPE_BYTES :: pb_type_t where "PB_LTYPE_BYTES = 0x06"
definition PB_LTYPE_STRING :: pb_type_t where "PB_LTYPE_STRING = 0x07"
definition PB_LTYPE_SUBMESSAGE :: pb_type_t where "PB_LTYPE_SUBMESSAGE = 0x08"
definition PB_LTYPE_EXTENSION :: pb_type_t where "PB_LTYPE_EXTENSION = 0x09"
definition PB_LTYPE_FIXED_LENGTH_BYTES :: pb_type_t where "PB_LTYPE_FIXED_LENGTH_BYTES = 0x0A"
definition PB_LTYPE_MASK :: pb_type_t where "PB_LTYPE_MASK = 0x0F"

definition PB_HTYPE_REQUIRED :: pb_type_t where "PB_HTYPE_REQUIRED = 0x00"
definition PB_HTYPE_OPTIONAL :: pb_type_t where "PB_HTYPE_OPTIONAL = 0x10"
definition PB_HTYPE_REPEATED :: pb_type_t where "PB_HTYPE_REPEATED = 0x20"
definition PB_HTYPE_ONEOF :: pb_type_t where "PB_HTYPE_ONEOF = 0x30"
definition PB_HTYPE_MASK :: pb_type_t where "PB_HTYPE_MASK = 0x30"

definition PB_ATYPE_STATIC :: pb_type_t where "PB_ATYPE_STATIC = 0x00"
definition PB_ATYPE_POINTER :: pb_type_t where "PB_ATYPE_POINTER = 0x80"
definition PB_ATYPE_CALLBACK :: pb_type_t where "PB_ATYPE_CALLBACK = 0x40"
definition PB_ATYPE_MASK :: pb_type_t where "PB_ATYPE_MASK = 0xC0"

definition PB_ATYPE :: "pb_type_t \<Rightarrow> pb_type_t" where "PB_ATYPE x = x AND PB_ATYPE_MASK"
definition PB_HTYPE :: "pb_type_t \<Rightarrow> pb_type_t" where "PB_HTYPE x = x AND PB_HTYPE_MASK"
definition PB_LTYPE :: "pb_type_t \<Rightarrow> pb_type_t" where "PB_LTYPE x = x AND PB_LTYPE_MASK"

lemmas pb_ltype_defs =
  PB_LTYPE_BOOL_def PB_LTYPE_VARINT_def PB_LTYPE_UVARINT_def PB_LTYPE_SVARINT_def
  PB_LTYPE_FIXED32_def PB_LTYPE_FIXED64_def PB_LTYPE_LAST_PACKABLE_def PB_LTYPE_BYTES_def
  PB_LTYPE_STRING_def PB_LTYPE_SUBMESSAGE_def PB_LTYPE_EXTENSION_def
  PB_LTYPE_FIXED_LENGTH_BYTES_def PB_LTYPE_MASK_def

lemmas pb_htype_defs =
  PB_HTYPE_REQUIRED_def PB_HTYPE_OPTIONAL_def PB_HTYPE_REPEATED_def PB_HTYPE_ONEOF_def
  PB_HTYPE_MASK_def

lemmas pb_atype_defs =
  PB_ATYPE_STATIC_def PB_ATYPE_POINTER_def PB_ATYPE_CALLBACK_def PB_ATYPE_MASK_def

lemmas pb_type_defs = pb_ltype_defs pb_htype_defs pb_atype_defs PB_ATYPE_def PB_HTYPE_def PB_LTYPE_def

lemma htype_cases:
  "PB_HTYPE x = PB_HTYPE_REQUIRED \<or> PB_HTYPE x = PB_HTYPE_OPTIONAL \<or>
   PB_HTYPE x = PB_HTYPE_REPEATED \<or> PB_HTYPE x = PB_HTYPE_ONEOF"
proof -
  have "(0x30 :: u8) = push_bit 4 1 OR push_bit 5 1" by simp
  then have "x AND 0x30 = (x AND push_bit 4 1) OR (x AND push_bit 5 1)"
    by (simp only: bit.conj_disj_distrib)
  then show ?thesis
    unfolding PB_HTYPE_def pb_htype_defs and_single by auto
qed

lemma htype_distinct:
  "PB_HTYPE_REQUIRED \<noteq> PB_HTYPE_OPTIONAL" "PB_HTYPE_REQUIRED \<noteq> PB_HTYPE_REPEATED"
  "PB_HTYPE_REQUIRED \<noteq> PB_HTYPE_ONEOF" "PB_HTYPE_OPTIONAL \<noteq> PB_HTYPE_REPEATED"
  "PB_HTYPE_OPTIONAL \<noteq> PB_HTYPE_ONEOF" "PB_HTYPE_REPEATED \<noteq> PB_HTYPE_ONEOF"
  by (simp_all add: pb_htype_defs)

definition PB_SIZE_MAX :: nat where "PB_SIZE_MAX = 2 ^ 32 - 1"

definition PB_MAX_REQUIRED_FIELDS :: nat where "PB_MAX_REQUIRED_FIELDS = 64"

section \<open>Field descriptors\<close>

text \<open>
  \<open>ptr\<close> is a pointer to the descriptor table of a submessage or to a default value, or
  NULL. Tables are finite trees here: C could tie a cycle through a pointer field, and no
  table of the repository does. A table is the list of its entries before the terminator
  \<open>PB_LAST_FIELD\<close>, and \<open>field_at\<close> reads the terminator past their end.
\<close>

datatype pb_field =
  Pb_field (tag: u32) (ftype: pb_type_t) (data_offset: nat) (size_offset: int)
    (data_size: nat) (array_size: nat) (ptr: pb_ptr)
and pb_ptr = PNull | PFields "pb_field list" | PDefault "u8 list"

definition PB_LAST_FIELD :: pb_field where
  "PB_LAST_FIELD = Pb_field 0 0 0 0 0 0 PNull"

definition field_at :: "pb_field list \<Rightarrow> nat \<Rightarrow> pb_field" where
  "field_at fs i = (if i < length fs then fs ! i else PB_LAST_FIELD)"

fun sub_fields :: "pb_ptr \<Rightarrow> pb_field list" where
  "sub_fields (PFields fs) = fs"
| "sub_fields PNull = []"
| "sub_fields (PDefault bs) = []"

text \<open>The depth of nested submessage tables below a field.\<close>

fun field_depth :: "pb_field \<Rightarrow> nat" and ptr_depth :: "pb_ptr \<Rightarrow> nat" where
  "field_depth (Pb_field t ty d s z a p) = ptr_depth p"
| "ptr_depth (PFields fs) = Suc (Max (set (0 # map field_depth fs)))"
| "ptr_depth PNull = 0"
| "ptr_depth (PDefault bs) = 0"

definition fields_depth :: "pb_field list \<Rightarrow> nat" where
  "fields_depth fs = Max (set (0 # map field_depth fs))"

lemma field_depth_le: "f \<in> set fs \<Longrightarrow> field_depth f \<le> fields_depth fs"
  by (simp add: fields_depth_def)

lemma fields_depth_sub:
  "ptr f = PFields fs \<Longrightarrow> fields_depth fs < field_depth f"
  by (cases f) (simp add: fields_depth_def)

text \<open>\<open>PB_BYTES_ARRAY_T_ALLOCSIZE\<close>: the bytes start after the 32-bit size.\<close>

definition PB_BYTES_ARRAY_T_ALLOCSIZE :: "u32 \<Rightarrow> u64" where
  "PB_BYTES_ARRAY_T_ALLOCSIZE n = ucast n + 4"

section \<open>Wire types and extensions\<close>

definition PB_WT_VARINT :: u32 where "PB_WT_VARINT = 0"
definition PB_WT_64BIT :: u32 where "PB_WT_64BIT = 1"
definition PB_WT_STRING :: u32 where "PB_WT_STRING = 2"
definition PB_WT_32BIT :: u32 where "PB_WT_32BIT = 5"

lemmas pb_wt_defs = PB_WT_VARINT_def PB_WT_64BIT_def PB_WT_STRING_def PB_WT_32BIT_def

text \<open>
  A \<open>pb_extension_t\<close> lives in memory at \<open>ext_addr\<close>: the type pointer at offset 0, the
  destination at offset 8, the next pointer at offset 16 and the \<open>found\<close> flag at offset 24.
  The fields of its type are constants of the record: the two handlers are function pointers,
  0 being NULL, and \<open>ext_arg\<close> is the field descriptor that the default handlers use. The
  linked list that starts at a pointer is a parameter of the model.
\<close>

record pb_extension =
  ext_addr :: addr
  ext_decode :: addr
  ext_encode :: addr
  ext_arg :: pb_field

definition ext_dest_addr :: "pb_extension \<Rightarrow> addr" where
  "ext_dest_addr e = ext_addr e + 8"

definition ext_found_addr :: "pb_extension \<Rightarrow> addr" where
  "ext_found_addr e = ext_addr e + 24"

end
