(* ===== verification/PbWire.thy ===== *)
theory PbWire
  imports PbTypes
begin

text \<open>
  The wire format the codecs implement, stated without streams: base-128 varints of natural
  numbers with the continuation bit in the high bit of every byte but the last, and the
  zigzag map of signed integers. The codec theories show that the encoders write exactly
  these bytes and that the decoders read them back.
\<close>

section \<open>Base-128 varints\<close>

fun leb128 :: "nat \<Rightarrow> u8 list" where
  "leb128 n =
     (if n < 128 then [word_of_nat n]
      else word_of_nat (n mod 128 + 128) # leb128 (n div 128))"

declare leb128.simps [simp del]

fun leb128_value :: "u8 list \<Rightarrow> nat" where
  "leb128_value [] = 0"
| "leb128_value (b # bs) = unat b mod 128 + 128 * leb128_value bs"

definition has_cont :: "u8 \<Rightarrow> bool" where
  "has_cont b \<longleftrightarrow> b AND 0x80 \<noteq> 0"

lemma has_cont_bit: "has_cont b \<longleftrightarrow> bit b 7"
  using and_exp_eq_0_iff_not_bit [of b 7] by (simp add: has_cont_def)

lemma has_cont_unat: "has_cont b \<longleftrightarrow> 128 \<le> unat b"
proof -
  have "bit b 7 \<longleftrightarrow> bit (unat b) 7"
    by (simp add: bit_unsigned_iff)
  also have "\<dots> \<longleftrightarrow> odd (unat b div 2 ^ 7)"
    by (rule bit_iff_odd)
  also have "\<dots> \<longleftrightarrow> 128 \<le> unat b"
  proof -
    have "unat b div 2 ^ 7 = (if 128 \<le> unat b then 1 else 0)"
      using unat_u8_lt [of b] by (simp add: div_nat_eqI)
    then show ?thesis by simp
  qed
  finally show ?thesis by (simp add: has_cont_bit)
qed

lemma unat_cont_byte [simp]:
  "k < 128 \<Longrightarrow> unat (word_of_nat k + 128 :: u8) = k + 128"
  using unat_of_nat_u8 [of "k + 128"] by simp

lemma length_leb128_pos [simp]: "0 < length (leb128 n)"
  by (simp add: leb128.simps)

lemma leb128_not_Nil [simp]: "leb128 n \<noteq> []"
  using length_leb128_pos [of n] by blast

lemma leb128_value_leb128: "leb128_value (leb128 n) = n"
proof (induction n rule: leb128.induct)
  case (1 n)
  then show ?case
    by (cases "n < 128") (simp_all add: leb128.simps [of n] unat_of_nat_u8)
qed

lemma leb128_cont: "i < length (leb128 n) \<Longrightarrow> has_cont (leb128 n ! i) \<longleftrightarrow> Suc i < length (leb128 n)"
proof (induction n arbitrary: i rule: leb128.induct)
  case (1 n)
  show ?case
  proof (cases "n < 128")
    case True
    then show ?thesis using 1 by (simp add: leb128.simps [of n] has_cont_unat unat_of_nat_u8)
  next
    case False
    have "has_cont (word_of_nat (n mod 128 + 128))"
      by (simp add: has_cont_unat)
    with 1 False show ?thesis
      by (cases i) (auto simp: leb128.simps [of n])
  qed
qed

lemma leb128_length: "0 < k \<Longrightarrow> n < 128 ^ k \<Longrightarrow> length (leb128 n) \<le> k"
proof (induction k arbitrary: n)
  case 0
  then show ?case by simp
next
  case (Suc k)
  show ?case
  proof (cases "n < 128")
    case True
    then show ?thesis by (simp add: leb128.simps)
  next
    case False
    with Suc.prems have "0 < k" by (cases k) auto
    moreover have "n div 128 < 128 ^ k"
      using Suc.prems by (simp add: less_mult_imp_div_less mult.commute)
    ultimately show ?thesis using Suc.IH False by (simp add: leb128.simps [of n])
  qed
qed

lemma length_leb128_u64: "length (leb128 (unat (v :: u64))) \<le> 10"
proof -
  have "unat v < 2 ^ 64" by (rule unat_u64_lt)
  also have "(2 :: nat) ^ 64 \<le> 128 ^ 10" by simp
  finally show ?thesis by (intro leb128_length) simp_all
qed

lemma has_cont_alt: "b AND 0x80 \<noteq> 0 \<longleftrightarrow> has_cont b"
  by (simp add: has_cont_def)

definition varint_span :: "u8 list \<Rightarrow> nat" where
  "varint_span bs = length (takeWhile has_cont bs)"

lemma varint_span_simps [simp]:
  "varint_span [] = 0"
  "varint_span (b # bs) = (if has_cont b then Suc (varint_span bs) else 0)"
  by (simp_all add: varint_span_def)

lemma varint_span_leb128: "varint_span (leb128 n @ rest) = length (leb128 n) - 1"
proof (induction n rule: leb128.induct)
  case (1 n)
  show ?case
  proof (cases "n < 128")
    case True
    then show ?thesis by (simp add: leb128.simps [of n] has_cont_unat unat_of_nat_u8)
  next
    case False
    have "has_cont (word_of_nat (n mod 128) + 128)" by (simp add: has_cont_unat)
    with 1 False show ?thesis by (simp add: leb128.simps [of n] Suc_pred')
  qed
qed

lemma chunk_bound:
  assumes "x < 2 ^ (7 * j)"
  shows "x + 2 ^ (7 * j) * (unat (b :: u8) mod 128) < 2 ^ (7 * Suc j)"
proof -
  have "unat b mod 128 \<le> 127" using mod_less_divisor [of 128 "unat b"] by linarith
  then have "2 ^ (7 * j) * (unat b mod 128) \<le> 2 ^ (7 * j) * 127" by (rule mult_le_mono2)
  then have "x + 2 ^ (7 * j) * (unat b mod 128) < 2 ^ (7 * j) + 2 ^ (7 * j) * 127"
    using assms by linarith
  then show ?thesis by (simp add: power_add)
qed

lemma leb128_value_bound: "leb128_value bs < 2 ^ (7 * length bs)"
proof (induction bs)
  case Nil
  then show ?case by simp
next
  case (Cons b bs)
  have "unat b mod 128 < 128" by simp
  moreover have "128 * leb128_value bs + 128 \<le> 128 * 2 ^ (7 * length bs)"
    using Cons.IH by simp
  ultimately show ?case by (simp add: power_add)
qed

lemma leb128_value_append:
  "leb128_value (as @ bs) = leb128_value as + 2 ^ (7 * length as) * leb128_value bs"
  by (induction as) (simp_all add: power_add algebra_simps)

lemma and_0x70: "b AND 0x70 = (0 :: u8) \<longleftrightarrow> unat b mod 128 < 16"
proof -
  have "(0x70 :: u8) = push_bit 4 (mask 3)"
    by (simp add: push_bit_eq_mult mask_eq_exp_minus_1)
  then have "b AND 0x70 = push_bit 4 (take_bit 3 (drop_bit 4 b))"
    by (intro bit_word_eqI)
      (auto simp only: bit_and_iff bit_push_bit_iff bit_mask_iff bit_take_bit_iff bit_drop_bit_eq
        comp_apply possible_bit_word le_add_diff_inverse)
  moreover have w: "unat (take_bit 3 (drop_bit 4 b)) = unat b div 16 mod 8"
    unfolding unsigned_take_bit_eq unat_drop_bit_word by (simp add: take_bit_eq_mod)
  moreover have "unat (push_bit 4 (take_bit 3 (drop_bit 4 b)))
      = 16 * unat (take_bit 3 (drop_bit 4 b))"
  proof -
    have "16 * (unat b div 16 mod 8) < 256" using mod_less_divisor [of 8 "unat b div 16"] by linarith
    then show ?thesis unfolding push_bit_eq_mult unat_word_ariths w by simp
  qed
  moreover have "unat b div 16 mod 8 = 0 \<longleftrightarrow> unat b mod 128 < 16"
    using mod_mult2_eq [of "unat b" 16 8] mod_less_divisor [of 16 "unat b"] by simp linarith
  ultimately show ?thesis
    by (metis mult_eq_0_iff unat_eq_zero zero_neq_numeral)
qed

lemma or_chunk:
  assumes "x < 2 ^ n"
  shows "word_of_nat x OR push_bit n (ucast (b AND 0x7F :: u8))
    = (word_of_nat (x + 2 ^ n * (unat b mod 128)) :: 'a :: len word)"
proof -
  have "take_bit n (word_of_nat x :: 'a word) = word_of_nat (take_bit n x)"
    by (rule bit_word_eqI) (auto simp: bit_simps)
  also have "take_bit n x = x" using assms by (simp add: take_bit_nat_eq_self)
  finally have t: "take_bit n (word_of_nat x :: 'a word) = word_of_nat x" .
  have d: "(word_of_nat x :: 'a word) AND push_bit n y = 0" for y
    by (subst t [symmetric], rule bit_word_eqI)
      (auto simp: bit_and_iff bit_take_bit_iff bit_push_bit_iff)
  have "(ucast (b AND 0x7F) :: 'a word) = word_of_nat (unat b mod 128)"
    unfolding unat_and_mask7 [symmetric] by simp
  moreover have "push_bit n (word_of_nat (unat b mod 128)) =
      (word_of_nat (2 ^ n * (unat b mod 128)) :: 'a word)"
    by (simp add: push_bit_eq_mult mult.commute)
  ultimately show ?thesis
    using disjunctive_add_eq_or [OF d, of "ucast (b AND 0x7F)"] by (simp only: of_nat_add)
qed

section \<open>Zigzag integers and field tags\<close>

definition zigzag :: "int \<Rightarrow> nat" where
  "zigzag i = nat (if i < 0 then - 2 * i - 1 else 2 * i)"

definition tag_number :: "u32 \<Rightarrow> u32 \<Rightarrow> nat" where
  "tag_number wiretype field_number = 8 * unat field_number + unat wiretype"

end
