(* ===== verification/PbOStream.thy ===== *)
theory PbOStream
  imports PbWire
begin

text \<open>
  Output streams and the scalar encoders of \<open>nanopb/pb_encode.c\<close>. A stream's callback and
  state pointer are one value: \<open>Sizing\<close> is the NULL callback of \<open>PB_OSTREAM_SIZING\<close>,
  \<open>OBuf out cap\<close> is \<open>buf_write\<close> with the state pointer just after the bytes \<open>out\<close> of
  a buffer object of \<open>cap\<close> bytes, and \<open>OCustom f\<close> is a user callback \<open>f\<close> together with
  its state. The counters have the width of \<open>size_t\<close>, since the code tests their overflow.
\<close>

section \<open>The stream\<close>

codatatype ostate =
  is_Sizing: Sizing
| OBuf (obuf: "u8 list") (ocap: nat)
| OCustom "u8 list \<Rightarrow> bool \<times> ostate"

record pb_ostream =
  o_state :: ostate
  max_size :: u64
  bytes_written :: u64
  o_errmsg :: "string option"

definition PB_SET_OERROR :: "string \<Rightarrow> pb_ostream \<Rightarrow> pb_ostream" where
  "PB_SET_OERROR msg s =
     s\<lparr>o_errmsg := (case o_errmsg s of Some e \<Rightarrow> Some e | None \<Rightarrow> Some msg)\<rparr>"

definition PB_RETURN_OERROR :: "string \<Rightarrow> pb_ostream \<Rightarrow> bool \<times> pb_ostream" where
  "PB_RETURN_OERROR msg s = (False, PB_SET_OERROR msg s)"

text \<open>A write past the buffer object is undefined in C; the model reports it as a failure.\<close>

definition buf_write :: "pb_ostream \<Rightarrow> u8 list \<Rightarrow> bool \<times> pb_ostream" where
  "buf_write s buf =
     (if length (obuf (o_state s)) + length buf \<le> ocap (o_state s)
      then (True, s\<lparr>o_state := OBuf (obuf (o_state s) @ buf) (ocap (o_state s))\<rparr>)
      else (False, s))"

definition ostream_callback :: "pb_ostream \<Rightarrow> u8 list \<Rightarrow> bool \<times> pb_ostream" where
  "ostream_callback s buf =
     (case o_state s of
        OCustom f \<Rightarrow> (case f buf of (ok, st) \<Rightarrow> (ok, s\<lparr>o_state := st\<rparr>))
      | OBuf out cap \<Rightarrow> buf_write s buf
      | Sizing \<Rightarrow> (False, s))"

definition pb_ostream_from_buffer :: "nat \<Rightarrow> u64 \<Rightarrow> pb_ostream" where
  "pb_ostream_from_buffer cap bufsize =
     \<lparr>o_state = OBuf [] cap, max_size = bufsize, bytes_written = 0, o_errmsg = None\<rparr>"

definition PB_OSTREAM_SIZING :: pb_ostream where
  "PB_OSTREAM_SIZING = \<lparr>o_state = Sizing, max_size = 0, bytes_written = 0, o_errmsg = None\<rparr>"

definition pb_write :: "pb_ostream \<Rightarrow> u8 list \<Rightarrow> u64 \<Rightarrow> bool \<times> pb_ostream" where
  "pb_write s buf count =
     (if 0 < count \<and> \<not> is_Sizing (o_state s) then
        (if bytes_written s + count < bytes_written s \<or> max_size s < bytes_written s + count
         then PB_RETURN_OERROR ''stream full'' s
         else (case ostream_callback s (take (unat count) buf) of
             (False, s') \<Rightarrow> PB_RETURN_OERROR ''io error'' s'
           | (True, s') \<Rightarrow> (True, s'\<lparr>bytes_written := bytes_written s' + count\<rparr>)))
      else (True, s\<lparr>bytes_written := bytes_written s + count\<rparr>))"

section \<open>Scalar encoders\<close>

lemma unat_drop_bit_less: "v \<noteq> 0 \<Longrightarrow> unat (drop_bit 7 (v :: u64)) < unat v"
proof -
  assume "v \<noteq> 0"
  then have "0 < unat v" by (simp add: unat_gt_0)
  then show ?thesis by (simp only: unat_drop_bit_word) simp
qed

text \<open>The loop that fills \<open>buffer\<close>, seven bits a byte, each with the continuation bit.\<close>

function encode_varint_loop :: "u64 \<Rightarrow> u8 list" where
  "encode_varint_loop value =
     (if value = 0 then []
      else (ucast (value AND 0x7F) OR 0x80) # encode_varint_loop (drop_bit 7 value))"
  by pat_completeness auto
termination
  by (relation "measure unat") (auto simp: unat_drop_bit_less)

declare encode_varint_loop.simps [simp del]

definition pb_encode_varint :: "pb_ostream \<Rightarrow> u64 \<Rightarrow> bool \<times> pb_ostream" where
  "pb_encode_varint s value =
     (if value \<le> 0x7F then pb_write s [ucast value] 1
      else
        let buffer = encode_varint_loop value;
            i = length buffer
        in pb_write s (buffer[i - 1 := (buffer ! (i - 1)) AND 0x7F]) (of_nat i))"

definition pb_encode_svarint :: "pb_ostream \<Rightarrow> u64 \<Rightarrow> bool \<times> pb_ostream" where
  "pb_encode_svarint s value =
     (let zigzagged = (if value <s 0 then NOT (push_bit 1 value) else push_bit 1 value)
      in pb_encode_varint s zigzagged)"

definition pb_encode_fixed32 :: "pb_ostream \<Rightarrow> u32 \<Rightarrow> bool \<times> pb_ostream" where
  "pb_encode_fixed32 s val =
     pb_write s
       [ucast (val AND 0xFF), ucast (drop_bit 8 val AND 0xFF),
        ucast (drop_bit 16 val AND 0xFF), ucast (drop_bit 24 val AND 0xFF)] 4"

definition pb_encode_fixed64 :: "pb_ostream \<Rightarrow> u64 \<Rightarrow> bool \<times> pb_ostream" where
  "pb_encode_fixed64 s val =
     pb_write s
       [ucast (val AND 0xFF), ucast (drop_bit 8 val AND 0xFF),
        ucast (drop_bit 16 val AND 0xFF), ucast (drop_bit 24 val AND 0xFF),
        ucast (drop_bit 32 val AND 0xFF), ucast (drop_bit 40 val AND 0xFF),
        ucast (drop_bit 48 val AND 0xFF), ucast (drop_bit 56 val AND 0xFF)] 8"

definition pb_encode_tag :: "pb_ostream \<Rightarrow> u32 \<Rightarrow> u32 \<Rightarrow> bool \<times> pb_ostream" where
  "pb_encode_tag s wiretype field_number =
     pb_encode_varint s (push_bit 3 (ucast field_number) OR ucast wiretype)"

definition wire_type_for_ltype :: "pb_type_t \<Rightarrow> u32 option" where
  "wire_type_for_ltype lt =
     (if lt = PB_LTYPE_BOOL \<or> lt = PB_LTYPE_VARINT \<or> lt = PB_LTYPE_UVARINT \<or> lt = PB_LTYPE_SVARINT
      then Some PB_WT_VARINT
      else if lt = PB_LTYPE_FIXED32 then Some PB_WT_32BIT
      else if lt = PB_LTYPE_FIXED64 then Some PB_WT_64BIT
      else if lt = PB_LTYPE_BYTES \<or> lt = PB_LTYPE_STRING \<or> lt = PB_LTYPE_SUBMESSAGE \<or>
              lt = PB_LTYPE_FIXED_LENGTH_BYTES
      then Some PB_WT_STRING
      else None)"

definition pb_encode_tag_for_field :: "pb_ostream \<Rightarrow> pb_field \<Rightarrow> bool \<times> pb_ostream" where
  "pb_encode_tag_for_field s field =
     (case wire_type_for_ltype (PB_LTYPE (ftype field)) of
        None \<Rightarrow> PB_RETURN_OERROR ''invalid field type'' s
      | Some wiretype \<Rightarrow> pb_encode_tag s wiretype (tag field))"

definition pb_encode_string :: "pb_ostream \<Rightarrow> u8 list \<Rightarrow> u64 \<Rightarrow> bool \<times> pb_ostream" where
  "pb_encode_string s buffer count =
     and_then (pb_encode_varint s count) (\<lambda>s. pb_write s buffer count)"

section \<open>What the encoders write\<close>

text \<open>
  Whether a run of \<open>n\<close> more bytes fits a stream, and the stream after writing bytes that
  fit. \<open>ostream_ok\<close> is the invariant of the streams the library itself builds: no
  error has occurred, the limit never exceeds the room left in the buffer object, and it is
  below \<open>2 ^ 63\<close>, as no C object is larger than \<open>PTRDIFF_MAX\<close>.
\<close>

definition room :: "pb_ostream \<Rightarrow> nat \<Rightarrow> bool" where
  "room s n \<longleftrightarrow> is_Sizing (o_state s) \<or> unat (bytes_written s) + n \<le> unat (max_size s)"

definition advance :: "pb_ostream \<Rightarrow> u8 list \<Rightarrow> pb_ostream" where
  "advance s bs =
     s\<lparr>o_state := (case o_state s of OBuf out cap \<Rightarrow> OBuf (out @ bs) cap | st \<Rightarrow> st),
       bytes_written := bytes_written s + of_nat (length bs)\<rparr>"

definition ostream_ok :: "pb_ostream \<Rightarrow> bool" where
  "ostream_ok s \<longleftrightarrow> o_errmsg s = None \<and>
     (case o_state s of
        Sizing \<Rightarrow> True
      | OBuf out cap \<Rightarrow>
          bytes_written s \<le> max_size s \<and> unat (max_size s) < 2 ^ 63 \<and>
          length out + (unat (max_size s) - unat (bytes_written s)) \<le> cap
      | OCustom f \<Rightarrow> False)"

text \<open>
  The contract of an encoder: on every well-formed stream it appends exactly the bytes
  \<open>bs\<close> when they fit, and returns false when they do not.
\<close>

definition emits :: "(pb_ostream \<Rightarrow> bool \<times> pb_ostream) \<Rightarrow> u8 list \<Rightarrow> bool" where
  "emits f bs \<longleftrightarrow>
     (\<forall>s. ostream_ok s \<longrightarrow>
        (room s (length bs) \<longrightarrow> f s = (True, advance s bs)) \<and>
        (\<not> room s (length bs) \<longrightarrow> \<not> fst (f s)))"

lemma emitsI:
  assumes "\<And>s. ostream_ok s \<Longrightarrow> room s (length bs) \<Longrightarrow> f s = (True, advance s bs)"
    and "\<And>s. ostream_ok s \<Longrightarrow> \<not> room s (length bs) \<Longrightarrow> \<not> fst (f s)"
  shows "emits f bs"
  using assms by (simp add: emits_def)

lemma emits_room: "emits f bs \<Longrightarrow> ostream_ok s \<Longrightarrow> room s (length bs) \<Longrightarrow> f s = (True, advance s bs)"
  by (simp add: emits_def)

lemma emits_no_room: "emits f bs \<Longrightarrow> ostream_ok s \<Longrightarrow> \<not> room s (length bs) \<Longrightarrow> \<not> fst (f s)"
  by (simp add: emits_def)

lemma room_bound: "room s n \<Longrightarrow> \<not> is_Sizing (o_state s) \<Longrightarrow> unat (bytes_written s) + n < 2 ^ 64"
  using unat_u64_lt [of "max_size s"] by (simp add: room_def)

lemma ostream_ok_cases:
  assumes "ostream_ok s"
  obtains (sizing) "o_state s = Sizing" "o_errmsg s = None"
  | (buf) out cap where "o_state s = OBuf out cap" "bytes_written s \<le> max_size s"
      "length out + (unat (max_size s) - unat (bytes_written s)) \<le> cap"
      "unat (max_size s) < 2 ^ 63" "o_errmsg s = None"
  using assms by (cases "o_state s") (auto simp: ostream_ok_def)

lemma advance_bytes_written:
  "room s (length bs) \<Longrightarrow> \<not> is_Sizing (o_state s) \<Longrightarrow>
     unat (bytes_written (advance s bs)) = unat (bytes_written s) + length bs"
  using room_bound [of s "length bs"]
  by (simp add: advance_def unat_plus_u64 unat_of_nat_u64)

lemma advance_sizing [simp]: "is_Sizing (o_state (advance s bs)) = is_Sizing (o_state s)"
  by (simp add: advance_def split: ostate.split)

lemma advance_max_size [simp]: "max_size (advance s bs) = max_size s"
  by (simp add: advance_def)

lemma advance_errmsg [simp]: "o_errmsg (advance s bs) = o_errmsg s"
  by (simp add: advance_def)

lemma ostream_ok_advance:
  assumes ok: "ostream_ok s" and r: "room s (length bs)"
  shows "ostream_ok (advance s bs)"
  using ok
proof (cases rule: ostream_ok_cases)
  case sizing
  then show ?thesis by (simp add: ostream_ok_def advance_def)
next
  case (buf out cap)
  have "unat (bytes_written s + word_of_nat (length bs)) = unat (bytes_written s) + length bs"
    using advance_bytes_written [OF r] buf(1) by (simp add: advance_def)
  with buf r show ?thesis
    by (simp add: ostream_ok_def advance_def word_le_nat_alt room_def)
qed

lemma room_advance:
  "room s (length a) \<Longrightarrow> room (advance s a) n \<longleftrightarrow> room s (length a + n)"
  using advance_bytes_written [of s a] by (cases "is_Sizing (o_state s)") (simp_all add: room_def add.assoc)

lemma advance_append: "advance (advance s a) b = advance s (a @ b)"
  by (cases s) (simp add: advance_def split: ostate.split)

lemma advance_Nil [simp]: "advance s [] = s"
  by (cases s) (simp add: advance_def split: ostate.split)

lemma room_mono: "room s n \<Longrightarrow> k \<le> n \<Longrightarrow> room s k"
  by (auto simp: room_def)

lemma emits_and_then:
  assumes f: "emits f a" and g: "emits g b"
  shows "emits (\<lambda>s. and_then (f s) g) (a @ b)"
proof (rule emitsI)
  fix s assume ok: "ostream_ok s" and r: "room s (length (a @ b))"
  from r have ra: "room s (length a)" by (rule room_mono) simp
  have "room (advance s a) (length b)" using r ra by (simp add: room_advance)
  then show "and_then (f s) g = (True, advance s (a @ b))"
    using emits_room [OF f ok ra] emits_room [OF g ostream_ok_advance [OF ok ra]]
    by (simp add: advance_append)
next
  fix s assume ok: "ostream_ok s" and r: "\<not> room s (length (a @ b))"
  show "\<not> fst (and_then (f s) g)"
  proof (cases "room s (length a)")
    case True
    then have "\<not> room (advance s a) (length b)" using r by (simp add: room_advance)
    then show ?thesis
      using emits_room [OF f ok True] emits_no_room [OF g ostream_ok_advance [OF ok True]]
      by simp
  next
    case False
    then show ?thesis using emits_no_room [OF f ok] by (cases "f s") auto
  qed
qed

lemma emits_return: "emits (\<lambda>s. (True, s)) []"
  by (rule emitsI) (auto simp: room_def ostream_ok_def word_le_nat_alt split: ostate.splits)

lemma emits_write:
  assumes len: "length bs < 2 ^ 64"
  shows "emits (\<lambda>s. pb_write s bs (of_nat (length bs))) bs"
proof (cases "bs = []")
  case True
  then show ?thesis using emits_return by (simp add: pb_write_def)
next
  case False
  let ?n = "of_nat (length bs) :: u64"
  have n: "unat ?n = length bs" using len by (rule unat_of_nat_u64)
  have pos: "0 < ?n" using False n by (simp add: word_less_nat_alt)
  show ?thesis
  proof (rule emitsI)
    fix s assume ok: "ostream_ok s" and r: "room s (length bs)"
    show "pb_write s bs ?n = (True, advance s bs)"
      using ok
    proof (cases rule: ostream_ok_cases)
      case sizing
      then show ?thesis by (simp add: pb_write_def advance_def)
    next
      case (buf out cap)
      have "unat (bytes_written s + ?n) = unat (bytes_written s) + length bs"
        using advance_bytes_written [OF r] buf(1) by (simp add: advance_def)
      moreover have "\<not> bytes_written s + ?n < bytes_written s"
        using room_bound [OF r] buf(1) n by (simp add: u64_plus_overflow)
      moreover have "length out + length bs \<le> cap"
        using buf r by (simp add: room_def word_le_nat_alt)
      ultimately show ?thesis
        using buf r pos n
        by (simp add: pb_write_def ostream_callback_def buf_write_def advance_def room_def
            word_less_nat_alt)
    qed
  next
    fix s assume ok: "ostream_ok s" and r: "\<not> room s (length bs)"
    from ok r obtain out cap where buf: "o_state s = OBuf out cap"
      by (cases rule: ostream_ok_cases) (auto simp: room_def)
    have "bytes_written s + ?n < bytes_written s \<or> max_size s < bytes_written s + ?n"
      using r n buf unat_plus_u64 [of "bytes_written s" ?n]
        u64_plus_overflow [of "bytes_written s" ?n]
      by (auto simp: room_def word_less_nat_alt)
    then show "\<not> fst (pb_write s bs ?n)"
      using buf pos by (simp add: pb_write_def PB_RETURN_OERROR_def)
  qed
qed

section \<open>The scalar encoders write the wire format\<close>

lemma unat_ucast_byte: "unat (ucast (x :: u64) :: u8) = unat x mod 256"
  by (simp add: unsigned_ucast_eq take_bit_eq_mod)

lemma unat_and_0x7F: "unat (v AND 0x7F :: u64) = unat v mod 128"
  using take_bit_eq_mask [of 7 "unat v"]
  by (simp add: unsigned_and_eq mask_eq_exp_minus_1 take_bit_eq_mod)

lemma low7_byte: "unat (ucast (v AND 0x7F :: u64) :: u8) = unat v mod 128"
  by (simp only: unat_ucast_byte unat_and_0x7F) simp

lemma or_cont:
  assumes "unat (x :: u8) < 128"
  shows "x OR 0x80 = x + 128" and "(x OR 0x80) AND 0x7F = x"
proof -
  have "\<not> has_cont x" using assms by (simp add: has_cont_unat)
  then have d: "x AND 0x80 = 0" by (simp add: has_cont_def)
  then show "x OR 0x80 = x + 128" by (simp add: disjunctive_add_eq_or)
  have "x AND 0x7F = x"
    using assms unat_and_mask7 [of x] by (simp add: word_unat_eq_iff)
  then show "(x OR 0x80) AND 0x7F = x"
    by (simp add: bit.conj_disj_distrib2)
qed

lemma encode_varint_step:
  "ucast (v AND 0x7F :: u64) OR 0x80 = (word_of_nat (unat v mod 128) + 128 :: u8)"
  "(ucast (v AND 0x7F :: u64) OR 0x80) AND 0x7F = (word_of_nat (unat v mod 128) :: u8)"
proof -
  let ?x = "ucast (v AND 0x7F :: u64) :: u8"
  have x: "?x = word_of_nat (unat v mod 128)"
    by (simp add: word_unat_eq_iff low7_byte unat_of_nat_u8)
  have "unat ?x < 128" by (simp add: low7_byte)
  then show "?x OR 0x80 = word_of_nat (unat v mod 128) + 128"
    and "(?x OR 0x80) AND 0x7F = word_of_nat (unat v mod 128)"
    using or_cont [of ?x] by (simp_all only: x)
qed

lemma encode_varint_loop_Nil_iff: "encode_varint_loop v = [] \<longleftrightarrow> v = 0"
  by (subst encode_varint_loop.simps) simp

lemma encode_varint_loop_0 [simp]: "encode_varint_loop 0 = []"
  by (simp add: encode_varint_loop_Nil_iff)

lemma encode_varint_loop_leb128:
  "v \<noteq> 0 \<Longrightarrow> (let b = encode_varint_loop v in b[length b - 1 := b ! (length b - 1) AND 0x7F])
     = leb128 (unat v)"
proof (induction v rule: encode_varint_loop.induct)
  case (1 v)
  let ?w = "drop_bit 7 v"
  have w: "unat ?w = unat v div 128" by (simp only: unat_drop_bit_word) simp
  have E: "encode_varint_loop v = (ucast (v AND 0x7F) OR 0x80) # encode_varint_loop ?w"
    using 1(2) by (subst encode_varint_loop.simps) simp
  show ?case
  proof (cases "?w = 0")
    case True
    then have "unat v < 128" using w by (simp add: unat_eq_zero)
    then have "leb128 (unat v) = [word_of_nat (unat v mod 128)]"
      by (simp add: leb128.simps)
    then show ?thesis unfolding E True by (simp add: encode_varint_step(2) Let_def)
  next
    case False
    then have "\<not> unat v < 128" using w by (auto simp: unat_eq_zero [symmetric])
    moreover obtain y ys where "encode_varint_loop ?w = y # ys"
      using False by (cases "encode_varint_loop ?w") (auto simp: encode_varint_loop_Nil_iff)
    ultimately show ?thesis using 1(1) [OF 1(2) False] E w
      by (simp add: encode_varint_step leb128.simps [of "unat v"] Let_def)
  qed
qed

lemma emits_varint: "emits (\<lambda>s. pb_encode_varint s v) (leb128 (unat v))"
proof (cases "v \<le> 0x7F")
  case True
  then have u: "unat v < 128" by (simp add: word_le_nat_alt)
  then have "leb128 (unat v) = [ucast v]"
    by (simp add: leb128.simps unsigned_ucast_eq word_unat_eq_iff unat_of_nat_u8
        take_bit_eq_mod)
  then show ?thesis using True emits_write [of "[ucast v]"] by (simp add: pb_encode_varint_def)
next
  case False
  then have "v \<noteq> 0" by auto
  note buf = encode_varint_loop_leb128 [OF this, unfolded Let_def]
  have len: "length (encode_varint_loop v) = length (leb128 (unat v))"
    by (simp flip: buf)
  have "pb_encode_varint s v = pb_write s (leb128 (unat v)) (of_nat (length (leb128 (unat v))))" for s
    unfolding pb_encode_varint_def Let_def buf unfolding len using False by simp
  moreover have "length (leb128 (unat v)) < 2 ^ 64"
    using length_leb128_u64 [of v] by simp
  ultimately show ?thesis by (simp add: emits_write)
qed

text \<open>Tags, zigzag integers, fixed-width integers and length-delimited strings.\<close>

lemma unat_zigzag:
  "unat (if v <s 0 then NOT (push_bit 1 v) else push_bit 1 (v :: u64)) = zigzag (sint v)"
proof (cases "sint v < 0")
  case True
  have "2 * (sint v + 2 ^ 64) = 2 * sint v + 2 * 2 ^ 64" by simp
  then have "(2 * (sint v + 2 ^ 64)) mod 2 ^ 64 = 2 * sint v mod 2 ^ 64"
    by (simp only: mod_mult_self1)
  also have "\<dots> = 2 * sint v + 2 ^ 64"
    using sint_u64_range [of v] True by (intro mod_add_2_64) simp_all
  finally have "uint (NOT (push_bit 1 v)) = - 2 * sint v - 1"
    unfolding uint_not_u64 uint_push_bit_1 using True by (simp add: uint_sint_cases)
  then show ?thesis using True by (simp add: word_sless_alt zigzag_def unat_eq_nat_uint)
next
  case False
  then have "uint (push_bit 1 v) = 2 * sint v"
    unfolding uint_push_bit_1 using sint_u64_range [of v] by (simp add: uint_sint_cases)
  then show ?thesis using False by (simp add: word_sless_alt zigzag_def unat_eq_nat_uint)
qed

lemma emits_svarint: "emits (\<lambda>s. pb_encode_svarint s v) (leb128 (zigzag (sint v)))"
  unfolding pb_encode_svarint_def Let_def unat_zigzag [symmetric] by (rule emits_varint)

lemma unat_tag:
  assumes "unat wt < 8"
  shows "unat (push_bit 3 (ucast (fn :: u32)) OR ucast (wt :: u32) :: u64) = tag_number wt fn"
proof -
  let ?a = "push_bit 3 (ucast fn) :: u64" and ?b = "ucast wt :: u64"
  have "take_bit 3 ?b = ?b"
    unfolding word_unat_eq_iff unsigned_take_bit_eq unat_ucast_u32_u64
    using assms by (simp add: take_bit_eq_mod)
  then have "?a AND ?b = 0"
    by (metis (no_types, lifting) bit_and_iff bit_eq_iff bit_push_bit_iff bit_take_bit_iff bit_0_eq bot_apply not_le bot_bool_def)
  then have "?a OR ?b = ?a + ?b" by (simp add: disjunctive_add_eq_or)
  moreover have a: "unat ?a = 8 * unat fn"
    using unat_u32_lt [of fn]
    by (simp add: push_bit_eq_mult unat_word_ariths unat_ucast_u32_u64)
  ultimately show ?thesis
    using unat_u32_lt [of fn] assms
    by (simp add: unat_plus_u64 unat_ucast_u32_u64 tag_number_def)
qed

lemma emits_tag:
  assumes "unat wt < 8"
  shows "emits (\<lambda>s. pb_encode_tag s wt fn) (leb128 (tag_number wt fn))"
  unfolding pb_encode_tag_def unat_tag [OF assms, symmetric] by (rule emits_varint)

lemma fixed32_bytes:
  "[ucast (v AND 0xFF), ucast (drop_bit 8 v AND 0xFF),
    ucast (drop_bit 16 v AND 0xFF), ucast (drop_bit 24 v AND 0xFF)] = le_bytes 4 (unat (v :: u32))"
  unfolding byte_at unfolding byte_at_0 le_bytes_map by (simp add: upt_rec)

lemma fixed64_bytes:
  "[ucast (v AND 0xFF), ucast (drop_bit 8 v AND 0xFF),
    ucast (drop_bit 16 v AND 0xFF), ucast (drop_bit 24 v AND 0xFF),
    ucast (drop_bit 32 v AND 0xFF), ucast (drop_bit 40 v AND 0xFF),
    ucast (drop_bit 48 v AND 0xFF), ucast (drop_bit 56 v AND 0xFF)] = le_bytes 8 (unat (v :: u64))"
  unfolding byte_at unfolding byte_at_0 le_bytes_map by (simp add: upt_rec)

lemma emits_fixed32: "emits (\<lambda>s. pb_encode_fixed32 s v) (le_bytes 4 (unat v))"
  unfolding pb_encode_fixed32_def fixed32_bytes
  using emits_write [of "le_bytes 4 (unat v)"] by simp

lemma emits_fixed64: "emits (\<lambda>s. pb_encode_fixed64 s v) (le_bytes 8 (unat v))"
  unfolding pb_encode_fixed64_def fixed64_bytes
  using emits_write [of "le_bytes 8 (unat v)"] by simp

lemma emits_string:
  assumes "length bs < 2 ^ 64"
  shows "emits (\<lambda>s. pb_encode_string s bs (of_nat (length bs))) (leb128 (length bs) @ bs)"
  using emits_and_then [OF emits_varint emits_write [OF assms], of "of_nat (length bs)"] assms
  by (simp add: pb_encode_string_def unat_of_nat_u64)

end
