(* ===== verification/PbCommon.thy ===== *)
theory PbCommon
  imports PbTypes
begin

text \<open>
  The field iterator of \<open>nanopb/pb_common.c\<close>, which walks a descriptor table and the
  structure it describes together. A position is an index into the table; pointers to
  descriptors are compared by index. \<open>pData\<close> and \<open>pSize\<close> are addresses; the decoder may
  redirect \<open>pSize\<close> to its local counter of a fixed-count array.

  \<open>field_offset\<close> states where each field lies without the iterator; the lemmas show that the
  iterator reaches exactly these addresses, wraps to the first field after the last one, and
  that a search finds a field with a given tag whenever the table has one.
\<close>

section \<open>The iterator\<close>

record pb_field_iter =
  iter_start :: "pb_field list"
  iter_pos :: nat
  required_field_index :: nat
  dest_struct :: addr
  pData :: addr
  pSize :: addr

definition iter_field :: "pb_field_iter \<Rightarrow> pb_field" where
  "iter_field it = field_at (iter_start it) (iter_pos it)"

definition pb_field_iter_begin :: "pb_field list \<Rightarrow> addr \<Rightarrow> bool \<times> pb_field_iter" where
  "pb_field_iter_begin fs dest =
     (let pos = field_at fs 0;
          data = dest + int (data_offset pos)
      in (tag pos \<noteq> 0,
          \<lparr>iter_start = fs, iter_pos = 0, required_field_index = 0, dest_struct = dest,
           pData = data, pSize = data + size_offset pos\<rparr>))"

definition pb_field_iter_next :: "pb_field_iter \<Rightarrow> bool \<times> pb_field_iter" where
  "pb_field_iter_next it =
     (let prev_field = iter_field it in
      if tag prev_field = 0 then (False, it)
      else
        let it = it\<lparr>iter_pos := iter_pos it + 1\<rparr>;
            pos = iter_field it
        in if tag pos = 0
           then (False, snd (pb_field_iter_begin (iter_start it) (dest_struct it)))
           else if PB_HTYPE (ftype prev_field) = PB_HTYPE_ONEOF \<and>
                   PB_HTYPE (ftype pos) = PB_HTYPE_ONEOF \<and> data_offset pos = PB_SIZE_MAX
           then (True, it)
           else
             let prev_size =
                   (if PB_ATYPE (ftype prev_field) = PB_ATYPE_STATIC \<and>
                       PB_HTYPE (ftype prev_field) = PB_HTYPE_REPEATED
                    then data_size prev_field * array_size prev_field
                    else if PB_ATYPE (ftype prev_field) = PB_ATYPE_POINTER then 8
                    else data_size prev_field);
                 data = pData it + int prev_size + int (data_offset pos)
             in (True, it\<lparr>required_field_index :=
                     (if PB_HTYPE (ftype prev_field) = PB_HTYPE_REQUIRED
                      then required_field_index it + 1 else required_field_index it),
                   pData := data, pSize := data + size_offset pos\<rparr>))"

text \<open>
  The search loop; \<open>n\<close> bounds its rounds. Starting from a position of the table it is back at
  the start after at most \<open>length\<close> steps.
\<close>

fun iter_find_loop :: "nat \<Rightarrow> (pb_field \<Rightarrow> bool) \<Rightarrow> nat \<Rightarrow> pb_field_iter \<Rightarrow> bool \<times> pb_field_iter" where
  "iter_find_loop 0 wanted start it = (False, it)"
| "iter_find_loop (Suc n) wanted start it =
     (if wanted (iter_field it) then (True, it)
      else
        let it = snd (pb_field_iter_next it)
        in if iter_pos it \<noteq> start then iter_find_loop n wanted start it else (False, it))"

definition iter_find :: "(pb_field \<Rightarrow> bool) \<Rightarrow> pb_field_iter \<Rightarrow> bool \<times> pb_field_iter" where
  "iter_find wanted it = iter_find_loop (length (iter_start it) + 1) wanted (iter_pos it) it"

definition pb_field_iter_find :: "pb_field_iter \<Rightarrow> u32 \<Rightarrow> bool \<times> pb_field_iter" where
  "pb_field_iter_find it t =
     iter_find (\<lambda>f. tag f = t \<and> PB_LTYPE (ftype f) \<noteq> PB_LTYPE_EXTENSION) it"

text \<open>
  The loop \<open>do { body } while (pb_field_iter_next(&iter))\<close> that the encoder, the default
  initialisation and the release share; it stops when the body returns false.
\<close>

lemma iter_next_start [simp]: "iter_start (snd (pb_field_iter_next it)) = iter_start it"
  by (simp add: pb_field_iter_next_def pb_field_iter_begin_def Let_def)

lemma iter_next_dest [simp]: "dest_struct (snd (pb_field_iter_next it)) = dest_struct it"
  by (simp add: pb_field_iter_next_def pb_field_iter_begin_def Let_def)

lemma iter_next_pos:
  "pb_field_iter_next it = (True, it') \<Longrightarrow>
     iter_pos it' = Suc (iter_pos it) \<and> Suc (iter_pos it) < length (iter_start it)"
  by (auto simp: pb_field_iter_next_def Let_def iter_field_def field_at_def PB_LAST_FIELD_def
      split: if_splits)

lemma iter_next_less:
  assumes "(True, it') = pb_field_iter_next it"
  shows "length (iter_start it') - iter_pos it' < length (iter_start it) - iter_pos it"
proof -
  have "iter_start it' = iter_start it" using iter_next_start [of it] by (simp flip: assms)
  then show ?thesis using iter_next_pos [OF assms [symmetric]] by (simp add: diff_less_mono2)
qed

function iter_loop :: "(pb_field_iter \<Rightarrow> 'st \<Rightarrow> bool \<times> 'st) \<Rightarrow> pb_field_iter \<Rightarrow> 'st \<Rightarrow> bool \<times> 'st" where
  "iter_loop body it s =
     and_then (body it s) (\<lambda>s.
       case pb_field_iter_next it of
         (True, it') \<Rightarrow> iter_loop body it' s
       | (False, it') \<Rightarrow> (True, s))"
  by pat_completeness auto
termination
  by (relation "measure (\<lambda>(body, it, s). length (iter_start it) - iter_pos it)")
    (auto dest: iter_next_less)

declare iter_loop.simps [simp del]

section \<open>Where the fields lie\<close>

text \<open>
  The position of a field relative to the structure: a field of a oneof that is not its first
  shares the place of its predecessor, every other field follows its predecessor after the
  padding its descriptor gives.
\<close>

definition in_union :: "pb_field \<Rightarrow> pb_field \<Rightarrow> bool" where
  "in_union prev f \<longleftrightarrow> PB_HTYPE (ftype prev) = PB_HTYPE_ONEOF \<and>
     PB_HTYPE (ftype f) = PB_HTYPE_ONEOF \<and> data_offset f = PB_SIZE_MAX"

definition field_extent :: "pb_field \<Rightarrow> nat" where
  "field_extent f =
     (if PB_ATYPE (ftype f) = PB_ATYPE_STATIC \<and> PB_HTYPE (ftype f) = PB_HTYPE_REPEATED
      then data_size f * array_size f
      else if PB_ATYPE (ftype f) = PB_ATYPE_POINTER then 8
      else data_size f)"

fun field_offset :: "pb_field list \<Rightarrow> nat \<Rightarrow> nat" where
  "field_offset fs 0 = data_offset (field_at fs 0)"
| "field_offset fs (Suc i) =
     (if in_union (field_at fs i) (field_at fs (Suc i)) then field_offset fs i
      else field_offset fs i + field_extent (field_at fs i) + data_offset (field_at fs (Suc i)))"

fun size_position :: "pb_field list \<Rightarrow> nat \<Rightarrow> int" where
  "size_position fs 0 = int (field_offset fs 0) + size_offset (field_at fs 0)"
| "size_position fs (Suc i) =
     (if in_union (field_at fs i) (field_at fs (Suc i)) then size_position fs i
      else int (field_offset fs (Suc i)) + size_offset (field_at fs (Suc i)))"

definition is_required :: "pb_field \<Rightarrow> bool" where
  "is_required f \<longleftrightarrow> PB_HTYPE (ftype f) = PB_HTYPE_REQUIRED"

definition required_before :: "pb_field list \<Rightarrow> nat \<Rightarrow> nat" where
  "required_before fs i = length (filter is_required (take i fs))"

definition iter_at :: "pb_field list \<Rightarrow> addr \<Rightarrow> nat \<Rightarrow> pb_field_iter" where
  "iter_at fs dest i =
     \<lparr>iter_start = fs, iter_pos = i, required_field_index = required_before fs i, dest_struct = dest,
      pData = dest + int (field_offset fs i), pSize = dest + size_position fs i\<rparr>"

definition proper_table :: "pb_field list \<Rightarrow> bool" where
  "proper_table fs \<longleftrightarrow> list_all (\<lambda>f. tag f \<noteq> 0) fs"

lemma proper_tableD: "proper_table fs \<Longrightarrow> i < length fs \<Longrightarrow> tag (fs ! i) \<noteq> 0"
  by (simp add: proper_table_def list_all_length)

lemma field_at_less [simp]: "i < length fs \<Longrightarrow> field_at fs i = fs ! i"
  by (simp add: field_at_def)

lemma field_at_end [simp]: "\<not> i < length fs \<Longrightarrow> field_at fs i = PB_LAST_FIELD"
  by (simp add: field_at_def)

lemma PB_LAST_FIELD_simps [simp]:
  "tag PB_LAST_FIELD = 0" "data_offset PB_LAST_FIELD = 0" "size_offset PB_LAST_FIELD = 0"
  by (simp_all add: PB_LAST_FIELD_def)

lemma iter_field_at [simp]: "iter_field (iter_at fs dest i) = field_at fs i"
  by (simp add: iter_field_def iter_at_def)

lemma iter_at_simps [simp]:
  "iter_start (iter_at fs dest i) = fs" "iter_pos (iter_at fs dest i) = i"
  "dest_struct (iter_at fs dest i) = dest"
  "required_field_index (iter_at fs dest i) = required_before fs i"
  "pData (iter_at fs dest i) = dest + int (field_offset fs i)"
  "pSize (iter_at fs dest i) = dest + size_position fs i"
  by (simp_all add: iter_at_def)

lemma iter_begin_at: "pb_field_iter_begin fs dest = (tag (field_at fs 0) \<noteq> 0, iter_at fs dest 0)"
  by (simp add: pb_field_iter_begin_def iter_at_def required_before_def Let_def)

lemma required_before_Suc:
  "i < length fs \<Longrightarrow> required_before fs (Suc i) = required_before fs i + (if is_required (fs ! i) then 1 else 0)"
  by (simp add: required_before_def take_Suc_conv_app_nth)

lemma union_not_required: "in_union f g \<Longrightarrow> \<not> is_required f"
  by (simp add: in_union_def is_required_def pb_htype_defs)

text \<open>One step of the iterator, also when the decoder has redirected \<open>pSize\<close>.\<close>

lemma iter_next_eq:
  assumes "iter_field it = f" and "field_at (iter_start it) (Suc (iter_pos it)) = g"
  shows "pb_field_iter_next it =
    (if tag f = 0 then (False, it)
     else if tag g = 0 then (False, iter_at (iter_start it) (dest_struct it) 0)
     else if in_union f g then (True, it\<lparr>iter_pos := Suc (iter_pos it)\<rparr>)
     else let data = pData it + int (field_extent f) + int (data_offset g)
       in (True, it\<lparr>iter_pos := Suc (iter_pos it),
          required_field_index := required_field_index it + (if is_required f then 1 else 0),
          pData := data, pSize := data + size_offset g\<rparr>))"
proof -
  have "iter_field (it\<lparr>iter_pos := iter_pos it + 1\<rparr>) = g"
    using assms(2) by (simp add: iter_field_def)
  then show ?thesis
    unfolding pb_field_iter_next_def Let_def assms(1) iter_begin_at field_extent_def in_union_def
      is_required_def
    by (auto simp: pb_field_iter.defs)
qed

lemma iter_next_at:
  assumes "proper_table fs" and "i < length fs"
  shows "pb_field_iter_next (iter_at fs dest i) =
    (if Suc i < length fs then (True, iter_at fs dest (Suc i)) else (False, iter_at fs dest 0))"
proof (cases "Suc i < length fs")
  case False
  then show ?thesis using proper_tableD [OF assms] assms(2)
    by (subst iter_next_eq [OF iter_field_at refl]) simp
next
  case True
  have t: "tag (fs ! i) \<noteq> 0" "tag (fs ! Suc i) \<noteq> 0"
    using proper_tableD [OF assms(1)] assms(2) True by auto
  show ?thesis
  proof (cases "in_union (fs ! i) (fs ! Suc i)")
    case u: True
    then have "\<not> is_required (fs ! i)" by (rule union_not_required)
    then show ?thesis using True t u assms(2)
      by (subst iter_next_eq [OF iter_field_at refl]) (simp add: iter_at_def required_before_Suc)
  next
    case u: False
    then show ?thesis using True t assms(2)
      by (subst iter_next_eq [OF iter_field_at refl])
        (simp add: iter_at_def required_before_Suc Let_def add.assoc)
  qed
qed

lemma iter_next_local:
  assumes "\<not> in_union (field_at fs i) (field_at fs (Suc i))" and "tag (field_at fs i) \<noteq> 0"
  shows "pb_field_iter_next (iter_at fs dest i\<lparr>pSize := p\<rparr>) = pb_field_iter_next (iter_at fs dest i)"
proof -
  have f: "iter_field (iter_at fs dest i\<lparr>pSize := p\<rparr>) = field_at fs i" by (simp add: iter_field_def)
  show ?thesis
    using assms iter_next_eq [OF f refl] iter_next_eq [OF iter_field_at refl, of fs dest i]
    by simp
qed

lemma iter_next_empty: "pb_field_iter_next (iter_at [] dest 0) = (False, iter_at [] dest 0)"
  by (simp add: pb_field_iter_next_def Let_def)

section \<open>The search\<close>

lemma iter_next_mod:
  assumes "proper_table fs" and "i < length fs"
  shows "snd (pb_field_iter_next (iter_at fs dest i)) = iter_at fs dest (Suc i mod length fs)"
proof (cases "Suc i < length fs")
  case True
  then show ?thesis using iter_next_at [OF assms] by simp
next
  case False
  then have "Suc i = length fs" using assms by simp
  then show ?thesis using iter_next_at [OF assms] by simp
qed

lemma iter_find_loop_at:
  assumes proper: "proper_table fs" and "i < length fs" and "1 \<le> d" and "d \<le> n"
    and "(i + d) mod length fs = start" and "\<And>k. 1 \<le> k \<Longrightarrow> k < d \<Longrightarrow> (i + k) mod length fs \<noteq> start"
  shows "(\<exists>k<d. wanted (fs ! ((i + k) mod length fs)) \<and>
        iter_find_loop n wanted start (iter_at fs dest i) = (True, iter_at fs dest ((i + k) mod length fs))) \<or>
     (\<forall>k<d. \<not> wanted (fs ! ((i + k) mod length fs))) \<and>
        iter_find_loop n wanted start (iter_at fs dest i) = (False, iter_at fs dest start)"
  using assms(2-)
proof (induction n arbitrary: i d)
  case 0
  then show ?case by simp
next
  case (Suc n)
  let ?l = "length fs"
  let ?j = "Suc i mod ?l"
  have step: "iter_find_loop (Suc n) wanted start (iter_at fs dest i) =
     (if wanted (fs ! i) then (True, iter_at fs dest i)
      else if ?j \<noteq> start then iter_find_loop n wanted start (iter_at fs dest ?j)
      else (False, iter_at fs dest ?j))"
    using Suc.prems iter_next_mod [OF proper Suc.prems(1)] by (simp add: Let_def)
  show ?case
  proof (cases "wanted (fs ! i)")
    case True
    then show ?thesis using step Suc.prems by (intro disjI1 exI [of _ 0]) simp
  next
    case not_wanted: False
    show ?thesis
    proof (cases "d = 1")
      case True
      then show ?thesis using step not_wanted Suc.prems by simp
    next
      case False
      then obtain e where d: "d = Suc e" and e: "1 \<le> e" using Suc.prems by (cases d) auto
      have "?j \<noteq> start" using Suc.prems(5) [of 1] d e by simp
      then have loop: "iter_find_loop (Suc n) wanted start (iter_at fs dest i) =
          iter_find_loop n wanted start (iter_at fs dest ?j)"
        using step not_wanted by simp
      have shift: "(?j + k) mod ?l = (i + Suc k) mod ?l" for k
        by (simp add: mod_add_left_eq)
      have "?j < ?l" using Suc.prems(1) by (intro mod_less_divisor) linarith
      have ne': "(?j + k) mod ?l \<noteq> start" if "1 \<le> k" "k < e" for k
        using Suc.prems(5) [of "Suc k"] that d unfolding shift by simp
      have IH: "(\<exists>k<e. wanted (fs ! ((?j + k) mod ?l)) \<and>
            iter_find_loop n wanted start (iter_at fs dest ?j) = (True, iter_at fs dest ((?j + k) mod ?l))) \<or>
         (\<forall>k<e. \<not> wanted (fs ! ((?j + k) mod ?l))) \<and>
            iter_find_loop n wanted start (iter_at fs dest ?j) = (False, iter_at fs dest start)"
        using Suc.prems(3,4) d e \<open>?j < ?l\<close> ne' by (intro Suc.IH) (simp_all add: shift)
      show ?thesis
        using IH unfolding loop shift d
      proof (elim disjE exE conjE)
        fix k assume "k < e" "wanted (fs ! ((i + Suc k) mod ?l))"
          "iter_find_loop n wanted start (iter_at fs dest ?j) = (True, iter_at fs dest ((i + Suc k) mod ?l))"
        then show "(\<exists>k<Suc e. wanted (fs ! ((i + k) mod ?l)) \<and>
            iter_find_loop n wanted start (iter_at fs dest ?j) = (True, iter_at fs dest ((i + k) mod ?l))) \<or>
         (\<forall>k<Suc e. \<not> wanted (fs ! ((i + k) mod ?l))) \<and>
            iter_find_loop n wanted start (iter_at fs dest ?j) = (False, iter_at fs dest start)"
          by (intro disjI1 exI [of _ "Suc k"]) auto
      next
        assume none: "\<forall>k<e. \<not> wanted (fs ! ((i + Suc k) mod ?l))"
          and r: "iter_find_loop n wanted start (iter_at fs dest ?j) = (False, iter_at fs dest start)"
        have "\<not> wanted (fs ! ((i + k) mod ?l))" if "k < Suc e" for k
          using that none not_wanted Suc.prems(1) by (cases k) auto
        then show "(\<exists>k<Suc e. wanted (fs ! ((i + k) mod ?l)) \<and>
            iter_find_loop n wanted start (iter_at fs dest ?j) = (True, iter_at fs dest ((i + k) mod ?l))) \<or>
         (\<forall>k<Suc e. \<not> wanted (fs ! ((i + k) mod ?l))) \<and>
            iter_find_loop n wanted start (iter_at fs dest ?j) = (False, iter_at fs dest start)"
          using r by blast
      qed
    qed
  qed
qed

lemma iter_find_at:
  assumes "proper_table fs" and i: "i < length fs"
  shows "(\<exists>j<length fs. wanted (fs ! j) \<and>
        iter_find wanted (iter_at fs dest i) = (True, iter_at fs dest j)) \<or>
     (\<forall>j<length fs. \<not> wanted (fs ! j)) \<and>
        iter_find wanted (iter_at fs dest i) = (False, iter_at fs dest i)"
proof -
  let ?l = "length fs"
  have ne: "(i + k) mod ?l \<noteq> i" if "1 \<le> k" "k < ?l" for k
  proof (cases "i + k < ?l")
    case True
    then show ?thesis using that by simp
  next
    case False
    then have "(i + k) mod ?l = i + k - ?l" using that i by (simp add: mod_if)
    then show ?thesis using that False by simp
  qed
  have cover: "\<exists>k<?l. (i + k) mod ?l = j" if "j < ?l" for j
  proof (cases "i \<le> j")
    case True
    then show ?thesis using that by (intro exI [of _ "j - i"]) simp
  next
    case False
    then have "i + (j + ?l - i) = j + ?l" using i by simp
    then show ?thesis using that False i by (intro exI [of _ "j + ?l - i"]) simp
  qed
  have "(\<exists>k<?l. wanted (fs ! ((i + k) mod ?l)) \<and>
        iter_find_loop (?l + 1) wanted i (iter_at fs dest i) = (True, iter_at fs dest ((i + k) mod ?l))) \<or>
     (\<forall>k<?l. \<not> wanted (fs ! ((i + k) mod ?l))) \<and>
        iter_find_loop (?l + 1) wanted i (iter_at fs dest i) = (False, iter_at fs dest i)"
    using assms ne by (intro iter_find_loop_at) auto
  then show ?thesis
  proof (elim disjE exE conjE)
    fix k assume "k < ?l" "wanted (fs ! ((i + k) mod ?l))"
      "iter_find_loop (?l + 1) wanted i (iter_at fs dest i) = (True, iter_at fs dest ((i + k) mod ?l))"
    moreover have "(i + k) mod ?l < ?l" using i by (intro mod_less_divisor) linarith
    ultimately show ?thesis unfolding iter_find_def by auto
  next
    assume none: "\<forall>k<?l. \<not> wanted (fs ! ((i + k) mod ?l))"
      and "iter_find_loop (?l + 1) wanted i (iter_at fs dest i) = (False, iter_at fs dest i)"
    moreover have "\<not> wanted (fs ! j)" if "j < ?l" for j
      using cover [OF that] none by auto
    ultimately show ?thesis unfolding iter_find_def by simp
  qed
qed

lemma iter_find_local:
  assumes "\<not> in_union (field_at fs i) (field_at fs (Suc i))" and "tag (field_at fs i) \<noteq> 0"
  shows "iter_find wanted (iter_at fs dest i\<lparr>pSize := p\<rparr>) =
    (if wanted (field_at fs i) then (True, iter_at fs dest i\<lparr>pSize := p\<rparr>)
     else iter_find wanted (iter_at fs dest i))"
  using iter_next_local [OF assms]
  by (simp add: iter_find_def iter_field_def)

text \<open>The iteration over a whole table.\<close>

lemma iter_loop_at:
  assumes "proper_table fs" and "i < length fs"
  shows "iter_loop body (iter_at fs dest i) s =
    and_then (body (iter_at fs dest i) s) (\<lambda>s.
      if Suc i < length fs then iter_loop body (iter_at fs dest (Suc i)) s else (True, s))"
  by (subst iter_loop.simps) (simp add: iter_next_at [OF assms] cong: and_then_cong)

end
