(* ===== verification/PbEncode.thy ===== *)
theory PbEncode
  imports PbOStream PbCommon
begin

text \<open>
  The message encoder of \<open>nanopb/pb_encode.c\<close>: the field encoders, arrays, callback and
  extension fields, the loop over a message and its length-delimited forms. The source
  structure is read from a memory that encoding does not change. User code is a parameter: an
  \<open>enc_env\<close> gives what the function at an address does as an encoding callback or as an
  extension's encoder, and the linked list of extensions that starts at a pointer.

  Messages nest through submessage tables and extensions, and C recurses accordingly. The
  number \<open>n\<close> passed to \<open>pb_encode\<close> bounds the nesting: each level calls the next through
  the parameter \<open>sub\<close> of the functions below it. Running out of levels is an error of the
  model; a table nested less than \<open>n\<close> deep never gets there.
\<close>

section \<open>The environment\<close>

record enc_env =
  encode_callback :: "addr \<Rightarrow> pb_ostream \<Rightarrow> pb_field \<Rightarrow> addr \<Rightarrow> bool \<times> pb_ostream"
  extension_encode :: "addr \<Rightarrow> pb_ostream \<Rightarrow> pb_extension \<Rightarrow> bool \<times> pb_ostream"
  e_extensions :: "addr \<Rightarrow> pb_extension list"

type_synonym msg_encoder = "pb_ostream \<Rightarrow> pb_field list \<Rightarrow> addr \<Rightarrow> bool \<times> pb_ostream"
type_synonym pb_encoder_t = "pb_ostream \<Rightarrow> pb_field \<Rightarrow> addr \<Rightarrow> bool \<times> pb_ostream"

section \<open>Field encoders\<close>

definition safe_read_bool :: "mem \<Rightarrow> addr \<Rightarrow> bool" where
  "safe_read_bool m p = list_ex (\<lambda>b. b \<noteq> 0) (load_bytes m p 1)"

definition pb_encode_submessage :: "msg_encoder \<Rightarrow> msg_encoder" where
  "pb_encode_submessage sub stream fs src =
     (case sub PB_OSTREAM_SIZING fs src of
        (False, substream) \<Rightarrow> (False, stream\<lparr>o_errmsg := o_errmsg substream\<rparr>)
      | (True, substream) \<Rightarrow>
          (let count = bytes_written substream in
           and_then (pb_encode_varint stream count) (\<lambda>stream.
             if is_Sizing (o_state stream) then pb_write stream [] count
             else if max_size stream < bytes_written stream + count
             then PB_RETURN_OERROR ''stream full'' stream
             else
               (case sub \<lparr>o_state = o_state stream, max_size = count, bytes_written = 0,
                          o_errmsg = None\<rparr> fs src of
                  (status, substream) \<Rightarrow>
                    (let stream = stream\<lparr>bytes_written := bytes_written stream + bytes_written substream,
                           o_state := o_state substream, o_errmsg := o_errmsg substream\<rparr>
                     in if bytes_written substream \<noteq> count
                        then PB_RETURN_OERROR ''submsg size changed'' stream
                        else (status, stream))))))"

definition pb_enc_bool :: "mem \<Rightarrow> pb_encoder_t" where
  "pb_enc_bool m stream field src = pb_encode_varint stream (if safe_read_bool m src then 1 else 0)"

text \<open>A signed integer of the field's size, sign-extended; an unsigned one, zero-extended.\<close>

definition load_signed :: "mem \<Rightarrow> nat \<Rightarrow> addr \<Rightarrow> u64 option" where
  "load_signed m n src =
     (if n = 1 then Some (scast (load_word m src :: u8))
      else if n = 2 then Some (scast (load_word m src :: u16))
      else if n = 4 then Some (scast (load_word m src :: u32))
      else if n = 8 then Some (load_word m src)
      else None)"

definition load_unsigned :: "mem \<Rightarrow> nat \<Rightarrow> addr \<Rightarrow> u64 option" where
  "load_unsigned m n src =
     (if n = 1 then Some (ucast (load_word m src :: u8))
      else if n = 2 then Some (ucast (load_word m src :: u16))
      else if n = 4 then Some (ucast (load_word m src :: u32))
      else if n = 8 then Some (load_word m src)
      else None)"

definition pb_enc_varint :: "mem \<Rightarrow> pb_encoder_t" where
  "pb_enc_varint m stream field src =
     (case load_signed m (data_size field) src of
        Some value \<Rightarrow> pb_encode_varint stream value
      | None \<Rightarrow> PB_RETURN_OERROR ''invalid data_size'' stream)"

definition pb_enc_uvarint :: "mem \<Rightarrow> pb_encoder_t" where
  "pb_enc_uvarint m stream field src =
     (case load_unsigned m (data_size field) src of
        Some value \<Rightarrow> pb_encode_varint stream value
      | None \<Rightarrow> PB_RETURN_OERROR ''invalid data_size'' stream)"

definition pb_enc_svarint :: "mem \<Rightarrow> pb_encoder_t" where
  "pb_enc_svarint m stream field src =
     (case load_signed m (data_size field) src of
        Some value \<Rightarrow> pb_encode_svarint stream value
      | None \<Rightarrow> PB_RETURN_OERROR ''invalid data_size'' stream)"

definition pb_enc_fixed64 :: "mem \<Rightarrow> pb_encoder_t" where
  "pb_enc_fixed64 m stream field src = pb_encode_fixed64 stream (load_word m src)"

definition pb_enc_fixed32 :: "mem \<Rightarrow> pb_encoder_t" where
  "pb_enc_fixed32 m stream field src = pb_encode_fixed32 stream (load_word m src)"

definition pb_enc_bytes :: "mem \<Rightarrow> pb_encoder_t" where
  "pb_enc_bytes m stream field src =
     (if src = 0 then pb_encode_string stream [] 0
      else
        let bytes_size = load_word m src :: u32;
            allocsize = PB_BYTES_ARRAY_T_ALLOCSIZE bytes_size
        in if allocsize < ucast bytes_size \<or>
              PB_ATYPE (ftype field) = PB_ATYPE_STATIC \<and> data_size field < unat allocsize
           then PB_RETURN_OERROR ''bytes size exceeded'' stream
           else pb_encode_string stream (load_bytes m (src + 4) (unat bytes_size)) (ucast bytes_size))"

text \<open>The loop that looks for the terminating zero, at most \<open>limit\<close> bytes far.\<close>

function c_strnlen :: "mem \<Rightarrow> addr \<Rightarrow> nat \<Rightarrow> nat \<Rightarrow> nat" where
  "c_strnlen m p count limit =
     (if count < limit \<and> m p \<noteq> 0 then c_strnlen m (p + 1) (count + 1) limit else count)"
  by pat_completeness auto
termination
  by (relation "measure (\<lambda>(m, p, count, limit). limit - count)") auto

declare c_strnlen.simps [simp del]

definition pb_enc_string :: "mem \<Rightarrow> pb_encoder_t" where
  "pb_enc_string m stream field src =
     (let limit = (if PB_ATYPE (ftype field) = PB_ATYPE_POINTER then 2 ^ 64 - 1 else data_size field);
          count = (if src = 0 then 0 else c_strnlen m src 0 limit)
      in pb_encode_string stream (load_bytes m src count) (of_nat count))"

definition pb_enc_submessage :: "msg_encoder \<Rightarrow> pb_encoder_t" where
  "pb_enc_submessage sub stream field src =
     (if ptr field = PNull then PB_RETURN_OERROR ''invalid field descriptor'' stream
      else pb_encode_submessage sub stream (sub_fields (ptr field)) src)"

definition pb_enc_fixed_length_bytes :: "mem \<Rightarrow> pb_encoder_t" where
  "pb_enc_fixed_length_bytes m stream field src =
     pb_encode_string stream (load_bytes m src (data_size field)) (of_nat (data_size field))"

text \<open>
  The table \<open>PB_ENCODERS\<close>. Its entry for extensions is NULL and entries past its end do not
  exist; calling either is undefined in C and fails here.
\<close>

definition PB_ENCODERS :: "msg_encoder \<Rightarrow> mem \<Rightarrow> pb_type_t \<Rightarrow> pb_encoder_t" where
  "PB_ENCODERS sub m lt =
     (if lt = PB_LTYPE_BOOL then pb_enc_bool m
      else if lt = PB_LTYPE_VARINT then pb_enc_varint m
      else if lt = PB_LTYPE_UVARINT then pb_enc_uvarint m
      else if lt = PB_LTYPE_SVARINT then pb_enc_svarint m
      else if lt = PB_LTYPE_FIXED32 then pb_enc_fixed32 m
      else if lt = PB_LTYPE_FIXED64 then pb_enc_fixed64 m
      else if lt = PB_LTYPE_BYTES then pb_enc_bytes m
      else if lt = PB_LTYPE_STRING then pb_enc_string m
      else if lt = PB_LTYPE_SUBMESSAGE then pb_enc_submessage sub
      else if lt = PB_LTYPE_FIXED_LENGTH_BYTES then pb_enc_fixed_length_bytes m
      else (\<lambda>stream field src. (False, stream)))"

section \<open>Arrays\<close>

text \<open>The loop that calls \<open>f\<close> on \<open>count\<close> entries, \<open>step\<close> bytes apart.\<close>

primrec array_loop ::
  "(pb_ostream \<Rightarrow> addr \<Rightarrow> bool \<times> pb_ostream) \<Rightarrow> nat \<Rightarrow> nat \<Rightarrow> pb_ostream \<Rightarrow> addr \<Rightarrow> bool \<times> pb_ostream" where
  "array_loop f step 0 stream p = (True, stream)"
| "array_loop f step (Suc count) stream p =
     and_then (f stream p) (\<lambda>stream. array_loop f step count stream (p + int step))"

definition encode_array ::
  "mem \<Rightarrow> pb_ostream \<Rightarrow> pb_field \<Rightarrow> addr \<Rightarrow> nat \<Rightarrow> pb_encoder_t \<Rightarrow> bool \<times> pb_ostream" where
  "encode_array m stream field data count func =
     (if count = 0 then (True, stream)
      else if PB_ATYPE (ftype field) \<noteq> PB_ATYPE_POINTER \<and> array_size field < count
      then PB_RETURN_OERROR ''array max size exceeded'' stream
      else if PB_LTYPE (ftype field) \<le> PB_LTYPE_LAST_PACKABLE then
        and_then (pb_encode_tag stream PB_WT_STRING (tag field)) (\<lambda>stream.
          case (if PB_LTYPE (ftype field) = PB_LTYPE_FIXED32 then Some (4 * of_nat count)
                else if PB_LTYPE (ftype field) = PB_LTYPE_FIXED64 then Some (8 * of_nat count)
                else (case array_loop (\<lambda>s p. func s field p) (data_size field) count
                             PB_OSTREAM_SIZING data of
                        (True, sizestream) \<Rightarrow> Some (bytes_written sizestream)
                      | (False, sizestream) \<Rightarrow> None)) of
            None \<Rightarrow> (False, stream)
          | Some bytes \<Rightarrow>
              and_then (pb_encode_varint stream bytes) (\<lambda>stream.
                if is_Sizing (o_state stream) then pb_write stream [] bytes
                else array_loop (\<lambda>s p. func s field p) (data_size field) count stream data))
      else
        array_loop (\<lambda>s p.
          and_then (pb_encode_tag_for_field s field) (\<lambda>s.
            if PB_ATYPE (ftype field) = PB_ATYPE_POINTER \<and>
               (PB_LTYPE (ftype field) = PB_LTYPE_STRING \<or> PB_LTYPE (ftype field) = PB_LTYPE_BYTES)
            then func s field (load_ptr m p)
            else func s field p))
          (data_size field) count stream data)"

section \<open>Proto3 presence\<close>

text \<open>
  \<open>pb_check_proto3_default_value\<close> of a field; \<open>sub\<close> is the same function for the fields of
  a submessage, whose table is shallower. The byte comparison of the last branch runs over
  \<open>data_size\<close> bytes, also for a pointer field.
\<close>

definition proto3_default_step ::
  "(pb_field \<Rightarrow> addr \<Rightarrow> bool) \<Rightarrow> mem \<Rightarrow> pb_field \<Rightarrow> addr \<Rightarrow> bool" where
  "proto3_default_step sub m field data =
     (let type = ftype field;
          size_addr = data + size_offset field;
          rest =
            (if PB_ATYPE type = PB_ATYPE_STATIC \<and> PB_LTYPE type = PB_LTYPE_BYTES
             then (load_word m data :: u32) = 0
             else if PB_ATYPE type = PB_ATYPE_STATIC \<and> PB_LTYPE type = PB_LTYPE_STRING
             then m data = 0
             else if PB_ATYPE type = PB_ATYPE_STATIC \<and> PB_LTYPE type = PB_LTYPE_FIXED_LENGTH_BYTES
             then data_size field = 0
             else if PB_ATYPE type = PB_ATYPE_STATIC \<and> PB_LTYPE type = PB_LTYPE_SUBMESSAGE
             then (case pb_field_iter_begin (sub_fields (ptr field)) data of
                     (False, it) \<Rightarrow> True
                   | (True, it) \<Rightarrow> fst (iter_loop (\<lambda>it u. (sub (iter_field it) (pData it), u)) it ()))
             else if PB_ATYPE type = PB_ATYPE_POINTER \<and> PB_LTYPE_LAST_PACKABLE < PB_LTYPE type
             then load_ptr m data = 0
             else list_all (\<lambda>b. b = 0) (load_bytes m data (data_size field)))
      in if PB_HTYPE type = PB_HTYPE_REQUIRED then False
         else if PB_HTYPE type = PB_HTYPE_REPEATED then
           (if size_offset field \<noteq> 0 then (load_word m size_addr :: u32) = 0
            else if PB_ATYPE type = PB_ATYPE_STATIC then False
            else rest)
         else if PB_HTYPE type = PB_HTYPE_ONEOF then (load_word m size_addr :: u32) = 0
         else if PB_HTYPE type = PB_HTYPE_OPTIONAL \<and> size_offset field \<noteq> 0
         then \<not> safe_read_bool m size_addr
         else rest)"

primrec proto3_default :: "nat \<Rightarrow> mem \<Rightarrow> pb_field \<Rightarrow> addr \<Rightarrow> bool" where
  "proto3_default 0 m field data = True"
| "proto3_default (Suc n) m field data = proto3_default_step (proto3_default n m) m field data"

definition pb_check_proto3_default_value :: "mem \<Rightarrow> pb_field \<Rightarrow> addr \<Rightarrow> bool" where
  "pb_check_proto3_default_value m field data = proto3_default (field_depth field + 1) m field data"

section \<open>Fields\<close>

definition encode_basic_field :: "msg_encoder \<Rightarrow> mem \<Rightarrow> pb_encoder_t" where
  "encode_basic_field sub m stream field data =
     (let type = ftype field;
          func = PB_ENCODERS sub m (PB_LTYPE type);
          pointer = (PB_ATYPE type = PB_ATYPE_POINTER);
          size_addr = data + size_offset field;
          implicit_has =
            (if size_offset field = 0 \<and> PB_HTYPE type = PB_HTYPE_OPTIONAL
             then \<not> pb_check_proto3_default_value m field data else True);
          data = (if pointer then load_ptr m data else data);
          implicit_has = (if pointer then data \<noteq> 0 else implicit_has)
      in if PB_HTYPE type = PB_HTYPE_REQUIRED then
           (if data = 0 then PB_RETURN_OERROR ''missing required field'' stream
            else and_then (pb_encode_tag_for_field stream field) (\<lambda>stream. func stream field data))
         else if PB_HTYPE type = PB_HTYPE_OPTIONAL then
           (if (if size_offset field \<noteq> 0 then safe_read_bool m size_addr else implicit_has)
            then and_then (pb_encode_tag_for_field stream field) (\<lambda>stream. func stream field data)
            else (True, stream))
         else if PB_HTYPE type = PB_HTYPE_REPEATED then
           encode_array m stream field data
             (if size_offset field \<noteq> 0 then unat (load_word m size_addr :: u32) else array_size field)
             func
         else
           (if (load_word m size_addr :: u32) = tag field
            then and_then (pb_encode_tag_for_field stream field) (\<lambda>stream. func stream field data)
            else (True, stream)))"

text \<open>A callback structure holds the function pointer, then the argument handed to it by address.\<close>

definition encode_callback_field :: "enc_env \<Rightarrow> mem \<Rightarrow> pb_encoder_t" where
  "encode_callback_field env m stream field data =
     (let f = load_ptr m data in
      if f \<noteq> 0
      then (case encode_callback env f stream field (data + 8) of
              (False, stream) \<Rightarrow> PB_RETURN_OERROR ''callback error'' stream
            | (True, stream) \<Rightarrow> (True, stream))
      else (True, stream))"

definition encode_field :: "msg_encoder \<Rightarrow> enc_env \<Rightarrow> mem \<Rightarrow> pb_encoder_t" where
  "encode_field sub env m stream field data =
     (let at = PB_ATYPE (ftype field) in
      if at = PB_ATYPE_STATIC \<or> at = PB_ATYPE_POINTER then encode_basic_field sub m stream field data
      else if at = PB_ATYPE_CALLBACK then encode_callback_field env m stream field data
      else PB_RETURN_OERROR ''invalid field type'' stream)"

section \<open>Extensions\<close>

definition default_extension_encoder ::
  "msg_encoder \<Rightarrow> enc_env \<Rightarrow> mem \<Rightarrow> pb_ostream \<Rightarrow> pb_extension \<Rightarrow> bool \<times> pb_ostream" where
  "default_extension_encoder sub env m stream extension =
     (let field = ext_arg extension in
      if PB_ATYPE (ftype field) = PB_ATYPE_POINTER
      then encode_field sub env m stream field (ext_dest_addr extension)
      else encode_field sub env m stream field (load_ptr m (ext_dest_addr extension)))"

fun encode_extensions ::
  "msg_encoder \<Rightarrow> enc_env \<Rightarrow> mem \<Rightarrow> pb_ostream \<Rightarrow> pb_extension list \<Rightarrow> bool \<times> pb_ostream" where
  "encode_extensions sub env m stream [] = (True, stream)"
| "encode_extensions sub env m stream (extension # next) =
     and_then
       (if ext_encode extension \<noteq> 0
        then extension_encode env (ext_encode extension) stream extension
        else default_extension_encoder sub env m stream extension)
       (\<lambda>stream. encode_extensions sub env m stream next)"

definition encode_extension_field :: "msg_encoder \<Rightarrow> enc_env \<Rightarrow> mem \<Rightarrow> pb_encoder_t" where
  "encode_extension_field sub env m stream field data =
     encode_extensions sub env m stream (e_extensions env (load_ptr m data))"

section \<open>Messages\<close>

definition encode_message :: "msg_encoder \<Rightarrow> enc_env \<Rightarrow> mem \<Rightarrow> msg_encoder" where
  "encode_message sub env m stream fs src =
     (case pb_field_iter_begin fs src of
        (False, it) \<Rightarrow> (True, stream)
      | (True, it) \<Rightarrow>
          iter_loop (\<lambda>it stream.
            if PB_LTYPE (ftype (iter_field it)) = PB_LTYPE_EXTENSION
            then encode_extension_field sub env m stream (iter_field it) (pData it)
            else encode_field sub env m stream (iter_field it) (pData it)) it stream)"

primrec pb_encode :: "nat \<Rightarrow> enc_env \<Rightarrow> mem \<Rightarrow> msg_encoder" where
  "pb_encode 0 env m stream fs src = PB_RETURN_OERROR ''nested too deep'' stream"
| "pb_encode (Suc n) env m stream fs src = encode_message (pb_encode n env m) env m stream fs src"

definition pb_encode_delimited :: "nat \<Rightarrow> enc_env \<Rightarrow> mem \<Rightarrow> msg_encoder" where
  "pb_encode_delimited n env m stream fs src = pb_encode_submessage (pb_encode n env m) stream fs src"

definition pb_encode_nullterminated :: "nat \<Rightarrow> enc_env \<Rightarrow> mem \<Rightarrow> msg_encoder" where
  "pb_encode_nullterminated n env m stream fs src =
     and_then (pb_encode n env m stream fs src) (\<lambda>stream. pb_write stream [0] 1)"

definition pb_get_encoded_size :: "nat \<Rightarrow> enc_env \<Rightarrow> mem \<Rightarrow> pb_field list \<Rightarrow> addr \<Rightarrow> u64 option" where
  "pb_get_encoded_size n env m fs src =
     (case pb_encode n env m PB_OSTREAM_SIZING fs src of
        (False, stream) \<Rightarrow> None
      | (True, stream) \<Rightarrow> Some (bytes_written stream))"

end
