(* ===== verification/PbIStream.thy ===== *)
theory PbIStream
  imports PbWire
begin

text \<open>
  Input streams and the scalar decoders of \<open>nanopb/pb_decode.c\<close>. A stream's callback and
  state pointer are one value: \<open>IBuf bs\<close> is \<open>buf_read\<close> with the state pointer at the
  bytes \<open>bs\<close>, which run to the end of the buffer object; \<open>ICustom f\<close> is a user callback
  together with its state. A read returns the bytes that the C code stores in the caller's
  buffer. \<open>bytes_left\<close> is only compared, and decreased by amounts it was compared with, so it
  is a natural number. \<open>bitpos\<close> has the eight bits that \<open>uint_fast8_t\<close> has on the targets
  of the pods, and its arithmetic wraps.
\<close>

section \<open>The stream\<close>

codatatype istate =
  is_IBuf: IBuf (ibuf: "u8 list")
| ICustom "nat \<Rightarrow> u8 list option \<times> istate"

record pb_istream =
  i_state :: istate
  bytes_left :: nat
  i_errmsg :: "string option"

definition PB_SET_IERROR :: "string \<Rightarrow> pb_istream \<Rightarrow> pb_istream" where
  "PB_SET_IERROR msg s =
     s\<lparr>i_errmsg := (case i_errmsg s of Some e \<Rightarrow> Some e | None \<Rightarrow> Some msg)\<rparr>"

definition PB_RETURN_IERROR :: "string \<Rightarrow> pb_istream \<Rightarrow> 'a option \<times> pb_istream" where
  "PB_RETURN_IERROR msg s = (None, PB_SET_IERROR msg s)"

text \<open>A read past the buffer object is undefined in C; the model reports it as a failure.\<close>

definition buf_read :: "pb_istream \<Rightarrow> nat \<Rightarrow> u8 list option \<times> pb_istream" where
  "buf_read s count =
     (if count \<le> length (ibuf (i_state s))
      then (Some (take count (ibuf (i_state s))), s\<lparr>i_state := IBuf (drop count (ibuf (i_state s)))\<rparr>)
      else (None, s))"

text \<open>
  A user callback fills the \<open>count\<close> bytes of the buffer it is given, no more; bytes it leaves
  untouched are zero in the model.
\<close>

definition istream_callback :: "pb_istream \<Rightarrow> nat \<Rightarrow> u8 list option \<times> pb_istream" where
  "istream_callback s count =
     (case i_state s of
        IBuf bs \<Rightarrow> buf_read s count
      | ICustom f \<Rightarrow> (case f count of (r, st) \<Rightarrow>
          (map_option (\<lambda>bs. take count (bs @ replicate count 0)) r, s\<lparr>i_state := st\<rparr>)))"

definition pb_istream_from_buffer :: "u8 list \<Rightarrow> nat \<Rightarrow> pb_istream" where
  "pb_istream_from_buffer buf bufsize =
     \<lparr>i_state = IBuf buf, bytes_left = bufsize, i_errmsg = None\<rparr>"

text \<open>
  \<open>pb_read\<close> into a buffer, then with a NULL buffer: a custom stream is skipped in pieces of
  16 bytes through a local array, a memory stream in one step.
\<close>

definition pb_read_into :: "pb_istream \<Rightarrow> nat \<Rightarrow> u8 list option \<times> pb_istream" where
  "pb_read_into s count =
     (if count = 0 then (Some [], s)
      else if bytes_left s < count then PB_RETURN_IERROR ''end-of-stream'' s
      else (case istream_callback s count of
          (None, s') \<Rightarrow> PB_RETURN_IERROR ''io error'' s'
        | (Some bs, s') \<Rightarrow> (Some bs, s'\<lparr>bytes_left := bytes_left s' - count\<rparr>)))"

function pb_skip_custom :: "pb_istream \<Rightarrow> nat \<Rightarrow> u8 list option \<times> pb_istream" where
  "pb_skip_custom s count =
     (if 16 < count then bind_some (pb_read_into s 16) (\<lambda>tmp s. pb_skip_custom s (count - 16))
      else pb_read_into s count)"
  by pat_completeness auto
termination
  by (relation "measure snd") auto

declare pb_skip_custom.simps [simp del]

definition pb_read :: "pb_istream \<Rightarrow> bool \<Rightarrow> nat \<Rightarrow> u8 list option \<times> pb_istream" where
  "pb_read s null count =
     (if count = 0 then (Some [], s)
      else if null \<and> \<not> is_IBuf (i_state s) then pb_skip_custom s count
      else pb_read_into s count)"

definition pb_readbyte :: "pb_istream \<Rightarrow> u8 option \<times> pb_istream" where
  "pb_readbyte s =
     (if bytes_left s = 0 then PB_RETURN_IERROR ''end-of-stream'' s
      else (case istream_callback s 1 of
          (None, s') \<Rightarrow> PB_RETURN_IERROR ''io error'' s'
        | (Some bs, s') \<Rightarrow> (Some (hd bs), s'\<lparr>bytes_left := bytes_left s' - 1\<rparr>)))"

lemma istream_callback_bytes_left:
  "istream_callback s n = (r, s') \<Longrightarrow> bytes_left s' = bytes_left s"
  by (auto simp: istream_callback_def buf_read_def split: istate.splits prod.splits if_splits)

lemma PB_RETURN_IERROR_bytes_left [simp]:
  "bytes_left (snd (PB_RETURN_IERROR msg s)) = bytes_left s"
  "fst (PB_RETURN_IERROR msg s) = None"
  by (simp_all add: PB_RETURN_IERROR_def PB_SET_IERROR_def)

lemma pb_readbyte_less:
  "pb_readbyte s = (Some b, s') \<Longrightarrow> bytes_left s' < bytes_left s"
  by (auto simp: pb_readbyte_def PB_RETURN_IERROR_def dest: istream_callback_bytes_left
      split: if_splits prod.splits option.splits)

lemma pb_read_into_left:
  "pb_read_into s n = (Some bs, s') \<Longrightarrow> n \<le> bytes_left s \<and> bytes_left s' = bytes_left s - n"
  by (auto simp: pb_read_into_def PB_RETURN_IERROR_def dest: istream_callback_bytes_left
      split: if_splits prod.splits option.splits)

section \<open>Varints\<close>

text \<open>
  The loop of \<open>pb_decode_varint32_eof\<close> on the bytes after the first; it returns the
  result, the final \<open>bitpos\<close> and the last byte read.
\<close>

function decode_varint32_loop ::
  "pb_istream \<Rightarrow> u8 \<Rightarrow> u32 \<Rightarrow> (u32 \<times> u8 \<times> u8) option \<times> pb_istream" where
  "decode_varint32_loop s bitpos result =
     bind_some (pb_readbyte s) (\<lambda>byte s.
       let sign_extension = (if bitpos < 63 then 0xFF else 0x01 :: u8);
           overflow = (32 \<le> bitpos \<and> byte AND 0x7F \<noteq> 0 \<and>
             (drop_bit 31 result = 0 \<or> byte \<noteq> sign_extension));
           result' = (if 32 \<le> bitpos then result
             else result OR push_bit (unat bitpos) (ucast (byte AND 0x7F)))
       in if overflow then PB_RETURN_IERROR ''varint overflow'' s
          else if byte AND 0x80 \<noteq> 0 then decode_varint32_loop s (bitpos + 7) result'
          else (Some (result', bitpos + 7, byte), s))"
  by pat_completeness auto
termination
  by (relation "measure (\<lambda>(s, bitpos, result). bytes_left s)") (auto dest: pb_readbyte_less)

declare decode_varint32_loop.simps [simp del]

text \<open>The second component is the \<open>eof\<close> flag.\<close>

definition pb_decode_varint32_eof :: "pb_istream \<Rightarrow> u32 option \<times> bool \<times> pb_istream" where
  "pb_decode_varint32_eof s =
     (case pb_readbyte s of
        (None, s) \<Rightarrow> (None, bytes_left s = 0, s)
      | (Some byte, s) \<Rightarrow>
          (if byte AND 0x80 = 0 then (Some (ucast byte), False, s)
           else (case decode_varint32_loop s 7 (ucast (byte AND 0x7F)) of
               (None, s) \<Rightarrow> (None, False, s)
             | (Some (result, bitpos, byte), s) \<Rightarrow>
                 (if bitpos = 35 \<and> byte AND 0x70 \<noteq> 0
                  then (None, False, PB_SET_IERROR ''varint overflow'' s)
                  else (Some result, False, s)))))"

definition pb_decode_varint32 :: "pb_istream \<Rightarrow> u32 option \<times> pb_istream" where
  "pb_decode_varint32 s = (case pb_decode_varint32_eof s of (r, eof, s) \<Rightarrow> (r, s))"

function decode_varint_loop :: "pb_istream \<Rightarrow> u8 \<Rightarrow> u64 \<Rightarrow> u64 option \<times> pb_istream" where
  "decode_varint_loop s bitpos result =
     (if 64 \<le> bitpos then PB_RETURN_IERROR ''varint overflow'' s
      else bind_some (pb_readbyte s) (\<lambda>byte s.
        let result' = result OR push_bit (unat bitpos) (ucast (byte AND 0x7F))
        in if byte AND 0x80 \<noteq> 0 then decode_varint_loop s (bitpos + 7) result'
           else (Some result', s)))"
  by pat_completeness auto
termination
  by (relation "measure (\<lambda>(s, bitpos, result). bytes_left s)") (auto dest: pb_readbyte_less)

declare decode_varint_loop.simps [simp del]

definition pb_decode_varint :: "pb_istream \<Rightarrow> u64 option \<times> pb_istream" where
  "pb_decode_varint s = decode_varint_loop s 0 0"

section \<open>Tags, skipping and raw values\<close>

function pb_skip_varint :: "pb_istream \<Rightarrow> unit option \<times> pb_istream" where
  "pb_skip_varint s =
     bind_some (pb_read_into s 1) (\<lambda>bs s.
       if hd bs AND 0x80 \<noteq> 0 then pb_skip_varint s else (Some (), s))"
  by pat_completeness auto
termination
  by (relation "measure bytes_left") (auto dest: pb_read_into_left)

declare pb_skip_varint.simps [simp del]

definition pb_skip_bytes :: "pb_istream \<Rightarrow> nat \<Rightarrow> unit option \<times> pb_istream" where
  "pb_skip_bytes s n = bind_some (pb_read s True n) (\<lambda>bs s. (Some (), s))"

definition pb_skip_string :: "pb_istream \<Rightarrow> unit option \<times> pb_istream" where
  "pb_skip_string s = bind_some (pb_decode_varint32 s) (\<lambda>length s. pb_skip_bytes s (unat length))"

text \<open>The tag decoder returns the wire type and the tag, the \<open>eof\<close> flag and the stream.\<close>

definition pb_decode_tag :: "pb_istream \<Rightarrow> (u32 \<times> u32) option \<times> bool \<times> pb_istream" where
  "pb_decode_tag s =
     (case pb_decode_varint32_eof s of
        (None, eof, s) \<Rightarrow> (None, eof, s)
      | (Some temp, eof, s) \<Rightarrow>
          (if temp = 0 then (None, True, s)
           else (Some (temp AND 7, drop_bit 3 temp), eof, s)))"

definition pb_skip_field :: "pb_istream \<Rightarrow> u32 \<Rightarrow> unit option \<times> pb_istream" where
  "pb_skip_field s wire_type =
     (if wire_type = PB_WT_VARINT then pb_skip_varint s
      else if wire_type = PB_WT_64BIT then pb_skip_bytes s 8
      else if wire_type = PB_WT_STRING then pb_skip_string s
      else if wire_type = PB_WT_32BIT then pb_skip_bytes s 4
      else PB_RETURN_IERROR ''invalid wire_type'' s)"

text \<open>The bytes of a varint for a callback, at most \<open>max_size\<close> of them.\<close>

fun read_raw_varint :: "nat \<Rightarrow> pb_istream \<Rightarrow> u8 list option \<times> pb_istream" where
  "read_raw_varint 0 s = (None, s)"
| "read_raw_varint (Suc max_size) s =
     bind_some (pb_read_into s 1) (\<lambda>bs s.
       if hd bs AND 0x80 \<noteq> 0
       then bind_some (read_raw_varint max_size s) (\<lambda>rest s. (Some (hd bs # rest), s))
       else (Some [hd bs], s))"

definition read_raw_value :: "pb_istream \<Rightarrow> u32 \<Rightarrow> nat \<Rightarrow> u8 list option \<times> pb_istream" where
  "read_raw_value s wire_type max_size =
     (if wire_type = PB_WT_VARINT then read_raw_varint max_size s
      else if wire_type = PB_WT_64BIT then pb_read_into s 8
      else if wire_type = PB_WT_32BIT then pb_read_into s 4
      else PB_RETURN_IERROR ''invalid wire_type'' s)"

section \<open>Substreams\<close>

definition pb_make_string_substream :: "pb_istream \<Rightarrow> pb_istream option \<times> pb_istream" where
  "pb_make_string_substream s =
     bind_some (pb_decode_varint32 s) (\<lambda>size32 s.
       let n = unat size32 in
       if bytes_left s < n then PB_RETURN_IERROR ''parent stream too short'' s
       else (Some (s\<lparr>bytes_left := n\<rparr>), s\<lparr>bytes_left := bytes_left s - n\<rparr>))"

definition pb_close_string_substream :: "pb_istream \<Rightarrow> pb_istream \<Rightarrow> bool \<times> pb_istream" where
  "pb_close_string_substream s substream =
     (case (if bytes_left substream \<noteq> 0 then pb_read substream True (bytes_left substream)
            else (Some [], substream)) of
        (None, sub') \<Rightarrow> (False, s)
      | (Some bs, sub') \<Rightarrow> (True, s\<lparr>i_state := i_state sub', i_errmsg := i_errmsg sub'\<rparr>))"

section \<open>Scalar decoders\<close>

definition pb_decode_bool :: "pb_istream \<Rightarrow> bool option \<times> pb_istream" where
  "pb_decode_bool s = bind_some (pb_decode_varint32 s) (\<lambda>value s. (Some (value \<noteq> 0), s))"

definition pb_decode_svarint :: "pb_istream \<Rightarrow> u64 option \<times> pb_istream" where
  "pb_decode_svarint s =
     bind_some (pb_decode_varint s) (\<lambda>value s.
       (Some (if value AND 1 \<noteq> 0 then NOT (drop_bit 1 value) else drop_bit 1 value), s))"

definition pb_decode_fixed32 :: "pb_istream \<Rightarrow> u32 option \<times> pb_istream" where
  "pb_decode_fixed32 s =
     bind_some (pb_read_into s 4) (\<lambda>bytes s.
       (Some (push_bit 0 (ucast (bytes ! 0)) OR push_bit 8 (ucast (bytes ! 1)) OR
              push_bit 16 (ucast (bytes ! 2)) OR push_bit 24 (ucast (bytes ! 3))), s))"

definition pb_decode_fixed64 :: "pb_istream \<Rightarrow> u64 option \<times> pb_istream" where
  "pb_decode_fixed64 s =
     bind_some (pb_read_into s 8) (\<lambda>bytes s.
       (Some (push_bit 0 (ucast (bytes ! 0)) OR push_bit 8 (ucast (bytes ! 1)) OR
              push_bit 16 (ucast (bytes ! 2)) OR push_bit 24 (ucast (bytes ! 3)) OR
              push_bit 32 (ucast (bytes ! 4)) OR push_bit 40 (ucast (bytes ! 5)) OR
              push_bit 48 (ucast (bytes ! 6)) OR push_bit 56 (ucast (bytes ! 7))), s))"

section \<open>What the decoders read\<close>

text \<open>
  The invariant of the streams the library builds: a memory stream never claims more bytes
  than its buffer object still holds. The contract of a decoder: when the next bytes of such
  a stream are \<open>bs\<close>, it consumes exactly them and returns \<open>v\<close>.
\<close>

definition istream_ok :: "pb_istream \<Rightarrow> bool" where
  "istream_ok s \<longleftrightarrow> is_IBuf (i_state s) \<and> bytes_left s \<le> length (ibuf (i_state s))"

definition upcoming :: "pb_istream \<Rightarrow> u8 list" where
  "upcoming s = take (bytes_left s) (ibuf (i_state s))"

definition consume :: "nat \<Rightarrow> pb_istream \<Rightarrow> pb_istream" where
  "consume n s = s\<lparr>i_state := IBuf (drop n (ibuf (i_state s))), bytes_left := bytes_left s - n\<rparr>"

definition reads :: "(pb_istream \<Rightarrow> 'a option \<times> pb_istream) \<Rightarrow> u8 list \<Rightarrow> 'a \<Rightarrow> bool" where
  "reads f bs v \<longleftrightarrow>
     (\<forall>s rest. istream_ok s \<longrightarrow> upcoming s = bs @ rest \<longrightarrow> f s = (Some v, consume (length bs) s))"

lemma readsI:
  "(\<And>s rest. istream_ok s \<Longrightarrow> upcoming s = bs @ rest \<Longrightarrow> f s = (Some v, consume (length bs) s))
     \<Longrightarrow> reads f bs v"
  by (simp add: reads_def)

lemma readsD:
  "reads f bs v \<Longrightarrow> istream_ok s \<Longrightarrow> upcoming s = bs @ rest \<Longrightarrow> f s = (Some v, consume (length bs) s)"
  by (auto simp: reads_def)

lemma length_upcoming [simp]: "istream_ok s \<Longrightarrow> length (upcoming s) = bytes_left s"
  by (simp add: istream_ok_def upcoming_def)

lemma bytes_left_consume [simp]: "bytes_left (consume n s) = bytes_left s - n"
  by (simp add: consume_def)

lemma i_errmsg_consume [simp]: "i_errmsg (consume n s) = i_errmsg s"
  by (simp add: consume_def)

lemma istream_ok_consume [stream_ok]: "istream_ok s \<Longrightarrow> istream_ok (consume n s)"
  by (auto simp: istream_ok_def consume_def)

lemma upcoming_consume [simp]: "upcoming (consume n s) = drop n (upcoming s)"
  by (simp add: consume_def upcoming_def drop_take)

lemma consume_consume [simp]: "consume m (consume n s) = consume (n + m) s"
  by (simp add: consume_def add.commute)

lemma consume_0: "istream_ok s \<Longrightarrow> consume 0 s = s"
proof -
  assume "istream_ok s"
  then have "IBuf (ibuf (i_state s)) = i_state s" by (simp add: istream_ok_def)
  then show "consume 0 s = s" unfolding consume_def drop_0 diff_zero by simp
qed

lemma upcoming_from_buffer [simp]:
  "upcoming (pb_istream_from_buffer bs (length bs)) = bs"
  by (simp add: upcoming_def pb_istream_from_buffer_def)

lemma istream_ok_from_buffer [stream_ok]:
  "n \<le> length bs \<Longrightarrow> istream_ok (pb_istream_from_buffer bs n)"
  by (simp add: istream_ok_def pb_istream_from_buffer_def)

lemma istream_ok_error [stream_ok]: "istream_ok s \<Longrightarrow> istream_ok (PB_SET_IERROR msg s)"
  by (simp add: istream_ok_def PB_SET_IERROR_def)

lemma reads_bind:
  assumes "reads f a x" and "reads (g x) b y"
  shows "reads (\<lambda>s. bind_some (f s) g) (a @ b) y"
proof (rule readsI)
  fix s rest assume ok: "istream_ok s" and up: "upcoming s = (a @ b) @ rest"
  have "f s = (Some x, consume (length a) s)"
    using readsD [OF assms(1) ok, of "b @ rest"] up by simp
  moreover have "g x (consume (length a) s) = (Some y, consume (length b) (consume (length a) s))"
    using readsD [OF assms(2) istream_ok_consume [OF ok], of "length a" rest] up by simp
  ultimately show "bind_some (f s) g = (Some y, consume (length (a @ b)) s)" by simp
qed

lemma reads_return: "reads (\<lambda>s. (Some v, s)) [] v"
  by (rule readsI) (simp add: consume_0)

lemma reads_map:
  assumes "reads f a x"
  shows "reads (\<lambda>s. bind_some (f s) (\<lambda>v s. (Some (h v), s))) a (h x)"
proof -
  have "reads (\<lambda>s. (Some (h x), s)) [] (h x)" by (rule reads_return)
  then show ?thesis
    using reads_bind [OF assms, of "\<lambda>v s. (Some (h v), s)" "[]" "h x"] by simp
qed

text \<open>Behaviour of the primitive reads on a memory stream, successful or not.\<close>

lemma ibuf_consume:
  "istream_ok s \<Longrightarrow> n \<le> bytes_left s \<Longrightarrow> take n (ibuf (i_state s)) = take n (upcoming s)"
  by (simp add: upcoming_def min_def)

lemma pb_read_into_ok [stream_simps]:
  assumes "istream_ok s"
  shows "pb_read_into s n =
    (if n \<le> bytes_left s then (Some (take n (upcoming s)), consume n s)
     else PB_RETURN_IERROR ''end-of-stream'' s)"
proof (cases "n = 0")
  case True
  then show ?thesis using assms by (simp add: pb_read_into_def consume_0)
next
  case False
  obtain bs where "i_state s = IBuf bs" "bytes_left s \<le> length bs"
    using assms by (cases "i_state s") (auto simp: istream_ok_def)
  with False show ?thesis
    by (auto simp: pb_read_into_def istream_callback_def buf_read_def consume_def upcoming_def
        min_def)
qed

lemma pb_read_ok [stream_simps]:
  assumes "istream_ok s"
  shows "pb_read s null n =
    (if n \<le> bytes_left s then (Some (take n (upcoming s)), consume n s)
     else PB_RETURN_IERROR ''end-of-stream'' s)"
  using assms by (auto simp: pb_read_def pb_read_into_ok consume_0 istream_ok_def)

lemma pb_readbyte_ok [stream_simps]:
  assumes "istream_ok s"
  shows "pb_readbyte s =
    (case upcoming s of [] \<Rightarrow> PB_RETURN_IERROR ''end-of-stream'' s
     | b # bs \<Rightarrow> (Some b, consume 1 s))"
proof (cases "bytes_left s")
  case 0
  then show ?thesis by (simp add: pb_readbyte_def upcoming_def)
next
  case (Suc n)
  obtain b bs where "i_state s = IBuf (b # bs)" "n \<le> length bs"
    using assms Suc by (cases "i_state s"; cases "ibuf (i_state s)") (auto simp: istream_ok_def)
  with Suc show ?thesis
    by (simp add: pb_readbyte_def istream_callback_def buf_read_def upcoming_def consume_def)
qed

lemma reads_read_into: "length bs = n \<Longrightarrow> reads (\<lambda>s. pb_read_into s n) bs bs"
proof (rule readsI)
  fix s rest assume n: "length bs = n" and ok: "istream_ok s" and up: "upcoming s = bs @ rest"
  have "n \<le> bytes_left s" using length_upcoming [OF ok] up n by simp
  then show "pb_read_into s n = (Some bs, consume (length bs) s)"
    using ok up n by (simp add: pb_read_into_ok)
qed

section \<open>The varint decoders on every memory stream\<close>

lemma decode_varint_loop_ok:
  assumes "istream_ok s" and "j \<le> 10" and "x < 2 ^ (7 * j)"
    and "k = varint_span (upcoming s)"
  shows "decode_varint_loop s (word_of_nat (7 * j)) (word_of_nat x) =
    (if 10 \<le> j + k then PB_RETURN_IERROR ''varint overflow'' (consume (10 - j) s)
     else if bytes_left s \<le> k then PB_RETURN_IERROR ''end-of-stream'' (consume k s)
     else (Some (word_of_nat (x + 2 ^ (7 * j) * leb128_value (take (Suc k) (upcoming s)))),
           consume (Suc k) s))"
  using assms
proof (induction "10 - j" arbitrary: j s x k)
  case 0
  then have "j = 10" by simp
  moreover have "(64 :: u8) \<le> word_of_nat 70" by simp
  ultimately show ?case
    using 0 by (subst decode_varint_loop.simps) (simp add: consume_0)
next
  case (Suc d)
  then have j: "j < 10" by simp
  have pos: "unat (word_of_nat (7 * j) :: u8) = 7 * j"
    using j by (intro unat_of_nat_u8) simp
  then have lt: "\<not> (64 :: u8) \<le> word_of_nat (7 * j)"
    using j by (simp add: word_le_nat_alt)
  show ?case
  proof (cases "upcoming s")
    case Nil
    then have "bytes_left s = 0" using length_upcoming [OF Suc.prems(1)] by simp
    then show ?thesis using Suc.prems j lt Nil
      by (subst decode_varint_loop.simps)
        (simp add: pb_readbyte_ok PB_RETURN_IERROR_def consume_0)
  next
    case (Cons b bs)
    have len: "bytes_left s = Suc (length bs)"
      using length_upcoming [OF Suc.prems(1)] Cons by simp
    let ?x' = "x + 2 ^ (7 * j) * (unat b mod 128)"
    have x': "?x' < 2 ^ (7 * Suc j)" by (rule chunk_bound [OF Suc.prems(3)])
    have rb: "pb_readbyte s = (Some b, consume 1 s)"
      using Suc.prems(1) Cons by (simp add: pb_readbyte_ok)
    have nxt: "(word_of_nat (7 * j) + 7 :: u8) = word_of_nat (7 * Suc j)" by simp
    have step: "decode_varint_loop s (word_of_nat (7 * j)) (word_of_nat x) =
      (if has_cont b then decode_varint_loop (consume 1 s) (word_of_nat (7 * Suc j)) (word_of_nat ?x')
       else (Some (word_of_nat ?x'), consume 1 s))"
      using lt by (subst decode_varint_loop.simps)
        (simp add: rb has_cont_alt pos or_chunk [OF Suc.prems(3)] Let_def nxt
          del: of_nat_add of_nat_mult mult_Suc_right)
    show ?thesis
    proof (cases "has_cont b")
      case False
      then show ?thesis using step Cons len j Suc.prems(4) by simp
    next
      case True
      have IH: "decode_varint_loop (consume 1 s) (word_of_nat (7 * Suc j)) (word_of_nat ?x') = 
        (if 10 \<le> Suc j + varint_span bs then PB_RETURN_IERROR ''varint overflow'' (consume (10 - Suc j) (consume 1 s))
     else if bytes_left (consume 1 s) \<le> varint_span bs then PB_RETURN_IERROR ''end-of-stream'' (consume (varint_span bs) (consume 1 s))
     else (Some (word_of_nat (?x' + 2 ^ (7 * Suc j) * leb128_value (take (Suc (varint_span bs)) (upcoming (consume 1 s))))),
           consume (Suc (varint_span bs)) (consume 1 s)))"
        using Suc.hyps Suc.prems j x' Cons
        by (intro Suc.hyps(1)) (auto intro: istream_ok_consume)
      have v: "x + 2 ^ (7 * j) * leb128_value (take (Suc (Suc (varint_span bs))) (upcoming s)) =
        ?x' + 2 ^ (7 * Suc j) * leb128_value (take (Suc (varint_span bs)) bs)"
        by (simp add: Cons power_add algebra_simps)
      show ?thesis
        unfolding step IH using True Cons len j Suc.prems(4) v
        by (simp add: Suc_diff_le [symmetric])
    qed
  qed
qed


lemma pb_decode_varint_ok:
  assumes "istream_ok s"
  defines "k \<equiv> varint_span (upcoming s)"
  shows "pb_decode_varint s =
    (if 10 \<le> k then PB_RETURN_IERROR ''varint overflow'' (consume 10 s)
     else if bytes_left s \<le> k then PB_RETURN_IERROR ''end-of-stream'' (consume k s)
     else (Some (word_of_nat (leb128_value (take (Suc k) (upcoming s)))), consume (Suc k) s))"
  using decode_varint_loop_ok [OF assms(1), of 0 0, OF _ _ refl]
  by (simp add: pb_decode_varint_def k_def)

lemma reads_varint: "reads pb_decode_varint (leb128 (unat v)) v"
proof (rule readsI)
  fix s rest assume ok: "istream_ok s" and up: "upcoming s = leb128 (unat v) @ rest"
  have "length (leb128 (unat v)) \<le> 10" by (rule length_leb128_u64)
  moreover have "length (leb128 (unat v)) \<le> bytes_left s"
    using length_upcoming [OF ok] up by simp
  moreover obtain m where "length (leb128 (unat v)) = Suc m"
    using length_leb128_pos [of "unat v"] by (cases "length (leb128 (unat v))") auto
  ultimately show "pb_decode_varint s = (Some v, consume (length (leb128 (unat v))) s)"
    unfolding pb_decode_varint_ok [OF ok] up varint_span_leb128
    by (simp add: leb128_value_leb128)
qed

lemma decode_varint32_loop_ok:
  assumes "istream_ok s" and "x < 2 ^ (7 * j)"
    and "k = varint_span (upcoming s)" and "j + k \<le> 4" and "k < bytes_left s"
  shows "decode_varint32_loop s (word_of_nat (7 * j)) (word_of_nat x) =
    (Some (word_of_nat (x + 2 ^ (7 * j) * leb128_value (take (Suc k) (upcoming s))),
           word_of_nat (7 * (j + Suc k)), upcoming s ! k), consume (Suc k) s)"
  using assms
proof (induction k arbitrary: j s x)
  case 0 note prems = 0
  obtain b bs where up: "upcoming s = b # bs" and nb: "\<not> has_cont b"
    using prems length_upcoming [OF prems(1)] by (cases "upcoming s") (auto split: if_splits)
  have pos: "unat (word_of_nat (7 * j) :: u8) = 7 * j"
    using prems by (intro unat_of_nat_u8) simp
  then have lt: "\<not> (32 :: u8) \<le> word_of_nat (7 * j)"
    using prems by (simp add: word_le_nat_alt)
  have nxt: "(word_of_nat (7 * j) + 7 :: u8) = word_of_nat (7 * Suc j)" by simp
  show ?case
    using prems up nb lt by (subst decode_varint32_loop.simps)
      (simp add: pb_readbyte_ok has_cont_alt pos or_chunk [OF prems(2)] nxt
        del: of_nat_add of_nat_mult mult_Suc_right)
next
  case (Suc k)
  obtain b bs where up: "upcoming s = b # bs" and nb: "has_cont b" and k: "k = varint_span bs"
    using Suc.prems length_upcoming [OF Suc.prems(1)] by (cases "upcoming s") (auto split: if_splits)
  have pos: "unat (word_of_nat (7 * j) :: u8) = 7 * j"
    using Suc.prems by (intro unat_of_nat_u8) simp
  then have lt: "\<not> (32 :: u8) \<le> word_of_nat (7 * j)"
    using Suc.prems by (simp add: word_le_nat_alt)
  have nxt: "(word_of_nat (7 * j) + 7 :: u8) = word_of_nat (7 * Suc j)" by simp
  let ?x' = "x + 2 ^ (7 * j) * (unat b mod 128)"
  have x': "?x' < 2 ^ (7 * Suc j)" using chunk_bound [OF Suc.prems(2)] .
  have step: "decode_varint32_loop s (word_of_nat (7 * j)) (word_of_nat x) =
      decode_varint32_loop (consume 1 s) (word_of_nat (7 * Suc j)) (word_of_nat ?x')"
    using Suc.prems up nb lt by (subst decode_varint32_loop.simps)
      (simp add: pb_readbyte_ok has_cont_alt pos or_chunk [OF Suc.prems(2)] nxt
        del: of_nat_add of_nat_mult mult_Suc_right)
  have IH: "decode_varint32_loop (consume 1 s) (word_of_nat (7 * Suc j)) (word_of_nat ?x') =
    (Some (word_of_nat (?x' + 2 ^ (7 * Suc j) * leb128_value (take (Suc k) (upcoming (consume 1 s)))),
           word_of_nat (7 * (Suc j + Suc k)), upcoming (consume 1 s) ! k), consume (Suc k) (consume 1 s))"
    using Suc.prems x' up nb by (intro Suc.IH) (auto intro: istream_ok_consume)
  have v: "x + 2 ^ (7 * j) * leb128_value (take (Suc (Suc k)) (upcoming s)) =
        ?x' + 2 ^ (7 * Suc j) * leb128_value (take (Suc k) bs)"
    by (simp add: up power_add algebra_simps)
  show ?case unfolding step IH using v up by simp
qed

lemma pb_decode_varint32_eof_ok:
  assumes ok: "istream_ok s" and k: "k = varint_span (upcoming s)" and "k \<le> 4" and "k < bytes_left s"
  shows "pb_decode_varint32_eof s =
    (if leb128_value (take (Suc k) (upcoming s)) < 2 ^ 32
     then (Some (word_of_nat (leb128_value (take (Suc k) (upcoming s)))), False, consume (Suc k) s)
     else (None, False, PB_SET_IERROR ''varint overflow'' (consume (Suc k) s)))"
proof -
  obtain b bs where up: "upcoming s = b # bs"
    using assms length_upcoming [OF ok] by (cases "upcoming s") auto
  have rb: "pb_readbyte s = (Some b, consume 1 s)" using ok up by (simp add: pb_readbyte_ok)
  show ?thesis
  proof (cases "has_cont b")
    case False
    then have "unat b < 128" by (simp add: has_cont_unat)
    moreover from this have "ucast b = (word_of_nat (unat b mod 128) :: u32)" by simp
    ultimately show ?thesis using False k up
      by (simp add: pb_decode_varint32_eof_def rb has_cont_alt)
  next
    case True
    let ?k = "varint_span bs" and ?x = "unat b mod 128"
    let ?v = "leb128_value (take (Suc k) (upcoming s))"
    have kk: "k = Suc ?k" using True k up by simp
    have x: "?x < 2 ^ (7 * 1)" by simp
    have b7: "ucast (b AND 0x7F) = (word_of_nat ?x :: u32)"
      unfolding unat_and_mask7 [symmetric] by simp
    have seven: "(7 :: u8) = word_of_nat (7 * 1)" by simp
    have v: "?v = ?x + 2 ^ (7 * 1) * leb128_value (take (Suc ?k) (upcoming (consume 1 s)))"
      by (simp add: up kk)
    have loop: "decode_varint32_loop (consume 1 s) 7 (ucast (b AND 0x7F)) =
        (Some (word_of_nat ?v, word_of_nat (7 * Suc k), upcoming s ! k), consume (Suc k) s)"
      unfolding b7 seven v
      using decode_varint32_loop_ok [OF istream_ok_consume [OF ok], of ?x 1 ?k 1, OF x] assms up kk
      by simp
    have "7 * Suc k < 256" using assms by simp
    then have pos: "(word_of_nat (7 * Suc k) :: u8) = 35 \<longleftrightarrow> k = 4"
      by (simp only: word_unat_eq_iff unat_of_nat_u8) simp
    have bound: "?v < 2 ^ 32 \<longleftrightarrow> \<not> (k = 4 \<and> upcoming s ! k AND 0x70 \<noteq> 0)"
    proof (cases "k = 4")
      case True
      have "take 5 (upcoming s) = take 4 (upcoming s) @ [upcoming s ! 4]"
        using assms True length_upcoming [OF ok] take_Suc_conv_app_nth [of 4 "upcoming s"] by simp
      then have "?v = leb128_value (take 4 (upcoming s)) + 2 ^ 28 * (unat (upcoming s ! 4) mod 128)"
        using assms True length_upcoming [OF ok] by (simp add: leb128_value_append)
      moreover have "leb128_value (take 4 (upcoming s)) < 2 ^ 28"
        using leb128_value_bound [of "take 4 (upcoming s)"] assms True length_upcoming [OF ok] by simp
      ultimately show ?thesis using True by (auto simp: and_0x70)
    next
      case False
      have "?v < 2 ^ (7 * length (take (Suc k) (upcoming s)))" by (rule leb128_value_bound)
      also have "\<dots> \<le> 2 ^ 28" using assms False by (intro power_increasing) auto
      finally show ?thesis using False by simp
    qed
    show ?thesis
      using True bound pos
      by (cases "k = 4") (auto simp: pb_decode_varint32_eof_def rb has_cont_def loop
          simp del: One_nat_def of_nat_mult of_nat_Suc mult_Suc_right)
  qed
qed

lemma reads_varint32: "reads pb_decode_varint32 (leb128 (unat v)) v"
proof (rule readsI)
  fix s rest assume ok: "istream_ok s" and up: "upcoming s = leb128 (unat v) @ rest"
  have "unat v < 2 ^ 32" by (rule unat_u32_lt)
  also have "(2 :: nat) ^ 32 \<le> 128 ^ 5" by simp
  finally have "length (leb128 (unat v)) \<le> 5" by (intro leb128_length) simp_all
  moreover have "length (leb128 (unat v)) \<le> bytes_left s"
    using length_upcoming [OF ok] up by simp
  moreover obtain m where "length (leb128 (unat v)) = Suc m"
    using length_leb128_pos [of "unat v"] by (cases "length (leb128 (unat v))") auto
  ultimately show "pb_decode_varint32 s = (Some v, consume (length (leb128 (unat v))) s)"
    using pb_decode_varint32_eof_ok [OF ok, of m] unat_u32_lt [of v] up
    by (simp add: varint_span_leb128 leb128_value_leb128 pb_decode_varint32_def)
qed

end
