(* ===== verification/PbCodec.thy ===== *)
theory PbCodec
  imports PbOStream PbIStream
begin

text \<open>
  The scalar encoders and decoders of nanopb are inverse to each other. The locale \<open>codec\<close>
  states the contract of an encoder and decoder pair over a wire format once; its lemmas
  (round trip through a buffer, the size a sizing stream counts, failure of a short buffer,
  unique decoding, sequences of values) hold for every pair of functions of
  \<open>pb_encode.c\<close> and \<open>pb_decode.c\<close> it is interpreted for.
\<close>

section \<open>The other scalar decoders\<close>

lemma and_1_bit: "z AND 1 \<noteq> 0 \<longleftrightarrow> bit (z :: u64) 0"
  using and_exp_eq_0_iff_not_bit [of z 0] by simp

lemma unzigzag:
  "(let z = (if v <s 0 then NOT (push_bit 1 v) else push_bit 1 v)
    in if z AND 1 \<noteq> 0 then NOT (drop_bit 1 z) else drop_bit 1 z) = (v :: u64)"
proof -
  have low: "\<not> bit (push_bit 1 v) 0" by (simp only: bit_push_bit_iff) simp
  have high: "v <s 0 \<longleftrightarrow> bit v 63"
    using bit_last_iff [of v] by (simp add: word_sless_alt)
  have neg: "NOT (drop_bit 1 (NOT (push_bit 1 v))) = v" if "bit v 63"
  proof (rule bit_word_eqI)
    fix n assume "n < LENGTH(64)"
    then have n: "n < 64" by simp
    have "bit (NOT (drop_bit 1 (NOT (push_bit 1 v)))) n \<longleftrightarrow>
        \<not> (Suc n < 64 \<and> \<not> bit v n)" if "n < 64"
      unfolding bit_not_iff bit_drop_bit_eq comp_apply bit_push_bit_iff possible_bit_word
      using that by auto
    with n that show "bit (NOT (drop_bit 1 (NOT (push_bit 1 v)))) n = bit v n"
      by (cases "n = 63") auto
  qed
  have pos: "drop_bit 1 (push_bit 1 v) = v" if "\<not> bit v 63"
  proof (rule bit_word_eqI)
    fix n assume "n < LENGTH(64)"
    then have n: "n < 64" by simp
    have "bit (drop_bit 1 (push_bit 1 v)) n \<longleftrightarrow> Suc n < 64 \<and> bit v n"
      unfolding bit_drop_bit_eq comp_apply bit_push_bit_iff possible_bit_word by auto
    with n that show "bit (drop_bit 1 (push_bit 1 v)) n = bit v n"
      by (cases "n = 63") auto
  qed
  show ?thesis
    unfolding Let_def and_1_bit high using low neg pos
    by (simp only: bit_not_iff if_True if_False refl possible_bit_word split: if_split) simp
qed

lemma reads_svarint: "reads pb_decode_svarint (leb128 (zigzag (sint v))) v"
proof -
  have "reads pb_decode_svarint (leb128 (unat (if v <s 0 then NOT (push_bit 1 v) else push_bit 1 v))) 
     (let z = (if v <s 0 then NOT (push_bit 1 v) else push_bit 1 v)
    in if z AND 1 \<noteq> 0 then NOT (drop_bit 1 z) else drop_bit 1 z)"
    unfolding pb_decode_svarint_def Let_def by (rule reads_map [OF reads_varint])
  then show ?thesis unfolding unzigzag unat_zigzag .
qed

lemma reads_bool: "reads pb_decode_bool (leb128 (if b then 1 else 0)) b"
proof -
  have "reads pb_decode_bool (leb128 (unat (if b then 1 else 0 :: u32))) ((if b then 1 else 0 :: u32) \<noteq> 0)"
    unfolding pb_decode_bool_def by (rule reads_map [OF reads_varint32])
  then show ?thesis by (cases b) simp_all
qed

lemma word_le_step:
  "word_of_nat (unat (b :: u8) + 256 * n) = (ucast b OR push_bit 8 (word_of_nat n) :: 'a :: len word)"
proof -
  have "(word_of_nat (256 * n) :: 'a word) = push_bit 8 (word_of_nat n)"
    by (simp add: push_bit_eq_mult mult.commute)
  moreover have "(ucast b :: 'a word) AND push_bit 8 (word_of_nat n) = 0"
    by (rule bit_word_eqI) (auto simp: bit_simps dest: bit_imp_le_length)
  moreover have "(word_of_nat (unat b) :: 'a word) = ucast b" by simp
  ultimately show ?thesis by (simp only: of_nat_add disjunctive_add_eq_or)
qed

lemma push_bit_or_word: "push_bit k (a OR b :: 'a :: len word) = push_bit k a OR push_bit k b"
  by (rule bit_word_eqI) (auto simp: bit_simps)

lemma le_word_4:
  assumes "length bs = 4"
  shows "push_bit 0 (ucast (bs ! 0)) OR push_bit 8 (ucast (bs ! 1)) OR
     push_bit 16 (ucast (bs ! 2)) OR push_bit 24 (ucast (bs ! 3)) = (word_of_nat (le_nat bs) :: u32)"
proof -
  obtain a b c d where bs: "bs = [a, b, c, d]"
    using assms by (auto simp: length_Suc_conv numeral_eq_Suc)
  show ?thesis unfolding bs le_nat.simps word_le_step
    by (simp add: push_bit_or_word or.assoc push_bit_push_bit del: push_bit_of_0)
qed

lemma le_word_8:
  assumes "length bs = 8"
  shows "push_bit 0 (ucast (bs ! 0)) OR push_bit 8 (ucast (bs ! 1)) OR
     push_bit 16 (ucast (bs ! 2)) OR push_bit 24 (ucast (bs ! 3)) OR
     push_bit 32 (ucast (bs ! 4)) OR push_bit 40 (ucast (bs ! 5)) OR
     push_bit 48 (ucast (bs ! 6)) OR push_bit 56 (ucast (bs ! 7)) = (word_of_nat (le_nat bs) :: u64)"
proof -
  obtain a b c d e f g h where bs: "bs = [a, b, c, d, e, f, g, h]"
    using assms by (auto simp: length_Suc_conv numeral_eq_Suc)
  show ?thesis unfolding bs le_nat.simps word_le_step
    by (simp add: push_bit_or_word or.assoc push_bit_push_bit)
qed

lemma le_bytes_word:
  assumes "8 dvd LENGTH('a :: len)"
  shows "word_of_nat (le_nat (le_bytes (LENGTH('a) div 8) (unat v))) = (v :: 'a word)"
proof -
  have "256 ^ (LENGTH('a) div 8) = (2 :: nat) ^ LENGTH('a)"
    using assms power_mult [of "2 :: nat" 8 "LENGTH('a) div 8"] by simp
  moreover have "unat v mod 2 ^ LENGTH('a) = unat v"
    using unsigned_less [of v] by simp
  ultimately show ?thesis by (simp add: le_nat_le_bytes)
qed

lemma pb_decode_fixed32_ok:
  assumes "istream_ok s"
  shows "pb_decode_fixed32 s =
    (if 4 \<le> bytes_left s then (Some (word_of_nat (le_nat (take 4 (upcoming s)))), consume 4 s)
     else PB_RETURN_IERROR ''end-of-stream'' s)"
  using assms le_word_4 [of "take 4 (upcoming s)"]
  by (simp add: pb_decode_fixed32_def pb_read_into_ok PB_RETURN_IERROR_def)

lemma pb_decode_fixed64_ok:
  assumes "istream_ok s"
  shows "pb_decode_fixed64 s =
    (if 8 \<le> bytes_left s then (Some (word_of_nat (le_nat (take 8 (upcoming s)))), consume 8 s)
     else PB_RETURN_IERROR ''end-of-stream'' s)"
  using assms le_word_8 [of "take 8 (upcoming s)"]
  by (simp add: pb_decode_fixed64_def pb_read_into_ok PB_RETURN_IERROR_def)

lemma reads_fixed32: "reads pb_decode_fixed32 (le_bytes 4 (unat v)) v"
proof (rule readsI)
  fix s rest assume ok: "istream_ok s" and up: "upcoming s = le_bytes 4 (unat v) @ rest"
  then have "4 \<le> bytes_left s" using length_upcoming [OF ok] by simp
  with ok up show "pb_decode_fixed32 s = (Some v, consume (length (le_bytes 4 (unat v))) s)"
    using le_bytes_word [of v] by (simp add: pb_decode_fixed32_ok)
qed

lemma reads_fixed64: "reads pb_decode_fixed64 (le_bytes 8 (unat v)) v"
proof (rule readsI)
  fix s rest assume ok: "istream_ok s" and up: "upcoming s = le_bytes 8 (unat v) @ rest"
  then have "8 \<le> bytes_left s" using length_upcoming [OF ok] by simp
  with ok up show "pb_decode_fixed64 s = (Some v, consume (length (le_bytes 8 (unat v))) s)"
    using le_bytes_word [of v] by (simp add: pb_decode_fixed64_ok)
qed

section \<open>Field tags\<close>

lemma tag_word:
  assumes "unat wt < 8" and "unat fn < 2 ^ 29"
  shows "(word_of_nat (tag_number wt fn) :: u32) AND 7 = wt"
    and "drop_bit 3 (word_of_nat (tag_number wt fn) :: u32) = fn"
proof -
  have "tag_number wt fn < 2 ^ 32" using assms by (simp add: tag_number_def)
  then have u: "unat (word_of_nat (tag_number wt fn) :: u32) = tag_number wt fn"
    by (rule unat_of_nat_u32)
  have m: "(7 :: u32) = mask 3" by (simp add: mask_eq_exp_minus_1)
  have "unat ((word_of_nat (tag_number wt fn) :: u32) AND 7) = tag_number wt fn mod 8"
    unfolding m take_bit_eq_mask [symmetric] unsigned_take_bit_eq u by (simp add: take_bit_eq_mod)
  also have "\<dots> = unat wt" using assms by (simp add: tag_number_def)
  finally show "(word_of_nat (tag_number wt fn) :: u32) AND 7 = wt" by (simp add: word_unat_eq_iff)
  have "unat (drop_bit 3 (word_of_nat (tag_number wt fn) :: u32)) = tag_number wt fn div 8"
    unfolding unat_drop_bit_word u by simp
  also have "\<dots> = unat fn" using assms by (simp add: tag_number_def)
  finally show "drop_bit 3 (word_of_nat (tag_number wt fn) :: u32) = fn" by (simp add: word_unat_eq_iff)
qed

definition valid_tag :: "u32 \<Rightarrow> u32 \<Rightarrow> bool" where
  "valid_tag wt fn \<longleftrightarrow> unat wt < 8 \<and> unat fn < 2 ^ 29 \<and> fn \<noteq> 0"

lemma pb_decode_varint32_eof_leb128:
  assumes ok: "istream_ok s" and up: "upcoming s = leb128 (unat v) @ rest"
  shows "pb_decode_varint32_eof s = (Some v, False, consume (length (leb128 (unat v))) s)"
proof -
  have "unat v < 2 ^ 32" by (rule unat_u32_lt)
  also have "(2 :: nat) ^ 32 \<le> 128 ^ 5" by simp
  finally have "length (leb128 (unat v)) \<le> 5" by (intro leb128_length) simp_all
  moreover have "length (leb128 (unat v)) \<le> bytes_left s"
    using length_upcoming [OF ok] up by simp
  moreover obtain m where "length (leb128 (unat v)) = Suc m"
    using length_leb128_pos [of "unat v"] by (cases "length (leb128 (unat v))") auto
  ultimately show ?thesis
    using pb_decode_varint32_eof_ok [OF ok, of m] unat_u32_lt [of v] up
    by (simp add: varint_span_leb128 leb128_value_leb128)
qed

lemma pb_decode_tag_ok:
  assumes ok: "istream_ok s" and up: "upcoming s = leb128 (tag_number wt fn) @ rest"
    and v: "valid_tag wt fn"
  shows "pb_decode_tag s = (Some (wt, fn), False, consume (length (leb128 (tag_number wt fn))) s)"
proof -
  let ?w = "word_of_nat (tag_number wt fn) :: u32"
  have "tag_number wt fn < 2 ^ 32" using v by (simp add: tag_number_def valid_tag_def)
  then have u: "unat ?w = tag_number wt fn" by (rule unat_of_nat_u32)
  have "0 < unat fn" using v by (simp add: valid_tag_def unat_gt_0)
  then have "?w \<noteq> 0" using u by (auto simp: tag_number_def)
  then show ?thesis
    using pb_decode_varint32_eof_leb128 [OF ok, of ?w rest] up u tag_word [of wt fn] v
    by (simp add: pb_decode_tag_def valid_tag_def)
qed

section \<open>The contract of an encoder and its decoder\<close>

lemma ostream_ok_from_buffer:
  "unat n \<le> cap \<Longrightarrow> unat n < 2 ^ 63 \<Longrightarrow> ostream_ok (pb_ostream_from_buffer cap n)"
  by (simp add: ostream_ok_def pb_ostream_from_buffer_def)

lemma room_from_buffer [simp]: "room (pb_ostream_from_buffer cap n) k \<longleftrightarrow> k \<le> unat n"
  by (simp add: room_def pb_ostream_from_buffer_def)

lemma ostream_ok_sizing [simp]: "ostream_ok PB_OSTREAM_SIZING" "room PB_OSTREAM_SIZING k"
  by (simp_all add: ostream_ok_def PB_OSTREAM_SIZING_def room_def)

lemma advance_from_buffer [simp]:
  "obuf (o_state (advance (pb_ostream_from_buffer cap n) bs)) = bs"
  "bytes_written (advance (pb_ostream_from_buffer cap n) bs) = of_nat (length bs)"
  by (simp_all add: advance_def pb_ostream_from_buffer_def)

lemma advance_sizing_written [simp]:
  "bytes_written (advance PB_OSTREAM_SIZING bs) = of_nat (length bs)"
  by (simp add: advance_def PB_OSTREAM_SIZING_def)

text \<open>Encoding a sequence of values, and decoding a given number of them.\<close>

fun encode_all :: "(pb_ostream \<Rightarrow> 'a \<Rightarrow> bool \<times> pb_ostream) \<Rightarrow> pb_ostream \<Rightarrow> 'a list \<Rightarrow> bool \<times> pb_ostream" where
  "encode_all enc s [] = (True, s)"
| "encode_all enc s (v # vs) = and_then (enc s v) (\<lambda>s. encode_all enc s vs)"

fun decode_all :: "(pb_istream \<Rightarrow> 'a option \<times> pb_istream) \<Rightarrow> nat \<Rightarrow> pb_istream \<Rightarrow> 'a list option \<times> pb_istream" where
  "decode_all dec 0 s = (Some [], s)"
| "decode_all dec (Suc n) s =
     bind_some (dec s) (\<lambda>v s. bind_some (decode_all dec n s) (\<lambda>vs s. (Some (v # vs), s)))"

locale codec =
  fixes enc :: "pb_ostream \<Rightarrow> 'a \<Rightarrow> bool \<times> pb_ostream"
    and dec :: "pb_istream \<Rightarrow> 'a option \<times> pb_istream"
    and wire :: "'a \<Rightarrow> u8 list"
    and valid :: "'a \<Rightarrow> bool"
  assumes enc_emits: "valid v \<Longrightarrow> emits (\<lambda>s. enc s v) (wire v)"
    and dec_reads: "valid v \<Longrightarrow> reads dec (wire v) v"
begin

lemma emits_all: "list_all valid vs \<Longrightarrow> emits (\<lambda>s. encode_all enc s vs) (concat (map wire vs))"
proof (induction vs)
  case Nil
  then show ?case by (simp add: emits_return)
next
  case (Cons v vs)
  then show ?case using emits_and_then [OF enc_emits [of v] Cons.IH] by simp
qed

lemma reads_all:
  "list_all valid vs \<Longrightarrow> reads (\<lambda>s. decode_all dec (length vs) s) (concat (map wire vs)) vs"
proof (induction vs)
  case Nil
  then show ?case by (simp add: reads_return)
next
  case (Cons v vs)
  have "reads (\<lambda>s. bind_some (decode_all dec (length vs) s) (\<lambda>vs s. (Some (v # vs), s)))
     (concat (map wire vs)) (v # vs)"
    using Cons by (intro reads_map) simp
  then show ?case using Cons reads_bind [OF dec_reads [of v]] by simp
qed

lemma roundtrip:
  assumes "list_all valid vs" and "length (concat (map wire vs)) \<le> unat n" and "unat n \<le> cap" and "unat n < 2 ^ 63"
  shows "\<exists>s. encode_all enc (pb_ostream_from_buffer cap n) vs = (True, s) \<and>
    fst (decode_all dec (length vs) (pb_istream_from_buffer (obuf (o_state s)) (unat (bytes_written s)))) = Some vs"
proof -
  let ?bs = "concat (map wire vs)"
  have l: "unat (word_of_nat (length ?bs) :: u64) = length ?bs"
    using assms(2) unat_u64_lt [of n] by (intro unat_of_nat_u64) simp
  have "encode_all enc (pb_ostream_from_buffer cap n) vs = (True, advance (pb_ostream_from_buffer cap n) ?bs)"
    using assms by (intro emits_room [OF emits_all] ostream_ok_from_buffer) auto
  moreover have "decode_all dec (length vs) (pb_istream_from_buffer ?bs (length ?bs)) =
      (Some vs, consume (length ?bs) (pb_istream_from_buffer ?bs (length ?bs)))"
    using assms(1) by (intro readsD [OF reads_all, of _ _ "[]"] istream_ok_from_buffer) auto
  ultimately show ?thesis using l by simp
qed

lemma short_buffer:
  assumes "list_all valid vs" and "unat n < length (concat (map wire vs))" and "unat n \<le> cap" and "unat n < 2 ^ 63"
  shows "\<not> fst (encode_all enc (pb_ostream_from_buffer cap n) vs)"
  using assms by (intro emits_no_room [OF emits_all] ostream_ok_from_buffer) auto

lemma sizing:
  assumes "list_all valid vs"
  shows "encode_all enc PB_OSTREAM_SIZING vs = (True, advance PB_OSTREAM_SIZING (concat (map wire vs)))"
  using assms by (intro emits_room [OF emits_all]) auto

lemma prefix_free:
  assumes v: "valid v" and w: "valid w" and eq: "wire v @ r = wire w @ r'"
  shows "v = w \<and> r = r'"
proof -
  let ?s = "pb_istream_from_buffer (wire v @ r) (length (wire v @ r))"
  have ok: "istream_ok ?s" by (intro istream_ok_from_buffer) simp
  have up: "upcoming ?s = wire v @ r" by (rule upcoming_from_buffer)
  have "dec ?s = (Some v, consume (length (wire v)) ?s)"
    by (rule readsD [OF dec_reads [OF v] ok up])
  moreover have "dec ?s = (Some w, consume (length (wire w)) ?s)"
    by (rule readsD [OF dec_reads [OF w] ok up [THEN trans, OF eq]])
  ultimately have "v = w" by simp
  with eq show ?thesis by simp
qed

end

interpretation varint: codec pb_encode_varint pb_decode_varint "\<lambda>v. leb128 (unat v)" "\<lambda>v. True"
  by unfold_locales (rule emits_varint reads_varint)+

interpretation varint32: codec "\<lambda>s v. pb_encode_varint s (ucast v)" pb_decode_varint32
  "\<lambda>v :: u32. leb128 (unat v)" "\<lambda>v. True"
  using emits_varint [of "ucast (v :: u32)" for v]
  by unfold_locales (auto simp: unat_ucast_u32_u64 intro: reads_varint32)

interpretation svarint: codec pb_encode_svarint pb_decode_svarint
  "\<lambda>v. leb128 (zigzag (sint v))" "\<lambda>v. True"
  by unfold_locales (rule emits_svarint reads_svarint)+

interpretation fixed32: codec pb_encode_fixed32 pb_decode_fixed32 "\<lambda>v. le_bytes 4 (unat v)" "\<lambda>v. True"
  by unfold_locales (rule emits_fixed32 reads_fixed32)+

interpretation fixed64: codec pb_encode_fixed64 pb_decode_fixed64 "\<lambda>v. le_bytes 8 (unat v)" "\<lambda>v. True"
  by unfold_locales (rule emits_fixed64 reads_fixed64)+

text \<open>A tag is a pair of a wire type and a field number; tag 0 ends a message.\<close>

interpretation field_tag: codec "\<lambda>s (wt, fn). pb_encode_tag s wt fn"
  "\<lambda>s. case pb_decode_tag s of (r, eof, s) \<Rightarrow> (r, s)"
  "\<lambda>(wt, fn). leb128 (tag_number wt fn)" "\<lambda>(wt, fn). valid_tag wt fn"
proof unfold_locales
  fix v :: "u32 \<times> u32" assume v: "case v of (wt, fn) \<Rightarrow> valid_tag wt fn"
  obtain wt fn where vv: "v = (wt, fn)" by (cases v)
  show "emits (\<lambda>s. case v of (wt, fn) \<Rightarrow> pb_encode_tag s wt fn) (case v of (wt, fn) \<Rightarrow> leb128 (tag_number wt fn))"
    using v vv by (simp add: emits_tag valid_tag_def)
  show "reads (\<lambda>s. case pb_decode_tag s of (r, eof, s) \<Rightarrow> (r, s))
      (case v of (wt, fn) \<Rightarrow> leb128 (tag_number wt fn)) v"
    using v vv by (auto intro!: readsI simp: pb_decode_tag_ok)
qed

section \<open>Strings\<close>

text \<open>
  A length-delimited value is read in two steps, as \<open>pb_dec_bytes\<close> and \<open>pb_dec_string\<close>
  do: the length, then the bytes.
\<close>

definition read_string :: "pb_istream \<Rightarrow> u8 list option \<times> pb_istream" where
  "read_string s = bind_some (pb_decode_varint32 s) (\<lambda>n s. pb_read_into s (unat n))"

lemma reads_read_string:
  assumes "length bs < 2 ^ 32"
  shows "reads read_string (leb128 (length bs) @ bs) bs"
proof -
  have u: "unat (word_of_nat (length bs) :: u32) = length bs" using assms by (rule unat_of_nat_u32)
  show ?thesis
    using reads_bind [OF reads_varint32 [of "word_of_nat (length bs)"],
        of "\<lambda>n s. pb_read_into s (unat n)", OF reads_read_into [of bs "unat (word_of_nat (length bs) :: u32)"]]
    unfolding read_string_def u by simp
qed

interpretation delimited: codec "\<lambda>s bs. pb_encode_string s bs (of_nat (length bs))" read_string
  "\<lambda>bs. leb128 (length bs) @ bs" "\<lambda>bs. length bs < 2 ^ 32"
  by unfold_locales (auto intro: emits_string reads_read_string)

section \<open>Skipping\<close>

definition wire_value :: "u32 \<Rightarrow> u8 list \<Rightarrow> bool" where
  "wire_value wt bs \<longleftrightarrow>
     wt = PB_WT_VARINT \<and> (\<exists>n. bs = leb128 n) \<or>
     wt = PB_WT_64BIT \<and> length bs = 8 \<or>
     wt = PB_WT_STRING \<and> (\<exists>str. length str < 2 ^ 32 \<and> bs = leb128 (length str) @ str) \<or>
     wt = PB_WT_32BIT \<and> length bs = 4"

lemma reads_skip_varint: "reads pb_skip_varint (leb128 n) ()"
proof (induction n rule: leb128.induct)
  case (1 n)
  show ?case
  proof (cases "n < 128")
    case True
    then have l: "leb128 n = [word_of_nat n]" by (simp add: leb128.simps)
    have nc: "\<not> has_cont (word_of_nat n)" using True by (simp add: has_cont_unat unat_of_nat_u8)
    show ?thesis unfolding l
    proof (rule readsI)
      fix s rest assume ok: "istream_ok s" and up: "upcoming s = [word_of_nat n] @ rest"
      then have "1 \<le> bytes_left s" using length_upcoming [OF ok] by simp
      then show "pb_skip_varint s = (Some (), consume (length [word_of_nat n :: u8]) s)"
        using ok up nc by (subst pb_skip_varint.simps) (simp add: pb_read_into_ok has_cont_alt)
    qed
  next
    case False
    let ?b = "word_of_nat (n mod 128 + 128) :: u8"
    have l: "leb128 n = [?b] @ leb128 (n div 128)" using False by (simp add: leb128.simps [of n])
    have nc: "has_cont ?b" by (simp add: has_cont_unat)
    show ?thesis unfolding l
    proof (rule readsI)
      fix s rest assume ok: "istream_ok s" and up: "upcoming s = ([?b] @ leb128 (n div 128)) @ rest"
      then have "1 \<le> bytes_left s" using length_upcoming [OF ok] by simp
      then have "pb_skip_varint s = pb_skip_varint (consume 1 s)"
        using ok up nc by (subst pb_skip_varint.simps) (simp add: pb_read_into_ok has_cont_alt)
      also have "\<dots> = (Some (), consume (length (leb128 (n div 128))) (consume 1 s))"
        using 1 [OF False] ok up by (intro readsD [of _ _ _ _ rest]) (simp_all add: istream_ok_consume)
      finally show "pb_skip_varint s = (Some (), consume (length ([?b] @ leb128 (n div 128))) s)"
        by simp
    qed
  qed
qed

lemma reads_skip_bytes: "length bs = n \<Longrightarrow> reads (\<lambda>s. pb_skip_bytes s n) bs ()"
proof (rule readsI)
  fix s rest assume n: "length bs = n" and ok: "istream_ok s" and up: "upcoming s = bs @ rest"
  have "n \<le> bytes_left s" using length_upcoming [OF ok] up n by simp
  then show "pb_skip_bytes s n = (Some (), consume (length bs) s)"
    using ok n by (simp add: pb_skip_bytes_def pb_read_ok)
qed

lemma reads_skip_string:
  assumes "length bs < 2 ^ 32"
  shows "reads pb_skip_string (leb128 (length bs) @ bs) ()"
proof -
  have u: "unat (word_of_nat (length bs) :: u32) = length bs" using assms by (rule unat_of_nat_u32)
  show ?thesis
    using reads_bind [OF reads_varint32 [of "word_of_nat (length bs)"],
        of "\<lambda>n s. pb_skip_bytes s (unat n)", OF reads_skip_bytes [of bs "unat (word_of_nat (length bs) :: u32)"]]
    unfolding pb_skip_string_def u by simp
qed

lemma reads_skip_field:
  assumes "wire_value wt bs"
  shows "reads (\<lambda>s. pb_skip_field s wt) bs ()"
  using assms unfolding wire_value_def
  by (auto simp: pb_skip_field_def pb_wt_defs
      intro!: reads_skip_varint reads_skip_bytes reads_skip_string)

text \<open>A reserved wire type is an error and nothing is consumed.\<close>

lemma pb_skip_field_invalid:
  "wt \<notin> {PB_WT_VARINT, PB_WT_64BIT, PB_WT_STRING, PB_WT_32BIT} \<Longrightarrow>
     pb_skip_field s wt = PB_RETURN_IERROR ''invalid wire_type'' s"
  by (simp add: pb_skip_field_def)

section \<open>Substreams\<close>

text \<open>
  \<open>pb_make_string_substream\<close> delimits exactly the string's bytes; closing a substream that
  has been read to any point continues just after the string.
\<close>

lemma pb_make_string_substream_ok:
  assumes ok: "istream_ok s" and up: "upcoming s = leb128 (length bs) @ bs @ rest"
    and len: "length bs < 2 ^ 32"
  defines "s' \<equiv> consume (length (leb128 (length bs))) s"
  shows "pb_make_string_substream s = (Some (s'\<lparr>bytes_left := length bs\<rparr>),
    s'\<lparr>bytes_left := bytes_left s' - length bs\<rparr>)"
    and "upcoming (s'\<lparr>bytes_left := length bs\<rparr>) = bs"
    and "istream_ok (s'\<lparr>bytes_left := length bs\<rparr>)"
proof -
  let ?n = "word_of_nat (length bs) :: u32"
  have u: "unat ?n = length bs" using len by (rule unat_of_nat_u32)
  have v: "pb_decode_varint32 s = (Some ?n, s')"
    using readsD [OF reads_varint32 [of ?n] ok, of "bs @ rest"] up u by (simp add: s'_def)
  have ok': "istream_ok s'" by (simp add: s'_def ok istream_ok_consume)
  have up': "upcoming s' = bs @ rest" by (simp add: s'_def up)
  have left: "bytes_left s' = length bs + length rest"
    using length_upcoming [OF ok'] up' by simp
  show "pb_make_string_substream s = (Some (s'\<lparr>bytes_left := length bs\<rparr>),
    s'\<lparr>bytes_left := bytes_left s' - length bs\<rparr>)"
    using v u left by (simp add: pb_make_string_substream_def)
  show "istream_ok (s'\<lparr>bytes_left := length bs\<rparr>)"
    using ok' left by (simp add: istream_ok_def)
  have "take (length bs) (upcoming s') = bs" using up' by simp
  then show "upcoming (s'\<lparr>bytes_left := length bs\<rparr>) = bs"
    using left by (simp add: upcoming_def min_def)
qed

lemma pb_close_string_substream_ok:
  assumes ok: "istream_ok s" and n: "n \<le> bytes_left s" and k: "k \<le> n"
  defines "sub \<equiv> s\<lparr>bytes_left := n\<rparr>" and "par \<equiv> s\<lparr>bytes_left := bytes_left s - n\<rparr>"
  shows "pb_close_string_substream par (consume k sub) = (True, consume n s)"
proof -
  have "istream_ok sub" using ok n by (simp add: sub_def istream_ok_def)
  then have "istream_ok (consume k sub)" by (rule istream_ok_consume)
  then show ?thesis using k n ok
    by (cases "k = n") (simp_all add: pb_close_string_substream_def pb_read_ok par_def sub_def consume_def)
qed

section \<open>Properties of the scalar codecs\<close>

text \<open>
  C8. Varints round-trip: any sequence of 64-bit values that \<open>pb_encode_varint\<close> writes into
  a buffer large enough for it is read back by \<open>pb_decode_varint\<close> from the bytes written.
\<close>

theorem pb_varint_roundtrip:
  assumes "length (concat (map (\<lambda>v. leb128 (unat v)) vs)) \<le> unat n" and "unat n \<le> cap" and "unat n < 2 ^ 63"
  shows "\<exists>s. encode_all pb_encode_varint (pb_ostream_from_buffer cap n) vs = (True, s) \<and>
    fst (decode_all pb_decode_varint (length vs)
      (pb_istream_from_buffer (obuf (o_state s)) (unat (bytes_written s)))) = Some vs"
  using assms by (intro varint.roundtrip) auto

theorem pb_varint_roundtrip_witness:
  "\<exists>s. encode_all pb_encode_varint (pb_ostream_from_buffer 10 8) [300, 1] = (True, s) \<and>
    fst (decode_all pb_decode_varint (length [300 :: u64, 1])
      (pb_istream_from_buffer (obuf (o_state s)) (unat (bytes_written s)))) = Some [300, 1]"
  by (rule pb_varint_roundtrip) (simp_all add: leb128.simps)

end
