(* ===== verification/PbEncodeSpec.thy ===== *)
theory PbEncodeSpec
  imports PbEncode PbCodec
begin

text \<open>
  What the encoder promises, without streams: \<open>message_bytes\<close> is the protobuf encoding of
  the structure at an address, by recursion on its descriptor table. The main lemma,
  \<open>pb_encode_message_bytes\<close>, states that \<open>pb_encode\<close> implements it on every stream: it
  appends exactly these bytes when they fit and fails when they do not, and it counts them on
  a sizing stream. The locale \<open>submessage_encoder\<close> is the contract between one nesting level
  and the next; the encoder of each level satisfies it if the encoder of the level below does.
\<close>

section \<open>The bytes of a message\<close>

definition append_opt :: "'a list option \<Rightarrow> 'a list option \<Rightarrow> 'a list option" where
  "append_opt a b = (case a of None \<Rightarrow> None | Some x \<Rightarrow> map_option ((@) x) b)"

fun concat_opt :: "'a list option list \<Rightarrow> 'a list option" where
  "concat_opt [] = Some []"
| "concat_opt (x # xs) = append_opt x (concat_opt xs)"

definition delimited_bytes :: "u8 list \<Rightarrow> u8 list" where
  "delimited_bytes bs = leb128 (length bs) @ bs"

definition value_bytes ::
  "(pb_field list \<Rightarrow> addr \<Rightarrow> u8 list option) \<Rightarrow> mem \<Rightarrow> pb_field \<Rightarrow> addr \<Rightarrow> u8 list option" where
  "value_bytes sub m f p =
     (let lt = PB_LTYPE (ftype f) in
      if lt = PB_LTYPE_BOOL then Some (leb128 (if m p \<noteq> 0 then 1 else 0))
      else if lt = PB_LTYPE_VARINT then map_option (\<lambda>v. leb128 (unat v)) (load_signed m (data_size f) p)
      else if lt = PB_LTYPE_UVARINT then map_option (\<lambda>v. leb128 (unat v)) (load_unsigned m (data_size f) p)
      else if lt = PB_LTYPE_SVARINT
      then map_option (\<lambda>v. leb128 (zigzag (sint v))) (load_signed m (data_size f) p)
      else if lt = PB_LTYPE_FIXED32 then Some (load_bytes m p 4)
      else if lt = PB_LTYPE_FIXED64 then Some (load_bytes m p 8)
      else if lt = PB_LTYPE_BYTES then
        (let n = unat (load_word m p :: u32) in
         if p = 0 then Some (delimited_bytes [])
         else if PB_ATYPE (ftype f) = PB_ATYPE_STATIC \<and> data_size f < n + 4 then None
         else Some (delimited_bytes (load_bytes m (p + 4) n)))
      else if lt = PB_LTYPE_STRING then
        (let n = c_strnlen m p 0
              (if PB_ATYPE (ftype f) = PB_ATYPE_POINTER then 2 ^ 64 - 1 else data_size f)
         in Some (delimited_bytes (load_bytes m p (if p = 0 then 0 else n))))
      else if lt = PB_LTYPE_SUBMESSAGE then
        (if ptr f = PNull then None else map_option delimited_bytes (sub (sub_fields (ptr f)) p))
      else if lt = PB_LTYPE_FIXED_LENGTH_BYTES then Some (delimited_bytes (load_bytes m p (data_size f)))
      else None)"

definition tag_bytes :: "pb_field \<Rightarrow> u8 list option" where
  "tag_bytes f =
     map_option (\<lambda>wt. leb128 (tag_number wt (tag f))) (wire_type_for_ltype (PB_LTYPE (ftype f)))"

text \<open>An array is packed into one length-delimited value when its entries allow it.\<close>

definition array_bytes ::
  "(pb_field list \<Rightarrow> addr \<Rightarrow> u8 list option) \<Rightarrow> mem \<Rightarrow> pb_field \<Rightarrow> addr \<Rightarrow> nat \<Rightarrow> u8 list option" where
  "array_bytes sub m f p n =
     (let entry = (\<lambda>i. p + int (i * data_size f)) in
      if n = 0 then Some []
      else if PB_ATYPE (ftype f) \<noteq> PB_ATYPE_POINTER \<and> array_size f < n then None
      else if PB_LTYPE (ftype f) \<le> PB_LTYPE_LAST_PACKABLE then
        map_option (\<lambda>bs. leb128 (tag_number PB_WT_STRING (tag f)) @ delimited_bytes bs)
          (concat_opt (map (\<lambda>i. value_bytes sub m f (entry i)) [0..<n]))
      else
        concat_opt (map (\<lambda>i. append_opt (tag_bytes f)
          (value_bytes sub m f
            (if PB_ATYPE (ftype f) = PB_ATYPE_POINTER \<and>
                (PB_LTYPE (ftype f) = PB_LTYPE_STRING \<or> PB_LTYPE (ftype f) = PB_LTYPE_BYTES)
             then load_ptr m (entry i) else entry i))) [0..<n]))"

text \<open>Whether a singular field is present, and where its value is.\<close>

definition value_addr :: "mem \<Rightarrow> pb_field \<Rightarrow> addr \<Rightarrow> addr" where
  "value_addr m f p = (if PB_ATYPE (ftype f) = PB_ATYPE_POINTER then load_ptr m p else p)"

definition field_present :: "mem \<Rightarrow> pb_field \<Rightarrow> addr \<Rightarrow> bool" where
  "field_present m f p =
     (if PB_HTYPE (ftype f) = PB_HTYPE_REQUIRED then True
      else if PB_HTYPE (ftype f) = PB_HTYPE_ONEOF then (load_word m (p + size_offset f) :: u32) = tag f
      else if size_offset f \<noteq> 0 then m (p + size_offset f) \<noteq> 0
      else if PB_ATYPE (ftype f) = PB_ATYPE_POINTER then load_ptr m p \<noteq> 0
      else \<not> pb_check_proto3_default_value m f p)"

definition field_count :: "mem \<Rightarrow> pb_field \<Rightarrow> addr \<Rightarrow> nat" where
  "field_count m f p =
     (if size_offset f \<noteq> 0 then unat (load_word m (p + size_offset f) :: u32) else array_size f)"

definition field_bytes ::
  "(pb_field list \<Rightarrow> addr \<Rightarrow> u8 list option) \<Rightarrow> mem \<Rightarrow> pb_field \<Rightarrow> addr \<Rightarrow> u8 list option" where
  "field_bytes sub m f p =
     (if PB_HTYPE (ftype f) = PB_HTYPE_REPEATED
      then array_bytes sub m f (value_addr m f p) (field_count m f p)
      else if PB_HTYPE (ftype f) = PB_HTYPE_REQUIRED \<and> value_addr m f p = 0 then None
      else if field_present m f p then append_opt (tag_bytes f) (value_bytes sub m f (value_addr m f p))
      else Some [])"

primrec message_bytes :: "nat \<Rightarrow> mem \<Rightarrow> pb_field list \<Rightarrow> addr \<Rightarrow> u8 list option" where
  "message_bytes 0 m fs p = None"
| "message_bytes (Suc n) m fs p =
     concat_opt (map (\<lambda>i. field_bytes (message_bytes n m) m (field_at fs i) (p + int (field_offset fs i)))
       [0..<length fs])"

text \<open>The tables the specification covers: no callback and no extension anywhere in them.\<close>

definition plain_field :: "pb_field \<Rightarrow> bool" where
  "plain_field f \<longleftrightarrow> tag f \<noteq> 0 \<and> PB_LTYPE (ftype f) \<noteq> PB_LTYPE_EXTENSION \<and>
     (PB_ATYPE (ftype f) = PB_ATYPE_STATIC \<or> PB_ATYPE (ftype f) = PB_ATYPE_POINTER) \<and>
     data_size f < 2 ^ 32 \<and> array_size f < 2 ^ 32"

primrec plain_table :: "nat \<Rightarrow> pb_field list \<Rightarrow> bool" where
  "plain_table 0 fs \<longleftrightarrow> False"
| "plain_table (Suc n) fs \<longleftrightarrow>
     list_all (\<lambda>f. plain_field f \<and>
       (PB_LTYPE (ftype f) = PB_LTYPE_SUBMESSAGE \<longrightarrow> plain_table n (sub_fields (ptr f)))) fs"

section \<open>The contract of a stream operation with a specified result\<close>

definition encodes :: "(pb_ostream \<Rightarrow> bool \<times> pb_ostream) \<Rightarrow> u8 list option \<Rightarrow> bool" where
  "encodes f r \<longleftrightarrow> (\<forall>bs. r = Some bs \<longrightarrow> length bs < 2 ^ 63 \<longrightarrow> emits f bs)"

lemma encodesI: "(\<And>bs. r = Some bs \<Longrightarrow> length bs < 2 ^ 63 \<Longrightarrow> emits f bs) \<Longrightarrow> encodes f r"
  by (simp add: encodes_def)

lemma encodesD: "encodes f (Some bs) \<Longrightarrow> length bs < 2 ^ 63 \<Longrightarrow> emits f bs"
  by (simp add: encodes_def)

lemma encodes_None [simp]: "encodes f None"
  by (simp add: encodes_def)

lemma encodes_Some: "emits f bs \<Longrightarrow> encodes f (Some bs)"
  by (simp add: encodes_def)

lemma append_opt_Some: "append_opt a b = Some c \<longleftrightarrow> (\<exists>x y. a = Some x \<and> b = Some y \<and> c = x @ y)"
  by (auto simp: append_opt_def split: option.splits)

lemma encodes_and_then:
  assumes "encodes f a" and "encodes g b"
  shows "encodes (\<lambda>s. and_then (f s) g) (append_opt a b)"
proof (rule encodesI)
  fix bs assume "append_opt a b = Some bs" and len: "length bs < 2 ^ 63"
  then obtain x y where xy: "a = Some x" "b = Some y" "bs = x @ y" by (auto simp: append_opt_Some)
  with len have "length x < 2 ^ 63" "length y < 2 ^ 63" by simp_all
  then show "emits (\<lambda>s. and_then (f s) g) bs"
    unfolding xy(3) using assms unfolding xy(1,2) by (blast intro: emits_and_then encodesD)
qed

lemma encodes_if:
  "(c \<Longrightarrow> encodes f a) \<Longrightarrow> (\<not> c \<Longrightarrow> encodes g b) \<Longrightarrow>
     encodes (\<lambda>s. if c then f s else g s) (if c then a else b)"
  by simp

lemma encodes_varint: "encodes (\<lambda>s. pb_encode_varint s v) (Some (leb128 (unat v)))"
  by (intro encodes_Some emits_varint)

lemma encodes_string:
  assumes "length bs = n"
  shows "encodes (\<lambda>s. pb_encode_string s bs (of_nat n)) (Some (delimited_bytes bs))"
proof (rule encodesI)
  fix cs assume "Some (delimited_bytes bs) = Some cs" "length cs < 2 ^ 63"
  then have "cs = leb128 (length bs) @ bs" "length bs < 2 ^ 64" by (auto simp: delimited_bytes_def)
  then show "emits (\<lambda>s. pb_encode_string s bs (of_nat n)) cs"
    using emits_string [of bs] assms by simp
qed

lemma encodes_tag_for_field: "encodes (\<lambda>s. pb_encode_tag_for_field s f) (tag_bytes f)"
proof (cases "wire_type_for_ltype (PB_LTYPE (ftype f))")
  case None
  then show ?thesis by (simp add: tag_bytes_def)
next
  case (Some wt)
  then have "unat wt < 8"
    by (auto simp: wire_type_for_ltype_def pb_wt_defs split: if_splits)
  with Some show ?thesis
    by (simp add: tag_bytes_def pb_encode_tag_for_field_def encodes_Some emits_tag)
qed

lemma encodes_array_loop:
  assumes "\<And>p. encodes (\<lambda>s. f s p) (r p)"
  shows "encodes (\<lambda>s. array_loop f step n s p) (concat_opt (map (\<lambda>i. r (p + int (i * step))) [0..<n]))"
proof (induction n arbitrary: p)
  case 0
  then show ?case by (simp add: encodes_Some emits_return)
next
  case (Suc n)
  have "map (\<lambda>i. r (p + int (i * step))) [0..<Suc n] =
      r p # map (\<lambda>i. r (p + int step + int (i * step))) [0..<n]"
    unfolding upt_conv_Cons [OF zero_less_Suc] map_Suc_upt [symmetric] map_map comp_def list.map
    by (simp add: algebra_simps)
  then show ?case
    using encodes_and_then [OF assms Suc.IH, of p "p + int step"] by simp
qed

lemma encodes_iter_loop:
  assumes "proper_table fs"
    and "\<And>j. j < length fs \<Longrightarrow> encodes (body (iter_at fs dest j)) (r j)"
  shows "i < length fs \<Longrightarrow>
    encodes (\<lambda>s. iter_loop body (iter_at fs dest i) s) (concat_opt (map r [i..<length fs]))"
proof (induction "length fs - Suc i" arbitrary: i)
  case 0
  then have "[i..<length fs] = [i]" "\<not> Suc i < length fs" by (simp_all add: upt_rec)
  then show ?case
    using encodes_and_then [OF assms(2) [OF 0(2)] encodes_Some [OF emits_return]]
    by (simp add: iter_loop_at [OF assms(1) 0(2), abs_def])
next
  case (Suc d)
  then have i: "Suc i < length fs" "[i..<length fs] = i # [Suc i..<length fs]"
    by (simp_all add: upt_conv_Cons)
  have "iter_loop body (iter_at fs dest i) =
      (\<lambda>s. and_then (body (iter_at fs dest i) s) (iter_loop body (iter_at fs dest (Suc i))))"
    using i by (intro ext) (simp add: iter_loop_at [OF assms(1) Suc(3)])
  moreover have "encodes (\<lambda>s. and_then (body (iter_at fs dest i) s) (iter_loop body (iter_at fs dest (Suc i))))
      (append_opt (r i) (concat_opt (map r [Suc i..<length fs])))"
    using i Suc by (intro encodes_and_then assms(2) Suc(1)) simp_all
  ultimately show ?case using i by simp
qed

text \<open>The shortcut of sizing streams: a counted block of the right length.\<close>

lemma emits_sizing_shortcut:
  assumes "emits g bs" and "length bs < 2 ^ 63"
  shows "emits (\<lambda>s. if is_Sizing (o_state s) then pb_write s [] (of_nat (length bs)) else g s) bs"
proof (rule emitsI)
  fix s assume "ostream_ok s" "room s (length bs)"
  then show "(if is_Sizing (o_state s) then pb_write s [] (of_nat (length bs)) else g s) = (True, advance s bs)"
    using emits_room [OF assms(1)]
    by (auto simp: pb_write_def advance_def split: ostate.splits)
next
  fix s assume "ostream_ok s" "\<not> room s (length bs)"
  then show "\<not> fst (if is_Sizing (o_state s) then pb_write s [] (of_nat (length bs)) else g s)"
    using emits_no_room [OF assms(1)] by (auto simp: room_def)
qed

lemma safe_read_bool_iff: "safe_read_bool m p \<longleftrightarrow> m p \<noteq> 0"
  by (simp add: safe_read_bool_def load_bytes_Suc)

lemma unat_allocsize: "unat (PB_BYTES_ARRAY_T_ALLOCSIZE n) = unat n + 4"
proof -
  have "unat (ucast n :: u64) = unat n" by (rule unat_ucast_u32_u64)
  then show ?thesis
    using unat_u32_lt [of n] by (simp add: PB_BYTES_ARRAY_T_ALLOCSIZE_def unat_plus_u64)
qed

lemma le_bytes_load_word:
  "le_bytes 4 (unat (load_word m p :: u32)) = load_bytes m p 4"
  "le_bytes 8 (unat (load_word m p :: u64)) = load_bytes m p 8"
proof -
  have "le_nat (load_bytes m p 4) < 2 ^ 32" using le_nat_less [of "load_bytes m p 4"] by simp
  then show "le_bytes 4 (unat (load_word m p :: u32)) = load_bytes m p 4"
    using le_bytes_le_nat [of "load_bytes m p 4"] by (simp add: load_word_def unat_of_nat_u32)
  have "le_nat (load_bytes m p 8) < 2 ^ 64" using le_nat_less [of "load_bytes m p 8"] by simp
  then show "le_bytes 8 (unat (load_word m p :: u64)) = load_bytes m p 8"
    using le_bytes_le_nat [of "load_bytes m p 8"] by (simp add: load_word_def unat_of_nat_u64)
qed

lemma concat_opt_length:
  "concat_opt xs = Some bs \<Longrightarrow> list_all (\<lambda>x. case x of Some b \<Rightarrow> length b = k | None \<Rightarrow> True) xs \<Longrightarrow>
     length bs = k * length xs"
  by (induction xs arbitrary: bs) (auto simp: append_opt_Some)

section \<open>The contract between nesting levels\<close>

locale submessage_encoder =
  fixes sub :: msg_encoder
    and spec :: "pb_field list \<Rightarrow> addr \<Rightarrow> u8 list option"
    and table_ok :: "pb_field list \<Rightarrow> bool"
  assumes sub_encodes: "table_ok fs \<Longrightarrow> encodes (\<lambda>s. sub s fs p) (spec fs p)"
begin

text \<open>The two passes over a submessage agree, so its size never changes between them.\<close>

lemma encodes_submessage:
  assumes "table_ok fs"
  shows "encodes (\<lambda>s. pb_encode_submessage sub s fs p) (map_option delimited_bytes (spec fs p))"
proof (rule encodesI)
  fix cs assume "map_option delimited_bytes (spec fs p) = Some cs" and len: "length cs < 2 ^ 63"
  then obtain bs where spec: "spec fs p = Some bs" and cs: "cs = leb128 (length bs) @ bs"
    by (auto simp: delimited_bytes_def)
  have lb: "length bs < 2 ^ 63" using len cs by simp
  have sub: "emits (\<lambda>s. sub s fs p) bs"
    using sub_encodes [OF assms, of p] lb spec by (simp add: encodes_def)
  let ?n = "of_nat (length bs) :: u64"
  have n: "unat ?n = length bs" using lb by (intro unat_of_nat_u64) simp
  have sizing: "sub PB_OSTREAM_SIZING fs p = (True, advance PB_OSTREAM_SIZING bs)"
    by (rule emits_room [OF sub]) simp_all
  define body where "body stream = (if is_Sizing (o_state stream) then pb_write stream [] ?n
     else if max_size stream < bytes_written stream + ?n
     then PB_RETURN_OERROR ''stream full'' stream
     else (case sub \<lparr>o_state = o_state stream, max_size = ?n, bytes_written = 0,
                          o_errmsg = None\<rparr> fs p of
          (status, substream) \<Rightarrow>
            (let stream = stream\<lparr>bytes_written := bytes_written stream + bytes_written substream,
                   o_state := o_state substream, o_errmsg := o_errmsg substream\<rparr>
             in if bytes_written substream \<noteq> ?n
                then PB_RETURN_OERROR ''submsg size changed'' stream
                else (status, stream))))" for stream :: pb_ostream
  have eq: "pb_encode_submessage sub s fs p = and_then (pb_encode_varint s ?n) body" for s
    unfolding pb_encode_submessage_def sizing body_def [abs_def] prod.case bool.case Let_def
      advance_sizing_written ..
  have "emits body bs"
  proof (rule emitsI)
    fix s assume ok: "ostream_ok s" and r: "room s (length bs)"
    show "body s = (True, advance s bs)" using ok
    proof (cases rule: ostream_ok_cases)
      case sizing
      then show ?thesis by (simp add: body_def pb_write_def advance_def)
    next
      case (buf out cap)
      let ?s = "\<lparr>o_state = o_state s, max_size = ?n, bytes_written = 0, o_errmsg = None\<rparr> :: pb_ostream"
      have fits: "unat (bytes_written s) + length bs \<le> unat (max_size s)" using r buf by (simp add: room_def)
      then have sum: "unat (bytes_written s + ?n) = unat (bytes_written s) + length bs"
        using n unat_u64_lt [of "max_size s"] by (simp add: unat_plus_u64)
      have "ostream_ok ?s" using buf fits n lb by (simp add: ostream_ok_def)
      moreover have "room ?s (length bs)" using n by (simp add: room_def)
      ultimately have "sub ?s fs p = (True, advance ?s bs)" by (rule emits_room [OF sub])
      then show ?thesis using buf sum fits
        by (simp add: body_def word_less_nat_alt advance_def)
    qed
  next
    fix s assume ok: "ostream_ok s" and r: "\<not> room s (length bs)"
    then obtain out cap where buf: "o_state s = OBuf out cap" "bytes_written s \<le> max_size s"
      "unat (max_size s) < 2 ^ 63"
      by (cases rule: ostream_ok_cases) (auto simp: room_def)
    then have "unat (bytes_written s + ?n) = unat (bytes_written s) + length bs"
      using n lb by (simp add: unat_plus_u64 word_le_nat_alt)
    then show "\<not> fst (body s)" using r buf
      by (simp add: body_def room_def word_less_nat_alt PB_RETURN_OERROR_def)
  qed
  moreover have "emits (\<lambda>s. pb_encode_varint s ?n) (leb128 (length bs))"
    using emits_varint [of ?n] n by simp
  ultimately show "emits (\<lambda>s. pb_encode_submessage sub s fs p) cs"
    unfolding eq cs by (rule emits_and_then [rotated])
qed

lemma encodes_value:
  assumes "PB_LTYPE (ftype f) = PB_LTYPE_SUBMESSAGE \<Longrightarrow> table_ok (sub_fields (ptr f))"
  shows "encodes (\<lambda>s. PB_ENCODERS sub m (PB_LTYPE (ftype f)) s f p) (value_bytes spec m f p)"
proof -
  let ?lt = "PB_LTYPE (ftype f)"
  consider "?lt = PB_LTYPE_BOOL" | "?lt = PB_LTYPE_VARINT" | "?lt = PB_LTYPE_UVARINT"
    | "?lt = PB_LTYPE_SVARINT" | "?lt = PB_LTYPE_FIXED32" | "?lt = PB_LTYPE_FIXED64"
    | "?lt = PB_LTYPE_BYTES" | "?lt = PB_LTYPE_STRING" | "?lt = PB_LTYPE_SUBMESSAGE"
    | "?lt = PB_LTYPE_FIXED_LENGTH_BYTES" | "?lt \<notin> {PB_LTYPE_BOOL, PB_LTYPE_VARINT, PB_LTYPE_UVARINT, PB_LTYPE_SVARINT, PB_LTYPE_FIXED32,
        PB_LTYPE_FIXED64, PB_LTYPE_BYTES, PB_LTYPE_STRING, PB_LTYPE_SUBMESSAGE,
        PB_LTYPE_FIXED_LENGTH_BYTES}"
    by blast
  then show ?thesis
  proof cases
    case 1
    have "encodes (\<lambda>s. pb_encode_varint s (if m p \<noteq> 0 then 1 else 0)) (Some (leb128 (if m p \<noteq> 0 then 1 else 0)))"
      using encodes_varint [of 1] encodes_varint [of 0] by simp
    then show ?thesis using 1
      by (simp add: PB_ENCODERS_def value_bytes_def pb_enc_bool_def safe_read_bool_iff [abs_def])
  next
    case 2
    then show ?thesis
      by (cases "load_signed m (data_size f) p")
        (simp_all add: PB_ENCODERS_def value_bytes_def pb_ltype_defs pb_enc_varint_def encodes_varint)
  next
    case 3
    then show ?thesis
      by (cases "load_unsigned m (data_size f) p")
        (simp_all add: PB_ENCODERS_def value_bytes_def pb_ltype_defs pb_enc_uvarint_def encodes_varint)
  next
    case 4
    then show ?thesis
      by (cases "load_signed m (data_size f) p")
        (simp_all add: PB_ENCODERS_def value_bytes_def pb_ltype_defs pb_enc_svarint_def
          encodes_Some emits_svarint)
  next
    case 5
    then show ?thesis
      using encodes_Some [OF emits_fixed32 [of "load_word m p"]]
      by (simp add: PB_ENCODERS_def value_bytes_def pb_ltype_defs pb_enc_fixed32_def le_bytes_load_word)
  next
    case 6
    then show ?thesis
      using encodes_Some [OF emits_fixed64 [of "load_word m p"]]
      by (simp add: PB_ENCODERS_def value_bytes_def pb_ltype_defs pb_enc_fixed64_def le_bytes_load_word)
  next
    case 7
    let ?n = "load_word m p :: u32"
    have no: "(PB_BYTES_ARRAY_T_ALLOCSIZE ?n < ucast ?n) = False"
      by (simp add: word_less_nat_alt unat_allocsize unat_ucast_u32_u64)
    have "encodes (\<lambda>s. pb_encode_string s (load_bytes m (p + 4) (unat ?n)) (ucast ?n))
        (Some (delimited_bytes (load_bytes m (p + 4) (unat ?n))))"
      using encodes_string [of "load_bytes m (p + 4) (unat ?n)" "unat ?n"] by simp
    moreover have "encodes (\<lambda>s. pb_encode_string s [] 0) (Some (delimited_bytes []))"
      using encodes_string [of "[]" 0] by simp
    moreover have "value_bytes spec m f p = (if p = 0 then Some (delimited_bytes [])
         else if PB_ATYPE (ftype f) = PB_ATYPE_STATIC \<and> data_size f < unat ?n + 4 then None
         else Some (delimited_bytes (load_bytes m (p + 4) (unat ?n))))"
      using 7 by (simp add: value_bytes_def pb_ltype_defs Let_def)
    moreover have "PB_ENCODERS sub m (PB_LTYPE (ftype f)) = pb_enc_bytes m"
      using 7 by (simp add: PB_ENCODERS_def pb_ltype_defs)
    ultimately show ?thesis
      by (cases "p = 0"; cases "PB_ATYPE (ftype f) = PB_ATYPE_STATIC \<and> data_size f < unat ?n + 4")
        (auto simp: pb_enc_bytes_def Let_def no unat_allocsize cong: if_cong)
  next
    case 8
    then show ?thesis
      by (simp add: PB_ENCODERS_def value_bytes_def pb_ltype_defs pb_enc_string_def Let_def encodes_string)
  next
    case 9
    then show ?thesis using encodes_submessage [of "sub_fields (ptr f)" p] assms
      by (simp add: PB_ENCODERS_def value_bytes_def pb_ltype_defs pb_enc_submessage_def)
  next
    case 10
    then show ?thesis
      by (simp add: PB_ENCODERS_def value_bytes_def pb_ltype_defs pb_enc_fixed_length_bytes_def encodes_string)
  next
    case 11
    then have "value_bytes spec m f p = None" by (simp add: value_bytes_def)
    then show ?thesis by simp
  qed
qed

lemma packed_length:
  assumes "concat_opt (map (\<lambda>i. value_bytes spec m f (q i)) [0..<n]) = Some bs"
  shows "PB_LTYPE (ftype f) = PB_LTYPE_FIXED32 \<Longrightarrow> length bs = 4 * n"
    and "PB_LTYPE (ftype f) = PB_LTYPE_FIXED64 \<Longrightarrow> length bs = 8 * n"
  using concat_opt_length [OF assms, of 4] concat_opt_length [OF assms, of 8]
  by (simp_all add: list_all_length value_bytes_def pb_ltype_defs)

lemma encodes_array:
  assumes "PB_LTYPE (ftype f) = PB_LTYPE_SUBMESSAGE \<Longrightarrow> table_ok (sub_fields (ptr f))"
  shows "encodes (\<lambda>s. encode_array m s f p n (PB_ENCODERS sub m (PB_LTYPE (ftype f)))) (array_bytes spec m f p n)"
proof -
  let ?func = "PB_ENCODERS sub m (PB_LTYPE (ftype f))"
  let ?items = "concat_opt (map (\<lambda>i. value_bytes spec m f (p + int (i * data_size f))) [0..<n])"
  have loop: "encodes (\<lambda>s. array_loop (\<lambda>s p. ?func s f p) (data_size f) n s p) ?items"
    by (intro encodes_array_loop encodes_value assms)
  consider "n = 0" | "PB_ATYPE (ftype f) \<noteq> PB_ATYPE_POINTER \<and> array_size f < n"
    | (packed) "n \<noteq> 0" "\<not> (PB_ATYPE (ftype f) \<noteq> PB_ATYPE_POINTER \<and> array_size f < n)"
      "PB_LTYPE (ftype f) \<le> PB_LTYPE_LAST_PACKABLE"
    | (single) "n \<noteq> 0" "\<not> (PB_ATYPE (ftype f) \<noteq> PB_ATYPE_POINTER \<and> array_size f < n)"
      "\<not> PB_LTYPE (ftype f) \<le> PB_LTYPE_LAST_PACKABLE"
    by blast
  then show ?thesis
  proof cases
    case 1
    then show ?thesis by (simp add: encode_array_def array_bytes_def encodes_Some emits_return)
  next
    case 2
    then show ?thesis by (simp add: array_bytes_def Let_def encodes_Some emits_return encode_array_def)
  next
    case packed
    show ?thesis
    proof (rule encodesI)
      fix cs assume cs: "array_bytes spec m f p n = Some cs" and len: "length cs < 2 ^ 63"
      then obtain bs where items: "?items = Some bs"
        and cs': "cs = leb128 (tag_number PB_WT_STRING (tag f)) @ leb128 (length bs) @ bs"
        using packed by (auto simp: array_bytes_def Let_def delimited_bytes_def)
      have lb: "length bs < 2 ^ 63" using len cs' by simp
      let ?n = "of_nat (length bs) :: u64"
      have nn: "unat ?n = length bs" using lb by (intro unat_of_nat_u64) simp
      have loop_bs: "emits (\<lambda>s. array_loop (\<lambda>s p. ?func s f p) (data_size f) n s p) bs"
        using loop lb items by (simp add: encodes_def)
      have sizing: "array_loop (\<lambda>s p. ?func s f p) (data_size f) n PB_OSTREAM_SIZING p
          = (True, advance PB_OSTREAM_SIZING bs)"
        by (rule emits_room [OF loop_bs]) simp_all
      have "(if PB_LTYPE (ftype f) = PB_LTYPE_FIXED32 then Some (4 * of_nat n)
                else if PB_LTYPE (ftype f) = PB_LTYPE_FIXED64 then Some (8 * of_nat n)
                else (case array_loop (\<lambda>s p. ?func s f p) (data_size f) n PB_OSTREAM_SIZING p of
                        (True, sizestream) \<Rightarrow> Some (bytes_written sizestream)
                      | (False, sizestream) \<Rightarrow> None)) = Some ?n"
        unfolding sizing using packed_length [OF items] by auto
      then have code: "(\<lambda>s. encode_array m s f p n ?func) =
        (\<lambda>s. and_then (pb_encode_tag s PB_WT_STRING (tag f)) (\<lambda>s.
           and_then (pb_encode_varint s ?n) (\<lambda>s. 
             if is_Sizing (o_state s) then pb_write s [] ?n
             else array_loop (\<lambda>s p. ?func s f p) (data_size f) n s p)))"
        unfolding encode_array_def using packed by auto
      have "emits (\<lambda>s. pb_encode_varint s ?n) (leb128 (length bs))"
        using emits_varint [of ?n] nn by simp
      then show "emits (\<lambda>s. encode_array m s f p n ?func) cs"
        unfolding code cs'
        by (intro emits_and_then emits_tag emits_sizing_shortcut loop_bs lb) (simp_all add: pb_wt_defs)
    qed
  next
    case single
    let ?at = "\<lambda>q. if PB_ATYPE (ftype f) = PB_ATYPE_POINTER \<and>
        (PB_LTYPE (ftype f) = PB_LTYPE_STRING \<or> PB_LTYPE (ftype f) = PB_LTYPE_BYTES)
      then load_ptr m q else q"
    have "encodes (\<lambda>s. array_loop (\<lambda>s q. and_then (pb_encode_tag_for_field s f) (\<lambda>s. ?func s f (?at q)))
        (data_size f) n s p)
      (concat_opt (map (\<lambda>i. append_opt (tag_bytes f) (value_bytes spec m f (?at (p + int (i * data_size f))))) [0..<n]))"
      by (intro encodes_array_loop encodes_and_then encodes_tag_for_field encodes_value assms)
    then show ?thesis using single
      by (simp add: encode_array_def array_bytes_def Let_def if_distrib cong: if_cong)
  qed
qed

lemma encodes_basic_field:
  assumes "PB_LTYPE (ftype f) = PB_LTYPE_SUBMESSAGE \<Longrightarrow> table_ok (sub_fields (ptr f))"
  shows "encodes (\<lambda>s. encode_basic_field sub m s f p) (field_bytes spec m f p)"
proof -
  let ?func = "PB_ENCODERS sub m (PB_LTYPE (ftype f))"
  let ?a = "value_addr m f p"
  have single: "encodes (\<lambda>s. and_then (pb_encode_tag_for_field s f) (\<lambda>s. ?func s f ?a))
      (append_opt (tag_bytes f) (value_bytes spec m f ?a))"
    by (intro encodes_and_then encodes_tag_for_field encodes_value assms)
  have none: "encodes (\<lambda>s. (True, s)) (Some [])" by (intro encodes_Some emits_return)
  note d = encode_basic_field_def Let_def value_addr_def [symmetric] htype_distinct
    htype_distinct [symmetric] field_bytes_def field_present_def safe_read_bool_iff
  consider (required) "PB_HTYPE (ftype f) = PB_HTYPE_REQUIRED" | (opt) "PB_HTYPE (ftype f) = PB_HTYPE_OPTIONAL"
    | (repeated) "PB_HTYPE (ftype f) = PB_HTYPE_REPEATED" | (oneof) "PB_HTYPE (ftype f) = PB_HTYPE_ONEOF"
    using htype_cases by blast
  then show ?thesis
  proof cases
    case required
    then show ?thesis using single by (cases "?a = 0") (simp_all add: d)
  next
    case opt
    then show ?thesis using single none
      by (cases "size_offset f = 0"; cases "PB_ATYPE (ftype f) = PB_ATYPE_POINTER";
          cases "field_present m f p")
        (simp_all add: d value_addr_def)
  next
    case repeated
    then show ?thesis using encodes_array [of f m ?a "field_count m f p"] assms
      by (simp add: d field_count_def)
  next
    case oneof
    then show ?thesis using single none
      by (cases "(load_word m (p + size_offset f) :: u32) = tag f") (simp_all add: d)
  qed
qed

lemma encodes_message:
  assumes "list_all (\<lambda>f. plain_field f \<and>
      (PB_LTYPE (ftype f) = PB_LTYPE_SUBMESSAGE \<longrightarrow> table_ok (sub_fields (ptr f)))) fs"
  shows "encodes (\<lambda>s. encode_message sub env m s fs p)
    (concat_opt (map (\<lambda>i. field_bytes spec m (field_at fs i) (p + int (field_offset fs i))) [0..<length fs]))"
proof (cases "fs = []")
  case True
  then show ?thesis
    by (simp add: encode_message_def iter_begin_at encodes_Some emits_return)
next
  case False
  have proper: "proper_table fs"
    using assms by (auto simp: proper_table_def list_all_iff plain_field_def)
  let ?body = "\<lambda>it stream.
      if PB_LTYPE (ftype (iter_field it)) = PB_LTYPE_EXTENSION
      then encode_extension_field sub env m stream (iter_field it) (pData it)
      else encode_field sub env m stream (iter_field it) (pData it)"
  have body: "encodes (?body (iter_at fs p j)) (field_bytes spec m (field_at fs j) (p + int (field_offset fs j)))"
    if j: "j < length fs" for j
  proof -
    let ?f = "fs ! j"
    have f: "plain_field ?f" "PB_LTYPE (ftype ?f) = PB_LTYPE_SUBMESSAGE \<Longrightarrow> table_ok (sub_fields (ptr ?f))"
      using assms j by (auto simp: list_all_length)
    then have "?body (iter_at fs p j) = (\<lambda>s. encode_basic_field sub m s ?f (p + int (field_offset fs j)))"
      using j by (intro ext) (auto simp: plain_field_def encode_field_def Let_def)
    then show ?thesis using encodes_basic_field [OF f(2), of m "p + int (field_offset fs j)"] j by simp
  qed
  have "tag (field_at fs 0) \<noteq> 0" using False proper_tableD [OF proper] by simp
  then have "(\<lambda>s. encode_message sub env m s fs p) = iter_loop ?body (iter_at fs p 0)"
    by (simp add: encode_message_def iter_begin_at)
  moreover have "encodes (\<lambda>s. iter_loop ?body (iter_at fs p 0) s)
      (concat_opt (map (\<lambda>i. field_bytes spec m (field_at fs i) (p + int (field_offset fs i))) [0..<length fs]))"
    using False by (intro encodes_iter_loop [of fs ?body p, OF proper]) (simp_all only: body length_greater_0_conv not_False_eq_True)
  ultimately show ?thesis by simp
qed

end

section \<open>Every nesting level satisfies the contract\<close>

lemma pb_encode_level: "submessage_encoder (pb_encode n env m) (message_bytes n m) (plain_table n)"
proof (induction n)
  case 0
  then show ?case by unfold_locales simp
next
  case (Suc n)
  show ?case
  proof
    fix fs p assume "plain_table (Suc n) fs"
    then show "encodes (\<lambda>s. pb_encode (Suc n) env m s fs p) (message_bytes (Suc n) m fs p)"
      using submessage_encoder.encodes_message [OF Suc, of fs env m p] by simp
  qed
qed

interpretation level: submessage_encoder "pb_encode n env m" "message_bytes n m" "plain_table n"
  for n env m
  by (rule pb_encode_level)

end
