(* ===== verification/PbLayout.thy ===== *)
theory PbLayout
  imports PbCommon
begin

text \<open>
  The macros of \<open>nanopb/pb.h\<close> that build a descriptor table from a C structure. A C type is
  modelled by what its layout depends on, with the sizes and alignments of the 64-bit targets
  of the pods (an integer is aligned to its size, a pointer takes eight bytes); \<open>sizeof\<close> and
  \<open>offsetof\<close> follow the usual C layout: every member at the next multiple of its alignment,
  the size rounded up to the alignment of the structure.
\<close>

section \<open>C types and their layout\<close>

text \<open>
  \<open>CInt n\<close> is an integer, \<open>bool\<close> or enumeration of \<open>n\<close> bytes; \<open>CPtr n\<close> a pointer to
  objects of \<open>n\<close> bytes; \<open>CArray n t\<close> an array of \<open>n\<close> entries.
\<close>

datatype ctype =
  CInt nat
| CPtr nat
| CArray nat ctype
| CStruct "(string \<times> ctype) list"
| CUnion "(string \<times> ctype) list"

definition align_up :: "nat \<Rightarrow> nat \<Rightarrow> nat" where
  "align_up a n = (n + a - 1) div a * a"

fun alignof :: "ctype \<Rightarrow> nat" where
  "alignof (CInt n) = n"
| "alignof (CPtr n) = 8"
| "alignof (CArray n t) = alignof t"
| "alignof (CStruct ms) = foldr (\<lambda>m. max (alignof (snd m))) ms 1"
| "alignof (CUnion ms) = foldr (\<lambda>m. max (alignof (snd m))) ms 1"

text \<open>The end of the last member laid out from an offset on.\<close>

fun sizeof :: "ctype \<Rightarrow> nat" where
  "sizeof (CInt n) = n"
| "sizeof (CPtr n) = 8"
| "sizeof (CArray n t) = n * sizeof t"
| "sizeof (CStruct ms) =
     align_up (alignof (CStruct ms))
       (fold (\<lambda>m end. align_up (alignof (snd m)) end + sizeof (snd m)) ms 0)"
| "sizeof (CUnion ms) =
     align_up (alignof (CUnion ms)) (fold (\<lambda>m n. max n (sizeof (snd m))) ms 0)"

text \<open>The offset of a member, the members before it taking the bytes up to \<open>end\<close>.\<close>

fun member_offset :: "(string \<times> ctype) list \<Rightarrow> string \<Rightarrow> nat \<Rightarrow> nat" where
  "member_offset [] m end = end"
| "member_offset ((n, t) # ms) m end =
     (let start = align_up (alignof t) end
      in if n = m then start else member_offset ms m (start + sizeof t))"

definition member_type :: "(string \<times> ctype) list \<Rightarrow> string \<Rightarrow> ctype" where
  "member_type ms m = (case map_of ms m of Some t \<Rightarrow> t | None \<Rightarrow> CInt 0)"

text \<open>A member designator is a path, \<open>[m]\<close> or \<open>[u, m]\<close> for a member of a union.\<close>

fun offsetof :: "ctype \<Rightarrow> string list \<Rightarrow> nat" where
  "offsetof (CStruct ms) (m # path) = member_offset ms m 0 + offsetof (member_type ms m) path"
| "offsetof (CUnion ms) (m # path) = offsetof (member_type ms m) path"
| "offsetof t path = 0"

fun typeof :: "ctype \<Rightarrow> string list \<Rightarrow> ctype" where
  "typeof (CStruct ms) (m # path) = typeof (member_type ms m) path"
| "typeof (CUnion ms) (m # path) = typeof (member_type ms m) path"
| "typeof t path = t"

fun elemsize :: "ctype \<Rightarrow> nat" where
  "elemsize (CPtr n) = n"
| "elemsize (CArray n t) = sizeof t"
| "elemsize t = 0"

section \<open>The macros\<close>

definition pb_membersize :: "ctype \<Rightarrow> string list \<Rightarrow> nat" where
  "pb_membersize st m = sizeof (typeof st m)"

text \<open>\<open>pb_membersize(st, m[0])\<close>, the size of an entry of an array or of what a pointer points to.\<close>

definition pb_entrysize :: "ctype \<Rightarrow> string list \<Rightarrow> nat" where
  "pb_entrysize st m = elemsize (typeof st m)"

definition pb_arraysize :: "ctype \<Rightarrow> string list \<Rightarrow> nat" where
  "pb_arraysize st m = pb_membersize st m div pb_entrysize st m"

definition pb_delta :: "ctype \<Rightarrow> string list \<Rightarrow> string list \<Rightarrow> int" where
  "pb_delta st m1 m2 = int (offsetof st m1) - int (offsetof st m2)"

text \<open>The data offset is computed with \<open>size_t\<close> and stored with 32 bits.\<close>

datatype placement = FIRST | OTHER | UNION | CHOOSE

definition PB_DATAOFFSET_FIRST :: "ctype \<Rightarrow> string list \<Rightarrow> string list \<Rightarrow> nat" where
  "PB_DATAOFFSET_FIRST st m1 m2 = unat (ucast (of_nat (offsetof st m1) :: u64) :: u32)"

definition PB_DATAOFFSET_OTHER :: "ctype \<Rightarrow> string list \<Rightarrow> string list \<Rightarrow> nat" where
  "PB_DATAOFFSET_OTHER st m1 m2 =
     unat (ucast (of_nat (offsetof st m1) - of_nat (offsetof st m2) - of_nat (pb_membersize st m2) :: u64) :: u32)"

definition PB_DATAOFFSET_UNION :: "ctype \<Rightarrow> string list \<Rightarrow> string list \<Rightarrow> nat" where
  "PB_DATAOFFSET_UNION st m1 m2 = PB_SIZE_MAX"

definition PB_DATAOFFSET_CHOOSE :: "ctype \<Rightarrow> string list \<Rightarrow> string list \<Rightarrow> nat" where
  "PB_DATAOFFSET_CHOOSE st m1 m2 =
     (if offsetof st m1 = offsetof st m2 then PB_DATAOFFSET_FIRST st m1 m2
      else PB_DATAOFFSET_OTHER st m1 m2)"

definition PB_DATAOFFSET :: "placement \<Rightarrow> ctype \<Rightarrow> string list \<Rightarrow> string list \<Rightarrow> nat" where
  "PB_DATAOFFSET p =
     (case p of FIRST \<Rightarrow> PB_DATAOFFSET_FIRST | OTHER \<Rightarrow> PB_DATAOFFSET_OTHER
      | UNION \<Rightarrow> PB_DATAOFFSET_UNION | CHOOSE \<Rightarrow> PB_DATAOFFSET_CHOOSE)"

definition PB_REQUIRED_STATIC :: "u32 \<Rightarrow> ctype \<Rightarrow> string \<Rightarrow> nat \<Rightarrow> pb_type_t \<Rightarrow> pb_ptr \<Rightarrow> pb_field" where
  "PB_REQUIRED_STATIC t st m fd ltype p =
     Pb_field t (PB_ATYPE_STATIC OR PB_HTYPE_REQUIRED OR ltype) fd 0 (pb_membersize st [m]) 0 p"

definition PB_OPTIONAL_STATIC :: "u32 \<Rightarrow> ctype \<Rightarrow> string \<Rightarrow> nat \<Rightarrow> pb_type_t \<Rightarrow> pb_ptr \<Rightarrow> pb_field" where
  "PB_OPTIONAL_STATIC t st m fd ltype p =
     Pb_field t (PB_ATYPE_STATIC OR PB_HTYPE_OPTIONAL OR ltype) fd
       (pb_delta st [''has_'' @ m] [m]) (pb_membersize st [m]) 0 p"

definition PB_SINGULAR_STATIC :: "u32 \<Rightarrow> ctype \<Rightarrow> string \<Rightarrow> nat \<Rightarrow> pb_type_t \<Rightarrow> pb_ptr \<Rightarrow> pb_field" where
  "PB_SINGULAR_STATIC t st m fd ltype p =
     Pb_field t (PB_ATYPE_STATIC OR PB_HTYPE_OPTIONAL OR ltype) fd 0 (pb_membersize st [m]) 0 p"

definition PB_REPEATED_STATIC :: "u32 \<Rightarrow> ctype \<Rightarrow> string \<Rightarrow> nat \<Rightarrow> pb_type_t \<Rightarrow> pb_ptr \<Rightarrow> pb_field" where
  "PB_REPEATED_STATIC t st m fd ltype p =
     Pb_field t (PB_ATYPE_STATIC OR PB_HTYPE_REPEATED OR ltype) fd
       (pb_delta st [m @ ''_count''] [m]) (pb_entrysize st [m]) (pb_arraysize st [m]) p"

definition PB_REQUIRED_POINTER :: "u32 \<Rightarrow> ctype \<Rightarrow> string \<Rightarrow> nat \<Rightarrow> pb_type_t \<Rightarrow> pb_ptr \<Rightarrow> pb_field" where
  "PB_REQUIRED_POINTER t st m fd ltype p =
     Pb_field t (PB_ATYPE_POINTER OR PB_HTYPE_REQUIRED OR ltype) fd 0 (pb_entrysize st [m]) 0 p"

definition PB_OPTIONAL_POINTER :: "u32 \<Rightarrow> ctype \<Rightarrow> string \<Rightarrow> nat \<Rightarrow> pb_type_t \<Rightarrow> pb_ptr \<Rightarrow> pb_field" where
  "PB_OPTIONAL_POINTER t st m fd ltype p =
     Pb_field t (PB_ATYPE_POINTER OR PB_HTYPE_OPTIONAL OR ltype) fd 0 (pb_entrysize st [m]) 0 p"

definition PB_SINGULAR_POINTER :: "u32 \<Rightarrow> ctype \<Rightarrow> string \<Rightarrow> nat \<Rightarrow> pb_type_t \<Rightarrow> pb_ptr \<Rightarrow> pb_field" where
  "PB_SINGULAR_POINTER t st m fd ltype p =
     Pb_field t (PB_ATYPE_POINTER OR PB_HTYPE_OPTIONAL OR ltype) fd 0 (pb_entrysize st [m]) 0 p"

definition PB_REPEATED_POINTER :: "u32 \<Rightarrow> ctype \<Rightarrow> string \<Rightarrow> nat \<Rightarrow> pb_type_t \<Rightarrow> pb_ptr \<Rightarrow> pb_field" where
  "PB_REPEATED_POINTER t st m fd ltype p =
     Pb_field t (PB_ATYPE_POINTER OR PB_HTYPE_REPEATED OR ltype) fd
       (pb_delta st [m @ ''_count''] [m]) (pb_entrysize st [m]) 0 p"

definition PB_REQUIRED_CALLBACK :: "u32 \<Rightarrow> ctype \<Rightarrow> string \<Rightarrow> nat \<Rightarrow> pb_type_t \<Rightarrow> pb_ptr \<Rightarrow> pb_field" where
  "PB_REQUIRED_CALLBACK t st m fd ltype p =
     Pb_field t (PB_ATYPE_CALLBACK OR PB_HTYPE_REQUIRED OR ltype) fd 0 (pb_membersize st [m]) 0 p"

definition PB_OPTIONAL_CALLBACK :: "u32 \<Rightarrow> ctype \<Rightarrow> string \<Rightarrow> nat \<Rightarrow> pb_type_t \<Rightarrow> pb_ptr \<Rightarrow> pb_field" where
  "PB_OPTIONAL_CALLBACK t st m fd ltype p =
     Pb_field t (PB_ATYPE_CALLBACK OR PB_HTYPE_OPTIONAL OR ltype) fd 0 (pb_membersize st [m]) 0 p"

definition PB_SINGULAR_CALLBACK :: "u32 \<Rightarrow> ctype \<Rightarrow> string \<Rightarrow> nat \<Rightarrow> pb_type_t \<Rightarrow> pb_ptr \<Rightarrow> pb_field" where
  "PB_SINGULAR_CALLBACK t st m fd ltype p =
     Pb_field t (PB_ATYPE_CALLBACK OR PB_HTYPE_OPTIONAL OR ltype) fd 0 (pb_membersize st [m]) 0 p"

definition PB_REPEATED_CALLBACK :: "u32 \<Rightarrow> ctype \<Rightarrow> string \<Rightarrow> nat \<Rightarrow> pb_type_t \<Rightarrow> pb_ptr \<Rightarrow> pb_field" where
  "PB_REPEATED_CALLBACK t st m fd ltype p =
     Pb_field t (PB_ATYPE_CALLBACK OR PB_HTYPE_REPEATED OR ltype) fd 0 (pb_membersize st [m]) 0 p"

definition PB_OPTEXT_STATIC :: "u32 \<Rightarrow> ctype \<Rightarrow> string \<Rightarrow> nat \<Rightarrow> pb_type_t \<Rightarrow> pb_ptr \<Rightarrow> pb_field" where
  "PB_OPTEXT_STATIC t st m fd ltype p =
     Pb_field t (PB_ATYPE_STATIC OR PB_HTYPE_REQUIRED OR ltype) 0 0 (pb_membersize st [m]) 0 p"

definition PB_OPTEXT_POINTER :: "u32 \<Rightarrow> ctype \<Rightarrow> string \<Rightarrow> nat \<Rightarrow> pb_type_t \<Rightarrow> pb_ptr \<Rightarrow> pb_field" where
  "PB_OPTEXT_POINTER t st m fd ltype p = PB_OPTIONAL_POINTER t st m fd ltype p"

definition PB_OPTEXT_CALLBACK :: "u32 \<Rightarrow> ctype \<Rightarrow> string \<Rightarrow> nat \<Rightarrow> pb_type_t \<Rightarrow> pb_ptr \<Rightarrow> pb_field" where
  "PB_OPTEXT_CALLBACK t st m fd ltype p = PB_OPTIONAL_CALLBACK t st m fd ltype p"

section \<open>The field macro\<close>

datatype proto_type =
  BOOL | BYTES | DOUBLE | ENUM | UENUM | FIXED32 | FIXED64 | FLOAT | INT32 | INT64 | MESSAGE
| SFIXED32 | SFIXED64 | SINT32 | SINT64 | STRING | UINT32 | UINT64 | EXTENSION | FIXED_LENGTH_BYTES

definition PB_LTYPE_MAP :: "proto_type \<Rightarrow> pb_type_t" where
  "PB_LTYPE_MAP type =
     (case type of
        BOOL \<Rightarrow> PB_LTYPE_BOOL | BYTES \<Rightarrow> PB_LTYPE_BYTES | DOUBLE \<Rightarrow> PB_LTYPE_FIXED64
      | ENUM \<Rightarrow> PB_LTYPE_VARINT | UENUM \<Rightarrow> PB_LTYPE_UVARINT
      | FIXED32 \<Rightarrow> PB_LTYPE_FIXED32 | FIXED64 \<Rightarrow> PB_LTYPE_FIXED64 | FLOAT \<Rightarrow> PB_LTYPE_FIXED32
      | INT32 \<Rightarrow> PB_LTYPE_VARINT | INT64 \<Rightarrow> PB_LTYPE_VARINT | MESSAGE \<Rightarrow> PB_LTYPE_SUBMESSAGE
      | SFIXED32 \<Rightarrow> PB_LTYPE_FIXED32 | SFIXED64 \<Rightarrow> PB_LTYPE_FIXED64
      | SINT32 \<Rightarrow> PB_LTYPE_SVARINT | SINT64 \<Rightarrow> PB_LTYPE_SVARINT | STRING \<Rightarrow> PB_LTYPE_STRING
      | UINT32 \<Rightarrow> PB_LTYPE_UVARINT | UINT64 \<Rightarrow> PB_LTYPE_UVARINT
      | EXTENSION \<Rightarrow> PB_LTYPE_EXTENSION | FIXED_LENGTH_BYTES \<Rightarrow> PB_LTYPE_FIXED_LENGTH_BYTES)"

datatype field_rules = REQUIRED | OPTIONAL | SINGULAR | REPEATED | OPTEXT

datatype allocation = STATIC | POINTER | CALLBACK

definition PB_RULES ::
  "field_rules \<Rightarrow> allocation \<Rightarrow> u32 \<Rightarrow> ctype \<Rightarrow> string \<Rightarrow> nat \<Rightarrow> pb_type_t \<Rightarrow> pb_ptr \<Rightarrow> pb_field" where
  "PB_RULES rules allocation =
     (case (rules, allocation) of
        (REQUIRED, STATIC) \<Rightarrow> PB_REQUIRED_STATIC
      | (REQUIRED, POINTER) \<Rightarrow> PB_REQUIRED_POINTER
      | (REQUIRED, CALLBACK) \<Rightarrow> PB_REQUIRED_CALLBACK
      | (OPTIONAL, STATIC) \<Rightarrow> PB_OPTIONAL_STATIC
      | (OPTIONAL, POINTER) \<Rightarrow> PB_OPTIONAL_POINTER
      | (OPTIONAL, CALLBACK) \<Rightarrow> PB_OPTIONAL_CALLBACK
      | (SINGULAR, STATIC) \<Rightarrow> PB_SINGULAR_STATIC
      | (SINGULAR, POINTER) \<Rightarrow> PB_SINGULAR_POINTER
      | (SINGULAR, CALLBACK) \<Rightarrow> PB_SINGULAR_CALLBACK
      | (REPEATED, STATIC) \<Rightarrow> PB_REPEATED_STATIC
      | (REPEATED, POINTER) \<Rightarrow> PB_REPEATED_POINTER
      | (REPEATED, CALLBACK) \<Rightarrow> PB_REPEATED_CALLBACK
      | (OPTEXT, STATIC) \<Rightarrow> PB_OPTEXT_STATIC
      | (OPTEXT, POINTER) \<Rightarrow> PB_OPTEXT_POINTER
      | (OPTEXT, CALLBACK) \<Rightarrow> PB_OPTEXT_CALLBACK)"

definition PB_FIELD ::
  "u32 \<Rightarrow> proto_type \<Rightarrow> field_rules \<Rightarrow> allocation \<Rightarrow> placement \<Rightarrow> ctype \<Rightarrow> string \<Rightarrow> string list \<Rightarrow>
     pb_ptr \<Rightarrow> pb_field" where
  "PB_FIELD t type rules allocation placement message field prevfield p =
     PB_RULES rules allocation t message field (PB_DATAOFFSET placement message [field] prevfield)
       (PB_LTYPE_MAP type) p"

definition PB_REPEATED_FIXED_COUNT ::
  "u32 \<Rightarrow> proto_type \<Rightarrow> placement \<Rightarrow> ctype \<Rightarrow> string \<Rightarrow> string list \<Rightarrow> pb_ptr \<Rightarrow> pb_field" where
  "PB_REPEATED_FIXED_COUNT t type placement message field prevfield p =
     Pb_field t (PB_ATYPE_STATIC OR PB_HTYPE_REPEATED OR PB_LTYPE_MAP type)
       (PB_DATAOFFSET placement message [field] prevfield) 0
       (pb_entrysize message [field]) (pb_arraysize message [field]) p"

text \<open>Members of a oneof, in a named union \<open>u\<close> or an anonymous one.\<close>

definition PB_ONEOF_STATIC :: "string \<Rightarrow> u32 \<Rightarrow> ctype \<Rightarrow> string list \<Rightarrow> nat \<Rightarrow> pb_type_t \<Rightarrow> pb_ptr \<Rightarrow> pb_field" where
  "PB_ONEOF_STATIC u t st m fd ltype p =
     Pb_field t (PB_ATYPE_STATIC OR PB_HTYPE_ONEOF OR ltype) fd
       (pb_delta st [''which_'' @ u] m) (pb_membersize st m) 0 p"

definition PB_ONEOF_POINTER :: "string \<Rightarrow> u32 \<Rightarrow> ctype \<Rightarrow> string list \<Rightarrow> nat \<Rightarrow> pb_type_t \<Rightarrow> pb_ptr \<Rightarrow> pb_field" where
  "PB_ONEOF_POINTER u t st m fd ltype p =
     Pb_field t (PB_ATYPE_POINTER OR PB_HTYPE_ONEOF OR ltype) fd
       (pb_delta st [''which_'' @ u] m) (pb_entrysize st m) 0 p"

definition PB_ONEOF_FIELD ::
  "string \<Rightarrow> u32 \<Rightarrow> proto_type \<Rightarrow> allocation \<Rightarrow> placement \<Rightarrow> ctype \<Rightarrow> string \<Rightarrow> string list \<Rightarrow> pb_ptr \<Rightarrow> pb_field" where
  "PB_ONEOF_FIELD u t type allocation placement message field prevfield p =
     (if allocation = POINTER then PB_ONEOF_POINTER else PB_ONEOF_STATIC)
       u t message [u, field] (PB_DATAOFFSET placement message [u, field] prevfield) (PB_LTYPE_MAP type) p"

definition PB_ANONYMOUS_ONEOF_STATIC :: "string \<Rightarrow> u32 \<Rightarrow> ctype \<Rightarrow> string list \<Rightarrow> nat \<Rightarrow> pb_type_t \<Rightarrow> pb_ptr \<Rightarrow> pb_field" where
  "PB_ANONYMOUS_ONEOF_STATIC u t st m fd ltype p =
     Pb_field t (PB_ATYPE_STATIC OR PB_HTYPE_ONEOF OR ltype) fd
       (pb_delta st [''which_'' @ u] m) (pb_membersize st m) 0 p"

definition PB_ANONYMOUS_ONEOF_POINTER :: "string \<Rightarrow> u32 \<Rightarrow> ctype \<Rightarrow> string list \<Rightarrow> nat \<Rightarrow> pb_type_t \<Rightarrow> pb_ptr \<Rightarrow> pb_field" where
  "PB_ANONYMOUS_ONEOF_POINTER u t st m fd ltype p =
     Pb_field t (PB_ATYPE_POINTER OR PB_HTYPE_ONEOF OR ltype) fd
       (pb_delta st [''which_'' @ u] m) (pb_entrysize st m) 0 p"

text \<open>An anonymous union is the member with the empty name.\<close>

definition PB_ANONYMOUS_ONEOF_FIELD ::
  "string \<Rightarrow> u32 \<Rightarrow> proto_type \<Rightarrow> allocation \<Rightarrow> placement \<Rightarrow> ctype \<Rightarrow> string \<Rightarrow> string list \<Rightarrow> pb_ptr \<Rightarrow> pb_field" where
  "PB_ANONYMOUS_ONEOF_FIELD u t type allocation placement message field prevfield p =
     (if allocation = POINTER then PB_ANONYMOUS_ONEOF_POINTER else PB_ANONYMOUS_ONEOF_STATIC)
       u t message [[], field] (PB_DATAOFFSET placement message [[], field] prevfield) (PB_LTYPE_MAP type) p"

section \<open>The tables of the macros describe the structure\<close>

text \<open>
  A member as a row of a table names it; \<open>pb_table\<close> is the table the generator writes for
  the members of a structure in their order, each row with the member before it.
\<close>

record pb_member =
  m_tag :: u32
  m_type :: proto_type
  m_rules :: field_rules
  m_alloc :: allocation
  m_name :: string
  m_ptr :: pb_ptr

fun pb_rows :: "ctype \<Rightarrow> string \<Rightarrow> pb_member list \<Rightarrow> pb_field list" where
  "pb_rows st prev [] = []"
| "pb_rows st prev (m # ms) =
     PB_FIELD (m_tag m) (m_type m) (m_rules m) (m_alloc m) OTHER st (m_name m) [prev] (m_ptr m)
       # pb_rows st (m_name m) ms"

fun pb_table :: "ctype \<Rightarrow> pb_member list \<Rightarrow> pb_field list" where
  "pb_table st [] = []"
| "pb_table st (m # ms) =
     PB_FIELD (m_tag m) (m_type m) (m_rules m) (m_alloc m) FIRST st (m_name m) [m_name m] (m_ptr m)
       # pb_rows st (m_name m) ms"

text \<open>
  The member's C type fits its allocation, and the members follow each other in the structure.
  An extension row (\<open>OPTEXT\<close>, allocated statically) has no place in a structure.
\<close>

definition member_ok :: "ctype \<Rightarrow> pb_member \<Rightarrow> bool" where
  "member_ok st m \<longleftrightarrow>
     (case m_alloc m of
        POINTER \<Rightarrow> (\<exists>n. typeof st [m_name m] = CPtr n)
      | STATIC \<Rightarrow> m_rules m \<noteq> OPTEXT \<and>
          (m_rules m = REPEATED \<longrightarrow> (\<exists>n t. typeof st [m_name m] = CArray n t \<and> 0 < sizeof t))
      | CALLBACK \<Rightarrow> True) \<and>
     offsetof st [m_name m] + pb_membersize st [m_name m] < 2 ^ 32"

fun members_follow :: "ctype \<Rightarrow> pb_member list \<Rightarrow> bool" where
  "members_follow st (m # m' # ms) \<longleftrightarrow>
     offsetof st [m_name m] + pb_membersize st [m_name m] \<le> offsetof st [m_name m'] \<and>
     members_follow st (m' # ms)"
| "members_follow st ms \<longleftrightarrow> True"

lemma pb_type_bits:
  "PB_LTYPE (a OR h OR PB_LTYPE_MAP ty) = PB_LTYPE_MAP ty"
  if "a \<in> {PB_ATYPE_STATIC, PB_ATYPE_POINTER, PB_ATYPE_CALLBACK}"
    "h \<in> {PB_HTYPE_REQUIRED, PB_HTYPE_OPTIONAL, PB_HTYPE_REPEATED, PB_HTYPE_ONEOF}"
  using that by (cases ty) (auto simp: PB_LTYPE_MAP_def pb_type_defs)

lemma pb_type_alloc:
  "PB_ATYPE (a OR h OR PB_LTYPE_MAP ty) = a" "PB_HTYPE (a OR h OR PB_LTYPE_MAP ty) = h"
  if "a \<in> {PB_ATYPE_STATIC, PB_ATYPE_POINTER, PB_ATYPE_CALLBACK}"
    "h \<in> {PB_HTYPE_REQUIRED, PB_HTYPE_OPTIONAL, PB_HTYPE_REPEATED, PB_HTYPE_ONEOF}"
  using that by (cases ty; auto simp: PB_LTYPE_MAP_def pb_type_defs)+

lemmas pb_rule_defs =
  PB_REQUIRED_STATIC_def PB_OPTIONAL_STATIC_def PB_SINGULAR_STATIC_def PB_REPEATED_STATIC_def
  PB_REQUIRED_POINTER_def PB_OPTIONAL_POINTER_def PB_SINGULAR_POINTER_def PB_REPEATED_POINTER_def
  PB_REQUIRED_CALLBACK_def PB_OPTIONAL_CALLBACK_def PB_SINGULAR_CALLBACK_def PB_REPEATED_CALLBACK_def
  PB_OPTEXT_STATIC_def PB_OPTEXT_POINTER_def PB_OPTEXT_CALLBACK_def

definition row :: "ctype \<Rightarrow> placement \<Rightarrow> string \<Rightarrow> pb_member \<Rightarrow> pb_field" where
  "row st p prev m =
     PB_FIELD (m_tag m) (m_type m) (m_rules m) (m_alloc m) p st (m_name m) [prev] (m_ptr m)"

lemma row_not_oneof: "PB_HTYPE (ftype (row st p prev m)) \<noteq> PB_HTYPE_ONEOF"
  by (cases "m_rules m"; cases "m_alloc m")
    (simp_all add: row_def PB_FIELD_def PB_RULES_def pb_rule_defs pb_type_alloc htype_distinct)

lemma row_data_offset:
  "member_ok st m \<Longrightarrow> data_offset (row st p prev m) = PB_DATAOFFSET p st [m_name m] [prev]"
  by (cases "m_rules m"; cases "m_alloc m")
    (simp_all add: row_def PB_FIELD_def PB_RULES_def pb_rule_defs member_ok_def)

lemma atype_distinct:
  "PB_ATYPE_STATIC \<noteq> PB_ATYPE_POINTER" "PB_ATYPE_STATIC \<noteq> PB_ATYPE_CALLBACK"
  "PB_ATYPE_POINTER \<noteq> PB_ATYPE_CALLBACK"
  by (simp_all add: pb_atype_defs)

lemma row_extent:
  assumes "member_ok st m"
  shows "field_extent (row st p prev m) = pb_membersize st [m_name m]"
proof (cases "m_alloc m")
  case STATIC
  show ?thesis
  proof (cases "m_rules m")
    case REPEATED
    then obtain n t where "typeof st [m_name m] = CArray n t" "0 < sizeof t"
      using assms STATIC by (auto simp: member_ok_def)
    then show ?thesis using STATIC REPEATED
      by (simp add: row_def PB_FIELD_def PB_RULES_def pb_rule_defs field_extent_def pb_type_alloc
          pb_arraysize_def pb_membersize_def pb_entrysize_def)
  qed (use assms STATIC in \<open>simp_all add: row_def PB_FIELD_def PB_RULES_def pb_rule_defs field_extent_def
      pb_type_alloc htype_distinct atype_distinct member_ok_def\<close>)
next
  case POINTER
  then obtain n where "typeof st [m_name m] = CPtr n" using assms by (auto simp: member_ok_def)
  then show ?thesis using POINTER
    by (cases "m_rules m") (simp_all add: row_def PB_FIELD_def PB_RULES_def pb_rule_defs
        field_extent_def pb_type_alloc atype_distinct atype_distinct [symmetric] pb_membersize_def)
next
  case CALLBACK
  then show ?thesis
    by (cases "m_rules m") (simp_all add: row_def PB_FIELD_def PB_RULES_def pb_rule_defs
        field_extent_def pb_type_alloc atype_distinct atype_distinct [symmetric])
qed

lemma dataoffset_first:
  "offsetof st a < 2 ^ 32 \<Longrightarrow> PB_DATAOFFSET_FIRST st a b = offsetof st a"
  by (simp add: PB_DATAOFFSET_FIRST_def unsigned_ucast_eq unat_of_nat take_bit_eq_mod)

lemma dataoffset_other:
  assumes "offsetof st b + pb_membersize st b \<le> offsetof st a" and "offsetof st a < 2 ^ 32"
  shows "PB_DATAOFFSET_OTHER st a b = offsetof st a - (offsetof st b + pb_membersize st b)"
proof -
  let ?d = "offsetof st a - (offsetof st b + pb_membersize st b)"
  have "offsetof st a = ?d + offsetof st b + pb_membersize st b" using assms by simp
  then have "(of_nat (offsetof st a) :: u64) = of_nat ?d + of_nat (offsetof st b) + of_nat (pb_membersize st b)"
    by (metis of_nat_add)
  then have "of_nat (offsetof st a) - of_nat (offsetof st b) - of_nat (pb_membersize st b) = (of_nat ?d :: u64)"
    by (simp del: of_nat_diff)
  then show ?thesis using assms
    by (simp add: PB_DATAOFFSET_OTHER_def unsigned_ucast_eq unat_of_nat take_bit_eq_mod del: of_nat_diff)
qed

lemma pb_rows_length [simp]: "length (pb_rows st prev ms) = length ms"
  by (induction ms arbitrary: prev) simp_all

lemma pb_table_length [simp]: "length (pb_table st ms) = length ms"
  by (cases ms) simp_all

lemma pb_rows_nth:
  "i < length ms \<Longrightarrow> pb_rows st prev ms ! i = row st OTHER (if i = 0 then prev else m_name (ms ! (i - 1))) (ms ! i)"
proof (induction ms arbitrary: prev i)
  case (Cons m ms)
  then show ?case by (cases i) (auto simp: row_def)
qed simp

lemma pb_table_nth:
  "i < length ms \<Longrightarrow> pb_table st ms ! i =
     (if i = 0 then row st FIRST (m_name (ms ! 0)) (ms ! 0) else row st OTHER (m_name (ms ! (i - 1))) (ms ! i))"
  by (cases ms; cases i) (auto simp: row_def pb_rows_nth)

lemma members_follow_nth:
  "members_follow st ms \<Longrightarrow> Suc i < length ms \<Longrightarrow>
     offsetof st [m_name (ms ! i)] + pb_membersize st [m_name (ms ! i)] \<le> offsetof st [m_name (ms ! Suc i)]"
proof (induction st ms arbitrary: i rule: members_follow.induct)
  case (1 st m m' ms)
  then show ?case by (cases i) auto
qed auto

lemma pb_table_offset:
  assumes "list_all (member_ok st) ms" and "members_follow st ms"
  shows "i < length ms \<Longrightarrow> field_offset (pb_table st ms) i = offsetof st [m_name (ms ! i)]"
proof (induction i)
  case 0
  have "member_ok st (ms ! 0)" using assms(1) 0 by (simp add: list_all_length)
  moreover from this have "offsetof st [m_name (ms ! 0)] < 2 ^ 32" by (simp add: member_ok_def)
  ultimately show ?case using 0
    by (simp add: pb_table_nth row_data_offset PB_DATAOFFSET_def dataoffset_first)
next
  case (Suc i)
  have ok: "member_ok st (ms ! i)" "member_ok st (ms ! Suc i)"
    using assms(1) Suc.prems by (auto simp: list_all_length)
  have follow: "offsetof st [m_name (ms ! i)] + pb_membersize st [m_name (ms ! i)]
      \<le> offsetof st [m_name (ms ! Suc i)]"
    by (rule members_follow_nth [OF assms(2) Suc.prems])
  have small: "offsetof st [m_name (ms ! Suc i)] < 2 ^ 32" using ok by (simp add: member_ok_def)
  have ext: "field_extent (pb_table st ms ! i) = pb_membersize st [m_name (ms ! i)]"
    unfolding pb_table_nth [OF Suc_lessD [OF Suc.prems]] using row_extent [OF ok(1)] by (cases i) simp_all
  have off: "data_offset (pb_table st ms ! Suc i) =
      offsetof st [m_name (ms ! Suc i)] - (offsetof st [m_name (ms ! i)] + pb_membersize st [m_name (ms ! i)])"
    unfolding pb_table_nth [OF Suc.prems] using row_data_offset [OF ok(2)] dataoffset_other [OF follow small]
    by (simp add: PB_DATAOFFSET_def)
  have "\<not> in_union (pb_table st ms ! i) (pb_table st ms ! Suc i)"
    using Suc.prems row_not_oneof by (simp add: pb_table_nth in_union_def)
  then show ?case using Suc ext off follow by simp
qed

text \<open>The place of the count or the flag, where the row has one.\<close>

definition size_member :: "pb_member \<Rightarrow> string option" where
  "size_member m =
     (case (m_rules m, m_alloc m) of
        (OPTIONAL, STATIC) \<Rightarrow> Some (''has_'' @ m_name m)
      | (REPEATED, STATIC) \<Rightarrow> Some (m_name m @ ''_count'')
      | (REPEATED, POINTER) \<Rightarrow> Some (m_name m @ ''_count'')
      | _ \<Rightarrow> None)"

lemma row_size_offset:
  "size_offset (row st p prev m) =
     (case size_member m of None \<Rightarrow> 0 | Some c \<Rightarrow> int (offsetof st [c]) - int (offsetof st [m_name m]))"
  by (cases "m_rules m"; cases "m_alloc m")
    (simp_all add: row_def PB_FIELD_def PB_RULES_def pb_rule_defs size_member_def pb_delta_def)

lemma pb_table_size_position:
  assumes "list_all (member_ok st) ms" and "members_follow st ms" and "i < length ms"
  shows "size_position (pb_table st ms) i =
    int (offsetof st [case size_member (ms ! i) of None \<Rightarrow> m_name (ms ! i) | Some c \<Rightarrow> c])"
proof -
  have "size_position (pb_table st ms) i =
      int (field_offset (pb_table st ms) i) + size_offset (pb_table st ms ! i)"
  proof (cases i)
    case 0
    then show ?thesis using assms(3) by simp
  next
    case (Suc j)
    have "\<not> in_union (pb_table st ms ! j) (pb_table st ms ! Suc j)"
      using assms(3) Suc row_not_oneof by (simp add: pb_table_nth in_union_def)
    then show ?thesis using Suc assms(3) by simp
  qed
  moreover have "size_offset (pb_table st ms ! i) =
      (case size_member (ms ! i) of None \<Rightarrow> 0
       | Some c \<Rightarrow> int (offsetof st [c]) - int (offsetof st [m_name (ms ! i)]))"
    unfolding pb_table_nth [OF assms(3)] by (cases i) (simp_all add: row_size_offset cong: option.case_cong)
  ultimately show ?thesis using pb_table_offset [OF assms]
    by (simp split: option.split)
qed

end
