(* ===== verification/CctTables.thy ===== *)
theory CctTables
  imports PbLayout
begin

text \<open>
  The messages of the Google Data Transport backend, \<open>cct.nanopb.h\<close> and \<open>cct.nanopb.c\<close>:
  the enumerations, the C structures, the default values and the descriptor tables, written
  with the macros of \<open>PbLayout\<close>. Names drop the prefix \<open>gdt_cct_\<close> of the source.
\<close>

text \<open>\<open>pb_bytes_array_t\<close> of \<open>pb.h\<close>.\<close>

definition pb_bytes_array_t :: ctype where
  "pb_bytes_array_t = CStruct [(''size'', CInt 4), (''bytes'', CArray 1 (CInt 1))]"

section \<open>Enumerations\<close>

text \<open>An enumeration is a 32-bit integer; its enumerators are the constructors of a datatype, and the function gives their values.\<close>

datatype NetworkConnectionInfo_NetworkType =
  NetworkConnectionInfo_NetworkType_NONE
| NetworkConnectionInfo_NetworkType_MOBILE
| NetworkConnectionInfo_NetworkType_WIFI
| NetworkConnectionInfo_NetworkType_MOBILE_MMS
| NetworkConnectionInfo_NetworkType_MOBILE_SUPL
| NetworkConnectionInfo_NetworkType_MOBILE_DUN
| NetworkConnectionInfo_NetworkType_MOBILE_HIPRI
| NetworkConnectionInfo_NetworkType_WIMAX
| NetworkConnectionInfo_NetworkType_BLUETOOTH
| NetworkConnectionInfo_NetworkType_DUMMY
| NetworkConnectionInfo_NetworkType_ETHERNET
| NetworkConnectionInfo_NetworkType_MOBILE_FOTA
| NetworkConnectionInfo_NetworkType_MOBILE_IMS
| NetworkConnectionInfo_NetworkType_MOBILE_CBS
| NetworkConnectionInfo_NetworkType_WIFI_P2P
| NetworkConnectionInfo_NetworkType_MOBILE_IA
| NetworkConnectionInfo_NetworkType_MOBILE_EMERGENCY
| NetworkConnectionInfo_NetworkType_PROXY
| NetworkConnectionInfo_NetworkType_VPN

fun NetworkConnectionInfo_NetworkType_value :: "NetworkConnectionInfo_NetworkType \<Rightarrow> int" where
  "NetworkConnectionInfo_NetworkType_value NetworkConnectionInfo_NetworkType_NONE = - 1"
| "NetworkConnectionInfo_NetworkType_value NetworkConnectionInfo_NetworkType_MOBILE = 0"
| "NetworkConnectionInfo_NetworkType_value NetworkConnectionInfo_NetworkType_WIFI = 1"
| "NetworkConnectionInfo_NetworkType_value NetworkConnectionInfo_NetworkType_MOBILE_MMS = 2"
| "NetworkConnectionInfo_NetworkType_value NetworkConnectionInfo_NetworkType_MOBILE_SUPL = 3"
| "NetworkConnectionInfo_NetworkType_value NetworkConnectionInfo_NetworkType_MOBILE_DUN = 4"
| "NetworkConnectionInfo_NetworkType_value NetworkConnectionInfo_NetworkType_MOBILE_HIPRI = 5"
| "NetworkConnectionInfo_NetworkType_value NetworkConnectionInfo_NetworkType_WIMAX = 6"
| "NetworkConnectionInfo_NetworkType_value NetworkConnectionInfo_NetworkType_BLUETOOTH = 7"
| "NetworkConnectionInfo_NetworkType_value NetworkConnectionInfo_NetworkType_DUMMY = 8"
| "NetworkConnectionInfo_NetworkType_value NetworkConnectionInfo_NetworkType_ETHERNET = 9"
| "NetworkConnectionInfo_NetworkType_value NetworkConnectionInfo_NetworkType_MOBILE_FOTA = 10"
| "NetworkConnectionInfo_NetworkType_value NetworkConnectionInfo_NetworkType_MOBILE_IMS = 11"
| "NetworkConnectionInfo_NetworkType_value NetworkConnectionInfo_NetworkType_MOBILE_CBS = 12"
| "NetworkConnectionInfo_NetworkType_value NetworkConnectionInfo_NetworkType_WIFI_P2P = 13"
| "NetworkConnectionInfo_NetworkType_value NetworkConnectionInfo_NetworkType_MOBILE_IA = 14"
| "NetworkConnectionInfo_NetworkType_value NetworkConnectionInfo_NetworkType_MOBILE_EMERGENCY = 15"
| "NetworkConnectionInfo_NetworkType_value NetworkConnectionInfo_NetworkType_PROXY = 16"
| "NetworkConnectionInfo_NetworkType_value NetworkConnectionInfo_NetworkType_VPN = 17"

definition NetworkConnectionInfo_NetworkType_MIN :: NetworkConnectionInfo_NetworkType where
  "NetworkConnectionInfo_NetworkType_MIN = NetworkConnectionInfo_NetworkType_NONE"

definition NetworkConnectionInfo_NetworkType_MAX :: NetworkConnectionInfo_NetworkType where
  "NetworkConnectionInfo_NetworkType_MAX = NetworkConnectionInfo_NetworkType_VPN"

definition NetworkConnectionInfo_NetworkType_ARRAYSIZE :: int where
  "NetworkConnectionInfo_NetworkType_ARRAYSIZE = NetworkConnectionInfo_NetworkType_value NetworkConnectionInfo_NetworkType_MAX + 1"

datatype NetworkConnectionInfo_MobileSubtype =
  NetworkConnectionInfo_MobileSubtype_UNKNOWN_MOBILE_SUBTYPE
| NetworkConnectionInfo_MobileSubtype_GPRS
| NetworkConnectionInfo_MobileSubtype_EDGE
| NetworkConnectionInfo_MobileSubtype_UMTS
| NetworkConnectionInfo_MobileSubtype_CDMA
| NetworkConnectionInfo_MobileSubtype_EVDO_0
| NetworkConnectionInfo_MobileSubtype_EVDO_A
| NetworkConnectionInfo_MobileSubtype_RTT
| NetworkConnectionInfo_MobileSubtype_HSDPA
| NetworkConnectionInfo_MobileSubtype_HSUPA
| NetworkConnectionInfo_MobileSubtype_HSPA
| NetworkConnectionInfo_MobileSubtype_IDEN
| NetworkConnectionInfo_MobileSubtype_EVDO_B
| NetworkConnectionInfo_MobileSubtype_LTE
| NetworkConnectionInfo_MobileSubtype_EHRPD
| NetworkConnectionInfo_MobileSubtype_HSPAP
| NetworkConnectionInfo_MobileSubtype_GSM
| NetworkConnectionInfo_MobileSubtype_TD_SCDMA
| NetworkConnectionInfo_MobileSubtype_IWLAN
| NetworkConnectionInfo_MobileSubtype_LTE_CA
| NetworkConnectionInfo_MobileSubtype_COMBINED

fun NetworkConnectionInfo_MobileSubtype_value :: "NetworkConnectionInfo_MobileSubtype \<Rightarrow> int" where
  "NetworkConnectionInfo_MobileSubtype_value NetworkConnectionInfo_MobileSubtype_UNKNOWN_MOBILE_SUBTYPE = 0"
| "NetworkConnectionInfo_MobileSubtype_value NetworkConnectionInfo_MobileSubtype_GPRS = 1"
| "NetworkConnectionInfo_MobileSubtype_value NetworkConnectionInfo_MobileSubtype_EDGE = 2"
| "NetworkConnectionInfo_MobileSubtype_value NetworkConnectionInfo_MobileSubtype_UMTS = 3"
| "NetworkConnectionInfo_MobileSubtype_value NetworkConnectionInfo_MobileSubtype_CDMA = 4"
| "NetworkConnectionInfo_MobileSubtype_value NetworkConnectionInfo_MobileSubtype_EVDO_0 = 5"
| "NetworkConnectionInfo_MobileSubtype_value NetworkConnectionInfo_MobileSubtype_EVDO_A = 6"
| "NetworkConnectionInfo_MobileSubtype_value NetworkConnectionInfo_MobileSubtype_RTT = 7"
| "NetworkConnectionInfo_MobileSubtype_value NetworkConnectionInfo_MobileSubtype_HSDPA = 8"
| "NetworkConnectionInfo_MobileSubtype_value NetworkConnectionInfo_MobileSubtype_HSUPA = 9"
| "NetworkConnectionInfo_MobileSubtype_value NetworkConnectionInfo_MobileSubtype_HSPA = 10"
| "NetworkConnectionInfo_MobileSubtype_value NetworkConnectionInfo_MobileSubtype_IDEN = 11"
| "NetworkConnectionInfo_MobileSubtype_value NetworkConnectionInfo_MobileSubtype_EVDO_B = 12"
| "NetworkConnectionInfo_MobileSubtype_value NetworkConnectionInfo_MobileSubtype_LTE = 13"
| "NetworkConnectionInfo_MobileSubtype_value NetworkConnectionInfo_MobileSubtype_EHRPD = 14"
| "NetworkConnectionInfo_MobileSubtype_value NetworkConnectionInfo_MobileSubtype_HSPAP = 15"
| "NetworkConnectionInfo_MobileSubtype_value NetworkConnectionInfo_MobileSubtype_GSM = 16"
| "NetworkConnectionInfo_MobileSubtype_value NetworkConnectionInfo_MobileSubtype_TD_SCDMA = 17"
| "NetworkConnectionInfo_MobileSubtype_value NetworkConnectionInfo_MobileSubtype_IWLAN = 18"
| "NetworkConnectionInfo_MobileSubtype_value NetworkConnectionInfo_MobileSubtype_LTE_CA = 19"
| "NetworkConnectionInfo_MobileSubtype_value NetworkConnectionInfo_MobileSubtype_COMBINED = 100"

definition NetworkConnectionInfo_MobileSubtype_MIN :: NetworkConnectionInfo_MobileSubtype where
  "NetworkConnectionInfo_MobileSubtype_MIN = NetworkConnectionInfo_MobileSubtype_UNKNOWN_MOBILE_SUBTYPE"

definition NetworkConnectionInfo_MobileSubtype_MAX :: NetworkConnectionInfo_MobileSubtype where
  "NetworkConnectionInfo_MobileSubtype_MAX = NetworkConnectionInfo_MobileSubtype_COMBINED"

definition NetworkConnectionInfo_MobileSubtype_ARRAYSIZE :: int where
  "NetworkConnectionInfo_MobileSubtype_ARRAYSIZE = NetworkConnectionInfo_MobileSubtype_value NetworkConnectionInfo_MobileSubtype_MAX + 1"

datatype ClientInfo_ClientType =
  ClientInfo_ClientType_CLIENT_UNKNOWN
| ClientInfo_ClientType_IOS_FIREBASE

fun ClientInfo_ClientType_value :: "ClientInfo_ClientType \<Rightarrow> int" where
  "ClientInfo_ClientType_value ClientInfo_ClientType_CLIENT_UNKNOWN = 0"
| "ClientInfo_ClientType_value ClientInfo_ClientType_IOS_FIREBASE = 15"

definition ClientInfo_ClientType_MIN :: ClientInfo_ClientType where
  "ClientInfo_ClientType_MIN = ClientInfo_ClientType_CLIENT_UNKNOWN"

definition ClientInfo_ClientType_MAX :: ClientInfo_ClientType where
  "ClientInfo_ClientType_MAX = ClientInfo_ClientType_IOS_FIREBASE"

definition ClientInfo_ClientType_ARRAYSIZE :: int where
  "ClientInfo_ClientType_ARRAYSIZE = ClientInfo_ClientType_value ClientInfo_ClientType_MAX + 1"

datatype QosTierConfiguration_QosTier =
  QosTierConfiguration_QosTier_DEFAULT
| QosTierConfiguration_QosTier_UNMETERED_ONLY
| QosTierConfiguration_QosTier_UNMETERED_OR_DAILY
| QosTierConfiguration_QosTier_FAST_IF_RADIO_AWAKE
| QosTierConfiguration_QosTier_NEVER

fun QosTierConfiguration_QosTier_value :: "QosTierConfiguration_QosTier \<Rightarrow> int" where
  "QosTierConfiguration_QosTier_value QosTierConfiguration_QosTier_DEFAULT = 0"
| "QosTierConfiguration_QosTier_value QosTierConfiguration_QosTier_UNMETERED_ONLY = 1"
| "QosTierConfiguration_QosTier_value QosTierConfiguration_QosTier_UNMETERED_OR_DAILY = 2"
| "QosTierConfiguration_QosTier_value QosTierConfiguration_QosTier_FAST_IF_RADIO_AWAKE = 3"
| "QosTierConfiguration_QosTier_value QosTierConfiguration_QosTier_NEVER = 4"

definition QosTierConfiguration_QosTier_MIN :: QosTierConfiguration_QosTier where
  "QosTierConfiguration_QosTier_MIN = QosTierConfiguration_QosTier_DEFAULT"

definition QosTierConfiguration_QosTier_MAX :: QosTierConfiguration_QosTier where
  "QosTierConfiguration_QosTier_MAX = QosTierConfiguration_QosTier_NEVER"

definition QosTierConfiguration_QosTier_ARRAYSIZE :: int where
  "QosTierConfiguration_QosTier_ARRAYSIZE = QosTierConfiguration_QosTier_value QosTierConfiguration_QosTier_MAX + 1"

section \<open>Structures\<close>

definition IosClientInfo :: ctype where
  "IosClientInfo = CStruct
     [(''os_major_version'', CPtr (sizeof pb_bytes_array_t)),
      (''os_full_version'', CPtr (sizeof pb_bytes_array_t)),
      (''application_build'', CPtr (sizeof pb_bytes_array_t)),
      (''country'', CPtr (sizeof pb_bytes_array_t)),
      (''model'', CPtr (sizeof pb_bytes_array_t)),
      (''language_code'', CPtr (sizeof pb_bytes_array_t)),
      (''application_bundle_id'', CPtr (sizeof pb_bytes_array_t))]"

definition ClientInfo :: ctype where
  "ClientInfo = CStruct
     [(''has_client_type'', CInt 1),
      (''client_type'', CInt 4),
      (''has_ios_client_info'', CInt 1),
      (''ios_client_info'', IosClientInfo)]"

definition NetworkConnectionInfo :: ctype where
  "NetworkConnectionInfo = CStruct
     [(''has_network_type'', CInt 1),
      (''network_type'', CInt 4),
      (''has_mobile_subtype'', CInt 1),
      (''mobile_subtype'', CInt 4)]"

definition LogEvent :: ctype where
  "LogEvent = CStruct
     [(''has_event_time_ms'', CInt 1),
      (''event_time_ms'', CInt 8),
      (''source_extension'', CPtr (sizeof pb_bytes_array_t)),
      (''has_event_code'', CInt 1),
      (''event_code'', CInt 4),
      (''has_timezone_offset_seconds'', CInt 1),
      (''timezone_offset_seconds'', CInt 8),
      (''has_event_uptime_ms'', CInt 1),
      (''event_uptime_ms'', CInt 8),
      (''has_network_connection_info'', CInt 1),
      (''network_connection_info'', NetworkConnectionInfo)]"

definition LogRequest :: ctype where
  "LogRequest = CStruct
     [(''has_client_info'', CInt 1),
      (''client_info'', ClientInfo),
      (''has_log_source'', CInt 1),
      (''log_source'', CInt 4),
      (''log_event_count'', CInt 4),
      (''log_event'', CPtr (sizeof LogEvent)),
      (''has_request_time_ms'', CInt 1),
      (''request_time_ms'', CInt 8),
      (''has_request_uptime_ms'', CInt 1),
      (''request_uptime_ms'', CInt 8),
      (''has_qos_tier'', CInt 1),
      (''qos_tier'', CInt 4)]"

definition BatchedLogRequest :: ctype where
  "BatchedLogRequest = CStruct
     [(''log_request_count'', CInt 4),
      (''log_request'', CPtr (sizeof LogRequest))]"

definition QosTierConfiguration :: ctype where
  "QosTierConfiguration = CStruct
     [(''has_qos_tier'', CInt 1),
      (''qos_tier'', CInt 4),
      (''has_log_source'', CInt 1),
      (''log_source'', CInt 4)]"

definition QosTiersOverride :: ctype where
  "QosTiersOverride = CStruct
     [(''qos_tier_configuration_count'', CInt 4),
      (''qos_tier_configuration'', CPtr (sizeof QosTierConfiguration)),
      (''has_qos_tier_fingerprint'', CInt 1),
      (''qos_tier_fingerprint'', CInt 8)]"

definition LogResponse :: ctype where
  "LogResponse = CStruct
     [(''has_next_request_wait_millis'', CInt 1),
      (''next_request_wait_millis'', CInt 8),
      (''has_qos_tier'', CInt 1),
      (''qos_tier'', QosTiersOverride)]"

section \<open>Default values and descriptor tables\<close>

definition NetworkConnectionInfo_network_type_default :: "u8 list" where
  "NetworkConnectionInfo_network_type_default = le_bytes 4 (unat (word_of_int (NetworkConnectionInfo_NetworkType_value NetworkConnectionInfo_NetworkType_NONE) :: u32))"

definition NetworkConnectionInfo_mobile_subtype_default :: "u8 list" where
  "NetworkConnectionInfo_mobile_subtype_default = le_bytes 4 (unat (word_of_int (NetworkConnectionInfo_MobileSubtype_value NetworkConnectionInfo_MobileSubtype_UNKNOWN_MOBILE_SUBTYPE) :: u32))"

definition LogRequest_qos_tier_default :: "u8 list" where
  "LogRequest_qos_tier_default = le_bytes 4 (unat (word_of_int (QosTierConfiguration_QosTier_value QosTierConfiguration_QosTier_DEFAULT) :: u32))"

definition QosTierConfiguration_log_source_default :: "u8 list" where
  "QosTierConfiguration_log_source_default = le_bytes 4 (unat (0 :: u32))"

definition NetworkConnectionInfo_fields :: "pb_field list" where
  "NetworkConnectionInfo_fields =
     [PB_FIELD 1 ENUM OPTIONAL STATIC FIRST NetworkConnectionInfo ''network_type'' [''network_type''] (PDefault NetworkConnectionInfo_network_type_default),
      PB_FIELD 2 UENUM OPTIONAL STATIC OTHER NetworkConnectionInfo ''mobile_subtype'' [''network_type''] (PDefault NetworkConnectionInfo_mobile_subtype_default)]"

definition LogEvent_fields :: "pb_field list" where
  "LogEvent_fields =
     [PB_FIELD 1 INT64 OPTIONAL STATIC FIRST LogEvent ''event_time_ms'' [''event_time_ms''] PNull,
      PB_FIELD 6 BYTES OPTIONAL POINTER OTHER LogEvent ''source_extension'' [''event_time_ms''] PNull,
      PB_FIELD 11 INT32 OPTIONAL STATIC OTHER LogEvent ''event_code'' [''source_extension''] PNull,
      PB_FIELD 15 SINT64 OPTIONAL STATIC OTHER LogEvent ''timezone_offset_seconds'' [''event_code''] PNull,
      PB_FIELD 17 INT64 OPTIONAL STATIC OTHER LogEvent ''event_uptime_ms'' [''timezone_offset_seconds''] PNull,
      PB_FIELD 23 MESSAGE OPTIONAL STATIC OTHER LogEvent ''network_connection_info'' [''event_uptime_ms''] (PFields NetworkConnectionInfo_fields)]"

definition IosClientInfo_fields :: "pb_field list" where
  "IosClientInfo_fields =
     [PB_FIELD 3 BYTES OPTIONAL POINTER FIRST IosClientInfo ''os_major_version'' [''os_major_version''] PNull,
      PB_FIELD 4 BYTES OPTIONAL POINTER OTHER IosClientInfo ''os_full_version'' [''os_major_version''] PNull,
      PB_FIELD 5 BYTES OPTIONAL POINTER OTHER IosClientInfo ''application_build'' [''os_full_version''] PNull,
      PB_FIELD 6 BYTES OPTIONAL POINTER OTHER IosClientInfo ''country'' [''application_build''] PNull,
      PB_FIELD 7 BYTES OPTIONAL POINTER OTHER IosClientInfo ''model'' [''country''] PNull,
      PB_FIELD 8 BYTES OPTIONAL POINTER OTHER IosClientInfo ''language_code'' [''model''] PNull,
      PB_FIELD 11 BYTES OPTIONAL POINTER OTHER IosClientInfo ''application_bundle_id'' [''language_code''] PNull]"

definition ClientInfo_fields :: "pb_field list" where
  "ClientInfo_fields =
     [PB_FIELD 1 UENUM OPTIONAL STATIC FIRST ClientInfo ''client_type'' [''client_type''] PNull,
      PB_FIELD 4 MESSAGE OPTIONAL STATIC OTHER ClientInfo ''ios_client_info'' [''client_type''] (PFields IosClientInfo_fields)]"

definition LogRequest_fields :: "pb_field list" where
  "LogRequest_fields =
     [PB_FIELD 1 MESSAGE OPTIONAL STATIC FIRST LogRequest ''client_info'' [''client_info''] (PFields ClientInfo_fields),
      PB_FIELD 2 INT32 OPTIONAL STATIC OTHER LogRequest ''log_source'' [''client_info''] PNull,
      PB_FIELD 3 MESSAGE REPEATED POINTER OTHER LogRequest ''log_event'' [''log_source''] (PFields LogEvent_fields),
      PB_FIELD 4 INT64 OPTIONAL STATIC OTHER LogRequest ''request_time_ms'' [''log_event''] PNull,
      PB_FIELD 8 INT64 OPTIONAL STATIC OTHER LogRequest ''request_uptime_ms'' [''request_time_ms''] PNull,
      PB_FIELD 9 UENUM OPTIONAL STATIC OTHER LogRequest ''qos_tier'' [''request_uptime_ms''] (PDefault LogRequest_qos_tier_default)]"

definition BatchedLogRequest_fields :: "pb_field list" where
  "BatchedLogRequest_fields =
     [PB_FIELD 1 MESSAGE REPEATED POINTER FIRST BatchedLogRequest ''log_request'' [''log_request''] (PFields LogRequest_fields)]"

definition QosTierConfiguration_fields :: "pb_field list" where
  "QosTierConfiguration_fields =
     [PB_FIELD 2 UENUM OPTIONAL STATIC FIRST QosTierConfiguration ''qos_tier'' [''qos_tier''] PNull,
      PB_FIELD 3 INT32 OPTIONAL STATIC OTHER QosTierConfiguration ''log_source'' [''qos_tier''] (PDefault QosTierConfiguration_log_source_default)]"

definition QosTiersOverride_fields :: "pb_field list" where
  "QosTiersOverride_fields =
     [PB_FIELD 1 MESSAGE REPEATED POINTER FIRST QosTiersOverride ''qos_tier_configuration'' [''qos_tier_configuration''] (PFields QosTierConfiguration_fields),
      PB_FIELD 2 INT64 OPTIONAL STATIC OTHER QosTiersOverride ''qos_tier_fingerprint'' [''qos_tier_configuration''] PNull]"

definition LogResponse_fields :: "pb_field list" where
  "LogResponse_fields =
     [PB_FIELD 1 INT64 OPTIONAL STATIC FIRST LogResponse ''next_request_wait_millis'' [''next_request_wait_millis''] PNull,
      PB_FIELD 3 MESSAGE OPTIONAL STATIC OTHER LogResponse ''qos_tier'' [''next_request_wait_millis''] (PFields QosTiersOverride_fields)]"

section \<open>Field tags\<close>

definition BatchedLogRequest_log_request_tag :: u32 where "BatchedLogRequest_log_request_tag = 1"
definition IosClientInfo_os_major_version_tag :: u32 where "IosClientInfo_os_major_version_tag = 3"
definition IosClientInfo_os_full_version_tag :: u32 where "IosClientInfo_os_full_version_tag = 4"
definition IosClientInfo_application_build_tag :: u32 where "IosClientInfo_application_build_tag = 5"
definition IosClientInfo_country_tag :: u32 where "IosClientInfo_country_tag = 6"
definition IosClientInfo_model_tag :: u32 where "IosClientInfo_model_tag = 7"
definition IosClientInfo_language_code_tag :: u32 where "IosClientInfo_language_code_tag = 8"
definition IosClientInfo_application_bundle_id_tag :: u32 where "IosClientInfo_application_bundle_id_tag = 11"
definition ClientInfo_client_type_tag :: u32 where "ClientInfo_client_type_tag = 1"
definition ClientInfo_ios_client_info_tag :: u32 where "ClientInfo_ios_client_info_tag = 4"
definition NetworkConnectionInfo_network_type_tag :: u32 where "NetworkConnectionInfo_network_type_tag = 1"
definition NetworkConnectionInfo_mobile_subtype_tag :: u32 where "NetworkConnectionInfo_mobile_subtype_tag = 2"
definition QosTierConfiguration_qos_tier_tag :: u32 where "QosTierConfiguration_qos_tier_tag = 2"
definition QosTierConfiguration_log_source_tag :: u32 where "QosTierConfiguration_log_source_tag = 3"
definition QosTiersOverride_qos_tier_configuration_tag :: u32 where "QosTiersOverride_qos_tier_configuration_tag = 1"
definition QosTiersOverride_qos_tier_fingerprint_tag :: u32 where "QosTiersOverride_qos_tier_fingerprint_tag = 2"
definition LogEvent_event_time_ms_tag :: u32 where "LogEvent_event_time_ms_tag = 1"
definition LogEvent_event_code_tag :: u32 where "LogEvent_event_code_tag = 11"
definition LogEvent_event_uptime_ms_tag :: u32 where "LogEvent_event_uptime_ms_tag = 17"
definition LogEvent_source_extension_tag :: u32 where "LogEvent_source_extension_tag = 6"
definition LogEvent_timezone_offset_seconds_tag :: u32 where "LogEvent_timezone_offset_seconds_tag = 15"
definition LogEvent_network_connection_info_tag :: u32 where "LogEvent_network_connection_info_tag = 23"
definition LogRequest_request_time_ms_tag :: u32 where "LogRequest_request_time_ms_tag = 4"
definition LogRequest_request_uptime_ms_tag :: u32 where "LogRequest_request_uptime_ms_tag = 8"
definition LogRequest_client_info_tag :: u32 where "LogRequest_client_info_tag = 1"
definition LogRequest_log_source_tag :: u32 where "LogRequest_log_source_tag = 2"
definition LogRequest_log_event_tag :: u32 where "LogRequest_log_event_tag = 3"
definition LogRequest_qos_tier_tag :: u32 where "LogRequest_qos_tier_tag = 9"
definition LogResponse_next_request_wait_millis_tag :: u32 where "LogResponse_next_request_wait_millis_tag = 1"
definition LogResponse_qos_tier_tag :: u32 where "LogResponse_qos_tier_tag = 3"

definition NetworkConnectionInfo_size :: nat where "NetworkConnectionInfo_size = 13"
definition QosTierConfiguration_size :: nat where "QosTierConfiguration_size = 13"

end
