(* ===== verification/CoreTables.thy ===== *)
theory CoreTables
  imports CctTables
begin

text \<open>
  The message of Firebase Core Diagnostics, \<open>firebasecore.nanopb.h\<close> and
  \<open>firebasecore.nanopb.c\<close>: enumerations, structure and descriptor table. Names drop the
  prefix \<open>logs_proto_mobilesdk_ios_\<close> of the source.
\<close>

section \<open>Enumerations\<close>

text \<open>An enumeration is a 32-bit integer; its enumerators are the constructors of a datatype, and the function gives their values.\<close>

datatype ICoreConfiguration_ConfigurationType =
  ICoreConfiguration_ConfigurationType_UNKNOWN_CONFIGURATION_TYPE
| ICoreConfiguration_ConfigurationType_CORE
| ICoreConfiguration_ConfigurationType_SDK

fun ICoreConfiguration_ConfigurationType_value :: "ICoreConfiguration_ConfigurationType \<Rightarrow> int" where
  "ICoreConfiguration_ConfigurationType_value ICoreConfiguration_ConfigurationType_UNKNOWN_CONFIGURATION_TYPE = 0"
| "ICoreConfiguration_ConfigurationType_value ICoreConfiguration_ConfigurationType_CORE = 1"
| "ICoreConfiguration_ConfigurationType_value ICoreConfiguration_ConfigurationType_SDK = 2"

definition ICoreConfiguration_ConfigurationType_MIN :: ICoreConfiguration_ConfigurationType where
  "ICoreConfiguration_ConfigurationType_MIN = ICoreConfiguration_ConfigurationType_UNKNOWN_CONFIGURATION_TYPE"

definition ICoreConfiguration_ConfigurationType_MAX :: ICoreConfiguration_ConfigurationType where
  "ICoreConfiguration_ConfigurationType_MAX = ICoreConfiguration_ConfigurationType_SDK"

definition ICoreConfiguration_ConfigurationType_ARRAYSIZE :: int where
  "ICoreConfiguration_ConfigurationType_ARRAYSIZE = ICoreConfiguration_ConfigurationType_value ICoreConfiguration_ConfigurationType_MAX + 1"

datatype ICoreConfiguration_BuildType =
  ICoreConfiguration_BuildType_UNKNOWN_BUILD_TYPE
| ICoreConfiguration_BuildType_INTERNAL
| ICoreConfiguration_BuildType_EAP
| ICoreConfiguration_BuildType_PROD

fun ICoreConfiguration_BuildType_value :: "ICoreConfiguration_BuildType \<Rightarrow> int" where
  "ICoreConfiguration_BuildType_value ICoreConfiguration_BuildType_UNKNOWN_BUILD_TYPE = 0"
| "ICoreConfiguration_BuildType_value ICoreConfiguration_BuildType_INTERNAL = 1"
| "ICoreConfiguration_BuildType_value ICoreConfiguration_BuildType_EAP = 2"
| "ICoreConfiguration_BuildType_value ICoreConfiguration_BuildType_PROD = 3"

definition ICoreConfiguration_BuildType_MIN :: ICoreConfiguration_BuildType where
  "ICoreConfiguration_BuildType_MIN = ICoreConfiguration_BuildType_UNKNOWN_BUILD_TYPE"

definition ICoreConfiguration_BuildType_MAX :: ICoreConfiguration_BuildType where
  "ICoreConfiguration_BuildType_MAX = ICoreConfiguration_BuildType_PROD"

definition ICoreConfiguration_BuildType_ARRAYSIZE :: int where
  "ICoreConfiguration_BuildType_ARRAYSIZE = ICoreConfiguration_BuildType_value ICoreConfiguration_BuildType_MAX + 1"

datatype ICoreConfiguration_ServiceType =
  ICoreConfiguration_ServiceType_UNKNOWN_SDK_SERVICE
| ICoreConfiguration_ServiceType_ICORE
| ICoreConfiguration_ServiceType_ADMOB
| ICoreConfiguration_ServiceType_APP_INVITE
| ICoreConfiguration_ServiceType_SIGN_IN
| ICoreConfiguration_ServiceType_GCM
| ICoreConfiguration_ServiceType_MAPS
| ICoreConfiguration_ServiceType_SCION
| ICoreConfiguration_ServiceType_ANALYTICS
| ICoreConfiguration_ServiceType_APP_INDEXING
| ICoreConfiguration_ServiceType_CONFIG
| ICoreConfiguration_ServiceType_DURABLE_DEEP_LINKS
| ICoreConfiguration_ServiceType_CRASH
| ICoreConfiguration_ServiceType_AUTH
| ICoreConfiguration_ServiceType_DATABASE
| ICoreConfiguration_ServiceType_STORAGE
| ICoreConfiguration_ServiceType_MESSAGING
| ICoreConfiguration_ServiceType_MEASUREMENT
| ICoreConfiguration_ServiceType_REMOTE_CONFIG
| ICoreConfiguration_ServiceType_DYNAMIC_LINKS
| ICoreConfiguration_ServiceType_INVITES
| ICoreConfiguration_ServiceType_AUTH_UI
| ICoreConfiguration_ServiceType_FIRESTORE
| ICoreConfiguration_ServiceType_PERFORMANCE
| ICoreConfiguration_ServiceType_ML_VISION_ON_DEVICE_FACE
| ICoreConfiguration_ServiceType_ML_VISION_ON_DEVICE_BARCODE
| ICoreConfiguration_ServiceType_ML_VISION_ON_DEVICE_TEXT
| ICoreConfiguration_ServiceType_ML_VISION_ON_DEVICE_LABEL
| ICoreConfiguration_ServiceType_ML_MODEL_INTERPRETER
| ICoreConfiguration_ServiceType_IN_APP_MESSAGING
| ICoreConfiguration_ServiceType_FUNCTIONS
| ICoreConfiguration_ServiceType_ML_NATURAL_LANGUAGE
| ICoreConfiguration_ServiceType_ML_VISION_ON_DEVICE_AUTOML
| ICoreConfiguration_ServiceType_ML_VISION_ON_DEVICE_OBJECT_DETECTION

fun ICoreConfiguration_ServiceType_value :: "ICoreConfiguration_ServiceType \<Rightarrow> int" where
  "ICoreConfiguration_ServiceType_value ICoreConfiguration_ServiceType_UNKNOWN_SDK_SERVICE = 0"
| "ICoreConfiguration_ServiceType_value ICoreConfiguration_ServiceType_ICORE = 1"
| "ICoreConfiguration_ServiceType_value ICoreConfiguration_ServiceType_ADMOB = 2"
| "ICoreConfiguration_ServiceType_value ICoreConfiguration_ServiceType_APP_INVITE = 3"
| "ICoreConfiguration_ServiceType_value ICoreConfiguration_ServiceType_SIGN_IN = 5"
| "ICoreConfiguration_ServiceType_value ICoreConfiguration_ServiceType_GCM = 6"
| "ICoreConfiguration_ServiceType_value ICoreConfiguration_ServiceType_MAPS = 7"
| "ICoreConfiguration_ServiceType_value ICoreConfiguration_ServiceType_SCION = 8"
| "ICoreConfiguration_ServiceType_value ICoreConfiguration_ServiceType_ANALYTICS = 9"
| "ICoreConfiguration_ServiceType_value ICoreConfiguration_ServiceType_APP_INDEXING = 10"
| "ICoreConfiguration_ServiceType_value ICoreConfiguration_ServiceType_CONFIG = 11"
| "ICoreConfiguration_ServiceType_value ICoreConfiguration_ServiceType_DURABLE_DEEP_LINKS = 12"
| "ICoreConfiguration_ServiceType_value ICoreConfiguration_ServiceType_CRASH = 13"
| "ICoreConfiguration_ServiceType_value ICoreConfiguration_ServiceType_AUTH = 14"
| "ICoreConfiguration_ServiceType_value ICoreConfiguration_ServiceType_DATABASE = 15"
| "ICoreConfiguration_ServiceType_value ICoreConfiguration_ServiceType_STORAGE = 16"
| "ICoreConfiguration_ServiceType_value ICoreConfiguration_ServiceType_MESSAGING = 17"
| "ICoreConfiguration_ServiceType_value ICoreConfiguration_ServiceType_MEASUREMENT = 18"
| "ICoreConfiguration_ServiceType_value ICoreConfiguration_ServiceType_REMOTE_CONFIG = 19"
| "ICoreConfiguration_ServiceType_value ICoreConfiguration_ServiceType_DYNAMIC_LINKS = 20"
| "ICoreConfiguration_ServiceType_value ICoreConfiguration_ServiceType_INVITES = 21"
| "ICoreConfiguration_ServiceType_value ICoreConfiguration_ServiceType_AUTH_UI = 22"
| "ICoreConfiguration_ServiceType_value ICoreConfiguration_ServiceType_FIRESTORE = 23"
| "ICoreConfiguration_ServiceType_value ICoreConfiguration_ServiceType_PERFORMANCE = 24"
| "ICoreConfiguration_ServiceType_value ICoreConfiguration_ServiceType_ML_VISION_ON_DEVICE_FACE = 26"
| "ICoreConfiguration_ServiceType_value ICoreConfiguration_ServiceType_ML_VISION_ON_DEVICE_BARCODE = 27"
| "ICoreConfiguration_ServiceType_value ICoreConfiguration_ServiceType_ML_VISION_ON_DEVICE_TEXT = 28"
| "ICoreConfiguration_ServiceType_value ICoreConfiguration_ServiceType_ML_VISION_ON_DEVICE_LABEL = 29"
| "ICoreConfiguration_ServiceType_value ICoreConfiguration_ServiceType_ML_MODEL_INTERPRETER = 30"
| "ICoreConfiguration_ServiceType_value ICoreConfiguration_ServiceType_IN_APP_MESSAGING = 31"
| "ICoreConfiguration_ServiceType_value ICoreConfiguration_ServiceType_FUNCTIONS = 32"
| "ICoreConfiguration_ServiceType_value ICoreConfiguration_ServiceType_ML_NATURAL_LANGUAGE = 33"
| "ICoreConfiguration_ServiceType_value ICoreConfiguration_ServiceType_ML_VISION_ON_DEVICE_AUTOML = 34"
| "ICoreConfiguration_ServiceType_value ICoreConfiguration_ServiceType_ML_VISION_ON_DEVICE_OBJECT_DETECTION = 35"

definition ICoreConfiguration_ServiceType_MIN :: ICoreConfiguration_ServiceType where
  "ICoreConfiguration_ServiceType_MIN = ICoreConfiguration_ServiceType_UNKNOWN_SDK_SERVICE"

definition ICoreConfiguration_ServiceType_MAX :: ICoreConfiguration_ServiceType where
  "ICoreConfiguration_ServiceType_MAX = ICoreConfiguration_ServiceType_ML_VISION_ON_DEVICE_OBJECT_DETECTION"

definition ICoreConfiguration_ServiceType_ARRAYSIZE :: int where
  "ICoreConfiguration_ServiceType_ARRAYSIZE = ICoreConfiguration_ServiceType_value ICoreConfiguration_ServiceType_MAX + 1"

datatype ICoreConfiguration_PodName =
  ICoreConfiguration_PodName_UNKNOWN_POD_NAME
| ICoreConfiguration_PodName_GOOGLE
| ICoreConfiguration_PodName_FIREBASE

fun ICoreConfiguration_PodName_value :: "ICoreConfiguration_PodName \<Rightarrow> int" where
  "ICoreConfiguration_PodName_value ICoreConfiguration_PodName_UNKNOWN_POD_NAME = 0"
| "ICoreConfiguration_PodName_value ICoreConfiguration_PodName_GOOGLE = 1"
| "ICoreConfiguration_PodName_value ICoreConfiguration_PodName_FIREBASE = 2"

definition ICoreConfiguration_PodName_MIN :: ICoreConfiguration_PodName where
  "ICoreConfiguration_PodName_MIN = ICoreConfiguration_PodName_UNKNOWN_POD_NAME"

definition ICoreConfiguration_PodName_MAX :: ICoreConfiguration_PodName where
  "ICoreConfiguration_PodName_MAX = ICoreConfiguration_PodName_FIREBASE"

definition ICoreConfiguration_PodName_ARRAYSIZE :: int where
  "ICoreConfiguration_PodName_ARRAYSIZE = ICoreConfiguration_PodName_value ICoreConfiguration_PodName_MAX + 1"

datatype ICoreConfiguration_DeploymentType =
  ICoreConfiguration_DeploymentType_UNKNOWN
| ICoreConfiguration_DeploymentType_COCOAPODS
| ICoreConfiguration_DeploymentType_ZIP_FILE
| ICoreConfiguration_DeploymentType_CARTHAGE
| ICoreConfiguration_DeploymentType_SPM

fun ICoreConfiguration_DeploymentType_value :: "ICoreConfiguration_DeploymentType \<Rightarrow> int" where
  "ICoreConfiguration_DeploymentType_value ICoreConfiguration_DeploymentType_UNKNOWN = 0"
| "ICoreConfiguration_DeploymentType_value ICoreConfiguration_DeploymentType_COCOAPODS = 1"
| "ICoreConfiguration_DeploymentType_value ICoreConfiguration_DeploymentType_ZIP_FILE = 2"
| "ICoreConfiguration_DeploymentType_value ICoreConfiguration_DeploymentType_CARTHAGE = 3"
| "ICoreConfiguration_DeploymentType_value ICoreConfiguration_DeploymentType_SPM = 4"

definition ICoreConfiguration_DeploymentType_MIN :: ICoreConfiguration_DeploymentType where
  "ICoreConfiguration_DeploymentType_MIN = ICoreConfiguration_DeploymentType_UNKNOWN"

definition ICoreConfiguration_DeploymentType_MAX :: ICoreConfiguration_DeploymentType where
  "ICoreConfiguration_DeploymentType_MAX = ICoreConfiguration_DeploymentType_SPM"

definition ICoreConfiguration_DeploymentType_ARRAYSIZE :: int where
  "ICoreConfiguration_DeploymentType_ARRAYSIZE = ICoreConfiguration_DeploymentType_value ICoreConfiguration_DeploymentType_MAX + 1"

section \<open>Structures\<close>

definition ICoreConfiguration :: ctype where
  "ICoreConfiguration = CStruct
     [(''has_configuration_type'', CInt 1),
      (''configuration_type'', CInt 4),
      (''sdk_service_installed_count'', CInt 4),
      (''sdk_service_installed'', CPtr (sizeof (CInt 4))),
      (''device_model'', CPtr (sizeof pb_bytes_array_t)),
      (''app_id'', CPtr (sizeof pb_bytes_array_t)),
      (''bundle_id'', CPtr (sizeof pb_bytes_array_t)),
      (''has_pod_name'', CInt 1),
      (''pod_name'', CInt 4),
      (''icore_version'', CPtr (sizeof pb_bytes_array_t)),
      (''sdk_version'', CPtr (sizeof pb_bytes_array_t)),
      (''has_sdk_name'', CInt 1),
      (''sdk_name'', CInt 4),
      (''has_app_count'', CInt 1),
      (''app_count'', CInt 4),
      (''os_version'', CPtr (sizeof pb_bytes_array_t)),
      (''min_supported_ios_version'', CPtr (sizeof pb_bytes_array_t)),
      (''has_use_default_app'', CInt 1),
      (''use_default_app'', CInt 1),
      (''has_deployed_in_app_store'', CInt 1),
      (''deployed_in_app_store'', CInt 1),
      (''has_dynamic_framework_count'', CInt 1),
      (''dynamic_framework_count'', CInt 4),
      (''apple_framework_version'', CPtr (sizeof pb_bytes_array_t)),
      (''has_using_zip_file'', CInt 1),
      (''using_zip_file'', CInt 1),
      (''has_deployment_type'', CInt 1),
      (''deployment_type'', CInt 4),
      (''platform_info'', CPtr (sizeof pb_bytes_array_t)),
      (''has_swizzling_enabled'', CInt 1),
      (''swizzling_enabled'', CInt 1),
      (''has_using_gdt'', CInt 1),
      (''using_gdt'', CInt 1)]"

section \<open>Default values and descriptor tables\<close>

definition ICoreConfiguration_fields :: "pb_field list" where
  "ICoreConfiguration_fields =
     [PB_FIELD 1 UENUM OPTIONAL STATIC FIRST ICoreConfiguration ''configuration_type'' [''configuration_type''] PNull,
      PB_FIELD 7 UENUM REPEATED POINTER OTHER ICoreConfiguration ''sdk_service_installed'' [''configuration_type''] PNull,
      PB_FIELD 9 BYTES OPTIONAL POINTER OTHER ICoreConfiguration ''device_model'' [''sdk_service_installed''] PNull,
      PB_FIELD 10 BYTES OPTIONAL POINTER OTHER ICoreConfiguration ''app_id'' [''device_model''] PNull,
      PB_FIELD 12 BYTES OPTIONAL POINTER OTHER ICoreConfiguration ''bundle_id'' [''app_id''] PNull,
      PB_FIELD 16 UENUM OPTIONAL STATIC OTHER ICoreConfiguration ''pod_name'' [''bundle_id''] PNull,
      PB_FIELD 18 BYTES OPTIONAL POINTER OTHER ICoreConfiguration ''icore_version'' [''pod_name''] PNull,
      PB_FIELD 19 BYTES OPTIONAL POINTER OTHER ICoreConfiguration ''sdk_version'' [''icore_version''] PNull,
      PB_FIELD 20 UENUM OPTIONAL STATIC OTHER ICoreConfiguration ''sdk_name'' [''sdk_version''] PNull,
      PB_FIELD 21 INT32 OPTIONAL STATIC OTHER ICoreConfiguration ''app_count'' [''sdk_name''] PNull,
      PB_FIELD 22 BYTES OPTIONAL POINTER OTHER ICoreConfiguration ''os_version'' [''app_count''] PNull,
      PB_FIELD 24 BYTES OPTIONAL POINTER OTHER ICoreConfiguration ''min_supported_ios_version'' [''os_version''] PNull,
      PB_FIELD 25 BOOL OPTIONAL STATIC OTHER ICoreConfiguration ''use_default_app'' [''min_supported_ios_version''] PNull,
      PB_FIELD 26 BOOL OPTIONAL STATIC OTHER ICoreConfiguration ''deployed_in_app_store'' [''use_default_app''] PNull,
      PB_FIELD 27 INT32 OPTIONAL STATIC OTHER ICoreConfiguration ''dynamic_framework_count'' [''deployed_in_app_store''] PNull,
      PB_FIELD 28 BYTES OPTIONAL POINTER OTHER ICoreConfiguration ''apple_framework_version'' [''dynamic_framework_count''] PNull,
      PB_FIELD 29 BOOL OPTIONAL STATIC OTHER ICoreConfiguration ''using_zip_file'' [''apple_framework_version''] PNull,
      PB_FIELD 30 UENUM OPTIONAL STATIC OTHER ICoreConfiguration ''deployment_type'' [''using_zip_file''] PNull,
      PB_FIELD 31 BYTES OPTIONAL POINTER OTHER ICoreConfiguration ''platform_info'' [''deployment_type''] PNull,
      PB_FIELD 33 BOOL OPTIONAL STATIC OTHER ICoreConfiguration ''swizzling_enabled'' [''platform_info''] PNull,
      PB_FIELD 36 BOOL OPTIONAL STATIC OTHER ICoreConfiguration ''using_gdt'' [''swizzling_enabled''] PNull]"

section \<open>Field tags\<close>

definition ICoreConfiguration_pod_name_tag :: u32 where "ICoreConfiguration_pod_name_tag = 16"
definition ICoreConfiguration_configuration_type_tag :: u32 where "ICoreConfiguration_configuration_type_tag = 1"
definition ICoreConfiguration_icore_version_tag :: u32 where "ICoreConfiguration_icore_version_tag = 18"
definition ICoreConfiguration_sdk_version_tag :: u32 where "ICoreConfiguration_sdk_version_tag = 19"
definition ICoreConfiguration_sdk_service_installed_tag :: u32 where "ICoreConfiguration_sdk_service_installed_tag = 7"
definition ICoreConfiguration_sdk_name_tag :: u32 where "ICoreConfiguration_sdk_name_tag = 20"
definition ICoreConfiguration_device_model_tag :: u32 where "ICoreConfiguration_device_model_tag = 9"
definition ICoreConfiguration_os_version_tag :: u32 where "ICoreConfiguration_os_version_tag = 22"
definition ICoreConfiguration_app_id_tag :: u32 where "ICoreConfiguration_app_id_tag = 10"
definition ICoreConfiguration_bundle_id_tag :: u32 where "ICoreConfiguration_bundle_id_tag = 12"
definition ICoreConfiguration_min_supported_ios_version_tag :: u32 where "ICoreConfiguration_min_supported_ios_version_tag = 24"
definition ICoreConfiguration_use_default_app_tag :: u32 where "ICoreConfiguration_use_default_app_tag = 25"
definition ICoreConfiguration_app_count_tag :: u32 where "ICoreConfiguration_app_count_tag = 21"
definition ICoreConfiguration_deployed_in_app_store_tag :: u32 where "ICoreConfiguration_deployed_in_app_store_tag = 26"
definition ICoreConfiguration_dynamic_framework_count_tag :: u32 where "ICoreConfiguration_dynamic_framework_count_tag = 27"
definition ICoreConfiguration_apple_framework_version_tag :: u32 where "ICoreConfiguration_apple_framework_version_tag = 28"
definition ICoreConfiguration_using_zip_file_tag :: u32 where "ICoreConfiguration_using_zip_file_tag = 29"
definition ICoreConfiguration_deployment_type_tag :: u32 where "ICoreConfiguration_deployment_type_tag = 30"
definition ICoreConfiguration_platform_info_tag :: u32 where "ICoreConfiguration_platform_info_tag = 31"
definition ICoreConfiguration_swizzling_enabled_tag :: u32 where "ICoreConfiguration_swizzling_enabled_tag = 33"
definition ICoreConfiguration_using_gdt_tag :: u32 where "ICoreConfiguration_using_gdt_tag = 36"


end
