(* ===== verification/TableLayouts.thy ===== *)
theory TableLayouts
  imports CctTables CoreTables
begin

text \<open>
  What the generated descriptor tables say of the generated structures: with the rules of
  \<open>PbLayout\<close> every row of a table of \<open>cct.nanopb.c\<close> and \<open>firebasecore.nanopb.c\<close> leads the iterator
  to the member of the structure it names, the count or the flag of that member included, and has
  the tag the header gives to the field.
\<close>

section \<open>What a table should say\<close>

definition size_name :: "pb_member \<Rightarrow> string" where
  "size_name m = (case size_member m of None \<Rightarrow> m_name m | Some c \<Rightarrow> c)"

definition table_describes :: "pb_field list \<Rightarrow> ctype \<Rightarrow> pb_member list \<Rightarrow> bool" where
  "table_describes fs st ms \<longleftrightarrow>
     map tag fs = map m_tag ms \<and>
     map (field_offset fs) [0..<length fs] = map (\<lambda>m. offsetof st [m_name m]) ms \<and>
     map (size_position fs) [0..<length fs] = map (\<lambda>m. int (offsetof st [size_name m])) ms"

lemma row_tag: "member_ok st m \<Longrightarrow> tag (row st p prev m) = m_tag m"
  by (cases "m_rules m"; cases "m_alloc m")
    (simp_all add: row_def PB_FIELD_def PB_RULES_def pb_rule_defs member_ok_def)

lemma pb_table_describes:
  assumes "list_all (member_ok st) ms" and "members_follow st ms"
  shows "table_describes (pb_table st ms) st ms"
proof -
  have "map tag (pb_table st ms) = map m_tag ms"
    using assms(1) by (intro nth_equalityI) (auto simp: pb_table_nth row_tag list_all_length)
  moreover have "map (field_offset (pb_table st ms)) [0..<length ms] = map (\<lambda>m. offsetof st [m_name m]) ms"
    using pb_table_offset [OF assms] by (intro nth_equalityI) simp_all
  moreover have "map (size_position (pb_table st ms)) [0..<length ms] =
      map (\<lambda>m. int (offsetof st [size_name m])) ms"
    using pb_table_size_position [OF assms] by (intro nth_equalityI) (simp_all add: size_name_def)
  ultimately show ?thesis by (simp add: table_describes_def)
qed

text \<open>
  Evaluation of the offsets: one member at a time, the members not yet reached left alone.
\<close>

lemma member_offset_step [simp]:
  "member_offset ((n, t) # ms) m end =
     (if n = m then align_up (alignof t) end else member_offset ms m (align_up (alignof t) end + sizeof t))"
  by (simp add: Let_def)

declare member_offset.simps(2) [simp del]

lemma member_type_step: "member_type ((n, t) # ms) m = (if n = m then t else member_type ms m)"
  by (simp add: member_type_def)

lemma layout_congs:
  "end = end' \<Longrightarrow> member_offset ms m end = member_offset ms m end'"
  "member_type ms m = member_type ms m"
  "offsetof t p = offsetof t p" "typeof t p = typeof t p"
  by simp_all

lemmas layout_eval = member_type_step align_up_def member_ok_def pb_membersize_def

section \<open>The members of the structures, with the tags of the headers\<close>

definition NetworkConnectionInfo_members :: "pb_member list" where
  "NetworkConnectionInfo_members =
     [\<lparr>m_tag = NetworkConnectionInfo_network_type_tag, m_type = ENUM, m_rules = OPTIONAL,
        m_alloc = STATIC, m_name = ''network_type'', m_ptr = PDefault NetworkConnectionInfo_network_type_default\<rparr>,
      \<lparr>m_tag = NetworkConnectionInfo_mobile_subtype_tag, m_type = UENUM, m_rules = OPTIONAL,
        m_alloc = STATIC, m_name = ''mobile_subtype'', m_ptr = PDefault NetworkConnectionInfo_mobile_subtype_default\<rparr>]"

definition LogEvent_members :: "pb_member list" where
  "LogEvent_members =
     [\<lparr>m_tag = LogEvent_event_time_ms_tag, m_type = INT64, m_rules = OPTIONAL,
        m_alloc = STATIC, m_name = ''event_time_ms'', m_ptr = PNull\<rparr>,
      \<lparr>m_tag = LogEvent_source_extension_tag, m_type = BYTES, m_rules = OPTIONAL,
        m_alloc = POINTER, m_name = ''source_extension'', m_ptr = PNull\<rparr>,
      \<lparr>m_tag = LogEvent_event_code_tag, m_type = INT32, m_rules = OPTIONAL,
        m_alloc = STATIC, m_name = ''event_code'', m_ptr = PNull\<rparr>,
      \<lparr>m_tag = LogEvent_timezone_offset_seconds_tag, m_type = SINT64, m_rules = OPTIONAL,
        m_alloc = STATIC, m_name = ''timezone_offset_seconds'', m_ptr = PNull\<rparr>,
      \<lparr>m_tag = LogEvent_event_uptime_ms_tag, m_type = INT64, m_rules = OPTIONAL,
        m_alloc = STATIC, m_name = ''event_uptime_ms'', m_ptr = PNull\<rparr>,
      \<lparr>m_tag = LogEvent_network_connection_info_tag, m_type = MESSAGE, m_rules = OPTIONAL,
        m_alloc = STATIC, m_name = ''network_connection_info'', m_ptr = PFields NetworkConnectionInfo_fields\<rparr>]"

definition IosClientInfo_members :: "pb_member list" where
  "IosClientInfo_members =
     [\<lparr>m_tag = IosClientInfo_os_major_version_tag, m_type = BYTES, m_rules = OPTIONAL,
        m_alloc = POINTER, m_name = ''os_major_version'', m_ptr = PNull\<rparr>,
      \<lparr>m_tag = IosClientInfo_os_full_version_tag, m_type = BYTES, m_rules = OPTIONAL,
        m_alloc = POINTER, m_name = ''os_full_version'', m_ptr = PNull\<rparr>,
      \<lparr>m_tag = IosClientInfo_application_build_tag, m_type = BYTES, m_rules = OPTIONAL,
        m_alloc = POINTER, m_name = ''application_build'', m_ptr = PNull\<rparr>,
      \<lparr>m_tag = IosClientInfo_country_tag, m_type = BYTES, m_rules = OPTIONAL,
        m_alloc = POINTER, m_name = ''country'', m_ptr = PNull\<rparr>,
      \<lparr>m_tag = IosClientInfo_model_tag, m_type = BYTES, m_rules = OPTIONAL,
        m_alloc = POINTER, m_name = ''model'', m_ptr = PNull\<rparr>,
      \<lparr>m_tag = IosClientInfo_language_code_tag, m_type = BYTES, m_rules = OPTIONAL,
        m_alloc = POINTER, m_name = ''language_code'', m_ptr = PNull\<rparr>,
      \<lparr>m_tag = IosClientInfo_application_bundle_id_tag, m_type = BYTES, m_rules = OPTIONAL,
        m_alloc = POINTER, m_name = ''application_bundle_id'', m_ptr = PNull\<rparr>]"

definition ClientInfo_members :: "pb_member list" where
  "ClientInfo_members =
     [\<lparr>m_tag = ClientInfo_client_type_tag, m_type = UENUM, m_rules = OPTIONAL,
        m_alloc = STATIC, m_name = ''client_type'', m_ptr = PNull\<rparr>,
      \<lparr>m_tag = ClientInfo_ios_client_info_tag, m_type = MESSAGE, m_rules = OPTIONAL,
        m_alloc = STATIC, m_name = ''ios_client_info'', m_ptr = PFields IosClientInfo_fields\<rparr>]"

definition LogRequest_members :: "pb_member list" where
  "LogRequest_members =
     [\<lparr>m_tag = LogRequest_client_info_tag, m_type = MESSAGE, m_rules = OPTIONAL,
        m_alloc = STATIC, m_name = ''client_info'', m_ptr = PFields ClientInfo_fields\<rparr>,
      \<lparr>m_tag = LogRequest_log_source_tag, m_type = INT32, m_rules = OPTIONAL,
        m_alloc = STATIC, m_name = ''log_source'', m_ptr = PNull\<rparr>,
      \<lparr>m_tag = LogRequest_log_event_tag, m_type = MESSAGE, m_rules = REPEATED,
        m_alloc = POINTER, m_name = ''log_event'', m_ptr = PFields LogEvent_fields\<rparr>,
      \<lparr>m_tag = LogRequest_request_time_ms_tag, m_type = INT64, m_rules = OPTIONAL,
        m_alloc = STATIC, m_name = ''request_time_ms'', m_ptr = PNull\<rparr>,
      \<lparr>m_tag = LogRequest_request_uptime_ms_tag, m_type = INT64, m_rules = OPTIONAL,
        m_alloc = STATIC, m_name = ''request_uptime_ms'', m_ptr = PNull\<rparr>,
      \<lparr>m_tag = LogRequest_qos_tier_tag, m_type = UENUM, m_rules = OPTIONAL,
        m_alloc = STATIC, m_name = ''qos_tier'', m_ptr = PDefault LogRequest_qos_tier_default\<rparr>]"

definition BatchedLogRequest_members :: "pb_member list" where
  "BatchedLogRequest_members =
     [\<lparr>m_tag = BatchedLogRequest_log_request_tag, m_type = MESSAGE, m_rules = REPEATED,
        m_alloc = POINTER, m_name = ''log_request'', m_ptr = PFields LogRequest_fields\<rparr>]"

definition QosTierConfiguration_members :: "pb_member list" where
  "QosTierConfiguration_members =
     [\<lparr>m_tag = QosTierConfiguration_qos_tier_tag, m_type = UENUM, m_rules = OPTIONAL,
        m_alloc = STATIC, m_name = ''qos_tier'', m_ptr = PNull\<rparr>,
      \<lparr>m_tag = QosTierConfiguration_log_source_tag, m_type = INT32, m_rules = OPTIONAL,
        m_alloc = STATIC, m_name = ''log_source'', m_ptr = PDefault QosTierConfiguration_log_source_default\<rparr>]"

definition QosTiersOverride_members :: "pb_member list" where
  "QosTiersOverride_members =
     [\<lparr>m_tag = QosTiersOverride_qos_tier_configuration_tag, m_type = MESSAGE, m_rules = REPEATED,
        m_alloc = POINTER, m_name = ''qos_tier_configuration'', m_ptr = PFields QosTierConfiguration_fields\<rparr>,
      \<lparr>m_tag = QosTiersOverride_qos_tier_fingerprint_tag, m_type = INT64, m_rules = OPTIONAL,
        m_alloc = STATIC, m_name = ''qos_tier_fingerprint'', m_ptr = PNull\<rparr>]"

definition LogResponse_members :: "pb_member list" where
  "LogResponse_members =
     [\<lparr>m_tag = LogResponse_next_request_wait_millis_tag, m_type = INT64, m_rules = OPTIONAL,
        m_alloc = STATIC, m_name = ''next_request_wait_millis'', m_ptr = PNull\<rparr>,
      \<lparr>m_tag = LogResponse_qos_tier_tag, m_type = MESSAGE, m_rules = OPTIONAL,
        m_alloc = STATIC, m_name = ''qos_tier'', m_ptr = PFields QosTiersOverride_fields\<rparr>]"

definition ICoreConfiguration_members :: "pb_member list" where
  "ICoreConfiguration_members =
     [\<lparr>m_tag = ICoreConfiguration_configuration_type_tag, m_type = UENUM, m_rules = OPTIONAL,
        m_alloc = STATIC, m_name = ''configuration_type'', m_ptr = PNull\<rparr>,
      \<lparr>m_tag = ICoreConfiguration_sdk_service_installed_tag, m_type = UENUM, m_rules = REPEATED,
        m_alloc = POINTER, m_name = ''sdk_service_installed'', m_ptr = PNull\<rparr>,
      \<lparr>m_tag = ICoreConfiguration_device_model_tag, m_type = BYTES, m_rules = OPTIONAL,
        m_alloc = POINTER, m_name = ''device_model'', m_ptr = PNull\<rparr>,
      \<lparr>m_tag = ICoreConfiguration_app_id_tag, m_type = BYTES, m_rules = OPTIONAL,
        m_alloc = POINTER, m_name = ''app_id'', m_ptr = PNull\<rparr>,
      \<lparr>m_tag = ICoreConfiguration_bundle_id_tag, m_type = BYTES, m_rules = OPTIONAL,
        m_alloc = POINTER, m_name = ''bundle_id'', m_ptr = PNull\<rparr>,
      \<lparr>m_tag = ICoreConfiguration_pod_name_tag, m_type = UENUM, m_rules = OPTIONAL,
        m_alloc = STATIC, m_name = ''pod_name'', m_ptr = PNull\<rparr>,
      \<lparr>m_tag = ICoreConfiguration_icore_version_tag, m_type = BYTES, m_rules = OPTIONAL,
        m_alloc = POINTER, m_name = ''icore_version'', m_ptr = PNull\<rparr>,
      \<lparr>m_tag = ICoreConfiguration_sdk_version_tag, m_type = BYTES, m_rules = OPTIONAL,
        m_alloc = POINTER, m_name = ''sdk_version'', m_ptr = PNull\<rparr>,
      \<lparr>m_tag = ICoreConfiguration_sdk_name_tag, m_type = UENUM, m_rules = OPTIONAL,
        m_alloc = STATIC, m_name = ''sdk_name'', m_ptr = PNull\<rparr>,
      \<lparr>m_tag = ICoreConfiguration_app_count_tag, m_type = INT32, m_rules = OPTIONAL,
        m_alloc = STATIC, m_name = ''app_count'', m_ptr = PNull\<rparr>,
      \<lparr>m_tag = ICoreConfiguration_os_version_tag, m_type = BYTES, m_rules = OPTIONAL,
        m_alloc = POINTER, m_name = ''os_version'', m_ptr = PNull\<rparr>,
      \<lparr>m_tag = ICoreConfiguration_min_supported_ios_version_tag, m_type = BYTES, m_rules = OPTIONAL,
        m_alloc = POINTER, m_name = ''min_supported_ios_version'', m_ptr = PNull\<rparr>,
      \<lparr>m_tag = ICoreConfiguration_use_default_app_tag, m_type = BOOL, m_rules = OPTIONAL,
        m_alloc = STATIC, m_name = ''use_default_app'', m_ptr = PNull\<rparr>,
      \<lparr>m_tag = ICoreConfiguration_deployed_in_app_store_tag, m_type = BOOL, m_rules = OPTIONAL,
        m_alloc = STATIC, m_name = ''deployed_in_app_store'', m_ptr = PNull\<rparr>,
      \<lparr>m_tag = ICoreConfiguration_dynamic_framework_count_tag, m_type = INT32, m_rules = OPTIONAL,
        m_alloc = STATIC, m_name = ''dynamic_framework_count'', m_ptr = PNull\<rparr>,
      \<lparr>m_tag = ICoreConfiguration_apple_framework_version_tag, m_type = BYTES, m_rules = OPTIONAL,
        m_alloc = POINTER, m_name = ''apple_framework_version'', m_ptr = PNull\<rparr>,
      \<lparr>m_tag = ICoreConfiguration_using_zip_file_tag, m_type = BOOL, m_rules = OPTIONAL,
        m_alloc = STATIC, m_name = ''using_zip_file'', m_ptr = PNull\<rparr>,
      \<lparr>m_tag = ICoreConfiguration_deployment_type_tag, m_type = UENUM, m_rules = OPTIONAL,
        m_alloc = STATIC, m_name = ''deployment_type'', m_ptr = PNull\<rparr>,
      \<lparr>m_tag = ICoreConfiguration_platform_info_tag, m_type = BYTES, m_rules = OPTIONAL,
        m_alloc = POINTER, m_name = ''platform_info'', m_ptr = PNull\<rparr>,
      \<lparr>m_tag = ICoreConfiguration_swizzling_enabled_tag, m_type = BOOL, m_rules = OPTIONAL,
        m_alloc = STATIC, m_name = ''swizzling_enabled'', m_ptr = PNull\<rparr>,
      \<lparr>m_tag = ICoreConfiguration_using_gdt_tag, m_type = BOOL, m_rules = OPTIONAL,
        m_alloc = STATIC, m_name = ''using_gdt'', m_ptr = PNull\<rparr>]"

section \<open>The layout of the structures\<close>

text \<open>
  Sizes and alignments of the structures that are members of others.
\<close>

lemma NetworkConnectionInfo_layout: "sizeof NetworkConnectionInfo = 16" "alignof NetworkConnectionInfo = 4"
  unfolding NetworkConnectionInfo_def by (simp_all add: layout_eval cong: layout_congs)

lemma QosTierConfiguration_layout: "sizeof QosTierConfiguration = 16" "alignof QosTierConfiguration = 4"
  unfolding QosTierConfiguration_def by (simp_all add: layout_eval cong: layout_congs)

lemma IosClientInfo_layout: "sizeof IosClientInfo = 56" "alignof IosClientInfo = 8"
  unfolding IosClientInfo_def by (simp_all add: layout_eval cong: layout_congs)

lemma ClientInfo_layout: "sizeof ClientInfo = 72" "alignof ClientInfo = 8"
  unfolding ClientInfo_def by (simp_all add: IosClientInfo_layout layout_eval cong: layout_congs)

lemma QosTiersOverride_layout: "sizeof QosTiersOverride = 32" "alignof QosTiersOverride = 8"
  unfolding QosTiersOverride_def by (simp_all add: layout_eval cong: layout_congs)

lemma NetworkConnectionInfo_members: "NetworkConnectionInfo_fields = pb_table NetworkConnectionInfo NetworkConnectionInfo_members"
  by (simp add: NetworkConnectionInfo_fields_def NetworkConnectionInfo_members_def
    NetworkConnectionInfo_network_type_tag_def
    NetworkConnectionInfo_mobile_subtype_tag_def)

lemma NetworkConnectionInfo_members_ok:
  "list_all (member_ok NetworkConnectionInfo) NetworkConnectionInfo_members" "members_follow NetworkConnectionInfo NetworkConnectionInfo_members"
  unfolding NetworkConnectionInfo_members_def NetworkConnectionInfo_def
  by (simp_all add: layout_eval NetworkConnectionInfo_layout ClientInfo_layout IosClientInfo_layout QosTiersOverride_layout cong: layout_congs)

lemma NetworkConnectionInfo_described: "table_describes NetworkConnectionInfo_fields NetworkConnectionInfo NetworkConnectionInfo_members"
  unfolding NetworkConnectionInfo_members by (rule pb_table_describes) (rule NetworkConnectionInfo_members_ok)+

lemma LogEvent_members: "LogEvent_fields = pb_table LogEvent LogEvent_members"
  by (simp add: LogEvent_fields_def LogEvent_members_def LogEvent_event_time_ms_tag_def
    LogEvent_source_extension_tag_def LogEvent_event_code_tag_def
    LogEvent_timezone_offset_seconds_tag_def LogEvent_event_uptime_ms_tag_def
    LogEvent_network_connection_info_tag_def)

lemma LogEvent_members_ok:
  "list_all (member_ok LogEvent) LogEvent_members" "members_follow LogEvent LogEvent_members"
  unfolding LogEvent_members_def LogEvent_def
  by (simp_all add: layout_eval NetworkConnectionInfo_layout ClientInfo_layout IosClientInfo_layout QosTiersOverride_layout cong: layout_congs)

lemma LogEvent_described: "table_describes LogEvent_fields LogEvent LogEvent_members"
  unfolding LogEvent_members by (rule pb_table_describes) (rule LogEvent_members_ok)+

lemma IosClientInfo_members: "IosClientInfo_fields = pb_table IosClientInfo IosClientInfo_members"
  by (simp add: IosClientInfo_fields_def IosClientInfo_members_def IosClientInfo_os_major_version_tag_def
    IosClientInfo_os_full_version_tag_def IosClientInfo_application_build_tag_def
    IosClientInfo_country_tag_def IosClientInfo_model_tag_def
    IosClientInfo_language_code_tag_def IosClientInfo_application_bundle_id_tag_def)

lemma IosClientInfo_members_ok:
  "list_all (member_ok IosClientInfo) IosClientInfo_members" "members_follow IosClientInfo IosClientInfo_members"
  unfolding IosClientInfo_members_def IosClientInfo_def
  by (simp_all add: layout_eval NetworkConnectionInfo_layout ClientInfo_layout IosClientInfo_layout QosTiersOverride_layout cong: layout_congs)

lemma IosClientInfo_described: "table_describes IosClientInfo_fields IosClientInfo IosClientInfo_members"
  unfolding IosClientInfo_members by (rule pb_table_describes) (rule IosClientInfo_members_ok)+

lemma ClientInfo_members: "ClientInfo_fields = pb_table ClientInfo ClientInfo_members"
  by (simp add: ClientInfo_fields_def ClientInfo_members_def ClientInfo_client_type_tag_def
    ClientInfo_ios_client_info_tag_def)

lemma ClientInfo_members_ok:
  "list_all (member_ok ClientInfo) ClientInfo_members" "members_follow ClientInfo ClientInfo_members"
  unfolding ClientInfo_members_def ClientInfo_def
  by (simp_all add: layout_eval NetworkConnectionInfo_layout ClientInfo_layout IosClientInfo_layout QosTiersOverride_layout cong: layout_congs)

lemma ClientInfo_described: "table_describes ClientInfo_fields ClientInfo ClientInfo_members"
  unfolding ClientInfo_members by (rule pb_table_describes) (rule ClientInfo_members_ok)+

lemma LogRequest_members: "LogRequest_fields = pb_table LogRequest LogRequest_members"
  by (simp add: LogRequest_fields_def LogRequest_members_def LogRequest_client_info_tag_def
    LogRequest_log_source_tag_def LogRequest_log_event_tag_def
    LogRequest_request_time_ms_tag_def LogRequest_request_uptime_ms_tag_def
    LogRequest_qos_tier_tag_def)

lemma LogRequest_members_ok:
  "list_all (member_ok LogRequest) LogRequest_members" "members_follow LogRequest LogRequest_members"
  unfolding LogRequest_members_def LogRequest_def
  by (simp_all add: layout_eval NetworkConnectionInfo_layout ClientInfo_layout IosClientInfo_layout QosTiersOverride_layout cong: layout_congs)

lemma LogRequest_described: "table_describes LogRequest_fields LogRequest LogRequest_members"
  unfolding LogRequest_members by (rule pb_table_describes) (rule LogRequest_members_ok)+

lemma BatchedLogRequest_members: "BatchedLogRequest_fields = pb_table BatchedLogRequest BatchedLogRequest_members"
  by (simp add: BatchedLogRequest_fields_def BatchedLogRequest_members_def
    BatchedLogRequest_log_request_tag_def)

lemma BatchedLogRequest_members_ok:
  "list_all (member_ok BatchedLogRequest) BatchedLogRequest_members" "members_follow BatchedLogRequest BatchedLogRequest_members"
  unfolding BatchedLogRequest_members_def BatchedLogRequest_def
  by (simp_all add: layout_eval NetworkConnectionInfo_layout ClientInfo_layout IosClientInfo_layout QosTiersOverride_layout cong: layout_congs)

lemma BatchedLogRequest_described: "table_describes BatchedLogRequest_fields BatchedLogRequest BatchedLogRequest_members"
  unfolding BatchedLogRequest_members by (rule pb_table_describes) (rule BatchedLogRequest_members_ok)+

lemma QosTierConfiguration_members: "QosTierConfiguration_fields = pb_table QosTierConfiguration QosTierConfiguration_members"
  by (simp add: QosTierConfiguration_fields_def QosTierConfiguration_members_def
    QosTierConfiguration_qos_tier_tag_def QosTierConfiguration_log_source_tag_def)

lemma QosTierConfiguration_members_ok:
  "list_all (member_ok QosTierConfiguration) QosTierConfiguration_members" "members_follow QosTierConfiguration QosTierConfiguration_members"
  unfolding QosTierConfiguration_members_def QosTierConfiguration_def
  by (simp_all add: layout_eval NetworkConnectionInfo_layout ClientInfo_layout IosClientInfo_layout QosTiersOverride_layout cong: layout_congs)

lemma QosTierConfiguration_described: "table_describes QosTierConfiguration_fields QosTierConfiguration QosTierConfiguration_members"
  unfolding QosTierConfiguration_members by (rule pb_table_describes) (rule QosTierConfiguration_members_ok)+

lemma QosTiersOverride_members: "QosTiersOverride_fields = pb_table QosTiersOverride QosTiersOverride_members"
  by (simp add: QosTiersOverride_fields_def QosTiersOverride_members_def
    QosTiersOverride_qos_tier_configuration_tag_def
    QosTiersOverride_qos_tier_fingerprint_tag_def)

lemma QosTiersOverride_members_ok:
  "list_all (member_ok QosTiersOverride) QosTiersOverride_members" "members_follow QosTiersOverride QosTiersOverride_members"
  unfolding QosTiersOverride_members_def QosTiersOverride_def
  by (simp_all add: layout_eval NetworkConnectionInfo_layout ClientInfo_layout IosClientInfo_layout QosTiersOverride_layout cong: layout_congs)

lemma QosTiersOverride_described: "table_describes QosTiersOverride_fields QosTiersOverride QosTiersOverride_members"
  unfolding QosTiersOverride_members by (rule pb_table_describes) (rule QosTiersOverride_members_ok)+

lemma LogResponse_members: "LogResponse_fields = pb_table LogResponse LogResponse_members"
  by (simp add: LogResponse_fields_def LogResponse_members_def
    LogResponse_next_request_wait_millis_tag_def LogResponse_qos_tier_tag_def)

lemma LogResponse_members_ok:
  "list_all (member_ok LogResponse) LogResponse_members" "members_follow LogResponse LogResponse_members"
  unfolding LogResponse_members_def LogResponse_def
  by (simp_all add: layout_eval NetworkConnectionInfo_layout ClientInfo_layout IosClientInfo_layout QosTiersOverride_layout cong: layout_congs)

lemma LogResponse_described: "table_describes LogResponse_fields LogResponse LogResponse_members"
  unfolding LogResponse_members by (rule pb_table_describes) (rule LogResponse_members_ok)+

lemma ICoreConfiguration_members: "ICoreConfiguration_fields = pb_table ICoreConfiguration ICoreConfiguration_members"
  by (simp add: ICoreConfiguration_fields_def ICoreConfiguration_members_def
    ICoreConfiguration_configuration_type_tag_def
    ICoreConfiguration_sdk_service_installed_tag_def
    ICoreConfiguration_device_model_tag_def ICoreConfiguration_app_id_tag_def
    ICoreConfiguration_bundle_id_tag_def ICoreConfiguration_pod_name_tag_def
    ICoreConfiguration_icore_version_tag_def ICoreConfiguration_sdk_version_tag_def
    ICoreConfiguration_sdk_name_tag_def ICoreConfiguration_app_count_tag_def
    ICoreConfiguration_os_version_tag_def
    ICoreConfiguration_min_supported_ios_version_tag_def
    ICoreConfiguration_use_default_app_tag_def
    ICoreConfiguration_deployed_in_app_store_tag_def
    ICoreConfiguration_dynamic_framework_count_tag_def
    ICoreConfiguration_apple_framework_version_tag_def
    ICoreConfiguration_using_zip_file_tag_def ICoreConfiguration_deployment_type_tag_def
    ICoreConfiguration_platform_info_tag_def ICoreConfiguration_swizzling_enabled_tag_def
    ICoreConfiguration_using_gdt_tag_def)

lemma ICoreConfiguration_members_ok:
  "list_all (member_ok ICoreConfiguration) ICoreConfiguration_members" "members_follow ICoreConfiguration ICoreConfiguration_members"
  unfolding ICoreConfiguration_members_def ICoreConfiguration_def
  by (simp_all add: layout_eval NetworkConnectionInfo_layout ClientInfo_layout IosClientInfo_layout QosTiersOverride_layout cong: layout_congs)

lemma ICoreConfiguration_described: "table_describes ICoreConfiguration_fields ICoreConfiguration ICoreConfiguration_members"
  unfolding ICoreConfiguration_members by (rule pb_table_describes) (rule ICoreConfiguration_members_ok)+

section \<open>The tables describe the structures\<close>

text \<open>
  C12. Every table of the two generated files describes its structure: each row carries the tag the
  header gives to the field, the iterator reaches the member at its \<open>offsetof\<close>, and the
  count or \<open>has_\<close> flag it reads and writes is the member of that name.
\<close>

theorem generated_tables_describe_structs:
   "table_describes NetworkConnectionInfo_fields NetworkConnectionInfo NetworkConnectionInfo_members \<and>
    table_describes LogEvent_fields LogEvent LogEvent_members \<and>
    table_describes IosClientInfo_fields IosClientInfo IosClientInfo_members \<and>
    table_describes ClientInfo_fields ClientInfo ClientInfo_members \<and>
    table_describes LogRequest_fields LogRequest LogRequest_members \<and>
    table_describes BatchedLogRequest_fields BatchedLogRequest BatchedLogRequest_members \<and>
    table_describes QosTierConfiguration_fields QosTierConfiguration QosTierConfiguration_members \<and>
    table_describes QosTiersOverride_fields QosTiersOverride QosTiersOverride_members \<and>
    table_describes LogResponse_fields LogResponse LogResponse_members \<and>
    table_describes ICoreConfiguration_fields ICoreConfiguration ICoreConfiguration_members"
  by (intro conjI) (rule NetworkConnectionInfo_described
    LogEvent_described
    IosClientInfo_described
    ClientInfo_described
    LogRequest_described
    BatchedLogRequest_described
    QosTierConfiguration_described
    QosTiersOverride_described
    LogResponse_described
    ICoreConfiguration_described)+

end
