(* ===== verification/EncoderProperties.thy ===== *)
theory EncoderProperties
  imports PbEncodeSpec TableLayouts
begin

text \<open>
  The promises of \<open>pb_encode.c\<close> to its callers: what \<open>pb_encode\<close> leaves in a buffer, when it
  refuses, and that the sz computation, the length-delimited and the zero-terminated forms
  agree with it. The nesting bound of the model is harmless: more of it changes nothing.
\<close>

section \<open>Streams over a buffer\<close>

lemma ostream_ok_buffer: "sz \<le> cap \<Longrightarrow> sz < 2 ^ 63 \<Longrightarrow> ostream_ok (pb_ostream_from_buffer cap (of_nat sz))"
  by (simp add: ostream_ok_def pb_ostream_from_buffer_def unat_of_nat_u64)

lemma room_buffer: "sz < 2 ^ 63 \<Longrightarrow> room (pb_ostream_from_buffer cap (of_nat sz)) n \<longleftrightarrow> n \<le> sz"
  by (simp add: room_def pb_ostream_from_buffer_def unat_of_nat_u64)

text \<open>The stream after the bytes \<open>bs\<close> have been written to a fresh buffer.\<close>

definition filled :: "nat \<Rightarrow> nat \<Rightarrow> u8 list \<Rightarrow> pb_ostream" where
  "filled cap sz bs =
     \<lparr>o_state = OBuf bs cap, max_size = of_nat sz, bytes_written = of_nat (length bs), o_errmsg = None\<rparr>"

lemma emits_to_buffer:
  assumes "emits f bs" and "sz \<le> cap" and "sz < 2 ^ 63"
  shows "if length bs \<le> sz then f (pb_ostream_from_buffer cap (of_nat sz)) = (True, filled cap sz bs)
         else \<not> fst (f (pb_ostream_from_buffer cap (of_nat sz)))"
  using emits_room [OF assms(1) ostream_ok_buffer [OF assms(2,3)]]
    emits_no_room [OF assms(1) ostream_ok_buffer [OF assms(2,3)]]
  unfolding room_buffer [OF assms(3)] by (simp add: advance_def filled_def pb_ostream_from_buffer_def)

lemma pb_encode_emits:
  assumes "plain_table n fs" and "message_bytes n m fs p = Some bs" and "length bs < 2 ^ 63"
  shows "emits (\<lambda>s. pb_encode n env m s fs p) bs"
  using level.sub_encodes [OF assms(1), of env m p] assms(2,3) by (simp add: encodesD)

section \<open>More nesting levels change nothing\<close>

lemma value_bytes_cong:
  "(PB_LTYPE (ftype f) = PB_LTYPE_SUBMESSAGE \<Longrightarrow> sub (sub_fields (ptr f)) = sub' (sub_fields (ptr f))) \<Longrightarrow>
     value_bytes sub m f p = value_bytes sub' m f p"
  by (simp add: value_bytes_def Let_def)

lemma field_bytes_cong:
  assumes "PB_LTYPE (ftype f) = PB_LTYPE_SUBMESSAGE \<Longrightarrow> sub (sub_fields (ptr f)) = sub' (sub_fields (ptr f))"
  shows "field_bytes sub m f p = field_bytes sub' m f p"
  using value_bytes_cong [of f sub sub', OF assms] by (simp add: field_bytes_def array_bytes_def)

lemma message_bytes_more: "plain_table n fs \<Longrightarrow> message_bytes (n + k) m fs p = message_bytes n m fs p"
proof (induction n arbitrary: fs p)
  case (Suc n)
  have "field_bytes (message_bytes (n + k) m) m (fs ! i) q = field_bytes (message_bytes n m) m (fs ! i) q"
    if "i < length fs" for i q
    using Suc.prems Suc.IH that by (intro field_bytes_cong ext) (simp add: list_all_length)
  then show ?case by (auto intro!: arg_cong [of _ _ concat_opt])
qed simp

lemma pb_enc_submessage_cong:
  assumes "\<And>s p. sub s (sub_fields (ptr f)) p = sub' s (sub_fields (ptr f)) p"
  shows "pb_enc_submessage sub s f p = pb_enc_submessage sub' s f p"
  unfolding pb_enc_submessage_def pb_encode_submessage_def assms ..

lemma encode_basic_field_cong:
  assumes "PB_LTYPE (ftype f) = PB_LTYPE_SUBMESSAGE \<Longrightarrow>
    \<forall>s p. sub s (sub_fields (ptr f)) p = sub' s (sub_fields (ptr f)) p"
  shows "encode_basic_field sub m s f p = encode_basic_field sub' m s f p"
proof -
  have E: "PB_ENCODERS sub m (PB_LTYPE (ftype f)) s f p = PB_ENCODERS sub' m (PB_LTYPE (ftype f)) s f p" for s p
    using assms by (auto simp: PB_ENCODERS_def intro: pb_enc_submessage_cong)
  then have "(\<lambda>s. PB_ENCODERS sub m (PB_LTYPE (ftype f)) s f) = (\<lambda>s. PB_ENCODERS sub' m (PB_LTYPE (ftype f)) s f)"
    by (intro ext)
  then have "encode_array m s f q k (PB_ENCODERS sub m (PB_LTYPE (ftype f))) =
      encode_array m s f q k (PB_ENCODERS sub' m (PB_LTYPE (ftype f)))" for q k
    unfolding encode_array_def E by (simp only:)
  then show ?thesis unfolding encode_basic_field_def Let_def E by (simp only:)
qed

lemma iter_loop_cong_at:
  assumes "proper_table fs" and "\<And>i s. i < length fs \<Longrightarrow> body (iter_at fs p i) s = body' (iter_at fs p i) s"
  shows "i < length fs \<Longrightarrow> iter_loop body (iter_at fs p i) s = iter_loop body' (iter_at fs p i) s"
proof (induction "length fs - i" arbitrary: i s rule: less_induct)
  case less
  then have "(\<lambda>s. if Suc i < length fs then iter_loop body (iter_at fs p (Suc i)) s else (True, s)) =
      (\<lambda>s. if Suc i < length fs then iter_loop body' (iter_at fs p (Suc i)) s else (True, s))"
    by auto
  then show ?case using assms(2) [OF less.prems] by (simp add: iter_loop_at [OF assms(1) less.prems])
qed

lemma plain_proper: "plain_table n fs \<Longrightarrow> proper_table fs"
  by (cases n) (auto simp: proper_table_def plain_field_def list_all_iff)

lemma pb_encode_more: "plain_table n fs \<Longrightarrow> pb_encode (n + k) env m s fs p = pb_encode n env m s fs p"
proof (induction n arbitrary: fs s p)
  case (Suc n)
  show ?case
  proof (cases "fs = []")
    case True
    then show ?thesis by (simp add: encode_message_def iter_begin_at)
  next
    case False
    let ?body = "\<lambda>sub it stream.
      if PB_LTYPE (ftype (iter_field it)) = PB_LTYPE_EXTENSION
      then encode_extension_field sub env m stream (iter_field it) (pData it)
      else encode_field sub env m stream (iter_field it) (pData it)"
    have "?body (pb_encode (n + k) env m) (iter_at fs p i) s = ?body (pb_encode n env m) (iter_at fs p i) s"
      if i: "i < length fs" for i s
    proof -
      have f: "plain_field (fs ! i)" "PB_LTYPE (ftype (fs ! i)) = PB_LTYPE_SUBMESSAGE \<Longrightarrow>
          plain_table n (sub_fields (ptr (fs ! i)))"
        using Suc.prems i by (auto simp: list_all_length)
      then have "encode_basic_field (pb_encode (n + k) env m) m s (fs ! i) q =
          encode_basic_field (pb_encode n env m) m s (fs ! i) q" for q
        using Suc.IH by (intro encode_basic_field_cong) simp
      then show ?thesis using f(1) i by (simp add: encode_field_def plain_field_def Let_def)
    qed
    then have "iter_loop (?body (pb_encode (n + k) env m)) (iter_at fs p 0) s =
        iter_loop (?body (pb_encode n env m)) (iter_at fs p 0) s"
      using False by (intro iter_loop_cong_at [OF plain_proper [OF Suc.prems]]) simp_all
    then show ?thesis by (simp add: encode_message_def iter_begin_at cong: bool.case_cong)
  qed
qed simp

section \<open>The tables of the repository are plain\<close>

text \<open>
  Each generated table nests at most four levels deep, has no callback and no extension, and so
  is in the scope of the specification.
\<close>

lemma LogEvent_layout: "sizeof LogEvent = 88" "alignof LogEvent = 8"
  unfolding LogEvent_def by (simp_all add: NetworkConnectionInfo_layout layout_eval cong: layout_congs)

lemma LogRequest_layout: "sizeof LogRequest = 144" "alignof LogRequest = 8"
  unfolding LogRequest_def by (simp_all add: ClientInfo_layout layout_eval cong: layout_congs)

lemma pb_bytes_array_layout: "sizeof pb_bytes_array_t = 8"
  by (simp add: pb_bytes_array_t_def align_up_def)

lemmas plain_eval =
  plain_field_def PB_FIELD_def PB_RULES_def pb_rule_defs PB_LTYPE_MAP_def pb_type_defs
  pb_membersize_def pb_entrysize_def member_type_step pb_bytes_array_layout
  NetworkConnectionInfo_layout QosTierConfiguration_layout IosClientInfo_layout
  ClientInfo_layout QosTiersOverride_layout LogEvent_layout LogRequest_layout

lemma NetworkConnectionInfo_plain: "plain_table (Suc n) NetworkConnectionInfo_fields"
  by (subst plain_table.simps) (simp add: NetworkConnectionInfo_fields_def NetworkConnectionInfo_def plain_eval
      cong: layout_congs del: plain_table.simps)

lemma LogEvent_plain: "plain_table (Suc (Suc n)) LogEvent_fields"
  by (subst plain_table.simps) (simp add: LogEvent_fields_def LogEvent_def plain_eval NetworkConnectionInfo_plain
      cong: layout_congs del: plain_table.simps)

lemma IosClientInfo_plain: "plain_table (Suc n) IosClientInfo_fields"
  by (subst plain_table.simps) (simp add: IosClientInfo_fields_def IosClientInfo_def plain_eval
      cong: layout_congs del: plain_table.simps)

lemma ClientInfo_plain: "plain_table (Suc (Suc n)) ClientInfo_fields"
  by (subst plain_table.simps) (simp add: ClientInfo_fields_def ClientInfo_def plain_eval IosClientInfo_plain
      cong: layout_congs del: plain_table.simps)

lemma LogRequest_plain: "plain_table (Suc (Suc (Suc n))) LogRequest_fields"
  by (subst plain_table.simps) (simp add: LogRequest_fields_def LogRequest_def plain_eval ClientInfo_plain LogEvent_plain
      cong: layout_congs del: plain_table.simps)

lemma BatchedLogRequest_plain: "plain_table (Suc (Suc (Suc (Suc n)))) BatchedLogRequest_fields"
  by (subst plain_table.simps) (simp add: BatchedLogRequest_fields_def BatchedLogRequest_def plain_eval LogRequest_plain
      cong: layout_congs del: plain_table.simps)

lemma QosTierConfiguration_plain: "plain_table (Suc n) QosTierConfiguration_fields"
  by (subst plain_table.simps) (simp add: QosTierConfiguration_fields_def QosTierConfiguration_def plain_eval
      cong: layout_congs del: plain_table.simps)

lemma QosTiersOverride_plain: "plain_table (Suc (Suc n)) QosTiersOverride_fields"
  by (subst plain_table.simps) (simp add: QosTiersOverride_fields_def QosTiersOverride_def plain_eval QosTierConfiguration_plain
      cong: layout_congs del: plain_table.simps)

lemma LogResponse_plain: "plain_table (Suc (Suc (Suc n))) LogResponse_fields"
  by (subst plain_table.simps) (simp add: LogResponse_fields_def LogResponse_def plain_eval QosTiersOverride_plain
      cong: layout_congs del: plain_table.simps)

lemma ICoreConfiguration_plain: "plain_table (Suc n) ICoreConfiguration_fields"
  by (subst plain_table.simps) (simp add: ICoreConfiguration_fields_def ICoreConfiguration_def plain_eval
      cong: layout_congs del: plain_table.simps)

section \<open>The small messages\<close>

text \<open>A \<open>NetworkConnectionInfo\<close> whose bytes are all one: both fields present, both \<open>0x01010101\<close>.\<close>

lemma leb128_sample: "leb128 16843009 = [129, 130, 132, 8]"
  by (simp add: leb128.simps [of 16843009] leb128.simps [of 131586] leb128.simps [of 1028] leb128.simps [of 8])

lemma load_word_ones: "load_word (\<lambda>x. 1) a = (16843009 :: u32)"
  by (simp add: load_word_def load_bytes_def upt_rec)

lemma load_word_zero: "load_word (\<lambda>x. 0) a = (0 :: u32)"
  by (simp add: load_word_def load_bytes_def upt_rec)

lemma NetworkConnectionInfo_rows:
  "NetworkConnectionInfo_fields =
     [Pb_field 1 0x11 4 (- 4) 4 0 (PDefault NetworkConnectionInfo_network_type_default),
      Pb_field 2 0x12 4 (- 4) 4 0 (PDefault NetworkConnectionInfo_mobile_subtype_default)]"
  by (simp add: NetworkConnectionInfo_fields_def NetworkConnectionInfo_def PB_FIELD_def PB_RULES_def
      pb_rule_defs PB_LTYPE_MAP_def pb_type_defs pb_membersize_def pb_delta_def PB_DATAOFFSET_def
      dataoffset_first dataoffset_other member_type_step align_up_def cong: layout_congs)

lemma QosTierConfiguration_rows:
  "QosTierConfiguration_fields =
     [Pb_field 2 0x12 4 (- 4) 4 0 PNull,
      Pb_field 3 0x11 4 (- 4) 4 0 (PDefault QosTierConfiguration_log_source_default)]"
  by (simp add: QosTierConfiguration_fields_def QosTierConfiguration_def PB_FIELD_def PB_RULES_def
      pb_rule_defs PB_LTYPE_MAP_def pb_type_defs pb_membersize_def pb_delta_def PB_DATAOFFSET_def
      dataoffset_first dataoffset_other member_type_step align_up_def cong: layout_congs)

lemma optional_varint_bytes:
  "field_bytes sub m (Pb_field t 0x11 d z 4 0 q) p =
     (if (if z \<noteq> 0 then m (p + z) \<noteq> 0 else \<not> pb_check_proto3_default_value m (Pb_field t 0x11 d z 4 0 q) p)
      then Some (leb128 (tag_number PB_WT_VARINT t) @ leb128 (unat (scast (load_word m p :: u32) :: u64)))
      else Some [])"
  "field_bytes sub m (Pb_field t 0x12 d z 4 0 q) p =
     (if (if z \<noteq> 0 then m (p + z) \<noteq> 0 else \<not> pb_check_proto3_default_value m (Pb_field t 0x12 d z 4 0 q) p)
      then Some (leb128 (tag_number PB_WT_VARINT t) @ leb128 (unat (ucast (load_word m p :: u32) :: u64)))
      else Some [])"
  by (simp_all add: field_bytes_def value_bytes_def tag_bytes_def field_present_def value_addr_def
      pb_type_defs wire_type_for_ltype_def append_opt_def load_signed_def load_unsigned_def)

lemma NetworkConnectionInfo_bytes:
  "message_bytes 1 m NetworkConnectionInfo_fields p = Some
     ((if m p \<noteq> 0 then 8 # leb128 (unat (scast (load_word m (p + 4) :: u32) :: u64)) else []) @
      (if m (p + 8) \<noteq> 0 then 16 # leb128 (unat (ucast (load_word m (p + 12) :: u32) :: u64)) else []))"
  by (simp add: One_nat_def NetworkConnectionInfo_rows upt_rec optional_varint_bytes in_union_def pb_htype_defs
      PB_HTYPE_def field_extent_def PB_ATYPE_def pb_atype_defs append_opt_def
      tag_number_def pb_wt_defs leb128.simps [of 8] leb128.simps [of 16] add.commute [of 8])

lemma QosTierConfiguration_bytes:
  "message_bytes 1 m QosTierConfiguration_fields p = Some
     ((if m p \<noteq> 0 then 16 # leb128 (unat (ucast (load_word m (p + 4) :: u32) :: u64)) else []) @
      (if m (p + 8) \<noteq> 0 then 24 # leb128 (unat (scast (load_word m (p + 12) :: u32) :: u64)) else []))"
  by (simp add: One_nat_def QosTierConfiguration_rows upt_rec optional_varint_bytes in_union_def pb_htype_defs
      PB_HTYPE_def field_extent_def PB_ATYPE_def pb_atype_defs append_opt_def
      tag_number_def pb_wt_defs leb128.simps [of 16] leb128.simps [of 24] add.commute [of 8])

lemma leb128_small: "n < 128 \<Longrightarrow> length (leb128 n) = 1"
  by (simp add: leb128.simps [of n])

lemma leb128_enum_length:
  assumes "load_word m p = (word_of_int v :: u32)" and "0 \<le> v" and "v < 128"
  shows "length (leb128 (unat (ucast (load_word m p :: u32) :: u64))) = 1"
proof -
  have "uint (word_of_int v :: u32) = v"
    using assms(2,3) by (simp only: uint_word_of_int) simp
  then have "unat (load_word m p :: u32) = nat v" unfolding assms(1) unat_eq_nat_uint by (simp only:)
  then show ?thesis unfolding unat_ucast_u32_u64 using assms(3) by (intro leb128_small) simp
qed

lemma MobileSubtype_range:
  "0 \<le> NetworkConnectionInfo_MobileSubtype_value e" "NetworkConnectionInfo_MobileSubtype_value e < 128"
  by (cases e; simp)+

lemma QosTier_range:
  "0 \<le> QosTierConfiguration_QosTier_value e" "QosTierConfiguration_QosTier_value e < 128"
  by (cases e; simp)+

lemma pb_encode_within:
  assumes "plain_table n fs" and "message_bytes n m fs p = Some bs" and "length bs \<le> sz"
    and "sz \<le> cap" and "sz < 2 ^ 63" and "n \<le> k"
  shows "fst (pb_encode k env m (pb_ostream_from_buffer cap (of_nat sz)) fs p)"
proof -
  have "emits (\<lambda>s. pb_encode k env m s fs p) bs"
    using pb_encode_emits [OF assms(1,2)] pb_encode_more [OF assms(1), of "k - n"] assms(3,5,6) by simp
  from emits_to_buffer [OF this assms(4,5)] show ?thesis using assms(3) by simp
qed

lemma NetworkConnectionInfo_sample:
  "message_bytes 1 (\<lambda>x. 1) NetworkConnectionInfo_fields 16 = Some [8, 129, 130, 132, 8, 16, 129, 130, 132, 8]"
  unfolding NetworkConnectionInfo_bytes by (simp add: load_word_ones leb128_sample)

definition no_user_code :: enc_env where
  "no_user_code =
     \<lparr>encode_callback = (\<lambda>f s field arg. (False, s)), extension_encode = (\<lambda>f s ext. (False, s)),
      e_extensions = (\<lambda>p. [])\<rparr>"

lemmas NetworkConnectionInfo_plain_1 = NetworkConnectionInfo_plain [of 0, folded One_nat_def]

lemma delimited_sample:
  "delimited_bytes [8, 129, 130, 132, 8, 16, 129, 130, 132, 8] = [10, 8, 129, 130, 132, 8, 16, 129, 130, 132, 8]"
  unfolding delimited_bytes_def by (subst leb128.simps) simp

section \<open>The promises\<close>

text \<open>
  C5. Encoding into a buffer: a message whose encoding \<open>bs\<close> fits the \<open>sz\<close> bytes given to
  \<open>pb_ostream_from_buffer\<close> is written there exactly, with nothing before or after it and
  no byte past the buffer; one that does not fit makes \<open>pb_encode\<close> return false.
\<close>
theorem pb_encode_into_buffer:
  assumes "plain_table n fs" and "message_bytes n m fs p = Some bs" and "length bs < 2 ^ 63"
    and "sz \<le> cap" and "sz < 2 ^ 63"
  shows "if length bs \<le> sz
     then pb_encode n env m (pb_ostream_from_buffer cap (of_nat sz)) fs p = (True, filled cap sz bs)
     else \<not> fst (pb_encode n env m (pb_ostream_from_buffer cap (of_nat sz)) fs p)"
  by (rule emits_to_buffer [OF pb_encode_emits [OF assms(1-3)] assms(4,5)])

lemma pb_encode_into_buffer_witness:
  "pb_encode 1 no_user_code (\<lambda>x. 1) (pb_ostream_from_buffer 16 12) NetworkConnectionInfo_fields 16 =
     (True, filled 16 12 [8, 129, 130, 132, 8, 16, 129, 130, 132, 8]) \<and>
   \<not> fst (pb_encode 1 no_user_code (\<lambda>x. 1) (pb_ostream_from_buffer 16 9) NetworkConnectionInfo_fields 16)"
  using pb_encode_into_buffer [OF NetworkConnectionInfo_plain_1 NetworkConnectionInfo_sample, of 12 16]
    pb_encode_into_buffer [OF NetworkConnectionInfo_plain_1 NetworkConnectionInfo_sample, of 9 16]
  by simp

text \<open>
  C6. \<open>pb_get_encoded_size\<close> computes the number of bytes \<open>pb_encode\<close> writes.
\<close>
theorem pb_get_encoded_size_correct:
  assumes "plain_table n fs" and "message_bytes n m fs p = Some bs" and "length bs < 2 ^ 63"
  shows "pb_get_encoded_size n env m fs p = Some (of_nat (length bs))"
  using emits_room [OF pb_encode_emits [OF assms] ostream_ok_sizing]
  by (simp add: pb_get_encoded_size_def advance_def) (simp add: PB_OSTREAM_SIZING_def)

lemma pb_get_encoded_size_correct_witness:
  "pb_get_encoded_size 1 no_user_code (\<lambda>x. 1) NetworkConnectionInfo_fields 16 = Some 10"
  using pb_get_encoded_size_correct [OF NetworkConnectionInfo_plain_1 NetworkConnectionInfo_sample] by simp

lemma pb_encode_delimited_emits:
  assumes "plain_table n fs" and "message_bytes n m fs p = Some bs" and "length (delimited_bytes bs) < 2 ^ 63"
  shows "emits (\<lambda>s. pb_encode_delimited n env m s fs p) (delimited_bytes bs)"
  using level.encodes_submessage [OF assms(1), of env m p] assms(2,3)
  by (simp add: pb_encode_delimited_def encodesD)

text \<open>
  C7. The length-delimited form writes the length of the message as a varint and then the message.
\<close>
theorem pb_encode_delimited_into_buffer:
  assumes "plain_table n fs" and "message_bytes n m fs p = Some bs"
    and "length (delimited_bytes bs) < 2 ^ 63" and "sz \<le> cap" and "sz < 2 ^ 63"
  shows "if length (delimited_bytes bs) \<le> sz
     then pb_encode_delimited n env m (pb_ostream_from_buffer cap (of_nat sz)) fs p =
       (True, filled cap sz (delimited_bytes bs))
     else \<not> fst (pb_encode_delimited n env m (pb_ostream_from_buffer cap (of_nat sz)) fs p)"
  by (rule emits_to_buffer [OF pb_encode_delimited_emits [OF assms(1-3)] assms(4,5)])

lemma pb_encode_delimited_into_buffer_witness:
  "pb_encode_delimited 1 no_user_code (\<lambda>x. 1) (pb_ostream_from_buffer 16 12) NetworkConnectionInfo_fields 16 =
     (True, filled 16 12 [10, 8, 129, 130, 132, 8, 16, 129, 130, 132, 8])"
  using pb_encode_delimited_into_buffer [OF NetworkConnectionInfo_plain_1 NetworkConnectionInfo_sample, of 12 16]
  by (simp add: delimited_sample)

text \<open>
  The zero-terminated form writes the message and one zero byte, which the decoder reads as
  the end of the message.
\<close>
theorem pb_encode_nullterminated_into_buffer:
  assumes "plain_table n fs" and "message_bytes n m fs p = Some bs" and "length bs < 2 ^ 63"
    and "sz \<le> cap" and "sz < 2 ^ 63"
  shows "if length bs < sz
     then pb_encode_nullterminated n env m (pb_ostream_from_buffer cap (of_nat sz)) fs p =
       (True, filled cap sz (bs @ [0]))
     else \<not> fst (pb_encode_nullterminated n env m (pb_ostream_from_buffer cap (of_nat sz)) fs p)"
proof -
  have "emits (\<lambda>s. pb_encode_nullterminated n env m s fs p) (bs @ [0])"
    unfolding pb_encode_nullterminated_def
    using pb_encode_emits [OF assms(1-3)] emits_write [of "[0]"] by (auto intro: emits_and_then)
  from emits_to_buffer [OF this assms(4,5)] show ?thesis by (simp add: Suc_le_eq)
qed

lemma pb_encode_nullterminated_into_buffer_witness:
  "pb_encode_nullterminated 1 no_user_code (\<lambda>x. 1) (pb_ostream_from_buffer 16 12) NetworkConnectionInfo_fields 16 =
     (True, filled 16 12 [8, 129, 130, 132, 8, 16, 129, 130, 132, 8, 0])"
  using pb_encode_nullterminated_into_buffer [OF NetworkConnectionInfo_plain_1 NetworkConnectionInfo_sample, of 12 16]
  by simp

text \<open>
  The nesting bound of the model is no restriction: once it reaches the depth of the table,
  every larger bound gives the same run of \<open>pb_encode\<close>, on every stream.
\<close>
lemma pb_encode_bound_irrelevant:
  assumes "plain_table n fs" and "n \<le> k"
  shows "pb_encode k env m s fs p = pb_encode n env m s fs p"
  using pb_encode_more [OF assms(1), of "k - n"] assms(2) by simp

text \<open>
  C13. The constant \<open>gdt_cct_NetworkConnectionInfo_size\<close> is large enough: whatever the fields
  present and the network type, a message whose mobile subtype is an enumerator of its type
  is encoded into a buffer of that size.
\<close>
theorem NetworkConnectionInfo_size_suffices:
  assumes "load_word m (p + int (offsetof NetworkConnectionInfo [''mobile_subtype''])) =
      (word_of_int (NetworkConnectionInfo_MobileSubtype_value e) :: u32)"
    and "NetworkConnectionInfo_size \<le> cap"
  shows "fst (pb_encode (Suc n) env m (pb_ostream_from_buffer cap (of_nat NetworkConnectionInfo_size))
      NetworkConnectionInfo_fields p)"
proof -
  have "offsetof NetworkConnectionInfo [''mobile_subtype''] = 12"
    unfolding NetworkConnectionInfo_def by (simp add: align_up_def cong: layout_congs)
  then have sub: "length (leb128 (unat (ucast (load_word m (p + 12) :: u32) :: u64))) = 1"
    using assms(1) by (intro leb128_enum_length [OF _ MobileSubtype_range]) simp
  have "length (leb128 (unat (scast (load_word m (p + 4) :: u32) :: u64))) \<le> 10"
    by (rule length_leb128_u64)
  with sub show ?thesis using assms(2)
    by (intro pb_encode_within [OF NetworkConnectionInfo_plain [of 0, folded One_nat_def] NetworkConnectionInfo_bytes])
      (simp_all add: NetworkConnectionInfo_size_def)
qed

lemma NetworkConnectionInfo_size_suffices_witness:
  "fst (pb_encode 1 no_user_code (\<lambda>x. 0) (pb_ostream_from_buffer 13 13) NetworkConnectionInfo_fields 16)"
  using NetworkConnectionInfo_size_suffices [where m = "\<lambda>x. 0" and p = 16 and cap = 13 and n = 0 and env = no_user_code
      and e = NetworkConnectionInfo_MobileSubtype_UNKNOWN_MOBILE_SUBTYPE]
  by (simp add: load_word_zero NetworkConnectionInfo_size_def)

text \<open>
  The constant \<open>gdt_cct_QosTierConfiguration_size\<close> is large enough as well, for every tier of
  the enumeration and every log source.
\<close>
theorem QosTierConfiguration_size_suffices:
  assumes "load_word m (p + int (offsetof QosTierConfiguration [''qos_tier''])) =
      (word_of_int (QosTierConfiguration_QosTier_value e) :: u32)"
    and "QosTierConfiguration_size \<le> cap"
  shows "fst (pb_encode (Suc n) env m (pb_ostream_from_buffer cap (of_nat QosTierConfiguration_size))
      QosTierConfiguration_fields p)"
proof -
  have "offsetof QosTierConfiguration [''qos_tier''] = 4"
    unfolding QosTierConfiguration_def by (simp add: align_up_def cong: layout_congs)
  then have sub: "length (leb128 (unat (ucast (load_word m (p + 4) :: u32) :: u64))) = 1"
    using assms(1) by (intro leb128_enum_length [OF _ QosTier_range]) simp
  have "length (leb128 (unat (scast (load_word m (p + 12) :: u32) :: u64))) \<le> 10"
    by (rule length_leb128_u64)
  with sub show ?thesis using assms(2)
    by (intro pb_encode_within [OF QosTierConfiguration_plain [of 0, folded One_nat_def] QosTierConfiguration_bytes])
      (simp_all add: QosTierConfiguration_size_def)
qed

lemma QosTierConfiguration_size_suffices_witness:
  "fst (pb_encode 1 no_user_code (\<lambda>x. 0) (pb_ostream_from_buffer 13 13) QosTierConfiguration_fields 16)"
  using QosTierConfiguration_size_suffices [where m = "\<lambda>x. 0" and p = 16 and cap = 13 and n = 0 and env = no_user_code
      and e = QosTierConfiguration_QosTier_DEFAULT]
  by (simp add: load_word_zero QosTierConfiguration_size_def)

end
