(* ===== verification/PbDefaults.thy ===== *)
theory PbDefaults
  imports PbCommon
begin

text \<open>
  The initialisation of a message to its default values in \<open>nanopb/pb_decode.c\<close>: the
  iterator of an extension field, \<open>pb_field_set_to_default\<close> and
  \<open>pb_message_set_to_defaults\<close>. They recurse through submessages and through the linked
  lists of extensions, which are a parameter \<open>exts\<close> of the model; the number \<open>n\<close> bounds the
  nesting, and an execution that would go deeper sets the flag \<open>stuck\<close>.
\<close>

section \<open>Writing to the C state\<close>

definition put :: "addr \<Rightarrow> u8 list \<Rightarrow> cstate \<Rightarrow> cstate" where
  "put a bs c = c\<lparr>mem := store_bytes (mem c) a bs\<rparr>"

definition put_word :: "addr \<Rightarrow> 'a :: len word \<Rightarrow> cstate \<Rightarrow> cstate" where
  "put_word a w c = c\<lparr>mem := store_word (mem c) a w\<rparr>"

definition put_bool :: "addr \<Rightarrow> bool \<Rightarrow> cstate \<Rightarrow> cstate" where
  "put_bool a b c = c\<lparr>mem := store_bool (mem c) a b\<rparr>"

definition put_ptr :: "addr \<Rightarrow> addr \<Rightarrow> cstate \<Rightarrow> cstate" where
  "put_ptr a p c = c\<lparr>mem := store_ptr (mem c) a p\<rparr>"

definition c_memset0 :: "addr \<Rightarrow> nat \<Rightarrow> cstate \<Rightarrow> cstate" where
  "c_memset0 a n c = put a (replicate n 0) c"

section \<open>Extension fields\<close>

text \<open>An iterator for an extension: its table is the one descriptor of the extension.\<close>

definition iter_from_extension :: "mem \<Rightarrow> pb_extension \<Rightarrow> pb_field_iter" where
  "iter_from_extension m extension =
     (let field = ext_arg extension;
          dest = load_ptr m (ext_dest_addr extension);
          it = snd (pb_field_iter_begin [field] dest)
      in it\<lparr>pData := (if PB_ATYPE (ftype field) = PB_ATYPE_POINTER
                      then ext_dest_addr extension else dest),
            pSize := ext_found_addr extension\<rparr>)"

section \<open>Defaults\<close>

text \<open>
  A loop over the fields of a message, \<open>do { f(&iter) } while (pb_field_iter_next(&iter))\<close>,
  which does nothing for a table without fields.
\<close>

definition for_fields :: "(pb_field_iter \<Rightarrow> cstate \<Rightarrow> cstate) \<Rightarrow> pb_field list \<Rightarrow> addr \<Rightarrow> cstate \<Rightarrow> cstate" where
  "for_fields f fs dest c =
     (case pb_field_iter_begin fs dest of
        (False, it) \<Rightarrow> c
      | (True, it) \<Rightarrow> snd (iter_loop (\<lambda>it c. (True, f it c)) it c))"

definition default_bytes :: "pb_ptr \<Rightarrow> nat \<Rightarrow> u8 list" where
  "default_bytes p n = (case p of PDefault bs \<Rightarrow> take n bs | PFields fs \<Rightarrow> [] | PNull \<Rightarrow> replicate n 0)"

definition set_default_step ::
  "(pb_field_iter \<Rightarrow> cstate \<Rightarrow> cstate) \<Rightarrow> (addr \<Rightarrow> pb_extension list) \<Rightarrow>
     pb_field_iter \<Rightarrow> cstate \<Rightarrow> cstate" where
  "set_default_step sub exts it c =
     (let pos = iter_field it;
          type = ftype pos
      in if PB_LTYPE type = PB_LTYPE_EXTENSION then
           fold (\<lambda>ext c.
               let c = put_bool (ext_found_addr ext) False c
               in sub (iter_from_extension (mem c) ext) c)
             (exts (load_ptr (mem c) (pData it))) c
         else if PB_ATYPE type = PB_ATYPE_STATIC then
           (let optional = (PB_HTYPE type = PB_HTYPE_OPTIONAL \<and> pSize it \<noteq> pData it);
                counted = (PB_HTYPE type = PB_HTYPE_REPEATED \<or> PB_HTYPE type = PB_HTYPE_ONEOF);
                c = (if optional then put_bool (pSize it) False c
                     else if counted then put_word (pSize it) (0 :: u32) c else c);
                init_data = (optional \<or> \<not> counted)
            in if init_data then
                 (if PB_LTYPE type = PB_LTYPE_SUBMESSAGE
                  then for_fields sub (sub_fields (ptr pos)) (pData it) c
                  else if ptr pos \<noteq> PNull
                  then put (pData it) (default_bytes (ptr pos) (data_size pos)) c
                  else c_memset0 (pData it) (data_size pos) c)
               else c)
         else if PB_ATYPE type = PB_ATYPE_POINTER then
           (let c = put_ptr (pData it) 0 c
            in if PB_HTYPE type = PB_HTYPE_REPEATED \<or> PB_HTYPE type = PB_HTYPE_ONEOF
               then put_word (pSize it) (0 :: u32) c else c)
         else c)"

primrec pb_field_set_to_default ::
  "nat \<Rightarrow> (addr \<Rightarrow> pb_extension list) \<Rightarrow> pb_field_iter \<Rightarrow> cstate \<Rightarrow> cstate" where
  "pb_field_set_to_default 0 exts it c = c\<lparr>stuck := True\<rparr>"
| "pb_field_set_to_default (Suc n) exts it c =
     set_default_step (pb_field_set_to_default n exts) exts it c"

definition pb_message_set_to_defaults ::
  "nat \<Rightarrow> (addr \<Rightarrow> pb_extension list) \<Rightarrow> pb_field list \<Rightarrow> addr \<Rightarrow> cstate \<Rightarrow> cstate" where
  "pb_message_set_to_defaults n exts fs dest c = for_fields (pb_field_set_to_default n exts) fs dest c"

end
