(* ===== verification/PbRelease.thy ===== *)
theory PbRelease
  imports PbDefaults
begin

text \<open>
  Releasing the heap memory of a message, from \<open>nanopb/pb_decode.c\<close>: every block that a
  pointer field owns is freed, inside submessages and extensions first, and the pointer is set
  to NULL. As in the other recursions over messages, \<open>n\<close> bounds the nesting.
\<close>

section \<open>Release\<close>

text \<open>\<open>pb_release\<close> with \<open>f\<close> for \<open>pb_release_single_field\<close>.\<close>

definition release_with :: "(pb_field_iter \<Rightarrow> cstate \<Rightarrow> cstate) \<Rightarrow> pb_field list \<Rightarrow> addr \<Rightarrow> cstate \<Rightarrow> cstate" where
  "release_with f fs dest c = (if dest = 0 then c else for_fields f fs dest c)"

text \<open>The loop over the entries of a repeated submessage, then over an array of pointers.\<close>

primrec release_items ::
  "(addr \<Rightarrow> cstate \<Rightarrow> cstate) \<Rightarrow> nat \<Rightarrow> nat \<Rightarrow> addr \<Rightarrow> cstate \<Rightarrow> cstate" where
  "release_items f step 0 p c = c"
| "release_items f step (Suc count) p c = release_items f step count (p + int step) (f p c)"

definition free_entry :: "addr \<Rightarrow> cstate \<Rightarrow> cstate" where
  "free_entry p c = put_ptr p 0 (pb_free (load_ptr (mem c) p) c)"

definition release_step ::
  "(pb_field_iter \<Rightarrow> cstate \<Rightarrow> cstate) \<Rightarrow> (addr \<Rightarrow> pb_extension list) \<Rightarrow>
     pb_field_iter \<Rightarrow> cstate \<Rightarrow> cstate" where
  "release_step sub exts it c =
     (let pos = iter_field it;
          type = ftype pos;
          pointer = (PB_ATYPE type = PB_ATYPE_POINTER);
          repeated = (PB_HTYPE type = PB_HTYPE_REPEATED)
      in if PB_HTYPE type = PB_HTYPE_ONEOF \<and> (load_word (mem c) (pSize it) :: u32) \<noteq> tag pos then c
         else
           let c =
             (if PB_LTYPE type = PB_LTYPE_EXTENSION then
                fold (\<lambda>ext c. sub (iter_from_extension (mem c) ext) c)
                  (exts (load_ptr (mem c) (pData it))) c
              else if PB_LTYPE type = PB_LTYPE_SUBMESSAGE \<and> PB_ATYPE type \<noteq> PB_ATYPE_CALLBACK then
                (let item = (if pointer then load_ptr (mem c) (pData it) else pData it);
                     static = (PB_ATYPE type = PB_ATYPE_STATIC);
                     count =
                       (if repeated then
                          (let count = (if static \<and> pSize it = pData it then array_size pos
                                        else unat (load_word (mem c) (pSize it) :: u32))
                           in if static \<and> array_size pos < count then array_size pos else count)
                        else 1)
                 in if item \<noteq> 0
                    then release_items (release_with sub (sub_fields (ptr pos))) (data_size pos) count item c
                    else c)
              else c)
           in if pointer then
                (let c =
                   (if repeated \<and> (PB_LTYPE type = PB_LTYPE_STRING \<or> PB_LTYPE type = PB_LTYPE_BYTES)
                    then release_items free_entry 8 (unat (load_word (mem c) (pSize it) :: u32))
                           (load_ptr (mem c) (pData it)) c
                    else c);
                   c = (if repeated then put_word (pSize it) (0 :: u32) c else c)
                 in put_ptr (pData it) 0 (pb_free (load_ptr (mem c) (pData it)) c))
              else c)"

primrec pb_release_single_field ::
  "nat \<Rightarrow> (addr \<Rightarrow> pb_extension list) \<Rightarrow> pb_field_iter \<Rightarrow> cstate \<Rightarrow> cstate" where
  "pb_release_single_field 0 exts it c = c\<lparr>stuck := True\<rparr>"
| "pb_release_single_field (Suc n) exts it c =
     release_step (pb_release_single_field n exts) exts it c"

definition pb_release :: "nat \<Rightarrow> (addr \<Rightarrow> pb_extension list) \<Rightarrow> pb_field list \<Rightarrow> addr \<Rightarrow> cstate \<Rightarrow> cstate" where
  "pb_release n exts fs dest c = release_with (pb_release_single_field n exts) fs dest c"

end
