(* ===== verification/PbDecode.thy ===== *)
theory PbDecode
  imports PbIStream PbRelease
begin

text \<open>
  The message decoder of \<open>nanopb/pb_decode.c\<close>: the field decoders, static, pointer and
  callback fields, extensions, the loop over the input and its variants. A decoder works on
  the pair of the input stream and the C state.

  User code is a parameter: a \<open>dec_env\<close> gives what the function at an address does as a
  decoding callback or as an extension's decoder, the linked list of extensions that starts at
  a pointer, and the C library's allocator. Messages nest; the number \<open>n\<close> passed to
  \<open>pb_decode\<close> bounds the nesting, each level calling the next through the record \<open>level\<close>.

  The one local variable whose address is taken, \<open>fixed_count_size\<close> of
  \<open>pb_decode_noinit\<close>, lives in the stack, which the model puts at negative addresses: one
  slot for each nesting level.
\<close>

section \<open>State and environment\<close>

type_synonym dst = "pb_istream \<times> cstate"

record dec_env =
  allocate :: allocator
  decode_callback :: "addr \<Rightarrow> dst \<Rightarrow> pb_field \<Rightarrow> addr \<Rightarrow> bool \<times> dst"
  extension_decode :: "addr \<Rightarrow> dst \<Rightarrow> pb_extension \<Rightarrow> u32 \<Rightarrow> u32 \<Rightarrow> bool \<times> dst"
  d_extensions :: "addr \<Rightarrow> pb_extension list"

type_synonym msg_decoder = "dst \<Rightarrow> pb_field list \<Rightarrow> addr \<Rightarrow> bool \<times> dst"
type_synonym pb_decoder_t = "dst \<Rightarrow> pb_field \<Rightarrow> addr \<Rightarrow> bool \<times> dst"

definition on_stream :: "(pb_istream \<Rightarrow> 'a \<times> pb_istream) \<Rightarrow> dst \<Rightarrow> 'a \<times> dst" where
  "on_stream f d = (case f (fst d) of (r, s) \<Rightarrow> (r, s, snd d))"

definition on_heap :: "(cstate \<Rightarrow> cstate) \<Rightarrow> dst \<Rightarrow> dst" where
  "on_heap f d = (fst d, f (snd d))"

definition d_error :: "string \<Rightarrow> dst \<Rightarrow> bool \<times> dst" where
  "d_error msg d = (False, PB_SET_IERROR msg (fst d), snd d)"

definition d_mem :: "dst \<Rightarrow> mem" where
  "d_mem d = mem (snd d)"

definition d_left :: "dst \<Rightarrow> nat" where
  "d_left d = bytes_left (fst d)"

definition get_stuck :: "dst \<Rightarrow> bool \<times> dst" where
  "get_stuck d = (False, on_heap (\<lambda>c. c\<lparr>stuck := True\<rparr>) d)"

text \<open>\<open>pb_read(stream, dest, n)\<close> into memory.\<close>

definition pb_read_to :: "dst \<Rightarrow> addr \<Rightarrow> nat \<Rightarrow> bool \<times> dst" where
  "pb_read_to d dest n =
     with_some (on_stream (\<lambda>s. pb_read_into s n) d) (\<lambda>bs d. (True, on_heap (put dest bs) d))"

text \<open>The bracket \<open>pb_make_string_substream\<close> ... \<open>pb_close_string_substream\<close>.\<close>

definition in_substream :: "(dst \<Rightarrow> bool \<times> dst) \<Rightarrow> dst \<Rightarrow> bool \<times> dst" where
  "in_substream f d =
     with_some (on_stream pb_make_string_substream d) (\<lambda>substream d.
       case f (substream, snd d) of
         (status, substream, c) \<Rightarrow>
           (case pb_close_string_substream (fst d) substream of
              (False, s) \<Rightarrow> (False, s, c)
            | (True, s) \<Rightarrow> (status, s, c)))"

section \<open>Allocation\<close>

definition allocate_field :: "dec_env \<Rightarrow> dst \<Rightarrow> addr \<Rightarrow> u64 \<Rightarrow> u64 \<Rightarrow> bool \<times> dst" where
  "allocate_field env d data item_size item_count =
     (if item_size = 0 \<or> item_count = 0 then d_error ''invalid size'' d
      else
        let check_limit = push_bit (8 * 4) 1
        in if (check_limit \<le> item_size \<or> check_limit \<le> item_count) \<and> (- 1) div item_count < item_size
           then d_error ''size too large'' d
           else
             (case pb_realloc (allocate env) (load_ptr (d_mem d) data) (unat (item_count * item_size)) (snd d) of
                (p, c) \<Rightarrow>
                  (if p = 0 then d_error ''realloc failed'' (fst d, c)
                   else (True, fst d, put_ptr data p c))))"

definition initialize_pointer_field ::
  "(pb_field list \<Rightarrow> addr \<Rightarrow> cstate \<Rightarrow> cstate) \<Rightarrow> addr \<Rightarrow> pb_field \<Rightarrow> cstate \<Rightarrow> cstate" where
  "initialize_pointer_field set_defaults item pos c =
     (if PB_LTYPE (ftype pos) = PB_LTYPE_STRING \<or> PB_LTYPE (ftype pos) = PB_LTYPE_BYTES
      then put_ptr item 0 c
      else if PB_LTYPE (ftype pos) = PB_LTYPE_SUBMESSAGE
      then set_defaults (sub_fields (ptr pos)) item (c_memset0 item (data_size pos) c)
      else c)"

section \<open>Field decoders\<close>

definition pb_dec_bool :: pb_decoder_t where
  "pb_dec_bool d field dest =
     with_some (on_stream pb_decode_varint32 d) (\<lambda>value d. (True, on_heap (put_bool dest (value \<noteq> 0)) d))"

text \<open>
  The cast of a 64-bit value to the field's size, stored and widened again: the new state and
  the \<open>clamped\<close> value that is compared with the original.
\<close>

definition store_signed :: "nat \<Rightarrow> addr \<Rightarrow> u64 \<Rightarrow> cstate \<Rightarrow> (u64 \<times> cstate) option" where
  "store_signed n dest value c =
     (if n = 8 then Some (value, put_word dest value c)
      else if n = 4 then Some (scast (ucast value :: u32), put_word dest (ucast value :: u32) c)
      else if n = 2 then Some (scast (ucast value :: u16), put_word dest (ucast value :: u16) c)
      else if n = 1 then Some (scast (ucast value :: u8), put_word dest (ucast value :: u8) c)
      else None)"

definition store_unsigned :: "nat \<Rightarrow> addr \<Rightarrow> u64 \<Rightarrow> cstate \<Rightarrow> (u64 \<times> cstate) option" where
  "store_unsigned n dest value c =
     (if n = 8 then Some (value, put_word dest value c)
      else if n = 4 then Some (ucast (ucast value :: u32), put_word dest (ucast value :: u32) c)
      else if n = 2 then Some (ucast (ucast value :: u16), put_word dest (ucast value :: u16) c)
      else if n = 1 then Some (ucast (ucast value :: u8), put_word dest (ucast value :: u8) c)
      else None)"

definition finish_integer :: "u64 \<Rightarrow> (u64 \<times> cstate) option \<Rightarrow> dst \<Rightarrow> bool \<times> dst" where
  "finish_integer value stored d =
     (case stored of
        None \<Rightarrow> d_error ''invalid data_size'' d
      | Some (clamped, c) \<Rightarrow>
          (if clamped \<noteq> value then d_error ''integer too large'' (fst d, c) else (True, fst d, c)))"

definition pb_dec_varint :: pb_decoder_t where
  "pb_dec_varint d field dest =
     with_some (on_stream pb_decode_varint d) (\<lambda>value d.
       let svalue = (if data_size field = 8 then value else scast (ucast value :: u32))
       in finish_integer svalue (store_signed (data_size field) dest svalue (snd d)) d)"

definition pb_dec_uvarint :: pb_decoder_t where
  "pb_dec_uvarint d field dest =
     with_some (on_stream pb_decode_varint d) (\<lambda>value d.
       finish_integer value (store_unsigned (data_size field) dest value (snd d)) d)"

definition pb_dec_svarint :: pb_decoder_t where
  "pb_dec_svarint d field dest =
     with_some (on_stream pb_decode_svarint d) (\<lambda>value d.
       finish_integer value (store_signed (data_size field) dest value (snd d)) d)"

definition pb_dec_fixed32 :: pb_decoder_t where
  "pb_dec_fixed32 d field dest =
     with_some (on_stream pb_decode_fixed32 d) (\<lambda>value d. (True, on_heap (put_word dest value) d))"

definition pb_dec_fixed64 :: pb_decoder_t where
  "pb_dec_fixed64 d field dest =
     with_some (on_stream pb_decode_fixed64 d) (\<lambda>value d. (True, on_heap (put_word dest value) d))"

definition pb_dec_bytes :: "dec_env \<Rightarrow> pb_decoder_t" where
  "pb_dec_bytes env d field dest =
     with_some (on_stream pb_decode_varint32 d) (\<lambda>count d.
       let alloc_size = PB_BYTES_ARRAY_T_ALLOCSIZE count in
       if PB_SIZE_MAX < unat count then d_error ''bytes overflow'' d
       else if alloc_size < ucast count then d_error ''size too large'' d
       else
         case (if PB_ATYPE (ftype field) = PB_ATYPE_POINTER then allocate_field env d dest alloc_size 1
               else if data_size field < unat alloc_size then d_error ''bytes overflow'' d
               else (True, d)) of
           (False, d) \<Rightarrow> (False, d)
         | (True, d) \<Rightarrow>
             (let bdest = (if PB_ATYPE (ftype field) = PB_ATYPE_POINTER then load_ptr (d_mem d) dest else dest)
              in pb_read_to (on_heap (put_word bdest count) d) (bdest + 4) (unat count)))"

definition pb_dec_string :: "dec_env \<Rightarrow> pb_decoder_t" where
  "pb_dec_string env d field dest =
     with_some (on_stream pb_decode_varint32 d) (\<lambda>count d.
       let alloc_size = ucast (count + 1) :: u64 in
       if alloc_size < ucast count then d_error ''size too large'' d
       else
         case (if PB_ATYPE (ftype field) = PB_ATYPE_POINTER then allocate_field env d dest alloc_size 1
               else if data_size field < unat alloc_size then d_error ''string overflow'' d
               else (True, d)) of
           (False, d) \<Rightarrow> (False, d)
         | (True, d) \<Rightarrow>
             (let dest = (if PB_ATYPE (ftype field) = PB_ATYPE_POINTER then load_ptr (d_mem d) dest else dest)
              in case pb_read_to d dest (unat count) of
                   (status, d) \<Rightarrow> (status, on_heap (put (dest + int (unat count)) [0]) d)))"

text \<open>
  What a level of the recursion calls: \<open>pb_decode_noinit\<close> and \<open>pb_decode\<close> of the next
  level (array entries need the second), \<open>pb_message_set_to_defaults\<close> of submessages, and
  \<open>pb_release_single_field\<close>.
\<close>

record level =
  l_noinit :: msg_decoder
  l_decode :: msg_decoder
  l_defaults :: "pb_field list \<Rightarrow> addr \<Rightarrow> cstate \<Rightarrow> cstate"
  l_release :: "pb_field_iter \<Rightarrow> cstate \<Rightarrow> cstate"

definition pb_dec_submessage :: "level \<Rightarrow> pb_decoder_t" where
  "pb_dec_submessage L d field dest =
     (if ptr field = PNull
      then with_some (on_stream pb_make_string_substream d)
             (\<lambda>substream d. d_error ''invalid field descriptor'' d)
      else in_substream (\<lambda>d.
             if PB_HTYPE (ftype field) = PB_HTYPE_REPEATED
             then l_decode L d (sub_fields (ptr field)) dest
             else l_noinit L d (sub_fields (ptr field)) dest) d)"

definition pb_dec_fixed_length_bytes :: pb_decoder_t where
  "pb_dec_fixed_length_bytes d field dest =
     with_some (on_stream pb_decode_varint32 d) (\<lambda>count d.
       if PB_SIZE_MAX < unat count then d_error ''bytes overflow'' d
       else if count = 0 then (True, on_heap (c_memset0 dest (data_size field)) d)
       else if unat count \<noteq> data_size field then d_error ''incorrect fixed length bytes size'' d
       else pb_read_to d dest (data_size field))"

text \<open>
  The table \<open>PB_DECODERS\<close>; calling its NULL entry or one past its end is undefined in C and
  fails here.
\<close>

definition PB_DECODERS :: "level \<Rightarrow> dec_env \<Rightarrow> pb_type_t \<Rightarrow> pb_decoder_t" where
  "PB_DECODERS L env lt =
     (if lt = PB_LTYPE_BOOL then pb_dec_bool
      else if lt = PB_LTYPE_VARINT then pb_dec_varint
      else if lt = PB_LTYPE_UVARINT then pb_dec_uvarint
      else if lt = PB_LTYPE_SVARINT then pb_dec_svarint
      else if lt = PB_LTYPE_FIXED32 then pb_dec_fixed32
      else if lt = PB_LTYPE_FIXED64 then pb_dec_fixed64
      else if lt = PB_LTYPE_BYTES then pb_dec_bytes env
      else if lt = PB_LTYPE_STRING then pb_dec_string env
      else if lt = PB_LTYPE_SUBMESSAGE then pb_dec_submessage L
      else if lt = PB_LTYPE_FIXED_LENGTH_BYTES then pb_dec_fixed_length_bytes
      else (\<lambda>d field dest. (False, d)))"

section \<open>Static fields\<close>

text \<open>
  The offset of an array entry: in C a product of two 32-bit integers, so it wraps.
\<close>

definition entry_offset :: "pb_field \<Rightarrow> u32 \<Rightarrow> int" where
  "entry_offset pos i = uint (of_nat (data_size pos) * i :: u32)"

definition get_size :: "pb_field_iter \<Rightarrow> dst \<Rightarrow> u32" where
  "get_size it d = load_word (d_mem d) (pSize it)"

definition set_size :: "pb_field_iter \<Rightarrow> u32 \<Rightarrow> dst \<Rightarrow> dst" where
  "set_size it n d = on_heap (put_word (pSize it) n) d"

text \<open>
  The loop over a packed array, at most \<open>rounds\<close> times; every entry takes a byte of the
  substream at least, so its length bounds the rounds. The result is the status.
\<close>

primrec packed_static_loop ::
  "nat \<Rightarrow> (dst \<Rightarrow> pb_field \<Rightarrow> addr \<Rightarrow> bool \<times> dst) \<Rightarrow> pb_field_iter \<Rightarrow> dst \<Rightarrow> bool \<times> dst" where
  "packed_static_loop 0 func it d = (if d_left d = 0 then (True, d) else get_stuck d)"
| "packed_static_loop (Suc rounds) func it d =
     (if 0 < d_left d \<and> unat (get_size it d) < array_size (iter_field it)
      then and_then (func d (iter_field it) (pData it + entry_offset (iter_field it) (get_size it d)))
             (\<lambda>d. packed_static_loop rounds func it (set_size it (get_size it d + 1) d))
      else (True, d))"

definition decode_static_field :: "level \<Rightarrow> dec_env \<Rightarrow> dst \<Rightarrow> u32 \<Rightarrow> pb_field_iter \<Rightarrow> bool \<times> dst" where
  "decode_static_field L env d wire_type it =
     (let pos = iter_field it;
          type = ftype pos;
          func = PB_DECODERS L env (PB_LTYPE type)
      in if PB_HTYPE type = PB_HTYPE_REQUIRED then func d pos (pData it)
         else if PB_HTYPE type = PB_HTYPE_OPTIONAL then
           func (if pSize it \<noteq> pData it then on_heap (put_bool (pSize it) True) d else d) pos (pData it)
         else if PB_HTYPE type = PB_HTYPE_REPEATED then
           (if wire_type = PB_WT_STRING \<and> PB_LTYPE type \<le> PB_LTYPE_LAST_PACKABLE then
              with_some (on_stream pb_make_string_substream d) (\<lambda>substream d.
                case packed_static_loop (bytes_left substream) func it (substream, snd d) of
                  (status, substream, c) \<Rightarrow>
                    (if bytes_left substream \<noteq> 0 then d_error ''array overflow'' (fst d, c)
                     else
                       (case pb_close_string_substream (fst d) substream of
                          (False, s) \<Rightarrow> (False, s, c)
                        | (True, s) \<Rightarrow> (status, s, c))))
            else
              let n = get_size it d;
                  item = pData it + entry_offset pos n;
                  d = set_size it (n + 1) d
              in if array_size pos \<le> unat n then d_error ''array overflow'' d else func d pos item)
         else
           let d = set_size it (tag pos) d;
               d = (if PB_LTYPE type = PB_LTYPE_SUBMESSAGE
                    then on_heap (\<lambda>c. l_defaults L (sub_fields (ptr pos)) (pData it)
                           (c_memset0 (pData it) (data_size pos) c)) d
                    else d)
           in func d pos (pData it))"

section \<open>Pointer fields\<close>

text \<open>
  The loop over a packed array of an allocated field. Besides the status it returns whether
  the parent stream's error message was set: closing the substream overwrites it.
\<close>

primrec packed_pointer_loop ::
  "nat \<Rightarrow> dec_env \<Rightarrow> (dst \<Rightarrow> pb_field \<Rightarrow> addr \<Rightarrow> bool \<times> dst) \<Rightarrow>
     (addr \<Rightarrow> cstate \<Rightarrow> cstate) \<Rightarrow> pb_field_iter \<Rightarrow> u64 \<Rightarrow> dst \<Rightarrow> (bool \<times> bool) \<times> dst" where
  "packed_pointer_loop 0 env func init it allocated d =
     (if d_left d = 0 then ((True, False), d) else ((False, False), snd (get_stuck d)))"
| "packed_pointer_loop (Suc rounds) env func init it allocated d =
     (if d_left d = 0 then ((True, False), d)
      else
        let pos = iter_field it;
            n = get_size it d
        in if unat n = PB_SIZE_MAX then ((False, True), d)
        else
          let grow = (allocated < ucast n + 1);
              remain = of_nat ((d_left d - 1) div data_size pos + 1) :: u64;
              allocated' = (if \<not> grow then allocated
                            else if remain < of_nat PB_SIZE_MAX - allocated then allocated + remain
                            else allocated + 1)
          in case (if grow then allocate_field env d (pData it) (of_nat (data_size pos)) allocated'
                   else (True, d)) of
               (False, d) \<Rightarrow> ((False, False), d)
             | (True, d) \<Rightarrow>
                 (let item = load_ptr (d_mem d) (pData it) + entry_offset pos (get_size it d)
                  in case func (on_heap (init item) d) pos item of
                       (False, d) \<Rightarrow> ((False, False), d)
                     | (True, d) \<Rightarrow>
                         packed_pointer_loop rounds env func init it allocated'
                           (set_size it (get_size it d + 1) d)))"

definition decode_pointer_field :: "level \<Rightarrow> dec_env \<Rightarrow> dst \<Rightarrow> u32 \<Rightarrow> pb_field_iter \<Rightarrow> bool \<times> dst" where
  "decode_pointer_field L env d wire_type it =
     (let pos = iter_field it;
          type = ftype pos;
          func = PB_DECODERS L env (PB_LTYPE type);
          init = (\<lambda>item. initialize_pointer_field (l_defaults L) item pos)
      in if PB_HTYPE type \<noteq> PB_HTYPE_REPEATED then
           (let d = (if PB_LTYPE type = PB_LTYPE_SUBMESSAGE \<and> load_ptr (d_mem d) (pData it) \<noteq> 0
                     then on_heap (l_release L it) d else d);
                d = (if PB_HTYPE type = PB_HTYPE_ONEOF then set_size it (tag pos) d else d)
            in if PB_LTYPE type = PB_LTYPE_STRING \<or> PB_LTYPE type = PB_LTYPE_BYTES
               then func d pos (pData it)
               else
                 and_then (allocate_field env d (pData it) (of_nat (data_size pos)) 1) (\<lambda>d.
                   let item = load_ptr (d_mem d) (pData it);
                       d = on_heap (init item) d
                   in func d pos (load_ptr (d_mem d) (pData it))))
         else if wire_type = PB_WT_STRING \<and> PB_LTYPE type \<le> PB_LTYPE_LAST_PACKABLE then
           with_some (on_stream pb_make_string_substream d) (\<lambda>substream d.
             case packed_pointer_loop (bytes_left substream) env func init it
                    (ucast (get_size it d)) (substream, snd d) of
               ((status, too_many), substream, c) \<Rightarrow>
                 (let s = (if too_many then (fst d)\<lparr>i_errmsg := Some ''too many array entries''\<rparr> else fst d)
                  in case pb_close_string_substream s substream of
                       (False, s) \<Rightarrow> (False, s, c)
                     | (True, s) \<Rightarrow> (status, s, c)))
         else
           (let n = get_size it d
            in if unat n = PB_SIZE_MAX then d_error ''too many array entries'' d
               else
                 and_then (allocate_field env d (pData it) (of_nat (data_size pos)) (ucast (n + 1))) (\<lambda>d.
                   let item = load_ptr (d_mem d) (pData it) + entry_offset pos (get_size it d);
                       d = set_size it (get_size it d + 1) d;
                       d = on_heap (init item) d
                   in func d pos item)))"

section \<open>Callback fields\<close>

text \<open>
  The loop that hands a string to a callback until the callback has read all of it. A call
  that leaves the substream as long as it was would be repeated for ever by a callback without
  state of its own; the model stops there and sets \<open>stuck\<close>.
\<close>

lemma d_left_Pair [simp]: "d_left (s, c) = bytes_left s"
  by (simp add: d_left_def)

function callback_loop :: "dec_env \<Rightarrow> pb_field_iter \<Rightarrow> dst \<Rightarrow> bool \<times> dst" where
  "callback_loop env it d =
     and_then (decode_callback env (load_ptr (d_mem d) (pData it)) d (iter_field it) (pData it + 8)) (\<lambda>d'.
       if d_left d' = 0 then (True, d')
       else if d_left d' < d_left d then callback_loop env it d'
       else get_stuck d')"
  by pat_completeness auto
termination
  by (relation "measure (\<lambda>(env, it, d). d_left d)") auto

declare callback_loop.simps [simp del]

definition decode_callback_field :: "dec_env \<Rightarrow> dst \<Rightarrow> u32 \<Rightarrow> pb_field_iter \<Rightarrow> bool \<times> dst" where
  "decode_callback_field env d wire_type it =
     (let f = load_ptr (d_mem d) (pData it)
      in if pData it = 0 \<or> f = 0
         then with_some (on_stream (\<lambda>s. pb_skip_field s wire_type) d) (\<lambda>u d. (True, d))
         else if wire_type = PB_WT_STRING then
           with_some (on_stream pb_make_string_substream d) (\<lambda>substream d.
             case callback_loop env it (substream, snd d) of
               (False, substream, c) \<Rightarrow> d_error ''callback failed'' (fst d, c)
             | (True, substream, c) \<Rightarrow>
                 (case pb_close_string_substream (fst d) substream of (ok, s) \<Rightarrow> (ok, s, c)))
         else
           with_some (on_stream (\<lambda>s. read_raw_value s wire_type 10) d) (\<lambda>buffer d.
             case decode_callback env f (pb_istream_from_buffer buffer (length buffer), snd d)
                    (iter_field it) (pData it + 8) of
               (status, substream, c) \<Rightarrow> (status, fst d, c)))"

section \<open>Fields\<close>

text \<open>
  The release of the previous member of a oneof moves the iterator there and back again; the
  functions that may move it return it.
\<close>

definition pb_release_union_field :: "level \<Rightarrow> dst \<Rightarrow> pb_field_iter \<Rightarrow> bool \<times> dst \<times> pb_field_iter" where
  "pb_release_union_field L d it =
     (let old_tag = get_size it d;
          new_tag = tag (iter_field it)
      in if old_tag = 0 \<or> old_tag = new_tag then (True, d, it)
         else
           (case pb_field_iter_find it old_tag of
              (False, it) \<Rightarrow> (False, snd (d_error ''invalid union tag'' d), it)
            | (True, it) \<Rightarrow>
                (let d = on_heap (l_release L it) d
                 in case pb_field_iter_find it new_tag of
                      (False, it) \<Rightarrow> (False, snd (d_error ''iterator error'' d), it)
                    | (True, it) \<Rightarrow> (True, d, it))))"

definition decode_field :: "level \<Rightarrow> dec_env \<Rightarrow> dst \<Rightarrow> u32 \<Rightarrow> pb_field_iter \<Rightarrow> bool \<times> dst \<times> pb_field_iter" where
  "decode_field L env d wire_type it =
     and_then
       (if PB_HTYPE (ftype (iter_field it)) = PB_HTYPE_ONEOF then pb_release_union_field L d it
        else (True, d, it))
       (\<lambda>(d, it).
         let at = PB_ATYPE (ftype (iter_field it));
             r = (if at = PB_ATYPE_STATIC then decode_static_field L env d wire_type it
                  else if at = PB_ATYPE_POINTER then decode_pointer_field L env d wire_type it
                  else if at = PB_ATYPE_CALLBACK then decode_callback_field env d wire_type it
                  else d_error ''invalid field type'' d)
         in (fst r, snd r, it))"

section \<open>Extensions\<close>

definition default_extension_decoder ::
  "level \<Rightarrow> dec_env \<Rightarrow> dst \<Rightarrow> pb_extension \<Rightarrow> u32 \<Rightarrow> u32 \<Rightarrow> bool \<times> dst" where
  "default_extension_decoder L env d extension t wire_type =
     (if tag (ext_arg extension) \<noteq> t then (True, d)
      else
        let it = iter_from_extension (d_mem d) extension;
            d = on_heap (put_bool (ext_found_addr extension) True) d
        in case decode_field L env d wire_type it of (status, d, it) \<Rightarrow> (status, d))"

text \<open>The loop over the list of extensions; it ends when one of them has read something.\<close>

fun decode_extensions ::
  "level \<Rightarrow> dec_env \<Rightarrow> nat \<Rightarrow> dst \<Rightarrow> pb_extension list \<Rightarrow> u32 \<Rightarrow> u32 \<Rightarrow> bool \<times> dst" where
  "decode_extensions L env pos d [] t wire_type = (True, d)"
| "decode_extensions L env pos d (extension # next) t wire_type =
     (if pos = d_left d
      then and_then
        (if ext_decode extension \<noteq> 0
         then extension_decode env (ext_decode extension) d extension t wire_type
         else default_extension_decoder L env d extension t wire_type)
        (\<lambda>d. decode_extensions L env pos d next t wire_type)
      else (True, d))"

definition decode_extension ::
  "level \<Rightarrow> dec_env \<Rightarrow> dst \<Rightarrow> u32 \<Rightarrow> u32 \<Rightarrow> pb_field_iter \<Rightarrow> bool \<times> dst" where
  "decode_extension L env d t wire_type it =
     decode_extensions L env (d_left d) d (d_extensions env (load_ptr (d_mem d) (pData it))) t wire_type"

definition find_extension_field :: "pb_field_iter \<Rightarrow> bool \<times> pb_field_iter" where
  "find_extension_field it = iter_find (\<lambda>f. PB_LTYPE (ftype f) = PB_LTYPE_EXTENSION) it"

section \<open>Messages\<close>

text \<open>
  The local variables of \<open>pb_decode_noinit\<close>; \<open>fixed_count_field\<close> is a pointer into the
  table, an index here. The counter \<open>fixed_count_size\<close> is in the stack slot of the level.
\<close>

record noinit_vars =
  v_iter :: pb_field_iter
  fields_seen :: "u32 list"
  extension_range_start :: u32
  fixed_count_field :: "nat option"

definition stack_slot :: "nat \<Rightarrow> addr" where
  "stack_slot n = - 4 * (int n + 1)"

definition fixed_count_wrong :: "nat \<Rightarrow> noinit_vars \<Rightarrow> dst \<Rightarrow> bool" where
  "fixed_count_wrong n v d =
     (case fixed_count_field v of
        None \<Rightarrow> False
      | Some i \<Rightarrow> unat (load_word (d_mem d) (stack_slot n) :: u32)
                    \<noteq> array_size (field_at (iter_start (v_iter v)) i))"

text \<open>How a round of the main loop ends: it fails, leaves the loop, or goes on.\<close>

datatype 'v round = Return | Break 'v | Continue 'v

definition set_field_seen :: "nat \<Rightarrow> u32 list \<Rightarrow> u32 list" where
  "set_field_seen i seen = seen[i div 32 := seen ! (i div 32) OR push_bit (i mod 32) 1]"

text \<open>The part of a round for a tag that the table does not have.\<close>

definition decode_unknown ::
  "level \<Rightarrow> dec_env \<Rightarrow> dst \<Rightarrow> noinit_vars \<Rightarrow> u32 \<Rightarrow> u32 \<Rightarrow> noinit_vars round \<times> dst" where
  "decode_unknown L env d v t wire_type =
     (let v = (if extension_range_start v \<le> t
               then (case find_extension_field (v_iter v) of
                       (False, it) \<Rightarrow> v\<lparr>v_iter := it, extension_range_start := - 1\<rparr>
                     | (True, it) \<Rightarrow> v\<lparr>v_iter := it, extension_range_start := tag (iter_field it)\<rparr>)
               else v);
          skip = (\<lambda>d. case on_stream (\<lambda>s. pb_skip_field s wire_type) d of
                        (None, d) \<Rightarrow> (Return, d)
                      | (Some u, d) \<Rightarrow> (Continue v, d))
      in if extension_range_start v \<le> t
         then (case decode_extension L env d t wire_type (v_iter v) of
                 (False, d') \<Rightarrow> (Return, d')
               | (True, d') \<Rightarrow> if d_left d \<noteq> d_left d' then (Continue v, d') else skip d')
         else skip d)"

text \<open>The part of a round for a field of the table, with the iterator on it.\<close>

definition decode_known ::
  "nat \<Rightarrow> level \<Rightarrow> dec_env \<Rightarrow> dst \<Rightarrow> noinit_vars \<Rightarrow> u32 \<Rightarrow> noinit_vars round \<times> dst" where
  "decode_known n L env d v wire_type =
     (let it = v_iter v;
          pos = iter_field it;
          is_fixed = (PB_HTYPE (ftype pos) = PB_HTYPE_REPEATED \<and> pSize it = pData it);
          is_new = (is_fixed \<and> fixed_count_field v \<noteq> Some (iter_pos it))
      in if is_new \<and> fixed_count_wrong n v d
         then (Return, snd (d_error ''wrong size for fixed count field'' d))
         else
           let d = (if is_new then on_heap (put_word (stack_slot n) (0 :: u32)) d else d);
               v = (if is_new then v\<lparr>fixed_count_field := Some (iter_pos it)\<rparr> else v);
               it = (if is_fixed then it\<lparr>pSize := stack_slot n\<rparr> else it);
               v = (if PB_HTYPE (ftype pos) = PB_HTYPE_REQUIRED \<and>
                       required_field_index it < PB_MAX_REQUIRED_FIELDS
                    then v\<lparr>fields_seen := set_field_seen (required_field_index it) (fields_seen v)\<rparr>
                    else v)
           in case decode_field L env d wire_type it of
                (False, d, it) \<Rightarrow> (Return, d)
              | (True, d, it) \<Rightarrow> (Continue (v\<lparr>v_iter := it\<rparr>), d))"

definition decode_round ::
  "nat \<Rightarrow> level \<Rightarrow> dec_env \<Rightarrow> dst \<Rightarrow> noinit_vars \<Rightarrow> noinit_vars round \<times> dst" where
  "decode_round n L env d v =
     (case pb_decode_tag (fst d) of
        (None, eof, s) \<Rightarrow> (if eof then Break v else Return, s, snd d)
      | (Some (wire_type, t), eof, s) \<Rightarrow>
          (case pb_field_iter_find (v_iter v) t of
             (False, it) \<Rightarrow> decode_unknown L env (s, snd d) (v\<lparr>v_iter := it\<rparr>) t wire_type
           | (True, it) \<Rightarrow> decode_known n L env (s, snd d) (v\<lparr>v_iter := it\<rparr>) wire_type))"

text \<open>
  The loop while the stream has bytes left; \<open>None\<close> when the function returns from it. A
  round reads a tag, so bytes are left for fewer rounds each time unless user code gives bytes
  back, where the model stops.
\<close>

function decode_loop :: "nat \<Rightarrow> level \<Rightarrow> dec_env \<Rightarrow> dst \<Rightarrow> noinit_vars \<Rightarrow> noinit_vars option \<times> dst" where
  "decode_loop n L env d v =
     (if d_left d = 0 then (Some v, d)
      else
        case decode_round n L env d v of
          (Return, d') \<Rightarrow> (None, d')
        | (Break v', d') \<Rightarrow> (Some v', d')
        | (Continue v', d') \<Rightarrow>
            if d_left d' < d_left d then decode_loop n L env d' v' else (None, snd (get_stuck d')))"
  by pat_completeness auto
termination
  by (relation "measure (\<lambda>(n, L, env, d, v). d_left d)") auto

declare decode_loop.simps [simp del]

text \<open>
  The number of required fields, by running the iterator to the end of the table; the second
  component is the type of the last field.
\<close>

function seek_end :: "pb_field_iter \<Rightarrow> nat \<times> pb_type_t \<times> pb_field_iter" where
  "seek_end it =
     (case pb_field_iter_next it of
        (True, it') \<Rightarrow> seek_end it'
      | (False, it') \<Rightarrow> (required_field_index it, ftype (iter_field it), it'))"
  by pat_completeness auto
termination
  by (relation "measure (\<lambda>it. length (iter_start it) - iter_pos it)") (auto dest: iter_next_less)

declare seek_end.simps [simp del]

definition required_fields_seen :: "nat \<Rightarrow> u32 list \<Rightarrow> bool" where
  "required_fields_seen count seen \<longleftrightarrow>
     list_all (\<lambda>i. seen ! i = - 1) [0..<count div 32] \<and>
     (count mod 32 \<noteq> 0 \<longrightarrow> seen ! (count div 32) = drop_bit (32 - count mod 32) (- 1))"

definition decode_message :: "nat \<Rightarrow> level \<Rightarrow> dec_env \<Rightarrow> msg_decoder" where
  "decode_message n L env d fs dest =
     (let d = on_heap (put_word (stack_slot n) (0 :: u32)) d;
          v = \<lparr>v_iter = snd (pb_field_iter_begin fs dest), fields_seen = [0, 0],
               extension_range_start = 0, fixed_count_field = None\<rparr>
      in case decode_loop n L env d v of
           (None, d) \<Rightarrow> (False, d)
         | (Some v, d) \<Rightarrow>
             (if fixed_count_wrong n v d then d_error ''wrong size for fixed count field'' d
              else
                case seek_end (v_iter v) of
                  (req, last_type, it) \<Rightarrow>
                    (let req = (if PB_HTYPE last_type = PB_HTYPE_REQUIRED \<and> tag (iter_field it) \<noteq> 0
                                then req + 1 else req);
                         req = (if PB_MAX_REQUIRED_FIELDS < req then PB_MAX_REQUIRED_FIELDS else req)
                     in if required_fields_seen req (fields_seen v) then (True, d)
                        else d_error ''missing required field'' d)))"

definition decode_with_init ::
  "(pb_field list \<Rightarrow> addr \<Rightarrow> cstate \<Rightarrow> cstate) \<Rightarrow> (pb_field list \<Rightarrow> addr \<Rightarrow> cstate \<Rightarrow> cstate) \<Rightarrow>
     msg_decoder \<Rightarrow> msg_decoder" where
  "decode_with_init defaults release noinit d fs dest =
     (case noinit (on_heap (defaults fs dest) d) fs dest of
        (True, d) \<Rightarrow> (True, d)
      | (False, d) \<Rightarrow> (False, on_heap (release fs dest) d))"

definition level_of :: "nat \<Rightarrow> dec_env \<Rightarrow> msg_decoder \<Rightarrow> level" where
  "level_of n env noinit =
     (let exts = d_extensions env in
      \<lparr>l_noinit = noinit,
       l_decode = decode_with_init (pb_message_set_to_defaults n exts) (pb_release n exts) noinit,
       l_defaults = pb_message_set_to_defaults n exts,
       l_release = pb_release_single_field (Suc n) exts\<rparr>)"

primrec pb_decode_noinit :: "nat \<Rightarrow> dec_env \<Rightarrow> msg_decoder" where
  "pb_decode_noinit 0 env d fs dest = get_stuck d"
| "pb_decode_noinit (Suc n) env d fs dest =
     decode_message n (level_of n env (pb_decode_noinit n env)) env d fs dest"

definition pb_decode :: "nat \<Rightarrow> dec_env \<Rightarrow> msg_decoder" where
  "pb_decode n env d fs dest =
     decode_with_init (pb_message_set_to_defaults n (d_extensions env))
       (pb_release n (d_extensions env)) (pb_decode_noinit n env) d fs dest"

definition pb_decode_delimited_noinit :: "nat \<Rightarrow> dec_env \<Rightarrow> msg_decoder" where
  "pb_decode_delimited_noinit n env d fs dest = in_substream (\<lambda>d. pb_decode_noinit n env d fs dest) d"

definition pb_decode_delimited :: "nat \<Rightarrow> dec_env \<Rightarrow> msg_decoder" where
  "pb_decode_delimited n env d fs dest = in_substream (\<lambda>d. pb_decode n env d fs dest) d"

definition pb_decode_nullterminated :: "nat \<Rightarrow> dec_env \<Rightarrow> msg_decoder" where
  "pb_decode_nullterminated n env d fs dest = pb_decode n env d fs dest"

end
