(* ===== verification/DecodeSafety.thy ===== *)
theory DecodeSafety
  imports PbDecode PbLayout
begin

text \<open>
  Memory safety and termination of the decoder on static tables, for every input. A
  \<open>static_table\<close> describes a structure of a given size whose fields are all inside it, with
  no pointers, callbacks or extensions. Whatever bytes arrive, from whatever stream,
  \<open>pb_decode\<close> writes only inside the structure and to its own local variables, leaves the
  heap alone, never gets \<open>stuck\<close> and never gives input bytes back. The locale
  \<open>safe_level\<close> is the contract between one nesting level and the next.
\<close>

section \<open>Frames of a decoder\<close>

definition cframe :: "addr set \<Rightarrow> cstate \<Rightarrow> cstate \<Rightarrow> bool" where
  "cframe A c c' \<longleftrightarrow> same_outside A (mem c) (mem c') \<and> blocks c' = blocks c \<and>
     bad_free c' = bad_free c \<and> stuck c' = stuck c"

definition safe_at :: "addr set \<Rightarrow> dst \<Rightarrow> 'r \<times> dst \<Rightarrow> bool" where
  "safe_at A d r \<longleftrightarrow> cframe A (snd d) (snd (snd r)) \<and> d_left (snd r) \<le> d_left d"

named_theorems frames \<open>frame rules of the operations on the C state\<close>
named_theorems safes \<open>safety rules of the decoder\<close>

lemma cframe_refl [simp, intro]: "cframe A c c"
  by (simp add: cframe_def)

lemma cframe_trans: "cframe A c c' \<Longrightarrow> cframe A c' c'' \<Longrightarrow> cframe A c c''"
  by (auto simp: cframe_def intro: same_outside_trans)

lemma cframe_mono: "cframe A c c' \<Longrightarrow> A \<subseteq> B \<Longrightarrow> cframe B c c'"
  by (auto simp: cframe_def intro: same_outside_mono)

lemma cframe_put [frames]: "{a ..< a + int (length bs)} \<subseteq> A \<Longrightarrow> cframe A c (put a bs c)"
  by (simp add: cframe_def put_def same_outside_store_bytes)

lemma cframe_put_word [frames]:
  "{a ..< a + int (LENGTH('a :: len) div 8)} \<subseteq> A \<Longrightarrow> cframe A c (put_word a (w :: 'a word) c)"
  by (simp add: cframe_def put_word_def same_outside_store_word)

lemma cframe_put_bool [frames]: "a \<in> A \<Longrightarrow> cframe A c (put_bool a b c)"
proof -
  assume "a \<in> A"
  then have "{a ..< a + int (LENGTH(8) div 8)} \<subseteq> A" by auto
  then show ?thesis
    unfolding cframe_def put_bool_def store_bool_def by (simp add: same_outside_store_word)
qed

lemma cframe_memset0 [frames]: "{a ..< a + int n} \<subseteq> A \<Longrightarrow> cframe A c (c_memset0 a n c)"
  by (simp add: c_memset0_def cframe_put)

lemma safe_at_return [safes]: "safe_at A d (r, d)"
  by (simp add: safe_at_def)

lemma safe_at_error [safes]: "safe_at A d (d_error msg d)"
  by (simp add: safe_at_def d_error_def d_left_def PB_SET_IERROR_def)

lemma safe_at_and_then:
  assumes "safe_at A d r" and "\<And>d'. r = (True, d') \<Longrightarrow> safe_at A d' (k d')"
  shows "safe_at A d (and_then r k)"
proof -
  obtain b d' where "r = (b, d')" by (rule prod.exhaust)
  then show ?thesis using assms
    by (cases b) (auto simp: safe_at_def intro: cframe_trans)
qed

lemma safe_at_with_some:
  assumes "safe_at A d r" and "\<And>a d'. r = (Some a, d') \<Longrightarrow> safe_at A d' (k a d')"
  shows "safe_at A d (with_some r k)"
proof -
  obtain b d' where "r = (b, d')" by (rule prod.exhaust)
  then show ?thesis using assms
    by (cases b) (auto simp: safe_at_def intro: cframe_trans)
qed

lemma safe_at_heap:
  assumes "cframe A (snd d) (h (snd d))" and "safe_at A (on_heap h d) r"
  shows "safe_at A d r"
  using assms by (auto simp: safe_at_def on_heap_def d_left_def intro: cframe_trans)

lemma safe_at_on_heap [safes]: "cframe A (snd d) (h (snd d)) \<Longrightarrow> safe_at A d (r, on_heap h d)"
  by (simp add: safe_at_def on_heap_def d_left_def)

lemma safe_at_mono: "safe_at A d r \<Longrightarrow> A \<subseteq> B \<Longrightarrow> safe_at B d r"
  by (auto simp: safe_at_def intro: cframe_mono)

section \<open>The stream only shrinks\<close>

definition shrinks :: "(pb_istream \<Rightarrow> 'a option \<times> pb_istream) \<Rightarrow> bool" where
  "shrinks f \<longleftrightarrow> (\<forall>s. bytes_left (snd (f s)) \<le> bytes_left s \<and>
     (fst (f s) \<noteq> None \<longrightarrow> bytes_left (snd (f s)) < bytes_left s))"

lemma shrinksI:
  "(\<And>s r s'. f s = (r, s') \<Longrightarrow> bytes_left s' \<le> bytes_left s \<and> (r \<noteq> None \<longrightarrow> bytes_left s' < bytes_left s)) \<Longrightarrow> shrinks f"
  unfolding shrinks_def by (metis prod.collapse)

lemma shrinksD:
  "shrinks f \<Longrightarrow> f s = (r, s') \<Longrightarrow> bytes_left s' \<le> bytes_left s"
  "shrinks f \<Longrightarrow> f s = (Some v, s') \<Longrightarrow> bytes_left s' < bytes_left s"
  unfolding shrinks_def by (metis fst_conv snd_conv option.distinct(1))+

lemma shrinks_bind: "shrinks f \<Longrightarrow> (\<And>a s. bytes_left (snd (g a s)) \<le> bytes_left s) \<Longrightarrow> shrinks (\<lambda>s. bind_some (f s) g)"
  unfolding shrinks_def bind_some_def
  by (auto split: prod.splits option.splits)
    (metis dual_order.trans fst_conv less_le_not_le option.distinct(1) snd_conv le_less_trans less_imp_le)+

lemma shrinks_readbyte: "shrinks pb_readbyte"
  by (rule shrinksI)
    (auto simp: pb_readbyte_def PB_RETURN_IERROR_def PB_SET_IERROR_def dest: istream_callback_bytes_left
      split: if_splits prod.splits option.splits)

lemma read_into_left: "bytes_left (snd (pb_read_into s n)) \<le> bytes_left s"
  by (auto simp: pb_read_into_def PB_RETURN_IERROR_def PB_SET_IERROR_def dest: istream_callback_bytes_left
      split: if_splits prod.splits option.splits)

lemma shrinks_read_into: "0 < n \<Longrightarrow> shrinks (\<lambda>s. pb_read_into s n)"
proof (rule shrinksI)
  fix s r s' assume n: "0 < n" and r: "pb_read_into s n = (r, s')"
  have "bytes_left s' \<le> bytes_left s" using read_into_left [of s n] r by simp
  moreover have "bytes_left s' < bytes_left s" if "r \<noteq> None"
    using that r n pb_read_into_left [of s n] by fastforce
  ultimately show "bytes_left s' \<le> bytes_left s \<and> (r \<noteq> None \<longrightarrow> bytes_left s' < bytes_left s)" by simp
qed

lemma left_ierror [simp]: "bytes_left (PB_SET_IERROR msg s) = bytes_left s"
  by (simp add: PB_SET_IERROR_def)

lemma bind_some_left:
  assumes "bytes_left (snd r) \<le> n" and "\<And>a s. r = (Some a, s) \<Longrightarrow> bytes_left (snd (k a s)) \<le> bytes_left s"
  shows "bytes_left (snd (bind_some r k)) \<le> n"
  using assms by (cases r) (fastforce simp: bind_some_def split: option.splits)

lemma readbyte_left: "bytes_left (snd (pb_readbyte s)) \<le> bytes_left s"
  using shrinks_readbyte by (simp add: shrinks_def)

lemma decode_varint32_loop_left: "bytes_left (snd (decode_varint32_loop s bitpos result)) \<le> bytes_left s"
proof (induction s bitpos result rule: decode_varint32_loop.induct)
  case (1 s bitpos result)
  show ?case
    by (subst decode_varint32_loop.simps) (rule bind_some_left [OF readbyte_left], auto simp: Let_def 1)
qed

lemma decode_varint_loop_left: "bytes_left (snd (decode_varint_loop s bitpos result)) \<le> bytes_left s"
proof (induction s bitpos result rule: decode_varint_loop.induct)
  case (1 s bitpos result)
  show ?case
  proof (cases "64 \<le> bitpos")
    case True
    then show ?thesis by (subst decode_varint_loop.simps) simp
  next
    case False
    then show ?thesis
      by (subst decode_varint_loop.simps)
        (simp, rule bind_some_left [OF readbyte_left], auto simp: Let_def 1)
  qed
qed

lemma shrinks_error: "shrinks (PB_RETURN_IERROR msg)"
  by (rule shrinksI) (auto simp: PB_RETURN_IERROR_def)

lemma shrinks_varint [safes]: "shrinks pb_decode_varint"
proof -
  have E: "pb_decode_varint = (\<lambda>s. bind_some (pb_readbyte s) (\<lambda>byte s.
      let result' = 0 OR push_bit (unat (0 :: u8)) (ucast (byte AND 0x7F))
      in if byte AND 0x80 \<noteq> 0 then decode_varint_loop s (0 + 7) result' else (Some result', s)))"
    by (rule ext, simp only: pb_decode_varint_def, subst decode_varint_loop.simps) simp
  show ?thesis
    unfolding E by (rule shrinks_bind [OF shrinks_readbyte]) (simp add: Let_def decode_varint_loop_left)
qed

lemma shrinks_varint32_eof: "shrinks (\<lambda>s. (fst (pb_decode_varint32_eof s), snd (snd (pb_decode_varint32_eof s))))"
proof (rule shrinksI)
  fix s r s' assume r: "(fst (pb_decode_varint32_eof s), snd (snd (pb_decode_varint32_eof s))) = (r, s')"
  show "bytes_left s' \<le> bytes_left s \<and> (r \<noteq> None \<longrightarrow> bytes_left s' < bytes_left s)"
  proof (cases "pb_readbyte s")
    case (Pair b s1)
    show ?thesis
    proof (cases b)
      case None
      then show ?thesis using r Pair readbyte_left [of s] by (auto simp: pb_decode_varint32_eof_def)
    next
      case (Some byte)
      have "bytes_left s1 < bytes_left s" using Pair Some by (simp add: pb_readbyte_less)
      moreover have "bytes_left s' \<le> bytes_left s1"
        using r Pair Some decode_varint32_loop_left [of s1 7 "ucast (byte AND 0x7F)"]
        by (auto simp: pb_decode_varint32_eof_def split: if_splits prod.splits option.splits)
      ultimately show ?thesis by simp
    qed
  qed
qed

lemma shrinks_varint32 [safes]: "shrinks pb_decode_varint32"
  using shrinks_varint32_eof by (simp add: pb_decode_varint32_def [abs_def] case_prod_beta)

lemma shrinks_svarint [safes]: "shrinks pb_decode_svarint"
  unfolding pb_decode_svarint_def [abs_def] by (rule shrinks_bind [OF shrinks_varint]) simp

lemma shrinks_fixed32 [safes]: "shrinks pb_decode_fixed32"
  unfolding pb_decode_fixed32_def [abs_def] by (rule shrinks_bind [OF shrinks_read_into]) simp_all

lemma shrinks_fixed64 [safes]: "shrinks pb_decode_fixed64"
  unfolding pb_decode_fixed64_def [abs_def] by (rule shrinks_bind [OF shrinks_read_into]) simp_all

lemma tag_left: "pb_decode_tag s = (r, eof, s') \<Longrightarrow>
    bytes_left s' \<le> bytes_left s \<and> (r \<noteq> None \<longrightarrow> bytes_left s' < bytes_left s)"
  using shrinks_varint32_eof [unfolded shrinks_def, rule_format, of s]
  by (cases "pb_decode_varint32_eof s") (auto simp: pb_decode_tag_def split: option.splits if_splits)

lemma pb_decode_tag_small: "pb_decode_tag s = (Some (wt, t), eof, s') \<Longrightarrow> t \<noteq> - 1"
proof
  assume "pb_decode_tag s = (Some (wt, t), eof, s')"
  then obtain w :: u32 where w: "t = drop_bit 3 w"
    by (auto simp: pb_decode_tag_def split: prod.splits option.splits if_splits)
  assume t: "t = - 1"
  from w have "unat t < 2 ^ 29"
    using unat_u32_lt [of w] by (simp add: unat_drop_bit_word less_mult_imp_div_less)
  then show False using t by (simp add: unsigned_minus_1_eq_mask mask_eq_exp_minus_1)
qed

lemma skip_varint_left: "bytes_left (snd (pb_skip_varint s)) \<le> bytes_left s"
proof (induction s rule: pb_skip_varint.induct)
  case (1 s)
  show ?case
    by (subst pb_skip_varint.simps) (rule bind_some_left [OF read_into_left], auto simp: 1)
qed

lemma skip_custom_left: "bytes_left (snd (pb_skip_custom s n)) \<le> bytes_left s"
proof (induction s n rule: pb_skip_custom.induct)
  case (1 s n)
  show ?case
  proof (cases "16 < n")
    case True
    then show ?thesis
      by (subst pb_skip_custom.simps) (simp, rule bind_some_left [OF read_into_left], auto simp: 1)
  next
    case False
    then show ?thesis by (subst pb_skip_custom.simps) (simp add: read_into_left)
  qed
qed

lemma read_left: "bytes_left (snd (pb_read s null n)) \<le> bytes_left s"
  by (simp add: pb_read_def skip_custom_left read_into_left)

lemma skip_bytes_left: "bytes_left (snd (pb_skip_bytes s n)) \<le> bytes_left s"
  unfolding pb_skip_bytes_def by (rule bind_some_left [OF read_left]) simp

lemma skip_field_left: "bytes_left (snd (pb_skip_field s wt)) \<le> bytes_left s"
proof -
  have "bytes_left (snd (pb_skip_string s)) \<le> bytes_left s"
    unfolding pb_skip_string_def
    by (rule bind_some_left) (use shrinks_varint32 in \<open>auto simp: shrinks_def skip_bytes_left\<close>)
  then show ?thesis by (simp add: pb_skip_field_def skip_varint_left skip_bytes_left)
qed

lemma substream_left: "pb_make_string_substream s = (r, s') \<Longrightarrow>
    bytes_left s' \<le> bytes_left s \<and> (r \<noteq> None \<longrightarrow> bytes_left s' < bytes_left s)"
  using shrinksD [OF shrinks_varint32, of s]
  by (fastforce simp: pb_make_string_substream_def bind_some_def Let_def PB_RETURN_IERROR_def
      split: prod.splits option.splits if_splits)

lemma close_left: "pb_close_string_substream s sub = (ok, s') \<Longrightarrow> bytes_left s' = bytes_left s"
  by (auto simp: pb_close_string_substream_def split: prod.splits option.splits)

section \<open>The scalar field decoders\<close>

lemma safe_at_stream:
  "(\<And>s. bytes_left (snd (f s)) \<le> bytes_left s) \<Longrightarrow> safe_at A d (on_stream f d)"
  by (auto simp: safe_at_def on_stream_def d_left_def split: prod.splits) (metis snd_conv)

lemma safe_at_shrinks [safes]: "shrinks f \<Longrightarrow> safe_at A d (on_stream f d)"
  by (rule safe_at_stream) (simp add: shrinks_def)

lemma store_signed_safe:
  "store_signed n p v c = Some (v', c') \<Longrightarrow> {p ..< p + int n} \<subseteq> A \<Longrightarrow> cframe A c c'"
  by (auto simp: store_signed_def intro!: frames split: if_splits)

lemma store_unsigned_safe:
  "store_unsigned n p v c = Some (v', c') \<Longrightarrow> {p ..< p + int n} \<subseteq> A \<Longrightarrow> cframe A c c'"
  by (auto simp: store_unsigned_def intro!: frames split: if_splits)

lemma safe_at_finish:
  "(\<And>v' c'. stored = Some (v', c') \<Longrightarrow> cframe A (snd d) c') \<Longrightarrow> safe_at A d (finish_integer v stored d)"
  by (cases d) (auto simp: finish_integer_def safe_at_def d_error_def split: option.splits)

text \<open>
  The contract of a field decoder: it stays within the bytes of the value and, when it
  succeeds, has consumed input.
\<close>

definition value_fits :: "pb_field \<Rightarrow> bool" where
  "value_fits f \<longleftrightarrow>
     (PB_LTYPE (ftype f) = PB_LTYPE_BOOL \<longrightarrow> 1 \<le> data_size f) \<and>
     (PB_LTYPE (ftype f) = PB_LTYPE_FIXED32 \<longrightarrow> 4 \<le> data_size f) \<and>
     (PB_LTYPE (ftype f) = PB_LTYPE_FIXED64 \<longrightarrow> 8 \<le> data_size f)"

lemma packable_cases:
  "x \<le> PB_LTYPE_LAST_PACKABLE \<Longrightarrow> x = PB_LTYPE_BOOL \<or> x = PB_LTYPE_VARINT \<or> x = PB_LTYPE_UVARINT \<or>
     x = PB_LTYPE_SVARINT \<or> x = PB_LTYPE_FIXED32 \<or> x = PB_LTYPE_FIXED64"
proof -
  assume "x \<le> PB_LTYPE_LAST_PACKABLE"
  then have "unat x \<in> {0, 1, 2, 3, 4, 5}" by (auto simp: PB_LTYPE_LAST_PACKABLE_def word_le_nat_alt)
  then show ?thesis by (auto simp: pb_ltype_defs word_unat_eq_iff)
qed

lemma with_some_less:
  assumes "shrinks g" and "\<And>v d1. d_left (snd (k v d1)) \<le> d_left d1" and "with_some (on_stream g d) k = (True, d')"
  shows "d_left d' < d_left d"
proof -
  obtain v d1 where g: "on_stream g d = (Some v, d1)" and k: "k v d1 = (True, d')"
    using assms(3) by (cases "on_stream g d") (auto simp: with_some_def split: option.splits)
  have "d_left d1 < d_left d"
    using g shrinksD(2) [OF assms(1)] by (auto simp: on_stream_def d_left_def split: prod.splits)
  then show ?thesis using assms(2) [of v d1] k by simp
qed

lemma left_on_heap [simp]: "d_left (on_heap h d) = d_left d"
  by (simp add: on_heap_def d_left_def)

lemma left_finish: "d_left (snd (finish_integer v stored d)) \<le> d_left d"
  by (auto simp: finish_integer_def d_error_def d_left_def split: option.splits)

lemma safe_packable:
  assumes "value_fits f" and "PB_LTYPE (ftype f) \<le> PB_LTYPE_LAST_PACKABLE"
    and A: "{p ..< p + int (data_size f)} \<subseteq> A"
  shows "safe_at A d (PB_DECODERS L env (PB_LTYPE (ftype f)) d f p)" (is ?safe)
    and "PB_DECODERS L env (PB_LTYPE (ftype f)) d f p = (True, d') \<Longrightarrow> d_left d' < d_left d"
proof -
  let ?l = "PB_LTYPE (ftype f)"
  have l: "?l = PB_LTYPE_BOOL \<or> ?l = PB_LTYPE_VARINT \<or> ?l = PB_LTYPE_UVARINT \<or> ?l = PB_LTYPE_SVARINT \<or>
      ?l = PB_LTYPE_FIXED32 \<or> ?l = PB_LTYPE_FIXED64"
    using assms(2) packable_cases by blast
  then show ?safe using assms(1) A
    by (elim disjE) (auto simp: PB_DECODERS_def pb_ltype_defs value_fits_def pb_dec_bool_def pb_dec_varint_def
      pb_dec_uvarint_def pb_dec_svarint_def pb_dec_fixed32_def pb_dec_fixed64_def Let_def
      intro!: safe_at_with_some safes frames safe_at_finish intro: store_signed_safe store_unsigned_safe)
  show "d_left d' < d_left d" if "PB_DECODERS L env (PB_LTYPE (ftype f)) d f p = (True, d')"
    using l that
    by (elim disjE) (auto simp: PB_DECODERS_def pb_ltype_defs pb_dec_bool_def pb_dec_varint_def
      pb_dec_uvarint_def pb_dec_svarint_def pb_dec_fixed32_def pb_dec_fixed64_def Let_def
      intro!: safes left_finish elim!: with_some_less [rotated 2])
qed


lemma read_into_length: "pb_read_into s n = (Some bs, s') \<Longrightarrow> length bs = n"
  by (auto simp: pb_read_into_def istream_callback_def buf_read_def PB_RETURN_IERROR_def
      split: if_splits prod.splits option.splits istate.splits)

lemma safe_at_read_to [safes]: "{p ..< p + int n} \<subseteq> A \<Longrightarrow> safe_at A d (pb_read_to d p n)"
  unfolding pb_read_to_def
proof (rule safe_at_with_some)
  show "safe_at A d (on_stream (\<lambda>s. pb_read_into s n) d)"
    by (rule safe_at_stream) (rule read_into_left)
  assume A: "{p ..< p + int n} \<subseteq> A"
  fix bs d' assume "on_stream (\<lambda>s. pb_read_into s n) d = (Some bs, d')"
  then have "length bs = n" by (auto simp: on_stream_def dest: read_into_length split: prod.splits)
  then show "safe_at A d' (True, on_heap (put p bs) d')" using A by (intro safes frames) simp
qed

lemma safe_fixed_length [safes]:
  "{p ..< p + int (data_size f)} \<subseteq> A \<Longrightarrow> safe_at A d (pb_dec_fixed_length_bytes d f p)"
  unfolding pb_dec_fixed_length_bytes_def
  by (rule safe_at_with_some) (auto intro!: safes frames)

lemma range_sub:
  "{p ..< p + int n} \<subseteq> A \<Longrightarrow> p \<le> q \<Longrightarrow> q + int k \<le> p + int n \<Longrightarrow> {q ..< q + int k} \<subseteq> A"
  by auto

lemma safe_bytes [safes]:
  assumes "PB_ATYPE (ftype f) = PB_ATYPE_STATIC" and "{p ..< p + int (data_size f)} \<subseteq> A"
  shows "safe_at A d (pb_dec_bytes env d f p)"
  unfolding pb_dec_bytes_def
proof (rule safe_at_with_some)
  show "safe_at A d (on_stream pb_decode_varint32 d)" by (intro safes)
next
  fix count d'
  let ?alloc = "PB_BYTES_ARRAY_T_ALLOCSIZE count"
  have alloc: "unat ?alloc = unat count + 4"
    using unat_u32_lt [of count]
    by (simp add: PB_BYTES_ARRAY_T_ALLOCSIZE_def unat_plus_u64 unat_ucast_u32_u64)
  show "safe_at A d' (let alloc_size = ?alloc in
      if PB_SIZE_MAX < unat count then d_error ''bytes overflow'' d'
      else if alloc_size < ucast count then d_error ''size too large'' d'
      else case (if PB_ATYPE (ftype f) = PB_ATYPE_POINTER then allocate_field env d' p alloc_size 1
                 else if data_size f < unat alloc_size then d_error ''bytes overflow'' d' else (True, d')) of
           (False, d) \<Rightarrow> (False, d)
         | (True, d) \<Rightarrow>
             (let bdest = (if PB_ATYPE (ftype f) = PB_ATYPE_POINTER then load_ptr (d_mem d) p else p)
              in pb_read_to (on_heap (put_word bdest count) d) (bdest + 4) (unat count)))"
  proof (cases "data_size f < unat ?alloc")
    case True
    have "safe_at A d' (False, snd (d_error msg d'))" for msg
      using safe_at_error [of A d' msg] by (simp add: safe_at_def)
    with True show ?thesis using assms(1) atype_distinct
      by (auto simp: Let_def d_error_def intro: safe_at_error [unfolded d_error_def])
  next
    case False
    then have fit: "unat count + 4 \<le> data_size f" by (simp add: alloc)
    have "cframe A (snd d') (put_word p count (snd d'))"
      by (rule frames, rule range_sub [OF assms(2)]) (use fit in simp_all)
    moreover have "safe_at A (on_heap (put_word p count) d')
        (pb_read_to (on_heap (put_word p count) d') (p + 4) (unat count))"
      by (rule safes, rule range_sub [OF assms(2)]) (simp, use fit in linarith)
    ultimately have "safe_at A d' (pb_read_to (on_heap (put_word p count) d') (p + 4) (unat count))"
      by (rule safe_at_heap)
    then show ?thesis using False assms(1) atype_distinct
      by (auto simp: Let_def intro: safe_at_error)
  qed
qed


lemma safe_string [safes]:
  assumes "PB_ATYPE (ftype f) = PB_ATYPE_STATIC" and "{p ..< p + int (data_size f)} \<subseteq> A"
  shows "safe_at A d (pb_dec_string env d f p)"
  unfolding pb_dec_string_def
proof (rule safe_at_with_some)
  show "safe_at A d (on_stream pb_decode_varint32 d)" by (intro safes)
next
  fix count :: u32 and d'
  let ?alloc = "ucast (count + 1) :: u64"
  show "safe_at A d' (let alloc_size = ?alloc in
      if alloc_size < ucast count then d_error ''size too large'' d'
      else case (if PB_ATYPE (ftype f) = PB_ATYPE_POINTER then allocate_field env d' p alloc_size 1
                 else if data_size f < unat alloc_size then d_error ''string overflow'' d' else (True, d')) of
           (False, d) \<Rightarrow> (False, d)
         | (True, d) \<Rightarrow>
             (let dest = (if PB_ATYPE (ftype f) = PB_ATYPE_POINTER then load_ptr (d_mem d) p else p)
              in case pb_read_to d dest (unat count) of
                   (status, d) \<Rightarrow> (status, on_heap (put (dest + int (unat count)) [0]) d)))"
  proof (cases "?alloc < ucast count \<or> data_size f < unat ?alloc")
    case True
    have "safe_at A d' (False, snd (d_error msg d'))" for msg
      using safe_at_error [of A d' msg] by (simp add: safe_at_def)
    with True show ?thesis using assms(1) atype_distinct
      by (auto simp: Let_def d_error_def intro: safe_at_error [unfolded d_error_def])
  next
    case False
    have "unat ?alloc = unat count + 1"
      using False unat_u32_lt [of count]
      by (auto simp: word_less_nat_alt unat_ucast_u32_u64 unat_word_ariths mod_Suc split: if_splits)
    then have fit: "unat count + 1 \<le> data_size f" using False by simp
    have read: "safe_at A d' (pb_read_to d' p (unat count))"
      by (rule safes, rule range_sub [OF assms(2)]) (simp, use fit in linarith)
    have "safe_at A d' (case pb_read_to d' p (unat count) of
        (status, d) \<Rightarrow> (status, on_heap (put (p + int (unat count)) [0]) d))"
    proof (cases "pb_read_to d' p (unat count)")
      case (fields status s c)
      have "p + int (unat count) + int (length [0 :: u8]) \<le> p + int (data_size f)"
        using of_nat_mono [OF fit, where 'a = int] by (simp only: list.size of_nat_add)
      then have "cframe A c (put (p + int (unat count)) [0] c)"
        by (intro frames range_sub [OF assms(2)]) simp_all
      then show ?thesis using read fields
        by (auto simp: safe_at_def on_heap_def intro: cframe_trans)
    qed
    then show ?thesis using False assms(1) atype_distinct by (simp add: Let_def)
  qed
qed


lemma safe_at_substream:
  assumes "\<And>d. safe_at A d (f d)"
  shows "safe_at A d (in_substream f d)"
  unfolding in_substream_def
proof (rule safe_at_with_some)
  show "safe_at A d (on_stream pb_make_string_substream d)"
    by (rule safe_at_stream) (metis substream_left prod.collapse)
  fix sub :: pb_istream and d' :: dst
  obtain status sub' c where f: "f (sub, snd d') = (status, sub', c)" by (rule prod_cases3)
  then have "cframe A (snd d') c" using assms [of "(sub, snd d')"] by (simp add: safe_at_def)
  then show "safe_at A d' (case f (sub, snd d') of (status, substream, c) \<Rightarrow>
      (case pb_close_string_substream (fst d') substream of
         (False, s) \<Rightarrow> (False, s, c) | (True, s) \<Rightarrow> (status, s, c)))"
    using close_left [of "fst d'" sub'] by (auto simp: f safe_at_def d_left_def split: prod.splits bool.splits)
qed

section \<open>Static tables\<close>

text \<open>
  A table that describes a structure of \<open>sz\<close> bytes: every field, with its count or flag, lies
  inside, every value has the room its decoder assumes, and submessages fit their field. An
  array without a count of its own must have four bytes at least: the initialisation clears a
  count at its place.
\<close>

definition position_fits :: "pb_field list \<Rightarrow> nat \<Rightarrow> nat \<Rightarrow> bool" where
  "position_fits fs sz i \<longleftrightarrow>
     (let f = fs ! i; off = field_offset fs i; pos = size_position fs i; h = PB_HTYPE (ftype f) in
      off + field_extent f \<le> sz \<and> off + data_size f \<le> sz \<and>
      (h = PB_HTYPE_OPTIONAL \<and> pos \<noteq> int off \<longrightarrow> 0 \<le> pos \<and> pos < int sz) \<and>
      (h = PB_HTYPE_REPEATED \<or> h = PB_HTYPE_ONEOF \<longrightarrow> 0 \<le> pos \<and> pos + 4 \<le> int sz) \<and>
      (h = PB_HTYPE_REPEATED \<longrightarrow> data_size f * array_size f < 2 ^ 32))"

definition table_fits :: "(pb_field list \<Rightarrow> nat \<Rightarrow> bool) \<Rightarrow> pb_field list \<Rightarrow> nat \<Rightarrow> bool" where
  "table_fits sub_ok fs sz \<longleftrightarrow> 0 < sz \<and>
     list_all (\<lambda>f. tag f \<noteq> 0 \<and> PB_ATYPE (ftype f) = PB_ATYPE_STATIC \<and>
       PB_LTYPE (ftype f) \<noteq> PB_LTYPE_EXTENSION \<and> value_fits f \<and>
       (PB_LTYPE (ftype f) = PB_LTYPE_SUBMESSAGE \<longrightarrow> sub_ok (sub_fields (ptr f)) (data_size f))) fs \<and>
     list_all (position_fits fs sz) [0..<length fs]"

primrec static_table :: "nat \<Rightarrow> pb_field list \<Rightarrow> nat \<Rightarrow> bool" where
  "static_table 0 fs sz \<longleftrightarrow> False"
| "static_table (Suc n) fs sz \<longleftrightarrow> table_fits (static_table n) fs sz"

lemma table_fits_proper: "table_fits sub_ok fs sz \<Longrightarrow> proper_table fs"
  by (auto simp: table_fits_def proper_table_def list_all_iff)

lemma static_table_proper: "static_table n fs sz \<Longrightarrow> proper_table fs"
  by (cases n) (auto dest: table_fits_proper)

lemma table_fits_field:
  assumes "table_fits sub_ok fs sz" and "i < length fs"
  shows "PB_ATYPE (ftype (fs ! i)) = PB_ATYPE_STATIC" "PB_LTYPE (ftype (fs ! i)) \<noteq> PB_LTYPE_EXTENSION"
    "value_fits (fs ! i)" "position_fits fs sz i"
    "PB_LTYPE (ftype (fs ! i)) = PB_LTYPE_SUBMESSAGE \<Longrightarrow>
       sub_ok (sub_fields (ptr (fs ! i))) (data_size (fs ! i))"
  using assms by (auto simp: table_fits_def list_all_length)

lemmas static_field = table_fits_field [where sub_ok = "static_table n" for n, folded static_table.simps(2)]

section \<open>Initialisation and release of static tables\<close>

lemma for_fields_frame:
  assumes "proper_table fs" and "\<And>i c. i < length fs \<Longrightarrow> cframe A c (f (iter_at fs p i) c)"
  shows "cframe A c (for_fields f fs p c)"
proof -
  have loop: "i < length fs \<Longrightarrow> cframe A c (snd (iter_loop (\<lambda>it c. (True, f it c)) (iter_at fs p i) c))" for i c
  proof (induction "length fs - i" arbitrary: i c rule: less_induct)
    case less
    have step: "cframe A c (f (iter_at fs p i) c)" by (rule assms(2)) (rule less.prems)
    show ?case
    proof (cases "Suc i < length fs")
      case True
      then have "cframe A (f (iter_at fs p i) c)
          (snd (iter_loop (\<lambda>it c. (True, f it c)) (iter_at fs p (Suc i)) (f (iter_at fs p i) c)))"
        by (intro less.hyps) simp_all
      with step True show ?thesis
        by (auto simp: iter_loop_at [OF assms(1) less.prems] intro: cframe_trans)
    next
      case False
      with step show ?thesis by (simp add: iter_loop_at [OF assms(1) less.prems])
    qed
  qed
  show ?thesis
  proof (cases "fs = []")
    case True
    then show ?thesis by (simp add: for_fields_def iter_begin_at)
  next
    case False
    then have "tag (fs ! 0) \<noteq> 0" using proper_tableD [OF assms(1)] by simp
    with loop [of 0] False show ?thesis by (simp add: for_fields_def iter_begin_at)
  qed
qed

lemma set_default_frame:
  assumes "iter_field it = f" and "PB_ATYPE (ftype f) = PB_ATYPE_STATIC"
    and "PB_LTYPE (ftype f) \<noteq> PB_LTYPE_EXTENSION"
    and data: "{pData it ..< pData it + int (data_size f)} \<subseteq> A"
    and sub: "PB_LTYPE (ftype f) = PB_LTYPE_SUBMESSAGE \<Longrightarrow>
      \<forall>c. cframe A c (for_fields (pb_field_set_to_default n exts) (sub_fields (ptr f)) (pData it) c)"
    and flag: "PB_HTYPE (ftype f) = PB_HTYPE_OPTIONAL \<Longrightarrow> pSize it \<noteq> pData it \<Longrightarrow> pSize it \<in> A"
    and count: "PB_HTYPE (ftype f) = PB_HTYPE_REPEATED \<or> PB_HTYPE (ftype f) = PB_HTYPE_ONEOF \<Longrightarrow>
      {pSize it ..< pSize it + int 4} \<subseteq> A"
  shows "cframe A c (pb_field_set_to_default (Suc n) exts it c)"
proof -
  let ?init = "\<lambda>c. if PB_LTYPE (ftype f) = PB_LTYPE_SUBMESSAGE
      then for_fields (pb_field_set_to_default n exts) (sub_fields (ptr f)) (pData it) c
      else if ptr f \<noteq> PNull then put (pData it) (default_bytes (ptr f) (data_size f)) c
      else c_memset0 (pData it) (data_size f) c"
  have "length (default_bytes (ptr f) (data_size f)) \<le> data_size f"
    by (simp add: default_bytes_def split: pb_ptr.split)
  then have "{pData it ..< pData it + int (length (default_bytes (ptr f) (data_size f)))} \<subseteq> A"
    by (intro range_sub [OF data]) simp_all
  then have init: "cframe A c (?init c)" for c
    using sub data by (auto intro!: frames)
  consider (required) "PB_HTYPE (ftype f) = PB_HTYPE_REQUIRED" | (opt) "PB_HTYPE (ftype f) = PB_HTYPE_OPTIONAL"
    | (counted) "PB_HTYPE (ftype f) = PB_HTYPE_REPEATED \<or> PB_HTYPE (ftype f) = PB_HTYPE_ONEOF"
    using htype_cases by blast
  then show ?thesis
  proof cases
    case required
    then show ?thesis using assms(1-3) init [of c]
      by (auto simp: set_default_step_def Let_def htype_distinct)
  next
    case opt
    show ?thesis
    proof (cases "pSize it = pData it")
      case True
      then show ?thesis using opt assms(1-3) init [of c]
        by (auto simp: set_default_step_def Let_def htype_distinct)
    next
      case False
      have "cframe A c (put_bool (pSize it) False c)" using flag [OF opt False] by (rule frames)
      from cframe_trans [OF this init] False opt show ?thesis using assms(1-3)
        by (auto simp: set_default_step_def Let_def)
    qed
  next
    case counted
    then have "cframe A c (put_word (pSize it) (0 :: u32) c)" using count by (intro frames) simp
    then show ?thesis using counted assms(1-3)
      by (auto simp: set_default_step_def Let_def htype_distinct htype_distinct [symmetric])
  qed
qed

lemma defaults_frame:
  assumes "static_table n fs sz" and "{p ..< p + int sz} \<subseteq> A"
  shows "cframe A c (pb_message_set_to_defaults n exts fs p c)"
  using assms
proof (induction n arbitrary: fs sz p c)
  case 0
  then show ?case by simp
next
  case (Suc n)
  show ?case
    unfolding pb_message_set_to_defaults_def
  proof (rule for_fields_frame [OF static_table_proper [OF Suc.prems(1)]])
    fix i c assume i: "i < length fs"
    let ?f = "fs ! i" and ?it = "iter_at fs p i"
    note f = static_field [OF Suc.prems(1) i]
    have "{pData ?it ..< pData ?it + int (data_size ?f)} \<subseteq> A"
      by (rule range_sub [OF Suc.prems(2)]) (use f(4) in \<open>auto simp: position_fits_def Let_def\<close>)
    moreover have "PB_LTYPE (ftype ?f) = PB_LTYPE_SUBMESSAGE \<Longrightarrow>
        \<forall>c. cframe A c (for_fields (pb_field_set_to_default n exts) (sub_fields (ptr ?f)) (pData ?it) c)"
      using Suc.IH [OF f(5)] calculation by (simp add: pb_message_set_to_defaults_def)
    moreover have "PB_HTYPE (ftype ?f) = PB_HTYPE_OPTIONAL \<Longrightarrow> pSize ?it \<noteq> pData ?it \<Longrightarrow> pSize ?it \<in> A"
      using f(4) Suc.prems(2) by (auto simp: position_fits_def Let_def)
    moreover have "PB_HTYPE (ftype ?f) = PB_HTYPE_REPEATED \<or> PB_HTYPE (ftype ?f) = PB_HTYPE_ONEOF \<Longrightarrow>
        {pSize ?it ..< pSize ?it + int 4} \<subseteq> A"
      by (rule range_sub [OF Suc.prems(2)]) (use f(4) in \<open>auto simp: position_fits_def Let_def\<close>)
    ultimately show "cframe A c (pb_field_set_to_default (Suc n) exts ?it c)"
      using f(1,2) i by (intro set_default_frame) simp_all
  qed
qed


lemma release_items_id: "(\<And>p c. f p c = c) \<Longrightarrow> release_items f step k p c = c"
  by (induction k arbitrary: p c) simp_all

lemma for_fields_id:
  assumes "proper_table fs" and "\<And>i c. i < length fs \<Longrightarrow> f (iter_at fs p i) c = c"
  shows "for_fields f fs p c = c"
proof -
  have loop: "i < length fs \<Longrightarrow> snd (iter_loop (\<lambda>it c. (True, f it c)) (iter_at fs p i) c) = c" for i
  proof (induction "length fs - i" arbitrary: i rule: less_induct)
    case less
    then show ?case using assms(2) by (simp add: iter_loop_at [OF assms(1) less.prems])
  qed
  show ?thesis
    using loop [of 0] by (cases "fs = []") (simp_all add: for_fields_def iter_begin_at split: bool.split)
qed

lemma release_step_static:
  assumes "PB_ATYPE (ftype (iter_field it)) = PB_ATYPE_STATIC"
    and "PB_LTYPE (ftype (iter_field it)) \<noteq> PB_LTYPE_EXTENSION"
    and "PB_LTYPE (ftype (iter_field it)) = PB_LTYPE_SUBMESSAGE \<Longrightarrow>
      \<forall>p c. release_with sub (sub_fields (ptr (iter_field it))) p c = c"
  shows "release_step sub exts it c = c"
  using assms atype_distinct by (auto simp: release_step_def Let_def release_items_id)

lemma release_static:
  assumes "static_table n fs sz"
  shows "pb_release n exts fs p c = c"
    and "i < length fs \<Longrightarrow> pb_release_single_field n exts (iter_at fs p i) c = c"
proof -
  have single: "pb_release_single_field n exts (iter_at fs p i) c = c"
    if "static_table n fs sz" "i < length fs" for fs sz p c n i
    using that
  proof (induction n arbitrary: fs sz p c i)
    case (Suc n)
    note f = static_field [OF Suc.prems]
    have "release_with (pb_release_single_field n exts) (sub_fields (ptr (fs ! i))) q c = c"
      if "PB_LTYPE (ftype (fs ! i)) = PB_LTYPE_SUBMESSAGE" for q c
      using for_fields_id [OF static_table_proper [OF f(5) [OF that]]] Suc.IH [OF f(5) [OF that]]
      by (simp add: release_with_def)
    then show ?case using f(1,2) Suc.prems(2) by (simp, intro release_step_static) simp_all
  qed simp
  then show "i < length fs \<Longrightarrow> pb_release_single_field n exts (iter_at fs p i) c = c"
    using assms by blast
  show "pb_release n exts fs p c = c"
    using for_fields_id [OF static_table_proper [OF assms]] single [OF assms]
    by (simp add: pb_release_def release_with_def)
qed

section \<open>One level of the decoder\<close>

text \<open>The addresses a decoder may write: the structure and its own stack.\<close>

definition writable :: "addr \<Rightarrow> nat \<Rightarrow> addr set" where
  "writable p sz = {p ..< p + int sz} \<union> {..< 0}"

lemma writable_sub: "p \<le> q \<Longrightarrow> q + int k \<le> p + int sz \<Longrightarrow> writable q k \<subseteq> writable p sz"
  by (auto simp: writable_def)

lemma writable_range: "p \<le> q \<Longrightarrow> q + int k \<le> p + int sz \<Longrightarrow> {q ..< q + int k} \<subseteq> writable p sz"
  by (auto simp: writable_def)

text \<open>
  The iterator during the main loop is at a field of the table, possibly with \<open>pSize\<close> redirected
  to the counter of a fixed-count array, or at the terminator of an empty table.
\<close>

definition good_iter :: "nat \<Rightarrow> pb_field list \<Rightarrow> addr \<Rightarrow> pb_field_iter \<Rightarrow> bool" where
  "good_iter n fs p it \<longleftrightarrow>
     fs = [] \<and> it = iter_at fs p 0 \<or>
     (\<exists>i<length fs. it = iter_at fs p i \<or>
        PB_HTYPE (ftype (fs ! i)) = PB_HTYPE_REPEATED \<and> it = iter_at fs p i\<lparr>pSize := stack_slot n\<rparr>)"

lemma good_iter_at: "i < length fs \<Longrightarrow> good_iter n fs p (iter_at fs p i)"
  by (auto simp: good_iter_def)

lemma repeated_not_union: "PB_HTYPE (ftype f) = PB_HTYPE_REPEATED \<Longrightarrow> \<not> in_union f g"
  using htype_distinct by (simp add: in_union_def)

lemma iter_find_good:
  assumes "proper_table fs" and "good_iter n fs p it" and "iter_find wanted it = (b, it')"
  shows "good_iter n fs p it' \<and> (b \<longrightarrow> wanted (iter_field it')) \<and>
    (\<not> b \<longrightarrow> (\<forall>f \<in> set fs. \<not> wanted f) \<and> (fs = [] \<longrightarrow> \<not> wanted PB_LAST_FIELD))"
proof (cases "fs = []")
  case True
  then show ?thesis using assms(2,3)
    by (auto simp: good_iter_def iter_find_def iter_next_empty split: if_splits)
next
  case False
  then obtain i where i: "i < length fs" and it: "it = iter_at fs p i \<or>
      PB_HTYPE (ftype (fs ! i)) = PB_HTYPE_REPEATED \<and> it = iter_at fs p i\<lparr>pSize := stack_slot n\<rparr>"
    using assms(2) by (auto simp: good_iter_def)
  have at: "iter_find wanted (iter_at fs p i) = (b, it'') \<Longrightarrow> good_iter n fs p it'' \<and>
      (b \<longrightarrow> wanted (iter_field it'')) \<and> (\<not> b \<longrightarrow> (\<forall>f \<in> set fs. \<not> wanted f))" for b it''
    using iter_find_at [OF assms(1) i, of wanted p] i
    by (auto simp: in_set_conv_nth intro: good_iter_at)
  from it show ?thesis
  proof
    assume "it = iter_at fs p i"
    then show ?thesis using at assms(3) False by simp
  next
    assume r: "PB_HTYPE (ftype (fs ! i)) = PB_HTYPE_REPEATED \<and> it = iter_at fs p i\<lparr>pSize := stack_slot n\<rparr>"
    have "\<not> in_union (field_at fs i) (field_at fs (Suc i))" "tag (field_at fs i) \<noteq> 0"
      using r i proper_tableD [OF assms(1)] by (simp_all add: repeated_not_union)
    note local = iter_find_local [OF this, where dest = p and p = "stack_slot n" and wanted = wanted]
    show ?thesis
    proof (cases "wanted (fs ! i)")
      case True
      then have "b" "it' = it" using local assms(3) r i by (auto split: if_splits)
      then show ?thesis using assms(2) True r i False by (simp add: iter_field_def)
    next
      case nw: False
      then have "iter_find wanted (iter_at fs p i) = (b, it')" using local assms(3) r i by simp
      then show ?thesis using at False by simp
    qed
  qed
qed

text \<open>
  The contract between the levels: decoding, initialising and releasing a message of the next
  level respects the structure of that message.
\<close>

locale safe_level =
  fixes L :: level and table_ok :: "pb_field list \<Rightarrow> nat \<Rightarrow> bool"
  assumes noinit: "table_ok fs sz \<Longrightarrow> safe_at (writable p sz) d (l_noinit L d fs p)"
    and full: "table_ok fs sz \<Longrightarrow> safe_at (writable p sz) d (l_decode L d fs p)"
    and defaults: "table_ok fs sz \<Longrightarrow> cframe (writable p sz) c (l_defaults L fs p c)"
    and release: "table_fits table_ok fs sz \<Longrightarrow> i < length fs \<Longrightarrow> l_release L (iter_at fs p i) c = c"
begin

lemma submessage:
  assumes "table_ok (sub_fields (ptr f)) (data_size f)" and "writable p (data_size f) \<subseteq> A"
  shows "safe_at A d (pb_dec_submessage L d f p)"
proof (cases "ptr f = PNull")
  case True
  have "safe_at A d (on_stream pb_make_string_substream d)"
    by (rule safe_at_stream) (metis substream_left prod.collapse)
  with True show ?thesis
    by (auto simp: pb_dec_submessage_def intro!: safe_at_with_some safes)
next
  case False
  let ?f = "\<lambda>d. if PB_HTYPE (ftype f) = PB_HTYPE_REPEATED then l_decode L d (sub_fields (ptr f)) p
      else l_noinit L d (sub_fields (ptr f)) p"
  have "safe_at A d (?f d)" for d
    using safe_at_mono [OF noinit [OF assms(1)] assms(2)] safe_at_mono [OF full [OF assms(1)] assms(2)] by simp
  then show ?thesis using False by (simp add: pb_dec_submessage_def safe_at_substream)
qed

lemma value_decoder:
  assumes "value_fits f" and "PB_ATYPE (ftype f) = PB_ATYPE_STATIC"
    and "PB_LTYPE (ftype f) = PB_LTYPE_SUBMESSAGE \<Longrightarrow> table_ok (sub_fields (ptr f)) (data_size f)"
    and "writable p (data_size f) \<subseteq> A"
  shows "safe_at A d (PB_DECODERS L env (PB_LTYPE (ftype f)) d f p)"
proof -
  let ?l = "PB_LTYPE (ftype f)"
  have A: "{p ..< p + int (data_size f)} \<subseteq> A" using assms(4) by (auto simp: writable_def)
  show ?thesis
  proof (cases "?l \<le> PB_LTYPE_LAST_PACKABLE")
    case True
    then show ?thesis by (rule safe_packable(1) [OF assms(1) _ A])
  next
    case False
    then have "PB_DECODERS L env ?l d f p =
        (if ?l = PB_LTYPE_BYTES then pb_dec_bytes env d f p
         else if ?l = PB_LTYPE_STRING then pb_dec_string env d f p
         else if ?l = PB_LTYPE_SUBMESSAGE then pb_dec_submessage L d f p
         else if ?l = PB_LTYPE_FIXED_LENGTH_BYTES then pb_dec_fixed_length_bytes d f p
         else (False, d))"
      by (auto simp: PB_DECODERS_def pb_ltype_defs)
    then show ?thesis
      using assms A by (auto intro: safes submessage)
  qed
qed


text \<open>The entries of an array lie inside it, also in the 32-bit arithmetic of the code.\<close>

lemma entry_offset_eq:
  assumes "data_size f * array_size f < 2 ^ 32" and "unat n < array_size f"
  shows "entry_offset f n = int (data_size f * unat n)"
proof -
  have "data_size f * unat n \<le> data_size f * array_size f" using assms(2) by (intro mult_le_mono) simp_all
  then have small: "data_size f * unat n < 2 ^ 32" using assms(1) by (rule le_less_trans)
  have "of_nat (data_size f) * n = (of_nat (data_size f * unat n) :: u32)" by simp
  then have "unat (of_nat (data_size f) * n) = data_size f * unat n"
    using unat_of_nat_u32 [OF small] by (simp only:)
  then show ?thesis by (simp only: entry_offset_def uint_nat)
qed

lemma entry_inside:
  assumes "data_size f * array_size f < 2 ^ 32" and "unat n < array_size f"
    and "writable p (data_size f * array_size f) \<subseteq> A"
  shows "writable (p + entry_offset f n) (data_size f) \<subseteq> A"
proof -
  have "data_size f * unat n + data_size f = data_size f * (unat n + 1)" by simp
  also have "\<dots> \<le> data_size f * array_size f" using assms(2) by (intro mult_le_mono) simp_all
  finally have "int (data_size f * unat n) + int (data_size f) \<le> int (data_size f * array_size f)"
    by (simp only: of_nat_add [symmetric] of_nat_le_iff)
  then have "writable (p + entry_offset f n) (data_size f) \<subseteq> writable p (data_size f * array_size f)"
    unfolding entry_offset_eq [OF assms(1,2)] by (intro writable_sub) linarith+
  then show ?thesis using assms(3) by blast
qed

lemma packed_loop:
  assumes f: "iter_field it = f" "value_fits f" "PB_LTYPE (ftype f) \<le> PB_LTYPE_LAST_PACKABLE"
    and size: "data_size f * array_size f < 2 ^ 32" "writable (pData it) (data_size f * array_size f) \<subseteq> A"
    and count: "{pSize it ..< pSize it + int 4} \<subseteq> A"
  shows "d_left d \<le> rounds \<Longrightarrow>
    safe_at A d (packed_static_loop rounds (PB_DECODERS L env (PB_LTYPE (ftype f))) it d)"
proof (induction rounds arbitrary: d)
  case 0
  then show ?case by (auto intro: safes)
next
  case (Suc rounds)
  let ?func = "PB_DECODERS L env (PB_LTYPE (ftype f))"
  show ?case
  proof (cases "0 < d_left d \<and> unat (get_size it d) < array_size f")
    case True
    have "writable (pData it + entry_offset f (get_size it d)) (data_size f) \<subseteq> A"
      using entry_inside [OF size(1)] True size(2) by blast
    then have A: "{pData it + entry_offset f (get_size it d) ..<
        pData it + entry_offset f (get_size it d) + int (data_size f)} \<subseteq> A"
      by (auto simp: writable_def)
    have "safe_at A d' (packed_static_loop rounds ?func it (set_size it (get_size it d' + 1) d'))"
      if "?func d f (pData it + entry_offset f (get_size it d)) = (True, d')" for d'
    proof -
      have "d_left d' < d_left d" by (rule safe_packable(2) [OF f(2,3) A that])
      then have "safe_at A (set_size it (get_size it d' + 1) d')
          (packed_static_loop rounds ?func it (set_size it (get_size it d' + 1) d'))"
        using Suc.prems by (intro Suc.IH) (simp add: set_size_def)
      then show ?thesis
        unfolding set_size_def by (rule safe_at_heap [rotated]) (use count in \<open>simp add: cframe_put_word\<close>)
    qed
    then show ?thesis using True safe_at_and_then [OF safe_packable(1) [OF f(2,3) A]]
      by (simp add: f(1))
  next
    case False
    then show ?thesis using f(1) by (auto intro: safes)
  qed
qed

lemma static_field_safe:
  assumes it: "iter_field it = f" and f: "value_fits f" "PB_ATYPE (ftype f) = PB_ATYPE_STATIC"
      "PB_LTYPE (ftype f) = PB_LTYPE_SUBMESSAGE \<Longrightarrow> table_ok (sub_fields (ptr f)) (data_size f)"
    and data: "writable (pData it) (data_size f) \<subseteq> A"
    and flag: "PB_HTYPE (ftype f) = PB_HTYPE_OPTIONAL \<Longrightarrow> pSize it \<noteq> pData it \<Longrightarrow> pSize it \<in> A"
    and count: "PB_HTYPE (ftype f) = PB_HTYPE_REPEATED \<or> PB_HTYPE (ftype f) = PB_HTYPE_ONEOF \<Longrightarrow>
      {pSize it ..< pSize it + int 4} \<subseteq> A"
    and array: "PB_HTYPE (ftype f) = PB_HTYPE_REPEATED \<Longrightarrow> data_size f * array_size f < 2 ^ 32 \<and>
      writable (pData it) (data_size f * array_size f) \<subseteq> A"
  shows "safe_at A d (decode_static_field L env d wt it)"
proof -
  let ?func = "PB_DECODERS L env (PB_LTYPE (ftype f))"
  have func: "safe_at A d (?func d f p)" if "writable p (data_size f) \<subseteq> A" for d p
    by (rule value_decoder [OF f that])
  consider (required) "PB_HTYPE (ftype f) = PB_HTYPE_REQUIRED" | (opt) "PB_HTYPE (ftype f) = PB_HTYPE_OPTIONAL"
    | (repeated) "PB_HTYPE (ftype f) = PB_HTYPE_REPEATED" | (oneof) "PB_HTYPE (ftype f) = PB_HTYPE_ONEOF"
    using htype_cases by blast
  then show ?thesis
  proof cases
    case required
    then show ?thesis using it func [OF data] by (simp add: decode_static_field_def Let_def)
  next
    case opt
    have "safe_at A d (?func (on_heap (put_bool (pSize it) True) d) f (pData it))" if "pSize it \<noteq> pData it"
      by (rule safe_at_heap [OF _ func [OF data]]) (rule frames, rule flag [OF opt that])
    with opt show ?thesis using it func [OF data]
      by (simp add: decode_static_field_def Let_def htype_distinct htype_distinct [symmetric])
  next
    case oneof
    have "safe_at A d (?func (if PB_LTYPE (ftype f) = PB_LTYPE_SUBMESSAGE
        then on_heap (\<lambda>c. l_defaults L (sub_fields (ptr f)) (pData it) (c_memset0 (pData it) (data_size f) c))
               (set_size it (tag f) d)
        else set_size it (tag f) d) f (pData it))"
    proof -
      have set: "cframe A (snd d) (put_word (pSize it) (tag f) (snd d))"
        using count oneof by (intro frames) simp
      have "{pData it ..< pData it + int (data_size f)} \<subseteq> A" using data by (auto simp: writable_def)
      note range = this
      have init: "cframe A c (l_defaults L (sub_fields (ptr f)) (pData it) (c_memset0 (pData it) (data_size f) c))"
        if "PB_LTYPE (ftype f) = PB_LTYPE_SUBMESSAGE" for c
        by (rule cframe_trans [OF cframe_memset0 [OF range] cframe_mono [OF defaults [OF f(3) [OF that]] data]])
      have "safe_at A (set_size it (tag f) d) (?func (if PB_LTYPE (ftype f) = PB_LTYPE_SUBMESSAGE
          then on_heap (\<lambda>c. l_defaults L (sub_fields (ptr f)) (pData it) (c_memset0 (pData it) (data_size f) c))
                 (set_size it (tag f) d)
          else set_size it (tag f) d) f (pData it))"
      proof (cases "PB_LTYPE (ftype f) = PB_LTYPE_SUBMESSAGE")
        case True
        show ?thesis unfolding if_P [OF True] by (rule safe_at_heap [OF _ func [OF data]]) (rule init [OF True])
      next
        case False
        show ?thesis unfolding if_not_P [OF False] by (rule func [OF data])
      qed
      then show ?thesis
        unfolding set_size_def by (rule safe_at_heap [where h = "put_word (pSize it) (tag f)", OF set])
    qed
    with oneof show ?thesis using it
      by (simp add: decode_static_field_def Let_def htype_distinct htype_distinct [symmetric])
  next
    case repeated
    note array = array [OF repeated] and count = count [OF disjI1 [OF repeated]]
    show ?thesis
    proof (cases "wt = PB_WT_STRING \<and> PB_LTYPE (ftype f) \<le> PB_LTYPE_LAST_PACKABLE")
      case True
      have "safe_at A d (with_some (on_stream pb_make_string_substream d) (\<lambda>substream d.
          case packed_static_loop (bytes_left substream) ?func it (substream, snd d) of
            (status, substream, c) \<Rightarrow>
              (if bytes_left substream \<noteq> 0 then d_error ''array overflow'' (fst d, c)
               else (case pb_close_string_substream (fst d) substream of
                    (False, s) \<Rightarrow> (False, s, c) | (True, s) \<Rightarrow> (status, s, c)))))"
      proof (rule safe_at_with_some)
        show "safe_at A d (on_stream pb_make_string_substream d)"
          by (rule safe_at_stream) (metis substream_left prod.collapse)
        fix sub :: pb_istream and d' :: dst
        obtain status sub' c where r: "packed_static_loop (bytes_left sub) ?func it (sub, snd d') = (status, sub', c)"
          by (rule prod_cases3)
        have "safe_at A (sub, snd d') (packed_static_loop (bytes_left sub) ?func it (sub, snd d'))"
          using True array count by (intro packed_loop [OF it f(1)]) simp_all
        then have c: "cframe A (snd d') c" by (simp add: r safe_at_def)
        show "safe_at A d' (case packed_static_loop (bytes_left sub) ?func it (sub, snd d') of
            (status, substream, c) \<Rightarrow>
              (if bytes_left substream \<noteq> 0 then d_error ''array overflow'' (fst d', c)
               else (case pb_close_string_substream (fst d') substream of
                    (False, s) \<Rightarrow> (False, s, c) | (True, s) \<Rightarrow> (status, s, c))))"
          using c close_left [of "fst d'" sub']
          by (auto simp: r safe_at_def d_error_def d_left_def split: prod.splits bool.splits)
      qed
      with True repeated show ?thesis using it
        by (simp add: decode_static_field_def Let_def htype_distinct htype_distinct [symmetric])
    next
      case False
      let ?n = "get_size it d"
      have set: "cframe A (snd d) (put_word (pSize it) (?n + 1) (snd d))"
        using count by (intro frames) simp
      have "safe_at A d (if array_size f \<le> unat ?n then d_error ''array overflow'' (set_size it (?n + 1) d)
          else ?func (set_size it (?n + 1) d) f (pData it + entry_offset f ?n))"
        unfolding set_size_def
        by (rule safe_at_heap [where h = "put_word (pSize it) (?n + 1)", OF set])
          (use array func [OF entry_inside] in \<open>auto intro: safes\<close>)
      with False repeated show ?thesis using it
        by (auto simp: decode_static_field_def Let_def htype_distinct htype_distinct [symmetric])
    qed
  qed
qed

lemma good_static:
  assumes "table_fits table_ok fs sz" and "good_iter n fs p it"
  shows "safe_at (writable p sz) d (decode_static_field L env d wt it)"
proof (cases "fs = []")
  case True
  then have it: "it = iter_at [] p 0" using assms(2) by (simp add: good_iter_def)
  have "p \<in> writable p sz" using assms(1) by (simp add: table_fits_def writable_def)
  then have "safe_at (writable p sz) d (pb_dec_bool d PB_LAST_FIELD p)"
    unfolding pb_dec_bool_def by (intro safe_at_with_some safes frames)
  then show ?thesis
    unfolding it by (simp add: decode_static_field_def PB_DECODERS_def PB_LAST_FIELD_def pb_type_defs)
next
  case False
  then obtain i where i: "i < length fs" and it: "it = iter_at fs p i \<or>
      PB_HTYPE (ftype (fs ! i)) = PB_HTYPE_REPEATED \<and> it = iter_at fs p i\<lparr>pSize := stack_slot n\<rparr>"
    using assms(2) by (auto simp: good_iter_def)
  note f = table_fits_field [OF assms(1) i]
  have pos: "field_offset fs i + data_size (fs ! i) \<le> sz" "field_offset fs i + field_extent (fs ! i) \<le> sz"
    using f(4) by (auto simp: position_fits_def Let_def)
  show ?thesis
  proof (rule static_field_safe [of it "fs ! i"])
    show "iter_field it = fs ! i" using it i by (auto simp: iter_field_def)
    show "value_fits (fs ! i)" "PB_ATYPE (ftype (fs ! i)) = PB_ATYPE_STATIC" by (rule f)+
    show "table_ok (sub_fields (ptr (fs ! i))) (data_size (fs ! i))"
      if "PB_LTYPE (ftype (fs ! i)) = PB_LTYPE_SUBMESSAGE" by (rule f(5) [OF that])
    have data: "pData it = p + int (field_offset fs i)" using it by auto
    show "writable (pData it) (data_size (fs ! i)) \<subseteq> writable p sz"
      unfolding data using pos by (intro writable_sub) simp_all
    show "pSize it \<in> writable p sz" if "PB_HTYPE (ftype (fs ! i)) = PB_HTYPE_OPTIONAL" "pSize it \<noteq> pData it"
      using it that f(4) htype_distinct by (auto simp: position_fits_def Let_def writable_def)
    show "{pSize it ..< pSize it + int 4} \<subseteq> writable p sz"
      if "PB_HTYPE (ftype (fs ! i)) = PB_HTYPE_REPEATED \<or> PB_HTYPE (ftype (fs ! i)) = PB_HTYPE_ONEOF"
      using it that f(4) by (auto simp: position_fits_def Let_def writable_def stack_slot_def)
    show "data_size (fs ! i) * array_size (fs ! i) < 2 ^ 32 \<and>
        writable (pData it) (data_size (fs ! i) * array_size (fs ! i)) \<subseteq> writable p sz"
      if "PB_HTYPE (ftype (fs ! i)) = PB_HTYPE_REPEATED"
    proof -
      have "field_offset fs i + data_size (fs ! i) * array_size (fs ! i) \<le> sz"
        using pos(2) that f(1) by (simp add: field_extent_def)
      then have "int (field_offset fs i) + int (data_size (fs ! i) * array_size (fs ! i)) \<le> int sz"
        by (simp only: of_nat_add [symmetric] of_nat_le_iff)
      then have "writable (pData it) (data_size (fs ! i) * array_size (fs ! i)) \<subseteq> writable p sz"
        unfolding data by (intro writable_sub) linarith+
      then show ?thesis using that f(4) by (simp add: position_fits_def Let_def)
    qed
  qed
qed

lemma release_union_safe:
  assumes "table_fits table_ok fs sz" and "i < length fs"
    and "pb_release_union_field L d (iter_at fs p i) = (ok, d', it')"
  shows "safe_at A d (ok, d') \<and> (\<exists>j<length fs. it' = iter_at fs p j)"
proof -
  note proper = table_fits_proper [OF assms(1)]
  have find: "\<exists>j<length fs. it' = iter_at fs p j"
    if "pb_field_iter_find (iter_at fs p i) t = (b, it')" "i < length fs" for i t b it'
    using iter_find_at [OF proper that(2), of "\<lambda>f. tag f = t \<and> PB_LTYPE (ftype f) \<noteq> PB_LTYPE_EXTENSION" p]
      that(2) that(1) [unfolded pb_field_iter_find_def] by auto
  let ?it = "iter_at fs p i" and ?old = "get_size (iter_at fs p i) d"
  have error: "safe_at A d (False, snd (d_error msg d))" for msg
    using safe_at_error [of A d msg] by (simp add: safe_at_def)
  obtain b1 it1 where f1: "pb_field_iter_find ?it ?old = (b1, it1)" by (rule prod.exhaust)
  obtain j where j: "j < length fs" "it1 = iter_at fs p j" using find [OF f1 assms(2)] by blast
  obtain b2 it2 where f2: "pb_field_iter_find it1 (tag (iter_field ?it)) = (b2, it2)" by (rule prod.exhaust)
  obtain k where k: "k < length fs" "it2 = iter_at fs p k" using find [OF f2 [unfolded j(2)] j(1)] by blast
  have "on_heap (l_release L it1) d = d"
    using release [OF assms(1) j(1)] by (simp add: on_heap_def j(2))
  then have "(ok, d', it') =
      (if ?old = 0 \<or> ?old = tag (iter_field ?it) then (True, d, ?it)
       else if \<not> b1 then (False, snd (d_error ''invalid union tag'' d), it1)
       else if \<not> b2 then (False, snd (d_error ''iterator error'' d), it2)
       else (True, d, it2))"
    unfolding assms(3) [symmetric] pb_release_union_field_def Let_def f1
    using f2 by (cases b1; cases b2) (simp_all cong: if_cong)
  then consider "ok" "d' = d" "it' = ?it" | msg where "\<not> ok" "d' = snd (d_error msg d)" "it' = it1 \<or> it' = it2"
    | "ok" "d' = d" "it' = it2"
    unfolding split_paired_all by (auto simp only: prod.inject if_splits split: if_splits)
  then show ?thesis
  proof cases
    case 1
    then show ?thesis using assms(2) by (auto intro: safes)
  next
    case (2 msg)
    then show ?thesis using error [of msg] j k by auto
  next
    case 3
    then show ?thesis using k by (auto intro: safes)
  qed
qed

lemma decode_field_safe:
  assumes "table_fits table_ok fs sz" and "good_iter n fs p it" and "decode_field L env d wt it = (ok, d', it')"
  shows "safe_at (writable p sz) d (ok, d') \<and> good_iter n fs p it'"
proof -
  have static: "PB_ATYPE (ftype (iter_field it)) = PB_ATYPE_STATIC" if "good_iter n fs p it" for it
    using that table_fits_field(1) [OF assms(1)]
    by (auto simp: good_iter_def iter_field_def PB_LAST_FIELD_def pb_type_defs)
  obtain ok1 d1 it1 where u: "(if PB_HTYPE (ftype (iter_field it)) = PB_HTYPE_ONEOF
      then pb_release_union_field L d it else (True, d, it)) = (ok1, d1, it1)"
    by (rule prod_cases3)
  have 1: "safe_at (writable p sz) d (ok1, d1)" "good_iter n fs p it1"
  proof -
    have "safe_at (writable p sz) d (ok1, d1) \<and> good_iter n fs p it1"
    proof (cases "PB_HTYPE (ftype (iter_field it)) = PB_HTYPE_ONEOF")
      case True
      then obtain i where "i < length fs" "it = iter_at fs p i"
        using assms(2) htype_distinct
        by (auto simp: good_iter_def iter_field_def PB_LAST_FIELD_def pb_type_defs)
      then show ?thesis
        using release_union_safe [OF assms(1)] u True by (metis good_iter_at)
    next
      case False
      then show ?thesis using u assms(2) by (auto intro: safes)
    qed
    then show "safe_at (writable p sz) d (ok1, d1)" "good_iter n fs p it1" by simp_all
  qed
  show ?thesis
  proof (cases ok1)
    case True
    obtain ok2 d2 where r: "decode_static_field L env d1 wt it1 = (ok2, d2)" by (rule prod.exhaust)
    have "(ok, d', it') = (ok2, d2, it1)"
      using assms(3) u True static [OF 1(2)] r by (simp add: decode_field_def)
    moreover have "safe_at (writable p sz) d1 (ok2, d2)" using good_static [OF assms(1) 1(2)] r by metis
    ultimately show ?thesis using 1 by (auto simp: safe_at_def intro: cframe_trans)
  next
    case False
    then show ?thesis using assms(3) u 1 by (simp add: decode_field_def)
  qed
qed

text \<open>A round of the main loop; \<open>good_round\<close> is what the loop needs of it.\<close>

definition good_vars :: "nat \<Rightarrow> pb_field list \<Rightarrow> addr \<Rightarrow> noinit_vars \<Rightarrow> bool" where
  "good_vars n fs p v \<longleftrightarrow> good_iter n fs p (v_iter v)"

definition good_round :: "nat \<Rightarrow> pb_field list \<Rightarrow> addr \<Rightarrow> nat \<Rightarrow> dst \<Rightarrow> noinit_vars round \<times> dst \<Rightarrow> bool" where
  "good_round n fs p sz d r \<longleftrightarrow> safe_at (writable p sz) d r \<and>
     (case fst r of Return \<Rightarrow> True | Break v \<Rightarrow> good_vars n fs p v | Continue v \<Rightarrow> good_vars n fs p v)"

lemma unknown_round:
  assumes "table_fits table_ok fs sz" and "good_vars n fs p v" and "t \<noteq> - 1"
  shows "good_round n fs p sz d (decode_unknown L env d v t wt)"
proof -
  note proper = table_fits_proper [OF assms(1)]
  have skip: "safe_at A d (on_stream (\<lambda>s. pb_skip_field s wt) d)" for A
    by (rule safe_at_stream) (rule skip_field_left)
  obtain b it where find: "find_extension_field (v_iter v) = (b, it)" by (rule prod.exhaust)
  have it: "good_iter n fs p it" "\<not> b"
  proof -
    have "\<forall>f \<in> set fs. PB_LTYPE (ftype f) \<noteq> PB_LTYPE_EXTENSION"
      using assms(1) by (auto simp: table_fits_def list_all_iff)
    moreover have "PB_LTYPE (ftype PB_LAST_FIELD) \<noteq> PB_LTYPE_EXTENSION"
      by (simp add: PB_LAST_FIELD_def pb_type_defs)
    moreover have good: "good_iter n fs p it \<and> (b \<longrightarrow> PB_LTYPE (ftype (iter_field it)) = PB_LTYPE_EXTENSION)"
      using iter_find_good [OF proper assms(2) [unfolded good_vars_def] find [unfolded find_extension_field_def]]
      by simp
    ultimately show "good_iter n fs p it" "\<not> b"
      by (auto simp: good_iter_def iter_field_def)
  qed
  have find': "find_extension_field (v_iter v) = (False, it)" using find it(2) by simp
  let ?v = "if extension_range_start v \<le> t then v\<lparr>v_iter := it, extension_range_start := - 1\<rparr> else v"
  have "\<not> extension_range_start ?v \<le> t"
    using assms(3) by (auto simp: word_order.extremum_unique)
  then have "decode_unknown L env d v t wt =
      (case on_stream (\<lambda>s. pb_skip_field s wt) d of (None, d) \<Rightarrow> (Return, d) | (Some u, d) \<Rightarrow> (Continue ?v, d))"
    unfolding decode_unknown_def Let_def find' prod.case bool.case by (cases "extension_range_start v \<le> t") simp_all
  moreover have "good_vars n fs p ?v" using it(1) assms(2) by (simp add: good_vars_def)
  ultimately show ?thesis
    using skip [of "writable p sz"] by (auto simp: good_round_def safe_at_def split: prod.splits option.splits)
qed

lemma known_round:
  assumes "table_fits table_ok fs sz" and "good_vars n fs p v"
  shows "good_round n fs p sz d (decode_known n L env d v wt)"
proof -
  let ?it = "v_iter v"
  let ?fixed = "PB_HTYPE (ftype (iter_field ?it)) = PB_HTYPE_REPEATED \<and> pSize ?it = pData ?it"
  let ?new = "?fixed \<and> fixed_count_field v \<noteq> Some (iter_pos ?it)"
  let ?d = "if ?new then on_heap (put_word (stack_slot n) (0 :: u32)) d else d"
  let ?it' = "if ?fixed then ?it\<lparr>pSize := stack_slot n\<rparr> else ?it"
  have it: "good_iter n fs p ?it" using assms(2) by (simp add: good_vars_def)
  have good: "good_iter n fs p ?it'"
    using it by (auto simp: good_iter_def iter_field_def PB_LAST_FIELD_def pb_type_defs)
  have slot: "cframe (writable p sz) c (put_word (stack_slot n) (0 :: u32) c)" for c
    by (rule frames) (auto simp: writable_def stack_slot_def)
  have error: "safe_at A d (r, snd (d_error msg d))" for A msg and r :: "noinit_vars round"
    using safe_at_error [of A d msg] by (simp add: safe_at_def)
  obtain ok d2 it2 where r: "decode_field L env ?d wt ?it' = (ok, d2, it2)" by (rule prod_cases3)
  note field = decode_field_safe [OF assms(1) good r]
  have "safe_at (writable p sz) d (ok, d2)"
    using field slot safe_at_heap [of "writable p sz" d "put_word (stack_slot n) (0 :: u32)" "(ok, d2)"]
    by (cases ?new) auto
  moreover have "\<exists>v'. decode_known n L env d v wt =
      (if ?new \<and> fixed_count_wrong n v d
       then (Return, snd (d_error ''wrong size for fixed count field'' d))
       else if ok then (Continue (v'\<lparr>v_iter := it2\<rparr>), d2) else (Return, d2))"
    using r unfolding decode_known_def Let_def by (cases ok) (auto simp: case_prod_beta split: if_splits)
  ultimately show ?thesis
    using field error by (auto simp: good_round_def good_vars_def safe_at_def split: if_splits)
qed

lemma round_good:
  assumes "table_fits table_ok fs sz" and "good_vars n fs p v"
  shows "good_round n fs p sz d (decode_round n L env d v)"
    and "decode_round n L env d v = (Continue v', d') \<Longrightarrow> d_left d' < d_left d"
proof -
  obtain r eof s where tag: "pb_decode_tag (fst d) = (r, eof, s)" by (rule prod_cases3)
  note left = tag_left [OF tag]
  have *: "good_round n fs p sz d (decode_round n L env d v) \<and>
      (decode_round n L env d v = (Continue v', d') \<longrightarrow> d_left d' < d_left d)"
  proof (cases r)
    case None
    then show ?thesis using tag left assms(2)
      by (auto simp: decode_round_def good_round_def safe_at_def d_left_def)
  next
    case (Some wt_t)
    obtain wt t where wt: "wt_t = (wt, t)" by (rule prod.exhaust)
    have t: "t \<noteq> - 1" using pb_decode_tag_small [of "fst d" wt t] tag Some wt by simp
    obtain b it where find: "pb_field_iter_find (v_iter v) t = (b, it)" by (rule prod.exhaust)
    have "good_vars n fs p (v\<lparr>v_iter := it\<rparr>)"
      using iter_find_good [OF table_fits_proper [OF assms(1)] _ find [unfolded pb_field_iter_find_def]] assms(2)
      by (simp add: good_vars_def)
    then have "good_round n fs p sz (s, snd d) (decode_round n L env d v)"
      using unknown_round [OF assms(1) _ t] known_round [OF assms(1)] tag Some wt find
      by (cases b) (simp_all add: decode_round_def)
    then show ?thesis using left Some by (auto simp: good_round_def safe_at_def d_left_def)
  qed
  then show "good_round n fs p sz d (decode_round n L env d v)"
    and "decode_round n L env d v = (Continue v', d') \<Longrightarrow> d_left d' < d_left d" by simp_all
qed

lemma loop_good:
  assumes "table_fits table_ok fs sz"
  shows "good_vars n fs p v \<Longrightarrow> safe_at (writable p sz) d (decode_loop n L env d v) \<and>
    (\<forall>v'. fst (decode_loop n L env d v) = Some v' \<longrightarrow> good_vars n fs p v')"
proof (induction "d_left d" arbitrary: d v rule: less_induct)
  case less
  show ?case
  proof (cases "d_left d = 0")
    case True
    then show ?thesis using less.prems by (subst (1 2) decode_loop.simps) (auto intro: safes)
  next
    case False
    obtain r d' where r: "decode_round n L env d v = (r, d')" by (rule prod.exhaust)
    have good: "good_round n fs p sz d (r, d')" using round_good(1) [OF assms less.prems] r by metis
    show ?thesis
    proof (cases r)
      case (Continue v')
      have smaller: "d_left d' < d_left d" using round_good(2) [OF assms less.prems] r Continue by blast
      have "good_vars n fs p v'" using good Continue by (simp add: good_round_def)
      note IH = less.hyps [OF smaller this]
      have "decode_loop n L env d v = decode_loop n L env d' v'"
        using False r Continue smaller by (subst decode_loop.simps) simp
      then show ?thesis using IH good Continue
        by (auto simp: good_round_def safe_at_def intro: cframe_trans)
    next
      case Return
      then have "decode_loop n L env d v = (None, d')"
        using False r by (subst decode_loop.simps) simp
      then show ?thesis using good Return by (auto simp: good_round_def safe_at_def)
    next
      case (Break v')
      then have "decode_loop n L env d v = (Some v', d')"
        using False r by (subst decode_loop.simps) simp
      then show ?thesis using good Break by (auto simp: good_round_def safe_at_def)
    qed
  qed
qed

lemma message_safe:
  assumes "table_fits table_ok fs sz"
  shows "safe_at (writable p sz) d (decode_message n L env d fs p)"
proof -
  let ?d = "on_heap (put_word (stack_slot n) (0 :: u32)) d"
  let ?v = "\<lparr>v_iter = snd (pb_field_iter_begin fs p), fields_seen = [0, 0],
      extension_range_start = 0, fixed_count_field = None\<rparr>"
  have slot: "cframe (writable p sz) (snd d) (put_word (stack_slot n) (0 :: u32) (snd d))"
    by (rule frames) (auto simp: writable_def stack_slot_def)
  have "good_vars n fs p ?v"
    by (cases "fs = []") (auto simp: good_vars_def iter_begin_at good_iter_def)
  note loop = loop_good [OF assms this, of ?d env]
  obtain r d' where r: "decode_loop n L env ?d ?v = (r, d')" by (rule prod.exhaust)
  have ok: "safe_at (writable p sz) ?d (b, d')" for b :: bool using loop r by (simp add: safe_at_def)
  have "safe_at (writable p sz) ?d (d_error msg d')" for msg
    using ok [of True] safe_at_error [of "writable p sz" d' msg]
    by (auto simp: safe_at_def intro: cframe_trans)
  moreover have "(\<exists>b. decode_message n L env d fs p = (b, d')) \<or>
      (\<exists>msg. decode_message n L env d fs p = d_error msg d')"
    using r by (cases r) (auto simp: decode_message_def Let_def split: prod.splits)
  ultimately have "safe_at (writable p sz) ?d (decode_message n L env d fs p)" using ok by auto
  with slot show ?thesis by (rule safe_at_heap)
qed

end

section \<open>All levels\<close>

lemma with_init_safe:
  assumes "cframe A (snd d) (defaults fs p (snd d))" and "\<And>d. safe_at A d (noinit d fs p)"
    and "\<And>c. release fs p c = c"
  shows "safe_at A d (decode_with_init defaults release noinit d fs p)"
proof -
  have "safe_at A d (noinit (on_heap (defaults fs p) d) fs p)"
    by (rule safe_at_heap [where h = "defaults fs p", OF assms(1) assms(2)])
  moreover have "on_heap (release fs p) d' = d'" for d' by (simp add: on_heap_def assms(3))
  ultimately show ?thesis
    by (auto simp: decode_with_init_def safe_at_def split: prod.splits bool.splits)
qed

lemma safe_levels: "safe_level (level_of n env (pb_decode_noinit n env)) (static_table n)"
proof (induction n)
  case 0
  show ?case
  proof
    fix fs p sz c i
    show "l_release (level_of 0 env (pb_decode_noinit 0 env)) (iter_at fs p i) c = c"
      if "table_fits (static_table 0) fs sz" "i < length fs"
      using release_static(2) [of "Suc 0" fs sz i] that by (simp add: level_of_def Let_def)
  qed simp_all
next
  case (Suc n)
  have noinit: "safe_at (writable p sz) d (pb_decode_noinit (Suc n) env d fs p)"
    if "static_table (Suc n) fs sz" for fs p sz d
    using safe_level.message_safe [OF Suc] that by simp
  show ?case
  proof
    fix fs p sz d c i
    show "safe_at (writable p sz) d (l_noinit (level_of (Suc n) env (pb_decode_noinit (Suc n) env)) d fs p)"
      if "static_table (Suc n) fs sz" using noinit [OF that] by (simp add: level_of_def Let_def)
    show "safe_at (writable p sz) d (l_decode (level_of (Suc n) env (pb_decode_noinit (Suc n) env)) d fs p)"
      if "static_table (Suc n) fs sz"
      using noinit [OF that] release_static(1) [OF that] defaults_frame [OF that]
      by (auto simp: level_of_def Let_def writable_def intro!: with_init_safe)
    show "cframe (writable p sz) c (l_defaults (level_of (Suc n) env (pb_decode_noinit (Suc n) env)) fs p c)"
      if "static_table (Suc n) fs sz"
      using defaults_frame [OF that] by (simp add: level_of_def Let_def writable_def)
    show "l_release (level_of (Suc n) env (pb_decode_noinit (Suc n) env)) (iter_at fs p i) c = c"
      if "table_fits (static_table (Suc n)) fs sz" "i < length fs"
      using release_static(2) [of "Suc (Suc n)" fs sz i] that by (simp add: level_of_def Let_def)
  qed
qed

interpretation safe: safe_level "level_of n env (pb_decode_noinit n env)" "static_table n" for n env
  by (rule safe_levels)

end
