(* ===== verification/DecoderProperties.thy ===== *)
theory DecoderProperties
  imports DecodeSafety EncoderProperties
begin

text \<open>
  The promises of \<open>pb_decode.c\<close> to its callers: memory safety and termination for every input,
  the arithmetic of the allocation, and the corners of the decoder where the code does something
  else than its comments say.
\<close>

section \<open>Memory safety and termination\<close>

lemma pb_decode_safe:
  assumes "static_table n fs sz"
  shows "safe_at (writable p sz) d (pb_decode n env d fs p)"
proof -
  have "safe_at (writable p sz) d (pb_decode_noinit n env d fs p)" for d
    using safe.noinit [OF assms, of p d env] by (simp add: level_of_def Let_def)
  then show ?thesis
    unfolding pb_decode_def using defaults_frame [OF assms] release_static(1) [OF assms]
    by (intro with_init_safe) (auto simp: writable_def)
qed

text \<open>
  C15. Memory safety: whatever bytes arrive and whatever kind of stream delivers them, \<open>pb_decode\<close>
  of a static table changes no byte outside the destination structure and its own stack (the
  negative addresses), and neither allocates nor frees.
\<close>
theorem pb_decode_memory_safe:
  assumes "static_table n fs sz"
  shows "same_outside ({p ..< p + int sz} \<union> {..< 0}) (mem c) (mem (snd (snd (pb_decode n env (s, c) fs p)))) \<and>
    blocks (snd (snd (pb_decode n env (s, c) fs p))) = blocks c \<and>
    bad_free (snd (snd (pb_decode n env (s, c) fs p))) = bad_free c"
  using pb_decode_safe [OF assms, of p "(s, c)" env]
  by (simp add: safe_at_def cframe_def writable_def)

text \<open>
  C16. Termination: on a static table every run of \<open>pb_decode\<close> ends. No recursion exceeds the depth
  of the table and no loop goes round without consuming input, so the model is never \<open>stuck\<close>; and
  the stream never has more bytes left afterwards than before.
\<close>
theorem pb_decode_terminates:
  assumes "static_table n fs sz"
  shows "stuck (snd (snd (pb_decode n env (s, c) fs p))) = stuck c \<and>
    bytes_left (fst (snd (pb_decode n env (s, c) fs p))) \<le> bytes_left s"
  using pb_decode_safe [OF assms, of p "(s, c)" env]
  by (simp add: safe_at_def cframe_def d_left_def)

lemma NetworkConnectionInfo_static: "static_table (Suc n) NetworkConnectionInfo_fields 16"
  by (simp add: NetworkConnectionInfo_rows table_fits_def position_fits_def Let_def value_fits_def
      field_extent_def in_union_def pb_type_defs upt_rec)

lemma QosTierConfiguration_static: "static_table (Suc n) QosTierConfiguration_fields 16"
  by (simp add: QosTierConfiguration_rows table_fits_def position_fits_def Let_def value_fits_def
      field_extent_def in_union_def pb_type_defs upt_rec)

definition zero_memory :: cstate where
  "zero_memory = \<lparr>mem = (\<lambda>x. 0), blocks = [], bad_free = False, stuck = False\<rparr>"

definition no_user_decoders :: dec_env where
  "no_user_decoders =
     \<lparr>allocate = (\<lambda>bs n. None), decode_callback = (\<lambda>f d field arg. (False, d)),
      extension_decode = (\<lambda>f d ext t wt. (False, d)), d_extensions = (\<lambda>p. [])\<rparr>"

lemma pb_decode_memory_safe_witness:
  "same_outside ({16 ..< 32} \<union> {..< 0}) (mem zero_memory)
     (mem (snd (snd (pb_decode 1 no_user_decoders (pb_istream_from_buffer [8, 5, 16, 7] 4, zero_memory)
        NetworkConnectionInfo_fields 16))))"
  using pb_decode_memory_safe [OF NetworkConnectionInfo_static [of 0], of 16 zero_memory no_user_decoders
      "pb_istream_from_buffer [8, 5, 16, 7] 4"]
  by (simp add: One_nat_def del: pb_decode_noinit.simps)

lemma pb_decode_terminates_witness:
  "\<not> stuck (snd (snd (pb_decode 1 no_user_decoders (pb_istream_from_buffer [8, 5, 16, 7] 4, zero_memory)
     NetworkConnectionInfo_fields 16)))"
  using pb_decode_terminates [OF NetworkConnectionInfo_static [of 0], of no_user_decoders
      "pb_istream_from_buffer [8, 5, 16, 7] 4" zero_memory 16]
  by (simp add: One_nat_def zero_memory_def)

section \<open>Allocation\<close>

lemma push_bit_limit: "push_bit 32 (1 :: u64) = 4294967296"
  by simp

text \<open>
  C17. \<open>allocate_field\<close> is safe from overflow: it asks the allocator for exactly the product of the
  item size and the count when this fits 64 bits, and refuses with an error, before any
  allocation, when it does not.
\<close>
theorem allocate_field_no_overflow:
  assumes "a \<noteq> 0" and "b \<noteq> 0"
  shows "if unat a * unat b < 2 ^ 64
     then allocate_field env d p a b =
       (case pb_realloc (allocate env) (load_ptr (d_mem d) p) (unat a * unat b) (snd d) of
          (q, c) \<Rightarrow> if q = 0 then d_error ''realloc failed'' (fst d, c) else (True, fst d, put_ptr p q c))
     else allocate_field env d p a b = d_error ''size too large'' d"
proof -
  let ?limit = "push_bit (8 * 4) 1 :: u64"
  have limit: "unat ?limit = 2 ^ 32" by simp
  have quot: "unat ((- 1) div b) = (2 ^ 64 - 1) div unat b"
    by (simp add: unat_div unsigned_minus_1_eq_mask mask_eq_exp_minus_1)
  have pos: "0 < unat b" using assms(2) by (simp add: unat_gt_0)
  have small: "(- 1) div b < a \<longleftrightarrow> 2 ^ 64 \<le> unat a * unat b"
  proof -
    have "(- 1) div b < a \<longleftrightarrow> (2 ^ 64 - 1) div unat b < unat a"
      by (simp only: word_less_nat_alt quot)
    also have "\<dots> \<longleftrightarrow> (2 ^ 64 - 1) < unat a * unat b" by (rule div_less_iff_less_mult [OF pos])
    finally show ?thesis by auto
  qed
  have big: "?limit \<le> a \<or> ?limit \<le> b" if "2 ^ 64 \<le> unat a * unat b"
  proof (rule ccontr)
    assume "\<not> (?limit \<le> a \<or> ?limit \<le> b)"
    then have "unat a < 2 ^ 32" "unat b < 2 ^ 32" by (simp_all add: word_le_nat_alt)
    then have "unat a * unat b < 2 ^ 32 * 2 ^ 32" by (intro mult_strict_mono) simp_all
    with that show False by simp
  qed
  show ?thesis
  proof (cases "unat a * unat b < 2 ^ 64")
    case True
    then have "unat (b * a) = unat a * unat b" by (simp add: unat_word_ariths mult.commute)
    moreover have "\<not> (- 1) div b < a" using small True by simp
    ultimately show ?thesis using True assms by (simp add: allocate_field_def Let_def)
  next
    case False
    then have "(- 1) div b < a" "?limit \<le> a \<or> ?limit \<le> b" using small big by auto
    then show ?thesis using False assms by (simp add: allocate_field_def Let_def)
  qed
qed

lemma allocate_field_no_overflow_witness:
  "allocate_field no_user_decoders (pb_istream_from_buffer [] 0, zero_memory) 16 (2 ^ 33) (2 ^ 33) =
     d_error ''size too large'' (pb_istream_from_buffer [] 0, zero_memory) \<and>
   \<not> fst (allocate_field no_user_decoders (pb_istream_from_buffer [] 0, zero_memory) 16 88 3)"
  using allocate_field_no_overflow [of "2 ^ 33" "2 ^ 33" no_user_decoders "(pb_istream_from_buffer [] 0, zero_memory)" 16]
    allocate_field_no_overflow [of 88 3 no_user_decoders "(pb_istream_from_buffer [] 0, zero_memory)" 16]
  by (simp add: no_user_decoders_def pb_realloc_def zero_memory_def d_mem_def d_error_def load_ptr_def
      load_word_def load_bytes_def upt_rec)

section \<open>Corners\<close>

text \<open>
  The overflow check of \<open>pb_decode_varint32_eof\<close> looks at the fifth byte of a varint only when it
  is the last one: a longer varint whose fifth byte has bits that do not fit is accepted.
\<close>

lemma readbyte_buffer:
  "0 < n \<Longrightarrow> pb_readbyte \<lparr>i_state = IBuf (b # bs), bytes_left = n, i_errmsg = e\<rparr> =
     (Some b, \<lparr>i_state = IBuf bs, bytes_left = n - 1, i_errmsg = e\<rparr>)"
  by (simp add: pb_readbyte_def istream_callback_def buf_read_def)

lemma varint32_loop_buffer:
  "0 < n \<Longrightarrow> decode_varint32_loop \<lparr>i_state = IBuf (byte # bs), bytes_left = n, i_errmsg = e\<rparr> bitpos result =
    (let s = \<lparr>i_state = IBuf bs, bytes_left = n - 1, i_errmsg = e\<rparr>;
         sign_extension = (if bitpos < 63 then 0xFF else 0x01 :: u8);
         overflow = (32 \<le> bitpos \<and> byte AND 0x7F \<noteq> 0 \<and>
             (drop_bit 31 result = 0 \<or> byte \<noteq> sign_extension));
         result' = (if 32 \<le> bitpos then result
             else result OR push_bit (unat bitpos) (ucast (byte AND 0x7F)))
     in if overflow then PB_RETURN_IERROR ''varint overflow'' s
        else if byte AND 0x80 \<noteq> 0 then decode_varint32_loop s (bitpos + 7) result'
        else (Some (result', bitpos + 7, byte), s))"
  by (subst decode_varint32_loop.simps) (simp add: readbyte_buffer Let_def)

lemmas varint32_eval = pb_decode_varint32_def pb_decode_varint32_eof_def pb_istream_from_buffer_def
  readbyte_buffer varint32_loop_buffer

lemma varint32_fifth_byte_accepted:
  "fst (pb_decode_varint32 (pb_istream_from_buffer [0x80, 0x80, 0x80, 0x80, 0xF0, 0] 6)) = Some 0"
  by (simp add: varint32_eval)

text \<open>
  The position counter has eight bits and wraps: after 37 continuation bytes without content the
  next byte is taken for the second one.
\<close>

lemma varint32_loop_pad:
  assumes "0 < n"
  shows "decode_varint32_loop \<lparr>i_state = IBuf (0x80 # bs), bytes_left = n, i_errmsg = e\<rparr> pos r =
     decode_varint32_loop \<lparr>i_state = IBuf bs, bytes_left = n - 1, i_errmsg = e\<rparr> (pos + 7) r"
proof -
  have c: "(0x80 :: u8) AND 0x80 \<noteq> 0" "(0x80 :: u8) AND 0x7F = 0" by simp_all
  show ?thesis
    unfolding varint32_loop_buffer [OF assms] Let_def c(2)
    using c(1) by (simp only: simp_thms if_False if_True unsigned_0 push_bit_of_0 or.right_neutral if_cancel)
qed

lemma varint32_loop_padding:
  "decode_varint32_loop \<lparr>i_state = IBuf (replicate k 0x80 @ bs), bytes_left = k + n, i_errmsg = e\<rparr> pos r =
     decode_varint32_loop \<lparr>i_state = IBuf bs, bytes_left = n, i_errmsg = e\<rparr> (pos + of_nat (7 * k)) r"
  by (induction k arbitrary: pos) (simp_all add: varint32_loop_pad algebra_simps)

lemma varint32_position_wraps:
  "fst (pb_decode_varint32 (pb_istream_from_buffer (0x80 # replicate 36 0x80 @ [1]) 38)) = Some 8"
  using varint32_loop_padding [of 36 "[1]" 1 None 7 0]
  by (simp add: varint32_eval)

text \<open>
  The initialisation treats an array of fixed count, whose \<open>pSize\<close> is its \<open>pData\<close>, as if a count
  were stored there: for two booleans it clears the two bytes after the array as well.
\<close>

lemma le_bytes_zero_nth: "i < n \<Longrightarrow> le_bytes n 0 ! i = 0"
  by (induction n arbitrary: i) (auto simp: nth_Cons split: nat.splits)

lemma for_fields_single:
  "tag f \<noteq> 0 \<Longrightarrow> for_fields g [f] dest c = g (iter_at [f] dest 0) c"
  by (simp add: for_fields_def iter_begin_at iter_loop_at proper_table_def)

lemma fixed_count_defaults_overflow:
  "mem (pb_message_set_to_defaults 1 (\<lambda>p. [])
     [Pb_field 1 (PB_HTYPE_REPEATED OR PB_LTYPE_BOOL) 0 0 1 2 PNull] 16
     (zero_memory\<lparr>mem := (\<lambda>x. 1)\<rparr>)) 19 = 0"
  by (simp add: pb_message_set_to_defaults_def for_fields_single One_nat_def set_default_step_def
      pb_type_defs put_word_def store_word_def store_bytes_def iter_at_def iter_field_def field_at_def
      required_before_def le_bytes_zero_nth Let_def)

text \<open>
  A field with tag 0 in the message of an empty type: the search compares the tag with that of
  the terminator and takes this for a field of the message, a boolean at the start of the structure.
\<close>

lemma zero_tag_matches_terminator:
  "pb_field_iter_find (iter_at [] p 0) 0 = (True, iter_at [] p 0)"
  by (simp add: pb_field_iter_find_def iter_find_def PB_LAST_FIELD_def pb_type_defs)

end
