(* ===== verification/Base64.thy ===== *)
theory Base64
  imports Prelude
begin

text \<open>
  Base64 encoding and decoding as in \<open>SocketRocket/fbase64.c\<close>, which the web socket client
  of Firebase Database uses. Sizes and indices have the widths of the source. A C string is the list of its characters before the terminating
  zero; a target buffer is a list of bytes. Both functions return a C \<open>int\<close>, -1 on error,
  together with the target as they leave it. The decoder's target may be NULL, \<open>None\<close>.
\<close>

section \<open>The alphabet\<close>

definition Base64 :: "u8 list" where
  "Base64 = map of_char ''ABCDEFGHIJKLMNOPQRSTUVWXYZabcdefghijklmnopqrstuvwxyz0123456789+/''"

definition Pad64 :: u8 where
  "Pad64 = of_char (CHR ''='')"

text \<open>\<open>isspace\<close> in the C locale, and \<open>strchr(Base64, ch) - Base64\<close>.\<close>

definition c_isspace :: "u8 \<Rightarrow> bool" where
  "c_isspace ch \<longleftrightarrow> ch = 32 \<or> 9 \<le> ch \<and> ch \<le> 13"

fun find_index :: "'a \<Rightarrow> 'a list \<Rightarrow> nat option" where
  "find_index x [] = None"
| "find_index x (y # ys) = (if x = y then Some 0 else map_option Suc (find_index x ys))"

definition base64_pos :: "u8 \<Rightarrow> nat option" where
  "base64_pos ch = find_index ch Base64"

definition base64_char :: "u8 \<Rightarrow> u8" where
  "base64_char i = Base64 ! unat i"

text \<open>
  The sums of \<open>size_t\<close> and \<open>u_int\<close> values, and the conversion of either to \<open>int\<close>, which keeps the low 32 bits. Lengths of
  a gigabyte and a half of data and more come out negative.
\<close>

definition size_add :: "nat \<Rightarrow> nat \<Rightarrow> nat" where
  "size_add m n = (m + n) mod 2 ^ 64"

definition u_int_add :: "nat \<Rightarrow> nat \<Rightarrow> nat" where
  "u_int_add m n = (m + n) mod 2 ^ 32"

definition c_int :: "nat \<Rightarrow> int" where
  "c_int n = sint (word_of_nat n :: u32)"

lemma size_add_eq [simp]: "m + n < 2 ^ 64 \<Longrightarrow> size_add m n = m + n"
  by (simp add: size_add_def)

lemma u_int_add_eq [simp]: "m + n < 2 ^ 32 \<Longrightarrow> u_int_add m n = m + n"
  by (simp add: u_int_add_def)

lemma c_int_eq [simp]: "n < 2 ^ 31 \<Longrightarrow> c_int n = int n"
proof -
  assume n: "n < 2 ^ 31"
  then have "uint (word_of_nat n :: u32) = int n" by (simp add: unsigned_of_nat take_bit_nat_eq_self)
  then show ?thesis using n by (simp add: c_int_def sint_uint signed_take_bit_int_eq_self)
qed

section \<open>Encoding\<close>

text \<open>The four values of a group of three input bytes.\<close>

definition output0 :: "u8 \<Rightarrow> u8" where "output0 a = drop_bit 2 a"
definition output1 :: "u8 \<Rightarrow> u8 \<Rightarrow> u8" where "output1 a b = push_bit 4 (a AND 0x03) + drop_bit 4 b"
definition output2 :: "u8 \<Rightarrow> u8 \<Rightarrow> u8" where "output2 b c = push_bit 2 (b AND 0x0F) + drop_bit 6 c"
definition output3 :: "u8 \<Rightarrow> u8" where "output3 c = c AND 0x3F"

text \<open>The main loop: whether it got to its end, the input left, \<open>datalength\<close> and the target.\<close>

fun ntop_groups :: "u8 list \<Rightarrow> nat \<Rightarrow> u8 list \<Rightarrow> nat \<Rightarrow> bool \<times> u8 list \<times> nat \<times> u8 list" where
  "ntop_groups (a # b # c # src) datalength target targsize =
     (if targsize < size_add datalength 4 then (False, src, datalength, target)
      else ntop_groups src (size_add datalength 4)
        (target[datalength := base64_char (output0 a),
                datalength + 1 := base64_char (output1 a b),
                datalength + 2 := base64_char (output2 b c),
                datalength + 3 := base64_char (output3 c)]) targsize)"
| "ntop_groups src datalength target targsize = (True, src, datalength, target)"

definition ntop_finish :: "nat \<Rightarrow> u8 list \<Rightarrow> nat \<Rightarrow> int \<times> u8 list" where
  "ntop_finish datalength target targsize =
     (if targsize \<le> datalength then (- 1, target)
      else (c_int datalength, target[datalength := 0]))"

text \<open>The part after the loop, which encodes the one or two bytes left.\<close>

definition ntop_padding :: "bool \<times> u8 list \<times> nat \<times> u8 list \<Rightarrow> nat \<Rightarrow> int \<times> u8 list" where
  "ntop_padding r targsize =
     (case r of
        (False, rest, datalength, target) \<Rightarrow> (- 1, target)
      | (True, [], datalength, target) \<Rightarrow> ntop_finish datalength target targsize
      | (True, a # rest, datalength, target) \<Rightarrow>
          (let b = (case rest of [] \<Rightarrow> 0 | b # bs \<Rightarrow> b)
           in if targsize < size_add datalength 4 then (- 1, target)
              else ntop_finish (size_add datalength 4)
                (target[datalength := base64_char (output0 a),
                        datalength + 1 := base64_char (output1 a b),
                        datalength + 2 := (if rest = [] then Pad64 else base64_char (output2 b 0)),
                        datalength + 3 := Pad64]) targsize))"

definition f_b64_ntop :: "u8 list \<Rightarrow> u8 list \<Rightarrow> nat \<Rightarrow> int \<times> u8 list" where
  "f_b64_ntop src target targsize = ntop_padding (ntop_groups src 0 target targsize) targsize"

section \<open>Decoding\<close>

text \<open>
  One character with the value \<open>v\<close> in the automaton's \<open>state\<close>; \<open>None\<close> when the target is
  too small.
\<close>

definition pton_step ::
  "nat \<Rightarrow> nat \<Rightarrow> nat \<Rightarrow> u8 list option \<Rightarrow> nat \<Rightarrow> (nat \<times> nat \<times> u8 list option) option" where
  "pton_step state tarindex v target targsize =
     (let w = word_of_nat v :: u8 in
      if state = 0 then
        (case target of
           None \<Rightarrow> Some (1, tarindex, None)
         | Some t \<Rightarrow> if targsize \<le> tarindex then None
                     else Some (1, tarindex, Some (t[tarindex := push_bit 2 w])))
      else if state = 1 then
        (case target of
           None \<Rightarrow> Some (2, u_int_add tarindex 1, None)
         | Some t \<Rightarrow> if targsize \<le> u_int_add tarindex 1 then None
                     else Some (2, u_int_add tarindex 1,
                       Some (t[tarindex := t ! tarindex OR drop_bit 4 w,
                               u_int_add tarindex 1 := push_bit 4 (w AND 0x0F)])))
      else if state = 2 then
        (case target of
           None \<Rightarrow> Some (3, u_int_add tarindex 1, None)
         | Some t \<Rightarrow> if targsize \<le> u_int_add tarindex 1 then None
                     else Some (3, u_int_add tarindex 1,
                       Some (t[tarindex := t ! tarindex OR drop_bit 2 w,
                               u_int_add tarindex 1 := push_bit 6 (w AND 0x03)])))
      else
        (case target of
           None \<Rightarrow> Some (0, u_int_add tarindex 1, None)
         | Some t \<Rightarrow> if targsize \<le> tarindex then None
                     else Some (0, u_int_add tarindex 1, Some (t[tarindex := t ! tarindex OR w]))))"

text \<open>
  After a pad character: what may follow it. In state 2 a second pad character must, after
  white space; then only white space.
\<close>

definition only_space :: "u8 list \<Rightarrow> bool" where
  "only_space src = list_all c_isspace src"

definition pton_padding :: "nat \<Rightarrow> u8 list \<Rightarrow> nat \<Rightarrow> u8 list option \<Rightarrow> int" where
  "pton_padding state src tarindex target =
     (let finish = (\<lambda>src.
            if \<not> only_space src then - 1
            else if (case target of Some t \<Rightarrow> t ! tarindex \<noteq> 0 | None \<Rightarrow> False) then - 1
            else c_int tarindex)
      in if state = 0 \<or> state = 1 then - 1
         else if state = 2 then
           (case dropWhile c_isspace src of
              [] \<Rightarrow> - 1
            | ch # src \<Rightarrow> if ch \<noteq> Pad64 then - 1 else finish src)
         else finish src)"

fun pton_scan :: "u8 list \<Rightarrow> nat \<Rightarrow> nat \<Rightarrow> u8 list option \<Rightarrow> nat \<Rightarrow> int \<times> u8 list option" where
  "pton_scan [] state tarindex target targsize =
     (if state \<noteq> 0 then - 1 else c_int tarindex, target)"
| "pton_scan (ch # src) state tarindex target targsize =
     (if c_isspace ch then pton_scan src state tarindex target targsize
      else if ch = Pad64 then (pton_padding state src tarindex target, target)
      else
        (case base64_pos ch of
           None \<Rightarrow> (- 1, target)
         | Some v \<Rightarrow>
             (case pton_step state tarindex v target targsize of
                None \<Rightarrow> (- 1, target)
              | Some (state, tarindex, target) \<Rightarrow> pton_scan src state tarindex target targsize)))"

definition f_b64_pton :: "u8 list \<Rightarrow> u8 list option \<Rightarrow> nat \<Rightarrow> int \<times> u8 list option" where
  "f_b64_pton src target targsize = pton_scan src 0 0 target targsize"

section \<open>The alphabet is a bijection\<close>

lemma length_Base64 [simp]: "length Base64 = 64"
  by (simp add: Base64_def)

lemma Base64_bytes: "map unat Base64 = [65..<91] @ [97..<123] @ [48..<58] @ [43, 47]"
  by (simp add: Base64_def upt_rec)

lemma distinct_Base64: "distinct Base64"
proof -
  have "distinct (map unat Base64)" by (auto simp: Base64_bytes)
  then show ?thesis by (simp only: distinct_map)
qed

lemma find_index_distinct: "distinct ys \<Longrightarrow> i < length ys \<Longrightarrow> find_index (ys ! i) ys = Some i"
proof (induction ys arbitrary: i)
  case (Cons y ys)
  then show ?case by (cases i) auto
qed simp

lemma base64_pos_char: "i < 64 \<Longrightarrow> base64_pos (Base64 ! i) = Some i"
  by (simp add: base64_pos_def find_index_distinct distinct_Base64)

lemma find_index_nth: "find_index x ys = Some i \<Longrightarrow> i < length ys \<and> ys ! i = x"
  by (induction ys arbitrary: i) (auto split: if_splits)

lemma base64_char_pos: "base64_pos ch = Some v \<Longrightarrow> v < 64 \<and> Base64 ! v = ch"
  unfolding base64_pos_def by (drule find_index_nth) simp

lemma base64_alphabet: "list_all (\<lambda>ch. \<not> c_isspace ch \<and> ch \<noteq> Pad64 \<and> ch \<noteq> 0) Base64"
  by code_simp

lemma base64_not_special:
  "i < 64 \<Longrightarrow> \<not> c_isspace (Base64 ! i) \<and> Base64 ! i \<noteq> Pad64 \<and> Base64 ! i \<noteq> 0"
  using base64_alphabet by (simp add: list_all_length)

lemma Pad64_not_space [simp]: "\<not> c_isspace Pad64" "Pad64 \<noteq> 0" "base64_pos Pad64 = None"
  by code_simp+

section \<open>Groups of bits\<close>

lemma masks:
  "(0x03 :: u8) = mask 2" "(0x0F :: u8) = mask 4" "(0x3F :: u8) = mask 6"
  by (simp_all add: mask_eq_exp_minus_1)

lemma output_bits:
  "bit (output0 a) n = bit a (n + 2)"
  "bit (output1 a b) n = (4 \<le> n \<and> n < 6 \<and> bit a (n - 4) \<or> bit b (n + 4))"
  "bit (output2 b c) n = (2 \<le> n \<and> n < 6 \<and> bit b (n - 2) \<or> bit c (n + 6))"
  "bit (output3 c) n = (n < 6 \<and> bit c n)"
proof -
  note b = bit_and_iff bit_or_iff bit_push_bit_iff bit_drop_bit_eq bit_mask_iff comp_apply possible_bit_word
  show "bit (output0 a) n = bit a (n + 2)" by (simp add: output0_def bit_drop_bit_eq add.commute)
  show "bit (output3 c) n = (n < 6 \<and> bit c n)"
    unfolding output3_def masks b by (auto dest: bit_imp_le_length)
  have "push_bit 4 (a AND mask 2) AND drop_bit 4 b = 0"
    by (rule bit_word_eqI, unfold b) (auto dest: bit_imp_le_length)
  then have "output1 a b = push_bit 4 (a AND mask 2) OR drop_bit 4 b"
    by (simp only: output1_def masks disjunctive_add_eq_or)
  then show "bit (output1 a b) n = (4 \<le> n \<and> n < 6 \<and> bit a (n - 4) \<or> bit b (n + 4))"
    unfolding b by (auto simp: b add.commute dest: bit_imp_le_length)
  have "push_bit 2 (b AND mask 4) AND drop_bit 6 c = 0"
    by (rule bit_word_eqI, unfold b) (auto dest: bit_imp_le_length)
  then have "output2 b c = push_bit 2 (b AND mask 4) OR drop_bit 6 c"
    by (simp only: output2_def masks disjunctive_add_eq_or)
  then show "bit (output2 b c) n = (2 \<le> n \<and> n < 6 \<and> bit b (n - 2) \<or> bit c (n + 6))"
    by (auto simp: b add.commute dest: bit_imp_le_length)
qed

lemma unat_less_64: "(\<And>n. 6 \<le> n \<Longrightarrow> \<not> bit w n) \<Longrightarrow> unat (w :: u8) < 64"
proof -
  assume h: "\<And>n. 6 \<le> n \<Longrightarrow> \<not> bit w n"
  have "w = take_bit 6 w"
  proof (rule bit_word_eqI)
    fix n show "bit w n = bit (take_bit 6 w) n"
      using h [of n] by (cases "n < 6") (auto simp: bit_take_bit_iff not_less)
  qed
  then have "unat w = take_bit 6 (unat w)" by (metis unsigned_take_bit_eq)
  also have "\<dots> < 64" by (simp add: take_bit_eq_mod)
  finally show ?thesis .
qed

lemma output_less [simp]:
  "unat (output0 a) < 64" "unat (output1 a b) < 64" "unat (output2 b c) < 64" "unat (output3 c) < 64"
  by (rule unat_less_64, auto simp: output_bits dest: bit_imp_le_length)+

text \<open>The decoder's shifts put the bytes together again.\<close>

lemma recombine:
  "push_bit 2 (output0 a) OR drop_bit 4 (output1 a b) = a"
  "push_bit 4 (output1 a b AND 0x0F) OR drop_bit 2 (output2 b c) = b"
  "push_bit 6 (output2 b c AND 0x03) OR output3 c = c"
proof -
  note bs = bit_or_iff bit_push_bit_iff bit_drop_bit_eq bit_and_iff bit_mask_iff comp_apply
    possible_bit_word output_bits masks
  have eight: "n = 0 \<or> n = 1 \<or> n = 2 \<or> n = 3 \<or> n = 4 \<or> n = 5 \<or> n = 6 \<or> n = 7"
    if "n < LENGTH(8)" for n using that by simp linarith
  show "push_bit 2 (output0 a) OR drop_bit 4 (output1 a b) = a"
    by (rule bit_word_eqI, unfold bs, drule eight) (auto simp: numeral_eq_Suc dest: bit_imp_le_length)
  show "push_bit 4 (output1 a b AND 0x0F) OR drop_bit 2 (output2 b c) = b"
    by (rule bit_word_eqI, unfold bs, drule eight) (auto simp: numeral_eq_Suc dest: bit_imp_le_length)
  show "push_bit 6 (output2 b c AND 0x03) OR output3 c = c"
    by (rule bit_word_eqI, unfold bs, drule eight) (auto simp: numeral_eq_Suc dest: bit_imp_le_length)
qed

section \<open>The encoding as a function on byte strings\<close>

fun b64_text :: "u8 list \<Rightarrow> u8 list" where
  "b64_text [] = []"
| "b64_text [a] = [base64_char (output0 a), base64_char (output1 a 0), Pad64, Pad64]"
| "b64_text [a, b] =
     [base64_char (output0 a), base64_char (output1 a b), base64_char (output2 b 0), Pad64]"
| "b64_text (a # b # c # src) =
     base64_char (output0 a) # base64_char (output1 a b) # base64_char (output2 b c) #
     base64_char (output3 c) # b64_text src"

lemma length_b64_text: "length (b64_text src) = 4 * ((length src + 2) div 3)"
proof (induction src rule: b64_text.induct)
  case (4 a b c src)
  have "(length (a # b # c # src) + 2) div 3 = Suc ((length src + 2) div 3)" by simp
  then show ?case using 4 by simp
qed simp_all

text \<open>Overwriting a buffer from an index on.\<close>

definition overwrite :: "nat \<Rightarrow> u8 list \<Rightarrow> u8 list \<Rightarrow> u8 list" where
  "overwrite i bs t = take i t @ bs @ drop (i + length bs) t"

lemma length_overwrite [simp]: "i + length bs \<le> length t \<Longrightarrow> length (overwrite i bs t) = length t"
  by (simp add: overwrite_def)

lemma overwrite_Nil [simp]: "overwrite i [] t = t"
  by (simp add: overwrite_def)

lemma overwrite_Cons:
  "i + length bs < length t \<Longrightarrow> overwrite i (b # bs) t = overwrite (Suc i) bs (t[i := b])"
  by (simp add: overwrite_def take_Suc_conv_app_nth drop_update_cancel add.commute)

lemma overwrite_append:
  "i + length (as @ bs) \<le> length t \<Longrightarrow>
     overwrite (i + length as) bs (overwrite i as t) = overwrite i (as @ bs) t"
  by (simp add: overwrite_def ac_simps)

section \<open>The encoder writes the text\<close>

lemma overwrite_4:
  assumes "k + (4 + length bs) \<le> length t"
  shows "overwrite k (w # x # y # z # bs) t = overwrite (k + 4) bs (t[k := w, k + 1 := x, k + 2 := y, k + 3 := z])"
  using assms by (simp add: overwrite_Cons numeral_eq_Suc)

lemma ntop_finish_text:
  "k \<le> length t \<Longrightarrow> length t = targsize \<Longrightarrow>
     ntop_finish k t targsize = (if k < targsize then (c_int k, overwrite k [0] t) else (- 1, t))"
  by (simp add: ntop_finish_def overwrite_def upd_conv_take_nth_drop)

lemma ntop_text:
  assumes "length target = targsize" and "k \<le> targsize" and "targsize < 2 ^ 63"
  shows "k + length (b64_text src) < targsize \<Longrightarrow>
       ntop_padding (ntop_groups src k target targsize) targsize =
         (c_int (k + length (b64_text src)), overwrite k (b64_text src @ [0]) target)"
    and "\<not> k + length (b64_text src) < targsize \<Longrightarrow>
       fst (ntop_padding (ntop_groups src k target targsize) targsize) = - 1"
  using assms
proof (induction src k target targsize rule: ntop_groups.induct)
  case (1 a b c src k target targsize)
  {
    case 1
    then have k: "\<not> targsize < k + 4" "size_add k 4 = k + 4" by simp_all
    show ?case using 1 k "1.IH"(1) by (simp add: overwrite_4) (rule arg_cong [of _ _ c_int], simp)
  next
    case 2
    then have "size_add k 4 = k + 4" by simp
    then show ?case using 2 "1.IH"(2) by (cases "targsize < k + 4") (simp_all add: ntop_padding_def)
  }
qed (auto simp: ntop_padding_def Let_def ntop_finish_text overwrite_4 split: if_splits, (rule arg_cong [of _ _ c_int], simp)+)

section \<open>The decoder reads it back\<close>

lemma pton_scan_char:
  assumes "i < 64"
  shows "pton_scan (Base64 ! i # src) state k target targsize =
    (case pton_step state k i target targsize of
       None \<Rightarrow> (- 1, target)
     | Some (state, k, target) \<Rightarrow> pton_scan src state k target targsize)"
  using base64_not_special [OF assms] base64_pos_char [OF assms] by simp

lemma pton_scan_out:
  assumes "unat w < 64"
  shows "pton_scan (base64_char w # src) state k target targsize =
    (case pton_step state k (unat w) target targsize of
       None \<Rightarrow> (- 1, target)
     | Some (state, k, target) \<Rightarrow> pton_scan src state k target targsize)"
  unfolding base64_char_def by (rule pton_scan_char [OF assms])

lemma pton_scan_pad:
  "pton_scan (Pad64 # src) state k target targsize = (pton_padding state src k target, target)"
  by simp

lemma leftover_zero:
  "push_bit 4 (output1 a 0 AND 0x0F) = 0" "push_bit 6 (output2 b 0 AND 0x03) = 0"
  using recombine(2) [of a 0 0] recombine(3) [of b 0] by (simp_all only: or_eq_0_iff)

declare pton_scan.simps(2) [simp del]

lemma pton_group:
  assumes "length t = targsize" and "k + 3 \<le> targsize" and "targsize < 2 ^ 31"
  shows "pton_scan (base64_char (output0 a) # base64_char (output1 a b) # base64_char (output2 b c) #
      base64_char (output3 c) # src) 0 k (Some t) targsize
    = pton_scan src 0 (k + 3) (Some (t[k := a, k + 1 := b, k + 2 := c])) targsize"
proof -
  have "(t[k := x, k := y, Suc k := z, Suc k := u, Suc (Suc k) := v, Suc (Suc k) := w]) =
    t[k := y, Suc k := u, Suc (Suc k) := w]" for x y z u v w :: u8 by simp
  then show ?thesis
    using assms by (simp add: pton_scan_out pton_step_def Let_def recombine list_update_swap numeral_3_eq_3 del: push_bit_and)
qed

lemma pton_text:
  assumes "length t = targsize" and "targsize < 2 ^ 31"
    and "k + length src < targsize \<or> length src mod 3 = 0 \<and> k + length src \<le> targsize"
  shows "\<exists>t'. pton_scan (b64_text src) 0 k (Some t) targsize = (int (k + length src), Some t') \<and>
     length t' = targsize \<and> take (k + length src) t' = take k t @ src"
  using assms
proof (induction src arbitrary: k t rule: b64_text.induct)
  case 1
  then have "k < 2 ^ 31" by auto
  then show ?case using 1 by simp
next
  case (2 a)
  then have "Suc k < targsize" by simp
  then have "pton_scan (b64_text [a]) 0 k (Some t) targsize =
     (int (k + 1), Some (t[k := a, k + 1 := 0]))"
    using 2(1,2) by (simp add: pton_scan_out pton_step_def recombine leftover_zero pton_scan_pad
        pton_padding_def only_space_def Let_def del: push_bit_and)
  then show ?case using 2(1) \<open>Suc k < targsize\<close> by (simp add: take_Suc_conv_app_nth)
next
  case (3 a b)
  then have k: "Suc (Suc k) < targsize" by (simp add: numeral_2_eq_2)
  then have "pton_scan (b64_text [a, b]) 0 k (Some t) targsize =
     (int (k + 2), Some (t[k := a, k + 1 := b, k + 2 := 0]))"
    using 3(1,2) by (simp add: pton_scan_out pton_step_def recombine leftover_zero pton_scan_pad
        pton_padding_def only_space_def Let_def del: push_bit_and)
  then show ?case using 3(1) k by (simp add: take_Suc_conv_app_nth)
next
  case (4 a b c src)
  let ?t = "t[k := a, k + 1 := b, k + 2 := c]"
  have k: "k + 3 \<le> targsize" using 4(4) by auto
  have "length (a # b # c # src) mod 3 = length src mod 3" by simp
  then have "\<exists>t'. pton_scan (b64_text src) 0 (k + 3) (Some ?t) targsize = (int (k + 3 + length src), Some t') \<and>
     length t' = targsize \<and> take (k + 3 + length src) t' = take (k + 3) ?t @ src"
    using 4(2-4) by (intro 4(1)) auto
  moreover have "take (k + 3) ?t = take k t @ [a, b, c]"
    using 4(2) k by (simp add: take_Suc_conv_app_nth numeral_3_eq_3)
  ultimately show ?case using pton_group [OF 4(2) k 4(3)] by (simp add: ac_simps numeral_3_eq_3)
qed

section \<open>White space\<close>

definition strip :: "u8 list \<Rightarrow> u8 list" where
  "strip src = filter (\<lambda>ch. \<not> c_isspace ch) src"

lemma strip_simps [simp]:
  "strip [] = []" "strip (ch # src) = (if c_isspace ch then strip src else ch # strip src)"
  by (simp_all add: strip_def)

lemma only_space_strip: "only_space (strip src) = only_space src"
  by (induction src) (simp_all add: only_space_def)

lemma dropWhile_strip:
  "dropWhile c_isspace (strip src) = (case dropWhile c_isspace src of [] \<Rightarrow> [] | ch # rest \<Rightarrow> ch # strip rest)"
  by (induction src) simp_all

lemma pton_padding_strip: "pton_padding state (strip src) k target = pton_padding state src k target"
proof (cases "dropWhile c_isspace src")
  case Nil
  then have "dropWhile c_isspace (strip src) = []" unfolding dropWhile_strip by (simp only: list.case)
  with Nil show ?thesis unfolding pton_padding_def Let_def only_space_strip by (simp only: list.case)
next
  case (Cons ch rest)
  then have "dropWhile c_isspace (strip src) = ch # strip rest"
    unfolding dropWhile_strip by (simp only: list.case)
  with Cons show ?thesis
    unfolding pton_padding_def Let_def only_space_strip by (simp only: list.case only_space_strip)
qed

lemma pton_scan_strip: "pton_scan (strip src) state k target targsize = pton_scan src state k target targsize"
  by (induction src state k target targsize rule: pton_scan.induct)
    (simp_all add: pton_scan.simps(2) pton_padding_strip split: option.split)

section \<open>The decoder accepts canonical texts only\<close>

definition sextet :: "u8 \<Rightarrow> bool" where
  "sextet v \<longleftrightarrow> \<not> bit v 6 \<and> \<not> bit v 7"

lemma sextet_less: "n < 64 \<Longrightarrow> sextet (word_of_nat n)"
proof -
  assume n: "n < 64"
  then have u: "unat (word_of_nat n :: u8) = n" by (intro unat_of_nat_u8) simp
  have "bit (word_of_nat n :: u8) i \<longleftrightarrow> bit n i" for i
  proof -
    have "bit (unat (word_of_nat n :: u8)) i \<longleftrightarrow> bit (word_of_nat n :: u8) i"
      by (simp only: bit_unsigned_iff possible_bit_def) simp
    then show ?thesis unfolding u by simp
  qed
  moreover have "n div 2 ^ 6 = 0" "n div 2 ^ 7 = 0" using n by simp_all
  then have "\<not> bit n 6" "\<not> bit n 7" unfolding bit_iff_odd by simp_all
  ultimately show ?thesis by (simp add: sextet_def)
qed

lemma regroup:
  assumes "sextet v0" "sextet v1" "sextet v2" "sextet v3"
  defines "a \<equiv> push_bit 2 v0 OR drop_bit 4 v1"
    and "b \<equiv> push_bit 4 (v1 AND 0x0F) OR drop_bit 2 v2"
    and "c \<equiv> push_bit 6 (v2 AND 0x03) OR v3"
  shows "output0 a = v0" "output1 a b = v1" "output2 b c = v2" "output3 c = v3"
proof -
  note bs = a_def b_def c_def bit_or_iff bit_push_bit_iff bit_drop_bit_eq bit_and_iff bit_mask_iff comp_apply
    possible_bit_word output_bits masks
  have eight: "n = 0 \<or> n = 1 \<or> n = 2 \<or> n = 3 \<or> n = 4 \<or> n = 5 \<or> n = 6 \<or> n = 7"
    if "n < LENGTH(8)" for n using that by simp linarith
  note s = assms(1-4) [unfolded sextet_def]
  show "output0 a = v0"
    by (rule bit_word_eqI, unfold bs, drule eight) (use s in \<open>auto simp: numeral_eq_Suc dest: bit_imp_le_length\<close>)
  show "output1 a b = v1"
    by (rule bit_word_eqI, unfold bs, drule eight) (use s in \<open>auto simp: numeral_eq_Suc dest: bit_imp_le_length\<close>)
  show "output2 b c = v2"
    by (rule bit_word_eqI, unfold bs, drule eight) (use s in \<open>auto simp: numeral_eq_Suc dest: bit_imp_le_length\<close>)
  show "output3 c = v3"
    by (rule bit_word_eqI, unfold bs, drule eight) (use s in \<open>auto simp: numeral_eq_Suc dest: bit_imp_le_length\<close>)
qed

lemma pton_scan_cases:
  assumes "\<not> c_isspace ch" and "fst (pton_scan (ch # src) state k target targsize) \<noteq> - 1"
  obtains (pad) "ch = Pad64" | (char) v where "v < 64" "ch = base64_char (word_of_nat v)"
    "base64_pos ch = Some v" "sextet (word_of_nat v)" "ch \<noteq> Pad64"
proof (cases "ch = Pad64")
  case False
  then obtain v where v: "base64_pos ch = Some v"
    using assms by (cases "base64_pos ch") (simp_all add: pton_scan.simps(2))
  then have "v < 64" "Base64 ! v = ch" using base64_char_pos by auto
  then show ?thesis using v False by (intro char [of v]) (auto simp: base64_char_def unat_of_nat_u8 sextet_less)
qed (rule pad)

lemma pton_scan_value:
  assumes "v < 64"
  shows "pton_scan (base64_char (word_of_nat v) # src) state k target targsize =
    (case pton_step state k v target targsize of
       None \<Rightarrow> (- 1, target)
     | Some (state, k, target) \<Rightarrow> pton_scan src state k target targsize)"
  using pton_scan_out [of "word_of_nat v"] assms by (simp add: unat_of_nat_u8)

lemma no_space_simps:
  assumes "list_all (\<lambda>ch. \<not> c_isspace ch) src"
  shows "dropWhile c_isspace src = src" "only_space src \<longleftrightarrow> src = []"
  using assms by (cases src; simp add: only_space_def)+

lemma pton_end:
  assumes "list_all (\<lambda>ch. \<not> c_isspace ch) src" and "k < 2 ^ 31"
  shows "pton_padding 2 src k (Some t) = (if src = [Pad64] \<and> t ! k = 0 then int k else - 1)"
    and "pton_padding 3 src k (Some t) = (if src = [] \<and> t ! k = 0 then int k else - 1)"
proof -
  show "pton_padding 3 src k (Some t) = (if src = [] \<and> t ! k = 0 then int k else - 1)"
    using assms(2) by (simp add: pton_padding_def Let_def no_space_simps [OF assms(1)])
  show "pton_padding 2 src k (Some t) = (if src = [Pad64] \<and> t ! k = 0 then int k else - 1)"
  proof (cases src)
    case Nil
    then show ?thesis by (simp add: pton_padding_def)
  next
    case (Cons ch rest)
    then have "list_all (\<lambda>ch. \<not> c_isspace ch) rest" using assms by simp
    then show ?thesis using Cons assms
      by (simp add: pton_padding_def Let_def no_space_simps)
  qed
qed

text \<open>One character: the end of the text and a character outside the alphabet fail, except at a group's end.\<close>

lemma pton_next:
  assumes "list_all (\<lambda>ch. \<not> c_isspace ch) src" and "pton_scan src state k target targsize = (n, t')"
    and "n \<noteq> - 1" and "state \<noteq> 0"
  obtains (pad) rest where "src = Pad64 # rest" "list_all (\<lambda>ch. \<not> c_isspace ch) rest"
      "pton_padding state rest k target = n" "target = t'"
  | (char) v rest s' k' u where "src = base64_char (word_of_nat v) # rest" "v < 64" "sextet (word_of_nat v)"
      "list_all (\<lambda>ch. \<not> c_isspace ch) rest" "pton_step state k v target targsize = Some (s', k', u)"
      "pton_scan rest s' k' u targsize = (n, t')"
proof (cases src)
  case Nil
  then show ?thesis using assms by simp
next
  case (Cons ch rest)
  then have ns: "\<not> c_isspace ch" and rs: "list_all (\<lambda>ch. \<not> c_isspace ch) rest" using assms by simp_all
  have "fst (pton_scan (ch # rest) state k target targsize) \<noteq> - 1" using assms Cons by simp
  with ns show ?thesis
  proof (cases rule: pton_scan_cases)
    case 1: pad
    then show ?thesis using assms(2) Cons rs by (intro pad [of rest]) (auto simp: pton_scan_pad)
  next
    case 2: (char v)
    then have "pton_scan src state k target targsize = (case pton_step state k v target targsize of
       None \<Rightarrow> (- 1, target)
     | Some (state, k, target) \<Rightarrow> pton_scan rest state k target targsize)"
      using Cons by (simp add: pton_scan_value)
    then show ?thesis using assms(2,3) Cons 2 rs
      by (auto split: option.splits intro: char)
  qed
qed

lemma pton_first:
  assumes "list_all (\<lambda>ch. \<not> c_isspace ch) (c # src)" and "pton_scan (c # src) 0 k (Some t) targsize = (n, t')"
    and "n \<noteq> - 1"
  obtains v where "c = base64_char (word_of_nat v)" "v < 64" "sextet (word_of_nat v)" "k < targsize"
      "pton_scan src 1 k (Some (t[k := push_bit 2 (word_of_nat v)])) targsize = (n, t')"
proof -
  have ns: "\<not> c_isspace c" and r: "fst (pton_scan (c # src) 0 k (Some t) targsize) \<noteq> - 1"
    using assms by simp_all
  then show ?thesis
  proof (cases rule: pton_scan_cases)
    case pad
    then show ?thesis using assms by (simp add: pton_scan_pad pton_padding_def)
  next
    case (char v)
    then show ?thesis using assms(2,3) that [of v]
      by (auto simp: pton_scan_value pton_step_def split: if_splits)
  qed
qed

lemma pton_canonical:
  assumes "length t = targsize" and "k \<le> targsize" and "list_all (\<lambda>ch. \<not> c_isspace ch) src"
    and "pton_scan src 0 k (Some t) targsize = (n, Some t')" and "n \<noteq> - 1" and "targsize < 2 ^ 31"
  shows "\<exists>bs. src = b64_text bs \<and> n = int (k + length bs) \<and> length t' = targsize \<and>
    take (k + length bs) t' = take k t @ bs"
  using assms
proof (induction "length src" arbitrary: src k t rule: less_induct)
  case less
  show ?case
  proof (cases src)
    case Nil
    then show ?thesis using less.prems by (intro exI [of _ "[]"]) auto
  next
    case (Cons c0 r0)
    have s0: "list_all (\<lambda>ch. \<not> c_isspace ch) r0" using less.prems(3) Cons by simp
    obtain v0 where c0: "c0 = base64_char (word_of_nat v0)" "sextet (word_of_nat v0)" "k < targsize"
      and r1: "pton_scan r0 1 k (Some (t[k := push_bit 2 (word_of_nat v0)])) targsize = (n, Some t')"
      using pton_first [OF less.prems(3,4) [unfolded Cons] less.prems(5)] by metis
    let ?w0 = "word_of_nat v0 :: u8"
    from s0 r1 less.prems(5) one_neq_zero show ?thesis
    proof (cases rule: pton_next)
      case (pad rest)
      then show ?thesis using less.prems(5) by (simp add: pton_padding_def)
    next
      case 1: (char v1 rest1 s1 k1 u1)
      let ?w1 = "word_of_nat v1 :: u8"
      let ?a = "push_bit 2 ?w0 OR drop_bit 4 ?w1"
      let ?l1 = "push_bit 4 (?w1 AND 0x0F)"
      have st1: "s1 = 2" "k1 = k + 1" "u1 = Some (t[k := ?a, k + 1 := ?l1])" "k + 1 < targsize"
        using 1(5) less.prems(1,6) c0 by (auto simp: pton_step_def Let_def split: if_splits)
      then have "s1 \<noteq> 0" by simp
      from 1(4,6) less.prems(5) this show ?thesis
      proof (cases rule: pton_next [of rest1 s1 k1 u1])
        case (pad rest)
        then have z: "rest = [Pad64]" "?l1 = 0" "n = int (k + 1)"
          using st1 less.prems(1,5,6) by (auto simp: pton_end simp del: push_bit_and split: if_splits)
        have "sextet 0" by (simp add: sextet_def)
        then have "output0 ?a = ?w0" "output1 ?a 0 = ?w1"
          using regroup [of ?w0 ?w1 0 0] c0 1(3) z by (simp_all del: push_bit_and)
        then have "src = b64_text [?a]" using Cons c0 1 pad z by simp
        moreover have "t' = t[k := ?a, k + 1 := ?l1]" using pad st1 by simp
        ultimately show ?thesis using z st1 less.prems(1)
          by (intro exI [of _ "[?a]"]) (simp add: take_Suc_conv_app_nth)
      next
        case 2: (char v2 rest2 s2 k2 u2)
        let ?w2 = "word_of_nat v2 :: u8"
        let ?b = "push_bit 4 (?w1 AND 0x0F) OR drop_bit 2 ?w2"
        let ?l2 = "push_bit 6 (?w2 AND 0x03)"
        have st2: "s2 = 3" "k2 = k + 2" "u2 = Some (t[k := ?a, k + 1 := ?b, k + 2 := ?l2])" "k + 2 < targsize"
          using 2(5) less.prems(1,6) st1 by (auto simp: pton_step_def Let_def split: if_splits)
        then have "s2 \<noteq> 0" by simp
        from 2(4,6) less.prems(5) this show ?thesis
        proof (cases rule: pton_next [of rest2 s2 k2 u2])
          case (pad rest)
          then have z: "rest = []" "?l2 = 0" "n = int (k + 2)"
            using st2 less.prems(1,5,6) by (auto simp: pton_end simp del: push_bit_and split: if_splits)
          have "sextet 0" by (simp add: sextet_def)
          then have "output0 ?a = ?w0" "output1 ?a ?b = ?w1" "output2 ?b 0 = ?w2"
            using regroup [of ?w0 ?w1 ?w2 0] c0 1(3) 2(3) z by (simp_all del: push_bit_and)
          then have "src = b64_text [?a, ?b]" using Cons c0 1 2 pad z by simp
          moreover have "t' = t[k := ?a, k + 1 := ?b, k + 2 := ?l2]" using pad st2 by simp
          ultimately show ?thesis using z st2 less.prems(1)
            by (intro exI [of _ "[?a, ?b]"]) (simp add: take_Suc_conv_app_nth)
        next
          case 3: (char v3 rest3 s3 k3 u3)
          let ?w3 = "word_of_nat v3 :: u8"
          let ?c = "push_bit 6 (?w2 AND 0x03) OR ?w3"
          let ?t = "t[k := ?a, k + 1 := ?b, k + 2 := ?c]"
          have st3: "s3 = 0" "k3 = k + 3" "u3 = Some ?t"
            using 3(5) less.prems(1,6) st2 by (auto simp: pton_step_def Let_def split: if_splits)
          have "\<exists>bs. rest3 = b64_text bs \<and> n = int (k + 3 + length bs) \<and> length t' = targsize \<and>
            take (k + 3 + length bs) t' = take (k + 3) ?t @ bs"
            using less.prems 3 st3 st2 2(1) 1(1) Cons by (intro less.hyps) auto
          then obtain bs where bs: "rest3 = b64_text bs" "n = int (k + 3 + length bs)" "length t' = targsize"
            "take (k + 3 + length bs) t' = take (k + 3) ?t @ bs" by blast
          have "src = b64_text (?a # ?b # ?c # bs)"
            using Cons c0 1 2 3 bs(1) regroup [of ?w0 ?w1 ?w2 ?w3] by simp
          moreover have "take (k + 3) ?t = take k t @ [?a, ?b, ?c]"
            using less.prems(1) st2 by (simp add: take_Suc_conv_app_nth numeral_3_eq_3)
          ultimately show ?thesis using bs
            by (intro exI [of _ "?a # ?b # ?c # bs"]) (simp add: ac_simps numeral_3_eq_3)
        qed
      qed
    qed
  qed
qed

section \<open>Properties of the Base64 functions\<close>

text \<open>
  C9. \<open>f_b64_ntop\<close> succeeds exactly when the target has room for the text, four characters
  for every three bytes started, and its terminating zero; it then returns the length of the
  text as an \<open>int\<close>, which is the length itself below \<open>2 ^ 31\<close>, writes text and zero at the front of the target and leaves
  the rest alone. A shorter target gives -1. No array has \<open>2 ^ 63\<close> bytes.
\<close>

theorem f_b64_ntop_correct:
  assumes "length target = targsize" and "targsize < 2 ^ 63"
  shows "(if 4 * ((length src + 2) div 3) < targsize
          then f_b64_ntop src target targsize =
            (c_int (4 * ((length src + 2) div 3)),
             b64_text src @ [0] @ drop (length (b64_text src) + 1) target) \<and>
            (4 * ((length src + 2) div 3) < 2 ^ 31 \<longrightarrow>
             fst (f_b64_ntop src target targsize) = int (4 * ((length src + 2) div 3)))
          else fst (f_b64_ntop src target targsize) = - 1)"
proof -
  let ?n = "4 * ((length src + 2) div 3)"
  have "?n < targsize \<Longrightarrow> f_b64_ntop src target targsize =
      (c_int ?n, b64_text src @ [0] @ drop (length (b64_text src) + 1) target)"
    using ntop_text(1) [OF assms(1) le0 assms(2), of src] by (simp add: f_b64_ntop_def length_b64_text overwrite_def)
  moreover have "\<not> ?n < targsize \<Longrightarrow> fst (f_b64_ntop src target targsize) = - 1"
    using ntop_text(2) [OF assms(1) le0 assms(2), of src] by (simp add: f_b64_ntop_def length_b64_text)
  moreover have "?n < 2 ^ 31 \<Longrightarrow> c_int ?n = int ?n" by (rule c_int_eq)
  ultimately show ?thesis by (simp del: c_int_eq)
qed

theorem f_b64_ntop_correct_witness:
  "f_b64_ntop [77, 97] [9, 9, 9, 9, 9, 9] 6 = (4, [84, 87, 69, 61, 0, 9]) \<and>
   fst (f_b64_ntop [77, 97] [9, 9, 9, 9] 4) = - 1"
proof -
  have "b64_text [77, 97] = [84, 87, 69, 61]" by code_simp
  then show ?thesis
    using f_b64_ntop_correct [of "[9, 9, 9, 9, 9, 9]" 6 "[77, 97]"]
      f_b64_ntop_correct [of "[9, 9, 9, 9]" 4 "[77, 97]"] by simp
qed

text \<open>
  C10. Base64 round-trips: what \<open>f_b64_ntop\<close> has written into a target that was large enough,
  \<open>f_b64_pton\<close> reads back byte for byte, given a buffer with one byte to spare. Both buffers are shorter than
  \<open>2 ^ 31\<close> bytes, so that the lengths returned are non-negative as an \<open>int\<close>.
\<close>

theorem f_b64_roundtrip:
  assumes "length target = targsize" and "4 * ((length src + 2) div 3) < targsize" and "targsize < 2 ^ 31"
    and "length buf = bufsize" and "length src < bufsize" and "bufsize < 2 ^ 31"
  shows "\<exists>n text buf'. f_b64_ntop src target targsize = (int n, text) \<and>
    f_b64_pton (take n text) (Some buf) bufsize = (int (length src), Some buf') \<and>
    take (length src) buf' = src"
proof -
  have "f_b64_ntop src target targsize = (int (length (b64_text src)), overwrite 0 (b64_text src @ [0]) target)"
    using ntop_text(1) [OF assms(1) le0, of src] assms(2,3) c_int_eq [of "length (b64_text src)"]
    by (simp add: f_b64_ntop_def length_b64_text del: c_int_eq)
  moreover have "take (length (b64_text src)) (overwrite 0 (b64_text src @ [0]) target) = b64_text src"
    by (simp add: overwrite_def)
  moreover obtain buf' where "pton_scan (b64_text src) 0 0 (Some buf) bufsize = (int (length src), Some buf')"
    "take (length src) buf' = src"
    using pton_text [OF assms(4,6), of 0 src] assms(5) by auto
  ultimately show ?thesis unfolding f_b64_pton_def by metis
qed

theorem f_b64_roundtrip_witness:
  "\<exists>n text buf'. f_b64_ntop [1, 2, 3, 255] (replicate 9 0) 9 = (int n, text) \<and>
    f_b64_pton (take n text) (Some (replicate 5 0)) 5 = (int (length [1, 2, 3, 255 :: u8]), Some buf') \<and>
    take (length [1, 2, 3, 255 :: u8]) buf' = [1, 2, 3, 255]"
  by (rule f_b64_roundtrip) simp_all

text \<open>
  C11. The decoder accepts canonical texts only: when \<open>f_b64_pton\<close> succeeds on a buffer of less than \<open>2 ^ 31\<close> bytes, the
  text without its white space is exactly the encoding of the bytes it has stored. In particular no two
  texts that differ in more than white space decode to the same bytes, and bits left over by
  the padding cannot carry information.
\<close>

theorem f_b64_pton_canonical:
  assumes "length buf = bufsize" and "bufsize < 2 ^ 31" and "f_b64_pton src (Some buf) bufsize = (n, Some buf')" and "n \<noteq> - 1"
  shows "strip src = b64_text (take (nat n) buf') \<and> 0 \<le> n"
proof -
  have "list_all (\<lambda>ch. \<not> c_isspace ch) (strip src)" by (simp add: strip_def list_all_iff)
  moreover have "pton_scan (strip src) 0 0 (Some buf) bufsize = (n, Some buf')"
    using assms(3) by (simp add: f_b64_pton_def pton_scan_strip)
  ultimately obtain bs where "strip src = b64_text bs" "n = int (0 + length bs)" "take (0 + length bs) buf' = take 0 buf @ bs"
    using pton_canonical [OF assms(1) le0 _ _ assms(4,2)] by blast
  then show ?thesis by simp
qed

theorem f_b64_pton_canonical_witness:
  "\<exists>buf'. f_b64_pton [84, 87, 32, 69, 61, 10] (Some [0, 0, 0]) 3 = (2, Some buf') \<and>
    strip [84, 87, 32, 69, 61, 10] = b64_text (take (nat 2) buf') \<and> 0 \<le> (2 :: int)"
proof -
  have "strip [84, 87, 32, 69, 61, 10] = b64_text [77, 97]" by code_simp
  moreover obtain buf' where "pton_scan (b64_text [77, 97]) 0 0 (Some [0, 0, 0]) 3 = (2, Some buf')"
    using pton_text [of "[0, 0, 0]" 3 0 "[77, 97]"] by auto
  ultimately have decoded: "f_b64_pton [84, 87, 32, 69, 61, 10] (Some [0, 0, 0]) 3 = (2, Some buf')"
    by (metis f_b64_pton_def pton_scan_strip)
  show ?thesis
    using f_b64_pton_canonical [OF _ _ decoded] decoded by auto
qed

text \<open>
  \<open>NSData+SRB64Additions.m\<close> allocates \<open>(n * 3 + 2) / 2\<close> bytes for the text of \<open>n\<close> bytes: too few for some short data, for
  which the encoder returns -1.
\<close>

lemma caller_buffer_too_small:
  assumes "length src \<in> {1, 2, 4, 5, 7, 10, 13}" and "length target = (length src * 3 + 2) div 2"
  shows "fst (f_b64_ntop src target (length target)) = - 1"
  using ntop_text(2) [of target "length target" 0 src] assms by (auto simp: f_b64_ntop_def length_b64_text)

end
