(* ===== verification/LdbCoding.thy ===== *)
theory LdbCoding
  imports PbWire
begin

text \<open>
  \<open>leveldb-library/util/coding.cc\<close>, \<open>coding.h\<close> and the \<open>Slice\<close> of \<open>include/leveldb/slice.h\<close>.

  A slice and a \<open>std::string\<close> are the list of their bytes: a slice never changes the bytes it
  points to. A function that writes at \<open>dst\<close> and returns the pointer after the last byte becomes
  the list of the bytes it writes; one that reads between \<open>p\<close> and \<open>limit\<close> and returns the next
  pointer, or null, takes that stretch of bytes and returns the value with the bytes left, or \<open>None\<close>.

  The lemmas tie the unrolled and the looping varint writers to the format of \<open>PbWire\<close>, which
  nanopb uses as well, show that both byte orders give the same bytes, and that each reader
  takes back exactly what its writer put, whatever follows.
\<close>

type_synonym bytes = "u8 list"

section \<open>Slices\<close>

type_synonym slice = bytes

definition remove_prefix :: "slice \<Rightarrow> nat \<Rightarrow> slice" where
  "remove_prefix s n = drop n s"

definition starts_with :: "slice \<Rightarrow> slice \<Rightarrow> bool" where
  "starts_with s x \<longleftrightarrow> length x \<le> length s \<and> take (length x) s = x"

text \<open>\<open>memcmp\<close> on as many bytes as both lists have; the sign is all the standard promises.\<close>

fun c_memcmp :: "bytes \<Rightarrow> bytes \<Rightarrow> int" where
  "c_memcmp (a # as) (b # bs) = (if a < b then - 1 else if b < a then 1 else c_memcmp as bs)"
| "c_memcmp as bs = 0"

definition slice_compare :: "slice \<Rightarrow> slice \<Rightarrow> int" where
  "slice_compare a b =
     (let min_len = (if length a < length b then length a else length b);
          r = c_memcmp (take min_len a) (take min_len b)
      in if r = 0 then (if length a < length b then - 1 else if length b < length a then 1 else r) else r)"

definition slice_eq :: "slice \<Rightarrow> slice \<Rightarrow> bool" where
  "slice_eq x y \<longleftrightarrow> length x = length y \<and> c_memcmp x y = 0"

section \<open>Fixed-width integers\<close>

text \<open>
  \<open>port::kLittleEndian\<close> selects a plain copy of the integer or an explicit order of the bytes; the
  lemmas below hold for either value.
\<close>

definition kLittleEndian :: bool where
  "kLittleEndian = True"

definition EncodeFixed32 :: "u32 \<Rightarrow> bytes" where
  "EncodeFixed32 value =
     (if kLittleEndian then le_bytes 4 (unat value)
      else [ucast (value AND 0xFF), ucast (drop_bit 8 value AND 0xFF),
            ucast (drop_bit 16 value AND 0xFF), ucast (drop_bit 24 value AND 0xFF)])"

definition EncodeFixed64 :: "u64 \<Rightarrow> bytes" where
  "EncodeFixed64 value =
     (if kLittleEndian then le_bytes 8 (unat value)
      else [ucast (value AND 0xFF), ucast (drop_bit 8 value AND 0xFF),
            ucast (drop_bit 16 value AND 0xFF), ucast (drop_bit 24 value AND 0xFF),
            ucast (drop_bit 32 value AND 0xFF), ucast (drop_bit 40 value AND 0xFF),
            ucast (drop_bit 48 value AND 0xFF), ucast (drop_bit 56 value AND 0xFF)])"

definition PutFixed32 :: "bytes \<Rightarrow> u32 \<Rightarrow> bytes" where
  "PutFixed32 dst value = dst @ EncodeFixed32 value"

definition PutFixed64 :: "bytes \<Rightarrow> u64 \<Rightarrow> bytes" where
  "PutFixed64 dst value = dst @ EncodeFixed64 value"

text \<open>The bytes at \<open>ptr\<close>, at least as many as the integer has.\<close>

definition DecodeFixed32 :: "bytes \<Rightarrow> u32" where
  "DecodeFixed32 p =
     (if kLittleEndian then word_of_nat (le_nat (take 4 p))
      else ucast (p ! 0) OR push_bit 8 (ucast (p ! 1)) OR push_bit 16 (ucast (p ! 2)) OR
           push_bit 24 (ucast (p ! 3)))"

definition DecodeFixed64 :: "bytes \<Rightarrow> u64" where
  "DecodeFixed64 p =
     (if kLittleEndian then word_of_nat (le_nat (take 8 p))
      else
        let lo = ucast (DecodeFixed32 p);
            hi = ucast (DecodeFixed32 (drop 4 p))
        in push_bit 32 hi OR lo)"

section \<open>Varints\<close>

definition EncodeVarint32 :: "u32 \<Rightarrow> bytes" where
  "EncodeVarint32 v =
     (if v < push_bit 7 1 then [ucast v]
      else if v < push_bit 14 1 then [ucast (v OR 128), ucast (drop_bit 7 v)]
      else if v < push_bit 21 1 then
        [ucast (v OR 128), ucast (drop_bit 7 v OR 128), ucast (drop_bit 14 v)]
      else if v < push_bit 28 1 then
        [ucast (v OR 128), ucast (drop_bit 7 v OR 128), ucast (drop_bit 14 v OR 128),
         ucast (drop_bit 21 v)]
      else
        [ucast (v OR 128), ucast (drop_bit 7 v OR 128), ucast (drop_bit 14 v OR 128),
         ucast (drop_bit 21 v OR 128), ucast (drop_bit 28 v)])"

definition PutVarint32 :: "bytes \<Rightarrow> u32 \<Rightarrow> bytes" where
  "PutVarint32 dst v = dst @ EncodeVarint32 v"

lemma drop_bit_7_less: "128 \<le> v \<Longrightarrow> unat (drop_bit 7 (v :: u64)) < unat v"
  by (simp add: unat_drop_bit_word word_le_nat_alt)

function EncodeVarint64 :: "u64 \<Rightarrow> bytes" where
  "EncodeVarint64 v = (if 128 \<le> v then ucast (v OR 128) # EncodeVarint64 (drop_bit 7 v) else [ucast v])"
  by pat_completeness auto
termination
  by (relation "measure unat") (simp_all add: drop_bit_7_less)

declare EncodeVarint64.simps [simp del]

definition PutVarint64 :: "bytes \<Rightarrow> u64 \<Rightarrow> bytes" where
  "PutVarint64 dst v = dst @ EncodeVarint64 v"

definition PutLengthPrefixedSlice :: "bytes \<Rightarrow> slice \<Rightarrow> bytes" where
  "PutLengthPrefixedSlice dst value = PutVarint32 dst (of_nat (length value)) @ value"

function VarintLength_loop :: "u64 \<Rightarrow> nat \<Rightarrow> nat" where
  "VarintLength_loop v len = (if 128 \<le> v then VarintLength_loop (drop_bit 7 v) (len + 1) else len)"
  by pat_completeness auto
termination
  by (relation "measure (\<lambda>(v, len). unat v)") (simp_all add: drop_bit_7_less)

declare VarintLength_loop.simps [simp del]

definition VarintLength :: "u64 \<Rightarrow> nat" where
  "VarintLength v = VarintLength_loop v 1"

text \<open>The loop of the readers: at most \<open>rounds\<close> bytes, each shifted by seven more bits.\<close>

fun varint_rounds :: "nat \<Rightarrow> nat \<Rightarrow> 'a :: len word \<Rightarrow> bytes \<Rightarrow> ('a word \<times> bytes) option" where
  "varint_rounds (Suc rounds) shift result (byte # p) =
     (if byte AND 128 \<noteq> 0
      then varint_rounds rounds (shift + 7) (result OR push_bit shift (ucast (byte AND 127))) p
      else Some (result OR push_bit shift (ucast byte), p))"
| "varint_rounds rounds shift result p = None"

text \<open>\<open>shift <= 28\<close> admits five rounds, \<open>shift <= 63\<close> ten.\<close>

definition GetVarint32PtrFallback :: "bytes \<Rightarrow> (u32 \<times> bytes) option" where
  "GetVarint32PtrFallback p = varint_rounds (28 div 7 + 1) 0 0 p"

definition GetVarint32Ptr :: "bytes \<Rightarrow> (u32 \<times> bytes) option" where
  "GetVarint32Ptr p =
     (case p of
        b # rest \<Rightarrow> if b AND 128 = 0 then Some (ucast b, rest) else GetVarint32PtrFallback p
      | [] \<Rightarrow> GetVarint32PtrFallback p)"

definition GetVarint32 :: "slice \<Rightarrow> u32 option \<times> slice" where
  "GetVarint32 input =
     (case GetVarint32Ptr input of None \<Rightarrow> (None, input) | Some (value, q) \<Rightarrow> (Some value, q))"

definition GetVarint64Ptr :: "bytes \<Rightarrow> (u64 \<times> bytes) option" where
  "GetVarint64Ptr p = varint_rounds (63 div 7 + 1) 0 0 p"

definition GetVarint64 :: "slice \<Rightarrow> u64 option \<times> slice" where
  "GetVarint64 input =
     (case GetVarint64Ptr input of None \<Rightarrow> (None, input) | Some (value, q) \<Rightarrow> (Some value, q))"

text \<open>The pointer variant, then the one on slices, which moves past the length even if it fails then.\<close>

definition GetLengthPrefixedSlicePtr :: "bytes \<Rightarrow> (slice \<times> bytes) option" where
  "GetLengthPrefixedSlicePtr p =
     (case GetVarint32Ptr p of
        None \<Rightarrow> None
      | Some (len, p) \<Rightarrow> if length p < unat len then None else Some (take (unat len) p, drop (unat len) p))"

definition GetLengthPrefixedSlice :: "slice \<Rightarrow> slice option \<times> slice" where
  "GetLengthPrefixedSlice input =
     bind_some (GetVarint32 input) (\<lambda>len input.
       if unat len \<le> length input
       then (Some (take (unat len) input), remove_prefix input (unat len))
       else (None, input))"


section \<open>Order of slices\<close>

lemma c_memcmp_eq: "length a = length b \<Longrightarrow> c_memcmp a b = 0 \<longleftrightarrow> a = b"
  by (induction a b rule: c_memcmp.induct) auto

lemma slice_eq_iff: "slice_eq x y \<longleftrightarrow> x = y"
  by (auto simp: slice_eq_def c_memcmp_eq)

text \<open>Lexicographic order, stated by recursion: a proper prefix comes first.\<close>

fun bytes_less :: "bytes \<Rightarrow> bytes \<Rightarrow> bool" where
  "bytes_less xs [] \<longleftrightarrow> False"
| "bytes_less [] (y # ys) \<longleftrightarrow> True"
| "bytes_less (x # xs) (y # ys) \<longleftrightarrow> x < y \<or> x = y \<and> bytes_less xs ys"

lemma slice_compare_simps [simp]:
  "slice_compare [] [] = 0"
  "slice_compare [] (y # ys) = - 1"
  "slice_compare (x # xs) [] = 1"
  "slice_compare (x # xs) (y # ys) =
     (if x < y then - 1 else if y < x then 1 else slice_compare xs ys)"
  by (simp_all add: slice_compare_def Let_def)

lemma bytes_less_irrefl [simp]: "\<not> bytes_less a a"
  by (induction a) auto

lemma bytes_less_trans: "bytes_less a b \<Longrightarrow> bytes_less b c \<Longrightarrow> bytes_less a c"
proof (induction a b arbitrary: c rule: bytes_less.induct)
  case (3 x xs y ys)
  then show ?case by (cases c) auto
qed (auto elim: bytes_less.elims)

lemma bytes_less_linear: "bytes_less a b \<or> a = b \<or> bytes_less b a"
  by (induction a b rule: list_induct2') auto

lemma slice_compare_value:
  "slice_compare a b = (if bytes_less a b then - 1 else if a = b then 0 else 1)"
  by (induction a b rule: bytes_less.induct) (auto simp: neq_Nil_conv split: if_splits)

section \<open>Fixed-width integers\<close>

lemma le_bytes_4: "le_bytes 4 x = [word_of_nat x, word_of_nat (x div 2 ^ 8), word_of_nat (x div 2 ^ 16),
    word_of_nat (x div 2 ^ 24)]"
  by (simp add: le_bytes_map upt_rec)

lemma le_bytes_8: "le_bytes 8 x = [word_of_nat x, word_of_nat (x div 2 ^ 8), word_of_nat (x div 2 ^ 16),
    word_of_nat (x div 2 ^ 24), word_of_nat (x div 2 ^ 32), word_of_nat (x div 2 ^ 40),
    word_of_nat (x div 2 ^ 48), word_of_nat (x div 2 ^ 56)]"
  by (simp add: le_bytes_map upt_rec)

lemma EncodeFixed32_eq: "EncodeFixed32 value = le_bytes 4 (unat value)"
  unfolding EncodeFixed32_def byte_at byte_at_0 unat_drop_bit_word le_bytes_4 by (rule if_cancel)

lemma EncodeFixed64_eq: "EncodeFixed64 value = le_bytes 8 (unat value)"
  unfolding EncodeFixed64_def byte_at byte_at_0 unat_drop_bit_word le_bytes_8 by (rule if_cancel)

lemma length_EncodeFixed [simp]: "length (EncodeFixed32 v) = 4" "length (EncodeFixed64 w) = 8"
  by (simp_all add: EncodeFixed32_eq EncodeFixed64_eq)

text \<open>Bytes put together with shifts are the number they stand for.\<close>

lemma word_chunk:
  assumes "x < 2 ^ n"
  shows "word_of_nat x OR push_bit n y = word_of_nat x + push_bit n (y :: 'a :: len word)"
proof -
  have "take_bit n (word_of_nat x :: 'a word) = word_of_nat (take_bit n x)"
    by (rule bit_word_eqI) (auto simp: bit_simps)
  also have "take_bit n x = x" using assms by (simp add: take_bit_nat_eq_self)
  finally have t: "take_bit n (word_of_nat x :: 'a word) = word_of_nat x" .
  have "(word_of_nat x :: 'a word) AND push_bit n y = 0" for y
    by (subst t [symmetric], rule bit_word_eqI) (auto simp: bit_and_iff bit_take_bit_iff bit_push_bit_iff)
  from disjunctive_add_eq_or [OF this, of y] show ?thesis by simp
qed

lemma or_byte:
  "x < 2 ^ n \<Longrightarrow>
     word_of_nat x OR push_bit n (ucast (b :: u8)) = (word_of_nat (x + 2 ^ n * unat b) :: 'a :: len word)"
  by (simp add: word_chunk) (simp add: push_bit_eq_mult mult.commute)

lemma take_Suc_nth: "Suc n \<le> length p \<Longrightarrow> take (Suc n) p = take n p @ [p ! n]"
  by (simp add: take_Suc_conv_app_nth)

lemma le_nat_snoc: "le_nat (xs @ [b]) = le_nat xs + 2 ^ (8 * length xs) * unat b"
  by (induction xs) (simp_all add: power_add algebra_simps)

lemma le_nat_take_Suc:
  "Suc n \<le> length p \<Longrightarrow> le_nat (take (Suc n) p) = le_nat (take n p) + 2 ^ (8 * n) * unat (p ! n)"
  by (simp add: take_Suc_nth le_nat_snoc min_def)

lemma or_le_nat:
  assumes "Suc n \<le> length p"
  shows "word_of_nat (le_nat (take n p)) OR push_bit (8 * n) (ucast (p ! n)) =
    (word_of_nat (le_nat (take (Suc n) p)) :: 'a :: len word)"
proof -
  have "le_nat (take n p) < 2 ^ (8 * n)"
    using le_nat_less [of "take n p"] assms by (simp add: power_mult min_def)
  then show ?thesis by (simp add: or_byte le_nat_take_Suc [OF assms])
qed

lemma DecodeFixed32_eq:
  assumes "4 \<le> length p"
  shows "DecodeFixed32 p = word_of_nat (le_nat (take 4 p))"
proof -
  have "(ucast (p ! 0) :: u32) = word_of_nat (le_nat (take (Suc 0) p))"
    using assms by (cases p) auto
  then show ?thesis
    using assms or_le_nat [of "Suc 0" p, where 'a = 32] or_le_nat [of 2 p, where 'a = 32]
      or_le_nat [of 3 p, where 'a = 32]
    by (simp add: DecodeFixed32_def eval_nat_numeral flip: or.assoc)
qed


lemma DecodeFixed32_EncodeFixed32 [simp]: "DecodeFixed32 (EncodeFixed32 v @ rest) = v"
  using unat_u32_lt [of v] by (simp add: DecodeFixed32_eq EncodeFixed32_eq le_nat_le_bytes)

lemma le_nat_append: "le_nat (xs @ ys) = le_nat xs + 2 ^ (8 * length xs) * le_nat ys"
  by (induction xs) (simp_all add: power_add algebra_simps)

lemma DecodeFixed64_eq:
  assumes "8 \<le> length p"
  shows "DecodeFixed64 p = word_of_nat (le_nat (take 8 p))"
proof -
  let ?lo = "le_nat (take 4 p)" and ?hi = "le_nat (take 4 (drop 4 p))"
  have b: "?lo < 2 ^ 32" "?hi < 2 ^ 32"
    using le_nat_less [of "take 4 p"] le_nat_less [of "take 4 (drop 4 p)"] assms by simp_all
  have "take 8 p = take 4 p @ take 4 (drop 4 p)"
    using take_add [of 4 4 p] by simp
  then have whole: "le_nat (take 8 p) = ?lo + 2 ^ 32 * ?hi"
    using assms by (simp add: le_nat_append min_def)
  have c: "ucast (DecodeFixed32 p) = (word_of_nat ?lo :: u64)"
    "ucast (DecodeFixed32 (drop 4 p)) = (word_of_nat ?hi :: u64)"
    using b assms by (simp_all add: DecodeFixed32_eq word_unat_eq_iff unat_of_nat unsigned_ucast_eq take_bit_eq_mod)
  have push: "push_bit 32 (word_of_nat ?hi :: u64) = word_of_nat (2 ^ 32 * ?hi)"
    by (simp add: push_bit_eq_mult mult.commute)
  have "push_bit 32 (word_of_nat ?hi :: u64) OR word_of_nat ?lo = word_of_nat ?lo + push_bit 32 (word_of_nat ?hi)"
    using word_chunk [OF b(1), of "word_of_nat ?hi"] by (simp only: or.commute)
  then show ?thesis
    unfolding DecodeFixed64_def Let_def c whole push by (simp only: of_nat_add if_cancel)
qed

lemma DecodeFixed64_EncodeFixed64 [simp]: "DecodeFixed64 (EncodeFixed64 v @ rest) = v"
  using unat_u64_lt [of v] by (simp add: DecodeFixed64_eq EncodeFixed64_eq le_nat_le_bytes)

section \<open>Varints\<close>

lemma byte_or_128: "b OR 128 = word_of_nat (unat b mod 128 + 128)" for b :: u8
proof -
  have "b OR 128 = take_bit 7 b OR push_bit 7 1"
    by (rule bit_word_eqI) (simp only: bit_or_iff bit_take_bit_iff bit_push_bit_iff bit_0x80 bit_1_iff, auto)
  also have "take_bit 7 b = word_of_nat (unat b mod 128)"
    by (simp only: word_unat_eq_iff unsigned_take_bit_eq) (simp add: take_bit_eq_mod unat_of_nat)
  also have "\<dots> OR push_bit 7 1 = word_of_nat (unat b mod 128) + push_bit 7 1"
    by (rule word_chunk) simp
  finally show ?thesis by simp
qed

lemma low_byte_or_128:
  "(ucast (v OR 128 :: u32) :: u8) = word_of_nat (unat v mod 128 + 128)"
  "(ucast (w OR 128 :: u64) :: u8) = word_of_nat (unat w mod 128 + 128)"
  by (simp_all add: unsigned_or_eq byte_or_128 unsigned_ucast_eq take_bit_eq_mod mod_mod_cancel)

lemma EncodeVarint64_eq: "EncodeVarint64 v = leb128 (unat v)"
proof (induction v rule: EncodeVarint64.induct)
  case (1 v)
  show ?case
  proof (cases "128 \<le> v")
    case True
    then have "\<not> unat v < 128" by (simp add: word_le_nat_alt)
    with 1 True show ?thesis
      by (subst EncodeVarint64.simps, subst leb128.simps) (simp add: low_byte_or_128 unat_drop_bit_word)
  next
    case False
    then have "unat v < 128" by (simp add: word_le_nat_alt)
    then show ?thesis using False
      by (subst EncodeVarint64.simps, subst leb128.simps) (simp add: word_unat_eq_iff unsigned_ucast_eq unat_of_nat take_bit_eq_mod)
  qed
qed

lemma leb128_chunks:
  assumes "n < 2 ^ 35"
  shows "leb128 n =
    (if n < 2 ^ 7 then [word_of_nat n]
     else if n < 2 ^ 14 then [word_of_nat (n mod 128 + 128), word_of_nat (n div 2 ^ 7)]
     else if n < 2 ^ 21 then
       [word_of_nat (n mod 128 + 128), word_of_nat (n div 2 ^ 7 mod 128 + 128), word_of_nat (n div 2 ^ 14)]
     else if n < 2 ^ 28 then
       [word_of_nat (n mod 128 + 128), word_of_nat (n div 2 ^ 7 mod 128 + 128),
        word_of_nat (n div 2 ^ 14 mod 128 + 128), word_of_nat (n div 2 ^ 21)]
     else
       [word_of_nat (n mod 128 + 128), word_of_nat (n div 2 ^ 7 mod 128 + 128),
        word_of_nat (n div 2 ^ 14 mod 128 + 128), word_of_nat (n div 2 ^ 21 mod 128 + 128),
        word_of_nat (n div 2 ^ 28)])"
  using assms
  by (subst leb128.simps, subst leb128.simps [of "n div 128"], subst leb128.simps [of "n div 128 div 128"],
      subst leb128.simps [of "n div 128 div 128 div 128"],
      subst leb128.simps [of "n div 128 div 128 div 128 div 128"])
    (simp add: div_less_iff_less_mult flip: div_mult2_eq)

lemma unat_exp_u32: "k < 32 \<Longrightarrow> unat (2 ^ k :: u32) = 2 ^ k"
proof -
  assume "k < 32"
  then have "(2 :: nat) ^ k < 2 ^ 32" by (intro power_strict_increasing) simp_all
  then have "unat (of_nat (2 ^ k) :: u32) = 2 ^ k" by (rule unat_of_nat_u32)
  then show ?thesis by simp
qed

lemma EncodeVarint32_eq: "EncodeVarint32 v = leb128 (unat v)"
proof -
  have bound: "v < push_bit k 1 \<longleftrightarrow> unat v < 2 ^ k" if "k < 32" for k
    using that by (simp add: word_less_nat_alt unat_exp_u32)
  have last: "(ucast (drop_bit k v) :: u8) = word_of_nat (unat v div 2 ^ k)" for k
    by (simp add: unat_drop_bit_word [symmetric] word_unat_eq_iff unsigned_ucast_eq unat_of_nat take_bit_eq_mod)
  have first: "(ucast v :: u8) = word_of_nat (unat v)"
    using last [of 0] by simp
  have "unat v < 2 ^ 35" using unat_u32_lt [of v] by simp
  note chunks = leb128_chunks [OF this]
  show ?thesis
    unfolding EncodeVarint32_def chunks last first low_byte_or_128 unat_drop_bit_word
    by (simp only: bound)
qed

text \<open>The readers take back a varint the writers put, whatever follows it.\<close>

lemma cont_byte: "(word_of_nat (n mod 128 + 128) :: u8) AND 128 \<noteq> 0"
  "n < 128 \<Longrightarrow> (word_of_nat n :: u8) AND 128 = 0"
  using has_cont_unat [of "word_of_nat (n mod 128 + 128)"] has_cont_unat [of "word_of_nat n"]
  by (simp_all add: has_cont_def unat_of_nat_u8)

lemma varint_rounds_step:
  "0 < rounds \<Longrightarrow> varint_rounds rounds shift result (byte # p) =
     (if byte AND 128 \<noteq> 0
      then varint_rounds (rounds - 1) (shift + 7) (result OR push_bit shift (ucast (byte AND 127))) p
      else Some (result OR push_bit shift (ucast byte), p))"
  by (cases rounds) simp_all

lemma varint_rounds_leb128:
  assumes "x < 2 ^ (7 * j)" and "length (leb128 n) \<le> rounds"
  shows "varint_rounds rounds (7 * j) (word_of_nat x) (leb128 n @ rest) =
    Some (word_of_nat (x + 2 ^ (7 * j) * n) :: 'a :: len word, rest)"
  using assms
proof (induction n arbitrary: rounds j x rule: leb128.induct)
  case (1 n)
  then have pos: "0 < rounds" by (cases rounds) auto
  show ?case
  proof (cases "n < 128")
    case True
    then show ?thesis
      using pos 1 by (subst leb128.simps) (simp add: varint_rounds_step cont_byte or_byte unat_of_nat_u8)
  next
    case False
    let ?b = "word_of_nat (n mod 128 + 128) :: u8"
    have b: "unat ?b mod 128 = n mod 128" by simp
    let ?x = "x + 2 ^ (7 * j) * (unat ?b mod 128)"
    have x: "?x < 2 ^ (7 * Suc j)" using chunk_bound [OF 1(2), of ?b] .
    have "x + 2 ^ (7 * j) * n = x + 2 ^ (7 * j) * (n mod 128 + 128 * (n div 128))" by simp
    then have e: "?x + 2 ^ (7 * Suc j) * (n div 128) = x + 2 ^ (7 * j) * n"
      unfolding b by (simp only: add_mult_distrib2 power_add mult_Suc_right mult.assoc add.assoc)
        (simp add: mult.assoc mult.left_commute)
    have l: "length (leb128 (n div 128)) \<le> rounds - 1"
      using 1(3) False by (subst (asm) leb128.simps) simp
    have "varint_rounds rounds (7 * j) (word_of_nat x) (leb128 n @ rest) =
        varint_rounds (rounds - 1) (7 * Suc j) (word_of_nat ?x :: 'a word) (leb128 (n div 128) @ rest)"
      using False pos cont_byte(1) [of n]
      by (subst leb128.simps) (simp add: varint_rounds_step or_chunk [OF 1(2)] add.commute del: of_nat_add)
    also have "\<dots> = Some (word_of_nat (x + 2 ^ (7 * j) * n), rest)"
      using 1(1) [OF False x l] unfolding e .
    finally show ?thesis .
  qed
qed

lemma length_leb128_32: "length (leb128 (unat (v :: u32))) \<le> 5"
  using unat_u32_lt [of v] by (intro leb128_length) simp_all

lemma GetVarint32Ptr_leb128 [simp]: "GetVarint32Ptr (leb128 (unat v) @ rest) = Some (v, rest)"
proof -
  have f: "GetVarint32PtrFallback (leb128 (unat v) @ rest) = Some (v, rest)"
    using varint_rounds_leb128 [of 0 0 "unat v" 5 rest, where 'a = 32] length_leb128_32 [of v]
    by (simp add: GetVarint32PtrFallback_def)
  obtain b bs where l: "leb128 (unat v) = b # bs" by (cases "leb128 (unat v)") auto
  show ?thesis
  proof (cases "b AND 128 = 0")
    case True
    with f l show ?thesis
      by (simp add: GetVarint32Ptr_def GetVarint32PtrFallback_def varint_rounds_step)
  next
    case False
    with f l show ?thesis by (simp add: GetVarint32Ptr_def)
  qed
qed

lemma GetVarint64Ptr_leb128 [simp]: "GetVarint64Ptr (leb128 (unat v) @ rest) = Some (v, rest)"
  using varint_rounds_leb128 [of 0 0 "unat v" 10 rest, where 'a = 64] length_leb128_u64 [of v]
  by (simp add: GetVarint64Ptr_def)

lemma GetVarint32Ptr_nat [simp]:
  "n < 2 ^ 32 \<Longrightarrow> GetVarint32Ptr (leb128 n @ rest) = Some (word_of_nat n, rest)"
  using GetVarint32Ptr_leb128 [of "word_of_nat n" rest] by (simp add: unat_of_nat_u32)

text \<open>The inlined test of the first byte changes nothing: the loop gives the same for every input.\<close>

lemma GetVarint32Ptr_eq: "GetVarint32Ptr p = varint_rounds 5 0 0 p"
  by (cases p) (simp_all add: GetVarint32Ptr_def GetVarint32PtrFallback_def varint_rounds_step)

lemma VarintLength_loop_eq: "VarintLength_loop v len = len + length (leb128 (unat v)) - 1"
proof (induction v len rule: VarintLength_loop.induct)
  case (1 v len)
  then show ?case
    by (subst VarintLength_loop.simps, subst leb128.simps)
      (auto simp: word_le_nat_alt unat_drop_bit_word not_le)
qed

lemma VarintLength_eq: "VarintLength v = length (EncodeVarint64 v)"
  by (simp add: VarintLength_def VarintLength_loop_eq EncodeVarint64_eq)

text \<open>Whatever a reader accepts is a prefix of its input with one last byte without continuation bit.\<close>

lemma varint_rounds_Some:
  "varint_rounds rounds shift r p = Some (w, q) \<Longrightarrow>
     \<exists>cs c. p = cs @ c # q \<and> length cs < rounds \<and> list_all has_cont cs \<and> \<not> has_cont c"
proof (induction rounds shift r p rule: varint_rounds.induct)
  case (1 rounds shift r byte p)
  show ?case
  proof (cases "has_cont byte")
    case True
    with 1(2) have "varint_rounds rounds (shift + 7) (r OR push_bit shift (ucast (byte AND 127))) p = Some (w, q)"
      by (simp add: has_cont_def)
    with 1(1) True obtain cs c where "p = cs @ c # q" "length cs < rounds" "list_all has_cont cs" "\<not> has_cont c"
      unfolding has_cont_def by blast
    with True show ?thesis by (intro exI [of _ "byte # cs"] exI [of _ c]) auto
  next
    case False
    with 1(2) show ?thesis by (intro exI [of _ "[]"] exI [of _ byte]) (auto simp: has_cont_def)
  qed
qed simp_all

lemma GetVarint32Ptr_shorter: "GetVarint32Ptr p = Some (v, q) \<Longrightarrow> length q < length p"
  by (auto simp: GetVarint32Ptr_eq dest!: varint_rounds_Some)

lemma GetVarint64Ptr_shorter: "GetVarint64Ptr p = Some (v, q) \<Longrightarrow> length q < length p"
  by (auto simp: GetVarint64Ptr_def dest!: varint_rounds_Some)

lemma GetLengthPrefixedSlicePtr_put [simp]:
  "length value < 2 ^ 32 \<Longrightarrow>
     GetLengthPrefixedSlicePtr (PutLengthPrefixedSlice [] value @ rest) = Some (value, rest)"
  by (simp add: GetLengthPrefixedSlicePtr_def PutLengthPrefixedSlice_def PutVarint32_def EncodeVarint32_eq
      unat_of_nat_u32)

section \<open>Readers that undo writers\<close>

text \<open>
  A writer that appends to a string and a reader that takes a value off the front of a slice:
  the reader undoes the writer for every value in its range, and what is read on is left alone.
\<close>

locale slice_codec =
  fixes put :: "bytes \<Rightarrow> 'a \<Rightarrow> bytes"
    and get :: "slice \<Rightarrow> 'a option \<times> slice"
    and valid :: "'a \<Rightarrow> bool"
  assumes put_appends: "put dst x = dst @ put [] x"
    and get_put: "valid x \<Longrightarrow> get (put [] x @ rest) = (Some x, rest)"
    and get_fails_or_shrinks: "get s = (Some x, rest) \<Longrightarrow> length rest < length s"
begin

primrec get_list :: "nat \<Rightarrow> slice \<Rightarrow> 'a list option \<times> slice" where
  "get_list 0 s = (Some [], s)"
| "get_list (Suc n) s = bind_some (get s) (\<lambda>x s. bind_some (get_list n s) (\<lambda>xs s. (Some (x # xs), s)))"

lemma put_list_appends: "foldl put dst xs = dst @ foldl put [] xs"
proof (induction xs arbitrary: dst)
  case (Cons x xs)
  show ?case
    using Cons.IH [of "put dst x"] Cons.IH [of "put [] x"] by (simp add: put_appends [of dst])
qed simp

lemma get_list_put_list:
  "list_all valid xs \<Longrightarrow> get_list (length xs) (foldl put [] xs @ rest) = (Some xs, rest)"
proof (induction xs)
  case (Cons x xs)
  then show ?case using put_list_appends [of "put [] x" xs] by (simp add: get_put)
qed simp

lemma put_injective: "valid x \<Longrightarrow> valid y \<Longrightarrow> put dst x = put dst y \<Longrightarrow> x = y"
  using get_put [of x "[]"] get_put [of y "[]"] put_appends [of dst] by simp

end

interpretation varint32: slice_codec PutVarint32 GetVarint32 "\<lambda>v. True"
  by unfold_locales
    (auto simp: PutVarint32_def GetVarint32_def EncodeVarint32_eq split: option.splits
      dest: GetVarint32Ptr_shorter)

interpretation varint64: slice_codec PutVarint64 GetVarint64 "\<lambda>v. True"
  by unfold_locales
    (auto simp: PutVarint64_def GetVarint64_def EncodeVarint64_eq split: option.splits
      dest: GetVarint64Ptr_shorter)

interpretation prefixed: slice_codec PutLengthPrefixedSlice GetLengthPrefixedSlice "\<lambda>v. length v < 2 ^ 32"
  by unfold_locales
    (auto simp: PutLengthPrefixedSlice_def PutVarint32_def GetLengthPrefixedSlice_def GetVarint32_def
      EncodeVarint32_eq unat_of_nat_u32 remove_prefix_def bind_some_def split: option.splits if_splits
      dest!: GetVarint32Ptr_shorter)

text \<open>
  Length-prefixed slices: the slices appended one after the other by
  \<open>PutLengthPrefixedSlice\<close> are read back in order by \<open>GetLengthPrefixedSlice\<close>, whatever bytes
  they hold and whatever follows.
\<close>
theorem length_prefixed_roundtrip:
  assumes "list_all (\<lambda>v. length v < 2 ^ 32) values"
  shows "prefixed.get_list (length values) (foldl PutLengthPrefixedSlice [] values @ rest) = (Some values, rest)"
  using prefixed.get_list_put_list [OF assms] .

lemma length_prefixed_roundtrip_witness:
  "prefixed.get_list (Suc (Suc 0)) (foldl PutLengthPrefixedSlice [] [[1, 2], []] @ [9]) = (Some [[1, 2], []], [9])"
  using length_prefixed_roundtrip [of "[[1, 2], []]" "[9]"] by simp

end
