(* ===== verification/LdbStatus.thy ===== *)
theory LdbStatus
  imports LdbCoding
begin

text \<open>
  \<open>leveldb-library/include/leveldb/status.h\<close> and \<open>util/status.cc\<close>. A status is a pointer that is
  null for success or else points to the length of the message, a code byte and the message; the
  model keeps exactly this array of bytes. The lemmas show that the array is well formed whatever
  the messages are, and that code and message are read back from it.
\<close>

type_synonym status = "bytes option"

definition c_str :: "string \<Rightarrow> bytes" where
  "c_str s = map of_char s"

lemma length_c_str [simp]: "length (c_str s) = length s"
  by (simp add: c_str_def)

definition kOk :: u8 where "kOk = 0"
definition kNotFound :: u8 where "kNotFound = 1"
definition kCorruption :: u8 where "kCorruption = 2"
definition kNotSupported :: u8 where "kNotSupported = 3"
definition kInvalidArgument :: u8 where "kInvalidArgument = 4"
definition kIOError :: u8 where "kIOError = 5"

lemmas status_codes = kOk_def kNotFound_def kCorruption_def kNotSupported_def kInvalidArgument_def kIOError_def

definition status_OK :: status where
  "status_OK = None"

text \<open>The lengths are truncated to 32 bits, the way \<open>len1\<close> and \<open>len2\<close> are.\<close>

definition make_status :: "u8 \<Rightarrow> slice \<Rightarrow> slice \<Rightarrow> status" where
  "make_status code msg msg2 =
     (let len1 = of_nat (length msg) :: u32;
          len2 = of_nat (length msg2) :: u32;
          size = len1 + (if len2 \<noteq> 0 then 2 + len2 else 0)
      in Some (le_bytes 4 (unat size) @ [code] @ take (unat len1) msg @
           (if len2 \<noteq> 0 then c_str '': '' @ take (unat len2) msg2 else [])))"

definition status_NotFound :: "slice \<Rightarrow> slice \<Rightarrow> status" where
  "status_NotFound msg msg2 = make_status kNotFound msg msg2"

definition status_Corruption :: "slice \<Rightarrow> slice \<Rightarrow> status" where
  "status_Corruption msg msg2 = make_status kCorruption msg msg2"

definition status_NotSupported :: "slice \<Rightarrow> slice \<Rightarrow> status" where
  "status_NotSupported msg msg2 = make_status kNotSupported msg msg2"

definition status_InvalidArgument :: "slice \<Rightarrow> slice \<Rightarrow> status" where
  "status_InvalidArgument msg msg2 = make_status kInvalidArgument msg msg2"

definition status_IOError :: "slice \<Rightarrow> slice \<Rightarrow> status" where
  "status_IOError msg msg2 = make_status kIOError msg msg2"

definition status_ok :: "status \<Rightarrow> bool" where
  "status_ok s \<longleftrightarrow> s = None"

definition status_code :: "status \<Rightarrow> u8" where
  "status_code s = (case s of None \<Rightarrow> kOk | Some state \<Rightarrow> state ! 4)"

definition IsNotFound :: "status \<Rightarrow> bool" where
  "IsNotFound s \<longleftrightarrow> status_code s = kNotFound"

definition IsCorruption :: "status \<Rightarrow> bool" where
  "IsCorruption s \<longleftrightarrow> status_code s = kCorruption"

definition IsIOError :: "status \<Rightarrow> bool" where
  "IsIOError s \<longleftrightarrow> status_code s = kIOError"

definition IsNotSupportedError :: "status \<Rightarrow> bool" where
  "IsNotSupportedError s \<longleftrightarrow> status_code s = kNotSupported"

definition IsInvalidArgument :: "status \<Rightarrow> bool" where
  "IsInvalidArgument s \<longleftrightarrow> status_code s = kInvalidArgument"

text \<open>A copy takes as many bytes as the length at the start says, and five more.\<close>

definition CopyState :: "bytes \<Rightarrow> bytes" where
  "CopyState state = take (unat (word_of_nat (le_nat (take 4 state)) + 5 :: u32)) state"

text \<open>\<open>%d\<close> of \<open>snprintf\<close>.\<close>

fun decimal :: "nat \<Rightarrow> bytes" where
  "decimal n = (if n < 10 then [] else decimal (n div 10)) @ [48 + of_nat (n mod 10)]"

declare decimal.simps [simp del]

definition decimal_int :: "int \<Rightarrow> bytes" where
  "decimal_int i = (if i < 0 then c_str ''-'' else []) @ decimal (nat (abs i))"

definition ToString :: "status \<Rightarrow> bytes" where
  "ToString s =
     (case s of
        None \<Rightarrow> c_str ''OK''
      | Some state \<Rightarrow>
          let code = status_code s;
              type = (if code = kOk then c_str ''OK''
                      else if code = kNotFound then c_str ''NotFound: ''
                      else if code = kCorruption then c_str ''Corruption: ''
                      else if code = kNotSupported then c_str ''Not implemented: ''
                      else if code = kInvalidArgument then c_str ''Invalid argument: ''
                      else if code = kIOError then c_str ''IO error: ''
                      else c_str ''Unknown code('' @ decimal_int (sint code) @ c_str ''): '')
          in type @ take (le_nat (take 4 state)) (drop 5 state))"

lemma status_ok_OK [simp]: "status_ok status_OK"
  by (simp add: status_ok_def status_OK_def)

lemma status_not_ok [simp]:
  "\<not> status_ok (status_Corruption m m2)" "\<not> status_ok (status_IOError m m2)"
  "\<not> status_ok (status_NotFound m m2)" "\<not> status_ok (status_InvalidArgument m m2)"
  by (simp_all add: status_ok_def status_Corruption_def status_IOError_def status_NotFound_def
      status_InvalidArgument_def make_status_def Let_def)

text \<open>Messages short enough for the 32-bit lengths are stored whole, and a copy is the same array.\<close>

definition joined :: "slice \<Rightarrow> slice \<Rightarrow> bytes" where
  "joined msg msg2 = (if msg2 = [] then msg else msg @ c_str '': '' @ msg2)"

lemma make_status_eq:
  assumes "length (joined msg msg2) < 2 ^ 32"
  shows "make_status code msg msg2 = Some (le_bytes 4 (length (joined msg msg2)) @ [code] @ joined msg msg2)"
proof -
  have l: "length msg < 2 ^ 32" "length msg2 < 2 ^ 32"
    using assms by (auto simp: joined_def split: if_splits)
  show ?thesis
  proof (cases "msg2 = []")
    case True
    then show ?thesis using l(1) by (simp add: make_status_def Let_def unat_of_nat_u32 joined_def)
  next
    case False
    then have sum: "length msg + (2 + length msg2) < 2 ^ 32" using assms by (simp add: joined_def)
    have "(of_nat (length msg2) :: u32) \<noteq> 0"
      using unat_of_nat_u32 [OF l(2)] False by (metis length_0_conv unsigned_0)
    moreover have "unat (of_nat (length msg) + (2 + of_nat (length msg2)) :: u32) = length msg + (2 + length msg2)"
      using unat_of_nat_u32 [OF sum] by (simp only: of_nat_add of_nat_numeral)
    ultimately show ?thesis
      using l False by (simp add: make_status_def Let_def unat_of_nat_u32 joined_def)
  qed
qed

lemma status_code_make: "length (joined msg msg2) < 2 ^ 32 \<Longrightarrow> status_code (make_status code msg msg2) = code"
  by (simp add: make_status_eq status_code_def nth_append)

lemma CopyState_make:
  assumes "length (joined msg msg2) < 2 ^ 32 - 5" and "make_status code msg msg2 = Some state"
  shows "CopyState state = state"
proof -
  have "unat (word_of_nat (length (joined msg msg2)) + 5 :: u32) = length (joined msg msg2) + 5"
    using assms(1) unat_of_nat_u32 [of "length (joined msg msg2) + 5"] by simp
  then show ?thesis
    using assms make_status_eq [of msg msg2 code] by (auto simp: CopyState_def le_nat_le_bytes)
qed

lemma ToString_Corruption:
  "length (joined msg msg2) < 2 ^ 32 \<Longrightarrow> ToString (status_Corruption msg msg2) = c_str ''Corruption: '' @ joined msg msg2"
  by (simp add: status_Corruption_def make_status_eq ToString_def status_code_def nth_append status_codes
      le_nat_le_bytes Let_def)

end
