(* ===== verification/LdbLog.thy ===== *)
theory LdbLog
  imports LdbStatus LdbCrc32c
begin

text \<open>
  The write-ahead log: \<open>leveldb-library/db/log_format.h\<close>, \<open>log_writer.cc\<close> and \<open>log_reader.cc\<close>.
  The file behind \<open>WritableFile\<close> and \<open>SequentialFile\<close> is a parameter: a state of type \<open>'f\<close> with the
  virtual functions as a record. The reporter is the list of the reports it received, latest first.

  The checksum is taken at address 0 throughout: by \<open>Extend_is_crc32c\<close> the address does not matter.

  A loop that reads on until it finds a record ends only if the file does, so \<open>ReadRecord\<close> is a
  \<open>partial_function\<close>; the properties prove that it returns.
\<close>

section \<open>Format\<close>

definition kZeroType :: u32 where "kZeroType = 0"
definition kFullType :: u32 where "kFullType = 1"
definition kFirstType :: u32 where "kFirstType = 2"
definition kMiddleType :: u32 where "kMiddleType = 3"
definition kLastType :: u32 where "kLastType = 4"
definition kMaxRecordType :: u32 where "kMaxRecordType = kLastType"

definition kBlockSize :: nat where "kBlockSize = 32768"
definition kHeaderSize :: nat where "kHeaderSize = 4 + 2 + 1"

definition kEof :: u32 where "kEof = kMaxRecordType + 1"
definition kBadRecord :: u32 where "kBadRecord = kMaxRecordType + 2"

lemmas record_types = kZeroType_def kFullType_def kFirstType_def kMiddleType_def kLastType_def
  kMaxRecordType_def kEof_def kBadRecord_def

lemma kBlockSize_nat [simp]: "kBlockSize = 32768" by (simp add: kBlockSize_def)
lemma kHeaderSize_nat [simp]: "kHeaderSize = 7" by (simp add: kHeaderSize_def)

section \<open>Writer\<close>

record 'f writable_file =
  file_append :: "'f \<Rightarrow> slice \<Rightarrow> status \<times> 'f"
  file_flush :: "'f \<Rightarrow> status \<times> 'f"

record 'f log_writer =
  dest :: 'f
  block_offset :: int
  type_crc :: "u32 list"

definition InitTypeCrc :: "u32 list" where
  "InitTypeCrc = map (\<lambda>i. Value 0 [of_nat i]) [0..<unat kMaxRecordType + 1]"

definition make_writer :: "'f \<Rightarrow> 'f log_writer" where
  "make_writer f = \<lparr>dest = f, block_offset = 0, type_crc = InitTypeCrc\<rparr>"

definition make_writer_at :: "'f \<Rightarrow> u64 \<Rightarrow> 'f log_writer" where
  "make_writer_at f dest_length =
     \<lparr>dest = f, block_offset = uint (dest_length mod of_nat kBlockSize), type_crc = InitTypeCrc\<rparr>"

definition EmitPhysicalRecord :: "'f writable_file \<Rightarrow> 'f log_writer \<Rightarrow> u32 \<Rightarrow> bytes \<Rightarrow> status \<times> 'f log_writer" where
  "EmitPhysicalRecord ops w t data =
     (let len = of_nat (length data) :: u64;
          crc = Mask (Extend (type_crc w ! unat t) 0 data);
          buf = EncodeFixed32 crc @ [ucast (len AND 0xff), ucast (drop_bit 8 len), ucast t];
          (s, f) = file_append ops (dest w) buf;
          (s, f) = (if status_ok s
                       then (case file_append ops f data of
                               (s, f) \<Rightarrow> if status_ok s then file_flush ops f else (s, f))
                       else (s, f))
      in (s, w\<lparr>dest := f, block_offset := block_offset w + int (kHeaderSize + length data)\<rparr>))"

text \<open>The start of a round of \<open>AddRecord\<close>: a block with no room for a header is filled with zeros.\<close>

definition switch_block :: "'f writable_file \<Rightarrow> 'f log_writer \<Rightarrow> 'f log_writer" where
  "switch_block ops w =
     (let leftover = int kBlockSize - block_offset w in
      if leftover < int kHeaderSize then
        let w = (if 0 < leftover
                 then w\<lparr>dest := snd (file_append ops (dest w) (replicate (nat leftover) 0))\<rparr> else w)
        in w\<lparr>block_offset := 0\<rparr>
      else w)"

definition fragment_type :: "bool \<Rightarrow> bool \<Rightarrow> u32" where
  "fragment_type begins ends =
     (if begins \<and> ends then kFullType else if begins then kFirstType
      else if ends then kLastType else kMiddleType)"

lemma switch_block_offset: "block_offset (switch_block ops w) \<le> 32761"
  by (simp add: switch_block_def Let_def)

lemma switch_block_offset_eq:
  "block_offset (switch_block ops w) = (if 32761 < block_offset w then 0 else block_offset w)"
  by (auto simp: switch_block_def Let_def)

lemma EmitPhysicalRecord_offset:
  "block_offset (snd (EmitPhysicalRecord ops w t data)) = block_offset w + 7 + int (length data)"
  by (simp add: EmitPhysicalRecord_def Let_def split: prod.split)

text \<open>
  The loop of \<open>AddRecord\<close>. A round emits part of what is left, unless the block has room for a header
  only; then the next round starts a new block.
\<close>

function add_fragments :: "'f writable_file \<Rightarrow> 'f log_writer \<Rightarrow> bytes \<Rightarrow> bool \<Rightarrow> status \<times> 'f log_writer" where
  "add_fragments ops w data begins =
     (let w = switch_block ops w;
          avail = nat (int kBlockSize - block_offset w - int kHeaderSize);
          fragment_length = (if length data < avail then length data else avail);
          ends = (length data = fragment_length);
          type = fragment_type begins ends;
          (s, w) = EmitPhysicalRecord ops w type (take fragment_length data);
          data = drop fragment_length data
      in if status_ok s \<and> 0 < length data then add_fragments ops w data False else (s, w))"
  by pat_completeness auto
termination
proof (relation "measure (\<lambda>(ops, w, data, begins). 2 * length data + (if block_offset w = 32761 then 1 else 0))",
    goal_cases)
  case (2 ops w data begins w1 avail n ends t p s w2 rest)
  have o2: "block_offset w2 = block_offset w1 + 7 + int (length (take n data))"
    using 2 EmitPhysicalRecord_offset [of ops w1 t "take n data"] by (metis snd_conv)
  have o1: "block_offset w1 = (if 32761 < block_offset w then 0 else block_offset w)"
    using 2 switch_block_offset_eq by metis
  show ?case
    using 2 o1 o2 by (auto split: if_splits)
qed auto

declare add_fragments.simps [simp del]

definition AddRecord :: "'f writable_file \<Rightarrow> 'f log_writer \<Rightarrow> slice \<Rightarrow> status \<times> 'f log_writer" where
  "AddRecord ops w rec = add_fragments ops w rec True"

section \<open>Reader\<close>

record 'f sequential_file =
  file_read :: "'f \<Rightarrow> nat \<Rightarrow> status \<times> slice \<times> 'f"
  file_skip :: "'f \<Rightarrow> u64 \<Rightarrow> status \<times> 'f"

record 'f log_reader =
  log_file :: 'f
  reporter :: "(u64 \<times> status) list option"
  checksum :: bool
  buffer :: slice
  eof :: bool
  last_record_offset :: u64
  end_of_buffer_offset :: u64
  initial_offset :: u64
  resyncing :: bool

definition make_reader :: "'f \<Rightarrow> bool \<Rightarrow> bool \<Rightarrow> u64 \<Rightarrow> 'f log_reader" where
  "make_reader f report check offset =
     \<lparr>log_file = f, reporter = (if report then Some [] else None), checksum = check, buffer = [], eof = False,
      last_record_offset = 0, end_of_buffer_offset = 0, initial_offset = offset, resyncing = (0 < offset)\<rparr>"

definition ReportDrop :: "u64 \<Rightarrow> status \<Rightarrow> 'f log_reader \<Rightarrow> 'f log_reader" where
  "ReportDrop n reason r =
     (case reporter r of
        None \<Rightarrow> r
      | Some reports \<Rightarrow>
          if initial_offset r \<le> end_of_buffer_offset r - of_nat (length (buffer r)) - n
          then r\<lparr>reporter := Some ((n, reason) # reports)\<rparr> else r)"

definition ReportCorruption :: "u64 \<Rightarrow> string \<Rightarrow> 'f log_reader \<Rightarrow> 'f log_reader" where
  "ReportCorruption n reason r = ReportDrop n (status_Corruption (c_str reason) []) r"

definition SkipToInitialBlock :: "'f sequential_file \<Rightarrow> 'f log_reader \<Rightarrow> bool \<times> 'f log_reader" where
  "SkipToInitialBlock ops r =
     (let offset_in_block = initial_offset r mod of_nat kBlockSize;
          start = initial_offset r - offset_in_block;
          start = (if of_nat (kBlockSize - 6) < offset_in_block then start + of_nat kBlockSize else start);
          r = r\<lparr>end_of_buffer_offset := start\<rparr>
      in if 0 < start
         then (case file_skip ops (log_file r) start of
                 (s, f) \<Rightarrow>
                   if status_ok s then (True, r\<lparr>log_file := f\<rparr>)
                   else (False, ReportDrop start s (r\<lparr>log_file := f\<rparr>)))
         else (True, r))"

text \<open>What follows the test that the buffer holds a header.\<close>

definition parse_physical ::
  "slice \<Rightarrow> 'f log_reader \<Rightarrow> u32 \<times> slice \<times> 'f log_reader" where
  "parse_physical result r =
     (let header = buffer r;
          a = ucast (header ! 4) AND 0xff :: u32;
          b = ucast (header ! 5) AND 0xff :: u32;
          type = scast (header ! 6) :: u32;
          len = unat (a OR push_bit 8 b)
      in if length (buffer r) < kHeaderSize + len then
           let drop_size = length (buffer r);
               r = r\<lparr>buffer := []\<rparr>
           in if \<not> eof r
              then (kBadRecord, result, ReportCorruption (of_nat drop_size) ''bad record length'' r)
              else (kEof, result, r)
         else if type = kZeroType \<and> len = 0 then (kBadRecord, result, r\<lparr>buffer := []\<rparr>)
         else if checksum r \<and>
             Value 0 (take (1 + len) (drop 6 header)) \<noteq> Unmask (DecodeFixed32 header) then
           let drop_size = length (buffer r);
               r = r\<lparr>buffer := []\<rparr>
           in (kBadRecord, result, ReportCorruption (of_nat drop_size) ''checksum mismatch'' r)
         else
           let r = r\<lparr>buffer := remove_prefix (buffer r) (kHeaderSize + len)\<rparr>
           in if end_of_buffer_offset r - of_nat (length (buffer r)) - of_nat kHeaderSize - of_nat len
                 < initial_offset r
              then (kBadRecord, [], r)
              else (type, take len (drop kHeaderSize header), r))"

function ReadPhysicalRecord ::
  "'f sequential_file \<Rightarrow> slice \<Rightarrow> 'f log_reader \<Rightarrow> u32 \<times> slice \<times> 'f log_reader" where
  "ReadPhysicalRecord ops result r =
     (if length (buffer r) < kHeaderSize then
        if \<not> eof r then
          (case file_read ops (log_file r) kBlockSize of
             (s, buf, f) \<Rightarrow>
               let r = r\<lparr>log_file := f, buffer := buf,
                   end_of_buffer_offset := end_of_buffer_offset r + of_nat (length buf)\<rparr>
               in if \<not> status_ok s
                  then (kEof, result, ReportDrop (of_nat kBlockSize) s (r\<lparr>buffer := []\<rparr>)\<lparr>eof := True\<rparr>)
                  else if length (buffer r) < kBlockSize
                  then ReadPhysicalRecord ops result (r\<lparr>eof := True\<rparr>)
                  else ReadPhysicalRecord ops result r)
        else (kEof, result, r\<lparr>buffer := []\<rparr>)
      else parse_physical result r)"
  by pat_completeness auto
termination
  by (relation "measure (\<lambda>(ops, result, r). if 7 \<le> length (buffer r) then 0 else if eof r then 1 else 2)")
    auto

declare ReadPhysicalRecord.simps [simp del]


text \<open>The local variables of \<open>ReadRecord\<close>; a round returns from the function or goes on.\<close>

record read_vars =
  fragment :: slice
  scratch :: bytes
  in_fragmented_record :: bool
  prospective_record_offset :: u64

definition report_partial :: "string \<Rightarrow> read_vars \<Rightarrow> 'f log_reader \<Rightarrow> 'f log_reader" where
  "report_partial reason v r =
     (if in_fragmented_record v \<and> scratch v \<noteq> []
      then ReportCorruption (of_nat (length (scratch v))) reason r else r)"

definition read_switch ::
  "u32 \<Rightarrow> u64 \<Rightarrow> read_vars \<Rightarrow> 'f log_reader \<Rightarrow> (slice option + read_vars) \<times> 'f log_reader" where
  "read_switch record_type physical_record_offset v r =
     (if record_type = kFullType then
        (Inl (Some (fragment v)),
         (report_partial ''partial record without end(1)'' v r)\<lparr>last_record_offset := physical_record_offset\<rparr>)
      else if record_type = kFirstType then
        (Inr (v\<lparr>prospective_record_offset := physical_record_offset, scratch := fragment v,
                in_fragmented_record := True\<rparr>),
         report_partial ''partial record without end(2)'' v r)
      else if record_type = kMiddleType then
        (if \<not> in_fragmented_record v
         then (Inr v, ReportCorruption (of_nat (length (fragment v))) ''missing start of fragmented record(1)'' r)
         else (Inr (v\<lparr>scratch := scratch v @ fragment v\<rparr>), r))
      else if record_type = kLastType then
        (if \<not> in_fragmented_record v
         then (Inr v, ReportCorruption (of_nat (length (fragment v))) ''missing start of fragmented record(2)'' r)
         else (Inl (Some (scratch v @ fragment v)), r\<lparr>last_record_offset := prospective_record_offset v\<rparr>))
      else if record_type = kEof then (Inl None, r)
      else if record_type = kBadRecord then
        (if in_fragmented_record v
         then (Inr (v\<lparr>in_fragmented_record := False, scratch := []\<rparr>),
               ReportCorruption (of_nat (length (scratch v))) ''error in middle of record'' r)
         else (Inr v, r))
      else
        (Inr (v\<lparr>in_fragmented_record := False, scratch := []\<rparr>),
         ReportDrop (of_nat (length (fragment v) + (if in_fragmented_record v then length (scratch v) else 0)))
           (status_Corruption (take 39 (c_str ''unknown record type '' @ decimal (unat record_type))) []) r))"

definition read_round ::
  "'f sequential_file \<Rightarrow> read_vars \<Rightarrow> 'f log_reader \<Rightarrow> (slice option + read_vars) \<times> 'f log_reader" where
  "read_round ops v r =
     (case ReadPhysicalRecord ops (fragment v) r of
        (record_type, frag, r) \<Rightarrow>
          let v = v\<lparr>fragment := frag\<rparr>;
              physical_record_offset = end_of_buffer_offset r - of_nat (length (buffer r)) -
                of_nat kHeaderSize - of_nat (length frag)
          in if resyncing r \<and> record_type = kMiddleType then (Inr v, r)
             else if resyncing r \<and> record_type = kLastType then (Inr v, r\<lparr>resyncing := False\<rparr>)
             else read_switch record_type physical_record_offset v
               (if resyncing r then r\<lparr>resyncing := False\<rparr> else r))"

partial_function (option) read_loop ::
  "'f sequential_file \<Rightarrow> read_vars \<Rightarrow> 'f log_reader \<Rightarrow> (slice option \<times> 'f log_reader) option" where
  "read_loop ops v r =
     (case read_round ops v r of
        (Inl result, r) \<Rightarrow> Some (result, r)
      | (Inr v, r) \<Rightarrow> read_loop ops v r)"

definition ReadRecord :: "'f sequential_file \<Rightarrow> 'f log_reader \<Rightarrow> (slice option \<times> 'f log_reader) option" where
  "ReadRecord ops r =
     (case (if last_record_offset r < initial_offset r then SkipToInitialBlock ops r else (True, r)) of
        (False, r) \<Rightarrow> Some (None, r)
      | (True, r) \<Rightarrow> read_loop ops \<lparr>fragment = [], scratch = [], in_fragmented_record = False,
                                  prospective_record_offset = 0\<rparr> r)"

section \<open>What the writer puts into the file\<close>

text \<open>One physical record, and the zeros that fill a block from the position \<open>pos\<close> in the file on.\<close>

definition physical :: "u32 \<Rightarrow> bytes \<Rightarrow> bytes" where
  "physical t data =
     EncodeFixed32 (Mask (crc32c 0 (ucast t # data))) @
     [word_of_nat (length data), word_of_nat (length data div 256), ucast t] @ data"

lemma length_physical [simp]: "length (physical t data) = 7 + length data"
  by (simp add: physical_def)

definition room :: "nat \<Rightarrow> nat" where
  "room pos = kBlockSize - pos mod kBlockSize"

definition filler :: "nat \<Rightarrow> bytes" where
  "filler pos = (if room pos < kHeaderSize then replicate (room pos) 0 else [])"

lemma room_bounds: "0 < room pos" "room pos \<le> 32768"
  by (simp_all add: room_def)

lemma filler_Nil_or: "filler pos = [] \<and> 7 \<le> room pos \<or> length (filler pos) = room pos \<and> room pos < 7"
  by (auto simp: filler_def)

lemma room_split: "pos + room pos = 32768 * (pos div 32768 + 1)"
proof -
  define q m where "q = pos div 32768" and "m = pos mod 32768"
  have "pos = 32768 * q + m" "m < 32768" by (simp_all add: q_def m_def)
  then show ?thesis unfolding room_def kBlockSize_nat m_def [symmetric] q_def [symmetric] by simp
qed

lemma room_at_end: "room (pos + room pos) = 32768"
  unfolding room_split by (simp add: room_def)

lemma block_room_advance: "k < room pos \<Longrightarrow> room (pos + k) = room pos - k"
proof -
  assume k: "k < room pos"
  define q m where "q = pos div 32768" and "m = pos mod 32768"
  have p: "pos = 32768 * q + m" "m < 32768" by (simp_all add: q_def m_def)
  have "m + k < 32768" using k p(2) unfolding room_def kBlockSize_nat m_def [symmetric] by simp
  then have "(pos + k) mod 32768 = m + k" unfolding p(1) add.assoc by simp
  then show ?thesis unfolding room_def kBlockSize_nat m_def [symmetric] by simp
qed

lemma room_after_filler: "7 \<le> room (pos + length (filler pos))"
  using room_at_end [of pos] by (auto simp: filler_def not_less)

lemma room_exact: "room pos = 7 \<Longrightarrow> room (pos + 7) = 32768"
  using room_at_end [of pos] by simp

text \<open>The bytes of a record from the position \<open>pos\<close> on.\<close>

definition fits :: "nat \<Rightarrow> bytes \<Rightarrow> nat" where
  "fits p data = (if length data < room p - 7 then length data else room p - 7)"

function log_record :: "nat \<Rightarrow> bytes \<Rightarrow> bool \<Rightarrow> bytes" where
  "log_record pos data begins =
     (let p = pos + length (filler pos);
          n = fits p data
      in filler pos @ physical (fragment_type begins (length data = n)) (take n data) @
         (if n < length data then log_record (p + 7 + n) (drop n data) False else []))"
  by pat_completeness auto
termination
proof (relation "measure (\<lambda>(pos, data, begins). 2 * length data + (if room (pos + length (filler pos)) = 7 then 1 else 0))",
    goal_cases)
  case (2 pos data begins p n)
  show ?case
  proof (cases "n = 0")
    case True
    then have r: "room p = 7"
      using 2 room_after_filler [of pos] by (auto simp: fits_def split: if_splits)
    from room_exact [OF this] have "filler (p + 7) = []" "room (p + 7) = 32768" by (simp_all add: filler_def)
    with True r 2 show ?thesis by simp
  next
    case False
    with 2 show ?thesis by auto
  qed
qed auto

declare log_record.simps [simp del]

primrec log_bytes :: "nat \<Rightarrow> bytes list \<Rightarrow> bytes" where
  "log_bytes pos [] = []"
| "log_bytes pos (d # ds) = log_record pos d True @ log_bytes (pos + length (log_record pos d True)) ds"

section \<open>The writer produces this format\<close>

definition appends_ok :: "'f writable_file \<Rightarrow> ('f \<Rightarrow> bytes) \<Rightarrow> bool" where
  "appends_ok ops contents \<longleftrightarrow>
     (\<forall>f bs. fst (file_append ops f bs) = status_OK \<and> contents (snd (file_append ops f bs)) = contents f @ bs) \<and>
     (\<forall>f. fst (file_flush ops f) = status_OK \<and> contents (snd (file_flush ops f)) = contents f)"

text \<open>
  A file that may fail. \<open>failed\<close> says of a file that an \<open>Append\<close> or \<open>Flush\<close> has failed on it; as long as none has, the file
  holds all bytes appended. A failed call may leave any part of its data, and nothing is known about the calls after it.
\<close>

definition appends_tracked :: "'f writable_file \<Rightarrow> ('f \<Rightarrow> bytes) \<Rightarrow> ('f \<Rightarrow> bool) \<Rightarrow> bool" where
  "appends_tracked ops contents failed \<longleftrightarrow>
     (\<forall>f bs. \<not> failed (snd (file_append ops f bs)) \<longrightarrow> \<not> failed f \<and>
        fst (file_append ops f bs) = status_OK \<and> contents (snd (file_append ops f bs)) = contents f @ bs) \<and>
     (\<forall>f. \<not> failed (snd (file_flush ops f)) \<longrightarrow> \<not> failed f \<and>
        fst (file_flush ops f) = status_OK \<and> contents (snd (file_flush ops f)) = contents f)"

lemma appends_ok_tracked: "appends_ok ops contents \<Longrightarrow> appends_tracked ops contents (\<lambda>f. False)"
  by (simp add: appends_ok_def appends_tracked_def)

lemma Emit_keeps:
  assumes "\<And>f bs. (n :: nat) \<le> m f \<Longrightarrow> n \<le> m (snd (file_append ops f bs))" and "\<And>f. n \<le> m f \<Longrightarrow> n \<le> m (snd (file_flush ops f))"
    and "n \<le> m (dest w)"
  shows "n \<le> m (dest (snd (EmitPhysicalRecord ops w t data)))"
proof -
  obtain s f where a: "file_append ops (dest w) (EncodeFixed32 (Mask (Extend (type_crc w ! unat t) 0 data)) @
      [ucast ((of_nat (length data) :: u64) AND 0xff), ucast (drop_bit 8 (of_nat (length data) :: u64)), ucast t]) = (s, f)"
    by fastforce
  obtain s2 f2 where b: "file_append ops f data = (s2, f2)" by fastforce
  obtain s3 f3 where c: "file_flush ops f2 = (s3, f3)" by fastforce
  have "n \<le> m f" using assms(1) [OF assms(3)] a by (metis snd_conv)
  moreover from this have "n \<le> m f2" using assms(1) b by (metis snd_conv)
  moreover from this have "n \<le> m f3" using assms(2) c by (metis snd_conv)
  ultimately show ?thesis unfolding EmitPhysicalRecord_def Let_def a prod.case b c by simp
qed

lemma switch_keeps:
  assumes "\<And>f bs. (n :: nat) \<le> m f \<Longrightarrow> n \<le> m (snd (file_append ops f bs))" and "n \<le> m (dest w)"
  shows "n \<le> m (dest (switch_block ops w))"
  using assms by (simp add: switch_block_def Let_def)

lemma add_fragments_keeps:
  assumes "\<And>f bs. (n :: nat) \<le> m f \<Longrightarrow> n \<le> m (snd (file_append ops f bs))" and "\<And>f. n \<le> m f \<Longrightarrow> n \<le> m (snd (file_flush ops f))"
    and "n \<le> m (dest w)"
  shows "n \<le> m (dest (snd (add_fragments ops w d begins)))"
  using assms
proof (induction ops w d begins rule: add_fragments.induct)
  case (1 ops w data begins)
  let ?w = "switch_block ops w"
  let ?avail = "nat (int kBlockSize - block_offset ?w - int kHeaderSize)"
  let ?n = "if length data < ?avail then length data else ?avail"
  let ?t = "fragment_type begins (length data = ?n)"
  obtain s w2 where e: "EmitPhysicalRecord ops ?w ?t (take ?n data) = (s, w2)" by fastforce
  have k: "n \<le> m (dest w2)"
    using Emit_keeps [OF 1(2,3) switch_keeps [OF 1(2,4)], of ?t "take ?n data"] unfolding e by simp
  note IH = 1(1) [OF refl refl refl refl refl refl e [symmetric] refl _ 1(2,3) k]
  show ?case
    by (subst add_fragments.simps) (simp only: Let_def e prod.case, use IH k in simp)
qed

lemma AddRecord_keeps:
  assumes "\<And>f bs. (n :: nat) \<le> m f \<Longrightarrow> n \<le> m (snd (file_append ops f bs))" and "\<And>f. n \<le> m f \<Longrightarrow> n \<le> m (snd (file_flush ops f))"
    and "n \<le> m (dest w)"
  shows "n \<le> m (dest (snd (AddRecord ops w d)))"
  unfolding AddRecord_def using assms by (rule add_fragments_keeps)

text \<open>A failure is not forgotten.\<close>

lemma tracked_keeps:
  assumes "appends_tracked ops contents failed"
  shows "\<not> failed (dest (snd (EmitPhysicalRecord ops w t data))) \<Longrightarrow> \<not> failed (dest w)"
    and "\<not> failed (dest (switch_block ops w)) \<Longrightarrow> \<not> failed (dest w)"
    and "\<not> failed (dest (snd (add_fragments ops w data begins))) \<Longrightarrow> \<not> failed (dest w)"
    and "\<not> failed (dest (snd (AddRecord ops w data))) \<Longrightarrow> \<not> failed (dest w)"
proof -
  let ?m = "\<lambda>f. if failed f then 1 else 0 :: nat"
  have m: "1 \<le> ?m f \<longleftrightarrow> failed f" for f by simp
  have a: "1 \<le> ?m f \<Longrightarrow> 1 \<le> ?m (snd (file_append ops f bs))" "1 \<le> ?m f \<Longrightarrow> 1 \<le> ?m (snd (file_flush ops f))" for f bs
    using assms unfolding appends_tracked_def m by blast+
  show "\<not> failed (dest (snd (EmitPhysicalRecord ops w t data))) \<Longrightarrow> \<not> failed (dest w)"
    using Emit_keeps [of 1 ?m ops w t data, OF a] unfolding m by blast
  show "\<not> failed (dest (switch_block ops w)) \<Longrightarrow> \<not> failed (dest w)"
    using switch_keeps [of 1 ?m ops w, OF a(1)] unfolding m by blast
  show "\<not> failed (dest (snd (add_fragments ops w data begins))) \<Longrightarrow> \<not> failed (dest w)"
    using add_fragments_keeps [of 1 ?m ops w data begins, OF a] unfolding m by blast
  show "\<not> failed (dest (snd (AddRecord ops w data))) \<Longrightarrow> \<not> failed (dest w)"
    using AddRecord_keeps [of 1 ?m ops w data, OF a] unfolding m by blast
qed

text \<open>The writer is at the position \<open>pos\<close> of the file; the end of a block counts as its start too.\<close>

definition writes_at :: "'f log_writer \<Rightarrow> nat \<Rightarrow> bool" where
  "writes_at w pos \<longleftrightarrow> type_crc w = InitTypeCrc \<and>
     (block_offset w = 32768 - int (room pos) \<or> block_offset w = 32768 \<and> room pos = 32768)"

lemma type_crc_nth: "(t :: u32) \<in> {1, 2, 3, 4} \<Longrightarrow> Extend (InitTypeCrc ! unat t) 0 data = crc32c 0 (ucast t # data)"
proof -
  assume t: "t \<in> {1, 2, 3, 4}"
  then have "InitTypeCrc ! unat t = Value 0 [ucast t]"
    by (auto simp: InitTypeCrc_def record_types nth_append upt_rec)
  moreover have "Extend (Extend 0 0 [ucast t]) 0 data = Extend 0 0 ([ucast t] @ data)"
    by (rule Extend_append)
  ultimately show ?thesis unfolding Value_def by (simp add: Extend_is_crc32c)
qed

lemma fragment_type_range: "fragment_type b e \<in> {1, 2, 3, 4}"
  by (simp add: fragment_type_def record_types)

lemma Emit_writes:
  assumes "appends_tracked ops contents failed" and "type_crc w = InitTypeCrc" and "t \<in> {1, 2, 3, 4}" and "length data < 2 ^ 16"
    and "\<not> failed (dest (snd (EmitPhysicalRecord ops w t data)))"
  obtains f where "EmitPhysicalRecord ops w t data =
      (status_OK, w\<lparr>dest := f, block_offset := block_offset w + int (7 + length data)\<rparr>)"
    and "contents f = contents (dest w) @ physical t data"
proof -
  have l: "length data < 2 ^ 64" using assms(4) by simp
  have low: "(ucast (of_nat (length data) AND 0xff :: u64) :: u8) = word_of_nat (length data)"
    by (simp only: byte_at_0 unat_of_nat_u64 [OF l])
  have high: "(ucast (drop_bit 8 (of_nat (length data) :: u64)) :: u8) = word_of_nat (length data div 256)"
  proof -
    have "(ucast (drop_bit 8 (of_nat (length data) :: u64)) :: u8) =
        word_of_nat (unat (drop_bit 8 (of_nat (length data) :: u64)))" by simp
    then show ?thesis by (simp only: unat_drop_bit_word unat_of_nat_u64 [OF l]) simp
  qed
  define buf where "buf = EncodeFixed32 (Mask (crc32c 0 (ucast t # data))) @
      [word_of_nat (length data), word_of_nat (length data div 256), ucast t]"
  obtain s1 f1 where f1: "file_append ops (dest w) buf = (s1, f1)" by fastforce
  obtain s2 f2 where f2: "file_append ops f1 data = (s2, f2)" by fastforce
  obtain s3 f3 where f3: "file_flush ops f2 = (s3, f3)" by fastforce
  have run: "EmitPhysicalRecord ops w t data =
      ((if status_ok s1 \<and> status_ok s2 then s3 else if status_ok s1 then s2 else s1),
       w\<lparr>dest := (if \<not> status_ok s1 then f1 else if \<not> status_ok s2 then f2 else f3),
         block_offset := block_offset w + int (7 + length data)\<rparr>)"
    unfolding EmitPhysicalRecord_def Let_def assms(2) type_crc_nth [OF assms(3)] low high buf_def [symmetric] f1
    by (simp add: f2 f3)
  have law: "\<not> failed (snd (file_append ops f bs)) \<Longrightarrow> \<not> failed f \<and> fst (file_append ops f bs) = status_OK \<and>
      contents (snd (file_append ops f bs)) = contents f @ bs"
    "\<not> failed (snd (file_flush ops f)) \<Longrightarrow> \<not> failed f \<and> fst (file_flush ops f) = status_OK \<and>
      contents (snd (file_flush ops f)) = contents f" for f bs
    using assms(1) unfolding appends_tracked_def by blast+
  have "\<not> failed (if \<not> status_ok s1 then f1 else if \<not> status_ok s2 then f2 else f3)" using assms(5) unfolding run by simp
  then have ok: "s1 = status_OK" "s2 = status_OK" "s3 = status_OK"
    "contents f1 = contents (dest w) @ buf" "contents f2 = contents f1 @ data" "contents f3 = contents f2"
    using law(1) [of "dest w" buf] law(1) [of f1 data] law(2) [of f2] f1 f2 f3 by (auto split: if_splits)
  show ?thesis
  proof (rule that)
    show "EmitPhysicalRecord ops w t data =
        (status_OK, w\<lparr>dest := f3, block_offset := block_offset w + int (7 + length data)\<rparr>)"
      unfolding run by (simp add: ok)
    show "contents f3 = contents (dest w) @ physical t data"
      by (simp add: ok buf_def physical_def)
  qed
qed

lemma switch_writes:
  assumes "appends_tracked ops contents failed" and "writes_at w pos" and "\<not> failed (dest (switch_block ops w))"
  shows "contents (dest (switch_block ops w)) = contents (dest w) @ filler pos"
    and "type_crc (switch_block ops w) = InitTypeCrc"
    and "block_offset (switch_block ops w) = 32768 - int (room (pos + length (filler pos)))"
proof -
  have law: "\<not> failed (snd (file_append ops (dest w) bs)) \<Longrightarrow> contents (snd (file_append ops (dest w) bs)) = contents (dest w) @ bs" for bs
    using assms(1) unfolding appends_tracked_def by blast
  show "contents (dest (switch_block ops w)) = contents (dest w) @ filler pos"
    and "type_crc (switch_block ops w) = InitTypeCrc"
    and "block_offset (switch_block ops w) = 32768 - int (room (pos + length (filler pos)))"
    using assms(2,3) law room_bounds [of pos] room_at_end [of pos]
    by (auto simp: switch_block_def writes_at_def filler_def Let_def)
qed

lemma add_fragments_writes:
  assumes "appends_tracked ops contents failed"
  shows "writes_at w pos \<Longrightarrow> \<not> failed (dest (snd (add_fragments ops w data begins))) \<Longrightarrow>
     fst (add_fragments ops w data begins) = status_OK \<and>
     contents (dest (snd (add_fragments ops w data begins))) = contents (dest w) @ log_record pos data begins \<and>
     writes_at (snd (add_fragments ops w data begins)) (pos + length (log_record pos data begins))"
proof (induction pos data begins arbitrary: w rule: log_record.induct)
  case (1 pos data begins)
  define p where "p = pos + length (filler pos)"
  define n where "n = fits p data"
  let ?w = "switch_block ops w"
  let ?t = "fragment_type begins (length data = n)"
  let ?avail = "nat (int kBlockSize - block_offset ?w - int kHeaderSize)"
  let ?len = "if length data < ?avail then length data else ?avail"
  obtain s1 w1 where e1: "EmitPhysicalRecord ops ?w (fragment_type begins (length data = ?len)) (take ?len data) = (s1, w1)"
    by fastforce
  have "add_fragments ops w data begins =
      (if status_ok s1 \<and> 0 < length (drop ?len data) then add_fragments ops w1 (drop ?len data) False else (s1, w1))"
    by (subst add_fragments.simps) (simp only: Let_def e1 prod.case)
  then have f1: "\<not> failed (dest w1)"
    using 1(3) tracked_keeps(3) [OF assms, of w1 "drop ?len data" False] by (auto split: if_splits)
  then have fw: "\<not> failed (dest ?w)" using tracked_keeps(1) [OF assms] e1 by (metis snd_conv)
  note sw = switch_writes [OF assms 1(2) fw, folded p_def]
  have n: "n \<le> length data" "7 + n \<le> room p"
    using room_after_filler [of pos] by (auto simp: n_def fits_def p_def)
  have l: "length (take n data) < 2 ^ 16" using n room_bounds(2) [of p] by simp
  obtain f where e: "EmitPhysicalRecord ops ?w ?t (take n data) =
      (status_OK, ?w\<lparr>dest := f, block_offset := block_offset ?w + int (7 + length (take n data))\<rparr>)"
    and f: "contents f = contents (dest ?w) @ physical ?t (take n data)"
  proof (rule Emit_writes [OF assms sw(2) fragment_type_range l])
    have "?avail = room p - 7" using sw(3) by simp
    then have "?len = n" by (simp add: n_def fits_def)
    then show "\<not> failed (dest (snd (EmitPhysicalRecord ops ?w ?t (take n data))))" using e1 f1 by simp
  qed
  let ?w2 = "?w\<lparr>dest := f, block_offset := block_offset ?w + int (7 + length (take n data))\<rparr>"
  have w2: "writes_at ?w2 (p + 7 + n)"
    using sw n block_room_advance [of "7 + n" p] room_at_end [of p]
    by (cases "7 + n = room p") (auto simp: writes_at_def add.assoc)
  have step: "add_fragments ops w data begins =
      (if n < length data then add_fragments ops ?w2 (drop n data) False else (status_OK, ?w2))"
  proof -
    have a: "nat (int kBlockSize - block_offset ?w - int kHeaderSize) = room p - 7"
      using sw(3) by simp
    have b: "(if length data < room p - 7 then length data else room p - 7) = n"
      by (simp add: n_def fits_def)
    show ?thesis
      by (subst add_fragments.simps) (simp only: Let_def a b e prod.case status_ok_OK simp_thms length_drop zero_less_diff)
  qed
  have rec: "log_record pos data begins = filler pos @ physical ?t (take n data) @
      (if n < length data then log_record (p + 7 + n) (drop n data) False else [])"
    by (subst log_record.simps) (simp only: Let_def p_def [symmetric] n_def [symmetric])
  show ?case
  proof (cases "n < length data")
    case True
    have "\<not> failed (dest (snd (add_fragments ops ?w2 (drop n data) False)))" using 1(3) True unfolding step by simp
    note IH = 1(1) [OF p_def n_def True w2 this]
    show ?thesis using IH True unfolding step rec by (simp add: f sw(1) p_def min_def add_ac)
  next
    case False
    with n have e: "n = length data" by simp
    show ?thesis using w2 unfolding step rec by (simp add: e f sw(1) p_def add_ac)
  qed
qed

lemma AddRecord_writes:
  assumes "appends_tracked ops contents failed" and "writes_at w pos" and "\<not> failed (dest (snd (AddRecord ops w d)))"
  shows "fst (AddRecord ops w d) = status_OK"
    and "contents (dest (snd (AddRecord ops w d))) = contents (dest w) @ log_record pos d True"
    and "writes_at (snd (AddRecord ops w d)) (pos + length (log_record pos d True))"
  using add_fragments_writes [OF assms(1,2)] assms(3) unfolding AddRecord_def by blast+

primrec add_records :: "'f writable_file \<Rightarrow> 'f log_writer \<Rightarrow> slice list \<Rightarrow> 'f log_writer" where
  "add_records ops w [] = w"
| "add_records ops w (d # ds) = add_records ops (snd (AddRecord ops w d)) ds"

lemma add_records_writes:
  assumes "appends_ok ops contents"
  shows "writes_at w pos \<Longrightarrow> contents (dest (add_records ops w ds)) = contents (dest w) @ log_bytes pos ds"
proof (induction ds arbitrary: w pos)
  case (Cons d ds)
  note add = AddRecord_writes [OF appends_ok_tracked [OF assms] Cons.prems]
  show ?case using Cons.IH [OF add(3)] add(2) by simp
qed simp

lemma dest_make_writer [simp]: "dest (make_writer f) = f"
  by (simp add: make_writer_def)

lemma make_writer_at_start: "writes_at (make_writer f) 0"
  by (simp add: make_writer_def writes_at_def room_def)

section \<open>The reader takes it back\<close>

definition reads_ok :: "'f sequential_file \<Rightarrow> ('f \<Rightarrow> bytes) \<Rightarrow> bool" where
  "reads_ok ops contents \<longleftrightarrow>
     (\<forall>f n. fst (file_read ops f n) = status_OK \<and> fst (snd (file_read ops f n)) = take n (contents f) \<and>
        contents (snd (snd (file_read ops f n))) = drop n (contents f))"

text \<open>
  The reader has consumed \<open>pos\<close> bytes of the file and \<open>rest\<close> is to come. Before the end of the file
  the buffer ends with a block; the block in which the file ends is not full.
\<close>

definition reads_at :: "('f \<Rightarrow> bytes) \<Rightarrow> 'f log_reader \<Rightarrow> nat \<Rightarrow> bytes \<Rightarrow> bool" where
  "reads_at contents r pos rest \<longleftrightarrow>
     initial_offset r = 0 \<and> \<not> resyncing r \<and> rest = buffer r @ contents (log_file r) \<and>
     (if eof r then contents (log_file r) = [] \<and> length (buffer r) < room pos
      else buffer r = [] \<and> room pos = 32768 \<or> length (buffer r) = room pos)"

text \<open>Reading on until the buffer holds a header, over the zeros at the end of a block.\<close>

lemma fill_buffer:
  assumes ok: "reads_ok ops contents" and at: "reads_at contents r pos (filler pos @ rest)" and "7 \<le> length rest"
  obtains r' where "ReadPhysicalRecord ops result r = parse_physical result r'"
    and "reads_at contents r' (pos + length (filler pos)) rest"
    and "7 \<le> length (buffer r')" and "reporter r' = reporter r" and "checksum r' = checksum r"
proof (cases "7 \<le> length (buffer r)")
  case True
  then have "filler pos = []"
    using at room_bounds [of pos] by (auto simp: reads_at_def filler_def split: if_splits)
  moreover have "ReadPhysicalRecord ops result r = parse_physical result r"
    using True by (subst ReadPhysicalRecord.simps) simp
  ultimately show ?thesis using that [of r] True at by simp
next
  case False
  have "length (filler pos) + length rest = length (buffer r) + length (contents (log_file r))"
    using at unfolding reads_at_def by (metis length_append)
  then have e: "\<not> eof r" using at False assms(3) by (auto simp: reads_at_def)
  have "length (buffer r) = length (filler pos)"
    using at False e room_bounds [of pos] by (auto simp: reads_at_def filler_def)
  then have buf: "buffer r = filler pos" "contents (log_file r) = rest"
    using at unfolding reads_at_def by (metis append_eq_append_conv)+
  define f where "f = snd (snd (file_read ops (log_file r) 32768))"
  have f: "file_read ops (log_file r) 32768 = (status_OK, take 32768 rest, f)" "contents f = drop 32768 rest"
    using ok by (simp_all add: reads_ok_def f_def buf(2) prod_eq_iff)
  have start: "room (pos + length (filler pos)) = 32768"
    using at False e room_at_end [of pos] buf(1) by (auto simp: reads_at_def)
  let ?r = "r\<lparr>log_file := f, buffer := take 32768 rest,
      end_of_buffer_offset := end_of_buffer_offset r + of_nat (length (take 32768 rest))\<rparr>"
  let ?r' = "if length rest < 32768 then ?r\<lparr>eof := True\<rparr> else ?r"
  have "ReadPhysicalRecord ops result r = ReadPhysicalRecord ops result ?r'"
    using False e f(1) by (subst ReadPhysicalRecord.simps) (simp add: Let_def)
  also have "\<dots> = parse_physical result ?r'"
    using assms(3) by (subst ReadPhysicalRecord.simps) simp
  finally show ?thesis
    by (rule that) (use at f start e assms(3) in \<open>auto simp: reads_at_def\<close>)
qed


lemma drop_physical:
  "drop 4 (physical t d @ later) = [word_of_nat (length d), word_of_nat (length d div 256), ucast t] @ d @ later"
  "drop 6 (physical t d @ later) = ucast t # d @ later"
  "drop 7 (physical t d @ later) = d @ later"
  by (simp_all add: physical_def)

lemma nth_physical:
  "(physical t d @ later) ! 4 = word_of_nat (length d)"
  "(physical t d @ later) ! 5 = word_of_nat (length d div 256)"
  "(physical t d @ later) ! 6 = ucast t"
  by (simp_all add: physical_def nth_append)

lemma length_field:
  assumes "n < 2 ^ 16"
  shows "unat ((ucast (word_of_nat n :: u8) AND 0xff :: u32) OR push_bit 8 (ucast (word_of_nat (n div 256) :: u8) AND 0xff)) = n"
proof -
  have a: "(ucast (b :: u8) AND 0xff :: u32) = word_of_nat (unat b)" for b
  proof -
    have "(ucast b AND 0xff :: u32) = take_bit 8 (ucast b)" by (simp add: take_bit_eq_mask mask_eq_exp_minus_1)
    also have "\<dots> = ucast b" by (rule bit_word_eqI) (auto simp: bit_simps dest: bit_imp_le_length)
    finally show ?thesis by simp
  qed
  have l: "unat (word_of_nat n :: u8) = n mod 256" "unat (word_of_nat (n div 256) :: u8) = n div 256"
    using assms by (simp_all add: unat_of_nat)
  have "push_bit 8 (word_of_nat (n div 256) :: u32) = word_of_nat (256 * (n div 256))"
    by (simp add: push_bit_eq_mult mult.commute)
  moreover have "word_of_nat (n mod 256) + word_of_nat (256 * (n div 256)) = (word_of_nat n :: u32)"
    by (simp only: of_nat_add [symmetric]) simp
  ultimately have w: "(word_of_nat (n mod 256) :: u32) OR push_bit 8 (word_of_nat (n div 256)) = word_of_nat n"
    by (subst word_chunk) (simp, simp only:)
  show ?thesis unfolding a l w by (rule unat_of_nat_u32) (use assms in simp)
qed

lemma type_field: "t \<in> {1, 2, 3, 4} \<Longrightarrow> scast (ucast (t :: u32) :: u8) = t"
  by auto

text \<open>A whole physical record in the buffer.\<close>

lemma parse_whole:
  assumes at: "reads_at contents r pos (physical t d @ later)" and "7 \<le> length (buffer r)"
    and t: "t \<in> {1, 2, 3, 4}" and fit: "7 + length d \<le> room pos"
  obtains r' where "parse_physical result r = (t, d, r')"
    and "reads_at contents r' (pos + 7 + length d) later"
    and "reporter r' = reporter r" and "checksum r' = checksum r"
proof -
  have len: "length d < 2 ^ 16" using fit room_bounds [of pos] by simp
  have "length (physical t d @ later) = length (buffer r) + length (contents (log_file r))"
    using at unfolding reads_at_def by (metis length_append)
  then have whole: "7 + length d \<le> length (buffer r)"
    using at assms(2) fit by (auto simp: reads_at_def split: if_splits)
  define bs where "bs = drop (7 + length d) (buffer r)"
  have "take (7 + length d) (buffer r @ contents (log_file r)) = take (7 + length d) (buffer r)"
    using whole by simp
  moreover have "buffer r @ contents (log_file r) = physical t d @ later"
    using at by (simp add: reads_at_def)
  ultimately have "take (7 + length d) (buffer r) = physical t d" by simp
  then have buf: "buffer r = physical t d @ bs"
    unfolding bs_def by (metis append_take_drop_id)
  have crc: "Unmask (DecodeFixed32 (physical t d @ bs)) = crc32c 0 (ucast t # d)"
    by (simp add: physical_def Unmask_Mask)
  let ?r = "r\<lparr>buffer := bs\<rparr>"
  have "parse_physical result r = (t, d, ?r)"
  proof -
    have i: "initial_offset r = 0" using at by (simp add: reads_at_def)
    have z: "t \<noteq> kZeroType" using t by (auto simp: record_types)
    have v: "Value 0 (take (Suc (length d)) (drop 6 (physical t d @ bs))) = crc32c 0 (ucast t # d)"
      by (simp add: drop_physical [of t d "[]", simplified] Value_def Extend_is_crc32c)
    show ?thesis
      unfolding parse_physical_def Let_def buf nth_physical length_field [OF len] type_field [OF t]
      using z v crc i by (simp add: drop_physical [of t d "[]", simplified] remove_prefix_def)
  qed
  moreover have "reads_at contents ?r (pos + 7 + length d) later"
  proof -
    have rest: "later = bs @ contents (log_file r)" using at buf by (simp add: reads_at_def)
    have n: "length (buffer r) = 7 + length d + length bs" using buf by simp
    show ?thesis
    proof (cases "7 + length d = room pos")
      case True
      then show ?thesis using at n rest room_at_end [of pos] whole
        by (auto simp: reads_at_def add.assoc split: if_splits)
    next
      case False
      then have "room (pos + (7 + length d)) = room pos - (7 + length d)"
        using fit by (intro block_room_advance) simp
      then show ?thesis using at n rest False fit
        by (auto simp: reads_at_def add.assoc split: if_splits)
    qed
  qed
  ultimately show ?thesis by (rule that) simp_all
qed

text \<open>The end of the file, wherever the writer was stopped: no record, and nothing is reported.\<close>

lemma parse_cut:
  assumes at: "reads_at contents r pos rest" and "7 \<le> length (buffer r)"
    and rest: "rest = take m (physical t d)" "m < 7 + length d" and fit: "7 + length d \<le> room pos"
  obtains r' where "parse_physical result r = (kEof, result, r')" and "reporter r' = reporter r"
    and "initial_offset r' = 0" and "\<not> resyncing r'" and "eof r'" and "buffer r' = []"
proof -
  have len: "length d < 2 ^ 16" using fit room_bounds [of pos] by simp
  have l: "length rest = m" using rest by simp
  have "length rest = length (buffer r) + length (contents (log_file r))"
    using at unfolding reads_at_def by (metis length_append)
  then have e: "eof r" "rest = buffer r"
    using at assms(2) rest fit l by (auto simp: reads_at_def split: if_splits)
  have m: "7 \<le> m" using e assms(2) l by simp
  have nth: "buffer r ! i = physical t d ! i" if "i < 7" for i
    using that m rest e by simp
  have "unat ((ucast (buffer r ! 4) AND 0xff :: u32) OR push_bit 8 (ucast (buffer r ! 5) AND 0xff)) = length d"
    using nth_physical [of t d "[]"] length_field [OF len] by (simp add: nth)
  then have "parse_physical result r = (kEof, result, r\<lparr>buffer := []\<rparr>)"
    using e l rest by (simp add: parse_physical_def Let_def)
  then show ?thesis by (rule that) (use at e in \<open>auto simp: reads_at_def\<close>)
qed

lemma read_nothing:
  assumes ok: "reads_ok ops contents" and at: "reads_at contents r pos rest"
    and short: "length rest < length (filler pos) + 7"
  obtains r' where "ReadPhysicalRecord ops result r = (kEof, result, r')" and "reporter r' = reporter r"
    and "initial_offset r' = 0" and "\<not> resyncing r'" and "eof r'" and "buffer r' = []"
proof -
  have l: "length rest = length (buffer r) + length (contents (log_file r))"
    using at unfolding reads_at_def by (metis length_append)
  have b: "length (buffer r) < 7"
    using at l short room_bounds [of pos] by (auto simp: reads_at_def filler_def split: if_splits)
  show ?thesis
  proof (cases "eof r")
    case True
    then have "ReadPhysicalRecord ops result r = (kEof, result, r\<lparr>buffer := []\<rparr>)"
      using b by (subst ReadPhysicalRecord.simps) simp
    then show ?thesis by (rule that) (use at True in \<open>auto simp: reads_at_def\<close>)
  next
    case False
    have c: "length (contents (log_file r)) < 7"
      using at l b short False by (auto simp: reads_at_def filler_def split: if_splits)
    define f where "f = snd (snd (file_read ops (log_file r) 32768))"
    have f: "file_read ops (log_file r) 32768 = (status_OK, contents (log_file r), f)"
      using ok c by (simp add: reads_ok_def f_def prod_eq_iff)
    let ?r = "r\<lparr>log_file := f, buffer := contents (log_file r),
        end_of_buffer_offset := end_of_buffer_offset r + of_nat (length (contents (log_file r))), eof := True\<rparr>"
    have "ReadPhysicalRecord ops result r = ReadPhysicalRecord ops result ?r"
      using b c f False by (subst ReadPhysicalRecord.simps) (simp add: Let_def)
    also have "\<dots> = (kEof, result, ?r\<lparr>buffer := []\<rparr>)"
      using c by (subst ReadPhysicalRecord.simps) simp
    finally show ?thesis by (rule that) (use at in \<open>auto simp: reads_at_def\<close>)
  qed
qed

text \<open>One round over a fragment.\<close>

lemma round_whole:
  assumes ok: "reads_ok ops contents" and at: "reads_at contents r pos (filler pos @ physical t d @ later)"
    and t: "t \<in> {1, 2, 3, 4}" and fit: "7 + length d \<le> room (pos + length (filler pos))"
  obtains r' off where "read_round ops v r = read_switch t off (v\<lparr>fragment := d\<rparr>) r'"
    and "reads_at contents r' (pos + length (filler pos) + 7 + length d) later"
    and "reporter r' = reporter r"
proof -
  obtain r1 where r1: "ReadPhysicalRecord ops (fragment v) r = parse_physical (fragment v) r1"
    "reads_at contents r1 (pos + length (filler pos)) (physical t d @ later)"
    "7 \<le> length (buffer r1)" "reporter r1 = reporter r"
    by (rule fill_buffer [OF ok at]) auto
  obtain r2 where r2: "parse_physical (fragment v) r1 = (t, d, r2)"
    "reads_at contents r2 (pos + length (filler pos) + 7 + length d) later" "reporter r2 = reporter r1"
    by (rule parse_whole [OF r1(2,3) t fit])
  show ?thesis
    by (rule that [of _ r2]) (use r1 r2 in \<open>auto simp: read_round_def Let_def reads_at_def\<close>)
qed

lemma round_cut:
  assumes ok: "reads_ok ops contents"
    and at: "reads_at contents r pos (take m (filler pos @ physical t d))"
    and m: "m < length (filler pos) + 7 + length d" and fit: "7 + length d \<le> room (pos + length (filler pos))"
  obtains r' where "read_round ops v r = (Inl None, r')" and "reporter r' = reporter r"
    and "initial_offset r' = 0" and "\<not> resyncing r'" and "eof r'" and "buffer r' = []"
proof -
  obtain r' where r': "ReadPhysicalRecord ops (fragment v) r = (kEof, fragment v, r')" "reporter r' = reporter r"
    "initial_offset r' = 0" "\<not> resyncing r'" "eof r'" "buffer r' = []"
  proof (cases "m < length (filler pos) + 7")
    case True
    then have "length (take m (filler pos @ physical t d)) < length (filler pos) + 7" by simp
    from read_nothing [OF ok at this, of "fragment v"] that show ?thesis by blast
  next
    case False
    let ?m = "m - length (filler pos)"
    have "take m (filler pos @ physical t d) = filler pos @ take ?m (physical t d)" using False by simp
    note at = at [unfolded this]
    have "7 \<le> length (take ?m (physical t d))" using False by simp
    from fill_buffer [OF ok at this, of "fragment v"] obtain r1 where
      r1: "ReadPhysicalRecord ops (fragment v) r = parse_physical (fragment v) r1"
      "reads_at contents r1 (pos + length (filler pos)) (take ?m (physical t d))"
      "7 \<le> length (buffer r1)" "reporter r1 = reporter r" by blast
    have "?m < 7 + length d" using m False by simp
    from parse_cut [OF r1(2,3) refl this fit, of "fragment v"] that r1(1,4) show ?thesis by metis
  qed
  then show ?thesis
    by (intro that [of r']) (auto simp: read_round_def read_switch_def record_types Let_def)
qed

section \<open>Whole records\<close>

definition expects :: "read_vars \<Rightarrow> bool \<Rightarrow> bytes \<Rightarrow> bool" where
  "expects v begins acc \<longleftrightarrow>
     (if begins then \<not> in_fragmented_record v \<and> acc = [] else in_fragmented_record v \<and> scratch v = acc)"

lemma switch_ends:
  "expects v begins acc \<Longrightarrow> read_switch (fragment_type begins True) off (v\<lparr>fragment := d\<rparr>) r =
     (Inl (Some (acc @ d)), r\<lparr>last_record_offset := (if begins then off else prospective_record_offset v)\<rparr>)"
  by (auto simp: expects_def read_switch_def fragment_type_def record_types report_partial_def)

lemma switch_goes_on:
  assumes "expects v begins acc"
  obtains v' where "read_switch (fragment_type begins False) off (v\<lparr>fragment := d\<rparr>) r = (Inr v', r)"
    and "expects v' False (acc @ d)"
  using assms that
  by (cases begins) (auto simp: expects_def read_switch_def fragment_type_def record_types report_partial_def)

lemma reads_at_last [simp]: "reads_at contents (r\<lparr>last_record_offset := x\<rparr>) pos rest = reads_at contents r pos rest"
  by (simp add: reads_at_def)

lemma fits_room: "n = fits p data \<Longrightarrow> 7 \<le> room p \<Longrightarrow> n \<le> length data \<and> 7 + length (take n data) \<le> room p"
  by (auto simp: fits_def)

lemma read_loop_whole:
  assumes ok: "reads_ok ops contents"
  shows "reads_at contents r pos (log_record pos data begins @ later) \<Longrightarrow> expects v begins acc \<Longrightarrow>
    \<exists>r'. read_loop ops v r = Some (Some (acc @ data), r') \<and>
      reads_at contents r' (pos + length (log_record pos data begins)) later \<and> reporter r' = reporter r"
proof (induction pos data begins arbitrary: r v acc rule: log_record.induct)
  case (1 pos data begins)
  define p where "p = pos + length (filler pos)"
  define n where "n = fits p data"
  define tail where "tail = (if n < length data then log_record (p + 7 + n) (drop n data) False else [])"
  have rec: "log_record pos data begins =
      filler pos @ physical (fragment_type begins (length data = n)) (take n data) @ tail"
    by (subst log_record.simps) (simp only: Let_def p_def [symmetric] n_def [symmetric] tail_def)
  have n: "n \<le> length data" "7 + length (take n data) \<le> room p"
    using fits_room [OF n_def] room_after_filler [of pos] unfolding p_def by auto
  obtain r1 off where r1: "read_round ops v r =
        read_switch (fragment_type begins (length data = n)) off (v\<lparr>fragment := take n data\<rparr>) r1"
      "reads_at contents r1 (p + 7 + length (take n data)) (tail @ later)" "reporter r1 = reporter r"
    using round_whole [OF ok _ fragment_type_range, where r = r and pos = pos and d = "take n data"] 1(2) n(2)
    unfolding rec p_def append_assoc by metis
  show ?case
  proof (cases "n < length data")
    case True
    obtain v' where sw: "read_switch (fragment_type begins False) off (v\<lparr>fragment := take n data\<rparr>) r1 = (Inr v', r1)"
      and v'2: "expects v' False (acc @ take n data)"
      by (rule switch_goes_on [OF 1(3)])
    have v'1: "read_round ops v r = (Inr v', r1)" using r1(1) sw True by simp
    have "reads_at contents r1 (p + 7 + n) (log_record (p + 7 + n) (drop n data) False @ later)"
      using r1(2) True by (simp add: tail_def)
    from 1(1) [OF p_def n_def True this v'2] obtain r' where
      r': "read_loop ops v' r1 = Some (Some (acc @ take n data @ drop n data), r')"
        "reads_at contents r' (p + 7 + n + length (log_record (p + 7 + n) (drop n data) False)) later"
        "reporter r' = reporter r1" by auto
    have "pos + length (log_record pos data begins) = p + 7 + n + length (log_record (p + 7 + n) (drop n data) False)"
      using True n(1) unfolding rec by (simp add: tail_def p_def)
    moreover have "read_loop ops v r = read_loop ops v' r1"
      by (subst read_loop.simps) (simp add: v'1)
    ultimately show ?thesis using r' r1(3) by (intro exI [of _ r']) simp
  next
    case False
    with n(1) have e: "n = length data" by simp
    have "read_round ops v r = read_switch (fragment_type begins True) off (v\<lparr>fragment := data\<rparr>) r1"
      using r1(1) e by simp
    then have "read_round ops v r = (Inl (Some (acc @ data)),
        r1\<lparr>last_record_offset := (if begins then off else prospective_record_offset v)\<rparr>)"
      by (simp only: switch_ends [OF 1(3)])
    then have "read_loop ops v r =
        Some (Some (acc @ data), r1\<lparr>last_record_offset := (if begins then off else prospective_record_offset v)\<rparr>)"
      by (subst read_loop.simps) simp
    moreover have "pos + length (log_record pos data begins) = p + 7 + length data"
      unfolding rec using e by (simp add: tail_def p_def)
    ultimately show ?thesis using e r1(2,3) by (simp add: tail_def)
  qed
qed

definition at_end :: "'f log_reader \<Rightarrow> bool" where
  "at_end r \<longleftrightarrow> initial_offset r = 0 \<and> \<not> resyncing r \<and> eof r \<and> buffer r = []"

lemma read_loop_cut:
  assumes ok: "reads_ok ops contents"
  shows "reads_at contents r pos (take m (log_record pos data begins)) \<Longrightarrow> m < length (log_record pos data begins) \<Longrightarrow>
    expects v begins acc \<Longrightarrow> \<exists>r'. read_loop ops v r = Some (None, r') \<and> at_end r' \<and> reporter r' = reporter r"
proof (induction pos data begins arbitrary: r v acc m rule: log_record.induct)
  case (1 pos data begins)
  define p where "p = pos + length (filler pos)"
  define n where "n = fits p data"
  define tail where "tail = (if n < length data then log_record (p + 7 + n) (drop n data) False else [])"
  let ?t = "fragment_type begins (length data = n)"
  let ?first = "filler pos @ physical ?t (take n data)"
  have rec: "log_record pos data begins = ?first @ tail"
    by (subst log_record.simps) (simp only: Let_def p_def [symmetric] n_def [symmetric] tail_def append_assoc)
  have n: "n \<le> length data" "7 + length (take n data) \<le> room p"
    using fits_room [OF n_def] room_after_filler [of pos] unfolding p_def by auto
  show ?case
  proof (cases "m < length ?first")
    case True
    then have "take m (log_record pos data begins) = take m ?first" by (simp add: rec)
    note at = 1(2) [unfolded this]
    obtain r' where "read_round ops v r = (Inl None, r')" "reporter r' = reporter r" "initial_offset r' = 0"
      "\<not> resyncing r'" "eof r'" "buffer r' = []"
      by (rule round_cut [OF ok at _ n(2) [unfolded p_def]]) (use True in auto)
    moreover from this(1) have "read_loop ops v r = Some (None, r')"
      by (subst read_loop.simps) simp
    ultimately show ?thesis by (auto simp: at_end_def)
  next
    case False
    define k where "k = m - length ?first"
    have m: "m = length ?first + k" using False by (simp add: k_def)
    have long: "n < length data" using 1(3) m by (auto simp: rec tail_def split: if_splits)
    have take: "take m (log_record pos data begins) = ?first @ take k tail" by (simp add: rec m)
    obtain r1 off where r1: "read_round ops v r = read_switch ?t off (v\<lparr>fragment := take n data\<rparr>) r1"
        "reads_at contents r1 (p + 7 + length (take n data)) (take k tail)" "reporter r1 = reporter r"
      using round_whole [OF ok _ fragment_type_range, where r = r and pos = pos and d = "take n data"] 1(2) n(2)
      unfolding take p_def append_assoc by metis
    obtain v' where sw: "read_switch (fragment_type begins False) off (v\<lparr>fragment := take n data\<rparr>) r1 = (Inr v', r1)"
      and v'2: "expects v' False (acc @ take n data)"
      by (rule switch_goes_on [OF 1(4)])
    have v'1: "read_round ops v r = (Inr v', r1)" using r1(1) sw long by simp
    have at: "reads_at contents r1 (p + 7 + n) (take k (log_record (p + 7 + n) (drop n data) False))"
      using r1(2) long by (simp add: tail_def)
    have "k < length (log_record (p + 7 + n) (drop n data) False)"
      using 1(3) m long by (simp add: rec tail_def)
    from 1(1) [OF p_def n_def long at this v'2] obtain r' where
      "read_loop ops v' r1 = Some (None, r')" "at_end r'" "reporter r' = reporter r1" by blast
    moreover have "read_loop ops v r = read_loop ops v' r1"
      by (subst read_loop.simps) (simp add: v'1)
    ultimately show ?thesis using r1(3) by simp
  qed
qed


text \<open>Reading a log to its end, the way its readers do: until \<open>ReadRecord\<close> returns false.\<close>

partial_function (option) read_all :: "'f sequential_file \<Rightarrow> 'f log_reader \<Rightarrow> (slice list \<times> 'f log_reader) option" where
  "read_all ops r =
     Option.bind (ReadRecord ops r) (\<lambda>(result, r).
       case result of
         None \<Rightarrow> Some ([], r)
       | Some d \<Rightarrow> Option.bind (read_all ops r) (\<lambda>(ds, r). Some (d # ds, r)))"

lemma ReadRecord_start:
  "initial_offset r = 0 \<Longrightarrow> ReadRecord ops r = read_loop ops \<lparr>fragment = [], scratch = [],
     in_fragmented_record = False, prospective_record_offset = 0\<rparr> r"
  by (simp add: ReadRecord_def)

lemma ReadRecord_whole:
  assumes "reads_ok ops contents" and "reads_at contents r pos (log_record pos d True @ later)"
  obtains r' where "ReadRecord ops r = Some (Some d, r')"
    and "reads_at contents r' (pos + length (log_record pos d True)) later" and "reporter r' = reporter r"
proof -
  have i: "initial_offset r = 0" using assms(2) by (simp add: reads_at_def)
  from read_loop_whole [OF assms, where acc = "[]" and
      v = "\<lparr>fragment = [], scratch = [], in_fragmented_record = False, prospective_record_offset = 0\<rparr>"] that show ?thesis
    unfolding ReadRecord_start [OF i] by (auto simp: expects_def)
qed

lemma ReadRecord_cut:
  assumes "reads_ok ops contents" and "reads_at contents r pos (take m (log_record pos d True))"
    and "m < length (log_record pos d True)"
  obtains r' where "ReadRecord ops r = Some (None, r')" and "at_end r'" and "reporter r' = reporter r"
proof -
  have i: "initial_offset r = 0" using assms(2) by (simp add: reads_at_def)
  from read_loop_cut [OF assms, where acc = "[]" and
      v = "\<lparr>fragment = [], scratch = [], in_fragmented_record = False, prospective_record_offset = 0\<rparr>"] that show ?thesis
    unfolding ReadRecord_start [OF i] by (auto simp: expects_def)
qed

text \<open>How many records of the log lie wholly within its first \<open>m\<close> bytes.\<close>

primrec complete :: "nat \<Rightarrow> nat \<Rightarrow> slice list \<Rightarrow> nat" where
  "complete pos m [] = 0"
| "complete pos m (d # ds) =
     (let n = length (log_record pos d True) in if m < n then 0 else Suc (complete (pos + n) (m - n) ds))"

lemma complete_all: "length (log_bytes pos ds) \<le> m \<Longrightarrow> complete pos m ds = length ds"
  by (induction ds arbitrary: pos m) (auto simp: Let_def)

lemma log_record_not_Nil: "log_record pos d b \<noteq> []"
  by (subst log_record.simps) (simp add: Let_def physical_def)

lemma read_all_log:
  assumes ok: "reads_ok ops contents"
  shows "reads_at contents r pos (take m (log_bytes pos ds)) \<Longrightarrow>
    \<exists>r'. read_all ops r = Some (take (complete pos m ds) ds, r') \<and> at_end r' \<and> reporter r' = reporter r"
proof (induction ds arbitrary: r pos m)
  case Nil
  then have at: "reads_at contents r pos (take 0 (log_record pos [] True))" by simp
  have "0 < length (log_record pos [] True)" using log_record_not_Nil by blast
  from ReadRecord_cut [OF ok at this] show ?case
    by (metis (no_types, lifting) bind.bind_lunit case_prod_conv option.simps(4) read_all.simps take_Nil)
next
  case (Cons d ds)
  let ?n = "length (log_record pos d True)"
  show ?case
  proof (cases "m < ?n")
    case True
    then have "reads_at contents r pos (take m (log_record pos d True))" using Cons.prems by simp
    from ReadRecord_cut [OF ok this True] obtain r' where
      "ReadRecord ops r = Some (None, r')" "at_end r'" "reporter r' = reporter r" .
    with True show ?thesis by (subst read_all.simps) (simp add: Let_def)
  next
    case False
    then have "reads_at contents r pos (log_record pos d True @ take (m - ?n) (log_bytes (pos + ?n) ds))"
      using Cons.prems by simp
    from ReadRecord_whole [OF ok this] obtain r1 where r1: "ReadRecord ops r = Some (Some d, r1)"
      "reads_at contents r1 (pos + ?n) (take (m - ?n) (log_bytes (pos + ?n) ds))" "reporter r1 = reporter r" .
    from Cons.IH [OF r1(2)] False r1(1,3) show ?thesis
      by (subst read_all.simps) (auto simp: Let_def)
  qed
qed

lemma make_reader_at_start:
  "reads_at contents (make_reader f report check 0) 0 (contents f)"
  by (simp add: reads_at_def make_reader_def room_def)

text \<open>
  C19. The log survives a crash: whatever records are written to a new file, and wherever the file is
  cut off afterwards, the reader returns exactly the records that are wholly in it, in order, then
  the end of the file, and reports no corruption.
\<close>
theorem log_survives_truncation:
  assumes "appends_ok wops written" and "reads_ok rops contents" and "written new = []"
    and "contents f = take m (written (dest (add_records wops (make_writer new) records)))"
  shows "\<exists>r. read_all rops (make_reader f True check 0) = Some (take (complete 0 m records) records, r) \<and>
    reporter r = Some []"
proof -
  have "contents f = take m (log_bytes 0 records)"
    using assms(3,4) add_records_writes [OF assms(1) make_writer_at_start] by simp
  with make_reader_at_start [of contents f True check]
  have "reads_at contents (make_reader f True check 0) 0 (take m (log_bytes 0 records))" by simp
  from read_all_log [OF assms(2) this] show ?thesis by (auto simp: make_reader_def)
qed

text \<open>A file in memory, with a reading position for the reader.\<close>

definition memory_writer :: "bytes writable_file" where
  "memory_writer = \<lparr>file_append = (\<lambda>f bs. (status_OK, f @ bs)), file_flush = (\<lambda>f. (status_OK, f))\<rparr>"

definition memory_reader :: "bytes sequential_file" where
  "memory_reader = \<lparr>file_read = (\<lambda>f n. (status_OK, take n f, drop n f)), file_skip = (\<lambda>f n. (status_OK, drop (unat n) f))\<rparr>"

lemma memory_appends_ok: "appends_ok memory_writer (\<lambda>f. f)"
  by (simp add: appends_ok_def memory_writer_def)

lemma memory_reads_ok: "reads_ok memory_reader (\<lambda>f. f)"
  by (simp add: reads_ok_def memory_reader_def)

lemma log_survives_truncation_witness:
  "\<exists>r. read_all memory_reader
      (make_reader (take 12 (dest (add_records memory_writer (make_writer []) [[1, 2], [3]]))) True True 0) =
      Some (take (complete 0 12 [[1, 2], [3]]) [[1, 2], [3]], r) \<and> reporter r = Some []"
  using log_survives_truncation [OF memory_appends_ok memory_reads_ok refl refl] .

text \<open>Round trip: a complete log is read back record by record, whatever the bytes of the records.\<close>
theorem log_roundtrip:
  assumes "appends_ok wops written" and "reads_ok rops contents" and "written new = []"
    and "contents f = written (dest (add_records wops (make_writer new) records))"
  shows "\<exists>r. read_all rops (make_reader f True check 0) = Some (records, r) \<and> reporter r = Some []"
proof -
  have "contents f = log_bytes 0 records"
    using assms(3,4) add_records_writes [OF assms(1) make_writer_at_start] by simp
  with make_reader_at_start [of contents f True check]
  have "reads_at contents (make_reader f True check 0) 0 (take (length (log_bytes 0 records)) (log_bytes 0 records))"
    by simp
  from read_all_log [OF assms(2) this] show ?thesis by (auto simp: make_reader_def complete_all)
qed

lemma log_roundtrip_witness:
  "\<exists>r. read_all memory_reader
      (make_reader (dest (add_records memory_writer (make_writer []) [[1, 2], [], [3]])) True True 0) =
      Some ([[1, 2], [], [3]], r) \<and> reporter r = Some []"
  using log_roundtrip [OF memory_appends_ok memory_reads_ok refl refl] .

section \<open>Damaged records\<close>

lemma crc32c_burst:
  assumes "length xs = length ys" and "length xs \<le> 4" and "xs \<noteq> ys"
  shows "crc32c 0 (before @ xs @ after) \<noteq> crc32c 0 (before @ ys @ after)"
proof -
  let ?l = "foldl crc_byte (0 XOR 0xffffffff) before"
  have "foldl crc_byte ?l xs \<noteq> foldl crc_byte ?l ys"
    using crc_burst_inj [OF assms] .
  then show ?thesis by (simp add: crc32c_def crc_bytes_inj xor_right_inj)
qed

text \<open>Two byte strings of the same length that differ in up to four consecutive bytes.\<close>

definition damaged :: "bytes \<Rightarrow> bytes \<Rightarrow> bool" where
  "damaged bs bs' \<longleftrightarrow>
     (\<exists>before xs ys after. bs = before @ xs @ after \<and> bs' = before @ ys @ after \<and>
        length xs = length ys \<and> length xs \<le> 4 \<and> xs \<noteq> ys)"

lemma damaged_crc: "damaged bs bs' \<Longrightarrow> length bs' = length bs \<and> crc32c 0 bs' \<noteq> crc32c 0 bs"
  using crc32c_burst by (auto simp: damaged_def)

lemma le_nat_inj: "length xs = length ys \<Longrightarrow> le_nat xs = le_nat ys \<Longrightarrow> xs = ys"
proof (induction xs ys rule: list_induct2)
  case (Cons x xs y ys)
  have eq: "unat x + 256 * le_nat xs = unat y + 256 * le_nat ys" using Cons.prems by simp
  have "unat x < 256" "unat y < 256" using unsigned_less [of x, where 'a = nat] unsigned_less [of y, where 'a = nat] by simp_all
  then have "(unat x + 256 * le_nat xs) mod 256 = unat x" "(unat y + 256 * le_nat ys) mod 256 = unat y" by simp_all
  then have "unat x = unat y" using eq by metis
  then show ?case using eq Cons.IH by (simp add: word_unat_eq_iff)
qed simp

lemma Unmask_inj: "Unmask x = Unmask y \<Longrightarrow> x = y"
proof -
  have "inj Mask" by (metis Unmask_Mask injI)
  then have "surj Mask" by (intro finite_UNIV_inj_surj) simp_all
  then have "\<exists>x'. x = Mask x'" "\<exists>y'. y = Mask y'" by (metis surjD)+
  then show "Unmask x = Unmask y \<Longrightarrow> x = y" by (auto simp: Unmask_Mask)
qed

lemma damaged_checksum:
  assumes "damaged bs bs'" and "length bs = 4"
  shows "length bs' = 4 \<and> Unmask (DecodeFixed32 (bs' @ rest)) \<noteq> Unmask (DecodeFixed32 (bs @ rest'))"
proof -
  have l: "length bs' = 4" "bs' \<noteq> bs" using assms by (auto simp: damaged_def)
  have "le_nat bs < 2 ^ 32" "le_nat bs' < 2 ^ 32" using le_nat_less [of bs] le_nat_less [of bs'] assms(2) l(1) by simp_all
  moreover have "le_nat bs' \<noteq> le_nat bs" using le_nat_inj [of bs' bs] l assms(2) by auto
  ultimately have "(word_of_nat (le_nat bs') :: u32) \<noteq> word_of_nat (le_nat bs)"
    by (metis unat_of_nat_u32)
  then show ?thesis using l assms(2) Unmask_inj by (auto simp: DecodeFixed32_eq)
qed



section \<open>Appends that fail\<close>

text \<open>A file in memory whose second append fails and writes nothing; the ones before and after it succeed.\<close>

definition faulty_writer :: "(bytes \<times> nat) writable_file" where
  "faulty_writer = \<lparr>file_append = (\<lambda>(f, n) bs. if n = 1 then (status_IOError (c_str ''append'') [], (f, Suc n))
       else (status_OK, (f @ bs, Suc n))),
     file_flush = (\<lambda>f. (status_OK, f))\<rparr>"

text \<open>
  What the writer leaves behind an append that fails: the header of the record is in the file, its data is not, and the
  writer goes on after the place where the data would have ended. The next record is written behind the header, and its
  \<open>AddRecord\<close> returns OK; but the reader takes it for data of the first record and stops at the end of the file
  without a report. The write path records no background error for a failed append, so it goes on to acknowledge such
  records, synced or not.
\<close>

lemma record_after_failed_append_lost:
  assumes "length d2 + 7 < length d1" and "length d1 + length d2 + 14 \<le> 32768"
  shows "\<exists>w1 w2 r. AddRecord faulty_writer (make_writer ([], 0)) d1 = (status_IOError (c_str ''append'') [], w1) \<and>
    AddRecord faulty_writer w1 d2 = (status_OK, w2) \<and>
    read_all memory_reader (make_reader (fst (dest w2)) True True 0) = Some ([], r) \<and> reporter r = Some []"
proof -
  define crc where "crc = (\<lambda>d. EncodeFixed32 (Mask (Extend (InitTypeCrc ! unat kFullType) 0 d)))"
  define header where "header = (\<lambda>d :: bytes. crc d @
    [ucast (of_nat (length d) AND 0xff :: u64), ucast (drop_bit 8 (of_nat (length d) :: u64)), ucast kFullType :: u8])"
  have bad: "\<not> status_ok (status_IOError (c_str ''append'') [])" by code_simp
  define w1 :: "(bytes \<times> nat) log_writer" where "w1 = \<lparr>dest = (header d1, 2), block_offset = 7 + int (length d1), type_crc = InitTypeCrc\<rparr>"
  have one: "AddRecord faulty_writer (make_writer ([], 0)) d1 = (status_IOError (c_str ''append'') [], w1)"
    using assms(2) bad unfolding AddRecord_def
    by (subst add_fragments.simps)
      (simp add: switch_block_def make_writer_def EmitPhysicalRecord_def faulty_writer_def fragment_type_def w1_def header_def
        crc_def Let_def)
  define w2 :: "(bytes \<times> nat) log_writer" where
    "w2 = \<lparr>dest = (header d1 @ header d2 @ d2, 4), block_offset = 14 + int (length d1) + int (length d2), type_crc = InitTypeCrc\<rparr>"
  have "\<not> nat (32754 - int (length d1)) < length d2" using assms(2) by linarith
  then have two: "AddRecord faulty_writer w1 d2 = (status_OK, w2)"
    using assms(2) unfolding AddRecord_def
    by (subst add_fragments.simps)
      (simp add: switch_block_def EmitPhysicalRecord_def faulty_writer_def fragment_type_def w1_def w2_def header_def
        crc_def Let_def)
  define content where "content = header d1 @ header d2 @ d2"
  have len: "length (header d) = 7" for d by (simp add: header_def crc_def)
  have n: "unat (of_nat (length d1) :: u64) = length d1" by (rule unat_of_nat_u64) (use assms(2) in simp)
  have low: "(ucast (of_nat (length d1) AND 0xff :: u64) :: u8) = word_of_nat (length d1)"
    by (simp only: byte_at_0 n)
  have high: "(ucast (drop_bit 8 (of_nat (length d1) :: u64)) :: u8) = word_of_nat (length d1 div 256)"
  proof -
    have "(ucast (drop_bit 8 (of_nat (length d1) :: u64)) :: u8) = word_of_nat (unat (drop_bit 8 (of_nat (length d1) :: u64)))"
      by simp
    then show ?thesis by (simp only: unat_drop_bit_word n) simp
  qed
  have at: "content ! 4 = word_of_nat (length d1)" "content ! 5 = word_of_nat (length d1 div 256)"
    unfolding content_def header_def low high crc_def by (simp_all add: nth_append)
  have field: "unat ((ucast (content ! 4) AND 0xff :: u32) OR push_bit 8 (ucast (content ! 5) AND 0xff)) = length d1"
    unfolding at by (rule length_field) (use assms(2) in simp)
  have short: "length content = 14 + length d2" by (simp add: content_def len)
  define r :: "bytes log_reader" where "r = (make_reader content True True 0)\<lparr>log_file := [], buffer := content,
      end_of_buffer_offset := of_nat (length content), eof := True\<rparr>"
  have "ReadPhysicalRecord memory_reader [] (make_reader content True True 0) = ReadPhysicalRecord memory_reader [] r"
    using assms short by (subst ReadPhysicalRecord.simps) (simp add: make_reader_def memory_reader_def r_def Let_def)
  also have "\<dots> = parse_physical [] r" using short by (subst ReadPhysicalRecord.simps) (simp add: r_def)
  also have "\<dots> = (kEof, [], r\<lparr>buffer := []\<rparr>)"
    using field short assms(1) by (simp add: parse_physical_def Let_def r_def)
  finally have "ReadRecord memory_reader (make_reader content True True 0) = Some (None, r\<lparr>buffer := []\<rparr>)"
    by (subst ReadRecord_start, simp add: make_reader_def, subst read_loop.simps)
      (simp add: read_round_def read_switch_def record_types Let_def r_def make_reader_def)
  then have "read_all memory_reader (make_reader content True True 0) = Some ([], r\<lparr>buffer := []\<rparr>)"
    by (subst read_all.simps) simp
  then show ?thesis using one two by (auto simp: w2_def content_def r_def make_reader_def)
qed

end
