(* ===== verification/LdbRandom.thy ===== *)
theory LdbRandom
  imports Prelude
begin

text \<open>
  \<open>leveldb-library/util/random.h\<close>: the generator behind the heights of the skip list. Its state is
  the seed. \<open>random_Next\<close> stores the new seed and returns it, so one result stands for both; the
  functions on top return their value with the new seed. The lemmas show that the reduction without
  a division is the remainder by the prime \<open>2^31 - 1\<close>, and that the seed never leaves its range.
\<close>

definition random_M :: u32 where
  "random_M = 2147483647"

definition random_A :: u64 where
  "random_A = 16807"

definition make_Random :: "u32 \<Rightarrow> u32" where
  "make_Random s =
     (let seed = s AND 0x7fffffff in if seed = 0 \<or> seed = 2147483647 then 1 else seed)"

definition random_Next :: "u32 \<Rightarrow> u32" where
  "random_Next seed =
     (let product = ucast seed * random_A;
          seed = ucast (drop_bit 31 product + (product AND ucast random_M));
          seed = (if random_M < seed then seed - random_M else seed)
      in seed)"

definition random_Uniform :: "u32 \<Rightarrow> u32 \<Rightarrow> u32 \<times> u32" where
  "random_Uniform seed n = (let seed = random_Next seed in (seed mod n, seed))"

definition random_OneIn :: "u32 \<Rightarrow> u32 \<Rightarrow> bool \<times> u32" where
  "random_OneIn seed n = (let seed = random_Next seed in (seed mod n = 0, seed))"

definition random_Skewed :: "u32 \<Rightarrow> nat \<Rightarrow> u32 \<times> u32" where
  "random_Skewed seed max_log =
     (case random_Uniform seed (of_nat (max_log + 1)) of
        (base, seed) \<Rightarrow> random_Uniform seed (push_bit (unat base) 1))"

definition good_seed :: "u32 \<Rightarrow> bool" where
  "good_seed seed \<longleftrightarrow> 0 < unat seed \<and> unat seed < 2147483647"

lemma and_31: "unat (x AND 0x7fffffff :: u32) = unat x mod 2 ^ 31"
proof -
  have "unat (take_bit 31 x) = unat x mod 2 ^ 31" by (simp only: unsigned_take_bit_eq) (simp only: take_bit_eq_mod)
  then show ?thesis by (simp only: take_bit_eq_mask) (simp add: mask_eq_exp_minus_1)
qed

lemma good_make_Random: "good_seed (make_Random s)"
proof (cases "unat (s AND 0x7fffffff) = 0 \<or> unat (s AND 0x7fffffff) = 2147483647")
  case True
  then have "make_Random s = 1" by (simp add: make_Random_def Let_def word_unat_eq_iff)
  then show ?thesis by (simp add: good_seed_def)
next
  case False
  then have "make_Random s = s AND 0x7fffffff" by (simp add: make_Random_def Let_def word_unat_eq_iff)
  moreover have "unat (s AND 0x7fffffff) < 2147483648" by (simp add: and_31)
  ultimately show ?thesis using False by (simp only: good_seed_def) linarith
qed

lemma mod_by_parts: "(2 ^ 31 * hi + lo) mod 2147483647 = (hi + lo) mod (2147483647 :: nat)"
proof -
  have "2 ^ 31 * hi + lo = (hi + lo) + 2147483647 * hi" by simp
  then show ?thesis by (simp only: mod_mult_self2)
qed

text \<open>The multiplier is invertible: 1407677000 is its inverse.\<close>

lemma factor_invertible:
  assumes "2147483647 dvd n * (16807 :: nat)"
  shows "2147483647 dvd n"
proof -
  have "2147483647 dvd n * 16807 * 1407677000" using assms by (rule dvd_mult2)
  moreover have "n * 16807 * 1407677000 = n + 2147483647 * (11017 * n)" by simp
  ultimately show ?thesis by (metis dvd_add_left_iff dvd_triv_left)
qed

lemma random_Next_value:
  assumes "0 < unat seed" and "unat seed < 2147483647"
  shows "unat (random_Next seed) = unat seed * 16807 mod 2147483647 \<and>
    0 < unat (random_Next seed) \<and> unat (random_Next seed) < 2147483647"
proof -
  let ?p = "unat seed * 16807"
  let ?hi = "?p div 2 ^ 31" and ?lo = "?p mod 2 ^ 31"
  have p: "unat (ucast seed * random_A) = ?p"
    using assms by (simp add: random_A_def unat_mult_lem [THEN iffD1] unat_word_ariths unsigned_ucast_eq take_bit_eq_mod)
  have hi: "?hi < 2 ^ 15" using assms by (simp add: div_less_iff_less_mult)
  have lo: "?lo < 2 ^ 31" by simp
  have "unat (ucast seed * random_A AND 0x7fffffff) = ?lo"
  proof -
    have "unat (take_bit 31 (ucast seed * random_A)) = ?lo"
      by (simp only: unsigned_take_bit_eq) (simp only: take_bit_eq_mod p)
    then show ?thesis by (simp only: take_bit_eq_mask) (simp add: mask_eq_exp_minus_1)
  qed
  moreover have "unat (drop_bit 31 (ucast seed * random_A)) = ?hi"
    by (simp only: unat_drop_bit_word p)
  ultimately have "unat (drop_bit 31 (ucast seed * random_A) + (ucast seed * random_A AND ucast random_M)) = ?hi + ?lo"
    using hi lo by (simp add: random_M_def unat_word_ariths)
  then have s: "unat (ucast (drop_bit 31 (ucast seed * random_A) + (ucast seed * random_A AND ucast random_M)) :: u32) = ?hi + ?lo"
    using hi lo by (simp add: unsigned_ucast_eq take_bit_eq_mod)
  have r: "unat (random_Next seed) = (if 2147483647 < ?hi + ?lo then ?hi + ?lo - 2147483647 else ?hi + ?lo)"
    unfolding random_Next_def Let_def using s
    by (simp add: random_M_def word_less_nat_alt unat_sub_if_size)
  have m: "?p mod 2147483647 = (?hi + ?lo) mod 2147483647"
    using mod_by_parts [of ?hi ?lo] by simp
  have "\<not> 2147483647 dvd ?p"
    using assms by (auto dest!: factor_invertible dvd_imp_le)
  then have "?p mod 2147483647 \<noteq> 0" by (simp add: dvd_eq_mod_eq_0)
  then have nz: "(?hi + ?lo) mod 2147483647 \<noteq> 0" using m by simp
  have "(?hi + ?lo) mod 2147483647 = (if 2147483647 < ?hi + ?lo then ?hi + ?lo - 2147483647 else ?hi + ?lo)"
  proof (cases "2147483647 < ?hi + ?lo")
    case True
    then have "(?hi + ?lo) mod 2147483647 = (?hi + ?lo - 2147483647) mod 2147483647" by (simp add: mod_if)
    then show ?thesis using True hi lo by simp
  next
    case False
    then have "?hi + ?lo \<noteq> 2147483647" using nz by auto
    then show ?thesis using False by simp
  qed
  then have "unat (random_Next seed) = ?p mod 2147483647" using r m by (simp only:)
  moreover have "0 < ?p mod 2147483647" using m nz by (simp only: neq0_conv)
  moreover have "?p mod 2147483647 < 2147483647" by (rule mod_less_divisor) simp
  ultimately show ?thesis by (simp only: simp_thms)
qed

lemma good_Next: "good_seed seed \<Longrightarrow> good_seed (random_Next seed)"
  unfolding good_seed_def using random_Next_value [of seed] by blast

text \<open>
  C14. The generator without a division: whatever 32 bits it is seeded with, its \<open>k\<close>-th number is the seed times the
  \<open>k\<close>-th power of 16807 modulo \<open>2^31 - 1\<close>, and neither 0 nor \<open>2^31 - 1\<close>, at which it would stay for ever.
\<close>
theorem random_sequence:
  "unat ((random_Next ^^ k) (make_Random s)) = unat (make_Random s) * 16807 ^ k mod 2147483647 \<and>
   0 < unat ((random_Next ^^ k) (make_Random s)) \<and> unat ((random_Next ^^ k) (make_Random s)) < 2147483647"
proof (induction k)
  case 0
  show ?case using good_make_Random [of s] by (simp add: good_seed_def)
next
  case (Suc k)
  let ?x = "(random_Next ^^ k) (make_Random s)"
  have "unat (random_Next ?x) = unat ?x * 16807 mod 2147483647 \<and> 0 < unat (random_Next ?x) \<and>
      unat (random_Next ?x) < 2147483647"
    using Suc.IH by (intro random_Next_value) auto
  moreover have "unat ?x * 16807 mod 2147483647 = unat (make_Random s) * 16807 ^ Suc k mod 2147483647"
  proof -
    have "unat ?x * 16807 mod 2147483647 = unat (make_Random s) * 16807 ^ k mod 2147483647 * 16807 mod 2147483647"
      using Suc.IH by simp
    also have "\<dots> = unat (make_Random s) * 16807 ^ k * 16807 mod 2147483647" by (rule mod_mult_left_eq)
    finally show ?thesis by (simp only: power_Suc2 mult.assoc)
  qed
  ultimately show ?case by simp
qed

end
