(* ===== verification/LdbSkipList.thy ===== *)
theory LdbSkipList
  imports LdbRandom "HOL-Library.Multiset"
begin

text \<open>
  \<open>leveldb-library/db/skiplist.h\<close>. The nodes lie in a store and a pointer is an index into it, \<open>None\<close>
  the null pointer; the head is the first node. A slot of \<open>next_\<close> that was never written is \<open>None\<close>,
  and a read of such a slot, or of one the node does not have, is undefined behaviour, which makes
  the whole call \<open>None\<close>. A search is a partial function, so that also a search that does not end is
  \<open>None\<close>. The atomic loads and stores are plain ones; the theory of concurrent readers puts other
  operations between them.

  The lemmas describe the list by the sequence \<open>xs\<close> of its nodes and the number \<open>eff x\<close> of
  levels at which a node is linked. A search needs no more than that; an insertion extends the
  sequence by one node, one level after the other.
\<close>

section \<open>Nodes\<close>

definition kMaxHeight :: nat where "kMaxHeight = 12"

lemma kMaxHeight_nat [simp]: "kMaxHeight = 12" by (simp add: kMaxHeight_def)

definition kBranching :: u32 where "kBranching = 4"

type_synonym node_ptr = "nat option"

record 'k skip_node =
  node_key :: 'k
  node_next :: "node_ptr option list"

record 'k skip_list =
  sl_nodes :: "'k skip_node list"
  sl_max_height :: nat
  sl_rnd :: u32

definition sl_head :: nat where "sl_head = 0"

lemma sl_head_nat [simp]: "sl_head = 0" by (simp add: sl_head_def)

definition node_Next :: "'k skip_list \<Rightarrow> nat \<Rightarrow> nat \<Rightarrow> node_ptr option" where
  "node_Next sl x n =
     (if x < length (sl_nodes sl) \<and> n < length (node_next (sl_nodes sl ! x))
      then node_next (sl_nodes sl ! x) ! n else None)"

definition node_SetNext :: "'k skip_list \<Rightarrow> nat \<Rightarrow> nat \<Rightarrow> node_ptr \<Rightarrow> 'k skip_list option" where
  "node_SetNext sl x n p =
     (if x < length (sl_nodes sl) \<and> n < length (node_next (sl_nodes sl ! x)) then
        let nd = sl_nodes sl ! x
        in Some (sl\<lparr>sl_nodes := (sl_nodes sl)[x := nd\<lparr>node_next := (node_next nd)[n := Some p]\<rparr>]\<rparr>)
      else None)"

definition node_key_at :: "'k skip_list \<Rightarrow> nat \<Rightarrow> 'k" where
  "node_key_at sl x = node_key (sl_nodes sl ! x)"

text \<open>The new node is the last one of the store; its slots are not initialised.\<close>

definition NewNode :: "'k skip_list \<Rightarrow> 'k \<Rightarrow> nat \<Rightarrow> nat \<times> 'k skip_list" where
  "NewNode sl k height =
     (length (sl_nodes sl),
      sl\<lparr>sl_nodes := sl_nodes sl @ [\<lparr>node_key = k, node_next = replicate height None\<rparr>]\<rparr>)"

definition GetMaxHeight :: "'k skip_list \<Rightarrow> nat" where
  "GetMaxHeight sl = sl_max_height sl"

function random_height :: "nat \<Rightarrow> u32 \<Rightarrow> nat \<times> u32" where
  "random_height height rnd =
     (if height < kMaxHeight then
        let rnd = random_Next rnd
        in if rnd mod kBranching = 0 then random_height (height + 1) rnd else (height, rnd)
      else (height, rnd))"
  by pat_completeness auto
termination
  by (relation "measure (\<lambda>(height, rnd). kMaxHeight - height)") auto

declare random_height.simps [simp del]

definition RandomHeight :: "u32 \<Rightarrow> nat \<times> u32" where
  "RandomHeight rnd = random_height 1 rnd"

section \<open>Searches\<close>

definition KeyIsAfterNode :: "('k \<Rightarrow> 'k \<Rightarrow> int) \<Rightarrow> 'k skip_list \<Rightarrow> 'k \<Rightarrow> node_ptr \<Rightarrow> bool" where
  "KeyIsAfterNode cmp sl k n =
     (case n of None \<Rightarrow> False | Some y \<Rightarrow> cmp (node_key_at sl y) k < 0)"

text \<open>The array \<open>prev\<close> of a caller, \<open>None\<close> for a null pointer; its slots start uninitialised.\<close>

type_synonym prev_array = "nat option list"

definition store_prev :: "prev_array option \<Rightarrow> nat \<Rightarrow> nat \<Rightarrow> prev_array option option" where
  "store_prev prev level x =
     (case prev of
        None \<Rightarrow> Some None
      | Some p \<Rightarrow> if level < length p then Some (Some (p[level := Some x])) else None)"

partial_function (option) find_ge_loop ::
  "('k \<Rightarrow> 'k \<Rightarrow> int) \<Rightarrow> 'k skip_list \<Rightarrow> 'k \<Rightarrow> nat \<Rightarrow> nat \<Rightarrow> prev_array option \<Rightarrow> (node_ptr \<times> prev_array option) option"
where
  "find_ge_loop cmp sl k x level prev =
     Option.bind (node_Next sl x level) (\<lambda>next.
       if KeyIsAfterNode cmp sl k next then find_ge_loop cmp sl k (the next) level prev
       else
         Option.bind (store_prev prev level x) (\<lambda>prev.
           if level = 0 then Some (next, prev) else find_ge_loop cmp sl k x (level - 1) prev))"

definition FindGreaterOrEqual ::
  "('k \<Rightarrow> 'k \<Rightarrow> int) \<Rightarrow> 'k skip_list \<Rightarrow> 'k \<Rightarrow> prev_array option \<Rightarrow> (node_ptr \<times> prev_array option) option"
where
  "FindGreaterOrEqual cmp sl k prev = find_ge_loop cmp sl k sl_head (GetMaxHeight sl - 1) prev"

partial_function (option) find_lt_loop ::
  "('k \<Rightarrow> 'k \<Rightarrow> int) \<Rightarrow> 'k skip_list \<Rightarrow> 'k \<Rightarrow> nat \<Rightarrow> nat \<Rightarrow> nat option"
where
  "find_lt_loop cmp sl k x level =
     Option.bind (node_Next sl x level) (\<lambda>next.
       if next = None \<or> 0 \<le> cmp (node_key_at sl (the next)) k
       then (if level = 0 then Some x else find_lt_loop cmp sl k x (level - 1))
       else find_lt_loop cmp sl k (the next) level)"

definition FindLessThan :: "('k \<Rightarrow> 'k \<Rightarrow> int) \<Rightarrow> 'k skip_list \<Rightarrow> 'k \<Rightarrow> nat option" where
  "FindLessThan cmp sl k = find_lt_loop cmp sl k sl_head (GetMaxHeight sl - 1)"

partial_function (option) find_last_loop :: "'k skip_list \<Rightarrow> nat \<Rightarrow> nat \<Rightarrow> nat option" where
  "find_last_loop sl x level =
     Option.bind (node_Next sl x level) (\<lambda>next.
       if next = None
       then (if level = 0 then Some x else find_last_loop sl x (level - 1))
       else find_last_loop sl (the next) level)"

definition FindLast :: "'k skip_list \<Rightarrow> nat option" where
  "FindLast sl = find_last_loop sl sl_head (GetMaxHeight sl - 1)"

definition Contains :: "('k \<Rightarrow> 'k \<Rightarrow> int) \<Rightarrow> 'k skip_list \<Rightarrow> 'k \<Rightarrow> bool option" where
  "Contains cmp sl k =
     Option.bind (FindGreaterOrEqual cmp sl k None) (\<lambda>(x, prev).
       Some (case x of None \<Rightarrow> False | Some y \<Rightarrow> cmp k (node_key_at sl y) = 0))"

section \<open>Construction and insertion\<close>

text \<open>The constructor; \<open>any_key\<close> is the key of the head, which nothing reads.\<close>

definition make_SkipList :: "'k \<Rightarrow> 'k skip_list" where
  "make_SkipList any_key =
     \<lparr>sl_nodes = [\<lparr>node_key = any_key, node_next = replicate kMaxHeight (Some None)\<rparr>],
      sl_max_height = 1, sl_rnd = make_Random 0xdeadbeef\<rparr>"

text \<open>One round of the loop of \<open>Insert\<close>: the two stores.\<close>

definition link_node :: "'k skip_list \<Rightarrow> nat \<Rightarrow> nat \<Rightarrow> nat \<Rightarrow> 'k skip_list option" where
  "link_node sl x i p =
     Option.bind (node_Next sl p i) (\<lambda>n. node_SetNext sl x i n)"

definition publish_node :: "'k skip_list \<Rightarrow> nat \<Rightarrow> nat \<Rightarrow> nat \<Rightarrow> 'k skip_list option" where
  "publish_node sl x i p = node_SetNext sl p i (Some x)"

primrec link_levels :: "nat \<Rightarrow> 'k skip_list \<Rightarrow> nat \<Rightarrow> nat \<Rightarrow> prev_array \<Rightarrow> 'k skip_list option" where
  "link_levels 0 sl x i prev = Some sl"
| "link_levels (Suc rounds) sl x i prev =
     Option.bind (prev ! i) (\<lambda>p.
       Option.bind (link_node sl x i p) (\<lambda>sl.
         Option.bind (publish_node sl x i p) (\<lambda>sl.
           link_levels rounds sl x (i + 1) prev)))"

text \<open>The part before the loop, which changes nothing that a search can see.\<close>

definition prepare_insert ::
  "('k \<Rightarrow> 'k \<Rightarrow> int) \<Rightarrow> 'k skip_list \<Rightarrow> 'k \<Rightarrow> (nat \<times> nat \<times> prev_array \<times> 'k skip_list) option"
where
  "prepare_insert cmp sl k =
     Option.bind (FindGreaterOrEqual cmp sl k (Some (replicate kMaxHeight None))) (\<lambda>(x, prev).
       let (height, rnd) = RandomHeight (sl_rnd sl);
           sl = sl\<lparr>sl_rnd := rnd\<rparr>;
           prev = fold (\<lambda>i p. p[i := Some sl_head]) [GetMaxHeight sl..<height] (the prev);
           sl = (if GetMaxHeight sl < height then sl\<lparr>sl_max_height := height\<rparr> else sl);
           (x, sl) = NewNode sl k height
       in Some (x, height, prev, sl))"

definition skip_Insert :: "('k \<Rightarrow> 'k \<Rightarrow> int) \<Rightarrow> 'k skip_list \<Rightarrow> 'k \<Rightarrow> 'k skip_list option" where
  "skip_Insert cmp sl k =
     Option.bind (prepare_insert cmp sl k) (\<lambda>(x, height, prev, sl). link_levels height sl x 0 prev)"

section \<open>Iterators\<close>

text \<open>An iterator is its \<open>node_\<close>.\<close>

definition iter_Valid :: "node_ptr \<Rightarrow> bool" where
  "iter_Valid node \<longleftrightarrow> node \<noteq> None"

definition iter_key :: "'k skip_list \<Rightarrow> node_ptr \<Rightarrow> 'k" where
  "iter_key sl node = node_key_at sl (the node)"

definition iter_Next :: "'k skip_list \<Rightarrow> node_ptr \<Rightarrow> node_ptr option" where
  "iter_Next sl node = Option.bind node (\<lambda>x. node_Next sl x 0)"

definition iter_Prev :: "('k \<Rightarrow> 'k \<Rightarrow> int) \<Rightarrow> 'k skip_list \<Rightarrow> node_ptr \<Rightarrow> node_ptr option" where
  "iter_Prev cmp sl node =
     Option.bind node (\<lambda>x.
       Option.bind (FindLessThan cmp sl (node_key_at sl x)) (\<lambda>y.
         Some (if y = sl_head then None else Some y)))"

definition iter_Seek :: "('k \<Rightarrow> 'k \<Rightarrow> int) \<Rightarrow> 'k skip_list \<Rightarrow> 'k \<Rightarrow> node_ptr option" where
  "iter_Seek cmp sl target = Option.bind (FindGreaterOrEqual cmp sl target None) (\<lambda>(x, prev). Some x)"

definition iter_SeekToFirst :: "'k skip_list \<Rightarrow> node_ptr option" where
  "iter_SeekToFirst sl = node_Next sl sl_head 0"

definition iter_SeekToLast :: "'k skip_list \<Rightarrow> node_ptr option" where
  "iter_SeekToLast sl = Option.bind (FindLast sl) (\<lambda>x. Some (if x = sl_head then None else Some x))"


section \<open>Linked nodes\<close>

text \<open>
  The nodes \<open>ps\<close> are linked in this order: the link of a node at a level below its \<open>eff\<close> goes to the
  next node that has the level, or nowhere.
\<close>

primrec linked :: "'k skip_list \<Rightarrow> (nat \<Rightarrow> nat) \<Rightarrow> nat list \<Rightarrow> bool" where
  "linked sl eff [] \<longleftrightarrow> True"
| "linked sl eff (x # ys) \<longleftrightarrow>
     (\<forall>l < eff x. node_Next sl x l = Some (find (\<lambda>y. l < eff y) ys)) \<and> linked sl eff ys"

lemma linked_append: "linked sl eff (us @ vs) \<Longrightarrow> linked sl eff vs"
  by (induction us) auto

lemma linked_Next:
  "linked sl eff (us @ x # vs) \<Longrightarrow> l < eff x \<Longrightarrow> node_Next sl x l = Some (find (\<lambda>y. l < eff y) vs)"
  by (drule linked_append) simp

lemma linked_cong:
  assumes "\<And>x l. x \<in> set ps \<Longrightarrow> l < eff x \<Longrightarrow> node_Next sl' x l = node_Next sl x l"
    and "\<And>x. x \<in> set ps \<Longrightarrow> eff' x = eff x"
  shows "linked sl' eff' ps \<longleftrightarrow> linked sl eff ps"
  using assms
proof (induction ps)
  case (Cons x ys)
  moreover have "find (\<lambda>y. l < eff' y) ys = find (\<lambda>y. l < eff y) ys" for l
    using Cons.prems(2) by (intro find_cong) auto
  ultimately show ?case by auto
qed simp

lemma find_Some_split:
  "find P vs = Some y \<Longrightarrow> \<exists>ws vs'. vs = ws @ y # vs' \<and> P y \<and> (\<forall>w \<in> set ws. \<not> P w)"
proof (induction vs)
  case (Cons v vs)
  show ?case
  proof (cases "P v")
    case True
    then show ?thesis using Cons.prems by (intro exI [of _ "[]"] exI [of _ vs]) auto
  next
    case False
    then obtain ws vs' where "vs = ws @ y # vs'" "P y" "\<forall>w \<in> set ws. \<not> P w"
      using Cons by auto
    then show ?thesis using False by (intro exI [of _ "v # ws"] exI [of _ vs']) auto
  qed
qed simp

lemma find_True: "find (\<lambda>y. True) vs = (case vs of [] \<Rightarrow> None | v # vs' \<Rightarrow> Some v)"
  by (cases vs) simp_all

lemma find_append: "find P (us @ vs) = (case find P us of None \<Rightarrow> find P vs | Some y \<Rightarrow> Some y)"
  by (induction us) auto

lemma find_skip: "\<not> P n \<Longrightarrow> find P (us @ n # vs) = find P (us @ vs)"
  by (induction us) simp_all

lemma distinct_insert: "distinct (us @ vs) \<Longrightarrow> n \<notin> set (us @ vs) \<Longrightarrow> distinct (us @ n # vs)"
  by auto

text \<open>
  A search goes down and to the right. \<open>before\<close> is the set of nodes that lie before what is looked
  for; along the list it is a prefix.
\<close>

definition prefix_closed :: "(nat \<Rightarrow> bool) \<Rightarrow> nat list \<Rightarrow> bool" where
  "prefix_closed before vs \<longleftrightarrow> sorted_wrt (\<lambda>a b. before b \<longrightarrow> before a) vs"

lemma prefix_closed_append:
  "prefix_closed before (ws @ y # vs) \<Longrightarrow> before y \<Longrightarrow> (\<forall>w \<in> set ws. before w) \<and> prefix_closed before vs"
  by (auto simp: prefix_closed_def sorted_wrt_append)

lemma prefix_closed_dropWhile: "prefix_closed P xs \<Longrightarrow> y \<in> set (dropWhile P xs) \<Longrightarrow> \<not> P y"
  by (induction xs) (auto simp: prefix_closed_def split: if_splits)

definition last_at :: "(nat \<Rightarrow> nat) \<Rightarrow> nat \<Rightarrow> nat list \<Rightarrow> nat" where
  "last_at eff l ps = last (filter (\<lambda>y. l < eff y) ps)"

lemma last_at_move:
  "\<forall>w \<in> set ws. before w \<Longrightarrow> before y \<Longrightarrow> l < eff y \<Longrightarrow>
     last_at eff l (x # takeWhile before (ws @ y # vs)) = last_at eff l (y # takeWhile before vs)"
  by (simp add: last_at_def takeWhile_append2)

lemma last_at_stay:
  assumes "l < eff x" and "case find (\<lambda>y. l < eff y) vs of None \<Rightarrow> True | Some y \<Rightarrow> \<not> before y"
  shows "last_at eff l (x # takeWhile before vs) = x"
proof -
  have "filter (\<lambda>y. l < eff y) (takeWhile before vs) = []"
    using assms(2) by (induction vs) (auto split: if_splits)
  then show ?thesis using assms(1) by (simp add: last_at_def)
qed

definition fill_prev :: "(nat \<Rightarrow> nat) \<Rightarrow> nat list \<Rightarrow> nat \<Rightarrow> prev_array \<Rightarrow> prev_array" where
  "fill_prev eff ps n p = map (\<lambda>j. if j < n then Some (last_at eff j ps) else p ! j) [0..<length p]"

lemma length_fill_prev [simp]: "length (fill_prev eff ps n p) = length p"
  by (simp add: fill_prev_def)

lemma fill_prev_0 [simp]: "fill_prev eff ps 0 p = p"
  by (simp add: fill_prev_def map_nth)

lemma fill_prev_step:
  assumes "l < length p"
  shows "fill_prev eff ps l (p[l := Some (last_at eff l ps)]) = fill_prev eff ps (Suc l) p"
  using assms by (auto simp: fill_prev_def nth_list_update less_Suc_eq)

lemma fill_prev_cong:
  "(\<And>j. j < n \<Longrightarrow> last_at eff j ps = last_at eff j qs) \<Longrightarrow> fill_prev eff ps n p = fill_prev eff qs n p"
  by (simp add: fill_prev_def)

lemma find_ge_loop_reach:
  assumes "linked sl eff (us @ x # vs)" and "l < eff x" and "\<And>y. y \<in> set vs \<Longrightarrow> 0 < eff y"
    and "\<And>y. y \<in> set vs \<Longrightarrow> before y \<longleftrightarrow> cmp (node_key_at sl y) k < 0" and "prefix_closed before vs"
    and "case prev of None \<Rightarrow> True | Some p \<Rightarrow> l < length p"
  shows "find_ge_loop cmp sl k x l prev =
    Some (find (\<lambda>y. \<not> before y) vs, map_option (fill_prev eff (x # takeWhile before vs) (Suc l)) prev)"
  using assms
proof (induction "l + length vs" arbitrary: us x vs l prev rule: less_induct)
  case less
  let ?n = "find (\<lambda>y. l < eff y) vs"
  have step: "find_ge_loop cmp sl k x l prev =
    (if KeyIsAfterNode cmp sl k ?n then find_ge_loop cmp sl k (the ?n) l prev
     else Option.bind (store_prev prev l x) (\<lambda>prev.
       if l = 0 then Some (?n, prev) else find_ge_loop cmp sl k x (l - 1) prev))"
    using linked_Next [OF less.prems(1,2)] by (subst find_ge_loop.simps) simp
  have n: "?n = Some y \<Longrightarrow> y \<in> set vs" for y by (auto simp: find_Some_iff)
  show ?case
  proof (cases "case ?n of None \<Rightarrow> False | Some y \<Rightarrow> before y")
    case True
    then obtain y where y: "?n = Some y" "before y" by (auto split: option.splits)
    from find_Some_split [OF y(1)] obtain ws vs' where vs: "vs = ws @ y # vs'" "l < eff y" by blast
    have ws: "\<forall>w \<in> set ws. before w" "prefix_closed before vs'"
      using prefix_closed_append less.prems(5) y(2) unfolding vs(1) by blast+
    have "find_ge_loop cmp sl k y l prev =
      Some (find (\<lambda>y. \<not> before y) vs', map_option (fill_prev eff (y # takeWhile before vs') (Suc l)) prev)"
      by (rule less.hyps [of l vs' "us @ x # ws" y prev]) (use less.prems vs ws in auto)
    moreover have "KeyIsAfterNode cmp sl k ?n"
      using less.prems(4) n y by (simp add: KeyIsAfterNode_def)
    moreover have "find (\<lambda>y. \<not> before y) vs = find (\<lambda>y. \<not> before y) vs'"
    proof -
      have "find (\<lambda>y. \<not> before y) ws = None" using ws(1) by (simp add: find_None_iff)
      then show ?thesis using y(2) by (simp add: vs(1) find_append)
    qed
    moreover have "fill_prev eff (x # takeWhile before vs) (Suc l) = fill_prev eff (y # takeWhile before vs') (Suc l)"
      unfolding vs(1) using ws(1) y(2) vs(2) by (intro ext fill_prev_cong last_at_move) auto
    ultimately show ?thesis using step y(1) by simp
  next
    case False
    then have stay: "case ?n of None \<Rightarrow> True | Some y \<Rightarrow> \<not> before y" by (auto split: option.splits)
    then have key: "\<not> KeyIsAfterNode cmp sl k ?n"
      using less.prems(4) n by (auto simp: KeyIsAfterNode_def split: option.splits)
    let ?prev = "map_option (\<lambda>p. p[l := Some x]) prev"
    have store: "store_prev prev l x = Some ?prev"
      using less.prems(6) by (cases prev) (simp_all add: store_prev_def)
    have fill: "fill_prev eff (x # takeWhile before vs) l (p[l := Some x]) =
        fill_prev eff (x # takeWhile before vs) (Suc l) p" if "prev = Some p" for p
      using fill_prev_step [of l p eff "x # takeWhile before vs"] last_at_stay [OF less.prems(2) stay] less.prems(6) that
      by simp
    show ?thesis
    proof (cases l)
      case 0
      have "?n = find (\<lambda>y. \<not> before y) vs"
        using stay less.prems(3) unfolding 0 by (cases vs) (auto split: if_splits)
      then show ?thesis using step key store fill 0 by (cases prev) auto
    next
      case (Suc m)
      have "find_ge_loop cmp sl k x m ?prev =
        Some (find (\<lambda>y. \<not> before y) vs, map_option (fill_prev eff (x # takeWhile before vs) (Suc m)) ?prev)"
        by (rule less.hyps [of m vs us x ?prev]) (use less.prems Suc in \<open>auto split: option.splits\<close>)
      then show ?thesis using step key store fill Suc by (cases prev) auto
    qed
  qed
qed


text \<open>The other two searches stay on the left of what they look for.\<close>

lemma find_lt_loop_reach:
  assumes "linked sl eff (us @ x # vs)" and "l < eff x" and "\<And>y. y \<in> set vs \<Longrightarrow> 0 < eff y"
    and "\<And>y. y \<in> set vs \<Longrightarrow> before y \<longleftrightarrow> cmp (node_key_at sl y) k < 0" and "prefix_closed before vs"
  shows "find_lt_loop cmp sl k x l = Some (last (x # takeWhile before vs))"
  using assms
proof (induction "l + length vs" arbitrary: us x vs l rule: less_induct)
  case less
  let ?n = "find (\<lambda>y. l < eff y) vs"
  have n: "?n = Some y \<Longrightarrow> y \<in> set vs" for y by (auto simp: find_Some_iff)
  then have step: "find_lt_loop cmp sl k x l =
    (if case ?n of None \<Rightarrow> True | Some y \<Rightarrow> \<not> before y
     then (if l = 0 then Some x else find_lt_loop cmp sl k x (l - 1))
     else find_lt_loop cmp sl k (the ?n) l)"
    using linked_Next [OF less.prems(1,2)] less.prems(4)
    by (subst find_lt_loop.simps) (auto split: option.splits)
  show ?case
  proof (cases "case ?n of None \<Rightarrow> True | Some y \<Rightarrow> \<not> before y")
    case False
    then obtain y where y: "?n = Some y" "before y" by (auto split: option.splits)
    from find_Some_split [OF y(1)] obtain ws vs' where vs: "vs = ws @ y # vs'" "l < eff y" by blast
    have ws: "\<forall>w \<in> set ws. before w" "prefix_closed before vs'"
      using prefix_closed_append less.prems(5) y(2) unfolding vs(1) by blast+
    have "find_lt_loop cmp sl k y l = Some (last (y # takeWhile before vs'))"
      by (rule less.hyps [of l vs' "us @ x # ws" y]) (use less.prems vs ws in auto)
    then show ?thesis using step y ws(1) by (simp add: vs(1) takeWhile_append2)
  next
    case True
    show ?thesis
    proof (cases l)
      case 0
      have "takeWhile before vs = []"
        using True less.prems(3) unfolding 0 by (cases vs) (auto split: if_splits)
      then show ?thesis using step True 0 by simp
    next
      case (Suc m)
      have "find_lt_loop cmp sl k x m = Some (last (x # takeWhile before vs))"
        by (rule less.hyps [of m vs us x]) (use less.prems Suc in auto)
      then show ?thesis using step True Suc by simp
    qed
  qed
qed

lemma find_last_loop_reach:
  assumes "linked sl eff (us @ x # vs)" and "l < eff x" and "\<And>y. y \<in> set vs \<Longrightarrow> 0 < eff y"
  shows "find_last_loop sl x l = Some (last (x # vs))"
  using assms
proof (induction "l + length vs" arbitrary: us x vs l rule: less_induct)
  case less
  let ?n = "find (\<lambda>y. l < eff y) vs"
  have step: "find_last_loop sl x l =
    (case ?n of None \<Rightarrow> if l = 0 then Some x else find_last_loop sl x (l - 1) | Some y \<Rightarrow> find_last_loop sl y l)"
    using linked_Next [OF less.prems(1,2)] by (subst find_last_loop.simps) (auto split: option.splits)
  show ?case
  proof (cases ?n)
    case (Some y)
    from find_Some_split [OF this] obtain ws vs' where vs: "vs = ws @ y # vs'" "l < eff y" by blast
    have "find_last_loop sl y l = Some (last (y # vs'))"
      by (rule less.hyps [of l vs' "us @ x # ws" y]) (use less.prems vs in auto)
    then show ?thesis using step Some by (simp add: vs(1))
  next
    case None
    show ?thesis
    proof (cases l)
      case 0
      have "vs = []" using None less.prems(3) unfolding 0 by (cases vs) (auto split: if_splits)
      then show ?thesis using step None 0 by simp
    next
      case (Suc m)
      have "find_last_loop sl x m = Some (last (x # vs))"
        by (rule less.hyps [of m vs us x]) (use less.prems Suc in auto)
      then show ?thesis using step None Suc by simp
    qed
  qed
qed

section \<open>Linking a node\<close>

lemma Next_SetNext:
  assumes "node_SetNext sl p i t = Some sl'"
  shows "node_Next sl' x l = (if x = p \<and> l = i then Some t else node_Next sl x l)"
    and "node_key_at sl' x = node_key_at sl x" and "length (sl_nodes sl') = length (sl_nodes sl)"
    and "sl_max_height sl' = sl_max_height sl" and "sl_rnd sl' = sl_rnd sl"
    and "length (node_next (sl_nodes sl' ! x)) = length (node_next (sl_nodes sl ! x))"
  using assms
  by (auto simp: node_SetNext_def node_Next_def node_key_at_def Let_def nth_list_update split: if_splits)

lemma SetNext_defined:
  "x < length (sl_nodes sl) \<Longrightarrow> n < length (node_next (sl_nodes sl ! x)) \<Longrightarrow> \<exists>sl'. node_SetNext sl x n p = Some sl'"
  by (simp add: node_SetNext_def Let_def)

lemma Next_in_range:
  "node_Next sl x l = Some t \<Longrightarrow> x < length (sl_nodes sl) \<and> l < length (node_next (sl_nodes sl ! x))"
  by (simp add: node_Next_def split: if_splits)

lemma last_at_in: "\<exists>y \<in> set ps. l < eff y \<Longrightarrow> last_at eff l ps \<in> set ps \<and> l < eff (last_at eff l ps)"
proof -
  assume "\<exists>y \<in> set ps. l < eff y"
  then have "filter (\<lambda>y. l < eff y) ps \<noteq> []" by (simp add: filter_empty_conv)
  from last_in_set [OF this] show ?thesis by (simp add: last_at_def)
qed

text \<open>A node that is linked nowhere may be anywhere in the order.\<close>

lemma linked_insert:
  assumes "eff n = 0"
  shows "linked sl eff (us @ n # vs) \<longleftrightarrow> linked sl eff (us @ vs)"
proof -
  have "\<not> l < eff n" for l using assms by simp
  then show ?thesis using assms by (induction us) (simp_all add: find_skip)
qed

text \<open>
  The store that publishes the node \<open>n\<close> at one more level: the last node before it that has the level
  is made to point to it.
\<close>

lemma linked_publish:
  assumes "linked sl (eff(n := i)) (ps @ n # qs)" and "distinct (ps @ n # qs)"
    and "node_Next sl n i = Some (find (\<lambda>y. i < eff y) qs)"
    and "\<exists>y \<in> set ps. i < eff y" and "node_SetNext sl (last_at eff i ps) i (Some n) = Some sl'"
  shows "linked sl' (eff(n := Suc i)) (ps @ n # qs)"
proof -
  let ?p = "last_at eff i ps"
  note p = last_at_in [OF assms(4)]
  note Next = Next_SetNext(1) [OF assms(5)]
  have eq: "find (\<lambda>y. l < (eff(n := j)) y) rs = find (\<lambda>y. l < eff y) rs" if "n \<notin> set rs" for l j rs
    using that by (intro find_cong) auto
  have rest: "linked sl' (eff(n := Suc i)) (n # qs)"
  proof -
    have "linked sl (eff(n := i)) (n # qs)" using assms(1) by (rule linked_append)
    moreover have "linked sl' (eff(n := Suc i)) qs \<longleftrightarrow> linked sl (eff(n := i)) qs"
      by (rule linked_cong) (use assms(2) p Next in auto)
    ultimately show ?thesis
      using assms(2,3) p by (auto simp: Next less_Suc_eq eq simp del: fun_upd_apply simp add: fun_upd_same)
  qed
  have "linked sl' (eff(n := Suc i)) (rs @ n # qs)"
    if "linked sl (eff(n := i)) (rs @ n # qs)" "distinct (rs @ n # qs)"
      "(\<exists>y \<in> set rs. i < eff y) \<Longrightarrow> ?p = last_at eff i rs" "\<not> (\<exists>y \<in> set rs. i < eff y) \<Longrightarrow> ?p \<notin> set rs" for rs
    using that
  proof (induction rs)
    case (Cons x rs)
    have x: "x \<noteq> n" "x \<notin> set rs" "n \<notin> set rs" "n \<notin> set qs" using Cons.prems(2) by auto
    have last: "(\<exists>y \<in> set rs. i < eff y) \<Longrightarrow> last_at eff i (x # rs) = last_at eff i rs"
      by (auto simp: last_at_def filter_empty_conv)
    have here: "\<not> (\<exists>y \<in> set rs. i < eff y) \<Longrightarrow> i < eff x \<Longrightarrow> ?p = x"
      using Cons.prems(3) by (auto simp: last_at_def filter_False)
    have "linked sl' (eff(n := Suc i)) (rs @ n # qs)"
    proof (rule Cons.IH)
      show "linked sl (eff(n := i)) (rs @ n # qs)" "distinct (rs @ n # qs)"
        using Cons.prems(1,2) by (simp_all del: fun_upd_apply)
      show "?p = last_at eff i rs" if "\<exists>y \<in> set rs. i < eff y"
        using last [OF that] Cons.prems(3) that by simp
      show "?p \<notin> set rs" if "\<not> (\<exists>y \<in> set rs. i < eff y)" using that p by blast
    qed
    moreover have "node_Next sl' x l = Some (find (\<lambda>y. l < (eff(n := Suc i)) y) (rs @ n # qs))" if l: "l < eff x" for l
    proof -
      have old: "node_Next sl x l = Some (find (\<lambda>y. l < (eff(n := i)) y) (rs @ n # qs))"
        using Cons.prems(1) l x(1) by simp
      have in_rs: "find (\<lambda>y. i < eff y) rs \<noteq> None \<longleftrightarrow> (\<exists>y \<in> set rs. i < eff y)"
        by (auto simp: find_None_iff)
      show ?thesis
      proof (cases "x = ?p \<and> l = i")
        case True
        have "\<not> (\<exists>y \<in> set rs. i < eff y)"
        proof
          assume *: "\<exists>y \<in> set rs. i < eff y"
          then have "?p = last_at eff i rs" using last Cons.prems(3) by simp
          then show False using last_at_in [OF *] True x(2) by simp
        qed
        then have "find (\<lambda>y. i < eff y) rs = None" using in_rs by blast
        then show ?thesis using True by (simp add: Next find_append eq x del: fun_upd_apply) (simp add: x)
      next
        case False
        then have "l = i \<Longrightarrow> \<exists>y \<in> set rs. i < eff y" using here l by blast
        then have "find (\<lambda>y. l < (eff(n := i)) y) (rs @ n # qs) = find (\<lambda>y. l < (eff(n := Suc i)) y) (rs @ n # qs)"
          using in_rs by (cases "find (\<lambda>y. l < eff y) rs")
            (auto simp: find_append eq x less_Suc_eq simp del: fun_upd_apply simp add: fun_upd_same)
        moreover have "node_Next sl' x l = node_Next sl x l" using False by (auto simp: Next)
        ultimately show ?thesis using old by (simp only:)
      qed
    qed
    ultimately show ?case using x(1) by (simp del: fun_upd_apply add: fun_upd_other)
  qed (use rest in simp)
  then show ?thesis using assms(1,2,4) by blast
qed


lemma last_at_split:
  assumes "\<exists>y \<in> set ps. l < eff y"
  obtains us vs where "ps = us @ last_at eff l ps # vs" and "\<forall>v \<in> set vs. \<not> l < eff v"
proof -
  from split_list_last_prop [OF assms] obtain us x vs where s: "ps = us @ x # vs" "l < eff x" "\<forall>v \<in> set vs. \<not> l < eff v"
    by blast
  then have "last_at eff l ps = x" by (simp add: last_at_def filter_False)
  then show thesis using s that by blast
qed

text \<open>The first store of a round: the new node gets its successor, which no search sees yet.\<close>

lemma link_node_step:
  assumes "linked sl (eff(n := i)) (ps @ n # qs)" and "distinct (ps @ n # qs)" and "\<exists>y \<in> set ps. i < eff y"
    and "n < length (sl_nodes sl)" and "i < length (node_next (sl_nodes sl ! n))"
  obtains sl' where "link_node sl n i (last_at eff i ps) = Some sl'"
    and "node_SetNext sl n i (find (\<lambda>y. i < eff y) qs) = Some sl'"
    and "linked sl' (eff(n := i)) (ps @ n # qs)" and "node_Next sl' n i = Some (find (\<lambda>y. i < eff y) qs)"
proof -
  let ?p = "last_at eff i ps" and ?t = "find (\<lambda>y. i < eff y) qs"
  from last_at_split [OF assms(3)] obtain us vs where ps: "ps = us @ ?p # vs" "\<forall>v \<in> set vs. \<not> i < eff v" .
  have n: "n \<notin> set ps" "n \<notin> set qs" "?p \<noteq> n" using assms(2) last_at_in [OF assms(3)] by auto
  have "linked sl (eff(n := i)) (us @ ?p # (vs @ n # qs))"
    using assms(1) by (subst (asm) ps(1)) (simp del: fun_upd_apply)
  then have "node_Next sl ?p i = Some (find (\<lambda>y. i < (eff(n := i)) y) (vs @ n # qs))"
    by (rule linked_Next) (use last_at_in [OF assms(3)] n in auto)
  also have "find (\<lambda>y. i < (eff(n := i)) y) (vs @ n # qs) = ?t"
  proof -
    have "find (\<lambda>y. i < (eff(n := i)) y) (vs @ n # qs) = find (\<lambda>y. i < (eff(n := i)) y) (vs @ qs)"
      by (rule find_skip) simp
    also have "\<dots> = find (\<lambda>y. i < (eff(n := i)) y) qs"
    proof -
      have "find (\<lambda>y. i < (eff(n := i)) y) vs = None" using ps(2) by (auto simp: find_None_iff)
      then show ?thesis by (simp add: find_append del: fun_upd_apply)
    qed
    also have "\<dots> = ?t" using n(2) by (intro find_cong) auto
    finally show ?thesis .
  qed
  finally have Next: "node_Next sl ?p i = Some ?t" .
  obtain sl' where sl': "node_SetNext sl n i ?t = Some sl'" using SetNext_defined [OF assms(4,5)] by blast
  have "linked sl' (eff(n := i)) (ps @ n # qs)"
    using assms(1) by (subst linked_cong [of _ _ sl' sl "eff(n := i)"]) (auto simp: Next_SetNext(1) [OF sl'])
  then show thesis
    using that [of sl'] sl' Next by (simp add: link_node_def Next_SetNext(1) [OF sl'])
qed

definition same_but_links :: "'k skip_list \<Rightarrow> 'k skip_list \<Rightarrow> bool" where
  "same_but_links sl sl' \<longleftrightarrow>
     node_key_at sl' = node_key_at sl \<and> length (sl_nodes sl') = length (sl_nodes sl) \<and>
     sl_max_height sl' = sl_max_height sl \<and> sl_rnd sl' = sl_rnd sl \<and>
     (\<forall>x. length (node_next (sl_nodes sl' ! x)) = length (node_next (sl_nodes sl ! x)))"

lemma same_but_links_refl: "same_but_links sl sl" by (simp add: same_but_links_def)

lemma same_but_links_trans: "same_but_links sl sl' \<Longrightarrow> same_but_links sl' sl'' \<Longrightarrow> same_but_links sl sl''"
  by (simp add: same_but_links_def)

lemma same_but_links_SetNext: "node_SetNext sl p i t = Some sl' \<Longrightarrow> same_but_links sl sl'"
  using Next_SetNext [of sl p i t sl'] by (auto simp: same_but_links_def)

text \<open>The second store publishes it.\<close>

lemma publish_node_step:
  assumes "linked sl (eff(n := i)) (ps @ n # qs)" and "distinct (ps @ n # qs)"
    and "node_Next sl n i = Some (find (\<lambda>y. i < eff y) qs)" and "\<exists>y \<in> set ps. i < eff y"
  obtains sl' where "publish_node sl n i (last_at eff i ps) = Some sl'"
    and "linked sl' (eff(n := Suc i)) (ps @ n # qs)" and "same_but_links sl sl'"
proof -
  let ?p = "last_at eff i ps"
  have p: "?p \<in> set ps" "i < eff ?p" "?p \<noteq> n" using last_at_in [OF assms(4)] assms(2) by auto
  then obtain us vs where "ps = us @ ?p # vs" by (meson split_list)
  then have "linked sl (eff(n := i)) (us @ ?p # (vs @ n # qs))"
    using assms(1) by (metis append.assoc append_Cons)
  from linked_Next [OF this, of i] have "node_Next sl ?p i \<noteq> None" using p by simp
  then obtain sl' where sl': "node_SetNext sl ?p i (Some n) = Some sl'"
    using Next_in_range SetNext_defined by blast
  show thesis
    using that [of sl'] sl' linked_publish [OF assms sl'] same_but_links_SetNext [OF sl']
    by (simp add: publish_node_def)
qed

text \<open>A whole round, and all rounds.\<close>

lemma link_round:
  assumes "linked sl (eff(n := i)) (ps @ n # qs)" and "distinct (ps @ n # qs)" and "\<exists>y \<in> set ps. i < eff y"
    and "n < length (sl_nodes sl)" and "i < length (node_next (sl_nodes sl ! n))"
  obtains sl1 sl2 where "link_node sl n i (last_at eff i ps) = Some sl1"
    and "publish_node sl1 n i (last_at eff i ps) = Some sl2"
    and "linked sl2 (eff(n := Suc i)) (ps @ n # qs)" and "same_but_links sl sl2"
proof -
  let ?p = "last_at eff i ps"
  obtain sl1 where sl1: "link_node sl n i ?p = Some sl1" "node_SetNext sl n i (find (\<lambda>y. i < eff y) qs) = Some sl1"
    "linked sl1 (eff(n := i)) (ps @ n # qs)" "node_Next sl1 n i = Some (find (\<lambda>y. i < eff y) qs)"
    using link_node_step [OF assms] by blast
  obtain sl2 where sl2: "publish_node sl1 n i ?p = Some sl2"
    "linked sl2 (eff(n := Suc i)) (ps @ n # qs)" "same_but_links sl1 sl2"
    using publish_node_step [OF sl1(3) assms(2) sl1(4) assms(3)] by blast
  show thesis
    by (rule that [OF sl1(1) sl2(1,2) same_but_links_trans [OF same_but_links_SetNext [OF sl1(2)] sl2(3)]])
qed

lemma link_levels_all:
  assumes "linked sl (eff(n := i)) (ps @ n # qs)" and "distinct (ps @ n # qs)"
    and "n < length (sl_nodes sl)" and "i + r = length (node_next (sl_nodes sl ! n))"
    and "\<And>j. j < i + r \<Longrightarrow> prev ! j = Some (last_at eff j ps) \<and> (\<exists>y \<in> set ps. j < eff y)"
  shows "\<exists>sl'. link_levels r sl n i prev = Some sl' \<and> linked sl' (eff(n := i + r)) (ps @ n # qs) \<and> same_but_links sl sl'"
  using assms
proof (induction r arbitrary: sl i)
  case 0
  then show ?case by (simp add: same_but_links_refl del: fun_upd_apply)
next
  case (Suc r)
  have prev: "prev ! i = Some (last_at eff i ps)" "\<exists>y \<in> set ps. i < eff y" using Suc.prems(5) [of i] by auto
  obtain sl1 sl2 where r: "link_node sl n i (last_at eff i ps) = Some sl1"
    "publish_node sl1 n i (last_at eff i ps) = Some sl2"
    "linked sl2 (eff(n := Suc i)) (ps @ n # qs)" "same_but_links sl sl2"
    using link_round [OF Suc.prems(1,2) prev(2) Suc.prems(3)] Suc.prems(4) by auto
  obtain sl' where "link_levels r sl2 n (Suc i) prev = Some sl'"
    "linked sl' (eff(n := Suc i + r)) (ps @ n # qs)" "same_but_links sl2 sl'"
    using Suc.IH [OF r(3) Suc.prems(2), of] Suc.prems(3-5) r(4)
    by (auto simp: same_but_links_def simp del: fun_upd_apply)
  then show ?case
    using r(1,2) prev(1) same_but_links_trans [OF r(4)] by (simp add: del: fun_upd_apply)
qed


section \<open>The invariant\<close>

definition skip_inv :: "('k \<Rightarrow> 'k \<Rightarrow> int) \<Rightarrow> 'k skip_list \<Rightarrow> (nat \<Rightarrow> nat) \<Rightarrow> nat list \<Rightarrow> bool" where
  "skip_inv cmp sl eff xs \<longleftrightarrow>
     distinct (sl_head # xs) \<and> linked sl eff (sl_head # xs) \<and> eff sl_head = kMaxHeight \<and>
     1 \<le> sl_max_height sl \<and> sl_max_height sl \<le> kMaxHeight \<and>
     (\<forall>x \<in> set xs. 0 < eff x \<and> eff x \<le> sl_max_height sl) \<and>
     sorted_wrt (\<lambda>x y. cmp (node_key_at sl x) (node_key_at sl y) < 0) xs"

lemma skip_inv_range:
  assumes "skip_inv cmp sl eff xs" and "x \<in> set (0 # xs)"
  shows "x < length (sl_nodes sl)"
proof -
  obtain us vs where "0 # xs = us @ x # vs" using split_list [OF assms(2)] by blast
  moreover have "0 < eff x" "linked sl eff (0 # xs)" using assms by (auto simp: skip_inv_def)
  ultimately show ?thesis using linked_Next [of sl eff us x vs 0] Next_in_range by fastforce
qed

definition skip_holds :: "('k \<Rightarrow> 'k \<Rightarrow> int) \<Rightarrow> ('k \<Rightarrow> bool) \<Rightarrow> 'k skip_list \<Rightarrow> 'k list \<Rightarrow> bool" where
  "skip_holds cmp valid sl ks \<longleftrightarrow>
     (\<exists>eff xs. skip_inv cmp sl eff xs \<and> map (node_key_at sl) xs = ks) \<and> list_all valid ks"

lemma random_height_range: "1 \<le> h \<Longrightarrow> h \<le> kMaxHeight \<Longrightarrow> 1 \<le> fst (random_height h rnd) \<and> fst (random_height h rnd) \<le> kMaxHeight"
proof (induction h rnd rule: random_height.induct)
  case (1 h rnd)
  show ?case
    using 1 by (subst (1 2) random_height.simps) (auto simp: Let_def)
qed

lemma RandomHeight_range: "1 \<le> fst (RandomHeight rnd) \<and> fst (RandomHeight rnd) \<le> kMaxHeight"
  unfolding RandomHeight_def by (rule random_height_range) simp_all

lemma skip_inv_empty: "skip_inv cmp (make_SkipList any_key) (\<lambda>x. 12) []"
  by (simp add: skip_inv_def make_SkipList_def node_Next_def)

lemma skip_holds_empty: "skip_holds cmp valid (make_SkipList any_key) []"
  using skip_inv_empty [of cmp any_key] by (auto simp: skip_holds_def)

text \<open>Allocating a node changes nothing for the nodes there are.\<close>

lemma NewNode_facts:
  assumes "NewNode sl k height = (n, sl')"
  shows "n = length (sl_nodes sl)" and "n < length (sl_nodes sl')" and "node_key_at sl' n = k"
    and "length (node_next (sl_nodes sl' ! n)) = height"
    and "x < n \<Longrightarrow> node_Next sl' x l = node_Next sl x l \<and> node_key_at sl' x = node_key_at sl x"
    and "sl_max_height sl' = sl_max_height sl" and "sl_rnd sl' = sl_rnd sl"
  using assms by (auto simp: NewNode_def node_Next_def node_key_at_def nth_append)

lemma fold_update:
  "j < length p \<Longrightarrow> fold (\<lambda>i p. p[i := v]) [a..<b] p ! j = (if a \<le> j \<and> j < b then v else p ! j)"
proof (induction b)
  case (Suc b)
  have "length (fold (\<lambda>i p. p[i := v]) is p) = length p" for "is" by (induction "is" arbitrary: p) simp_all
  then show ?case using Suc by (auto simp: nth_list_update less_Suc_eq)
qed simp

text \<open>The order of the keys that a search needs.\<close>

locale skip_order =
  fixes cmp :: "'k \<Rightarrow> 'k \<Rightarrow> int"
    and valid :: "'k \<Rightarrow> bool"
  assumes less_trans: "valid a \<Longrightarrow> valid b \<Longrightarrow> valid c \<Longrightarrow> cmp a b < 0 \<Longrightarrow> cmp b c < 0 \<Longrightarrow> cmp a c < 0"
    and greater: "valid a \<Longrightarrow> valid b \<Longrightarrow> 0 < cmp a b \<longleftrightarrow> cmp b a < 0"
begin

abbreviation before :: "'k skip_list \<Rightarrow> 'k \<Rightarrow> nat \<Rightarrow> bool" where
  "before sl k \<equiv> \<lambda>x. cmp (node_key_at sl x) k < 0"

lemma before_prefix:
  assumes "skip_inv cmp sl eff xs" and "\<forall>x \<in> set xs. valid (node_key_at sl x)" and "valid k"
  shows "prefix_closed (before sl k) xs"
proof -
  have "sorted_wrt (\<lambda>x y. cmp (node_key_at sl x) (node_key_at sl y) < 0) xs" using assms(1) by (simp add: skip_inv_def)
  then show ?thesis
    unfolding prefix_closed_def
    by (rule sorted_wrt_mono_rel [rotated]) (use assms(2,3) less_trans in blast)
qed

lemma search:
  assumes "skip_inv cmp sl eff xs" and "\<forall>x \<in> set xs. valid (node_key_at sl x)" and "valid k"
    and "case prev of None \<Rightarrow> True | Some p \<Rightarrow> length p = kMaxHeight"
  shows "FindGreaterOrEqual cmp sl k prev =
    Some (find (\<lambda>x. \<not> before sl k x) xs,
      map_option (fill_prev eff (0 # takeWhile (before sl k) xs) (sl_max_height sl)) prev)"
proof -
  have i: "linked sl eff ([] @ 0 # xs)" "sl_max_height sl - 1 < eff 0" "Suc (sl_max_height sl - 1) = sl_max_height sl"
    "\<And>y. y \<in> set xs \<Longrightarrow> 0 < eff y" "sl_max_height sl - 1 < 12"
    using assms(1) by (auto simp: skip_inv_def)
  have "case prev of None \<Rightarrow> True | Some p \<Rightarrow> sl_max_height sl - 1 < length p"
    using assms(4) i(5) by (auto split: option.splits)
  then show ?thesis
    using find_ge_loop_reach [OF i(1,2,4), where before = "before sl k" and cmp = cmp and k = k and prev = prev]
      before_prefix [OF assms(1-3)] i(3)
    by (simp add: FindGreaterOrEqual_def GetMaxHeight_def)
qed

lemma search_less:
  assumes "skip_inv cmp sl eff xs" and "\<forall>x \<in> set xs. valid (node_key_at sl x)" and "valid k"
  shows "FindLessThan cmp sl k = Some (last (0 # takeWhile (before sl k) xs))"
proof -
  have i: "linked sl eff ([] @ 0 # xs)" "sl_max_height sl - 1 < eff 0" "\<And>y. y \<in> set xs \<Longrightarrow> 0 < eff y"
    using assms(1) by (auto simp: skip_inv_def)
  show ?thesis
    using find_lt_loop_reach [OF i, where before = "before sl k" and cmp = cmp and k = k] before_prefix [OF assms]
    by (simp add: FindLessThan_def GetMaxHeight_def)
qed

text \<open>What an insertion has before its loop.\<close>

lemma prepare:
  assumes "skip_inv cmp sl eff xs" and "\<forall>x \<in> set xs. valid (node_key_at sl x)" and "valid k"
  obtains n h prev sl1 where "prepare_insert cmp sl k = Some (n, h, prev, sl1)"
    and "linked sl1 (eff(n := 0)) ((0 # takeWhile (before sl k) xs) @ n # dropWhile (before sl k) xs)"
    and "n \<notin> set (0 # xs)" and "n < length (sl_nodes sl1)" and "h = length (node_next (sl_nodes sl1 ! n))"
    and "1 \<le> h" and "h \<le> sl_max_height sl1" and "sl_max_height sl \<le> sl_max_height sl1" and "sl_max_height sl1 \<le> kMaxHeight"
    and "node_key_at sl1 n = k" and "\<forall>x \<in> set xs. node_key_at sl1 x = node_key_at sl x"
    and "\<And>j. j < h \<Longrightarrow> prev ! j = Some (last_at eff j (0 # takeWhile (before sl k) xs)) \<and>
      (\<exists>y \<in> set (0 # takeWhile (before sl k) xs). j < eff y)"
proof -
  let ?A = "takeWhile (before sl k) xs" and ?D = "dropWhile (before sl k) xs" and ?mh = "sl_max_height sl"
  let ?P = "fill_prev eff (0 # ?A) ?mh (replicate 12 None)"
  obtain h rnd where h: "RandomHeight (sl_rnd sl) = (h, rnd)" by fastforce
  have hr: "1 \<le> h" "h \<le> 12" using RandomHeight_range [of "sl_rnd sl"] h by simp_all
  have i: "linked sl eff (0 # xs)" "1 \<le> ?mh" "?mh \<le> 12" "eff 0 = 12" "\<And>x. x \<in> set xs \<Longrightarrow> 0 < eff x \<and> eff x \<le> ?mh"
    using assms(1) by (auto simp: skip_inv_def)
  let ?prev = "fold (\<lambda>i p. p[i := Some sl_head]) [?mh..<h] ?P"
  define sl0 where "sl0 = (if ?mh < h then sl\<lparr>sl_rnd := rnd, sl_max_height := h\<rparr> else sl\<lparr>sl_rnd := rnd\<rparr>)"
  have sl0: "sl_nodes sl0 = sl_nodes sl" "sl_max_height sl0 = max ?mh h" by (auto simp: sl0_def)
  then have same: "node_Next sl0 x l = node_Next sl x l" "node_key_at sl0 x = node_key_at sl x" for x l
    by (simp_all add: node_Next_def node_key_at_def)
  obtain n sl1 where new: "NewNode sl0 k h = (n, sl1)" by fastforce
  note facts = NewNode_facts [OF new]
  have n: "n \<notin> set (0 # xs)" using skip_inv_range [OF assms(1)] facts(1) sl0 by fastforce
  have run: "prepare_insert cmp sl k = Some (n, h, ?prev, sl1)"
    using search [OF assms(1-3), of "Some (replicate 12 None)"] h new
    by (auto simp: prepare_insert_def GetMaxHeight_def sl0_def Let_def split: if_splits)
  have "linked sl1 eff (0 # xs)"
    using i(1) skip_inv_range [OF assms(1)] facts(1,5) sl0 same
    by (subst linked_cong [where sl = sl and eff = eff]) auto
  then have "linked sl1 (eff(n := 0)) (0 # xs)"
    using n by (subst linked_cong [where sl = sl1 and eff = eff]) auto
  then have "linked sl1 (eff(n := 0)) ((0 # ?A) @ ?D)" by simp
  then have link: "linked sl1 (eff(n := 0)) ((0 # ?A) @ n # ?D)" by (subst linked_insert) simp_all
  have key: "\<forall>x \<in> set xs. node_key_at sl1 x = node_key_at sl x"
    using skip_inv_range [OF assms(1)] facts(1,5) sl0 same by auto
  have prev: "?prev ! j = Some (last_at eff j (0 # ?A)) \<and> (\<exists>y \<in> set (0 # ?A). j < eff y)" if "j < h" for j
  proof -
    have "last_at eff j (0 # ?A) = 0" if "?mh \<le> j"
    proof -
      have "filter (\<lambda>y. j < eff y) ?A = []"
        using i(5) that by (fastforce simp: filter_empty_conv dest: set_takeWhileD)
      then show ?thesis using \<open>j < h\<close> hr i(4) by (simp add: last_at_def)
    qed
    then show ?thesis using that hr i(4) by (auto simp: fold_update fill_prev_def not_le)
  qed
  show thesis
    by (rule that [OF run link n facts(2) _ hr(1)]) (use facts sl0 hr i key prev in auto)
qed

lemma not_before:
  assumes "skip_inv cmp sl eff xs" and "\<forall>x \<in> set xs. valid (node_key_at sl x)" and "valid k"
    and "y \<in> set (dropWhile (before sl k) xs)"
  shows "\<not> before sl k y"
  using prefix_closed_dropWhile [OF before_prefix [OF assms(1-3)] assms(4)] .

lemma key_after:
  assumes "skip_inv cmp sl eff xs" and "\<forall>x \<in> set xs. valid (node_key_at sl x)" and "valid k"
    and "\<forall>x \<in> set xs. cmp (node_key_at sl x) k \<noteq> 0" and "y \<in> set (dropWhile (before sl k) xs)"
  shows "cmp k (node_key_at sl y) < 0"
proof -
  have y: "y \<in> set xs" using assms(5) by (rule set_dropWhileD)
  then have "0 < cmp (node_key_at sl y) k"
    using not_before [OF assms(1-3,5)] assms(4) by force
  then show ?thesis using greater [of "node_key_at sl y" k] assms(2,3) y by blast
qed

lemma sorted_with_new:
  assumes "skip_inv cmp sl eff xs" and "\<forall>x \<in> set xs. valid (node_key_at sl x)" and "valid k"
    and "\<forall>x \<in> set xs. cmp (node_key_at sl x) k \<noteq> 0"
    and "node_key_at sl' n = k" and "\<forall>x \<in> set xs. node_key_at sl' x = node_key_at sl x"
  shows "sorted_wrt (\<lambda>x y. cmp (node_key_at sl' x) (node_key_at sl' y) < 0)
    (takeWhile (before sl k) xs @ n # dropWhile (before sl k) xs)"
proof -
  have "sorted_wrt (\<lambda>x y. cmp (node_key_at sl x) (node_key_at sl y) < 0) xs"
    using assms(1) by (simp add: skip_inv_def)
  then have "sorted_wrt (\<lambda>x y. cmp (node_key_at sl' x) (node_key_at sl' y) < 0) xs"
    by (rule sorted_wrt_mono_rel [rotated]) (use assms(6) in simp)
  then have "sorted_wrt (\<lambda>x y. cmp (node_key_at sl' x) (node_key_at sl' y) < 0)
      (takeWhile (before sl k) xs @ dropWhile (before sl k) xs)"
    unfolding takeWhile_dropWhile_id .
  moreover have "cmp (node_key_at sl' x) k < 0" if "x \<in> set (takeWhile (before sl k) xs)" for x
    using set_takeWhileD [OF that] assms(6) by simp
  moreover have "cmp k (node_key_at sl' y) < 0" if "y \<in> set (dropWhile (before sl k) xs)" for y
    using key_after [OF assms(1-4) that] set_dropWhileD [OF that] assms(6) by simp
  ultimately show ?thesis unfolding sorted_wrt_append using assms(5) by simp
qed

lemma insert:
  assumes "skip_inv cmp sl eff xs" and "\<forall>x \<in> set xs. valid (node_key_at sl x)" and "valid k"
    and "\<forall>x \<in> set xs. cmp (node_key_at sl x) k \<noteq> 0"
  shows "\<exists>n h sl'. skip_Insert cmp sl k = Some sl' \<and>
    skip_inv cmp sl' (eff(n := h)) (takeWhile (before sl k) xs @ n # dropWhile (before sl k) xs) \<and>
    node_key_at sl' n = k \<and> (\<forall>x \<in> set xs. node_key_at sl' x = node_key_at sl x)"
proof (rule prepare [OF assms(1-3)])
  fix n h prev sl1
  let ?A = "takeWhile (before sl k) xs" and ?D = "dropWhile (before sl k) xs"
  assume p: "prepare_insert cmp sl k = Some (n, h, prev, sl1)"
    and link: "linked sl1 (eff(n := 0)) ((0 # ?A) @ n # ?D)"
    and n: "n \<notin> set (0 # xs)" "n < length (sl_nodes sl1)" and h: "h = length (node_next (sl_nodes sl1 ! n))"
    and b: "1 \<le> h" "h \<le> sl_max_height sl1" "sl_max_height sl \<le> sl_max_height sl1" "sl_max_height sl1 \<le> kMaxHeight"
    and key: "node_key_at sl1 n = k" "\<forall>x \<in> set xs. node_key_at sl1 x = node_key_at sl x"
    and prev: "\<And>j. j < h \<Longrightarrow> prev ! j = Some (last_at eff j (0 # ?A)) \<and> (\<exists>y \<in> set (0 # ?A). j < eff y)"
  have xs: "set ?A \<union> set ?D = set xs" unfolding set_append [symmetric] takeWhile_dropWhile_id ..
  have inv: "eff 0 = kMaxHeight" "1 \<le> sl_max_height sl"
    "\<forall>x \<in> set xs. 0 < eff x \<and> eff x \<le> sl_max_height sl"
    using assms(1) by (simp_all add: skip_inv_def)
  have "distinct ((0 # ?A) @ ?D)" "n \<notin> set ((0 # ?A) @ ?D)"
    using assms(1) n(1) unfolding append_Cons takeWhile_dropWhile_id by (simp_all add: skip_inv_def)
  then have d: "distinct ((0 # ?A) @ n # ?D)" by (rule distinct_insert)
  have "\<exists>sl'. link_levels h sl1 n 0 prev = Some sl' \<and> linked sl' (eff(n := 0 + h)) ((0 # ?A) @ n # ?D) \<and> same_but_links sl1 sl'"
    by (rule link_levels_all [OF link d n(2)]) (use h prev in simp_all)
  then obtain sl' where r: "link_levels h sl1 n 0 prev = Some sl'"
    "linked sl' (eff(n := h)) ((0 # ?A) @ n # ?D)" "same_but_links sl1 sl'"
    unfolding add_0_left by blast
  have key': "node_key_at sl' n = k" "\<forall>x \<in> set xs. node_key_at sl' x = node_key_at sl x"
    using r(3) key by (simp_all add: same_but_links_def)
  have mh: "sl_max_height sl' = sl_max_height sl1" using r(3) by (simp add: same_but_links_def)
  have "skip_inv cmp sl' (eff(n := h)) (?A @ n # ?D)"
    unfolding skip_inv_def
  proof (intro conjI)
    show "distinct (sl_head # ?A @ n # ?D)" using d by simp
    show "linked sl' (eff(n := h)) (sl_head # ?A @ n # ?D)" using r(2) unfolding sl_head_nat append_Cons .
    show "(eff(n := h)) sl_head = kMaxHeight" using inv(1) n(1) by simp
    show "1 \<le> sl_max_height sl'" "sl_max_height sl' \<le> kMaxHeight" unfolding mh using b inv(2) by linarith+
    show "\<forall>x \<in> set (?A @ n # ?D). 0 < (eff(n := h)) x \<and> (eff(n := h)) x \<le> sl_max_height sl'"
      using b inv(3) xs n(1) unfolding mh by fastforce
    show "sorted_wrt (\<lambda>x y. cmp (node_key_at sl' x) (node_key_at sl' y) < 0) (?A @ n # ?D)"
      by (rule sorted_with_new [OF assms key'])
  qed
  then show ?thesis using p r(1) key' by (auto simp: skip_Insert_def)
qed

text \<open>Iterators on the node with the index \<open>i\<close> of the list; past the end is null.\<close>

lemma Next_nth:
  assumes "skip_inv cmp sl eff xs" and "i < length xs"
  shows "iter_Next sl (Some (xs ! i)) = Some (if Suc i < length xs then Some (xs ! Suc i) else None)"
proof -
  have "0 # xs = (0 # take i xs) @ xs ! i # drop (Suc i) xs" using assms(2) by (simp add: id_take_nth_drop [symmetric])
  then have "linked sl eff ((0 # take i xs) @ xs ! i # drop (Suc i) xs)" using assms(1) by (simp add: skip_inv_def)
  moreover have pos: "\<forall>x \<in> set xs. 0 < eff x" using assms(1) by (simp add: skip_inv_def)
  ultimately have "node_Next sl (xs ! i) 0 = Some (find (\<lambda>y. 0 < eff y) (drop (Suc i) xs))"
    using linked_Next [of sl eff "0 # take i xs" "xs ! i" "drop (Suc i) xs" 0] assms(2) by simp
  moreover have "find (\<lambda>y. 0 < eff y) (drop (Suc i) xs) = (if Suc i < length xs then Some (xs ! Suc i) else None)"
  proof (cases "Suc i < length xs")
    case True
    then show ?thesis using pos by (simp add: Cons_nth_drop_Suc [symmetric])
  qed simp
  ultimately show ?thesis by (simp add: iter_Next_def)
qed

lemma SeekToFirst_first:
  assumes "skip_inv cmp sl eff xs"
  shows "iter_SeekToFirst sl = Some (case xs of [] \<Rightarrow> None | x # xs' \<Rightarrow> Some x)"
proof -
  have "node_Next sl 0 0 = Some (find (\<lambda>y. 0 < eff y) xs)" using assms by (simp add: skip_inv_def)
  then show ?thesis using assms by (cases xs) (auto simp: iter_SeekToFirst_def skip_inv_def)
qed

lemma SeekToLast_last:
  assumes "skip_inv cmp sl eff xs"
  shows "iter_SeekToLast sl = Some (if xs = [] then None else Some (last xs))"
proof -
  have i: "linked sl eff ([] @ 0 # xs)" "sl_max_height sl - 1 < eff 0" "\<And>y. y \<in> set xs \<Longrightarrow> 0 < eff y" "0 \<notin> set xs"
    using assms by (auto simp: skip_inv_def)
  moreover have "xs \<noteq> [] \<Longrightarrow> last xs \<noteq> 0" using i(4) last_in_set [of xs] by metis
  ultimately show ?thesis
    using find_last_loop_reach [OF i(1-3)]
    by (cases "xs = []") (simp_all add: iter_SeekToLast_def FindLast_def GetMaxHeight_def)
qed

lemma Prev_nth:
  assumes "skip_inv cmp sl eff xs" and "\<forall>x \<in> set xs. valid (node_key_at sl x)" and "i < length xs"
  shows "iter_Prev cmp sl (Some (xs ! i)) = Some (if i = 0 then None else Some (xs ! (i - 1)))"
proof -
  let ?k = "node_key_at sl (xs ! i)"
  have sorted: "sorted_wrt (\<lambda>x y. cmp (node_key_at sl x) (node_key_at sl y) < 0) xs" and z: "0 \<notin> set xs"
    using assms(1) by (auto simp: skip_inv_def)
  have valid: "valid ?k" using assms(2,3) by simp
  have "\<not> before sl ?k (xs ! i)" using greater [OF valid valid] by linarith
  moreover have "before sl ?k x" if "x \<in> set (take i xs)" for x
    using that sorted_wrt_nth_less [OF sorted] assms(3) by (auto simp: in_set_conv_nth)
  ultimately have "takeWhile (before sl ?k) (take i xs @ xs ! i # drop (Suc i) xs) = take i xs"
    by (simp add: takeWhile_append2)
  then have t: "takeWhile (before sl ?k) xs = take i xs" using assms(3) by (simp add: id_take_nth_drop [symmetric])
  have "last (0 # take i xs) = (if i = 0 then 0 else xs ! (i - 1))"
    using assms(3) by (auto simp: last_conv_nth nth_Cons')
  moreover have "i \<noteq> 0 \<Longrightarrow> xs ! (i - 1) \<noteq> 0" using z assms(3) by (metis less_imp_diff_less nth_mem)
  moreover have "FindLessThan cmp sl ?k = Some (last (0 # take i xs))"
    using search_less [OF assms(1,2) valid] unfolding t .
  ultimately show ?thesis by (cases "i = 0") (simp_all add: iter_Prev_def del: last.simps)
qed

lemma Seek_finds:
  assumes "skip_inv cmp sl eff xs" and "\<forall>x \<in> set xs. valid (node_key_at sl x)" and "valid k"
  shows "iter_Seek cmp sl k = Some (find (\<lambda>x. \<not> before sl k x) xs)"
  using search [OF assms, of None] by (simp add: iter_Seek_def)

lemma Contains_iff:
  assumes "skip_inv cmp sl eff xs" and "\<forall>x \<in> set xs. valid (node_key_at sl x)" and "valid k"
  shows "Contains cmp sl k = Some (\<exists>x \<in> set xs. cmp k (node_key_at sl x) = 0)"
proof -
  let ?y = "find (\<lambda>x. \<not> before sl k x) xs"
  have eq: "cmp k (node_key_at sl x) = 0 \<Longrightarrow> \<not> before sl k x" if "x \<in> set xs" for x
    using greater [of k "node_key_at sl x"] assms(2,3) that by auto
  have run: "Contains cmp sl k = Some (case ?y of None \<Rightarrow> False | Some y \<Rightarrow> cmp k (node_key_at sl y) = 0)"
    using search [OF assms, of None] by (simp add: Contains_def)
  show ?thesis
  proof (cases ?y)
    case None
    then have "\<not> (\<exists>x \<in> set xs. cmp k (node_key_at sl x) = 0)" using eq by (auto simp: find_None_iff)
    then show ?thesis using run None by simp
  next
    case (Some y)
    from find_Some_split [OF Some] obtain us vs where xs: "xs = us @ y # vs" "\<not> before sl k y"
      "\<forall>u \<in> set us. before sl k u" by blast
    have "cmp k (node_key_at sl y) = 0" if "x \<in> set xs" "cmp k (node_key_at sl x) = 0" for x
    proof (rule ccontr)
      assume ne: "cmp k (node_key_at sl y) \<noteq> 0"
      have v: "valid (node_key_at sl x)" "valid (node_key_at sl y)" using assms(2) that(1) xs(1) by auto
      have "cmp k (node_key_at sl y) < 0" using ne xs(2) greater [OF assms(3) v(2)] by linarith
      moreover have "x \<in> set vs" using that xs eq ne by auto
      then have "cmp (node_key_at sl y) (node_key_at sl x) < 0"
        using assms(1) xs(1) by (auto simp: skip_inv_def sorted_wrt_append)
      ultimately have "cmp k (node_key_at sl x) < 0" using less_trans [OF assms(3) v(2,1)] by blast
      then show False using that(2) by simp
    qed
    then show ?thesis using run Some xs(1) by auto
  qed
qed

end

section \<open>The interface\<close>

text \<open>
  What the clients of the list see: an index that holds keys in order. Inserting a key that is not
  there puts it at its place, a search gives the first key that is not before the one looked for.
\<close>

primrec insert_keys :: "('t \<Rightarrow> 'k \<Rightarrow> 't option) \<Rightarrow> 't \<Rightarrow> 'k list \<Rightarrow> 't option" where
  "insert_keys insert_key t [] = Some t"
| "insert_keys insert_key t (k # ks) = Option.bind (insert_key t k) (\<lambda>t. insert_keys insert_key t ks)"

locale ordered_index =
  fixes cmp :: "'k \<Rightarrow> 'k \<Rightarrow> int"
    and valid :: "'k \<Rightarrow> bool"
    and holds_keys :: "'t \<Rightarrow> 'k list \<Rightarrow> bool"
    and insert_key :: "'t \<Rightarrow> 'k \<Rightarrow> 't option"
    and seek_key :: "'t \<Rightarrow> 'k \<Rightarrow> 'k option option"
  assumes holds_insert: "holds_keys t ks \<Longrightarrow> valid k \<Longrightarrow> \<forall>x \<in> set ks. cmp x k \<noteq> 0 \<Longrightarrow>
      \<exists>t'. insert_key t k = Some t' \<and>
        holds_keys t' (takeWhile (\<lambda>x. cmp x k < 0) ks @ k # dropWhile (\<lambda>x. cmp x k < 0) ks)"
    and seek_first: "holds_keys t ks \<Longrightarrow> valid k \<Longrightarrow> seek_key t k = Some (find (\<lambda>x. \<not> cmp x k < 0) ks)"
    and holds_sorted: "holds_keys t ks \<Longrightarrow> sorted_wrt (\<lambda>x y. cmp x y < 0) ks"
    and holds_valid: "holds_keys t ks \<Longrightarrow> list_all valid ks"
begin

lemma holds_insert_keys:
  assumes "holds_keys t ks" and "list_all valid ns"
    and "\<forall>n \<in> set ns. \<forall>x \<in> set ks. cmp x n \<noteq> 0" and "sorted_wrt (\<lambda>a b. cmp a b \<noteq> 0) ns"
  shows "\<exists>t' ks'. insert_keys insert_key t ns = Some t' \<and> holds_keys t' ks' \<and> mset ks' = mset ks + mset ns"
  using assms
proof (induction ns arbitrary: t ks)
  case Nil
  then show ?case by auto
next
  case (Cons n ns)
  let ?ks = "takeWhile (\<lambda>x. cmp x n < 0) ks @ n # dropWhile (\<lambda>x. cmp x n < 0) ks"
  obtain t' where t': "insert_key t n = Some t'" "holds_keys t' ?ks"
    using holds_insert [OF Cons.prems(1), of n] Cons.prems(2,3) by auto
  have m: "mset ?ks = mset ks + {#n#}"
    unfolding mset_append mset.simps
    by (metis add_mset_add_single mset_append takeWhile_dropWhile_id union_mset_add_mset_right)
  then have "set ?ks = Set.insert n (set ks)" by (metis add_mset_add_single set_mset_add_mset_insert set_mset_mset)
  then have "\<exists>t'' ks'. insert_keys insert_key t' ns = Some t'' \<and> holds_keys t'' ks' \<and> mset ks' = mset ?ks + mset ns"
    using Cons.prems by (intro Cons.IH [OF t'(2)]) auto
  then show ?case using t'(1) m by auto
qed

end

definition skip_seek :: "('k \<Rightarrow> 'k \<Rightarrow> int) \<Rightarrow> 'k skip_list \<Rightarrow> 'k \<Rightarrow> 'k option option" where
  "skip_seek cmp sl k = map_option (map_option (node_key_at sl)) (iter_Seek cmp sl k)"

lemma find_map: "find P (map f xs) = map_option f (find (\<lambda>x. P (f x)) xs)"
  by (induction xs) simp_all

context skip_order
begin

lemma holds_Insert:
  assumes "skip_holds cmp valid sl ks" and "valid k" and "\<forall>x \<in> set ks. cmp x k \<noteq> 0"
  shows "\<exists>sl'. skip_Insert cmp sl k = Some sl' \<and>
    skip_holds cmp valid sl' (takeWhile (\<lambda>x. cmp x k < 0) ks @ k # dropWhile (\<lambda>x. cmp x k < 0) ks)"
proof -
  obtain eff xs where xs: "skip_inv cmp sl eff xs" "map (node_key_at sl) xs = ks" "list_all valid ks"
    using assms(1) by (auto simp: skip_holds_def)
  have v: "\<forall>x \<in> set xs. valid (node_key_at sl x)" "\<forall>x \<in> set xs. cmp (node_key_at sl x) k \<noteq> 0"
    using xs(2,3) assms(3) by (auto simp: list_all_iff)
  from insert [OF xs(1) v(1) assms(2) v(2)] obtain n h sl' where sl': "skip_Insert cmp sl k = Some sl'"
    "skip_inv cmp sl' (eff(n := h)) (takeWhile (before sl k) xs @ n # dropWhile (before sl k) xs)"
    "node_key_at sl' n = k" "\<forall>x \<in> set xs. node_key_at sl' x = node_key_at sl x" by blast
  have "map (node_key_at sl') (takeWhile (before sl k) xs) = map (node_key_at sl) (takeWhile (before sl k) xs)"
    "map (node_key_at sl') (dropWhile (before sl k) xs) = map (node_key_at sl) (dropWhile (before sl k) xs)"
    using sl'(4) by (auto dest: set_takeWhileD set_dropWhileD)
  then have keys: "map (node_key_at sl') (takeWhile (before sl k) xs @ n # dropWhile (before sl k) xs) =
      takeWhile (\<lambda>x. cmp x k < 0) ks @ k # dropWhile (\<lambda>x. cmp x k < 0) ks"
    using sl'(3) by (simp add: xs(2) [symmetric] takeWhile_map dropWhile_map comp_def)
  have "list_all valid (takeWhile (\<lambda>x. cmp x k < 0) ks @ k # dropWhile (\<lambda>x. cmp x k < 0) ks)"
    using xs(3) assms(2) by (auto simp: list_all_iff dest: set_takeWhileD set_dropWhileD)
  then show ?thesis using sl'(1,2) keys unfolding skip_holds_def by blast
qed

lemma holds_Seek:
  assumes "skip_holds cmp valid sl ks" and "valid k"
  shows "skip_seek cmp sl k = Some (find (\<lambda>x. \<not> cmp x k < 0) ks)"
proof -
  obtain eff xs where xs: "skip_inv cmp sl eff xs" "map (node_key_at sl) xs = ks" "list_all valid ks"
    using assms(1) by (auto simp: skip_holds_def)
  then have "\<forall>x \<in> set xs. valid (node_key_at sl x)" by (auto simp: list_all_iff)
  from Seek_finds [OF xs(1) this assms(2)] show ?thesis
    by (simp add: skip_seek_def xs(2) [symmetric] find_map)
qed

lemma holds_ordered: "skip_holds cmp valid sl ks \<Longrightarrow> sorted_wrt (\<lambda>x y. cmp x y < 0) ks"
  by (auto simp: skip_holds_def skip_inv_def sorted_wrt_map)

lemma holds_all_valid: "skip_holds cmp valid sl ks \<Longrightarrow> list_all valid ks"
  by (simp add: skip_holds_def)

end

sublocale skip_order \<subseteq> skip: ordered_index cmp valid "skip_holds cmp valid" "skip_Insert cmp" "skip_seek cmp"
  by unfold_locales (rule holds_Insert holds_Seek holds_ordered holds_all_valid; assumption)+

section \<open>What is inserted is read back in order\<close>

text \<open>The keys an iterator goes over from a node on, at most \<open>n\<close> steps.\<close>

fun traverse :: "nat \<Rightarrow> 'k skip_list \<Rightarrow> node_ptr \<Rightarrow> 'k list option" where
  "traverse 0 sl node = None"
| "traverse (Suc n) sl node =
     (if iter_Valid node
      then Option.bind (iter_Next sl node) (\<lambda>next. map_option ((#) (iter_key sl node)) (traverse n sl next))
      else Some [])"

context skip_order
begin

lemma traverse_from:
  assumes "skip_inv cmp sl eff xs"
  shows "i \<le> length xs \<Longrightarrow>
    traverse (Suc (length xs - i)) sl (if i < length xs then Some (xs ! i) else None) = Some (map (node_key_at sl) (drop i xs))"
proof (induction "length xs - i" arbitrary: i)
  case 0
  then show ?case by (simp add: iter_Valid_def)
next
  case (Suc n)
  then have i: "i < length xs" by simp
  then have "traverse (Suc (length xs - Suc i)) sl (if Suc i < length xs then Some (xs ! Suc i) else None) =
    Some (map (node_key_at sl) (drop (Suc i) xs))"
    using Suc.hyps by (intro Suc.hyps(1)) auto
  then show ?case
    using i Next_nth [OF assms i]
    by (simp add: iter_Valid_def iter_key_def Suc_diff_Suc Cons_nth_drop_Suc [symmetric] del: traverse.simps)
      (simp add: iter_Valid_def iter_key_def)
qed

lemma traverse_all:
  assumes "skip_holds cmp valid sl ks"
  shows "\<exists>first. iter_SeekToFirst sl = Some first \<and> traverse (Suc (length ks)) sl first = Some ks"
proof -
  obtain eff xs where xs: "skip_inv cmp sl eff xs" "map (node_key_at sl) xs = ks"
    using assms by (auto simp: skip_holds_def)
  then have "length xs = length ks" by auto
  then show ?thesis
    using traverse_from [OF xs(1), of 0] SeekToFirst_first [OF xs(1)] xs(2)
    by (cases xs) (auto simp del: traverse.simps)
qed

lemma inserted_sorted:
  assumes "list_all valid ks" and "sorted_wrt (\<lambda>a b. cmp a b \<noteq> 0) ks"
  shows "\<exists>sl first ks'. insert_keys (skip_Insert cmp) (make_SkipList any_key) ks = Some sl \<and>
    iter_SeekToFirst sl = Some first \<and> traverse (Suc (length ks)) sl first = Some ks' \<and>
    sorted_wrt (\<lambda>a b. cmp a b < 0) ks' \<and> mset ks' = mset ks"
proof -
  obtain sl ks' where sl: "insert_keys (skip_Insert cmp) (make_SkipList any_key) ks = Some sl"
    "skip_holds cmp valid sl ks'" "mset ks' = mset ks"
    using skip.holds_insert_keys [OF skip_holds_empty [of cmp valid any_key] assms(1) _ assms(2)] by auto
  then have "length ks' = length ks" by (metis size_mset)
  then show ?thesis using traverse_all [OF sl(2)] holds_ordered [OF sl(2)] sl by metis
qed

end

text \<open>
  C27. A skip list sorts: keys inserted one by one in any order, no two of them equal for the
  comparator, are all in the list, and an iterator goes over them in ascending order. No insertion
  reads memory that is not there or not initialised, and each one ends.
\<close>
theorem skip_list_sorts:
  assumes "\<And>a b c. cmp a b < 0 \<Longrightarrow> cmp b c < 0 \<Longrightarrow> cmp a c < 0" and "\<And>a b. 0 < cmp a b \<longleftrightarrow> cmp b a < 0"
    and "sorted_wrt (\<lambda>a b. cmp a b \<noteq> 0) ks"
  shows "\<exists>sl first ks'. insert_keys (skip_Insert cmp) (make_SkipList any_key) ks = Some sl \<and>
    iter_SeekToFirst sl = Some first \<and> traverse (Suc (length ks)) sl first = Some ks' \<and>
    sorted_wrt (\<lambda>a b. cmp a b < 0) ks' \<and> mset ks' = mset ks"
proof -
  have "skip_order cmp (\<lambda>k. True)" by (rule skip_order.intro) (use assms(1,2) in blast)+
  then show ?thesis by (rule skip_order.inserted_sorted) (use assms(3) in \<open>simp_all add: list_all_iff\<close>)
qed

lemma skip_list_sorts_witness:
  "\<exists>sl first ks'. insert_keys (skip_Insert (\<lambda>a b. a - b)) (make_SkipList 0) [3, 1, 2 :: int] = Some sl \<and>
    iter_SeekToFirst sl = Some first \<and> traverse (Suc (length [3, 1, 2 :: int])) sl first = Some ks' \<and>
    sorted_wrt (\<lambda>a b. a - b < 0) ks' \<and> mset ks' = mset [3, 1, 2]"
  by (rule skip_list_sorts) simp_all

end
