(* ===== verification/LdbSkipReaders.thy ===== *)
theory LdbSkipReaders
  imports LdbSkipList
begin

text \<open>
  Readers of a skip list while it grows (\<open>leveldb-library/db/skiplist.h\<close>, "Thread safety"): writes are
  serialised from outside, reads need no lock. The state is the list, the writer with its place in
  \<open>Insert\<close>, and any number of readers with their place in \<open>FindGreaterOrEqual\<close>. A step is one load
  or store of a link, and the steps of all of them interleave freely; loads and stores are taken to
  be sequentially consistent, which acquire and release on one link at a time guarantee here.
  Undefined behaviour is a state of its own.

  The invariant gives a node that is being inserted its place in the order, with as many levels as
  are published; a reader on a level is on a node that has it.
\<close>

section \<open>Steps\<close>

datatype writer =
    W_Idle
  | W_Link nat prev_array nat nat
  | W_Publish nat prev_array nat nat
  | W_Undefined

datatype 'k reader =
    R_Idle
  | R_Search 'k nat nat
  | R_Done 'k node_ptr
  | R_Undefined

type_synonym 'k skip_state = "'k skip_list \<times> writer \<times> (nat \<Rightarrow> 'k reader)"

text \<open>One round of the loop of \<open>FindGreaterOrEqual\<close> without \<open>prev\<close>: one load.\<close>

definition reader_round :: "('k \<Rightarrow> 'k \<Rightarrow> int) \<Rightarrow> 'k skip_list \<Rightarrow> 'k \<Rightarrow> nat \<Rightarrow> nat \<Rightarrow> 'k reader" where
  "reader_round cmp sl k x level =
     (case node_Next sl x level of
        None \<Rightarrow> R_Undefined
      | Some next \<Rightarrow>
          if KeyIsAfterNode cmp sl k next then R_Search k (the next) level
          else if level = 0 then R_Done k next
          else R_Search k x (level - 1))"

text \<open>
  The caller's part: it inserts only keys that are not there. The search of the writer is one step,
  as no one else changes what it reads.
\<close>

inductive skip_step :: "('k \<Rightarrow> 'k \<Rightarrow> int) \<Rightarrow> ('k \<Rightarrow> bool) \<Rightarrow> 'k skip_state \<Rightarrow> 'k skip_state \<Rightarrow> bool"
  for cmp :: "'k \<Rightarrow> 'k \<Rightarrow> int" and valid :: "'k \<Rightarrow> bool"
where
  insert_begins: "valid k \<Longrightarrow> Contains cmp sl k \<noteq> Some True \<Longrightarrow>
     prepare_insert cmp sl k = Some (x, height, prev, sl') \<Longrightarrow>
     skip_step cmp valid (sl, W_Idle, rs) (sl', W_Link x prev 0 height, rs)"
| insert_undefined: "valid k \<Longrightarrow> prepare_insert cmp sl k = None \<Longrightarrow>
     skip_step cmp valid (sl, W_Idle, rs) (sl, W_Undefined, rs)"
| link_stored: "prev ! i = Some p \<Longrightarrow> link_node sl x i p = Some sl' \<Longrightarrow>
     skip_step cmp valid (sl, W_Link x prev i height, rs) (sl', W_Publish x prev i height, rs)"
| link_undefined: "Option.bind (prev ! i) (link_node sl x i) = None \<Longrightarrow>
     skip_step cmp valid (sl, W_Link x prev i height, rs) (sl, W_Undefined, rs)"
| node_published: "prev ! i = Some p \<Longrightarrow> publish_node sl x i p = Some sl' \<Longrightarrow>
     skip_step cmp valid (sl, W_Publish x prev i height, rs)
       (sl', if i + 1 < height then W_Link x prev (i + 1) height else W_Idle, rs)"
| publish_undefined: "Option.bind (prev ! i) (publish_node sl x i) = None \<Longrightarrow>
     skip_step cmp valid (sl, W_Publish x prev i height, rs) (sl, W_Undefined, rs)"
| search_begins: "valid k \<Longrightarrow> rs r = R_Idle \<Longrightarrow>
     skip_step cmp valid (sl, w, rs) (sl, w, rs(r := R_Search k sl_head (GetMaxHeight sl - 1)))"
| search_moves: "rs r = R_Search k x level \<Longrightarrow>
     skip_step cmp valid (sl, w, rs) (sl, w, rs(r := reader_round cmp sl k x level))"
| search_returns: "rs r = R_Done k y \<Longrightarrow>
     skip_step cmp valid (sl, w, rs) (sl, w, rs(r := R_Idle))"

inductive_cases skip_stepE: "skip_step cmp valid (sl, w, rs) s'"

definition skip_init :: "'k \<Rightarrow> 'k skip_state" where
  "skip_init any_key = (make_SkipList any_key, W_Idle, \<lambda>r. R_Idle)"

abbreviation skip_reachable where
  "skip_reachable cmp valid any_key \<equiv> (skip_step cmp valid)\<^sup>*\<^sup>* (skip_init any_key)"

text \<open>The nodes that are in the list now: those on the lowest level, from a node on.\<close>

primrec walk :: "nat \<Rightarrow> 'k skip_list \<Rightarrow> nat \<Rightarrow> nat list option" where
  "walk 0 sl x = None"
| "walk (Suc n) sl x =
     Option.bind (node_Next sl x 0) (\<lambda>next.
       case next of None \<Rightarrow> Some [] | Some y \<Rightarrow> map_option ((#) y) (walk n sl y))"

section \<open>The invariant\<close>

fun reader_ok :: "('k \<Rightarrow> 'k \<Rightarrow> int) \<Rightarrow> ('k \<Rightarrow> bool) \<Rightarrow> 'k skip_list \<Rightarrow> (nat \<Rightarrow> nat) \<Rightarrow> nat list \<Rightarrow> 'k reader \<Rightarrow> bool" where
  "reader_ok cmp valid sl eff xs (R_Search k x l) \<longleftrightarrow>
     valid k \<and> x \<in> set (0 # xs) \<and> l < eff x \<and> (x = 0 \<or> cmp (node_key_at sl x) k < 0)"
| "reader_ok cmp valid sl eff xs R_Undefined \<longleftrightarrow> False"
| "reader_ok cmp valid sl eff xs _ \<longleftrightarrow> True"

text \<open>What holds at all times: \<open>skip_inv\<close> but for nodes that are linked nowhere yet.\<close>

definition shared_inv :: "('k \<Rightarrow> 'k \<Rightarrow> int) \<Rightarrow> ('k \<Rightarrow> bool) \<Rightarrow> 'k skip_list \<Rightarrow> (nat \<Rightarrow> nat) \<Rightarrow> nat list \<Rightarrow> bool" where
  "shared_inv cmp valid sl eff xs \<longleftrightarrow>
     distinct (0 # xs) \<and> linked sl eff (0 # xs) \<and> eff 0 = kMaxHeight \<and>
     1 \<le> sl_max_height sl \<and> sl_max_height sl \<le> kMaxHeight \<and> (\<forall>x \<in> set xs. eff x \<le> sl_max_height sl) \<and>
     sorted_wrt (\<lambda>x y. cmp (node_key_at sl x) (node_key_at sl y) < 0) xs \<and>
     (\<forall>x \<in> set xs. valid (node_key_at sl x))"

definition writer_at :: "'k skip_list \<Rightarrow> (nat \<Rightarrow> nat) \<Rightarrow> nat list \<Rightarrow> nat \<Rightarrow> prev_array \<Rightarrow> nat \<Rightarrow> nat \<Rightarrow> nat list \<Rightarrow> bool" where
  "writer_at sl eff as n prev i h ds \<longleftrightarrow>
     i < h \<and> h \<le> sl_max_height sl \<and> n < length (sl_nodes sl) \<and> h = length (node_next (sl_nodes sl ! n)) \<and>
     (\<forall>x \<in> set as \<union> set ds. 0 < eff x) \<and>
     (\<forall>j < h. prev ! j = Some (last_at eff j (0 # as)) \<and> (\<exists>y \<in> set (0 # as). j < eff y))"

fun writer_ok :: "'k skip_list \<Rightarrow> (nat \<Rightarrow> nat) \<Rightarrow> nat list \<Rightarrow> writer \<Rightarrow> bool" where
  "writer_ok sl eff xs W_Idle \<longleftrightarrow> (\<forall>x \<in> set xs. 0 < eff x)"
| "writer_ok sl eff xs (W_Link n prev i h) \<longleftrightarrow>
     (\<exists>eff0 as ds. eff = eff0(n := i) \<and> xs = as @ n # ds \<and> writer_at sl eff0 as n prev i h ds)"
| "writer_ok sl eff xs (W_Publish n prev i h) \<longleftrightarrow>
     (\<exists>eff0 as ds. eff = eff0(n := i) \<and> xs = as @ n # ds \<and> writer_at sl eff0 as n prev i h ds \<and>
        node_Next sl n i = Some (find (\<lambda>y. i < eff0 y) ds))"
| "writer_ok sl eff xs W_Undefined \<longleftrightarrow> False"

fun conc_inv :: "('k \<Rightarrow> 'k \<Rightarrow> int) \<Rightarrow> ('k \<Rightarrow> bool) \<Rightarrow> 'k skip_state \<Rightarrow> bool" where
  "conc_inv cmp valid (sl, w, rs) \<longleftrightarrow>
     (\<exists>eff xs. shared_inv cmp valid sl eff xs \<and> writer_ok sl eff xs w \<and> (\<forall>r. reader_ok cmp valid sl eff xs (rs r)))"

lemma shared_idle:
  "shared_inv cmp valid sl eff xs \<and> writer_ok sl eff xs W_Idle \<longleftrightarrow>
     skip_inv cmp sl eff xs \<and> (\<forall>x \<in> set xs. valid (node_key_at sl x))"
  by (auto simp: shared_inv_def skip_inv_def)

text \<open>Readers do not mind nodes that come in or get more levels.\<close>

lemma reader_ok_mono:
  assumes "reader_ok cmp valid sl eff xs r" and "set xs \<subseteq> set ys"
    and "\<And>x. x \<in> set (0 # xs) \<Longrightarrow> eff x \<le> eff' x"
    and "\<And>x. x \<in> set xs \<Longrightarrow> node_key_at sl' x = node_key_at sl x"
  shows "reader_ok cmp valid sl' eff' ys r"
proof (cases r)
  case (R_Search k x l)
  then have "l < eff' x" using assms(1) assms(3) [of x] by auto
  then show ?thesis using assms R_Search by auto
qed (use assms(1) in simp_all)

lemma shared_relink:
  assumes "shared_inv cmp valid sl eff xs" and "linked sl' eff' (0 # xs)" and "same_but_links sl sl'"
    and "eff' 0 = kMaxHeight" and "\<forall>x \<in> set xs. eff' x \<le> sl_max_height sl"
  shows "shared_inv cmp valid sl' eff' xs"
  using assms unfolding shared_inv_def same_but_links_def by (simp del: linked.simps)

lemma writer_parts:
  assumes "shared_inv cmp valid sl eff xs" and "eff = eff0(n := i)" and "xs = as @ n # ds"
    and "writer_at sl eff0 as n prev i h ds"
  shows "linked sl (eff0(n := i)) ((0 # as) @ n # ds)" and "distinct ((0 # as) @ n # ds)"
    and "\<exists>y \<in> set (0 # as). i < eff0 y" and "n < length (sl_nodes sl)"
    and "i < length (node_next (sl_nodes sl ! n))" and "prev ! i = Some (last_at eff0 i (0 # as))"
    and "n \<noteq> 0" and "eff 0 = kMaxHeight" and "\<forall>x \<in> set xs. eff x \<le> sl_max_height sl"
    and "i < h" and "h \<le> sl_max_height sl"
proof -
  have "distinct (0 # xs)" "linked sl eff (0 # xs)" using assms(1) unfolding shared_inv_def by blast+
  then show "linked sl (eff0(n := i)) ((0 # as) @ n # ds)" "distinct ((0 # as) @ n # ds)" "n \<noteq> 0"
    unfolding assms(2,3) append_Cons by auto
  show "eff 0 = kMaxHeight" "\<forall>x \<in> set xs. eff x \<le> sl_max_height sl"
    using assms(1) unfolding shared_inv_def by blast+
  show "\<exists>y \<in> set (0 # as). i < eff0 y" "n < length (sl_nodes sl)" "i < length (node_next (sl_nodes sl ! n))"
    "prev ! i = Some (last_at eff0 i (0 # as))" "i < h" "h \<le> sl_max_height sl"
    using assms(4) unfolding writer_at_def by blast+
qed

context skip_order
begin

lemma shared_prefix:
  assumes "shared_inv cmp valid sl eff xs" and "valid k"
  shows "prefix_closed (before sl k) xs"
proof -
  have "sorted_wrt (\<lambda>x y. cmp (node_key_at sl x) (node_key_at sl y) < 0) xs"
    "\<forall>x \<in> set xs. valid (node_key_at sl x)" using assms(1) by (simp_all add: shared_inv_def)
  then show ?thesis
    unfolding prefix_closed_def
    by (elim sorted_wrt_mono_rel [rotated]) (use assms(2) less_trans in blast)
qed

lemma round_ok:
  assumes "shared_inv cmp valid sl eff xs" and "reader_ok cmp valid sl eff xs (R_Search k x l)"
  shows "reader_ok cmp valid sl eff xs (reader_round cmp sl k x l)"
proof -
  obtain us vs where xs: "0 # xs = us @ x # vs" using assms(2) split_list [of x "0 # xs"] by auto
  then have sub: "set vs \<subseteq> set xs" by (cases us) auto
  have "linked sl eff (us @ x # vs)" using assms(1) unfolding xs [symmetric] by (simp add: shared_inv_def)
  from linked_Next [OF this, of l] have Next: "node_Next sl x l = Some (find (\<lambda>y. l < eff y) vs)"
    using assms(2) by simp
  show ?thesis
  proof (cases "find (\<lambda>y. l < eff y) vs")
    case None
    then show ?thesis using Next assms(2) by (auto simp: reader_round_def KeyIsAfterNode_def)
  next
    case (Some y)
    then have "y \<in> set xs" "l < eff y" using sub find_Some_split [OF Some] by auto
    then show ?thesis using Next assms(2) Some by (auto simp: reader_round_def KeyIsAfterNode_def)
  qed
qed

lemma link_ok:
  assumes "shared_inv cmp valid sl eff xs" and "writer_ok sl eff xs (W_Link n prev i h)"
  shows "\<exists>sl1 p. prev ! i = Some p \<and> link_node sl n i p = Some sl1 \<and>
    shared_inv cmp valid sl1 eff xs \<and> writer_ok sl1 eff xs (W_Publish n prev i h) \<and> node_key_at sl1 = node_key_at sl"
proof -
  obtain eff0 as ds where e: "eff = eff0(n := i)" "xs = as @ n # ds" "writer_at sl eff0 as n prev i h ds"
    using assms(2) by auto
  note w = writer_parts [OF assms(1) e]
  obtain sl1 where sl1: "link_node sl n i (last_at eff0 i (0 # as)) = Some sl1"
    "node_SetNext sl n i (find (\<lambda>y. i < eff0 y) ds) = Some sl1"
    "linked sl1 (eff0(n := i)) ((0 # as) @ n # ds)" "node_Next sl1 n i = Some (find (\<lambda>y. i < eff0 y) ds)"
    using link_node_step [OF w(1-5)] by blast
  have same: "same_but_links sl sl1" by (rule same_but_links_SetNext [OF sl1(2)])
  have "shared_inv cmp valid sl1 eff xs"
    using shared_relink [OF assms(1) _ same w(8,9)] sl1(3) unfolding e(1,2) append_Cons .
  moreover have "writer_ok sl1 eff xs (W_Publish n prev i h)"
  proof -
    have "writer_at sl1 eff0 as n prev i h ds" using e(3) same by (simp add: writer_at_def same_but_links_def)
    then show ?thesis unfolding writer_ok.simps using e(1,2) sl1(4) by blast
  qed
  ultimately show ?thesis using w(6) sl1(1) same by (auto simp: same_but_links_def)
qed

lemma publish_ok:
  assumes "shared_inv cmp valid sl eff xs" and "writer_ok sl eff xs (W_Publish n prev i h)"
  shows "\<exists>sl2 p. prev ! i = Some p \<and> publish_node sl n i p = Some sl2 \<and>
    shared_inv cmp valid sl2 (eff(n := Suc i)) xs \<and>
    writer_ok sl2 (eff(n := Suc i)) xs (if i + 1 < h then W_Link n prev (i + 1) h else W_Idle) \<and>
    node_key_at sl2 = node_key_at sl \<and> n \<in> set xs \<and> eff n = i"
proof -
  obtain eff0 as ds where e: "eff = eff0(n := i)" "xs = as @ n # ds" "writer_at sl eff0 as n prev i h ds"
    "node_Next sl n i = Some (find (\<lambda>y. i < eff0 y) ds)"
    using assms(2) by auto
  note w = writer_parts [OF assms(1) e(1-3)]
  obtain sl2 where sl2: "publish_node sl n i (last_at eff0 i (0 # as)) = Some sl2"
    "linked sl2 (eff0(n := Suc i)) ((0 # as) @ n # ds)" "same_but_links sl sl2"
    using publish_node_step [OF w(1,2) e(4) w(3)] by blast
  have upd: "eff(n := Suc i) = eff0(n := Suc i)" by (simp add: e(1))
  have "shared_inv cmp valid sl2 (eff(n := Suc i)) xs"
  proof (rule shared_relink [OF assms(1) _ sl2(3)])
    show "linked sl2 (eff(n := Suc i)) (0 # xs)" unfolding upd e(2) using sl2(2) unfolding append_Cons .
  qed (use w(7-11) in auto)
  moreover have "writer_ok sl2 (eff(n := Suc i)) xs (if i + 1 < h then W_Link n prev (i + 1) h else W_Idle)"
  proof (cases "i + 1 < h")
    case True
    then have "writer_at sl2 eff0 as n prev (Suc i) h ds"
      using e(3) sl2(3) by (simp add: writer_at_def same_but_links_def)
    then have "writer_ok sl2 (eff(n := Suc i)) xs (W_Link n prev (Suc i) h)"
      unfolding writer_ok.simps upd using e(2) by blast
    then show ?thesis using True by simp
  next
    case False
    have "0 < (eff(n := Suc i)) x" if "x \<in> set xs" for x
      using e(3) that unfolding upd e(2) writer_at_def by auto
    then show ?thesis using False by simp
  qed
  ultimately show ?thesis using w(6) sl2(1,3) e(1,2) by (auto simp: same_but_links_def)
qed

lemma begin_ok:
  assumes "shared_inv cmp valid sl eff xs" and "writer_ok sl eff xs W_Idle" and "valid k"
  shows "\<exists>n h prev sl'. prepare_insert cmp sl k = Some (n, h, prev, sl') \<and>
    (Contains cmp sl k \<noteq> Some True \<longrightarrow>
      (\<exists>as ds. xs = as @ ds \<and> n \<notin> set (0 # xs) \<and> shared_inv cmp valid sl' (eff(n := 0)) (as @ n # ds) \<and>
      writer_ok sl' (eff(n := 0)) (as @ n # ds) (W_Link n prev 0 h))) \<and>
    (\<forall>x \<in> set xs. node_key_at sl' x = node_key_at sl x)"
proof -
  have inv: "skip_inv cmp sl eff xs" "\<forall>x \<in> set xs. valid (node_key_at sl x)"
    using shared_idle assms(1,2) by blast+
  show ?thesis
  proof (rule prepare [OF inv assms(3)])
    fix n h prev sl'
    let ?A = "takeWhile (before sl k) xs" and ?D = "dropWhile (before sl k) xs"
    assume p: "prepare_insert cmp sl k = Some (n, h, prev, sl')"
      and link: "linked sl' (eff(n := 0)) ((0 # ?A) @ n # ?D)"
      and n: "n \<notin> set (0 # xs)" "n < length (sl_nodes sl')" and h: "h = length (node_next (sl_nodes sl' ! n))"
      and b: "1 \<le> h" "h \<le> sl_max_height sl'" "sl_max_height sl \<le> sl_max_height sl'" "sl_max_height sl' \<le> kMaxHeight"
      and key: "node_key_at sl' n = k" "\<forall>x \<in> set xs. node_key_at sl' x = node_key_at sl x"
      and prev: "\<And>j. j < h \<Longrightarrow> prev ! j = Some (last_at eff j (0 # ?A)) \<and> (\<exists>y \<in> set (0 # ?A). j < eff y)"
    have xs: "set ?A \<union> set ?D = set xs" unfolding set_append [symmetric] takeWhile_dropWhile_id ..
    have new: "shared_inv cmp valid sl' (eff(n := 0)) (?A @ n # ?D) \<and>
        writer_ok sl' (eff(n := 0)) (?A @ n # ?D) (W_Link n prev 0 h)" if "Contains cmp sl k \<noteq> Some True"
    proof
      have "\<not> (\<exists>x \<in> set xs. cmp k (node_key_at sl x) = 0)"
        using that Contains_iff [OF inv assms(3)] by simp
      then have fresh: "\<forall>x \<in> set xs. cmp (node_key_at sl x) k \<noteq> 0"
        using greater inv(2) assms(3) by (metis less_irrefl linorder_neqE_linordered_idom)
      have "distinct ((0 # ?A) @ ?D)" "n \<notin> set ((0 # ?A) @ ?D)"
        using inv(1) n(1) unfolding append_Cons takeWhile_dropWhile_id by (simp_all add: skip_inv_def)
      then have d: "distinct ((0 # ?A) @ n # ?D)" by (rule distinct_insert)
      have e: "eff 0 = kMaxHeight" "1 \<le> sl_max_height sl" "\<forall>x \<in> set xs. 0 < eff x \<and> eff x \<le> sl_max_height sl"
        using inv(1) by (simp_all add: skip_inv_def)
      show "shared_inv cmp valid sl' (eff(n := 0)) (?A @ n # ?D)"
        unfolding shared_inv_def
      proof (intro conjI)
        show "distinct (0 # ?A @ n # ?D)" using d by simp
        show "linked sl' (eff(n := 0)) (0 # ?A @ n # ?D)" using link unfolding append_Cons .
        show "(eff(n := 0)) 0 = kMaxHeight" using e(1) n(1) by simp
        show "1 \<le> sl_max_height sl'" "sl_max_height sl' \<le> kMaxHeight" using b e(2) by linarith+
        show "\<forall>x \<in> set (?A @ n # ?D). (eff(n := 0)) x \<le> sl_max_height sl'"
          using e(3) b(3) xs by fastforce
        show "sorted_wrt (\<lambda>x y. cmp (node_key_at sl' x) (node_key_at sl' y) < 0) (?A @ n # ?D)"
          by (rule sorted_with_new [OF inv assms(3) fresh key])
        show "\<forall>x \<in> set (?A @ n # ?D). valid (node_key_at sl' x)"
          using key inv(2) assms(3) xs by fastforce
      qed
      have "writer_at sl' eff ?A n prev 0 h ?D"
        unfolding writer_at_def xs
      proof (intro conjI allI impI)
        show "0 < h" using b(1) by simp
        show "\<forall>x \<in> set xs. 0 < eff x" using e(3) by simp
      qed (use b(2) n(2) h prev in blast)+
      then show "writer_ok sl' (eff(n := 0)) (?A @ n # ?D) (W_Link n prev 0 h)"
        unfolding writer_ok.simps by blast
    qed
    show ?thesis
      using p new n(1) key(2) takeWhile_dropWhile_id [of "before sl k" xs, symmetric] by blast
  qed
qed

lemma conc_step:
  assumes "conc_inv cmp valid s" and "skip_step cmp valid s s'"
  shows "conc_inv cmp valid s'"
  using assms(2,1)
proof (cases rule: skip_step.cases)
  case (insert_begins k sl x height prev sl' rs)
  then obtain eff xs where i: "shared_inv cmp valid sl eff xs" "writer_ok sl eff xs W_Idle"
    "\<forall>r. reader_ok cmp valid sl eff xs (rs r)" using assms(1) by auto
  obtain as ds where
    b: "xs = as @ ds" "x \<notin> set (0 # xs)" "shared_inv cmp valid sl' (eff(x := 0)) (as @ x # ds)"
      "writer_ok sl' (eff(x := 0)) (as @ x # ds) (W_Link x prev 0 height)"
      "\<forall>x \<in> set xs. node_key_at sl' x = node_key_at sl x"
    using begin_ok [OF i(1,2) insert_begins(3)] insert_begins(4) unfolding insert_begins(5) option.inject prod.inject
    by blast
  have "reader_ok cmp valid sl' (eff(x := 0)) (as @ x # ds) (rs r)" for r
    by (rule reader_ok_mono [OF i(3) [rule_format, of r]]) (use b in auto)
  then show ?thesis unfolding insert_begins(2) conc_inv.simps using b(3,4) by blast
next
  case (insert_undefined k sl rs)
  then obtain eff xs where i: "shared_inv cmp valid sl eff xs" "writer_ok sl eff xs W_Idle" using assms(1) by auto
  then show ?thesis using begin_ok [OF i insert_undefined(3)] insert_undefined(4) by auto
next
  case (link_stored prev i p sl x sl' height rs)
  then obtain eff xs where i: "shared_inv cmp valid sl eff xs" "writer_ok sl eff xs (W_Link x prev i height)"
    "\<forall>r. reader_ok cmp valid sl eff xs (rs r)" using assms(1) by (auto simp only: conc_inv.simps)
  from link_ok [OF i(1,2)] link_stored(3,4) have l: "shared_inv cmp valid sl' eff xs"
    "writer_ok sl' eff xs (W_Publish x prev i height)" "node_key_at sl' = node_key_at sl" by auto
  have "reader_ok cmp valid sl' eff xs (rs r)" for r
    by (rule reader_ok_mono [OF i(3) [rule_format, of r]]) (use l(3) in auto)
  then show ?thesis unfolding link_stored(2) conc_inv.simps using l(1,2) by blast
next
  case (link_undefined prev i sl x height rs)
  then obtain eff xs where i: "shared_inv cmp valid sl eff xs" "writer_ok sl eff xs (W_Link x prev i height)"
    using assms(1) by (auto simp only: conc_inv.simps)
  from link_ok [OF this] link_undefined(3) show ?thesis by auto
next
  case (node_published prev i p sl x sl' height rs)
  then obtain eff xs where i: "shared_inv cmp valid sl eff xs" "writer_ok sl eff xs (W_Publish x prev i height)"
    "\<forall>r. reader_ok cmp valid sl eff xs (rs r)" using assms(1) by (auto simp only: conc_inv.simps)
  from publish_ok [OF i(1,2)] node_published(3,4) have l: "shared_inv cmp valid sl' (eff(x := Suc i)) xs"
    "writer_ok sl' (eff(x := Suc i)) xs (if i + 1 < height then W_Link x prev (i + 1) height else W_Idle)"
    "node_key_at sl' = node_key_at sl" "eff x = i" by auto
  have "reader_ok cmp valid sl' (eff(x := Suc i)) xs (rs r)" for r
    by (rule reader_ok_mono [OF i(3) [rule_format, of r]]) (use l(3,4) in auto)
  then show ?thesis unfolding node_published(2) conc_inv.simps using l(1,2) by blast
next
  case (publish_undefined prev i sl x height rs)
  then obtain eff xs where i: "shared_inv cmp valid sl eff xs" "writer_ok sl eff xs (W_Publish x prev i height)"
    using assms(1) by (auto simp only: conc_inv.simps)
  from publish_ok [OF this] publish_undefined(3) show ?thesis by auto
next
  case (search_begins k rs r sl w)
  then obtain eff xs where i: "shared_inv cmp valid sl eff xs" "writer_ok sl eff xs w"
    "\<forall>r. reader_ok cmp valid sl eff xs (rs r)" using assms(1) by (auto simp only: conc_inv.simps)
  then have "GetMaxHeight sl - 1 < eff 0" by (auto simp: shared_inv_def GetMaxHeight_def)
  then show ?thesis using i search_begins by auto
next
  case (search_moves rs r k x level sl w)
  then obtain eff xs where i: "shared_inv cmp valid sl eff xs" "writer_ok sl eff xs w"
    "\<forall>r. reader_ok cmp valid sl eff xs (rs r)" using assms(1) by (auto simp only: conc_inv.simps)
  have "reader_ok cmp valid sl eff xs (R_Search k x level)" using i(3) search_moves(3) by metis
  from round_ok [OF i(1) this] i search_moves show ?thesis by auto
next
  case (search_returns rs r k y sl w)
  then obtain eff xs where i: "shared_inv cmp valid sl eff xs" "writer_ok sl eff xs w"
    "\<forall>r. reader_ok cmp valid sl eff xs (rs r)" using assms(1) by (auto simp only: conc_inv.simps)
  then show ?thesis using search_returns by auto
qed

lemma conc_init: "conc_inv cmp valid (skip_init any_key)"
  using skip_inv_empty [of cmp any_key] shared_idle [of cmp valid "make_SkipList any_key" "\<lambda>x. 12" "[]"]
  by (auto simp: skip_init_def simp del: writer_ok.simps intro!: exI [of _ "\<lambda>x. 12"] exI [of _ "[]"])

lemma conc_reachable: "skip_reachable cmp valid any_key s \<Longrightarrow> conc_inv cmp valid s"
  by (induction rule: rtranclp_induct) (use conc_init conc_step in blast)+

text \<open>A search that is about to return returns the first key at or after, in the list as it is then.\<close>

lemma walk_linked:
  "linked sl eff (x # ps) \<Longrightarrow> 0 < eff x \<Longrightarrow>
     walk (Suc (length (filter (\<lambda>y. 0 < eff y) ps))) sl x = Some (filter (\<lambda>y. 0 < eff y) ps)"
proof (induction "length (filter (\<lambda>y. 0 < eff y) ps)" arbitrary: x ps)
  case 0
  then have "find (\<lambda>y. 0 < eff y) ps = None" by (auto simp: find_None_iff filter_empty_conv)
  then show ?case using 0 by simp
next
  case (Suc n)
  obtain y where y: "find (\<lambda>y. 0 < eff y) ps = Some y"
    using Suc.hyps(2) by (cases "find (\<lambda>y. 0 < eff y) ps") (auto simp: find_None_iff filter_empty_conv)
  from find_Some_split [OF y] obtain us vs where ps: "ps = us @ y # vs" "0 < eff y" "\<forall>u \<in> set us. \<not> 0 < eff u"
    by blast
  then have f: "filter (\<lambda>y. 0 < eff y) ps = y # filter (\<lambda>y. 0 < eff y) vs" by (simp add: filter_False)
  have "linked sl eff (y # vs)" using Suc.prems(1) linked_append [of sl eff "x # us" "y # vs"] ps(1) by simp
  then have "walk (Suc (length (filter (\<lambda>y. 0 < eff y) vs))) sl y = Some (filter (\<lambda>y. 0 < eff y) vs)"
    using Suc.hyps f ps(2) by (intro Suc.hyps(1)) auto
  moreover have "node_Next sl x 0 = Some (Some y)" using Suc.prems y by simp
  ultimately show ?case by (simp add: f)
qed

lemma find_filter: "find P (filter Q xs) = find (\<lambda>x. Q x \<and> P x) xs"
  by (induction xs) simp_all

lemma returns_first:
  assumes "shared_inv cmp valid sl eff xs" and "reader_ok cmp valid sl eff xs (R_Search k x l)"
    and "reader_round cmp sl k x l = R_Done k' next"
  shows "k' = k \<and> next = find (\<lambda>y. \<not> before sl k y) (filter (\<lambda>y. 0 < eff y) xs)"
proof -
  obtain us vs where xs: "0 # xs = us @ x # vs" using assms(2) split_list [of x "0 # xs"] by auto
  have "linked sl eff (us @ x # vs)" using assms(1) unfolding xs [symmetric] by (simp add: shared_inv_def)
  from linked_Next [OF this, of l] have Next: "node_Next sl x l = Some (find (\<lambda>y. l < eff y) vs)"
    using assms(2) by simp
  then have r: "l = 0" "k' = k" "next = find (\<lambda>y. 0 < eff y) vs" "\<not> KeyIsAfterNode cmp sl k next"
    using assms(3) by (auto simp: reader_round_def split: if_splits)
  have split: "find (\<lambda>y. 0 < eff y \<and> \<not> before sl k y) xs = find (\<lambda>y. 0 < eff y \<and> \<not> before sl k y) vs"
  proof (cases us)
    case Nil
    then show ?thesis using xs by simp
  next
    case (Cons u us')
    then have x: "xs = us' @ x # vs" "x \<noteq> 0" using xs assms(1) by (auto simp: shared_inv_def)
    then have "before sl k x" using assms(2) by simp
    moreover from this have "\<forall>w \<in> set us'. before sl k w"
      using prefix_closed_append [of "before sl k" us' x vs] shared_prefix [OF assms(1), of k] assms(2)
      unfolding x(1) by simp
    then have "find (\<lambda>y. 0 < eff y \<and> \<not> before sl k y) us' = None" by (auto simp: find_None_iff)
    ultimately show ?thesis by (simp add: x(1) find_append)
  qed
  have "find (\<lambda>y. 0 < eff y \<and> \<not> before sl k y) vs = find (\<lambda>y. 0 < eff y) vs"
  proof (cases "find (\<lambda>y. 0 < eff y) vs")
    case None
    then have "find (\<lambda>y. 0 < eff y \<and> \<not> before sl k y) vs = None" by (auto simp: find_None_iff)
    then show ?thesis using None by simp
  next
    case (Some y)
    from find_Some_split [OF Some] obtain ps qs where vs: "vs = ps @ y # qs" "0 < eff y" "\<forall>u \<in> set ps. \<not> 0 < eff u"
      by blast
    then have "find (\<lambda>y. 0 < eff y \<and> \<not> before sl k y) ps = None" by (auto simp: find_None_iff)
    moreover have "\<not> before sl k y" using r(3,4) Some by (simp add: KeyIsAfterNode_def)
    ultimately show ?thesis using vs(2) Some by (simp add: vs(1) find_append)
  qed
  then show ?thesis using r(2,3) split by (simp add: find_filter)
qed

lemma walk_shared:
  assumes "shared_inv cmp valid sl eff xs"
  shows "\<exists>n. walk n sl 0 = Some (filter (\<lambda>y. 0 < eff y) xs)"
proof -
  have "linked sl eff (0 # xs)" "0 < eff 0" using assms unfolding shared_inv_def by simp_all
  from walk_linked [OF this] show ?thesis by blast
qed

lemma search_result:
  assumes "skip_reachable cmp valid any_key (sl, w, rs)" and "rs r = R_Search k x l"
    and "reader_round cmp sl k x l = R_Done k' next"
  shows "\<exists>n xs. walk n sl sl_head = Some xs \<and> sorted_wrt (\<lambda>x y. cmp (node_key_at sl x) (node_key_at sl y) < 0) xs \<and>
    k' = k \<and> next = find (\<lambda>y. \<not> cmp (node_key_at sl y) k < 0) xs"
proof -
  obtain eff xs where i: "shared_inv cmp valid sl eff xs" "\<forall>r. reader_ok cmp valid sl eff xs (rs r)"
    using conc_reachable [OF assms(1)] by auto
  have "reader_ok cmp valid sl eff xs (R_Search k x l)" using i(2) assms(2) by metis
  note result = returns_first [OF i(1) this assms(3)]
  have "sorted_wrt (\<lambda>x y. cmp (node_key_at sl x) (node_key_at sl y) < 0) (filter (\<lambda>y. 0 < eff y) xs)"
    using i(1) by (simp add: shared_inv_def sorted_wrt_filter)
  then show ?thesis using walk_shared [OF i(1)] result by auto
qed

end

text \<open>
  C25. Readers need no lock: in every interleaving of one writer with any number of readers, no one
  reads a link that is not there or not yet initialised, and no insertion goes wrong.
\<close>
theorem skip_readers_safe:
  assumes "\<And>a b c. valid a \<Longrightarrow> valid b \<Longrightarrow> valid c \<Longrightarrow> cmp a b < 0 \<Longrightarrow> cmp b c < 0 \<Longrightarrow> cmp a c < 0"
    and "\<And>a b. valid a \<Longrightarrow> valid b \<Longrightarrow> 0 < cmp a b \<longleftrightarrow> cmp b a < 0"
    and "(skip_step cmp valid)\<^sup>*\<^sup>* (skip_init any_key) (sl, w, rs)"
  shows "w \<noteq> W_Undefined \<and> (\<forall>r. rs r \<noteq> R_Undefined)"
proof -
  have "skip_order cmp valid" by (rule skip_order.intro) (use assms(1,2) in blast)+
  then have "conc_inv cmp valid (sl, w, rs)" using assms(3) by (rule skip_order.conc_reachable)
  then obtain eff xs where "writer_ok sl eff xs w" "\<forall>r. reader_ok cmp valid sl eff xs (rs r)" by auto
  then show ?thesis by (metis reader_ok.simps(2) writer_ok.simps(4))
qed

text \<open>
  C26. What a search returns among concurrent insertions: the first node whose key is not before the
  one looked for, in the list as it is when the search reads its last link; and the list is in order
  at that moment, whatever is half inserted.
\<close>
theorem skip_search_linearizes:
  assumes "\<And>a b c. valid a \<Longrightarrow> valid b \<Longrightarrow> valid c \<Longrightarrow> cmp a b < 0 \<Longrightarrow> cmp b c < 0 \<Longrightarrow> cmp a c < 0"
    and "\<And>a b. valid a \<Longrightarrow> valid b \<Longrightarrow> 0 < cmp a b \<longleftrightarrow> cmp b a < 0"
    and "(skip_step cmp valid)\<^sup>*\<^sup>* (skip_init any_key) (sl, w, rs)"
    and "rs r = R_Search k x l" and "reader_round cmp sl k x l = R_Done k' next"
  shows "\<exists>n xs. walk n sl sl_head = Some xs \<and> sorted_wrt (\<lambda>x y. cmp (node_key_at sl x) (node_key_at sl y) < 0) xs \<and>
    k' = k \<and> next = find (\<lambda>y. \<not> cmp (node_key_at sl y) k < 0) xs"
proof -
  have "skip_order cmp valid" by (rule skip_order.intro) (use assms(1,2) in blast)+
  then show ?thesis using assms(3-5) by (rule skip_order.search_result)
qed

lemma reader_started:
  "(skip_step (\<lambda>a b. a - b) (\<lambda>k. True))\<^sup>*\<^sup>* (skip_init 0)
     (make_SkipList 0, W_Idle, (\<lambda>r. R_Idle)(0 := R_Search (5 :: int) 0 0))"
proof -
  have "skip_step (\<lambda>a b. a - b) (\<lambda>k. True) (skip_init (0 :: int))
     (make_SkipList 0, W_Idle, (\<lambda>r. R_Idle)(0 := R_Search 5 sl_head (GetMaxHeight (make_SkipList (0 :: int)) - 1)))"
    unfolding skip_init_def by (rule search_begins) simp_all
  then show ?thesis by (simp add: GetMaxHeight_def make_SkipList_def r_into_rtranclp del: fun_upd_apply)
qed

lemma skip_readers_safe_witness:
  "W_Idle \<noteq> W_Undefined \<and> (\<forall>r. ((\<lambda>r. R_Idle)(0 := R_Search (5 :: int) 0 0)) r \<noteq> R_Undefined)"
  using skip_readers_safe [OF _ _ reader_started] by simp

lemma skip_search_linearizes_witness:
  "\<exists>n xs. walk n (make_SkipList (0 :: int)) sl_head = Some xs \<and>
    sorted_wrt (\<lambda>x y. node_key_at (make_SkipList (0 :: int)) x - node_key_at (make_SkipList 0) y < 0) xs \<and>
    5 = (5 :: int) \<and> None = find (\<lambda>y. \<not> node_key_at (make_SkipList (0 :: int)) y - 5 < 0) xs"
proof (rule skip_search_linearizes [OF _ _ reader_started, where r = 0])
  show "reader_round (\<lambda>a b. a - b) (make_SkipList (0 :: int)) 5 0 0 = R_Done 5 None"
    by (simp add: reader_round_def make_SkipList_def node_Next_def KeyIsAfterNode_def)
qed simp_all

end
