(* ===== verification/LdbArena.thy ===== *)
theory LdbArena
  imports Prelude
begin

text \<open>
  \<open>leveldb-library/util/arena.h\<close> and \<open>arena.cc\<close>: the allocator of the memtable. A pointer is the number
  of a block and an offset into it; \<open>base\<close> gives the address at which \<open>new\<close> placed each block, which
  is only looked at for alignment. Sizes are numbers below \<open>2 ^ 64\<close>; where the code adds two of them, the sum is taken
  modulo \<open>2 ^ 64\<close>. \<open>new\<close> is taken to succeed.
\<close>

definition arena_kBlockSize :: nat where "arena_kBlockSize = 4096"

type_synonym arena_ptr = "nat \<times> nat"

record arena =
  alloc_ptr :: "arena_ptr option"
  alloc_bytes_remaining :: nat
  arena_blocks :: "nat list"
  memory_usage :: nat

definition make_Arena :: arena where
  "make_Arena = \<lparr>alloc_ptr = None, alloc_bytes_remaining = 0, arena_blocks = [], memory_usage = 0\<rparr>"

text \<open>The bytes of a request, and the pointer moved past them.\<close>

definition ptr_add :: "arena_ptr option \<Rightarrow> nat \<Rightarrow> arena_ptr option" where
  "ptr_add p n = map_option (\<lambda>(b, off). (b, off + n)) p"

definition AllocateNewBlock :: "nat \<Rightarrow> arena \<Rightarrow> arena_ptr \<times> arena" where
  "AllocateNewBlock block_bytes a =
     ((length (arena_blocks a), 0),
      a\<lparr>arena_blocks := arena_blocks a @ [block_bytes], memory_usage := (memory_usage a + (block_bytes + 8)) mod 2 ^ 64\<rparr>)"

definition AllocateFallback :: "nat \<Rightarrow> arena \<Rightarrow> arena_ptr option \<times> arena" where
  "AllocateFallback bytes a =
     (if arena_kBlockSize div 4 < bytes then
        (case AllocateNewBlock bytes a of (result, a) \<Rightarrow> (Some result, a))
      else
        (case AllocateNewBlock arena_kBlockSize a of
           (p, a) \<Rightarrow>
             (Some p, a\<lparr>alloc_ptr := ptr_add (Some p) bytes, alloc_bytes_remaining := arena_kBlockSize - bytes\<rparr>)))"

definition Allocate :: "nat \<Rightarrow> arena \<Rightarrow> arena_ptr option \<times> arena" where
  "Allocate bytes a =
     (if bytes \<le> alloc_bytes_remaining a then
        (alloc_ptr a,
         a\<lparr>alloc_ptr := ptr_add (alloc_ptr a) bytes, alloc_bytes_remaining := alloc_bytes_remaining a - bytes\<rparr>)
      else AllocateFallback bytes a)"

definition arena_align :: nat where "arena_align = 8"

definition arena_address :: "(nat \<Rightarrow> nat) \<Rightarrow> arena_ptr option \<Rightarrow> nat" where
  "arena_address base p = (case p of None \<Rightarrow> 0 | Some (b, off) \<Rightarrow> base b + off)"

definition AllocateAligned :: "(nat \<Rightarrow> nat) \<Rightarrow> nat \<Rightarrow> arena \<Rightarrow> arena_ptr option \<times> arena" where
  "AllocateAligned base bytes a =
     (let current_mod = arena_address base (alloc_ptr a) mod arena_align;
          slop = (if current_mod = 0 then 0 else arena_align - current_mod);
          needed = (bytes + slop) mod 2 ^ 64
      in if needed \<le> alloc_bytes_remaining a then
           (ptr_add (alloc_ptr a) slop,
            a\<lparr>alloc_ptr := ptr_add (alloc_ptr a) needed, alloc_bytes_remaining := alloc_bytes_remaining a - needed\<rparr>)
         else AllocateFallback bytes a)"

definition MemoryUsage :: "arena \<Rightarrow> nat" where
  "MemoryUsage a = memory_usage a"

section \<open>Allocations do not overlap\<close>

datatype request = Plain nat | Aligned nat

fun request_bytes :: "request \<Rightarrow> nat" where
  "request_bytes (Plain n) = n"
| "request_bytes (Aligned n) = n"

fun serve :: "(nat \<Rightarrow> nat) \<Rightarrow> request \<Rightarrow> arena \<Rightarrow> arena_ptr option \<times> arena" where
  "serve base (Plain n) a = Allocate n a"
| "serve base (Aligned n) a = AllocateAligned base n a"

text \<open>The requests served one after the other: the results with the arena at the end.\<close>

primrec serve_all :: "(nat \<Rightarrow> nat) \<Rightarrow> request list \<Rightarrow> arena \<Rightarrow> (arena_ptr option \<times> request) list \<times> arena" where
  "serve_all base [] a = ([], a)"
| "serve_all base (r # rs) a =
     (case serve base r a of
        (p, a) \<Rightarrow> case serve_all base rs a of (ps, a) \<Rightarrow> ((p, r) # ps, a))"

text \<open>
  The free part of the current block: everything handed out before lies outside. \<open>owns a (b, i)\<close>:
  the byte \<open>i\<close> of the block \<open>b\<close> may have been handed out.
\<close>

definition free_byte :: "arena \<Rightarrow> nat \<Rightarrow> nat \<Rightarrow> bool" where
  "free_byte a b i \<longleftrightarrow>
     length (arena_blocks a) \<le> b \<or>
     (\<exists>off. alloc_ptr a = Some (b, off) \<and> off \<le> i \<and> i < off + alloc_bytes_remaining a)"

definition arena_ok :: "arena \<Rightarrow> bool" where
  "arena_ok a \<longleftrightarrow>
     (case alloc_ptr a of
        None \<Rightarrow> alloc_bytes_remaining a = 0
      | Some (b, off) \<Rightarrow> b < length (arena_blocks a) \<and> off + alloc_bytes_remaining a \<le> arena_blocks a ! b) \<and>
     memory_usage a = sum_list (map (\<lambda>n. n + 8) (arena_blocks a)) mod 2 ^ 64"

text \<open>What one call hands out: a stretch of free bytes inside one block, free no longer.\<close>

definition fresh_stretch :: "arena \<Rightarrow> arena \<Rightarrow> arena_ptr option \<Rightarrow> nat \<Rightarrow> bool" where
  "fresh_stretch a a' p n \<longleftrightarrow>
     (\<exists>b off. p = Some (b, off) \<and> b < length (arena_blocks a') \<and> off + n \<le> arena_blocks a' ! b \<and>
        (\<forall>i. off \<le> i \<and> i < off + n \<longrightarrow> free_byte a b i \<and> \<not> free_byte a' b i)) \<and>
     (\<forall>b i. free_byte a' b i \<longrightarrow> free_byte a b i) \<and>
     (\<exists>new. arena_blocks a' = arena_blocks a @ new)"

lemma make_Arena_ok: "arena_ok make_Arena"
  by (simp add: arena_ok_def make_Arena_def)

lemmas arena_defs = arena_ok_def fresh_stretch_def free_byte_def ptr_add_def

lemma Fallback_ok:
  assumes "arena_ok a" and "AllocateFallback n a = (p, a')"
  shows "arena_ok a' \<and> fresh_stretch a a' p n \<and> (\<exists>b. p = Some (b, 0))"
  using assms
  by (auto simp: AllocateFallback_def AllocateNewBlock_def arena_defs arena_kBlockSize_def nth_append mod_add_left_eq
      split: if_splits option.splits)

lemma Allocate_ok:
  assumes "arena_ok a" and "0 < n" and "Allocate n a = (p, a')"
  shows "arena_ok a' \<and> fresh_stretch a a' p n"
proof (cases "n \<le> alloc_bytes_remaining a")
  case True
  then show ?thesis
    using assms by (auto simp: Allocate_def arena_defs split: option.splits)
next
  case False
  then show ?thesis using assms Fallback_ok [OF assms(1)] by (auto simp: Allocate_def)
qed

lemma AllocateAligned_ok:
  assumes "arena_ok a" and "0 < n \<and> n + 8 \<le> 2 ^ 64" and "AllocateAligned base n a = (p, a')" and "\<And>b. base b mod 8 = 0"
  shows "arena_ok a' \<and> fresh_stretch a a' p n \<and> arena_address base p mod 8 = 0"
proof -
  let ?m = "arena_address base (alloc_ptr a) mod 8"
  let ?slop = "if ?m = 0 then 0 else 8 - ?m"
  have needed: "(n + ?slop) mod 2 ^ 64 = n + ?slop" using assms(2) by (intro mod_less) (simp split: if_split, linarith)
  have slop: "(arena_address base (alloc_ptr a) + ?slop) mod 8 = 0" by presburger
  show ?thesis
  proof (cases "n + ?slop \<le> alloc_bytes_remaining a")
    case True
    have r: "p = ptr_add (alloc_ptr a) ?slop" "a' = a\<lparr>alloc_ptr := ptr_add (alloc_ptr a) (n + ?slop),
        alloc_bytes_remaining := alloc_bytes_remaining a - (n + ?slop)\<rparr>"
      using assms(3) True unfolding AllocateAligned_def arena_align_def Let_def needed by auto
    obtain b off where ptr: "alloc_ptr a = Some (b, off)" "b < length (arena_blocks a)"
      "off + alloc_bytes_remaining a \<le> arena_blocks a ! b"
      using assms(1,2) True by (auto simp: arena_ok_def split: option.splits)
    have "arena_ok a'" using assms(1) True ptr unfolding r by (simp add: arena_ok_def ptr_add_def)
    moreover have "fresh_stretch a a' p n"
      using True ptr unfolding r by (auto simp: fresh_stretch_def free_byte_def ptr_add_def)
    moreover have "arena_address base p mod 8 = 0"
      using slop ptr(1) unfolding r by (simp add: arena_address_def ptr_add_def add.assoc)
    ultimately show ?thesis by blast
  next
    case False
    then have "AllocateFallback n a = (p, a')"
      using assms(3) unfolding AllocateAligned_def arena_align_def Let_def needed by simp
    from Fallback_ok [OF assms(1) this] show ?thesis using assms(4) by (auto simp: arena_address_def)
  qed
qed

definition covers :: "arena_ptr option \<times> request \<Rightarrow> nat \<Rightarrow> nat \<Rightarrow> bool" where
  "covers pr b i \<longleftrightarrow> (\<exists>off. fst pr = Some (b, off) \<and> off \<le> i \<and> i < off + request_bytes (snd pr))"

definition aligned_ok :: "(nat \<Rightarrow> nat) \<Rightarrow> arena_ptr option \<times> request \<Rightarrow> bool" where
  "aligned_ok base pr \<longleftrightarrow> (case snd pr of Plain n \<Rightarrow> True | Aligned n \<Rightarrow> arena_address base (fst pr) mod 8 = 0)"

lemma serve_ok:
  assumes "arena_ok a" and "0 < request_bytes r \<and> request_bytes r + 8 \<le> 2 ^ 64" and "serve base r a = (p, a')" and "\<And>b. base b mod 8 = 0"
  shows "arena_ok a' \<and> fresh_stretch a a' p (request_bytes r) \<and> aligned_ok base (p, r)"
proof (cases r)
  case (Plain n)
  then show ?thesis using Allocate_ok [OF assms(1), of n p a'] assms(2,3) by (simp add: aligned_ok_def)
next
  case (Aligned n)
  then show ?thesis
    using AllocateAligned_ok [where base = base, OF assms(1) _ _ assms(4), of n p a'] assms(2,3)
    by (simp add: aligned_ok_def)
qed

lemma fresh_covers:
  assumes "fresh_stretch a a' p (request_bytes r)" and "covers (p, r) b i"
  shows "free_byte a b i" and "\<not> free_byte a' b i" and "b < length (arena_blocks a') \<and> i < arena_blocks a' ! b"
  using assms by (auto simp: fresh_stretch_def covers_def)

definition in_blocks :: "nat list \<Rightarrow> arena_ptr option \<times> request \<Rightarrow> bool" where
  "in_blocks blocks pr \<longleftrightarrow> (\<forall>b i. covers pr b i \<longrightarrow> b < length blocks \<and> i < blocks ! b)"

lemma in_blocks_append: "in_blocks blocks pr \<Longrightarrow> in_blocks (blocks @ new) pr"
  unfolding in_blocks_def by (auto simp: nth_append trans_less_add1)

lemma serve_all_ok:
  assumes "\<And>b. base b mod 8 = 0"
  shows "arena_ok a \<Longrightarrow> list_all (\<lambda>r. 0 < request_bytes r \<and> request_bytes r + 8 \<le> 2 ^ 64) rs \<Longrightarrow> serve_all base rs a = (ps, a') \<Longrightarrow>
    arena_ok a' \<and> (\<exists>new. arena_blocks a' = arena_blocks a @ new) \<and>
    (\<forall>pr \<in> set ps. aligned_ok base pr \<and> in_blocks (arena_blocks a') pr \<and> (\<forall>b i. covers pr b i \<longrightarrow> free_byte a b i)) \<and>
    sorted_wrt (\<lambda>x y. \<forall>b i. \<not> (covers x b i \<and> covers y b i)) ps"
proof (induction rs arbitrary: a ps)
  case Nil
  then show ?case by simp
next
  case (Cons r rs)
  obtain p a1 where one: "serve base r a = (p, a1)" by fastforce
  obtain qs where rest: "serve_all base rs a1 = (qs, a')" "ps = (p, r) # qs"
    using Cons.prems(3) one by (auto split: prod.splits)
  have s: "arena_ok a1" "fresh_stretch a a1 p (request_bytes r)" "aligned_ok base (p, r)"
    using serve_ok [OF Cons.prems(1) _ one assms] Cons.prems(2) by auto
  have r: "arena_ok a'" "\<exists>new. arena_blocks a' = arena_blocks a1 @ new"
    "\<forall>pr \<in> set qs. aligned_ok base pr \<and> in_blocks (arena_blocks a') pr \<and> (\<forall>b i. covers pr b i \<longrightarrow> free_byte a1 b i)"
    "sorted_wrt (\<lambda>x y. \<forall>b i. \<not> (covers x b i \<and> covers y b i)) qs"
    using Cons.IH [OF s(1) _ rest(1)] Cons.prems(2) by auto
  have earlier: "free_byte a1 b i \<Longrightarrow> free_byte a b i" for b i using s(2) by (simp add: fresh_stretch_def)
  have "in_blocks (arena_blocks a1) (p, r)"
    unfolding in_blocks_def using fresh_covers(3) [OF s(2)] by blast
  then have "in_blocks (arena_blocks a') (p, r)" using r(2) in_blocks_append by metis
  moreover have "\<exists>new. arena_blocks a' = arena_blocks a @ new"
    using r(2) s(2) by (auto simp: fresh_stretch_def)
  moreover have "\<forall>b i. covers (p, r) b i \<longrightarrow> free_byte a b i" using fresh_covers(1) [OF s(2)] by blast
  moreover have "\<forall>y \<in> set qs. \<forall>b i. \<not> (covers (p, r) b i \<and> covers y b i)"
    using r(3) fresh_covers(2) [OF s(2)] by blast
  ultimately show ?case using r s(3) earlier unfolding rest(2) by auto
qed

text \<open>
  C28. What the arena hands out: for every sequence of requests, each of at least one byte and of 8 bytes less than a
  \<open>size_t\<close> counts at most, the stretches of memory lie inside blocks the arena owns, no two of them share a byte, the
  ones asked for with alignment are aligned, and the reported usage is that of the blocks with their pointers.
\<close>
theorem arena_stretches_disjoint:
  assumes "\<And>b. base b mod 8 = 0" and "list_all (\<lambda>r. 0 < request_bytes r \<and> request_bytes r + 8 \<le> 2 ^ 64) rs"
    and "serve_all base rs make_Arena = (ps, a)"
  shows "sorted_wrt (\<lambda>x y. \<forall>b i. \<not> (covers x b i \<and> covers y b i)) ps \<and>
    list_all (\<lambda>pr. aligned_ok base pr \<and> in_blocks (arena_blocks a) pr) ps \<and>
    MemoryUsage a = sum_list (map (\<lambda>n. n + 8) (arena_blocks a)) mod 2 ^ 64"
  using serve_all_ok [where base = base, OF assms(1) make_Arena_ok assms(2,3)]
  by (auto simp: list_all_iff MemoryUsage_def arena_ok_def)

lemma arena_stretches_disjoint_witness:
  "list_all (\<lambda>pr. aligned_ok (\<lambda>b. 16 * b) pr \<and> in_blocks [4096, 5000] pr)
     [(Some (0, 0), Plain 3), (Some (0, 8), Aligned 16), (Some (1, 0), Plain 5000), (Some (0, 24), Plain 5)]"
proof -
  have "serve_all (\<lambda>b. 16 * b) [Plain 3, Aligned 16, Plain 5000, Plain 5] make_Arena =
    ([(Some (0, 0), Plain 3), (Some (0, 8), Aligned 16), (Some (1, 0), Plain 5000), (Some (0, 24), Plain 5)],
     \<lparr>alloc_ptr = Some (0, 29), alloc_bytes_remaining = 4067, arena_blocks = [4096, 5000], memory_usage = 9112\<rparr>)"
    by (simp add: Allocate_def AllocateAligned_def AllocateFallback_def AllocateNewBlock_def make_Arena_def
        arena_kBlockSize_def arena_align_def arena_address_def ptr_add_def Let_def)
  from arena_stretches_disjoint [OF _ _ this] show ?thesis by simp
qed

text \<open>Beyond that bound the sum of request and slop wraps, and the stretch handed out leaves its block.\<close>

lemma AllocateAligned_wraps:
  "serve_all (\<lambda>b. 16 * b) [Plain 3, Aligned (2 ^ 64 - 3)] make_Arena =
     ([(Some (0, 0), Plain 3), (Some (0, 8), Aligned (2 ^ 64 - 3))],
      \<lparr>alloc_ptr = Some (0, 5), alloc_bytes_remaining = 4091, arena_blocks = [4096], memory_usage = 4104\<rparr>)"
  by (simp add: Allocate_def AllocateAligned_def AllocateFallback_def AllocateNewBlock_def make_Arena_def
      arena_kBlockSize_def arena_align_def arena_address_def ptr_add_def Let_def)

end
