(* ===== verification/LdbBloom.thy ===== *)
theory LdbBloom
  imports LdbCoding
begin

text \<open>
  \<open>leveldb-library/util/hash.cc\<close> and \<open>util/bloom.cc\<close>: the hash and the Bloom filter of the table
  files. A policy keeps its two numbers; \<open>CreateFilter\<close> appends a filter to a string, and
  \<open>KeyMayMatch\<close> reads one back. The property of a filter is that it never denies a key it was
  made from; the lemmas follow a bit from the probe that sets it to the test that reads it.

  The product \<open>bits_per_key * 0.69\<close> is a double in the code; rounded down and capped at 30 it is
  the quotient below, since 0.69 times a number less than 44 is never near an integer.
\<close>

section \<open>Hash\<close>

definition hash_m :: u32 where "hash_m = 0xc6a4a793"

function hash_words :: "bytes \<Rightarrow> u32 \<Rightarrow> bytes \<times> u32" where
  "hash_words data h =
     (if 4 \<le> length data then
        let w = DecodeFixed32 data;
            h = h + w;
            h = h * hash_m;
            h = h XOR drop_bit 16 h
        in hash_words (drop 4 data) h
      else (data, h))"
  by pat_completeness auto
termination
  by (relation "measure (\<lambda>(data, h). length data)") auto

declare hash_words.simps [simp del]

text \<open>The \<open>switch\<close> on the bytes left over, each case falling through to the next.\<close>

definition hash_rest :: "bytes \<Rightarrow> u32 \<Rightarrow> u32" where
  "hash_rest data h =
     (let n = length data;
          h = (if n = 3 then h + push_bit 16 (ucast (data ! 2)) else h);
          h = (if n = 3 \<or> n = 2 then h + push_bit 8 (ucast (data ! 1)) else h)
      in if n = 3 \<or> n = 2 \<or> n = 1 then
           let h = h + ucast (data ! 0);
               h = h * hash_m
           in h XOR drop_bit 24 h
         else h)"

definition Hash :: "bytes \<Rightarrow> u32 \<Rightarrow> u32" where
  "Hash data seed =
     (let h = seed XOR ucast (of_nat (length data) * ucast hash_m :: u64)
      in case hash_words data h of (rest, h) \<Rightarrow> hash_rest rest h)"

section \<open>Filter policy\<close>

record bloom_policy =
  bits_per_key :: u64
  k_probes :: u64

definition NewBloomFilterPolicy :: "nat \<Rightarrow> bloom_policy" where
  "NewBloomFilterPolicy bits =
     (let k = bits * 69 div 100;
          k = (if k < 1 then 1 else k);
          k = (if 30 < k then 30 else k)
      in \<lparr>bits_per_key = of_nat bits, k_probes = of_nat k\<rparr>)"

definition BloomHash :: "slice \<Rightarrow> u32" where
  "BloomHash key = Hash key 0xbc9f1d34"

definition bloom_delta :: "u32 \<Rightarrow> u32" where
  "bloom_delta h = drop_bit 17 h OR push_bit 15 h"

text \<open>The inner loop of \<open>CreateFilter\<close>: the filter starts at the index \<open>base\<close> of the string.\<close>

primrec set_probes :: "nat \<Rightarrow> nat \<Rightarrow> u64 \<Rightarrow> u32 \<Rightarrow> u32 \<Rightarrow> bytes \<Rightarrow> bytes" where
  "set_probes 0 base bits h delta dst = dst"
| "set_probes (Suc j) base bits h delta dst =
     (let bitpos = unat (ucast h mod bits);
          i = base + bitpos div 8
      in set_probes j base bits (h + delta) delta (dst[i := dst ! i OR push_bit (bitpos mod 8) 1]))"

definition add_key :: "bloom_policy \<Rightarrow> nat \<Rightarrow> u64 \<Rightarrow> slice \<Rightarrow> bytes \<Rightarrow> bytes" where
  "add_key policy base bits key dst =
     (let h = BloomHash key in set_probes (unat (k_probes policy)) base bits h (bloom_delta h) dst)"

definition CreateFilter :: "bloom_policy \<Rightarrow> slice list \<Rightarrow> bytes \<Rightarrow> bytes" where
  "CreateFilter policy keys dst =
     (let bits = of_nat (length keys) * bits_per_key policy;
          bits = (if bits < 64 then 64 else bits);
          n = (bits + 7) div 8;
          bits = n * 8;
          init_size = length dst;
          dst = dst @ replicate (unat n) 0 @ [ucast (k_probes policy)]
      in fold (add_key policy init_size bits) keys dst)"

primrec test_probes :: "nat \<Rightarrow> bytes \<Rightarrow> u64 \<Rightarrow> u32 \<Rightarrow> u32 \<Rightarrow> bool" where
  "test_probes 0 array bits h delta \<longleftrightarrow> True"
| "test_probes (Suc j) array bits h delta \<longleftrightarrow>
     (let bitpos = unat (ucast h mod bits)
      in if array ! (bitpos div 8) AND push_bit (bitpos mod 8) 1 = 0 then False
         else test_probes j array bits (h + delta) delta)"

definition KeyMayMatch :: "slice \<Rightarrow> slice \<Rightarrow> bool" where
  "KeyMayMatch key bloom_filter =
     (let len = length bloom_filter in
      if len < 2 then False
      else
        let bits = (of_nat len - 1) * 8 :: u64;
            k = scast (bloom_filter ! (len - 1)) :: u64
        in if 30 < k then True
           else
             let h = BloomHash key
             in test_probes (unat k) bloom_filter bits h (bloom_delta h))"

section \<open>No key is denied\<close>

text \<open>The bit at the position \<open>p\<close> of the filter that starts at \<open>base\<close>.\<close>

definition filter_bit :: "nat \<Rightarrow> bytes \<Rightarrow> nat \<Rightarrow> bool" where
  "filter_bit base dst p \<longleftrightarrow> bit (dst ! (base + p div 8)) (p mod 8)"

primrec probes :: "nat \<Rightarrow> u64 \<Rightarrow> u32 \<Rightarrow> u32 \<Rightarrow> nat list" where
  "probes 0 bits h delta = []"
| "probes (Suc j) bits h delta = unat (ucast h mod bits) # probes j bits (h + delta) delta"

lemma length_set_probes [simp]: "length (set_probes j base bits h delta dst) = length dst"
  by (induction j arbitrary: h dst) (simp_all add: Let_def)

lemma length_add_key [simp]: "length (add_key policy base bits key dst) = length dst"
  by (simp add: add_key_def Let_def)

lemma bit_or_exp: "n < 8 \<Longrightarrow> bit ((x :: u8) OR push_bit n 1) m \<longleftrightarrow> bit x m \<or> m = n"
  by (auto simp: bit_or_iff bit_push_bit_iff bit_1_iff simp del: push_bit_of_1)

lemma filter_bit_update:
  assumes "base + p div 8 < length dst"
  shows "filter_bit base (dst[base + p div 8 := dst ! (base + p div 8) OR push_bit (p mod 8) 1]) q \<longleftrightarrow>
    filter_bit base dst q \<or> q = p"
proof (cases "q div 8 = p div 8")
  case True
  then have "q mod 8 = p mod 8 \<longleftrightarrow> q = p" by (metis div_mult_mod_eq)
  with True assms show ?thesis by (simp add: filter_bit_def bit_or_exp del: push_bit_of_1)
next
  case False
  then have "q \<noteq> p" by auto
  with False assms show ?thesis by (simp add: filter_bit_def)
qed

lemma probe_index:
  assumes "unat bits \<le> 8 * n" and "0 < bits" and "base + n \<le> length dst"
  shows "base + unat (x mod bits) div 8 < length dst"
proof -
  have "unat (x mod bits) < unat bits" using assms(2) by (simp add: unat_mod word_less_nat_alt)
  then have "unat (x mod bits) div 8 < n" using assms(1) by (simp add: div_less_iff_less_mult mult.commute)
  then show ?thesis using assms(3) by simp
qed

lemma set_probes_bits:
  assumes "unat bits \<le> 8 * n" and "0 < bits"
  shows "base + n \<le> length dst \<Longrightarrow>
    filter_bit base (set_probes j base bits h delta dst) q \<longleftrightarrow> filter_bit base dst q \<or> q \<in> set (probes j bits h delta)"
proof (induction j arbitrary: h dst)
  case (Suc j)
  show ?case
    using Suc.IH [of "dst[_ := _]"] Suc.prems filter_bit_update [OF probe_index [OF assms Suc.prems]]
    by (auto simp: Let_def)
qed simp

lemma test_probes_bits:
  "test_probes j array bits h delta \<longleftrightarrow> (\<forall>q \<in> set (probes j bits h delta). filter_bit 0 array q)"
  by (induction j arbitrary: h) (simp_all add: Let_def filter_bit_def and_exp_eq_0_iff_not_bit)


definition key_probes :: "bloom_policy \<Rightarrow> u64 \<Rightarrow> slice \<Rightarrow> nat list" where
  "key_probes policy bits key = probes (unat (k_probes policy)) bits (BloomHash key) (bloom_delta (BloomHash key))"

lemma length_fold_add_key [simp]: "length (fold (add_key policy base bits) keys dst) = length dst"
  by (induction keys arbitrary: dst) simp_all

lemma fold_add_key_bits:
  assumes "unat bits \<le> 8 * n" and "0 < bits"
  shows "base + n \<le> length dst \<Longrightarrow>
    filter_bit base (fold (add_key policy base bits) keys dst) q \<longleftrightarrow>
      filter_bit base dst q \<or> (\<exists>key \<in> set keys. q \<in> set (key_probes policy bits key))"
proof (induction keys arbitrary: dst)
  case (Cons key keys)
  then show ?case
    by (simp add: add_key_def Let_def set_probes_bits [OF assms] key_probes_def)
qed simp

lemma set_probes_beyond:
  assumes "unat bits \<le> 8 * n" and "0 < bits"
  shows "base + n \<le> length dst \<Longrightarrow> base + n \<le> i \<Longrightarrow> set_probes j base bits h delta dst ! i = dst ! i"
proof (induction j arbitrary: h dst)
  case (Suc j)
  have "unat (ucast h mod bits) < unat bits" using assms(2) by (simp add: unat_mod word_less_nat_alt)
  then have "base + unat (ucast h mod bits) div 8 < i"
    using assms(1) Suc.prems(2) by (simp add: div_less_iff_less_mult mult.commute)
  then show ?case using Suc by (simp add: Let_def)
qed simp

lemma fold_add_key_beyond:
  assumes "unat bits \<le> 8 * n" and "0 < bits"
  shows "base + n \<le> length dst \<Longrightarrow> base + n \<le> i \<Longrightarrow> fold (add_key policy base bits) keys dst ! i = dst ! i"
  by (induction keys arbitrary: dst) (simp_all add: add_key_def Let_def set_probes_beyond [OF assms])

definition filter_bytes :: "bloom_policy \<Rightarrow> nat \<Rightarrow> nat" where
  "filter_bytes policy n = (let bits = n * unat (bits_per_key policy) in ((if bits < 64 then 64 else bits) + 7) div 8)"

lemma small_byte: "(k :: u64) \<le> 30 \<Longrightarrow> scast (ucast k :: u8) = k"
proof -
  assume "k \<le> 30"
  then have "unat k < 31" by (simp add: word_le_nat_alt)
  moreover have "list_all (\<lambda>m. scast (ucast (of_nat m :: u64) :: u8) = (of_nat m :: u64)) [0..<31]"
    by (simp add: upt_rec)
  ultimately have "scast (ucast (of_nat (unat k) :: u64) :: u8) = (of_nat (unat k) :: u64)"
    by (simp only: list_all_length length_upt) (metis add_0 minus_nat.diff_0 nth_upt)
  then show ?thesis by simp
qed

lemma bloom_matches:
  assumes "key \<in> set keys" and "length keys * unat (bits_per_key policy) < 2 ^ 62" and "k_probes policy \<le> 30"
  shows "KeyMayMatch key (drop (length dst) (CreateFilter policy keys dst))"
proof -
  let ?n = "filter_bytes policy (length keys)"
  let ?bits = "of_nat ?n * 8 :: u64"
  let ?init = "dst @ replicate ?n 0 @ [ucast (k_probes policy)]"
  let ?d = "fold (add_key policy (length dst) ?bits) keys ?init"
  have n: "8 \<le> ?n" "?n < 2 ^ 60"
    using assms(2) by (auto simp: filter_bytes_def Let_def)
  have "of_nat (length keys) * bits_per_key policy = (of_nat (length keys * unat (bits_per_key policy)) :: u64)"
    by simp
  moreover have "unat (of_nat (length keys * unat (bits_per_key policy)) :: u64) = length keys * unat (bits_per_key policy)"
    using assms(2) by (intro unat_of_nat_u64) simp
  ultimately have total: "unat (of_nat (length keys) * bits_per_key policy) = length keys * unat (bits_per_key policy)"
    by (simp only:)
  have bits: "unat ?bits = 8 * ?n"
    using unat_of_nat_u64 [of "?n * 8"] n by simp
  let ?w = "of_nat (length keys) * bits_per_key policy" and ?k = "length keys * unat (bits_per_key policy)"
  have w: "((if ?w < 64 then 64 else ?w) + 7) div 8 = of_nat ?n"
  proof -
    have "(if ?w < 64 then 64 else ?w) = of_nat (if ?k < 64 then 64 else ?k)"
      by (simp add: word_less_nat_alt total flip: total)
    then have "unat ((if ?w < 64 then 64 else ?w) + 7) = (if ?k < 64 then 64 else ?k) + 7"
      using unat_of_nat_u64 [of "(if ?k < 64 then 64 else ?k) + 7"] assms(2) by simp
    then have "unat (((if ?w < 64 then 64 else ?w) + 7) div 8) = ?n"
      by (simp only: unat_div) (simp add: filter_bytes_def)
    then show ?thesis by (metis of_nat_unat ucast_id)
  qed
  have "CreateFilter policy keys dst = ?d"
    unfolding CreateFilter_def Let_def w using n by (simp add: unat_of_nat_u64)
  moreover have "KeyMayMatch key (drop (length dst) ?d)"
  proof -
    let ?F = "drop (length dst) ?d"
    have len: "length ?F = ?n + 1" by simp
    have pos: "0 < ?bits" using bits n by (simp add: word_less_nat_alt)
    have last: "?F ! ?n = ucast (k_probes policy)"
    proof -
      have "?d ! (length dst + ?n) = ?init ! (length dst + ?n)"
        by (rule fold_add_key_beyond [of ?bits ?n]) (use bits pos in simp_all)
      then show ?thesis by (simp add: nth_append)
    qed
    have k: "scast (ucast (k_probes policy) :: u8) = k_probes policy"
      by (rule small_byte [OF assms(3)])
    have "(of_nat (?n + 1) - 1) * 8 = ?bits" by simp
    moreover have "test_probes (unat (k_probes policy)) ?F ?bits (BloomHash key) (bloom_delta (BloomHash key))"
      unfolding test_probes_bits
    proof
      fix q assume "q \<in> set (probes (unat (k_probes policy)) ?bits (BloomHash key) (bloom_delta (BloomHash key)))"
      then have "filter_bit (length dst) ?d q"
        using fold_add_key_bits [of ?bits ?n "length dst" ?init policy keys q] bits pos assms(1)
        by (auto simp: key_probes_def)
      then show "filter_bit 0 ?F q" by (simp add: filter_bit_def)
    qed
    ultimately show ?thesis
      using n assms(3) unfolding KeyMayMatch_def Let_def len by (simp add: last k not_less)
  qed
  ultimately show ?thesis by simp
qed

text \<open>
  C24. No false negatives: a filter made from some keys matches each of them, whatever the keys, the
  number of probes and the bits per key are.
\<close>
theorem bloom_no_false_negative:
  assumes "key \<in> set keys" and "length keys * unat (bits_per_key policy) < 2 ^ 62" and "k_probes policy \<le> 30"
  shows "KeyMayMatch key (drop (length dst) (CreateFilter policy keys dst))"
  using bloom_matches [OF assms] .

lemma NewBloomFilterPolicy_probes: "k_probes (NewBloomFilterPolicy bits) \<le> 30"
  by (simp add: NewBloomFilterPolicy_def Let_def word_le_nat_alt unat_of_nat_u64)

lemma bloom_no_false_negative_witness:
  "KeyMayMatch [2] (drop 1 (CreateFilter (NewBloomFilterPolicy 10) [[1], [2]] [9]))"
  using bloom_no_false_negative [of "[2]" "[[1], [2]]" "NewBloomFilterPolicy 10" "[9]"]
    NewBloomFilterPolicy_probes [of 10]
  by (simp add: NewBloomFilterPolicy_def)

end
