(* ===== verification/LdbFormat.thy ===== *)
theory LdbFormat
  imports LdbBloom
begin

text \<open>
  The order of keys: \<open>leveldb-library/util/comparator.cc\<close> and \<open>db/dbformat.h\<close>, \<open>dbformat.cc\<close>. A
  comparator is the record of its virtual functions. The locale \<open>key_order\<close> is the contract of
  \<open>include/leveldb/comparator.h\<close>: a total preorder, a separator between two keys, a successor.
  The bytewise comparator fulfils it on all strings, and whenever a user comparator fulfils it, the
  internal comparator, which adds sequence number and type, fulfils it on internal keys.
\<close>

section \<open>Comparators\<close>

record comparator =
  Compare :: "slice \<Rightarrow> slice \<Rightarrow> int"
  FindShortestSeparator :: "bytes \<Rightarrow> slice \<Rightarrow> bytes"
  FindShortSuccessor :: "bytes \<Rightarrow> bytes"

locale key_order =
  fixes cmp :: comparator
    and key :: "slice \<Rightarrow> bool"
  assumes sym: "key a \<Longrightarrow> key b \<Longrightarrow> sgn (Compare cmp b a) = - sgn (Compare cmp a b)"
    and less_trans: "key a \<Longrightarrow> key b \<Longrightarrow> key c \<Longrightarrow>
      Compare cmp a b < 0 \<Longrightarrow> Compare cmp b c < 0 \<Longrightarrow> Compare cmp a c < 0"
    and same: "key a \<Longrightarrow> key b \<Longrightarrow> key c \<Longrightarrow>
      Compare cmp a b = 0 \<Longrightarrow> sgn (Compare cmp a c) = sgn (Compare cmp b c)"
    and separator: "key a \<Longrightarrow> key b \<Longrightarrow> Compare cmp a b < 0 \<Longrightarrow>
      key (FindShortestSeparator cmp a b) \<and> Compare cmp a (FindShortestSeparator cmp a b) \<le> 0 \<and>
      Compare cmp (FindShortestSeparator cmp a b) b < 0"
    and no_separator: "key a \<Longrightarrow> key b \<Longrightarrow> 0 \<le> Compare cmp a b \<Longrightarrow> FindShortestSeparator cmp a b = a"
    and successor: "key a \<Longrightarrow> key (FindShortSuccessor cmp a) \<and> Compare cmp a (FindShortSuccessor cmp a) \<le> 0"
begin

lemma refl: "key a \<Longrightarrow> Compare cmp a a = 0"
  using sym [of a a] by (auto simp: sgn_if split: if_splits)

lemma greater: "key a \<Longrightarrow> key b \<Longrightarrow> 0 < Compare cmp a b \<longleftrightarrow> Compare cmp b a < 0"
  using sym [of a b] by (auto simp: sgn_if split: if_splits)

lemma equal: "key a \<Longrightarrow> key b \<Longrightarrow> Compare cmp a b = 0 \<longleftrightarrow> Compare cmp b a = 0"
  using sym [of a b] by (auto simp: sgn_if split: if_splits)

lemma same_left: "key a \<Longrightarrow> key b \<Longrightarrow> key c \<Longrightarrow> Compare cmp a b = 0 \<Longrightarrow> Compare cmp a c < 0 \<longleftrightarrow> Compare cmp b c < 0"
  using same [of a b c] by (auto simp: sgn_if split: if_splits)

lemma same_right: "key a \<Longrightarrow> key b \<Longrightarrow> key c \<Longrightarrow> Compare cmp a b = 0 \<Longrightarrow> Compare cmp c a < 0 \<longleftrightarrow> Compare cmp c b < 0"
  using same_left [of a b c] same [of a b c] sym [of a c] sym [of b c]
  by (auto simp: sgn_if split: if_splits)

lemma le_trans:
  assumes "key a" "key b" "key c" "Compare cmp a b \<le> 0" "Compare cmp b c \<le> 0"
  shows "Compare cmp a c \<le> 0"
proof (cases "Compare cmp a b = 0")
  case True
  then have "sgn (Compare cmp a c) = sgn (Compare cmp b c)" using assms same by blast
  then show ?thesis using assms(5) by (auto simp: sgn_if split: if_splits)
next
  case False
  then have "Compare cmp a b < 0" using assms(4) by simp
  then have "Compare cmp a c < 0"
    using assms less_trans [of a b c] same_right [of b c a] by (cases "Compare cmp b c = 0") auto
  then show ?thesis by simp
qed

lemma less_le_trans:
  "key a \<Longrightarrow> key b \<Longrightarrow> key c \<Longrightarrow> Compare cmp a b < 0 \<Longrightarrow> Compare cmp b c \<le> 0 \<Longrightarrow> Compare cmp a c < 0"
  using less_trans [of a b c] same_right [of b c a] by (auto simp: less_le)

end

section \<open>The bytewise comparator\<close>

fun diff_index :: "bytes \<Rightarrow> bytes \<Rightarrow> nat" where
  "diff_index (a # as) (b # bs) = (if a = b then Suc (diff_index as bs) else 0)"
| "diff_index as bs = 0"

definition bytewise_separator :: "bytes \<Rightarrow> slice \<Rightarrow> bytes" where
  "bytewise_separator start limit =
     (let min_length = (if length limit < length start then length limit else length start);
          i = diff_index start limit
      in if min_length \<le> i then start
         else
           let diff_byte = start ! i in
           if diff_byte < 0xff \<and> unat diff_byte + 1 < unat (limit ! i)
           then take (i + 1) (start[i := start ! i + 1])
           else start)"

fun bytewise_successor :: "bytes \<Rightarrow> bytes" where
  "bytewise_successor [] = []"
| "bytewise_successor (byte # key) = (if byte \<noteq> 0xff then [byte + 1] else byte # bytewise_successor key)"

definition BytewiseComparator :: comparator where
  "BytewiseComparator =
     \<lparr>Compare = slice_compare, FindShortestSeparator = bytewise_separator,
      FindShortSuccessor = bytewise_successor\<rparr>"

lemma byte_plus_1: "(b :: u8) \<noteq> 0xff \<Longrightarrow> unat (b + 1) = unat b + 1"
proof -
  assume "b \<noteq> 0xff"
  then have "unat b \<noteq> 255" by (simp add: word_unat_eq_iff)
  then have "unat b + 1 < 256" using unat_u8_lt [of b] by simp
  then show ?thesis by (simp add: unat_word_ariths)
qed

lemma byte_plus_1_nat: "unat (b :: u8) < 255 \<Longrightarrow> unat (b + 1) = unat b + 1"
  by (rule byte_plus_1) auto

lemma byte_less_plus_1: "(b :: u8) \<noteq> 0xff \<Longrightarrow> b < b + 1"
  by (simp add: word_less_nat_alt byte_plus_1)

lemma bytewise_separator_Cons:
  "bytewise_separator (x # a) (x # b) = x # bytewise_separator a b"
  by (simp add: bytewise_separator_def Let_def)

lemma bytewise_separator_bounds:
  "bytes_less a b \<Longrightarrow> \<not> bytes_less (bytewise_separator a b) a \<and> bytes_less (bytewise_separator a b) b"
proof (induction a b rule: bytes_less.induct)
  case (2 y ys)
  then show ?case by (simp add: bytewise_separator_def)
next
  case (3 x xs y ys)
  show ?case
  proof (cases "x = y")
    case True
    with 3 show ?thesis by (simp add: bytewise_separator_Cons)
  next
    case False
    then have "bytewise_separator (x # xs) (y # ys) =
        (if x < 0xff \<and> unat x + 1 < unat y then [x + 1] else x # xs)"
      by (simp add: bytewise_separator_def Let_def)
    with 3 False show ?thesis
      by (auto simp: byte_plus_1_nat word_less_nat_alt)
  qed
qed simp

lemma bytewise_successor_bound: "\<not> bytes_less (bytewise_successor a) a"
  by (induction a rule: bytewise_successor.induct) (auto simp: byte_less_plus_1 dest: byte_less_plus_1 less_asym)

lemma bytewise_no_separator: "\<not> bytes_less a b \<Longrightarrow> bytewise_separator a b = a"
proof (induction a b rule: bytes_less.induct)
  case (3 x xs y ys)
  show ?case
  proof (cases "x = y")
    case True
    with 3 show ?thesis by (simp add: bytewise_separator_Cons)
  next
    case False
    with 3 show ?thesis by (auto simp: bytewise_separator_def Let_def word_less_nat_alt)
  qed
qed (simp_all add: bytewise_separator_def)

interpretation bytewise: key_order BytewiseComparator "\<lambda>a. True"
proof unfold_locales
  fix a b c :: slice
  show "sgn (Compare BytewiseComparator b a) = - sgn (Compare BytewiseComparator a b)"
    using bytes_less_linear [of a b] bytes_less_trans [of a b a]
    by (auto simp: BytewiseComparator_def slice_compare_value)
  show "Compare BytewiseComparator a b < 0 \<Longrightarrow> Compare BytewiseComparator b c < 0 \<Longrightarrow> Compare BytewiseComparator a c < 0"
    using bytes_less_trans [of a b c]
    by (auto simp: BytewiseComparator_def slice_compare_value split: if_splits)
  show "Compare BytewiseComparator a b = 0 \<Longrightarrow>
      sgn (Compare BytewiseComparator a c) = sgn (Compare BytewiseComparator b c)"
    by (auto simp: BytewiseComparator_def slice_compare_value split: if_splits)
  show "Compare BytewiseComparator a b < 0 \<Longrightarrow> True \<and>
      Compare BytewiseComparator a (FindShortestSeparator BytewiseComparator a b) \<le> 0 \<and>
      Compare BytewiseComparator (FindShortestSeparator BytewiseComparator a b) b < 0"
    using bytewise_separator_bounds [of a b] bytes_less_linear [of a "bytewise_separator a b"]
    by (auto simp: BytewiseComparator_def slice_compare_value split: if_splits)
  show "0 \<le> Compare BytewiseComparator a b \<Longrightarrow> FindShortestSeparator BytewiseComparator a b = a"
    using bytewise_no_separator [of a b] by (auto simp: BytewiseComparator_def slice_compare_value split: if_splits)
  show "True \<and> Compare BytewiseComparator a (FindShortSuccessor BytewiseComparator a) \<le> 0"
    using bytewise_successor_bound [of a] bytes_less_linear [of a "bytewise_successor a"]
    by (auto simp: BytewiseComparator_def slice_compare_value)
qed

section \<open>Internal keys\<close>

definition kTypeDeletion :: u8 where "kTypeDeletion = 0"
definition kTypeValue :: u8 where "kTypeValue = 1"
definition kValueTypeForSeek :: u8 where "kValueTypeForSeek = kTypeValue"
definition kMaxSequenceNumber :: u64 where "kMaxSequenceNumber = push_bit 56 1 - 1"

record parsed_internal_key =
  user_key :: slice
  sequence :: u64
  value_type :: u8

definition PackSequenceAndType :: "u64 \<Rightarrow> u8 \<Rightarrow> u64" where
  "PackSequenceAndType seq t = push_bit 8 seq OR ucast t"

definition InternalKeyEncodingLength :: "parsed_internal_key \<Rightarrow> nat" where
  "InternalKeyEncodingLength k = length (user_key k) + 8"

definition AppendInternalKey :: "bytes \<Rightarrow> parsed_internal_key \<Rightarrow> bytes" where
  "AppendInternalKey result k =
     PutFixed64 (result @ user_key k) (PackSequenceAndType (sequence k) (value_type k))"

text \<open>On internal keys, which have at least eight bytes.\<close>

definition ExtractUserKey :: "slice \<Rightarrow> slice" where
  "ExtractUserKey internal_key = take (length internal_key - 8) internal_key"

definition ParseInternalKey :: "slice \<Rightarrow> parsed_internal_key option" where
  "ParseInternalKey internal_key =
     (let n = length internal_key in
      if n < 8 then None
      else
        let num = DecodeFixed64 (drop (n - 8) internal_key);
            c = ucast (num AND 0xff) :: u8
        in if c \<le> kTypeValue
           then Some \<lparr>user_key = take (n - 8) internal_key, sequence = drop_bit 8 num, value_type = c\<rparr>
           else None)"

definition internal_compare :: "comparator \<Rightarrow> slice \<Rightarrow> slice \<Rightarrow> int" where
  "internal_compare user akey bkey =
     (let r = Compare user (ExtractUserKey akey) (ExtractUserKey bkey) in
      if r = 0 then
        let anum = DecodeFixed64 (drop (length akey - 8) akey);
            bnum = DecodeFixed64 (drop (length bkey - 8) bkey)
        in if bnum < anum then - 1 else if anum < bnum then 1 else r
      else r)"

definition internal_separator :: "comparator \<Rightarrow> bytes \<Rightarrow> slice \<Rightarrow> bytes" where
  "internal_separator user start limit =
     (let user_start = ExtractUserKey start;
          user_limit = ExtractUserKey limit;
          tmp = FindShortestSeparator user user_start user_limit
      in if length tmp < length user_start \<and> Compare user user_start tmp < 0
         then PutFixed64 tmp (PackSequenceAndType kMaxSequenceNumber kValueTypeForSeek)
         else start)"

definition internal_successor :: "comparator \<Rightarrow> bytes \<Rightarrow> bytes" where
  "internal_successor user k =
     (let ukey = ExtractUserKey k;
          tmp = FindShortSuccessor user ukey
      in if length tmp < length ukey \<and> Compare user ukey tmp < 0
         then PutFixed64 tmp (PackSequenceAndType kMaxSequenceNumber kValueTypeForSeek)
         else k)"

definition InternalKeyComparator :: "comparator \<Rightarrow> comparator" where
  "InternalKeyComparator user =
     \<lparr>Compare = internal_compare user, FindShortestSeparator = internal_separator user,
      FindShortSuccessor = internal_successor user\<rparr>"

text \<open>The filter of a table of internal keys is made of the user keys.\<close>

definition InternalFilter_Create :: "bloom_policy \<Rightarrow> slice list \<Rightarrow> bytes \<Rightarrow> bytes" where
  "InternalFilter_Create policy keys dst = CreateFilter policy (map ExtractUserKey keys) dst"

definition InternalFilter_Match :: "slice \<Rightarrow> slice \<Rightarrow> bool" where
  "InternalFilter_Match k f = KeyMayMatch (ExtractUserKey k) f"

text \<open>A lookup key holds the length, the internal key and thereby the user key.\<close>

record lookup_key =
  lk_bytes :: bytes
  lk_kstart :: nat

definition make_LookupKey :: "slice \<Rightarrow> u64 \<Rightarrow> lookup_key" where
  "make_LookupKey ukey s =
     (let len = EncodeVarint32 (of_nat (length ukey + 8))
      in \<lparr>lk_bytes = len @ ukey @ EncodeFixed64 (PackSequenceAndType s kValueTypeForSeek), lk_kstart = length len\<rparr>)"

definition memtable_key :: "lookup_key \<Rightarrow> slice" where
  "memtable_key k = lk_bytes k"

definition lookup_internal_key :: "lookup_key \<Rightarrow> slice" where
  "lookup_internal_key k = drop (lk_kstart k) (lk_bytes k)"

definition lookup_user_key :: "lookup_key \<Rightarrow> slice" where
  "lookup_user_key k = take (length (lk_bytes k) - lk_kstart k - 8) (drop (lk_kstart k) (lk_bytes k))"


section \<open>Internal keys round trip\<close>

definition tag_of :: "slice \<Rightarrow> u64" where
  "tag_of k = DecodeFixed64 (drop (length k - 8) k)"

lemma pack_eq: "PackSequenceAndType s t = word_of_nat (unat t) + push_bit 8 s"
  using word_chunk [of "unat t" 8 s] unat_u8_lt [of t] by (simp add: PackSequenceAndType_def or.commute)

lemma unat_pack:
  assumes "s \<le> kMaxSequenceNumber"
  shows "unat (PackSequenceAndType s t) = 256 * unat s + unat t"
proof -
  have "unat kMaxSequenceNumber = 2 ^ 56 - 1" by (simp add: kMaxSequenceNumber_def)
  then have s: "unat s < 2 ^ 56" using assms by (simp add: word_le_nat_alt)
  have "PackSequenceAndType s t = word_of_nat (256 * unat s + unat t)"
    by (simp add: pack_eq push_bit_eq_mult add.commute mult.commute)
  then show ?thesis using s unat_u8_lt [of t] unat_of_nat_u64 [of "256 * unat s + unat t"] by simp
qed

lemma append_internal: "AppendInternalKey dst k = dst @ user_key k @ EncodeFixed64 (PackSequenceAndType (sequence k) (value_type k))"
  by (simp add: AppendInternalKey_def PutFixed64_def)

lemma DecodeFixed64_end [simp]: "DecodeFixed64 (EncodeFixed64 v) = v"
  using DecodeFixed64_EncodeFixed64 [of v "[]"] by simp

lemma extract_append [simp]: "ExtractUserKey (u @ EncodeFixed64 v) = u"
  by (simp add: ExtractUserKey_def)

lemma tag_append [simp]: "tag_of (u @ EncodeFixed64 v) = v"
  by (simp add: tag_of_def)

lemma internal_key_split:
  assumes "8 \<le> length k"
  shows "ExtractUserKey k @ EncodeFixed64 (tag_of k) = k"
proof -
  have "length (drop (length k - 8) k) = 8" using assms by simp
  then have "EncodeFixed64 (tag_of k) = drop (length k - 8) k"
    using le_nat_less [of "drop (length k - 8) k"] le_bytes_le_nat [of "drop (length k - 8) k"]
    by (simp add: tag_of_def EncodeFixed64_eq DecodeFixed64_eq unat_of_nat_u64)
  then show ?thesis by (simp add: ExtractUserKey_def)
qed

lemma low_byte_of_sum: "(word_of_nat (256 * a + unat b) :: u8) = b"
proof -
  have "(word_of_nat ((256 * a + unat b) mod 256) :: u8) = word_of_nat (256 * a + unat b)"
    by (rule word_of_nat_mod_256)
  moreover have "(256 * a + unat b) mod 256 = unat b" using unat_u8_lt [of b] by simp
  ultimately show ?thesis by simp
qed

text \<open>A parsed internal key appended to a string is parsed back, for every user key.\<close>
theorem internal_key_roundtrip:
  assumes "sequence k \<le> kMaxSequenceNumber" and "value_type k \<le> kTypeValue"
  shows "ParseInternalKey (AppendInternalKey [] k) = Some k"
proof -
  let ?p = "PackSequenceAndType (sequence k) (value_type k)"
  have "unat (drop_bit 8 ?p) = unat (sequence k)"
    using unat_pack [OF assms(1)] unat_u8_lt [of "value_type k"] by (simp add: unat_drop_bit_word)
  then have s: "drop_bit 8 ?p = sequence k" by (simp add: word_unat_eq_iff)
  have "(ucast (?p AND 0xff) :: u8) = word_of_nat (unat ?p)" by (rule byte_at_0)
  also have "\<dots> = value_type k"
    by (simp only: unat_pack [OF assms(1)] low_byte_of_sum)
  finally have t: "(ucast (?p AND 0xff) :: u8) = value_type k" .
  show ?thesis
    using assms(2) by (simp add: append_internal ParseInternalKey_def Let_def s t)
qed

lemma internal_key_roundtrip_witness:
  "ParseInternalKey (AppendInternalKey [] \<lparr>user_key = [1, 2], sequence = 3, value_type = kTypeValue\<rparr>) =
     Some \<lparr>user_key = [1, 2], sequence = 3, value_type = kTypeValue\<rparr>"
  using internal_key_roundtrip [of "\<lparr>user_key = [1, 2], sequence = 3, value_type = kTypeValue\<rparr>"]
  by (simp add: kMaxSequenceNumber_def)

section \<open>The internal comparator fulfils the contract\<close>

abbreviation internal_key :: "(slice \<Rightarrow> bool) \<Rightarrow> slice \<Rightarrow> bool" where
  "internal_key key k \<equiv> 8 \<le> length k \<and> key (ExtractUserKey k)"

lemma internal_compare_tag:
  "internal_compare user a b =
     (let r = Compare user (ExtractUserKey a) (ExtractUserKey b)
      in if r = 0 then (if tag_of b < tag_of a then - 1 else if tag_of a < tag_of b then 1 else 0) else r)"
  by (simp add: internal_compare_def tag_of_def Let_def)

locale user_order = key_order
begin

lemma internal_sym:
  assumes "internal_key key a" and "internal_key key b"
  shows "sgn (internal_compare cmp b a) = - sgn (internal_compare cmp a b)"
  using assms sym [of "ExtractUserKey a" "ExtractUserKey b"] equal [of "ExtractUserKey a" "ExtractUserKey b"]
  by (auto simp: internal_compare_tag Let_def)

lemma internal_less:
  assumes "internal_key key a" and "internal_key key b"
  shows "internal_compare cmp a b < 0 \<longleftrightarrow> Compare cmp (ExtractUserKey a) (ExtractUserKey b) < 0 \<or>
    Compare cmp (ExtractUserKey a) (ExtractUserKey b) = 0 \<and> tag_of b < tag_of a"
  by (auto simp: internal_compare_tag Let_def)

lemma internal_trans:
  assumes "internal_key key a" and "internal_key key b" and "internal_key key c"
    and "internal_compare cmp a b < 0" and "internal_compare cmp b c < 0"
  shows "internal_compare cmp a c < 0"
proof -
  let ?a = "ExtractUserKey a" and ?b = "ExtractUserKey b" and ?c = "ExtractUserKey c"
  have k: "key ?a" "key ?b" "key ?c" using assms(1-3) by simp_all
  note ab = internal_less [OF assms(1,2), THEN iffD1, OF assms(4)]
  note bc = internal_less [OF assms(2,3), THEN iffD1, OF assms(5)]
  have "Compare cmp ?a ?c < 0 \<or> Compare cmp ?a ?c = 0 \<and> tag_of c < tag_of a"
  proof (cases "Compare cmp ?a ?b = 0")
    case True
    then show ?thesis
      using ab bc same [OF k(1,2,3) True] by (auto simp: sgn_if split: if_splits)
  next
    case False
    then have "Compare cmp ?a ?b < 0" using ab by simp
    then show ?thesis using bc less_le_trans [OF k(1,2,3)] by force
  qed
  then show ?thesis using internal_less [OF assms(1,3)] by blast
qed

lemma internal_same:
  assumes "internal_key key a" and "internal_key key b" and "internal_key key c" and "internal_compare cmp a b = 0"
  shows "sgn (internal_compare cmp a c) = sgn (internal_compare cmp b c)"
proof -
  have ab: "Compare cmp (ExtractUserKey a) (ExtractUserKey b) = 0" "tag_of a = tag_of b"
    using assms(4) by (auto simp: internal_compare_tag Let_def split: if_splits)
  then have "sgn (Compare cmp (ExtractUserKey a) (ExtractUserKey c)) = sgn (Compare cmp (ExtractUserKey b) (ExtractUserKey c))"
    using assms(1-3) same by blast
  then show ?thesis using ab(2) by (auto simp: internal_compare_tag Let_def sgn_if split: if_splits)
qed

lemma shortened_key:
  "key u \<Longrightarrow> internal_key key (PutFixed64 u v) \<and> ExtractUserKey (PutFixed64 u v) = u"
  by (simp add: PutFixed64_def)

lemma internal_separator_bounds:
  assumes "internal_key key a" and "internal_key key b" and "internal_compare cmp a b < 0"
  shows "internal_key key (internal_separator cmp a b) \<and> internal_compare cmp a (internal_separator cmp a b) \<le> 0 \<and>
    internal_compare cmp (internal_separator cmp a b) b < 0"
proof -
  let ?a = "ExtractUserKey a" and ?b = "ExtractUserKey b"
  let ?t = "FindShortestSeparator cmp ?a ?b"
  let ?v = "PackSequenceAndType kMaxSequenceNumber kValueTypeForSeek"
  show ?thesis
  proof (cases "length ?t < length ?a \<and> Compare cmp ?a ?t < 0")
    case True
    then have r: "internal_separator cmp a b = PutFixed64 ?t ?v" by (simp add: internal_separator_def Let_def)
    have "Compare cmp ?a ?b < 0"
      using True no_separator [of ?a ?b] assms(1,2) by (cases "Compare cmp ?a ?b < 0") auto
    then have t: "key ?t" "Compare cmp ?t ?b < 0" using separator assms(1,2) by blast+
    note k = shortened_key [OF t(1), of ?v]
    show ?thesis
      unfolding r using True t k internal_less [OF assms(1), of "PutFixed64 ?t ?v"]
        internal_less [of "PutFixed64 ?t ?v" b] assms(2) by simp
  next
    case False
    then have "internal_separator cmp a b = a" by (auto simp: internal_separator_def Let_def)
    then show ?thesis using assms internal_sym [OF assms(1,1)] by (simp add: sgn_if split: if_splits)
  qed
qed

lemma internal_no_separator:
  assumes "internal_key key a" and "internal_key key b" and "0 \<le> internal_compare cmp a b"
  shows "internal_separator cmp a b = a"
proof -
  have "\<not> Compare cmp (ExtractUserKey a) (ExtractUserKey b) < 0"
    using assms(3) internal_less [OF assms(1,2)] by linarith
  then show ?thesis using no_separator assms(1,2) by (simp add: internal_separator_def Let_def)
qed

lemma internal_successor_bound:
  assumes "internal_key key a"
  shows "internal_key key (internal_successor cmp a) \<and> internal_compare cmp a (internal_successor cmp a) \<le> 0"
proof -
  let ?a = "ExtractUserKey a"
  let ?t = "FindShortSuccessor cmp ?a"
  let ?v = "PackSequenceAndType kMaxSequenceNumber kValueTypeForSeek"
  show ?thesis
  proof (cases "length ?t < length ?a \<and> Compare cmp ?a ?t < 0")
    case True
    then have r: "internal_successor cmp a = PutFixed64 ?t ?v" by (simp add: internal_successor_def Let_def)
    have t: "key ?t" using successor assms by blast
    note k = shortened_key [OF t, of ?v]
    show ?thesis
      unfolding r using True t k internal_less [OF assms, of "PutFixed64 ?t ?v"] by simp
  next
    case False
    then have "internal_successor cmp a = a" by (auto simp: internal_successor_def Let_def)
    then show ?thesis using assms internal_sym [OF assms assms] by (simp add: sgn_if split: if_splits)
  qed
qed

end

lemma InternalKeyComparator_simps [simp]:
  "Compare (InternalKeyComparator user) = internal_compare user"
  "FindShortestSeparator (InternalKeyComparator user) = internal_separator user"
  "FindShortSuccessor (InternalKeyComparator user) = internal_successor user"
  by (simp_all add: InternalKeyComparator_def)

sublocale user_order \<subseteq> internal: key_order "InternalKeyComparator cmp" "internal_key key"
  by (unfold_locales, unfold InternalKeyComparator_simps)
    (rule internal_sym internal_trans internal_same internal_separator_bounds internal_no_separator
       internal_successor_bound; assumption)+

interpretation bytewise: user_order BytewiseComparator "\<lambda>a. True"
  by unfold_locales

lemma internal_key_less:
  assumes "sequence a \<le> kMaxSequenceNumber" and "sequence b \<le> kMaxSequenceNumber"
  shows "Compare (InternalKeyComparator BytewiseComparator) (AppendInternalKey [] a) (AppendInternalKey [] b) < 0 \<longleftrightarrow>
    bytes_less (user_key a) (user_key b) \<or>
    user_key a = user_key b \<and>
      (sequence b < sequence a \<or> sequence b = sequence a \<and> value_type b < value_type a)"
proof -
  let ?p = "\<lambda>k. PackSequenceAndType (sequence k) (value_type k)"
  have "?p b < ?p a \<longleftrightarrow> sequence b < sequence a \<or> sequence b = sequence a \<and> value_type b < value_type a"
    using unat_u8_lt [of "value_type a"] unat_u8_lt [of "value_type b"]
    unfolding word_less_nat_alt word_unat_eq_iff unat_pack [OF assms(1)] unat_pack [OF assms(2)] by linarith
  then show ?thesis
    using bytes_less_irrefl [of "user_key a"]
    by (auto simp: InternalKeyComparator_def internal_compare_tag append_internal BytewiseComparator_def
        slice_compare_value Let_def split: if_splits)
qed

text \<open>
  Internal keys over the bytewise comparator are in a total order in which user keys ascend
  bytewise, and the entries of one user key descend by sequence number, then by type.
\<close>
theorem internal_key_order:
  assumes "sequence a \<le> kMaxSequenceNumber" and "sequence b \<le> kMaxSequenceNumber"
  shows "Compare (InternalKeyComparator BytewiseComparator) (AppendInternalKey [] a) (AppendInternalKey [] b) < 0 \<longleftrightarrow>
    bytes_less (user_key a) (user_key b) \<or>
    user_key a = user_key b \<and>
      (sequence b < sequence a \<or> sequence b = sequence a \<and> value_type b < value_type a)"
  using internal_key_less [OF assms] .

lemma internal_key_order_witness:
  "Compare (InternalKeyComparator BytewiseComparator)
     (AppendInternalKey [] \<lparr>user_key = [1], sequence = 9, value_type = kTypeValue\<rparr>)
     (AppendInternalKey [] \<lparr>user_key = [1], sequence = 3, value_type = kTypeValue\<rparr>) < 0"
  using internal_key_order [of "\<lparr>user_key = [1], sequence = 9, value_type = kTypeValue\<rparr>"
      "\<lparr>user_key = [1], sequence = 3, value_type = kTypeValue\<rparr>"]
  by (simp add: kMaxSequenceNumber_def)

text \<open>
  Index keys: between two internal keys in order the internal comparator finds a key that is not
  before the first and strictly before the second.
\<close>
theorem internal_separator_between:
  assumes "8 \<le> length a" and "8 \<le> length b" and "Compare (InternalKeyComparator BytewiseComparator) a b < 0"
  shows "Compare (InternalKeyComparator BytewiseComparator) a
       (FindShortestSeparator (InternalKeyComparator BytewiseComparator) a b) \<le> 0 \<and>
    Compare (InternalKeyComparator BytewiseComparator)
       (FindShortestSeparator (InternalKeyComparator BytewiseComparator) a b) b < 0"
  using bytewise.internal.separator [of a b] assms by simp

lemma internal_separator_between_witness:
  "Compare (InternalKeyComparator BytewiseComparator) (replicate 8 1)
     (FindShortestSeparator (InternalKeyComparator BytewiseComparator) (replicate 8 1) (2 # replicate 8 1)) \<le> 0"
  using internal_separator_between [of "replicate 8 1" "2 # replicate 8 1"]
  by (simp add: InternalKeyComparator_def internal_compare_tag ExtractUserKey_def BytewiseComparator_def Let_def)

section \<open>Lookup keys\<close>

lemma lookup_key_parts:
  "lookup_user_key (make_LookupKey u s) = u"
  "lookup_internal_key (make_LookupKey u s) =
     AppendInternalKey [] \<lparr>user_key = u, sequence = s, value_type = kValueTypeForSeek\<rparr>"
  by (simp_all add: lookup_user_key_def lookup_internal_key_def make_LookupKey_def append_internal Let_def)

end
