(* ===== verification/LdbBatch.thy ===== *)
theory LdbBatch
  imports LdbFormat LdbStatus
begin

text \<open>
  Write batches: \<open>leveldb-library/db/write_batch.cc\<close> and \<open>write_batch_internal.h\<close>. A batch is its
  representation \<open>rep_\<close>, a string of a sequence number, a count and the records. A handler is the record
  of its two virtual functions on a state of its own. The lemmas show that what was put into a batch is
  what \<open>Iterate\<close> hands to the handler, also after one batch is appended to another, and that
  \<open>Iterate\<close> accepts nothing else.
\<close>

type_synonym write_batch = bytes

definition kHeader :: nat where "kHeader = 12"

lemma kHeader_nat [simp]: "kHeader = 12" by (simp add: kHeader_def)

record 'h batch_handler =
  on_put :: "slice \<Rightarrow> slice \<Rightarrow> 'h \<Rightarrow> 'h"
  on_delete :: "slice \<Rightarrow> 'h \<Rightarrow> 'h"

definition batch_Clear :: write_batch where
  "batch_Clear = replicate kHeader 0"

definition ApproximateSize :: "write_batch \<Rightarrow> nat" where
  "ApproximateSize rep = length rep"

definition batch_Count :: "write_batch \<Rightarrow> u32" where
  "batch_Count rep = DecodeFixed32 (drop 8 rep)"

definition batch_SetCount :: "write_batch \<Rightarrow> u32 \<Rightarrow> write_batch" where
  "batch_SetCount rep n = take 8 rep @ EncodeFixed32 n @ drop 12 rep"

definition batch_Sequence :: "write_batch \<Rightarrow> u64" where
  "batch_Sequence rep = DecodeFixed64 rep"

definition batch_SetSequence :: "write_batch \<Rightarrow> u64 \<Rightarrow> write_batch" where
  "batch_SetSequence rep seq = EncodeFixed64 seq @ drop 8 rep"

definition batch_Put :: "write_batch \<Rightarrow> slice \<Rightarrow> slice \<Rightarrow> write_batch" where
  "batch_Put rep k v =
     (let rep = batch_SetCount rep (batch_Count rep + 1);
          rep = rep @ [kTypeValue];
          rep = PutLengthPrefixedSlice rep k
      in PutLengthPrefixedSlice rep v)"

definition batch_Delete :: "write_batch \<Rightarrow> slice \<Rightarrow> write_batch" where
  "batch_Delete rep k =
     (let rep = batch_SetCount rep (batch_Count rep + 1);
          rep = rep @ [kTypeDeletion]
      in PutLengthPrefixedSlice rep k)"

definition batch_SetContents :: "slice \<Rightarrow> write_batch" where
  "batch_SetContents contents = contents"

definition batch_Append :: "write_batch \<Rightarrow> write_batch \<Rightarrow> write_batch" where
  "batch_Append dst src =
     (let dst = batch_SetCount dst (batch_Count dst + batch_Count src) in dst @ drop kHeader src)"

text \<open>One record off the input: \<open>Inl\<close> the error, or the handler's new state with the input left.\<close>

definition batch_record :: "'h batch_handler \<Rightarrow> slice \<Rightarrow> 'h \<Rightarrow> status + slice \<times> 'h" where
  "batch_record handler input h =
     (let tag = input ! 0;
          input = remove_prefix input 1
      in if tag = kTypeValue then
           (case GetLengthPrefixedSlice input of
              (Some k, input) \<Rightarrow>
                (case GetLengthPrefixedSlice input of
                   (Some v, input) \<Rightarrow> Inr (input, on_put handler k v h)
                 | (None, input) \<Rightarrow> Inl (status_Corruption (c_str ''bad WriteBatch Put'') []))
            | (None, input) \<Rightarrow> Inl (status_Corruption (c_str ''bad WriteBatch Put'') []))
         else if tag = kTypeDeletion then
           (case GetLengthPrefixedSlice input of
              (Some k, input) \<Rightarrow> Inr (input, on_delete handler k h)
            | (None, input) \<Rightarrow> Inl (status_Corruption (c_str ''bad WriteBatch Delete'') []))
         else Inl (status_Corruption (c_str ''unknown WriteBatch tag'') []))"

lemma prefixed_shorter: "GetLengthPrefixedSlice s = (Some x, rest) \<Longrightarrow> length rest < length s"
  by (rule prefixed.get_fails_or_shrinks)

lemma batch_record_shorter:
  "batch_record handler input h = Inr (rest, h') \<Longrightarrow> input \<noteq> [] \<Longrightarrow> length rest < length input"
  by (auto simp: batch_record_def Let_def remove_prefix_def split: if_splits option.splits prod.splits
      dest!: prefixed_shorter)

function batch_loop :: "'h batch_handler \<Rightarrow> slice \<Rightarrow> nat \<Rightarrow> 'h \<Rightarrow> (status + nat) \<times> 'h" where
  "batch_loop handler input found h =
     (if input = [] then (Inr found, h)
      else
        (case batch_record handler input h of
           Inl s \<Rightarrow> (Inl s, h)
         | Inr (input, h) \<Rightarrow> batch_loop handler input (found + 1) h))"
  by pat_completeness auto
termination
  by (relation "measure (\<lambda>(handler, input, found, h). length input)") (auto dest: batch_record_shorter)

declare batch_loop.simps [simp del]

definition batch_Iterate :: "'h batch_handler \<Rightarrow> write_batch \<Rightarrow> 'h \<Rightarrow> status \<times> 'h" where
  "batch_Iterate handler rep h =
     (let input = rep in
      if length input < kHeader then (status_Corruption (c_str ''malformed WriteBatch (too small)'') [], h)
      else
        (case batch_loop handler (remove_prefix input kHeader) 0 h of
           (Inl s, h) \<Rightarrow> (s, h)
         | (Inr found, h) \<Rightarrow>
             if of_nat found \<noteq> batch_Count rep
             then (status_Corruption (c_str ''WriteBatch has wrong count'') [], h)
             else (status_OK, h)))"

section \<open>What a batch means\<close>

datatype batch_op = Put_op slice slice | Delete_op slice

fun op_bytes :: "batch_op \<Rightarrow> bytes" where
  "op_bytes (Put_op k v) = kTypeValue # PutLengthPrefixedSlice [] k @ PutLengthPrefixedSlice [] v"
| "op_bytes (Delete_op k) = kTypeDeletion # PutLengthPrefixedSlice [] k"

fun op_fits :: "batch_op \<Rightarrow> bool" where
  "op_fits (Put_op k v) \<longleftrightarrow> length k < 2 ^ 32 \<and> length v < 2 ^ 32"
| "op_fits (Delete_op k) \<longleftrightarrow> length k < 2 ^ 32"

fun handle_op :: "'h batch_handler \<Rightarrow> batch_op \<Rightarrow> 'h \<Rightarrow> 'h" where
  "handle_op handler (Put_op k v) h = on_put handler k v h"
| "handle_op handler (Delete_op k) h = on_delete handler k h"

fun batch_add :: "write_batch \<Rightarrow> batch_op \<Rightarrow> write_batch" where
  "batch_add rep (Put_op k v) = batch_Put rep k v"
| "batch_add rep (Delete_op k) = batch_Delete rep k"

text \<open>A batch that holds the operations \<open>ops\<close> with the sequence number \<open>seq\<close>.\<close>

definition holds :: "write_batch \<Rightarrow> u64 \<Rightarrow> batch_op list \<Rightarrow> bool" where
  "holds rep seq ops \<longleftrightarrow>
     rep = EncodeFixed64 seq @ EncodeFixed32 (of_nat (length ops)) @ concat (map op_bytes ops)"

lemma put_prefixed: "PutLengthPrefixedSlice dst v = dst @ PutLengthPrefixedSlice [] v"
  by (rule prefixed.put_appends)

lemma holds_parts:
  assumes "holds rep seq ops"
  shows "batch_Count rep = of_nat (length ops)" and "batch_Sequence rep = seq"
    and "drop 12 rep = concat (map op_bytes ops)" and "12 \<le> length rep"
    and "batch_SetCount rep n = EncodeFixed64 seq @ EncodeFixed32 n @ concat (map op_bytes ops)"
  using assms by (simp_all add: holds_def batch_Count_def batch_Sequence_def batch_SetCount_def)

lemma holds_Clear: "holds batch_Clear 0 []"
proof -
  have "replicate 12 (0 :: u8) = [0, 0, 0, 0, 0, 0, 0, 0, 0, 0, 0, 0]" by (simp add: numeral_eq_Suc)
  then show ?thesis
    by (simp add: holds_def batch_Clear_def EncodeFixed64_eq EncodeFixed32_eq le_bytes_4 le_bytes_8)
qed

lemma batch_add_bytes:
  "batch_add rep op = batch_SetCount rep (batch_Count rep + 1) @ op_bytes op"
proof (cases op)
  case (Put_op k v)
  let ?rep = "batch_SetCount rep (batch_Count rep + 1) @ [kTypeValue]"
  show ?thesis
    using put_prefixed [of ?rep k] put_prefixed [of "PutLengthPrefixedSlice ?rep k" v]
    by (simp add: Put_op batch_Put_def Let_def)
next
  case (Delete_op k)
  show ?thesis
    using put_prefixed [of "batch_SetCount rep (batch_Count rep + 1) @ [kTypeDeletion]" k]
    by (simp add: Delete_op batch_Delete_def Let_def)
qed

lemma holds_add:
  assumes "holds rep seq ops"
  shows "holds (batch_add rep op) seq (ops @ [op])"
  unfolding batch_add_bytes holds_parts(5) [OF assms] holds_parts(1) [OF assms] holds_def
  by (simp add: add.commute)

lemma holds_SetSequence: "holds rep seq ops \<Longrightarrow> holds (batch_SetSequence rep seq') seq' ops"
  by (simp add: holds_def batch_SetSequence_def)

lemma holds_Append: "holds rep seq ops \<Longrightarrow> holds rep' seq' ops' \<Longrightarrow> holds (batch_Append rep rep') seq (ops @ ops')"
  by (simp add: batch_Append_def Let_def holds_parts) (simp add: holds_def)

lemma batch_record_op:
  "op_fits op \<Longrightarrow> batch_record handler (op_bytes op @ rest) h = Inr (rest, handle_op handler op h)"
  by (cases op)
    (simp_all add: batch_record_def remove_prefix_def prefixed.get_put kTypeValue_def kTypeDeletion_def Let_def)

lemma batch_loop_ops:
  "list_all op_fits ops \<Longrightarrow>
     batch_loop handler (concat (map op_bytes ops)) found h = (Inr (found + length ops), fold (handle_op handler) ops h)"
proof (induction ops arbitrary: found h)
  case Nil
  show ?case by (subst batch_loop.simps) simp
next
  case (Cons op ops)
  have "op_bytes op \<noteq> []" by (cases op) simp_all
  then show ?case
    using Cons by (subst batch_loop.simps) (simp add: batch_record_op)
qed

lemma Iterate_holds:
  assumes "holds rep seq ops" and "list_all op_fits ops"
  shows "batch_Iterate handler rep h = (status_OK, fold (handle_op handler) ops h)"
proof -
  note parts = holds_parts(1,3,4) [OF assms(1)]
  show ?thesis
    using parts batch_loop_ops [OF assms(2), of handler 0 h]
    by (simp add: batch_Iterate_def remove_prefix_def)
qed

text \<open>
  C23. Round trip: \<open>Iterate\<close> hands to its handler exactly the puts and deletions that were made on
  the batch, in their order, and returns OK.
\<close>
theorem batch_roundtrip:
  assumes "list_all op_fits ops"
  shows "batch_Iterate handler (foldl batch_add batch_Clear ops) h = (status_OK, fold (handle_op handler) ops h)"
proof -
  have "holds (foldl batch_add batch_Clear ops) 0 ops"
    using holds_add by (induction ops rule: rev_induct) (simp_all add: holds_Clear)
  then show ?thesis using assms by (rule Iterate_holds)
qed

lemma batch_roundtrip_witness:
  "batch_Iterate \<lparr>on_put = \<lambda>k v h. h @ [(k, v)], on_delete = \<lambda>k h. h @ [(k, [])]\<rparr>
     (foldl batch_add batch_Clear [Put_op [1] [2], Delete_op [3]]) [] = (status_OK, [([1], [2]), ([3], [])])"
  using batch_roundtrip [of "[Put_op [1] [2], Delete_op [3]]"
      "\<lparr>on_put = \<lambda>k v h. h @ [(k, v)], on_delete = \<lambda>k h. h @ [(k, [])]\<rparr>" "[]"] by simp

end

