(* ===== verification/LdbMemTable.thy ===== *)
theory LdbMemTable
  imports LdbSkipList LdbBatch
begin

text \<open>
  \<open>leveldb-library/db/memtable.h\<close>, \<open>memtable.cc\<close> and the inserter of \<open>write_batch.cc\<close>. The keys of the
  skip list are pointers to encoded entries; the model keeps the bytes they point to. A call that
  would run into undefined behaviour in the skip list is \<open>None\<close>. What an entry means is a record
  \<open>mem_entry\<close>; the lemmas show that a lookup finds the newest entry of a key that its snapshot sees,
  in the table that any additions made, first for the table alone and then for a batch put into it.
  The arena the entries live in is a theory of its own.
\<close>

section \<open>Entries\<close>

text \<open>
  \<open>GetVarint32Ptr(p, p + 5, &len)\<close> on data that goes on: the number and the rest. The code assumes
  that it does not fail; the model gives an empty slice then.
\<close>

definition varint32_at :: "bytes \<Rightarrow> (u32 \<times> bytes) option" where
  "varint32_at p =
     (case GetVarint32Ptr (take 5 p) of
        None \<Rightarrow> None
      | Some (v, q) \<Rightarrow> Some (v, drop (length (take 5 p) - length q) p))"

definition mem_slice :: "bytes \<Rightarrow> slice \<times> bytes" where
  "mem_slice data =
     (case varint32_at data of
        None \<Rightarrow> ([], data)
      | Some (len, p) \<Rightarrow> (take (unat len) p, drop (unat len) p))"

definition mem_compare :: "comparator \<Rightarrow> bytes \<Rightarrow> bytes \<Rightarrow> int" where
  "mem_compare user aptr bptr =
     (let a = fst (mem_slice aptr);
          b = fst (mem_slice bptr)
      in Compare (InternalKeyComparator user) a b)"

definition EncodeKey :: "slice \<Rightarrow> bytes" where
  "EncodeKey target = PutVarint32 [] (of_nat (length target)) @ target"

section \<open>The table\<close>

record mem_table =
  mem_user :: comparator
  mem_refs :: int
  mem_list :: "bytes skip_list"

definition make_MemTable :: "comparator \<Rightarrow> mem_table" where
  "make_MemTable user = \<lparr>mem_user = user, mem_refs = 0, mem_list = make_SkipList []\<rparr>"

definition mem_Ref :: "mem_table \<Rightarrow> mem_table" where
  "mem_Ref m = m\<lparr>mem_refs := mem_refs m + 1\<rparr>"

text \<open>\<open>None\<close>: the table is deleted.\<close>

definition mem_Unref :: "mem_table \<Rightarrow> mem_table option" where
  "mem_Unref m =
     (let m = m\<lparr>mem_refs := mem_refs m - 1\<rparr> in if mem_refs m \<le> 0 then None else Some m)"

definition encoded_len :: "slice \<Rightarrow> slice \<Rightarrow> nat" where
  "encoded_len key value =
     (let key_size = length key;
          val_size = length value;
          internal_key_size = key_size + 8
      in VarintLength (of_nat internal_key_size) + internal_key_size + VarintLength (of_nat val_size) + val_size)"

definition encode_entry :: "u64 \<Rightarrow> u8 \<Rightarrow> slice \<Rightarrow> slice \<Rightarrow> bytes" where
  "encode_entry s type key value =
     EncodeVarint32 (of_nat (length key + 8)) @ key @ EncodeFixed64 (push_bit 8 s OR ucast type) @
     EncodeVarint32 (of_nat (length value)) @ value"

definition mem_Add :: "u64 \<Rightarrow> u8 \<Rightarrow> slice \<Rightarrow> slice \<Rightarrow> mem_table \<Rightarrow> mem_table option" where
  "mem_Add s type key value m =
     map_option (\<lambda>l. m\<lparr>mem_list := l\<rparr>)
       (skip_Insert (mem_compare (mem_user m)) (mem_list m) (encode_entry s type key value))"

text \<open>The result with \<open>*value\<close> and \<open>*s\<close>, which are as before where the code does not set them.\<close>

definition mem_Get :: "lookup_key \<Rightarrow> bytes \<Rightarrow> status \<Rightarrow> mem_table \<Rightarrow> (bool \<times> bytes \<times> status) option" where
  "mem_Get key value s m =
     (let memkey = memtable_key key in
      Option.bind (iter_Seek (mem_compare (mem_user m)) (mem_list m) memkey) (\<lambda>iter.
        if iter_Valid iter then
          let entry = iter_key (mem_list m) iter in
          Option.bind (varint32_at entry) (\<lambda>(key_length, key_ptr).
            let n = unat key_length in
            if Compare (mem_user m) (take (n - 8) key_ptr) (lookup_user_key key) = 0 then
              let tag = DecodeFixed64 (drop (n - 8) key_ptr);
                  type = ucast (tag AND 0xff) :: u8
              in if type = kTypeValue then
                   let v = fst (mem_slice (drop n key_ptr)) in Some (True, v, s)
                 else if type = kTypeDeletion then Some (True, value, status_NotFound [] [])
                 else Some (False, value, s)
            else Some (False, value, s))
        else Some (False, value, s)))"

text \<open>The iterator of the table, on the node of the list's iterator.\<close>

definition mem_iter_Seek :: "mem_table \<Rightarrow> slice \<Rightarrow> node_ptr option" where
  "mem_iter_Seek m k = iter_Seek (mem_compare (mem_user m)) (mem_list m) (EncodeKey k)"

definition mem_iter_key :: "mem_table \<Rightarrow> node_ptr \<Rightarrow> slice" where
  "mem_iter_key m node = fst (mem_slice (iter_key (mem_list m) node))"

definition mem_iter_value :: "mem_table \<Rightarrow> node_ptr \<Rightarrow> slice" where
  "mem_iter_value m node = fst (mem_slice (snd (mem_slice (iter_key (mem_list m) node))))"

section \<open>The inserter of a batch\<close>

text \<open>\<open>MemTableInserter\<close>: its sequence number and the table, \<open>None\<close> after undefined behaviour.\<close>

type_synonym inserter = "u64 \<times> mem_table option"

definition inserter_Put :: "slice \<Rightarrow> slice \<Rightarrow> inserter \<Rightarrow> inserter" where
  "inserter_Put key value st =
     (case st of (sequence_, table) \<Rightarrow> (sequence_ + 1, Option.bind table (mem_Add sequence_ kTypeValue key value)))"

definition inserter_Delete :: "slice \<Rightarrow> inserter \<Rightarrow> inserter" where
  "inserter_Delete key st =
     (case st of (sequence_, table) \<Rightarrow> (sequence_ + 1, Option.bind table (mem_Add sequence_ kTypeDeletion key [])))"

definition MemTableInserter :: "inserter batch_handler" where
  "MemTableInserter = \<lparr>on_put = inserter_Put, on_delete = inserter_Delete\<rparr>"

definition InsertInto :: "write_batch \<Rightarrow> mem_table \<Rightarrow> status \<times> mem_table option" where
  "InsertInto b memtable =
     (case batch_Iterate MemTableInserter b (batch_Sequence b, Some memtable) of (s, (_, m)) \<Rightarrow> (s, m))"

section \<open>Entries have an order\<close>

lemma varint32_at_leb128:
  assumes "n < 2 ^ 32"
  shows "varint32_at (leb128 n @ rest) = Some (of_nat n, rest)"
proof -
  have l: "length (leb128 n) \<le> 5" using length_leb128_32 [of "of_nat n"] assms by (simp add: unat_of_nat_u32)
  then have "GetVarint32Ptr (take 5 (leb128 n @ rest)) = Some (of_nat n, take (5 - length (leb128 n)) rest)"
    using GetVarint32Ptr_nat [OF assms] by simp
  then show ?thesis using l by (simp add: varint32_at_def min_def)
qed

lemma encoded_32: "n < 2 ^ 32 \<Longrightarrow> EncodeVarint32 (of_nat n) = leb128 n"
  by (simp add: EncodeVarint32_eq unat_of_nat_u32)

lemma mem_slice_prefixed:
  "length s < 2 ^ 32 \<Longrightarrow> mem_slice (EncodeVarint32 (of_nat (length s)) @ s @ rest) = (s, rest)"
  by (simp add: encoded_32 mem_slice_def varint32_at_leb128 unat_of_nat_u32)

text \<open>An entry or a lookup key: a prefixed internal key, whatever follows.\<close>

definition mem_valid :: "bytes \<Rightarrow> bool" where
  "mem_valid b \<longleftrightarrow> 8 \<le> length (fst (mem_slice b))"

lemma mem_compare_less_trans:
  assumes "mem_valid a" and "mem_valid b" and "mem_valid c"
    and "mem_compare BytewiseComparator a b < 0" and "mem_compare BytewiseComparator b c < 0"
  shows "mem_compare BytewiseComparator a c < 0"
  using assms bytewise.internal.less_trans
  unfolding mem_compare_def Let_def mem_valid_def by blast

lemma mem_compare_greater:
  assumes "mem_valid a" and "mem_valid b"
  shows "0 < mem_compare BytewiseComparator a b \<longleftrightarrow> mem_compare BytewiseComparator b a < 0"
  using assms bytewise.internal.greater
  unfolding mem_compare_def Let_def mem_valid_def by blast

interpretation mem: skip_order "mem_compare BytewiseComparator" mem_valid
  by unfold_locales (fact mem_compare_less_trans mem_compare_greater)+

section \<open>What the table holds\<close>

record mem_entry =
  en_key :: slice
  en_seq :: u64
  en_type :: u8
  en_value :: slice

definition entry_ok :: "mem_entry \<Rightarrow> bool" where
  "entry_ok e \<longleftrightarrow> en_seq e \<le> kMaxSequenceNumber \<and> en_type e \<le> kTypeValue \<and>
     length (en_key e) + 8 < 2 ^ 32 \<and> length (en_value e) < 2 ^ 32"

definition entry_bytes :: "mem_entry \<Rightarrow> bytes" where
  "entry_bytes e = encode_entry (en_seq e) (en_type e) (en_key e) (en_value e)"

definition entry_ikey :: "mem_entry \<Rightarrow> bytes" where
  "entry_ikey e = AppendInternalKey [] \<lparr>user_key = en_key e, sequence = en_seq e, value_type = en_type e\<rparr>"

definition mem_holds :: "mem_table \<Rightarrow> mem_entry list \<Rightarrow> bool" where
  "mem_holds m es \<longleftrightarrow>
     mem_user m = BytewiseComparator \<and> list_all entry_ok es \<and> distinct (map en_seq es) \<and>
     (\<exists>ks. skip_holds (mem_compare BytewiseComparator) mem_valid (mem_list m) ks \<and> mset ks = mset (map entry_bytes es))"

fun newest :: "mem_entry list \<Rightarrow> mem_entry option" where
  "newest [] = None"
| "newest (e # es) =
     (case newest es of
        None \<Rightarrow> Some e
      | Some f \<Rightarrow> if en_seq f < en_seq e then Some e else Some f)"

text \<open>What a lookup means: the newest entry of the key among those the snapshot \<open>s\<close> sees.\<close>

definition mem_lookup :: "mem_entry list \<Rightarrow> slice \<Rightarrow> u64 \<Rightarrow> bytes \<Rightarrow> status \<Rightarrow> bool \<times> bytes \<times> status" where
  "mem_lookup es u s value st =
     (case newest (filter (\<lambda>e. en_key e = u \<and> en_seq e \<le> s) es) of
        None \<Rightarrow> (False, value, st)
      | Some e \<Rightarrow>
          if en_type e = kTypeValue then (True, en_value e, st) else (True, value, status_NotFound [] []))"

lemma newest_None: "newest es = None \<longleftrightarrow> es = []"
  by (cases es) (auto split: option.splits)

lemma newest_max:
  "newest es = Some g \<Longrightarrow> g \<in> set es \<and> (\<forall>f \<in> set es. en_seq f \<le> en_seq g)"
proof (induction es arbitrary: g)
  case (Cons e es)
  show ?case
  proof (cases "newest es")
    case None
    then show ?thesis using Cons.prems by (simp add: newest_None)
  next
    case (Some f)
    then show ?thesis using Cons.IH [OF Some] Cons.prems by (auto split: if_splits)
  qed
qed simp

lemma newest_eq:
  assumes "e \<in> set es" and "\<And>f. f \<in> set es \<Longrightarrow> en_seq f \<le> en_seq e" and "inj_on en_seq (set es)"
  shows "newest es = Some e"
proof (cases "newest es")
  case None
  then show ?thesis using assms(1) by (simp add: newest_None)
next
  case (Some g)
  have "en_seq g = en_seq e" using newest_max [OF Some] assms(1,2) by (auto intro: order_antisym)
  then show ?thesis using Some newest_max [OF Some] assms(1,3) by (auto dest: inj_onD)
qed

lemma entry_parts:
  "entry_bytes e = EncodeVarint32 (of_nat (length (entry_ikey e))) @ entry_ikey e @
     EncodeVarint32 (of_nat (length (en_value e))) @ en_value e"
  "length (entry_ikey e) = length (en_key e) + 8"
  by (simp_all add: entry_bytes_def encode_entry_def entry_ikey_def append_internal PackSequenceAndType_def)

lemma entry_slice:
  "entry_ok e \<Longrightarrow> mem_slice (entry_bytes e) = (entry_ikey e, EncodeVarint32 (of_nat (length (en_value e))) @ en_value e)"
  unfolding entry_parts(1) by (rule mem_slice_prefixed) (simp add: entry_parts entry_ok_def)

lemma entry_valid: "entry_ok e \<Longrightarrow> mem_valid (entry_bytes e)"
  by (simp add: mem_valid_def entry_slice entry_parts(2))

text \<open>The buffer of an entry is exactly as long as the bytes written into it.\<close>

lemma entry_fills_buffer:
  assumes "length key + 8 < 2 ^ 32" and "length value < 2 ^ 32"
  shows "length (encode_entry s type key value) = encoded_len key value"
proof -
  have "length (EncodeVarint32 (of_nat n)) = VarintLength (of_nat n)" if "n < 2 ^ 32" for n
    using that by (simp add: encoded_32 VarintLength_eq EncodeVarint64_eq unat_of_nat_u64)
  then show ?thesis using assms by (simp add: encode_entry_def encoded_len_def Let_def del: of_nat_add)
qed

lemma entry_less:
  assumes "entry_ok e" and "entry_ok f"
  shows "mem_compare BytewiseComparator (entry_bytes e) (entry_bytes f) < 0 \<longleftrightarrow>
    bytes_less (en_key e) (en_key f) \<or>
    en_key e = en_key f \<and> (en_seq f < en_seq e \<or> en_seq f = en_seq e \<and> en_type f < en_type e)"
  unfolding mem_compare_def Let_def entry_slice [OF assms(1)] entry_slice [OF assms(2)] fst_conv entry_ikey_def
  by (subst internal_key_less) (use assms in \<open>simp_all add: entry_ok_def\<close>)

definition lookup_bytes :: "slice \<Rightarrow> u64 \<Rightarrow> bytes" where
  "lookup_bytes u s = memtable_key (make_LookupKey u s)"

lemma lookup_slice:
  assumes "length u + 8 < 2 ^ 32"
  shows "mem_slice (lookup_bytes u s) =
    (AppendInternalKey [] \<lparr>user_key = u, sequence = s, value_type = kValueTypeForSeek\<rparr>, [])"
proof -
  let ?k = "AppendInternalKey [] \<lparr>user_key = u, sequence = s, value_type = kValueTypeForSeek\<rparr>"
  have "lookup_bytes u s = EncodeVarint32 (of_nat (length ?k)) @ ?k @ []"
    by (simp add: lookup_bytes_def memtable_key_def make_LookupKey_def append_internal Let_def)
  moreover have "length ?k < 2 ^ 32" using assms by (simp add: append_internal)
  ultimately show ?thesis using mem_slice_prefixed [of ?k "[]"] by simp
qed

lemma lookup_valid: "length u + 8 < 2 ^ 32 \<Longrightarrow> mem_valid (lookup_bytes u s)"
  by (simp add: mem_valid_def lookup_slice append_internal)

lemma entry_before_lookup:
  assumes "entry_ok e" and "length u + 8 < 2 ^ 32" and "s \<le> kMaxSequenceNumber"
  shows "mem_compare BytewiseComparator (entry_bytes e) (lookup_bytes u s) < 0 \<longleftrightarrow>
    bytes_less (en_key e) u \<or> en_key e = u \<and> s < en_seq e"
proof -
  have "\<not> kValueTypeForSeek < en_type e" using assms(1) by (simp add: entry_ok_def kValueTypeForSeek_def not_less)
  then show ?thesis
    unfolding mem_compare_def Let_def entry_slice [OF assms(1)] lookup_slice [OF assms(2)] fst_conv entry_ikey_def
    by (subst internal_key_less) (use assms in \<open>simp_all add: entry_ok_def\<close>)
qed

lemma mem_holds_empty: "mem_holds (make_MemTable BytewiseComparator) []"
  by (auto simp: mem_holds_def make_MemTable_def intro: skip_holds_empty)

lemma mem_holds_Add:
  assumes "mem_holds m es" and "entry_ok e" and "en_seq e \<notin> en_seq ` set es"
  shows "\<exists>m'. mem_Add (en_seq e) (en_type e) (en_key e) (en_value e) m = Some m' \<and> mem_holds m' (es @ [e])"
proof -
  obtain ks where ks: "mem_user m = BytewiseComparator" "skip_holds (mem_compare BytewiseComparator) mem_valid (mem_list m) ks"
    "mset ks = mset (map entry_bytes es)" "list_all entry_ok es" "distinct (map en_seq es)"
    using assms(1) by (auto simp: mem_holds_def)
  have in_ks: "set ks = entry_bytes ` set es" using ks(3) by (metis list.set_map mset_eq_setD)
  have fresh: "mem_compare BytewiseComparator x (entry_bytes e) \<noteq> 0" if "x \<in> set ks" for x
  proof -
    obtain f where f: "x = entry_bytes f" "f \<in> set es" using \<open>x \<in> set ks\<close> in_ks by auto
    have ok: "entry_ok f" using f(2) ks(4) by (simp add: list_all_iff)
    have ne: "en_seq f \<noteq> en_seq e" using assms(3) f(2) by (metis imageI)
    have "mem_compare BytewiseComparator x (entry_bytes e) < 0 \<or> mem_compare BytewiseComparator (entry_bytes e) x < 0"
      unfolding f(1) entry_less [OF ok assms(2)] entry_less [OF assms(2) ok]
      using bytes_less_linear [of "en_key f" "en_key e"] ne by auto
    then show ?thesis
      using mem_compare_greater [of x "entry_bytes e"] entry_valid [OF ok] entry_valid [OF assms(2)] f(1) by auto
  qed
  obtain l where l: "skip_Insert (mem_compare BytewiseComparator) (mem_list m) (entry_bytes e) = Some l"
    "skip_holds (mem_compare BytewiseComparator) mem_valid l
       (takeWhile (\<lambda>x. mem_compare BytewiseComparator x (entry_bytes e) < 0) ks @ entry_bytes e #
        dropWhile (\<lambda>x. mem_compare BytewiseComparator x (entry_bytes e) < 0) ks)"
    using mem.skip.holds_insert [OF ks(2) entry_valid [OF assms(2)]] fresh by blast
  have "mset (takeWhile P ks @ entry_bytes e # dropWhile P ks) = mset ks + {#entry_bytes e#}" for P
    by (metis mset.simps(2) mset_append takeWhile_dropWhile_id union_mset_add_mset_right add_mset_add_single)
  then show ?thesis
    using l ks assms(2,3) by (auto simp: mem_Add_def mem_holds_def entry_bytes_def [symmetric])
qed

lemma sorted_first:
  assumes "sorted_wrt (\<lambda>x y. cmp x y < 0) ks" and "find P ks = Some y" and "z \<in> set ks" and "P z"
  shows "z = y \<or> cmp y z < (0 :: int)"
proof -
  from find_Some_split [OF assms(2)] obtain us vs where "ks = us @ y # vs" "\<forall>u \<in> set us. \<not> P u" by blast
  then show ?thesis using assms(1,3,4) by (auto simp: sorted_wrt_append)
qed

lemma pack_type:
  assumes "s \<le> kMaxSequenceNumber"
  shows "(ucast (PackSequenceAndType s t AND 0xff) :: u8) = t"
proof -
  have "(ucast (PackSequenceAndType s t AND 0xff) :: u8) = word_of_nat (unat (PackSequenceAndType s t))"
    by (rule byte_at_0)
  then show ?thesis by (simp only: unat_pack [OF assms] low_byte_of_sum)
qed

lemma Get_at_entry:
  assumes "mem_user m = BytewiseComparator"
    and "iter_Seek (mem_compare BytewiseComparator) (mem_list m) (lookup_bytes u s) = Some (Some x)"
    and "node_key_at (mem_list m) x = entry_bytes e" and "entry_ok e"
  shows "mem_Get (make_LookupKey u s) value st m =
    Some (if en_key e = u
      then (if en_type e = kTypeValue then (True, en_value e, st) else (True, value, status_NotFound [] []))
      else (False, value, st))"
proof -
  let ?n = "length (en_key e) + 8"
  let ?p = "entry_ikey e @ EncodeVarint32 (of_nat (length (en_value e))) @ en_value e"
  have parse: "varint32_at (entry_bytes e) = Some (of_nat ?n, ?p)"
    using assms(4) unfolding entry_parts(1) entry_parts(2)
    by (simp add: encoded_32 entry_ok_def varint32_at_leb128 del: of_nat_add)
  have n: "unat (of_nat ?n :: u32) = ?n" using assms(4) by (intro unat_of_nat_u32) (simp add: entry_ok_def)
  have k: "take (?n - 8) ?p = en_key e"
    "DecodeFixed64 (drop (?n - 8) ?p) = PackSequenceAndType (en_seq e) (en_type e)"
    by (simp_all add: entry_ikey_def append_internal)
  have v: "mem_slice (drop ?n ?p) = (en_value e, [])"
    using mem_slice_prefixed [of "en_value e" "[]"] assms(4) entry_parts(2) [of e] by (simp add: entry_ok_def)
  have t: "ucast (PackSequenceAndType (en_seq e) (en_type e) AND 0xff) = en_type e"
    using assms(4) by (simp only: pack_type entry_ok_def)
  have types: "en_type e = kTypeValue \<or> en_type e = kTypeDeletion"
    using assms(4) by (auto simp: entry_ok_def kTypeValue_def kTypeDeletion_def word_le_nat_alt word_unat_eq_iff le_Suc_eq)
  have eq: "Compare BytewiseComparator (en_key e) u = 0 \<longleftrightarrow> en_key e = u"
    by (simp add: BytewiseComparator_def slice_compare_value)
  show ?thesis
    unfolding mem_Get_def Let_def assms(1) lookup_bytes_def [symmetric] assms(2) bind.simps iter_Valid_def
      iter_key_def option.sel assms(3) parse prod.case n k v t eq lookup_key_parts(1) fst_conv
    using types by (auto simp: kTypeValue_def kTypeDeletion_def)
qed

lemma holds_Get:
  assumes "mem_holds m es" and "length u + 8 < 2 ^ 32" and "s \<le> kMaxSequenceNumber"
  shows "mem_Get (make_LookupKey u s) value st m = Some (mem_lookup es u s value st)"
proof -
  let ?cmp = "mem_compare BytewiseComparator"
  let ?visible = "filter (\<lambda>e. en_key e = u \<and> en_seq e \<le> s) es"
  obtain ks where ks: "mem_user m = BytewiseComparator" "skip_holds ?cmp mem_valid (mem_list m) ks"
    "mset ks = mset (map entry_bytes es)" "list_all entry_ok es" "distinct (map en_seq es)"
    using assms(1) by (auto simp: mem_holds_def)
  have in_ks: "set ks = entry_bytes ` set es" using ks(3) by (metis list.set_map mset_eq_setD)
  have ok: "e \<in> set es \<Longrightarrow> entry_ok e" for e using ks(4) by (simp add: list_all_iff)
  have sorted: "sorted_wrt (\<lambda>x y. ?cmp x y < 0) ks" by (rule mem.skip.holds_sorted [OF ks(2)])
  have seek: "skip_seek ?cmp (mem_list m) (lookup_bytes u s) = Some (find (\<lambda>x. \<not> ?cmp x (lookup_bytes u s) < 0) ks)"
    by (rule mem.skip.seek_first [OF ks(2) lookup_valid [OF assms(2)]])
  then obtain iter where iter: "iter_Seek ?cmp (mem_list m) (lookup_bytes u s) = Some iter"
    "map_option (node_key_at (mem_list m)) iter = find (\<lambda>x. \<not> ?cmp x (lookup_bytes u s) < 0) ks"
    by (auto simp: skip_seek_def)
  show ?thesis
  proof (cases iter)
    case None
    then have "find (\<lambda>x. \<not> ?cmp x (lookup_bytes u s) < 0) ks = None" using iter(2) by simp
    then have "?visible = []"
      using in_ks entry_before_lookup [OF ok assms(2,3)] by (fastforce simp: find_None_iff filter_empty_conv)
    then show ?thesis
      using iter(1) None ks(1) by (simp add: mem_Get_def mem_lookup_def iter_Valid_def Let_def lookup_bytes_def)
  next
    case (Some x)
    then have find: "find (\<lambda>x. \<not> ?cmp x (lookup_bytes u s) < 0) ks = Some (node_key_at (mem_list m) x)"
      using iter(2) by simp
    have k: "node_key_at (mem_list m) x \<in> set ks" "\<not> ?cmp (node_key_at (mem_list m) x) (lookup_bytes u s) < 0"
      using find_Some_split [OF find] by auto
    then obtain e where e: "node_key_at (mem_list m) x = entry_bytes e" "e \<in> set es" using in_ks by auto
    note e_ok = ok [OF e(2)]
    have e_after: "\<not> bytes_less (en_key e) u" "en_key e = u \<Longrightarrow> en_seq e \<le> s"
      using k(2) unfolding e(1) entry_before_lookup [OF e_ok assms(2,3)] by auto
    have first: "\<not> ?cmp (entry_bytes f) (entry_bytes e) < 0" if "f \<in> set ?visible" for f
    proof -
      have f: "f \<in> set es" "entry_ok f" "entry_bytes f \<in> set ks" using that ok in_ks by auto
      have "\<not> ?cmp (entry_bytes f) (lookup_bytes u s) < 0"
        using that unfolding entry_before_lookup [OF f(2) assms(2,3)] by auto
      from sorted_first [OF sorted find f(3) this] have "entry_bytes f = entry_bytes e \<or> ?cmp (entry_bytes e) (entry_bytes f) < 0"
        unfolding e(1) .
      then show ?thesis
        using mem_compare_greater [OF entry_valid [OF f(2)] entry_valid [OF e_ok]]
          mem_compare_greater [OF entry_valid [OF e_ok] entry_valid [OF e_ok]] by auto
    qed
    have "iter_Seek ?cmp (mem_list m) (lookup_bytes u s) = Some (Some x)" using iter(1) Some by simp
    note run = Get_at_entry [OF ks(1) this e(1) e_ok, where st = st]
    show ?thesis
    proof (cases "en_key e = u")
      case True
      have "newest ?visible = Some e"
      proof (rule newest_eq)
        show "e \<in> set ?visible" using e(2) True e_after by simp
        show "en_seq f \<le> en_seq e" if "f \<in> set ?visible" for f
          using first [OF that] that ok True entry_less [OF ok e_ok, of f] by (auto simp: not_less)
        show "inj_on en_seq (set ?visible)" using ks(5) by (auto simp: distinct_map inj_on_def)
      qed
      then show ?thesis using run True by (simp add: mem_lookup_def)
    next
      case False
      have "?visible = []"
      proof (rule ccontr)
        assume "?visible \<noteq> []"
        then obtain f where f: "f \<in> set ?visible" by (cases ?visible) auto
        have "bytes_less u (en_key e)" using e_after(1) bytes_less_linear [of u "en_key e"] False by auto
        then have "?cmp (entry_bytes f) (entry_bytes e) < 0"
          using f entry_less [OF ok e_ok, of f] by auto
        then show False using first [OF f] by blast
      qed
      then show ?thesis using run False by (simp add: mem_lookup_def)
    qed
  qed
qed

section \<open>Batches in the table\<close>

fun op_key :: "batch_op \<Rightarrow> slice" where
  "op_key (Put_op k v) = k"
| "op_key (Delete_op k) = k"

fun op_entry :: "u64 \<Rightarrow> batch_op \<Rightarrow> mem_entry" where
  "op_entry q (Put_op k v) = \<lparr>en_key = k, en_seq = q, en_type = kTypeValue, en_value = v\<rparr>"
| "op_entry q (Delete_op k) = \<lparr>en_key = k, en_seq = q, en_type = kTypeDeletion, en_value = []\<rparr>"

fun op_small :: "batch_op \<Rightarrow> bool" where
  "op_small (Put_op k v) \<longleftrightarrow> length k + 8 < 2 ^ 32 \<and> length v < 2 ^ 32"
| "op_small (Delete_op k) \<longleftrightarrow> length k + 8 < 2 ^ 32"

text \<open>The entries of the operations, numbered from \<open>q\<close> on.\<close>

definition op_entries :: "nat \<Rightarrow> batch_op list \<Rightarrow> mem_entry list" where
  "op_entries q ops = map (\<lambda>i. op_entry (of_nat (q + i)) (ops ! i)) [0..<length ops]"

lemma op_entries_Nil [simp]: "op_entries q [] = []"
  by (simp add: op_entries_def)

lemma op_entries_snoc: "op_entries q (ops @ [op]) = op_entries q ops @ [op_entry (of_nat (q + length ops)) op]"
  by (simp add: op_entries_def nth_append)

lemma op_entry_fields [simp]:
  "en_key (op_entry q op) = op_key op" "en_seq (op_entry q op) = q"
  by (cases op; simp)+

lemma unat_of_nat_56: "n < 2 ^ 56 \<Longrightarrow> unat (of_nat n :: u64) = n"
  by (simp add: unat_of_nat_u64)

lemma op_entry_ok: "op_small op \<Longrightarrow> q < 2 ^ 56 \<Longrightarrow> entry_ok (op_entry (of_nat q) op)"
  by (cases op)
    (simp_all add: entry_ok_def kMaxSequenceNumber_def word_le_nat_alt unat_of_nat_u64 kTypeValue_def kTypeDeletion_def)

text \<open>The handler adds one entry per operation.\<close>

lemma handle_op_entry:
  "handle_op MemTableInserter op (q, Some m) =
     (q + 1, mem_Add (en_seq (op_entry q op)) (en_type (op_entry q op)) (en_key (op_entry q op)) (en_value (op_entry q op)) m)"
  by (cases op) (simp_all add: MemTableInserter_def inserter_Put_def inserter_Delete_def)

lemma holds_ops:
  assumes "mem_holds m es" and "list_all op_small ops" and "q + length ops \<le> 2 ^ 56"
    and "\<forall>e \<in> set es. unat (en_seq e) < q"
  shows "\<exists>m'. fold (handle_op MemTableInserter) ops (of_nat q, Some m) = (of_nat (q + length ops), Some m') \<and>
    mem_holds m' (es @ op_entries q ops) \<and> (\<forall>e \<in> set (es @ op_entries q ops). unat (en_seq e) < q + length ops)"
  using assms
proof (induction ops rule: rev_induct)
  case Nil
  then show ?case by auto
next
  case (snoc op ops)
  then obtain m' where m': "fold (handle_op MemTableInserter) ops (of_nat q, Some m) = (of_nat (q + length ops), Some m')"
    "mem_holds m' (es @ op_entries q ops)" "\<forall>e \<in> set (es @ op_entries q ops). unat (en_seq e) < q + length ops"
    by auto
  let ?e = "op_entry (of_nat (q + length ops)) op"
  have q: "q + length ops < 2 ^ 56" using snoc.prems(3) by simp
  then have seq: "unat (en_seq ?e) = q + length ops" using unat_of_nat_56 [OF q] by simp
  have "entry_ok ?e" using snoc.prems(2) q by (intro op_entry_ok) simp_all
  moreover have "en_seq ?e \<notin> en_seq ` set (es @ op_entries q ops)"
  proof
    assume "en_seq ?e \<in> en_seq ` set (es @ op_entries q ops)"
    then obtain f where "f \<in> set (es @ op_entries q ops)" "en_seq ?e = en_seq f" by blast
    then show False using m'(3) seq by fastforce
  qed
  ultimately obtain m'' where m'': "mem_Add (en_seq ?e) (en_type ?e) (en_key ?e) (en_value ?e) m' = Some m''"
    "mem_holds m'' ((es @ op_entries q ops) @ [?e])" using mem_holds_Add [OF m'(2)] by blast
  have "fold (handle_op MemTableInserter) (ops @ [op]) (of_nat q, Some m) = (of_nat (q + length (ops @ [op])), Some m'')"
    using m'(1) m''(1) handle_op_entry [of op "of_nat (q + length ops)" m'] by (simp add: add.assoc add.commute)
  moreover have "\<forall>e \<in> set (es @ op_entries q (ops @ [op])). unat (en_seq e) < q + length (ops @ [op])"
    using m'(3) seq by (auto simp: op_entries_snoc intro: less_SucI)
  ultimately show ?case using m''(2) by (auto simp: op_entries_snoc)
qed

text \<open>A batch with its operations and its sequence number, and many of them one after the other.\<close>

definition batch_of :: "nat \<Rightarrow> batch_op list \<Rightarrow> write_batch" where
  "batch_of q ops = batch_SetSequence (foldl batch_add batch_Clear ops) (of_nat q)"

fun insert_batches :: "write_batch list \<Rightarrow> mem_table \<Rightarrow> mem_table option" where
  "insert_batches [] m = Some m"
| "insert_batches (b # bs) m =
     (case InsertInto b m of
        (st, Some m) \<Rightarrow> if status_ok st then insert_batches bs m else None
      | (st, None) \<Rightarrow> None)"

fun numbered_batches :: "nat \<Rightarrow> batch_op list list \<Rightarrow> write_batch list" where
  "numbered_batches q [] = []"
| "numbered_batches q (ops # opss) = batch_of q ops # numbered_batches (q + length ops) opss"

lemma small_fits: "op_small op \<Longrightarrow> op_fits op"
  by (cases op) simp_all

lemma holds_batch_of: "holds (batch_of q ops) (of_nat q) ops"
proof -
  have "holds (foldl batch_add batch_Clear ops) 0 ops"
    using holds_add by (induction ops rule: rev_induct) (simp_all add: holds_Clear)
  then show ?thesis unfolding batch_of_def by (rule holds_SetSequence)
qed

lemma op_entries_append: "op_entries q (ops @ ops') = op_entries q ops @ op_entries (q + length ops) ops'"
  by (induction ops' rule: rev_induct)
    (simp_all add: op_entries_snoc add.assoc flip: append_assoc)

lemma holds_InsertInto:
  assumes "mem_holds m es" and "list_all op_small ops" and "q + length ops \<le> 2 ^ 56"
    and "\<forall>e \<in> set es. unat (en_seq e) < q"
  shows "\<exists>m'. InsertInto (batch_of q ops) m = (status_OK, Some m') \<and>
    mem_holds m' (es @ op_entries q ops) \<and> (\<forall>e \<in> set (es @ op_entries q ops). unat (en_seq e) < q + length ops)"
proof -
  have fits: "list_all op_fits ops" using assms(2) small_fits by (auto simp: list_all_iff)
  have "batch_Sequence (batch_of q ops) = of_nat q" using holds_parts(2) [OF holds_batch_of] .
  moreover have "batch_Iterate MemTableInserter (batch_of q ops) (of_nat q, Some m) =
      (status_OK, fold (handle_op MemTableInserter) ops (of_nat q, Some m))"
    by (rule Iterate_holds [OF holds_batch_of fits])
  ultimately show ?thesis using holds_ops [OF assms] by (auto simp: InsertInto_def)
qed

lemma holds_insert_batches:
  assumes "mem_holds m es" and "list_all (list_all op_small) opss" and "q + length (concat opss) \<le> 2 ^ 56"
    and "\<forall>e \<in> set es. unat (en_seq e) < q"
  shows "\<exists>m'. insert_batches (numbered_batches q opss) m = Some m' \<and> mem_holds m' (es @ op_entries q (concat opss))"
  using assms
proof (induction opss arbitrary: q m es)
  case Nil
  then show ?case by auto
next
  case (Cons ops opss)
  obtain m' where m': "InsertInto (batch_of q ops) m = (status_OK, Some m')"
    "mem_holds m' (es @ op_entries q ops)" "\<forall>e \<in> set (es @ op_entries q ops). unat (en_seq e) < q + length ops"
    using holds_InsertInto [OF Cons.prems(1), of ops q] Cons.prems by auto
  from Cons.IH [OF m'(2), of "q + length ops"] Cons.prems(2,3) m'(3) obtain m'' where
    "insert_batches (numbered_batches (q + length ops) opss) m' = Some m''"
    "mem_holds m'' ((es @ op_entries q ops) @ op_entries (q + length ops) (concat opss))" by (auto simp: add.assoc)
  then show ?case using m'(1) by (auto simp: status_ok_def status_OK_def op_entries_append)
qed

text \<open>What the table answers for the last operation on the key, if there is one.\<close>

fun mem_answer :: "batch_op option \<Rightarrow> bytes \<Rightarrow> status \<Rightarrow> bool \<times> bytes \<times> status" where
  "mem_answer None value st = (False, value, st)"
| "mem_answer (Some (Put_op k v)) value st = (True, v, st)"
| "mem_answer (Some (Delete_op k)) value st = (True, value, status_NotFound [] [])"

lemma op_entries_seqs:
  assumes "e \<in> set (op_entries q ops)" and "q + length ops \<le> 2 ^ 56"
  shows "q \<le> unat (en_seq e)" and "unat (en_seq e) < q + length ops"
  using assms unat_of_nat_56 by (auto simp: op_entries_def simp del: of_nat_add)

lemma newest_snoc:
  assumes "\<And>f. f \<in> set es \<Longrightarrow> en_seq f < en_seq e"
  shows "newest (es @ [e]) = Some e"
  using assms
proof (induction es)
  case (Cons f es)
  then have "newest (es @ [e]) = Some e" "\<not> en_seq e < en_seq f" by (auto simp: not_less less_imp_le)
  then show ?case by simp
qed simp

text \<open>The snapshot \<open>s\<close> sees the first \<open>s\<close> operations.\<close>

lemma lookup_is_last_op:
  assumes "length ops < 2 ^ 56" and "unat s < 2 ^ 56"
  shows "mem_lookup (op_entries 1 ops) u s value st =
    mem_answer (find (\<lambda>op. op_key op = u) (rev (take (unat s) ops))) value st"
  using assms(1)
proof (induction ops rule: rev_induct)
  case Nil
  then show ?case by (simp add: mem_lookup_def)
next
  case (snoc op ops)
  let ?e = "op_entry (of_nat (1 + length ops)) op"
  let ?vis = "\<lambda>es. filter (\<lambda>e. en_key e = u \<and> en_seq e \<le> s) es"
  have seq: "unat (en_seq ?e) = 1 + length ops" using unat_of_nat_56 [of "1 + length ops"] snoc.prems by simp
  show ?case
  proof (cases "unat s \<le> length ops")
    case True
    then have "\<not> en_seq ?e \<le> s" using seq by (simp add: word_le_nat_alt)
    then have "?vis (op_entries 1 (ops @ [op])) = ?vis (op_entries 1 ops)" by (simp add: op_entries_snoc)
    then show ?thesis using snoc True by (simp add: mem_lookup_def)
  next
    case False
    then have le: "en_seq ?e \<le> s" using seq by (simp add: word_le_nat_alt)
    have all: "take (unat s) (ops @ [op]) = ops @ [op]" "take (unat s) ops = ops" using False by simp_all
    show ?thesis
    proof (cases "op_key op = u")
      case True
      have "newest (?vis (op_entries 1 ops) @ [?e]) = Some ?e"
      proof (rule newest_snoc)
        fix f assume "f \<in> set (?vis (op_entries 1 ops))"
        then have "unat (en_seq f) < 1 + length ops" using op_entries_seqs(2) [of f 1 ops] snoc.prems by simp
        then show "en_seq f < en_seq ?e" using seq by (simp only: word_less_nat_alt)
      qed
      then have "newest (?vis (op_entries 1 (ops @ [op]))) = Some ?e"
        using True le by (simp add: op_entries_snoc)
      then show ?thesis using True all
        by (cases op) (simp_all add: mem_lookup_def kTypeValue_def kTypeDeletion_def)
    next
      case False
      then have "?vis (op_entries 1 (ops @ [op])) = ?vis (op_entries 1 ops)" by (simp add: op_entries_snoc)
      then show ?thesis using snoc False all by (simp add: mem_lookup_def)
    qed
  qed
qed

text \<open>
  C18. Snapshot reads: after any batches of puts and deletions were put into an empty memtable under
  consecutive sequence numbers, a lookup at the snapshot \<open>s\<close> gives what the last operation on the
  key among the first \<open>s\<close> did: the value, not found for a deletion, nothing if there was none.
\<close>
theorem memtable_snapshot_reads:
  assumes "list_all (list_all op_small) opss" and "length (concat opss) < 2 ^ 56 - 1"
    and "length u + 8 < 2 ^ 32" and "s \<le> kMaxSequenceNumber"
  shows "\<exists>m. insert_batches (numbered_batches 1 opss) (make_MemTable BytewiseComparator) = Some m \<and>
    mem_Get (make_LookupKey u s) value st m =
      Some (mem_answer (find (\<lambda>op. op_key op = u) (rev (take (unat s) (concat opss)))) value st)"
proof -
  have "1 + length (concat opss) \<le> 2 ^ 56" using assms(2) by simp
  then obtain m where m: "insert_batches (numbered_batches 1 opss) (make_MemTable BytewiseComparator) = Some m"
    "mem_holds m (op_entries 1 (concat opss))"
    using holds_insert_batches [OF mem_holds_empty assms(1), of 1] by auto
  have "unat s < 2 ^ 56" using assms(4) by (simp add: kMaxSequenceNumber_def word_le_nat_alt)
  then have "mem_lookup (op_entries 1 (concat opss)) u s value st =
      mem_answer (find (\<lambda>op. op_key op = u) (rev (take (unat s) (concat opss)))) value st"
    using assms(2) by (intro lookup_is_last_op) simp_all
  then show ?thesis using m(1) holds_Get [OF m(2) assms(3,4)] by auto
qed

lemma memtable_snapshot_reads_witness:
  "\<exists>m. insert_batches (numbered_batches 1 [[Put_op [1] [10], Put_op [2] [20]], [Delete_op [1]]])
       (make_MemTable BytewiseComparator) = Some m \<and>
     mem_Get (make_LookupKey [1] 2) [] None m =
       Some (mem_answer (find (\<lambda>op. op_key op = [1])
         (rev (take (unat (2 :: u64)) (concat [[Put_op [1] [10], Put_op [2] [20]], [Delete_op [1]]])))) [] None)"
  by (rule memtable_snapshot_reads) (simp_all add: kMaxSequenceNumber_def)

end
