(* ===== verification/LdbBlock.thy ===== *)
theory LdbBlock
  imports LdbFormat LdbStatus
begin

text \<open>
  The blocks of a table file: \<open>leveldb-library/table/block_builder.cc\<close>, \<open>block_builder.h\<close>, \<open>block.cc\<close> and
  \<open>block.h\<close>. A block is a sequence of entries whose keys share a prefix with the one before, the
  offsets of the entries that share nothing (the restart points), and their number. Pointers into
  the block are offsets; a call that would read outside of the block is \<open>None\<close>, and so is one that
  does not end. Offsets are natural numbers: the blocks of the lemmas are shorter than four
  gigabytes; where the code narrows to 32 bits the model does as well.

  The lemmas show that an iterator goes over the entries that were added, and that a search by
  bisection over the restart points and then along the entries finds the first key at or after the
  one looked for.
\<close>

section \<open>The builder\<close>

record block_builder =
  bb_restart_interval :: int
  bb_buffer :: bytes
  bb_restarts :: "u32 list"
  bb_counter :: int
  bb_finished :: bool
  bb_last_key :: bytes

definition make_BlockBuilder :: "int \<Rightarrow> block_builder" where
  "make_BlockBuilder block_restart_interval =
     \<lparr>bb_restart_interval = block_restart_interval, bb_buffer = [], bb_restarts = [0], bb_counter = 0,
      bb_finished = False, bb_last_key = []\<rparr>"

definition bb_Reset :: "block_builder \<Rightarrow> block_builder" where
  "bb_Reset b = b\<lparr>bb_buffer := [], bb_restarts := [0], bb_counter := 0, bb_finished := False, bb_last_key := []\<rparr>"

definition bb_CurrentSizeEstimate :: "block_builder \<Rightarrow> nat" where
  "bb_CurrentSizeEstimate b = length (bb_buffer b) + length (bb_restarts b) * 4 + 4"

definition bb_Finish :: "block_builder \<Rightarrow> slice \<times> block_builder" where
  "bb_Finish b =
     (let buffer = fold (\<lambda>r buffer. PutFixed32 buffer r) (bb_restarts b) (bb_buffer b);
          buffer = PutFixed32 buffer (of_nat (length (bb_restarts b)));
          b = b\<lparr>bb_buffer := buffer, bb_finished := True\<rparr>
      in (bb_buffer b, b))"

definition bb_Add :: "slice \<Rightarrow> slice \<Rightarrow> block_builder \<Rightarrow> block_builder" where
  "bb_Add key value b =
     (let (shared, b) =
        (if bb_counter b < bb_restart_interval b then (diff_index (bb_last_key b) key, b)
         else (0, b\<lparr>bb_restarts := bb_restarts b @ [of_nat (length (bb_buffer b))], bb_counter := 0\<rparr>));
          non_shared = length key - shared;
          buffer = PutVarint32 (bb_buffer b) (of_nat shared);
          buffer = PutVarint32 buffer (of_nat non_shared);
          buffer = PutVarint32 buffer (of_nat (length value));
          buffer = buffer @ take non_shared (drop shared key);
          buffer = buffer @ value
      in b\<lparr>bb_buffer := buffer,
           bb_last_key := take shared (bb_last_key b) @ take non_shared (drop shared key),
           bb_counter := bb_counter b + 1\<rparr>)"

section \<open>Blocks\<close>

record block =
  bk_data :: bytes
  bk_size :: nat
  bk_restart_offset :: nat

definition NumRestarts :: "bytes \<Rightarrow> nat \<Rightarrow> u32" where
  "NumRestarts data n = DecodeFixed32 (drop (n - 4) data)"

definition make_Block :: "bytes \<Rightarrow> block" where
  "make_Block contents =
     (let n = length contents in
      if n < 4 then \<lparr>bk_data = contents, bk_size = 0, bk_restart_offset = 0\<rparr>
      else
        let max_restarts_allowed = (n - 4) div 4
        in if max_restarts_allowed < unat (NumRestarts contents n)
           then \<lparr>bk_data = contents, bk_size = 0, bk_restart_offset = 0\<rparr>
           else \<lparr>bk_data = contents, bk_size = n,
                 bk_restart_offset = n - (1 + unat (NumRestarts contents n)) * 4\<rparr>)"

text \<open>
  \<open>DecodeEntry\<close> between the offsets \<open>p\<close> and \<open>limit\<close>: the three numbers and the offset of the key. The
  sum at the end is one of 32 bits.
\<close>

definition DecodeEntry :: "bytes \<Rightarrow> nat \<Rightarrow> nat \<Rightarrow> (u32 \<times> u32 \<times> u32 \<times> nat) option" where
  "DecodeEntry data p limit =
     (if int limit - int p < 3 then None
      else
        let stretch = take (limit - p) (drop p data);
            shared = ucast (stretch ! 0) :: u32;
            non_shared = ucast (stretch ! 1) :: u32;
            value_length = ucast (stretch ! 2) :: u32
        in Option.bind
          (if shared OR non_shared OR value_length < 128
           then Some (shared, non_shared, value_length, drop 3 stretch)
           else
             Option.bind (GetVarint32Ptr stretch) (\<lambda>(shared, q).
               Option.bind (GetVarint32Ptr q) (\<lambda>(non_shared, q).
                 Option.bind (GetVarint32Ptr q) (\<lambda>(value_length, q).
                   Some (shared, non_shared, value_length, q)))))
          (\<lambda>(shared, non_shared, value_length, q).
             if (of_nat (length q) :: u32) < non_shared + value_length then None
             else Some (shared, non_shared, value_length, limit - length q)))"

section \<open>The iterator of a block\<close>

text \<open>\<open>value_\<close> is an offset and a length.\<close>

record block_iter =
  it_comparator :: comparator
  it_data :: bytes
  it_restarts :: nat
  it_num_restarts :: nat
  it_current :: nat
  it_restart_index :: nat
  it_key :: bytes
  it_value :: "nat \<times> nat"
  it_status :: status

definition make_block_iter :: "comparator \<Rightarrow> bytes \<Rightarrow> nat \<Rightarrow> nat \<Rightarrow> block_iter" where
  "make_block_iter cmp data restarts num_restarts =
     \<lparr>it_comparator = cmp, it_data = data, it_restarts = restarts, it_num_restarts = num_restarts,
      it_current = restarts, it_restart_index = num_restarts, it_key = [], it_value = (0, 0), it_status = None\<rparr>"

definition NextEntryOffset :: "block_iter \<Rightarrow> nat" where
  "NextEntryOffset it = (fst (it_value it) + snd (it_value it)) mod 2 ^ 32"

definition GetRestartPoint :: "block_iter \<Rightarrow> nat \<Rightarrow> nat" where
  "GetRestartPoint it index = unat (DecodeFixed32 (drop (it_restarts it + index * 4) (it_data it)))"

definition SeekToRestartPoint :: "nat \<Rightarrow> block_iter \<Rightarrow> block_iter" where
  "SeekToRestartPoint index it =
     it\<lparr>it_key := [], it_restart_index := index, it_value := (GetRestartPoint it index, 0)\<rparr>"

definition bi_Valid :: "block_iter \<Rightarrow> bool" where
  "bi_Valid it \<longleftrightarrow> it_current it < it_restarts it"

definition bi_key :: "block_iter \<Rightarrow> slice" where
  "bi_key it = it_key it"

definition bi_value :: "block_iter \<Rightarrow> slice" where
  "bi_value it = take (snd (it_value it)) (drop (fst (it_value it)) (it_data it))"

definition CorruptionError :: "block_iter \<Rightarrow> block_iter" where
  "CorruptionError it =
     it\<lparr>it_current := it_restarts it, it_restart_index := it_num_restarts it,
        it_status := status_Corruption (c_str ''bad entry in block'') [], it_key := [], it_value := (0, 0)\<rparr>"

function advance_restart :: "block_iter \<Rightarrow> block_iter" where
  "advance_restart it =
     (if it_restart_index it + 1 < it_num_restarts it \<and> GetRestartPoint it (it_restart_index it + 1) < it_current it
      then advance_restart (it\<lparr>it_restart_index := it_restart_index it + 1\<rparr>) else it)"
  by pat_completeness auto
termination
  by (relation "measure (\<lambda>it. it_num_restarts it - it_restart_index it)") auto

declare advance_restart.simps [simp del]

text \<open>The flag, with the iterator moved; \<open>None\<close> if the bytes of the key lie outside of the block.\<close>

definition ParseNextKey :: "block_iter \<Rightarrow> (bool \<times> block_iter) option" where
  "ParseNextKey it =
     (let it = it\<lparr>it_current := NextEntryOffset it\<rparr>;
          p = it_current it;
          limit = it_restarts it
      in if limit \<le> p
         then Some (False, it\<lparr>it_current := it_restarts it, it_restart_index := it_num_restarts it\<rparr>)
         else
           (case DecodeEntry (it_data it) p limit of
              None \<Rightarrow> Some (False, CorruptionError it)
            | Some (shared, non_shared, value_length, p) \<Rightarrow>
                if length (it_key it) < unat shared then Some (False, CorruptionError it)
                else if length (it_data it) < p + unat non_shared then None
                else
                  Some (True, advance_restart
                    (it\<lparr>it_key := take (unat shared) (it_key it) @ take (unat non_shared) (drop p (it_data it)),
                        it_value := (p + unat non_shared, unat value_length)\<rparr>))))"

definition bi_Next :: "block_iter \<Rightarrow> block_iter option" where
  "bi_Next it = map_option snd (ParseNextKey it)"

text \<open>The loops of \<open>Prev\<close>: back over the restart points, then forward up to the entry before.\<close>

function scan_back :: "nat \<Rightarrow> block_iter \<Rightarrow> bool \<times> block_iter" where
  "scan_back original it =
     (if original \<le> GetRestartPoint it (it_restart_index it) then
        (if it_restart_index it = 0
         then (False, it\<lparr>it_current := it_restarts it, it_restart_index := it_num_restarts it\<rparr>)
         else scan_back original (it\<lparr>it_restart_index := it_restart_index it - 1\<rparr>))
      else (True, it))"
  by pat_completeness auto
termination
  by (relation "measure (\<lambda>(original, it). it_restart_index it)") auto

declare scan_back.simps [simp del]

partial_function (option) parse_until :: "nat \<Rightarrow> block_iter \<Rightarrow> block_iter option" where
  "parse_until bound it =
     Option.bind (ParseNextKey it) (\<lambda>(ok, it).
       if ok \<and> NextEntryOffset it < bound then parse_until bound it else Some it)"

definition bi_Prev :: "block_iter \<Rightarrow> block_iter option" where
  "bi_Prev it =
     (let original = it_current it in
      case scan_back original it of
        (False, it) \<Rightarrow> Some it
      | (True, it) \<Rightarrow> parse_until original (SeekToRestartPoint (it_restart_index it) it))"

text \<open>
  The bisection of \<open>Seek\<close>: the restart point, or \<open>Some None\<close> for a corrupted one; \<open>None\<close> again if
  the key at a restart point lies outside of the block.
\<close>

function bisect :: "slice \<Rightarrow> block_iter \<Rightarrow> nat \<Rightarrow> nat \<Rightarrow> nat option option" where
  "bisect target it left right =
     (if left < right then
        let mid = (left + right + 1) div 2;
            region_offset = GetRestartPoint it mid
        in case DecodeEntry (it_data it) region_offset (it_restarts it) of
             None \<Rightarrow> Some None
           | Some (shared, non_shared, value_length, key_ptr) \<Rightarrow>
               if shared \<noteq> 0 then Some None
               else if length (it_data it) < key_ptr + unat non_shared then None
               else
                 let mid_key = take (unat non_shared) (drop key_ptr (it_data it))
                 in if Compare (it_comparator it) mid_key target < 0
                    then bisect target it mid right else bisect target it left (mid - 1)
      else Some (Some left))"
  by pat_completeness auto
termination
  by (relation "measure (\<lambda>(target, it, left, right). right - left)") auto

declare bisect.simps [simp del]

partial_function (option) seek_linear :: "slice \<Rightarrow> block_iter \<Rightarrow> block_iter option" where
  "seek_linear target it =
     Option.bind (ParseNextKey it) (\<lambda>(ok, it).
       if \<not> ok then Some it
       else if 0 \<le> Compare (it_comparator it) (it_key it) target then Some it
       else seek_linear target it)"

definition bi_Seek :: "slice \<Rightarrow> block_iter \<Rightarrow> block_iter option" where
  "bi_Seek target it =
     Option.bind (bisect target it 0 (it_num_restarts it - 1)) (\<lambda>r.
       case r of
         None \<Rightarrow> Some (CorruptionError it)
       | Some left \<Rightarrow> seek_linear target (SeekToRestartPoint left it))"

definition bi_SeekToFirst :: "block_iter \<Rightarrow> block_iter option" where
  "bi_SeekToFirst it = map_option snd (ParseNextKey (SeekToRestartPoint 0 it))"

definition bi_SeekToLast :: "block_iter \<Rightarrow> block_iter option" where
  "bi_SeekToLast it = parse_until (it_restarts it) (SeekToRestartPoint (it_num_restarts it - 1) it)"

text \<open>\<open>NewIterator\<close>: an error, an empty iterator, or one over the entries.\<close>

datatype new_iterator = Error_iterator status | Empty_iterator | Block_iterator block_iter

definition block_NewIterator :: "comparator \<Rightarrow> block \<Rightarrow> new_iterator" where
  "block_NewIterator cmp b =
     (if bk_size b < 4 then Error_iterator (status_Corruption (c_str ''bad block contents'') [])
      else
        let num_restarts = NumRestarts (bk_data b) (bk_size b)
        in if num_restarts = 0 then Empty_iterator
           else Block_iterator (make_block_iter cmp (bk_data b) (bk_restart_offset b) (unat num_restarts)))"

section \<open>Entries\<close>

text \<open>The fast path changes nothing.\<close>

lemma unat_ucast_u8 [simp]: "unat (ucast (b :: u8) :: u32) = unat b"
  using unat_u8_lt [of b] by (simp add: unsigned_ucast_eq take_bit_eq_mod)

lemma length_3: "3 \<le> length s \<Longrightarrow> \<exists>a b c rest. s = a # b # c # rest"
  by (cases s; cases "tl s"; cases "tl (tl s)") auto

lemma GetVarint32Ptr_one: "b < 128 \<Longrightarrow> GetVarint32Ptr (b # rest) = Some (ucast b, rest)"
proof -
  assume "b < 128"
  then have "unat b < 128" by (simp add: word_less_nat_alt)
  then have "leb128 (unat b) = [b]" by (subst leb128.simps) simp
  then have "leb128 (unat (ucast b :: u32)) @ rest = b # rest" by simp
  then show ?thesis using GetVarint32Ptr_leb128 [of "ucast b" rest] by simp
qed

lemma or_less_128: "(x :: u32) OR y < 128 \<longleftrightarrow> x < 128 \<and> y < 128"
proof -
  have d: "z < 128 \<longleftrightarrow> drop_bit 7 z = 0" for z :: u32
    by (simp add: word_less_nat_alt word_unat_eq_iff unat_drop_bit_word div_eq_0_iff)
  show ?thesis unfolding d drop_bit_or by (rule or_eq_0_iff)
qed

lemma ucast_less_128: "(ucast b :: u32) < 128 \<longleftrightarrow> (b :: u8) < 128"
  by (simp add: word_less_nat_alt)

definition three_numbers :: "bytes \<Rightarrow> (u32 \<times> u32 \<times> u32 \<times> bytes) option" where
  "three_numbers s =
     Option.bind (GetVarint32Ptr s) (\<lambda>(shared, q).
       Option.bind (GetVarint32Ptr q) (\<lambda>(non_shared, q).
         Option.bind (GetVarint32Ptr q) (\<lambda>(value_length, q).
           Some (shared, non_shared, value_length, q))))"

lemma DecodeEntry_slow:
  assumes "limit \<le> length data" and "p + 3 \<le> limit"
  shows "DecodeEntry data p limit =
    Option.bind (three_numbers (take (limit - p) (drop p data))) (\<lambda>(shared, non_shared, value_length, q).
      if (of_nat (length q) :: u32) < non_shared + value_length then None
      else Some (shared, non_shared, value_length, limit - length q))"
proof -
  let ?s = "take (limit - p) (drop p data)"
  have "3 \<le> length ?s" using assms by simp
  from length_3 [OF this] obtain a b c rest where s: "?s = a # b # c # rest" by blast
  have "three_numbers ?s = Some (ucast a, ucast b, ucast c, rest)"
    if "(ucast a :: u32) OR ucast b OR ucast c < 128"
    using that unfolding s or_less_128 ucast_less_128 by (simp add: three_numbers_def GetVarint32Ptr_one)
  then show ?thesis
    using assms unfolding DecodeEntry_def Let_def three_numbers_def [symmetric] s by auto
qed

type_synonym shared_entry = "nat \<times> slice \<times> slice"

fun entry_header :: "shared_entry \<Rightarrow> bytes" where
  "entry_header (sh, k, v) = leb128 sh @ leb128 (length k - sh) @ leb128 (length v)"

fun entry_enc :: "shared_entry \<Rightarrow> bytes" where
  "entry_enc (sh, k, v) = entry_header (sh, k, v) @ drop sh k @ v"

declare entry_header.simps [simp del] entry_enc.simps [simp del]

lemma header_3: "3 \<le> length (entry_header t)"
proof -
  have "1 \<le> length (leb128 n)" for n by (simp add: Suc_le_eq)
  from this [of "fst t"] this [of "length (fst (snd t)) - fst t"] this [of "length (snd (snd t))"]
  show ?thesis by (cases t) (simp add: entry_header.simps)
qed

lemma DecodeEntry_enc:
  assumes "data = pre @ entry_enc (sh, k, v) @ post" and "length pre + length (entry_enc (sh, k, v)) \<le> limit"
    and "limit \<le> length data" and "limit < 2 ^ 32" and "sh < 2 ^ 32"
  shows "DecodeEntry data (length pre) limit =
    Some (of_nat sh, of_nat (length k - sh), of_nat (length v), length pre + length (entry_header (sh, k, v)))"
proof -
  let ?h = "entry_header (sh, k, v)"
  have lens: "length (entry_enc (sh, k, v)) = length ?h + (length k - sh) + length v" by (simp add: entry_enc.simps)
  let ?q = "drop sh k @ v @ take (limit - length pre - length (entry_enc (sh, k, v))) post"
  have stretch: "take (limit - length pre) (drop (length pre) data) = ?h @ ?q"
    using assms(2,3) unfolding assms(1) by (simp add: entry_enc.simps add.assoc)
  have small: "length k - sh < 2 ^ 32" "length v < 2 ^ 32" using assms(2,4) lens by linarith+
  have "three_numbers (?h @ ?q) = Some (of_nat sh, of_nat (length k - sh), of_nat (length v), ?q)"
    using small assms(5) by (simp add: three_numbers_def entry_header.simps del: of_nat_diff)
  moreover have len: "length ?h + length ?q = limit - length pre"
  proof -
    have "length (take (limit - length pre) (drop (length pre) data)) = limit - length pre"
      using assms(3) by simp
    then show ?thesis unfolding stretch by (simp only: length_append)
  qed
  moreover have "\<not> (of_nat (length ?q) :: u32) < of_nat (length k - sh) + of_nat (length v)"
  proof -
    have le: "length k - sh + length v \<le> length ?q" by simp
    have "length ?q < 2 ^ 32" using len assms(4) by linarith
    then have "unat (of_nat (length ?q) :: u32) = length ?q"
      "unat (of_nat (length k - sh + length v) :: u32) = length k - sh + length v"
      using le by (simp_all only: unat_of_nat_u32 le_less_trans)
    then show ?thesis using le by (simp only: word_less_nat_alt of_nat_add [symmetric] not_less)
  qed
  moreover have "length pre + 3 \<le> limit" using header_3 [of "(sh, k, v)"] assms(2) lens by linarith
  ultimately show ?thesis
    using DecodeEntry_slow [OF assms(3), of "length pre"] unfolding stretch by (simp del: length_append of_nat_diff)
qed

section \<open>Parsing one entry\<close>

definition same_block :: "block_iter \<Rightarrow> block_iter \<Rightarrow> bool" where
  "same_block it it' \<longleftrightarrow>
     it_comparator it' = it_comparator it \<and> it_data it' = it_data it \<and> it_restarts it' = it_restarts it \<and>
     it_num_restarts it' = it_num_restarts it \<and> it_status it' = it_status it"

lemma same_block_refl [simp]: "same_block it it" by (simp add: same_block_def)

lemma same_block_trans: "same_block it it' \<Longrightarrow> same_block it' it'' \<Longrightarrow> same_block it it''"
  by (simp add: same_block_def)

lemma advance_restart_only:
  "\<exists>ri. advance_restart it = it\<lparr>it_restart_index := ri\<rparr> \<and>
     (it_restart_index it < it_num_restarts it \<longrightarrow> ri < it_num_restarts it)"
proof (induction it rule: advance_restart.induct)
  case (1 it)
  show ?case
  proof (cases "it_restart_index it + 1 < it_num_restarts it \<and> GetRestartPoint it (it_restart_index it + 1) < it_current it")
    case True
    then show ?thesis using 1 by (subst advance_restart.simps) auto
  next
    case False
    then show ?thesis by (subst advance_restart.simps) (auto intro!: exI [of _ "it_restart_index it"])
  qed
qed

text \<open>The iterator stands before the entry \<open>(sh, k, v)\<close>, and then on it.\<close>

lemma ParseNextKey_entry:
  assumes "it_data it = pre @ entry_enc (sh, k, v) @ post"
    and "length pre + length (entry_enc (sh, k, v)) \<le> it_restarts it" and "it_restarts it \<le> length (it_data it)"
    and "it_restarts it < 2 ^ 32" and "NextEntryOffset it = length pre"
    and "sh \<le> length (it_key it)" and "take sh (it_key it) = take sh k" and "sh \<le> length k"
    and "it_restart_index it < it_num_restarts it" and "sh < 2 ^ 32"
  shows "\<exists>it'. ParseNextKey it = Some (True, it') \<and> same_block it it' \<and> it_current it' = length pre \<and>
    it_key it' = k \<and> bi_value it' = v \<and> NextEntryOffset it' = length pre + length (entry_enc (sh, k, v)) \<and>
    it_restart_index it' < it_num_restarts it'"
proof -
  let ?h = "entry_header (sh, k, v)" and ?p = "length pre"
  let ?q = "?p + length ?h"
  let ?it = "it\<lparr>it_current := ?p, it_key := k, it_value := (?q + (length k - sh), length v)\<rparr>"
  have lens: "length (entry_enc (sh, k, v)) = length ?h + (length k - sh) + length v" by (simp add: entry_enc.simps)
  have dec: "DecodeEntry (it_data it) ?p (it_restarts it) =
    Some (of_nat sh, of_nat (length k - sh), of_nat (length v), ?q)"
    by (rule DecodeEntry_enc [OF assms(1,2,3,4,10)])
  have small: "length k - sh < 2 ^ 32" "length v < 2 ^ 32" using assms(2,4) lens by linarith+
  have un: "unat (of_nat sh :: u32) = sh" "unat (of_nat (length k - sh) :: u32) = length k - sh"
    "unat (of_nat (length v) :: u32) = length v"
    by (rule unat_of_nat_u32, rule assms(10) small)+
  have key: "take (length k - sh) (drop ?q (it_data it)) = drop sh k"
    unfolding assms(1) by (simp add: entry_enc.simps)
  have before: "\<not> it_restarts it \<le> ?p" "\<not> length (it_data it) < ?q + (length k - sh)"
    using assms(2,3) lens header_3 [of "(sh, k, v)"] by linarith+
  obtain ri where ri: "advance_restart ?it = ?it\<lparr>it_restart_index := ri\<rparr>" "ri < it_num_restarts it"
    using advance_restart_only [of ?it] assms(9) by auto
  have "take sh (it_key it) @ drop sh k = k" using assms(7) by simp
  then have run: "ParseNextKey it = Some (True, ?it\<lparr>it_restart_index := ri\<rparr>)"
    using assms(6) before ri(1)
    by (simp add: ParseNextKey_def Let_def assms(5) dec un key del: of_nat_diff)
  have "bi_value (?it\<lparr>it_restart_index := ri\<rparr>) = v"
    unfolding bi_value_def using assms(1) by (simp add: entry_enc.simps add.assoc)
  moreover have "NextEntryOffset (?it\<lparr>it_restart_index := ri\<rparr>) = ?p + length (entry_enc (sh, k, v))"
    using assms(2,4) lens by (simp add: NextEntryOffset_def)
  ultimately show ?thesis using run ri(2) by (simp add: same_block_def)
qed

lemma ParseNextKey_end:
  assumes "it_restarts it \<le> NextEntryOffset it"
  shows "\<exists>it'. ParseNextKey it = Some (False, it') \<and> same_block it it' \<and> \<not> bi_Valid it' \<and> it_status it' = it_status it"
  using assms by (simp add: ParseNextKey_def same_block_def bi_Valid_def)

section \<open>The layout of a block\<close>

definition enc_all :: "shared_entry list \<Rightarrow> bytes" where
  "enc_all ts = concat (map entry_enc ts)"

definition entry_off :: "shared_entry list \<Rightarrow> nat \<Rightarrow> nat" where
  "entry_off ts i = length (enc_all (take i ts))"

abbreviation entry_sh :: "shared_entry \<Rightarrow> nat" where "entry_sh t \<equiv> fst t"
abbreviation entry_key :: "shared_entry \<Rightarrow> slice" where "entry_key t \<equiv> fst (snd t)"
abbreviation entry_val :: "shared_entry \<Rightarrow> slice" where "entry_val t \<equiv> snd (snd t)"

text \<open>What an entry shares it shares with the one before; the first shares nothing.\<close>

definition chain :: "shared_entry list \<Rightarrow> bool" where
  "chain ts \<longleftrightarrow>
     (\<forall>i < length ts. entry_sh (ts ! i) \<le> length (entry_key (ts ! i)) \<and> entry_sh (ts ! i) < 2 ^ 32 \<and>
        (if i = 0 then entry_sh (ts ! i) = 0
         else entry_sh (ts ! i) \<le> length (entry_key (ts ! (i - 1))) \<and>
           take (entry_sh (ts ! i)) (entry_key (ts ! (i - 1))) = take (entry_sh (ts ! i)) (entry_key (ts ! i))))"

definition layout :: "block_iter \<Rightarrow> shared_entry list \<Rightarrow> nat list \<Rightarrow> bool" where
  "layout it ts rix \<longleftrightarrow>
     (\<exists>tail. it_data it = enc_all ts @ tail) \<and> it_restarts it = length (enc_all ts) \<and> it_restarts it < 2 ^ 32 \<and>
     chain ts \<and> rix \<noteq> [] \<and> rix ! 0 = 0 \<and> it_num_restarts it = length rix \<and>
     (\<forall>j < length rix. GetRestartPoint it j = entry_off ts (rix ! j) \<and>
        (rix ! j < length ts \<and> entry_sh (ts ! (rix ! j)) = 0 \<or> ts = [] \<and> rix = [0]))"

lemma layout_same: "layout it ts rix \<Longrightarrow> same_block it it' \<Longrightarrow> layout it' ts rix"
proof -
  assume l: "layout it ts rix" and same: "same_block it it'"
  have eq: "it_data it' = it_data it" "it_restarts it' = it_restarts it" "it_num_restarts it' = it_num_restarts it"
    using same by (simp_all add: same_block_def)
  show ?thesis using l unfolding layout_def GetRestartPoint_def eq .
qed

lemma off_0 [simp]: "entry_off ts 0 = 0" by (simp add: entry_off_def enc_all_def)

lemma off_Suc: "i < length ts \<Longrightarrow> entry_off ts (Suc i) = entry_off ts i + length (entry_enc (ts ! i))"
  by (simp add: entry_off_def enc_all_def take_Suc_conv_app_nth)

lemma off_end: "entry_off ts (length ts) = length (enc_all ts)" by (simp add: entry_off_def)

lemma enc_pos: "0 < length (entry_enc t)"
proof (cases t)
  case (fields sh k v)
  have "length (entry_header t) \<le> length (entry_enc t)" by (simp add: fields entry_enc.simps)
  then show ?thesis using header_3 [of t] by linarith
qed

lemma off_less: "i < j \<Longrightarrow> j \<le> length ts \<Longrightarrow> entry_off ts i < entry_off ts j"
proof (induction j)
  case (Suc j)
  then have "entry_off ts j < entry_off ts (Suc j)" using enc_pos by (simp add: off_Suc)
  then show ?case using Suc by (cases "i = j") auto
qed simp

lemma off_less_iff: "i \<le> length ts \<Longrightarrow> j \<le> length ts \<Longrightarrow> entry_off ts i < entry_off ts j \<longleftrightarrow> i < j"
  by (metis nat_neq_iff off_less order_less_asym)

text \<open>Before the entry \<open>i\<close>, or past the last one; and on the entry \<open>i\<close>.\<close>

definition ready :: "block_iter \<Rightarrow> shared_entry list \<Rightarrow> nat \<Rightarrow> bool" where
  "ready it ts i \<longleftrightarrow>
     NextEntryOffset it = entry_off ts i \<and> i \<le> length ts \<and> it_restart_index it < it_num_restarts it \<and>
     (i < length ts \<longrightarrow> entry_sh (ts ! i) \<le> length (it_key it) \<and>
        take (entry_sh (ts ! i)) (it_key it) = take (entry_sh (ts ! i)) (entry_key (ts ! i)))"

definition on_entry :: "block_iter \<Rightarrow> shared_entry list \<Rightarrow> nat \<Rightarrow> bool" where
  "on_entry it ts i \<longleftrightarrow>
     i < length ts \<and> it_current it = entry_off ts i \<and> bi_Valid it \<and> bi_key it = entry_key (ts ! i) \<and>
     bi_value it = entry_val (ts ! i) \<and> ready it ts (Suc i)"

lemma parse_next:
  assumes "layout it ts rix" and "ready it ts i" and "i < length ts"
  shows "\<exists>it'. ParseNextKey it = Some (True, it') \<and> same_block it it' \<and> on_entry it' ts i"
proof -
  obtain sh k v where t: "ts ! i = (sh, k, v)" by (cases "ts ! i") auto
  have c: "sh \<le> length k" "sh < 2 ^ 32" using assms(1,3) t by (auto simp: layout_def chain_def)
  have r: "NextEntryOffset it = entry_off ts i" "it_restart_index it < it_num_restarts it"
    "sh \<le> length (it_key it)" "take sh (it_key it) = take sh k"
    using assms(2,3) t by (auto simp: ready_def)
  obtain tail where data: "it_data it = enc_all ts @ tail" and R: "it_restarts it = length (enc_all ts)" "it_restarts it < 2 ^ 32"
    using assms(1) by (auto simp: layout_def)
  have split: "enc_all ts = enc_all (take i ts) @ entry_enc (sh, k, v) @ enc_all (drop (Suc i) ts)"
    using assms(3) t [symmetric] by (subst id_take_nth_drop [of i ts]) (simp_all add: enc_all_def)
  have off: "length (enc_all (take i ts)) = entry_off ts i" by (simp add: entry_off_def)
  obtain it' where it': "ParseNextKey it = Some (True, it')" "same_block it it'"
    "it_current it' = entry_off ts i" "it_key it' = k" "bi_value it' = v"
    "NextEntryOffset it' = entry_off ts i + length (entry_enc (sh, k, v))" "it_restart_index it' < it_num_restarts it'"
    using ParseNextKey_entry [of it "enc_all (take i ts)" sh k v "enc_all (drop (Suc i) ts) @ tail"]
      data split R r c off by auto
  have step: "NextEntryOffset it' = entry_off ts (Suc i)" using it'(6) assms(3) t by (simp add: off_Suc)
  have "entry_off ts i < length (enc_all ts)" using off_less [of i "length ts" ts] assms(3) by (simp add: off_end)
  then have "bi_Valid it'" using it'(2,3) R by (simp add: bi_Valid_def same_block_def)
  moreover have "ready it' ts (Suc i)"
    using step it'(4,7) assms(1,3) t by (auto simp: ready_def layout_def chain_def split: if_splits) 
  ultimately show ?thesis using it' assms(3) t by (auto simp: on_entry_def bi_key_def)
qed

lemma parse_end:
  assumes "layout it ts rix" and "ready it ts (length ts)"
  shows "\<exists>it'. ParseNextKey it = Some (False, it') \<and> same_block it it' \<and> \<not> bi_Valid it' \<and> it_status it' = it_status it"
  using assms by (intro ParseNextKey_end) (simp add: layout_def ready_def off_end)

section \<open>Moving the iterator\<close>

lemma off_small: "layout it ts rix \<Longrightarrow> i \<le> length ts \<Longrightarrow> entry_off ts i < 2 ^ 32"
  using off_less [of i "length ts" ts] by (cases "i = length ts") (auto simp: layout_def off_end)

lemma ready_restart:
  assumes "layout it ts rix" and "j < length rix"
  shows "ready (SeekToRestartPoint j it) ts (rix ! j) \<and> same_block it (SeekToRestartPoint j it)"
proof -
  have j: "GetRestartPoint it j = entry_off ts (rix ! j)" "rix ! j \<le> length ts"
    "rix ! j < length ts \<Longrightarrow> entry_sh (ts ! (rix ! j)) = 0" "it_num_restarts it = length rix"
    using assms by (auto simp: layout_def)
  have "NextEntryOffset (SeekToRestartPoint j it) = entry_off ts (rix ! j)"
    using off_small [OF assms(1) j(2)] by (simp add: NextEntryOffset_def SeekToRestartPoint_def j(1))
  then show ?thesis using j assms(2) by (simp add: ready_def SeekToRestartPoint_def same_block_def)
qed

lemma parse_step:
  assumes "layout it ts rix" and "ready it ts i"
  shows "\<exists>it'. ParseNextKey it = Some (i < length ts, it') \<and> same_block it it' \<and>
    (if i < length ts then on_entry it' ts i else \<not> bi_Valid it')"
proof (cases "i < length ts")
  case True
  then show ?thesis using parse_next [OF assms] by auto
next
  case False
  then have "i = length ts" using assms(2) by (simp add: ready_def)
  then show ?thesis using parse_end [OF assms(1)] assms(2) by auto
qed

lemma SeekToFirst_on:
  assumes "layout it ts rix"
  shows "\<exists>it'. bi_SeekToFirst it = Some it' \<and> same_block it it' \<and> (if ts = [] then \<not> bi_Valid it' else on_entry it' ts 0)"
proof -
  have "0 < length rix" "rix ! 0 = 0" using assms by (auto simp: layout_def)
  then have r: "ready (SeekToRestartPoint 0 it) ts 0" "same_block it (SeekToRestartPoint 0 it)"
    using ready_restart [OF assms, of 0] by auto
  show ?thesis
    using parse_step [OF layout_same [OF assms r(2)] r(1)] same_block_trans [OF r(2)]
    by (auto simp: bi_SeekToFirst_def split: if_splits)
qed

lemma Next_on:
  assumes "layout it ts rix" and "on_entry it ts i"
  shows "\<exists>it'. bi_Next it = Some it' \<and> same_block it it' \<and>
    (if Suc i < length ts then on_entry it' ts (Suc i) else \<not> bi_Valid it')"
  using parse_step [OF assms(1), of "Suc i"] assms(2) by (auto simp: bi_Next_def on_entry_def split: if_splits)

text \<open>Parsing up to the entry before \<open>m\<close>.\<close>

lemma parse_until_on:
  assumes "layout it ts rix" and "ready it ts i" and "i < m" and "m \<le> length ts"
  shows "\<exists>it'. parse_until (entry_off ts m) it = Some it' \<and> same_block it it' \<and> on_entry it' ts (m - 1)"
  using assms
proof (induction "m - i" arbitrary: it i)
  case (Suc d)
  obtain it' where it': "ParseNextKey it = Some (True, it')" "same_block it it'" "on_entry it' ts i"
    using parse_next [OF Suc.prems(1,2)] Suc.prems(3,4) by auto
  have off: "NextEntryOffset it' = entry_off ts (Suc i)" "ready it' ts (Suc i)" using it'(3) by (simp_all add: on_entry_def ready_def)
  have run: "parse_until (entry_off ts m) it =
    (if Suc i < m then parse_until (entry_off ts m) it' else Some it')"
    using it'(1) off(1) off_less_iff [of "Suc i" ts m] Suc.prems(3,4) by (subst parse_until.simps) simp
  show ?case
  proof (cases "Suc i < m")
    case True
    have "d = m - Suc i" using Suc.hyps(2) by simp
    then show ?thesis
      using Suc.hyps(1) [OF _ layout_same [OF Suc.prems(1) it'(2)] off(2) True Suc.prems(4)] True run
        same_block_trans [OF it'(2)] by auto
  next
    case False
    then have "m - 1 = i" using Suc.prems(3) by simp
    then show ?thesis using run False it' by auto
  qed
qed simp

lemma SeekToLast_on:
  assumes "layout it ts rix" and "ts \<noteq> []"
  shows "\<exists>it'. bi_SeekToLast it = Some it' \<and> same_block it it' \<and> on_entry it' ts (length ts - 1)"
proof -
  let ?j = "it_num_restarts it - 1"
  have j: "?j < length rix" "rix ! ?j < length ts" "it_restarts it = entry_off ts (length ts)"
    using assms by (auto simp: layout_def off_end)
  note r = ready_restart [OF assms(1) j(1)]
  from parse_until_on [OF layout_same [OF assms(1)] _ j(2) order_refl, of "SeekToRestartPoint ?j it"] r
  obtain it' where "parse_until (entry_off ts (length ts)) (SeekToRestartPoint ?j it) = Some it'"
    "same_block (SeekToRestartPoint ?j it) it'" "on_entry it' ts (length ts - 1)" by blast
  then show ?thesis using r same_block_trans by (auto simp: bi_SeekToLast_def j(3))
qed

lemma scan_back_on:
  assumes "layout it ts rix" and "i < length ts"
  shows "ri < length rix \<Longrightarrow>
    (if i = 0 then \<exists>it'. scan_back (entry_off ts i) (it\<lparr>it_restart_index := ri\<rparr>) = (False, it') \<and> same_block it it' \<and> \<not> bi_Valid it'
     else \<exists>j < length rix. rix ! j < i \<and>
       scan_back (entry_off ts i) (it\<lparr>it_restart_index := ri\<rparr>) = (True, it\<lparr>it_restart_index := j\<rparr>))"
proof (induction ri)
  case (0)
  have "GetRestartPoint it 0 = 0" "rix ! 0 = 0" using assms(1) by (auto simp: layout_def)
  then have g: "GetRestartPoint (it\<lparr>it_restart_index := 0\<rparr>) 0 = 0" by (simp add: GetRestartPoint_def)
  show ?case
  proof (cases "i = 0")
    case True
    then show ?thesis using g by (subst scan_back.simps) (simp add: same_block_def bi_Valid_def)
  next
    case False
    then have "0 < entry_off ts i" using off_less [of 0 i ts] assms(2) by simp
    then show ?thesis
      using g False 0 \<open>rix ! 0 = 0\<close> by (subst scan_back.simps) (auto intro!: exI [of _ 0])
  qed
next
  case (Suc ri)
  have r: "GetRestartPoint it (Suc ri) = entry_off ts (rix ! Suc ri)" "rix ! Suc ri < length ts"
    using assms Suc.prems by (auto simp: layout_def)
  then have le: "entry_off ts i \<le> GetRestartPoint it (Suc ri) \<longleftrightarrow> \<not> rix ! Suc ri < i"
    using off_less_iff [of "rix ! Suc ri" ts i] assms(2) by (simp add: not_less [symmetric])
  have "scan_back (entry_off ts i) (it\<lparr>it_restart_index := Suc ri\<rparr>) =
    (if rix ! Suc ri < i then (True, it\<lparr>it_restart_index := Suc ri\<rparr>)
     else scan_back (entry_off ts i) (it\<lparr>it_restart_index := ri\<rparr>))"
    using le by (subst scan_back.simps) (simp add: GetRestartPoint_def)
  then show ?case using Suc by auto
qed

lemma Prev_on:
  assumes "layout it ts rix" and "on_entry it ts i"
  shows "\<exists>it'. bi_Prev it = Some it' \<and> same_block it it' \<and> (if i = 0 then \<not> bi_Valid it' else on_entry it' ts (i - 1))"
proof -
  have i: "i < length ts" "it_current it = entry_off ts i" "it_restart_index it < length rix"
    using assms by (auto simp: on_entry_def ready_def layout_def)
  note scan = scan_back_on [OF assms(1) i(1,3)]
  show ?thesis
  proof (cases "i = 0")
    case True
    then show ?thesis using scan by (auto simp: bi_Prev_def i(2) Let_def)
  next
    case False
    then obtain j where j: "j < length rix" "rix ! j < i" "scan_back (entry_off ts i) it = (True, it\<lparr>it_restart_index := j\<rparr>)"
      using scan by auto
    have seek: "SeekToRestartPoint j (it\<lparr>it_restart_index := j\<rparr>) = SeekToRestartPoint j it"
      by (simp add: SeekToRestartPoint_def GetRestartPoint_def)
    note r = ready_restart [OF assms(1) j(1)]
    have "i \<le> length ts" using i(1) by simp
    from parse_until_on [OF layout_same [OF assms(1)] _ j(2) this, of "SeekToRestartPoint j it"] r
    obtain it' where "parse_until (entry_off ts i) (SeekToRestartPoint j it) = Some it'"
      "same_block (SeekToRestartPoint j it) it'" "on_entry it' ts (i - 1)" by blast
    then show ?thesis using r same_block_trans j(3) seek False by (auto simp: bi_Prev_def i(2) Let_def)
  qed
qed

text \<open>The search.\<close>

lemma seek_linear_on:
  assumes "layout it ts rix" and "ready it ts i"
  shows "\<exists>it' m. seek_linear target it = Some it' \<and> same_block it it' \<and> i \<le> m \<and>
    (\<forall>x. i \<le> x \<and> x < m \<and> x < length ts \<longrightarrow> Compare (it_comparator it) (entry_key (ts ! x)) target < 0) \<and>
    (if m < length ts then on_entry it' ts m \<and> \<not> Compare (it_comparator it) (entry_key (ts ! m)) target < 0
     else \<not> bi_Valid it')"
  using assms
proof (induction "length ts - i" arbitrary: it i rule: less_induct)
  case less
  obtain it1 where p: "ParseNextKey it = Some (i < length ts, it1)" "same_block it it1"
    "if i < length ts then on_entry it1 ts i else \<not> bi_Valid it1"
    using parse_step [OF less.prems] by blast
  have cmp: "it_comparator it1 = it_comparator it" using p(2) by (simp add: same_block_def)
  show ?case
  proof (cases "i < length ts")
    case False
    then have "seek_linear target it = Some it1" using p(1) by (subst seek_linear.simps) simp
    moreover have "\<not> bi_Valid it1" using p(3) False by simp
    ultimately show ?thesis using p(2) False by (intro exI [of _ it1] exI [of _ i]) auto
  next
    case True
    then have on: "on_entry it1 ts i" using p(3) by simp
    have run: "seek_linear target it =
      (if 0 \<le> Compare (it_comparator it) (entry_key (ts ! i)) target then Some it1 else seek_linear target it1)"
      using p(1) True on by (subst seek_linear.simps) (simp add: on_entry_def bi_key_def cmp)
    show ?thesis
    proof (cases "0 \<le> Compare (it_comparator it) (entry_key (ts ! i)) target")
      case le: True
      then show ?thesis using run on p(2) True by (intro exI [of _ it1] exI [of _ i]) auto
    next
      case gt: False
      have "ready it1 ts (Suc i)" using on by (simp add: on_entry_def)
      moreover have "length ts - Suc i < length ts - i" using True by simp
      ultimately obtain it' m where m: "seek_linear target it1 = Some it'" "same_block it1 it'" "Suc i \<le> m"
        "\<forall>x. Suc i \<le> x \<and> x < m \<and> x < length ts \<longrightarrow> Compare (it_comparator it) (entry_key (ts ! x)) target < 0"
        "if m < length ts then on_entry it' ts m \<and> \<not> Compare (it_comparator it) (entry_key (ts ! m)) target < 0
         else \<not> bi_Valid it'"
        using less.hyps [OF _ layout_same [OF less.prems(1) p(2)]] unfolding cmp by blast
      have "\<forall>x. i \<le> x \<and> x < m \<and> x < length ts \<longrightarrow> Compare (it_comparator it) (entry_key (ts ! x)) target < 0"
        using m(4) gt by (metis Suc_leI le_neq_implies_less not_le)
      then show ?thesis using run gt m same_block_trans [OF p(2) m(2)]
        by (intro exI [of _ it'] exI [of _ m]) auto
    qed
  qed
qed

lemma bisect_on:
  assumes "layout it ts rix"
  shows "left \<le> right \<Longrightarrow> right < length rix \<Longrightarrow>
    left = 0 \<or> Compare (it_comparator it) (entry_key (ts ! (rix ! left))) target < 0 \<Longrightarrow>
    \<exists>l. bisect target it left right = Some (Some l) \<and> l < length rix \<and>
      (l = 0 \<or> Compare (it_comparator it) (entry_key (ts ! (rix ! l))) target < 0)"
proof (induction "right - left" arbitrary: left right rule: less_induct)
  case less
  show ?case
  proof (cases "left < right")
    case False
    then show ?thesis using less.prems by (subst bisect.simps) auto
  next
    case True
    define mid where "mid = (left + right + 1) div 2"
    have m: "left < mid" "mid \<le> right" "mid < length rix" using True less.prems(2) by (auto simp: mid_def)
    have "ts \<noteq> []" using assms m by (auto simp: layout_def)
    then have r: "GetRestartPoint it mid = entry_off ts (rix ! mid)" "rix ! mid < length ts" "entry_sh (ts ! (rix ! mid)) = 0"
      using assms m(3) by (auto simp: layout_def)
    let ?i = "rix ! mid"
    obtain k v where t: "ts ! ?i = (0, k, v)" using r(3) by (cases "ts ! ?i") auto
    obtain tail where data: "it_data it = enc_all ts @ tail" and R: "it_restarts it = length (enc_all ts)" "it_restarts it < 2 ^ 32"
      using assms by (auto simp: layout_def)
    have split: "enc_all ts = enc_all (take ?i ts) @ entry_enc (0, k, v) @ enc_all (drop (Suc ?i) ts)"
      using r(2) t [symmetric] by (subst id_take_nth_drop [of ?i ts]) (simp_all add: enc_all_def)
    have d: "it_data it = enc_all (take ?i ts) @ entry_enc (0, k, v) @ (enc_all (drop (Suc ?i) ts) @ tail)"
      using data split by simp
    have lens: "length (enc_all (take ?i ts)) + length (entry_enc (0, k, v)) \<le> it_restarts it"
      using split R by simp
    have in_data: "it_restarts it \<le> length (it_data it)" using data R by simp
    let ?h = "entry_off ts ?i + length (entry_header (0, k, v))"
    have "length k < 2 ^ 32" using lens R(2) by (simp add: entry_enc.simps)
    then have un: "unat (of_nat (length k) :: u32) = length k" by (rule unat_of_nat_u32)
    have dec: "DecodeEntry (it_data it) (entry_off ts ?i) (it_restarts it) =
        Some (0, of_nat (length k), of_nat (length v), ?h)"
      using DecodeEntry_enc [OF d lens in_data R(2)] by (simp add: entry_off_def)
    have key: "take (length k) (drop ?h (it_data it)) = k" "\<not> length (it_data it) < ?h + length k"
      unfolding d by (simp_all add: entry_off_def entry_enc.simps)
    have run: "bisect target it left right =
      (if Compare (it_comparator it) k target < 0 then bisect target it mid right else bisect target it left (mid - 1))"
      using True key
      by (subst bisect.simps) (simp add: Let_def r(1) dec un del: One_nat_def Suc_eq_plus1_left add_2_eq_Suc' flip: mid_def)
    have ki: "entry_key (ts ! ?i) = k" using t by simp
    show ?thesis
    proof (cases "Compare (it_comparator it) k target < 0")
      case lt: True
      have "\<exists>l. bisect target it mid right = Some (Some l) \<and> l < length rix \<and>
        (l = 0 \<or> Compare (it_comparator it) (entry_key (ts ! (rix ! l))) target < 0)"
        by (rule less.hyps) (use m less.prems lt ki in auto)
      then show ?thesis using run lt by simp
    next
      case ge: False
      have "\<exists>l. bisect target it left (mid - 1) = Some (Some l) \<and> l < length rix \<and>
        (l = 0 \<or> Compare (it_comparator it) (entry_key (ts ! (rix ! l))) target < 0)"
        by (rule less.hyps) (use m less.prems True in auto)
      then show ?thesis using run ge by simp
    qed
  qed
qed

section \<open>What the builder makes\<close>

lemma diff_index_common:
  "diff_index a b \<le> length a" "diff_index a b \<le> length b" "take (diff_index a b) a = take (diff_index a b) b"
  by (induction a b rule: diff_index.induct) auto

definition builder_inv :: "block_builder \<Rightarrow> shared_entry list \<Rightarrow> nat list \<Rightarrow> bool" where
  "builder_inv b ts rix \<longleftrightarrow>
     bb_buffer b = enc_all ts \<and> chain ts \<and> rix \<noteq> [] \<and> rix ! 0 = 0 \<and>
     bb_restarts b = map (\<lambda>r. of_nat (entry_off ts r)) rix \<and>
     (\<forall>r \<in> set rix. r < length ts \<and> entry_sh (ts ! r) = 0 \<or> ts = [] \<and> rix = [0]) \<and>
     bb_last_key b = (if ts = [] then [] else entry_key (last ts))"

lemma builder_inv_empty: "builder_inv (make_BlockBuilder interval) [] [0]"
  by (simp add: builder_inv_def make_BlockBuilder_def enc_all_def chain_def)

lemma off_snoc: "i \<le> length ts \<Longrightarrow> entry_off (ts @ [t]) i = entry_off ts i"
  by (simp add: entry_off_def)

lemma chain_snoc:
  assumes "chain ts" and "sh \<le> length k" and "sh < 2 ^ 32"
    and "if ts = [] then sh = 0 else sh \<le> length (entry_key (last ts)) \<and> take sh (entry_key (last ts)) = take sh k"
  shows "chain (ts @ [(sh, k, v)])"
  unfolding chain_def
proof (intro allI impI)
  fix i assume i: "i < length (ts @ [(sh, k, v)])"
  show "entry_sh ((ts @ [(sh, k, v)]) ! i) \<le> length (entry_key ((ts @ [(sh, k, v)]) ! i)) \<and>
      entry_sh ((ts @ [(sh, k, v)]) ! i) < 2 ^ 32 \<and>
      (if i = 0 then entry_sh ((ts @ [(sh, k, v)]) ! i) = 0
       else entry_sh ((ts @ [(sh, k, v)]) ! i) \<le> length (entry_key ((ts @ [(sh, k, v)]) ! (i - 1))) \<and>
         take (entry_sh ((ts @ [(sh, k, v)]) ! i)) (entry_key ((ts @ [(sh, k, v)]) ! (i - 1))) =
         take (entry_sh ((ts @ [(sh, k, v)]) ! i)) (entry_key ((ts @ [(sh, k, v)]) ! i)))"
  proof (cases "i < length ts")
    case True
    then show ?thesis using assms(1) by (auto simp: chain_def nth_append)
  next
    case False
    then have "i = length ts" using i by simp
    then show ?thesis using assms(2-4) by (cases "ts = []") (simp_all add: nth_append last_conv_nth)
  qed
qed

lemma builder_inv_Add:
  assumes "builder_inv b ts rix" and "length k < 2 ^ 32" and "length v < 2 ^ 32"
  shows "\<exists>sh rix'. builder_inv (bb_Add k v b) (ts @ [(sh, k, v)]) rix'"
proof -
  let ?share = "bb_counter b < bb_restart_interval b"
  define sh where "sh = (if ?share then diff_index (bb_last_key b) k else 0)"
  define rix' where "rix' = (if ?share then rix else rix @ [length ts])"
  have i: "bb_buffer b = enc_all ts" "chain ts" "rix \<noteq> []" "rix ! 0 = 0"
    "bb_restarts b = map (\<lambda>r. of_nat (entry_off ts r)) rix"
    "\<forall>r \<in> set rix. r < length ts \<and> entry_sh (ts ! r) = 0 \<or> ts = [] \<and> rix = [0]"
    "bb_last_key b = (if ts = [] then [] else entry_key (last ts))"
    using assms(1) unfolding builder_inv_def by blast+
  have sh: "sh \<le> length k" "sh \<le> length (bb_last_key b)" "take sh (bb_last_key b) = take sh k" "\<not> ?share \<Longrightarrow> sh = 0"
    using diff_index_common [of "bb_last_key b" k] by (auto simp: sh_def)
  have small: "sh < 2 ^ 32" "length k - sh < 2 ^ 32" using sh(1) assms(2) by auto
  have add: "bb_Add k v b =
    b\<lparr>bb_buffer := bb_buffer b @ entry_enc (sh, k, v), bb_last_key := k,
      bb_restarts := (if ?share then bb_restarts b else bb_restarts b @ [of_nat (length (bb_buffer b))]),
      bb_counter := (if ?share then bb_counter b + 1 else 1)\<rparr>"
    using small assms(3) sh(1,3)
    by (auto simp: bb_Add_def Let_def sh_def PutVarint32_def EncodeVarint32_eq unat_of_nat_u32 entry_enc.simps
        entry_header.simps simp del: of_nat_diff)
  have "chain (ts @ [(sh, k, v)])"
    using sh i(7) by (intro chain_snoc [OF i(2) sh(1) small(1)]) auto
  moreover have "\<forall>r \<in> set rix'. r < length (ts @ [(sh, k, v)]) \<and> entry_sh ((ts @ [(sh, k, v)]) ! r) = 0"
  proof
    fix r assume "r \<in> set rix'"
    then consider "r \<in> set rix" | "r = length ts" "\<not> ?share" by (auto simp: rix'_def split: if_splits)
    then show "r < length (ts @ [(sh, k, v)]) \<and> entry_sh ((ts @ [(sh, k, v)]) ! r) = 0"
    proof cases
      case 1
      show ?thesis
      proof (cases "ts = []")
        case True
        then have "r = 0" "sh = 0" using i(6) 1 sh(2) i(7) by auto
        then show ?thesis using True by simp
      next
        case False
        then show ?thesis using i(6) 1 by (auto simp: nth_append)
      qed
    next
      case 2
      then show ?thesis using sh(4) by simp
    qed
  qed
  moreover have "bb_restarts (bb_Add k v b) = map (\<lambda>r. of_nat (entry_off (ts @ [(sh, k, v)]) r)) rix'"
  proof -
    have "r \<le> length ts" if "r \<in> set rix" for r using i(6) that by auto
    then have "map (\<lambda>r. of_nat (entry_off (ts @ [(sh, k, v)]) r)) rix = (map (\<lambda>r. of_nat (entry_off ts r)) rix :: u32 list)"
      by (simp add: off_snoc)
    then show ?thesis by (simp add: add rix'_def i(1,5) off_snoc off_end)
  qed
  moreover have "rix' \<noteq> []" "rix' ! 0 = 0" using i(3,4) by (auto simp: rix'_def nth_append)
  ultimately have "builder_inv (bb_Add k v b) (ts @ [(sh, k, v)]) rix'"
    by (simp add: builder_inv_def add i(1) enc_all_def)
  then show ?thesis by blast
qed

definition build_block :: "int \<Rightarrow> (slice \<times> slice) list \<Rightarrow> bytes" where
  "build_block interval es =
     fst (bb_Finish (fold (\<lambda>(k, v). bb_Add k v) es (make_BlockBuilder interval)))"

definition entries_of :: "shared_entry list \<Rightarrow> (slice \<times> slice) list" where
  "entries_of ts = map (\<lambda>t. (entry_key t, entry_val t)) ts"

lemma builder_inv_all:
  assumes "list_all (\<lambda>(k, v). length k < 2 ^ 32 \<and> length v < 2 ^ 32) es"
  shows "\<exists>ts rix. builder_inv (fold (\<lambda>(k, v). bb_Add k v) es (make_BlockBuilder interval)) ts rix \<and> entries_of ts = es"
  using assms
proof (induction es rule: rev_induct)
  case Nil
  then show ?case using builder_inv_empty by (fastforce simp: entries_of_def)
next
  case (snoc e es)
  then obtain ts rix where i: "builder_inv (fold (\<lambda>(k, v). bb_Add k v) es (make_BlockBuilder interval)) ts rix" "entries_of ts = es"
    by auto
  obtain k v where e: "e = (k, v)" by fastforce
  from builder_inv_Add [OF i(1), of k v] snoc.prems e obtain sh rix' where
    "builder_inv (bb_Add k v (fold (\<lambda>(k, v). bb_Add k v) es (make_BlockBuilder interval))) (ts @ [(sh, k, v)]) rix'"
    by auto
  then show ?case using i(2) e by (auto simp: entries_of_def)
qed

lemma fold_PutFixed32: "fold (\<lambda>r buffer. PutFixed32 buffer r) rs buffer = buffer @ concat (map EncodeFixed32 rs)"
  by (induction rs arbitrary: buffer) (simp_all add: PutFixed32_def)

lemma length_fixed32s: "length (concat (map EncodeFixed32 rs)) = length rs * 4"
  by (induction rs) simp_all

lemma Decode_fixed32s:
  assumes "j < length rs"
  shows "DecodeFixed32 (drop (j * 4) (concat (map EncodeFixed32 rs) @ rest)) = rs ! j"
proof -
  have "concat (map EncodeFixed32 rs) =
      concat (map EncodeFixed32 (take j rs)) @ EncodeFixed32 (rs ! j) @ concat (map EncodeFixed32 (drop (Suc j) rs))"
    using assms by (subst id_take_nth_drop [of j rs]) simp_all
  then show ?thesis using assms by (simp add: length_fixed32s)
qed

lemma built_layout:
  assumes "list_all (\<lambda>(k, v). length k < 2 ^ 32 \<and> length v < 2 ^ 32) es" and "length (build_block interval es) < 2 ^ 32"
  shows "\<exists>it ts rix. block_NewIterator cmp (make_Block (build_block interval es)) = Block_iterator it \<and>
    layout it ts rix \<and> entries_of ts = es \<and> it_comparator it = cmp \<and> it_status it = None"
proof -
  obtain ts rix where i: "builder_inv (fold (\<lambda>(k, v). bb_Add k v) es (make_BlockBuilder interval)) ts rix" "entries_of ts = es"
    using builder_inv_all [OF assms(1)] by blast
  let ?rs = "map (\<lambda>r. of_nat (entry_off ts r)) rix :: u32 list"
  let ?L = "length (enc_all ts)" and ?n = "length rix" and ?c = "build_block interval es"
  have c: "?c = enc_all ts @ concat (map EncodeFixed32 ?rs) @ EncodeFixed32 (of_nat ?n)"
  proof -
    let ?b = "fold (\<lambda>(k, v). bb_Add k v) es (make_BlockBuilder interval)"
    have "bb_buffer ?b = enc_all ts" "bb_restarts ?b = ?rs" using i(1) unfolding builder_inv_def by blast+
    then show ?thesis
      unfolding build_block_def bb_Finish_def Let_def fst_conv by (simp add: fold_PutFixed32) (simp add: PutFixed32_def)
  qed
  have len: "length ?c = ?L + ?n * 4 + 4" unfolding c by (simp only: length_append length_fixed32s) simp
  define F where "F = concat (map EncodeFixed32 ?rs)"
  have lF: "length F = ?n * 4" unfolding F_def by (simp only: length_fixed32s length_map)
  have "drop (length ?c - 4) ?c = EncodeFixed32 (of_nat ?n)"
    unfolding len unfolding c F_def [symmetric] by (simp add: lF)
  then have n: "unat (NumRestarts ?c (length ?c)) = ?n"
    using len assms(2) DecodeFixed32_EncodeFixed32 [of "of_nat ?n" "[]"] by (simp add: NumRestarts_def unat_of_nat_u32)
  have blk: "make_Block ?c = \<lparr>bk_data = ?c, bk_size = length ?c, bk_restart_offset = ?L\<rparr>"
    using n len by (simp add: make_Block_def Let_def)
  have inv: "chain ts" "rix \<noteq> []" "rix ! 0 = 0"
    "\<forall>r \<in> set rix. r < length ts \<and> entry_sh (ts ! r) = 0 \<or> ts = [] \<and> rix = [0]"
    using i(1) unfolding builder_inv_def by blast+
  let ?it = "make_block_iter cmp ?c ?L ?n"
  have "NumRestarts ?c (length ?c) \<noteq> 0" using n inv(2) by auto
  then have it: "block_NewIterator cmp (make_Block ?c) = Block_iterator ?it"
    using n len by (simp add: block_NewIterator_def blk)
  have "GetRestartPoint ?it j = entry_off ts (rix ! j) \<and>
      (rix ! j < length ts \<and> entry_sh (ts ! (rix ! j)) = 0 \<or> ts = [] \<and> rix = [0])" if "j < ?n" for j
  proof
    show r: "rix ! j < length ts \<and> entry_sh (ts ! (rix ! j)) = 0 \<or> ts = [] \<and> rix = [0]" using inv(4) nth_mem [OF that] by blast
    then have le: "rix ! j \<le> length ts" using that by auto
    have "drop (?L + j * 4) ?c = drop (j * 4) (concat (map EncodeFixed32 ?rs) @ EncodeFixed32 (of_nat ?n))"
      unfolding c by simp
    then have "GetRestartPoint ?it j = unat (of_nat (entry_off ts (rix ! j)) :: u32)"
      using Decode_fixed32s [of j ?rs "EncodeFixed32 (of_nat ?n)"] that
      by (simp add: GetRestartPoint_def make_block_iter_def)
    moreover have "entry_off ts (rix ! j) \<le> ?L"
      using off_less [of "rix ! j" "length ts" ts] le by (cases "rix ! j = length ts") (auto simp: off_end)
    then have "entry_off ts (rix ! j) < 2 ^ 32" using assms(2) len by linarith
    ultimately show "GetRestartPoint ?it j = entry_off ts (rix ! j)" by (simp only: unat_of_nat_u32)
  qed
  then have "layout ?it ts rix"
    using inv(1-3) assms(2) len c by (auto simp: layout_def make_block_iter_def)
  then show ?thesis using it i(2) by (auto simp: make_block_iter_def)
qed

lemma find_append': "find P (us @ vs) = (case find P us of None \<Rightarrow> find P vs | Some y \<Rightarrow> Some y)"
  by (induction us) auto

section \<open>The properties of a block\<close>

text \<open>What an iterator goes over from where it stands.\<close>

fun block_entries :: "nat \<Rightarrow> block_iter \<Rightarrow> (slice \<times> slice) list option" where
  "block_entries 0 it = None"
| "block_entries (Suc n) it =
     (if bi_Valid it
      then Option.bind (bi_Next it) (\<lambda>it'. map_option ((#) (bi_key it, bi_value it)) (block_entries n it'))
      else Some [])"

lemma entries_from:
  "layout it ts rix \<Longrightarrow> (if i < length ts then on_entry it ts i else \<not> bi_Valid it) \<Longrightarrow> i \<le> length ts \<Longrightarrow>
     block_entries (Suc (length ts - i)) it = Some (drop i (entries_of ts))"
proof (induction "length ts - i" arbitrary: it i)
  case 0
  then show ?case by (simp add: entries_of_def)
next
  case (Suc d)
  then have i: "i < length ts" "on_entry it ts i" by (auto split: if_splits)
  obtain it' where it': "bi_Next it = Some it'" "same_block it it'"
    "if Suc i < length ts then on_entry it' ts (Suc i) else \<not> bi_Valid it'"
    using Next_on [OF Suc.prems(1) i(2)] by blast
  have "block_entries (Suc (length ts - Suc i)) it' = Some (drop (Suc i) (entries_of ts))"
    by (rule Suc.hyps(1)) (use Suc.hyps(2) layout_same [OF Suc.prems(1) it'(2)] it'(3) i in auto)
  moreover have "Suc (length ts - i) = Suc (Suc (length ts - Suc i))" using i(1) by simp
  moreover have "drop i (entries_of ts) = (entry_key (ts ! i), entry_val (ts ! i)) # drop (Suc i) (entries_of ts)"
    using i(1) by (simp add: entries_of_def Cons_nth_drop_Suc [symmetric])
  moreover have "bi_Valid it" "bi_key it = entry_key (ts ! i)" "bi_value it = entry_val (ts ! i)"
    using i(2) by (simp_all add: on_entry_def)
  ultimately show ?case using it'(1) by (simp del: block_entries.simps(2) add: block_entries.simps(2) [of "Suc _"])
qed

text \<open>
  C31. Round trip of a block: whatever entries are added, in whatever distance the restart points
  lie, an iterator over the finished block goes over exactly these entries, from the first to the
  end, and every read it makes lies in the block.
\<close>
theorem block_roundtrip:
  assumes "list_all (\<lambda>(k, v). length k < 2 ^ 32 \<and> length v < 2 ^ 32) es" and "length (build_block interval es) < 2 ^ 32"
  shows "\<exists>it first. block_NewIterator cmp (make_Block (build_block interval es)) = Block_iterator it \<and>
    bi_SeekToFirst it = Some first \<and> block_entries (Suc (length es)) first = Some es"
proof -
  obtain it ts rix where it: "block_NewIterator cmp (make_Block (build_block interval es)) = Block_iterator it"
    "layout it ts rix" "entries_of ts = es" using built_layout [OF assms] by blast
  have len: "length ts = length es" using it(3) by (auto simp: entries_of_def)
  obtain first where f: "bi_SeekToFirst it = Some first" "same_block it first"
    "if ts = [] then \<not> bi_Valid first else on_entry first ts 0"
    using SeekToFirst_on [OF it(2)] by blast
  have "block_entries (Suc (length ts - 0)) first = Some (drop 0 (entries_of ts))"
    by (rule entries_from [OF layout_same [OF it(2) f(2)]]) (use f(3) in auto)
  then show ?thesis using it(1,3) f(1) len by auto
qed

lemma block_roundtrip_witness:
  "\<exists>it first. block_NewIterator BytewiseComparator (make_Block (build_block 2 [([1], [7]), ([1, 2], [8]), ([3], [])])) =
      Block_iterator it \<and>
    bi_SeekToFirst it = Some first \<and>
    block_entries (Suc (length [([1 :: u8], [7 :: u8]), ([1, 2], [8]), ([3], [])])) first = Some [([1], [7]), ([1, 2], [8]), ([3], [])]"
proof (rule block_roundtrip)
  show "length (build_block 2 [([1], [7]), ([1, 2], [8]), ([3], [])]) < 2 ^ 32"
    by (simp add: build_block_def bb_Finish_def bb_Add_def make_BlockBuilder_def PutVarint32_def PutFixed32_def
        EncodeVarint32_def Let_def)
qed simp

text \<open>A search from any position.\<close>

lemma seek_on:
  assumes lay: "layout it ts rix" and es: "entries_of ts = es" and cmp: "it_comparator it = cmp"
    and trans: "\<And>a b. a \<in> fst ` set es \<Longrightarrow> b \<in> fst ` set es \<Longrightarrow> Compare cmp a b < 0 \<Longrightarrow> Compare cmp b target < 0 \<Longrightarrow> Compare cmp a target < 0"
    and sorted: "sorted_wrt (\<lambda>a b. Compare cmp a b < 0) (map fst es)"
  shows "\<exists>it' m. bi_Seek target it = Some it' \<and> same_block it it' \<and> m \<le> length es \<and>
    (\<forall>x < m. Compare cmp (fst (es ! x)) target < 0) \<and>
    (if m < length ts then on_entry it' ts m \<and> \<not> Compare cmp (fst (es ! m)) target < 0 else \<not> bi_Valid it')"
proof -
  have key: "entry_key (ts ! x) = fst (es ! x)" if "x < length ts" for x
    using that unfolding es [symmetric] by (simp add: entries_of_def)
  have len: "length ts = length es" using es by (auto simp: entries_of_def)
  have "it_num_restarts it - 1 < length rix" using lay by (auto simp: layout_def)
  then obtain l where l: "bisect target it 0 (it_num_restarts it - 1) = Some (Some l)" "l < length rix"
    "l = 0 \<or> Compare cmp (entry_key (ts ! (rix ! l))) target < 0"
    using bisect_on [OF lay, of 0 "it_num_restarts it - 1" target] cmp by auto
  let ?it = "SeekToRestartPoint l it"
  note r = ready_restart [OF lay l(2)]
  have cmp': "it_comparator ?it = cmp" using r cmp by (simp add: same_block_def)
  obtain it' m where m: "seek_linear target ?it = Some it'" "rix ! l \<le> m"
    "\<forall>x. rix ! l \<le> x \<and> x < m \<and> x < length ts \<longrightarrow> Compare cmp (entry_key (ts ! x)) target < 0"
    "if m < length ts then on_entry it' ts m \<and> \<not> Compare cmp (entry_key (ts ! m)) target < 0 else \<not> bi_Valid it'" "same_block ?it it'"
    using seek_linear_on [OF layout_same [OF lay], of ?it "rix ! l" target] r unfolding cmp' by blast
  have seek: "bi_Seek target it = Some it'" using l(1) m(1) by (simp add: bi_Seek_def)
  have before: "Compare cmp (fst (es ! x)) target < 0" if x: "x < m" "x < length es" for x
  proof (cases "rix ! l \<le> x")
    case True
    then show ?thesis using m(3) x len key by auto
  next
    case False
    then have "rix ! l \<noteq> 0" by simp
    moreover have "rix ! 0 = 0" using lay by (simp add: layout_def)
    ultimately have "l \<noteq> 0" by (cases l) auto
    have "ts \<noteq> []" using x len by auto
    then have in_range: "rix ! l < length ts" using lay l(2) by (auto simp: layout_def)
    have "Compare cmp (fst (es ! x)) (fst (es ! (rix ! l))) < 0"
      using sorted_wrt_nth_less [OF sorted, of x "rix ! l"] False in_range len by simp
    moreover have "Compare cmp (fst (es ! (rix ! l))) target < 0"
      using l(3) \<open>l \<noteq> 0\<close> key [OF in_range] by simp
    moreover have "fst (es ! y) \<in> fst ` set es" if "y < length es" for y using that by (intro imageI nth_mem)
    ultimately show ?thesis using x in_range len trans [of "fst (es ! x)" "fst (es ! (rix ! l))"] by simp
  qed
  have "same_block it it'" using r m(5) same_block_trans by blast
  moreover have "if min m (length es) < length ts then on_entry it' ts (min m (length es)) \<and> \<not> Compare cmp (fst (es ! min m (length es))) target < 0 else \<not> bi_Valid it'"
    using m(4) key len by (auto simp: min_def split: if_splits)
  ultimately show ?thesis using seek before by (intro exI [of _ it'] exI [of _ "min m (length es)"]) simp
qed

lemma find_first:
  assumes "m \<le> length es" "\<forall>x < m. \<not> P (es ! x)" "m < length es \<Longrightarrow> P (es ! m)"
  shows "find P es = (if m < length es then Some (es ! m) else None)"
proof (cases "m < length es")
  case True
  have "find P es = Some (es ! m)"
    unfolding find_Some_iff by (rule exI [of _ m]) (use assms True in simp)
  then show ?thesis using True by simp
next
  case False
  then show ?thesis using assms(1,2) by (auto simp: find_None_iff in_set_conv_nth)
qed

lemma built_seek:
  assumes "list_all (\<lambda>(k, v). length k < 2 ^ 32 \<and> length v < 2 ^ 32) es" and "length (build_block interval es) < 2 ^ 32"
    and "\<And>a b. a \<in> fst ` set es \<Longrightarrow> b \<in> fst ` set es \<Longrightarrow> Compare cmp a b < 0 \<Longrightarrow> Compare cmp b target < 0 \<Longrightarrow> Compare cmp a target < 0"
    and "sorted_wrt (\<lambda>a b. Compare cmp a b < 0) (map fst es)"
  shows "\<exists>it it'. block_NewIterator cmp (make_Block (build_block interval es)) = Block_iterator it \<and>
    bi_Seek target it = Some it' \<and> it_status it = None \<and> it_status it' = None \<and>
    (case find (\<lambda>(k, v). \<not> Compare cmp k target < 0) es of
       None \<Rightarrow> \<not> bi_Valid it'
     | Some (k, v) \<Rightarrow> bi_Valid it' \<and> bi_key it' = k \<and> bi_value it' = v)"
proof -
  obtain it ts rix where it: "block_NewIterator cmp (make_Block (build_block interval es)) = Block_iterator it"
    "layout it ts rix" "entries_of ts = es" "it_comparator it = cmp" "it_status it = None" using built_layout [OF assms(1,2)] by blast
  obtain it' m where m: "bi_Seek target it = Some it'" "same_block it it'" "m \<le> length es"
    "\<forall>x < m. Compare cmp (fst (es ! x)) target < 0"
    "if m < length ts then on_entry it' ts m \<and> \<not> Compare cmp (fst (es ! m)) target < 0 else \<not> bi_Valid it'"
    using seek_on [OF it(2-4) _ assms(4), of target] assms(3) by blast
  have len: "length ts = length es" using it(3) by (auto simp: entries_of_def)
  have "find (\<lambda>(k, v). \<not> Compare cmp k target < 0) es = (if m < length es then Some (es ! m) else None)"
    by (rule find_first [OF m(3)]) (use m(4,5) len in \<open>auto simp: split_beta split: if_splits\<close>)
  moreover have "it_status it' = None" using m(2) it(5) by (simp add: same_block_def)
  ultimately show ?thesis
    using it(1,3,5) m(1,5) len by (auto simp: on_entry_def entries_of_def split_beta split: if_splits)
qed

text \<open>
  C30. Search: in a block of entries in ascending order of the comparator, from any position of the
  iterator, \<open>Seek\<close> stops at the first entry whose key is not before the target, or is not valid if
  there is none.
\<close>
theorem block_seek_first:
  assumes "list_all (\<lambda>(k, v). length k < 2 ^ 32 \<and> length v < 2 ^ 32) es" and "length (build_block interval es) < 2 ^ 32"
    and "\<And>a b. Compare cmp a b < 0 \<Longrightarrow> Compare cmp b target < 0 \<Longrightarrow> Compare cmp a target < 0"
    and "sorted_wrt (\<lambda>a b. Compare cmp a b < 0) (map fst es)"
  shows "\<exists>it it'. block_NewIterator cmp (make_Block (build_block interval es)) = Block_iterator it \<and>
    bi_Seek target it = Some it' \<and>
    (case find (\<lambda>(k, v). \<not> Compare cmp k target < 0) es of
       None \<Rightarrow> \<not> bi_Valid it'
     | Some (k, v) \<Rightarrow> bi_Valid it' \<and> bi_key it' = k \<and> bi_value it' = v)"
  using built_seek [OF assms(1,2) _ assms(4), of target] assms(3) by blast

lemma block_seek_first_witness:
  "\<exists>it it'. block_NewIterator BytewiseComparator (make_Block (build_block 2 [([1 :: u8], [7 :: u8]), ([1, 2], [8]), ([3], [])])) =
      Block_iterator it \<and>
    bi_Seek [2] it = Some it' \<and>
    (case find (\<lambda>(k, v). \<not> Compare BytewiseComparator k [2] < 0) [([1], [7]), ([1, 2], [8]), ([3], [])] of
       None \<Rightarrow> \<not> bi_Valid it'
     | Some (k, v) \<Rightarrow> bi_Valid it' \<and> bi_key it' = k \<and> bi_value it' = v)"
proof (rule block_seek_first)
  show "length (build_block 2 [([1], [7]), ([1, 2], [8]), ([3], [])]) < 2 ^ 32"
    by (simp add: build_block_def bb_Finish_def bb_Add_def make_BlockBuilder_def PutVarint32_def PutFixed32_def
        EncodeVarint32_def Let_def)
  show "Compare BytewiseComparator a b < 0 \<Longrightarrow> Compare BytewiseComparator b [2] < 0 \<Longrightarrow> Compare BytewiseComparator a [2] < 0" for a b
    by (rule bytewise.less_trans [of a b "[2]"]) simp_all
qed (simp_all add: BytewiseComparator_def)

text \<open>
  A block of one entry whose key length is \<open>2 ^ 32 - 1\<close> and whose value length is 1: the sum that
  \<open>DecodeEntry\<close> compares with the bytes left is zero, so the entry passes for a good one, and the key
  is read from beyond the block.
\<close>
lemma block_entry_length_wraps:
  fixes data :: bytes
  defines "data \<equiv> [0, 255, 255, 255, 255, 15, 1, 0, 0, 0, 0, 1, 0, 0, 0]"
  shows "DecodeEntry data 0 7 = Some (0, 2 ^ 32 - 1, 1, 7)"
    and "\<exists>it. block_NewIterator cmp (make_Block data) = Block_iterator it \<and> bi_SeekToFirst it = None"
proof -
  show d: "DecodeEntry data 0 7 = Some (0, 2 ^ 32 - 1, 1, 7)"
    by (simp add: data_def DecodeEntry_def GetVarint32Ptr_def GetVarint32PtrFallback_def Let_def varint_rounds_step)
  show "\<exists>it. block_NewIterator cmp (make_Block data) = Block_iterator it \<and> bi_SeekToFirst it = None"
  proof -
    have f: "DecodeFixed32 [1, 0, 0, 0] = 1" "DecodeFixed32 [0, 0, 0, 0, 1, 0, 0, 0] = 0" by code_simp+
    have n: "NumRestarts data 15 = 1" using f by (simp add: data_def NumRestarts_def)
    have "length data = 15" by (simp add: data_def)
    then have blk: "make_Block data = \<lparr>bk_data = data, bk_size = 15, bk_restart_offset = 7\<rparr>"
      using n by (simp add: make_Block_def Let_def)
    let ?it = "make_block_iter cmp data 7 1"
    have "GetRestartPoint ?it 0 = 0" using f by (simp add: GetRestartPoint_def make_block_iter_def data_def)
    then have "bi_SeekToFirst ?it = None"
      using d \<open>length data = 15\<close>
      by (simp add: bi_SeekToFirst_def SeekToRestartPoint_def ParseNextKey_def NextEntryOffset_def make_block_iter_def)
    moreover have "block_NewIterator cmp (make_Block data) = Block_iterator ?it"
      by (simp add: block_NewIterator_def blk n)
    ultimately show ?thesis by blast
  qed
qed

end
