(* ===== verification/LdbWrite.thy ===== *)
theory LdbWrite
  imports LdbLog LdbMemTable
begin

text \<open>
  The write path of \<open>leveldb-library/db/db_impl.cc\<close>: the queue of writers, the groups of batches the
  writer at its front commits for the others, the log and the memtable they go to, \<open>Get\<close> over them,
  and the recovery of a log file when the database is opened again.

  The calls of \<open>Write\<close> by many threads are a step relation on the state the mutex protects. The
  mutex is free only while the front writer logs and inserts its group, so its steps are interleaved
  with those of writers that join the queue and wait for their condition variable; a writer that waits goes on only when it
  has been signalled. The memtable is not switched for a new one: a run ends where \<open>MakeRoomForWrite\<close> would do that.
  The files, \<open>Sync\<close>, the level-0 tables and the memory a table uses are parameters, and any of their calls may fail.

  The lemmas show what is in the log and the memtable in every state of a run, and that a recovery
  after a crash finds whole writes in their order, the synced ones among them.
\<close>

section \<open>Writers and their groups\<close>

text \<open>
  \<open>status\<close> and \<open>done\<close> of a writer are its place in \<open>db_returned\<close> below, and its condition variable is in \<open>db_asleep\<close>. Writers
  are numbered in the order in which they join the queue, so that the front of the queue is the writer
  \<open>length (db_returned db)\<close>.
\<close>

record db_writer =
  wr_batch :: "write_batch option"
  wr_sync :: bool

definition db_Put :: "bool \<Rightarrow> slice \<Rightarrow> slice \<Rightarrow> db_writer" where
  "db_Put sync k v = \<lparr>wr_batch = Some (batch_Put batch_Clear k v), wr_sync = sync\<rparr>"

definition db_Delete :: "bool \<Rightarrow> slice \<Rightarrow> db_writer" where
  "db_Delete sync k = \<lparr>wr_batch = Some (batch_Delete batch_Clear k), wr_sync = sync\<rparr>"

text \<open>
  The loop of \<open>BuildBatchGroup\<close> over the writers behind the first: the batch, whether it is
  \<open>tmp_batch_\<close>, and how many of these writers are in the group.
\<close>

fun group_loop ::
  "bool \<Rightarrow> nat \<Rightarrow> write_batch \<Rightarrow> write_batch \<Rightarrow> nat \<Rightarrow> bool \<Rightarrow> nat \<Rightarrow> db_writer list \<Rightarrow> write_batch \<times> bool \<times> nat" where
  "group_loop sync max_size tmp result bytes_in in_tmp n [] = (result, in_tmp, n)"
| "group_loop sync max_size tmp result bytes_in in_tmp n (w # ws) =
     (if wr_sync w \<and> \<not> sync then (result, in_tmp, n)
      else
        (case wr_batch w of
           None \<Rightarrow> group_loop sync max_size tmp result bytes_in in_tmp (n + 1) ws
         | Some b \<Rightarrow>
             let bytes_in = bytes_in + length b in
             if max_size < bytes_in then (result, in_tmp, n)
             else
               let result = (if in_tmp then result else batch_Append tmp result)
               in group_loop sync max_size tmp (batch_Append result b) bytes_in True (n + 1) ws))"

definition group_limit :: "nat \<Rightarrow> nat" where
  "group_limit bytes_in = (if bytes_in \<le> 128 * 2 ^ 10 then bytes_in + 128 * 2 ^ 10 else 2 ^ 20)"

definition BuildBatchGroup :: "write_batch \<Rightarrow> write_batch \<Rightarrow> bool \<Rightarrow> db_writer list \<Rightarrow> write_batch \<times> bool \<times> nat" where
  "BuildBatchGroup tmp first sync ws =
     group_loop sync (group_limit (length first)) tmp first (length first) False 0 ws"

section \<open>The database\<close>

datatype commit_phase = To_log | To_sync | To_insert | To_finish

text \<open>The locals of the front writer while it is in the branch of a group.\<close>

record commit =
  cm_updates :: write_batch
  cm_in_tmp :: bool
  cm_others :: nat
  cm_last_sequence :: u64
  cm_sync :: bool
  cm_status :: status
  cm_sync_error :: bool
  cm_phase :: commit_phase

record 'f db =
  db_mem :: mem_table
  db_imm :: "mem_table option"
  db_log :: "'f log_writer"
  db_last_sequence :: u64
  db_bg_error :: status
  db_tmp_batch :: write_batch
  db_writers :: "db_writer list"
  db_commit :: "commit option"
  db_returned :: "(db_writer \<times> status) list"
  db_asleep :: "nat list"

definition RecordBackgroundError :: "status \<Rightarrow> 'f db \<Rightarrow> 'f db" where
  "RecordBackgroundError s db = (if status_ok (db_bg_error db) then db\<lparr>db_bg_error := s\<rparr> else db)"

definition kL0_SlowdownWritesTrigger :: nat where "kL0_SlowdownWritesTrigger = 8"
definition kL0_StopWritesTrigger :: nat where "kL0_StopWritesTrigger = 12"

text \<open>A round of \<open>MakeRoomForWrite\<close>: the end of its loop, a sleep, a wait, or a new memtable.\<close>

datatype room = Room_ready | Room_error status | Room_delay | Room_wait | Room_switch

definition make_room :: "bool \<Rightarrow> bool \<Rightarrow> nat \<Rightarrow> nat \<Rightarrow> nat \<Rightarrow> 'f db \<Rightarrow> room" where
  "make_room allow_delay force level0_files memory_usage write_buffer_size db =
     (if \<not> status_ok (db_bg_error db) then Room_error (db_bg_error db)
      else if allow_delay \<and> kL0_SlowdownWritesTrigger \<le> level0_files then Room_delay
      else if \<not> force \<and> memory_usage \<le> write_buffer_size then Room_ready
      else if db_imm db \<noteq> None then Room_wait
      else if kL0_StopWritesTrigger \<le> level0_files then Room_wait
      else Room_switch)"

text \<open>
  \<open>Signal\<close> wakes the writer if it waits. It then looks at its condition again, and goes on for good: \<open>Write\<close> signals a writer
  only when it is done or at the front. Without a signal it waits on (a wake-up for no reason ends in \<open>Wait\<close> again).
\<close>

definition cv_Signal :: "nat \<Rightarrow> 'f db \<Rightarrow> 'f db" where
  "cv_Signal i db = db\<lparr>db_asleep := removeAll i (db_asleep db)\<rparr>"

definition is_awake :: "'f db \<Rightarrow> nat \<Rightarrow> bool" where
  "is_awake db i \<longleftrightarrow> i \<notin> set (db_asleep db)"

text \<open>
  The end of \<open>Write\<close>: the front writer and \<open>n\<close> others leave the queue with the status; the others and the new front are signalled.
\<close>

definition pop_writers :: "nat \<Rightarrow> status \<Rightarrow> 'f db \<Rightarrow> 'f db" where
  "pop_writers n s db =
     (let w = length (db_returned db);
          db = db\<lparr>db_writers := drop (Suc n) (db_writers db),
                  db_returned := db_returned db @ map (\<lambda>w. (w, s)) (take (Suc n) (db_writers db))\<rparr>;
          db = fold cv_Signal [Suc w..<length (db_returned db)] db
      in if db_writers db \<noteq> [] then cv_Signal (length (db_returned db)) db else db)"

text \<open>Joining the queue: whoever is not at the front waits.\<close>

definition write_enter :: "db_writer \<Rightarrow> 'f db \<Rightarrow> 'f db" where
  "write_enter w db =
     db\<lparr>db_writers := db_writers db @ [w],
        db_asleep := (if db_writers db = [] then db_asleep db
                      else db_asleep db @ [length (db_returned db) + length (db_writers db)])\<rparr>"

text \<open>After \<open>MakeRoomForWrite\<close>: a group is built, or the writer is done with the status.\<close>

definition write_begin :: "status \<Rightarrow> 'f db \<Rightarrow> 'f db" where
  "write_begin s db =
     (let w = hd (db_writers db) in
      if status_ok s \<and> wr_batch w \<noteq> None then
        (case BuildBatchGroup (db_tmp_batch db) (the (wr_batch w)) (wr_sync w) (tl (db_writers db)) of
           (updates, in_tmp, others) \<Rightarrow>
             let updates = batch_SetSequence updates (db_last_sequence db + 1)
             in db\<lparr>db_commit := Some \<lparr>cm_updates = updates, cm_in_tmp = in_tmp, cm_others = others,
                    cm_last_sequence = db_last_sequence db + scast (batch_Count updates),
                    cm_sync = wr_sync w, cm_status = status_OK, cm_sync_error = False, cm_phase = To_log\<rparr>,
                   db_tmp_batch := (if in_tmp then updates else db_tmp_batch db)\<rparr>)
      else pop_writers 0 s db)"

definition write_log :: "'f writable_file \<Rightarrow> commit \<Rightarrow> 'f db \<Rightarrow> 'f db" where
  "write_log wops cm db =
     (case AddRecord wops (db_log db) (cm_updates cm) of
        (s, w) \<Rightarrow> db\<lparr>db_log := w, db_commit := Some (cm\<lparr>cm_status := s, cm_phase := To_sync\<rparr>)\<rparr>)"

definition write_sync :: "('f \<Rightarrow> status \<times> 'f) \<Rightarrow> commit \<Rightarrow> 'f db \<Rightarrow> 'f db" where
  "write_sync file_sync cm db =
     (if status_ok (cm_status cm) \<and> cm_sync cm then
        (case file_sync (dest (db_log db)) of
           (s, f) \<Rightarrow>
             db\<lparr>db_log := (db_log db)\<lparr>dest := f\<rparr>,
                db_commit := Some (cm\<lparr>cm_status := s, cm_sync_error := \<not> status_ok s, cm_phase := To_insert\<rparr>)\<rparr>)
      else db\<lparr>db_commit := Some (cm\<lparr>cm_phase := To_insert\<rparr>)\<rparr>)"

text \<open>\<open>None\<close>: undefined behaviour in the memtable.\<close>

definition write_insert :: "commit \<Rightarrow> 'f db \<Rightarrow> 'f db option" where
  "write_insert cm db =
     (if status_ok (cm_status cm) then
        (case InsertInto (cm_updates cm) (db_mem db) of
           (s, None) \<Rightarrow> None
         | (s, Some table) \<Rightarrow>
             Some (db\<lparr>db_mem := table, db_commit := Some (cm\<lparr>cm_status := s, cm_phase := To_finish\<rparr>)\<rparr>))
      else Some (db\<lparr>db_commit := Some (cm\<lparr>cm_phase := To_finish\<rparr>)\<rparr>))"

definition write_finish :: "commit \<Rightarrow> 'f db \<Rightarrow> 'f db" where
  "write_finish cm db =
     (let db = (if cm_sync_error cm then RecordBackgroundError (cm_status cm) db else db);
          db = (if cm_in_tmp cm then db\<lparr>db_tmp_batch := batch_Clear\<rparr> else db);
          db = db\<lparr>db_last_sequence := cm_last_sequence cm, db_commit := None\<rparr>
      in pop_writers (cm_others cm) (cm_status cm) db)"

text \<open>The operations of a batch, as \<open>Iterate\<close> hands them out; a writer's batch is made by puts and deletions.\<close>

definition collect_ops :: "batch_op list batch_handler" where
  "collect_ops = \<lparr>on_put = \<lambda>k v ops. ops @ [Put_op k v], on_delete = \<lambda>k ops. ops @ [Delete_op k]\<rparr>"

definition batch_ops :: "write_batch \<Rightarrow> batch_op list" where
  "batch_ops b = snd (batch_Iterate collect_ops b [])"

definition writer_ops :: "db_writer \<Rightarrow> batch_op list" where
  "writer_ops w = (case wr_batch w of None \<Rightarrow> [] | Some b \<Rightarrow> batch_ops b)"

definition writer_ok :: "db_writer \<Rightarrow> bool" where
  "writer_ok w \<longleftrightarrow>
     (case wr_batch w of
        None \<Rightarrow> True
      | Some b \<Rightarrow> holds b (batch_Sequence b) (batch_ops b) \<and> list_all op_small (batch_ops b))"

text \<open>
  The steps. The front writer goes on when it is awake and \<open>MakeRoomForWrite\<close> is done; what it finds about the files
  and the memory is arbitrary.
\<close>

inductive db_step :: "'f writable_file \<Rightarrow> ('f \<Rightarrow> status \<times> 'f) \<Rightarrow> 'f db \<Rightarrow> 'f db \<Rightarrow> bool"
  for wops file_sync where
  enter: "writer_ok w \<Longrightarrow> db_step wops file_sync db (write_enter w db)"
| begin_ready: "db_commit db = None \<Longrightarrow> db_writers db \<noteq> [] \<Longrightarrow> is_awake db (length (db_returned db)) \<Longrightarrow>
    make_room allow (wr_batch (hd (db_writers db)) = None) files usage limit db = Room_ready \<Longrightarrow>
    db_step wops file_sync db (write_begin status_OK db)"
| begin_error: "db_commit db = None \<Longrightarrow> db_writers db \<noteq> [] \<Longrightarrow> is_awake db (length (db_returned db)) \<Longrightarrow>
    make_room allow (wr_batch (hd (db_writers db)) = None) files usage limit db = Room_error s \<Longrightarrow>
    db_step wops file_sync db (write_begin s db)"
| to_log: "db_commit db = Some cm \<Longrightarrow> cm_phase cm = To_log \<Longrightarrow> db_step wops file_sync db (write_log wops cm db)"
| to_sync: "db_commit db = Some cm \<Longrightarrow> cm_phase cm = To_sync \<Longrightarrow> db_step wops file_sync db (write_sync file_sync cm db)"
| to_insert: "db_commit db = Some cm \<Longrightarrow> cm_phase cm = To_insert \<Longrightarrow> write_insert cm db = Some db' \<Longrightarrow>
    db_step wops file_sync db db'"
| to_finish: "db_commit db = Some cm \<Longrightarrow> cm_phase cm = To_finish \<Longrightarrow> db_step wops file_sync db (write_finish cm db)"

definition new_db :: "'f \<Rightarrow> 'f db" where
  "new_db f = \<lparr>db_mem = mem_Ref (make_MemTable BytewiseComparator), db_imm = None, db_log = make_writer f,
     db_last_sequence = 0, db_bg_error = status_OK, db_tmp_batch = batch_Clear, db_writers = [],
     db_commit = None, db_returned = [], db_asleep = []\<rparr>"

abbreviation db_run :: "'f writable_file \<Rightarrow> ('f \<Rightarrow> status \<times> 'f) \<Rightarrow> 'f db \<Rightarrow> 'f db \<Rightarrow> bool" where
  "db_run wops file_sync \<equiv> (db_step wops file_sync)\<^sup>*\<^sup>*"

text \<open>\<open>Get\<close> over the memtables, with the search of the files as a parameter.\<close>

definition db_Get ::
  "(lookup_key \<Rightarrow> bytes \<Rightarrow> bytes \<times> status) \<Rightarrow> u64 option \<Rightarrow> slice \<Rightarrow> bytes \<Rightarrow> 'f db \<Rightarrow> (bytes \<times> status) option" where
  "db_Get version_Get snapshot key value db =
     (let lkey = make_LookupKey key (case snapshot of Some s \<Rightarrow> s | None \<Rightarrow> db_last_sequence db) in
      Option.bind (mem_Get lkey value status_OK (db_mem db)) (\<lambda>(found, value, s).
        if found then Some (value, s)
        else
          (case db_imm db of
             None \<Rightarrow> Some (version_Get lkey value)
           | Some imm \<Rightarrow>
               Option.bind (mem_Get lkey value s imm) (\<lambda>(found, value, s).
                 if found then Some (value, s) else Some (version_Get lkey value)))))"

section \<open>Recovery of a log\<close>

record recover_options =
  ro_paranoid_checks :: bool
  ro_reuse_logs :: bool
  ro_write_buffer_size :: nat
  ro_user :: comparator

record 't recovery =
  rc_status :: status
  rc_mem :: "mem_table option"
  rc_max_sequence :: u64
  rc_save_manifest :: bool
  rc_compactions :: int
  rc_tables :: 't

definition MaybeIgnoreError :: "recover_options \<Rightarrow> status \<Rightarrow> status" where
  "MaybeIgnoreError opts s = (if status_ok s \<or> ro_paranoid_checks opts then s else status_OK)"

text \<open>\<open>LogReporter::Corruption\<close>.\<close>

definition reporter_Corruption :: "recover_options \<Rightarrow> status \<Rightarrow> 't recovery \<Rightarrow> 't recovery" where
  "reporter_Corruption opts s rc =
     (if ro_paranoid_checks opts \<and> status_ok (rc_status rc) then rc\<lparr>rc_status := s\<rparr> else rc)"

text \<open>The reports that the reader made since it was \<open>r\<close>, oldest first, to the reporter.\<close>

definition new_reports :: "'f log_reader \<Rightarrow> 'f log_reader \<Rightarrow> (u64 \<times> status) list" where
  "new_reports r r' =
     (case (reporter r, reporter r') of
        (Some old, Some new) \<Rightarrow> rev (take (length new - length old) new)
      | _ \<Rightarrow> [])"

definition hear_reports :: "recover_options \<Rightarrow> 'f log_reader \<Rightarrow> 'f log_reader \<Rightarrow> 't recovery \<Rightarrow> 't recovery" where
  "hear_reports opts r r' rc = fold (\<lambda>(n, s). reporter_Corruption opts s) (new_reports r r') rc"

text \<open>A round with a record: whether the loop goes on.\<close>

definition recover_record ::
  "recover_options \<Rightarrow> (mem_table \<Rightarrow> nat) \<Rightarrow> (mem_table \<Rightarrow> 't \<Rightarrow> status \<times> 't) \<Rightarrow> slice \<Rightarrow> 't recovery \<Rightarrow>
     (bool \<times> 't recovery) option" where
  "recover_record opts usage WriteLevel0Table rec rc =
     (if length rec < 12
      then Some (True, reporter_Corruption opts (status_Corruption (c_str ''log record too small'') []) rc)
      else
        let batch = batch_SetContents rec;
            table = (case rc_mem rc of None \<Rightarrow> mem_Ref (make_MemTable (ro_user opts)) | Some table \<Rightarrow> table)
        in case InsertInto batch table of
             (s, None) \<Rightarrow> None
           | (s, Some table) \<Rightarrow>
               let s = MaybeIgnoreError opts s;
                   rc = rc\<lparr>rc_status := s, rc_mem := Some table\<rparr>
               in if \<not> status_ok s then Some (False, rc)
                  else
                    let last_seq = batch_Sequence batch + scast (batch_Count batch) - 1;
                        rc = (if rc_max_sequence rc < last_seq then rc\<lparr>rc_max_sequence := last_seq\<rparr> else rc)
                    in if ro_write_buffer_size opts < usage table then
                         (case WriteLevel0Table table (rc_tables rc) of
                            (s, tables) \<Rightarrow>
                              Some (status_ok s,
                                rc\<lparr>rc_compactions := rc_compactions rc + 1, rc_save_manifest := True,
                                   rc_status := s, rc_tables := tables, rc_mem := None\<rparr>))
                       else Some (True, rc))"

partial_function (option) recover_loop ::
  "recover_options \<Rightarrow> (mem_table \<Rightarrow> nat) \<Rightarrow> (mem_table \<Rightarrow> 't \<Rightarrow> status \<times> 't) \<Rightarrow> 'f sequential_file \<Rightarrow>
     'f log_reader \<Rightarrow> 't recovery \<Rightarrow> 't recovery option" where
  "recover_loop opts usage WriteLevel0Table rops r rc =
     Option.bind (ReadRecord rops r) (\<lambda>(result, r').
       let rc = hear_reports opts r r' rc in
       case result of
         None \<Rightarrow> Some rc
       | Some rec \<Rightarrow>
           if \<not> status_ok (rc_status rc) then Some rc
           else
             Option.bind (recover_record opts usage WriteLevel0Table rec rc) (\<lambda>(go_on, rc).
               if go_on then recover_loop opts usage WriteLevel0Table rops r' rc else Some rc))"

text \<open>
  What follows the loop: the log is written on and the table becomes \<open>mem_\<close>, or it goes to level 0.
  \<open>reopen\<close> is the log opened for appending, with its size, if that succeeds.
\<close>

definition recover_finish ::
  "recover_options \<Rightarrow> (mem_table \<Rightarrow> 't \<Rightarrow> status \<times> 't) \<Rightarrow> ('g \<times> u64) option \<Rightarrow> bool \<Rightarrow> 't recovery \<Rightarrow>
     't recovery \<times> (mem_table \<times> 'g log_writer) option" where
  "recover_finish opts WriteLevel0Table reopen last_log rc =
     (case (if status_ok (rc_status rc) \<and> ro_reuse_logs opts \<and> last_log \<and> rc_compactions rc = 0 then reopen else None) of
        Some (logfile, lfile_size) \<Rightarrow>
          (rc\<lparr>rc_mem := None\<rparr>,
           Some ((case rc_mem rc of Some table \<Rightarrow> table | None \<Rightarrow> mem_Ref (make_MemTable (ro_user opts))),
                 make_writer_at logfile lfile_size))
      | None \<Rightarrow>
          (case rc_mem rc of
             None \<Rightarrow> (rc, None)
           | Some table \<Rightarrow>
               if status_ok (rc_status rc) then
                 (case WriteLevel0Table table (rc_tables rc) of
                    (s, tables) \<Rightarrow>
                      (rc\<lparr>rc_save_manifest := True, rc_status := s, rc_tables := tables, rc_mem := None\<rparr>, None))
               else (rc\<lparr>rc_mem := None\<rparr>, None)))"

definition RecoverLogFile ::
  "recover_options \<Rightarrow> (mem_table \<Rightarrow> nat) \<Rightarrow> (mem_table \<Rightarrow> 't \<Rightarrow> status \<times> 't) \<Rightarrow> 'f sequential_file \<Rightarrow>
     status + 'f \<Rightarrow> ('g \<times> u64) option \<Rightarrow> bool \<Rightarrow> 't recovery \<Rightarrow>
     ('t recovery \<times> (mem_table \<times> 'g log_writer) option) option" where
  "RecoverLogFile opts usage WriteLevel0Table rops opened reopen last_log rc =
     (case opened of
        Inl s \<Rightarrow> Some (rc\<lparr>rc_status := MaybeIgnoreError opts s\<rparr>, None)
      | Inr file \<Rightarrow>
          map_option (recover_finish opts WriteLevel0Table reopen last_log)
            (recover_loop opts usage WriteLevel0Table rops (make_reader file True True 0)
              (rc\<lparr>rc_status := status_OK, rc_mem := None, rc_compactions := 0\<rparr>)))"

text \<open>The loop of \<open>Recover\<close> over the logs, in the order of their numbers.\<close>

fun recover_logs ::
  "recover_options \<Rightarrow> (mem_table \<Rightarrow> nat) \<Rightarrow> (mem_table \<Rightarrow> 't \<Rightarrow> status \<times> 't) \<Rightarrow> 'f sequential_file \<Rightarrow>
     (status + 'f) list \<Rightarrow> ('g \<times> u64) option \<Rightarrow> 't recovery \<Rightarrow>
     ('t recovery \<times> (mem_table \<times> 'g log_writer) option) option" where
  "recover_logs opts usage WriteLevel0Table rops [] reopen rc = Some (rc, None)"
| "recover_logs opts usage WriteLevel0Table rops (log # logs) reopen rc =
     Option.bind (RecoverLogFile opts usage WriteLevel0Table rops log reopen (logs = []) rc) (\<lambda>(rc, reused).
       if \<not> status_ok (rc_status rc) \<or> logs = [] then Some (rc, reused)
       else recover_logs opts usage WriteLevel0Table rops logs reopen rc)"

definition recovered_LastSequence :: "u64 \<Rightarrow> u64 \<Rightarrow> u64" where
  "recovered_LastSequence last_sequence max_sequence =
     (if last_sequence < max_sequence then max_sequence else last_sequence)"

section \<open>Leaving and joining the queue\<close>

lemma fold_Signal: "fold cv_Signal ns db = db\<lparr>db_asleep := filter (\<lambda>i. i \<notin> set ns) (db_asleep db)\<rparr>"
proof (induction ns arbitrary: db)
  case Nil
  then show ?case by simp
next
  case (Cons n ns)
  have "filter (\<lambda>i. i \<notin> set ns) (removeAll n (db_asleep db)) = filter (\<lambda>i. i \<notin> set (n # ns)) (db_asleep db)"
    by (auto simp: removeAll_filter_not_eq intro: filter_cong)
  then show ?case using Cons by (simp add: cv_Signal_def)
qed

lemma pop_writers_eq: "\<exists>asleep. pop_writers n s db =
    db\<lparr>db_writers := drop (Suc n) (db_writers db),
       db_returned := db_returned db @ map (\<lambda>w. (w, s)) (take (Suc n) (db_writers db)), db_asleep := asleep\<rparr>"
  unfolding pop_writers_def Let_def fold_Signal cv_Signal_def
  by (cases "drop (Suc n) (db_writers db) = []") (auto simp del: drop_Suc take_Suc)

lemma pop_fields [simp]:
  "db_mem (pop_writers n s db) = db_mem db" "db_imm (pop_writers n s db) = db_imm db"
  "db_log (pop_writers n s db) = db_log db" "db_last_sequence (pop_writers n s db) = db_last_sequence db"
  "db_bg_error (pop_writers n s db) = db_bg_error db" "db_tmp_batch (pop_writers n s db) = db_tmp_batch db"
  "db_commit (pop_writers n s db) = db_commit db" "db_writers (pop_writers n s db) = drop (Suc n) (db_writers db)"
  "db_returned (pop_writers n s db) = db_returned db @ map (\<lambda>w. (w, s)) (take (Suc n) (db_writers db))"
  using pop_writers_eq [of n s db] by (auto simp del: drop_Suc take_Suc)

lemma pop_asleep:
  "set (db_asleep (pop_writers n s db)) =
     {i \<in> set (db_asleep db). \<not> (Suc (length (db_returned db)) \<le> i \<and> i < length (db_returned (pop_writers n s db))) \<and>
        \<not> (db_writers (pop_writers n s db) \<noteq> [] \<and> i = length (db_returned (pop_writers n s db)))}"
  unfolding pop_writers_def Let_def fold_Signal cv_Signal_def by (auto simp del: drop_Suc take_Suc)

section \<open>Groups\<close>

lemma collect_fold: "fold (handle_op collect_ops) ops acc = acc @ ops"
proof (induction ops arbitrary: acc)
  case (Cons op ops)
  then show ?case by (cases op) (simp_all add: collect_ops_def)
qed simp

lemma batch_ops_holds: "holds b q ops \<Longrightarrow> list_all op_fits ops \<Longrightarrow> batch_ops b = ops"
  by (simp add: batch_ops_def Iterate_holds collect_fold)

lemma small_all_fit: "list_all op_small ops \<Longrightarrow> list_all op_fits ops"
  using small_fits by (auto simp: list_all_iff)

definition group_ops :: "db_writer list \<Rightarrow> batch_op list" where
  "group_ops ws = concat (map writer_ops ws)"

lemma group_ops_simps [simp]:
  "group_ops [] = []" "group_ops (w # ws) = writer_ops w @ group_ops ws"
  "group_ops (ws @ vs) = group_ops ws @ group_ops vs"
  by (simp_all add: group_ops_def)

lemma group_ops_concat: "group_ops (concat G) = concat (map group_ops G)"
  by (induction G) simp_all

lemma writer_ops_small: "writer_ok w \<Longrightarrow> list_all op_small (writer_ops w)"
  by (auto simp: writer_ok_def writer_ops_def split: option.splits)

lemma group_ops_small: "list_all writer_ok ws \<Longrightarrow> list_all op_small (group_ops ws)"
  by (induction ws) (auto simp: writer_ops_small)

text \<open>A group holds the operations of its writers, and a sync writer only if the first is one.\<close>

lemma group_loop_holds:
  assumes "group_loop sync max_size batch_Clear result sz in_tmp n ws = (r, in_tmp', n')"
    and "holds result q ops" and "list_all writer_ok ws"
  shows "\<exists>k q'. n' = n + k \<and> k \<le> length ws \<and> holds r q' (ops @ group_ops (take k ws)) \<and>
    (\<not> sync \<longrightarrow> (\<forall>w \<in> set (take k ws). \<not> wr_sync w))"
  using assms
proof (induction ws arbitrary: result sz in_tmp n q ops)
  case Nil
  then show ?case by auto
next
  case (Cons w ws)
  have stop: ?case if "(result, in_tmp, n) = (r, in_tmp', n')"
    using that Cons.prems(2) by (intro exI [of _ 0] exI [of _ q]) simp
  have go: ?case if run: "group_loop sync max_size batch_Clear result1 sz1 in_tmp1 (n + 1) ws = (r, in_tmp', n')"
    and h: "holds result1 q1 (ops @ writer_ops w)" and s: "wr_sync w \<longrightarrow> sync" for result1 sz1 in_tmp1 q1
  proof -
    from Cons.IH [OF run h] Cons.prems(3) obtain k q' where
      "n' = n + 1 + k" "k \<le> length ws" "holds r q' ((ops @ writer_ops w) @ group_ops (take k ws))"
      "\<not> sync \<longrightarrow> (\<forall>w \<in> set (take k ws). \<not> wr_sync w)" by auto
    then show ?thesis using s by (intro exI [of _ "Suc k"] exI [of _ q']) auto
  qed
  show ?case
  proof (cases "wr_sync w \<and> \<not> sync")
    case True
    then show ?thesis using Cons.prems(1) stop by simp
  next
    case sync: False
    show ?thesis
    proof (cases "wr_batch w")
      case None
      then show ?thesis
        using Cons.prems(1,2) sync by (intro go) (auto simp: writer_ops_def)
    next
      case (Some b)
      then have b: "holds b (batch_Sequence b) (writer_ops w)"
        using Cons.prems(3) by (simp add: writer_ok_def writer_ops_def)
      show ?thesis
      proof (cases "max_size < sz + length b")
        case True
        then show ?thesis using Cons.prems(1) Some sync stop by simp
      next
        case False
        let ?r = "if in_tmp then result else batch_Append batch_Clear result"
        have "\<exists>q1. holds (batch_Append ?r b) q1 (ops @ writer_ops w)"
          using holds_Append [OF Cons.prems(2) b] holds_Append [OF holds_Append [OF holds_Clear Cons.prems(2)] b] by auto
        then obtain q1 where q1: "holds (batch_Append ?r b) q1 (ops @ writer_ops w)" by blast
        have "group_loop sync max_size batch_Clear (batch_Append ?r b) (sz + length b) True (n + 1) ws = (r, in_tmp', n')"
          using Cons.prems(1) Some sync False by (simp add: Let_def)
        from go [OF this q1] sync show ?thesis by simp
      qed
    qed
  qed
qed

lemma batch_of_unique: "holds b (of_nat q) ops \<Longrightarrow> b = batch_of q ops"
  using holds_batch_of [of q ops] by (simp add: holds_def)

lemma numbered_batches_snoc:
  "numbered_batches q (G @ [ops]) = numbered_batches q G @ [batch_of (q + length (concat G)) ops]"
  by (induction G arbitrary: q) (simp_all add: add.assoc)

lemma length_numbered_batches [simp]: "length (numbered_batches q G) = length G"
  by (induction G arbitrary: q) simp_all

lemma take_numbered_batches: "take k (numbered_batches q G) = numbered_batches q (take k G)"
  by (induction G arbitrary: q k) (simp_all add: take_Cons' )

lemma log_bytes_snoc:
  "log_bytes pos (ds @ [d]) = log_bytes pos ds @ log_record (pos + length (log_bytes pos ds)) d True"
  by (induction ds arbitrary: pos) (simp_all add: add.assoc)

section \<open>What a file keeps\<close>

text \<open>
  \<open>durable\<close> is the number of bytes of the file that survive a crash: appending and flushing do not
  lose any, and \<open>Sync\<close> makes the whole file durable if it returns OK. A sync does not make up for an append that failed.
\<close>

definition syncs_ok ::
  "'f writable_file \<Rightarrow> ('f \<Rightarrow> status \<times> 'f) \<Rightarrow> ('f \<Rightarrow> bytes) \<Rightarrow> ('f \<Rightarrow> nat) \<Rightarrow> ('f \<Rightarrow> bool) \<Rightarrow> bool" where
  "syncs_ok wops file_sync written durable failed \<longleftrightarrow>
     (\<forall>f bs. durable f \<le> durable (snd (file_append wops f bs))) \<and>
     (\<forall>f. durable f \<le> durable (snd (file_flush wops f))) \<and>
     (\<forall>f. written (snd (file_sync f)) = written f \<and> durable f \<le> durable (snd (file_sync f)) \<and>
        (failed f \<longrightarrow> failed (snd (file_sync f))) \<and>
        (status_ok (fst (file_sync f)) \<longrightarrow> durable (snd (file_sync f)) = length (written f)))"

section \<open>What a recovery finds\<close>

text \<open>Looking a key up in several tables, newest first, as \<open>Get\<close> does.\<close>

fun tables_Get :: "lookup_key \<Rightarrow> bytes \<Rightarrow> status \<Rightarrow> mem_table list \<Rightarrow> (bool \<times> bytes \<times> status) option" where
  "tables_Get key value s [] = Some (False, value, s)"
| "tables_Get key value s (t # ts) =
     Option.bind (mem_Get key value s t) (\<lambda>(found, value, s).
       if found then Some (True, value, s) else tables_Get key value s ts)"

lemma newest_append:
  assumes "\<And>e f. e \<in> set es \<Longrightarrow> f \<in> set fs \<Longrightarrow> en_seq e < en_seq f"
  shows "newest (es @ fs) = (case newest fs of None \<Rightarrow> newest es | Some f \<Rightarrow> Some f)"
  using assms
proof (induction es)
  case (Cons e es)
  then have IH: "newest (es @ fs) = (case newest fs of None \<Rightarrow> newest es | Some f \<Rightarrow> Some f)" by simp
  show ?case
  proof (cases "newest fs")
    case (Some f)
    then have "f \<in> set fs" using newest_max by blast
    then have "en_seq e < en_seq f" using Cons.prems by simp
    then have "\<not> en_seq f < en_seq e" by simp
    then show ?thesis using IH Some by simp
  qed (use IH in simp)
qed (simp split: option.splits)

lemma lookup_append:
  assumes "\<And>e f. e \<in> set es \<Longrightarrow> f \<in> set fs \<Longrightarrow> en_seq e < en_seq f"
  shows "mem_lookup (es @ fs) u s value st =
    (if fst (mem_lookup fs u s value st) then mem_lookup fs u s value st else mem_lookup es u s value st)"
  unfolding mem_lookup_def filter_append
  by (subst newest_append) (use assms in \<open>auto split: option.splits\<close>)

lemma lookup_not_found: "\<not> fst (mem_lookup es u s value st) \<Longrightarrow> mem_lookup es u s value st = (False, value, st)"
  by (auto simp: mem_lookup_def split: option.splits if_splits)

definition ascending :: "mem_entry list \<Rightarrow> bool" where
  "ascending es \<longleftrightarrow> sorted_wrt (\<lambda>e f. en_seq e < en_seq f) es"

lemma tables_Get_lookup:
  assumes "length u + 8 < 2 ^ 32" and "s \<le> kMaxSequenceNumber"
  shows "list_all2 mem_holds ts ess \<Longrightarrow> ascending (concat ess) \<Longrightarrow>
    tables_Get (make_LookupKey u s) value st (rev ts) = Some (mem_lookup (concat ess) u s value st)"
proof (induction ess arbitrary: ts rule: rev_induct)
  case Nil
  then show ?case by (simp add: mem_lookup_def)
next
  case (snoc es ess)
  then obtain ts' t where ts: "ts = ts' @ [t]" "list_all2 mem_holds ts' ess" "mem_holds t es"
    by (auto simp: list_all2_append2 list_all2_Cons2)
  have less: "e \<in> set (concat ess) \<Longrightarrow> f \<in> set es \<Longrightarrow> en_seq e < en_seq f" for e f
    using snoc.prems(2) by (auto simp: ascending_def sorted_wrt_append)
  have IH: "tables_Get (make_LookupKey u s) value st (rev ts') = Some (mem_lookup (concat ess) u s value st)"
    using snoc.IH [OF ts(2)] snoc.prems(2) by (simp add: ascending_def sorted_wrt_append)
  have L: "mem_lookup (concat (ess @ [es])) u s value st =
      (if fst (mem_lookup es u s value st) then mem_lookup es u s value st else mem_lookup (concat ess) u s value st)"
  proof -
    have "mem_lookup (concat ess @ es) u s value st =
      (if fst (mem_lookup es u s value st) then mem_lookup es u s value st else mem_lookup (concat ess) u s value st)"
      by (rule lookup_append) (erule less)
    then show ?thesis by simp
  qed
  show ?case
  proof (cases "fst (mem_lookup es u s value st)")
    case True
    then show ?thesis
      unfolding ts(1) L using holds_Get [OF ts(3) assms] by (cases "mem_lookup es u s value st") simp
  next
    case False
    then show ?thesis
      unfolding ts(1) L using holds_Get [OF ts(3) assms] lookup_not_found [OF False] IH by simp
  qed
qed

lemma op_entries_ascending: "q + length ops \<le> 2 ^ 56 \<Longrightarrow> ascending (op_entries q ops)"
proof (induction ops rule: rev_induct)
  case (snoc op ops)
  let ?n = "q + length ops"
  have n: "?n < 2 ^ 56" using snoc.prems by simp
  have "en_seq e < of_nat ?n" if "e \<in> set (op_entries q ops)" for e
    using op_entries_seqs(2) [OF that] n by (simp add: word_less_nat_alt unat_of_nat_56 del: of_nat_add)
  then show ?case using snoc by (simp add: ascending_def sorted_wrt_append op_entries_snoc)
qed (simp add: ascending_def)

text \<open>
  \<open>WriteLevel0Table\<close> makes a table file of the memtable, if it returns OK; \<open>tabs\<close> are the memtables the files were made of.
\<close>

definition level0_if_ok :: "(mem_table \<Rightarrow> 't \<Rightarrow> status \<times> 't) \<Rightarrow> ('t \<Rightarrow> mem_table list) \<Rightarrow> bool" where
  "level0_if_ok WriteLevel0Table tabs \<longleftrightarrow>
     (\<forall>m t. status_ok (fst (WriteLevel0Table m t)) \<longrightarrow> tabs (snd (WriteLevel0Table m t)) = tabs t @ [m])"

text \<open>The recovery has stopped because a table could not be written.\<close>

definition level0_failed :: "(mem_table \<Rightarrow> 't \<Rightarrow> status \<times> 't) \<Rightarrow> status \<Rightarrow> bool" where
  "level0_failed WriteLevel0Table s \<longleftrightarrow> \<not> status_ok s \<and> (\<exists>m t. s = fst (WriteLevel0Table m t))"

definition recovered_tables :: "('t \<Rightarrow> mem_table list) \<Rightarrow> 't recovery \<Rightarrow> mem_table list" where
  "recovered_tables tabs rc = tabs (rc_tables rc) @ (case rc_mem rc of None \<Rightarrow> [] | Some m \<Rightarrow> [m])"

text \<open>The recovery is at the sequence number \<open>q\<close>, with the entries \<open>es\<close> in its tables.\<close>

definition recovering :: "('t \<Rightarrow> mem_table list) \<Rightarrow> 't recovery \<Rightarrow> nat \<Rightarrow> mem_entry list \<Rightarrow> bool" where
  "recovering tabs rc q es \<longleftrightarrow> rc_status rc = status_OK \<and> 0 < q \<and> rc_max_sequence rc = of_nat (q - 1) \<and>
     (\<forall>e \<in> set es. unat (en_seq e) < q) \<and>
     (\<exists>ess. list_all2 mem_holds (recovered_tables tabs rc) ess \<and> concat ess = es)"

lemma mem_holds_Ref [simp]: "mem_holds (mem_Ref m) es = mem_holds m es"
  by (simp add: mem_holds_def mem_Ref_def)

lemma scast_count: "n < 2 ^ 31 \<Longrightarrow> scast (of_nat n :: u32) = (of_nat n :: u64)"
proof -
  assume "n < 2 ^ 31"
  then have "uint (of_nat n :: u32) = int n" by (simp add: unsigned_of_nat take_bit_nat_eq_self)
  then have "sint (of_nat n :: u32) = int n"
    using \<open>n < 2 ^ 31\<close> by (simp add: sint_uint signed_take_bit_int_eq_self)
  then show ?thesis by (simp add: scast_eq)
qed

lemma recover_record_batch:
  assumes "recovering tabs rc q es" and "level0_if_ok W tabs" and "ro_user opts = BytewiseComparator"
    and "list_all op_small ops" and "q + length ops \<le> 2 ^ 31"
  obtains (ok) rc' where "recover_record opts usage W (batch_of q ops) rc = Some (True, rc')"
      and "recovering tabs rc' (q + length ops) (es @ op_entries q ops)"
    | (failed) rc' where "recover_record opts usage W (batch_of q ops) rc = Some (False, rc')"
      and "level0_failed W (rc_status rc')"
proof -
  let ?t = "case rc_mem rc of None \<Rightarrow> mem_Ref (make_MemTable BytewiseComparator) | Some m \<Rightarrow> m"
  obtain ess where ess: "list_all2 mem_holds (recovered_tables tabs rc) ess" "concat ess = es"
    using assms(1) unfolding recovering_def by blast
  obtain init last where split: "list_all2 mem_holds (tabs (rc_tables rc)) init" "mem_holds ?t last" "init @ [last] = ess \<or> last = [] \<and> init = ess"
  proof (cases "rc_mem rc")
    case None
    then show ?thesis using ess(1) that [of ess "[]"] by (simp add: recovered_tables_def mem_holds_empty)
  next
    case (Some m)
    then obtain init last where "ess = init @ [last]" "list_all2 mem_holds (tabs (rc_tables rc)) init" "mem_holds m last"
      using ess(1) by (auto simp: recovered_tables_def list_all2_append1 list_all2_Cons1)
    then show ?thesis using Some that by simp
  qed
  have es: "es = concat init @ last" using split(3) ess(2) by auto
  have "\<forall>e \<in> set last. unat (en_seq e) < q" using assms(1) es by (auto simp: recovering_def)
  from holds_InsertInto [OF split(2) assms(4) _ this] assms(5) obtain m' where
    m': "InsertInto (batch_of q ops) ?t = (status_OK, Some m')" "mem_holds m' (last @ op_entries q ops)"
    "\<forall>e \<in> set (last @ op_entries q ops). unat (en_seq e) < q + length ops" by auto
  have parts: "batch_Sequence (batch_of q ops) = of_nat q" "batch_Count (batch_of q ops) = of_nat (length ops)"
    "12 \<le> length (batch_of q ops)" using holds_parts [OF holds_batch_of] by auto
  obtain s t where w: "W m' (rc_tables rc) = (s, t)" by fastforce
  have wt: "status_ok s \<Longrightarrow> tabs t = tabs (rc_tables rc) @ [m']" using assms(2) w unfolding level0_if_ok_def by (metis fst_conv snd_conv)
  define top where "top = (of_nat (q + length ops - 1) :: u64)"
  have q: "0 < q" "rc_max_sequence rc = of_nat (q - 1)" "rc_status rc = status_OK"
    using assms(1) by (auto simp: recovering_def)
  have last_seq: "of_nat q + scast (of_nat (length ops) :: u32) - 1 = top"
    using q(1) assms(5) by (simp add: scast_count top_def of_nat_diff)
  have "unat (rc_max_sequence rc) = q - 1" "unat top = q + length ops - 1"
    unfolding q(2) top_def using assms(5) by (intro unat_of_nat_56; simp)+
  then have "rc_max_sequence rc < top \<or> rc_max_sequence rc = top"
    using q(1) by (auto simp: word_less_nat_alt word_unat_eq_iff)
  then have max: "(if rc_max_sequence rc < top then top else rc_max_sequence rc) = top" by auto
  let ?rc = "rc\<lparr>rc_max_sequence := top\<rparr>"
  let ?rc' = "if ro_write_buffer_size opts < usage m'
    then rc\<lparr>rc_status := s, rc_max_sequence := top, rc_compactions := rc_compactions rc + 1, rc_save_manifest := True,
            rc_tables := t, rc_mem := None\<rparr>
    else rc\<lparr>rc_status := status_OK, rc_max_sequence := top, rc_mem := Some m'\<rparr>"
  let ?big = "ro_write_buffer_size opts < usage m'"
  have run: "recover_record opts usage W (batch_of q ops) rc = Some (?big \<longrightarrow> status_ok s, ?rc')"
    unfolding recover_record_def assms(3) Let_def batch_SetContents_def m'(1) prod.case option.case parts(1,2) last_seq
    using parts(3) q(3) max w by (simp add: MaybeIgnoreError_def status_OK_def status_ok_def split: if_splits)
  show thesis
  proof (cases "?big \<longrightarrow> status_ok s")
    case True
    have "list_all2 mem_holds (recovered_tables tabs ?rc') (init @ [last @ op_entries q ops])"
      using split(1) m'(2) wt True by (auto simp: recovered_tables_def intro: list_all2_appendI)
    moreover have "concat (init @ [last @ op_entries q ops]) = es @ op_entries q ops" by (simp add: es)
    moreover have "\<forall>e \<in> set (es @ op_entries q ops). unat (en_seq e) < q + length ops"
      using assms(1) m'(3) by (auto simp: recovering_def intro: less_le_trans)
    ultimately have "recovering tabs ?rc' (q + length ops) (es @ op_entries q ops)"
      unfolding recovering_def using q True by (auto simp: top_def status_ok_def status_OK_def)
    then show thesis using run True by (intro ok [of ?rc']) simp_all
  next
    case False
    moreover have "s = fst (W m' (rc_tables rc))" using w by simp
    ultimately have "level0_failed W (rc_status ?rc')" unfolding level0_failed_def by auto
    then show thesis using run False by (intro failed [of ?rc']) simp_all
  qed
qed

lemma no_reports: "reporter r' = reporter r \<Longrightarrow> hear_reports opts r r' rc = rc"
  by (simp add: hear_reports_def new_reports_def split: option.split)

lemma recover_loop_log:
  assumes "reads_ok rops contents" and "level0_if_ok W tabs" and "ro_user opts = BytewiseComparator"
  shows "reads_at contents r pos (take m (log_bytes pos (numbered_batches q G))) \<Longrightarrow>
    recovering tabs rc q es \<Longrightarrow> list_all (list_all op_small) G \<Longrightarrow> q + length (concat G) \<le> 2 ^ 31 \<Longrightarrow>
    \<exists>rc'. recover_loop opts usage W rops r rc = Some rc' \<and>
      (recovering tabs rc' (q + length (concat (take (complete pos m (numbered_batches q G)) G)))
         (es @ op_entries q (concat (take (complete pos m (numbered_batches q G)) G))) \<or>
       level0_failed W (rc_status rc'))"
proof (induction G arbitrary: r pos m q rc es)
  case Nil
  then have at: "reads_at contents r pos (take 0 (log_record pos [] True))" by simp
  have "0 < length (log_record pos [] True)" using log_record_not_Nil by blast
  from ReadRecord_cut [OF assms(1) at this] obtain r' where
    "ReadRecord rops r = Some (None, r')" "reporter r' = reporter r" .
  then have "recover_loop opts usage W rops r rc = Some rc"
    by (subst recover_loop.simps) (simp add: no_reports)
  then show ?case using Nil.prems(2) by simp
next
  case (Cons ops G)
  let ?d = "batch_of q ops" and ?q = "q + length ops"
  let ?n = "length (log_record pos ?d True)"
  have ok: "status_ok (rc_status rc)" using Cons.prems(2) by (simp add: recovering_def status_ok_def status_OK_def)
  show ?case
  proof (cases "m < ?n")
    case True
    then have "reads_at contents r pos (take m (log_record pos ?d True))" using Cons.prems(1) by simp
    from ReadRecord_cut [OF assms(1) this True] obtain r' where
      "ReadRecord rops r = Some (None, r')" "reporter r' = reporter r" .
    then have "recover_loop opts usage W rops r rc = Some rc"
      by (subst recover_loop.simps) (simp add: no_reports)
    then show ?thesis using True Cons.prems(2) by (simp add: Let_def)
  next
    case False
    then have "reads_at contents r pos (log_record pos ?d True @ take (m - ?n) (log_bytes (pos + ?n) (numbered_batches ?q G)))"
      using Cons.prems(1) by simp
    from ReadRecord_whole [OF assms(1) this] obtain r1 where r1: "ReadRecord rops r = Some (Some ?d, r1)"
      "reads_at contents r1 (pos + ?n) (take (m - ?n) (log_bytes (pos + ?n) (numbered_batches ?q G)))" "reporter r1 = reporter r" .
    show ?thesis
    proof (rule recover_record_batch [OF Cons.prems(2) assms(2,3), of ops usage])
      show "list_all op_small ops" "q + length ops \<le> 2 ^ 31" using Cons.prems(3,4) by auto
    next
      fix rc1
      assume rc1: "recover_record opts usage W ?d rc = Some (True, rc1)" "recovering tabs rc1 ?q (es @ op_entries q ops)"
      let ?k = "complete (pos + ?n) (m - ?n) (numbered_batches ?q G)"
      from Cons.IH [OF r1(2) rc1(2)] Cons.prems(3,4) obtain rc' where
        rc': "recover_loop opts usage W rops r1 rc1 = Some rc'"
        "recovering tabs rc' (?q + length (concat (take ?k G))) ((es @ op_entries q ops) @ op_entries ?q (concat (take ?k G))) \<or>
         level0_failed W (rc_status rc')"
        by auto
      have "recover_loop opts usage W rops r rc = Some rc'"
        using r1(1,3) ok rc1(1) rc'(1) by (subst recover_loop.simps) (simp add: no_reports)
      moreover have "complete pos m (numbered_batches q (ops # G)) = Suc ?k" using False by (simp add: Let_def)
      ultimately show ?thesis using rc'(2) by (auto simp: op_entries_append add.assoc)
    next
      fix rc1
      assume rc1: "recover_record opts usage W ?d rc = Some (False, rc1)" "level0_failed W (rc_status rc1)"
      have "recover_loop opts usage W rops r rc = Some rc1"
        using r1(1,3) ok rc1(1) by (subst recover_loop.simps) (simp add: no_reports)
      then show ?thesis using rc1(2) by blast
    qed
  qed
qed

lemma complete_le: "complete pos m ds \<le> length ds"
  by (induction ds arbitrary: pos m) (auto simp: Let_def)

lemma complete_ge: "j \<le> length ds \<Longrightarrow> length (log_bytes pos (take j ds)) \<le> m \<Longrightarrow> j \<le> complete pos m ds"
proof (induction ds arbitrary: pos m j)
  case (Cons d ds)
  then show ?case by (cases j) (auto simp: Let_def)
qed simp

text \<open>The tables after the recovery, the one that became \<open>mem_\<close> last.\<close>

definition final_tables ::
  "('t \<Rightarrow> mem_table list) \<Rightarrow> 't recovery \<times> (mem_table \<times> 'g log_writer) option \<Rightarrow> mem_table list" where
  "final_tables tabs out = tabs (rc_tables (fst out)) @ (case snd out of None \<Rightarrow> [] | Some (m, w) \<Rightarrow> [m])"

lemma recover_finish_tables:
  fixes reopen :: "('g \<times> u64) option" and last_log :: bool
  assumes "recovering tabs rc q es" and "level0_if_ok W tabs" and "ro_user opts = BytewiseComparator"
  defines "out \<equiv> recover_finish opts W reopen last_log rc"
  shows "level0_failed W (rc_status (fst out)) \<or>
    rc_status (fst out) = status_OK \<and> rc_max_sequence (fst out) = of_nat (q - 1) \<and>
    (\<exists>ess. list_all2 mem_holds (final_tables tabs out) ess \<and> concat ess = es)"
proof (cases "status_ok (rc_status (fst out))")
  case False
  have "status_ok (rc_status rc)" using assms(1) by (simp add: recovering_def status_ok_def status_OK_def)
  then have "\<exists>m. rc_status (fst out) = fst (W m (rc_tables rc))"
    using False by (auto simp: out_def recover_finish_def split: option.splits prod.splits) (metis fst_conv)+
  then show ?thesis using False by (auto simp: level0_failed_def)
next
  case True
  obtain ess where ess: "list_all2 mem_holds (recovered_tables tabs rc) ess" "concat ess = es"
    and rc: "rc_status rc = status_OK" "rc_max_sequence rc = of_nat (q - 1)"
    using assms(1) unfolding recovering_def by blast
  have ok: "status_ok (rc_status rc)" using rc by (simp add: status_ok_def status_OK_def)
  have W: "W m t = (s, t') \<Longrightarrow> status_ok s \<Longrightarrow> tabs t' = tabs t @ [m]" for m t s t'
    using assms(2) unfolding level0_if_ok_def by (metis fst_conv snd_conv)
  have "rc_max_sequence (fst out) = of_nat (q - 1)"
    using rc ok by (auto simp: out_def recover_finish_def split: option.splits prod.splits)
  moreover have "final_tables tabs out = recovered_tables tabs rc \<or>
      rc_mem rc = None \<and> final_tables tabs out = recovered_tables tabs rc @ [mem_Ref (make_MemTable BytewiseComparator)]"
    using ok assms(3) True
    by (auto simp: out_def recover_finish_def final_tables_def recovered_tables_def split: option.splits prod.splits dest!: W)
  then have "\<exists>ess. list_all2 mem_holds (final_tables tabs out) ess \<and> concat ess = es"
  proof
    assume "rc_mem rc = None \<and> final_tables tabs out = recovered_tables tabs rc @ [mem_Ref (make_MemTable BytewiseComparator)]"
    then have "list_all2 mem_holds (final_tables tabs out) (ess @ [[]])"
      using ess(1) by (auto intro: list_all2_appendI simp: mem_holds_empty)
    then show ?thesis using ess(2) by (intro exI [of _ "ess @ [[]]"]) simp
  qed (use ess in auto)
  ultimately show ?thesis using True by (simp add: status_ok_def status_OK_def)
qed

lemma recover_finish_failed:
  assumes "level0_failed W (rc_status rc)"
  shows "level0_failed W (rc_status (fst (recover_finish opts W reopen last_log rc)))"
proof -
  have "\<not> status_ok (rc_status rc)" using assms by (simp add: level0_failed_def)
  then have "rc_status (fst (recover_finish opts W reopen last_log rc)) = rc_status rc"
    by (simp add: recover_finish_def split: option.split)
  then show ?thesis using assms by simp
qed

lemma recover_whole_file:
  assumes "reads_ok rops contents" and "level0_if_ok W tabs" and "ro_user opts = BytewiseComparator"
    and "tabs tables = []" and "rc_max_sequence rc = 0" and "rc_tables rc = tables"
    and "list_all (list_all op_small) G" and "length (concat G) < 2 ^ 31"
    and "contents f = take m (log_bytes 0 (numbered_batches 1 G))"
  defines "k \<equiv> complete 0 m (numbered_batches 1 G)"
  shows "\<exists>out. RecoverLogFile opts usage W rops (Inr f) reopen last_log rc = Some out \<and>
    (level0_failed W (rc_status (fst out)) \<or>
     rc_status (fst out) = status_OK \<and> rc_max_sequence (fst out) = of_nat (length (concat (take k G))) \<and>
     (\<exists>ess. list_all2 mem_holds (final_tables tabs out) ess \<and> concat ess = op_entries 1 (concat (take k G))))"
proof -
  let ?rc = "rc\<lparr>rc_status := status_OK, rc_mem := None, rc_compactions := 0\<rparr>"
  have start: "recovering tabs ?rc 1 []" using assms(4-6) by (simp add: recovering_def recovered_tables_def)
  have at: "reads_at contents (make_reader f True True 0) 0 (take m (log_bytes 0 (numbered_batches 1 G)))"
    using make_reader_at_start [of contents f True True] assms(9) by simp
  obtain rc' where rc': "recover_loop opts usage W rops (make_reader f True True 0) ?rc = Some rc'"
    "recovering tabs rc' (1 + length (concat (take k G))) ([] @ op_entries 1 (concat (take k G))) \<or> level0_failed W (rc_status rc')"
    using recover_loop_log [OF assms(1-3) at start assms(7)] assms(8) unfolding k_def by auto
  let ?out = "recover_finish opts W reopen last_log rc'"
  have "RecoverLogFile opts usage W rops (Inr f) reopen last_log rc = Some ?out"
    using rc'(1) by (simp add: RecoverLogFile_def)
  moreover from rc'(2) have "level0_failed W (rc_status (fst ?out)) \<or>
     rc_status (fst ?out) = status_OK \<and> rc_max_sequence (fst ?out) = of_nat (length (concat (take k G))) \<and>
     (\<exists>ess. list_all2 mem_holds (final_tables tabs ?out) ess \<and> concat ess = op_entries 1 (concat (take k G)))"
  proof
    assume r: "recovering tabs rc' (1 + length (concat (take k G))) ([] @ op_entries 1 (concat (take k G)))"
    show ?thesis using recover_finish_tables [OF r assms(2,3), of reopen last_log] by simp
  qed (use recover_finish_failed in blast)
  ultimately show ?thesis by blast
qed

end
