(* ===== verification/LdbVisible.thy ===== *)
theory LdbVisible
  imports LdbWrite
begin

text \<open>
  What holds in every run of the write path, whatever the files do: appends, flushes and syncs may fail in any way. The memtable
  holds the writes that have returned OK, with ascending sequence numbers, and nobody waits for a signal that was given already.
\<close>

section \<open>Groups with gaps\<close>

text \<open>
  The groups in the memtable with their first sequence numbers: a group that is not inserted uses up numbers as well.
\<close>

fun spaced :: "nat \<Rightarrow> (nat \<times> db_writer list) list \<Rightarrow> nat \<Rightarrow> bool" where
  "spaced lo [] hi \<longleftrightarrow> lo \<le> hi"
| "spaced lo ((q, X) # A) hi \<longleftrightarrow> lo \<le> q \<and> spaced (q + length (group_ops X)) A hi"

definition numbered_entries :: "(nat \<times> db_writer list) list \<Rightarrow> mem_entry list" where
  "numbered_entries A = concat (map (\<lambda>(q, X). op_entries q (group_ops X)) A)"

definition all_ops :: "(nat \<times> db_writer list) list \<Rightarrow> batch_op list" where
  "all_ops A = group_ops (concat (map snd A))"

lemma spaced_snoc: "spaced lo (A @ [(q, X)]) hi \<longleftrightarrow> spaced lo A q \<and> q + length (group_ops X) \<le> hi"
  by (induction lo A q rule: spaced.induct) auto

lemma spaced_mono: "spaced lo A hi \<Longrightarrow> hi \<le> hi' \<Longrightarrow> spaced lo A hi'"
  by (induction lo A hi rule: spaced.induct) auto

lemma entries_snoc [simp]:
  "numbered_entries [] = []" "numbered_entries (A @ [(q, X)]) = numbered_entries A @ op_entries q (group_ops X)"
  by (simp_all add: numbered_entries_def)

lemma all_ops_snoc [simp]: "all_ops [] = []" "all_ops (A @ [(q, X)]) = all_ops A @ group_ops X"
  by (simp_all add: all_ops_def)

lemma spaced_seqs:
  assumes "spaced lo A hi" and "hi \<le> 2 ^ 56" and "e \<in> set (numbered_entries A)"
  shows "unat (en_seq e) < hi"
  using assms
proof (induction A arbitrary: hi rule: rev_induct)
  case (snoc p A)
  obtain q X where p: "p = (q, X)" by (cases p)
  have s: "spaced lo A q" "q + length (group_ops X) \<le> hi" using snoc.prems(1) by (simp_all add: p spaced_snoc)
  then show ?case
    using snoc.IH [of q] op_entries_seqs(2) [of e q "group_ops X"] snoc.prems(2,3) by (fastforce simp: p)
qed simp

text \<open>What a lookup finds of one group, from any first number on.\<close>

definition last_op :: "slice \<Rightarrow> batch_op list \<Rightarrow> batch_op option" where
  "last_op key ops = find (\<lambda>op. op_key op = key) (rev ops)"

lemma lookup_group:
  assumes "q + length ops \<le> 2 ^ 56" and "q + length ops \<le> Suc (unat s)"
  shows "mem_lookup (op_entries q ops) u s value st = mem_answer (last_op u ops) value st"
  using assms
proof (induction ops rule: rev_induct)
  case Nil
  then show ?case by (simp add: mem_lookup_def last_op_def)
next
  case (snoc op ops)
  let ?e = "op_entry (of_nat (q + length ops)) op"
  have seq: "unat (en_seq ?e) = q + length ops" using unat_of_nat_56 [of "q + length ops"] snoc.prems by simp
  have less: "en_seq f < en_seq ?e" if "f \<in> set (op_entries q ops)" for f
    using op_entries_seqs(2) [OF that] snoc.prems(1) seq by (simp add: word_less_nat_alt)
  have IH: "mem_lookup (op_entries q ops) u s value st = mem_answer (last_op u ops) value st" using snoc by simp
  have le: "en_seq ?e \<le> s" using seq snoc.prems(2) by (simp add: word_le_nat_alt)
  have "mem_lookup (op_entries q ops @ [?e]) u s value st =
      (if fst (mem_lookup [?e] u s value st) then mem_lookup [?e] u s value st else mem_lookup (op_entries q ops) u s value st)"
    by (rule lookup_append) (use less in auto)
  moreover have "mem_lookup [?e] u s value st = mem_answer (if op_key op = u then Some op else None) value st"
    using le by (cases op) (simp_all add: mem_lookup_def kTypeValue_def kTypeDeletion_def)
  moreover have "fst (mem_answer (Some op) value st)" by (cases op) simp_all
  ultimately show ?case by (simp add: op_entries_snoc IH last_op_def)
qed

lemma answer_append:
  "mem_answer (last_op u (ops @ ops')) value st =
     (if fst (mem_answer (last_op u ops') value st) then mem_answer (last_op u ops') value st
      else mem_answer (last_op u ops) value st)"
proof -
  have "fst (mem_answer (Some op) value st)" for op by (cases op) simp_all
  then show ?thesis by (cases "last_op u ops'") (simp_all add: last_op_def find_append)
qed

lemma lookup_groups:
  assumes "spaced lo A hi" and "hi \<le> 2 ^ 56" and "hi \<le> Suc (unat s)"
  shows "mem_lookup (numbered_entries A) u s value st = mem_answer (last_op u (all_ops A)) value st"
  using assms
proof (induction A arbitrary: hi rule: rev_induct)
  case Nil
  then show ?case by (simp add: mem_lookup_def last_op_def)
next
  case (snoc p A)
  obtain q X where p: "p = (q, X)" by (cases p)
  have s: "spaced lo A q" "q + length (group_ops X) \<le> hi" using snoc.prems(1) by (simp_all add: p spaced_snoc)
  have "en_seq e < en_seq f" if "e \<in> set (numbered_entries A)" "f \<in> set (op_entries q (group_ops X))" for e f
    using spaced_seqs [OF s(1) _ that(1)] op_entries_seqs(1) [OF that(2)] s(2) snoc.prems(2) by (simp add: word_less_nat_alt)
  from lookup_append [OF this] snoc.IH [OF s(1)] lookup_group [of q "group_ops X" s] s(2) snoc.prems(2,3)
  show ?case by (simp add: p answer_append)
qed

text \<open>A group above the snapshot is not seen.\<close>

lemma lookup_unseen:
  assumes "unat s < q" and "q + length ops \<le> 2 ^ 56"
  shows "mem_lookup (es @ op_entries q ops) u s value st = mem_lookup es u s value st"
proof -
  have "\<not> en_seq e \<le> s" if "e \<in> set (op_entries q ops)" for e
    using op_entries_seqs(1) [OF that assms(2)] assms(1) by (simp add: word_le_nat_alt)
  then have "filter (\<lambda>e. en_key e = u \<and> en_seq e \<le> s) (op_entries q ops) = []" by (auto simp: filter_empty_conv)
  then show ?thesis by (simp add: mem_lookup_def)
qed

section \<open>The invariant\<close>

definition all_writers :: "'f db \<Rightarrow> db_writer list" where
  "all_writers db = map fst (db_returned db) @ db_writers db"

definition acked_writers :: "'f db \<Rightarrow> db_writer list" where
  "acked_writers db = map fst (filter (\<lambda>(w, s). status_ok s) (db_returned db))"

text \<open>The lemmas hold while the operations can be counted in 31 bits.\<close>

definition few_ops :: "'f db \<Rightarrow> bool" where
  "few_ops db \<longleftrightarrow> length (group_ops (all_writers db)) < 2 ^ 31 - 1"

text \<open>The writers the commit is for, and the groups in the memtable, the one of the commit with them when it is inserted.\<close>

definition commit_group :: "'f db \<Rightarrow> commit \<Rightarrow> db_writer list" where
  "commit_group db cm = take (Suc (cm_others cm)) (db_writers db)"

definition inserted_groups :: "'f db \<Rightarrow> (nat \<times> db_writer list) list \<Rightarrow> nat \<Rightarrow> commit \<Rightarrow> (nat \<times> db_writer list) list" where
  "inserted_groups db A n cm =
     (if cm_phase cm = To_finish \<and> status_ok (cm_status cm) then A @ [(Suc n, commit_group db cm)] else A)"

definition committing :: "'f db \<Rightarrow> (nat \<times> db_writer list) list \<Rightarrow> nat \<Rightarrow> commit \<Rightarrow> bool" where
  "committing db A n cm \<longleftrightarrow>
     db_bg_error db = status_OK \<and> cm_others cm < length (db_writers db) \<and>
     cm_updates cm = batch_of (Suc n) (group_ops (commit_group db cm)) \<and>
     (\<not> cm_in_tmp cm \<longrightarrow> db_tmp_batch db = batch_Clear) \<and>
     cm_last_sequence cm = of_nat (n + length (group_ops (commit_group db cm))) \<and>
     mem_holds (db_mem db) (numbered_entries (inserted_groups db A n cm))"

definition visible :: "'f db \<Rightarrow> (nat \<times> db_writer list) list \<Rightarrow> nat \<Rightarrow> bool" where
  "visible db A n \<longleftrightarrow>
     db_imm db = None \<and> list_all writer_ok (db_writers db) \<and> spaced 1 A (Suc n) \<and>
     n \<le> length (group_ops (map fst (db_returned db))) \<and> db_last_sequence db = of_nat n \<and>
     acked_writers db = concat (map snd A) \<and>
     (case db_commit db of
        None \<Rightarrow> db_tmp_batch db = batch_Clear \<and> mem_holds (db_mem db) (numbered_entries A)
      | Some cm \<Rightarrow> committing db A n cm)"

text \<open>Whoever waits is neither done nor at the front.\<close>

definition none_forgotten :: "'f db \<Rightarrow> bool" where
  "none_forgotten db \<longleftrightarrow>
     (\<forall>i \<in> set (db_asleep db). length (db_returned db) < i \<and> i < length (db_returned db) + length (db_writers db))"

definition db_ok :: "'f db \<Rightarrow> bool" where
  "db_ok db \<longleftrightarrow> (\<exists>A n. visible db A n) \<and> none_forgotten db"

lemma visible_bound: "visible db A n \<Longrightarrow> few_ops db \<Longrightarrow> n + length (group_ops (db_writers db)) < 2 ^ 31 - 1"
  by (simp add: visible_def few_ops_def all_writers_def)

lemma group_bound: "length (group_ops (commit_group db cm)) \<le> length (group_ops (db_writers db))"
  unfolding commit_group_def by (metis append_take_drop_id group_ops_simps(3) length_append le_add1)

lemma commit_group_ok: "list_all writer_ok (db_writers db) \<Longrightarrow> list_all writer_ok (commit_group db cm)"
  unfolding commit_group_def by (auto simp: list_all_iff dest: in_set_takeD simp del: take_Suc)

lemma new_db_ok: "db_ok (new_db f)"
proof -
  have "visible (new_db f) [] 0"
    using mem_holds_empty by (simp add: visible_def new_db_def acked_writers_def)
  then show ?thesis unfolding db_ok_def by (auto simp: none_forgotten_def new_db_def)
qed

subsection \<open>Every step keeps it\<close>

lemma visible_enter:
  assumes "visible db A n" and "writer_ok w"
  shows "visible (write_enter w db) A n"
proof -
  have "commit_group (write_enter w db) cm = commit_group db cm" if "cm_others cm < length (db_writers db)" for cm
    using that by (simp add: commit_group_def write_enter_def)
  then show ?thesis
    using assms by (auto simp: visible_def committing_def inserted_groups_def acked_writers_def write_enter_def split: option.splits)
qed

lemma forgotten_enter: "none_forgotten db \<Longrightarrow> none_forgotten (write_enter w db)"
  by (auto simp: none_forgotten_def write_enter_def)

lemma pop_all_writers [simp]: "all_writers (pop_writers n s db) = all_writers db"
  by (simp add: all_writers_def comp_def del: take_Suc drop_Suc)

lemma forgotten_pop:
  assumes "none_forgotten db"
  shows "none_forgotten (pop_writers n s db)"
proof -
  have "length (db_returned (pop_writers n s db)) + length (db_writers (pop_writers n s db)) =
      length (db_returned db) + length (db_writers db)" by simp
  then show ?thesis
    using assms unfolding none_forgotten_def pop_asleep
    by (auto simp: not_less Suc_le_eq simp del: pop_fields(8,9))
qed

text \<open>The writer at the front leaves with an error.\<close>

lemma visible_leave:
  assumes "visible db A n" and "db_commit db = None" and "db_writers db \<noteq> []" and "\<not> status_ok s"
  shows "visible (pop_writers 0 s db) A n"
  using assms by (cases "db_writers db") (auto simp: visible_def acked_writers_def)

lemma visible_begin:
  assumes v: "visible db A n" and few: "few_ops db" and idle: "db_commit db = None" and q: "db_writers db = w # ws"
    and b: "wr_batch w = Some b" and ok: "db_bg_error db = status_OK"
  shows "visible (write_begin status_OK db) A n"
proof -
  obtain updates in_tmp others where build: "BuildBatchGroup batch_Clear b (wr_sync w) ws = (updates, in_tmp, others)"
    by (metis prod_cases3)
  have wok: "writer_ok w" "list_all writer_ok ws" using v q by (simp_all add: visible_def)
  have h: "holds b (batch_Sequence b) (writer_ops w)" using wok(1) b by (simp add: writer_ok_def writer_ops_def)
  from group_loop_holds [OF build [unfolded BuildBatchGroup_def] h wok(2)] obtain q' where
    g: "others \<le> length ws" "holds updates q' (writer_ops w @ group_ops (take others ws))" by auto
  let ?X = "w # take others ws"
  have X: "group_ops ?X = writer_ops w @ group_ops (take others ws)" by simp
  have "length (group_ops ?X) \<le> length (group_ops (db_writers db))"
    unfolding q X by (simp add: le_trans) (metis append_take_drop_id group_ops_simps(3) length_append le_add1)
  then have bound: "n + length (group_ops ?X) < 2 ^ 31 - 1" using visible_bound [OF v few] by linarith
  let ?u = "batch_of (Suc n) (group_ops ?X)"
  have "holds (batch_SetSequence updates (of_nat (Suc n))) (of_nat (Suc n)) (group_ops ?X)"
    using holds_SetSequence [OF g(2)] X by simp
  then have u: "batch_SetSequence updates (of_nat n + 1) = ?u"
    using batch_of_unique by (metis of_nat_Suc add.commute)
  have count: "batch_Count ?u = of_nat (length (group_ops ?X))" by (rule holds_parts(1) [OF holds_batch_of])
  have c: "scast (of_nat (length (group_ops ?X)) :: u32) = (of_nat (length (group_ops ?X)) :: u64)"
    using bound by (intro scast_count) simp
  have tmp: "db_tmp_batch db = batch_Clear" "db_last_sequence db = of_nat n" using v idle by (simp_all add: visible_def)
  let ?cm = "\<lparr>cm_updates = ?u, cm_in_tmp = in_tmp, cm_others = others,
    cm_last_sequence = of_nat n + of_nat (length (group_ops ?X)), cm_sync = wr_sync w, cm_status = status_OK,
    cm_sync_error = False, cm_phase = To_log\<rparr>"
  have run: "write_begin status_OK db = db\<lparr>db_commit := Some ?cm, db_tmp_batch := (if in_tmp then ?u else batch_Clear)\<rparr>"
    unfolding write_begin_def Let_def q list.sel b option.sel tmp build prod.case u count c
    by (simp add: status_ok_def status_OK_def)
  show ?thesis
    unfolding run using v idle ok g(1) q
    by (simp add: visible_def committing_def commit_group_def inserted_groups_def acked_writers_def)
qed

lemma visible_commit:
  assumes "visible db A n" and "db_commit db = Some cm"
  shows "committing db A n cm" and "cm_others cm < length (db_writers db)" and "db_writers db \<noteq> []"
  using assms by (auto simp: visible_def committing_def)

text \<open>A commit goes on without a change to the memtable.\<close>

lemma visible_next:
  assumes "visible db A n" and "db_commit db = Some cm"
    and "cm_phase cm = To_finish \<longrightarrow> \<not> status_ok (cm_status cm)" and "ph = To_finish \<longrightarrow> \<not> status_ok s"
  shows "visible (db\<lparr>db_log := l, db_commit := Some (cm\<lparr>cm_status := s, cm_sync_error := e, cm_phase := ph\<rparr>)\<rparr>) A n"
  using assms by (auto simp: visible_def committing_def commit_group_def inserted_groups_def acked_writers_def)

lemma visible_phase:
  assumes "visible db A n" and "db_commit db = Some cm"
    and "cm_phase cm = To_finish \<longrightarrow> \<not> status_ok (cm_status cm)" and "ph = To_finish \<longrightarrow> \<not> status_ok (cm_status cm)"
  shows "visible (db\<lparr>db_commit := Some (cm\<lparr>cm_phase := ph\<rparr>)\<rparr>) A n"
  using assms by (auto simp: visible_def committing_def commit_group_def inserted_groups_def acked_writers_def)

lemma visible_log:
  assumes "visible db A n" and "db_commit db = Some cm" and "cm_phase cm = To_log"
  shows "visible (write_log wops cm db) A n"
proof -
  obtain s l where l: "AddRecord wops (db_log db) (cm_updates cm) = (s, l)" by fastforce
  have "visible (db\<lparr>db_log := l, db_commit := Some (cm\<lparr>cm_status := s, cm_sync_error := cm_sync_error cm, cm_phase := To_sync\<rparr>)\<rparr>) A n"
    by (rule visible_next [OF assms(1,2)]) (simp_all add: assms(3))
  moreover have "cm\<lparr>cm_status := s, cm_sync_error := cm_sync_error cm, cm_phase := To_sync\<rparr> = cm\<lparr>cm_status := s, cm_phase := To_sync\<rparr>"
    by (cases cm) simp
  ultimately show ?thesis by (simp add: write_log_def l)
qed

lemma visible_sync:
  assumes "visible db A n" and "db_commit db = Some cm" and "cm_phase cm = To_sync"
  shows "visible (write_sync file_sync cm db) A n"
proof (cases "status_ok (cm_status cm) \<and> cm_sync cm")
  case True
  obtain s f where f: "file_sync (dest (db_log db)) = (s, f)" by fastforce
  have "write_sync file_sync cm db = db\<lparr>db_log := (db_log db)\<lparr>dest := f\<rparr>,
      db_commit := Some (cm\<lparr>cm_status := s, cm_sync_error := \<not> status_ok s, cm_phase := To_insert\<rparr>)\<rparr>"
    using True f by (simp add: write_sync_def)
  then show ?thesis using visible_next [OF assms(1,2)] assms(3) by simp
next
  case False
  have "write_sync file_sync cm db = db\<lparr>db_commit := Some (cm\<lparr>cm_phase := To_insert\<rparr>)\<rparr>"
    using False by (auto simp: write_sync_def)
  then show ?thesis using visible_phase [OF assms(1,2)] assms(3) by simp
qed

lemma visible_insert:
  assumes v: "visible db A n" and few: "few_ops db" and cm: "db_commit db = Some cm" and ph: "cm_phase cm = To_insert"
  shows "\<exists>db'. write_insert cm db = Some db' \<and> visible db' A n \<and> db_writers db' = db_writers db \<and>
    db_returned db' = db_returned db \<and> db_asleep db' = db_asleep db \<and> (\<exists>cm'. db_commit db' = Some cm' \<and> cm_phase cm' = To_finish)"
proof (cases "status_ok (cm_status cm)")
  case False
  then have "visible (db\<lparr>db_commit := Some (cm\<lparr>cm_phase := To_finish\<rparr>)\<rparr>) A n"
    by (intro visible_phase [OF v cm]) simp_all
  then show ?thesis using False by (simp add: write_insert_def)
next
  case True
  let ?X = "commit_group db cm"
  have c: "cm_updates cm = batch_of (Suc n) (group_ops ?X)" "mem_holds (db_mem db) (numbered_entries A)" "spaced 1 A (Suc n)"
    "list_all writer_ok (db_writers db)"
    using v cm ph by (simp_all add: visible_def committing_def inserted_groups_def)
  have "n + length (group_ops ?X) < 2 ^ 31 - 1"
    using visible_bound [OF v few] group_bound [of db cm] by linarith
  then have bound: "Suc n + length (group_ops ?X) \<le> 2 ^ 56" by simp
  have "\<forall>e \<in> set (numbered_entries A). unat (en_seq e) < Suc n" using spaced_seqs [OF c(3)] bound by simp
  from holds_InsertInto [OF c(2) group_ops_small [OF commit_group_ok [OF c(4)]] bound this] obtain m where
    m: "InsertInto (batch_of (Suc n) (group_ops ?X)) (db_mem db) = (status_OK, Some m)"
    "mem_holds m (numbered_entries A @ op_entries (Suc n) (group_ops ?X))" by blast
  let ?cm = "cm\<lparr>cm_status := status_OK, cm_phase := To_finish\<rparr>"
  have "write_insert cm db = Some (db\<lparr>db_mem := m, db_commit := Some ?cm\<rparr>)"
    using True m(1) by (simp add: write_insert_def c(1))
  moreover have "visible (db\<lparr>db_mem := m, db_commit := Some ?cm\<rparr>) A n"
    using v cm m(2) by (simp add: visible_def committing_def commit_group_def inserted_groups_def acked_writers_def)
  ultimately show ?thesis by simp
qed

lemma visible_finish:
  assumes v: "visible db A n" and cm: "db_commit db = Some cm" and ph: "cm_phase cm = To_finish"
  shows "\<exists>A' n'. visible (write_finish cm db) A' n'"
proof -
  let ?X = "commit_group db cm"
  let ?n = "n + length (group_ops ?X)"
  let ?A = "if status_ok (cm_status cm) then A @ [(Suc n, ?X)] else A"
  have c: "committing db A n cm" by (rule visible_commit(1) [OF v cm])
  have "list_all writer_ok (drop (Suc (cm_others cm)) (db_writers db))"
    using v by (auto simp: visible_def list_all_iff dest: in_set_dropD)
  moreover have "spaced 1 ?A (Suc ?n)"
    using v spaced_mono [of 1 A "Suc n" "Suc ?n"] by (simp add: visible_def spaced_snoc)
  moreover have "filter (\<lambda>(w, s). status_ok s) (map (\<lambda>w. (w, cm_status cm)) ?X) =
      (if status_ok (cm_status cm) then map (\<lambda>w. (w, cm_status cm)) ?X else [])"
    by (auto simp: filter_empty_conv filter_id_conv)
  ultimately have "visible (write_finish cm db) ?A ?n"
    using v c ph
    by (simp add: write_finish_def Let_def visible_def committing_def inserted_groups_def acked_writers_def
        RecordBackgroundError_def commit_group_def comp_def del: take_Suc drop_Suc)
  then show ?thesis by blast
qed

lemma make_room_outcomes:
  "make_room allow force files usage limit db = Room_ready \<Longrightarrow> db_bg_error db = status_OK \<and> \<not> force"
  "make_room allow force files usage limit db = Room_error s \<Longrightarrow> s = db_bg_error db \<and> s \<noteq> status_OK"
  unfolding make_room_def status_ok_def status_OK_def by (metis room.distinct room.inject)+

lemma not_OK: "s \<noteq> status_OK \<longleftrightarrow> \<not> status_ok s"
  by (simp add: status_ok_def status_OK_def)

text \<open>What the steps other than the last do to the queue.\<close>

definition same_queue :: "'f db \<Rightarrow> 'f db \<Rightarrow> bool" where
  "same_queue db db' \<longleftrightarrow> db_writers db' = db_writers db \<and> db_returned db' = db_returned db \<and> db_asleep db' = db_asleep db"

lemma same_queue_steps:
  "same_queue db (write_log wops cm db)" "same_queue db (write_sync file_sync cm db)"
  "write_insert cm db = Some db' \<Longrightarrow> same_queue db db'"
  "wr_batch (hd (db_writers db)) \<noteq> None \<Longrightarrow> same_queue db (write_begin status_OK db)"
  by (auto simp: same_queue_def write_log_def write_sync_def write_insert_def write_begin_def Let_def
      split: prod.splits if_splits option.splits)

lemma same_queue_facts:
  assumes "same_queue db db'"
  shows "none_forgotten db' = none_forgotten db" and "all_writers db' = all_writers db" and "few_ops db' = few_ops db"
  using assms by (simp_all add: same_queue_def none_forgotten_def all_writers_def few_ops_def)

lemma write_begin_error: "\<not> status_ok s \<Longrightarrow> write_begin s db = pop_writers 0 s db"
  by (simp add: write_begin_def Let_def)

text \<open>The state in which the writers of a commit leave.\<close>

lemma write_finish_pop:
  obtains d where "write_finish cm db = pop_writers (cm_others cm) (cm_status cm) d" and "same_queue db d"
    and "db_commit d = None" and "db_bg_error d = (if cm_sync_error cm \<and> status_ok (db_bg_error db) then cm_status cm else db_bg_error db)"
proof -
  define d where "d = (if cm_in_tmp cm
     then (if cm_sync_error cm then RecordBackgroundError (cm_status cm) db else db)\<lparr>db_tmp_batch := batch_Clear\<rparr>
     else (if cm_sync_error cm then RecordBackgroundError (cm_status cm) db else db))
     \<lparr>db_last_sequence := cm_last_sequence cm, db_commit := None\<rparr>"
  show thesis
    by (rule that [of d]) (simp_all add: write_finish_def Let_def d_def same_queue_def RecordBackgroundError_def)
qed

lemma all_writers_step:
  assumes "db_step wops file_sync db db'"
  shows "\<exists>ws. all_writers db' = all_writers db @ ws"
proof -
  from assms have "(\<exists>w. db' = write_enter w db) \<or> all_writers db' = all_writers db"
  proof cases
    case (begin_ready allow files usage limit)
    have "wr_batch (hd (db_writers db)) \<noteq> None" using make_room_outcomes(1) [OF begin_ready(5)] by simp
    then show ?thesis unfolding begin_ready(1) using same_queue_facts(2) [OF same_queue_steps(4)] by blast
  next
    case (begin_error allow files usage limit s)
    then have "db' = pop_writers 0 s db" using make_room_outcomes(2) write_begin_error not_OK by metis
    then show ?thesis by simp
  next
    case (to_log cm)
    then show ?thesis using same_queue_facts(2) [OF same_queue_steps(1)] by blast
  next
    case (to_sync cm)
    then show ?thesis using same_queue_facts(2) [OF same_queue_steps(2)] by blast
  next
    case (to_insert cm)
    then show ?thesis using same_queue_facts(2) [OF same_queue_steps(3)] by blast
  next
    case (to_finish cm)
    obtain d where "write_finish cm db = pop_writers (cm_others cm) (cm_status cm) d" "same_queue db d"
      by (rule write_finish_pop)
    then show ?thesis using same_queue_facts(2) to_finish(1) by (metis pop_all_writers)
  qed blast
  then show ?thesis by (auto simp: all_writers_def write_enter_def)
qed

lemma few_ops_back: "db_step wops file_sync db db' \<Longrightarrow> few_ops db' \<Longrightarrow> few_ops db"
  using all_writers_step by (fastforce simp: few_ops_def)

lemma ok_step: "db_step wops file_sync db db' \<Longrightarrow> few_ops db \<Longrightarrow> db_ok db \<Longrightarrow> db_ok db'"
proof (induction rule: db_step.induct)
  case (enter w db)
  then show ?case unfolding db_ok_def using visible_enter forgotten_enter by blast
next
  case (begin_ready db allow files usage limit)
  obtain w ws where q: "db_writers db = w # ws" using begin_ready(2) by (cases "db_writers db") auto
  have room: "db_bg_error db = status_OK" "wr_batch w \<noteq> None" using make_room_outcomes(1) [OF begin_ready(4)] q by auto
  then obtain b where b: "wr_batch w = Some b" by blast
  have "same_queue db (write_begin status_OK db)" using room(2) q by (intro same_queue_steps(4)) simp
  then show ?case
    using begin_ready(5,6) visible_begin [OF _ begin_ready(5,1) q b room(1)] same_queue_facts(1) unfolding db_ok_def by blast
next
  case (begin_error db allow files usage limit s)
  then have "\<not> status_ok s" using make_room_outcomes(2) not_OK by blast
  then show ?case
    using begin_error visible_leave [of db _ _ s] forgotten_pop unfolding db_ok_def by (simp add: write_begin_error) blast
next
  case (to_log db cm)
  then show ?case unfolding db_ok_def using visible_log same_queue_facts(1) [OF same_queue_steps(1)] by blast
next
  case (to_sync db cm)
  then show ?case unfolding db_ok_def using visible_sync same_queue_facts(1) [OF same_queue_steps(2)] by blast
next
  case (to_insert db cm db')
  obtain A n where v: "visible db A n" "none_forgotten db" using to_insert.prems(2) by (auto simp: db_ok_def)
  then have "visible db' A n" using visible_insert [OF v(1) to_insert.prems(1) to_insert.hyps(1,2)] to_insert.hyps(3) by auto
  then show ?case unfolding db_ok_def using v(2) same_queue_facts(1) [OF same_queue_steps(3) [OF to_insert.hyps(3)]] by blast
next
  case (to_finish db cm)
  obtain d where d: "write_finish cm db = pop_writers (cm_others cm) (cm_status cm) d" "same_queue db d"
    by (rule write_finish_pop)
  have "none_forgotten (write_finish cm db)"
    unfolding d(1) using to_finish same_queue_facts(1) [OF d(2)] by (intro forgotten_pop) (simp add: db_ok_def)
  then show ?case using to_finish visible_finish unfolding db_ok_def by blast
qed

lemma ok_run:
  assumes "db_run wops file_sync db db'" and "db_ok db" and "few_ops db'"
  shows "db_ok db'"
  using assms(1,3)
proof (induction rule: rtranclp_induct)
  case base
  show ?case by (rule assms(2))
next
  case (step d d')
  then show ?case using ok_step [OF step(2)] few_ops_back [OF step(2)] by blast
qed

section \<open>Lookups\<close>

lemma visible_Get:
  assumes v: "visible db A n" and few: "few_ops db" and key: "length key + 8 < 2 ^ 32"
  shows "mem_Get (make_LookupKey key (db_last_sequence db)) val st (db_mem db) =
    Some (mem_answer (last_op key (group_ops (acked_writers db))) val st)"
proof -
  have c: "spaced 1 A (Suc n)" "db_last_sequence db = of_nat n" "acked_writers db = concat (map snd A)"
    using v by (simp_all add: visible_def)
  have bound: "n + length (group_ops (db_writers db)) < 2 ^ 31 - 1" by (rule visible_bound [OF v few])
  then have n: "unat (db_last_sequence db) = n" unfolding c(2) by (intro unat_of_nat_56) simp
  have A: "mem_lookup (numbered_entries A) key (db_last_sequence db) val st = mem_answer (last_op key (group_ops (acked_writers db))) val st"
    using lookup_groups [OF c(1), of "db_last_sequence db"] n bound by (simp add: all_ops_def c(3))
  have "\<exists>es. mem_holds (db_mem db) es \<and> mem_lookup es key (db_last_sequence db) val st = mem_lookup (numbered_entries A) key (db_last_sequence db) val st"
  proof (cases "db_commit db")
    case None
    then show ?thesis using v by (auto simp: visible_def)
  next
    case (Some cm)
    have "Suc n + length (group_ops (commit_group db cm)) \<le> 2 ^ 56" using bound group_bound [of db cm] by simp
    then have "mem_lookup (numbered_entries (inserted_groups db A n cm)) key (db_last_sequence db) val st =
        mem_lookup (numbered_entries A) key (db_last_sequence db) val st"
      using lookup_unseen [of "db_last_sequence db" "Suc n"] n by (simp add: inserted_groups_def)
    then show ?thesis using v Some by (auto simp: visible_def committing_def)
  qed
  then obtain es where "mem_holds (db_mem db) es"
    "mem_lookup es key (db_last_sequence db) val st = mem_answer (last_op key (group_ops (acked_writers db))) val st"
    using A by metis
  moreover have "db_last_sequence db \<le> kMaxSequenceNumber"
    using n bound by (simp add: kMaxSequenceNumber_def word_le_nat_alt)
  ultimately show ?thesis using holds_Get [OF _ key] by metis
qed

section \<open>Nobody waits for ever\<close>

text \<open>The steps with which the writers in the queue are served, and how many of them there can be.\<close>

definition serves :: "'f writable_file \<Rightarrow> ('f \<Rightarrow> status \<times> 'f) \<Rightarrow> 'f db \<Rightarrow> 'f db \<Rightarrow> bool" where
  "serves wops file_sync db db' \<longleftrightarrow> db_step wops file_sync db db' \<and> all_writers db' = all_writers db"

fun phase_number :: "commit_phase \<Rightarrow> nat" where
  "phase_number To_log = 1"
| "phase_number To_sync = 2"
| "phase_number To_insert = 3"
| "phase_number To_finish = 4"

definition work :: "'f db \<Rightarrow> nat" where
  "work db = 5 * length (db_writers db) - (case db_commit db of None \<Rightarrow> 0 | Some cm \<Rightarrow> phase_number (cm_phase cm))"

lemma work_step:
  assumes step: "db_step wops file_sync db db'" and same: "all_writers db' = all_writers db" and ok: "db_ok db"
  shows "work db' < work db"
proof -
  obtain A n where v: "visible db A n" using ok by (auto simp: db_ok_def)
  have q: "db_writers db \<noteq> []" if "db_commit db = Some cm" for cm using visible_commit(3) [OF v that] .
  from step show ?thesis
  proof cases
    case (enter w)
    then show ?thesis using same by (simp add: all_writers_def write_enter_def)
  next
    case (begin_ready allow files usage limit)
    have b: "wr_batch (hd (db_writers db)) \<noteq> None" using make_room_outcomes(1) [OF begin_ready(5)] by simp
    then have "\<exists>cm. db_commit db' = Some cm \<and> cm_phase cm = To_log"
      unfolding begin_ready(1) by (auto simp: write_begin_def Let_def split: prod.splits)
    then show ?thesis using begin_ready(2,3) same_queue_steps(4) [OF b] by (auto simp: work_def same_queue_def begin_ready(1))
  next
    case (begin_error allow files usage limit s)
    then have "db' = pop_writers 0 s db" using make_room_outcomes(2) write_begin_error not_OK by metis
    then show ?thesis using begin_error(2,3) by (cases "db_writers db") (simp_all add: work_def)
  next
    case (to_log cm)
    have "\<exists>cm'. db_commit db' = Some cm' \<and> cm_phase cm' = To_sync" unfolding to_log(1) by (simp add: write_log_def split_beta)
    then show ?thesis using same_queue_steps(1) [of db wops cm] q [OF to_log(2)] to_log
      by (cases "db_writers db") (auto simp: work_def same_queue_def)
  next
    case (to_sync cm)
    have "\<exists>cm'. db_commit db' = Some cm' \<and> cm_phase cm' = To_insert" unfolding to_sync(1) by (simp add: write_sync_def split_beta)
    then show ?thesis using same_queue_steps(2) [of db file_sync cm] q [OF to_sync(2)] to_sync
      by (cases "db_writers db") (auto simp: work_def same_queue_def)
  next
    case (to_insert cm)
    have "\<exists>cm'. db_commit db' = Some cm' \<and> cm_phase cm' = To_finish"
      using to_insert(3) by (auto simp: write_insert_def split: if_splits prod.splits option.splits)
    then show ?thesis using same_queue_steps(3) [OF to_insert(3)] q [OF to_insert(1)] to_insert
      by (cases "db_writers db") (auto simp: work_def same_queue_def)
  next
    case (to_finish cm)
    obtain d where d: "write_finish cm db = pop_writers (cm_others cm) (cm_status cm) d" "same_queue db d" "db_commit d = None"
      by (rule write_finish_pop)
    have "db_writers db' = drop (Suc (cm_others cm)) (db_writers db)" "db_commit db' = None"
      using d by (simp_all add: to_finish(1) same_queue_def del: drop_Suc)
    then show ?thesis using q [OF to_finish(2)] to_finish by (cases "db_writers db") (auto simp: work_def)
  qed
qed

lemma progress:
  assumes ok: "db_ok db" and few: "few_ops db" and q: "db_writers db \<noteq> []"
    and b: "db_commit db \<noteq> None \<or> db_bg_error db \<noteq> status_OK \<or> wr_batch (hd (db_writers db)) \<noteq> None"
  shows "\<exists>db'. serves wops file_sync db db'"
proof -
  obtain A n where v: "visible db A n" "none_forgotten db" using ok by (auto simp: db_ok_def)
  show ?thesis
  proof (cases "db_commit db")
    case None
    have awake: "is_awake db (length (db_returned db))" using v(2) by (auto simp: is_awake_def none_forgotten_def)
    show ?thesis
    proof (cases "db_bg_error db = status_OK")
      case True
      then have b: "wr_batch (hd (db_writers db)) \<noteq> None" using assms(4) None by simp
      then have "make_room False (wr_batch (hd (db_writers db)) = None) 0 0 0 db = Room_ready"
        using True by (simp add: make_room_def status_ok_def status_OK_def)
      from begin_ready [OF None q awake this] show ?thesis
        unfolding serves_def using same_queue_facts(2) [OF same_queue_steps(4) [OF b]] by blast
    next
      case False
      then have "make_room False (wr_batch (hd (db_writers db)) = None) 0 0 0 db = Room_error (db_bg_error db)"
        by (simp add: make_room_def not_OK)
      from begin_error [OF None q awake this] show ?thesis
        unfolding serves_def using False write_begin_error [of "db_bg_error db" db]
        by (metis not_OK pop_all_writers)
    qed
  next
    case (Some cm)
    show ?thesis
    proof (cases "cm_phase cm")
      case To_log
      from to_log [OF Some this] show ?thesis unfolding serves_def using same_queue_facts(2) [OF same_queue_steps(1)] by blast
    next
      case To_sync
      from to_sync [OF Some this] show ?thesis unfolding serves_def using same_queue_facts(2) [OF same_queue_steps(2)] by blast
    next
      case To_insert
      obtain db' where "write_insert cm db = Some db'" using visible_insert [OF v(1) few Some To_insert] by blast
      then show ?thesis
        unfolding serves_def using to_insert [OF Some To_insert] same_queue_facts(2) [OF same_queue_steps(3)] by blast
    next
      case To_finish
      obtain d where "write_finish cm db = pop_writers (cm_others cm) (cm_status cm) d" "same_queue db d"
        by (rule write_finish_pop)
      then have "all_writers (write_finish cm db) = all_writers db" using same_queue_facts(2) by fastforce
      then show ?thesis unfolding serves_def using to_finish [OF Some To_finish] by blast
    qed
  qed
qed

lemma serves_ok: "serves wops file_sync db db' \<Longrightarrow> db_ok db \<Longrightarrow> few_ops db \<Longrightarrow> db_ok db' \<and> few_ops db' \<and> work db' < work db"
  unfolding serves_def using ok_step work_step by (auto simp: few_ops_def)

lemma serves_run:
  assumes "(serves wops file_sync ^^ k) db db'" and "db_ok db" and "few_ops db"
  shows "db_ok db' \<and> few_ops db' \<and> k + work db' \<le> work db \<and> all_writers db' = all_writers db \<and> db_run wops file_sync db db'"
  using assms(1)
proof (induction k arbitrary: db')
  case 0
  then show ?case using assms by simp
next
  case (Suc k)
  then obtain d where d: "(serves wops file_sync ^^ k) db d" "serves wops file_sync d db'" by auto
  have IH: "db_ok d \<and> few_ops d \<and> k + work d \<le> work db \<and> all_writers d = all_writers db \<and> db_run wops file_sync db d"
    by (rule Suc.IH [OF d(1)])
  moreover have "db_ok db' \<and> few_ops db' \<and> work db' < work d" using serves_ok [OF d(2)] IH by blast
  moreover have "db_run wops file_sync db db'" using IH d(2) by (auto simp: serves_def)
  ultimately show ?case using d(2) by (simp add: serves_def)
qed

text \<open>When nobody can be served any more.\<close>

lemma stuck:
  assumes "db_ok db" and "few_ops db" and "\<nexists>db'. serves wops file_sync db db'"
  shows "map fst (db_returned db) = all_writers db \<and> db_asleep db = [] \<or>
    db_writers db \<noteq> [] \<and> wr_batch (hd (db_writers db)) = None \<and> is_awake db (length (db_returned db))"
proof (cases "db_writers db = []")
  case True
  have "i \<notin> set (db_asleep db)" for i
  proof
    assume "i \<in> set (db_asleep db)"
    then show False using assms(1) True by (fastforce simp: db_ok_def none_forgotten_def)
  qed
  then show ?thesis using True by (cases "db_asleep db") (auto simp: all_writers_def)
next
  case False
  then have "wr_batch (hd (db_writers db)) = None" using progress [OF assms(1,2)] assms(3) by blast
  moreover have "is_awake db (length (db_returned db))" using assms(1) by (auto simp: is_awake_def db_ok_def none_forgotten_def)
  ultimately show ?thesis using False by simp
qed

text \<open>A recorded error ends the commits.\<close>

lemma error_idle:
  assumes "db_run wops file_sync (new_db new) db"
  shows "db_bg_error db \<noteq> status_OK \<longrightarrow> db_commit db = None"
  using assms
proof (induction rule: rtranclp_induct)
  case base
  show ?case by (simp add: new_db_def)
next
  case (step d d')
  from step(2) show ?case
  proof cases
    case (begin_ready allow files usage limit)
    have "db_bg_error d = status_OK" using make_room_outcomes(1) [OF begin_ready(5)] by simp
    then show ?thesis using begin_ready(2) by (auto simp: begin_ready(1) write_begin_def Let_def split: prod.splits)
  next
    case (begin_error allow files usage limit s)
    then have "d' = pop_writers 0 s d" using make_room_outcomes(2) write_begin_error not_OK by metis
    then show ?thesis using begin_error(2) by simp
  next
    case (to_insert cm)
    then show ?thesis using step(3) by (auto simp: write_insert_def split: if_splits prod.splits option.splits)
  next
    case (to_finish cm)
    obtain e where "write_finish cm d = pop_writers (cm_others cm) (cm_status cm) e" "db_commit e = None" by (rule write_finish_pop)
    then show ?thesis using to_finish(1) by simp
  qed (use step(3) in \<open>auto simp: write_enter_def write_log_def write_sync_def split: prod.splits\<close>)
qed

end
