(* ===== verification/LdbRun.thy ===== *)
theory LdbRun
  imports LdbVisible
begin

text \<open>
  The runs of the write path in which no append to the log has failed: an invariant of what the log, the memtable and the
  queue hold in every state that any number of writers reach, and its proof step by step. A state is idle, busy with a
  group, or stopped after a failed sync.
\<close>

section \<open>The invariant\<close>

definition group_records :: "db_writer list list \<Rightarrow> slice list" where
  "group_records G = numbered_batches 1 (map group_ops G)"

definition logged :: "('f \<Rightarrow> bytes) \<Rightarrow> 'f db \<Rightarrow> db_writer list list \<Rightarrow> bool" where
  "logged written db G \<longleftrightarrow>
     writes_at (db_log db) (length (log_bytes 0 (group_records G))) \<and>
     written (dest (db_log db)) = log_bytes 0 (group_records G)"

definition inserted :: "'f db \<Rightarrow> db_writer list list \<Rightarrow> bool" where
  "inserted db G \<longleftrightarrow> mem_holds (db_mem db) (op_entries 1 (group_ops (concat G)))"

text \<open>Groups whose records are durable, and no sync writer in a later one.\<close>

definition kept :: "('f \<Rightarrow> nat) \<Rightarrow> 'f db \<Rightarrow> db_writer list list \<Rightarrow> bool" where
  "kept durable db G \<longleftrightarrow>
     (\<exists>j \<le> length G. (\<forall>w \<in> set (concat (drop j G)). \<not> wr_sync w) \<and>
        length (log_bytes 0 (take j (group_records G))) \<le> durable (dest (db_log db)))"

definition acked :: "db_writer list list \<Rightarrow> (db_writer \<times> status) list" where
  "acked G = map (\<lambda>w. (w, status_OK)) (concat G)"

definition common :: "'f db \<Rightarrow> db_writer list list \<Rightarrow> bool" where
  "common db G \<longleftrightarrow> db_imm db = None \<and> list_all writer_ok (db_writers db) \<and> list_all (list_all writer_ok) G"

text \<open>No group in progress, and no error so far; or the group \<open>X\<close> was logged but its sync failed.\<close>

definition idle :: "('f \<Rightarrow> bytes) \<Rightarrow> ('f \<Rightarrow> nat) \<Rightarrow> 'f db \<Rightarrow> db_writer list list \<Rightarrow> bool" where
  "idle written durable db G \<longleftrightarrow> common db G \<and> db_commit db = None \<and> db_bg_error db = status_OK \<and>
     db_tmp_batch db = batch_Clear \<and> db_returned db = acked G \<and> logged written db G \<and> inserted db G \<and> kept durable db G \<and>
     db_last_sequence db = of_nat (length (group_ops (concat G)))"

definition stopped :: "('f \<Rightarrow> bytes) \<Rightarrow> ('f \<Rightarrow> nat) \<Rightarrow> 'f db \<Rightarrow> db_writer list list \<Rightarrow> db_writer list \<Rightarrow> bool" where
  "stopped written durable db G X \<longleftrightarrow> common db G \<and> db_commit db = None \<and> db_bg_error db \<noteq> status_OK \<and>
     list_all writer_ok X \<and> logged written db (G @ [X]) \<and> inserted db G \<and> kept durable db G \<and>
     db_last_sequence db = of_nat (length (group_ops (concat G @ X))) \<and>
     (\<exists>fails. db_returned db = acked G @ map (\<lambda>w. (w, db_bg_error db)) (X @ fails))"

text \<open>A group \<open>X\<close> in progress, after its phases so far.\<close>

definition in_phase ::
  "('f \<Rightarrow> bytes) \<Rightarrow> ('f \<Rightarrow> nat) \<Rightarrow> 'f db \<Rightarrow> db_writer list list \<Rightarrow> db_writer list \<Rightarrow> commit \<Rightarrow> bool" where
  "in_phase written durable db G X cm \<longleftrightarrow>
     (let ok = (cm_status cm = status_OK) in
      (cm_phase cm = To_log \<or> cm_phase cm = To_sync \<longrightarrow> ok) \<and>
      logged written db (if cm_phase cm = To_log then G else G @ [X]) \<and>
      inserted db (if cm_phase cm = To_finish \<and> ok then G @ [X] else G) \<and>
      kept durable db (if (cm_phase cm = To_insert \<or> cm_phase cm = To_finish) \<and> ok then G @ [X] else G))"

definition busy :: "('f \<Rightarrow> bytes) \<Rightarrow> ('f \<Rightarrow> nat) \<Rightarrow> 'f db \<Rightarrow> db_writer list list \<Rightarrow> commit \<Rightarrow> bool" where
  "busy written durable db G cm \<longleftrightarrow>
     (let X = take (Suc (cm_others cm)) (db_writers db); n = length (group_ops (concat G)) in
      common db G \<and> db_commit db = Some cm \<and> db_bg_error db = status_OK \<and> db_returned db = acked G \<and>
      cm_others cm < length (db_writers db) \<and>
      cm_updates cm = batch_of (1 + n) (group_ops X) \<and>
      (\<not> cm_in_tmp cm \<longrightarrow> db_tmp_batch db = batch_Clear) \<and>
      db_last_sequence db = of_nat n \<and> cm_last_sequence cm = of_nat (n + length (group_ops X)) \<and>
      (\<not> cm_sync cm \<longrightarrow> (\<forall>w \<in> set X. \<not> wr_sync w)) \<and>
      (cm_sync_error cm \<longleftrightarrow> cm_status cm \<noteq> status_OK) \<and> in_phase written durable db G X cm)"

definition db_inv :: "('f \<Rightarrow> bytes) \<Rightarrow> ('f \<Rightarrow> nat) \<Rightarrow> 'f db \<Rightarrow> bool" where
  "db_inv written durable db \<longleftrightarrow>
     (\<exists>G. idle written durable db G \<or> (\<exists>X. stopped written durable db G X) \<or> (\<exists>cm. busy written durable db G cm))"

lemma records_snoc: "group_records (G @ [X]) = group_records G @ [batch_of (1 + length (group_ops (concat G))) (group_ops X)]"
  by (simp add: group_records_def numbered_batches_snoc group_ops_concat)

lemma length_records [simp]: "length (group_records G) = length G"
  by (simp add: group_records_def)

lemma acked_Nil [simp]: "acked [] = []" by (simp add: acked_def)

lemma acked_snoc [simp]: "acked (G @ [X]) = acked G @ map (\<lambda>w. (w, status_OK)) X"
  by (simp add: acked_def)

lemma fst_acked [simp]: "map fst (acked G) = concat G"
  by (simp add: acked_def comp_def)

lemma logged_upd [simp]:
  "logged written (db_mem_update hme db) G = logged written db G"
  "logged written (db_last_sequence_update hla db) G = logged written db G"
  "logged written (db_bg_error_update hbg db) G = logged written db G"
  "logged written (db_tmp_batch_update htm db) G = logged written db G"
  "logged written (db_writers_update hwr db) G = logged written db G"
  "logged written (db_commit_update hco db) G = logged written db G"
  "logged written (db_returned_update hre db) G = logged written db G"
  "logged written (db_asleep_update hal db) G = logged written db G"
  by (simp_all add: logged_def)

lemma inserted_upd [simp]:
  "inserted (db_log_update hlo db) G = inserted db G"
  "inserted (db_last_sequence_update hla db) G = inserted db G"
  "inserted (db_bg_error_update hbg db) G = inserted db G"
  "inserted (db_tmp_batch_update htm db) G = inserted db G"
  "inserted (db_writers_update hwr db) G = inserted db G"
  "inserted (db_commit_update hco db) G = inserted db G"
  "inserted (db_returned_update hre db) G = inserted db G"
  "inserted (db_asleep_update hal db) G = inserted db G"
  by (simp_all add: inserted_def)

lemma kept_upd [simp]:
  "kept durable (db_mem_update hme db) G = kept durable db G"
  "kept durable (db_last_sequence_update hla db) G = kept durable db G"
  "kept durable (db_bg_error_update hbg db) G = kept durable db G"
  "kept durable (db_tmp_batch_update htm db) G = kept durable db G"
  "kept durable (db_writers_update hwr db) G = kept durable db G"
  "kept durable (db_commit_update hco db) G = kept durable db G"
  "kept durable (db_returned_update hre db) G = kept durable db G"
  "kept durable (db_asleep_update hal db) G = kept durable db G"
  by (simp_all add: kept_def)

section \<open>Every step keeps it\<close>

lemma kept_more: "kept durable db G \<Longrightarrow> \<forall>w \<in> set X. \<not> wr_sync w \<Longrightarrow> kept durable db (G @ [X])"
  unfolding kept_def
proof (elim exE conjE)
  fix j
  assume "j \<le> length G" "\<forall>w \<in> set (concat (drop j G)). \<not> wr_sync w" "\<forall>w \<in> set X. \<not> wr_sync w"
    "length (log_bytes 0 (take j (group_records G))) \<le> durable (dest (db_log db))"
  then show "\<exists>j \<le> length (G @ [X]). (\<forall>w \<in> set (concat (drop j (G @ [X]))). \<not> wr_sync w) \<and>
      length (log_bytes 0 (take j (group_records (G @ [X])))) \<le> durable (dest (db_log db))"
    by (intro exI [of _ j]) (auto simp: records_snoc)
qed

lemma kept_all: "length (log_bytes 0 (group_records G)) \<le> durable (dest (db_log db)) \<Longrightarrow> kept durable db G"
  unfolding kept_def by (intro exI [of _ "length G"]) simp

lemma kept_mono:
  "kept durable db G \<Longrightarrow> durable (dest (db_log db)) \<le> durable (dest (db_log db')) \<Longrightarrow> kept durable db' G"
  unfolding kept_def by (meson le_trans)

lemma inv_enter: "db_inv written durable db \<Longrightarrow> writer_ok w \<Longrightarrow> db_inv written durable (write_enter w db)"
proof -
  assume w: "writer_ok w" and "db_inv written durable db"
  then obtain G where "idle written durable db G \<or> (\<exists>X. stopped written durable db G X) \<or> (\<exists>cm. busy written durable db G cm)"
    unfolding db_inv_def by blast
  then consider "idle written durable db G" | X where "stopped written durable db G X" | cm where "busy written durable db G cm"
    by blast
  then show ?thesis
  proof cases
    case 1
    then have "idle written durable (write_enter w db) G"
      using w by (simp add: idle_def common_def write_enter_def)
    then show ?thesis unfolding db_inv_def by blast
  next
    case 2
    then have "stopped written durable (write_enter w db) G X"
      using w by (simp add: stopped_def common_def write_enter_def)
    then show ?thesis unfolding db_inv_def by blast
  next
    case 3
    then have "busy written durable (write_enter w db) G cm"
      using w by (simp add: busy_def in_phase_def Let_def common_def write_enter_def)
    then show ?thesis unfolding db_inv_def by blast
  qed
qed

lemma pop_kept [simp]:
  "logged written (pop_writers n s db) G = logged written db G" "inserted (pop_writers n s db) G = inserted db G"
  "kept durable (pop_writers n s db) G = kept durable db G"
  by (simp_all add: logged_def inserted_def kept_def)

lemma inv_begin_ready:
  assumes "db_inv written durable db" and "few_ops db" and "db_commit db = None" and "db_writers db \<noteq> []"
    and "db_bg_error db = status_OK" and "wr_batch (hd (db_writers db)) \<noteq> None"
  shows "db_inv written durable (write_begin status_OK db)"
proof -
  obtain G where i: "idle written durable db G"
    using assms(1,3,5) by (auto simp: db_inv_def stopped_def busy_def Let_def)
  obtain w ws where ws: "db_writers db = w # ws" using assms(4) by (cases "db_writers db") auto
  obtain b where b: "wr_batch w = Some b" using assms(6) ws by auto
  obtain updates in_tmp others where build: "BuildBatchGroup batch_Clear b (wr_sync w) ws = (updates, in_tmp, others)"
    by (metis prod_cases3)
  have ok: "writer_ok w" "list_all writer_ok ws" using i ws by (simp_all add: idle_def common_def)
  have h: "holds b (batch_Sequence b) (writer_ops w)" using ok(1) b by (simp add: writer_ok_def writer_ops_def)
  from group_loop_holds [OF build [unfolded BuildBatchGroup_def] h ok(2)] obtain q' where
    g: "others \<le> length ws" "holds updates q' (writer_ops w @ group_ops (take others ws))"
    "\<not> wr_sync w \<longrightarrow> (\<forall>w \<in> set (take others ws). \<not> wr_sync w)" by auto
  define X where "X = take (Suc others) (db_writers db)"
  let ?n = "length (group_ops (concat G))"
  have X: "group_ops X = writer_ops w @ group_ops (take others ws)" using ws by (simp add: X_def)
  have few: "?n + length (group_ops X) < 2 ^ 31 - 1"
  proof -
    have "all_writers db = concat G @ db_writers db" using i by (simp add: all_writers_def idle_def)
    moreover have "length (group_ops X) \<le> length (group_ops (db_writers db))"
      unfolding X_def by (metis append_take_drop_id group_ops_simps(3) length_append le_add1)
    ultimately show ?thesis using assms(2) by (simp add: few_ops_def)
  qed
  let ?u = "batch_of (1 + ?n) (group_ops X)"
  have "holds (batch_SetSequence updates (of_nat (1 + ?n))) (of_nat (1 + ?n)) (group_ops X)"
    using holds_SetSequence [OF g(2)] X by simp
  then have u: "batch_SetSequence updates (of_nat ?n + 1) = ?u"
    using batch_of_unique by (metis of_nat_1 of_nat_add add.commute)
  have count: "batch_Count ?u = of_nat (length (group_ops X))"
    by (rule holds_parts(1) [OF holds_batch_of])
  have c: "scast (of_nat (length (group_ops X)) :: u32) = (of_nat (length (group_ops X)) :: u64)"
    using few by (intro scast_count) simp
  define cm where "cm = \<lparr>cm_updates = ?u, cm_in_tmp = in_tmp, cm_others = others,
    cm_last_sequence = of_nat ?n + of_nat (length (group_ops X)), cm_sync = wr_sync w, cm_status = status_OK,
    cm_sync_error = False, cm_phase = To_log\<rparr>"
  have tmp: "db_tmp_batch db = batch_Clear" "db_last_sequence db = of_nat ?n" using i by (simp_all add: idle_def)
  have run: "write_begin status_OK db =
      db\<lparr>db_commit := Some cm, db_tmp_batch := (if in_tmp then ?u else batch_Clear)\<rparr>"
    unfolding write_begin_def Let_def ws list.sel b option.sel tmp build prod.case u count c cm_def
    by (simp add: status_ok_def status_OK_def)
  have X_eq: "X = w # take others ws" using ws by (simp add: X_def)
  have sync: "\<not> wr_sync w \<longrightarrow> (\<forall>w \<in> set (take others ws). \<not> wr_sync w)" using g(3) by simp
  have "busy written durable (write_begin status_OK db) G cm"
    unfolding busy_def Let_def run using i g(1) ws sync
    by (simp add: X_eq) (simp add: X_eq cm_def in_phase_def idle_def common_def)
  then show ?thesis unfolding db_inv_def by metis
qed

lemma inv_begin_error:
  assumes "db_inv written durable db" and "db_commit db = None" and "db_writers db \<noteq> []" and "db_bg_error db \<noteq> status_OK"
  shows "db_inv written durable (write_begin (db_bg_error db) db)"
proof -
  obtain G X fails where st: "stopped written durable db G X"
    "db_returned db = acked G @ map (\<lambda>w. (w, db_bg_error db)) (X @ fails)"
    using assms(1,2,4) by (auto simp: db_inv_def stopped_def idle_def busy_def Let_def)
  let ?db = "pop_writers 0 (db_bg_error db) db"
  obtain w ws where ws: "db_writers db = w # ws" using assms(3) by (cases "db_writers db") auto
  have "write_begin (db_bg_error db) db = ?db"
    using assms(4) by (auto simp: write_begin_def Let_def status_ok_def status_OK_def)
  moreover have "db_returned ?db = acked G @ map (\<lambda>w. (w, db_bg_error ?db)) (X @ fails @ [w])"
    using st(2) ws by simp
  then have "\<exists>fails. db_returned ?db = acked G @ map (\<lambda>w. (w, db_bg_error ?db)) (X @ fails)" by blast
  then have "stopped written durable ?db G X"
    using st(1) ws unfolding stopped_def by (simp add: common_def)
  ultimately show ?thesis unfolding db_inv_def by metis
qed

lemma busy_bound:
  assumes "busy written durable db G cm" and "few_ops db"
  shows "length (group_ops (concat G)) + length (group_ops (take (Suc (cm_others cm)) (db_writers db))) < 2 ^ 31 - 1"
proof -
  have "all_writers db = concat G @ db_writers db" using assms(1) by (simp add: all_writers_def busy_def Let_def)
  moreover have "length (group_ops (take k ws)) \<le> length (group_ops ws)" for k ws
    by (metis append_take_drop_id group_ops_simps(3) length_append le_add1)
  ultimately show ?thesis
    using assms(2) by (simp add: few_ops_def del: take_Suc) (meson add_left_mono le_less_trans)
qed

lemma cm_same:
  "e = cm_sync_error cm \<Longrightarrow> cm\<lparr>cm_status := s, cm_sync_error := e, cm_phase := p\<rparr> = cm\<lparr>cm_status := s, cm_phase := p\<rparr>"
  "s = cm_status cm \<Longrightarrow> cm\<lparr>cm_status := s, cm_phase := p\<rparr> = cm\<lparr>cm_phase := p\<rparr>"
  by (cases cm, simp)+

lemma syncs_okD:
  assumes "syncs_ok wops file_sync written durable failed"
  shows "n \<le> durable f \<Longrightarrow> n \<le> durable (snd (file_append wops f bs))"
    and "n \<le> durable f \<Longrightarrow> n \<le> durable (snd (file_flush wops f))"
    and "file_sync f = (s, f') \<Longrightarrow> written f' = written f"
    and "file_sync f = (s, f') \<Longrightarrow> durable f \<le> durable f'"
    and "file_sync f = (s, f') \<Longrightarrow> s = status_OK \<Longrightarrow> durable f' = length (written f)"
proof -
  have a: "durable f \<le> durable (snd (file_append wops f bs))" "durable f \<le> durable (snd (file_flush wops f))"
    "written (snd (file_sync f)) = written f" "durable f \<le> durable (snd (file_sync f))"
    "status_ok (fst (file_sync f)) \<longrightarrow> durable (snd (file_sync f)) = length (written f)"
    using assms unfolding syncs_ok_def by blast+
  show "n \<le> durable f \<Longrightarrow> n \<le> durable (snd (file_append wops f bs))" using a(1) by simp
  show "n \<le> durable f \<Longrightarrow> n \<le> durable (snd (file_flush wops f))" using a(2) by simp
  show "written f' = written f" if "file_sync f = (s, f')" using a(3) that by simp
  show "durable f \<le> durable f'" if "file_sync f = (s, f')" using a(4) that by simp
  show "durable f' = length (written f)" if "file_sync f = (s, f')" "s = status_OK"
    using a(5) that by (simp add: status_ok_def status_OK_def)
qed

text \<open>The next phase: what changes is the log, the memtable and the outcome.\<close>

lemma busy_next:
  assumes "busy written durable db G cm" and "e \<longleftrightarrow> s \<noteq> status_OK"
    and "in_phase written durable (db\<lparr>db_mem := m, db_log := l\<rparr>) G (take (Suc (cm_others cm)) (db_writers db))
      (cm\<lparr>cm_status := s, cm_sync_error := e, cm_phase := ph\<rparr>)"
  shows "db_inv written durable (db\<lparr>db_mem := m, db_log := l,
    db_commit := Some (cm\<lparr>cm_status := s, cm_sync_error := e, cm_phase := ph\<rparr>)\<rparr>)"
proof -
  have "busy written durable (db\<lparr>db_mem := m, db_log := l,
      db_commit := Some (cm\<lparr>cm_status := s, cm_sync_error := e, cm_phase := ph\<rparr>)\<rparr>) G
      (cm\<lparr>cm_status := s, cm_sync_error := e, cm_phase := ph\<rparr>)"
    using assms by (simp add: busy_def Let_def common_def in_phase_def del: take_Suc)
  then show ?thesis unfolding db_inv_def by blast
qed

lemma logged_group:
  assumes "appends_tracked wops written failed" and "logged written db G"
    and "\<not> failed (dest (snd (AddRecord wops (db_log db) u)))" and "u = batch_of (1 + length (group_ops (concat G))) (group_ops X)"
  shows "fst (AddRecord wops (db_log db) u) = status_OK"
    and "db_log db' = snd (AddRecord wops (db_log db) u) \<Longrightarrow> logged written db' (G @ [X])"
proof -
  let ?pos = "length (log_bytes 0 (group_records G))"
  have at: "writes_at (db_log db) ?pos" "written (dest (db_log db)) = log_bytes 0 (group_records G)"
    using assms(2) by (simp_all add: logged_def)
  note add = AddRecord_writes [OF assms(1) at(1) assms(3)]
  show "fst (AddRecord wops (db_log db) u) = status_OK" by (rule add(1))
  show "db_log db' = snd (AddRecord wops (db_log db) u) \<Longrightarrow> logged written db' (G @ [X])"
    using add(2,3) at(2) by (simp add: logged_def records_snoc log_bytes_snoc assms(4))
qed

lemma inv_to_log:
  assumes "appends_tracked wops written failed" and "syncs_ok wops file_sync written durable failed"
    and "busy written durable db G cm" and "cm_phase cm = To_log" and "\<not> failed (dest (db_log (write_log wops cm db)))"
  shows "db_inv written durable (write_log wops cm db)"
proof -
  define X where "X = take (Suc (cm_others cm)) (db_writers db)"
  let ?w = "snd (AddRecord wops (db_log db) (cm_updates cm))"
  let ?db = "db\<lparr>db_mem := db_mem db, db_log := ?w\<rparr>"
  have b: "logged written db G" "inserted db G" "kept durable db G" "\<not> cm_sync_error cm"
    "cm_updates cm = batch_of (1 + length (group_ops (concat G))) (group_ops X)"
    using assms(3,4) by (simp_all add: busy_def in_phase_def Let_def X_def del: take_Suc)
  have "\<not> failed (dest (snd (AddRecord wops (db_log db) (cm_updates cm))))" using assms(5) by (simp add: write_log_def split_beta)
  note add = logged_group [OF assms(1) b(1) this b(5)]
  have run: "write_log wops cm db = ?db\<lparr>db_commit := Some (cm\<lparr>cm_status := status_OK, cm_sync_error := False, cm_phase := To_sync\<rparr>)\<rparr>"
    using add(1) b(4) cm_same(1) [of False cm] by (simp add: write_log_def split_beta)
  have "durable (dest (db_log db)) \<le> durable (dest ?w)"
    by (rule AddRecord_keeps [where m = durable])
      (erule syncs_okD(1) [OF assms(2)], erule syncs_okD(2) [OF assms(2)], rule order_refl)
  then have "kept durable ?db G" by (intro kept_mono [OF b(3)]) simp
  moreover have "logged written ?db (G @ [X])" using add(2) by simp
  ultimately have "in_phase written durable ?db G X (cm\<lparr>cm_status := status_OK, cm_sync_error := False, cm_phase := To_sync\<rparr>)"
    using b(2) by (simp add: in_phase_def)
  then show ?thesis unfolding run X_def by (intro busy_next [OF assms(3)]) simp_all
qed

lemma inv_to_sync:
  assumes "syncs_ok wops file_sync written durable failed" and "busy written durable db G cm" and "cm_phase cm = To_sync"
  shows "db_inv written durable (write_sync file_sync cm db)"
proof -
  define X where "X = take (Suc (cm_others cm)) (db_writers db)"
  have b: "logged written db (G @ [X])" "inserted db G" "kept durable db G" "cm_status cm = status_OK"
    "\<not> cm_sync cm \<Longrightarrow> \<forall>w \<in> set X. \<not> wr_sync w"
    using assms(2,3) by (simp_all add: busy_def in_phase_def Let_def X_def del: take_Suc)
  have ok: "status_ok (cm_status cm)" using b(4) by (simp add: status_ok_def status_OK_def)
  show ?thesis
  proof (cases "cm_sync cm")
    case True
    obtain s f where sf: "file_sync (dest (db_log db)) = (s, f)" by fastforce
    have f: "written f = written (dest (db_log db))" "durable (dest (db_log db)) \<le> durable f"
      "s = status_OK \<Longrightarrow> durable f = length (written (dest (db_log db)))"
      using syncs_okD(3-5) [OF assms(1) sf] by simp_all
    let ?cm = "cm\<lparr>cm_status := s, cm_sync_error := \<not> status_ok s, cm_phase := To_insert\<rparr>"
    let ?db = "db\<lparr>db_mem := db_mem db, db_log := (db_log db)\<lparr>dest := f\<rparr>\<rparr>"
    have run: "write_sync file_sync cm db = ?db\<lparr>db_commit := Some ?cm\<rparr>" using True ok sf by (simp add: write_sync_def)
    have "logged written ?db (G @ [X])" using b(1) f(1) by (simp add: logged_def writes_at_def)
    moreover have "kept durable ?db G" by (rule kept_mono [OF b(3)]) (use f(2) in simp)
    moreover have "kept durable ?db (G @ [X])" if "s = status_OK"
      using f(3) [OF that] b(1) by (intro kept_all) (simp add: logged_def)
    ultimately have "in_phase written durable ?db G X ?cm" using b(2) by (simp add: in_phase_def)
    then show ?thesis
      unfolding run X_def by (intro busy_next [OF assms(2)]) (simp_all add: status_ok_def status_OK_def)
  next
    case False
    let ?cm = "cm\<lparr>cm_status := status_OK, cm_sync_error := False, cm_phase := To_insert\<rparr>"
    let ?db = "db\<lparr>db_mem := db_mem db, db_log := db_log db\<rparr>"
    have "\<not> cm_sync_error cm" using assms(2) b(4) by (simp add: busy_def Let_def)
    then have run: "write_sync file_sync cm db = ?db\<lparr>db_commit := Some ?cm\<rparr>"
      using False b(4) cm_same [of _ cm] by (simp add: write_sync_def)
    have "in_phase written durable ?db G X ?cm"
      using b(1,2) kept_more [OF b(3) b(5) [OF False]] by (simp add: in_phase_def)
    then show ?thesis unfolding run X_def by (intro busy_next [OF assms(2)]) simp_all
  qed
qed

lemma inserted_group:
  assumes "inserted db G" and "list_all writer_ok X"
    and "length (group_ops (concat G)) + length (group_ops X) < 2 ^ 31 - 1"
  obtains m where "InsertInto (batch_of (1 + length (group_ops (concat G))) (group_ops X)) (db_mem db) = (status_OK, Some m)"
    and "mem_holds m (op_entries 1 (group_ops (concat (G @ [X]))))"
proof -
  let ?n = "length (group_ops (concat G))"
  have "\<forall>e \<in> set (op_entries 1 (group_ops (concat G))). unat (en_seq e) < 1 + ?n"
    using op_entries_seqs(2) [of _ 1 "group_ops (concat G)"] assms(3) by simp
  from holds_InsertInto [OF assms(1) [unfolded inserted_def] group_ops_small [OF assms(2)] _ this] assms(3) that
  show thesis by (auto simp: op_entries_append)
qed

lemma inv_to_insert:
  assumes "busy written durable db G cm" and "few_ops db" and "cm_phase cm = To_insert" and "write_insert cm db = Some db'"
  shows "db_inv written durable db'"
proof -
  define X where "X = take (Suc (cm_others cm)) (db_writers db)"
  have b: "logged written db (G @ [X])" "inserted db G" "kept durable db (if cm_status cm = status_OK then G @ [X] else G)"
    "cm_updates cm = batch_of (1 + length (group_ops (concat G))) (group_ops X)" "list_all writer_ok X"
    "cm_sync_error cm \<longleftrightarrow> cm_status cm \<noteq> status_OK"
    using assms(1,3) by (auto simp: busy_def in_phase_def Let_def X_def common_def list_all_iff dest: in_set_takeD simp del: take_Suc)
  have few: "length (group_ops (concat G)) + length (group_ops X) < 2 ^ 31 - 1"
    using busy_bound [OF assms(1,2)] by (simp add: X_def)
  show ?thesis
  proof (cases "cm_status cm = status_OK")
    case True
    obtain m where m: "InsertInto (cm_updates cm) (db_mem db) = (status_OK, Some m)"
      "mem_holds m (op_entries 1 (group_ops (concat (G @ [X]))))"
      using inserted_group [OF b(2,5) few] b(4) by metis
    let ?cm = "cm\<lparr>cm_status := status_OK, cm_sync_error := False, cm_phase := To_finish\<rparr>"
    let ?db = "db\<lparr>db_mem := m, db_log := db_log db\<rparr>"
    have "db' = ?db\<lparr>db_commit := Some ?cm\<rparr>"
    proof -
      have e: "?cm = cm\<lparr>cm_status := status_OK, cm_phase := To_finish\<rparr>" by (rule cm_same(1)) (use b(6) True in simp)
      show ?thesis
        unfolding e using assms(4) True m(1) by (auto simp: write_insert_def status_ok_def status_OK_def)
    qed
    moreover have "inserted ?db (G @ [X])" using m(2) by (simp add: inserted_def)
    then have "in_phase written durable ?db G X ?cm" using b(1,3) True by (simp add: in_phase_def)
    then have "db_inv written durable (?db\<lparr>db_commit := Some ?cm\<rparr>)"
      unfolding X_def by (intro busy_next [OF assms(1)]) simp_all
    ultimately show ?thesis by simp
  next
    case False
    let ?cm = "cm\<lparr>cm_status := cm_status cm, cm_sync_error := True, cm_phase := To_finish\<rparr>"
    let ?db = "db\<lparr>db_mem := db_mem db, db_log := db_log db\<rparr>"
    have "db' = ?db\<lparr>db_commit := Some ?cm\<rparr>"
    proof -
      have e: "?cm = cm\<lparr>cm_phase := To_finish\<rparr>" using b(6) False by (cases cm) simp
      show ?thesis unfolding e using assms(4) False by (auto simp: write_insert_def status_ok_def status_OK_def)
    qed
    moreover have "in_phase written durable ?db G X ?cm" using b(1-3) False by (simp add: in_phase_def)
    then have "db_inv written durable (?db\<lparr>db_commit := Some ?cm\<rparr>)"
      unfolding X_def using False by (intro busy_next [OF assms(1)]) simp_all
    ultimately show ?thesis by simp
  qed
qed

lemma inv_to_finish:
  assumes "busy written durable db G cm" and "cm_phase cm = To_finish"
  shows "db_inv written durable (write_finish cm db)"
proof -
  define X where "X = take (Suc (cm_others cm)) (db_writers db)"
  have b: "logged written db (G @ [X])" "db_returned db = acked G" "db_bg_error db = status_OK"
    "inserted db (if cm_status cm = status_OK then G @ [X] else G)"
    "kept durable db (if cm_status cm = status_OK then G @ [X] else G)"
    "cm_sync_error cm \<longleftrightarrow> cm_status cm \<noteq> status_OK" "list_all writer_ok X" "common db G"
    "cm_last_sequence cm = of_nat (length (group_ops (concat G)) + length (group_ops X))"
    "\<not> cm_in_tmp cm \<longrightarrow> db_tmp_batch db = batch_Clear"
    using assms by (auto simp: busy_def in_phase_def Let_def X_def common_def list_all_iff dest: in_set_takeD simp del: take_Suc)
  have rest: "list_all writer_ok (drop (Suc (cm_others cm)) (db_writers db))"
    using b(8) by (auto simp: common_def list_all_iff dest: in_set_dropD)
  show ?thesis
  proof (cases "cm_status cm = status_OK")
    case True
    then have "idle written durable (write_finish cm db) (G @ [X])"
      using b rest
      by (simp add: write_finish_def Let_def idle_def common_def
          X_def [symmetric] del: take_Suc drop_Suc)
    then show ?thesis unfolding db_inv_def by blast
  next
    case False
    then have "\<not> status_ok (cm_status cm)" by (auto simp: status_ok_def status_OK_def)
    then have "stopped written durable (write_finish cm db) G X"
      using b rest False
      by (simp add: write_finish_def Let_def stopped_def common_def
          RecordBackgroundError_def X_def [symmetric] del: take_Suc drop_Suc)
    then show ?thesis unfolding db_inv_def by blast
  qed
qed

section \<open>Every run keeps it\<close>

lemma syncs_ok_failed: "syncs_ok wops file_sync written durable failed \<Longrightarrow> \<not> failed (snd (file_sync f)) \<Longrightarrow> \<not> failed f"
  by (auto simp: syncs_ok_def)

lemma failed_back:
  assumes "appends_tracked wops written failed" and "syncs_ok wops file_sync written durable failed"
    and "db_step wops file_sync db db'" and "\<not> failed (dest (db_log db'))"
  shows "\<not> failed (dest (db_log db))"
  using assms(3)
proof cases
  case (begin_ready allow files usage limit)
  then show ?thesis using assms(4) by (simp add: write_begin_def Let_def split: if_splits prod.splits)
next
  case (begin_error allow files usage limit s)
  then show ?thesis using assms(4) by (simp add: write_begin_def Let_def split: if_splits prod.splits)
next
  case (to_log cm)
  then have "\<not> failed (dest (snd (AddRecord wops (db_log db) (cm_updates cm))))" using assms(4) by (simp add: write_log_def split_beta)
  then show ?thesis by (rule tracked_keeps(4) [OF assms(1)])
next
  case (to_sync cm)
  then show ?thesis
    using assms(4) syncs_ok_failed [OF assms(2)] by (auto simp: write_sync_def split_beta split: if_splits)
next
  case (to_insert cm)
  then show ?thesis using assms(4) by (auto simp: write_insert_def split: if_splits prod.splits option.splits)
next
  case (to_finish cm)
  have "db_log (write_finish cm db) = db_log db" by (simp add: write_finish_def Let_def RecordBackgroundError_def)
  then show ?thesis using to_finish(1) assms(4) by simp
qed (use assms(4) in \<open>simp add: write_enter_def\<close>)

lemma inv_step:
  assumes "appends_tracked wops written failed" and "syncs_ok wops file_sync written durable failed"
    and step: "db_step wops file_sync db db'" and few: "few_ops db" and inv: "db_inv written durable db"
    and good: "\<not> failed (dest (db_log db'))"
  shows "db_inv written durable db'"
proof -
  have busy: "\<exists>G. busy written durable db G cm" if "db_commit db = Some cm" for cm
    using inv that by (auto simp: db_inv_def idle_def stopped_def busy_def Let_def)
  from step show ?thesis
  proof cases
    case (enter w)
    then show ?thesis using inv by (simp add: inv_enter)
  next
    case (begin_ready allow files usage limit)
    then show ?thesis using make_room_outcomes(1) [OF begin_ready(5)] few inv by (simp add: inv_begin_ready)
  next
    case (begin_error allow files usage limit s)
    then show ?thesis using make_room_outcomes(2) [OF begin_error(5)] inv inv_begin_error by blast
  next
    case (to_log cm)
    then show ?thesis using busy inv_to_log [OF assms(1,2)] good by blast
  next
    case (to_sync cm)
    then show ?thesis using busy inv_to_sync [OF assms(2)] by blast
  next
    case (to_insert cm)
    then show ?thesis using busy inv_to_insert few by blast
  next
    case (to_finish cm)
    then show ?thesis using busy inv_to_finish by blast
  qed
qed

lemma inv_start:
  assumes "written new = []"
  shows "db_inv written durable (new_db new)"
proof -
  have "idle written durable (new_db new) []"
    using assms make_writer_at_start [of new] mem_holds_empty
    by (simp add: idle_def common_def new_db_def logged_def inserted_def kept_def group_records_def)
  then show ?thesis unfolding db_inv_def by blast
qed

lemma inv_run:
  assumes "appends_tracked wops written failed" and "syncs_ok wops file_sync written durable failed" and "written new = []"
    and "db_run wops file_sync (new_db new) db" and "few_ops db" and "\<not> failed (dest (db_log db))"
  shows "db_inv written durable db"
  using assms(4-6)
proof (induction rule: rtranclp_induct)
  case base
  show ?case by (rule inv_start [of written, OF assms(3)])
next
  case (step db db')
  have "few_ops db" "\<not> failed (dest (db_log db))"
    by (rule few_ops_back [OF step(2,4)], rule failed_back [OF assms(1,2) step(2,5)])
  then show ?case using inv_step [OF assms(1,2) step(2)] step(3,5) by blast
qed

end
