(* ===== verification/LdbRecovery.thy ===== *)
theory LdbRecovery
  imports LdbRun
begin

text \<open>
  What the runs of the write path promise: what \<open>Get\<close> sees of them, that writers return, what a failed
  sync does, and what the recovery of the log finds after a crash, each with a run of one or two writers as
  its example. Only the last needs assumptions on the files.
\<close>

section \<open>What \<open>Get\<close> sees\<close>

text \<open>What \<open>Get\<close> gives after the operations: that of the last on the key, or what the files hold.\<close>

fun op_result :: "bytes \<times> status \<Rightarrow> bytes \<Rightarrow> batch_op option \<Rightarrow> bytes \<times> status" where
  "op_result below val None = below"
| "op_result below val (Some (Put_op k v)) = (v, status_OK)"
| "op_result below val (Some (Delete_op k)) = (val, status_NotFound [] [])"

text \<open>
  C2. Committed reads: in every state that any number of writers reach, in the middle of a commit as
  well and whatever appends, flushes and syncs of the log fail on the way, \<open>Get\<close> gives the effect of the last operation on
  the key among the writes that have returned OK, in their order, and looks in the files only if there is none. The
  operations of a write that has not returned, or has returned an error, are not seen.
\<close>
theorem get_sees_acked_writes:
  assumes "db_run wops file_sync (new_db new) db" and "few_ops db" and "length key + 8 < 2 ^ 32"
  shows "db_Get version_Get None key val db =
    Some (op_result (version_Get (make_LookupKey key (db_last_sequence db)) val) val
      (last_op key (group_ops (acked_writers db))))"
proof -
  obtain A n where v: "visible db A n" using ok_run [OF assms(1) new_db_ok assms(2)] by (auto simp: db_ok_def)
  then have "db_imm db = None" by (simp add: visible_def)
  note get = visible_Get [OF v assms(2,3)]
  show ?thesis
  proof (cases "last_op key (group_ops (acked_writers db))")
    case None
    then show ?thesis using get \<open>db_imm db = None\<close> by (simp add: db_Get_def Let_def)
  next
    case (Some op)
    then show ?thesis using get by (cases op) (simp_all add: db_Get_def Let_def)
  qed
qed

section \<open>Writers return\<close>

text \<open>
  C32. Nobody waits for ever: from every state of a run, whatever the files do, the writers in the queue are served in at
  most five steps each, and serving them can stop only when all have returned and none waits for its condition variable, or
  when the writer at the front, which is awake then, has no batch and so waits in \<open>MakeRoomForWrite\<close> for a new memtable.
  The rounds \<open>MakeRoomForWrite\<close> spends waiting for memory or compactions are no steps here.
\<close>
theorem writers_return:
  assumes "db_run wops file_sync (new_db new) db" and "few_ops db" and "(serves wops file_sync ^^ k) db db'"
  shows "k \<le> 5 * length (db_writers db) \<and>
    ((\<nexists>d. serves wops file_sync db' d) \<longrightarrow>
     map fst (db_returned db') = all_writers db \<and> db_asleep db' = [] \<or>
     db_writers db' \<noteq> [] \<and> wr_batch (hd (db_writers db')) = None \<and> is_awake db' (length (db_returned db')))"
proof -
  note run = serves_run [OF assms(3) ok_run [OF assms(1) new_db_ok assms(2)] assms(2)]
  then have "k \<le> work db" "work db \<le> 5 * length (db_writers db)" by (simp_all add: work_def)
  then have "k \<le> 5 * length (db_writers db)" by (rule le_trans)
  then show ?thesis using run stuck [of db' wops file_sync] by auto
qed

section \<open>A failed sync\<close>

definition only_errors :: "'f db \<Rightarrow> 'f db \<Rightarrow> bool" where
  "only_errors db db' \<longleftrightarrow> db_log db' = db_log db \<and> db_mem db' = db_mem db \<and> db_bg_error db' = db_bg_error db \<and>
    (\<exists>ws. db_returned db' = db_returned db @ map (\<lambda>w. (w, db_bg_error db)) ws)"

lemma only_errors_trans:
  assumes "only_errors db d" and "only_errors d d'"
  shows "only_errors db d'"
proof -
  obtain ws where ws: "db_returned d = db_returned db @ map (\<lambda>w. (w, db_bg_error db)) ws" "db_bg_error d = db_bg_error db"
    using assms(1) unfolding only_errors_def by blast
  obtain vs where "db_returned d' = db_returned d @ map (\<lambda>w. (w, db_bg_error d)) vs"
    using assms(2) unfolding only_errors_def by blast
  then have "db_returned d' = db_returned db @ map (\<lambda>w. (w, db_bg_error db)) (ws @ vs)" by (simp add: ws)
  then show ?thesis using assms unfolding only_errors_def by metis
qed

text \<open>
  C33. A failed sync is final: once it is recorded, nothing is logged or inserted any more, and every
  writer that returns from then on returns that error.
\<close>
theorem sync_error_is_final:
  assumes "db_run wops file_sync (new_db new) db" and "db_bg_error db \<noteq> status_OK" and "db_run wops file_sync db db'"
  shows "db_log db' = db_log db \<and> db_mem db' = db_mem db \<and> db_bg_error db' = db_bg_error db \<and>
    (\<exists>ws. db_returned db' = db_returned db @ map (\<lambda>w. (w, db_bg_error db)) ws)"
proof -
  have "db_run wops file_sync db db' \<Longrightarrow> only_errors db db'"
  proof (induction rule: rtranclp_induct)
    case base
    show ?case by (simp add: only_errors_def exI [of _ "[]"])
  next
    case (step d d')
    have d: "only_errors db d" by (rule step(3))
    have bad: "db_bg_error d = db_bg_error db" using d by (simp add: only_errors_def)
    have "db_run wops file_sync (new_db new) d" using assms(1) step(1) by (rule rtranclp_trans)
    then have idle: "db_commit d = None" using error_idle bad assms(2) by metis
    from step(2) have "only_errors d d'"
    proof cases
      case (begin_ready allow files usage limit)
      then show ?thesis using make_room_outcomes(1) bad assms(2) by metis
    next
      case (begin_error allow files usage limit s)
      then have "s = db_bg_error d" "d' = pop_writers 0 (db_bg_error d) d"
        using make_room_outcomes(2) write_begin_error not_OK by metis+
      then show ?thesis using begin_error(3)
        by (simp add: only_errors_def) (rule exI [of _ "take (Suc 0) (db_writers d)"], simp)
    qed (use idle in \<open>auto simp: only_errors_def write_enter_def intro: exI [of _ "[]"]\<close>)
    then show ?case by (rule only_errors_trans [OF d])
  qed
  then show ?thesis using assms(3) unfolding only_errors_def by blast
qed

section \<open>What the log of a run holds\<close>

lemma kept_less: "kept durable db (G @ [X]) \<Longrightarrow> kept durable db G"
proof -
  assume "kept durable db (G @ [X])"
  then obtain j where j: "j \<le> Suc (length G)" "\<forall>w \<in> set (concat (drop j (G @ [X]))). \<not> wr_sync w"
    "length (log_bytes 0 (take j (group_records (G @ [X])))) \<le> durable (dest (db_log db))"
    unfolding kept_def by auto
  show ?thesis
  proof (cases "j \<le> length G")
    case True
    then show ?thesis unfolding kept_def using j by (intro exI [of _ j]) (auto simp: records_snoc)
  next
    case False
    then have "j = Suc (length G)" using j(1) by simp
    then have "length (log_bytes 0 (group_records G)) \<le> durable (dest (db_log db))"
      using j(3) by (simp add: records_snoc log_bytes_snoc)
    then show ?thesis by (rule kept_all)
  qed
qed

definition summary :: "('f \<Rightarrow> bytes) \<Rightarrow> ('f \<Rightarrow> nat) \<Rightarrow> 'f db \<Rightarrow> db_writer list list \<Rightarrow> db_writer list list \<Rightarrow> bool" where
  "summary written durable db G L \<longleftrightarrow>
     (L = G \<or> (\<exists>X. L = G @ [X])) \<and> logged written db L \<and> kept durable db G \<and>
     (\<exists>rest. all_writers db = concat L @ rest) \<and> list_all (list_all writer_ok) L \<and>
     (\<exists>fails. db_returned db = acked G @ fails \<and> (\<forall>(w, s) \<in> set fails. \<not> status_ok s))"

lemma idle_summary: "idle written durable db G \<Longrightarrow> summary written durable db G G"
  by (simp add: summary_def idle_def common_def all_writers_def)

lemma stopped_summary:
  assumes "stopped written durable db G X"
  shows "summary written durable db G (G @ [X])"
proof -
  obtain fails where f: "db_returned db = acked G @ map (\<lambda>w. (w, db_bg_error db)) (X @ fails)"
    using assms unfolding stopped_def by blast
  then have aw: "all_writers db = concat G @ X @ fails @ db_writers db" by (simp add: all_writers_def comp_def)
  have e: "\<not> status_ok (db_bg_error db)" using assms by (auto simp: stopped_def status_ok_def status_OK_def)
  have "\<exists>fails. db_returned db = acked G @ fails \<and> (\<forall>(w, s) \<in> set fails. \<not> status_ok s)"
    using f e by (intro exI [of _ "map (\<lambda>w. (w, db_bg_error db)) (X @ fails)"]) auto
  moreover have "\<exists>rest. all_writers db = concat (G @ [X]) @ rest" using aw by simp
  ultimately show ?thesis using assms unfolding summary_def stopped_def common_def by simp
qed

lemma busy_summary:
  assumes "busy written durable db G cm"
  shows "\<exists>L. summary written durable db G L"
proof -
  define X where "X = take (Suc (cm_others cm)) (db_writers db)"
  define W where "W = drop (Suc (cm_others cm)) (db_writers db)"
  have ws: "db_writers db = X @ W" by (simp add: X_def W_def del: take_Suc drop_Suc)
  have c: "list_all writer_ok (db_writers db)" "list_all (list_all writer_ok) G" "db_returned db = acked G"
    "in_phase written durable db G X cm"
    using assms by (simp_all add: busy_def Let_def X_def common_def del: take_Suc)
  have aw: "all_writers db = concat G @ X @ W" using c(3) ws by (simp add: all_writers_def)
  have "kept durable db G" using c(4) kept_less by (auto simp: in_phase_def Let_def split: if_splits)
  moreover have "logged written db G \<or> logged written db (G @ [X])"
    using c(4) by (auto simp: in_phase_def Let_def split: if_splits)
  moreover have "\<exists>rest. all_writers db = concat G @ rest" "\<exists>rest. all_writers db = concat (G @ [X]) @ rest"
    using aw by simp_all
  moreover have "\<exists>fails. db_returned db = acked G @ fails \<and> (\<forall>(w, s) \<in> set fails. \<not> status_ok s)"
    by (rule exI [of _ "[]"]) (simp add: c(3))
  moreover have "list_all (list_all writer_ok) (G @ [X])" using c(1,2) unfolding ws by simp
  ultimately have "summary written durable db G G \<or> summary written durable db G (G @ [X])"
    using c(2) unfolding summary_def by blast
  then show ?thesis by blast
qed

lemma inv_summary:
  assumes "db_inv written durable db"
  shows "\<exists>G L. summary written durable db G L"
proof -
  from assms obtain G where "idle written durable db G \<or> (\<exists>X. stopped written durable db G X) \<or> (\<exists>cm. busy written durable db G cm)"
    unfolding db_inv_def by blast
  then consider "idle written durable db G" | X where "stopped written durable db G X" | cm where "busy written durable db G cm"
    by blast
  then show ?thesis by cases (use idle_summary stopped_summary busy_summary in meson)+
qed

lemma inv_no_error:
  assumes "db_inv written durable db" and "db_bg_error db = status_OK"
  shows "\<exists>G. db_returned db = acked G \<and> kept durable db G"
proof -
  from assms obtain G where "idle written durable db G \<or> (\<exists>cm. busy written durable db G cm)"
    unfolding db_inv_def stopped_def by blast
  then consider "idle written durable db G" | cm where "busy written durable db G cm" by blast
  then show ?thesis
  proof cases
    case 2
    then have "kept durable db G" using busy_summary unfolding summary_def by blast
    then show ?thesis using 2 by (auto simp: busy_def Let_def)
  qed (auto simp: idle_def)
qed

section \<open>Recovery after a crash\<close>

text \<open>What a recovery begins with.\<close>

definition start_recovery :: "'t \<Rightarrow> 't recovery" where
  "start_recovery tables = \<lparr>rc_status = status_OK, rc_mem = None, rc_max_sequence = 0, rc_save_manifest = False,
     rc_compactions = 0, rc_tables = tables\<rparr>"

lemma concat_group_ops: "concat (map group_ops G) = group_ops (concat G)"
  by (simp add: group_ops_concat)

text \<open>A sync write that has returned OK is in a durable group.\<close>

lemma synced_within:
  assumes "summary written durable db G L" and "durable (dest (db_log db)) \<le> m"
    and "i < length (db_returned db)" and "status_ok (snd (db_returned db ! i))" and "wr_sync (fst (db_returned db ! i))"
  shows "i < length (concat (take (complete 0 m (group_records L)) L))"
proof -
  obtain fails where f: "db_returned db = acked G @ fails" "\<forall>(w, s) \<in> set fails. \<not> status_ok s"
    using assms(1) unfolding summary_def by blast
  have la: "length (acked G) = length (concat G)" by (simp add: acked_def)
  have i: "i < length (concat G)"
  proof (rule ccontr)
    assume "\<not> i < length (concat G)"
    then have "db_returned db ! i \<in> set fails" using assms(3) f(1) la by (auto simp: nth_append)
    then show False using f(2) assms(4) by auto
  qed
  then have sync: "wr_sync (concat G ! i)" using assms(5) f(1) la by (simp add: nth_append acked_def)
  obtain j where j: "j \<le> length G" "\<forall>w \<in> set (concat (drop j G)). \<not> wr_sync w"
    "length (log_bytes 0 (take j (group_records G))) \<le> durable (dest (db_log db))"
    using assms(1) unfolding summary_def kept_def by blast
  have split: "concat G = concat (take j G) @ concat (drop j G)" by (metis append_take_drop_id concat_append)
  have ij: "i < length (concat (take j G))"
  proof (rule ccontr)
    assume "\<not> i < length (concat (take j G))"
    then have "concat G ! i = concat (drop j G) ! (i - length (concat (take j G)))"
      unfolding split [symmetric] by (subst split) (simp only: nth_append if_False)
    moreover have "i - length (concat (take j G)) < length (concat (drop j G))"
      using i \<open>\<not> i < length (concat (take j G))\<close> unfolding split length_append by linarith
    ultimately have "concat G ! i \<in> set (concat (drop j G))" by (simp only: nth_mem)
    then show False using j(2) sync by blast
  qed
  have L: "L = G \<or> (\<exists>X. L = G @ [X])" using assms(1) by (simp add: summary_def)
  then have t: "take j (group_records L) = take j (group_records G)" "take j L = take j G" "j \<le> length L"
    using j(1) by (auto simp: records_snoc)
  have "j \<le> complete 0 m (group_records L)"
    by (rule complete_ge) (use t j(3) assms(2) in simp_all)
  then have "take j (take (complete 0 m (group_records L)) L) = take j L" by (simp add: min_def)
  then have "concat (take (complete 0 m (group_records L)) L) =
      concat (take j L) @ concat (drop j (take (complete 0 m (group_records L)) L))"
    by (metis append_take_drop_id concat_append)
  then show ?thesis using ij t(2) by simp
qed

text \<open>
  C1. Crash recovery: take any state that any number of writers reach in a run in which no append or flush of the log
  has failed, syncs may have; let the machine crash, and let the log file be cut off anywhere at or after its durable part.
  Then the recovery of the log comes to an end. If it fails, a level-0 table could not be written, and it gives that status.
  Otherwise it returns OK, and what a lookup finds in the tables it makes is the effect of the first \<open>k\<close> writes in the
  order of the queue, whole writes only; every write that asked for a sync and has returned OK is
  among them. The last sequence number is that of the last operation recovered.
\<close>
theorem crash_recovery:
  assumes "appends_tracked wops written failed" and "syncs_ok wops file_sync written durable failed" and "written new = []"
    and "db_run wops file_sync (new_db new) db" and "few_ops db" and "\<not> failed (dest (db_log db))"
    and "reads_ok rops contents" and "contents f = take m (written (dest (db_log db)))" and "durable (dest (db_log db)) \<le> m"
    and "level0_if_ok WriteLevel0Table tabs" and "tabs tables = []" and "ro_user opts = BytewiseComparator"
  shows "\<exists>k out. k \<le> length (all_writers db) \<and>
    (\<forall>i < length (db_returned db). status_ok (snd (db_returned db ! i)) \<and> wr_sync (fst (db_returned db ! i)) \<longrightarrow> i < k) \<and>
    RecoverLogFile opts usage WriteLevel0Table rops (Inr f) reopen last_log (start_recovery tables) = Some out \<and>
    (level0_failed WriteLevel0Table (rc_status (fst out)) \<or>
     rc_status (fst out) = status_OK \<and>
     rc_max_sequence (fst out) = of_nat (length (group_ops (take k (all_writers db)))) \<and>
     (\<forall>key val. length key + 8 < 2 ^ 32 \<longrightarrow>
       tables_Get (make_LookupKey key (rc_max_sequence (fst out))) val status_OK (rev (final_tables tabs out)) =
         Some (mem_answer (last_op key (group_ops (take k (all_writers db)))) val status_OK)))"
proof -
  obtain G L where s: "summary written durable db G L" using inv_summary [OF inv_run [OF assms(1-6)]] by blast
  obtain rest where aw: "all_writers db = concat L @ rest" using s unfolding summary_def by blast
  have lg: "written (dest (db_log db)) = log_bytes 0 (numbered_batches 1 (map group_ops L))"
    using s by (simp add: summary_def logged_def group_records_def)
  have small: "list_all (list_all op_small) (map group_ops L)"
    using s group_ops_small by (auto simp: summary_def list_all_iff)
  define c where "c = complete 0 m (numbered_batches 1 (map group_ops L))"
  define k where "k = length (concat (take c L))"
  have tk: "take k (all_writers db) = concat (take c L)"
  proof -
    have "concat L = concat (take c L) @ concat (drop c L)" by (metis append_take_drop_id concat_append)
    then show ?thesis by (simp add: aw k_def)
  qed
  let ?ops = "group_ops (take k (all_writers db))"
  have ops: "concat (take c (map group_ops L)) = ?ops"
    by (simp add: tk take_map concat_group_ops)
  have few: "length (group_ops (all_writers db)) < 2 ^ 31 - 1" using assms(5) by (simp add: few_ops_def)
  have "length (concat (map group_ops L)) < 2 ^ 31" using few aw by (simp add: concat_group_ops)
  have start: "rc_max_sequence (start_recovery tables) = 0" "rc_tables (start_recovery tables) = tables"
    by (simp_all add: start_recovery_def)
  have cut: "contents f = take m (log_bytes 0 (numbered_batches 1 (map group_ops L)))"
    using assms(8) unfolding lg .
  note recovered = recover_whole_file [OF assms(7,10,12,11) start small \<open>length (concat (map group_ops L)) < 2 ^ 31\<close> cut,
      where usage = usage and reopen = reopen and last_log = last_log, folded c_def, unfolded ops]
  then obtain out where
    out: "RecoverLogFile opts usage WriteLevel0Table rops (Inr f) reopen last_log (start_recovery tables) = Some out"
    "level0_failed WriteLevel0Table (rc_status (fst out)) \<or>
     rc_status (fst out) = status_OK \<and> rc_max_sequence (fst out) = of_nat (length ?ops) \<and>
     (\<exists>ess. list_all2 mem_holds (final_tables tabs out) ess \<and> concat ess = op_entries 1 ?ops)"
    by blast
  have n: "length ?ops \<le> length (group_ops (all_writers db))"
    by (metis append_take_drop_id group_ops_simps(3) length_append le_add1)
  have get: "tables_Get (make_LookupKey key (rc_max_sequence (fst out))) val status_OK (rev (final_tables tabs out)) =
      Some (mem_answer (last_op key ?ops) val status_OK)"
    if key: "length key + 8 < 2 ^ 32" and top: "rc_max_sequence (fst out) = of_nat (length ?ops)"
      and holds: "list_all2 mem_holds (final_tables tabs out) ess" "concat ess = op_entries 1 ?ops" for key val ess
  proof -
    have u: "unat (rc_max_sequence (fst out)) = length ?ops"
      unfolding top using n few by (intro unat_of_nat_56) simp
    have "ascending (concat ess)" unfolding holds(2) using n few by (intro op_entries_ascending) simp
    moreover have "rc_max_sequence (fst out) \<le> kMaxSequenceNumber"
      using u n few by (simp add: kMaxSequenceNumber_def word_le_nat_alt)
    moreover have "mem_lookup (op_entries 1 ?ops) key (rc_max_sequence (fst out)) val status_OK =
        mem_answer (last_op key ?ops) val status_OK"
      using lookup_is_last_op [where ops = ?ops and s = "rc_max_sequence (fst out)"] u n few by (simp add: last_op_def)
    ultimately show ?thesis using tables_Get_lookup [OF key _ holds(1)] holds(2) by simp
  qed
  have "i < k" if "i < length (db_returned db)" "status_ok (snd (db_returned db ! i))" "wr_sync (fst (db_returned db ! i))" for i
    using synced_within [OF s assms(9) that] by (simp add: k_def c_def group_records_def)
  moreover have "k \<le> length (all_writers db)"
    unfolding aw k_def by (metis append_take_drop_id concat_append length_append le_add1 trans_le_add1)
  ultimately show ?thesis using out get by blast
qed

section \<open>Runs with one and two writers\<close>

text \<open>A file in memory whose sync succeeds, and one whose sync fails.\<close>

definition good_sync :: "bytes \<Rightarrow> status \<times> bytes" where
  "good_sync f = (status_OK, f)"

definition bad_sync :: "bytes \<Rightarrow> status \<times> bytes" where
  "bad_sync f = (status_IOError (c_str ''sync'') [], f)"

lemma memory_tracked: "appends_tracked memory_writer (\<lambda>f. f) (\<lambda>f. False)"
  by (rule appends_ok_tracked [OF memory_appends_ok])

lemma memory_syncs_ok:
  "syncs_ok memory_writer good_sync (\<lambda>f. f) length (\<lambda>f. False)" "syncs_ok memory_writer bad_sync (\<lambda>f. f) (\<lambda>f. 0) (\<lambda>f. False)"
  by (simp_all add: syncs_ok_def memory_writer_def good_sync_def bad_sync_def status_ok_def status_IOError_def status_OK_def
      make_status_def)

abbreviation one_put :: db_writer where
  "one_put \<equiv> db_Put True [1] [10]"

abbreviation one_entered :: "'f \<Rightarrow> 'f db" where
  "one_entered new \<equiv> write_enter one_put (new_db new)"

lemma writer_ops_Put: "length k < 2 ^ 32 \<Longrightarrow> length v < 2 ^ 32 \<Longrightarrow> writer_ops (db_Put sync k v) = [Put_op k v]"
  using batch_ops_holds [OF holds_add [OF holds_Clear], of "Put_op k v"] by (simp add: writer_ops_def db_Put_def)

lemma one_put_ok: "writer_ok one_put" "writer_ops one_put = [Put_op [1] [10]]"
proof -
  show ops: "writer_ops one_put = [Put_op [1] [10]]" by (simp add: writer_ops_Put)
  have "holds (batch_Put batch_Clear [1] [10]) 0 [Put_op [1] [10]]" using holds_add [OF holds_Clear, of "Put_op [1] [10]"] by simp
  then show "writer_ok one_put"
    using ops holds_parts(2) by (fastforce simp: writer_ok_def writer_ops_def db_Put_def)
qed

lemma one_entered_reached: "db_run wops file_sync (new_db new) (one_entered new)"
  by (intro r_into_rtranclp enter one_put_ok)

lemma one_entered_facts:
  "all_writers (one_entered new) = [one_put]" "few_ops (one_entered new)" "db_writers (one_entered new) = [one_put]"
  "wr_batch one_put \<noteq> None" "db_returned (one_entered new) = []"
  by (simp_all add: all_writers_def write_enter_def new_db_def few_ops_def one_put_ok, simp add: db_Put_def)

text \<open>The writers in the queue are served to the end.\<close>

lemma serves_ends:
  assumes "db_ok db" and "few_ops db"
  shows "\<exists>k db'. (serves wops file_sync ^^ k) db db' \<and> (\<nexists>d. serves wops file_sync db' d)"
  using assms
proof (induction "work db" arbitrary: db rule: less_induct)
  case less
  show ?case
  proof (cases "\<exists>d. serves wops file_sync db d")
    case False
    then show ?thesis by (intro exI [of _ 0]) auto
  next
    case True
    then obtain d where d: "serves wops file_sync db d" by blast
    then have "db_ok d" "few_ops d" "work d < work db" using serves_ok less.prems by blast+
    then obtain k db' where k: "(serves wops file_sync ^^ k) d db'" "\<nexists>d. serves wops file_sync db' d" using less.hyps by blast
    then show ?thesis using relpowp_Suc_I2 [OF d k(1)] by blast
  qed
qed

lemma one_returns:
  obtains db st where "db_run wops file_sync (new_db new) db" and "few_ops db"
    and "db_returned db = [(one_put, st)]" and "db_writers db = []"
proof -
  have ok: "db_ok (one_entered new)" by (rule ok_run [OF one_entered_reached new_db_ok one_entered_facts(2)])
  obtain k db where db: "(serves wops file_sync ^^ k) (one_entered new) db" "\<nexists>d. serves wops file_sync db d"
    using serves_ends [OF ok one_entered_facts(2)] by blast
  note run = serves_run [OF db(1) ok one_entered_facts(2)]
  have aw: "map fst (db_returned db) @ db_writers db = [one_put]" using run one_entered_facts(1) by (simp add: all_writers_def)
  have "map fst (db_returned db) = all_writers db"
    using stuck [OF _ _ db(2)] run aw one_entered_facts(4) by (cases "db_returned db") (auto simp: all_writers_def)
  then have r: "map fst (db_returned db) = [one_put]" "db_writers db = []" using aw by (auto simp: all_writers_def)
  obtain st where "db_returned db = [(one_put, st)]" using r(1) by (cases "db_returned db") auto
  moreover have "db_run wops file_sync (new_db new) db"
    using run one_entered_reached by (meson rtranclp_trans)
  ultimately show thesis using that run r(2) by blast
qed

lemma no_sync_failure:
  assumes "\<And>f. fst (file_sync f) = status_OK"
  shows "db_run wops file_sync (new_db new) db \<Longrightarrow>
    db_bg_error db = status_OK \<and> (\<forall>cm. db_commit db = Some cm \<longrightarrow> \<not> cm_sync_error cm)"
proof (induction rule: rtranclp_induct)
  case base
  show ?case by (simp add: new_db_def)
next
  case (step d d')
  have s: "fst (file_sync f) = s \<Longrightarrow> s = status_OK" for f s using assms by simp
  from step(2) show ?case
  proof cases
    case (begin_ready allow files usage limit)
    then have "wr_batch (hd (db_writers d)) \<noteq> None" using make_room_outcomes(1) [OF begin_ready(5)] by simp
    then show ?thesis using step(3) by (auto simp: begin_ready(1) write_begin_def Let_def split: prod.splits)
  next
    case (begin_error allow files usage limit s)
    then have "d' = pop_writers 0 s d" using make_room_outcomes(2) write_begin_error not_OK by metis
    then show ?thesis using step(3) by simp
  next
    case (to_insert cm)
    then show ?thesis using step(3) by (auto simp: write_insert_def split: if_splits prod.splits option.splits)
  next
    case (to_sync cm)
    then show ?thesis using step(3) assms [of "dest (db_log d)"]
      by (auto simp: write_sync_def status_ok_def status_OK_def split: prod.splits)
  next
    case (to_finish cm)
    obtain e where e: "write_finish cm d = pop_writers (cm_others cm) (cm_status cm) e" "db_commit e = None"
      "db_bg_error e = (if cm_sync_error cm \<and> status_ok (db_bg_error d) then cm_status cm else db_bg_error d)"
      by (rule write_finish_pop)
    show ?thesis using step(3) to_finish(2) unfolding to_finish(1) e(1) by (simp add: e(2,3))
  qed (use step(3) in \<open>auto simp: write_enter_def write_log_def split: prod.splits\<close>)
qed

lemma one_acked:
  obtains db where "db_run memory_writer good_sync (new_db []) db" and "few_ops db" and "db_returned db = [(one_put, status_OK)]"
    and "db_writers db = []"
proof -
  obtain db st where db: "db_run memory_writer good_sync (new_db []) db" "few_ops db"
    "db_returned db = [(one_put, st)]" "db_writers db = []"
    by (rule one_returns)
  have inv: "db_inv (\<lambda>f. f) length db" by (rule inv_run [OF memory_tracked memory_syncs_ok(1) _ db(1,2)]) simp_all
  have "db_bg_error db = status_OK" using no_sync_failure [OF _ db(1)] by (simp add: good_sync_def)
  from inv_no_error [OF inv this] obtain G where "db_returned db = acked G" by blast
  then have "st = status_OK" using db(3) by (auto simp: acked_def map_eq_Cons_conv)
  with db that show thesis by blast
qed

lemma get_sees_acked_writes_witness:
  "\<exists>db. db_run memory_writer good_sync (new_db []) db \<and> db_returned db = [(one_put, status_OK)] \<and>
    db_Get (\<lambda>k v. (v, status_NotFound [] [])) None [1] [] db = Some ([10], status_OK)"
proof -
  obtain db where db: "db_run memory_writer good_sync (new_db []) db" "few_ops db" "db_returned db = [(one_put, status_OK)]"
    by (rule one_acked)
  have "acked_writers db = [one_put]" by (simp add: acked_writers_def db(3) status_ok_def status_OK_def)
  then have "db_Get (\<lambda>k v. (v, status_NotFound [] [])) None [1] [] db = Some ([10], status_OK)"
    using get_sees_acked_writes [OF db(1,2), of "[1]"] by (simp add: last_op_def one_put_ok)
  with db show ?thesis by blast
qed

text \<open>Two writers, the second of which waits for the first.\<close>

abbreviation two_entered :: "bytes db" where
  "two_entered \<equiv> write_enter one_put (one_entered [])"

lemma writers_return_witness:
  "db_asleep two_entered = [1] \<and>
   (\<exists>k db'. (serves memory_writer bad_sync ^^ k) two_entered db' \<and> k \<le> 10 \<and>
      map fst (db_returned db') = [one_put, one_put] \<and> db_asleep db' = [])"
proof -
  have "db_step memory_writer bad_sync (one_entered []) two_entered" by (intro enter one_put_ok)
  then have run: "db_run memory_writer bad_sync (new_db []) two_entered"
    using one_entered_reached by (meson rtranclp.rtrancl_into_rtrancl)
  have aw: "all_writers two_entered = [one_put, one_put]" "db_writers two_entered = [one_put, one_put]"
    by (simp_all add: all_writers_def write_enter_def new_db_def)
  have few: "few_ops two_entered" by (simp only: few_ops_def aw) (simp add: one_put_ok)
  obtain k db' where k: "(serves memory_writer bad_sync ^^ k) two_entered db'" "\<nexists>d. serves memory_writer bad_sync db' d"
    using serves_ends [OF ok_run [OF run new_db_ok few] few] by blast
  have "all_writers db' = [one_put, one_put]"
    using serves_run [OF k(1) ok_run [OF run new_db_ok few] few] aw by simp
  then have "set (db_writers db') \<subseteq> {one_put}"
    unfolding all_writers_def by (metis Un_upper2 insert_absorb2 list.set(1,2) set_append)
  then have "db_writers db' \<noteq> [] \<Longrightarrow> hd (db_writers db') = one_put" by (cases "db_writers db'") auto
  then have "\<not> (db_writers db' \<noteq> [] \<and> wr_batch (hd (db_writers db')) = None \<and> is_awake db' (length (db_returned db')))"
    using one_entered_facts(4) by auto
  moreover have "db_asleep two_entered = [1]" by (simp add: write_enter_def new_db_def)
  ultimately show ?thesis using writers_return [OF run few k(1)] k aw by (intro conjI exI [of _ k] exI [of _ db']) auto
qed

lemma crash_recovery_witness:
  "\<exists>db out. db_run memory_writer good_sync (new_db []) db \<and> db_returned db = [(one_put, status_OK)] \<and>
    RecoverLogFile \<lparr>ro_paranoid_checks = True, ro_reuse_logs = False, ro_write_buffer_size = 4096, ro_user = BytewiseComparator\<rparr>
      (\<lambda>m. 0) (\<lambda>m t. (status_OK, t @ [m])) memory_reader (Inr (dest (db_log db))) (None :: (unit \<times> u64) option) True
      (start_recovery []) = Some out \<and>
    tables_Get (make_LookupKey [1] (rc_max_sequence (fst out))) [] status_OK (rev (final_tables (\<lambda>t. t) out)) =
      Some (True, [10], status_OK)"
proof -
  let ?opts = "\<lparr>ro_paranoid_checks = True, ro_reuse_logs = False, ro_write_buffer_size = 4096, ro_user = BytewiseComparator\<rparr>"
  let ?W = "\<lambda>m t. (status_OK, t @ [m])"
  obtain db where db: "db_run memory_writer good_sync (new_db []) db" "few_ops db" "db_returned db = [(one_put, status_OK)]"
    "db_writers db = []"
    by (rule one_acked)
  have l0: "level0_if_ok ?W (\<lambda>t. t)" by (simp add: level0_if_ok_def)
  have never: "\<not> level0_failed ?W s" for s by (auto simp: level0_failed_def)
  have "dest (db_log db) = take (length (dest (db_log db))) (dest (db_log db))" by simp
  note recovered = crash_recovery [OF memory_tracked memory_syncs_ok(1) refl db(1,2) _ memory_reads_ok this order_refl l0 refl,
      of ?opts "\<lambda>m. 0" "None :: (unit \<times> u64) option" True, OF _ recover_options.select_convs(4)]
  then obtain k out where out: "k \<le> length (all_writers db)"
    "\<forall>i < length (db_returned db). status_ok (snd (db_returned db ! i)) \<and> wr_sync (fst (db_returned db ! i)) \<longrightarrow> i < k"
    "RecoverLogFile ?opts (\<lambda>m. 0) ?W memory_reader (Inr (dest (db_log db)))
      (None :: (unit \<times> u64) option) True (start_recovery []) = Some out"
    "\<forall>key val. length key + 8 < 2 ^ 32 \<longrightarrow>
      tables_Get (make_LookupKey key (rc_max_sequence (fst out))) val status_OK (rev (final_tables (\<lambda>t. t) out)) =
        Some (mem_answer (last_op key (group_ops (take k (all_writers db)))) val status_OK)"
    using never by blast
  have "all_writers db = [one_put]" using db(3,4) by (simp add: all_writers_def)
  moreover have "k \<noteq> 0" using out(2) db(3) by (auto simp: db_Put_def status_ok_def status_OK_def)
  ultimately have "take k (all_writers db) = [one_put]" by (cases k) auto
  then have "last_op [1] (group_ops (take k (all_writers db))) = Some (Put_op [1] [10])"
    by (simp add: last_op_def one_put_ok)
  then show ?thesis using db out(3,4) by (intro exI [of _ db] exI [of _ out]) simp
qed

lemma sync_error_is_final_witness:
  "\<exists>db. db_run memory_writer bad_sync (new_db []) db \<and> db_bg_error db \<noteq> status_OK \<and>
    db_log (write_enter one_put db) = db_log db \<and>
    (\<exists>ws. db_returned (write_enter one_put db) = db_returned db @ map (\<lambda>w. (w, db_bg_error db)) ws)"
proof -
  obtain db st where db: "db_run memory_writer bad_sync (new_db []) db" "few_ops db"
    "db_returned db = [(one_put, st)]" "db_writers db = []"
    by (rule one_returns)
  have inv: "db_inv (\<lambda>f. f) (\<lambda>f. 0) db" by (rule inv_run [OF memory_tracked memory_syncs_ok(2) _ db(1,2)]) simp_all
  have bad: "db_bg_error db \<noteq> status_OK"
  proof
    assume "db_bg_error db = status_OK"
    from inv_no_error [OF inv this] obtain G where G: "db_returned db = acked G" "kept (\<lambda>f. 0) db G" by blast
    then obtain j where j: "j \<le> length G" "\<forall>w \<in> set (concat (drop j G)). \<not> wr_sync w"
      "length (log_bytes 0 (take j (group_records G))) \<le> 0"
      unfolding kept_def by blast
    have n: "log_bytes 0 ds = [] \<Longrightarrow> ds = []" for ds by (cases ds) (simp_all add: log_record_not_Nil)
    have "log_bytes 0 (take j (group_records G)) = []" using j(3) by simp
    then have "take j (group_records G) = []" by (rule n)
    then have "j = 0" using j(1) by (metis length_greater_0_conv length_records length_take list.size(3) min.absorb2)
    moreover have "one_put \<in> set (concat G)" using G(1) db(3) by (metis fst_acked fst_conv list.set_intros(1) list.simps(9))
    ultimately have "\<not> wr_sync one_put" using j(2) by (metis drop_0)
    then show False by (simp add: db_Put_def)
  qed
  have "db_step memory_writer bad_sync db (write_enter one_put db)" by (intro enter one_put_ok)
  then have "db_run memory_writer bad_sync db (write_enter one_put db)" ..
  from sync_error_is_final [OF db(1) bad this] show ?thesis using db(1) bad by (intro exI [of _ db]) simp
qed

end
