(* ===== verification/LdbVersionEdit.thy ===== *)
theory LdbVersionEdit
  imports LdbFormat LdbStatus "HOL-Library.Product_Lexorder"
begin

text \<open>
  The records of a manifest: \<open>leveldb-library/db/version_edit.h\<close> and \<open>version_edit.cc\<close>. An internal
  key is its bytes, the set of deleted files the ascending list its iterator goes over.

  The lemmas show that an edit is read back as it was written, apart from the compaction pointers,
  which \<open>Clear\<close> keeps.
\<close>

section \<open>Edits\<close>

record file_meta =
  fm_refs :: int
  fm_allowed_seeks :: int
  fm_number :: u64
  fm_file_size :: u64
  fm_smallest :: bytes
  fm_largest :: bytes

text \<open>The constructor leaves the number undefined; it is always set after it.\<close>

definition make_file_meta :: "u64 \<Rightarrow> u64 \<Rightarrow> bytes \<Rightarrow> bytes \<Rightarrow> file_meta" where
  "make_file_meta number fsize smallest largest =
     \<lparr>fm_refs = 0, fm_allowed_seeks = 2 ^ 30, fm_number = number, fm_file_size = fsize,
      fm_smallest = smallest, fm_largest = largest\<rparr>"

record version_edit =
  ve_comparator :: bytes
  ve_log_number :: u64
  ve_prev_log_number :: u64
  ve_next_file_number :: u64
  ve_last_sequence :: u64
  has_comparator :: bool
  has_log_number :: bool
  has_prev_log_number :: bool
  has_next_file_number :: bool
  has_last_sequence :: bool
  compact_pointers :: "(int \<times> bytes) list"
  deleted_files :: "(int \<times> u64) list"
  new_files :: "(int \<times> file_meta) list"

definition ve_Clear :: "version_edit \<Rightarrow> version_edit" where
  "ve_Clear e = e\<lparr>ve_comparator := [], ve_log_number := 0, ve_prev_log_number := 0, ve_last_sequence := 0,
     ve_next_file_number := 0, has_comparator := False, has_log_number := False, has_prev_log_number := False,
     has_next_file_number := False, has_last_sequence := False, deleted_files := [], new_files := []\<rparr>"

definition make_VersionEdit :: version_edit where
  "make_VersionEdit = ve_Clear
     \<lparr>ve_comparator = [], ve_log_number = 0, ve_prev_log_number = 0, ve_next_file_number = 0, ve_last_sequence = 0,
      has_comparator = False, has_log_number = False, has_prev_log_number = False, has_next_file_number = False,
      has_last_sequence = False, compact_pointers = [], deleted_files = [], new_files = []\<rparr>"

definition SetComparatorName :: "slice \<Rightarrow> version_edit \<Rightarrow> version_edit" where
  "SetComparatorName name e = e\<lparr>has_comparator := True, ve_comparator := name\<rparr>"

definition SetLogNumber :: "u64 \<Rightarrow> version_edit \<Rightarrow> version_edit" where
  "SetLogNumber num e = e\<lparr>has_log_number := True, ve_log_number := num\<rparr>"

definition SetPrevLogNumber :: "u64 \<Rightarrow> version_edit \<Rightarrow> version_edit" where
  "SetPrevLogNumber num e = e\<lparr>has_prev_log_number := True, ve_prev_log_number := num\<rparr>"

definition SetNextFile :: "u64 \<Rightarrow> version_edit \<Rightarrow> version_edit" where
  "SetNextFile num e = e\<lparr>has_next_file_number := True, ve_next_file_number := num\<rparr>"

definition SetLastSequence :: "u64 \<Rightarrow> version_edit \<Rightarrow> version_edit" where
  "SetLastSequence seq e = e\<lparr>has_last_sequence := True, ve_last_sequence := seq\<rparr>"

definition SetCompactPointer :: "int \<Rightarrow> bytes \<Rightarrow> version_edit \<Rightarrow> version_edit" where
  "SetCompactPointer level key e = e\<lparr>compact_pointers := compact_pointers e @ [(level, key)]\<rparr>"

definition AddFile :: "int \<Rightarrow> u64 \<Rightarrow> u64 \<Rightarrow> bytes \<Rightarrow> bytes \<Rightarrow> version_edit \<Rightarrow> version_edit" where
  "AddFile level fnum fsize smallest largest e =
     e\<lparr>new_files := new_files e @ [(level, make_file_meta fnum fsize smallest largest)]\<rparr>"

text \<open>\<open>std::set::insert\<close> of a set in ascending order.\<close>

fun set_insert :: "'a :: linorder \<Rightarrow> 'a list \<Rightarrow> 'a list" where
  "set_insert x [] = [x]"
| "set_insert x (y # ys) = (if y < x then y # set_insert x ys else if x < y then x # y # ys else y # ys)"

definition DeleteFile :: "int \<Rightarrow> u64 \<Rightarrow> version_edit \<Rightarrow> version_edit" where
  "DeleteFile level fnum e = e\<lparr>deleted_files := set_insert (level, fnum) (deleted_files e)\<rparr>"

section \<open>Serialisation\<close>

definition kComparator :: u32 where "kComparator = 1"
definition kLogNumber :: u32 where "kLogNumber = 2"
definition kNextFileNumber :: u32 where "kNextFileNumber = 3"
definition kLastSequence :: u32 where "kLastSequence = 4"
definition kCompactPointer :: u32 where "kCompactPointer = 5"
definition kDeletedFile :: u32 where "kDeletedFile = 6"
definition kNewFile :: u32 where "kNewFile = 7"
definition kPrevLogNumber :: u32 where "kPrevLogNumber = 9"
definition kNumLevels :: u32 where "kNumLevels = 7"

lemmas edit_tags = kComparator_def kLogNumber_def kNextFileNumber_def kLastSequence_def kCompactPointer_def
  kDeletedFile_def kNewFile_def kPrevLogNumber_def

definition ve_EncodeTo :: "version_edit \<Rightarrow> bytes \<Rightarrow> bytes" where
  "ve_EncodeTo e dst =
     (let dst = (if has_comparator e then PutLengthPrefixedSlice (PutVarint32 dst kComparator) (ve_comparator e) else dst);
          dst = (if has_log_number e then PutVarint64 (PutVarint32 dst kLogNumber) (ve_log_number e) else dst);
          dst = (if has_prev_log_number e then PutVarint64 (PutVarint32 dst kPrevLogNumber) (ve_prev_log_number e) else dst);
          dst = (if has_next_file_number e then PutVarint64 (PutVarint32 dst kNextFileNumber) (ve_next_file_number e) else dst);
          dst = (if has_last_sequence e then PutVarint64 (PutVarint32 dst kLastSequence) (ve_last_sequence e) else dst);
          dst = fold (\<lambda>(level, key) dst.
            PutLengthPrefixedSlice (PutVarint32 (PutVarint32 dst kCompactPointer) (of_int level)) key) (compact_pointers e) dst;
          dst = fold (\<lambda>(level, number) dst.
            PutVarint64 (PutVarint32 (PutVarint32 dst kDeletedFile) (of_int level)) number) (deleted_files e) dst
      in fold (\<lambda>(level, f) dst.
           let dst = PutVarint32 (PutVarint32 dst kNewFile) (of_int level);
               dst = PutVarint64 (PutVarint64 dst (fm_number f)) (fm_file_size f)
           in PutLengthPrefixedSlice (PutLengthPrefixedSlice dst (fm_smallest f)) (fm_largest f)) (new_files e) dst)"

definition GetInternalKey :: "slice \<Rightarrow> bytes option \<times> slice" where
  "GetInternalKey input = GetLengthPrefixedSlice input"

definition GetLevel :: "slice \<Rightarrow> int option \<times> slice" where
  "GetLevel input = bind_some (GetVarint32 input) (\<lambda>v input. (if v < kNumLevels then Some (uint v) else None, input))"

text \<open>A round of the switch: the message if the field is bad.\<close>

definition decode_edit_field :: "u32 \<Rightarrow> version_edit \<Rightarrow> slice \<Rightarrow> string option \<times> version_edit \<times> slice" where
  "decode_edit_field tg e input =
     (if tg = kComparator then
        (case GetLengthPrefixedSlice input of
           (Some str, input) \<Rightarrow> (None, e\<lparr>ve_comparator := str, has_comparator := True\<rparr>, input)
         | (None, input) \<Rightarrow> (Some ''comparator name'', e, input))
      else if tg = kLogNumber then
        (case GetVarint64 input of
           (Some n, input) \<Rightarrow> (None, e\<lparr>ve_log_number := n, has_log_number := True\<rparr>, input)
         | (None, input) \<Rightarrow> (Some ''log number'', e, input))
      else if tg = kPrevLogNumber then
        (case GetVarint64 input of
           (Some n, input) \<Rightarrow> (None, e\<lparr>ve_prev_log_number := n, has_prev_log_number := True\<rparr>, input)
         | (None, input) \<Rightarrow> (Some ''previous log number'', e, input))
      else if tg = kNextFileNumber then
        (case GetVarint64 input of
           (Some n, input) \<Rightarrow> (None, e\<lparr>ve_next_file_number := n, has_next_file_number := True\<rparr>, input)
         | (None, input) \<Rightarrow> (Some ''next file number'', e, input))
      else if tg = kLastSequence then
        (case GetVarint64 input of
           (Some n, input) \<Rightarrow> (None, e\<lparr>ve_last_sequence := n, has_last_sequence := True\<rparr>, input)
         | (None, input) \<Rightarrow> (Some ''last sequence number'', e, input))
      else if tg = kCompactPointer then
        (case bind_some (GetLevel input) (\<lambda>level input. bind_some (GetInternalKey input) (\<lambda>key input.
            (Some (level, key), input))) of
           (Some p, input) \<Rightarrow> (None, e\<lparr>compact_pointers := compact_pointers e @ [p]\<rparr>, input)
         | (None, input) \<Rightarrow> (Some ''compaction pointer'', e, input))
      else if tg = kDeletedFile then
        (case bind_some (GetLevel input) (\<lambda>level input. bind_some (GetVarint64 input) (\<lambda>number input.
            (Some (level, number), input))) of
           (Some p, input) \<Rightarrow> (None, e\<lparr>deleted_files := set_insert p (deleted_files e)\<rparr>, input)
         | (None, input) \<Rightarrow> (Some ''deleted file'', e, input))
      else if tg = kNewFile then
        (case bind_some (GetLevel input) (\<lambda>level input. bind_some (GetVarint64 input) (\<lambda>number input.
            bind_some (GetVarint64 input) (\<lambda>fsize input. bind_some (GetInternalKey input) (\<lambda>smallest input.
            bind_some (GetInternalKey input) (\<lambda>largest input.
            (Some (level, make_file_meta number fsize smallest largest), input)))))) of
           (Some p, input) \<Rightarrow> (None, e\<lparr>new_files := new_files e @ [p]\<rparr>, input)
         | (None, input) \<Rightarrow> (Some ''new-file entry'', e, input))
      else (Some ''unknown tag'', e, input))"

lemma GetLevel_shorter: "GetLevel s = (Some l, rest) \<Longrightarrow> length rest < length s"
  by (auto simp: GetLevel_def bind_some_Some_iff split: if_splits dest: varint32.get_fails_or_shrinks)

lemma decode_edit_field_shorter: "decode_edit_field tg e input = (None, e', rest) \<Longrightarrow> length rest < length input"
  by (auto simp: decode_edit_field_def GetInternalKey_def bind_some_Some_iff split: if_splits prod.splits option.splits
      dest!: GetLevel_shorter prefixed.get_fails_or_shrinks varint64.get_fails_or_shrinks)

text \<open>The loop, with the test for bytes left over after it.\<close>

function decode_edit_fields :: "version_edit \<Rightarrow> slice \<Rightarrow> string option \<times> version_edit" where
  "decode_edit_fields e input =
     (case GetVarint32 input of
        (None, input) \<Rightarrow> (if input \<noteq> [] then Some ''invalid tag'' else None, e)
      | (Some tg, input) \<Rightarrow>
          (case decode_edit_field tg e input of
             (Some msg, e, input) \<Rightarrow> (Some msg, e)
           | (None, e, input) \<Rightarrow> decode_edit_fields e input))"
  by pat_completeness auto
termination
  by (relation "measure (\<lambda>(e, input). length input)")
    (auto dest!: varint32.get_fails_or_shrinks [OF sym] decode_edit_field_shorter [OF sym] intro: less_trans)

declare decode_edit_fields.simps [simp del]

definition ve_DecodeFrom :: "version_edit \<Rightarrow> slice \<Rightarrow> status \<times> version_edit" where
  "ve_DecodeFrom e src =
     (case decode_edit_fields (ve_Clear e) src of
        (None, e) \<Rightarrow> (status_OK, e)
      | (Some msg, e) \<Rightarrow> (status_Corruption (c_str ''VersionEdit'') (c_str msg), e))"

section \<open>The fields of an edit\<close>

datatype edit_field =
    F_comparator slice | F_log_number u64 | F_prev_log_number u64 | F_next_file u64 | F_last_sequence u64
  | F_compact_pointer int bytes | F_deleted_file int u64 | F_new_file int u64 u64 bytes bytes

fun field_bytes :: "edit_field \<Rightarrow> bytes" where
  "field_bytes (F_comparator s) = PutLengthPrefixedSlice (PutVarint32 [] kComparator) s"
| "field_bytes (F_log_number n) = PutVarint64 (PutVarint32 [] kLogNumber) n"
| "field_bytes (F_prev_log_number n) = PutVarint64 (PutVarint32 [] kPrevLogNumber) n"
| "field_bytes (F_next_file n) = PutVarint64 (PutVarint32 [] kNextFileNumber) n"
| "field_bytes (F_last_sequence n) = PutVarint64 (PutVarint32 [] kLastSequence) n"
| "field_bytes (F_compact_pointer l k) = PutLengthPrefixedSlice (PutVarint32 (PutVarint32 [] kCompactPointer) (of_int l)) k"
| "field_bytes (F_deleted_file l n) = PutVarint64 (PutVarint32 (PutVarint32 [] kDeletedFile) (of_int l)) n"
| "field_bytes (F_new_file l n z a b) =
     PutLengthPrefixedSlice (PutLengthPrefixedSlice
       (PutVarint64 (PutVarint64 (PutVarint32 (PutVarint32 [] kNewFile) (of_int l)) n) z) a) b"

fun set_field :: "edit_field \<Rightarrow> version_edit \<Rightarrow> version_edit" where
  "set_field (F_comparator s) e = SetComparatorName s e"
| "set_field (F_log_number n) e = SetLogNumber n e"
| "set_field (F_prev_log_number n) e = SetPrevLogNumber n e"
| "set_field (F_next_file n) e = SetNextFile n e"
| "set_field (F_last_sequence n) e = SetLastSequence n e"
| "set_field (F_compact_pointer l k) e = SetCompactPointer l k e"
| "set_field (F_deleted_file l n) e = DeleteFile l n e"
| "set_field (F_new_file l n z a b) e = AddFile l n z a b e"

fun field_ok :: "edit_field \<Rightarrow> bool" where
  "field_ok (F_comparator s) \<longleftrightarrow> length s < 2 ^ 32"
| "field_ok (F_compact_pointer l k) \<longleftrightarrow> 0 \<le> l \<and> l < 7 \<and> length k < 2 ^ 32"
| "field_ok (F_deleted_file l n) \<longleftrightarrow> 0 \<le> l \<and> l < 7"
| "field_ok (F_new_file l n z a b) \<longleftrightarrow> 0 \<le> l \<and> l < 7 \<and> length a < 2 ^ 32 \<and> length b < 2 ^ 32"
| "field_ok _ \<longleftrightarrow> True"

definition edit_fields :: "version_edit \<Rightarrow> edit_field list" where
  "edit_fields e =
     (if has_comparator e then [F_comparator (ve_comparator e)] else []) @
     (if has_log_number e then [F_log_number (ve_log_number e)] else []) @
     (if has_prev_log_number e then [F_prev_log_number (ve_prev_log_number e)] else []) @
     (if has_next_file_number e then [F_next_file (ve_next_file_number e)] else []) @
     (if has_last_sequence e then [F_last_sequence (ve_last_sequence e)] else []) @
     map (\<lambda>(l, k). F_compact_pointer l k) (compact_pointers e) @
     map (\<lambda>(l, n). F_deleted_file l n) (deleted_files e) @
     map (\<lambda>(l, f). F_new_file l (fm_number f) (fm_file_size f) (fm_smallest f) (fm_largest f)) (new_files e)"

lemmas put_defs = PutVarint32_def PutVarint64_def PutLengthPrefixedSlice_def

lemma get32: "GetVarint32 (PutVarint32 [] v @ rest) = (Some v, rest)" by (simp add: varint32.get_put)
lemma get64: "GetVarint64 (PutVarint64 [] v @ rest) = (Some v, rest)" by (simp add: varint64.get_put)

lemma get_level: "0 \<le> l \<Longrightarrow> l < 7 \<Longrightarrow> GetLevel (PutVarint32 [] (of_int l) @ rest) = (Some l, rest)"
proof -
  assume l: "0 \<le> l" "l < 7"
  then have u: "uint (word_of_int l :: u32) = l" by (simp add: unsigned_of_int take_bit_int_eq_self)
  then have "(word_of_int l :: u32) < kNumLevels" using l by (simp add: kNumLevels_def word_less_def)
  then show ?thesis using u by (simp add: GetLevel_def get32)
qed

lemma decode_field_bytes:
  assumes "field_ok x"
  shows "decode_edit_fields e (field_bytes x @ rest) = decode_edit_fields (set_field x e) rest"
proof -
  note d = decode_edit_field_def edit_tags GetInternalKey_def get64 get_level prefixed.get_put
  have split: "\<exists>t body. field_bytes x = PutVarint32 [] t @ body \<and> decode_edit_field t e (body @ rest) = (None, set_field x e, rest)"
  proof (cases x)
    case (F_comparator s)
    then show ?thesis using assms
      by (intro exI [of _ kComparator] exI [of _ "PutLengthPrefixedSlice [] s"] conjI)
        (simp add: put_defs, simp add: d SetComparatorName_def)
  next
    case (F_log_number n)
    then show ?thesis 
      by (intro exI [of _ kLogNumber] exI [of _ "PutVarint64 [] n"] conjI) (simp add: put_defs, simp add: d SetLogNumber_def)
  next
    case (F_prev_log_number n)
    then show ?thesis 
      by (intro exI [of _ kPrevLogNumber] exI [of _ "PutVarint64 [] n"] conjI) (simp add: put_defs, simp add: d SetPrevLogNumber_def)
  next
    case (F_next_file n)
    then show ?thesis 
      by (intro exI [of _ kNextFileNumber] exI [of _ "PutVarint64 [] n"] conjI) (simp add: put_defs, simp add: d SetNextFile_def)
  next
    case (F_last_sequence n)
    then show ?thesis 
      by (intro exI [of _ kLastSequence] exI [of _ "PutVarint64 [] n"] conjI) (simp add: put_defs, simp add: d SetLastSequence_def)
  next
    case (F_compact_pointer l k)
    let ?body = "PutVarint32 [] (of_int l) @ PutLengthPrefixedSlice [] k"
    have "field_bytes x = PutVarint32 [] kCompactPointer @ ?body"
      by (simp add: F_compact_pointer put_defs)
    then show ?thesis using assms F_compact_pointer
      by (intro exI [of _ kCompactPointer] exI [of _ ?body]) (simp add: d SetCompactPointer_def)
  next
    case (F_deleted_file l n)
    let ?body = "PutVarint32 [] (of_int l) @ PutVarint64 [] n"
    have "field_bytes x = PutVarint32 [] kDeletedFile @ ?body"
      by (simp add: F_deleted_file put_defs)
    then show ?thesis using assms F_deleted_file
      by (intro exI [of _ kDeletedFile] exI [of _ ?body]) (simp add: d DeleteFile_def)
  next
    case (F_new_file l n z a b)
    let ?body = "PutVarint32 [] (of_int l) @ PutVarint64 [] n @ PutVarint64 [] z @ PutLengthPrefixedSlice [] a @
      PutLengthPrefixedSlice [] b"
    have "field_bytes x = PutVarint32 [] kNewFile @ ?body"
      by (simp add: F_new_file put_defs)
    then show ?thesis using assms F_new_file
      by (intro exI [of _ kNewFile] exI [of _ ?body]) (simp add: d AddFile_def)
  qed
  then obtain t body where "field_bytes x = PutVarint32 [] t @ body" "decode_edit_field t e (body @ rest) = (None, set_field x e, rest)"
    by blast
  then show ?thesis by (subst decode_edit_fields.simps) (simp add: get32)
qed

lemma decode_fields_bytes:
  "list_all field_ok xs \<Longrightarrow> decode_edit_fields e (concat (map field_bytes xs)) = (None, fold set_field xs e)"
proof (induction xs arbitrary: e)
  case Nil
  have "GetVarint32 [] = (None, [])" by (simp add: GetVarint32_def GetVarint32Ptr_eq)
  then show ?case by (subst decode_edit_fields.simps) simp
next
  case (Cons x xs)
  then show ?case by (simp add: decode_field_bytes)
qed

lemma fold_puts:
  "fold (\<lambda>(l, k) dst. PutLengthPrefixedSlice (PutVarint32 (PutVarint32 dst kCompactPointer) (of_int l)) k) cs dst =
     dst @ concat (map field_bytes (map (\<lambda>(l, k). F_compact_pointer l k) cs))"
  "fold (\<lambda>(l, n) dst. PutVarint64 (PutVarint32 (PutVarint32 dst kDeletedFile) (of_int l)) n) ds dst =
     dst @ concat (map field_bytes (map (\<lambda>(l, n). F_deleted_file l n) ds))"
  "fold (\<lambda>(l, f) dst.
       let dst = PutVarint32 (PutVarint32 dst kNewFile) (of_int l);
           dst = PutVarint64 (PutVarint64 dst (fm_number f)) (fm_file_size f)
       in PutLengthPrefixedSlice (PutLengthPrefixedSlice dst (fm_smallest f)) (fm_largest f)) fs dst =
     dst @ concat (map field_bytes
       (map (\<lambda>(l, f). F_new_file l (fm_number f) (fm_file_size f) (fm_smallest f) (fm_largest f)) fs))"
proof -
  have 1: "PutLengthPrefixedSlice (PutVarint32 (PutVarint32 dst kCompactPointer) (of_int l)) k =
      dst @ field_bytes (F_compact_pointer l k)" for dst l k
    by (simp add: put_defs)
  have 2: "PutVarint64 (PutVarint32 (PutVarint32 dst kDeletedFile) (of_int l)) n = dst @ field_bytes (F_deleted_file l n)" for dst l n
    by (simp add: put_defs)
  have 3: "PutLengthPrefixedSlice (PutLengthPrefixedSlice
        (PutVarint64 (PutVarint64 (PutVarint32 (PutVarint32 dst kNewFile) (of_int l)) n) z) a) b =
      dst @ field_bytes (F_new_file l n z a b)" for dst l n z a b
    by (simp add: put_defs)
  show "fold (\<lambda>(l, k) dst. PutLengthPrefixedSlice (PutVarint32 (PutVarint32 dst kCompactPointer) (of_int l)) k) cs dst =
     dst @ concat (map field_bytes (map (\<lambda>(l, k). F_compact_pointer l k) cs))"
    by (induction cs arbitrary: dst) (auto simp: 1 simp del: field_bytes.simps)
  show "fold (\<lambda>(l, n) dst. PutVarint64 (PutVarint32 (PutVarint32 dst kDeletedFile) (of_int l)) n) ds dst =
     dst @ concat (map field_bytes (map (\<lambda>(l, n). F_deleted_file l n) ds))"
    by (induction ds arbitrary: dst) (auto simp: 2 simp del: field_bytes.simps)
  show "fold (\<lambda>(l, f) dst.
       let dst = PutVarint32 (PutVarint32 dst kNewFile) (of_int l);
           dst = PutVarint64 (PutVarint64 dst (fm_number f)) (fm_file_size f)
       in PutLengthPrefixedSlice (PutLengthPrefixedSlice dst (fm_smallest f)) (fm_largest f)) fs dst =
     dst @ concat (map field_bytes
       (map (\<lambda>(l, f). F_new_file l (fm_number f) (fm_file_size f) (fm_smallest f) (fm_largest f)) fs))"
    by (induction fs arbitrary: dst) (auto simp: 3 Let_def simp del: field_bytes.simps)
qed

lemma EncodeTo_fields: "ve_EncodeTo e dst = dst @ concat (map field_bytes (edit_fields e))"
proof -
  have c: "(if b then PutLengthPrefixedSlice (PutVarint32 dst kComparator) v else dst) =
      dst @ concat (map field_bytes (if b then [F_comparator v] else []))" for b dst v
    by (simp add: put_defs)
  have n: "(if b then PutVarint64 (PutVarint32 dst kLogNumber) v else dst) =
      dst @ concat (map field_bytes (if b then [F_log_number v] else []))"
    "(if b then PutVarint64 (PutVarint32 dst kPrevLogNumber) v else dst) =
      dst @ concat (map field_bytes (if b then [F_prev_log_number v] else []))"
    "(if b then PutVarint64 (PutVarint32 dst kNextFileNumber) v else dst) =
      dst @ concat (map field_bytes (if b then [F_next_file v] else []))"
    "(if b then PutVarint64 (PutVarint32 dst kLastSequence) v else dst) =
      dst @ concat (map field_bytes (if b then [F_last_sequence v] else []))" for b dst v
    by (simp_all add: put_defs)
  show ?thesis
    unfolding ve_EncodeTo_def edit_fields_def Let_def c n fold_puts [unfolded Let_def] map_append concat_append append_assoc ..
qed

section \<open>Well-formed edits\<close>

text \<open>The levels exist, the keys are short, and what is not set has its first value.\<close>

definition edit_ok :: "version_edit \<Rightarrow> bool" where
  "edit_ok e \<longleftrightarrow> list_all field_ok (edit_fields e) \<and> sorted_wrt (<) (deleted_files e) \<and>
     list_all (\<lambda>(l, f). f = make_file_meta (fm_number f) (fm_file_size f) (fm_smallest f) (fm_largest f)) (new_files e) \<and>
     (\<not> has_comparator e \<longrightarrow> ve_comparator e = []) \<and> (\<not> has_log_number e \<longrightarrow> ve_log_number e = 0) \<and>
     (\<not> has_prev_log_number e \<longrightarrow> ve_prev_log_number e = 0) \<and> (\<not> has_next_file_number e \<longrightarrow> ve_next_file_number e = 0) \<and>
     (\<not> has_last_sequence e \<longrightarrow> ve_last_sequence e = 0)"

lemma set_insert_set [simp]: "set (set_insert x ys) = insert x (set ys)"
  by (induction ys) (auto simp: not_less)

lemma set_insert_sorted: "sorted_wrt (<) ys \<Longrightarrow> sorted_wrt (<) (set_insert x ys)"
  by (induction ys) (auto intro: less_trans)

lemma set_insert_last: "\<forall>y \<in> set ys. y < x \<Longrightarrow> set_insert x ys = ys @ [x]"
  by (induction ys) auto

text \<open>Every edit that is made by the setters is well-formed.\<close>

lemma edit_ok_make: "edit_ok make_VersionEdit"
  by (simp add: edit_ok_def make_VersionEdit_def ve_Clear_def edit_fields_def)

lemma fields_ok:
  "list_all field_ok (edit_fields e) \<longleftrightarrow>
     (has_comparator e \<longrightarrow> length (ve_comparator e) < 2 ^ 32) \<and>
     list_all (\<lambda>(l, k). field_ok (F_compact_pointer l k)) (compact_pointers e) \<and>
     list_all (\<lambda>(l, n). field_ok (F_deleted_file l n)) (deleted_files e) \<and>
     list_all (\<lambda>(l, f). field_ok (F_new_file l (fm_number f) (fm_file_size f) (fm_smallest f) (fm_largest f))) (new_files e)"
  by (simp add: edit_fields_def list.pred_map comp_def case_prod_unfold)

lemma set_insert_all: "list_all P (set_insert x ys) \<longleftrightarrow> P x \<and> list_all P ys"
  by (auto simp: list_all_iff)

lemma edit_ok_set: "edit_ok e \<Longrightarrow> field_ok x \<Longrightarrow> edit_ok (set_field x e)"
  by (cases x)
    (simp_all add: edit_ok_def fields_ok SetComparatorName_def SetLogNumber_def SetPrevLogNumber_def SetNextFile_def
      SetLastSequence_def SetCompactPointer_def DeleteFile_def AddFile_def make_file_meta_def set_insert_all set_insert_sorted)

lemma fold_set_deleted:
  "sorted_wrt (<) (deleted_files e @ ds) \<Longrightarrow>
     fold set_field (map (\<lambda>(l, n). F_deleted_file l n) ds) e = e\<lparr>deleted_files := deleted_files e @ ds\<rparr>"
proof (induction ds arbitrary: e)
  case (Cons d ds)
  obtain l n where d: "d = (l, n)" by (cases d)
  have "set_insert d (deleted_files e) = deleted_files e @ [d]"
    by (rule set_insert_last) (use Cons.prems in \<open>auto simp: sorted_wrt_append\<close>)
  then have "DeleteFile l n e = e\<lparr>deleted_files := deleted_files e @ [d]\<rparr>" by (simp add: DeleteFile_def d)
  moreover have "sorted_wrt (<) (deleted_files (e\<lparr>deleted_files := deleted_files e @ [d]\<rparr>) @ ds)" using Cons.prems by simp
  ultimately show ?case using Cons.IH by (simp add: d)
qed simp

lemma fold_set_pointers:
  "fold set_field (map (\<lambda>(l, k). F_compact_pointer l k) cs) e = e\<lparr>compact_pointers := compact_pointers e @ cs\<rparr>"
  by (induction cs arbitrary: e) (auto simp: SetCompactPointer_def)

lemma fold_set_new:
  "list_all (\<lambda>(l, f). f = make_file_meta (fm_number f) (fm_file_size f) (fm_smallest f) (fm_largest f)) fs \<Longrightarrow>
     fold set_field (map (\<lambda>(l, f). F_new_file l (fm_number f) (fm_file_size f) (fm_smallest f) (fm_largest f)) fs) e =
       e\<lparr>new_files := new_files e @ fs\<rparr>"
  by (induction fs arbitrary: e) (auto simp: AddFile_def)

lemma set_all_fields:
  assumes "edit_ok e"
  shows "fold set_field (edit_fields e) (ve_Clear e0) = e\<lparr>compact_pointers := compact_pointers e0 @ compact_pointers e\<rparr>"
proof -
  have w: "sorted_wrt (<) (deleted_files e)"
    "list_all (\<lambda>(l, f). f = make_file_meta (fm_number f) (fm_file_size f) (fm_smallest f) (fm_largest f)) (new_files e)"
    using assms by (simp_all add: edit_ok_def)
  define e1 where "e1 = (ve_Clear e0)\<lparr>ve_comparator := ve_comparator e, has_comparator := has_comparator e\<rparr>"
  define e2 where "e2 = e1\<lparr>ve_log_number := ve_log_number e, has_log_number := has_log_number e\<rparr>"
  define e3 where "e3 = e2\<lparr>ve_prev_log_number := ve_prev_log_number e, has_prev_log_number := has_prev_log_number e\<rparr>"
  define e4 where "e4 = e3\<lparr>ve_next_file_number := ve_next_file_number e, has_next_file_number := has_next_file_number e\<rparr>"
  define e5 where "e5 = e4\<lparr>ve_last_sequence := ve_last_sequence e, has_last_sequence := has_last_sequence e\<rparr>"
  note defs = e1_def e2_def e3_def e4_def e5_def ve_Clear_def
  note set_defs = SetComparatorName_def SetLogNumber_def SetPrevLogNumber_def SetNextFile_def SetLastSequence_def
  have "fold set_field (if has_comparator e then [F_comparator (ve_comparator e)] else []) (ve_Clear e0) = e1"
    using assms by (cases "has_comparator e") (simp_all add: edit_ok_def e1_def ve_Clear_def set_defs)
  moreover have "fold set_field (if has_log_number e then [F_log_number (ve_log_number e)] else []) e1 = e2"
    using assms by (cases "has_log_number e") (simp_all add: edit_ok_def e1_def e2_def ve_Clear_def set_defs)
  moreover have "fold set_field (if has_prev_log_number e then [F_prev_log_number (ve_prev_log_number e)] else []) e2 = e3"
    using assms by (cases "has_prev_log_number e") (simp_all add: edit_ok_def e1_def e2_def e3_def ve_Clear_def set_defs)
  moreover have "fold set_field (if has_next_file_number e then [F_next_file (ve_next_file_number e)] else []) e3 = e4"
    using assms by (cases "has_next_file_number e") (simp_all add: edit_ok_def e1_def e2_def e3_def e4_def ve_Clear_def set_defs)
  moreover have "fold set_field (if has_last_sequence e then [F_last_sequence (ve_last_sequence e)] else []) e4 = e5"
    using assms by (cases "has_last_sequence e") (simp_all add: edit_ok_def defs set_defs)
  moreover have "fold set_field (map (\<lambda>(l, k). F_compact_pointer l k) (compact_pointers e)) e5 =
      e5\<lparr>compact_pointers := compact_pointers e0 @ compact_pointers e\<rparr>"
    unfolding fold_set_pointers by (simp add: defs)
  moreover have "fold set_field (map (\<lambda>(l, n). F_deleted_file l n) (deleted_files e))
      (e5\<lparr>compact_pointers := compact_pointers e0 @ compact_pointers e\<rparr>) =
      e5\<lparr>compact_pointers := compact_pointers e0 @ compact_pointers e, deleted_files := deleted_files e\<rparr>"
    by (subst fold_set_deleted) (use w(1) in \<open>simp_all add: defs\<close>)
  moreover have "fold set_field (map (\<lambda>(l, f). F_new_file l (fm_number f) (fm_file_size f) (fm_smallest f) (fm_largest f)) (new_files e))
      (e5\<lparr>compact_pointers := compact_pointers e0 @ compact_pointers e, deleted_files := deleted_files e\<rparr>) =
      e5\<lparr>compact_pointers := compact_pointers e0 @ compact_pointers e, deleted_files := deleted_files e, new_files := new_files e\<rparr>"
    unfolding fold_set_new [OF w(2)] by (simp add: defs)
  moreover have "e5\<lparr>compact_pointers := compact_pointers e0 @ compact_pointers e, deleted_files := deleted_files e,
      new_files := new_files e\<rparr> = e\<lparr>compact_pointers := compact_pointers e0 @ compact_pointers e\<rparr>"
    by (cases e) (simp add: defs)
  ultimately show ?thesis unfolding edit_fields_def fold_append comp_apply by simp
qed

text \<open>
  C35. Round trip of an edit: what \<open>EncodeTo\<close> writes of a well-formed edit \<open>DecodeFrom\<close> reads back into
  any edit \<open>e0\<close>, which is equal to it afterwards, but for the compaction pointers: those that \<open>e0\<close>
  had before stay in front of those that were read, since \<open>Clear\<close> does not remove them.
\<close>
theorem version_edit_roundtrip:
  assumes "edit_ok e"
  shows "ve_DecodeFrom e0 (ve_EncodeTo e []) =
    (status_OK, e\<lparr>compact_pointers := compact_pointers e0 @ compact_pointers e\<rparr>)"
proof -
  have "list_all field_ok (edit_fields e)" using assms by (simp add: edit_ok_def)
  from decode_fields_bytes [OF this, of "ve_Clear e0"] show ?thesis
    by (simp add: ve_DecodeFrom_def EncodeTo_fields set_all_fields [OF assms])
qed

lemma version_edit_roundtrip_witness:
  "ve_DecodeFrom (SetCompactPointer 2 [5] make_VersionEdit)
     (ve_EncodeTo (DeleteFile 1 7 (AddFile 0 9 4096 [1] [2] (SetLogNumber 3 make_VersionEdit))) []) =
   (status_OK, (DeleteFile 1 7 (AddFile 0 9 4096 [1] [2] (SetLogNumber 3 make_VersionEdit)))\<lparr>compact_pointers := [(2, [5])]\<rparr>)"
proof -
  have "edit_ok (DeleteFile 1 7 (AddFile 0 9 4096 [1] [2] (SetLogNumber 3 make_VersionEdit)))"
    using edit_ok_set [OF edit_ok_set [OF edit_ok_set [OF edit_ok_make]],
        of "F_log_number 3" "F_new_file 0 9 4096 [1] [2]" "F_deleted_file 1 7"] by simp
  from version_edit_roundtrip [OF this, of "SetCompactPointer 2 [5] make_VersionEdit"] show ?thesis
    by (simp add: make_VersionEdit_def SetCompactPointer_def ve_Clear_def DeleteFile_def AddFile_def SetLogNumber_def)
qed

end
