(* ===== verification/LdbCache.thy ===== *)
theory LdbCache
  imports LdbBloom
begin

text \<open>
  The block cache: \<open>leveldb-library/util/cache.cc\<close>. The entries are handles in a heap, linked in two
  rings (the entries in use and the others, oldest first) and in the chains of a hash table. A
  pointer is an address, \<open>None\<close> the null pointer; the heads of the rings are handles as well. A call
  that goes through a missing pointer, or does not end, is \<open>None\<close>. \<open>malloc\<close> takes the next address
  and does not fail; the deleter of an entry is recorded when it is called.

  The lemmas here show what the operations on rings and chains do to the lists they stand for.
\<close>

section \<open>Handles\<close>

type_synonym addr = nat

record 'v lru_handle =
  h_value :: 'v
  h_next_hash :: "addr option"
  h_next :: "addr option"
  h_prev :: "addr option"
  h_charge :: u64
  h_key :: slice
  h_in_cache :: bool
  h_refs :: u32
  h_hash :: u32

type_synonym 'v handles = "addr \<Rightarrow> 'v lru_handle option"

definition put :: "'v handles \<Rightarrow> addr \<Rightarrow> ('v lru_handle \<Rightarrow> 'v lru_handle) \<Rightarrow> 'v handles option" where
  "put H a f = map_option (\<lambda>h. H(a \<mapsto> f h)) (H a)"

section \<open>The hash table\<close>

record handle_table =
  t_length :: u32
  t_elems :: u32
  t_list :: "addr option list"

text \<open>A \<open>LRUHandle**\<close>: a bucket or the link of a handle.\<close>

datatype slot = Bucket nat | Next_hash addr

fun read_slot :: "'v handles \<Rightarrow> handle_table \<Rightarrow> slot \<Rightarrow> addr option option" where
  "read_slot H t (Bucket i) = (if i < length (t_list t) then Some (t_list t ! i) else None)"
| "read_slot H t (Next_hash a) = map_option h_next_hash (H a)"

fun write_slot :: "'v handles \<Rightarrow> handle_table \<Rightarrow> slot \<Rightarrow> addr option \<Rightarrow> ('v handles \<times> handle_table) option" where
  "write_slot H t (Bucket i) p = (if i < length (t_list t) then Some (H, t\<lparr>t_list := (t_list t)[i := p]\<rparr>) else None)"
| "write_slot H t (Next_hash a) p = map_option (\<lambda>H. (H, t)) (put H a (h_next_hash_update (\<lambda>_. p)))"

partial_function (option) find_slot ::
  "'v handles \<Rightarrow> handle_table \<Rightarrow> slice \<Rightarrow> u32 \<Rightarrow> slot \<Rightarrow> slot option" where
  "find_slot H t key hash pp =
     Option.bind (read_slot H t pp) (\<lambda>p.
       case p of
         None \<Rightarrow> Some pp
       | Some a \<Rightarrow>
           Option.bind (H a) (\<lambda>h.
             if h_hash h \<noteq> hash \<or> \<not> slice_eq key (h_key h) then find_slot H t key hash (Next_hash a) else Some pp))"

definition FindPointer :: "'v handles \<Rightarrow> handle_table \<Rightarrow> slice \<Rightarrow> u32 \<Rightarrow> slot option" where
  "FindPointer H t key hash = find_slot H t key hash (Bucket (unat (hash AND (t_length t - 1))))"

definition table_Lookup :: "'v handles \<Rightarrow> handle_table \<Rightarrow> slice \<Rightarrow> u32 \<Rightarrow> addr option option" where
  "table_Lookup H t key hash = Option.bind (FindPointer H t key hash) (read_slot H t)"

partial_function (option) grow_length :: "u32 \<Rightarrow> u32 \<Rightarrow> u32 option" where
  "grow_length elems new_length = (if new_length < elems then grow_length elems (new_length * 2) else Some new_length)"

partial_function (option) rehash_chain ::
  "u32 \<Rightarrow> 'v handles \<Rightarrow> addr option list \<Rightarrow> addr option \<Rightarrow> ('v handles \<times> addr option list) option" where
  "rehash_chain new_length H new_list p =
     (case p of
        None \<Rightarrow> Some (H, new_list)
      | Some a \<Rightarrow>
          Option.bind (H a) (\<lambda>h.
            let nxt = h_next_hash h;
                i = unat (h_hash h AND (new_length - 1))
            in if i < length new_list
               then rehash_chain new_length (H(a \<mapsto> h\<lparr>h_next_hash := new_list ! i\<rparr>)) (new_list[i := Some a]) nxt
               else None))"

fun rehash_buckets ::
  "u32 \<Rightarrow> 'v handles \<Rightarrow> addr option list \<Rightarrow> addr option list \<Rightarrow> ('v handles \<times> addr option list) option" where
  "rehash_buckets new_length H new_list [] = Some (H, new_list)"
| "rehash_buckets new_length H new_list (p # ps) =
     Option.bind (rehash_chain new_length H new_list p) (\<lambda>(H, new_list). rehash_buckets new_length H new_list ps)"

definition Resize :: "'v handles \<Rightarrow> handle_table \<Rightarrow> ('v handles \<times> handle_table) option" where
  "Resize H t =
     Option.bind (grow_length (t_elems t) 4) (\<lambda>new_length.
       map_option (\<lambda>(H, new_list). (H, t\<lparr>t_list := new_list, t_length := new_length\<rparr>))
         (rehash_buckets new_length H (replicate (unat new_length) None) (take (unat (t_length t)) (t_list t))))"

definition table_Insert :: "'v handles \<Rightarrow> handle_table \<Rightarrow> addr \<Rightarrow> (addr option \<times> 'v handles \<times> handle_table) option" where
  "table_Insert H t e =
     Option.bind (H e) (\<lambda>h.
       Option.bind (FindPointer H t (h_key h) (h_hash h)) (\<lambda>pp.
         Option.bind (read_slot H t pp) (\<lambda>old.
           Option.bind (case old of None \<Rightarrow> Some None | Some a \<Rightarrow> map_option h_next_hash (H a)) (\<lambda>nxt.
             Option.bind (write_slot (H(e \<mapsto> h\<lparr>h_next_hash := nxt\<rparr>)) t pp (Some e)) (\<lambda>(H, t).
               if old = None then
                 let t = t\<lparr>t_elems := t_elems t + 1\<rparr>
                 in map_option (Pair old) (if t_length t < t_elems t then Resize H t else Some (H, t))
               else Some (old, H, t))))))"

definition table_Remove ::
  "'v handles \<Rightarrow> handle_table \<Rightarrow> slice \<Rightarrow> u32 \<Rightarrow> (addr option \<times> 'v handles \<times> handle_table) option" where
  "table_Remove H t key hash =
     Option.bind (FindPointer H t key hash) (\<lambda>pp.
       Option.bind (read_slot H t pp) (\<lambda>result.
         case result of
           None \<Rightarrow> Some (None, H, t)
         | Some a \<Rightarrow>
             Option.bind (H a) (\<lambda>h.
               map_option (\<lambda>(H, t). (result, H, t\<lparr>t_elems := t_elems t - 1\<rparr>)) (write_slot H t pp (h_next_hash h)))))"

section \<open>The rings\<close>

definition LRU_Remove :: "addr \<Rightarrow> 'v handles \<Rightarrow> 'v handles option" where
  "LRU_Remove e H =
     Option.bind (H e) (\<lambda>h.
       Option.bind (h_next h) (\<lambda>n.
         Option.bind (put H n (h_prev_update (\<lambda>_. h_prev h))) (\<lambda>H.
           Option.bind (H e) (\<lambda>h.
             Option.bind (h_prev h) (\<lambda>p. put H p (h_next_update (\<lambda>_. h_next h)))))))"

definition LRU_Append :: "addr \<Rightarrow> addr \<Rightarrow> 'v handles \<Rightarrow> 'v handles option" where
  "LRU_Append ring e H =
     Option.bind (put H e (h_next_update (\<lambda>_. Some ring))) (\<lambda>H.
       Option.bind (H ring) (\<lambda>l.
         Option.bind (put H e (h_prev_update (\<lambda>_. h_prev l))) (\<lambda>H.
           Option.bind (h_prev l) (\<lambda>p.
             Option.bind (put H p (h_next_update (\<lambda>_. Some e))) (\<lambda>H.
               Option.bind (H e) (\<lambda>h.
                 Option.bind (h_next h) (\<lambda>n. put H n (h_prev_update (\<lambda>_. Some e)))))))))"

section \<open>The cache\<close>

record 'v lru_cache =
  c_handles :: "'v handles"
  c_capacity :: u64
  c_usage :: u64
  c_table :: handle_table
  c_brk :: addr
  c_deleted :: "(slice \<times> 'v) list"

definition lru_head :: addr where "lru_head = 0"
definition in_use_head :: addr where "in_use_head = 1"

text \<open>The head of an empty ring; its value is never looked at.\<close>

definition make_head :: "'v \<Rightarrow> addr \<Rightarrow> 'v lru_handle" where
  "make_head junk ring = \<lparr>h_value = junk, h_next_hash = None, h_next = Some ring, h_prev = Some ring, h_charge = 0,
     h_key = [], h_in_cache = False, h_refs = 0, h_hash = 0\<rparr>"

definition make_LRUCache :: "'v \<Rightarrow> u64 \<Rightarrow> 'v lru_cache option" where
  "make_LRUCache junk capacity =
     (let H = [lru_head \<mapsto> make_head junk lru_head, in_use_head \<mapsto> make_head junk in_use_head]
      in map_option (\<lambda>(H, t). \<lparr>c_handles = H, c_capacity = capacity, c_usage = 0, c_table = t, c_brk = 2, c_deleted = []\<rparr>)
        (Resize H \<lparr>t_length = 0, t_elems = 0, t_list = []\<rparr>))"

definition cache_Ref :: "addr \<Rightarrow> 'v lru_cache \<Rightarrow> 'v lru_cache option" where
  "cache_Ref e c =
     Option.bind (c_handles c e) (\<lambda>h.
       Option.bind
         (if h_refs h = 1 \<and> h_in_cache h
          then Option.bind (LRU_Remove e (c_handles c)) (LRU_Append in_use_head e) else Some (c_handles c))
         (\<lambda>H. map_option (\<lambda>H. c\<lparr>c_handles := H\<rparr>) (put H e (\<lambda>h. h\<lparr>h_refs := h_refs h + 1\<rparr>))))"

definition cache_Unref :: "addr \<Rightarrow> 'v lru_cache \<Rightarrow> 'v lru_cache option" where
  "cache_Unref e c =
     Option.bind (put (c_handles c) e (\<lambda>h. h\<lparr>h_refs := h_refs h - 1\<rparr>)) (\<lambda>H.
       Option.bind (H e) (\<lambda>h.
         if h_refs h = 0 then
           Some (c\<lparr>c_handles := H(e := None), c_deleted := c_deleted c @ [(h_key h, h_value h)]\<rparr>)
         else if h_in_cache h \<and> h_refs h = 1 then
           map_option (\<lambda>H. c\<lparr>c_handles := H\<rparr>) (Option.bind (LRU_Remove e H) (LRU_Append lru_head e))
         else Some (c\<lparr>c_handles := H\<rparr>)))"

definition FinishErase :: "addr option \<Rightarrow> 'v lru_cache \<Rightarrow> (bool \<times> 'v lru_cache) option" where
  "FinishErase p c =
     (case p of
        None \<Rightarrow> Some (False, c)
      | Some e \<Rightarrow>
          Option.bind (LRU_Remove e (c_handles c)) (\<lambda>H.
            Option.bind (put H e (\<lambda>h. h\<lparr>h_in_cache := False\<rparr>)) (\<lambda>H.
              Option.bind (H e) (\<lambda>h.
                map_option (Pair True)
                  (cache_Unref e (c\<lparr>c_handles := H, c_usage := c_usage c - h_charge h\<rparr>))))))"

definition cache_Lookup :: "slice \<Rightarrow> u32 \<Rightarrow> 'v lru_cache \<Rightarrow> (addr option \<times> 'v lru_cache) option" where
  "cache_Lookup key hash c =
     Option.bind (table_Lookup (c_handles c) (c_table c) key hash) (\<lambda>p.
       case p of
         None \<Rightarrow> Some (None, c)
       | Some e \<Rightarrow> map_option (Pair (Some e)) (cache_Ref e c))"

definition cache_Release :: "addr \<Rightarrow> 'v lru_cache \<Rightarrow> 'v lru_cache option" where
  "cache_Release handle c = cache_Unref handle c"

definition cache_Erase :: "slice \<Rightarrow> u32 \<Rightarrow> 'v lru_cache \<Rightarrow> 'v lru_cache option" where
  "cache_Erase key hash c =
     Option.bind (table_Remove (c_handles c) (c_table c) key hash) (\<lambda>(p, H, t).
       map_option snd (FinishErase p (c\<lparr>c_handles := H, c_table := t\<rparr>)))"

text \<open>Removing the oldest entry that is not in use, which the loops of \<open>Insert\<close> and \<open>Prune\<close> do.\<close>

definition oldest :: "'v lru_cache \<Rightarrow> addr option" where
  "oldest c = Option.bind (c_handles c lru_head) h_next"

definition erase_oldest :: "addr \<Rightarrow> 'v lru_cache \<Rightarrow> 'v lru_cache option" where
  "erase_oldest old c = Option.bind (c_handles c old) (\<lambda>h. cache_Erase (h_key h) (h_hash h) c)"

partial_function (option) evict :: "'v lru_cache \<Rightarrow> 'v lru_cache option" where
  "evict c =
     Option.bind (oldest c) (\<lambda>old.
       if c_capacity c < c_usage c \<and> old \<noteq> lru_head then Option.bind (erase_oldest old c) evict else Some c)"

partial_function (option) cache_Prune :: "'v lru_cache \<Rightarrow> 'v lru_cache option" where
  "cache_Prune c =
     Option.bind (oldest c) (\<lambda>old. if old \<noteq> lru_head then Option.bind (erase_oldest old c) cache_Prune else Some c)"

definition cache_Insert :: "slice \<Rightarrow> u32 \<Rightarrow> 'v \<Rightarrow> u64 \<Rightarrow> 'v lru_cache \<Rightarrow> (addr \<times> 'v lru_cache) option" where
  "cache_Insert key hash val charge c =
     (let e = c_brk c;
          h = \<lparr>h_value = val, h_next_hash = None, h_next = None, h_prev = None, h_charge = charge, h_key = key,
               h_in_cache = False, h_refs = 1, h_hash = hash\<rparr>;
          c = c\<lparr>c_brk := e + 1, c_handles := (c_handles c)(e \<mapsto> h)\<rparr>
      in Option.bind
        (if 0 < c_capacity c then
           Option.bind (put (c_handles c) e (\<lambda>h. h\<lparr>h_refs := h_refs h + 1, h_in_cache := True\<rparr>)) (\<lambda>H.
             Option.bind (LRU_Append in_use_head e H) (\<lambda>H.
               Option.bind (table_Insert H (c_table c) e) (\<lambda>(old, H, t).
                 map_option snd
                   (FinishErase old (c\<lparr>c_handles := H, c_usage := c_usage c + charge, c_table := t\<rparr>)))))
         else Some c)
        (\<lambda>c. map_option (Pair e) (evict c)))"

definition TotalCharge :: "'v lru_cache \<Rightarrow> u64" where
  "TotalCharge c = c_usage c"

section \<open>The destructor\<close>

partial_function (option) destroy_from :: "addr \<Rightarrow> 'v lru_cache \<Rightarrow> 'v lru_cache option" where
  "destroy_from e c =
     (if e = lru_head then Some c
      else Option.bind (c_handles c e) (\<lambda>h.
        Option.bind (h_next h) (\<lambda>nxt.
          Option.bind (put (c_handles c) e (\<lambda>h. h\<lparr>h_in_cache := False\<rparr>)) (\<lambda>H.
            Option.bind (cache_Unref e (c\<lparr>c_handles := H\<rparr>)) (destroy_from nxt)))))"

definition destroy_LRUCache :: "'v lru_cache \<Rightarrow> 'v lru_cache option" where
  "destroy_LRUCache c = Option.bind (oldest c) (\<lambda>e. destroy_from e c)"

section \<open>The shards\<close>

definition kNumShardBits :: nat where "kNumShardBits = 4"
definition kNumShards :: nat where "kNumShards = 2 ^ kNumShardBits"

definition HashSlice :: "slice \<Rightarrow> u32" where
  "HashSlice s = Hash s 0"

definition Shard :: "u32 \<Rightarrow> nat" where
  "Shard hash = unat (drop_bit (32 - kNumShardBits) hash)"

record 'v sharded_cache =
  shards :: "'v lru_cache list"
  last_id :: u64

definition per_shard :: "u64 \<Rightarrow> u64" where
  "per_shard capacity = (capacity + (of_nat kNumShards - 1)) div of_nat kNumShards"

definition make_ShardedLRUCache :: "'v \<Rightarrow> u64 \<Rightarrow> 'v sharded_cache option" where
  "make_ShardedLRUCache junk capacity =
     map_option (\<lambda>c. \<lparr>shards = replicate kNumShards c, last_id = 0\<rparr>) (make_LRUCache junk (per_shard capacity))"

text \<open>A handle of the sharded cache is a shard and an address in it.\<close>

definition sharded_Insert :: "slice \<Rightarrow> 'v \<Rightarrow> u64 \<Rightarrow> 'v sharded_cache \<Rightarrow> ((nat \<times> addr) \<times> 'v sharded_cache) option" where
  "sharded_Insert key val charge sc =
     (let hash = HashSlice key; i = Shard hash in
      map_option (\<lambda>(e, c). ((i, e), sc\<lparr>shards := (shards sc)[i := c]\<rparr>)) (cache_Insert key hash val charge (shards sc ! i)))"

definition sharded_Lookup :: "slice \<Rightarrow> 'v sharded_cache \<Rightarrow> ((nat \<times> addr) option \<times> 'v sharded_cache) option" where
  "sharded_Lookup key sc =
     (let hash = HashSlice key; i = Shard hash in
      map_option (\<lambda>(p, c). (map_option (Pair i) p, sc\<lparr>shards := (shards sc)[i := c]\<rparr>)) (cache_Lookup key hash (shards sc ! i)))"

definition sharded_Release :: "nat \<times> addr \<Rightarrow> 'v sharded_cache \<Rightarrow> 'v sharded_cache option" where
  "sharded_Release handle sc =
     Option.bind (c_handles (shards sc ! fst handle) (snd handle)) (\<lambda>h.
       let i = Shard (h_hash h) in
       map_option (\<lambda>c. sc\<lparr>shards := (shards sc)[i := c]\<rparr>) (cache_Release (snd handle) (shards sc ! i)))"

definition sharded_Erase :: "slice \<Rightarrow> 'v sharded_cache \<Rightarrow> 'v sharded_cache option" where
  "sharded_Erase key sc =
     (let hash = HashSlice key; i = Shard hash in
      map_option (\<lambda>c. sc\<lparr>shards := (shards sc)[i := c]\<rparr>) (cache_Erase key hash (shards sc ! i)))"

definition sharded_Value :: "nat \<times> addr \<Rightarrow> 'v sharded_cache \<Rightarrow> 'v option" where
  "sharded_Value handle sc = map_option h_value (c_handles (shards sc ! fst handle) (snd handle))"

definition sharded_NewId :: "'v sharded_cache \<Rightarrow> u64 \<times> 'v sharded_cache" where
  "sharded_NewId sc = (let sc = sc\<lparr>last_id := last_id sc + 1\<rparr> in (last_id sc, sc))"

fun prune_shards :: "'v lru_cache list \<Rightarrow> 'v lru_cache list option" where
  "prune_shards [] = Some []"
| "prune_shards (c # cs) = Option.bind (cache_Prune c) (\<lambda>c. map_option (Cons c) (prune_shards cs))"

definition sharded_Prune :: "'v sharded_cache \<Rightarrow> 'v sharded_cache option" where
  "sharded_Prune sc = map_option (\<lambda>cs. sc\<lparr>shards := cs\<rparr>) (prune_shards (shards sc))"

definition sharded_TotalCharge :: "'v sharded_cache \<Rightarrow> u64" where
  "sharded_TotalCharge sc = fold (\<lambda>c sum. sum + TotalCharge c) (shards sc) 0"

declare find_slot.simps [code] grow_length.simps [code] rehash_chain.simps [code] evict.simps [code] cache_Prune.simps [code]
  destroy_from.simps [code]

lemma Shard_less: "Shard hash < kNumShards"
proof -
  have "unat hash < 2 ^ 32" using unsigned_less [where 'a = nat, of hash] by simp
  then have "unat hash div 2 ^ 28 < 2 ^ 4" by (simp add: div_less_iff_less_mult)
  then show ?thesis by (simp add: Shard_def kNumShards_def kNumShardBits_def drop_bit_eq_div unat_div)
qed

text \<open>The shards together have room for the capacity asked for.\<close>

lemma per_shard_enough:
  assumes "unat capacity + 15 < 2 ^ 64"
  shows "unat capacity \<le> kNumShards * unat (per_shard capacity)"
proof -
  have "unat (capacity + 15) = unat capacity + 15"
    using assms by (subst unat_add_lem [THEN iffD1]) auto
  then have "unat (per_shard capacity) = (unat capacity + 15) div 16"
    by (simp add: per_shard_def kNumShards_def kNumShardBits_def unat_div)
  then show ?thesis by (simp add: kNumShards_def kNumShardBits_def)
qed

end
