(* ===== verification/LdbCacheTable.thy ===== *)
theory LdbCacheTable
  imports LdbCache
begin

text \<open>
  The rings and the hash table of the block cache (\<open>util/cache.cc\<close>): a ring stands for the list of its
  entries and a bucket for the set of those of its chain; removing and appending an entry, looking one up, inserting,
  removing and growing the table are shown to do to these what they should, and to leave everything else alone.
\<close>

section \<open>Views of the handles\<close>

definition links_of :: "'v handles \<Rightarrow> addr \<Rightarrow> (addr option \<times> addr option) option" where
  "links_of H a = map_option (\<lambda>h. (h_next h, h_prev h)) (H a)"

definition chains_of :: "'v handles \<Rightarrow> addr \<Rightarrow> addr option option" where
  "chains_of H a = map_option h_next_hash (H a)"

definition core :: "'v lru_handle \<Rightarrow> 'v lru_handle" where
  "core h = h\<lparr>h_next := None, h_prev := None, h_next_hash := None\<rparr>"

definition cores_of :: "'v handles \<Rightarrow> 'v handles" where
  "cores_of H a = map_option core (H a)"

lemma core_sel [simp]:
  "h_value (core h) = h_value h" "h_charge (core h) = h_charge h" "h_key (core h) = h_key h"
  "h_in_cache (core h) = h_in_cache h" "h_refs (core h) = h_refs h" "h_hash (core h) = h_hash h"
  "core (h\<lparr>h_next := x\<rparr>) = core h" "core (h\<lparr>h_prev := x\<rparr>) = core h" "core (h\<lparr>h_next_hash := x\<rparr>) = core h"
  by (simp_all add: core_def)

lemma put_Some: "H a = Some h \<Longrightarrow> put H a f = Some (H(a \<mapsto> f h))"
  by (simp add: put_def)

lemma cores_upd [simp]: "cores_of (H(a := x)) = (cores_of H)(a := map_option core x)"
  and links_upd [simp]: "links_of (H(a := x)) = (links_of H)(a := map_option (\<lambda>h. (h_next h, h_prev h)) x)"
  and chains_upd [simp]: "chains_of (H(a := x)) = (chains_of H)(a := map_option h_next_hash x)"
  by (auto simp: cores_of_def links_of_def chains_of_def fun_eq_iff)

lemma views_at:
  assumes "H a = Some h"
  shows "cores_of H a = Some (core h)" "links_of H a = Some (h_next h, h_prev h)" "chains_of H a = Some (h_next_hash h)"
  using assms by (simp_all add: cores_of_def links_of_def chains_of_def)

lemma cores_NoneD: "cores_of H a = None \<longleftrightarrow> H a = None"
  by (simp add: cores_of_def)

lemma cores_dom: "cores_of H' = cores_of H \<Longrightarrow> dom H' = dom H"
  by (intro set_eqI) (metis cores_NoneD domIff)

section \<open>Rings\<close>

fun linked :: "'v handles \<Rightarrow> addr list \<Rightarrow> bool" where
  "linked H (a # b # xs) =
     (Option.bind (H a) h_next = Some b \<and> Option.bind (H b) h_prev = Some a \<and> linked H (b # xs))"
| "linked H xs = True"

definition ring :: "'v handles \<Rightarrow> addr \<Rightarrow> addr list \<Rightarrow> bool" where
  "ring H s xs = (linked H (s # xs @ [s]) \<and> distinct (s # xs))"

lemma ring_linked_append: "linked H (xs @ [a] @ ys) \<longleftrightarrow> linked H (xs @ [a]) \<and> linked H (a # ys)"
proof (induction xs)
  case (Cons x xs)
  then show ?case by (cases xs) simp_all
qed simp

text \<open>A list of handles stays linked when the handles keep the links that are inside it.\<close>

lemma ring_linked_cong:
  assumes "\<And>a. a \<in> set (butlast xs) \<Longrightarrow> Option.bind (H' a) h_next = Option.bind (H a) h_next"
    and "\<And>a. a \<in> set (tl xs) \<Longrightarrow> Option.bind (H' a) h_prev = Option.bind (H a) h_prev"
  shows "linked H' xs = linked H xs"
  using assms by (induction H xs rule: linked.induct) (auto split: if_splits)

lemma bind_links: "links_of H' a = links_of H a \<Longrightarrow> Option.bind (H' a) h_next = Option.bind (H a) h_next \<and>
    Option.bind (H' a) h_prev = Option.bind (H a) h_prev"
  by (auto simp: links_of_def split: option.splits bind_splits)

lemma ring_cong:
  assumes "\<And>a. a \<in> set (s # xs) \<Longrightarrow> links_of H' a = links_of H a"
  shows "ring H' s xs = ring H s xs"
proof -
  have "linked H' (s # xs @ [s]) = linked H (s # xs @ [s])"
    using assms by (intro ring_linked_cong) (auto dest!: bind_links in_set_butlastD split: if_splits)
  then show ?thesis by (simp add: ring_def)
qed

lemma ring_next: "ring H s xs \<Longrightarrow> Option.bind (H s) h_next = Some (hd (xs @ [s]))"
  by (cases xs) (auto simp: ring_def)

lemma linked_dom: "linked H xs \<Longrightarrow> 2 \<le> length xs \<Longrightarrow> set xs \<subseteq> dom H"
proof (induction H xs rule: linked.induct)
  case (1 H a b xs)
  then show ?case by (cases xs) (auto split: bind_splits)
qed auto

lemma ring_dom: "ring H s xs \<Longrightarrow> set (s # xs) \<subseteq> dom H"
  using linked_dom [of H "s # xs @ [s]"] by (auto simp: ring_def)

lemma LRU_Remove_ring:
  assumes r: "ring H s (xs @ e # ys)"
  shows "\<exists>H'. LRU_Remove e H = Some H' \<and> ring H' s (xs @ ys) \<and> cores_of H' = cores_of H \<and> chains_of H' = chains_of H \<and>
    (\<forall>a. a \<notin> set (s # xs @ ys) \<longrightarrow> H' a = H a)"
proof -
  define p n where "p = last (s # xs)" and "n = hd (ys @ [s])"
  have lp: "s # xs = butlast (s # xs) @ [p]" and ln: "ys @ [s] = n # tl (ys @ [s])"
    by (auto simp: p_def n_def simp del: butlast.simps last.simps)
  have split: "s # (xs @ e # ys) @ [s] = butlast (s # xs) @ [p] @ e # n # tl (ys @ [s])"
    using lp ln by simp
  have L: "linked H (butlast (s # xs) @ [p])" "linked H (p # e # n # tl (ys @ [s]))"
    using r unfolding ring_def split by (metis ring_linked_append)+
  obtain he hp hn where h: "H e = Some he" "H p = Some hp" "H n = Some hn" "h_next he = Some n" "h_prev he = Some p"
      "h_next hp = Some e" "h_prev hn = Some e" "linked H (n # tl (ys @ [s]))"
    using L(2) by (auto split: bind_splits)
  have d: "distinct (s # xs @ e # ys)" using r by (simp add: ring_def)
  have pe: "p \<noteq> e" "n \<noteq> e" "p \<in> set (s # xs)" "n \<in> set (s # ys)"
    using d by (auto simp: p_def n_def hd_append split: if_splits)
  define H1 where "H1 = H(n \<mapsto> hn\<lparr>h_prev := Some p\<rparr>)"
  obtain hp1 where hp1: "H1 p = Some hp1" "core hp1 = core hp" "h_next_hash hp1 = h_next_hash hp"
    using h by (cases "p = n") (auto simp: H1_def)
  define H' where "H' = H1(p \<mapsto> hp1\<lparr>h_next := Some n\<rparr>)"
  have ex: "LRU_Remove e H = Some H'"
    using h pe hp1 by (simp add: LRU_Remove_def put_def H1_def H'_def)
  have nx: "Option.bind (H' a) h_next = (if a = p then Some n else Option.bind (H a) h_next)" for a
    using h hp1 by (auto simp: H'_def H1_def)
  have pv: "Option.bind (H' a) h_prev = (if a = n then Some p else Option.bind (H a) h_prev)" for a
    using h hp1 by (auto simp: H'_def H1_def split: if_splits)
  have "linked H' (butlast (s # xs) @ [p])"
    unfolding lp [symmetric]
  proof (subst ring_linked_cong)
    show "linked H (s # xs)" using L(1) lp by metis
    have "distinct (butlast (s # xs) @ [p])" using d lp by (metis distinct_append append_Cons)
    then show "Option.bind (H' a) h_next = Option.bind (H a) h_next" if "a \<in> set (butlast (s # xs))" for a
      using that by (auto simp: nx simp del: butlast.simps)
    show "Option.bind (H' a) h_prev = Option.bind (H a) h_prev" if "a \<in> set (tl (s # xs))" for a
      using that d pe(4) by (auto simp: pv)
  qed
  moreover have "linked H' (n # tl (ys @ [s]))"
    unfolding ln [symmetric]
  proof (subst ring_linked_cong)
    show "linked H (ys @ [s])" using h(8) by (simp add: ln [symmetric])
    have "distinct (n # tl (ys @ [s]))" using d by (simp add: ln [symmetric])
    then show "Option.bind (H' a) h_prev = Option.bind (H a) h_prev" if "a \<in> set (tl (ys @ [s]))" for a
      using that by (auto simp: pv)
    show "Option.bind (H' a) h_next = Option.bind (H a) h_next" if "a \<in> set (butlast (ys @ [s]))" for a
      using that d pe(3) by (auto simp: nx)
  qed
  ultimately have "linked H' (butlast (s # xs) @ [p] @ n # tl (ys @ [s]))"
    by (subst ring_linked_append) (simp add: nx pv)
  then have "linked H' (s # xs @ ys @ [s])"
    using lp ln by (metis append.assoc append_Cons append_Nil)
  then have "ring H' s (xs @ ys)"
    using d by (simp add: ring_def)
  moreover have "cores_of H' = cores_of H" "chains_of H' = chains_of H"
    using h hp1 by (auto simp: H'_def H1_def fun_eq_iff views_at)
  ultimately show ?thesis
    using ex pe by (auto simp: H'_def H1_def)
qed

lemma LRU_Append_ring:
  assumes r: "ring H s xs" and e: "H e = Some he" "e \<notin> set (s # xs)"
  shows "\<exists>H'. LRU_Append s e H = Some H' \<and> ring H' s (xs @ [e]) \<and> cores_of H' = cores_of H \<and> chains_of H' = chains_of H \<and>
    (\<forall>a. a \<notin> set (s # xs @ [e]) \<longrightarrow> H' a = H a)"
proof -
  define p where "p = last (s # xs)"
  have lp: "s # xs = butlast (s # xs) @ [p]" by (auto simp: p_def simp del: butlast.simps last.simps)
  have L: "linked H (butlast (s # xs) @ [p])" "linked H [p, s]"
    using r lp unfolding ring_def by (metis append_Cons append_assoc ring_linked_append append_Nil)+
  obtain hp hs where h: "H p = Some hp" "H s = Some hs" "h_next hp = Some s" "h_prev hs = Some p"
    using L(2) by (auto split: bind_splits)
  have d: "distinct (s # xs @ [e])" using r e by (auto simp: ring_def)
  have pe: "p \<in> set (s # xs)" "p \<noteq> e" "s \<noteq> e"
    using e by (auto simp: p_def split: if_splits)
  define H1 where "H1 = H(e \<mapsto> he\<lparr>h_next := Some s, h_prev := Some p\<rparr>, p \<mapsto> hp\<lparr>h_next := Some e\<rparr>)"
  obtain hs1 where hs1: "H1 s = Some hs1" "core hs1 = core hs" "h_next_hash hs1 = h_next_hash hs"
      "h_next hs1 = (if s = p then Some e else h_next hs)"
    using h pe by (cases "p = s") (auto simp: H1_def)
  define H' where "H' = H1(s \<mapsto> hs1\<lparr>h_prev := Some e\<rparr>)"
  have ex: "LRU_Append s e H = Some H'"
    using h e pe hs1 by (auto simp: LRU_Append_def put_def H1_def H'_def)
  have nx: "Option.bind (H' a) h_next = (if a = p then Some e else if a = e then Some s else Option.bind (H a) h_next)" for a
    using h hs1 pe e by (auto simp: H'_def H1_def)
  have pv: "Option.bind (H' a) h_prev = (if a = s then Some e else if a = e then Some p else Option.bind (H a) h_prev)" for a
    using h hs1 pe e by (auto simp: H'_def H1_def)
  have "linked H' (s # xs)"
  proof (subst ring_linked_cong)
    show "linked H (s # xs)" using L(1) lp by metis
    have "distinct (butlast (s # xs) @ [p])" using d lp by (metis distinct_append append_Cons)
    then show "Option.bind (H' a) h_next = Option.bind (H a) h_next" if "a \<in> set (butlast (s # xs))" for a
      using that e by (auto simp: nx simp del: butlast.simps dest: in_set_butlastD)
    show "Option.bind (H' a) h_prev = Option.bind (H a) h_prev" if "a \<in> set (tl (s # xs))" for a
      using that d by (auto simp: pv)
  qed
  then have "linked H' (butlast (s # xs) @ [p] @ [e, s])"
    using lp pe by (subst ring_linked_append) (simp add: nx pv)
  then have "linked H' (s # xs @ e # [s])"
    using lp by (metis append.assoc append_Cons append_Nil)
  then have "ring H' s (xs @ [e])"
    using d by (simp add: ring_def)
  moreover have "cores_of H' = cores_of H" "chains_of H' = chains_of H"
    using h hs1 e by (auto simp: H'_def H1_def fun_eq_iff views_at)
  ultimately show ?thesis
    using ex pe by (auto simp: H'_def H1_def)
qed

section \<open>Chains and buckets\<close>

fun chain :: "(addr \<Rightarrow> addr option option) \<Rightarrow> addr option \<Rightarrow> addr list \<Rightarrow> bool" where
  "chain N p [] = (p = None)"
| "chain N p (a # as) = (p = Some a \<and> (case N a of None \<Rightarrow> False | Some q \<Rightarrow> chain N q as))"

definition bucket :: "(addr \<Rightarrow> addr option option) \<Rightarrow> addr option \<Rightarrow> addr set \<Rightarrow> bool" where
  "bucket N p S = (\<exists>as. chain N p as \<and> distinct as \<and> set as = S)"

definition matches :: "'v handles \<Rightarrow> slice \<Rightarrow> u32 \<Rightarrow> addr \<Rightarrow> bool" where
  "matches C key hash a = (\<exists>h. C a = Some h \<and> h_hash h = hash \<and> h_key h = key)"

definition is_entry :: "'v handles \<Rightarrow> addr set \<Rightarrow> slice \<Rightarrow> u32 \<Rightarrow> addr option \<Rightarrow> bool" where
  "is_entry C E key hash p =
     (case p of None \<Rightarrow> \<forall>a \<in> E. \<not> matches C key hash a | Some a \<Rightarrow> a \<in> E \<and> matches C key hash a)"

definition hash_index :: "u32 \<Rightarrow> u32 \<Rightarrow> nat" where
  "hash_index n hash = unat (hash AND (n - 1))"

definition in_bucket :: "'v handles \<Rightarrow> u32 \<Rightarrow> nat \<Rightarrow> addr \<Rightarrow> bool" where
  "in_bucket C n i a = (\<exists>h. C a = Some h \<and> hash_index n (h_hash h) = i)"

lemma hash_index_less: "n \<noteq> 0 \<Longrightarrow> hash_index n hash < unat n"
proof -
  assume "n \<noteq> 0"
  then have "n - 1 < n" by (simp add: word_less_nat_alt unat_minus_one unat_gt_0)
  moreover have "hash AND (n - 1) \<le> n - 1" by (rule word_and_le1)
  ultimately have "hash AND (n - 1) < n" by (rule le_less_trans [rotated])
  then show ?thesis by (simp add: hash_index_def unat_mono)
qed

lemma matches_in_bucket: "matches C key hash a \<Longrightarrow> in_bucket C n (hash_index n hash) a"
  by (auto simp: matches_def in_bucket_def)

lemma in_bucket_unique: "in_bucket C n i a \<Longrightarrow> in_bucket C n j a \<Longrightarrow> i = j"
  by (auto simp: in_bucket_def)

lemma chain_cong: "(\<And>a. a \<in> set as \<Longrightarrow> N' a = N a) \<Longrightarrow> chain N' p as = chain N p as"
  by (induction as arbitrary: p) (auto split: option.splits)

lemma bucket_cong: "(\<And>a. a \<in> S \<Longrightarrow> N' a = N a) \<Longrightarrow> bucket N' p S = bucket N p S"
  using chain_cong [of _ N' N] by (auto simp: bucket_def)

lemma chain_dom: "chain N p as \<Longrightarrow> a \<in> set as \<Longrightarrow> N a \<noteq> None"
  by (induction as arbitrary: p) (auto split: option.splits)

lemma chain_tail:
  assumes "chain N p (as @ rest)"
  shows "rest = [] \<or> (\<exists>q. N (hd rest) = Some q \<and> chain N q (tl rest))"
  using assms by (induction as arbitrary: p) (cases rest, auto split: option.splits)+

lemma chain_write:
  assumes "chain N p (as @ rest)" "distinct as" "as \<noteq> []" "chain N q rest'" "last as \<notin> set rest'"
  shows "chain (N(last as \<mapsto> q)) p (as @ rest')"
  using assms
proof (induction as arbitrary: p)
  case (Cons a as)
  show ?case
  proof (cases "as = []")
    case True
    moreover have "chain (N(a \<mapsto> q)) q rest' = chain N q rest'"
      using Cons.prems(5) True by (intro chain_cong) auto
    ultimately show ?thesis using Cons.prems by (simp add: fun_upd_def split: option.splits)
  next
    case False
    then have "a \<noteq> last as" using Cons.prems(2) by auto
    then show ?thesis using Cons False by (auto split: option.splits)
  qed
qed simp

fun head :: "addr list \<Rightarrow> addr option" where
  "head [] = None"
| "head (a # as) = Some a"

definition slot_of :: "slot \<Rightarrow> addr list \<Rightarrow> slot" where
  "slot_of pp as = (if as = [] then pp else Next_hash (last as))"

lemma find_slot_chain:
  assumes "read_slot H t pp = Some p" "chain (chains_of H) p as" "set as \<subseteq> dom H"
  shows "\<exists>as1 rest. as = as1 @ rest \<and> find_slot H t key hash pp = Some (slot_of pp as1) \<and>
    read_slot H t (slot_of pp as1) = Some (head rest) \<and>
    (\<forall>a \<in> set as1. \<not> matches (cores_of H) key hash a) \<and> (\<forall>a. head rest = Some a \<longrightarrow> matches (cores_of H) key hash a)"
  using assms
proof (induction as arbitrary: p pp)
  case Nil
  then show ?case by (subst find_slot.simps) (auto simp: slot_of_def)
next
  case (Cons a as)
  then obtain h where h: "H a = Some h" "p = Some a" by (cases "chains_of H a") (auto simp: chains_of_def)
  show ?case
  proof (cases "matches (cores_of H) key hash a")
    case True
    then show ?thesis
      using h Cons.prems by (subst find_slot.simps, intro exI [of _ "[]"] exI [of _ "a # as"])
        (auto simp: slot_of_def matches_def cores_of_def slice_eq_iff)
  next
    case False
    have "read_slot H t (Next_hash a) = Some (h_next_hash h)" "chain (chains_of H) (h_next_hash h) as"
      using h Cons.prems by (auto simp: views_at)
    from Cons.IH [OF this] obtain as1 rest where IH: "as = as1 @ rest"
        "find_slot H t key hash (Next_hash a) = Some (slot_of (Next_hash a) as1)"
        "read_slot H t (slot_of (Next_hash a) as1) = Some (head rest)"
        "\<forall>a \<in> set as1. \<not> matches (cores_of H) key hash a" "\<forall>a. head rest = Some a \<longrightarrow> matches (cores_of H) key hash a"
      using Cons.prems(3) by auto
    have "slot_of pp (a # as1) = slot_of (Next_hash a) as1"
      by (simp add: slot_of_def)
    moreover have "find_slot H t key hash pp = find_slot H t key hash (Next_hash a)"
      using False h Cons.prems(1) by (subst find_slot.simps) (auto simp: matches_def cores_of_def slice_eq_iff)
    ultimately show ?thesis
      using IH False by (intro exI [of _ "a # as1"] exI [of _ rest]) simp
  qed
qed

lemma write_slot_chain:
  assumes "i < length (t_list t)" "chain (chains_of H) (t_list t ! i) (as1 @ rest)" "distinct as1"
    and "chain (chains_of H) q rest'" "distinct (as1 @ rest')"
  shows "\<exists>H' t'. write_slot H t (slot_of (Bucket i) as1) q = Some (H', t') \<and>
    chain (chains_of H') (t_list t' ! i) (as1 @ rest') \<and> cores_of H' = cores_of H \<and> links_of H' = links_of H \<and>
    (\<forall>a. a \<notin> set as1 \<longrightarrow> H' a = H a) \<and> length (t_list t') = length (t_list t) \<and>
    (\<forall>j. j \<noteq> i \<longrightarrow> t_list t' ! j = t_list t ! j) \<and> t_length t' = t_length t \<and> t_elems t' = t_elems t"
proof (cases "as1 = []")
  case True
  then show ?thesis using assms by (simp add: slot_of_def)
next
  case False
  have "last as1 \<in> dom H"
    using chain_dom [OF assms(2), of "last as1"] False by (auto simp: chains_of_def)
  then obtain h where h: "H (last as1) = Some h" by auto
  have "chain ((chains_of H)(last as1 \<mapsto> q)) (t_list t ! i) (as1 @ rest')"
    using assms False by (intro chain_write) (auto dest: last_in_set)
  moreover have "cores_of (H(last as1 \<mapsto> h\<lparr>h_next_hash := q\<rparr>)) = cores_of H"
      "links_of (H(last as1 \<mapsto> h\<lparr>h_next_hash := q\<rparr>)) = links_of H"
    using h by (auto simp: fun_eq_iff views_at)
  ultimately show ?thesis
    using h False by (simp add: slot_of_def put_def)
qed

section \<open>The table\<close>

definition distinct_keys :: "'v handles \<Rightarrow> addr set \<Rightarrow> bool" where
  "distinct_keys C E = (\<forall>key hash. \<forall>a \<in> E. \<forall>b \<in> E. matches C key hash a \<longrightarrow> matches C key hash b \<longrightarrow> a = b)"

definition table_ok :: "'v handles \<Rightarrow> handle_table \<Rightarrow> addr set \<Rightarrow> bool" where
  "table_ok H t E =
     (t_length t \<noteq> 0 \<and> length (t_list t) = unat (t_length t) \<and> finite E \<and> E \<subseteq> dom H \<and> card E = unat (t_elems t) \<and>
      (\<forall>i < length (t_list t). bucket (chains_of H) (t_list t ! i) {a \<in> E. in_bucket (cores_of H) (t_length t) i a}) \<and>
      distinct_keys (cores_of H) E)"

text \<open>What \<open>FindPointer\<close> finds: the chain of the key's bucket, cut before the entry.\<close>

lemma FindPointer_ok:
  assumes "table_ok H t E"
  shows "\<exists>as rest. chain (chains_of H) (t_list t ! hash_index (t_length t) hash) (as @ rest) \<and> distinct (as @ rest) \<and>
    set (as @ rest) = {a \<in> E. in_bucket (cores_of H) (t_length t) (hash_index (t_length t) hash) a} \<and>
    hash_index (t_length t) hash < length (t_list t) \<and>
    FindPointer H t key hash = Some (slot_of (Bucket (hash_index (t_length t) hash)) as) \<and>
    read_slot H t (slot_of (Bucket (hash_index (t_length t) hash)) as) = Some (head rest) \<and>
    is_entry (cores_of H) E key hash (head rest)"
proof -
  define i where "i = hash_index (t_length t) hash"
  have i: "i < length (t_list t)"
    using assms hash_index_less by (auto simp: table_ok_def i_def)
  then obtain as where as: "chain (chains_of H) (t_list t ! i) as" "distinct as"
      "set as = {a \<in> E. in_bucket (cores_of H) (t_length t) i a}"
    using assms by (auto simp: table_ok_def bucket_def)
  have "set as \<subseteq> dom H" using assms as(3) by (auto simp: table_ok_def)
  from find_slot_chain [OF _ as(1) this, of t "Bucket i" key hash] i
  obtain as1 rest where f: "as = as1 @ rest" "find_slot H t key hash (Bucket i) = Some (slot_of (Bucket i) as1)"
      "read_slot H t (slot_of (Bucket i) as1) = Some (head rest)"
      "\<forall>a \<in> set as1. \<not> matches (cores_of H) key hash a" "\<forall>a. head rest = Some a \<longrightarrow> matches (cores_of H) key hash a"
    by auto
  have "is_entry (cores_of H) E key hash (head rest)"
  proof (cases rest)
    case Nil
    then have "a \<notin> E" if "matches (cores_of H) key hash a" for a
      using that f(1,4) as(3) matches_in_bucket [OF that, of "t_length t"] by (auto simp: i_def)
    then show ?thesis using Nil by (auto simp: is_entry_def)
  next
    case (Cons a r)
    then show ?thesis using f as(3) by (auto simp: is_entry_def)
  qed
  then show ?thesis
    using f as i unfolding i_def FindPointer_def hash_index_def [symmetric] by auto
qed

lemma table_Lookup_ok:
  assumes "table_ok H t E"
  shows "\<exists>p. table_Lookup H t key hash = Some p \<and> is_entry (cores_of H) E key hash p"
  using FindPointer_ok [OF assms, of hash key] by (auto simp: table_Lookup_def)

text \<open>Writing a slot in a bucket: the entries after it are replaced.\<close>

lemma table_write:
  assumes b: "\<forall>j < length (t_list t). bucket (chains_of H) (t_list t ! j) (S j)"
    and i: "i < length (t_list t)" "chain (chains_of H) (t_list t ! i) (as @ rest)" "set (as @ rest) = S i"
    and q: "chain (chains_of H) q rest'" "distinct (as @ rest')" "set (as @ rest') = S' i"
    and disj: "\<And>j. j \<noteq> i \<Longrightarrow> S' j = S j \<and> S i \<inter> S j = {}"
  shows "\<exists>H' l. write_slot H t (slot_of (Bucket i) as) q = Some (H', t\<lparr>t_list := l\<rparr>) \<and>
    length l = length (t_list t) \<and> cores_of H' = cores_of H \<and> links_of H' = links_of H \<and>
    (\<forall>j < length l. bucket (chains_of H') (l ! j) (S' j))"
proof -
  obtain H' t' where w: "write_slot H t (slot_of (Bucket i) as) q = Some (H', t')"
      "chain (chains_of H') (t_list t' ! i) (as @ rest')" "cores_of H' = cores_of H" "links_of H' = links_of H"
      "\<forall>a. a \<notin> set as \<longrightarrow> H' a = H a" "length (t_list t') = length (t_list t)"
      "\<forall>j. j \<noteq> i \<longrightarrow> t_list t' ! j = t_list t ! j" "t_length t' = t_length t" "t_elems t' = t_elems t"
    using write_slot_chain [of i t H as rest q rest'] i q by auto
  have "bucket (chains_of H') (t_list t' ! j) (S' j)" if j: "j < length (t_list t')" for j
  proof (cases "j = i")
    case True
    then show ?thesis using w(2) q by (auto simp: bucket_def)
  next
    case False
    have "bucket (chains_of H') (t_list t ! j) (S j) = bucket (chains_of H) (t_list t ! j) (S j)"
    proof (intro bucket_cong)
      fix a assume "a \<in> S j"
      then have "a \<notin> set as" using disj [OF False] i(3) by auto
      then show "chains_of H' a = chains_of H a" using w(5) by (simp add: chains_of_def)
    qed
    then show ?thesis using b j False w(6,7) disj by auto
  qed
  moreover have "t' = t\<lparr>t_list := t_list t'\<rparr>"
    using w(8,9) by (cases t, cases t') simp
  ultimately show ?thesis using w by metis
qed

lemma distinct_keys_remove: "distinct_keys C E \<Longrightarrow> distinct_keys C (E - X)"
  by (auto simp: distinct_keys_def)

lemma matchesI: "H a = Some h \<Longrightarrow> matches (cores_of H) (h_key h) (h_hash h) a"
  by (simp add: matches_def cores_of_def)

lemma matches_eq: "matches C key hash a \<Longrightarrow> matches C key' hash' a \<longleftrightarrow> key' = key \<and> hash' = hash"
  by (auto simp: matches_def)

lemma table_Remove_ok:
  assumes ok: "table_ok H t E"
  shows "\<exists>p H' t'. table_Remove H t key hash = Some (p, H', t') \<and> is_entry (cores_of H) E key hash p \<and>
    cores_of H' = cores_of H \<and> links_of H' = links_of H \<and> table_ok H' t' (E - set_option p)"
proof -
  define i where "i = hash_index (t_length t) hash"
  obtain as rest where f: "chain (chains_of H) (t_list t ! i) (as @ rest)" "distinct (as @ rest)"
      "set (as @ rest) = {a \<in> E. in_bucket (cores_of H) (t_length t) i a}" "i < length (t_list t)"
      "FindPointer H t key hash = Some (slot_of (Bucket i) as)"
      "read_slot H t (slot_of (Bucket i) as) = Some (head rest)" "is_entry (cores_of H) E key hash (head rest)"
    using FindPointer_ok [OF ok, of hash key] unfolding i_def by blast
  show ?thesis
  proof (cases rest)
    case Nil
    then show ?thesis using f ok by (auto simp: table_Remove_def)
  next
    case (Cons a r)
    have aE: "a \<in> E" using f(7) Cons by (simp add: is_entry_def)
    then obtain h where h: "H a = Some h" using ok by (auto simp: table_ok_def)
    have r: "chain (chains_of H) (h_next_hash h) r"
      using chain_tail [OF f(1)] Cons h by (auto simp: views_at)
    have ai: "in_bucket (cores_of H) (t_length t) i a" using f(3) Cons by auto
    obtain H' l where w: "write_slot H t (slot_of (Bucket i) as) (h_next_hash h) = Some (H', t\<lparr>t_list := l\<rparr>)"
        "length l = length (t_list t)" "cores_of H' = cores_of H" "links_of H' = links_of H"
        "\<forall>j < length l. bucket (chains_of H') (l ! j) {b \<in> E - {a}. in_bucket (cores_of H) (t_length t) j b}"
      using table_write [of t H "\<lambda>j. {b \<in> E. in_bucket (cores_of H) (t_length t) j b}" i as rest "h_next_hash h" r
          "\<lambda>j. {b \<in> E - {a}. in_bucket (cores_of H) (t_length t) j b}"] ok f(1-4) Cons r ai
      by (fastforce simp: table_ok_def dest: in_bucket_unique)
    have "t_elems t \<noteq> 0" using ok aE by (auto simp: table_ok_def)
    then have "unat (t_elems t - 1) = card (E - {a})"
      using ok aE by (auto simp: table_ok_def unat_minus_one)
    then have "table_ok H' (t\<lparr>t_list := l, t_elems := t_elems t - 1\<rparr>) (E - {a})"
      using ok w cores_dom [OF w(3)] by (auto simp: table_ok_def distinct_keys_remove)
    then show ?thesis
      using f(5-7) Cons w(1,3,4) h by (simp add: table_Remove_def)
  qed
qed

section \<open>Growing the table\<close>

lemma grow_length_ok:
  assumes "unat elems \<le> 2 ^ 31" "2 \<le> k" "k \<le> 31"
  shows "\<exists>n. grow_length elems (2 ^ k) = Some n \<and> n \<noteq> 0 \<and> elems \<le> n"
  using assms(2,3)
proof (induction "31 - k" arbitrary: k)
  case 0
  then have "k = 31" by simp
  moreover have "\<not> (2 ^ 31 :: u32) < elems"
    using assms(1) by (simp add: word_less_nat_alt)
  ultimately show ?case using assms(1) by (subst grow_length.simps) (auto simp: word_less_nat_alt word_le_nat_alt)
next
  case (Suc m)
  have IH: "\<exists>n. grow_length elems (2 ^ Suc k) = Some n \<and> n \<noteq> 0 \<and> elems \<le> n"
    using Suc by (intro Suc.hyps) auto
  have "(2 :: u32) ^ k \<noteq> 0" using Suc.prems by simp
  then show ?case using IH by (subst grow_length.simps) (auto simp: mult.commute)
qed

text \<open>Moving the entries of a chain into the new buckets.\<close>

lemma rehash_chain_ok:
  assumes "n \<noteq> 0" "length nl = unat n" "chain (chains_of H) p as" "distinct as" "set as \<inter> E = {}"
    and "\<forall>j < length nl. bucket (chains_of H) (nl ! j) {a \<in> E. in_bucket (cores_of H) n j a}"
  shows "\<exists>H' nl'. rehash_chain n H nl p = Some (H', nl') \<and> length nl' = unat n \<and>
    cores_of H' = cores_of H \<and> links_of H' = links_of H \<and> (\<forall>a. a \<notin> set as \<longrightarrow> H' a = H a) \<and>
    (\<forall>j < length nl'. bucket (chains_of H') (nl' ! j) {a \<in> E \<union> set as. in_bucket (cores_of H) n j a})"
  using assms(2-)
proof (induction as arbitrary: H nl p E)
  case Nil
  then show ?case by (subst rehash_chain.simps) simp
next
  case (Cons a as)
  then obtain h where h: "H a = Some h" "p = Some a" "chain (chains_of H) (h_next_hash h) as"
    by (cases "H a") (auto simp: views_at, auto simp: chains_of_def)
  define i where "i = hash_index n (h_hash h)"
  have i: "i < length nl" using hash_index_less [OF assms(1)] Cons.prems(1) by (simp add: i_def)
  define H1 where "H1 = H(a \<mapsto> h\<lparr>h_next_hash := nl ! i\<rparr>)"
  have v: "cores_of H1 = cores_of H" "links_of H1 = links_of H" "chains_of H1 = (chains_of H)(a \<mapsto> nl ! i)"
    using h by (auto simp: H1_def fun_eq_iff views_at)
  have ia: "in_bucket (cores_of H) n j a \<longleftrightarrow> j = i" for j
    using h by (auto simp: in_bucket_def i_def views_at)
  have b1: "bucket (chains_of H1) (nl[i := Some a] ! j) {b \<in> insert a E. in_bucket (cores_of H1) n j b}"
    if j: "j < length nl" for j
  proof -
    have old: "bucket (chains_of H1) (nl ! j) {b \<in> E. in_bucket (cores_of H) n j b}"
      using Cons.prems(4,5) j v(3) by (subst bucket_cong [of _ _ "chains_of H"]) auto
    show ?thesis
    proof (cases "j = i")
      case True
      from old obtain bs where bs: "chain (chains_of H1) (nl ! i) bs" "distinct bs"
          "set bs = {b \<in> E. in_bucket (cores_of H) n i b}"
        using True by (auto simp: bucket_def)
      then have "chain (chains_of H1) (Some a) (a # bs)" "distinct (a # bs)"
          "set (a # bs) = {b \<in> insert a E. in_bucket (cores_of H) n i b}"
        using v(3) Cons.prems(4) ia by auto
      then have "bucket (chains_of H1) (Some a) {b \<in> insert a E. in_bucket (cores_of H) n i b}"
        unfolding bucket_def by blast
      then show ?thesis using True i v(1) by simp
    next
      case False
      then have "{b \<in> insert a E. in_bucket (cores_of H) n j b} = {b \<in> E. in_bucket (cores_of H) n j b}"
        using ia by auto
      then show ?thesis using old False v(1) by simp
    qed
  qed
  have c1: "chain (chains_of H1) (h_next_hash h) as"
    using h(3) Cons.prems(3) v(3) by (subst chain_cong [of _ _ "chains_of H"]) auto
  have "length (nl[i := Some a]) = unat n" "distinct as" "set as \<inter> insert a E = {}"
    using Cons.prems by auto
  from Cons.IH [OF this(1) c1 this(2,3)] b1
  obtain H' nl' where IH: "rehash_chain n H1 (nl[i := Some a]) (h_next_hash h) = Some (H', nl')" "length nl' = unat n"
      "cores_of H' = cores_of H1" "links_of H' = links_of H1" "\<forall>b. b \<notin> set as \<longrightarrow> H' b = H1 b"
      "\<forall>j < length nl'. bucket (chains_of H') (nl' ! j) {b \<in> insert a E \<union> set as. in_bucket (cores_of H1) n j b}"
    by auto
  have "rehash_chain n H nl p = Some (H', nl')"
    using IH(1) h i by (subst rehash_chain.simps) (simp add: i_def H1_def hash_index_def)
  moreover have "insert a E \<union> set as = E \<union> set (a # as)" by auto
  ultimately show ?case using IH(2-) v by (auto simp: H1_def)
qed

lemma rehash_buckets_ok:
  assumes "n \<noteq> 0" "length nl = unat n" "\<forall>k < length ps. bucket (chains_of H) (ps ! k) (T k)"
    and "\<And>k l. k \<noteq> l \<Longrightarrow> T k \<inter> T l = {}" "\<And>k. T k \<inter> E = {}"
    and "\<forall>j < length nl. bucket (chains_of H) (nl ! j) {a \<in> E. in_bucket (cores_of H) n j a}"
  shows "\<exists>H' nl'. rehash_buckets n H nl ps = Some (H', nl') \<and> length nl' = unat n \<and>
    cores_of H' = cores_of H \<and> links_of H' = links_of H \<and>
    (\<forall>j < length nl'. bucket (chains_of H') (nl' ! j) {a \<in> E \<union> (\<Union>k < length ps. T k). in_bucket (cores_of H) n j a})"
  using assms(2-)
proof (induction ps arbitrary: H nl T E)
  case (Cons p ps)
  from Cons.prems(2) obtain as where as: "chain (chains_of H) p as" "distinct as" "set as = T 0"
    by (fastforce simp: bucket_def)
  from rehash_chain_ok [OF assms(1) Cons.prems(1) as(1,2) _ Cons.prems(5)] Cons.prems(4) [of 0] as(3)
  obtain H1 nl1 where 1: "rehash_chain n H nl p = Some (H1, nl1)" "length nl1 = unat n"
      "cores_of H1 = cores_of H" "links_of H1 = links_of H" "\<forall>a. a \<notin> T 0 \<longrightarrow> H1 a = H a"
      "\<forall>j < length nl1. bucket (chains_of H1) (nl1 ! j) {a \<in> E \<union> T 0. in_bucket (cores_of H) n j a}"
    by auto
  have "bucket (chains_of H1) (ps ! k) (T (Suc k))" if "k < length ps" for k
  proof -
    have "bucket (chains_of H) (ps ! k) (T (Suc k))" using Cons.prems(2) that by fastforce
    moreover have "chains_of H1 a = chains_of H a" if "a \<in> T (Suc k)" for a
    proof -
      have "a \<notin> T 0" using that Cons.prems(3) [of "Suc k" 0] by auto
      then show ?thesis using 1(5) by (simp add: chains_of_def)
    qed
    ultimately show ?thesis by (subst bucket_cong [of _ _ "chains_of H"])
  qed
  then have "\<exists>H' nl'. rehash_buckets n H1 nl1 ps = Some (H', nl') \<and> length nl' = unat n \<and>
    cores_of H' = cores_of H1 \<and> links_of H' = links_of H1 \<and>
    (\<forall>j < length nl'. bucket (chains_of H') (nl' ! j)
      {a \<in> (E \<union> T 0) \<union> (\<Union>k < length ps. T (Suc k)). in_bucket (cores_of H1) n j a})"
  proof (intro Cons.IH)
    show "T (Suc k) \<inter> T (Suc l) = {}" if "k \<noteq> l" for k l using Cons.prems(3) that by simp
    show "T (Suc k) \<inter> (E \<union> T 0) = {}" for k using Cons.prems(3) [of "Suc k" 0] Cons.prems(4) [of "Suc k"] by auto
  qed (use 1 in auto)
  moreover have "(E \<union> T 0) \<union> (\<Union>k < length ps. T (Suc k)) = E \<union> (\<Union>k < length (p # ps). T k)"
    by (auto simp: less_Suc_eq_0_disj)
  ultimately show ?case using 1 by auto
qed simp

lemma Resize_ok:
  assumes ok: "t_length t = 0 \<and> t_list t = [] \<and> E = {} \<and> t_elems t = 0 \<or> table_ok H t E" and "card E \<le> 2 ^ 31"
  shows "\<exists>H' t'. Resize H t = Some (H', t') \<and> cores_of H' = cores_of H \<and> links_of H' = links_of H \<and> table_ok H' t' E"
proof -
  have E: "unat (t_elems t) = card E" "finite E" "E \<subseteq> dom H" "distinct_keys (cores_of H) E"
    using ok by (auto simp: table_ok_def distinct_keys_def)
  obtain n where n: "grow_length (t_elems t) (2 ^ 2) = Some n" "n \<noteq> 0"
    using grow_length_ok [of "t_elems t" 2] E assms(2) by auto
  define ps where "ps = take (unat (t_length t)) (t_list t)"
  define T where "T k = {a \<in> E. in_bucket (cores_of H) (t_length t) k a}" for k
  have ps: "\<forall>k < length ps. bucket (chains_of H) (ps ! k) (T k)"
    using ok by (auto simp: table_ok_def ps_def T_def)
  have UT: "(\<Union>k < length ps. T k) = E"
  proof -
    have "a \<in> (\<Union>k < length ps. T k)" if a: "a \<in> E" for a
    proof -
      have t: "table_ok H t E" using ok a by auto
      then obtain h where "H a = Some h" using a by (auto simp: table_ok_def)
      then show ?thesis
        using t a hash_index_less [of "t_length t" "h_hash h"]
        by (auto simp: table_ok_def T_def ps_def in_bucket_def cores_of_def)
    qed
    then show ?thesis by (auto simp: T_def)
  qed
  have disjT: "T k \<inter> T l = {}" if "k \<noteq> l" for k l
    using that by (auto simp: T_def dest: in_bucket_unique)
  have "bucket (chains_of H) (replicate (unat n) None ! j) {a \<in> {}. in_bucket (cores_of H) n j a}" if "j < unat n" for j
    using that by (auto simp: bucket_def intro!: exI [of _ "[]"])
  then obtain H' nl where r: "rehash_buckets n H (replicate (unat n) None) ps = Some (H', nl)" "length nl = unat n"
      "cores_of H' = cores_of H" "links_of H' = links_of H"
      "\<forall>j < length nl. bucket (chains_of H') (nl ! j) {a \<in> E. in_bucket (cores_of H) n j a}"
    using rehash_buckets_ok [OF n(2) _ ps disjT, of "replicate (unat n) None" "{}"] UT by auto
  have "table_ok H' (t\<lparr>t_list := nl, t_length := n\<rparr>) E"
    using r E n(2) cores_dom [OF r(3)] by (simp add: table_ok_def)
  moreover have "Resize H t = Some (H', t\<lparr>t_list := nl, t_length := n\<rparr>)"
    using n r by (simp add: Resize_def ps_def)
  ultimately show ?thesis using r by auto
qed

lemma distinct_keys_insert:
  assumes "distinct_keys C E" "is_entry C E key hash p" "matches C key hash e"
  shows "distinct_keys C (insert e (E - set_option p))"
proof -
  have no: "\<not> matches C key hash b" if "b \<in> E - set_option p" for b
    using assms(1,2) that by (cases p) (auto simp: distinct_keys_def is_entry_def)
  have "a = b" if "a \<in> insert e (E - set_option p)" "b \<in> insert e (E - set_option p)" "matches C k h a" "matches C k h b" for a b k h
    using that no assms(1,3) matches_eq [OF assms(3)] by (auto simp: distinct_keys_def)
  then show ?thesis by (auto simp: distinct_keys_def)
qed

lemma table_Insert_ok:
  assumes ok: "table_ok H t E" and e: "e \<notin> E" "H e = Some he" and small: "card E < 2 ^ 31"
  shows "\<exists>p H' t'. table_Insert H t e = Some (p, H', t') \<and> is_entry (cores_of H) E (h_key he) (h_hash he) p \<and>
    cores_of H' = cores_of H \<and> links_of H' = links_of H \<and> table_ok H' t' (insert e (E - set_option p))"
proof -
  define i where "i = hash_index (t_length t) (h_hash he)"
  obtain as rest where f: "chain (chains_of H) (t_list t ! i) (as @ rest)" "distinct (as @ rest)"
      "set (as @ rest) = {a \<in> E. in_bucket (cores_of H) (t_length t) i a}" "i < length (t_list t)"
      "FindPointer H t (h_key he) (h_hash he) = Some (slot_of (Bucket i) as)"
      "read_slot H t (slot_of (Bucket i) as) = Some (head rest)" "is_entry (cores_of H) E (h_key he) (h_hash he) (head rest)"
    using FindPointer_ok [OF ok, of "h_hash he" "h_key he"] unfolding i_def by blast
  obtain nxt where nxt: "(case head rest of None \<Rightarrow> Some None | Some a \<Rightarrow> map_option h_next_hash (H a)) = Some nxt"
      "chain (chains_of H) nxt (tl rest)"
    using chain_tail [OF f(1)] by (cases rest) (auto simp: views_at, auto simp: chains_of_def)
  define H1 where "H1 = H(e \<mapsto> he\<lparr>h_next_hash := nxt\<rparr>)"
  have v: "cores_of H1 = cores_of H" "links_of H1 = links_of H" "chains_of H1 = (chains_of H)(e \<mapsto> nxt)"
    using e by (auto simp: H1_def fun_eq_iff views_at)
  have eas: "e \<notin> set (as @ rest)" using f(3) e by auto
  have tl: "set (tl rest) \<subseteq> set rest" by (cases rest) auto
  have c1: "chain (chains_of H1) (t_list t ! i) (as @ rest)" "chain (chains_of H1) (Some e) (e # tl rest)"
  proof -
    have *: "chain (chains_of H1) q bs = chain (chains_of H) q bs" if "set bs \<subseteq> set (as @ rest)" for q bs
      using that eas v(3) by (intro chain_cong) auto
    show "chain (chains_of H1) (t_list t ! i) (as @ rest)" using * f(1) by simp
    show "chain (chains_of H1) (Some e) (e # tl rest)" using * [of "tl rest" nxt] nxt(2) tl v(3) by auto
  qed
  define E' where "E' = insert e (E - set_option (head rest))"
  have ie: "in_bucket (cores_of H) (t_length t) j e \<longleftrightarrow> j = i" for j
    using e by (auto simp: in_bucket_def i_def views_at)
  have ih: "j = i" if "head rest = Some a" "in_bucket (cores_of H) (t_length t) j a" for a j
    using that f(3) by (cases rest) (auto dest: in_bucket_unique)
  have S': "set (as @ e # tl rest) = {a \<in> E'. in_bucket (cores_of H) (t_length t) i a}"
    using f(2,3) ie unfolding E'_def by (cases rest) auto
  have Sj: "{a \<in> E'. in_bucket (cores_of H) (t_length t) j a} = {a \<in> E. in_bucket (cores_of H) (t_length t) j a}"
    if "j \<noteq> i" for j
    using that ie ih unfolding E'_def by (cases "head rest") auto
  have bk: "\<forall>j < length (t_list t). bucket (chains_of H1) (t_list t ! j) {a \<in> E. in_bucket (cores_of H) (t_length t) j a}"
  proof -
    have "bucket (chains_of H1) q {a \<in> E. P a} = bucket (chains_of H) q {a \<in> E. P a}" for q P
      using e(1) v(3) by (intro bucket_cong) auto
    then show ?thesis using ok by (simp add: table_ok_def)
  qed
  have dst: "distinct (as @ e # tl rest)" using f(2) eas tl by (auto simp: distinct_tl)
  have dj: "{a \<in> E'. in_bucket (cores_of H) (t_length t) j a} = {a \<in> E. in_bucket (cores_of H) (t_length t) j a} \<and>
      {a \<in> E. in_bucket (cores_of H) (t_length t) i a} \<inter> {a \<in> E. in_bucket (cores_of H) (t_length t) j a} = {}"
    if "j \<noteq> i" for j
    using that Sj by (auto dest: in_bucket_unique)
  obtain H' l where w: "write_slot H1 t (slot_of (Bucket i) as) (Some e) = Some (H', t\<lparr>t_list := l\<rparr>)"
      "length l = length (t_list t)" "cores_of H' = cores_of H" "links_of H' = links_of H"
      "\<forall>j < length l. bucket (chains_of H') (l ! j) {a \<in> E'. in_bucket (cores_of H) (t_length t) j a}"
    using table_write [OF bk f(4) c1(1) f(3) c1(2) dst, of "\<lambda>j. {a \<in> E'. in_bucket (cores_of H) (t_length t) j a}"] S' dj v
    by auto
  have dk: "distinct_keys (cores_of H) E'"
    using ok f(7) matchesI [of H e, OF e(2)] unfolding E'_def by (intro distinct_keys_insert) (auto simp: table_ok_def)
  define t1 where "t1 = t\<lparr>t_list := l, t_elems := (if head rest = None then t_elems t + 1 else t_elems t)\<rparr>"
  have cE: "card E' = unat (t_elems t1)" "card E' \<le> 2 ^ 31"
  proof -
    have fin: "finite E" and cd: "card E = unat (t_elems t)" using ok by (auto simp: table_ok_def)
    show "card E' = unat (t_elems t1)"
    proof (cases "head rest")
      case None
      have "unat (t_elems t + 1) = unat (t_elems t) + 1"
        using cd small by (subst unat_add_lem [THEN iffD1]) auto
      then show ?thesis using None fin cd e(1) by (simp add: E'_def t1_def)
    next
      case (Some a)
      then have "a \<in> E" using f(7) by (simp add: is_entry_def)
      then have "card (insert e (E - {a})) = card E"
        using e(1) fin by (simp add: card.insert_remove card_gt_0_iff Suc_diff_le card_Suc_Diff1 del: card_Diff_insert)
      then show ?thesis using Some cd by (simp add: E'_def t1_def)
    qed
    have "card E' \<le> card (insert e E)" using fin by (intro card_mono) (auto simp: E'_def)
    then show "card E' \<le> 2 ^ 31" using small fin e(1) by simp
  qed
  have ok1: "table_ok H' t1 E'"
    using ok e(2) w cE(1) dk cores_dom [OF w(3)] by (auto simp: table_ok_def t1_def E'_def)
  show ?thesis
  proof (cases "head rest = None \<and> t_length t1 < t_elems t1")
    case False
    then have "table_Insert H t e = Some (head rest, H', t1)"
      using e(2) f(5,6) nxt(1) w(1) by (auto simp: table_Insert_def H1_def t1_def Let_def)
    then show ?thesis using f(7) w ok1 unfolding E'_def by blast
  next
    case True
    obtain H2 t2 where r: "Resize H' t1 = Some (H2, t2)" "cores_of H2 = cores_of H'" "links_of H2 = links_of H'"
        "table_ok H2 t2 E'"
      using Resize_ok [of t1 E' H'] ok1 cE(2) by blast
    then have "table_Insert H t e = Some (head rest, H2, t2)"
      using True e(2) f(5,6) nxt(1) w(1) by (auto simp: table_Insert_def H1_def t1_def Let_def)
    then show ?thesis using f(7) w r unfolding E'_def by metis
  qed
qed

end
