(* ===== verification/LdbCacheInv.thy ===== *)
theory LdbCacheInv
  imports LdbCacheTable "HOL-Library.Multiset"
begin

text \<open>
  The invariant of a block cache (\<open>util/cache.cc\<close>): which entries are in the table, in which ring, and with how
  many references. Every operation keeps it, given what the clients hold.
\<close>

section \<open>The two rings\<close>

definition rings :: "'v handles \<Rightarrow> addr list \<Rightarrow> addr list \<Rightarrow> bool" where
  "rings H L U = (ring H lru_head L \<and> ring H in_use_head U \<and> distinct (lru_head # in_use_head # L @ U))"

definition without :: "addr \<Rightarrow> addr list \<Rightarrow> addr list" where
  "without e xs = filter (\<lambda>a. a \<noteq> e) xs"

lemma without_id [simp]: "e \<notin> set xs \<Longrightarrow> without e xs = xs"
  by (auto simp: without_def intro!: filter_True)

lemma set_without [simp]: "set (without e xs) = set xs - {e}"
  and distinct_without [simp]: "distinct xs \<Longrightarrow> distinct (without e xs)"
  and without_append [simp]: "without e (xs @ ys) = without e xs @ without e ys"
  and without_Cons [simp]: "without e (x # xs) = (if x = e then without e xs else x # without e xs)"
  and without_Nil [simp]: "without e [] = []"
  by (auto simp: without_def)

lemma rings_cong: "links_of H' = links_of H \<Longrightarrow> rings H' L U = rings H L U"
  using ring_cong [of _ _ H' H] by (simp add: rings_def)

lemma rings_remove:
  assumes "rings H L U" "e \<in> set L \<union> set U"
  shows "\<exists>H'. LRU_Remove e H = Some H' \<and> rings H' (without e L) (without e U) \<and> cores_of H' = cores_of H \<and>
    chains_of H' = chains_of H"
proof -
  have d: "distinct (lru_head # in_use_head # L @ U)" "ring H lru_head L" "ring H in_use_head U"
    using assms(1) by (auto simp: rings_def)
  consider (L) "e \<in> set L" | (U) "e \<in> set U" using assms(2) by auto
  then show ?thesis
  proof cases
    case L
    then obtain xs ys where xs: "L = xs @ e # ys" by (auto simp: in_set_conv_decomp)
    then obtain H' where H': "LRU_Remove e H = Some H'" "ring H' lru_head (xs @ ys)" "cores_of H' = cores_of H"
        "chains_of H' = chains_of H" "\<forall>a. a \<notin> set (lru_head # xs @ ys) \<longrightarrow> H' a = H a"
      using LRU_Remove_ring d(2) by blast
    have "ring H' in_use_head U = ring H in_use_head U"
    proof (rule ring_cong)
      fix a assume "a \<in> set (in_use_head # U)"
      then have "a \<notin> set (lru_head # xs @ ys)" using d(1) xs by auto
      then show "links_of H' a = links_of H a" using H'(5) by (simp add: links_of_def)
    qed
    then show ?thesis using H' d xs by (auto simp: rings_def)
  next
    case U
    then obtain xs ys where xs: "U = xs @ e # ys" by (auto simp: in_set_conv_decomp)
    then obtain H' where H': "LRU_Remove e H = Some H'" "ring H' in_use_head (xs @ ys)" "cores_of H' = cores_of H"
        "chains_of H' = chains_of H" "\<forall>a. a \<notin> set (in_use_head # xs @ ys) \<longrightarrow> H' a = H a"
      using LRU_Remove_ring d(3) by blast
    have "ring H' lru_head L = ring H lru_head L"
    proof (rule ring_cong)
      fix a assume "a \<in> set (lru_head # L)"
      then have "a \<notin> set (in_use_head # xs @ ys)" using d(1) xs by auto
      then show "links_of H' a = links_of H a" using H'(5) by (simp add: links_of_def)
    qed
    then show ?thesis using H' d xs by (auto simp: rings_def)
  qed
qed

lemma rings_append:
  assumes "rings H L U" "H e \<noteq> None" "e \<notin> set (lru_head # in_use_head # L @ U)"
  shows "\<exists>H'. LRU_Append lru_head e H = Some H' \<and> rings H' (L @ [e]) U \<and> cores_of H' = cores_of H \<and>
      chains_of H' = chains_of H"
    and "\<exists>H'. LRU_Append in_use_head e H = Some H' \<and> rings H' L (U @ [e]) \<and> cores_of H' = cores_of H \<and>
      chains_of H' = chains_of H"
proof -
  have d: "distinct (lru_head # in_use_head # L @ U)" "ring H lru_head L" "ring H in_use_head U"
    using assms(1) by (auto simp: rings_def)
  obtain he where he: "H e = Some he" using assms(2) by auto
  obtain H' where H': "LRU_Append lru_head e H = Some H'" "ring H' lru_head (L @ [e])" "cores_of H' = cores_of H"
      "chains_of H' = chains_of H" "\<forall>a. a \<notin> set (lru_head # L @ [e]) \<longrightarrow> H' a = H a"
    using LRU_Append_ring [OF d(2), of e he] he assms(3) by auto
  have "ring H' in_use_head U = ring H in_use_head U"
  proof (rule ring_cong)
    fix a assume "a \<in> set (in_use_head # U)"
    then have "a \<notin> set (lru_head # L @ [e])" using d(1) assms(3) by auto
    then show "links_of H' a = links_of H a" using H'(5) by (simp add: links_of_def)
  qed
  then show "\<exists>H'. LRU_Append lru_head e H = Some H' \<and> rings H' (L @ [e]) U \<and> cores_of H' = cores_of H \<and>
      chains_of H' = chains_of H"
    using H' d assms(3) by (auto simp: rings_def)
  obtain H' where H': "LRU_Append in_use_head e H = Some H'" "ring H' in_use_head (U @ [e])" "cores_of H' = cores_of H"
      "chains_of H' = chains_of H" "\<forall>a. a \<notin> set (in_use_head # U @ [e]) \<longrightarrow> H' a = H a"
    using LRU_Append_ring [OF d(3), of e he] he assms(3) by auto
  have "ring H' lru_head L = ring H lru_head L"
  proof (rule ring_cong)
    fix a assume "a \<in> set (lru_head # L)"
    then have "a \<notin> set (in_use_head # U @ [e])" using d(1) assms(3) by auto
    then show "links_of H' a = links_of H a" using H'(5) by (simp add: links_of_def)
  qed
  then show "\<exists>H'. LRU_Append in_use_head e H = Some H' \<and> rings H' L (U @ [e]) \<and> cores_of H' = cores_of H \<and>
      chains_of H' = chains_of H"
    using H' d assms(3) by (auto simp: rings_def)
qed

lemma rings_dom: "rings H L U \<Longrightarrow> set (lru_head # in_use_head # L @ U) \<subseteq> dom H"
  using ring_dom [of H lru_head L] ring_dom [of H in_use_head U] by (auto simp: rings_def)

section \<open>What an operation keeps of the entries\<close>

definition data_of :: "'v handles \<Rightarrow> addr \<Rightarrow> (slice \<times> u32 \<times> 'v \<times> u64) option" where
  "data_of H a = map_option (\<lambda>h. (h_key h, h_hash h, h_value h, h_charge h)) (H a)"

lemma data_of_cores: "cores_of H' = cores_of H \<Longrightarrow> data_of H' = data_of H"
proof
  fix a assume "cores_of H' = cores_of H"
  then have "map_option core (H' a) = map_option core (H a)" by (metis cores_of_def)
  then show "data_of H' a = data_of H a"
    by (cases "H a"; cases "H' a") (auto simp: data_of_def dest: arg_cong [of _ _ h_key] arg_cong [of _ _ h_hash]
      arg_cong [of _ _ h_value] arg_cong [of _ _ h_charge])
qed

lemma cores_SomeD: "cores_of H' = cores_of H \<Longrightarrow> H a = Some h \<Longrightarrow> \<exists>h'. H' a = Some h' \<and> core h' = core h"
proof -
  assume "cores_of H' = cores_of H" "H a = Some h"
  then have "map_option core (H' a) = Some (core h)" by (metis cores_of_def option.simps(9))
  then show ?thesis by auto
qed

lemma table_ok_data:
  assumes "table_ok H t E" "\<And>a. a \<in> E \<Longrightarrow> data_of H' a = data_of H a \<and> chains_of H' a = chains_of H a"
  shows "table_ok H' t E"
proof -
  have m: "matches (cores_of H') key hash a = matches (cores_of H) key hash a"
    "in_bucket (cores_of H') n i a = in_bucket (cores_of H) n i a" if "a \<in> E" for a key hash n i
    using assms(2) [OF that] by (cases "H a"; cases "H' a"; auto simp: data_of_def matches_def in_bucket_def cores_of_def)+
  have "bucket (chains_of H') p {a \<in> E. P a} = bucket (chains_of H) p {a \<in> E. P a}" for p P
    using assms(2) by (intro bucket_cong) auto
  moreover have "{a \<in> E. in_bucket (cores_of H') n i a} = {a \<in> E. in_bucket (cores_of H) n i a}" for n i
    using m(2) by auto
  moreover have "distinct_keys (cores_of H') E = distinct_keys (cores_of H) E"
    using m(1) by (auto simp: distinct_keys_def)
  moreover have "E \<subseteq> dom H'"
  proof
    fix a assume a: "a \<in> E"
    then have "H a \<noteq> None" using assms(1) by (auto simp: table_ok_def)
    then show "a \<in> dom H'" using assms(2) [OF a] by (auto simp: data_of_def)
  qed
  ultimately show ?thesis using assms(1) by (simp add: table_ok_def)
qed

section \<open>The invariant of the cache\<close>

abbreviation entries :: "addr list \<Rightarrow> addr list \<Rightarrow> addr set" where
  "entries L U \<equiv> set L \<union> set U"

definition charge_at :: "'v handles \<Rightarrow> addr \<Rightarrow> u64" where
  "charge_at H a = (case H a of None \<Rightarrow> 0 | Some h \<Rightarrow> h_charge h)"

text \<open>The entries \<open>E\<close> of the cache are those marked so, and a handle has the references \<open>R\<close>.\<close>

definition counted :: "'v handles \<Rightarrow> (addr \<Rightarrow> nat) \<Rightarrow> addr set \<Rightarrow> bool" where
  "counted H R E =
     ((\<forall>a h. a \<notin> {lru_head, in_use_head} \<longrightarrow> H a = Some h \<longrightarrow>
         h_in_cache h = (a \<in> E) \<and> unat (h_refs h) = R a \<and> 0 < R a) \<and>
      (\<forall>a. H a = None \<or> a \<in> {lru_head, in_use_head} \<longrightarrow> R a = 0))"

definition cache_inv :: "'v lru_cache \<Rightarrow> (addr \<Rightarrow> nat) \<Rightarrow> addr list \<Rightarrow> addr list \<Rightarrow> bool" where
  "cache_inv c R L U =
     (rings (c_handles c) L U \<and> table_ok (c_handles c) (c_table c) (entries L U) \<and>
      counted (c_handles c) R (entries L U) \<and> c_usage c = (\<Sum>a \<in> entries L U. charge_at (c_handles c) a) \<and>
      dom (c_handles c) \<subseteq> {..<c_brk c})"

definition live_handles :: "'v handles \<Rightarrow> addr set" where
  "live_handles H = dom H - {lru_head, in_use_head}"

definition key_value :: "'v handles \<Rightarrow> addr \<Rightarrow> slice \<times> 'v" where
  "key_value H a = (h_key (the (H a)), h_value (the (H a)))"

text \<open>Every entry ever made: those passed to their deleter and those that are still there.\<close>

definition owned :: "'v lru_cache \<Rightarrow> (slice \<times> 'v) multiset" where
  "owned c = mset (c_deleted c) + image_mset (key_value (c_handles c)) (mset_set (live_handles (c_handles c)))"

definition keeps :: "'v lru_cache \<Rightarrow> 'v lru_cache \<Rightarrow> bool" where
  "keeps c c' =
     (c_capacity c' = c_capacity c \<and> c_brk c' = c_brk c \<and> owned c' = owned c \<and>
      (\<forall>a. c_handles c' a \<noteq> None \<longrightarrow> data_of (c_handles c') a = data_of (c_handles c) a))"

lemma keeps_refl [simp]: "keeps c c"
  by (simp add: keeps_def)

lemma data_None: "data_of H a = None \<longleftrightarrow> H a = None"
  by (simp add: data_of_def)

lemma keeps_trans:
  assumes "keeps c c'" "keeps c' c''"
  shows "keeps c c''"
proof -
  have "data_of (c_handles c'') a = data_of (c_handles c) a" if a: "c_handles c'' a \<noteq> None" for a
  proof -
    have 2: "data_of (c_handles c'') a = data_of (c_handles c') a" using assms(2) a by (simp add: keeps_def)
    then have "c_handles c' a \<noteq> None" using a data_None [of "c_handles c'" a] data_None [of "c_handles c''" a] by simp
    then show ?thesis using 2 assms(1) by (simp add: keeps_def)
  qed
  then show ?thesis using assms by (simp add: keeps_def)
qed

lemma data_dom:
  assumes "data_of H' = data_of H"
  shows "dom H' = dom H"
  using assms data_None [of H'] data_None [of H] by (simp add: dom_def)

lemma data_charge: "data_of H' a = data_of H a \<Longrightarrow> charge_at H' a = charge_at H a"
  and data_key_value: "data_of H' a = data_of H a \<Longrightarrow> key_value H' a = key_value H a"
  by (cases "H a"; cases "H' a"; simp add: data_of_def charge_at_def key_value_def)+

lemma owned_cong:
  assumes "data_of (c_handles c') = data_of (c_handles c)" "c_deleted c' = c_deleted c"
  shows "owned c' = owned c"
proof -
  have "key_value (c_handles c') = key_value (c_handles c)"
    using assms(1) by (intro ext data_key_value) simp
  then show ?thesis using assms data_dom [OF assms(1)] by (simp add: owned_def live_handles_def)
qed

lemma keeps_cong:
  assumes "data_of (c_handles c') = data_of (c_handles c)" "c_deleted c' = c_deleted c" "c_capacity c' = c_capacity c"
    "c_brk c' = c_brk c"
  shows "keeps c c'"
  using assms owned_cong [OF assms(1,2)] by (simp add: keeps_def)

lemma countedD:
  assumes "counted H R E" "H a = Some h" "a \<notin> {lru_head, in_use_head}"
  shows "h_in_cache h = (a \<in> E)" "unat (h_refs h) = R a" "0 < R a"
  using assms by (auto simp: counted_def)

lemma counted_cores:
  assumes c: "cores_of H' = cores_of H" and n: "counted H R E"
  shows "counted H' R E"
proof -
  have "h_in_cache h' = (a \<in> E) \<and> unat (h_refs h') = R a \<and> 0 < R a"
    if a: "a \<notin> {lru_head, in_use_head}" "H' a = Some h'" for a h'
  proof -
    obtain h where h: "H a = Some h" "core h = core h'" using cores_SomeD [OF c [symmetric] a(2)] by blast
    then have "h_in_cache h = h_in_cache h'" "h_refs h = h_refs h'" by (metis core_sel(4,5))+
    then show ?thesis using countedD [OF n h(1) a(1)] by simp
  qed
  moreover have "H' a = None \<longleftrightarrow> H a = None" for a using cores_dom [OF c] by (auto simp: domIff)
  ultimately show ?thesis using n by (simp add: counted_def)
qed

lemma counted_upd:
  assumes n: "counted H R E" and e: "e \<notin> {lru_head, in_use_head}"
    and h: "unat (h_refs h') = r" "0 < r" "h_in_cache h' = (e \<in> E')" and E': "\<And>a. a \<noteq> e \<Longrightarrow> a \<in> E' \<longleftrightarrow> a \<in> E"
  shows "counted (H(e \<mapsto> h')) (R(e := r)) E'"
  unfolding counted_def
proof (intro conjI allI impI)
  fix a h assume a: "a \<notin> {lru_head, in_use_head}" "(H(e \<mapsto> h')) a = Some h"
  then show "h_in_cache h = (a \<in> E')" "unat (h_refs h) = (R(e := r)) a" "0 < (R(e := r)) a"
    using h E' countedD [OF n, of a h] by (cases "a = e"; simp)+
next
  fix a assume "(H(e \<mapsto> h')) a = None \<or> a \<in> {lru_head, in_use_head}"
  then show "(R(e := r)) a = 0" using n e by (auto simp: counted_def split: if_splits)
qed

section \<open>References\<close>

lemma put_refs:
  assumes "H e = Some h"
  shows "data_of (H(e \<mapsto> h\<lparr>h_refs := r, h_in_cache := b\<rparr>)) = data_of H"
    "links_of (H(e \<mapsto> h\<lparr>h_refs := r, h_in_cache := b\<rparr>)) = links_of H"
    "chains_of (H(e \<mapsto> h\<lparr>h_refs := r, h_in_cache := b\<rparr>)) = chains_of H"
  using assms by (auto simp: fun_eq_iff data_of_def links_of_def chains_of_def)

text \<open>The rings, the table and the counts of a cache, changed in its handles only.\<close>

lemma cache_inv_handles:
  assumes inv: "cache_inv c R L U" and r: "rings H' L' U'" "entries L' U' = entries L U"
    and d: "data_of H' = data_of (c_handles c)" "chains_of H' = chains_of (c_handles c)" and n: "counted H' R' (entries L U)"
  shows "cache_inv (c\<lparr>c_handles := H'\<rparr>) R' L' U'" "keeps c (c\<lparr>c_handles := H'\<rparr>)"
proof -
  have "table_ok H' (c_table c) (entries L U)"
  proof (rule table_ok_data)
    show "table_ok (c_handles c) (c_table c) (entries L U)" using inv by (simp add: cache_inv_def)
  qed (simp add: d)
  moreover have "(\<Sum>a \<in> entries L U. charge_at H' a) = (\<Sum>a \<in> entries L U. charge_at (c_handles c) a)"
    by (rule sum.cong [OF refl], rule data_charge) (simp add: d(1))
  ultimately show "cache_inv (c\<lparr>c_handles := H'\<rparr>) R' L' U'"
    using inv r n data_dom [OF d(1)] by (simp add: cache_inv_def)
  show "keeps c (c\<lparr>c_handles := H'\<rparr>)"
    using d(1) by (intro keeps_cong) simp_all
qed

lemma cache_Ref_ok:
  assumes inv: "cache_inv c R L U" and e: "e \<in> entries L U" "R e + 1 < 2 ^ 32" "e \<in> set L \<longleftrightarrow> R e = 1"
  shows "\<exists>c' U'. cache_Ref e c = Some c' \<and> cache_inv c' (R(e := R e + 1)) (without e L) U' \<and> keeps c c' \<and>
    set U' = insert e (set U) \<and> c_deleted c' = c_deleted c"
proof -
  let ?H = "c_handles c"
  have rg: "rings ?H L U" and n: "counted ?H R (entries L U)" using inv by (auto simp: cache_inv_def)
  obtain h where h: "?H e = Some h" using rings_dom [OF rg] e(1) by auto
  have hd: "e \<notin> {lru_head, in_use_head}" using rg e(1) by (auto simp: rings_def)
  have hc: "h_in_cache h" "unat (h_refs h) = R e" using countedD [OF n h hd] e(1) by auto
  have r1: "unat (h_refs h + 1) = R e + 1" using hc(2) e(2) by (subst unat_add_lem [THEN iffD1]) auto
  obtain H1 U' where 1: "(if h_refs h = 1 \<and> h_in_cache h then Option.bind (LRU_Remove e ?H) (LRU_Append in_use_head e)
      else Some ?H) = Some H1" "rings H1 (without e L) U'" "set U' = insert e (set U)" "cores_of H1 = cores_of ?H"
      "chains_of H1 = chains_of ?H"
  proof (cases "h_refs h = 1")
    case True
    then have eL: "e \<in> set L" "e \<notin> set U" using e(3) hc(2) rg by (auto simp: rings_def)
    obtain H0 where H0: "LRU_Remove e ?H = Some H0" "rings H0 (without e L) (without e U)" "cores_of H0 = cores_of ?H"
        "chains_of H0 = chains_of ?H"
      using rings_remove [OF rg e(1)] by blast
    have "H0 e \<noteq> None" using cores_dom [OF H0(3)] h by auto
    from rings_append(2) [OF H0(2) this] hd obtain H1 where "LRU_Append in_use_head e H0 = Some H1"
        "rings H1 (without e L) (without e U @ [e])" "cores_of H1 = cores_of H0" "chains_of H1 = chains_of H0"
      by auto
    then show thesis using that [of H1 "without e U @ [e]"] True hc H0 eL by auto
  next
    case False
    then have "R e \<noteq> 1" using hc(2) by (metis unat_1 word_unat_eq_iff)
    then have "e \<notin> set L" "e \<in> set U" using e by auto
    then show thesis using that [of ?H U] False rg by auto
  qed
  obtain h1 where h1: "H1 e = Some h1" "core h1 = core h" using cores_SomeD [OF 1(4) h] by auto
  define H' where "H' = H1(e \<mapsto> h1\<lparr>h_refs := h_refs h + 1, h_in_cache := True\<rparr>)"
  have eq: "h1\<lparr>h_refs := h_refs h1 + 1\<rparr> = h1\<lparr>h_refs := h_refs h + 1, h_in_cache := True\<rparr>"
    using h1(2) hc by (cases h1) (auto dest: arg_cong [of _ _ h_refs] arg_cong [of _ _ h_in_cache])
  have run: "cache_Ref e c = Some (c\<lparr>c_handles := H'\<rparr>)"
    using h 1(1) h1 by (simp add: cache_Ref_def put_def H'_def eq)
  have "counted H1 R (entries L U)" using counted_cores [OF 1(4) n] .
  then have "counted H' (R(e := R e + 1)) (entries L U)"
    unfolding H'_def by (rule counted_upd) (use hd e(1) r1 in auto)
  moreover have "rings H' (without e L) U'"
    using rings_cong [OF put_refs(2) [of H1 e, OF h1(1)]] 1(2) by (simp add: H'_def)
  moreover have "data_of H' = data_of ?H" "chains_of H' = chains_of ?H"
    using put_refs(1,3) [of H1 e, OF h1(1)] 1(5) data_of_cores [OF 1(4)] by (simp_all add: H'_def)
  moreover have "entries (without e L) U' = entries L U" using 1(3) e(1) by auto
  ultimately show ?thesis
    using run 1(3) cache_inv_handles [OF inv, of H' "without e L" U' "R(e := R e + 1)"] by auto
qed

lemma live_handles_finite: "dom H \<subseteq> {..<n} \<Longrightarrow> finite (live_handles H)"
  by (metis finite_Diff finite_lessThan finite_subset live_handles_def)

lemma owned_free:
  assumes "c_handles c e = Some h" "e \<notin> {lru_head, in_use_head}" "finite (live_handles (c_handles c))"
  shows "owned (c\<lparr>c_handles := (c_handles c)(e := None), c_deleted := c_deleted c @ [(h_key h, h_value h)]\<rparr>) = owned c"
proof -
  let ?H = "c_handles c" and ?H' = "(c_handles c)(e := None)"
  have l: "live_handles ?H = insert e (live_handles ?H')" "e \<notin> live_handles ?H'" "finite (live_handles ?H')"
    using assms by (auto simp: live_handles_def)
  have "image_mset (key_value ?H') (mset_set (live_handles ?H')) = image_mset (key_value ?H) (mset_set (live_handles ?H'))"
    using l by (intro image_mset_cong) (auto simp: key_value_def)
  then show ?thesis using assms(1) l by (simp add: owned_def key_value_def)
qed

lemma cache_Unref_ok:
  assumes inv: "cache_inv c R L U" and e: "e \<in> live_handles (c_handles c)" "e \<in> entries L U \<Longrightarrow> e \<in> set U \<and> 2 \<le> R e"
  shows "\<exists>c' L' U'. cache_Unref e c = Some c' \<and> cache_inv c' (R(e := R e - 1)) L' U' \<and> keeps c c' \<and>
    (L', U') = (if e \<in> entries L U \<and> R e = 2 then (L @ [e], without e U) else (L, U)) \<and>
    (\<forall>a. a \<noteq> e \<longrightarrow> c_handles c' a = None \<longrightarrow> c_handles c a = None) \<and> (c_handles c' e = None \<longleftrightarrow> R e = 1)"
proof -
  let ?H = "c_handles c"
  have rg: "rings ?H L U" and n: "counted ?H R (entries L U)" and fin: "finite (live_handles ?H)"
    using inv live_handles_finite by (auto simp: cache_inv_def)
  obtain h where h: "?H e = Some h" using e(1) by (auto simp: live_handles_def)
  have hd: "e \<notin> {lru_head, in_use_head}" using e(1) by (auto simp: live_handles_def)
  have hc: "h_in_cache h = (e \<in> entries L U)" "unat (h_refs h) = R e" "0 < R e" using countedD [OF n h hd] by auto
  have "h_refs h \<noteq> 0" using hc by auto
  then have r1: "unat (h_refs h - 1) = R e - 1" using hc(2) by (simp add: unat_minus_one)
  define h1 where "h1 = h\<lparr>h_refs := h_refs h - 1\<rparr>"
  define H1 where "H1 = ?H(e \<mapsto> h1)"
  have h1: "h1 = h\<lparr>h_refs := h_refs h - 1, h_in_cache := h_in_cache h\<rparr>" by (cases h) (simp add: h1_def)
  have v: "data_of H1 = data_of ?H" "links_of H1 = links_of ?H" "chains_of H1 = chains_of ?H"
    unfolding H1_def h1 by (rule put_refs [of ?H e, OF h])+
  have rg1: "rings H1 L U" using rings_cong [OF v(2)] rg by simp
  show ?thesis
  proof (cases "R e = 1")
    case True
    then have z: "h_refs h - 1 = 0" using r1 by (metis diff_self_eq_0 unat_eq_zero)
    have nE: "e \<notin> entries L U" using e(2) True by auto
    define c' where "c' = c\<lparr>c_handles := ?H(e := None), c_deleted := c_deleted c @ [(h_key h, h_value h)]\<rparr>"
    have run: "cache_Unref e c = Some c'"
      using h z by (simp add: cache_Unref_def put_def c'_def)
    have t: "table_ok (c_handles c') (c_table c') (entries L U)"
    proof (rule table_ok_data)
      show "table_ok ?H (c_table c') (entries L U)" using inv by (simp add: cache_inv_def c'_def)
      fix a assume "a \<in> entries L U"
      then have "a \<noteq> e" using nE by auto
      then show "data_of (c_handles c') a = data_of ?H a \<and> chains_of (c_handles c') a = chains_of ?H a"
        by (simp add: c'_def data_of_def chains_of_def)
    qed
    have "ring (c_handles c') lru_head L = ring ?H lru_head L" "ring (c_handles c') in_use_head U = ring ?H in_use_head U"
      using nE hd by (intro ring_cong; auto simp: c'_def links_of_def)+
    then have r': "rings (c_handles c') L U" using rg by (simp add: rings_def)
    have u: "c_usage c' = (\<Sum>a \<in> entries L U. charge_at (c_handles c') a)"
    proof -
      have "(\<Sum>a \<in> entries L U. charge_at (c_handles c') a) = (\<Sum>a \<in> entries L U. charge_at ?H a)"
        by (rule sum.cong [OF refl]) (use nE in \<open>auto simp: c'_def charge_at_def\<close>)
      then show ?thesis using inv by (simp add: cache_inv_def c'_def)
    qed
    have n': "counted (c_handles c') (R(e := R e - 1)) (entries L U)"
      using n True unfolding counted_def c'_def by simp
    have "cache_inv c' (R(e := R e - 1)) L U"
      using r' t n' u inv by (auto simp: cache_inv_def c'_def)
    moreover have "keeps c c'"
      using owned_free [OF h hd fin] by (auto simp: keeps_def c'_def data_of_def)
    moreover have "\<forall>a. a \<noteq> e \<longrightarrow> c_handles c' a = None \<longrightarrow> c_handles c a = None" "c_handles c' e = None"
      by (simp_all add: c'_def)
    ultimately show ?thesis using run True nE by (intro exI [of _ c'] exI [of _ L] exI [of _ U]) simp
  next
    case False
    then have nz: "h_refs h - 1 \<noteq> 0" using r1 hc(3) by (metis Suc_leI diff_is_0_eq le_antisym One_nat_def unat_0)
    have one: "h_refs h - 1 = 1 \<longleftrightarrow> R e = 2"
      using r1 hc(3) by (auto simp: word_unat_eq_iff)
    have n1: "counted H1 (R(e := R e - 1)) (entries L U)"
      unfolding H1_def by (rule counted_upd [OF n hd]) (use r1 hc False in \<open>auto simp: h1_def\<close>)
    show ?thesis
    proof (cases "e \<in> entries L U \<and> R e = 2")
      case True
      then have eU: "e \<in> set U" "e \<notin> set L" using e(2) rg by (auto simp: rings_def)
      obtain H2 where H2: "LRU_Remove e H1 = Some H2" "rings H2 (without e L) (without e U)" "cores_of H2 = cores_of H1"
          "chains_of H2 = chains_of H1"
        using rings_remove [OF rg1] True by blast
      have "H2 e \<noteq> None" using cores_dom [OF H2(3)] by (auto simp: H1_def)
      from rings_append(1) [OF H2(2) this] hd eU obtain H3 where H3: "LRU_Append lru_head e H2 = Some H3"
          "rings H3 (L @ [e]) (without e U)" "cores_of H3 = cores_of H2" "chains_of H3 = chains_of H2"
        by auto
      have co: "cores_of H3 = cores_of H1" using H2(3) H3(3) by simp
      have d3: "data_of H3 = data_of ?H" using data_of_cores [OF co] v(1) by simp
      have "entries (L @ [e]) (without e U) = entries L U" using eU by auto
      then have "cache_inv (c\<lparr>c_handles := H3\<rparr>) (R(e := R e - 1)) (L @ [e]) (without e U)" "keeps c (c\<lparr>c_handles := H3\<rparr>)"
        using cache_inv_handles [OF inv H3(2) _ d3 _ counted_cores [OF co n1]] H3(4) H2(4) v(3) by auto
      moreover have "cache_Unref e c = Some (c\<lparr>c_handles := H3\<rparr>)"
        using h nz one True hc H2(1) H3(1) by (simp add: cache_Unref_def put_def H1_def h1_def)
      moreover have "dom H3 = dom ?H" using data_dom [OF d3] .
      ultimately show ?thesis
        using True False h by (intro exI [of _ "c\<lparr>c_handles := H3\<rparr>"]) (auto simp: domIff)
    next
      case other: False
      have "cache_inv (c\<lparr>c_handles := H1\<rparr>) (R(e := R e - 1)) L U" "keeps c (c\<lparr>c_handles := H1\<rparr>)"
        using cache_inv_handles [OF inv rg1 refl v(1,3) n1] by auto
      moreover have "cache_Unref e c = Some (c\<lparr>c_handles := H1\<rparr>)"
        using h nz one other hc by (auto simp: cache_Unref_def put_def H1_def h1_def)
      ultimately show ?thesis
        using other False h by (intro exI [of _ "c\<lparr>c_handles := H1\<rparr>"]) (auto simp: H1_def)
    qed
  qed
qed

section \<open>Erasing\<close>

text \<open>An entry \<open>p\<close> that has left the table and not yet the rings.\<close>

definition cache_inv_but :: "addr option \<Rightarrow> 'v lru_cache \<Rightarrow> (addr \<Rightarrow> nat) \<Rightarrow> addr list \<Rightarrow> addr list \<Rightarrow> bool" where
  "cache_inv_but p c R L U =
     (rings (c_handles c) L U \<and> table_ok (c_handles c) (c_table c) (entries L U - set_option p) \<and>
      counted (c_handles c) R (entries L U) \<and> c_usage c = (\<Sum>a \<in> entries L U. charge_at (c_handles c) a) \<and>
      dom (c_handles c) \<subseteq> {..<c_brk c} \<and> set_option p \<subseteq> entries L U)"

definition drop_ref :: "addr option \<Rightarrow> (addr \<Rightarrow> nat) \<Rightarrow> addr \<Rightarrow> nat" where
  "drop_ref p R = (case p of None \<Rightarrow> R | Some e \<Rightarrow> R(e := R e - 1))"

definition minus_entry :: "addr option \<Rightarrow> addr list \<Rightarrow> addr list" where
  "minus_entry p xs = (case p of None \<Rightarrow> xs | Some e \<Rightarrow> without e xs)"

lemma minus_entry_simps [simp]:
  "minus_entry None xs = xs" "minus_entry (Some e) xs = without e xs" "set (minus_entry p xs) = set xs - set_option p"
  by (auto simp: minus_entry_def split: option.splits)

lemma FinishErase_ok:
  assumes inv: "cache_inv_but p c R L U"
  shows "\<exists>c'. FinishErase p c = Some (p \<noteq> None, c') \<and>
    cache_inv c' (drop_ref p R) (minus_entry p L) (minus_entry p U) \<and> keeps c c'"
proof (cases p)
  case None
  then show ?thesis using inv by (simp add: cache_inv_but_def cache_inv_def FinishErase_def drop_ref_def)
next
  case (Some e)
  let ?H = "c_handles c"
  have e: "e \<in> entries L U" and rg: "rings ?H L U" and n: "counted ?H R (entries L U)"
    using inv Some by (auto simp: cache_inv_but_def)
  have hd: "e \<notin> {lru_head, in_use_head}" using rg e by (auto simp: rings_def)
  obtain H1 where H1: "LRU_Remove e ?H = Some H1" "rings H1 (without e L) (without e U)" "cores_of H1 = cores_of ?H"
      "chains_of H1 = chains_of ?H"
    using rings_remove [OF rg e] by blast
  obtain h where h: "?H e = Some h" using rings_dom [OF rg] e by auto
  then obtain h1 where h1: "H1 e = Some h1" "core h1 = core h" using cores_SomeD [OF H1(3)] by blast
  have h1c: "unat (h_refs h1) = R e" "0 < R e" "h_charge h1 = charge_at ?H e"
    using countedD [OF n h hd] h h1(2) by (metis core_sel(2,5) charge_at_def option.simps(5))+
  define H2 where "H2 = H1(e \<mapsto> h1\<lparr>h_in_cache := False\<rparr>)"
  have eq: "h1\<lparr>h_in_cache := False\<rparr> = h1\<lparr>h_refs := h_refs h1, h_in_cache := False\<rparr>" by (cases h1) simp
  have "data_of H2 = data_of H1" "links_of H2 = links_of H1" "chains_of H2 = chains_of H1"
    unfolding H2_def eq by (rule put_refs [of H1 e, OF h1(1)])+
  then have v: "data_of H2 = data_of ?H" "links_of H2 = links_of H1" "chains_of H2 = chains_of ?H"
    using data_of_cores [OF H1(3)] H1(4) by simp_all
  define c2 where "c2 = c\<lparr>c_handles := H2, c_usage := c_usage c - h_charge h1\<rparr>"
  have es: "entries (without e L) (without e U) = entries L U - {e}" by auto
  have "table_ok H2 (c_table c) (entries L U - {e})"
  proof (rule table_ok_data)
    show "table_ok ?H (c_table c) (entries L U - {e})" using inv Some by (simp add: cache_inv_but_def)
  qed (simp add: v)
  moreover have "counted H2 R (entries L U - {e})"
    using counted_upd [OF counted_cores [OF H1(3) n] hd, of "h1\<lparr>h_in_cache := False\<rparr>" "R e" "entries L U - {e}"] h1c
    by (simp add: H2_def)
  moreover have "c_usage c - h_charge h1 = (\<Sum>a \<in> entries L U - {e}. charge_at H2 a)"
  proof -
    have "(\<Sum>a \<in> entries L U - {e}. charge_at H2 a) = (\<Sum>a \<in> entries L U - {e}. charge_at ?H a)"
      by (rule sum.cong [OF refl], rule data_charge) (simp add: v)
    then show ?thesis
      using inv e h1c(3) by (simp add: cache_inv_but_def sum.remove [of "entries L U" e])
  qed
  moreover have "rings H2 (without e L) (without e U)"
    using rings_cong [OF v(2)] H1(2) by simp
  moreover have dm: "dom H2 = dom ?H" using data_dom [OF v(1)] .
  ultimately have inv2: "cache_inv c2 R (without e L) (without e U)"
    using inv unfolding cache_inv_def es by (simp add: cache_inv_but_def c2_def)
  have "e \<in> live_handles (c_handles c2)" using h dm hd by (auto simp: live_handles_def c2_def)
  from cache_Unref_ok [OF inv2 this] obtain c' where c': "cache_Unref e c2 = Some c'"
      "cache_inv c' (R(e := R e - 1)) (without e L) (without e U)" "keeps c2 c'"
    by auto
  have "keeps c c2" using v(1) by (intro keeps_cong) (simp_all add: c2_def)
  then have "keeps c c'" using c'(3) keeps_trans by blast
  moreover have "FinishErase p c = Some (True, c')"
    using Some H1(1) h1(1) c'(1) by (simp add: FinishErase_def put_def H2_def c2_def)
  ultimately show ?thesis using Some c'(2) by (simp add: drop_ref_def)
qed

lemma cache_Erase_ok:
  assumes inv: "cache_inv c R L U"
  shows "\<exists>p c'. cache_Erase key hash c = Some c' \<and> is_entry (cores_of (c_handles c)) (entries L U) key hash p \<and>
    cache_inv c' (drop_ref p R) (minus_entry p L) (minus_entry p U) \<and> keeps c c'"
proof -
  let ?H = "c_handles c"
  obtain p H' t' where r: "table_Remove ?H (c_table c) key hash = Some (p, H', t')"
      "is_entry (cores_of ?H) (entries L U) key hash p" "cores_of H' = cores_of ?H" "links_of H' = links_of ?H"
      "table_ok H' t' (entries L U - set_option p)"
    using table_Remove_ok [of ?H "c_table c" "entries L U" key hash] inv by (auto simp: cache_inv_def)
  define c1 where "c1 = c\<lparr>c_handles := H', c_table := t'\<rparr>"
  have "(\<Sum>a \<in> entries L U. charge_at H' a) = (\<Sum>a \<in> entries L U. charge_at ?H a)"
    by (rule sum.cong [OF refl], rule data_charge) (simp add: data_of_cores [OF r(3)])
  moreover have "set_option p \<subseteq> entries L U" using r(2) by (auto simp: is_entry_def split: option.splits)
  ultimately have "cache_inv_but p c1 R L U"
    using inv r counted_cores [OF r(3)] rings_cong [OF r(4)] cores_dom [OF r(3)]
    by (simp add: cache_inv_but_def cache_inv_def c1_def)
  then obtain c' where c': "FinishErase p c1 = Some (p \<noteq> None, c')"
      "cache_inv c' (drop_ref p R) (minus_entry p L) (minus_entry p U)" "keeps c1 c'"
    using FinishErase_ok by blast
  have "keeps c c1" by (rule keeps_cong) (simp_all add: c1_def data_of_cores [OF r(3)])
  then have "keeps c c'" using c'(3) keeps_trans by blast
  then show ?thesis using r(1,2) c' by (auto simp: cache_Erase_def c1_def)
qed

section \<open>The client's handles\<close>

text \<open>A cache whose clients hold \<open>held a\<close> handles of entry \<open>a\<close>; \<open>L\<close> are the entries that are not in use, the oldest
  first, \<open>U\<close> those that are.\<close>

definition refs_of :: "addr set \<Rightarrow> (addr \<Rightarrow> nat) \<Rightarrow> addr \<Rightarrow> nat" where
  "refs_of E held a = (if a \<in> E then 1 else 0) + held a"

definition cache_ok :: "'v lru_cache \<Rightarrow> (addr \<Rightarrow> nat) \<Rightarrow> addr list \<Rightarrow> addr list \<Rightarrow> bool" where
  "cache_ok c held L U =
     (cache_inv c (refs_of (entries L U) held) L U \<and> (\<forall>a \<in> set L. held a = 0) \<and> (\<forall>a \<in> set U. 0 < held a))"

lemma drop_refs_of:
  assumes "set_option p \<subseteq> E"
  shows "drop_ref p (refs_of E held) = refs_of (E - set_option p) held"
  using assms by (cases p) (auto simp: drop_ref_def refs_of_def fun_eq_iff)

lemma entries_minus: "entries (minus_entry p L) (minus_entry p U) = entries L U - set_option p"
  by auto

lemma cache_ok_Erase:
  assumes "cache_ok c held L U"
  shows "\<exists>p c'. cache_Erase key hash c = Some c' \<and> is_entry (cores_of (c_handles c)) (entries L U) key hash p \<and>
    cache_ok c' held (minus_entry p L) (minus_entry p U) \<and> keeps c c'"
proof -
  obtain p c' where r: "cache_Erase key hash c = Some c'" "is_entry (cores_of (c_handles c)) (entries L U) key hash p"
      "cache_inv c' (drop_ref p (refs_of (entries L U) held)) (minus_entry p L) (minus_entry p U)" "keeps c c'"
    using cache_Erase_ok [of c _ L U key hash] assms unfolding cache_ok_def by blast
  have "set_option p \<subseteq> entries L U" using r(2) by (auto simp: is_entry_def split: option.splits)
  then have "cache_ok c' held (minus_entry p L) (minus_entry p U)"
    using r(3) assms unfolding cache_ok_def entries_minus by (simp add: drop_refs_of)
  then show ?thesis using r by blast
qed

lemma oldest_ok: "cache_ok c held L U \<Longrightarrow> oldest c = Some (hd (L @ [lru_head]))"
  using ring_next [of "c_handles c" lru_head L] by (auto simp: oldest_def cache_ok_def cache_inv_def rings_def)

lemma erase_oldest_ok:
  assumes ok: "cache_ok c held (e # L) U"
  shows "\<exists>c'. erase_oldest e c = Some c' \<and> cache_ok c' held L U \<and> keeps c c'"
proof -
  let ?H = "c_handles c"
  have rg: "rings ?H (e # L) U" and t: "table_ok ?H (c_table c) (entries (e # L) U)"
    using ok by (auto simp: cache_ok_def cache_inv_def)
  obtain h where h: "?H e = Some h" using rings_dom [OF rg] by auto
  obtain p c' where r: "cache_Erase (h_key h) (h_hash h) c = Some c'"
      "is_entry (cores_of ?H) (entries (e # L) U) (h_key h) (h_hash h) p"
      "cache_ok c' held (minus_entry p (e # L)) (minus_entry p U)" "keeps c c'"
    using cache_ok_Erase [OF ok] by blast
  have m: "matches (cores_of ?H) (h_key h) (h_hash h) e" using matchesI [of ?H e, OF h] .
  have "p = Some e"
    using r(2) m t by (cases p) (auto simp: is_entry_def table_ok_def distinct_keys_def)
  moreover have "e \<notin> set L" "e \<notin> set U" using rg by (auto simp: rings_def)
  ultimately show ?thesis using r h by (auto simp: erase_oldest_def)
qed

lemma evict_ok:
  assumes "cache_ok c held L U"
  shows "\<exists>c' k. evict c = Some c' \<and> cache_ok c' held (drop k L) U \<and> keeps c c' \<and>
    (c_usage c' \<le> c_capacity c \<or> drop k L = [])"
  using assms
proof (induction L arbitrary: c)
  case Nil
  then have "oldest c = Some lru_head" using oldest_ok by fastforce
  then show ?case using Nil by (subst evict.simps) auto
next
  case (Cons e L)
  have o: "oldest c = Some e" using oldest_ok [OF Cons.prems] by simp
  show ?case
  proof (cases "c_capacity c < c_usage c")
    case True
    have ne: "e \<noteq> lru_head" using Cons.prems by (auto simp: cache_ok_def cache_inv_def rings_def)
    obtain c1 where c1: "erase_oldest e c = Some c1" "cache_ok c1 held L U" "keeps c c1"
      using erase_oldest_ok [OF Cons.prems] by blast
    then obtain c' k where c': "evict c1 = Some c'" "cache_ok c' held (drop k L) U" "keeps c1 c'"
        "c_usage c' \<le> c_capacity c1 \<or> drop k L = []"
      using Cons.IH by blast
    have "evict c = Some c'" using o True ne c1(1) c'(1) by (subst evict.simps) simp
    then show ?thesis
      using c' c1(3) keeps_trans [OF c1(3) c'(3)] by (intro exI [of _ c'] exI [of _ "Suc k"]) (auto simp: keeps_def)
  next
    case False
    then have "evict c = Some c" using o by (subst evict.simps) simp
    then show ?thesis using Cons.prems False by (intro exI [of _ c] exI [of _ 0]) auto
  qed
qed

lemma cache_Prune_ok:
  assumes "cache_ok c held L U"
  shows "\<exists>c'. cache_Prune c = Some c' \<and> cache_ok c' held [] U \<and> keeps c c'"
  using assms
proof (induction L arbitrary: c)
  case Nil
  then have "oldest c = Some lru_head" using oldest_ok by fastforce
  then show ?case using Nil by (subst cache_Prune.simps) auto
next
  case (Cons e L)
  have o: "oldest c = Some e" using oldest_ok [OF Cons.prems] by simp
  have ne: "e \<noteq> lru_head" using Cons.prems by (auto simp: cache_ok_def cache_inv_def rings_def)
  obtain c1 where c1: "erase_oldest e c = Some c1" "cache_ok c1 held L U" "keeps c c1"
    using erase_oldest_ok [OF Cons.prems] by blast
  then obtain c' where c': "cache_Prune c1 = Some c'" "cache_ok c' held [] U" "keeps c1 c'"
    using Cons.IH by blast
  have "cache_Prune c = Some c'" using o ne c1(1) c'(1) by (subst cache_Prune.simps) simp
  then show ?case using c' keeps_trans [OF c1(3) c'(3)] by blast
qed

section \<open>Lookup, release, insertion\<close>

lemma cache_ok_Lookup:
  assumes ok: "cache_ok c held L U" and small: "\<And>a. held a < 2 ^ 31"
  shows "\<exists>p c' L' U'. cache_Lookup key hash c = Some (p, c') \<and>
    is_entry (cores_of (c_handles c)) (entries L U) key hash p \<and> keeps c c' \<and>
    (case p of None \<Rightarrow> c' = c \<and> L' = L \<and> U' = U
     | Some e \<Rightarrow> cache_ok c' (held(e := held e + 1)) L' U' \<and> L' = without e L \<and> set U' = insert e (set U))"
proof -
  let ?H = "c_handles c"
  have inv: "cache_inv c (refs_of (entries L U) held) L U" using ok by (simp add: cache_ok_def)
  obtain p where p: "table_Lookup ?H (c_table c) key hash = Some p" "is_entry (cores_of ?H) (entries L U) key hash p"
    using table_Lookup_ok [of ?H "c_table c" "entries L U" key hash] inv by (auto simp: cache_inv_def)
  show ?thesis
  proof (cases p)
    case None
    then show ?thesis using p by (auto simp: cache_Lookup_def)
  next
    case (Some e)
    then have e: "e \<in> entries L U" using p(2) by (simp add: is_entry_def)
    have "e \<in> set L \<longleftrightarrow> refs_of (entries L U) held e = 1"
      using ok e by (auto simp: cache_ok_def refs_of_def)
    moreover have "refs_of (entries L U) held e + 1 < 2 ^ 32" using small [of e] by (simp add: refs_of_def)
    ultimately obtain c' U' where r: "cache_Ref e c = Some c'"
        "cache_inv c' ((refs_of (entries L U) held)(e := refs_of (entries L U) held e + 1)) (without e L) U'"
        "keeps c c'" "set U' = insert e (set U)"
      using cache_Ref_ok [OF inv e] by blast
    have "entries (without e L) U' = entries L U" using r(4) e by auto
    moreover have "(refs_of (entries L U) held)(e := refs_of (entries L U) held e + 1) =
        refs_of (entries L U) (held(e := held e + 1))"
      by (auto simp: refs_of_def fun_eq_iff)
    ultimately have "cache_ok c' (held(e := held e + 1)) (without e L) U'"
      using r(2,4) ok by (simp add: cache_ok_def)
    then show ?thesis using p Some r by (auto simp: cache_Lookup_def)
  qed
qed

lemma cache_ok_held: "cache_ok c held L U \<Longrightarrow> 0 < held a \<Longrightarrow> a \<in> live_handles (c_handles c)"
  by (auto simp: cache_ok_def cache_inv_def counted_def refs_of_def live_handles_def domIff)

lemma cache_ok_Release:
  assumes ok: "cache_ok c held L U" and e: "0 < held e"
  shows "\<exists>c' L' U'. cache_Release e c = Some c' \<and> cache_ok c' (held(e := held e - 1)) L' U' \<and> keeps c c' \<and>
    entries L' U' = entries L U"
proof -
  let ?R = "refs_of (entries L U) held"
  have inv: "cache_inv c ?R L U" and LU: "\<forall>a \<in> set L. held a = 0" "\<forall>a \<in> set U. 0 < held a" "set L \<inter> set U = {}"
    using ok by (auto simp: cache_ok_def cache_inv_def rings_def)
  have "e \<in> entries L U \<Longrightarrow> e \<in> set U \<and> 2 \<le> ?R e" using LU e by (auto simp: refs_of_def)
  from cache_Unref_ok [OF inv cache_ok_held [OF ok e] this] obtain c' L' U' where r: "cache_Unref e c = Some c'"
      "cache_inv c' (?R(e := ?R e - 1)) L' U'" "keeps c c'"
      "(L', U') = (if e \<in> entries L U \<and> ?R e = 2 then (L @ [e], without e U) else (L, U))"
    by blast
  have en: "entries L' U' = entries L U" using r(4) by (auto split: if_splits)
  have "?R(e := ?R e - 1) = refs_of (entries L U) (held(e := held e - 1))"
    using e by (auto simp: refs_of_def fun_eq_iff)
  moreover have "\<forall>a \<in> set L'. (held(e := held e - 1)) a = 0" "\<forall>a \<in> set U'. 0 < (held(e := held e - 1)) a"
    using r(4) LU e by (auto simp: refs_of_def split: if_splits)
  ultimately have "cache_ok c' (held(e := held e - 1)) L' U'" using r(2) en by (simp add: cache_ok_def)
  then show ?thesis using r en by (auto simp: cache_Release_def)
qed

lemma cache_entries_card:
  assumes "cache_ok c held L U"
  shows "card (entries L U) \<le> c_brk c"
proof -
  have "entries L U \<subseteq> {..<c_brk c}"
    using assms rings_dom [of "c_handles c" L U] by (auto simp: cache_ok_def cache_inv_def)
  then show ?thesis by (metis card_lessThan card_mono finite_lessThan)
qed

text \<open>A new entry.\<close>

lemma brk_fresh:
  assumes "cache_inv c R L U"
  shows "c_brk c \<notin> {lru_head, in_use_head}" "c_brk c \<notin> entries L U" "c_handles c (c_brk c) = None"
proof -
  have "c_brk c \<notin> dom (c_handles c)" using assms by (auto simp: cache_inv_def)
  moreover have "set (lru_head # in_use_head # L @ U) \<subseteq> dom (c_handles c)"
    using assms by (intro rings_dom) (simp add: cache_inv_def)
  ultimately have "c_brk c \<notin> set (lru_head # in_use_head # L @ U)" by blast
  then show "c_brk c \<notin> {lru_head, in_use_head}" "c_brk c \<notin> entries L U" by auto
  show "c_handles c (c_brk c) = None" using \<open>c_brk c \<notin> dom (c_handles c)\<close> by (simp add: domIff)
qed

definition adds :: "slice \<Rightarrow> u32 \<Rightarrow> 'v \<Rightarrow> u64 \<Rightarrow> 'v lru_cache \<Rightarrow> 'v lru_cache \<Rightarrow> bool" where
  "adds key hash val charge c c' =
     (c_capacity c' = c_capacity c \<and> c_brk c' = c_brk c + 1 \<and> owned c' = add_mset (key, val) (owned c) \<and>
      (\<forall>a. c_handles c' a \<noteq> None \<longrightarrow>
        data_of (c_handles c') a = ((data_of (c_handles c))(c_brk c \<mapsto> (key, hash, val, charge))) a))"

lemma adds_keeps:
  assumes "adds key hash val charge c c'" "keeps c' c''"
  shows "adds key hash val charge c c''"
proof -
  have "data_of (c_handles c'') a = ((data_of (c_handles c))(c_brk c \<mapsto> (key, hash, val, charge))) a"
    if a: "c_handles c'' a \<noteq> None" for a
  proof -
    have 2: "data_of (c_handles c'') a = data_of (c_handles c') a" using assms(2) a by (simp add: keeps_def)
    then have "c_handles c' a \<noteq> None" using a data_None [of "c_handles c'" a] data_None [of "c_handles c''" a] by simp
    then show ?thesis using 2 assms(1) by (simp add: adds_def)
  qed
  then show ?thesis using assms by (simp add: adds_def keeps_def)
qed

lemma adds_new:
  assumes inv: "cache_inv c R L U" and d: "data_of H = (data_of (c_handles c))(c_brk c \<mapsto> (key, hash, val, charge))"
    and c': "c_handles c' = H" "c_deleted c' = c_deleted c" "c_capacity c' = c_capacity c" "c_brk c' = c_brk c + 1"
  shows "adds key hash val charge c c'" "dom H = insert (c_brk c) (dom (c_handles c))"
proof -
  let ?H = "c_handles c" and ?e = "c_brk c"
  show dm: "dom H = insert ?e (dom ?H)"
  proof -
    have "H a = None \<longleftrightarrow> a \<noteq> ?e \<and> ?H a = None" for a
      using data_None [of H a] data_None [of ?H a] d by (cases "a = ?e") simp_all
    then show ?thesis unfolding dom_def by auto
  qed
  have br: "dom ?H \<subseteq> {..<?e}" and rg: "rings ?H L U" using inv by (auto simp: cache_inv_def)
  have hd: "?e \<notin> {lru_head, in_use_head}" using brk_fresh [OF inv] by auto
  have e: "?e \<notin> live_handles ?H" "live_handles H = insert ?e (live_handles ?H)" using br hd dm by (auto simp: live_handles_def)
  have "image_mset (key_value H) (mset_set (live_handles ?H)) = image_mset (key_value ?H) (mset_set (live_handles ?H))"
  proof (rule image_mset_cong)
    fix a assume "a \<in># mset_set (live_handles ?H)"
    then have "a \<noteq> ?e" using e(1) live_handles_finite [OF br] by auto
    then show "key_value H a = key_value ?H a" using d by (intro data_key_value) simp
  qed
  moreover have "key_value H ?e = (key, val)"
    using d dm by (auto simp: data_of_def key_value_def dest!: fun_cong [of _ _ ?e])
  ultimately have "owned c' = add_mset (key, val) (owned c)"
    using e live_handles_finite [OF br] c' by (simp add: owned_def)
  then show "adds key hash val charge c c'" using d c' by (simp add: adds_def)
qed

lemma cache_ok_Insert_uncached:
  fixes c :: "'v lru_cache" and key hash val charge
  assumes ok: "cache_ok c held L U"
  defines "e \<equiv> c_brk c"
  defines "h \<equiv> \<lparr>h_value = val, h_next_hash = None, h_next = None, h_prev = None, h_charge = charge, h_key = key,
      h_in_cache = False, h_refs = 1, h_hash = hash\<rparr>"
  defines "c' \<equiv> c\<lparr>c_brk := e + 1, c_handles := (c_handles c)(e \<mapsto> h)\<rparr>"
  shows "cache_ok c' (held(e := 1)) L U" "adds key hash val charge c c'"
proof -
  let ?H = "c_handles c" and ?R = "refs_of (entries L U) held"
  have inv: "cache_inv c ?R L U" using ok by (simp add: cache_ok_def)
  then have br: "dom ?H \<subseteq> {..<e}" and rg: "rings ?H L U" and n: "counted ?H ?R (entries L U)"
      and t: "table_ok ?H (c_table c) (entries L U)"
    by (auto simp: cache_inv_def e_def)
  have hd: "e \<notin> {lru_head, in_use_head}" "e \<notin> entries L U" and fr: "?H e = None"
    using brk_fresh [OF inv] by (auto simp: e_def)
  have held: "held e = 0" using cache_ok_held [OF ok, of e] fr by (auto simp: live_handles_def)
  have d: "data_of (c_handles c') = (data_of ?H)(c_brk c \<mapsto> (key, hash, val, charge))"
    by (auto simp: c'_def h_def e_def data_of_def fun_eq_iff)
  from adds_new [OF inv d] show "adds key hash val charge c c'" by (simp add: c'_def e_def)
  have dm: "dom (c_handles c') = insert e (dom ?H)" by (simp add: c'_def)
  have "ring (c_handles c') lru_head L = ring ?H lru_head L" "ring (c_handles c') in_use_head U = ring ?H in_use_head U"
    using hd by (intro ring_cong; auto simp: c'_def links_of_def)+
  then have "rings (c_handles c') L U" using rg by (simp add: rings_def)
  moreover have "table_ok (c_handles c') (c_table c') (entries L U)"
  proof (rule table_ok_data)
    show "table_ok ?H (c_table c') (entries L U)" using t by (simp add: c'_def)
    fix a assume "a \<in> entries L U"
    then have "a \<noteq> e" using hd by auto
    then show "data_of (c_handles c') a = data_of ?H a \<and> chains_of (c_handles c') a = chains_of ?H a"
      by (simp add: c'_def data_of_def chains_of_def)
  qed
  moreover have "counted (c_handles c') (?R(e := 1)) (entries L U)"
    unfolding c'_def by simp (rule counted_upd [OF n hd(1)], use hd in \<open>simp_all add: h_def\<close>)
  moreover have "(\<Sum>a \<in> entries L U. charge_at (c_handles c') a) = (\<Sum>a \<in> entries L U. charge_at ?H a)"
    by (rule sum.cong [OF refl]) (use hd in \<open>auto simp: c'_def charge_at_def\<close>)
  moreover have "c_usage c' = c_usage c" "dom (c_handles c') \<subseteq> {..<c_brk c'}"
    using br dm by (auto simp: c'_def)
  ultimately have "cache_inv c' (?R(e := 1)) L U" using inv by (simp add: cache_inv_def)
  moreover have "?R(e := 1) = refs_of (entries L U) (held(e := 1))"
    using hd by (auto simp: refs_of_def fun_eq_iff)
  ultimately show "cache_ok c' (held(e := 1)) L U"
    using ok hd by (auto simp: cache_ok_def)
qed

lemma cache_ok_Insert_cached:
  fixes c :: "'v lru_cache" and key hash val charge
  assumes ok: "cache_ok c held L U" and small: "c_brk c < 2 ^ 31"
  defines "e \<equiv> c_brk c"
  defines "h \<equiv> \<lparr>h_value = val, h_next_hash = None, h_next = None, h_prev = None, h_charge = charge, h_key = key,
      h_in_cache = True, h_refs = 1 + 1, h_hash = hash\<rparr>"
  shows "\<exists>H2 p H t c'. LRU_Append in_use_head e ((c_handles c)(e \<mapsto> h)) = Some H2 \<and>
    table_Insert H2 (c_table c) e = Some (p, H, t) \<and>
    FinishErase p (c\<lparr>c_brk := e + 1, c_handles := H, c_usage := c_usage c + charge, c_table := t\<rparr>) = Some (p \<noteq> None, c') \<and>
    is_entry (cores_of (c_handles c)) (entries L U) key hash p \<and>
    cache_ok c' (held(e := 1)) (minus_entry p L) (minus_entry p U @ [e]) \<and> adds key hash val charge c c'"
proof -
  let ?H = "c_handles c" and ?R = "refs_of (entries L U) held"
  define H1 where "H1 = ?H(e \<mapsto> h)"
  have inv: "cache_inv c ?R L U" using ok by (simp add: cache_ok_def)
  then have br: "dom ?H \<subseteq> {..<e}" and rg: "rings ?H L U" and n: "counted ?H ?R (entries L U)"
      and t: "table_ok ?H (c_table c) (entries L U)"
    by (auto simp: cache_inv_def e_def)
  have hd: "e \<notin> {lru_head, in_use_head}" "e \<notin> entries L U" and fr: "?H e = None"
    using brk_fresh [OF inv] by (auto simp: e_def)
  have held: "held e = 0" using cache_ok_held [OF ok, of e] fr by (auto simp: live_handles_def)
  have "ring H1 lru_head L = ring ?H lru_head L" "ring H1 in_use_head U = ring ?H in_use_head U"
    using hd by (intro ring_cong; auto simp: H1_def links_of_def)+
  then have rg1: "rings H1 L U" using rg by (simp add: rings_def)
  have "H1 e \<noteq> None" by (simp add: H1_def)
  from rings_append(2) [OF rg1 this] hd obtain H2 where H2: "LRU_Append in_use_head e H1 = Some H2"
      "rings H2 L (U @ [e])" "cores_of H2 = cores_of H1" "chains_of H2 = chains_of H1"
    by auto
  have d2: "data_of H2 = (data_of ?H)(e \<mapsto> (key, hash, val, charge))"
    using data_of_cores [OF H2(3)] by (auto simp: H1_def h_def data_of_def fun_eq_iff)
  have t2: "table_ok H2 (c_table c) (entries L U)"
  proof (rule table_ok_data [OF t])
    fix a assume "a \<in> entries L U"
    then have "a \<noteq> e" using hd by auto
    then show "data_of H2 a = data_of ?H a \<and> chains_of H2 a = chains_of ?H a"
      using d2 H2(4) by (simp add: H1_def)
  qed
  obtain h2 where h2: "H2 e = Some h2" "h_key h2 = key" "h_hash h2 = hash"
    using fun_cong [OF d2, of e] by (auto simp: data_of_def)
  have "card (entries L U) < 2 ^ 31" using cache_entries_card [OF ok] small by simp
  from table_Insert_ok [of H2 "c_table c" "entries L U" e h2, OF t2 hd(2) h2(1) this]
  obtain p H3 t3 where r: "table_Insert H2 (c_table c) e = Some (p, H3, t3)"
      "is_entry (cores_of H2) (entries L U) key hash p" "cores_of H3 = cores_of H2" "links_of H3 = links_of H2"
      "table_ok H3 t3 (insert e (entries L U - set_option p))"
    using h2 by auto
  have m: "matches (cores_of H2) key hash a = matches (cores_of ?H) key hash a" if "a \<in> entries L U" for a
    using that hd H2(3) by (auto simp: H1_def matches_def)
  have pE: "set_option p \<subseteq> entries L U" using r(2) by (auto simp: is_entry_def split: option.splits)
  have ie: "is_entry (cores_of ?H) (entries L U) key hash p"
    using r(2) m pE by (cases p) (auto simp: is_entry_def)
  define c3 where "c3 = c\<lparr>c_brk := e + 1, c_handles := H3, c_usage := c_usage c + charge, c_table := t3\<rparr>"
  have en: "entries L (U @ [e]) = insert e (entries L U)" by auto
  have d3: "data_of H3 = (data_of ?H)(e \<mapsto> (key, hash, val, charge))" using data_of_cores [OF r(3)] d2 by simp
  have ad: "adds key hash val charge c c3" and dm: "dom H3 = insert e (dom ?H)"
    using adds_new [OF inv d3 [unfolded e_def], of c3] by (simp_all add: c3_def e_def)
  have "counted H1 (?R(e := 2)) (insert e (entries L U))"
    unfolding H1_def by (rule counted_upd [OF n hd(1)]) (simp_all add: h_def)
  then have n3: "counted H3 (?R(e := 2)) (insert e (entries L U))"
    using counted_cores [of H3 H1] r(3) H2(3) by simp
  have u3: "c_usage c + charge = (\<Sum>a \<in> insert e (entries L U). charge_at H3 a)"
  proof -
    have "(\<Sum>a \<in> entries L U. charge_at H3 a) = (\<Sum>a \<in> entries L U. charge_at ?H a)"
      by (rule sum.cong [OF refl], rule data_charge) (use d3 hd in auto)
    moreover have "charge_at H3 e = charge" using fun_cong [OF d3, of e] by (auto simp: charge_at_def data_of_def)
    ultimately show ?thesis using inv hd(2) by (simp add: cache_inv_def add.commute)
  qed
  have "insert e (entries L U - set_option p) = insert e (entries L U) - set_option p" using pE hd(2) by auto
  then have "cache_inv_but p c3 (?R(e := 2)) L (U @ [e])"
    using r(5) H2(2) rings_cong [OF r(4)] n3 u3 dm br pE unfolding cache_inv_but_def en by (auto simp: c3_def)
  from FinishErase_ok [OF this] obtain c' where c': "FinishErase p c3 = Some (p \<noteq> None, c')"
      "cache_inv c' (drop_ref p (?R(e := 2))) (minus_entry p L) (minus_entry p (U @ [e]))" "keeps c3 c'"
    by blast
  have pe: "e \<notin> set_option p" using pE hd(2) by auto
  have Ue: "minus_entry p (U @ [e]) = minus_entry p U @ [e]" using pe by (cases p) auto
  have "?R(e := 2) = refs_of (insert e (entries L U)) (held(e := 1))"
    using hd by (auto simp: refs_of_def fun_eq_iff)
  then have "drop_ref p (?R(e := 2)) = refs_of (insert e (entries L U) - set_option p) (held(e := 1))"
    using drop_refs_of [of p "insert e (entries L U)"] pE by auto
  moreover have "entries (minus_entry p L) (minus_entry p U @ [e]) = insert e (entries L U) - set_option p"
    using pe by auto
  ultimately have "cache_ok c' (held(e := 1)) (minus_entry p L) (minus_entry p U @ [e])"
    using c'(2) ok hd unfolding cache_ok_def Ue by auto
  then show ?thesis
    using H2(1) r(1) c' ie adds_keeps [OF ad c'(3)] unfolding c3_def H1_def by blast
qed

lemma cache_ok_Insert:
  assumes ok: "cache_ok c held L U" and small: "c_brk c < 2 ^ 31"
  shows "\<exists>p c' L' U' k. cache_Insert key hash val charge c = Some (c_brk c, c') \<and>
    cache_ok c' (held(c_brk c := 1)) L' U' \<and> adds key hash val charge c c' \<and>
    is_entry (cores_of (c_handles c)) (entries L U) key hash p \<and>
    (if 0 < c_capacity c then L' = drop k (minus_entry p L) \<and> U' = minus_entry p U @ [c_brk c]
     else L' = drop k L \<and> U' = U) \<and> (c_usage c' \<le> c_capacity c' \<or> L' = [])"
proof (cases "0 < c_capacity c")
  case True
  obtain H2 p H t c1 where r: "LRU_Append in_use_head (c_brk c) ((c_handles c)(c_brk c \<mapsto>
        \<lparr>h_value = val, h_next_hash = None, h_next = None, h_prev = None, h_charge = charge, h_key = key,
         h_in_cache = True, h_refs = 1 + 1, h_hash = hash\<rparr>)) = Some H2"
      "table_Insert H2 (c_table c) (c_brk c) = Some (p, H, t)"
      "FinishErase p (c\<lparr>c_brk := c_brk c + 1, c_handles := H, c_usage := c_usage c + charge, c_table := t\<rparr>) =
        Some (p \<noteq> None, c1)"
      "is_entry (cores_of (c_handles c)) (entries L U) key hash p"
      "cache_ok c1 (held(c_brk c := 1)) (minus_entry p L) (minus_entry p U @ [c_brk c])" "adds key hash val charge c c1"
    using cache_ok_Insert_cached [OF ok small] by blast
  obtain c' k where e: "evict c1 = Some c'" "cache_ok c' (held(c_brk c := 1)) (drop k (minus_entry p L)) (minus_entry p U @ [c_brk c])"
      "keeps c1 c'" "c_usage c' \<le> c_capacity c1 \<or> drop k (minus_entry p L) = []"
    using evict_ok [OF r(5)] by blast
  have "cache_Insert key hash val charge c = Some (c_brk c, c')"
    using True r(1-3) e(1) unfolding cache_Insert_def by (simp add: put_def Let_def)
  then show ?thesis
    using True r(4) e adds_keeps [OF r(6) e(3)] by (intro exI [of _ p] exI [of _ c']) (auto simp: keeps_def)
next
  case False
  obtain p where p: "is_entry (cores_of (c_handles c)) (entries L U) key hash p"
    using table_Lookup_ok [of "c_handles c" "c_table c" "entries L U" key hash] ok
    by (auto simp: cache_ok_def cache_inv_def)
  define c1 where "c1 = c\<lparr>c_brk := c_brk c + 1, c_handles := (c_handles c)(c_brk c \<mapsto>
        \<lparr>h_value = val, h_next_hash = None, h_next = None, h_prev = None, h_charge = charge, h_key = key,
         h_in_cache = False, h_refs = 1, h_hash = hash\<rparr>)\<rparr>"
  have c1: "cache_ok c1 (held(c_brk c := 1)) L U" "adds key hash val charge c c1"
    using cache_ok_Insert_uncached [OF ok] unfolding c1_def by auto
  obtain c' k where e: "evict c1 = Some c'" "cache_ok c' (held(c_brk c := 1)) (drop k L) U"
      "keeps c1 c'" "c_usage c' \<le> c_capacity c1 \<or> drop k L = []"
    using evict_ok [OF c1(1)] by blast
  have "cache_Insert key hash val charge c = Some (c_brk c, c')"
    using False e(1) unfolding cache_Insert_def c1_def by (simp add: Let_def)
  then show ?thesis
    using False p e adds_keeps [OF c1(2) e(3)] by (intro exI [of _ p] exI [of _ c']) (auto simp: keeps_def)
qed

section \<open>The destructor\<close>

lemma destroy_from_ok:
  assumes "linked (c_handles c) (as @ [lru_head])" "distinct (as @ [lru_head])"
    and "\<And>a. a \<in> set as \<Longrightarrow> \<exists>h. c_handles c a = Some h \<and> h_refs h = 1"
  shows "\<exists>c'. destroy_from (hd (as @ [lru_head])) c = Some c' \<and>
    mset (c_deleted c') = mset (c_deleted c) + image_mset (key_value (c_handles c)) (mset as)"
  using assms
proof (induction as arbitrary: c)
  case Nil
  then show ?case by (subst destroy_from.simps) simp
next
  case (Cons e as)
  then obtain h where h: "c_handles c e = Some h" "h_refs h = 1" by auto
  have ne: "e \<noteq> lru_head" using Cons.prems(2) by auto
  have nx: "h_next h = Some (hd (as @ [lru_head]))" using Cons.prems(1) h(1) by (cases as) auto
  define c1 where "c1 = c\<lparr>c_handles := (c_handles c)(e := None), c_deleted := c_deleted c @ [(h_key h, h_value h)]\<rparr>"
  have u: "cache_Unref e (c\<lparr>c_handles := (c_handles c)(e \<mapsto> h\<lparr>h_in_cache := False\<rparr>)\<rparr>) = Some c1"
    using h by (simp add: cache_Unref_def put_def c1_def)
  have "linked (c_handles c) (as @ [lru_head])" using Cons.prems(1) by (cases as) auto
  moreover have "linked (c_handles c1) (as @ [lru_head]) = linked (c_handles c) (as @ [lru_head])"
    using Cons.prems(2) by (intro ring_linked_cong) (auto simp: c1_def dest: in_set_butlastD list.set_sel(2) [rotated])
  moreover have "\<exists>h. c_handles c1 a = Some h \<and> h_refs h = 1" if "a \<in> set as" for a
    using that Cons.prems(2,3) by (auto simp: c1_def)
  ultimately obtain c' where IH: "destroy_from (hd (as @ [lru_head])) c1 = Some c'"
      "mset (c_deleted c') = mset (c_deleted c1) + image_mset (key_value (c_handles c1)) (mset as)"
    using Cons.IH [of c1] Cons.prems(2) by auto
  have "image_mset (key_value (c_handles c1)) (mset as) = image_mset (key_value (c_handles c)) (mset as)"
    using Cons.prems(2) by (intro image_mset_cong) (auto simp: c1_def key_value_def)
  moreover have "destroy_from (hd ((e # as) @ [lru_head])) c = Some c'"
    using h(1) ne nx u IH(1) by (subst destroy_from.simps) (simp add: put_def)
  moreover have "key_value (c_handles c) e = (h_key h, h_value h)" using h(1) by (simp add: key_value_def)
  ultimately show ?case using IH(2) by (simp add: c1_def)
qed

text \<open>A cache no client holds a handle of passes every entry it still has to its deleter.\<close>

lemma destroy_LRUCache_ok:
  assumes ok: "cache_ok c (\<lambda>_. 0) L U"
  shows "\<exists>c'. destroy_LRUCache c = Some c' \<and> mset (c_deleted c') = owned c"
proof -
  have inv: "cache_inv c (refs_of (entries L U) (\<lambda>_. 0)) L U" and U: "U = []" using ok by (auto simp: cache_ok_def)
  then have rg: "rings (c_handles c) L []" and n: "counted (c_handles c) (refs_of (set L) (\<lambda>_. 0)) (set L)"
    by (auto simp: cache_inv_def)
  have lv: "live_handles (c_handles c) = set L"
    using n rings_dom [OF rg] rg unfolding live_handles_def counted_def refs_of_def rings_def
    by (auto split: if_splits)
  have "linked (c_handles c) (L @ [lru_head])"
    using rg by (cases L) (auto simp: rings_def ring_def)
  moreover have "distinct (L @ [lru_head])" using rg by (auto simp: rings_def)
  moreover have "\<exists>h. c_handles c a = Some h \<and> h_refs h = 1" if a: "a \<in> set L" for a
  proof -
    obtain h where h: "c_handles c a = Some h" using a rings_dom [OF rg] by auto
    have "unat (h_refs h) = 1" using countedD(2) [OF n h] a rg by (auto simp: refs_of_def rings_def)
    then show ?thesis using h by (metis unat_1 word_unat_eq_iff)
  qed
  ultimately obtain c' where c': "destroy_from (hd (L @ [lru_head])) c = Some c'"
      "mset (c_deleted c') = mset (c_deleted c) + image_mset (key_value (c_handles c)) (mset L)"
    using destroy_from_ok [of c L] by blast
  have "mset L = mset_set (set L)" using rg by (intro mset_set_set [symmetric]) (auto simp: rings_def)
  then show ?thesis using c' oldest_ok [OF ok] lv by (simp add: destroy_LRUCache_def owned_def)
qed

section \<open>A new cache\<close>

lemma make_LRUCache_ok:
  "\<exists>c. make_LRUCache junk capacity = Some c \<and> cache_ok c (\<lambda>_. 0) [] [] \<and> owned c = {#} \<and> c_brk c = 2 \<and>
    c_capacity c = capacity \<and> live_handles (c_handles c) = {}"
proof -
  define H where "H = [lru_head \<mapsto> make_head junk lru_head, in_use_head \<mapsto> make_head junk in_use_head]"
  obtain H' t where r: "Resize H \<lparr>t_length = 0, t_elems = 0, t_list = []\<rparr> = Some (H', t)" "cores_of H' = cores_of H"
      "links_of H' = links_of H" "table_ok H' t {}"
    using Resize_ok [of "\<lparr>t_length = 0, t_elems = 0, t_list = []\<rparr>" "{}" H] by auto
  have hd: "lru_head \<noteq> in_use_head" by (simp add: lru_head_def in_use_head_def)
  have "rings H [] []" using hd by (auto simp: rings_def ring_def H_def make_head_def)
  then have rg: "rings H' [] []" using rings_cong [OF r(3)] by simp
  have dm: "dom H' = {lru_head, in_use_head}" using cores_dom [OF r(2)] by (auto simp: H_def)
  have cn: "counted H' (refs_of {} (\<lambda>_. 0)) {}" using dm by (auto simp: counted_def refs_of_def)
  have lv: "live_handles H' = {}" using dm by (auto simp: live_handles_def)
  define c where "c = \<lparr>c_handles = H', c_capacity = capacity, c_usage = 0, c_table = t, c_brk = 2, c_deleted = []\<rparr>"
  have "make_LRUCache junk capacity = Some c"
    using r(1) unfolding make_LRUCache_def Let_def H_def [symmetric] c_def by simp
  moreover have "dom H' \<subseteq> {..<2}" using dm by (simp add: lru_head_def in_use_head_def)
  then have "cache_ok c (\<lambda>_. 0) [] []"
    using rg r(4) cn by (simp add: cache_ok_def cache_inv_def c_def)
  moreover have "owned c = {#}" using lv by (simp add: owned_def c_def)
  ultimately show ?thesis using lv by (simp add: c_def)
qed

end
