(* ===== verification/LdbCacheRun.thy ===== *)
theory LdbCacheRun
  imports LdbCacheInv
begin

text \<open>
  Clients of a block cache (\<open>util/cache.cc\<close>). A client makes calls in any order and releases only handles it
  holds; the record of the run says which handles are held, what every entry was made with, and which is the latest
  entry for a key. The properties of the cache hold of all such runs.
\<close>

section \<open>Clients\<close>

datatype 'v cache_op =
    Op_Insert slice u32 'v u64
  | Op_Lookup slice u32
  | Op_Release addr
  | Op_Erase slice u32
  | Op_Prune

record 'v client =
  cl_cache :: "'v lru_cache"
  cl_held :: "addr \<Rightarrow> nat"
  cl_made :: "addr \<Rightarrow> (slice \<times> u32 \<times> 'v \<times> u64) option"
  cl_latest :: "slice \<times> u32 \<Rightarrow> addr option"

fun client_step :: "'v cache_op \<Rightarrow> 'v client \<Rightarrow> 'v client option" where
  "client_step (Op_Insert key hash val charge) cl =
     map_option (\<lambda>(e, c). cl\<lparr>cl_cache := c, cl_held := (cl_held cl)(e := cl_held cl e + 1),
         cl_made := (cl_made cl)(e \<mapsto> (key, hash, val, charge)),
         cl_latest := (if 0 < c_capacity c then (cl_latest cl)((key, hash) \<mapsto> e) else cl_latest cl)\<rparr>)
       (cache_Insert key hash val charge (cl_cache cl))"
| "client_step (Op_Lookup key hash) cl =
     map_option (\<lambda>(p, c). cl\<lparr>cl_cache := c,
         cl_held := (case p of None \<Rightarrow> cl_held cl | Some e \<Rightarrow> (cl_held cl)(e := cl_held cl e + 1))\<rparr>)
       (cache_Lookup key hash (cl_cache cl))"
| "client_step (Op_Release e) cl =
     (if cl_held cl e = 0 then Some cl
      else map_option (\<lambda>c. cl\<lparr>cl_cache := c, cl_held := (cl_held cl)(e := cl_held cl e - 1)\<rparr>)
        (cache_Release e (cl_cache cl)))"
| "client_step (Op_Erase key hash) cl =
     map_option (\<lambda>c. cl\<lparr>cl_cache := c, cl_latest := (cl_latest cl)((key, hash) := None)\<rparr>)
       (cache_Erase key hash (cl_cache cl))"
| "client_step Op_Prune cl = map_option (\<lambda>c. cl\<lparr>cl_cache := c\<rparr>) (cache_Prune (cl_cache cl))"

fun client_run :: "'v cache_op list \<Rightarrow> 'v client \<Rightarrow> 'v client option" where
  "client_run [] cl = Some cl"
| "client_run (op # ops) cl = Option.bind (client_step op cl) (client_run ops)"

definition run_cache :: "'v \<Rightarrow> u64 \<Rightarrow> 'v cache_op list \<Rightarrow> 'v client option" where
  "run_cache junk capacity ops =
     Option.bind (make_LRUCache junk capacity) (\<lambda>c.
       client_run ops \<lparr>cl_cache = c, cl_held = (\<lambda>_. 0), cl_made = Map.empty, cl_latest = Map.empty\<rparr>)"

definition made_key_value :: "'v client \<Rightarrow> addr \<Rightarrow> slice \<times> 'v" where
  "made_key_value cl a = (case cl_made cl a of Some (key, hash, val, charge) \<Rightarrow> (key, val))"

definition made_entries :: "'v client \<Rightarrow> (slice \<times> 'v) multiset" where
  "made_entries cl = image_mset (made_key_value cl) (mset_set (dom (cl_made cl)))"

text \<open>The entries \<open>E\<close> of the cache are the latest made for their keys, and an entry a client holds stays in the cache
  as long as it is the latest for its key.\<close>

definition made_for :: "'v client \<Rightarrow> slice \<times> u32 \<Rightarrow> addr \<Rightarrow> bool" where
  "made_for cl k a = (\<exists>val charge. cl_made cl a = Some (fst k, snd k, val, charge))"

definition latest_ok :: "'v client \<Rightarrow> addr set \<Rightarrow> bool" where
  "latest_ok cl E =
     ((\<forall>k. \<forall>a \<in> E. made_for cl k a \<longrightarrow> cl_latest cl k = Some a) \<and>
      (\<forall>k a. cl_latest cl k = Some a \<longrightarrow> made_for cl k a \<and> (0 < cl_held cl a \<longrightarrow> a \<in> E)))"

definition client_ok :: "'v client \<Rightarrow> addr list \<Rightarrow> addr list \<Rightarrow> bool" where
  "client_ok cl L U =
     (cache_ok (cl_cache cl) (cl_held cl) L U \<and> dom (cl_made cl) = {2..<c_brk (cl_cache cl)} \<and> 2 \<le> c_brk (cl_cache cl) \<and>
      (\<forall>a \<in> live_handles (c_handles (cl_cache cl)). data_of (c_handles (cl_cache cl)) a = cl_made cl a) \<and>
      owned (cl_cache cl) = made_entries cl \<and> latest_ok cl (entries L U))"

lemma client_okD:
  assumes "client_ok cl L U"
  shows "cache_ok (cl_cache cl) (cl_held cl) L U" "latest_ok cl (entries L U)"
  using assms by (simp_all add: client_ok_def)

definition client_size :: "'v client \<Rightarrow> nat \<Rightarrow> bool" where
  "client_size cl n = (c_brk (cl_cache cl) \<le> 2 + n \<and> (\<forall>a. cl_held cl a \<le> n))"

lemma keeps_live: "keeps c c' \<Longrightarrow> a \<in> live_handles (c_handles c') \<Longrightarrow> a \<in> live_handles (c_handles c) \<and> data_of (c_handles c') a = data_of (c_handles c) a"
  unfolding keeps_def live_handles_def using data_None [of "c_handles c" a] data_None [of "c_handles c'" a] by auto

lemma entries_live: "cache_ok c held L U \<Longrightarrow> entries L U \<subseteq> live_handles (c_handles c)"
  using rings_dom [of "c_handles c" L U] by (auto simp: cache_ok_def cache_inv_def live_handles_def rings_def)

lemma client_size_step:
  assumes "client_size cl n" "c_brk (cl_cache cl') \<le> c_brk (cl_cache cl) + 1" "\<And>a. cl_held cl' a \<le> cl_held cl a + 1"
  shows "client_size cl' (n + 1)"
proof -
  have "cl_held cl' a \<le> n + 1" for a
    using assms(3) [of a] assms(1) le_trans [of "cl_held cl' a" "cl_held cl a + 1" "n + 1"] by (simp add: client_size_def)
  then show ?thesis using assms(1,2) by (simp add: client_size_def)
qed

lemma client_matches:
  assumes "client_ok cl L U" "a \<in> entries L U"
  shows "matches (cores_of (c_handles (cl_cache cl))) key hash a \<longleftrightarrow> made_for cl (key, hash) a"
proof -
  have lv: "a \<in> live_handles (c_handles (cl_cache cl))"
    using entries_live [OF client_okD(1) [OF assms(1)]] assms(2) by blast
  then obtain h where h: "c_handles (cl_cache cl) a = Some h" by (auto simp: live_handles_def)
  have "cl_made cl a = data_of (c_handles (cl_cache cl)) a"
    using assms(1) lv by (simp add: client_ok_def)
  then show ?thesis using h by (auto simp: matches_def made_for_def cores_of_def data_of_def)
qed

text \<open>The entry for a key is the latest made for it.\<close>

lemma client_entry:
  assumes ok: "client_ok cl L U" and p: "is_entry (cores_of (c_handles (cl_cache cl))) (entries L U) key hash p"
  shows "p = None \<and> (\<forall>a \<in> entries L U. \<not> made_for cl (key, hash) a) \<or>
    (\<exists>e. p = Some e \<and> e \<in> entries L U \<and> made_for cl (key, hash) e \<and> cl_latest cl (key, hash) = Some e)"
proof (cases p)
  case None
  then show ?thesis using p client_matches [OF ok] by (simp add: is_entry_def)
next
  case (Some e)
  then have e: "e \<in> entries L U" using p by (simp add: is_entry_def)
  then have m: "made_for cl (key, hash) e" using p Some client_matches [OF ok e] by (simp add: is_entry_def)
  have "\<forall>k. \<forall>a \<in> entries L U. made_for cl k a \<longrightarrow> cl_latest cl k = Some a"
    using client_okD(2) [OF ok] unfolding latest_ok_def by blast
  then show ?thesis using Some e m by blast
qed

lemma made_for_unique: "made_for cl k a \<Longrightarrow> made_for cl k' a \<Longrightarrow> k' = k"
  by (cases k; cases k') (auto simp: made_for_def)

lemma latest_ok_I:
  assumes "\<And>k a. a \<in> E \<Longrightarrow> made_for cl k a \<Longrightarrow> cl_latest cl k = Some a"
    and "\<And>k a. cl_latest cl k = Some a \<Longrightarrow> made_for cl k a"
    and "\<And>k a. cl_latest cl k = Some a \<Longrightarrow> 0 < cl_held cl a \<Longrightarrow> a \<in> E"
  shows "latest_ok cl E"
  unfolding latest_ok_def using assms by blast

lemma latest_okD:
  assumes "latest_ok cl E"
  shows "a \<in> E \<Longrightarrow> made_for cl k a \<Longrightarrow> cl_latest cl k = Some a" "cl_latest cl k = Some a \<Longrightarrow> made_for cl k a"
    "cl_latest cl k = Some a \<Longrightarrow> 0 < cl_held cl a \<Longrightarrow> a \<in> E"
  using assms unfolding latest_ok_def by blast+

text \<open>Evicting entries no client holds, and taking or releasing handles of entries that stay.\<close>

lemma latest_ok_less:
  assumes l: "latest_ok cl E" and c: "cl_made cl' = cl_made cl" "cl_latest cl' = cl_latest cl"
    and h: "\<And>a. 0 < cl_held cl' a \<Longrightarrow> 0 < cl_held cl a \<or> a \<in> E'"
    and E: "E' \<subseteq> E" "\<And>a. a \<in> E - E' \<Longrightarrow> cl_held cl a = 0"
  shows "latest_ok cl' E'"
proof -
  have mf: "made_for cl' = made_for cl" using c(1) by (simp add: made_for_def [abs_def])
  show ?thesis
  proof (rule latest_ok_I)
    fix k a
    show "cl_latest cl' k = Some a" if "a \<in> E'" "made_for cl' k a"
      using latest_okD(1) [OF l, of a k] that E(1) mf c(2) by (simp add: subsetD)
    assume a: "cl_latest cl' k = Some a"
    then show "made_for cl' k a" using latest_okD(2) [OF l] mf c(2) by simp
    assume "0 < cl_held cl' a"
    then have "0 < cl_held cl a \<or> a \<in> E'" by (rule h)
    then show "a \<in> E'"
    proof
      assume 1: "0 < cl_held cl a"
      then have "a \<in> E" using latest_okD(3) [OF l] a c by simp
      then show ?thesis using E(2) [of a] 1 by auto
    qed
  qed
qed

text \<open>A step that makes no entry.\<close>

lemma client_ok_keeps:
  assumes ok: "client_ok cl L U" and c': "cache_ok (cl_cache cl') (cl_held cl') L' U'" "keeps (cl_cache cl) (cl_cache cl')"
    and cl': "cl_made cl' = cl_made cl" "latest_ok cl' (entries L' U')"
  shows "client_ok cl' L' U'"
proof -
  have "\<forall>a \<in> live_handles (c_handles (cl_cache cl')). data_of (c_handles (cl_cache cl')) a = cl_made cl' a"
  proof
    fix a assume a: "a \<in> live_handles (c_handles (cl_cache cl'))"
    have "\<forall>a \<in> live_handles (c_handles (cl_cache cl)). data_of (c_handles (cl_cache cl)) a = cl_made cl a"
      using ok by (simp add: client_ok_def)
    then show "data_of (c_handles (cl_cache cl')) a = cl_made cl' a"
      using keeps_live [OF c'(2) a] cl'(1) by simp
  qed
  moreover have "made_entries cl' = made_entries cl"
    by (simp add: made_entries_def made_key_value_def [abs_def] cl'(1))
  moreover have "owned (cl_cache cl') = owned (cl_cache cl)" "c_brk (cl_cache cl') = c_brk (cl_cache cl)"
    using c'(2) by (simp_all add: keeps_def)
  moreover have "dom (cl_made cl) = {2..<c_brk (cl_cache cl)}" "2 \<le> c_brk (cl_cache cl)"
      "owned (cl_cache cl) = made_entries cl"
    using ok unfolding client_ok_def by blast+
  ultimately show ?thesis unfolding client_ok_def using c'(1) cl' by simp
qed

lemma step_Lookup_ok:
  assumes ok: "client_ok cl L U" and sz: "client_size cl n" "n < 2 ^ 31"
  shows "\<exists>cl' L' U'. client_step (Op_Lookup key hash) cl = Some cl' \<and> client_ok cl' L' U' \<and> client_size cl' (n + 1)"
proof -
  have "cl_held cl a < 2 ^ 31" for a using sz by (auto simp: client_size_def intro: le_less_trans)
  from cache_ok_Lookup [OF client_okD(1) [OF ok] this, of key hash]
  obtain p c' L' U' where r: "cache_Lookup key hash (cl_cache cl) = Some (p, c')" "keeps (cl_cache cl) c'"
      "is_entry (cores_of (c_handles (cl_cache cl))) (entries L U) key hash p"
      "case p of None \<Rightarrow> c' = cl_cache cl \<and> L' = L \<and> U' = U
       | Some e \<Rightarrow> cache_ok c' ((cl_held cl)(e := cl_held cl e + 1)) L' U' \<and> L' = without e L \<and> set U' = insert e (set U)"
    by blast
  show ?thesis
  proof (cases p)
    case None
    then have "client_step (Op_Lookup key hash) cl = Some cl" using r(1,4) by simp
    then show ?thesis using ok client_size_step [OF sz(1), of cl] by auto
  next
    case (Some e)
    define cl' where "cl' = cl\<lparr>cl_cache := c', cl_held := (cl_held cl)(e := cl_held cl e + 1)\<rparr>"
    have e: "e \<in> entries L U" using r(3) Some by (simp add: is_entry_def)
    have "entries L' U' = entries L U" using r(4) Some e by auto
    then have "latest_ok cl' (entries L' U')"
      using e by (intro latest_ok_less [OF client_okD(2) [OF ok]]) (auto simp: cl'_def split: if_splits)
    moreover have "cache_ok c' ((cl_held cl)(e := cl_held cl e + 1)) L' U'" using r(4) unfolding Some option.case by blast
    ultimately have "client_ok cl' L' U'"
      using r(2) by (intro client_ok_keeps [OF ok]) (simp_all add: cl'_def)
    moreover have "client_size cl' (n + 1)" using r(2) by (intro client_size_step [OF sz(1)]) (auto simp: cl'_def keeps_def)
    moreover have "client_step (Op_Lookup key hash) cl = Some cl'" using r(1) Some by (simp add: cl'_def)
    ultimately show ?thesis by blast
  qed
qed

lemma step_Release_ok:
  assumes ok: "client_ok cl L U" and sz: "client_size cl n"
  shows "\<exists>cl' L' U'. client_step (Op_Release e) cl = Some cl' \<and> client_ok cl' L' U' \<and> client_size cl' (n + 1)"
proof (cases "cl_held cl e = 0")
  case True
  then have "client_step (Op_Release e) cl = Some cl" by simp
  then show ?thesis using ok client_size_step [OF sz, of cl] by auto
next
  case False
  obtain c' L' U' where r: "cache_Release e (cl_cache cl) = Some c'"
      "cache_ok c' ((cl_held cl)(e := cl_held cl e - 1)) L' U'" "keeps (cl_cache cl) c'" "entries L' U' = entries L U"
    using cache_ok_Release [OF client_okD(1) [OF ok], of e] False by auto
  define cl' where "cl' = cl\<lparr>cl_cache := c', cl_held := (cl_held cl)(e := cl_held cl e - 1)\<rparr>"
  have "latest_ok cl' (entries L' U')"
    using r(4) False by (intro latest_ok_less [OF client_okD(2) [OF ok]]) (auto simp: cl'_def split: if_splits)
  then have "client_ok cl' L' U'"
    using r by (intro client_ok_keeps [OF ok]) (simp_all add: cl'_def)
  moreover have "client_size cl' (n + 1)" using r(3) by (intro client_size_step [OF sz]) (auto simp: cl'_def keeps_def)
  moreover have "client_step (Op_Release e) cl = Some cl'" using r(1) False by (simp add: cl'_def)
  ultimately show ?thesis by blast
qed

lemma step_Erase_ok:
  assumes ok: "client_ok cl L U" and sz: "client_size cl n"
  shows "\<exists>cl' L' U'. client_step (Op_Erase key hash) cl = Some cl' \<and> client_ok cl' L' U' \<and> client_size cl' (n + 1)"
proof -
  obtain p c' where r: "cache_Erase key hash (cl_cache cl) = Some c'"
      "is_entry (cores_of (c_handles (cl_cache cl))) (entries L U) key hash p"
      "cache_ok c' (cl_held cl) (minus_entry p L) (minus_entry p U)" "keeps (cl_cache cl) c'"
    using cache_ok_Erase [OF client_okD(1) [OF ok]] by blast
  define cl' where "cl' = cl\<lparr>cl_cache := c', cl_latest := (cl_latest cl)((key, hash) := None)\<rparr>"
  have "latest_ok cl' (entries (minus_entry p L) (minus_entry p U))"
    unfolding entries_minus
  proof (rule latest_ok_I)
    have mf: "made_for cl' = made_for cl" by (simp add: cl'_def made_for_def [abs_def])
    fix k a
    show "cl_latest cl' k = Some a" if a: "a \<in> entries L U - set_option p" "made_for cl' k a"
    proof -
      have k: "cl_latest cl k = Some a" using latest_okD(1) [OF client_okD(2) [OF ok]] a mf by auto
      moreover have "k \<noteq> (key, hash)" using client_entry [OF ok r(2)] a mf k by auto
      ultimately show ?thesis by (simp add: cl'_def)
    qed
    assume a: "cl_latest cl' k = Some a"
    then have la: "cl_latest cl k = Some a" "k \<noteq> (key, hash)" by (auto simp: cl'_def split: if_splits)
    then show "made_for cl' k a" using latest_okD(2) [OF client_okD(2) [OF ok]] mf by simp
    assume "0 < cl_held cl' a"
    then have "a \<in> entries L U" using latest_okD(3) [OF client_okD(2) [OF ok] la(1)] by (simp add: cl'_def)
    moreover have "p \<noteq> Some a"
      using client_entry [OF ok r(2)] latest_okD(2) [OF client_okD(2) [OF ok] la(1)] la(2) made_for_unique by blast
    ultimately show "a \<in> entries L U - set_option p" by auto
  qed
  then have "client_ok cl' (minus_entry p L) (minus_entry p U)"
    using r by (intro client_ok_keeps [OF ok]) (simp_all add: cl'_def)
  moreover have "client_size cl' (n + 1)" using r(4) by (intro client_size_step [OF sz]) (auto simp: cl'_def keeps_def)
  moreover have "client_step (Op_Erase key hash) cl = Some cl'" using r(1) by (simp add: cl'_def)
  ultimately show ?thesis by blast
qed

lemma step_Prune_ok:
  assumes ok: "client_ok cl L U" and sz: "client_size cl n"
  shows "\<exists>cl' L' U'. client_step Op_Prune cl = Some cl' \<and> client_ok cl' L' U' \<and> client_size cl' (n + 1)"
proof -
  obtain c' where r: "cache_Prune (cl_cache cl) = Some c'" "cache_ok c' (cl_held cl) [] U" "keeps (cl_cache cl) c'"
    using cache_Prune_ok [OF client_okD(1) [OF ok]] by blast
  define cl' where "cl' = cl\<lparr>cl_cache := c'\<rparr>"
  have "\<forall>a \<in> set L. cl_held cl a = 0" using ok by (simp add: client_ok_def cache_ok_def)
  then have "latest_ok cl' (entries [] U)"
    by (intro latest_ok_less [OF client_okD(2) [OF ok]]) (auto simp: cl'_def)
  then have "client_ok cl' [] U"
    using r by (intro client_ok_keeps [OF ok]) (simp_all add: cl'_def)
  moreover have "client_size cl' (n + 1)" using r(3) by (intro client_size_step [OF sz]) (auto simp: cl'_def keeps_def)
  moreover have "client_step Op_Prune cl = Some cl'" using r(1) by (simp add: cl'_def)
  ultimately show ?thesis by blast
qed

lemma step_Insert_ok:
  assumes ok: "client_ok cl L U" and sz: "client_size cl n" "n + 2 < 2 ^ 31"
  shows "\<exists>cl' L' U'. client_step (Op_Insert key hash val charge) cl = Some cl' \<and> client_ok cl' L' U' \<and>
    client_size cl' (n + 1) \<and> (c_usage (cl_cache cl') \<le> c_capacity (cl_cache cl') \<or> L' = [])"
proof -
  let ?c = "cl_cache cl"
  define e where "e = c_brk ?c"
  have "c_brk ?c < 2 ^ 31" using sz by (simp add: client_size_def)
  from cache_ok_Insert [OF client_okD(1) [OF ok] this, of key hash val charge]
  obtain p c' L' U' k where r: "cache_Insert key hash val charge ?c = Some (e, c')"
      "cache_ok c' ((cl_held cl)(e := 1)) L' U'" "adds key hash val charge ?c c'"
      "is_entry (cores_of (c_handles ?c)) (entries L U) key hash p"
      "if 0 < c_capacity ?c then L' = drop k (minus_entry p L) \<and> U' = minus_entry p U @ [e]
       else L' = drop k L \<and> U' = U" "c_usage c' \<le> c_capacity c' \<or> L' = []"
    unfolding e_def by blast
  have inv: "cache_inv ?c (refs_of (entries L U) (cl_held cl)) L U" using ok by (simp add: client_ok_def cache_ok_def)
  have fr: "e \<notin> entries L U" "e \<notin> live_handles (c_handles ?c)" using brk_fresh [OF inv] by (auto simp: e_def live_handles_def)
  have held: "cl_held cl e = 0" using cache_ok_held [OF client_okD(1) [OF ok], of e] fr by auto
  have capeq: "c_capacity c' = c_capacity ?c" and brk: "c_brk c' = e + 1" using r(3) by (simp_all add: adds_def e_def)
  define cl' where "cl' = cl\<lparr>cl_cache := c', cl_held := (cl_held cl)(e := 1), cl_made := (cl_made cl)(e \<mapsto> (key, hash, val, charge)),
      cl_latest := (if 0 < c_capacity ?c then (cl_latest cl)((key, hash) \<mapsto> e) else cl_latest cl)\<rparr>"
  have step: "client_step (Op_Insert key hash val charge) cl = Some cl'"
    using r(1) held by (simp add: cl'_def capeq)
  have dom: "dom (cl_made cl) = {2..<e}" "2 \<le> e" using ok by (simp_all add: client_ok_def e_def)
  have mf: "made_for cl' k a \<longleftrightarrow> (if a = e then k = (key, hash) else made_for cl k a)" for k a
    by (cases k) (auto simp: made_for_def cl'_def)
  have mf_e: "a \<noteq> e" if "made_for cl k a" for k a
    using that dom by (auto simp: made_for_def)
  have lt: "latest_ok cl' (entries L' U')"
  proof (cases "0 < c_capacity ?c")
    case True
    have EU: "entries L' U' \<subseteq> insert e (entries L U - set_option p)" "e \<in> entries L' U'"
      using r(5) True by (auto dest: in_set_dropD)
    have gone: "cl_held cl a = 0 \<or> p = Some a" if "a \<in> entries L U" "a \<notin> entries L' U'" for a
      using that r(5) True client_okD(1) [OF ok] by (auto simp: cache_ok_def dest: in_set_dropD)
    show ?thesis
    proof (rule latest_ok_I)
      fix k a
      show "cl_latest cl' k = Some a" if a: "a \<in> entries L' U'" "made_for cl' k a"
      proof (cases "a = e")
        case True
        then show ?thesis using a(2) mf \<open>0 < c_capacity ?c\<close> by (simp add: cl'_def)
      next
        case False
        then have a': "a \<in> entries L U" "p \<noteq> Some a" "made_for cl k a" using a EU mf by auto
        then have la: "cl_latest cl k = Some a" using latest_okD(1) [OF client_okD(2) [OF ok]] by blast
        have "k \<noteq> (key, hash)" using client_entry [OF ok r(4)] a' la by auto
        then show ?thesis using la by (simp add: cl'_def)
      qed
      assume a: "cl_latest cl' k = Some a"
      consider (new) "k = (key, hash)" "a = e" | (old) "k \<noteq> (key, hash)" "cl_latest cl k = Some a"
        using a True by (auto simp: cl'_def split: if_splits)
      note c = this
      show "made_for cl' k a"
        using c
      proof cases
        case old
        then have "made_for cl k a" using latest_okD(2) [OF client_okD(2) [OF ok]] by blast
        then show ?thesis using mf_e [of k a] by (simp add: mf)
      qed (simp add: mf)
      assume h: "0 < cl_held cl' a"
      show "a \<in> entries L' U'"
        using c
      proof cases
        case new
        then show ?thesis using EU by simp
      next
        case old
        have m: "made_for cl k a" using latest_okD(2) [OF client_okD(2) [OF ok] old(2)] .
        then have "0 < cl_held cl a" using h mf_e by (simp add: cl'_def)
        then have "a \<in> entries L U" using latest_okD(3) [OF client_okD(2) [OF ok] old(2)] by simp
        moreover have "p \<noteq> Some a" using client_entry [OF ok r(4)] m old(1) made_for_unique by blast
        ultimately show ?thesis using gone [of a] \<open>0 < cl_held cl a\<close> by auto
      qed
    qed
  next
    case False
    have EU: "entries L' U' \<subseteq> entries L U" using r(5) False by (auto dest: in_set_dropD)
    have gone: "cl_held cl a = 0" if "a \<in> entries L U" "a \<notin> entries L' U'" for a
      using that r(5) False client_okD(1) [OF ok] by (auto simp: cache_ok_def)
    have l: "cl_latest cl' = cl_latest cl" using False by (simp add: cl'_def)
    show ?thesis
    proof (rule latest_ok_I)
      fix k a
      show "cl_latest cl' k = Some a" if "a \<in> entries L' U'" "made_for cl' k a"
        using that EU fr(1) mf l latest_okD(1) [OF client_okD(2) [OF ok], of a k] by (auto split: if_splits)
      assume a: "cl_latest cl' k = Some a"
      then have m: "made_for cl k a" using latest_okD(2) [OF client_okD(2) [OF ok]] l by simp
      then show "made_for cl' k a" using mf mf_e by auto
      assume "0 < cl_held cl' a"
      then have "0 < cl_held cl a" using m mf_e by (simp add: cl'_def)
      then show "a \<in> entries L' U'"
        using latest_okD(3) [OF client_okD(2) [OF ok], of k a] a l gone [of a] by auto
    qed
  qed
  have data: "data_of (c_handles c') a = cl_made cl' a" if a: "a \<in> live_handles (c_handles c')" for a
  proof -
    have "data_of (c_handles c') a = ((data_of (c_handles ?c))(e \<mapsto> (key, hash, val, charge))) a"
      using a r(3) by (simp add: adds_def live_handles_def e_def domIff)
    moreover have "a \<in> live_handles (c_handles ?c)" if "a \<noteq> e"
      using calculation a that data_None [of "c_handles ?c" a] data_None [of "c_handles c'" a]
      by (auto simp: live_handles_def)
    then have "a \<noteq> e \<Longrightarrow> data_of (c_handles ?c) a = cl_made cl a" using ok by (simp add: client_ok_def)
    ultimately show ?thesis by (simp add: cl'_def)
  qed
  have own: "owned c' = made_entries cl'"
  proof -
    have e: "e \<notin> {2..<e}" by simp
    have "image_mset (made_key_value cl') (mset_set {2..<e}) = image_mset (made_key_value cl) (mset_set {2..<e})"
      by (intro image_mset_cong) (auto simp: made_key_value_def cl'_def)
    moreover have "dom (cl_made cl') = insert e {2..<e}" using dom by (auto simp: cl'_def)
    moreover have "made_key_value cl' e = (key, val)" by (simp add: made_key_value_def cl'_def)
    ultimately have "made_entries cl' = add_mset (key, val) (made_entries cl)"
      using dom by (simp add: made_entries_def)
    then show ?thesis using ok r(3) by (simp add: client_ok_def adds_def)
  qed
  have "client_ok cl' L' U'"
    unfolding client_ok_def
  proof (intro conjI ballI)
    show "dom (cl_made cl') = {2..<c_brk (cl_cache cl')}" using dom brk by (auto simp: cl'_def)
    show "2 \<le> c_brk (cl_cache cl')" using dom brk by (simp add: cl'_def)
  qed (use r(2) lt data own in \<open>simp_all add: cl'_def\<close>)
  moreover have "client_size cl' (n + 1)"
    using brk by (intro client_size_step [OF sz(1)]) (auto simp: cl'_def e_def)
  moreover have "c_usage (cl_cache cl') \<le> c_capacity (cl_cache cl') \<or> L' = []" using r(6) by (simp add: cl'_def)
  ultimately show ?thesis using step by blast
qed

lemma client_step_ok:
  assumes "client_ok cl L U" "client_size cl n" "n + 2 < 2 ^ 31"
  shows "\<exists>cl' L' U'. client_step op cl = Some cl' \<and> client_ok cl' L' U' \<and> client_size cl' (n + 1)"
proof (cases op)
  case Op_Insert
  then show ?thesis using step_Insert_ok [OF assms] by blast
next
  case Op_Lookup
  then show ?thesis using step_Lookup_ok [OF assms(1,2)] assms(3) by simp
next
  case Op_Release
  then show ?thesis using step_Release_ok [OF assms(1,2)] by blast
next
  case Op_Erase
  then show ?thesis using step_Erase_ok [OF assms(1,2)] by blast
next
  case Op_Prune
  then show ?thesis using step_Prune_ok [OF assms(1,2)] by blast
qed

lemma client_run_ok:
  assumes "client_ok cl L U" "client_size cl n" "n + length ops + 1 < 2 ^ 31"
  shows "\<exists>cl' L' U'. client_run ops cl = Some cl' \<and> client_ok cl' L' U' \<and> client_size cl' (n + length ops)"
  using assms
proof (induction ops arbitrary: cl L U n)
  case (Cons op ops)
  obtain cl1 L1 U1 where 1: "client_step op cl = Some cl1" "client_ok cl1 L1 U1" "client_size cl1 (n + 1)"
    using client_step_ok [OF Cons.prems(1,2), of op] Cons.prems(3) by auto
  then show ?case using Cons.IH [OF 1(2,3)] Cons.prems(3) by auto
qed auto

lemma client_run_append: "client_run (ops @ ops') cl = Option.bind (client_run ops cl) (client_run ops')"
  by (induction ops arbitrary: cl) (auto split: bind_splits)

lemma run_cache_ok:
  assumes "length ops < 2 ^ 31 - 1"
  shows "\<exists>cl L U. run_cache junk capacity ops = Some cl \<and> client_ok cl L U \<and> client_size cl (length ops)"
proof -
  obtain c where c: "make_LRUCache junk capacity = Some c" "cache_ok c (\<lambda>_. 0) [] []" "owned c = {#}" "c_brk c = 2"
      "live_handles (c_handles c) = {}"
    using make_LRUCache_ok [of junk capacity] by blast
  define cl where "cl = \<lparr>cl_cache = c, cl_held = (\<lambda>_. 0), cl_made = Map.empty, cl_latest = Map.empty\<rparr>"
  have "latest_ok cl {}" by (rule latest_ok_I) (simp_all add: cl_def)
  then have "client_ok cl [] []"
    using c unfolding client_ok_def by (simp add: cl_def made_entries_def)
  moreover have "client_size cl 0" using c(4) by (simp add: client_size_def cl_def)
  ultimately show ?thesis
    using client_run_ok [of cl "[]" "[]" 0 ops] assms c(1) by (simp add: run_cache_def cl_def)
qed

section \<open>Properties\<close>

definition cached :: "'v lru_cache \<Rightarrow> addr \<Rightarrow> bool" where
  "cached c a = (\<exists>h. a \<notin> {lru_head, in_use_head} \<and> c_handles c a = Some h \<and> h_in_cache h)"

lemma cached_entries:
  assumes "cache_ok c held L U"
  shows "cached c a \<longleftrightarrow> a \<in> entries L U"
proof -
  have n: "counted (c_handles c) (refs_of (entries L U) held) (entries L U)" and rg: "rings (c_handles c) L U"
    using assms by (auto simp: cache_ok_def cache_inv_def)
  show ?thesis
  proof
    assume "cached c a"
    then show "a \<in> entries L U" using countedD(1) [OF n] by (auto simp: cached_def)
  next
    assume a: "a \<in> entries L U"
    then obtain h where h: "c_handles c a = Some h" using rings_dom [OF rg] by auto
    have "a \<notin> {lru_head, in_use_head}" using a rg by (auto simp: rings_def)
    then show "cached c a" using countedD(1) [OF n h] h a by (auto simp: cached_def)
  qed
qed

lemma client_held_data:
  assumes ok: "client_ok cl L U" and a: "0 < cl_held cl a"
  shows "\<exists>h. c_handles (cl_cache cl) a = Some h \<and> cl_made cl a = Some (h_key h, h_hash h, h_value h, h_charge h)"
proof -
  have lv: "a \<in> live_handles (c_handles (cl_cache cl))" using cache_ok_held [OF client_okD(1) [OF ok] a] .
  then have "data_of (c_handles (cl_cache cl)) a = cl_made cl a" using ok by (simp add: client_ok_def)
  then show ?thesis using lv by (auto simp: data_of_def live_handles_def)
qed

text \<open>
  C36. Every sequence of calls on a cache succeeds, whatever its keys, hashes, charges and capacity: no call goes
  through a pointer to an entry that was freed. An entry a client holds a handle of is still allocated,
  with the key, the value and the charge it was inserted with.
\<close>

theorem cache_calls_safe:
  assumes "length ops < 2 ^ 31 - 1"
  shows "\<exists>cl. run_cache junk capacity ops = Some cl \<and>
    (\<forall>a. 0 < cl_held cl a \<longrightarrow> (\<exists>h. c_handles (cl_cache cl) a = Some h \<and>
      cl_made cl a = Some (h_key h, h_hash h, h_value h, h_charge h)))"
proof -
  obtain cl L U where "run_cache junk capacity ops = Some cl" "client_ok cl L U"
    using run_cache_ok [OF assms] by blast
  then show ?thesis using client_held_data by blast
qed

text \<open>
  C37. A lookup finds the entry last inserted for the key, or nothing; it finds it when a client holds a handle of it,
  unless it has been erased.
\<close>

theorem cache_lookup_latest:
  assumes "length ops < 2 ^ 31 - 1"
  shows "\<exists>cl p c'. run_cache junk capacity ops = Some cl \<and> cache_Lookup key hash (cl_cache cl) = Some (p, c') \<and>
    p \<in> {None, cl_latest cl (key, hash)} \<and> (\<forall>a. cl_latest cl (key, hash) = Some a \<longrightarrow> 0 < cl_held cl a \<longrightarrow> p = Some a)"
proof -
  obtain cl L U where r: "run_cache junk capacity ops = Some cl" "client_ok cl L U" "client_size cl (length ops)"
    using run_cache_ok [OF assms] by blast
  have "cl_held cl a < 2 ^ 31" for a using r(3) assms by (auto simp: client_size_def intro: le_less_trans)
  from cache_ok_Lookup [OF client_okD(1) [OF r(2)] this, of key hash]
  obtain p c' where p: "cache_Lookup key hash (cl_cache cl) = Some (p, c')"
      "is_entry (cores_of (c_handles (cl_cache cl))) (entries L U) key hash p"
    by blast
  have "p = Some a" if a: "cl_latest cl (key, hash) = Some a" "0 < cl_held cl a" for a
  proof -
    have "made_for cl (key, hash) a" "a \<in> entries L U"
      using latest_okD(2,3) [OF client_okD(2) [OF r(2)]] a by blast+
    then show ?thesis using a(1) client_entry [OF r(2) p(2)] by auto
  qed
  moreover have "p \<in> {None, cl_latest cl (key, hash)}" using client_entry [OF r(2) p(2)] by auto
  ultimately show ?thesis using r(1) p(1) by blast
qed

text \<open>
  C38. The charge of a cache is the sum of the charges of its entries (modulo \<open>2^64\<close>), and an insertion leaves it
  within the capacity unless all the entries are in use by clients.
\<close>

theorem cache_insert_charge:
  assumes "length ops < 2 ^ 31 - 2"
  shows "\<exists>cl. run_cache junk capacity (ops @ [Op_Insert key hash val charge]) = Some cl \<and>
    TotalCharge (cl_cache cl) = (\<Sum>a | cached (cl_cache cl) a. charge_at (c_handles (cl_cache cl)) a) \<and>
    (TotalCharge (cl_cache cl) \<le> c_capacity (cl_cache cl) \<or> (\<forall>a. cached (cl_cache cl) a \<longrightarrow> 0 < cl_held cl a))"
proof -
  obtain cl0 L0 U0 where 0: "run_cache junk capacity ops = Some cl0" "client_ok cl0 L0 U0" "client_size cl0 (length ops)"
    using run_cache_ok [of ops junk capacity] assms by auto
  obtain cl L U where 1: "client_step (Op_Insert key hash val charge) cl0 = Some cl" "client_ok cl L U"
      "c_usage (cl_cache cl) \<le> c_capacity (cl_cache cl) \<or> L = []"
    using step_Insert_ok [OF 0(2,3), of key hash val charge] assms by auto
  have "run_cache junk capacity (ops @ [Op_Insert key hash val charge]) = Some cl"
    using 0(1) 1(1) unfolding run_cache_def by (auto simp: client_run_append bind_eq_Some_conv simp del: client_step.simps)
  moreover have en: "cached (cl_cache cl) a \<longleftrightarrow> a \<in> entries L U" for a using cached_entries [OF client_okD(1) [OF 1(2)]] .
  moreover have "Collect (cached (cl_cache cl)) = entries L U" using en by auto
  moreover have "c_usage (cl_cache cl) = (\<Sum>a \<in> entries L U. charge_at (c_handles (cl_cache cl)) a)"
      "\<forall>a \<in> set U. 0 < cl_held cl a"
    using client_okD(1) [OF 1(2)] by (simp_all add: cache_ok_def cache_inv_def)
  ultimately show ?thesis
    using 1(3) en by (auto simp: TotalCharge_def)
qed

text \<open>
  C39. Every entry inserted is passed to its deleter once: those not passed to it yet are in the cache or held by a client,
  and the destructor of a cache none of whose handles are held passes it those that are left.
\<close>

theorem cache_deleter_once:
  assumes "length ops < 2 ^ 31 - 1"
  shows "\<exists>cl. run_cache junk capacity ops = Some cl \<and>
    made_entries cl = mset (c_deleted (cl_cache cl)) +
      image_mset (made_key_value cl) (mset_set {a. cached (cl_cache cl) a \<or> 0 < cl_held cl a}) \<and>
    ((\<forall>a. cl_held cl a = 0) \<longrightarrow>
      (\<exists>c'. destroy_LRUCache (cl_cache cl) = Some c' \<and> mset (c_deleted c') = made_entries cl))"
proof -
  obtain cl L U where r: "run_cache junk capacity ops = Some cl" "client_ok cl L U"
    using run_cache_ok [OF assms] by blast
  let ?c = "cl_cache cl"
  have ok: "cache_ok ?c (cl_held cl) L U" using client_okD(1) [OF r(2)] .
  then have n: "counted (c_handles ?c) (refs_of (entries L U) (cl_held cl)) (entries L U)"
      and br: "dom (c_handles ?c) \<subseteq> {..<c_brk ?c}"
    by (simp_all add: cache_ok_def cache_inv_def)
  have lv: "{a. cached ?c a \<or> 0 < cl_held cl a} = live_handles (c_handles ?c)"
  proof (intro set_eqI iffI)
    fix a assume "a \<in> {a. cached ?c a \<or> 0 < cl_held cl a}"
    then show "a \<in> live_handles (c_handles ?c)"
      using cache_ok_held [OF ok] entries_live [OF ok] cached_entries [OF ok] by auto
  next
    fix a assume a: "a \<in> live_handles (c_handles ?c)"
    then obtain h where h: "c_handles ?c a = Some h" "a \<notin> {lru_head, in_use_head}" by (auto simp: live_handles_def)
    have "0 < refs_of (entries L U) (cl_held cl) a" using countedD(3) [OF n h] .
    then show "a \<in> {a. cached ?c a \<or> 0 < cl_held cl a}"
      using cached_entries [OF ok] by (auto simp: refs_of_def split: if_splits)
  qed
  have kv: "image_mset (key_value (c_handles ?c)) (mset_set (live_handles (c_handles ?c))) =
      image_mset (made_key_value cl) (mset_set (live_handles (c_handles ?c)))"
  proof (rule image_mset_cong)
    fix a assume "a \<in># mset_set (live_handles (c_handles ?c))"
    then have a: "a \<in> live_handles (c_handles ?c)" using live_handles_finite [OF br] by simp
    then have "data_of (c_handles ?c) a = cl_made cl a" using r(2) by (simp add: client_ok_def)
    then show "key_value (c_handles ?c) a = made_key_value cl a"
      using a by (cases "c_handles ?c a") (auto simp: data_of_def live_handles_def key_value_def made_key_value_def split: option.splits)
  qed
  have own: "owned ?c = made_entries cl" using r(2) by (simp add: client_ok_def)
  then have "made_entries cl = mset (c_deleted ?c) +
      image_mset (made_key_value cl) (mset_set {a. cached ?c a \<or> 0 < cl_held cl a})"
    by (simp add: lv owned_def kv)
  moreover have "\<exists>c'. destroy_LRUCache ?c = Some c' \<and> mset (c_deleted c') = made_entries cl" if "\<forall>a. cl_held cl a = 0"
  proof -
    have "cl_held cl = (\<lambda>_. 0)" using that by auto
    then show ?thesis using destroy_LRUCache_ok [of ?c L U] ok own by simp
  qed
  ultimately show ?thesis using r(1) by blast
qed

section \<open>Examples\<close>

definition example_calls :: "nat cache_op list" where
  "example_calls = [Op_Insert [107] 7 1 4, Op_Insert [108] 7 2 4, Op_Release 3, Op_Lookup [107] 7]"

lemma example_run:
  "map_option (\<lambda>cl. (map (cl_held cl) [2, 3], cl_latest cl ([107], 7), c_usage (cl_cache cl)))
     (run_cache 0 10 example_calls) = Some ([2, 0], Some 2, 8)"
  unfolding example_calls_def by code_simp

theorem cache_calls_safe_witness:
  "\<exists>cl h. run_cache 0 10 example_calls = Some cl \<and> c_handles (cl_cache cl) 2 = Some h \<and>
    cl_made cl 2 = Some (h_key h, h_hash h, h_value h, h_charge h)"
proof -
  have "length example_calls < 2 ^ 31 - 1" by (simp add: example_calls_def)
  from cache_calls_safe [OF this, of 0 10] obtain cl where cl: "run_cache 0 10 example_calls = Some cl"
      "\<forall>a. 0 < cl_held cl a \<longrightarrow> (\<exists>h. c_handles (cl_cache cl) a = Some h \<and>
        cl_made cl a = Some (h_key h, h_hash h, h_value h, h_charge h))"
    by blast
  have "0 < cl_held cl 2" using example_run cl(1) by auto
  then show ?thesis using cl by blast
qed

theorem cache_lookup_latest_witness:
  "\<exists>cl c'. run_cache 0 10 example_calls = Some cl \<and> cache_Lookup [107] 7 (cl_cache cl) = Some (Some 2, c')"
proof -
  have "length example_calls < 2 ^ 31 - 1" by (simp add: example_calls_def)
  from cache_lookup_latest [OF this, of 0 10 "[107]" 7] obtain cl p c' where cl: "run_cache 0 10 example_calls = Some cl"
      "cache_Lookup [107] 7 (cl_cache cl) = Some (p, c')"
      "\<forall>a. cl_latest cl ([107], 7) = Some a \<longrightarrow> 0 < cl_held cl a \<longrightarrow> p = Some a"
    by blast
  have "0 < cl_held cl 2" "cl_latest cl ([107], 7) = Some 2" using example_run cl(1) by auto
  then show ?thesis using cl by blast
qed

theorem cache_insert_charge_witness:
  "\<exists>cl. run_cache 0 10 (example_calls @ [Op_Insert [109] 9 5 4]) = Some cl \<and>
    (TotalCharge (cl_cache cl) \<le> c_capacity (cl_cache cl) \<or> (\<forall>a. cached (cl_cache cl) a \<longrightarrow> 0 < cl_held cl a))"
proof -
  have "length example_calls < 2 ^ 31 - 2" by (simp add: example_calls_def)
  from cache_insert_charge [OF this, of 0 10 "[109]" 9 5 4] show ?thesis by blast
qed

lemma example_released:
  "map_option (\<lambda>cl. (cl_held cl 2, c_brk (cl_cache cl))) (run_cache 0 10 [Op_Insert [107] 7 (1 :: nat) 4, Op_Release 2]) =
     Some (0, 3)"
  by code_simp

theorem cache_deleter_once_witness:
  "\<exists>cl c'. run_cache 0 10 [Op_Insert [107] 7 (1 :: nat) 4, Op_Release 2] = Some cl \<and>
    destroy_LRUCache (cl_cache cl) = Some c' \<and> mset (c_deleted c') = made_entries cl"
proof -
  define ops where "ops = [Op_Insert [107] 7 (1 :: nat) 4, Op_Release 2]"
  have l: "length ops < 2 ^ 31 - 1" by (simp add: ops_def)
  from cache_deleter_once [OF l, of 0 10] obtain cl where cl: "run_cache 0 10 ops = Some cl"
      "(\<forall>a. cl_held cl a = 0) \<longrightarrow>
        (\<exists>c'. destroy_LRUCache (cl_cache cl) = Some c' \<and> mset (c_deleted c') = made_entries cl)"
    by blast
  obtain L U where ok: "client_ok cl L U" using run_cache_ok [OF l, of 0 10] cl(1) by auto
  have ex: "cl_held cl 2 = 0" "c_brk (cl_cache cl) = 3" using example_released cl(1) unfolding ops_def by auto
  have "cl_held cl a = 0" for a
  proof (rule ccontr)
    assume a: "cl_held cl a \<noteq> 0"
    then have "a \<in> dom (cl_made cl)" using client_held_data [OF ok, of a] by auto
    then have "a \<in> {2..<3}" using ok ex(2) by (simp add: client_ok_def)
    then show False using a ex(1) by (simp add: less_Suc_eq_le numeral_eq_Suc le_antisym)
  qed
  then show ?thesis using cl unfolding ops_def by blast
qed

end
