(* ===== verification/LdbTableFormat.thy ===== *)
theory LdbTableFormat
  imports LdbBlock LdbLog
begin

text \<open>
  The parts of a table file that are not blocks of entries: \<open>leveldb-library/table/format.cc\<close> and \<open>format.h\<close>, and the
  compression of \<open>port/port_stdcxx.h\<close>. A handle is the place of a block in the file; after the block come a type byte and
  a checksum; the footer has the handles of the index and of the metaindex. Compression is not compiled in
  (\<open>HAVE_SNAPPY\<close>).

  \<open>RandomAccessFile\<close> is a parameter: a function of offset and size that gives the status, the bytes, and whether
  they lie outside of the caller's buffer. A read beyond what it gave is \<open>None\<close>.
\<close>

section \<open>Block handles and the footer\<close>

record block_handle =
  bh_offset :: u64
  bh_size :: u64

definition make_BlockHandle :: block_handle where
  "make_BlockHandle = \<lparr>bh_offset = NOT 0, bh_size = NOT 0\<rparr>"

definition bh_EncodeTo :: "block_handle \<Rightarrow> bytes \<Rightarrow> bytes" where
  "bh_EncodeTo h dst = PutVarint64 (PutVarint64 dst (bh_offset h)) (bh_size h)"

definition bh_DecodeFrom :: "slice \<Rightarrow> block_handle \<Rightarrow> status \<times> block_handle \<times> slice" where
  "bh_DecodeFrom input h =
     (let bad = status_Corruption (c_str ''bad block handle'') [] in
      case GetVarint64 input of
        (None, input) \<Rightarrow> (bad, h, input)
      | (Some x, input) \<Rightarrow>
          (case GetVarint64 input of
             (None, input) \<Rightarrow> (bad, h\<lparr>bh_offset := x\<rparr>, input)
           | (Some y, input) \<Rightarrow> (status_OK, h\<lparr>bh_offset := x, bh_size := y\<rparr>, input)))"

definition kMaxEncodedLength :: nat where "kMaxEncodedLength = 10 + 10"
definition kEncodedLength :: nat where "kEncodedLength = 2 * kMaxEncodedLength + 8"
definition kTableMagicNumber :: u64 where "kTableMagicNumber = 0xdb4775248b80fb57"
definition kBlockTrailerSize :: nat where "kBlockTrailerSize = 5"

record footer =
  metaindex_handle :: block_handle
  index_handle :: block_handle

definition make_Footer :: footer where
  "make_Footer = \<lparr>metaindex_handle = make_BlockHandle, index_handle = make_BlockHandle\<rparr>"

text \<open>\<open>std::string::resize\<close>\<close>

definition str_resize :: "nat \<Rightarrow> bytes \<Rightarrow> bytes" where
  "str_resize n s = take n s @ replicate (n - length s) 0"

definition footer_EncodeTo :: "footer \<Rightarrow> bytes \<Rightarrow> bytes" where
  "footer_EncodeTo f dst =
     (let dst = bh_EncodeTo (metaindex_handle f) dst;
          dst = bh_EncodeTo (index_handle f) dst;
          dst = str_resize (2 * kMaxEncodedLength) dst;
          dst = PutFixed32 dst (ucast (kTableMagicNumber AND 0xffffffff))
      in PutFixed32 dst (ucast (drop_bit 32 kTableMagicNumber)))"

definition footer_DecodeFrom :: "slice \<Rightarrow> footer \<Rightarrow> (status \<times> footer \<times> slice) option" where
  "footer_DecodeFrom input f =
     (if length input < kEncodedLength then None
      else
        let magic_ptr = drop (kEncodedLength - 8) input;
            magic_lo = DecodeFixed32 magic_ptr;
            magic_hi = DecodeFixed32 (drop 4 magic_ptr);
            magic = (push_bit 32 (ucast magic_hi) OR ucast magic_lo :: u64)
        in if magic \<noteq> kTableMagicNumber then Some (status_Corruption (c_str ''not an sstable (bad magic number)'') [], f, input)
           else
             let (result, h, rest) = bh_DecodeFrom input (metaindex_handle f);
                 f = f\<lparr>metaindex_handle := h\<rparr>;
                 (result, f, rest) =
                   (if status_ok result
                    then (case bh_DecodeFrom rest (index_handle f) of (r, h, rest) \<Rightarrow> (r, f\<lparr>index_handle := h\<rparr>, rest))
                    else (result, f, rest))
             in Some (result, f, if status_ok result then drop kEncodedLength input else rest))"

section \<open>Compression\<close>

definition kNoCompression :: u8 where "kNoCompression = 0"
definition kSnappyCompression :: u8 where "kSnappyCompression = 1"

definition Snappy_Compress :: "bytes \<Rightarrow> bytes option" where
  "Snappy_Compress input = None"

definition Snappy_GetUncompressedLength :: "bytes \<Rightarrow> nat option" where
  "Snappy_GetUncompressedLength input = None"

definition Snappy_Uncompress :: "bytes \<Rightarrow> bytes option" where
  "Snappy_Uncompress input = None"

section \<open>Reading a block\<close>

type_synonym random_access_file = "u64 \<Rightarrow> nat \<Rightarrow> status \<times> slice \<times> bool"

record block_contents =
  bc_data :: slice
  bc_cachable :: bool
  bc_heap_allocated :: bool

definition no_contents :: block_contents where
  "no_contents = \<lparr>bc_data = [], bc_cachable = False, bc_heap_allocated = False\<rparr>"

text \<open>The sizes are of 64 bits, so the size of a corrupted handle may wrap. A \<open>None\<close> of the decompressor is \<open>false\<close>.\<close>

definition ReadBlock :: "random_access_file \<Rightarrow> bool \<Rightarrow> block_handle \<Rightarrow> (status \<times> block_contents) option" where
  "ReadBlock file verify_checksums handle =
     (let n = unat (bh_size handle);
          n5 = (n + kBlockTrailerSize) mod 2 ^ 64;
          (s, contents, outside) = file (bh_offset handle) n5
      in if \<not> status_ok s then Some (s, no_contents)
         else if length contents \<noteq> n5 then Some (status_Corruption (c_str ''truncated block read'') [], no_contents)
         else if length contents < n + (if verify_checksums then kBlockTrailerSize else 1) then None
         else if verify_checksums \<and> Value 0 (take (n + 1) contents) \<noteq> Unmask (DecodeFixed32 (drop (n + 1) contents))
         then Some (status_Corruption (c_str ''block checksum mismatch'') [], no_contents)
         else if contents ! n = kNoCompression
         then Some (status_OK, \<lparr>bc_data = take n contents, bc_cachable = \<not> outside, bc_heap_allocated = \<not> outside\<rparr>)
         else if contents ! n = kSnappyCompression
         then
           (case Snappy_GetUncompressedLength (take n contents) of
              None \<Rightarrow> Some (status_Corruption (c_str ''corrupted compressed block contents'') [], no_contents)
            | Some ulength \<Rightarrow>
                (case Snappy_Uncompress (take n contents) of
                   None \<Rightarrow> Some (status_Corruption (c_str ''corrupted compressed block contents'') [], no_contents)
                 | Some ubuf \<Rightarrow> Some (status_OK, \<lparr>bc_data = ubuf, bc_cachable = True, bc_heap_allocated = True\<rparr>)))
         else Some (status_Corruption (c_str ''bad block type'') [], no_contents))"

section \<open>Round trips\<close>

lemma bh_EncodeTo_appends: "bh_EncodeTo h dst = dst @ bh_EncodeTo h []"
  by (simp add: bh_EncodeTo_def PutVarint64_def)

lemma length_bh_EncodeTo: "length (bh_EncodeTo h []) \<le> 20"
  using length_leb128_u64 [of "bh_offset h"] length_leb128_u64 [of "bh_size h"]
  by (simp add: bh_EncodeTo_def PutVarint64_def EncodeVarint64_eq)

lemma bh_DecodeFrom_EncodeTo:
  "bh_DecodeFrom (bh_EncodeTo h [] @ rest) h' = (status_OK, h, rest)"
proof -
  have "GetVarint64 (EncodeVarint64 v @ q) = (Some v, q)" for v q
    by (simp add: GetVarint64_def EncodeVarint64_eq)
  then show ?thesis by (cases h) (simp add: bh_DecodeFrom_def bh_EncodeTo_def PutVarint64_def)
qed

text \<open>The footer has always the same length and is read back as it was written.\<close>

lemma footer_roundtrip:
  "length (footer_EncodeTo f []) = kEncodedLength"
  "footer_DecodeFrom (footer_EncodeTo f [] @ rest) f' = Some (status_OK, f, rest)"
proof -
  let ?m = "bh_EncodeTo (metaindex_handle f) []" and ?i = "bh_EncodeTo (index_handle f) []"
  define pad where "pad = (replicate (40 - length (?m @ ?i)) 0 :: bytes)"
  define magic where "magic = EncodeFixed32 (ucast (kTableMagicNumber AND 0xffffffff)) @ EncodeFixed32 (ucast (drop_bit 32 kTableMagicNumber))"
  have l: "length (?m @ ?i) \<le> 40" using length_bh_EncodeTo [of "metaindex_handle f"] length_bh_EncodeTo [of "index_handle f"] by simp
  have enc: "footer_EncodeTo f [] = ?m @ ?i @ pad @ magic"
    using l bh_EncodeTo_appends [of "index_handle f" ?m]
    by (simp add: footer_EncodeTo_def Let_def str_resize_def PutFixed32_def magic_def pad_def kMaxEncodedLength_def)
  have len: "length (?m @ ?i @ pad) = 40" using l by (simp add: pad_def)
  show "length (footer_EncodeTo f []) = kEncodedLength"
    unfolding enc using len by (simp add: magic_def kEncodedLength_def kMaxEncodedLength_def)
  define input where "input = footer_EncodeTo f [] @ rest"
  have inp: "input = ?m @ ?i @ (pad @ magic @ rest)" unfolding input_def enc by simp
  have ptr: "drop (kEncodedLength - 8) input = magic @ rest" "drop kEncodedLength input = rest" "\<not> length input < kEncodedLength"
    unfolding input_def enc using len by (simp_all add: magic_def kEncodedLength_def kMaxEncodedLength_def)
  have m: "push_bit 32 (ucast (DecodeFixed32 (drop 4 (magic @ rest)))) OR ucast (DecodeFixed32 (magic @ rest)) = kTableMagicNumber"
    by (simp add: magic_def kTableMagicNumber_def)
  have d: "bh_DecodeFrom input h = (status_OK, metaindex_handle f, ?i @ pad @ magic @ rest)" for h
    unfolding inp by (rule bh_DecodeFrom_EncodeTo)
  show "footer_DecodeFrom (footer_EncodeTo f [] @ rest) f' = Some (status_OK, f, rest)"
    unfolding input_def [symmetric] footer_DecodeFrom_def Let_def ptr m d
    using ptr(3) by (simp add: bh_DecodeFrom_EncodeTo ptr)
qed

text \<open>A block with its trailer, as \<open>WriteRawBlock\<close> writes it.\<close>

definition block_trailer :: "bytes \<Rightarrow> bytes" where
  "block_trailer contents = kNoCompression # EncodeFixed32 (Mask (Value 0 (contents @ [kNoCompression])))"

lemma length_block_trailer [simp]: "length (block_trailer contents) = kBlockTrailerSize"
  by (simp add: block_trailer_def kBlockTrailerSize_def)

lemma ReadBlock_written:
  assumes "file (bh_offset h) (length contents + 5) = (status_OK, contents @ block_trailer contents, outside)"
    and "unat (bh_size h) = length contents" and "length contents + 5 < 2 ^ 64"
  shows "ReadBlock file verify_checksums h =
    Some (status_OK, \<lparr>bc_data = contents, bc_cachable = \<not> outside, bc_heap_allocated = \<not> outside\<rparr>)"
  using assms DecodeFixed32_EncodeFixed32 [of "Mask (Value 0 (contents @ [kNoCompression]))" "[]"]
  by (simp add: ReadBlock_def Let_def kBlockTrailerSize_def block_trailer_def nth_append Unmask_Mask)

text \<open>
  The size of a corrupted handle: \<open>n + kBlockTrailerSize\<close> wraps to a small number, the read succeeds, and the type
  byte and the checksum are looked for beyond the buffer.
\<close>

lemma ReadBlock_size_wraps:
  assumes "bh_size h = 2 ^ 64 - 1" and "file (bh_offset h) 4 = (status_OK, contents, outside)" and "length contents = 4"
  shows "ReadBlock file verify_checksums h = None"
  using assms by (simp add: ReadBlock_def kBlockTrailerSize_def)

text \<open>
  C40. Damage to a block in up to four consecutive bytes of its contents and type is noticed: a read that verifies
  checksums gives an error and no contents.
\<close>
theorem ReadBlock_detects_damage:
  assumes "contents @ [kNoCompression] = before @ xs @ after" and "length xs = length ys" and "length xs \<le> 4" and "xs \<noteq> ys"
    and "file (bh_offset h) (length contents + 5) =
      (status_OK, before @ ys @ after @ EncodeFixed32 (Mask (Value 0 (contents @ [kNoCompression]))), outside)"
    and "unat (bh_size h) = length contents" and "length contents + 5 < 2 ^ 64"
  shows "ReadBlock file True h = Some (status_Corruption (c_str ''block checksum mismatch'') [], no_contents)"
proof -
  let ?stored = "before @ ys @ after" and ?crc = "Mask (Value 0 (contents @ [kNoCompression]))"
  have len: "length ?stored = length contents + 1" using arg_cong [OF assms(1), of length] assms(2) by simp
  have parts: "take (length contents + 1) (?stored @ EncodeFixed32 ?crc) = ?stored"
    "drop (length contents + 1) (?stored @ EncodeFixed32 ?crc) = EncodeFixed32 ?crc"
    using len by (simp_all only: take_append drop_append) simp_all
  have ne: "Value 0 ?stored \<noteq> Value 0 (contents @ [kNoCompression])"
    unfolding assms(1) using crc32c_burst [OF assms(2-4), of before after] by (simp add: Value_def Extend_is_crc32c)
  have "DecodeFixed32 (EncodeFixed32 ?crc) = ?crc" using DecodeFixed32_EncodeFixed32 [of ?crc "[]"] by simp
  then show ?thesis
    using assms(5-7) parts ne len
    by (simp add: ReadBlock_def Let_def kBlockTrailerSize_def Unmask_Mask)
qed

lemma ReadBlock_detects_damage_witness:
  "ReadBlock (\<lambda>off n. (status_OK, [1, 9, 0] @ EncodeFixed32 (Mask (Value 0 [1, 2, 0])), False)) True \<lparr>bh_offset = 0, bh_size = 2\<rparr> =
     Some (status_Corruption (c_str ''block checksum mismatch'') [], no_contents)"
  using ReadBlock_detects_damage [of "[1, 2]" "[1]" "[2]" "[0]" "[9]"
      "\<lambda>off n. (status_OK, [1, 9, 0] @ EncodeFixed32 (Mask (Value 0 [1, 2, 0])), False)" "\<lparr>bh_offset = 0, bh_size = 2\<rparr>" False]
  by (simp add: kNoCompression_def)

end
