(* ===== verification/LdbFilterBlock.thy ===== *)
theory LdbFilterBlock
  imports LdbTableFormat
begin

text \<open>
  The filter block of a table file: \<open>leveldb-library/table/filter_block.cc\<close> and \<open>filter_block.h\<close>. The keys of the blocks that
  begin in the same stretch of two kilobytes of the file share a filter. The filter policy is an interface; it is
  interpreted by the Bloom filter and by the policy the database makes of it, which looks at user keys only.
\<close>

section \<open>The filter policy\<close>

record filter_policy =
  fp_Name :: bytes
  fp_CreateFilter :: "slice list \<Rightarrow> bytes \<Rightarrow> bytes"
  fp_KeyMayMatch :: "slice \<Rightarrow> slice \<Rightarrow> bool"

text \<open>\<open>same\<close> relates the keys a filter does not tell apart.\<close>

locale filter_contract =
  fixes policy :: filter_policy
    and same :: "slice \<Rightarrow> slice \<Rightarrow> bool"
  assumes create_appends: "\<exists>filter. fp_CreateFilter policy keys dst = dst @ filter"
    and no_false_negative: "k \<in> set keys \<Longrightarrow> same key k \<Longrightarrow> length keys < 2 ^ 30 \<Longrightarrow>
      fp_KeyMayMatch policy key (drop (length dst) (fp_CreateFilter policy keys dst))"
begin

definition filter_of :: "slice list \<Rightarrow> bytes \<Rightarrow> bytes" where
  "filter_of keys dst = drop (length dst) (fp_CreateFilter policy keys dst)"

lemma create: "fp_CreateFilter policy keys dst = dst @ filter_of keys dst"
  using create_appends [of keys dst] by (auto simp: filter_of_def)

lemma filter_matches: "k \<in> set keys \<Longrightarrow> same key k \<Longrightarrow> length keys < 2 ^ 30 \<Longrightarrow> fp_KeyMayMatch policy key (filter_of keys dst)"
  using no_false_negative by (simp add: filter_of_def)

end

section \<open>The builder\<close>

definition kFilterBaseLg :: nat where "kFilterBaseLg = 11"
definition kFilterBase :: u64 where "kFilterBase = push_bit kFilterBaseLg 1"

record filter_builder =
  fb_keys :: bytes
  fb_start :: "nat list"
  fb_result :: bytes
  fb_filter_offsets :: "u32 list"

definition make_FilterBlockBuilder :: filter_builder where
  "make_FilterBlockBuilder = \<lparr>fb_keys = [], fb_start = [], fb_result = [], fb_filter_offsets = []\<rparr>"

text \<open>The list of keys out of the flattened keys.\<close>

definition list_keys :: "bytes \<Rightarrow> nat list \<Rightarrow> slice list" where
  "list_keys keys start = map (\<lambda>i. take (start ! (i + 1) - start ! i) (drop (start ! i) keys)) [0..<length start - 1]"

definition GenerateFilter :: "filter_policy \<Rightarrow> filter_builder \<Rightarrow> filter_builder" where
  "GenerateFilter policy b =
     (if fb_start b = [] then b\<lparr>fb_filter_offsets := fb_filter_offsets b @ [of_nat (length (fb_result b))]\<rparr>
      else
        let start = fb_start b @ [length (fb_keys b)];
            tmp_keys = list_keys (fb_keys b) start
        in b\<lparr>fb_filter_offsets := fb_filter_offsets b @ [of_nat (length (fb_result b))],
             fb_result := fp_CreateFilter policy tmp_keys (fb_result b), fb_keys := [], fb_start := []\<rparr>)"

lemma length_GenerateFilter: "length (fb_filter_offsets (GenerateFilter policy b)) = length (fb_filter_offsets b) + 1"
  by (simp add: GenerateFilter_def Let_def)

function generate_until :: "filter_policy \<Rightarrow> nat \<Rightarrow> filter_builder \<Rightarrow> filter_builder" where
  "generate_until policy filter_index b =
     (if length (fb_filter_offsets b) < filter_index then generate_until policy filter_index (GenerateFilter policy b) else b)"
  by pat_completeness auto
termination
  by (relation "measure (\<lambda>(policy, filter_index, b). filter_index - length (fb_filter_offsets b))")
    (auto simp: length_GenerateFilter)

declare generate_until.simps [simp del]

definition StartBlock :: "filter_policy \<Rightarrow> u64 \<Rightarrow> filter_builder \<Rightarrow> filter_builder" where
  "StartBlock policy offset b = generate_until policy (unat (offset div kFilterBase)) b"

definition AddKey :: "slice \<Rightarrow> filter_builder \<Rightarrow> filter_builder" where
  "AddKey key b = b\<lparr>fb_start := fb_start b @ [length (fb_keys b)], fb_keys := fb_keys b @ key\<rparr>"

definition fb_Finish :: "filter_policy \<Rightarrow> filter_builder \<Rightarrow> slice \<times> filter_builder" where
  "fb_Finish policy b =
     (let b = (if fb_start b \<noteq> [] then GenerateFilter policy b else b);
          array_offset = of_nat (length (fb_result b)) :: u32;
          result = fold (\<lambda>x r. PutFixed32 r x) (fb_filter_offsets b) (fb_result b);
          result = PutFixed32 result array_offset @ [of_nat kFilterBaseLg]
      in (result, b\<lparr>fb_result := result\<rparr>))"

section \<open>The reader\<close>

text \<open>The offset array is at \<open>fr_offset\<close> in the data; \<open>base_lg_\<close> is a byte extended with its sign.\<close>

record filter_reader =
  fr_data :: bytes
  fr_offset :: nat
  fr_num :: nat
  fr_base_lg :: u64

definition make_FilterBlockReader :: "slice \<Rightarrow> filter_reader" where
  "make_FilterBlockReader contents =
     (let n = length contents in
      if n < 5 then \<lparr>fr_data = [], fr_offset = 0, fr_num = 0, fr_base_lg = 0\<rparr>
      else
        let base_lg = scast (contents ! (n - 1)) :: u64;
            last_word = unat (DecodeFixed32 (drop (n - 5) contents))
        in if n - 5 < last_word then \<lparr>fr_data = [], fr_offset = 0, fr_num = 0, fr_base_lg = base_lg\<rparr>
           else \<lparr>fr_data = contents, fr_offset = last_word, fr_num = (n - 5 - last_word) div 4, fr_base_lg = base_lg\<rparr>)"

text \<open>A shift by the width of the number or more is \<open>None\<close>.\<close>

definition filter_KeyMayMatch :: "filter_policy \<Rightarrow> filter_reader \<Rightarrow> u64 \<Rightarrow> slice \<Rightarrow> bool option" where
  "filter_KeyMayMatch policy r block_place key =
     (if 64 \<le> fr_base_lg r then None
      else
        let index = unat (drop_bit (unat (fr_base_lg r)) block_place) in
        if index < fr_num r then
          let start = unat (DecodeFixed32 (drop (fr_offset r + index * 4) (fr_data r)));
              limit = unat (DecodeFixed32 (drop (fr_offset r + index * 4 + 4) (fr_data r)))
          in if start \<le> limit \<and> limit \<le> fr_offset r
             then Some (fp_KeyMayMatch policy key (take (limit - start) (drop start (fr_data r))))
             else if start = limit then Some False
             else Some True
        else Some True)"

section \<open>What a filter block holds\<close>

text \<open>The keys waiting for their filter.\<close>

definition pending_keys :: "filter_builder \<Rightarrow> slice list \<Rightarrow> bool" where
  "pending_keys b keys = (fb_keys b = concat keys \<and> fb_start b = map (\<lambda>i. length (concat (take i keys))) [0..<length keys])"

lemma pending_AddKey: "pending_keys b keys \<Longrightarrow> pending_keys (AddKey key b) (keys @ [key])"
  by (simp add: pending_keys_def AddKey_def)

lemma list_keys_pending:
  assumes "pending_keys b keys"
  shows "list_keys (fb_keys b) (fb_start b @ [length (fb_keys b)]) = keys"
proof -
  have s: "fb_start b @ [length (fb_keys b)] = map (\<lambda>i. length (concat (take i keys))) [0..<length keys + 1]"
    using assms by (simp add: pending_keys_def)
  show ?thesis
  proof (rule nth_equalityI)
    show "length (list_keys (fb_keys b) (fb_start b @ [length (fb_keys b)])) = length keys"
      unfolding s by (simp add: list_keys_def)
    fix i assume "i < length (list_keys (fb_keys b) (fb_start b @ [length (fb_keys b)]))"
    then have i: "i < length keys" unfolding s by (simp add: list_keys_def)
    have "concat keys = concat (take i keys) @ keys ! i @ concat (drop (Suc i) keys)"
      using i by (metis concat.simps(2) concat_append id_take_nth_drop)
    moreover have "concat (take (Suc i) keys) = concat (take i keys) @ keys ! i"
      using i by (simp add: take_Suc_conv_app_nth)
    ultimately show "list_keys (fb_keys b) (fb_start b @ [length (fb_keys b)]) ! i = keys ! i"
      using i assms unfolding s by (simp add: list_keys_def pending_keys_def del: upt_Suc)
  qed
qed

context filter_contract
begin

text \<open>The filters made so far: filter \<open>j\<close> of the keys \<open>kss ! j\<close>.\<close>

fun filters :: "slice list list \<Rightarrow> bytes" where
  "filters kss = foldl (\<lambda>r ks. if ks = [] then r else r @ filter_of ks r) [] kss"

definition built :: "filter_builder \<Rightarrow> slice list list \<Rightarrow> slice list \<Rightarrow> bool" where
  "built b kss keys =
     (fb_result b = filters kss \<and> fb_filter_offsets b = map (\<lambda>j. of_nat (length (filters (take j kss)))) [0..<length kss] \<and>
      pending_keys b keys)"

lemma filters_snoc: "filters (kss @ [ks]) = filters kss @ (if ks = [] then [] else filter_of ks (filters kss))"
  by simp

lemma built_start: "built make_FilterBlockBuilder [] []"
  by (simp add: built_def make_FilterBlockBuilder_def pending_keys_def)

lemma built_AddKey: "built b kss keys \<Longrightarrow> built (AddKey key b) kss (keys @ [key])"
  using pending_AddKey [of b keys key] by (simp add: built_def AddKey_def del: filters.simps)

lemma built_GenerateFilter:
  assumes "built b kss keys"
  shows "built (GenerateFilter policy b) (kss @ [keys]) []"
proof -
  have p: "pending_keys b keys" and r: "fb_result b = filters kss"
    and o: "fb_filter_offsets b = map (\<lambda>j. of_nat (length (filters (take j kss)))) [0..<length kss]"
    using assms by (simp_all add: built_def del: filters.simps)
  have e: "fb_start b = [] \<longleftrightarrow> keys = []" using p by (simp add: pending_keys_def)
  have "fb_filter_offsets b @ [of_nat (length (fb_result b))] =
      map (\<lambda>j. of_nat (length (filters (take j (kss @ [keys]))))) [0..<length (kss @ [keys])]"
    unfolding o r by (simp del: filters.simps)
  then show ?thesis
    using p r e list_keys_pending [OF p]
    by (auto simp: built_def GenerateFilter_def Let_def pending_keys_def create filters_snoc simp del: filters.simps)
qed

lemma built_generate_until:
  "built b kss keys \<Longrightarrow> built (generate_until policy n b)
     (kss @ (if length kss < n then keys # replicate (n - length kss - 1) [] else [])) (if length kss < n then [] else keys)"
proof (induction "n - length kss" arbitrary: b kss keys)
  case 0
  then have "length (fb_filter_offsets b) = length kss" by (simp add: built_def)
  then have "generate_until policy n b = b" using 0 by (subst generate_until.simps) simp
  then show ?case using 0 by simp
next
  case (Suc d)
  have l: "length (fb_filter_offsets b) = length kss" using Suc.prems by (simp add: built_def)
  have n: "length kss < n" using Suc.hyps(2) by simp
  have g: "generate_until policy n b = generate_until policy n (GenerateFilter policy b)"
    using l n by (subst generate_until.simps) simp
  have d: "d = n - length (kss @ [keys])" using Suc.hyps(2) by simp
  have "replicate (n - length kss - 1) [] =
      (if length (kss @ [keys]) < n then [] # replicate (n - length (kss @ [keys]) - 1) [] else [] :: slice list list)"
    using n by (cases "n - length kss - 1") (auto simp: Suc_diff_le)
  then show ?case
    using Suc.hyps(1) [OF d built_GenerateFilter [OF Suc.prems]] g n by (simp split: if_splits)
qed

end

section \<open>A filter block is read as it was built\<close>

lemma unat_div_base: "unat (x div kFilterBase) = unat x div 2048"
  by (simp add: kFilterBase_def kFilterBaseLg_def unat_div)

lemma filter_KeyMayMatch_defined: "fr_base_lg r < 64 \<Longrightarrow> filter_KeyMayMatch policy r off key \<noteq> None"
proof -
  assume "fr_base_lg r < 64"
  then have "\<not> 64 \<le> fr_base_lg r" by (simp add: not_le)
  then show ?thesis by (auto simp: filter_KeyMayMatch_def Let_def)
qed

context filter_contract
begin

lemma filters_take_append: "\<exists>rest. filters kss = filters (take j kss) @ rest"
proof (induction kss rule: rev_induct)
  case (snoc ks kss)
  then obtain rest where r: "filters kss = filters (take j kss) @ rest" by blast
  show ?case
  proof (cases "j \<le> length kss")
    case True
    then show ?thesis using r unfolding filters_snoc by (simp del: filters.simps)
  qed (simp del: filters.simps)
qed simp

lemma filters_nth:
  assumes "j < length kss"
  shows "\<exists>rest. filters kss = filters (take j kss) @ (if kss ! j = [] then [] else filter_of (kss ! j) (filters (take j kss))) @ rest"
proof -
  have "filters (take (Suc j) kss) = filters (take j kss) @ (if kss ! j = [] then [] else filter_of (kss ! j) (filters (take j kss)))"
    using assms filters_snoc [of "take j kss" "kss ! j"] by (simp add: take_Suc_conv_app_nth del: filters.simps)
  then show ?thesis using filters_take_append [of kss "Suc j"] by (simp del: filters.simps)
qed

lemma finish_contents:
  assumes "built b kss keys"
  defines "kss' \<equiv> (if keys = [] then kss else kss @ [keys])"
  shows "fst (fb_Finish policy b) = filters kss' @
    concat (map EncodeFixed32 (map (\<lambda>j. of_nat (length (filters (take j kss')))) [0..<length kss'])) @
    EncodeFixed32 (of_nat (length (filters kss'))) @ [11]"
proof -
  define b' where "b' = (if fb_start b \<noteq> [] then GenerateFilter policy b else b)"
  have "pending_keys b keys" using assms(1) by (simp add: built_def)
  then have "fb_start b = [] \<longleftrightarrow> keys = []" by (simp add: pending_keys_def)
  then have "built b' kss' []"
    using assms(1) built_GenerateFilter [OF assms(1)] by (auto simp: b'_def kss'_def)
  then have r: "fb_result b' = filters kss'"
      "fb_filter_offsets b' = map (\<lambda>j. of_nat (length (filters (take j kss')))) [0..<length kss']"
    by (simp_all add: built_def del: filters.simps)
  have "fst (fb_Finish policy b) = PutFixed32 (fold (\<lambda>x r. PutFixed32 r x) (fb_filter_offsets b') (fb_result b'))
      (of_nat (length (fb_result b'))) @ [of_nat kFilterBaseLg]"
    unfolding fb_Finish_def b'_def [symmetric] by (simp add: Let_def)
  then show ?thesis
    unfolding fold_PutFixed32 unfolding r by (simp add: PutFixed32_def kFilterBaseLg_def del: filters.simps)
qed

lemma reader_fields:
  assumes c: "contents = F @ concat (map EncodeFixed32 os) @ EncodeFixed32 (of_nat (length F)) @ [11]"
    and small: "length contents < 2 ^ 32"
  shows "make_FilterBlockReader contents = \<lparr>fr_data = contents, fr_offset = length F, fr_num = length os, fr_base_lg = 11\<rparr>"
proof -
  have l: "length (concat (map EncodeFixed32 os)) = length os * 4" by (rule length_fixed32s)
  have n: "length contents = length F + length os * 4 + 5" unfolding c using l by simp
  have "drop (length contents - 5) contents = EncodeFixed32 (of_nat (length F)) @ [11]"
    unfolding n unfolding c using l by simp
  then have w: "unat (DecodeFixed32 (drop (length contents - 5) contents)) = length F"
    using n small by (simp add: unat_of_nat_u32)
  have "contents ! (length contents - 1) = 11"
    unfolding n unfolding c using l by (simp add: nth_append)
  then show ?thesis
    using n w by (simp add: make_FilterBlockReader_def Let_def)
qed

text \<open>A key that shares its filter with a key of the block matches; and the reader never fails.\<close>

lemma reader_matches:
  assumes b: "built b kss keys" and small: "length (fst (fb_Finish policy b)) < 2 ^ 32"
  shows "filter_KeyMayMatch policy (make_FilterBlockReader (fst (fb_Finish policy b))) off key \<noteq> None"
    and "k \<in> set ((kss @ [keys]) ! (unat off div 2048)) \<Longrightarrow> unat off div 2048 \<le> length kss \<Longrightarrow> same key k \<Longrightarrow>
      length ((kss @ [keys]) ! (unat off div 2048)) < 2 ^ 30 \<Longrightarrow>
      filter_KeyMayMatch policy (make_FilterBlockReader (fst (fb_Finish policy b))) off key = Some True"
proof -
  define kss' where "kss' = (if keys = [] then kss else kss @ [keys])"
  define os where "os = (map (\<lambda>j. of_nat (length (filters (take j kss')))) [0..<length kss'] :: u32 list)"
  define contents where "contents = fst (fb_Finish policy b)"
  have c: "contents = filters kss' @ concat (map EncodeFixed32 os) @ EncodeFixed32 (of_nat (length (filters kss'))) @ [11]"
    unfolding contents_def os_def kss'_def using finish_contents [OF b] by (simp del: filters.simps)
  have r: "make_FilterBlockReader contents =
      \<lparr>fr_data = contents, fr_offset = length (filters kss'), fr_num = length os, fr_base_lg = 11\<rparr>"
    using reader_fields [OF c] small by (simp add: contents_def)
  have n: "length os = length kss'" by (simp add: os_def)
  define i where "i = unat off div 2048"
  have ix: "unat (drop_bit 11 off) = i" by (simp add: i_def drop_bit_eq_div unat_div)
  show "filter_KeyMayMatch policy (make_FilterBlockReader (fst (fb_Finish policy b))) off key \<noteq> None"
    unfolding contents_def [symmetric] r by (rule filter_KeyMayMatch_defined) simp
  assume k: "k \<in> set ((kss @ [keys]) ! (unat off div 2048))" "unat off div 2048 \<le> length kss" "same key k"
    "length ((kss @ [keys]) ! (unat off div 2048)) < 2 ^ 30"
  have i: "i < length kss'" "kss' ! i = (kss @ [keys]) ! i"
    using k(1,2) unfolding i_def kss'_def by (auto simp: nth_append split: if_splits)
  then have ne: "kss' ! i \<noteq> []" using k(1) i_def by auto
  obtain rest where sp: "filters kss' = filters (take i kss') @ filter_of (kss' ! i) (filters (take i kss')) @ rest"
    using filters_nth [OF i(1)] ne by auto
  let ?s = "length (filters (take i kss'))" and ?f = "filter_of (kss' ! i) (filters (take i kss'))"
  have len: "length contents < 2 ^ 32" using small by (simp add: contents_def)
  have lF: "length (filters kss') < 2 ^ 32" using len unfolding c by (simp del: filters.simps)
  have after: "length (filters (take (Suc i) kss')) = ?s + length ?f"
    using i(1) ne filters_snoc [of "take i kss'" "kss' ! i"] by (simp add: take_Suc_conv_app_nth del: filters.simps)
  define tl where "tl = EncodeFixed32 (of_nat (length (filters kss'))) @ [11 :: u8]"
  have dr: "drop (length (filters kss') + m) contents = drop m (concat (map EncodeFixed32 os) @ tl)" for m
    unfolding c tl_def by (simp del: filters.simps)
  have start: "unat (DecodeFixed32 (drop (length (filters kss') + i * 4) contents)) = ?s"
  proof -
    have "DecodeFixed32 (drop (i * 4) (concat (map EncodeFixed32 os) @ tl)) = os ! i"
      by (rule Decode_fixed32s) (use i n in simp)
    moreover have "os ! i = of_nat ?s" using i(1) by (simp add: os_def del: filters.simps)
    moreover have "?s < 2 ^ 32" using lF sp by (metis length_append trans_less_add1 add_lessD1)
    ultimately show ?thesis unfolding dr by (simp add: unat_of_nat_u32 del: filters.simps)
  qed
  have lim: "?s + length ?f \<le> length (filters kss')"
    using arg_cong [OF sp, of length] by (simp del: filters.simps)
  have lm: "drop (length (filters kss') + i * 4 + 4) contents = drop (Suc i * 4) (concat (map EncodeFixed32 os) @ tl)"
    using dr [of "Suc i * 4"] by (simp add: ac_simps del: filters.simps)
  have limit: "unat (DecodeFixed32 (drop (length (filters kss') + i * 4 + 4) contents)) = ?s + length ?f"
  proof (cases "Suc i < length kss'")
    case True
    have "DecodeFixed32 (drop (Suc i * 4) (concat (map EncodeFixed32 os) @ tl)) = os ! Suc i"
      by (rule Decode_fixed32s) (use True n in simp)
    moreover have "os ! Suc i = of_nat (?s + length ?f)" using True after by (simp add: os_def del: filters.simps upt_Suc)
    ultimately show ?thesis using lim lF unfolding lm by (simp add: unat_of_nat_u32 del: filters.simps of_nat_add)
  next
    case False
    then have "Suc i = length kss'" using i(1) by simp
    then have "length (filters kss') = ?s + length ?f" "drop (Suc i * 4) (concat (map EncodeFixed32 os) @ tl) = tl"
      using after n length_fixed32s [of os] by (simp_all del: filters.simps)
    then show ?thesis using lF unfolding lm by (simp add: tl_def unat_of_nat_u32 del: filters.simps of_nat_add)
  qed
  have "take (?s + length ?f - ?s) (drop ?s contents) = ?f"
    unfolding c sp by (simp del: filters.simps)
  moreover have "fp_KeyMayMatch policy key ?f"
    using k i(2) by (intro filter_matches [of k]) (simp_all add: i_def)
  ultimately show "filter_KeyMayMatch policy (make_FilterBlockReader (fst (fb_Finish policy b))) off key = Some True"
    unfolding contents_def [symmetric] r using lim i(1) n
    by (simp add: filter_KeyMayMatch_def Let_def ix start limit del: filters.simps)
qed

text \<open>The keys of a data block are among those of the filter of its offset, and stay there.\<close>

definition covers :: "slice list list \<Rightarrow> slice list \<Rightarrow> nat \<Rightarrow> slice list \<Rightarrow> bool" where
  "covers kss keys off ks = (off div 2048 \<le> length kss \<and> set ks \<subseteq> set ((kss @ [keys]) ! (off div 2048)))"

lemma covers_AddKey: "covers kss keys off ks \<Longrightarrow> covers kss (keys @ [key]) off ks"
  by (auto simp: covers_def nth_append split: if_splits)

lemma covers_add: "covers kss keys off ks \<Longrightarrow> length kss = off div 2048 \<Longrightarrow> covers kss (keys @ [key]) off (ks @ [key])"
  by (auto simp: covers_def nth_append)

lemma StartBlock_built:
  assumes b: "built b kss keys" and n: "length kss \<le> unat off div 2048"
  shows "\<exists>kss' keys'. built (StartBlock policy off b) kss' keys' \<and> length kss' = unat off div 2048 \<and>
    (\<forall>o' ks. covers kss keys o' ks \<longrightarrow> covers kss' keys' o' ks) \<and>
    length (concat kss') + length keys' = length (concat kss) + length keys"
proof (cases "length kss < unat off div 2048")
  case True
  define n where "n = unat off div 2048"
  let ?kss = "kss @ keys # replicate (n - length kss - 1) []"
  have "built (StartBlock policy off b) ?kss []"
    using built_generate_until [OF b, of n] True by (simp add: StartBlock_def unat_div_base n_def)
  moreover have "length ?kss = n" using True by (simp add: n_def)
  moreover have "covers ?kss [] o' ks" if "covers kss keys o' ks" for o' ks
    using that by (auto simp: covers_def nth_append split: if_splits)
  moreover have "length (concat ?kss) = length (concat kss) + length keys"
    by (simp add: length_concat sum_list_replicate)
  ultimately show ?thesis unfolding n_def by (intro exI [of _ ?kss] exI [of _ "[]"]) (simp add: n_def)
next
  case False
  then show ?thesis
    using built_generate_until [OF b, of "unat off div 2048"] n
    by (intro exI [of _ kss] exI [of _ keys]) (simp add: StartBlock_def unat_div_base)
qed

lemma covers_length: "covers kss keys off ks \<Longrightarrow> length ((kss @ [keys]) ! (off div 2048)) \<le> length (concat kss) + length keys"
proof -
  have "length x \<le> length (concat xs)" if "x \<in> set xs" for x and xs :: "slice list list"
    using that by (induction xs) auto
  moreover assume "covers kss keys off ks"
  then have "(kss @ [keys]) ! (off div 2048) \<in> set (kss @ [keys])" by (intro nth_mem) (simp add: covers_def)
  ultimately show ?thesis by fastforce
qed

end

section \<open>The filter policies\<close>

definition BloomFilterPolicy :: "bloom_policy \<Rightarrow> filter_policy" where
  "BloomFilterPolicy p =
     \<lparr>fp_Name = c_str ''leveldb.BuiltinBloomFilter2'', fp_CreateFilter = CreateFilter p, fp_KeyMayMatch = KeyMayMatch\<rparr>"

definition InternalFilterPolicy :: "bloom_policy \<Rightarrow> filter_policy" where
  "InternalFilterPolicy p =
     \<lparr>fp_Name = fp_Name (BloomFilterPolicy p), fp_CreateFilter = InternalFilter_Create p, fp_KeyMayMatch = InternalFilter_Match\<rparr>"

lemma set_probes_prefix: "take base (set_probes j base bits h delta dst) = take base dst"
  by (induction j arbitrary: h dst) (simp_all add: Let_def)

lemma CreateFilter_appends: "\<exists>filter. CreateFilter policy keys dst = dst @ filter"
proof -
  have "take base (fold (add_key policy base bits) keys d) = take base d" for base bits d
    by (induction keys arbitrary: d) (simp_all add: add_key_def Let_def set_probes_prefix)
  then have "take (length dst) (CreateFilter policy keys dst) = dst" by (simp add: CreateFilter_def Let_def)
  then show ?thesis by (metis append_take_drop_id)
qed

lemma bloom_bits: "length (keys :: slice list) < 2 ^ 30 \<Longrightarrow> length keys * unat (bits_per_key (NewBloomFilterPolicy (unat (b :: u32)))) < 2 ^ 62"
proof -
  assume "length keys < 2 ^ 30"
  moreover have "unat b < 2 ^ 32" by (rule unat_u32_lt)
  ultimately have "length keys * unat b < 2 ^ 30 * 2 ^ 32" by (intro mult_strict_mono) simp_all
  moreover have "unat (bits_per_key (NewBloomFilterPolicy (unat b))) = unat b"
    using \<open>unat b < 2 ^ 32\<close> by (simp add: NewBloomFilterPolicy_def Let_def unat_ucast_u32_u64)
  ultimately show ?thesis by simp
qed

interpretation bloom: filter_contract "BloomFilterPolicy (NewBloomFilterPolicy (unat b))" "(=)" for b :: u32
proof
  show "\<exists>filter. fp_CreateFilter (BloomFilterPolicy (NewBloomFilterPolicy (unat b))) keys dst = dst @ filter" for keys dst
    using CreateFilter_appends by (simp add: BloomFilterPolicy_def)
  show "k \<in> set keys \<Longrightarrow> key = k \<Longrightarrow> length keys < 2 ^ 30 \<Longrightarrow> fp_KeyMayMatch (BloomFilterPolicy (NewBloomFilterPolicy (unat b))) key
      (drop (length dst) (fp_CreateFilter (BloomFilterPolicy (NewBloomFilterPolicy (unat b))) keys dst))" for k keys key dst
    using bloom_matches [OF _ bloom_bits NewBloomFilterPolicy_probes] by (simp add: BloomFilterPolicy_def)
qed

interpretation internal_bloom: filter_contract "InternalFilterPolicy (NewBloomFilterPolicy (unat b))"
  "\<lambda>x y. ExtractUserKey x = ExtractUserKey y" for b :: u32
proof
  show "\<exists>filter. fp_CreateFilter (InternalFilterPolicy (NewBloomFilterPolicy (unat b))) keys dst = dst @ filter" for keys dst
    using CreateFilter_appends by (simp add: InternalFilterPolicy_def InternalFilter_Create_def)
  show "fp_KeyMayMatch (InternalFilterPolicy (NewBloomFilterPolicy (unat b))) key
      (drop (length dst) (fp_CreateFilter (InternalFilterPolicy (NewBloomFilterPolicy (unat b))) keys dst))"
    if k: "k \<in> set keys" "ExtractUserKey key = ExtractUserKey k" "length keys < 2 ^ 30" for k keys key dst
  proof -
    have "ExtractUserKey key \<in> set (map ExtractUserKey keys)" using k by auto
    moreover have "length (map ExtractUserKey keys) < 2 ^ 30" using k by simp
    ultimately show ?thesis
      using bloom_matches [OF _ bloom_bits NewBloomFilterPolicy_probes, of "ExtractUserKey key" "map ExtractUserKey keys" dst]
      by (simp add: InternalFilterPolicy_def InternalFilter_Create_def InternalFilter_Match_def)
  qed
qed

end
