(* ===== verification/LdbTable.thy ===== *)
theory LdbTable
  imports LdbFilterBlock LdbCache
begin

text \<open>
  Table files: \<open>leveldb-library/table/table_builder.cc\<close>, \<open>table.cc\<close> and the empty iterator of \<open>table/iterator.cc\<close>. A table has
  data blocks of ascending entries, a filter block, a metaindex, an index with an entry for each data block, and a footer.
  The comparator, the filter policy and the file are parameters; the cache of blocks is the one of \<open>cache.cc\<close>. A call that
  reads outside of what it was given, or does not end, is \<open>None\<close>. Assertions are not modelled, nor is who
  owns the memory of a block.
\<close>

section \<open>The builder\<close>

record table_options =
  to_comparator :: comparator
  to_filter_policy :: "filter_policy option"
  to_paranoid_checks :: bool
  to_block_size :: nat
  to_block_restart_interval :: int
  to_compression :: u8

text \<open>
  The builder of filters keeps the policy it was made with; the name of the filter is the one of the policy in the
  current options, which are not changed to options without a policy while there are filters.
\<close>

record 'f table_builder =
  tb_options :: table_options
  tb_file :: 'f
  tb_offset :: u64
  tb_status :: status
  tb_data_block :: block_builder
  tb_index_block :: block_builder
  tb_last_key :: bytes
  tb_num_entries :: u64
  tb_closed :: bool
  tb_filter_policy :: "filter_policy option"
  tb_filter_block :: "filter_builder option"
  tb_pending_index_entry :: bool
  tb_pending_handle :: block_handle

definition start_filter :: "u64 \<Rightarrow> 'f table_builder \<Rightarrow> 'f table_builder" where
  "start_filter offset r =
     (case (tb_filter_policy r, tb_filter_block r) of
        (Some policy, Some fb) \<Rightarrow> r\<lparr>tb_filter_block := Some (StartBlock policy offset fb)\<rparr>
      | _ \<Rightarrow> r)"

definition make_TableBuilder :: "table_options \<Rightarrow> 'f \<Rightarrow> 'f table_builder" where
  "make_TableBuilder options f =
     start_filter 0
       \<lparr>tb_options = options, tb_file = f, tb_offset = 0, tb_status = status_OK,
        tb_data_block = make_BlockBuilder (to_block_restart_interval options), tb_index_block = make_BlockBuilder 1,
        tb_last_key = [], tb_num_entries = 0, tb_closed = False,
        tb_filter_policy = to_filter_policy options,
        tb_filter_block = map_option (\<lambda>_. make_FilterBlockBuilder) (to_filter_policy options),
        tb_pending_index_entry = False, tb_pending_handle = make_BlockHandle\<rparr>"

definition bb_empty :: "block_builder \<Rightarrow> bool" where
  "bb_empty b \<longleftrightarrow> bb_buffer b = []"

definition WriteRawBlock :: "'f writable_file \<Rightarrow> slice \<Rightarrow> u8 \<Rightarrow> 'f table_builder \<Rightarrow> block_handle \<times> 'f table_builder" where
  "WriteRawBlock ops block_contents type r =
     (let handle = \<lparr>bh_offset = tb_offset r, bh_size = of_nat (length block_contents)\<rparr>;
          (s, f) = file_append ops (tb_file r) block_contents;
          r = r\<lparr>tb_status := s, tb_file := f\<rparr>
      in if status_ok s then
           let crc = Value 0 block_contents;
               crc = Extend crc 0 [type];
               trailer = type # EncodeFixed32 (Mask crc);
               (s, f) = file_append ops (tb_file r) trailer;
               r = r\<lparr>tb_status := s, tb_file := f\<rparr>
           in (handle, if status_ok s then r\<lparr>tb_offset := tb_offset r + of_nat (length block_contents + kBlockTrailerSize)\<rparr> else r)
         else (handle, r))"

text \<open>The block is passed and returned, reset.\<close>

definition WriteBlock :: "'f writable_file \<Rightarrow> block_builder \<Rightarrow> 'f table_builder \<Rightarrow> block_handle \<times> block_builder \<times> 'f table_builder" where
  "WriteBlock ops block r =
     (let (raw, block) = bb_Finish block;
          (block_contents, type) =
            (if to_compression (tb_options r) = kSnappyCompression
             then (case Snappy_Compress raw of
                     Some compressed \<Rightarrow>
                       if length compressed < length raw - length raw div 8 then (compressed, kSnappyCompression)
                       else (raw, kNoCompression)
                   | None \<Rightarrow> (raw, kNoCompression))
             else (raw, to_compression (tb_options r)));
          (handle, r) = WriteRawBlock ops block_contents type r
      in (handle, bb_Reset block, r))"

definition tb_Flush :: "'f writable_file \<Rightarrow> 'f table_builder \<Rightarrow> 'f table_builder" where
  "tb_Flush ops r =
     (if \<not> status_ok (tb_status r) \<or> bb_empty (tb_data_block r) then r
      else
        let (handle, block, r) = WriteBlock ops (tb_data_block r) r;
            r = r\<lparr>tb_pending_handle := handle, tb_data_block := block\<rparr>;
            r = (if status_ok (tb_status r)
                 then (case file_flush ops (tb_file r) of
                         (s, f) \<Rightarrow> r\<lparr>tb_pending_index_entry := True, tb_status := s, tb_file := f\<rparr>)
                 else r)
        in start_filter (tb_offset r) r)"

text \<open>The index entry of the block before, under the key \<open>last_key\<close>.\<close>

definition add_index_entry :: "'f table_builder \<Rightarrow> 'f table_builder" where
  "add_index_entry r =
     r\<lparr>tb_index_block := bb_Add (tb_last_key r) (bh_EncodeTo (tb_pending_handle r) []) (tb_index_block r),
       tb_pending_index_entry := False\<rparr>"

definition tb_Add :: "'f writable_file \<Rightarrow> slice \<Rightarrow> slice \<Rightarrow> 'f table_builder \<Rightarrow> 'f table_builder" where
  "tb_Add ops key value r =
     (if \<not> status_ok (tb_status r) then r
      else
        let r = (if tb_pending_index_entry r
                 then add_index_entry
                   (r\<lparr>tb_last_key := FindShortestSeparator (to_comparator (tb_options r)) (tb_last_key r) key\<rparr>)
                 else r);
            r = r\<lparr>tb_filter_block := map_option (AddKey key) (tb_filter_block r)\<rparr>;
            r = r\<lparr>tb_last_key := key, tb_num_entries := tb_num_entries r + 1, tb_data_block := bb_Add key value (tb_data_block r)\<rparr>;
            estimated_block_size = bb_CurrentSizeEstimate (tb_data_block r)
        in if to_block_size (tb_options r) \<le> estimated_block_size then tb_Flush ops r else r)"

definition write_filter_block :: "'f writable_file \<Rightarrow> 'f table_builder \<Rightarrow> block_handle \<times> 'f table_builder" where
  "write_filter_block ops r =
     (case (tb_filter_policy r, tb_filter_block r) of
        (Some policy, Some fb) \<Rightarrow>
          if status_ok (tb_status r) then
            let (contents, fb) = fb_Finish policy fb in WriteRawBlock ops contents kNoCompression (r\<lparr>tb_filter_block := Some fb\<rparr>)
          else (make_BlockHandle, r)
      | _ \<Rightarrow> (make_BlockHandle, r))"

definition filter_key :: "filter_policy \<Rightarrow> bytes" where
  "filter_key policy = c_str ''filter.'' @ fp_Name policy"

definition write_metaindex_block :: "'f writable_file \<Rightarrow> block_handle \<Rightarrow> 'f table_builder \<Rightarrow> block_handle \<times> 'f table_builder" where
  "write_metaindex_block ops filter_block_handle r =
     (if status_ok (tb_status r) then
        let meta_index_block = make_BlockBuilder (to_block_restart_interval (tb_options r));
            meta_index_block =
              (case (to_filter_policy (tb_options r), tb_filter_block r) of
                 (Some policy, Some fb) \<Rightarrow> bb_Add (filter_key policy) (bh_EncodeTo filter_block_handle []) meta_index_block
               | _ \<Rightarrow> meta_index_block);
            (handle, _, r) = WriteBlock ops meta_index_block r
        in (handle, r)
      else (make_BlockHandle, r))"

definition write_index_block :: "'f writable_file \<Rightarrow> 'f table_builder \<Rightarrow> block_handle \<times> 'f table_builder" where
  "write_index_block ops r =
     (if status_ok (tb_status r) then
        let r = (if tb_pending_index_entry r
                 then add_index_entry (r\<lparr>tb_last_key := FindShortSuccessor (to_comparator (tb_options r)) (tb_last_key r)\<rparr>)
                 else r);
            (handle, block, r) = WriteBlock ops (tb_index_block r) r
        in (handle, r\<lparr>tb_index_block := block\<rparr>)
      else (make_BlockHandle, r))"

definition tb_Finish :: "'f writable_file \<Rightarrow> 'f table_builder \<Rightarrow> status \<times> 'f table_builder" where
  "tb_Finish ops r =
     (let r = (tb_Flush ops r)\<lparr>tb_closed := True\<rparr>;
          (filter_block_handle, r) = write_filter_block ops r;
          (metaindex_block_handle, r) = write_metaindex_block ops filter_block_handle r;
          (index_block_handle, r) = write_index_block ops r;
          r = (if status_ok (tb_status r) then
                 let footer_encoding = footer_EncodeTo \<lparr>metaindex_handle = metaindex_block_handle, index_handle = index_block_handle\<rparr> [];
                     (s, f) = file_append ops (tb_file r) footer_encoding;
                     r = r\<lparr>tb_status := s, tb_file := f\<rparr>
                 in if status_ok s then r\<lparr>tb_offset := tb_offset r + of_nat (length footer_encoding)\<rparr> else r
               else r)
      in (tb_status r, r))"

definition tb_Abandon :: "'f table_builder \<Rightarrow> 'f table_builder" where
  "tb_Abandon r = r\<lparr>tb_closed := True\<rparr>"

text \<open>Whether the comparator is the same object is told by the caller; the data block sees the new interval at once.\<close>

definition tb_ChangeOptions :: "bool \<Rightarrow> table_options \<Rightarrow> 'f table_builder \<Rightarrow> status \<times> 'f table_builder" where
  "tb_ChangeOptions same_comparator options r =
     (if \<not> same_comparator
      then (status_InvalidArgument (c_str ''changing comparator while building table'') [], r)
      else (status_OK, r\<lparr>tb_options := options,
        tb_data_block := (tb_data_block r)\<lparr>bb_restart_interval := to_block_restart_interval options\<rparr>\<rparr>))"

definition tb_NumEntries :: "'f table_builder \<Rightarrow> u64" where
  "tb_NumEntries r = tb_num_entries r"

definition tb_FileSize :: "'f table_builder \<Rightarrow> u64" where
  "tb_FileSize r = tb_offset r"

section \<open>Iterators that may be empty\<close>

fun ni_Valid :: "new_iterator \<Rightarrow> bool" where
  "ni_Valid (Block_iterator it) = bi_Valid it"
| "ni_Valid _ = False"

fun ni_Seek :: "slice \<Rightarrow> new_iterator \<Rightarrow> new_iterator option" where
  "ni_Seek target (Block_iterator it) = map_option Block_iterator (bi_Seek target it)"
| "ni_Seek target it = Some it"

fun ni_status :: "new_iterator \<Rightarrow> status" where
  "ni_status (Block_iterator it) = it_status it"
| "ni_status (Error_iterator s) = s"
| "ni_status Empty_iterator = status_OK"

text \<open>The key and the value of an iterator that is valid.\<close>

fun ni_key :: "new_iterator \<Rightarrow> slice" where
  "ni_key (Block_iterator it) = bi_key it"
| "ni_key _ = []"

fun ni_value :: "new_iterator \<Rightarrow> slice" where
  "ni_value (Block_iterator it) = bi_value it"
| "ni_value _ = []"

section \<open>The table\<close>

record read_options =
  verify_checksums :: bool
  fill_cache :: bool

record table =
  tab_options :: table_options
  tab_file :: random_access_file
  tab_cache_id :: u64
  tab_filter :: "filter_reader option"
  tab_metaindex_handle :: block_handle
  tab_index_block :: block

type_synonym block_cache = "block sharded_cache option"

definition ReadFilter :: "slice \<Rightarrow> table \<Rightarrow> table option" where
  "ReadFilter filter_handle_value t =
     (case bh_DecodeFrom filter_handle_value make_BlockHandle of
        (s, filter_handle, _) \<Rightarrow>
          if \<not> status_ok s then Some t
          else
            map_option (\<lambda>(s, contents).
                if status_ok s then t\<lparr>tab_filter := Some (make_FilterBlockReader (bc_data contents))\<rparr> else t)
              (ReadBlock (tab_file t) (to_paranoid_checks (tab_options t)) filter_handle))"

definition ReadMeta :: "footer \<Rightarrow> table \<Rightarrow> table option" where
  "ReadMeta f t =
     (case to_filter_policy (tab_options t) of
        None \<Rightarrow> Some t
      | Some policy \<Rightarrow>
          Option.bind (ReadBlock (tab_file t) (to_paranoid_checks (tab_options t)) (metaindex_handle f)) (\<lambda>(s, contents).
            if \<not> status_ok s then Some t
            else
              Option.bind (ni_Seek (filter_key policy) (block_NewIterator BytewiseComparator (make_Block (bc_data contents)))) (\<lambda>iter.
                if ni_Valid iter \<and> slice_eq (ni_key iter) (filter_key policy) then ReadFilter (ni_value iter) t else Some t)))"

definition table_Open :: "table_options \<Rightarrow> random_access_file \<Rightarrow> u64 \<Rightarrow> block_cache \<Rightarrow> (status \<times> table option \<times> block_cache) option" where
  "table_Open options file file_size cache =
     (if file_size < of_nat kEncodedLength
      then Some (status_Corruption (c_str ''file is too short to be an sstable'') [], None, cache)
      else
        let (s, footer_input, _) = file (file_size - of_nat kEncodedLength) kEncodedLength in
        if \<not> status_ok s then Some (s, None, cache)
        else
          Option.bind (footer_DecodeFrom footer_input make_Footer) (\<lambda>(s, f, _).
            if \<not> status_ok s then Some (s, None, cache)
            else
              Option.bind (ReadBlock file (to_paranoid_checks options) (index_handle f)) (\<lambda>(s, contents).
                if \<not> status_ok s then Some (s, None, cache)
                else
                  let (cache_id, cache) = (case cache of None \<Rightarrow> (0, None) | Some c \<Rightarrow> map_prod id Some (sharded_NewId c));
                      t = \<lparr>tab_options = options, tab_file = file, tab_cache_id = cache_id, tab_filter = None,
                           tab_metaindex_handle = metaindex_handle f, tab_index_block = make_Block (bc_data contents)\<rparr>
                  in map_option (\<lambda>t. (s, Some t, cache)) (ReadMeta f t))))"

definition cache_key :: "table \<Rightarrow> block_handle \<Rightarrow> slice" where
  "cache_key t handle = EncodeFixed64 (tab_cache_id t) @ EncodeFixed64 (bh_offset handle)"

text \<open>The block of a handle, from the cache or the file, with the handle of the cache to be released with the iterator.\<close>

definition read_block :: "table \<Rightarrow> read_options \<Rightarrow> block_handle \<Rightarrow> (status \<times> block option \<times> bool) option" where
  "read_block t options handle =
     map_option (\<lambda>(s, contents).
         (s, if status_ok s then Some (make_Block (bc_data contents)) else None, bc_cachable contents))
       (ReadBlock (tab_file t) (verify_checksums options) handle)"

definition BlockReader :: "table \<Rightarrow> read_options \<Rightarrow> slice \<Rightarrow> block_cache \<Rightarrow>
    (new_iterator \<times> (nat \<times> addr) option \<times> block_cache) option" where
  "BlockReader t options index_value cache =
     (case bh_DecodeFrom index_value make_BlockHandle of
        (s, handle, _) \<Rightarrow>
          Option.bind
            (if \<not> status_ok s then Some (s, None, None, cache)
             else
               (case cache of
                  None \<Rightarrow> map_option (\<lambda>(s, b, _). (s, b, None, None)) (read_block t options handle)
                | Some c \<Rightarrow>
                    Option.bind (sharded_Lookup (cache_key t handle) c) (\<lambda>(cache_handle, c).
                      case cache_handle of
                        Some h \<Rightarrow> map_option (\<lambda>b. (s, Some b, Some h, Some c)) (sharded_Value h c)
                      | None \<Rightarrow>
                          Option.bind (read_block t options handle) (\<lambda>(s, b, cachable).
                            case b of
                              Some b \<Rightarrow>
                                if cachable \<and> fill_cache options
                                then map_option (\<lambda>(h, c). (s, Some b, Some h, Some c))
                                  (sharded_Insert (cache_key t handle) b (of_nat (bk_size b)) c)
                                else Some (s, Some b, None, Some c)
                            | None \<Rightarrow> Some (s, None, None, Some c)))))
            (\<lambda>(s, b, cache_handle, cache).
               Some (case b of
                   Some b \<Rightarrow> (block_NewIterator (to_comparator (tab_options t)) b, cache_handle, cache)
                 | None \<Rightarrow> (Error_iterator s, None, cache))))"

text \<open>Deleting an iterator releases the handle of its block.\<close>

definition delete_iterator :: "(nat \<times> addr) option \<Rightarrow> block_cache \<Rightarrow> block_cache option" where
  "delete_iterator cache_handle cache =
     (case (cache_handle, cache) of
        (Some h, Some c) \<Rightarrow> map_option Some (sharded_Release h c)
      | _ \<Rightarrow> Some cache)"

text \<open>The entry passed to \<open>handle_result\<close>, if it is called.\<close>

definition InternalGet :: "table \<Rightarrow> read_options \<Rightarrow> slice \<Rightarrow> block_cache \<Rightarrow> (status \<times> (slice \<times> slice) option \<times> block_cache) option" where
  "InternalGet t options k cache =
     Option.bind (ni_Seek k (block_NewIterator (to_comparator (tab_options t)) (tab_index_block t))) (\<lambda>iiter.
       if \<not> ni_Valid iiter then Some (ni_status iiter, None, cache)
       else
         let handle_value = ni_value iiter;
             (s, handle, _) = bh_DecodeFrom handle_value make_BlockHandle
         in Option.bind
           (case (tab_filter t, to_filter_policy (tab_options t)) of
              (Some f, Some policy) \<Rightarrow> if status_ok s then filter_KeyMayMatch policy f (bh_offset handle) k else Some True
            | _ \<Rightarrow> Some True)
           (\<lambda>may_match.
             if \<not> may_match then Some (ni_status iiter, None, cache)
             else
               Option.bind (BlockReader t options handle_value cache) (\<lambda>(block_iter, cache_handle, cache).
                 Option.bind (ni_Seek k block_iter) (\<lambda>block_iter.
                   map_option (\<lambda>cache.
                       (if status_ok (ni_status block_iter) then ni_status iiter else ni_status block_iter,
                        if ni_Valid block_iter then Some (ni_key block_iter, ni_value block_iter) else None, cache))
                     (delete_iterator cache_handle cache)))))"

definition ApproximateOffsetOf :: "table \<Rightarrow> slice \<Rightarrow> u64 option" where
  "ApproximateOffsetOf t key =
     map_option (\<lambda>index_iter.
         if ni_Valid index_iter then
           (case bh_DecodeFrom (ni_value index_iter) make_BlockHandle of
              (s, handle, _) \<Rightarrow> if status_ok s then bh_offset handle else bh_offset (tab_metaindex_handle t))
         else bh_offset (tab_metaindex_handle t))
       (ni_Seek key (block_NewIterator (to_comparator (tab_options t)) (tab_index_block t)))"

text \<open>A footer that is cut off is read beyond its end.\<close>

lemma Open_short_footer:
  assumes "file (of_nat n - of_nat kEncodedLength) kEncodedLength = (status_OK, input, outside)" and "length input < kEncodedLength"
    and "\<not> (of_nat n :: u64) < of_nat kEncodedLength"
  shows "table_Open options file (of_nat n) cache = None"
  using assms by (simp add: table_Open_def footer_DecodeFrom_def)

end
