(* ===== verification/LdbTableBuilt.thy ===== *)
theory LdbTableBuilt
  imports LdbTable
begin

text \<open>
  What the builder of \<open>LdbTable\<close> writes. \<open>placed\<close> tells that a block and its trailer are where a handle points;
  \<open>tb_good\<close> is the invariant of a builder, with the data blocks it finished, their handles and the entries of
  the current block; \<open>table_layout\<close> is the file that \<open>Finish\<close> leaves: data blocks, filter block, metaindex, index and footer.
\<close>

section \<open>Blocks in a file\<close>

definition appends_if_ok :: "'f writable_file \<Rightarrow> ('f \<Rightarrow> bytes) \<Rightarrow> bool" where
  "appends_if_ok ops contents \<longleftrightarrow>
     (\<forall>f bs. status_ok (fst (file_append ops f bs)) \<longrightarrow> contents (snd (file_append ops f bs)) = contents f @ bs) \<and>
     (\<forall>f. status_ok (fst (file_flush ops f)) \<longrightarrow> contents (snd (file_flush ops f)) = contents f)"

text \<open>The block \<open>bs\<close> with its trailer at the place a handle tells.\<close>

definition placed :: "bytes \<Rightarrow> block_handle \<Rightarrow> bytes \<Rightarrow> bool" where
  "placed F h bs \<longleftrightarrow>
     (\<exists>pre post. F = pre @ bs @ block_trailer bs @ post \<and> bh_offset h = of_nat (length pre) \<and> bh_size h = of_nat (length bs))"

lemma placed_append: "placed F h bs \<Longrightarrow> placed (F @ G) h bs"
  unfolding placed_def by (metis append.assoc)

definition reads :: "random_access_file \<Rightarrow> bytes \<Rightarrow> bool" where
  "reads file F \<longleftrightarrow>
     (\<forall>off n. unat off + n \<le> length F \<longrightarrow> (\<exists>outside. file off n = (status_OK, take n (drop (unat off) F), outside)))"

lemma ReadBlock_placed:
  assumes p: "placed F h bs" and r: "reads file F" and F: "length F < 2 ^ 32"
  shows "\<exists>outside. ReadBlock file verify h =
    Some (status_OK, \<lparr>bc_data = bs, bc_cachable = \<not> outside, bc_heap_allocated = \<not> outside\<rparr>)"
proof -
  obtain pre post where f: "F = pre @ bs @ block_trailer bs @ post" "bh_offset h = of_nat (length pre)"
      "bh_size h = of_nat (length bs)"
    using p by (auto simp: placed_def)
  have u: "unat (bh_offset h) = length pre" "unat (bh_size h) = length bs"
    unfolding f(2,3) using F f(1) by (intro unat_of_nat_u64; simp)+
  have "unat (bh_offset h) + (length bs + 5) \<le> length F" using f(1) u by (simp add: kBlockTrailerSize_def)
  then obtain outside where o: "file (bh_offset h) (length bs + 5) = (status_OK, take (length bs + 5) (drop (length pre) F), outside)"
    using r u unfolding reads_def by metis
  have "take (length bs + 5) (drop (length pre) F) = bs @ block_trailer bs"
    unfolding f(1) by (simp add: kBlockTrailerSize_def)
  then have "ReadBlock file verify h = Some (status_OK, \<lparr>bc_data = bs, bc_cachable = \<not> outside, bc_heap_allocated = \<not> outside\<rparr>)"
    using o u F f(1) by (intro ReadBlock_written) simp_all
  then show ?thesis ..
qed

lemma WriteRawBlock_placed:
  assumes law: "appends_if_ok ops contents" and off: "tb_offset r = of_nat (length (contents (tb_file r)))"
    and w: "WriteRawBlock ops bs kNoCompression r = (h, r')" and ok: "status_ok (tb_status r')"
  shows "contents (tb_file r') = contents (tb_file r) @ bs @ block_trailer bs \<and>
    tb_offset r' = of_nat (length (contents (tb_file r'))) \<and> placed (contents (tb_file r')) h bs \<and>
    (\<exists>f s. r' = r\<lparr>tb_file := f, tb_status := s, tb_offset := tb_offset r'\<rparr>)"
proof -
  obtain s1 f1 where a1: "file_append ops (tb_file r) bs = (s1, f1)" by fastforce
  let ?t = "kNoCompression # EncodeFixed32 (Mask (Extend (Value 0 bs) 0 [kNoCompression]))"
  obtain s2 f2 where a2: "file_append ops f1 ?t = (s2, f2)" by fastforce
  have t: "?t = block_trailer bs"
    by (simp add: block_trailer_def Value_def Extend_append [where r = 0])
  have s: "status_ok s1" "status_ok s2"
    using w ok a1 a2 by (auto simp: WriteRawBlock_def Let_def split: if_splits)
  have c: "contents f1 = contents (tb_file r) @ bs" "contents f2 = contents f1 @ block_trailer bs"
    using law a1 a2 s t unfolding appends_if_ok_def by (metis fst_conv snd_conv)+
  have r': "r' = r\<lparr>tb_file := f2, tb_status := s2, tb_offset := tb_offset r + of_nat (length bs + kBlockTrailerSize)\<rparr>"
    "h = \<lparr>bh_offset = tb_offset r, bh_size = of_nat (length bs)\<rparr>"
    using w s a1 a2 by (auto simp: WriteRawBlock_def Let_def)
  have "placed (contents f2) h bs"
    unfolding placed_def using c r'(2) off by (intro exI [of _ "contents (tb_file r)"] exI [of _ "[]"]) simp
  then show ?thesis
    using r' c off by (auto simp: kBlockTrailerSize_def)
qed

lemma WriteRawBlock_failed:
  assumes "WriteRawBlock ops bs t r = (h, r')"
  shows "\<exists>f s off. r' = r\<lparr>tb_file := f, tb_status := s, tb_offset := off\<rparr>"
  using assms by (auto simp: WriteRawBlock_def Let_def split: prod.splits if_splits) (cases r; simp; blast)+

lemma WriteBlock_raw:
  assumes "to_compression (tb_options r) \<in> {kNoCompression, kSnappyCompression}"
  shows "WriteBlock ops b r = (case WriteRawBlock ops (fst (bb_Finish b)) kNoCompression r of (h, r') \<Rightarrow> (h, bb_Reset b, r'))"
  using assms by (auto simp: WriteBlock_def Let_def bb_Finish_def bb_Reset_def Snappy_Compress_def kNoCompression_def
      kSnappyCompression_def split: prod.split)

lemma bb_Add_interval: "bb_restart_interval (bb_Add k v b) = bb_restart_interval b"
  by (simp add: bb_Add_def Let_def split: prod.split)

abbreviation bb_Adds :: "(slice \<times> slice) list \<Rightarrow> block_builder \<Rightarrow> block_builder" where
  "bb_Adds es \<equiv> fold (\<lambda>(k, v). bb_Add k v) es"

lemma bb_Adds_interval: "bb_restart_interval (bb_Adds es b) = bb_restart_interval b"
  by (induction es arbitrary: b) (auto simp: bb_Add_interval)

lemma bb_Reset_Adds: "bb_Reset (bb_Adds es (make_BlockBuilder i)) = make_BlockBuilder i"
proof -
  have "bb_Reset b = make_BlockBuilder (bb_restart_interval b)" for b
    by (cases b) (simp add: bb_Reset_def make_BlockBuilder_def)
  then show ?thesis by (simp add: bb_Adds_interval make_BlockBuilder_def)
qed

lemma bb_empty_Adds: "bb_empty (bb_Adds es (make_BlockBuilder i)) \<longleftrightarrow> es = []"
proof (cases es rule: rev_cases)
  case Nil
  then show ?thesis by (simp add: bb_empty_def make_BlockBuilder_def)
next
  case (snoc xs x)
  have "bb_buffer (bb_Add k v b) \<noteq> []" for k v b
    by (auto simp: bb_Add_def Let_def PutVarint32_def EncodeVarint32_eq split: prod.split if_splits)
  then show ?thesis using snoc by (simp add: bb_empty_def split_beta)
qed

section \<open>The state of a builder\<close>

text \<open>The blocks finished so far and the entries of the current one.\<close>

definition all_blocks :: "(slice \<times> slice) list list \<Rightarrow> (slice \<times> slice) list \<Rightarrow> (slice \<times> slice) list list" where
  "all_blocks bss cur = (if cur = [] then bss else bss @ [cur])"

definition last_of :: "(slice \<times> slice) list \<Rightarrow> slice" where
  "last_of es = fst (last es)"

definition first_of :: "(slice \<times> slice) list \<Rightarrow> slice" where
  "first_of es = fst (hd es)"

text \<open>The keys of the index: between each two blocks that follow each other.\<close>

definition separators :: "comparator \<Rightarrow> (slice \<times> slice) list list \<Rightarrow> slice list" where
  "separators cmp bss = map (\<lambda>i. FindShortestSeparator cmp (last_of (bss ! i)) (first_of (bss ! Suc i))) [0..<length bss - 1]"

lemma separators_snoc:
  "bss \<noteq> [] \<Longrightarrow> separators cmp (bss @ [bs]) = separators cmp bss @ [FindShortestSeparator cmp (last_of (last bss)) (first_of bs)]"
proof -
  assume ne: "bss \<noteq> []"
  then obtain n where n: "length bss = Suc n" by (cases "length bss") auto
  have "map (\<lambda>i. FindShortestSeparator cmp (last_of ((bss @ [bs]) ! i)) (first_of ((bss @ [bs]) ! Suc i))) [0..<n] =
      map (\<lambda>i. FindShortestSeparator cmp (last_of (bss ! i)) (first_of (bss ! Suc i))) [0..<n]"
    using n by (intro map_cong) (auto simp: nth_append)
  then show ?thesis
    using n ne by (simp add: separators_def nth_append last_conv_nth)
qed

lemma separators_cur: "cur \<noteq> [] \<Longrightarrow> separators cmp (bss @ [cur @ [e]]) = separators cmp (bss @ [cur])"
proof -
  assume "cur \<noteq> []"
  then have "first_of (cur @ [e]) = first_of cur" by (simp add: first_of_def)
  then show ?thesis
    unfolding separators_def by (intro map_cong) (auto simp: nth_append less_Suc_eq)
qed

definition index_entries :: "slice list \<Rightarrow> block_handle list \<Rightarrow> (slice \<times> slice) list" where
  "index_entries seps hs = zip seps (map (\<lambda>h. bh_EncodeTo h []) hs)"

text \<open>The filter block covers the keys of the finished blocks and of the current one.\<close>

definition filter_inv :: "filter_policy \<Rightarrow> (slice \<Rightarrow> slice \<Rightarrow> bool) \<Rightarrow> filter_builder \<Rightarrow> (slice \<times> slice) list list \<Rightarrow>
    block_handle list \<Rightarrow> (slice \<times> slice) list \<Rightarrow> nat \<Rightarrow> bool" where
  "filter_inv policy same fb bss hs cur off \<longleftrightarrow>
     (\<exists>kss keys. filter_contract.built policy fb kss keys \<and> length kss = off div 2048 \<and>
        length (concat kss) + length keys = length (concat bss @ cur) \<and>
        list_all2 (\<lambda>h b. filter_contract.covers kss keys (unat (bh_offset h)) (map fst b)) hs bss \<and>
        filter_contract.covers kss keys off (map fst cur))"

definition tb_good :: "('f \<Rightarrow> bytes) \<Rightarrow> table_options \<Rightarrow> (slice \<Rightarrow> slice \<Rightarrow> bool) \<Rightarrow> (slice \<times> slice) list list \<Rightarrow>
    block_handle list \<Rightarrow> (slice \<times> slice) list \<Rightarrow> 'f table_builder \<Rightarrow> bool" where
  "tb_good contents opts same bss hs cur r \<longleftrightarrow>
     (let F = contents (tb_file r); iv = to_block_restart_interval opts; cmp = to_comparator opts in
      [] \<notin> set bss \<and> tb_options r = opts \<and> tb_filter_policy r = to_filter_policy opts \<and> tb_data_block r = bb_Adds cur (make_BlockBuilder iv) \<and>
      list_all2 (\<lambda>h b. placed F h (build_block iv b)) hs bss \<and> tb_offset r = of_nat (length F) \<and>
      tb_index_block r = bb_Adds (index_entries (separators cmp (all_blocks bss cur)) hs) (make_BlockBuilder 1) \<and>
      tb_pending_index_entry r = (cur = [] \<and> bss \<noteq> []) \<and> (bss \<noteq> [] \<longrightarrow> tb_pending_handle r = last hs) \<and>
      (concat bss @ cur \<noteq> [] \<longrightarrow> tb_last_key r = last_of (concat bss @ cur)) \<and>
      (case to_filter_policy opts of
         None \<Rightarrow> tb_filter_block r = None
       | Some policy \<Rightarrow> (\<exists>fb. tb_filter_block r = Some fb \<and>
           (length F < 2 ^ 32 \<longrightarrow> filter_inv policy same fb bss hs cur (length F)))))"

definition options_ok :: "table_options \<Rightarrow> (slice \<Rightarrow> slice \<Rightarrow> bool) \<Rightarrow> bool" where
  "options_ok opts same \<longleftrightarrow>
     to_compression opts \<in> {kNoCompression, kSnappyCompression} \<and>
     (\<forall>policy. to_filter_policy opts = Some policy \<longrightarrow> filter_contract policy same)"

lemma placed_offset: "placed F h bs \<Longrightarrow> length F < 2 ^ 32 \<Longrightarrow> unat (bh_offset h) + length bs + 5 \<le> length F"
proof -
  assume "placed F h bs" "length F < 2 ^ 32"
  then obtain pre post where f: "F = pre @ bs @ block_trailer bs @ post" "bh_offset h = of_nat (length pre)"
    by (auto simp: placed_def)
  then have "unat (bh_offset h) = length pre" using \<open>length F < 2 ^ 32\<close> by (simp add: unat_of_nat_u64)
  then show ?thesis using f(1) by (simp add: kBlockTrailerSize_def)
qed

lemma start_filter_other:
  "\<exists>x. start_filter off r = r\<lparr>tb_filter_block := x\<rparr>"
  by (cases r) (auto simp: start_filter_def split: option.splits)

lemma last_concat_all: "bss \<noteq> [] \<Longrightarrow> [] \<notin> set bss \<Longrightarrow> last_of (concat bss) = last_of (last bss) \<and> concat bss \<noteq> []"
  by (cases bss rule: rev_cases) (auto simp: last_of_def)

lemma index_entries_snoc:
  assumes "length hs = Suc (length seps)"
  shows "index_entries (seps @ [s]) hs = index_entries seps hs @ [(s, bh_EncodeTo (last hs) [])]"
proof -
  obtain hs' h where hs: "hs = hs' @ [h]" "length hs' = length seps" using assms by (cases hs rule: rev_cases) auto
  then show ?thesis by (simp add: index_entries_def zip_append2)
qed

lemma index_entries_more: "length seps \<le> length hs \<Longrightarrow> index_entries seps (hs @ [h]) = index_entries seps hs"
  by (simp add: index_entries_def zip_append2)

lemma length_separators: "length (separators cmp bss) = length bss - 1"
  by (simp add: separators_def)

text \<open>A new builder.\<close>

lemma make_TableBuilder_good:
  assumes "options_ok opts same" "contents f = []"
  shows "tb_good contents opts same [] [] [] (make_TableBuilder opts f) \<and> status_ok (tb_status (make_TableBuilder opts f))"
proof (cases "to_filter_policy opts")
  case None
  then show ?thesis
    using assms by (auto simp: tb_good_def make_TableBuilder_def start_filter_def Let_def index_entries_def)
next
  case (Some policy)
  have fc: "filter_contract policy same" using assms(1) Some by (simp add: options_ok_def)
  obtain kss keys where b: "filter_contract.built policy (StartBlock policy 0 make_FilterBlockBuilder) kss keys"
      "length kss = unat (0 :: u64) div 2048" "length (concat kss) + length keys = length (concat []) + length []"
    using filter_contract.StartBlock_built [OF fc filter_contract.built_start [OF fc], of 0] by auto
  then have "filter_inv policy same (StartBlock policy 0 make_FilterBlockBuilder) [] [] [] 0"
    unfolding filter_inv_def by (intro exI [of _ kss] exI [of _ keys]) (auto simp: filter_contract.covers_def [OF fc])
  then show ?thesis
    using assms Some by (auto simp: tb_good_def make_TableBuilder_def start_filter_def Let_def index_entries_def all_blocks_def)
qed

lemma WriteRawBlock_handle: "WriteRawBlock ops bs t r = (h, r') \<Longrightarrow> h = \<lparr>bh_offset = tb_offset r, bh_size = of_nat (length bs)\<rparr>"
  by (auto simp: WriteRawBlock_def Let_def split: prod.splits if_splits)

lemma filter_inv_StartBlock:
  assumes fc: "filter_contract policy same" and i: "filter_inv policy same fb bss hs cur off"
    and h: "unat (bh_offset h) = off" and off': "unat off' = n" and le: "off \<le> n"
  shows "filter_inv policy same (StartBlock policy off' fb) (bss @ [cur]) (hs @ [h]) [] n"
proof -
  obtain kss keys where k: "filter_contract.built policy fb kss keys" "length kss = off div 2048"
      "length (concat kss) + length keys = length (concat bss @ cur)"
      "list_all2 (\<lambda>h b. filter_contract.covers kss keys (unat (bh_offset h)) (map fst b)) hs bss"
      "filter_contract.covers kss keys off (map fst cur)"
    using i unfolding filter_inv_def by blast
  obtain kss' keys' where k': "filter_contract.built policy (StartBlock policy off' fb) kss' keys'" "length kss' = unat off' div 2048"
      "\<And>o' ks. filter_contract.covers kss keys o' ks \<Longrightarrow> filter_contract.covers kss' keys' o' ks"
      "length (concat kss') + length keys' = length (concat kss) + length keys"
    using filter_contract.StartBlock_built [OF fc k(1), of off'] k(2) off' le by (auto simp: div_le_mono)
  have "list_all2 (\<lambda>h b. filter_contract.covers kss' keys' (unat (bh_offset h)) (map fst b)) (hs @ [h]) (bss @ [cur])"
    using k(4,5) k'(3) h by (auto intro!: list_all2_appendI elim!: list_all2_mono)
  moreover have "filter_contract.covers kss' keys' n []"
    using k'(2) off' by (simp add: filter_contract.covers_def [OF fc])
  ultimately show ?thesis
    unfolding filter_inv_def using k' k(3) off' by (intro exI [of _ kss'] exI [of _ keys']) simp
qed

text \<open>A block is finished.\<close>

lemma tb_Flush_good:
  assumes g: "tb_good contents opts same bss hs cur r" and opts: "options_ok opts same" and law: "appends_if_ok ops contents"
    and cur: "cur \<noteq> []" and ok: "status_ok (tb_status (tb_Flush ops r))"
  shows "\<exists>h. tb_good contents opts same (bss @ [cur]) (hs @ [h]) [] (tb_Flush ops r) \<and>
    (\<exists>G. contents (tb_file (tb_Flush ops r)) = contents (tb_file r) @ G)"
proof -
  let ?F = "contents (tb_file r)" and ?iv = "to_block_restart_interval opts" and ?cmp = "to_comparator opts"
  have D: "tb_data_block r = bb_Adds cur (make_BlockBuilder ?iv)" and o: "tb_options r = opts" "tb_filter_policy r = to_filter_policy opts"
    and off: "tb_offset r = of_nat (length ?F)" and ls: "length hs = length bss"
    using g by (auto simp: tb_good_def Let_def dest: list_all2_lengthD)
  have ne: "\<not> bb_empty (tb_data_block r)" using cur D bb_empty_Adds by simp
  have st: "status_ok (tb_status r)"
  proof (rule ccontr)
    assume "\<not> status_ok (tb_status r)"
    then show False using ok by (simp add: tb_Flush_def)
  qed
  let ?raw = "build_block ?iv cur"
  obtain h r1 where w: "WriteRawBlock ops ?raw kNoCompression r = (h, r1)" by fastforce
  have wb: "WriteBlock ops (tb_data_block r) r = (h, make_BlockBuilder ?iv, r1)"
    using WriteBlock_raw [of r ops "tb_data_block r"] opts o w D bb_Reset_Adds
    by (simp add: options_ok_def build_block_def)
  define r2 where "r2 = r1\<lparr>tb_pending_handle := h, tb_data_block := make_BlockBuilder ?iv\<rparr>"
  have ok1: "status_ok (tb_status r1)"
  proof (rule ccontr)
    assume "\<not> status_ok (tb_status r1)"
    moreover obtain x where "start_filter (tb_offset r2) r2 = r2\<lparr>tb_filter_block := x\<rparr>" using start_filter_other by blast
    ultimately show False using ok st ne wb by (simp add: tb_Flush_def Let_def r2_def)
  qed
  obtain s f where fl: "file_flush ops (tb_file r1) = (s, f)" by fastforce
  define r3 where "r3 = r2\<lparr>tb_pending_index_entry := True, tb_status := s, tb_file := f\<rparr>"
  have run: "tb_Flush ops r = start_filter (tb_offset r3) r3"
    using st ne wb ok1 fl by (simp add: tb_Flush_def Let_def r2_def r3_def)
  obtain x where x: "start_filter (tb_offset r3) r3 = r3\<lparr>tb_filter_block := x\<rparr>" using start_filter_other by blast
  have oks: "status_ok s" using ok run x by (simp add: r3_def)
  from WriteRawBlock_placed [OF law off w ok1] obtain f1 s1 where p:
      "contents (tb_file r1) = ?F @ ?raw @ block_trailer ?raw" "tb_offset r1 = of_nat (length (contents (tb_file r1)))"
      "placed (contents (tb_file r1)) h ?raw" "r1 = r\<lparr>tb_file := f1, tb_status := s1, tb_offset := tb_offset r1\<rparr>"
    by blast
  have cf: "contents f = contents (tb_file r1)" using law oks fl unfolding appends_if_ok_def by (metis fst_conv snd_conv)
  let ?F' = "contents f"
  have eq: "tb_index_block r1 = tb_index_block r" "tb_last_key r1 = tb_last_key r" "tb_options r1 = tb_options r"
    "tb_filter_policy r1 = tb_filter_policy r" "tb_filter_block r1 = tb_filter_block r"
    by (subst p(4), simp)+
  have pl: "list_all2 (\<lambda>h b. placed ?F' h (build_block ?iv b)) (hs @ [h]) (bss @ [cur])"
    using g p(1,3) cf by (auto simp: tb_good_def Let_def intro!: list_all2_appendI elim!: list_all2_mono placed_append)
  have ix: "tb_index_block r1 = bb_Adds (index_entries (separators ?cmp (all_blocks (bss @ [cur]) [])) (hs @ [h])) (make_BlockBuilder 1)"
    using g cur ls index_entries_more [of "separators ?cmp (bss @ [cur])" hs h]
    by (simp add: tb_good_def Let_def all_blocks_def eq length_separators)
  have fi: "case to_filter_policy opts of None \<Rightarrow> x = None
      | Some policy \<Rightarrow> (\<exists>fb. x = Some fb \<and> (length ?F' < 2 ^ 32 \<longrightarrow> filter_inv policy same fb (bss @ [cur]) (hs @ [h]) [] (length ?F')))"
  proof (cases "to_filter_policy opts")
    case None
    have "tb_filter_policy r3 = None" using eq o None by (simp add: r3_def r2_def)
    then have "start_filter (tb_offset r3) r3 = r3" using None by (simp add: start_filter_def)
    then have "x = tb_filter_block r1" using arg_cong [OF x, of tb_filter_block] by (simp add: r3_def r2_def)
    then show ?thesis using g eq None by (simp add: tb_good_def Let_def)
  next
    case (Some policy)
    then have fc: "filter_contract policy same" using opts by (simp add: options_ok_def)
    obtain fb where fb: "tb_filter_block r = Some fb" "length ?F < 2 ^ 32 \<longrightarrow> filter_inv policy same fb bss hs cur (length ?F)"
      using g Some by (auto simp: tb_good_def Let_def)
    have off3: "tb_offset r3 = of_nat (length ?F')" using p(2) cf by (simp add: r3_def r2_def)
    have "start_filter (tb_offset r3) r3 = r3\<lparr>tb_filter_block := Some (StartBlock policy (tb_offset r3) fb)\<rparr>"
      using Some o eq fb(1) by (simp add: start_filter_def r3_def r2_def)
    then have xs: "x = Some (StartBlock policy (tb_offset r3) fb)"
      using arg_cong [OF x, of tb_filter_block] by simp
    have "filter_inv policy same (StartBlock policy (tb_offset r3) fb) (bss @ [cur]) (hs @ [h]) [] (length ?F')"
      if F': "length ?F' < 2 ^ 32"
    proof -
      have le: "length ?F \<le> length ?F'" using p(1) cf by simp
      have "unat (bh_offset h) = length ?F" "unat (tb_offset r3) = length ?F'"
        using WriteRawBlock_handle [OF w] off off3 F' le by (simp_all add: unat_of_nat_u64)
      then show ?thesis using filter_inv_StartBlock [OF fc _ _ _ le] fb(2) F' le by simp
    qed
    then show ?thesis using Some xs by simp
  qed
  have "tb_good contents opts same (bss @ [cur]) (hs @ [h]) [] (r3\<lparr>tb_filter_block := x\<rparr>)"
  proof -
    have G: "[] \<notin> set bss" "tb_last_key r = last_of (concat bss @ cur)" using g cur by (auto simp: tb_good_def Let_def)
    have f3: "tb_file (r3\<lparr>tb_filter_block := x\<rparr>) = f" "tb_offset (r3\<lparr>tb_filter_block := x\<rparr>) = tb_offset r1"
      "tb_options (r3\<lparr>tb_filter_block := x\<rparr>) = tb_options r1" "tb_filter_policy (r3\<lparr>tb_filter_block := x\<rparr>) = tb_filter_policy r1" "tb_index_block (r3\<lparr>tb_filter_block := x\<rparr>) = tb_index_block r1"
      "tb_last_key (r3\<lparr>tb_filter_block := x\<rparr>) = tb_last_key r1" "tb_pending_handle (r3\<lparr>tb_filter_block := x\<rparr>) = h"
      "tb_pending_index_entry (r3\<lparr>tb_filter_block := x\<rparr>)" "tb_data_block (r3\<lparr>tb_filter_block := x\<rparr>) = make_BlockBuilder ?iv"
      "tb_filter_block (r3\<lparr>tb_filter_block := x\<rparr>) = x"
      by (simp_all add: r3_def r2_def)
    show ?thesis
      unfolding tb_good_def Let_def f3 ix by (intro conjI) (use G pl fi cf cur p(2) eq o f3 in simp_all)
  qed
  then show ?thesis using run x p(1) cf by (auto simp: r3_def)
qed

definition add_entry :: "slice \<Rightarrow> slice \<Rightarrow> 'f table_builder \<Rightarrow> 'f table_builder" where
  "add_entry key value r =
     (let r = (if tb_pending_index_entry r
                 then add_index_entry
                   (r\<lparr>tb_last_key := FindShortestSeparator (to_comparator (tb_options r)) (tb_last_key r) key\<rparr>)
                 else r)
      in r\<lparr>tb_filter_block := map_option (AddKey key) (tb_filter_block r), tb_last_key := key,
           tb_num_entries := tb_num_entries r + 1, tb_data_block := bb_Add key value (tb_data_block r)\<rparr>)"

lemma tb_Add_entry:
  "tb_Add ops key value r =
     (if \<not> status_ok (tb_status r) then r
      else if to_block_size (tb_options (add_entry key value r)) \<le> bb_CurrentSizeEstimate (tb_data_block (add_entry key value r))
      then tb_Flush ops (add_entry key value r) else add_entry key value r)"
  by (simp add: tb_Add_def add_entry_def add_index_entry_def Let_def)

lemma filter_inv_AddKey:
  assumes fc: "filter_contract policy same" and i: "filter_inv policy same fb bss hs cur off"
  shows "filter_inv policy same (AddKey k fb) bss hs (cur @ [(k, v)]) off"
proof -
  obtain kss keys where k: "filter_contract.built policy fb kss keys" "length kss = off div 2048"
      "length (concat kss) + length keys = length (concat bss @ cur)"
      "list_all2 (\<lambda>h b. filter_contract.covers kss keys (unat (bh_offset h)) (map fst b)) hs bss"
      "filter_contract.covers kss keys off (map fst cur)"
    using i unfolding filter_inv_def by blast
  have "list_all2 (\<lambda>h b. filter_contract.covers kss (keys @ [k]) (unat (bh_offset h)) (map fst b)) hs bss"
    using k(4) by (rule list_all2_mono) (rule filter_contract.covers_AddKey [OF fc])
  moreover have "filter_contract.covers kss (keys @ [k]) off (map fst (cur @ [(k, v)]))"
    using filter_contract.covers_add [OF fc k(5) k(2)] by simp
  ultimately show ?thesis
    unfolding filter_inv_def using filter_contract.built_AddKey [OF fc k(1)] k(2,3)
    by (intro exI [of _ kss] exI [of _ "keys @ [k]"]) simp
qed

lemma add_entry_index:
  assumes "tb_good contents opts same bss hs cur r"
  shows "tb_index_block (add_entry k v r) =
    bb_Adds (index_entries (separators (to_comparator opts) (all_blocks bss (cur @ [(k, v)]))) hs) (make_BlockBuilder 1)"
proof -
  have G: "[] \<notin> set bss" "tb_options r = opts" "length hs = length bss"
    "tb_index_block r = bb_Adds (index_entries (separators (to_comparator opts) (all_blocks bss cur)) hs) (make_BlockBuilder 1)"
    "tb_pending_index_entry r = (cur = [] \<and> bss \<noteq> [])" "bss \<noteq> [] \<longrightarrow> tb_pending_handle r = last hs"
    "concat bss @ cur \<noteq> [] \<longrightarrow> tb_last_key r = last_of (concat bss @ cur)"
    using assms by (auto simp: tb_good_def Let_def dest: list_all2_lengthD)
  consider "cur \<noteq> []" | "cur = []" "bss = []" | "cur = []" "bss \<noteq> []" by blast
  then show ?thesis
  proof cases
    case 1
    then show ?thesis using G separators_cur [OF 1, of "to_comparator opts" bss "(k, v)"]
      by (simp add: add_entry_def Let_def all_blocks_def)
  next
    case 2
    then show ?thesis using G by (simp add: add_entry_def Let_def all_blocks_def separators_def index_entries_def)
  next
    case 3
    then have l: "length hs = Suc (length (separators (to_comparator opts) bss))" using G(3) by (cases bss) (auto simp: length_separators)
    have "tb_last_key r = last_of (last bss)" using G(1,7) 3 last_concat_all [of bss] by simp
    then show ?thesis
      using G 3 separators_snoc [OF 3(2), of "to_comparator opts" "[(k, v)]"] index_entries_snoc [OF l]
      by (simp add: add_entry_def add_index_entry_def Let_def all_blocks_def first_of_def)
  qed
qed

lemma add_entry_good:
  assumes g: "tb_good contents opts same bss hs cur r" and opts: "options_ok opts same"
  shows "tb_good contents opts same bss hs (cur @ [(k, v)]) (add_entry k v r)"
proof -
  have eq: "tb_file (add_entry k v r) = tb_file r" "tb_options (add_entry k v r) = tb_options r"
    "tb_filter_policy (add_entry k v r) = tb_filter_policy r" "tb_offset (add_entry k v r) = tb_offset r"
    "tb_last_key (add_entry k v r) = k" "\<not> tb_pending_index_entry (add_entry k v r)"
    "tb_pending_handle (add_entry k v r) = tb_pending_handle r" "tb_data_block (add_entry k v r) = bb_Add k v (tb_data_block r)"
    "tb_filter_block (add_entry k v r) = map_option (AddKey k) (tb_filter_block r)"
    by (simp_all add: add_entry_def add_index_entry_def Let_def)
  have fi: "case to_filter_policy opts of None \<Rightarrow> map_option (AddKey k) (tb_filter_block r) = None
      | Some policy \<Rightarrow> (\<exists>fb. map_option (AddKey k) (tb_filter_block r) = Some fb \<and>
          (length (contents (tb_file r)) < 2 ^ 32 \<longrightarrow> filter_inv policy same fb bss hs (cur @ [(k, v)]) (length (contents (tb_file r)))))"
  proof (cases "to_filter_policy opts")
    case None
    then show ?thesis using g by (simp add: tb_good_def Let_def)
  next
    case (Some policy)
    then have fc: "filter_contract policy same" using opts by (simp add: options_ok_def)
    obtain fb where "tb_filter_block r = Some fb"
        "length (contents (tb_file r)) < 2 ^ 32 \<longrightarrow> filter_inv policy same fb bss hs cur (length (contents (tb_file r)))"
      using g Some by (auto simp: tb_good_def Let_def)
    then show ?thesis using Some filter_inv_AddKey [OF fc, of fb bss hs cur _ k v] by simp
  qed
  have G: "[] \<notin> set bss" "tb_options r = opts" "tb_filter_policy r = to_filter_policy opts"
    "tb_data_block r = bb_Adds cur (make_BlockBuilder (to_block_restart_interval opts))"
    "list_all2 (\<lambda>h b. placed (contents (tb_file r)) h (build_block (to_block_restart_interval opts) b)) hs bss"
    "tb_offset r = of_nat (length (contents (tb_file r)))" "bss \<noteq> [] \<longrightarrow> tb_pending_handle r = last hs"
    using g by (simp_all add: tb_good_def Let_def)
  show ?thesis
    unfolding tb_good_def Let_def eq add_entry_index [OF g]
    by (intro conjI) (use G eq fi in \<open>simp_all add: last_of_def\<close>)
qed

lemma tb_Add_good:
  assumes g: "tb_good contents opts same bss hs cur r" and opts: "options_ok opts same" and law: "appends_if_ok ops contents"
    and ok: "status_ok (tb_status (tb_Add ops k v r))"
  shows "\<exists>bss' hs' cur'. tb_good contents opts same bss' hs' cur' (tb_Add ops k v r) \<and>
    concat bss' @ cur' = concat bss @ cur @ [(k, v)]"
proof (cases "status_ok (tb_status r)")
  case False
  then show ?thesis using ok by (simp add: tb_Add_def)
next
  case True
  note a = add_entry_good [OF g opts, of k v]
  show ?thesis
  proof (cases "tb_Add ops k v r = tb_Flush ops (add_entry k v r)")
    case f: True
    then obtain h where "tb_good contents opts same (bss @ [cur @ [(k, v)]]) (hs @ [h]) [] (tb_Add ops k v r)"
      using tb_Flush_good [OF a opts law] ok by auto
    then show ?thesis by (intro exI [of _ "bss @ [cur @ [(k, v)]]"] exI [of _ "hs @ [h]"] exI [of _ "[]"]) simp
  next
    case False
    then have "tb_Add ops k v r = add_entry k v r" using True by (simp add: tb_Add_entry split: if_splits)
    then show ?thesis using a by (intro exI [of _ bss] exI [of _ hs] exI [of _ "cur @ [(k, v)]"]) simp
  qed
qed

abbreviation tb_Adds :: "'f writable_file \<Rightarrow> (slice \<times> slice) list \<Rightarrow> 'f table_builder \<Rightarrow> 'f table_builder" where
  "tb_Adds ops es \<equiv> fold (\<lambda>(k, v). tb_Add ops k v) es"

lemma tb_Adds_status: "status_ok (tb_status (tb_Adds ops es r)) \<Longrightarrow> status_ok (tb_status r)"
proof (induction es arbitrary: r)
  case (Cons e es)
  then have "status_ok (tb_status (tb_Add ops (fst e) (snd e) r))" by (simp add: split_beta)
  then show ?case by (rule contrapos_pp) (simp add: tb_Add_def)
qed simp

lemma tb_Adds_good:
  assumes "tb_good contents opts same bss hs cur r" and opts: "options_ok opts same" and law: "appends_if_ok ops contents"
    and "status_ok (tb_status (tb_Adds ops es r))"
  shows "\<exists>bss' hs' cur'. tb_good contents opts same bss' hs' cur' (tb_Adds ops es r) \<and> concat bss' @ cur' = concat bss @ cur @ es"
  using assms(1,4)
proof (induction es arbitrary: bss hs cur r)
  case (Cons e es)
  obtain k v where e: "e = (k, v)" by fastforce
  have ok: "status_ok (tb_status (tb_Add ops k v r))" using Cons.prems(2) tb_Adds_status [of ops es] by (simp add: e)
  obtain bss' hs' cur' where g: "tb_good contents opts same bss' hs' cur' (tb_Add ops k v r)"
      "concat bss' @ cur' = concat bss @ cur @ [(k, v)]"
    using tb_Add_good [OF Cons.prems(1) opts law ok] by blast
  obtain bss'' hs'' cur'' where "tb_good contents opts same bss'' hs'' cur'' (tb_Adds ops es (tb_Add ops k v r))"
      "concat bss'' @ cur'' = concat bss' @ cur' @ es"
    using Cons.IH [OF g(1)] Cons.prems(2) by (auto simp: e)
  moreover have "concat bss' @ cur' @ es = concat bss @ cur @ (k, v) # es" using g(2) by (metis append.assoc append_Cons append_Nil)
  ultimately show ?case unfolding e by auto
qed auto

definition index_keys :: "comparator \<Rightarrow> (slice \<times> slice) list list \<Rightarrow> slice list" where
  "index_keys cmp bss = separators cmp bss @ (if bss = [] then [] else [FindShortSuccessor cmp (last_of (last bss))])"

definition meta_entries :: "table_options \<Rightarrow> block_handle \<Rightarrow> (slice \<times> slice) list" where
  "meta_entries opts fh = (case to_filter_policy opts of None \<Rightarrow> [] | Some policy \<Rightarrow> [(filter_key policy, bh_EncodeTo fh [])])"

text \<open>The bytes of a finished table file.\<close>

definition table_layout :: "table_options \<Rightarrow> (slice \<Rightarrow> slice \<Rightarrow> bool) \<Rightarrow> (slice \<times> slice) list list \<Rightarrow> bytes \<Rightarrow> bool" where
  "table_layout opts same bss F \<longleftrightarrow>
     (\<exists>hs fh mh ih pre. [] \<notin> set bss \<and> F = pre @ footer_EncodeTo \<lparr>metaindex_handle = mh, index_handle = ih\<rparr> [] \<and>
        list_all2 (\<lambda>h b. placed F h (build_block (to_block_restart_interval opts) b)) hs bss \<and>
        placed F ih (build_block 1 (index_entries (index_keys (to_comparator opts) bss) hs)) \<and>
        placed F mh (build_block (to_block_restart_interval opts) (meta_entries opts fh)) \<and>
        (\<forall>policy. to_filter_policy opts = Some policy \<longrightarrow> length F < 2 ^ 32 \<longrightarrow>
           (\<exists>fb off. filter_inv policy same fb bss hs [] off \<and> placed F fh (fst (fb_Finish policy fb)))))"

text \<open>A stage of \<open>Finish\<close> appends a block and changes nothing else that the later stages look at.\<close>

lemma write_filter_block_placed:
  assumes law: "appends_if_ok ops contents" and off: "tb_offset r = of_nat (length (contents (tb_file r)))"
    and p: "tb_filter_policy r = Some policy" "tb_filter_block r = Some fb"
    and w: "write_filter_block ops r = (h, r')" and ok: "status_ok (tb_status r')"
  shows "(\<exists>G. contents (tb_file r') = contents (tb_file r) @ G) \<and>
    tb_offset r' = of_nat (length (contents (tb_file r'))) \<and> placed (contents (tb_file r')) h (fst (fb_Finish policy fb)) \<and>
    (\<exists>f s off fb'. r' = r\<lparr>tb_filter_block := Some fb', tb_file := f, tb_status := s, tb_offset := off\<rparr>) \<and> status_ok (tb_status r)"
proof -
  have st: "status_ok (tb_status r)" using w ok p by (auto simp: write_filter_block_def split: if_splits)
  obtain c fb' where f: "fb_Finish policy fb = (c, fb')" by fastforce
  have w': "WriteRawBlock ops c kNoCompression (r\<lparr>tb_filter_block := Some fb'\<rparr>) = (h, r')"
    using w st p f by (simp add: write_filter_block_def)
  show ?thesis
    using WriteRawBlock_placed [OF law _ w' ok] off st f by auto
qed

lemma WriteBlock_placed:
  assumes law: "appends_if_ok ops contents" and off: "tb_offset r = of_nat (length (contents (tb_file r)))"
    and c: "to_compression (tb_options r) \<in> {kNoCompression, kSnappyCompression}"
    and w: "WriteBlock ops (bb_Adds es (make_BlockBuilder iv)) r = (h, b, r')" and ok: "status_ok (tb_status r')"
  shows "(\<exists>G. contents (tb_file r') = contents (tb_file r) @ G) \<and>
    tb_offset r' = of_nat (length (contents (tb_file r'))) \<and> placed (contents (tb_file r')) h (build_block iv es) \<and>
    (\<exists>f s off. r' = r\<lparr>tb_file := f, tb_status := s, tb_offset := off\<rparr>)"
proof -
  have w': "WriteRawBlock ops (build_block iv es) kNoCompression r = (h, r')"
    using w WriteBlock_raw [OF c, of ops "bb_Adds es (make_BlockBuilder iv)"] by (simp add: build_block_def split: prod.splits)
  show ?thesis using WriteRawBlock_placed [OF law off w' ok] by auto
qed

lemma write_metaindex_block_placed:
  assumes law: "appends_if_ok ops contents" and off: "tb_offset r = of_nat (length (contents (tb_file r)))"
    and c: "to_compression (tb_options r) \<in> {kNoCompression, kSnappyCompression}"
    and p: "(tb_filter_block r = None) = (to_filter_policy (tb_options r) = None)"
    and w: "write_metaindex_block ops fh r = (h, r')" and ok: "status_ok (tb_status r')"
  shows "(\<exists>G. contents (tb_file r') = contents (tb_file r) @ G) \<and>
    tb_offset r' = of_nat (length (contents (tb_file r'))) \<and>
    placed (contents (tb_file r')) h (build_block (to_block_restart_interval (tb_options r)) (meta_entries (tb_options r) fh)) \<and>
    (\<exists>f s off. r' = r\<lparr>tb_file := f, tb_status := s, tb_offset := off\<rparr>) \<and> status_ok (tb_status r)"
proof -
  have st: "status_ok (tb_status r)" using w ok by (auto simp: write_metaindex_block_def split: if_splits)
  let ?iv = "to_block_restart_interval (tb_options r)"
  have e: "(case (to_filter_policy (tb_options r), tb_filter_block r) of
                 (Some policy, Some fb) \<Rightarrow> bb_Add (filter_key policy) (bh_EncodeTo fh []) (make_BlockBuilder ?iv)
               | _ \<Rightarrow> make_BlockBuilder ?iv) = bb_Adds (meta_entries (tb_options r) fh) (make_BlockBuilder ?iv)"
    using p by (auto simp: meta_entries_def split: option.splits)
  obtain b where w': "WriteBlock ops (bb_Adds (meta_entries (tb_options r) fh) (make_BlockBuilder ?iv)) r = (h, b, r')"
    using w st unfolding write_metaindex_block_def Let_def e by (auto split: prod.splits)
  show ?thesis using WriteBlock_placed [OF law off c w' ok] st by auto
qed

lemma write_index_block_placed:
  assumes law: "appends_if_ok ops contents" and off: "tb_offset r = of_nat (length (contents (tb_file r)))"
    and c: "to_compression (tb_options r) \<in> {kNoCompression, kSnappyCompression}"
    and ix: "tb_index_block r = bb_Adds es (make_BlockBuilder 1)"
    and w: "write_index_block ops r = (h, r')" and ok: "status_ok (tb_status r')"
  shows "(\<exists>G. contents (tb_file r') = contents (tb_file r) @ G) \<and>
    tb_offset r' = of_nat (length (contents (tb_file r'))) \<and>
    placed (contents (tb_file r')) h (build_block 1 (es @ (if tb_pending_index_entry r
      then [(FindShortSuccessor (to_comparator (tb_options r)) (tb_last_key r), bh_EncodeTo (tb_pending_handle r) [])] else []))) \<and>
    status_ok (tb_status r)"
proof -
  have st: "status_ok (tb_status r)" using w ok by (auto simp: write_index_block_def split: if_splits)
  define r1 where "r1 = (if tb_pending_index_entry r
      then add_index_entry (r\<lparr>tb_last_key := FindShortSuccessor (to_comparator (tb_options r)) (tb_last_key r)\<rparr>) else r)"
  let ?es = "es @ (if tb_pending_index_entry r
      then [(FindShortSuccessor (to_comparator (tb_options r)) (tb_last_key r), bh_EncodeTo (tb_pending_handle r) [])] else [])"
  have r1: "tb_index_block r1 = bb_Adds ?es (make_BlockBuilder 1)" "tb_options r1 = tb_options r" "tb_file r1 = tb_file r" "tb_offset r1 = tb_offset r"
    using ix by (auto simp: r1_def add_index_entry_def)
  obtain b r2 where w': "WriteBlock ops (bb_Adds ?es (make_BlockBuilder 1)) r1 = (h, b, r2)" and r': "r' = r2\<lparr>tb_index_block := b\<rparr>"
    using w st r1(1) unfolding write_index_block_def Let_def r1_def [symmetric] by (auto split: prod.splits)
  have "(\<exists>G. contents (tb_file r2) = contents (tb_file r1) @ G) \<and> tb_offset r2 = of_nat (length (contents (tb_file r2))) \<and>
      placed (contents (tb_file r2)) h (build_block 1 ?es)"
    using WriteBlock_placed [OF law _ _ w'] off c ok r1 r' by simp
  then show ?thesis using r1(3) st r' by simp
qed

lemma index_keys_entries:
  assumes "length hs = length bss"
  shows "index_entries (index_keys cmp bss) hs =
    index_entries (separators cmp bss) hs @ (if bss \<noteq> [] then [(FindShortSuccessor cmp (last_of (last bss)), bh_EncodeTo (last hs) [])] else [])"
proof (cases "bss = []")
  case False
  then have "length hs = Suc (length (separators cmp bss))" using assms by (cases bss) (auto simp: length_separators)
  then show ?thesis using False index_entries_snoc by (simp add: index_keys_def)
qed (simp add: index_keys_def)

lemma tb_Flush_status: "status_ok (tb_status (tb_Flush ops r)) \<Longrightarrow> status_ok (tb_status r)"
  by (rule contrapos_pp) (simp_all add: tb_Flush_def)

lemma tb_Flush_all:
  assumes g: "tb_good contents opts same bss hs cur r" and opts: "options_ok opts same" and law: "appends_if_ok ops contents"
    and ok: "status_ok (tb_status (tb_Flush ops r))"
  shows "\<exists>bss' hs'. tb_good contents opts same bss' hs' [] ((tb_Flush ops r)\<lparr>tb_closed := c\<rparr>) \<and> concat bss' = concat bss @ cur"
proof -
  have close: "tb_good contents opts same bss' hs' [] (r'\<lparr>tb_closed := c\<rparr>)" if "tb_good contents opts same bss' hs' [] r'" for bss' hs' r'
    using that by (simp add: tb_good_def Let_def cong: option.case_cong)
  show ?thesis
  proof (cases "cur = []")
    case True
    have "tb_data_block r = bb_Adds cur (make_BlockBuilder (to_block_restart_interval opts))" using g by (simp add: tb_good_def Let_def)
    then have "bb_empty (tb_data_block r)" using True by (simp add: bb_empty_def make_BlockBuilder_def)
    then have "tb_Flush ops r = r" by (simp add: tb_Flush_def)
    then show ?thesis using close [of bss hs r] g True by auto
  next
    case False
    then obtain h where "tb_good contents opts same (bss @ [cur]) (hs @ [h]) [] (tb_Flush ops r)"
      using tb_Flush_good [OF g opts law _ ok] by blast
    then show ?thesis using close by (intro exI [of _ "bss @ [cur]"] exI [of _ "hs @ [h]"]) simp
  qed
qed

lemma table_closed:
  assumes g: "tb_good contents opts same bss hs [] r" and opts: "options_ok opts same" and law: "appends_if_ok ops contents"
    and w1: "write_filter_block ops r = (fh, r1)" and w2: "write_metaindex_block ops fh r1 = (mh, r2)"
    and w3: "write_index_block ops r2 = (ih, r3)" and ok: "status_ok (tb_status r3)"
    and a: "file_append ops (tb_file r3) (footer_EncodeTo \<lparr>metaindex_handle = mh, index_handle = ih\<rparr> []) = (s, f)" "status_ok s"
  shows "table_layout opts same bss (contents f) \<and> tb_offset r3 = of_nat (length (contents (tb_file r3))) \<and>
    length (contents f) = length (contents (tb_file r3)) + kEncodedLength"
proof -
  have G: "[] \<notin> set bss" "tb_options r = opts" "length hs = length bss"
    "list_all2 (\<lambda>h b. placed (contents (tb_file r)) h (build_block (to_block_restart_interval opts) b)) hs bss"
    "tb_offset r = of_nat (length (contents (tb_file r)))"
    "tb_index_block r = bb_Adds (index_entries (separators (to_comparator opts) bss) hs) (make_BlockBuilder 1)"
    "tb_pending_index_entry r = (bss \<noteq> [])" "bss \<noteq> [] \<longrightarrow> tb_pending_handle r = last hs"
    "concat bss \<noteq> [] \<longrightarrow> tb_last_key r = last_of (concat bss)"
    "(tb_filter_block r = None) = (to_filter_policy opts = None)"
    using g by (auto simp: tb_good_def Let_def all_blocks_def dest: list_all2_lengthD split: option.splits)
  have fp: "tb_filter_policy r = to_filter_policy opts" using g by (simp add: tb_good_def Let_def)
  have c: "to_compression opts \<in> {kNoCompression, kSnappyCompression}" using opts by (simp add: options_ok_def)
  let ?P = "\<lambda>r'. (\<exists>f s off fb. r' = r\<lparr>tb_filter_block := fb, tb_file := f, tb_status := s, tb_offset := off\<rparr>) \<and>
      (tb_filter_block r' = None) = (to_filter_policy opts = None) \<and> tb_offset r' = of_nat (length (contents (tb_file r')))"
  have st2: "status_ok (tb_status r2)" using ok w3 by (auto simp: write_index_block_def split: if_splits)
  have st1: "status_ok (tb_status r1)" using st2 w2 by (auto simp: write_metaindex_block_def split: if_splits)
  have fl: "?P r1 \<and> (\<exists>G. contents (tb_file r1) = contents (tb_file r) @ G) \<and>
      (\<forall>policy. to_filter_policy opts = Some policy \<longrightarrow> length (contents (tb_file r1)) < 2 ^ 32 \<longrightarrow>
         (\<exists>fb off. filter_inv policy same fb bss hs [] off \<and> placed (contents (tb_file r1)) fh (fst (fb_Finish policy fb))))"
  proof (cases "to_filter_policy opts")
    case None
    then have r1: "r1 = r" using w1 fp by (simp add: write_filter_block_def)
    have "\<exists>f s off fb. r = r\<lparr>tb_filter_block := fb, tb_file := f, tb_status := s, tb_offset := off\<rparr>"
      by (intro exI [of _ "tb_file r"] exI [of _ "tb_status r"] exI [of _ "tb_offset r"] exI [of _ "tb_filter_block r"]) simp
    then show ?thesis unfolding r1 using None G(5,10) by simp
  next
    case (Some policy)
    obtain fb where fb: "tb_filter_block r = Some fb"
        "length (contents (tb_file r)) < 2 ^ 32 \<longrightarrow> filter_inv policy same fb bss hs [] (length (contents (tb_file r)))"
      using g Some by (auto simp: tb_good_def Let_def)
    note p = write_filter_block_placed [OF law G(5) _ fb(1) w1 st1, unfolded fp, OF Some]
    have l: "length (contents (tb_file r)) \<le> length (contents (tb_file r1))" using p by auto
    obtain f s off fb' where r1: "r1 = r\<lparr>tb_filter_block := Some fb', tb_file := f, tb_status := s, tb_offset := off\<rparr>" using p by blast
    then have "(tb_filter_block r1 = None) = (to_filter_policy opts = None)" using Some by simp
    moreover have "\<exists>fb off. filter_inv policy same fb bss hs [] off \<and> placed (contents (tb_file r1)) fh (fst (fb_Finish policy fb))"
      if "length (contents (tb_file r1)) < 2 ^ 32" using fb(2) p l that by fastforce
    ultimately show ?thesis using p r1 Some by (intro conjI) (blast | simp)+
  qed
  then obtain f1 s1 o1 fb1 where r1: "r1 = r\<lparr>tb_filter_block := fb1, tb_file := f1, tb_status := s1, tb_offset := o1\<rparr>"
      "(tb_filter_block r1 = None) = (to_filter_policy opts = None)" "tb_offset r1 = of_nat (length (contents (tb_file r1)))"
    by (elim conjE exE) (rule that)
  have eq1: "tb_options r1 = opts" "tb_index_block r1 = tb_index_block r" "tb_pending_index_entry r1 = tb_pending_index_entry r"
    "tb_pending_handle r1 = tb_pending_handle r" "tb_last_key r1 = tb_last_key r"
    by (subst r1(1), simp add: G(2))+
  note m = write_metaindex_block_placed [OF law r1(3) _ _ w2 st2, unfolded eq1, OF c r1(2)]
  obtain f2 s2 o2 where r2: "r2 = r1\<lparr>tb_file := f2, tb_status := s2, tb_offset := o2\<rparr>" using m by blast
  have eq2: "tb_options r2 = opts" "tb_index_block r2 = tb_index_block r" "tb_pending_index_entry r2 = (bss \<noteq> [])"
    "tb_pending_handle r2 = tb_pending_handle r" "tb_last_key r2 = tb_last_key r"
    using eq1 G(7) by (subst r2, simp)+
  have o2: "tb_offset r2 = of_nat (length (contents (tb_file r2)))" using m by blast
  note x = write_index_block_placed [OF law o2 _ _ w3 ok, unfolded eq2, OF c G(6)]
  have lk: "bss \<noteq> [] \<Longrightarrow> tb_last_key r = last_of (last bss) \<and> tb_pending_handle r = last hs" using G(1,8,9) last_concat_all [of bss] by simp
  have ie: "index_entries (separators (to_comparator opts) bss) hs @ (if bss \<noteq> []
      then [(FindShortSuccessor (to_comparator opts) (tb_last_key r), bh_EncodeTo (tb_pending_handle r) [])] else []) =
      index_entries (index_keys (to_comparator opts) bss) hs"
    unfolding index_keys_entries [OF G(3)] using lk by simp
  have cf: "contents f = contents (tb_file r3) @ footer_EncodeTo \<lparr>metaindex_handle = mh, index_handle = ih\<rparr> []"
    using law a unfolding appends_if_ok_def by (metis fst_conv snd_conv)
  obtain G1 G2 G3 where gs: "contents (tb_file r1) = contents (tb_file r) @ G1" "contents (tb_file r2) = contents (tb_file r1) @ G2"
      "contents (tb_file r3) = contents (tb_file r2) @ G3" using fl m x by blast
  have grow: "placed (contents f) h b" if "placed (contents (tb_file r)) h b \<or> placed (contents (tb_file r1)) h b \<or>
      placed (contents (tb_file r2)) h b \<or> placed (contents (tb_file r3)) h b" for h b
    using that unfolding cf gs by (metis placed_append)
  have "list_all2 (\<lambda>h b. placed (contents f) h (build_block (to_block_restart_interval opts) b)) hs bss"
    using G(4) by (rule list_all2_mono) (rule grow, simp)
  moreover have "placed (contents f) ih (build_block 1 (index_entries (index_keys (to_comparator opts) bss) hs))"
    using x unfolding ie by (intro grow) blast
  moreover have "placed (contents f) mh (build_block (to_block_restart_interval opts) (meta_entries opts fh))"
    using m by (intro grow) blast
  moreover have "length (contents (tb_file r1)) \<le> length (contents f)" unfolding cf gs by simp
  then have "\<exists>fb off. filter_inv policy same fb bss hs [] off \<and> placed (contents f) fh (fst (fb_Finish policy fb))"
    if "to_filter_policy opts = Some policy" "length (contents f) < 2 ^ 32" for policy
    using fl that grow by fastforce
  ultimately have "table_layout opts same bss (contents f)"
    unfolding table_layout_def using cf G(1)
    by (intro exI [of _ hs] exI [of _ fh] exI [of _ mh] exI [of _ ih] exI [of _ "contents (tb_file r3)"]) blast
  then show ?thesis using x cf by (simp add: footer_roundtrip)
qed

text \<open>\<open>Finish\<close> completes the table.\<close>

lemma tb_Finish_layout:
  assumes g: "tb_good contents opts same bss hs cur r" and opts: "options_ok opts same" and law: "appends_if_ok ops contents"
    and fin: "tb_Finish ops r = (s, r')" and ok: "status_ok s"
  shows "\<exists>bss'. concat bss' = concat bss @ cur \<and> table_layout opts same bss' (contents (tb_file r')) \<and>
    tb_FileSize r' = of_nat (length (contents (tb_file r')))"
proof -
  define r0 where "r0 = (tb_Flush ops r)\<lparr>tb_closed := True\<rparr>"
  obtain fh r1 where w1: "write_filter_block ops r0 = (fh, r1)" by fastforce
  obtain mh r2 where w2: "write_metaindex_block ops fh r1 = (mh, r2)" by fastforce
  obtain ih r3 where w3: "write_index_block ops r2 = (ih, r3)" by fastforce
  let ?e = "footer_EncodeTo \<lparr>metaindex_handle = mh, index_handle = ih\<rparr> []"
  obtain s1 f where a: "file_append ops (tb_file r3) ?e = (s1, f)" by fastforce
  have st3: "status_ok (tb_status r3)"
    using fin ok unfolding tb_Finish_def r0_def [symmetric] by (auto simp: w1 w2 w3 Let_def split: if_splits)
  have r': "s = s1" "r' = r3\<lparr>tb_status := s1, tb_file := f, tb_offset := tb_offset r3 + of_nat (length ?e)\<rparr>"
    using fin ok st3 unfolding tb_Finish_def r0_def [symmetric] by (auto simp: w1 w2 w3 a Let_def split: if_splits)
  have "status_ok (tb_status r2)" using st3 w3 by (auto simp: write_index_block_def split: if_splits)
  then have st1: "status_ok (tb_status r1)" using w2 by (auto simp: write_metaindex_block_def split: if_splits)
  have "status_ok (tb_status r0)"
  proof (rule ccontr)
    assume "\<not> status_ok (tb_status r0)"
    then show False using st1 w1 by (auto simp: write_filter_block_def split: option.splits)
  qed
  then have "status_ok (tb_status (tb_Flush ops r))" by (simp add: r0_def)
  then obtain bss' hs' where g': "tb_good contents opts same bss' hs' [] r0" "concat bss' = concat bss @ cur"
    using tb_Flush_all [OF g opts law] unfolding r0_def by blast
  show ?thesis
    using table_closed [OF g'(1) opts law w1 w2 w3 st3 a] ok r' g'(2) by (intro exI [of _ bss']) (simp add: tb_FileSize_def footer_roundtrip)
qed

end
