(* ===== verification/LdbTableOrder.thy ===== *)
theory LdbTableOrder
  imports LdbTableBuilt
begin

text \<open>
  The order of the keys in a table. The locale \<open>table_order\<close> adds to \<open>key_order\<close> what a search through the index
  needs: a shortened key is not longer, and it keeps keys apart that a filter does not tell apart. The locale
  \<open>filtered_order\<close> asks this of user keys only; then the order of user keys and the order of internal keys are both
  orders of tables. It is interpreted by the bytewise order.
\<close>

section \<open>Order of the index\<close>

text \<open>
  A table relies on more than the order of the keys: the shortened keys are not longer, and a shortened key
  separates the keys that a filter tells apart. \<open>same\<close> relates the keys it does not tell apart.
\<close>

locale table_order = key_order +
  fixes same_key :: "slice \<Rightarrow> slice \<Rightarrow> bool"
  assumes separator_length: "length (FindShortestSeparator cmp a b) \<le> length a"
    and successor_length: "length (FindShortSuccessor cmp a) \<le> length a"
    and separator_gap: "key a \<Longrightarrow> key b \<Longrightarrow> key k \<Longrightarrow> key e \<Longrightarrow> Compare cmp a b < 0 \<Longrightarrow> Compare cmp a k < 0 \<Longrightarrow>
      Compare cmp k (FindShortestSeparator cmp a b) \<le> 0 \<Longrightarrow> Compare cmp b e \<le> 0 \<Longrightarrow> \<not> same_key k e"

lemma concat_nth: "i < length xss \<Longrightarrow> concat xss = concat (take i xss) @ xss ! i @ concat (drop (Suc i) xss)"
  by (metis concat.simps(2) concat_append id_take_nth_drop)

lemma sorted_concat_blocks:
  assumes "sorted_wrt R (concat xss)" "i < j" "j < length xss" "x \<in> set (xss ! i)" "y \<in> set (xss ! j)"
  shows "R x y"
proof -
  have "concat xss = concat (take j xss) @ xss ! j @ concat (drop (Suc j) xss)" using assms(3) by (rule concat_nth)
  then have "\<forall>x \<in> set (concat (take j xss)). \<forall>y \<in> set (xss ! j). R x y"
    using assms(1) by (simp add: sorted_wrt_append)
  moreover have "xss ! i \<in> set (take j xss)" using assms(2,3) by (auto simp: in_set_conv_nth)
  ultimately show ?thesis using assms(4,5) by auto
qed

lemma sorted_concat_block: "sorted_wrt R (concat xss) \<Longrightarrow> i < length xss \<Longrightarrow> sorted_wrt R (xss ! i)"
  by (subst (asm) concat_nth [of i]) (simp_all add: sorted_wrt_append)

lemma find_concat_from:
  assumes "i < length xss" "\<And>x. x \<in> set (concat (take i xss)) \<Longrightarrow> \<not> P x"
  shows "find P (concat xss) = (case find P (xss ! i) of Some x \<Rightarrow> Some x | None \<Rightarrow> find P (concat (drop (Suc i) xss)))"
proof -
  have "find P (concat (take i xss)) = None" using assms(2) unfolding find_None_iff by blast
  then show ?thesis by (subst concat_nth [OF assms(1)]) (simp add: find_append' split: option.split)
qed

definition before :: "comparator \<Rightarrow> slice \<times> slice \<Rightarrow> slice \<times> slice \<Rightarrow> bool" where
  "before cmp e e' = (Compare cmp (fst e) (fst e') < 0)"

text \<open>The first entry whose key is not before \<open>k\<close>.\<close>

definition first_at :: "comparator \<Rightarrow> slice \<Rightarrow> (slice \<times> slice) list \<Rightarrow> (slice \<times> slice) option" where
  "first_at cmp k es = find (\<lambda>e. \<not> Compare cmp (fst e) k < 0) es"

lemma first_at_None: "first_at cmp k es = None \<longleftrightarrow> (\<forall>e \<in> set es. Compare cmp (fst e) k < 0)"
  unfolding first_at_def find_None_iff by blast

lemma first_at_Some: "first_at cmp k es = Some e \<Longrightarrow> e \<in> set es"
  unfolding first_at_def find_Some_iff by (auto simp del: split_paired_Ex)

lemma first_at_pair: "first_at cmp k es = find (\<lambda>(k', v). \<not> Compare cmp k' k < 0) es"
  by (simp add: first_at_def case_prod_beta')

context table_order
begin

lemma le_less: "key a \<Longrightarrow> key b \<Longrightarrow> key c \<Longrightarrow> Compare cmp a b \<le> 0 \<Longrightarrow> Compare cmp b c < 0 \<Longrightarrow> Compare cmp a c < 0"
  using less_trans [of a b c] same_left [of a b c] by (cases "Compare cmp a b = 0") auto

lemma index_bounds:
  assumes s: "sorted_wrt (before cmp) (concat bss)" and ne: "[] \<notin> set bss" and keys: "\<forall>e \<in> set (concat bss). key (fst e)"
    and i: "i < length bss"
  shows "key (index_keys cmp bss ! i)" "e \<in> set (bss ! i) \<Longrightarrow> Compare cmp (fst e) (index_keys cmp bss ! i) \<le> 0"
    "Suc i < length bss \<Longrightarrow> index_keys cmp bss ! i = FindShortestSeparator cmp (last_of (bss ! i)) (first_of (bss ! Suc i)) \<and>
       Compare cmp (last_of (bss ! i)) (first_of (bss ! Suc i)) < 0 \<and> key (last_of (bss ! i)) \<and> key (first_of (bss ! Suc i))"
    "length (index_keys cmp bss ! i) \<le> length (last_of (bss ! i))"
proof -
  have in_key: "key (fst e)" if "e \<in> set (bss ! j)" "j < length bss" for e j using that keys by fastforce
  have nb: "bss ! j \<noteq> []" if "j < length bss" for j using ne that nth_mem by metis
  have lk: "key (last_of (bss ! j))" "key (first_of (bss ! j))" if "j < length bss" for j
    using in_key [OF last_in_set [OF nb [OF that]] that] in_key [OF hd_in_set [OF nb [OF that]] that]
    by (simp_all add: last_of_def first_of_def)
  have K: "index_keys cmp bss ! i = (if Suc i < length bss then FindShortestSeparator cmp (last_of (bss ! i)) (first_of (bss ! Suc i))
      else FindShortSuccessor cmp (last_of (bss ! i)))"
  proof (cases "Suc i < length bss")
    case True
    then have "bss \<noteq> []" "i < length bss - Suc 0" by auto
    with True show ?thesis by (simp add: index_keys_def nth_append length_separators separators_def)
  next
    case False
    then have "length bss = Suc i" using i by simp
    then show ?thesis by (auto simp: index_keys_def nth_append length_separators last_conv_nth)
  qed
  have lt: "Compare cmp (last_of (bss ! i)) (first_of (bss ! Suc i)) < 0" if "Suc i < length bss"
    using sorted_concat_blocks [OF s, of i "Suc i" "last (bss ! i)" "hd (bss ! Suc i)"] that nb
    by (simp add: before_def last_of_def first_of_def)
  have b: "key (index_keys cmp bss ! i) \<and> Compare cmp (last_of (bss ! i)) (index_keys cmp bss ! i) \<le> 0"
    using K separator [OF lk(1) [OF i] lk(2) lt] successor [OF lk(1) [OF i]] by (cases "Suc i < length bss") auto
  then show "key (index_keys cmp bss ! i)" by blast
  show "Suc i < length bss \<Longrightarrow> index_keys cmp bss ! i = FindShortestSeparator cmp (last_of (bss ! i)) (first_of (bss ! Suc i)) \<and>
       Compare cmp (last_of (bss ! i)) (first_of (bss ! Suc i)) < 0 \<and> key (last_of (bss ! i)) \<and> key (first_of (bss ! Suc i))"
    using K lt lk i by simp
  show "length (index_keys cmp bss ! i) \<le> length (last_of (bss ! i))" using K separator_length successor_length by simp
  assume e: "e \<in> set (bss ! i)"
  have "Compare cmp (fst e) (last_of (bss ! i)) \<le> 0"
  proof (cases "e = last (bss ! i)")
    case True
    then show ?thesis using refl lk(1) [OF i] by (simp add: last_of_def)
  next
    case False
    have sp: "bss ! i = butlast (bss ! i) @ [last (bss ! i)]" using nb [OF i] by simp
    then have "e \<in> set (butlast (bss ! i))" using e False by (metis UnE empty_iff empty_set set_ConsD set_append)
    moreover have "sorted_wrt (before cmp) (butlast (bss ! i) @ [last (bss ! i)])" using sorted_concat_block [OF s i] sp by simp
    ultimately show ?thesis by (auto simp: sorted_wrt_append before_def last_of_def)
  qed
  then show "Compare cmp (fst e) (index_keys cmp bss ! i) \<le> 0" using b le_trans in_key [OF e i] lk(1) [OF i] by blast
qed

lemma index_sorted:
  assumes s: "sorted_wrt (before cmp) (concat bss)" and ne: "[] \<notin> set bss" and keys: "\<forall>e \<in> set (concat bss). key (fst e)"
  shows "sorted_wrt (\<lambda>a b. Compare cmp a b < 0) (index_keys cmp bss)"
proof -
  have l: "length (index_keys cmp bss) = length bss"
    by (cases bss rule: rev_cases) (simp_all add: index_keys_def length_separators)
  have step: "Compare cmp (index_keys cmp bss ! i) (index_keys cmp bss ! j) < 0" if "i < j" "j < length bss" for i j
  proof -
    have i: "Suc i < length bss" "i < length bss" using that by simp_all
    note bi = index_bounds [OF s ne keys i(2)] and bj = index_bounds [OF s ne keys that(2)]
    have nb: "bss ! j \<noteq> []" "bss ! Suc i \<noteq> []" using ne that i by (metis nth_mem)+
    have f: "hd (bss ! j) \<in> set (bss ! j)" using nb by simp
    have kf: "key (first_of (bss ! j))" using keys f that(2) by (force simp: first_of_def)
    have K: "Compare cmp (index_keys cmp bss ! i) (first_of (bss ! Suc i)) < 0" using bi(3) [OF i(1)] separator by simp
    have "Compare cmp (first_of (bss ! Suc i)) (first_of (bss ! j)) \<le> 0"
    proof (cases "Suc i = j")
      case True
      then show ?thesis using refl kf by simp
    next
      case False
      then show ?thesis
        using sorted_concat_blocks [OF s, of "Suc i" j "hd (bss ! Suc i)" "hd (bss ! j)"] that nb by (simp add: before_def first_of_def)
    qed
    then have "Compare cmp (index_keys cmp bss ! i) (first_of (bss ! j)) < 0"
      using less_le_trans [OF bi(1) _ kf K] bi(3) [OF i(1)] by blast
    moreover have "Compare cmp (first_of (bss ! j)) (index_keys cmp bss ! j) \<le> 0" using bj(2) [OF f] by (simp add: first_of_def)
    ultimately show ?thesis using less_le_trans [OF bi(1) kf bj(1)] by blast
  qed
  then show ?thesis by (simp add: sorted_wrt_iff_nth_less l)
qed

text \<open>Where the index and a block lead.\<close>

lemma first_at_block:
  assumes s: "sorted_wrt (before cmp) (concat bss)" and ne: "[] \<notin> set bss" and keys: "\<forall>e \<in> set (concat bss). key (fst e)"
    and k: "key k" and i: "i < length bss" and at: "\<not> Compare cmp (index_keys cmp bss ! i) k < 0"
    and earlier: "\<And>j. j < i \<Longrightarrow> Compare cmp (index_keys cmp bss ! j) k < 0"
  shows "first_at cmp k (bss ! i) = Some e \<Longrightarrow> first_at cmp k (concat bss) = Some e"
    "first_at cmp k (bss ! i) = None \<Longrightarrow> first_at cmp k (concat bss) = Some e \<Longrightarrow> \<not> same_key k (fst e)"
proof -
  have kk: "key (fst e)" if "e \<in> set (bss ! j)" "j < length bss" for e j using that keys by fastforce
  have b: "Compare cmp (fst e) k < 0" if e: "e \<in> set (concat (take i bss))" for e
  proof -
    obtain b where "b \<in> set (take i bss)" "e \<in> set b" using e unfolding set_concat by blast
    then obtain j where j: "j < i" "e \<in> set (bss ! j)" by (auto simp: in_set_conv_nth [of b])
    then have jl: "j < length bss" using i by simp
    have "Compare cmp (fst e) (index_keys cmp bss ! j) \<le> 0" "key (index_keys cmp bss ! j)"
      using index_bounds(1,2) [OF s ne keys jl] j(2) by blast+
    then show ?thesis using earlier [OF j(1)] le_less kk [OF j(2) jl] k by blast
  qed
  have f: "first_at cmp k (concat bss) = (case first_at cmp k (bss ! i) of Some x \<Rightarrow> Some x | None \<Rightarrow> first_at cmp k (concat (drop (Suc i) bss)))"
    unfolding first_at_def by (rule find_concat_from [OF i]) (drule b, simp add: split_beta)
  show "first_at cmp k (bss ! i) = Some e \<Longrightarrow> first_at cmp k (concat bss) = Some e" using f by simp
  assume none: "first_at cmp k (bss ! i) = None" and "first_at cmp k (concat bss) = Some e"
  then have "first_at cmp k (concat (drop (Suc i) bss)) = Some e" using f by simp
  then have "e \<in> set (concat (drop (Suc i) bss))" by (rule first_at_Some)
  then obtain b where "b \<in> set (drop (Suc i) bss)" "e \<in> set b" unfolding set_concat by blast
  then obtain m where "m < length bss - Suc i" "b = bss ! (Suc i + m)" by (auto simp: in_set_conv_nth)
  then obtain j where j: "Suc i \<le> j" "j < length bss" "e \<in> set (bss ! j)" using \<open>e \<in> set b\<close> by (intro that [of "Suc i + m"]) simp_all
  have i1: "Suc i < length bss" using j by simp
  note B = index_bounds(3) [OF s ne keys i i1]
  have nb: "bss ! i \<noteq> []" "bss ! Suc i \<noteq> []" using ne i i1 by (metis nth_mem)+
  have "Compare cmp (last_of (bss ! i)) k < 0"
    using none last_in_set [OF nb(1)] unfolding first_at_None last_of_def by blast
  moreover have "Compare cmp k (index_keys cmp bss ! i) \<le> 0"
    using at greater [OF k index_bounds(1) [OF s ne keys i]] by force
  moreover have "Compare cmp (first_of (bss ! Suc i)) (fst e) \<le> 0"
  proof (cases "j = Suc i")
    case True
    show ?thesis
    proof (cases "e = hd (bss ! Suc i)")
      case True
      then show ?thesis using refl B by (simp add: first_of_def)
    next
      case False
      have "bss ! Suc i = hd (bss ! Suc i) # tl (bss ! Suc i)" using nb by simp
      then have "e \<in> set (tl (bss ! Suc i))" "sorted_wrt (before cmp) (hd (bss ! Suc i) # tl (bss ! Suc i))"
        using j(3) True False sorted_concat_block [OF s i1] by (metis set_ConsD, simp)
      then show ?thesis by (simp add: before_def first_of_def less_imp_le)
    qed
  next
    case False
    then show ?thesis using sorted_concat_blocks [OF s, of "Suc i" j "hd (bss ! Suc i)" e] j nb
      by (simp add: before_def first_of_def)
  qed
  ultimately show "\<not> same_key k (fst e)"
    using separator_gap [of "last_of (bss ! i)" "first_of (bss ! Suc i)" k "fst e"] B k kk [OF j(3,2)] by simp
qed

lemma first_at_beyond:
  assumes s: "sorted_wrt (before cmp) (concat bss)" and ne: "[] \<notin> set bss" and keys: "\<forall>e \<in> set (concat bss). key (fst e)"
    and k: "key k" and all: "\<And>j. j < length bss \<Longrightarrow> Compare cmp (index_keys cmp bss ! j) k < 0"
  shows "first_at cmp k (concat bss) = None"
proof -
  have "Compare cmp (fst e) k < 0" if e: "e \<in> set (concat bss)" for e
  proof -
    obtain b where "b \<in> set bss" "e \<in> set b" using e unfolding set_concat by blast
    then obtain j where j: "j < length bss" "e \<in> set (bss ! j)" by (auto simp: in_set_conv_nth [of b])
    have "key (fst e)" using keys e by blast
    then show ?thesis
      using index_bounds(1,2) [OF s ne keys j(1)] j all le_less k by blast
  qed
  then show ?thesis unfolding first_at_None by blast
qed

end

section \<open>The orders of tables\<close>

text \<open>A user order whose filter does not tell equal keys apart gives the order of a table, and so does the order of its internal keys.\<close>

locale filtered_order = user_order +
  fixes same_key :: "slice \<Rightarrow> slice \<Rightarrow> bool"
  assumes user_separator_length: "length (FindShortestSeparator cmp a b) \<le> length a"
    and user_successor_length: "length (FindShortSuccessor cmp a) \<le> length a"
    and distinct: "key a \<Longrightarrow> key b \<Longrightarrow> Compare cmp a b < 0 \<Longrightarrow> \<not> same_key a b"
begin

lemma user_gap:
  assumes k: "key b" "key k" "key e" "key s" and le: "Compare cmp k s \<le> 0" "Compare cmp s b < 0" "Compare cmp b e \<le> 0"
  shows "\<not> same_key k e"
proof -
  have "Compare cmp s e < 0" using less_le_trans [OF k(4,1,3) le(2,3)] .
  then have "Compare cmp k e < 0"
    using le(1) less_trans [OF k(2,4,3)] same_left [OF k(2,4,3)] by (cases "Compare cmp k s = 0") auto
  then show ?thesis using distinct k by blast
qed

lemma shortened_length: "length u < length (ExtractUserKey a) \<Longrightarrow> length (PutFixed64 u v) \<le> length a"
  by (simp add: ExtractUserKey_def PutFixed64_def)

lemma internal_lengths: "length (internal_separator cmp a b) \<le> length a" "length (internal_successor cmp a) \<le> length a"
  using shortened_length by (simp_all add: internal_separator_def internal_successor_def Let_def)

lemma internal_gap:
  assumes keys: "internal_key key a" "internal_key key b" "internal_key key k" "internal_key key e"
    and lt: "internal_compare cmp a b < 0" "internal_compare cmp a k < 0"
    and le: "internal_compare cmp k (internal_separator cmp a b) \<le> 0" "internal_compare cmp b e \<le> 0"
  shows "\<not> same_key (ExtractUserKey k) (ExtractUserKey e)"
proof -
  let ?a = "ExtractUserKey a" and ?b = "ExtractUserKey b"
  let ?t = "FindShortestSeparator cmp ?a ?b"
  let ?v = "PackSequenceAndType kMaxSequenceNumber kValueTypeForSeek"
  have user_le: "Compare cmp (ExtractUserKey x) (ExtractUserKey y) \<le> 0" if "internal_compare cmp x y \<le> 0" for x y
    using that by (auto simp: internal_compare_tag Let_def split: if_splits)
  show ?thesis
  proof (cases "length ?t < length ?a \<and> Compare cmp ?a ?t < 0")
    case True
    then have r: "internal_separator cmp a b = PutFixed64 ?t ?v" by (simp add: internal_separator_def Let_def)
    have "Compare cmp ?a ?b < 0"
      using True no_separator [of ?a ?b] keys(1,2) by (cases "Compare cmp ?a ?b < 0") auto
    then have t: "key ?t" "Compare cmp ?t ?b < 0" using separator keys(1,2) by blast+
    have "Compare cmp (ExtractUserKey k) ?t \<le> 0" using user_le [OF le(1)] shortened_key [OF t(1), of ?v] unfolding r by simp
    then show ?thesis using user_gap [of ?b "ExtractUserKey k" "ExtractUserKey e" ?t] keys t user_le [OF le(2)] by blast
  next
    case False
    then have "internal_separator cmp a b = a" by (auto simp: internal_separator_def Let_def)
    then have "internal_compare cmp k a \<le> 0" using le(1) by simp
    then have False using lt(2) internal_sym [OF keys(1,3)] by (simp add: sgn_if split: if_splits)
    then show ?thesis ..
  qed
qed

end

sublocale filtered_order \<subseteq> table: table_order cmp key same_key
proof unfold_locales
  fix a b k e
  show "length (FindShortestSeparator cmp a b) \<le> length a" "length (FindShortSuccessor cmp a) \<le> length a"
    by (rule user_separator_length user_successor_length)+
  assume "key a" "key b" "key k" "key e" "Compare cmp a b < 0" "Compare cmp a k < 0"
    "Compare cmp k (FindShortestSeparator cmp a b) \<le> 0" "Compare cmp b e \<le> 0"
  then show "\<not> same_key k e" using user_gap [of b k e] separator [of a b] by blast
qed

sublocale filtered_order \<subseteq> internal_table: table_order "InternalKeyComparator cmp" "internal_key key"
  "\<lambda>x y. same_key (ExtractUserKey x) (ExtractUserKey y)"
  by (unfold_locales, unfold InternalKeyComparator_simps) (rule internal_lengths internal_gap; assumption)+

lemma bytewise_lengths: "length (bytewise_separator a b) \<le> length a" "length (bytewise_successor a) \<le> length a"
  by (simp_all add: bytewise_separator_def Let_def) (induction a rule: bytewise_successor.induct; simp)

interpretation bytewise: filtered_order BytewiseComparator "\<lambda>a. True" "(=)"
proof unfold_locales
  fix a b :: slice
  show "length (FindShortestSeparator BytewiseComparator a b) \<le> length a" "length (FindShortSuccessor BytewiseComparator a) \<le> length a"
    by (simp_all add: BytewiseComparator_def bytewise_lengths)
  show "Compare BytewiseComparator a b < 0 \<Longrightarrow> a \<noteq> b" using bytewise.refl [of a] by auto
qed

end
