(* ===== verification/LdbTableRead.thy ===== *)
theory LdbTableRead
  imports LdbTableOrder
begin

text \<open>
  Reading a table that was built: \<open>Table::Open\<close> finds the footer, the index and the filter block, and \<open>InternalGet\<close>
  follows the index into one data block. The file gives the bytes it holds (\<open>reads\<close>), the table is opened without a cache.
\<close>

section \<open>Opening and looking up\<close>

lemma make_entry_fits:
  "length (bh_EncodeTo h []) < 2 ^ 32"
  using length_bh_EncodeTo [of h] by simp

lemma placed_fits: "placed F h bs \<Longrightarrow> length bs \<le> length F"
  by (auto simp: placed_def)

lemma ReadMeta_filter:
  assumes r: "reads file F" and F: "length F < 2 ^ 32" and t: "tab_file t = file" "to_filter_policy (tab_options t) = Some policy"
    and m: "placed F (metaindex_handle f) (build_block iv [(filter_key policy, bh_EncodeTo fh [])])"
    and p: "placed F fh contents" and name: "length (filter_key policy) < 2 ^ 32"
  shows "ReadMeta f t = Some (t\<lparr>tab_filter := Some (make_FilterBlockReader contents)\<rparr>)"
proof -
  let ?es = "[(filter_key policy, bh_EncodeTo fh [])]"
  obtain o1 where o1: "ReadBlock file (to_paranoid_checks (tab_options t)) (metaindex_handle f) =
      Some (status_OK, \<lparr>bc_data = build_block iv ?es, bc_cachable = \<not> o1, bc_heap_allocated = \<not> o1\<rparr>)"
    using ReadBlock_placed [OF m r F] by blast
  obtain o2 where o2: "ReadBlock file (to_paranoid_checks (tab_options t)) fh =
      Some (status_OK, \<lparr>bc_data = contents, bc_cachable = \<not> o2, bc_heap_allocated = \<not> o2\<rparr>)"
    using ReadBlock_placed [OF p r F] by blast
  have l: "length (build_block iv ?es) < 2 ^ 32" using placed_fits [OF m] F by linarith
  obtain it it' where it: "block_NewIterator BytewiseComparator (make_Block (build_block iv ?es)) = Block_iterator it"
      "bi_Seek (filter_key policy) it = Some it'" "bi_Valid it'" "bi_key it' = filter_key policy" "bi_value it' = bh_EncodeTo fh []"
    using built_seek [of ?es iv BytewiseComparator "filter_key policy"] name make_entry_fits [of fh] l
      bytewise.refl [of "filter_key policy"] by auto
  have "slice_eq (filter_key policy) (filter_key policy)" by (simp add: slice_eq_iff)
  then show ?thesis
    using t o1 o2 it bh_DecodeFrom_EncodeTo [of fh "[]" make_BlockHandle]
    by (simp add: ReadMeta_def ReadFilter_def)
qed

lemma table_Open_layout:
  assumes r: "reads file F" and F: "length F < 2 ^ 32" and foot: "F = pre @ footer_EncodeTo f []"
    and ix: "placed F (index_handle f) index"
    and meta: "\<And>policy. to_filter_policy opts = Some policy \<Longrightarrow> length (filter_key policy) < 2 ^ 32 \<and>
      placed F (metaindex_handle f) (build_block iv [(filter_key policy, bh_EncodeTo fh [])]) \<and> placed F fh (contents policy)"
  shows "table_Open opts file (of_nat (length F)) None =
    Some (status_OK, Some \<lparr>tab_options = opts, tab_file = file, tab_cache_id = 0,
      tab_filter = map_option (\<lambda>policy. make_FilterBlockReader (contents policy)) (to_filter_policy opts),
      tab_metaindex_handle = metaindex_handle f, tab_index_block = make_Block index\<rparr>, None)"
proof -
  have e: "length (footer_EncodeTo f []) = 48" using footer_roundtrip(1) [of f] by (simp add: kEncodedLength_def kMaxEncodedLength_def)
  then have l: "48 \<le> length F" using foot by simp
  have n: "of_nat (length F) - of_nat kEncodedLength = (of_nat (length F - 48) :: u64)"
    using l by (simp add: kEncodedLength_def kMaxEncodedLength_def)
  have u: "unat (of_nat (length F - 48) :: u64) = length F - 48" using F by (intro unat_of_nat_u64) simp
  have short: "\<not> (of_nat (length F) :: u64) < of_nat kEncodedLength"
    using F l by (simp add: word_less_nat_alt unat_of_nat_u64 kEncodedLength_def kMaxEncodedLength_def)
  obtain o1 where o1: "file (of_nat (length F - 48)) 48 = (status_OK, take 48 (drop (length F - 48) F), o1)"
    using r u l unfolding reads_def by (metis diff_add le_refl)
  have "take 48 (drop (length F - 48) F) = footer_EncodeTo f []" using foot e by simp
  then have fo: "file (of_nat (length F) - of_nat kEncodedLength) kEncodedLength = (status_OK, footer_EncodeTo f [], o1)"
    using o1 n e by (simp add: kEncodedLength_def kMaxEncodedLength_def)
  obtain o2 where o2: "ReadBlock file (to_paranoid_checks opts) (index_handle f) =
      Some (status_OK, \<lparr>bc_data = index, bc_cachable = \<not> o2, bc_heap_allocated = \<not> o2\<rparr>)"
    using ReadBlock_placed [OF ix r F] by blast
  let ?t = "\<lparr>tab_options = opts, tab_file = file, tab_cache_id = 0, tab_filter = None,
      tab_metaindex_handle = metaindex_handle f, tab_index_block = make_Block index\<rparr>"
  have "ReadMeta f ?t = Some (?t\<lparr>tab_filter := map_option (\<lambda>policy. make_FilterBlockReader (contents policy)) (to_filter_policy opts)\<rparr>)"
  proof (cases "to_filter_policy opts")
    case None
    then show ?thesis by (simp add: ReadMeta_def)
  next
    case (Some policy)
    then show ?thesis
      using ReadMeta_filter [OF r F, of ?t policy f iv fh "contents policy"] meta [OF Some] by simp
  qed
  then show ?thesis
    using short fo o2 footer_roundtrip(2) [of f "[]" make_Footer] by (simp add: table_Open_def)
qed

lemma ni_status_OK: "it_status it = None \<Longrightarrow> ni_status (Block_iterator it) = status_OK"
  by (simp add: status_OK_def)

lemma BlockReader_placed:
  assumes r: "reads (tab_file t) F" and F: "length F < 2 ^ 32" and p: "placed F h bs"
  shows "BlockReader t ro (bh_EncodeTo h []) None = Some (block_NewIterator (to_comparator (tab_options t)) (make_Block bs), None, None)"
proof -
  obtain o1 where "ReadBlock (tab_file t) (verify_checksums ro) h =
      Some (status_OK, \<lparr>bc_data = bs, bc_cachable = \<not> o1, bc_heap_allocated = \<not> o1\<rparr>)"
    using ReadBlock_placed [OF p r F] by blast
  then show ?thesis
    using bh_DecodeFrom_EncodeTo [of h "[]" make_BlockHandle] by (simp add: BlockReader_def read_block_def)
qed

text \<open>What the filter block says of the keys of a block.\<close>

lemma filter_of_block:
  assumes fc: "filter_contract policy same" and i: "filter_inv policy same fb bss hs cur off" and n: "length (concat bss @ cur) < 2 ^ 30"
    and small: "length (fst (fb_Finish policy fb)) < 2 ^ 32" and b: "i < length bss"
  shows "\<exists>may. filter_KeyMayMatch policy (make_FilterBlockReader (fst (fb_Finish policy fb))) (bh_offset (hs ! i)) key = Some may \<and>
    (\<not> may \<longrightarrow> (\<forall>e \<in> set (bss ! i). \<not> same key (fst e)))"
proof -
  obtain kss keys where k: "filter_contract.built policy fb kss keys"
      "length (concat kss) + length keys = length (concat bss @ cur)"
      "list_all2 (\<lambda>h b. filter_contract.covers kss keys (unat (bh_offset h)) (map fst b)) hs bss"
    using i unfolding filter_inv_def by blast
  let ?off = "bh_offset (hs ! i)"
  have c: "filter_contract.covers kss keys (unat ?off) (map fst (bss ! i))"
    using list_all2_nthD2 [OF k(3) b] .
  then have cv: "unat ?off div 2048 \<le> length kss" "set (map fst (bss ! i)) \<subseteq> set ((kss @ [keys]) ! (unat ?off div 2048))"
    by (simp_all add: filter_contract.covers_def [OF fc])
  have len: "length ((kss @ [keys]) ! (unat ?off div 2048)) < 2 ^ 30"
    using filter_contract.covers_length [OF fc c] k(2) n by linarith
  obtain may where may: "filter_KeyMayMatch policy (make_FilterBlockReader (fst (fb_Finish policy fb))) ?off key = Some may"
    using filter_contract.reader_matches(1) [OF fc k(1) small, of ?off key] by auto
  have "may" if "e \<in> set (bss ! i)" "same key (fst e)" for e
    using filter_contract.reader_matches(2) [OF fc k(1) small, of "fst e" ?off key] cv len that may by force
  then show ?thesis using may by blast
qed

context table_order
begin

lemma InternalGet_layout:
  assumes s: "sorted_wrt (before cmp) (concat bss)" and ne: "[] \<notin> set bss"
    and keys: "\<forall>e \<in> set (concat bss). key (fst e) \<and> length (fst e) < 2 ^ 32 \<and> length (snd e) < 2 ^ 32" and k: "key k"
    and t: "to_comparator (tab_options t) = cmp" and r: "reads (tab_file t) F" and F: "length F < 2 ^ 32"
    and ix: "tab_index_block t = make_Block (build_block 1 (index_entries (index_keys cmp bss) hs))"
      "length (build_block 1 (index_entries (index_keys cmp bss) hs)) < 2 ^ 32"
    and data: "list_all2 (\<lambda>h b. placed F h (build_block iv b)) hs bss"
    and flt: "\<And>i. i < length bss \<Longrightarrow>
      \<exists>may. (case (tab_filter t, to_filter_policy (tab_options t)) of
          (Some f, Some policy) \<Rightarrow> filter_KeyMayMatch policy f (bh_offset (hs ! i)) k
        | _ \<Rightarrow> Some True) = Some may \<and> (\<not> may \<longrightarrow> (\<forall>e \<in> set (bss ! i). \<not> same_key k (fst e)))"
  shows "\<exists>res. InternalGet t ro k None = Some (status_OK, res, None) \<and>
    (case first_at cmp k (concat bss) of None \<Rightarrow> res = None | Some e \<Rightarrow> res = Some e \<or> res = None \<and> \<not> same_key k (fst e))"
proof -
  let ?K = "index_keys cmp bss" and ?E = "index_entries (index_keys cmp bss) hs"
  have keys': "\<forall>e \<in> set (concat bss). key (fst e)" using keys by blast
  have lK: "length ?K = length bss" by (cases bss rule: rev_cases) (simp_all add: index_keys_def length_separators)
  have lh: "length hs = length bss" using data by (rule list_all2_lengthD)
  have E: "length ?E = length bss" "\<And>i. i < length bss \<Longrightarrow> ?E ! i = (?K ! i, bh_EncodeTo (hs ! i) [])"
    using lK lh by (simp_all add: index_entries_def)
  have mK: "map fst ?E = ?K" using lK lh by (simp add: index_entries_def)
  note bounds = index_bounds [OF s ne keys']
  have nb: "bss ! i \<noteq> []" if "i < length bss" for i using ne that by (metis nth_mem)
  have inb: "e \<in> set (concat bss)" if "e \<in> set (bss ! i)" "i < length bss" for e i using that by fastforce
  have Kl: "length (?K ! i) < 2 ^ 32" if i: "i < length bss" for i
    using bounds(4) [OF i] keys inb [OF last_in_set [OF nb [OF i]] i] unfolding last_of_def by fastforce
  have fits: "list_all (\<lambda>(k, v). length k < 2 ^ 32 \<and> length v < 2 ^ 32) ?E"
    using Kl E make_entry_fits by (simp add: list_all_length)
  have kK: "key a" if "a \<in> fst ` set ?E" for a
    using that bounds(1) lK unfolding list.set_map [symmetric] mK by (auto simp: in_set_conv_nth)
  obtain it it' where it: "block_NewIterator cmp (make_Block (build_block 1 ?E)) = Block_iterator it"
      "bi_Seek k it = Some it'" "it_status it = None" "it_status it' = None"
      "case find (\<lambda>(k', v). \<not> Compare cmp k' k < 0) ?E of None \<Rightarrow> \<not> bi_Valid it'
       | Some (k, v) \<Rightarrow> bi_Valid it' \<and> bi_key it' = k \<and> bi_value it' = v"
    using built_seek [OF fits ix(2), of cmp k] less_trans [OF kK kK k] index_sorted [OF s ne keys'] mK by auto
  have seek: "ni_Seek k (block_NewIterator (to_comparator (tab_options t)) (tab_index_block t)) = Some (Block_iterator it')"
    using it ix(1) t by simp
  show ?thesis
  proof (cases "first_at cmp k ?E")
    case None
    then have "\<not> bi_Valid it'" using it(5) by (simp add: first_at_pair)
    then have "InternalGet t ro k None = Some (status_OK, None, None)"
      using seek it(4) by (simp add: InternalGet_def status_OK_def)
    moreover have "Compare cmp (?K ! j) k < 0" if "j < length bss" for j
    proof -
      have "?E ! j \<in> set ?E" by (rule nth_mem) (use that E(1) in simp)
      then show ?thesis using None E(2) [OF that] unfolding first_at_None by fastforce
    qed
    ultimately show ?thesis using first_at_beyond [OF s ne keys' k] by simp
  next
    case (Some x)
    then obtain i where i: "i < length bss" "x = ?E ! i" "\<not> Compare cmp (fst (?E ! i)) k < 0" "\<forall>j < i. Compare cmp (fst (?E ! j)) k < 0"
      unfolding first_at_def find_Some_iff using E by auto
    have iK: "\<not> Compare cmp (?K ! i) k < 0" "\<And>j. j < i \<Longrightarrow> Compare cmp (?K ! j) k < 0" using i E by fastforce+
    have v: "bi_Valid it'" "bi_value it' = bh_EncodeTo (hs ! i) []"
      using it(5) Some E(2) [OF i(1)] i(2) by (simp_all add: first_at_pair)
    let ?B = "bss ! i"
    have pl: "placed F (hs ! i) (build_block iv ?B)" using list_all2_nthD2 [OF data i(1)] .
    have bf: "list_all (\<lambda>(k, v). length k < 2 ^ 32 \<and> length v < 2 ^ 32) ?B"
      using keys inb [OF _ i(1)] by (fastforce simp: list_all_iff)
    have bl: "length (build_block iv ?B) < 2 ^ 32" using placed_fits [OF pl] F by linarith
    have bk: "key a" if "a \<in> fst ` set ?B" for a using that keys' inb [OF _ i(1)] by blast
    have bs: "sorted_wrt (\<lambda>a b. Compare cmp a b < 0) (map fst ?B)"
      using sorted_concat_block [OF s i(1)] by (simp add: sorted_wrt_map before_def [abs_def])
    obtain bt bt' where bt: "block_NewIterator cmp (make_Block (build_block iv ?B)) = Block_iterator bt"
        "bi_Seek k bt = Some bt'" "it_status bt = None" "it_status bt' = None"
        "case find (\<lambda>(k', v). \<not> Compare cmp k' k < 0) ?B of None \<Rightarrow> \<not> bi_Valid bt'
         | Some (k, v) \<Rightarrow> bi_Valid bt' \<and> bi_key bt' = k \<and> bi_value bt' = v"
      using built_seek [OF bf bl _ bs, of k] less_trans [OF bk bk k] by auto
    note rd = BlockReader_placed [OF r F pl, of ro, unfolded t bt(1)]
    have dec: "bh_DecodeFrom (bh_EncodeTo (hs ! i) []) make_BlockHandle = (status_OK, hs ! i, [])"
      using bh_DecodeFrom_EncodeTo [of "hs ! i" "[]"] by simp
    obtain may where may: "(case (tab_filter t, to_filter_policy (tab_options t)) of
          (Some f, Some policy) \<Rightarrow> filter_KeyMayMatch policy f (bh_offset (hs ! i)) k
        | _ \<Rightarrow> Some True) = Some may" "\<not> may \<Longrightarrow> \<forall>e \<in> set ?B. \<not> same_key k (fst e)"
      using flt [OF i(1)] by blast
    have ig: "InternalGet t ro k None = Some (status_OK, if may \<and> bi_Valid bt' then Some (bi_key bt', bi_value bt') else None, None)"
      unfolding InternalGet_def seek using v dec may(1) rd bt(2)
      by (simp add: Let_def delete_iterator_def ni_status_OK [OF it(4)] ni_status_OK [OF bt(4)] del: ni_status.simps cong: option.case_cong)
    have fb: "first_at cmp k ?B = Some e \<Longrightarrow> first_at cmp k (concat bss) = Some e"
      "first_at cmp k ?B = None \<Longrightarrow> first_at cmp k (concat bss) = Some e \<Longrightarrow> \<not> same_key k (fst e)" for e
      using first_at_block [OF s ne keys' k i(1) iK(1)] iK(2) by blast+
    show ?thesis
    proof (cases "first_at cmp k ?B")
      case None
      then have "\<not> bi_Valid bt'" using bt(5) by (simp add: first_at_pair)
      then show ?thesis using ig fb(2) [OF None] by (auto split: option.split)
    next
      case (Some e)
      then have "bi_Valid bt' \<and> (bi_key bt', bi_value bt') = e" using bt(5) by (cases e) (simp add: first_at_pair)
      moreover have "\<not> may \<longrightarrow> \<not> same_key k (fst e)" using may(2) first_at_Some [OF Some] by blast
      ultimately show ?thesis using ig fb(1) [OF Some] by auto
    qed
  qed
qed

end

section \<open>From the builder to the lookup\<close>

lemma tb_Finish_status: "tb_Finish ops r = (s, r') \<Longrightarrow> status_ok s \<Longrightarrow> status_ok (tb_status r)"
proof (rule ccontr)
  assume f: "tb_Finish ops r = (s, r')" "status_ok s" and no: "\<not> status_ok (tb_status r)"
  define r0 where "r0 = (tb_Flush ops r)\<lparr>tb_closed := True\<rparr>"
  have r0: "\<not> status_ok (tb_status r0)" using no by (simp add: r0_def tb_Flush_def)
  have "write_filter_block ops r0 = (make_BlockHandle, r0)"
    using r0 by (simp add: write_filter_block_def cong: option.case_cong split: option.split)
  moreover have "write_metaindex_block ops h r0 = (make_BlockHandle, r0)" "write_index_block ops r0 = (make_BlockHandle, r0)" for h
    using r0 by (simp_all add: write_metaindex_block_def write_index_block_def)
  ultimately show False
    using f r0 unfolding tb_Finish_def r0_def [symmetric] by (auto simp: Let_def)
qed

text \<open>From the first \<open>Add\<close> to the end of \<open>Finish\<close>.\<close>

lemma built_table_layout:
  assumes law: "appends_if_ok ops contents" and new: "contents f = []" and opts: "options_ok opts same"
    and fin: "tb_Finish ops (tb_Adds ops es (make_TableBuilder opts f)) = (s, r)" and ok: "status_ok s"
  shows "\<exists>bss. concat bss = es \<and> table_layout opts same bss (contents (tb_file r)) \<and>
    tb_FileSize r = of_nat (length (contents (tb_file r)))"
proof -
  have "status_ok (tb_status (tb_Adds ops es (make_TableBuilder opts f)))" using tb_Finish_status [OF fin ok] .
  then obtain bss hs cur where g: "tb_good contents opts same bss hs cur (tb_Adds ops es (make_TableBuilder opts f))"
      "concat bss @ cur = concat [] @ [] @ es"
    using tb_Adds_good [OF conjunct1 [OF make_TableBuilder_good [where contents = contents and f = f, OF opts new]] opts law] by blast
  show ?thesis using tb_Finish_layout [OF g(1) opts law fin ok] g(2) by auto
qed

text \<open>What opening a table finds out of the file.\<close>

definition opened_on :: "table \<Rightarrow> table_options \<Rightarrow> random_access_file \<Rightarrow> bytes \<Rightarrow> (slice \<times> slice) list list \<Rightarrow> block_handle list \<Rightarrow> bool" where
  "opened_on t opts file F bss hs \<longleftrightarrow>
     tab_options t = opts \<and> tab_file t = file \<and> [] \<notin> set bss \<and>
     list_all2 (\<lambda>h b. placed F h (build_block (to_block_restart_interval opts) b)) hs bss \<and>
     (let index = build_block 1 (index_entries (index_keys (to_comparator opts) bss) hs)
      in tab_index_block t = make_Block index \<and> length index < 2 ^ 32)"

context table_order
begin

lemma table_reads_back:
  assumes L: "table_layout opts same_key bss F" and opts: "options_ok opts same_key" "to_comparator opts = cmp"
    and name: "\<And>policy. to_filter_policy opts = Some policy \<Longrightarrow> length (filter_key policy) < 2 ^ 32"
    and s: "sorted_wrt (before cmp) (concat bss)" and n: "length (concat bss) < 2 ^ 30"
    and keys: "\<forall>e \<in> set (concat bss). key (fst e) \<and> length (fst e) < 2 ^ 32 \<and> length (snd e) < 2 ^ 32"
    and r: "reads file F" and F: "length F < 2 ^ 32"
  shows "\<exists>t hs. table_Open opts file (of_nat (length F)) None = Some (status_OK, Some t, None) \<and>
    opened_on t opts file F bss hs \<and>
    (\<forall>k ro. key k \<longrightarrow> (\<exists>res. InternalGet t ro k None = Some (status_OK, res, None) \<and>
      (case first_at cmp k (concat bss) of None \<Rightarrow> res = None | Some e \<Rightarrow> res = Some e \<or> res = None \<and> \<not> same_key k (fst e))))"
proof -
  obtain hs fh mh ih pre where l: "[] \<notin> set bss" "F = pre @ footer_EncodeTo \<lparr>metaindex_handle = mh, index_handle = ih\<rparr> []"
      "list_all2 (\<lambda>h b. placed F h (build_block (to_block_restart_interval opts) b)) hs bss"
      "placed F ih (build_block 1 (index_entries (index_keys cmp bss) hs))"
      "placed F mh (build_block (to_block_restart_interval opts) (meta_entries opts fh))"
      "\<And>policy. to_filter_policy opts = Some policy \<Longrightarrow>
         \<exists>fb off. filter_inv policy same_key fb bss hs [] off \<and> placed F fh (fst (fb_Finish policy fb))"
    using L F opts(2) unfolding table_layout_def by auto
  define fb where "fb policy = (SOME fb. \<exists>off. filter_inv policy same_key fb bss hs [] off \<and> placed F fh (fst (fb_Finish policy fb)))" for policy
  have fb: "\<exists>off. filter_inv policy same_key (fb policy) bss hs [] off \<and> placed F fh (fst (fb_Finish policy (fb policy)))"
    if "to_filter_policy opts = Some policy" for policy
    unfolding fb_def by (rule someI_ex) (use l(6) [OF that] in blast)
  let ?t = "\<lparr>tab_options = opts, tab_file = file, tab_cache_id = 0,
      tab_filter = map_option (\<lambda>policy. make_FilterBlockReader (fst (fb_Finish policy (fb policy)))) (to_filter_policy opts),
      tab_metaindex_handle = mh, tab_index_block = make_Block (build_block 1 (index_entries (index_keys cmp bss) hs))\<rparr>"
  have meta: "length (filter_key policy) < 2 ^ 32 \<and>
      placed F mh (build_block (to_block_restart_interval opts) [(filter_key policy, bh_EncodeTo fh [])]) \<and>
      placed F fh (fst (fb_Finish policy (fb policy)))" if "to_filter_policy opts = Some policy" for policy
    using name [OF that] l(5) fb [OF that] that by (auto simp: meta_entries_def)
  have opened: "table_Open opts file (of_nat (length F)) None = Some (status_OK, Some ?t, None)"
    using table_Open_layout [OF r F l(2), of "build_block 1 (index_entries (index_keys cmp bss) hs)" opts
        "to_block_restart_interval opts" fh "\<lambda>policy. fst (fb_Finish policy (fb policy))"] l(4) meta by simp
  have flt: "\<exists>may. (case (tab_filter ?t, to_filter_policy (tab_options ?t)) of
          (Some f, Some policy) \<Rightarrow> filter_KeyMayMatch policy f (bh_offset (hs ! i)) k
        | _ \<Rightarrow> Some True) = Some may \<and> (\<not> may \<longrightarrow> (\<forall>e \<in> set (bss ! i). \<not> same_key k (fst e)))" if i: "i < length bss" for i k
  proof (cases "to_filter_policy opts")
    case (Some policy)
    obtain off where o: "filter_inv policy same_key (fb policy) bss hs [] off" "placed F fh (fst (fb_Finish policy (fb policy)))"
      using fb [OF Some] by blast
    have fc: "filter_contract policy same_key" using opts(1) Some by (simp add: options_ok_def)
    have "length (fst (fb_Finish policy (fb policy))) < 2 ^ 32" using placed_fits [OF o(2)] F by linarith
    then show ?thesis using filter_of_block [OF fc o(1) _ _ i, of k] n Some by simp
  qed (simp, rule exI [of _ True], simp)
  have ix: "length (build_block 1 (index_entries (index_keys cmp bss) hs)) < 2 ^ 32" using placed_fits [OF l(4)] F by linarith
  have "\<exists>res. InternalGet ?t ro k None = Some (status_OK, res, None) \<and>
      (case first_at cmp k (concat bss) of None \<Rightarrow> res = None | Some e \<Rightarrow> res = Some e \<or> res = None \<and> \<not> same_key k (fst e))"
    if "key k" for k ro
    by (rule InternalGet_layout [OF s l(1) keys that _ _ F _ ix l(3) flt]) (use opts(2) r in simp_all)
  moreover have "opened_on ?t opts file F bss hs" using l(1,3) ix opts(2) by (simp add: opened_on_def)
  ultimately show ?thesis using opened by blast
qed

end

text \<open>The options of a table of the database.\<close>

definition internal_options :: "table_options \<Rightarrow> bool" where
  "internal_options opts \<longleftrightarrow>
     to_comparator opts = InternalKeyComparator BytewiseComparator \<and> to_compression opts \<in> {kNoCompression, kSnappyCompression} \<and>
     (to_filter_policy opts = None \<or>
      (\<exists>b :: u32. to_filter_policy opts = Some (InternalFilterPolicy (NewBloomFilterPolicy (unat b)))))"

lemma internal_table_built:
  assumes "appends_if_ok ops contents" and "contents f = []" and "internal_options opts"
    and "sorted_wrt (before (InternalKeyComparator BytewiseComparator)) es" and "length es < 2 ^ 30"
    and "\<forall>(k, v) \<in> set es. 8 \<le> length k \<and> length k < 2 ^ 32 \<and> length v < 2 ^ 32"
    and "tb_Finish ops (tb_Adds ops es (make_TableBuilder opts f)) = (s, r)" and "status_ok s"
    and "length (contents (tb_file r)) < 2 ^ 32" and "reads file (contents (tb_file r))"
  shows "\<exists>t bss hs. table_Open opts file (tb_FileSize r) None = Some (status_OK, Some t, None) \<and> concat bss = es \<and>
    opened_on t opts file (contents (tb_file r)) bss hs \<and>
    (\<forall>k ro. 8 \<le> length k \<longrightarrow> (\<exists>res. InternalGet t ro k None = Some (status_OK, res, None) \<and>
      (case first_at (InternalKeyComparator BytewiseComparator) k es of
         None \<Rightarrow> res = None
       | Some e \<Rightarrow> res = Some e \<or> res = None \<and> ExtractUserKey k \<noteq> ExtractUserKey (fst e))))"
proof -
  have o: "options_ok opts (\<lambda>x y. ExtractUserKey x = ExtractUserKey y)"
    using assms(3) internal_bloom.filter_contract_axioms by (auto simp: internal_options_def options_ok_def)
  obtain bss where b: "concat bss = es" "table_layout opts (\<lambda>x y. ExtractUserKey x = ExtractUserKey y) bss (contents (tb_file r))"
      "tb_FileSize r = of_nat (length (contents (tb_file r)))"
    using built_table_layout [OF assms(1,2) o assms(7,8)] by blast
  have "length (filter_key policy) < 2 ^ 32" if "to_filter_policy opts = Some policy" for policy
    using that assms(3) by (auto simp: internal_options_def filter_key_def InternalFilterPolicy_def BloomFilterPolicy_def c_str_def)
  then obtain t hs where "table_Open opts file (tb_FileSize r) None = Some (status_OK, Some t, None)"
      "opened_on t opts file (contents (tb_file r)) bss hs"
      "\<forall>k ro. 8 \<le> length k \<longrightarrow> (\<exists>res. InternalGet t ro k None = Some (status_OK, res, None) \<and>
        (case first_at (InternalKeyComparator BytewiseComparator) k es of
           None \<Rightarrow> res = None
         | Some e \<Rightarrow> res = Some e \<or> res = None \<and> ExtractUserKey k \<noteq> ExtractUserKey (fst e)))"
    using bytewise.internal_table.table_reads_back [OF b(2) o _ _ _ _ _ assms(10,9)] assms(3-6) b
    by (auto simp: internal_options_def split_beta)
  then show ?thesis using b(1) by blast
qed

text \<open>
  C3. A table file that was built by adding internal keys in ascending order and finished without an error opens, and then,
  whether or not it has Bloom filters, a lookup finds the first entry at or after the key it looks for; it may say that there
  is nothing only if there is no such entry or it is of another user key. No read of a lookup leaves the blocks.
\<close>
theorem table_get_finds:
  assumes "appends_if_ok ops contents" and "contents f = []" and "internal_options opts"
    and "sorted_wrt (before (InternalKeyComparator BytewiseComparator)) es" and "length es < 2 ^ 30"
    and "\<forall>(k, v) \<in> set es. 8 \<le> length k \<and> length k < 2 ^ 32 \<and> length v < 2 ^ 32"
    and "tb_Finish ops (tb_Adds ops es (make_TableBuilder opts f)) = (s, r)" and "status_ok s"
    and "length (contents (tb_file r)) < 2 ^ 32" and "reads file (contents (tb_file r))"
  shows "\<exists>t. table_Open opts file (tb_FileSize r) None = Some (status_OK, Some t, None) \<and>
    (\<forall>k ro. 8 \<le> length k \<longrightarrow> (\<exists>res. InternalGet t ro k None = Some (status_OK, res, None) \<and>
      (case first_at (InternalKeyComparator BytewiseComparator) k es of
         None \<Rightarrow> res = None
       | Some e \<Rightarrow> res = Some e \<or> res = None \<and> ExtractUserKey k \<noteq> ExtractUserKey (fst e))))"
  using internal_table_built [OF assms] by blast

section \<open>A small table\<close>

lemma WriteBlock_memory:
  assumes "to_compression (tb_options r) = kSnappyCompression"
  shows "WriteBlock memory_writer (bb_Adds es (make_BlockBuilder iv)) r =
     (\<lparr>bh_offset = tb_offset r, bh_size = of_nat (length (build_block iv es))\<rparr>, make_BlockBuilder iv,
      r\<lparr>tb_status := status_OK, tb_file := tb_file r @ build_block iv es @ block_trailer (build_block iv es),
        tb_offset := tb_offset r + of_nat (length (build_block iv es) + kBlockTrailerSize)\<rparr>)"
    and "WriteRawBlock memory_writer bs kNoCompression r =
     (\<lparr>bh_offset = tb_offset r, bh_size = of_nat (length bs)\<rparr>,
      r\<lparr>tb_status := status_OK, tb_file := tb_file r @ bs @ block_trailer bs, tb_offset := tb_offset r + of_nat (length bs + kBlockTrailerSize)\<rparr>)"
proof -
  have raw: "WriteRawBlock memory_writer bs kNoCompression r =
     (\<lparr>bh_offset = tb_offset r, bh_size = of_nat (length bs)\<rparr>,
      r\<lparr>tb_status := status_OK, tb_file := tb_file r @ bs @ block_trailer bs, tb_offset := tb_offset r + of_nat (length bs + kBlockTrailerSize)\<rparr>)" for bs
    by (simp add: WriteRawBlock_def memory_writer_def block_trailer_def Value_def Extend_append [where r = 0])
  show "WriteRawBlock memory_writer bs kNoCompression r =
     (\<lparr>bh_offset = tb_offset r, bh_size = of_nat (length bs)\<rparr>,
      r\<lparr>tb_status := status_OK, tb_file := tb_file r @ bs @ block_trailer bs, tb_offset := tb_offset r + of_nat (length bs + kBlockTrailerSize)\<rparr>)"
    by (rule raw)
  show "WriteBlock memory_writer (bb_Adds es (make_BlockBuilder iv)) r =
     (\<lparr>bh_offset = tb_offset r, bh_size = of_nat (length (build_block iv es))\<rparr>, make_BlockBuilder iv,
      r\<lparr>tb_status := status_OK, tb_file := tb_file r @ build_block iv es @ block_trailer (build_block iv es),
        tb_offset := tb_offset r + of_nat (length (build_block iv es) + kBlockTrailerSize)\<rparr>)"
    using assms by (subst WriteBlock_raw) (simp_all add: raw bb_Reset_Adds flip: build_block_def)
qed

lemma one_block_table:
  assumes g: "tb_good (\<lambda>f. f) opts same [] [] cur r" and cur: "cur \<noteq> []" and f: "tb_file r = []" and ok: "status_ok (tb_status r)"
    and opts: "to_compression opts = kSnappyCompression" "to_filter_policy opts = Some policy"
    and fb: "tb_filter_block r = Some fb"
    and iv: "iv = to_block_restart_interval opts" and D: "D = length (build_block iv cur)"
    and fc: "Fc = length (fst (fb_Finish policy (StartBlock policy (of_nat (D + 5)) fb)))"
  shows "\<exists>r'. tb_Finish memory_writer r = (status_OK, r') \<and> length (tb_file r') = D + Fc +
    length (build_block iv [(filter_key policy, bh_EncodeTo \<lparr>bh_offset = of_nat (D + 5), bh_size = of_nat Fc\<rparr> [])]) +
    length (build_block 1 [(FindShortSuccessor (to_comparator opts) (last_of cur), bh_EncodeTo \<lparr>bh_offset = 0, bh_size = of_nat D\<rparr> [])]) + 68"
proof -
  have G: "tb_options r = opts" "tb_data_block r = bb_Adds cur (make_BlockBuilder iv)" "tb_filter_policy r = Some policy" "tb_offset r = 0"
    "tb_index_block r = make_BlockBuilder 1" "tb_last_key r = last_of cur"
    using g f cur iv opts by (auto simp: tb_good_def Let_def index_entries_def)
  let ?B = "build_block iv cur"
  let ?fb = "StartBlock policy (of_nat (D + 5)) fb"
  define r1 where "r1 = (tb_Flush memory_writer r)\<lparr>tb_closed := True\<rparr>"
  have "\<not> bb_empty (tb_data_block r)" using G(2) cur bb_empty_Adds by simp
  then have r1: "r1 = r\<lparr>tb_closed := True, tb_pending_handle := \<lparr>bh_offset = 0, bh_size = of_nat D\<rparr>, tb_data_block := make_BlockBuilder iv,
      tb_pending_index_entry := True, tb_status := status_OK, tb_file := ?B @ block_trailer ?B, tb_offset := of_nat (D + 5),
      tb_filter_block := Some ?fb\<rparr>"
    using ok WriteBlock_memory(1) [of r cur iv] G f opts fb D
    by (simp add: r1_def tb_Flush_def memory_writer_def start_filter_def kBlockTrailerSize_def)
  obtain c fb' where c: "fb_Finish policy ?fb = (c, fb')" by fastforce
  let ?fh = "\<lparr>bh_offset = of_nat (D + 5), bh_size = of_nat (length c)\<rparr>"
  define r2 where "r2 = r1\<lparr>tb_filter_block := Some fb', tb_status := status_OK, tb_file := tb_file r1 @ c @ block_trailer c,
      tb_offset := tb_offset r1 + of_nat (length c + kBlockTrailerSize)\<rparr>"
  have w1: "write_filter_block memory_writer r1 = (?fh, r2)"
    using G opts c WriteBlock_memory(2) [of "r1\<lparr>tb_filter_block := Some fb'\<rparr>" c]
    by (simp add: write_filter_block_def r1 r2_def del: of_nat_add)
  let ?M = "build_block iv [(filter_key policy, bh_EncodeTo ?fh [])]"
  define r3 where "r3 = r2\<lparr>tb_status := status_OK, tb_file := tb_file r2 @ ?M @ block_trailer ?M,
      tb_offset := tb_offset r2 + of_nat (length ?M + kBlockTrailerSize)\<rparr>"
  have e2: "tb_options r2 = opts" "status_ok (tb_status r2)" "tb_filter_block r2 = Some fb'" by (simp_all add: r2_def r1 G)
  obtain mh where w2: "write_metaindex_block memory_writer ?fh r2 = (mh, r3)"
    using WriteBlock_memory(1) [of r2 "[(filter_key policy, bh_EncodeTo ?fh [])]" iv] e2 opts iv
    by (simp add: write_metaindex_block_def r3_def)
  let ?I = "build_block 1 [(FindShortSuccessor (to_comparator opts) (last_of cur), bh_EncodeTo \<lparr>bh_offset = 0, bh_size = of_nat D\<rparr> [])]"
  have e3: "tb_options r3 = opts" "status_ok (tb_status r3)" "tb_pending_index_entry r3" "tb_last_key r3 = last_of cur"
    "tb_index_block r3 = make_BlockBuilder 1" "tb_pending_handle r3 = \<lparr>bh_offset = 0, bh_size = of_nat D\<rparr>"
    by (simp_all add: r3_def r2_def r1 G)
  define r3' where "r3' = add_index_entry (r3\<lparr>tb_last_key := FindShortSuccessor (to_comparator (tb_options r3)) (tb_last_key r3)\<rparr>)"
  have w: "write_index_block memory_writer r3 = (case WriteBlock memory_writer (tb_index_block r3') r3' of (h, b, r) \<Rightarrow> (h, r\<lparr>tb_index_block := b\<rparr>))"
    using e3 by (simp add: write_index_block_def r3'_def Let_def)
  have "tb_index_block r3' = bb_Adds [(FindShortSuccessor (to_comparator opts) (last_of cur), bh_EncodeTo \<lparr>bh_offset = 0, bh_size = of_nat D\<rparr> [])] (make_BlockBuilder 1)"
    "tb_options r3' = opts" "tb_file r3' = tb_file r3" using e3 by (simp_all add: r3'_def add_index_entry_def)
  then obtain ih r4 where w3: "write_index_block memory_writer r3 = (ih, r4)" "tb_file r4 = tb_file r3 @ ?I @ block_trailer ?I" "tb_status r4 = status_OK"
    using WriteBlock_memory(1) [of r3' "[(FindShortSuccessor (to_comparator opts) (last_of cur), bh_EncodeTo \<lparr>bh_offset = 0, bh_size = of_nat D\<rparr> [])]" 1]
      opts w by simp
  have "length (tb_file r3) = D + 5 + (length c + 5) + (length ?M + 5)"
    by (simp add: r3_def r2_def r1 D kBlockTrailerSize_def)
  moreover have ap: "file_append memory_writer f bs = (status_OK, f @ bs)" for f bs by (simp add: memory_writer_def)
  moreover have "Fc = length c" using fc c by simp
  ultimately show ?thesis
    using w1 w2 w3 footer_roundtrip(1) [of "\<lparr>metaindex_handle = mh, index_handle = ih\<rparr>"]
    unfolding tb_Finish_def r1_def [symmetric]
    by (simp add: ap Let_def kBlockTrailerSize_def kEncodedLength_def kMaxEncodedLength_def)
qed

definition example_options :: table_options where
  "example_options = \<lparr>to_comparator = InternalKeyComparator BytewiseComparator,
     to_filter_policy = Some (InternalFilterPolicy (NewBloomFilterPolicy (unat (10 :: u32)))), to_paranoid_checks = True,
     to_block_size = 4096, to_block_restart_interval = 16, to_compression = kSnappyCompression\<rparr>"

definition example_entries :: "(slice \<times> slice) list" where
  "example_entries = [([1, 1, 5, 0, 0, 0, 0, 0, 0], [7]), ([2, 1, 3, 0, 0, 0, 0, 0, 0], [8])]"

definition example_filter :: filter_builder where
  "example_filter = \<lparr>fb_keys = [1, 1, 5, 0, 0, 0, 0, 0, 0, 2, 1, 3, 0, 0, 0, 0, 0, 0], fb_start = [0, 9], fb_result = [], fb_filter_offsets = []\<rparr>"

abbreviation example_policy :: filter_policy where
  "example_policy \<equiv> InternalFilterPolicy (NewBloomFilterPolicy (unat (10 :: u32)))"

lemma example_builder:
  defines "r \<equiv> tb_Adds memory_writer example_entries (make_TableBuilder example_options [])"
  shows "tb_file r = []" "tb_filter_block r = Some example_filter" "tb_status r = None"
    "length (bb_buffer (tb_data_block r)) = 26"
  unfolding r_def by code_simp+

lemma example_sizes:
  "length (build_block 16 example_entries) = 34"
  "length (fst (fb_Finish example_policy (StartBlock example_policy (of_nat (34 + 5)) example_filter))) = 18"
  "length (build_block 16 [(filter_key example_policy, bh_EncodeTo \<lparr>bh_offset = of_nat (34 + 5), bh_size = of_nat 18\<rparr> [])]) < 1000"
  "length (build_block 1 [(FindShortSuccessor (InternalKeyComparator BytewiseComparator) (last_of example_entries),
     bh_EncodeTo \<lparr>bh_offset = 0, bh_size = of_nat 34\<rparr> [])]) < 1000"
  by code_simp+

text \<open>The table of the witness: two entries of different user keys in one data block, with a Bloom filter.\<close>

lemma example_table:
  "\<exists>r. tb_Finish memory_writer (tb_Adds memory_writer example_entries (make_TableBuilder example_options [])) = (status_OK, r) \<and>
     length (tb_file r) < 2 ^ 32"
proof -
  let ?same = "\<lambda>x y. ExtractUserKey x = ExtractUserKey y"
  let ?r = "tb_Adds memory_writer example_entries (make_TableBuilder example_options [])"
  have o: "options_ok example_options ?same"
    using internal_bloom.filter_contract_axioms [of 10] by (simp add: options_ok_def example_options_def)
  have law: "appends_if_ok memory_writer (\<lambda>f. f)" by (simp add: appends_if_ok_def memory_writer_def)
  have ok: "status_ok (tb_status ?r)" using example_builder(3) by (simp add: status_ok_def)
  obtain bss hs cur where g: "tb_good (\<lambda>f. f) example_options ?same bss hs cur ?r" "concat bss @ cur = example_entries"
    using tb_Adds_good [OF conjunct1 [OF make_TableBuilder_good [where contents = "\<lambda>f. f" and f = "[]", OF o refl]] o law ok] by auto
  have "bss = []"
  proof (rule ccontr)
    assume "bss \<noteq> []"
    moreover have "list_all2 (\<lambda>h b. placed [] h (build_block 16 b)) hs bss"
      using g(1) example_builder(1) by (simp add: tb_good_def Let_def example_options_def)
    ultimately show False by (cases bss; cases hs) (auto simp: placed_def block_trailer_def)
  qed
  then have g': "tb_good (\<lambda>f. f) example_options ?same [] [] example_entries ?r"
    using g by (auto simp: tb_good_def Let_def)
  have "example_entries \<noteq> []" by (simp add: example_entries_def)
  then show ?thesis
    using one_block_table [OF g' _ example_builder(1) ok _ _ example_builder(2) refl refl refl, of example_policy] example_sizes
    by (auto simp: example_options_def simp del: of_nat_add)
qed

lemma example_conditions:
  "appends_if_ok memory_writer (\<lambda>f. f)" "internal_options example_options"
  "sorted_wrt (before (InternalKeyComparator BytewiseComparator)) example_entries"
  "\<forall>(k, v) \<in> set example_entries. 8 \<le> length k \<and> length k < 2 ^ 32 \<and> length v < 2 ^ 32" "length example_entries < 2 ^ 30"
proof -
  show "appends_if_ok memory_writer (\<lambda>f. f)" by (simp add: appends_if_ok_def memory_writer_def)
  show "internal_options example_options" by (auto simp: internal_options_def example_options_def intro: exI [of _ 10])
  show "sorted_wrt (before (InternalKeyComparator BytewiseComparator)) example_entries"
    unfolding before_def [abs_def] by code_simp
qed (simp_all add: example_entries_def)

lemma table_get_finds_witness:
  "\<exists>r t. tb_Finish memory_writer (tb_Adds memory_writer example_entries (make_TableBuilder example_options [])) = (status_OK, r) \<and>
     table_Open example_options (\<lambda>off n. (status_OK, take n (drop (unat off) (tb_file r)), False)) (tb_FileSize r) None =
       Some (status_OK, Some t, None) \<and>
     InternalGet t \<lparr>verify_checksums = True, fill_cache = False\<rparr> [1, 1, 9, 0, 0, 0, 0, 0, 0] None =
       Some (status_OK, Some ([1, 1, 5, 0, 0, 0, 0, 0, 0], [7]), None)"
proof -
  let ?k = "[1, 1, 9, 0, 0, 0, 0, 0, 0] :: slice"
  obtain r where r: "tb_Finish memory_writer (tb_Adds memory_writer example_entries (make_TableBuilder example_options [])) = (status_OK, r)"
      "length (tb_file r) < 2 ^ 32"
    using example_table by blast
  have rd: "reads (\<lambda>off n. (status_OK, take n (drop (unat off) (tb_file r)), False)) (tb_file r)" unfolding reads_def by blast
  obtain t where t: "table_Open example_options (\<lambda>off n. (status_OK, take n (drop (unat off) (tb_file r)), False)) (tb_FileSize r) None =
       Some (status_OK, Some t, None)"
    "\<forall>k ro. 8 \<le> length k \<longrightarrow> (\<exists>res. InternalGet t ro k None = Some (status_OK, res, None) \<and>
      (case first_at (InternalKeyComparator BytewiseComparator) k example_entries of
         None \<Rightarrow> res = None
       | Some e \<Rightarrow> res = Some e \<or> res = None \<and> ExtractUserKey k \<noteq> ExtractUserKey (fst e)))"
    using table_get_finds [OF example_conditions(1) refl example_conditions(2,3,5,4) r(1) _ r(2) rd] by auto
  have "first_at (InternalKeyComparator BytewiseComparator) ?k example_entries = Some ([1, 1, 5, 0, 0, 0, 0, 0, 0], [7])"
    by code_simp
  moreover have "ExtractUserKey ?k = ExtractUserKey [1, 1, 5, 0, 0, 0, 0, 0, 0]" by code_simp
  ultimately show ?thesis using r(1) t spec [OF spec [OF t(2)], of ?k] by fastforce
qed

end
