(* ===== verification/LdbTableIter.thy ===== *)
theory LdbTableIter
  imports LdbTableRead
begin

text \<open>
  The iterator over a whole table: \<open>leveldb-library/table/two_level_iterator.cc\<close>, \<open>table/iterator_wrapper.h\<close> and
  \<open>Table::NewIterator\<close>. An iterator over the index has an iterator over the data block that the index points to. What the
  wrapper caches of an iterator is what the iterator gives, so the model asks the iterator.
\<close>

section \<open>Moves of the inner iterators\<close>

fun ni_Next :: "new_iterator \<Rightarrow> new_iterator option" where
  "ni_Next (Block_iterator it) = map_option Block_iterator (bi_Next it)"
| "ni_Next it = Some it"

fun ni_Prev :: "new_iterator \<Rightarrow> new_iterator option" where
  "ni_Prev (Block_iterator it) = map_option Block_iterator (bi_Prev it)"
| "ni_Prev it = Some it"

fun ni_SeekToFirst :: "new_iterator \<Rightarrow> new_iterator option" where
  "ni_SeekToFirst (Block_iterator it) = map_option Block_iterator (bi_SeekToFirst it)"
| "ni_SeekToFirst it = Some it"

fun ni_SeekToLast :: "new_iterator \<Rightarrow> new_iterator option" where
  "ni_SeekToLast (Block_iterator it) = map_option Block_iterator (bi_SeekToLast it)"
| "ni_SeekToLast it = Some it"

section \<open>The two levels\<close>

text \<open>The iterator over a data block comes with the handle of the cache that its deletion releases.\<close>

record two_level =
  tl_saved :: status
  tl_index_iter :: new_iterator
  tl_data_iter :: "(new_iterator \<times> (nat \<times> addr) option) option"
  tl_data_block_handle :: bytes

definition table_NewIterator :: "table \<Rightarrow> two_level" where
  "table_NewIterator t =
     \<lparr>tl_saved = status_OK, tl_index_iter = block_NewIterator (to_comparator (tab_options t)) (tab_index_block t),
      tl_data_iter = None, tl_data_block_handle = []\<rparr>"

definition tl_Valid :: "two_level \<Rightarrow> bool" where
  "tl_Valid it = (case tl_data_iter it of None \<Rightarrow> False | Some (d, h) \<Rightarrow> ni_Valid d)"

definition tl_key :: "two_level \<Rightarrow> slice" where
  "tl_key it = (case tl_data_iter it of None \<Rightarrow> [] | Some (d, h) \<Rightarrow> ni_key d)"

definition tl_value :: "two_level \<Rightarrow> slice" where
  "tl_value it = (case tl_data_iter it of None \<Rightarrow> [] | Some (d, h) \<Rightarrow> ni_value d)"

definition tl_status :: "two_level \<Rightarrow> status" where
  "tl_status it =
     (if \<not> status_ok (ni_status (tl_index_iter it)) then ni_status (tl_index_iter it)
      else
        case tl_data_iter it of
          Some (d, h) \<Rightarrow> if \<not> status_ok (ni_status d) then ni_status d else tl_saved it
        | None \<Rightarrow> tl_saved it)"

definition SaveError :: "status \<Rightarrow> two_level \<Rightarrow> two_level" where
  "SaveError s it = (if status_ok (tl_saved it) \<and> \<not> status_ok s then it\<lparr>tl_saved := s\<rparr> else it)"

definition SetDataIterator :: "(new_iterator \<times> (nat \<times> addr) option) option \<Rightarrow> two_level \<Rightarrow> block_cache \<Rightarrow> (two_level \<times> block_cache) option" where
  "SetDataIterator data_iter it cache =
     (case tl_data_iter it of
        None \<Rightarrow> Some (it\<lparr>tl_data_iter := data_iter\<rparr>, cache)
      | Some (d, h) \<Rightarrow>
          map_option (\<lambda>cache. ((SaveError (ni_status d) it)\<lparr>tl_data_iter := data_iter\<rparr>, cache)) (delete_iterator h cache))"

definition InitDataBlock :: "table \<Rightarrow> read_options \<Rightarrow> two_level \<Rightarrow> block_cache \<Rightarrow> (two_level \<times> block_cache) option" where
  "InitDataBlock t options it cache =
     (if \<not> ni_Valid (tl_index_iter it) then SetDataIterator None it cache
      else
        let handle = ni_value (tl_index_iter it) in
        if tl_data_iter it \<noteq> None \<and> slice_compare handle (tl_data_block_handle it) = 0 then Some (it, cache)
        else
          Option.bind (BlockReader t options handle cache) (\<lambda>(iter, h, cache).
            SetDataIterator (Some (iter, h)) (it\<lparr>tl_data_block_handle := handle\<rparr>) cache))"

text \<open>A move of the iterator over the data block, if there is one, and of the iterator over the index.\<close>

definition move_data :: "(new_iterator \<Rightarrow> new_iterator option) \<Rightarrow> two_level \<Rightarrow> two_level option" where
  "move_data move it =
     (case tl_data_iter it of
        None \<Rightarrow> Some it
      | Some (d, h) \<Rightarrow> map_option (\<lambda>d. it\<lparr>tl_data_iter := Some (d, h)\<rparr>) (move d))"

definition move_index :: "(new_iterator \<Rightarrow> new_iterator option) \<Rightarrow> two_level \<Rightarrow> two_level option" where
  "move_index move it = map_option (\<lambda>i. it\<lparr>tl_index_iter := i\<rparr>) (move (tl_index_iter it))"

text \<open>Both loops over empty blocks: one goes to the next block and its first entry, one to the block before and its last.\<close>

partial_function (option) skip_empty :: "(new_iterator \<Rightarrow> new_iterator option) \<Rightarrow> (new_iterator \<Rightarrow> new_iterator option) \<Rightarrow> table \<Rightarrow>
    read_options \<Rightarrow> two_level \<Rightarrow> block_cache \<Rightarrow> (two_level \<times> block_cache) option" where
  "skip_empty step enter t options it cache =
     (if tl_Valid it then Some (it, cache)
      else if \<not> ni_Valid (tl_index_iter it) then SetDataIterator None it cache
      else
        Option.bind (move_index step it) (\<lambda>it.
          Option.bind (InitDataBlock t options it cache) (\<lambda>r.
            Option.bind (move_data enter (fst r)) (\<lambda>it. skip_empty step enter t options it (snd r)))))"

definition SkipEmptyDataBlocksForward :: "table \<Rightarrow> read_options \<Rightarrow> two_level \<Rightarrow> block_cache \<Rightarrow> (two_level \<times> block_cache) option" where
  "SkipEmptyDataBlocksForward = skip_empty ni_Next ni_SeekToFirst"

definition SkipEmptyDataBlocksBackward :: "table \<Rightarrow> read_options \<Rightarrow> two_level \<Rightarrow> block_cache \<Rightarrow> (two_level \<times> block_cache) option" where
  "SkipEmptyDataBlocksBackward = skip_empty ni_Prev ni_SeekToLast"

text \<open>A seek of either kind: the index, the block, the entry, and over empty blocks.\<close>

definition seek_both :: "(new_iterator \<Rightarrow> new_iterator option) \<Rightarrow>
    (table \<Rightarrow> read_options \<Rightarrow> two_level \<Rightarrow> block_cache \<Rightarrow> (two_level \<times> block_cache) option) \<Rightarrow>
    table \<Rightarrow> read_options \<Rightarrow> two_level \<Rightarrow> block_cache \<Rightarrow> (two_level \<times> block_cache) option" where
  "seek_both move skip t options it cache =
     Option.bind (move_index move it) (\<lambda>it.
       Option.bind (InitDataBlock t options it cache) (\<lambda>(it, cache).
         Option.bind (move_data move it) (\<lambda>it. skip t options it cache)))"

definition tl_Seek :: "slice \<Rightarrow> table \<Rightarrow> read_options \<Rightarrow> two_level \<Rightarrow> block_cache \<Rightarrow> (two_level \<times> block_cache) option" where
  "tl_Seek target = seek_both (ni_Seek target) SkipEmptyDataBlocksForward"

definition tl_SeekToFirst :: "table \<Rightarrow> read_options \<Rightarrow> two_level \<Rightarrow> block_cache \<Rightarrow> (two_level \<times> block_cache) option" where
  "tl_SeekToFirst = seek_both ni_SeekToFirst SkipEmptyDataBlocksForward"

definition tl_SeekToLast :: "table \<Rightarrow> read_options \<Rightarrow> two_level \<Rightarrow> block_cache \<Rightarrow> (two_level \<times> block_cache) option" where
  "tl_SeekToLast = seek_both ni_SeekToLast SkipEmptyDataBlocksBackward"

definition tl_Next :: "table \<Rightarrow> read_options \<Rightarrow> two_level \<Rightarrow> block_cache \<Rightarrow> (two_level \<times> block_cache) option" where
  "tl_Next t options it cache = Option.bind (move_data ni_Next it) (\<lambda>it. SkipEmptyDataBlocksForward t options it cache)"

definition tl_Prev :: "table \<Rightarrow> read_options \<Rightarrow> two_level \<Rightarrow> block_cache \<Rightarrow> (two_level \<times> block_cache) option" where
  "tl_Prev t options it cache = Option.bind (move_data ni_Prev it) (\<lambda>it. SkipEmptyDataBlocksBackward t options it cache)"

section \<open>An iterator over a block of known entries\<close>

definition over :: "comparator \<Rightarrow> (slice \<times> slice) list \<Rightarrow> new_iterator \<Rightarrow> bool" where
  "over cmp es it \<longleftrightarrow> (\<exists>b ts rix. it = Block_iterator b \<and> layout b ts rix \<and> entries_of ts = es \<and> it_status b = None \<and> it_comparator b = cmp)"

text \<open>At the entry \<open>x\<close>; not valid if there is none.\<close>

definition stands :: "comparator \<Rightarrow> (slice \<times> slice) list \<Rightarrow> new_iterator \<Rightarrow> nat \<Rightarrow> bool" where
  "stands cmp es it x \<longleftrightarrow>
     (\<exists>b ts rix. it = Block_iterator b \<and> layout b ts rix \<and> entries_of ts = es \<and> it_status b = None \<and> it_comparator b = cmp \<and>
        (if x < length ts then on_entry b ts x else \<not> bi_Valid b))"

lemma stands_over: "stands cmp es it x \<Longrightarrow> over cmp es it"
  by (auto simp: stands_def over_def)

lemma length_entries [simp]: "length (entries_of ts) = length ts"
  by (simp add: entries_of_def)

lemma stands_Valid:
  assumes "stands cmp es it x"
  shows "ni_Valid it \<longleftrightarrow> x < length es" and "x < length es \<Longrightarrow> (ni_key it, ni_value it) = es ! x" and "ni_status it = status_OK"
  using assms by (auto simp: stands_def on_entry_def entries_of_def status_OK_def split: if_splits)

lemma over_new:
  assumes "list_all (\<lambda>(k, v). length k < 2 ^ 32 \<and> length v < 2 ^ 32) es" and "length (build_block interval es) < 2 ^ 32"
  shows "over cmp es (block_NewIterator cmp (make_Block (build_block interval es)))"
  using built_layout [OF assms, of cmp] by (auto simp: over_def)

lemma stands_moved:
  assumes "layout b ts rix" and "entries_of ts = es" and "it_status b = None" and "it_comparator b = cmp" and "same_block b b'"
    and "if x < length ts then on_entry b' ts x else \<not> bi_Valid b'"
  shows "stands cmp es (Block_iterator b') x"
  using assms layout_same [OF assms(1,5)] by (auto simp: stands_def same_block_def)

lemma stands_Next: "stands cmp es it x \<Longrightarrow> x < length es \<Longrightarrow> \<exists>it'. ni_Next it = Some it' \<and> stands cmp es it' (Suc x)"
proof -
  assume "stands cmp es it x" "x < length es"
  then obtain b ts rix where b: "it = Block_iterator b" "layout b ts rix" "entries_of ts = es" "it_status b = None" "it_comparator b = cmp"
      "on_entry b ts x" by (auto simp: stands_def)
  obtain b' where "bi_Next b = Some b'" "same_block b b'" "if Suc x < length ts then on_entry b' ts (Suc x) else \<not> bi_Valid b'"
    using Next_on [OF b(2,6)] by blast
  then show ?thesis using b(1) stands_moved [OF b(2-5), of b' "Suc x"] by simp
qed

text \<open>Before the first entry an iterator is as it is after the last.\<close>

lemma stands_Prev:
  assumes "stands cmp es it x" and "x < length es"
  shows "\<exists>it'. ni_Prev it = Some it' \<and> stands cmp es it' (if x = 0 then length es else x - 1)"
proof -
  obtain b ts rix where b: "it = Block_iterator b" "layout b ts rix" "entries_of ts = es" "it_status b = None" "it_comparator b = cmp"
      "on_entry b ts x" using assms by (auto simp: stands_def)
  obtain b' where "bi_Prev b = Some b'" "same_block b b'" "if x = 0 then \<not> bi_Valid b' else on_entry b' ts (x - 1)"
    using Prev_on [OF b(2,6)] by blast
  then show ?thesis
    using b(1,3) assms(2) stands_moved [OF b(2-5), of b' "length es"] stands_moved [OF b(2-5), of b' "x - 1"]
    by (cases x) auto
qed

lemma over_SeekToFirst: "over cmp es it \<Longrightarrow> \<exists>it'. ni_SeekToFirst it = Some it' \<and> stands cmp es it' 0"
proof -
  assume "over cmp es it"
  then obtain b ts rix where b: "it = Block_iterator b" "layout b ts rix" "entries_of ts = es" "it_status b = None" "it_comparator b = cmp"
    by (auto simp: over_def)
  obtain b' where "bi_SeekToFirst b = Some b'" "same_block b b'" "if ts = [] then \<not> bi_Valid b' else on_entry b' ts 0"
    using SeekToFirst_on [OF b(2)] by blast
  then show ?thesis using b(1) stands_moved [OF b(2-5), of b' 0] by auto
qed

lemma over_SeekToLast: "over cmp es it \<Longrightarrow> es \<noteq> [] \<Longrightarrow> \<exists>it'. ni_SeekToLast it = Some it' \<and> stands cmp es it' (length es - 1)"
proof -
  assume "over cmp es it" "es \<noteq> []"
  then obtain b ts rix where b: "it = Block_iterator b" "layout b ts rix" "entries_of ts = es" "it_status b = None" "it_comparator b = cmp"
    "ts \<noteq> []" by (auto simp: over_def entries_of_def)
  obtain b' where "bi_SeekToLast b = Some b'" "same_block b b'" "on_entry b' ts (length ts - 1)"
    using SeekToLast_on [OF b(2,6)] by blast
  then show ?thesis using b(1,3,6) stands_moved [OF b(2-5), of b' "length ts - 1"] by auto
qed

lemma over_SeekToLast_empty: "over cmp [] it \<Longrightarrow> \<exists>it'. ni_SeekToLast it = Some it' \<and> stands cmp [] it' 0"
proof -
  assume "over cmp [] it"
  then obtain b ts rix where b: "it = Block_iterator b" "layout b ts rix" "entries_of ts = []" "it_status b = None" "it_comparator b = cmp"
    by (auto simp: over_def)
  then have ts: "ts = []" by (simp add: entries_of_def)
  have j: "it_num_restarts b - 1 < length rix" "rix ! (it_num_restarts b - 1) = 0" using b(2) ts by (auto simp: layout_def)
  note r = ready_restart [OF b(2) j(1), unfolded j(2)]
  obtain b' where p: "ParseNextKey (SeekToRestartPoint (it_num_restarts b - 1) b) = Some (False, b')"
      "same_block (SeekToRestartPoint (it_num_restarts b - 1) b) b'" "\<not> bi_Valid b'"
    using parse_end [OF layout_same [OF b(2)], of "SeekToRestartPoint (it_num_restarts b - 1) b"] r ts by auto
  then have "bi_SeekToLast b = Some b'" by (simp add: bi_SeekToLast_def parse_until.simps)
  moreover have "same_block b b'" using r p(2) same_block_trans by blast
  ultimately show ?thesis using b(1,3) ts p(3) stands_moved [OF b(2-5), of b' 0] by auto
qed

lemma over_Seek:
  assumes "over cmp es it"
    and "\<And>a b. a \<in> fst ` set es \<Longrightarrow> b \<in> fst ` set es \<Longrightarrow> Compare cmp a b < 0 \<Longrightarrow> Compare cmp b target < 0 \<Longrightarrow> Compare cmp a target < 0"
    and "sorted_wrt (\<lambda>a b. Compare cmp a b < 0) (map fst es)"
  shows "\<exists>it' m. ni_Seek target it = Some it' \<and> stands cmp es it' m \<and> m \<le> length es \<and>
    (\<forall>x < m. Compare cmp (fst (es ! x)) target < 0) \<and> (m < length es \<longrightarrow> \<not> Compare cmp (fst (es ! m)) target < 0)"
proof -
  obtain b ts rix where b: "it = Block_iterator b" "layout b ts rix" "entries_of ts = es" "it_status b = None" "it_comparator b = cmp"
    using assms(1) by (auto simp: over_def)
  obtain b' m where m: "bi_Seek target b = Some b'" "same_block b b'" "m \<le> length es"
    "\<forall>x < m. Compare cmp (fst (es ! x)) target < 0"
    "if m < length ts then on_entry b' ts m \<and> \<not> Compare cmp (fst (es ! m)) target < 0 else \<not> bi_Valid b'"
    using seek_on [OF b(2,3,5) _ assms(3), of target] assms(2) by blast
  have "length ts = length es" using b(3) by auto
  then show ?thesis
    using b(1) m stands_moved [OF b(2-5) m(2), of m] by (intro exI [of _ "Block_iterator b'"] exI [of _ m]) (auto split: if_splits)
qed

text \<open>A finished block tells its entries.\<close>

lemma block_entries_more: "block_entries n it = Some es \<Longrightarrow> n \<le> m \<Longrightarrow> block_entries m it = Some es"
proof (induction n arbitrary: m it es)
  case (Suc n)
  obtain m' where m: "m = Suc m'" "n \<le> m'" using Suc.prems(2) by (cases m) auto
  show ?case
  proof (cases "bi_Valid it")
    case True
    then obtain it' xs where x: "bi_Next it = Some it'" "block_entries n it' = Some xs" "es = (bi_key it, bi_value it) # xs"
      using Suc.prems(1) by (auto simp: bind_eq_Some_conv)
    then show ?thesis using True m Suc.IH [OF x(2) m(2)] by simp
  next
    case False
    then show ?thesis using Suc.prems(1) m by simp
  qed
qed simp

lemma build_block_inj:
  assumes "list_all (\<lambda>(k, v). length k < 2 ^ 32 \<and> length v < 2 ^ 32) es" "list_all (\<lambda>(k, v). length k < 2 ^ 32 \<and> length v < 2 ^ 32) es'"
    and "build_block iv es = build_block iv es'" and "length (build_block iv es) < 2 ^ 32"
  shows "es = es'"
proof -
  let ?it = "block_NewIterator BytewiseComparator (make_Block (build_block iv es))"
  have entries: "\<exists>b n. bi_SeekToFirst it = Some b \<and> block_entries n b = Some xs"
    if "over BytewiseComparator xs (Block_iterator it)" for xs it
  proof -
    obtain ts rix where t: "layout it ts rix" "entries_of ts = xs" using \<open>over _ xs _\<close> by (auto simp: over_def)
    obtain first where f: "bi_SeekToFirst it = Some first" "same_block it first" "if ts = [] then \<not> bi_Valid first else on_entry first ts 0"
      using SeekToFirst_on [OF t(1)] by blast
    have "block_entries (Suc (length ts - 0)) first = Some (drop 0 (entries_of ts))"
      by (rule entries_from [OF layout_same [OF t(1) f(2)]]) (use f(3) in auto)
    then show ?thesis using f(1) t(2) by (intro exI [of _ first] exI [of _ "Suc (length ts - 0)"]) simp
  qed
  have o: "over BytewiseComparator es ?it" "over BytewiseComparator es' ?it"
    using over_new [OF assms(1,4), of BytewiseComparator] over_new [OF assms(2), of iv BytewiseComparator] assms(3,4) by simp_all
  then obtain b where b: "?it = Block_iterator b" by (auto simp: over_def)
  obtain f n f' n' where e: "bi_SeekToFirst b = Some f" "block_entries n f = Some es" "bi_SeekToFirst b = Some f'" "block_entries n' f' = Some es'"
    using entries [of es b] entries [of es' b] o b by auto
  then show ?thesis using block_entries_more [OF e(2), of "max n n'"] block_entries_more [OF e(4), of "max n n'"] by simp
qed

lemma placed_unique:
  assumes "placed F h bs" "placed F h bs'" "length F < 2 ^ 32"
  shows "bs = bs'"
proof -
  have "bs = take (unat (bh_size h)) (drop (unat (bh_offset h)) F)" if p: "placed F h bs" for bs
  proof -
    obtain pre post where f: "F = pre @ bs @ block_trailer bs @ post" "bh_offset h = of_nat (length pre)" "bh_size h = of_nat (length bs)"
      using p by (auto simp: placed_def)
    have "unat (bh_offset h) = length pre" "unat (bh_size h) = length bs"
      unfolding f(2,3) using assms(3) f(1) by (intro unat_of_nat_u64; simp)+
    then show ?thesis by (subst f(1)) simp
  qed
  then show ?thesis using assms(1,2) by blast
qed

lemma bh_EncodeTo_inj: "bh_EncodeTo h [] = bh_EncodeTo h' [] \<Longrightarrow> h = h'"
  using bh_DecodeFrom_EncodeTo [of h "[]" make_BlockHandle] bh_DecodeFrom_EncodeTo [of h' "[]" make_BlockHandle] by simp

section \<open>Both levels on a table that was built\<close>

abbreviation index_of :: "table \<Rightarrow> (slice \<times> slice) list list \<Rightarrow> block_handle list \<Rightarrow> (slice \<times> slice) list" where
  "index_of t bss hs \<equiv> index_entries (index_keys (to_comparator (tab_options t)) bss) hs"

text \<open>What the moves rely on: the blocks and the index are in the file.\<close>

definition table_holds :: "table \<Rightarrow> bytes \<Rightarrow> int \<Rightarrow> (slice \<times> slice) list list \<Rightarrow> block_handle list \<Rightarrow> bool" where
  "table_holds t F iv bss hs \<longleftrightarrow>
     reads (tab_file t) F \<and> length F < 2 ^ 32 \<and> [] \<notin> set bss \<and>
     (\<forall>e \<in> set (concat bss). length (fst e) < 2 ^ 32 \<and> length (snd e) < 2 ^ 32) \<and>
     list_all2 (\<lambda>h b. placed F h (build_block iv b)) hs bss \<and>
     over (to_comparator (tab_options t)) (index_of t bss hs) (block_NewIterator (to_comparator (tab_options t)) (tab_index_block t))"

definition loose :: "table \<Rightarrow> (slice \<times> slice) list list \<Rightarrow> block_handle list \<Rightarrow> two_level \<Rightarrow> bool" where
  "loose t bss hs it \<longleftrightarrow>
     over (to_comparator (tab_options t)) (index_of t bss hs) (tl_index_iter it) \<and> tl_saved it = status_OK \<and>
     (tl_data_iter it = None \<or>
      (\<exists>d. \<exists>j < length bss. tl_data_iter it = Some (d, None) \<and> over (to_comparator (tab_options t)) (bss ! j) d \<and>
         tl_data_block_handle it = bh_EncodeTo (hs ! j) []))"

text \<open>The index is at the block \<open>j\<close>, the data iterator over it at the entry \<open>x\<close>; without a block there is no data iterator.\<close>

definition tl_stands :: "table \<Rightarrow> (slice \<times> slice) list list \<Rightarrow> block_handle list \<Rightarrow> two_level \<Rightarrow> nat \<Rightarrow> nat \<Rightarrow> bool" where
  "tl_stands t bss hs it j x \<longleftrightarrow>
     stands (to_comparator (tab_options t)) (index_of t bss hs) (tl_index_iter it) j \<and> tl_saved it = status_OK \<and>
     (if j < length bss
      then \<exists>d. tl_data_iter it = Some (d, None) \<and> stands (to_comparator (tab_options t)) (bss ! j) d x \<and>
        tl_data_block_handle it = bh_EncodeTo (hs ! j) []
      else tl_data_iter it = None)"

lemma over_status: "over cmp es it \<Longrightarrow> ni_status it = status_OK"
  by (auto simp: over_def status_OK_def)

lemma tl_stands_loose: "tl_stands t bss hs it j x \<Longrightarrow> loose t bss hs it"
  by (auto simp: tl_stands_def loose_def dest: stands_over split: if_splits)

lemma loose_new: "table_holds t F iv bss hs \<Longrightarrow> loose t bss hs (table_NewIterator t)"
  by (simp add: loose_def table_NewIterator_def table_holds_def)

lemma SetDataIterator_loose:
  "loose t bss hs it \<Longrightarrow> SetDataIterator new it None = Some (it\<lparr>tl_data_iter := new\<rparr>, None)"
  by (auto simp: loose_def SetDataIterator_def SaveError_def delete_iterator_def dest!: over_status)

lemma index_at:
  assumes "table_holds t F iv bss hs"
  shows "length (index_of t bss hs) = length bss" and "j < length bss \<Longrightarrow> snd (index_of t bss hs ! j) = bh_EncodeTo (hs ! j) []"
    and "length hs = length bss" and "j < length bss \<Longrightarrow> bss ! j \<noteq> []"
proof -
  have lh: "length hs = length bss" using assms by (auto simp: table_holds_def dest: list_all2_lengthD)
  have lK: "length (index_keys cmp bss) = length bss" for cmp
    by (cases bss rule: rev_cases) (simp_all add: index_keys_def length_separators)
  show "length (index_of t bss hs) = length bss" "length hs = length bss"
    "j < length bss \<Longrightarrow> snd (index_of t bss hs ! j) = bh_EncodeTo (hs ! j) []"
    using lh lK by (simp_all add: index_entries_def)
  show "j < length bss \<Longrightarrow> bss ! j \<noteq> []" using assms nth_mem unfolding table_holds_def by metis
qed

lemma block_over:
  assumes "table_holds t F iv bss hs" and "j < length bss"
  shows "placed F (hs ! j) (build_block iv (bss ! j))" and "list_all (\<lambda>(k, v). length k < 2 ^ 32 \<and> length v < 2 ^ 32) (bss ! j)"
    and "length (build_block iv (bss ! j)) < 2 ^ 32"
proof -
  show p: "placed F (hs ! j) (build_block iv (bss ! j))" using assms list_all2_nthD2 unfolding table_holds_def by metis
  have "e \<in> set (bss ! j) \<Longrightarrow> e \<in> set (concat bss)" for e using assms(2) by fastforce
  then show "list_all (\<lambda>(k, v). length k < 2 ^ 32 \<and> length v < 2 ^ 32) (bss ! j)"
    using assms(1) unfolding table_holds_def list_all_iff by fastforce
  show "length (build_block iv (bss ! j)) < 2 ^ 32" using placed_fits [OF p] assms(1) unfolding table_holds_def by linarith
qed

text \<open>The data iterator follows the index.\<close>

lemma InitDataBlock_on:
  assumes h: "table_holds t F iv bss hs" and l: "loose t bss hs it"
    and i: "stands (to_comparator (tab_options t)) (index_of t bss hs) (tl_index_iter it) j" and j: "j \<le> length bss"
  shows "\<exists>it'. InitDataBlock t ro it None = Some (it', None) \<and> tl_index_iter it' = tl_index_iter it \<and> tl_saved it' = status_OK \<and>
    (if j < length bss
     then \<exists>d. tl_data_iter it' = Some (d, None) \<and> over (to_comparator (tab_options t)) (bss ! j) d \<and>
       tl_data_block_handle it' = bh_EncodeTo (hs ! j) []
     else tl_data_iter it' = None)"
proof -
  let ?cmp = "to_comparator (tab_options t)"
  have saved: "tl_saved it = status_OK" using l by (simp add: loose_def)
  show ?thesis
  proof (cases "j < length bss")
    case False
    then have "\<not> ni_Valid (tl_index_iter it)" using stands_Valid(1) [OF i] index_at(1) [OF h] by simp
    then show ?thesis using False SetDataIterator_loose [OF l] saved by (simp add: InitDataBlock_def)
  next
    case True
    have v: "ni_Valid (tl_index_iter it)" "ni_value (tl_index_iter it) = bh_EncodeTo (hs ! j) []"
      using stands_Valid(1,2) [OF i] index_at(1,2) [OF h] True by (auto dest: arg_cong [of _ _ snd])
    note b = block_over [OF h True]
    show ?thesis
    proof (cases "tl_data_iter it \<noteq> None \<and> slice_compare (bh_EncodeTo (hs ! j) []) (tl_data_block_handle it) = 0")
      case same: True
      then obtain d j' where d: "tl_data_iter it = Some (d, None)" "over ?cmp (bss ! j') d" "j' < length bss"
          "tl_data_block_handle it = bh_EncodeTo (hs ! j') []" using l by (auto simp: loose_def)
      have "hs ! j = hs ! j'" using same d(4) bh_EncodeTo_inj by (simp add: slice_compare_value split: if_splits)
      then have "build_block iv (bss ! j) = build_block iv (bss ! j')"
        using placed_unique [OF b(1)] block_over(1) [OF h d(3)] h by (simp add: table_holds_def)
      then have "bss ! j = bss ! j'" using build_block_inj b(2,3) block_over(2) [OF h d(3)] by blast
      then show ?thesis using True same d v saved \<open>hs ! j = hs ! j'\<close> by (simp add: InitDataBlock_def)
    next
      case False
      let ?d = "block_NewIterator ?cmp (make_Block (build_block iv (bss ! j)))"
      have r: "BlockReader t ro (bh_EncodeTo (hs ! j) []) None = Some (?d, None, None)"
        using BlockReader_placed [OF _ _ b(1), of t] h by (simp add: table_holds_def)
      have "SetDataIterator (Some (?d, None)) (it\<lparr>tl_data_block_handle := bh_EncodeTo (hs ! j) []\<rparr>) None =
          Some (it\<lparr>tl_data_block_handle := bh_EncodeTo (hs ! j) [], tl_data_iter := Some (?d, None)\<rparr>, None)"
        using l by (auto simp: loose_def SetDataIterator_def SaveError_def delete_iterator_def dest!: over_status)
      moreover have "InitDataBlock t ro it None = Option.bind (BlockReader t ro (bh_EncodeTo (hs ! j) []) None)
          (\<lambda>(iter, h, cache). SetDataIterator (Some (iter, h)) (it\<lparr>tl_data_block_handle := bh_EncodeTo (hs ! j) []\<rparr>) cache)"
        by (simp only: InitDataBlock_def Let_def v False if_False not_True_eq_False)
      ultimately show ?thesis using True r saved over_new [OF b(2,3), of ?cmp] by simp
    qed
  qed
qed

lemma tl_Valid_stands:
  assumes "table_holds t F iv bss hs" and "tl_stands t bss hs it j x"
  shows "tl_Valid it \<longleftrightarrow> j < length bss \<and> x < length (bss ! j)"
    and "j < length bss \<Longrightarrow> x < length (bss ! j) \<Longrightarrow> (tl_key it, tl_value it) = bss ! j ! x"
    and "tl_status it = status_OK"
  using assms(2) stands_Valid
  by (auto simp: tl_stands_def tl_Valid_def tl_key_def tl_value_def tl_status_def split: if_splits)

lemma skip_done:
  assumes h: "table_holds t F iv bss hs" and s: "tl_stands t bss hs it j x" and x: "j < length bss \<Longrightarrow> x < length (bss ! j)"
    and j: "j \<le> length bss"
  shows "skip_empty step enter t ro it None = Some (it, None)"
proof (cases "j < length bss")
  case True
  then show ?thesis using tl_Valid_stands(1) [OF h s] x by (simp add: skip_empty.simps)
next
  case False
  then have d: "tl_data_iter it = None" and "\<not> tl_Valid it" using s tl_Valid_stands(1) [OF h s] by (simp_all add: tl_stands_def)
  moreover have "stands (to_comparator (tab_options t)) (index_of t bss hs) (tl_index_iter it) j" using s by (simp add: tl_stands_def)
  then have "\<not> ni_Valid (tl_index_iter it)" using stands_Valid(1) index_at(1) [OF h] False by auto
  moreover have "it\<lparr>tl_data_iter := None\<rparr> = it" using d by (cases it) simp
  ultimately show ?thesis using SetDataIterator_loose [OF tl_stands_loose [OF s]] by (simp add: skip_empty.simps)
qed

text \<open>One round of the loop, after which the iterator is at an entry or at the end.\<close>

lemma skip_step:
  assumes h: "table_holds t F iv bss hs" and s: "tl_stands t bss hs it j x" and j: "j \<le> length bss" "j' \<le> length bss"
    and step: "j < length bss \<Longrightarrow> \<exists>i. step (tl_index_iter it) = Some i \<and>
      stands (to_comparator (tab_options t)) (index_of t bss hs) i j'"
    and enter: "\<And>d. j' < length bss \<Longrightarrow> over (to_comparator (tab_options t)) (bss ! j') d \<Longrightarrow>
      \<exists>d'. enter d = Some d' \<and> stands (to_comparator (tab_options t)) (bss ! j') d' x'"
    and x': "j' < length bss \<Longrightarrow> x' < length (bss ! j')"
  shows "\<exists>it'. skip_empty step enter t ro it None = Some (it', None) \<and>
    (if j < length bss \<and> length (bss ! j) \<le> x then tl_stands t bss hs it' j' x' else tl_stands t bss hs it' j x)"
proof (cases "j < length bss \<and> length (bss ! j) \<le> x")
  case False
  then have "j < length bss \<Longrightarrow> x < length (bss ! j)" by auto
  then show ?thesis using skip_done [OF h s _ j(1)] s False by auto
next
  case True
  let ?cmp = "to_comparator (tab_options t)"
  obtain i where i: "step (tl_index_iter it) = Some i" "stands ?cmp (index_of t bss hs) i j'" using step True by blast
  let ?it1 = "it\<lparr>tl_index_iter := i\<rparr>"
  have nv: "\<not> tl_Valid it" using tl_Valid_stands(1) [OF h s] True by simp
  have "stands ?cmp (index_of t bss hs) (tl_index_iter it) j" using s by (simp add: tl_stands_def)
  then have v: "ni_Valid (tl_index_iter it)" using stands_Valid(1) index_at(1) [OF h] True by auto
  have l: "loose t bss hs ?it1" using tl_stands_loose [OF s] stands_over [OF i(2)] by (simp add: loose_def)
  obtain it2 where it2: "InitDataBlock t ro ?it1 None = Some (it2, None)" "tl_index_iter it2 = i" "tl_saved it2 = status_OK"
    "if j' < length bss then \<exists>d. tl_data_iter it2 = Some (d, None) \<and> over ?cmp (bss ! j') d \<and>
       tl_data_block_handle it2 = bh_EncodeTo (hs ! j') [] else tl_data_iter it2 = None"
    using InitDataBlock_on [OF h l _ j(2), of ro] i(2) by auto
  have "\<exists>it3. move_data enter it2 = Some it3 \<and> tl_stands t bss hs it3 j' x'"
  proof (cases "j' < length bss")
    case True
    then obtain d where d: "tl_data_iter it2 = Some (d, None)" "over ?cmp (bss ! j') d" "tl_data_block_handle it2 = bh_EncodeTo (hs ! j') []"
      using it2(4) by auto
    obtain d' where "enter d = Some d'" "stands ?cmp (bss ! j') d' x'" using enter [OF True d(2)] by blast
    then show ?thesis using True d it2 i(2) by (simp add: move_data_def tl_stands_def)
  next
    case False
    then show ?thesis using it2 i(2) by (simp add: move_data_def tl_stands_def)
  qed
  then obtain it3 where it3: "move_data enter it2 = Some it3" "tl_stands t bss hs it3 j' x'" by blast
  have "skip_empty step enter t ro it None = skip_empty step enter t ro it3 None"
    using nv v i(1) it2(1) it3(1) by (subst skip_empty.simps) (simp add: move_index_def)
  then show ?thesis using skip_done [OF h it3(2) x' j(2)] True it3(2) by simp
qed

lemma seek_both_on:
  assumes h: "table_holds t F iv bss hs" and l: "loose t bss hs it" and j: "j \<le> length bss"
    and index: "\<exists>i. move (tl_index_iter it) = Some i \<and> stands (to_comparator (tab_options t)) (index_of t bss hs) i j"
    and data: "\<And>d. j < length bss \<Longrightarrow> over (to_comparator (tab_options t)) (bss ! j) d \<Longrightarrow>
      \<exists>d'. move d = Some d' \<and> stands (to_comparator (tab_options t)) (bss ! j) d' x"
    and skip: "\<And>it'. tl_stands t bss hs it' j x \<Longrightarrow> \<exists>it''. skip t ro it' None = Some (it'', None) \<and> P it''"
  shows "\<exists>it'. seek_both move skip t ro it None = Some (it', None) \<and> P it'"
proof -
  let ?cmp = "to_comparator (tab_options t)"
  obtain i where i: "move (tl_index_iter it) = Some i" "stands ?cmp (index_of t bss hs) i j" using index by blast
  have l1: "loose t bss hs (it\<lparr>tl_index_iter := i\<rparr>)" using l stands_over [OF i(2)] by (simp add: loose_def)
  obtain it2 where it2: "InitDataBlock t ro (it\<lparr>tl_index_iter := i\<rparr>) None = Some (it2, None)" "tl_index_iter it2 = i" "tl_saved it2 = status_OK"
    "if j < length bss then \<exists>d. tl_data_iter it2 = Some (d, None) \<and> over ?cmp (bss ! j) d \<and>
       tl_data_block_handle it2 = bh_EncodeTo (hs ! j) [] else tl_data_iter it2 = None"
    using InitDataBlock_on [OF h l1 _ j, of ro] i(2) by auto
  have "\<exists>it3. move_data move it2 = Some it3 \<and> tl_stands t bss hs it3 j x"
  proof (cases "j < length bss")
    case True
    then obtain d where d: "tl_data_iter it2 = Some (d, None)" "over ?cmp (bss ! j) d" "tl_data_block_handle it2 = bh_EncodeTo (hs ! j) []"
      using it2(4) by auto
    obtain d' where "move d = Some d'" "stands ?cmp (bss ! j) d' x" using data [OF True d(2)] by blast
    then show ?thesis using True d it2 i(2) by (simp add: move_data_def tl_stands_def)
  next
    case False
    then show ?thesis using it2 i(2) by (simp add: move_data_def tl_stands_def)
  qed
  then obtain it3 where "move_data move it2 = Some it3" "tl_stands t bss hs it3 j x" by blast
  then show ?thesis using skip [of it3] i(1) it2(1) by (simp add: seek_both_def move_index_def)
qed

text \<open>The positions forward and backward, each written as the entries from it on.\<close>

definition ahead :: "(slice \<times> slice) list list \<Rightarrow> nat \<Rightarrow> nat \<Rightarrow> (slice \<times> slice) list" where
  "ahead bss j x = (if j < length bss then drop x (bss ! j) @ concat (drop (Suc j) bss) else [])"

definition behind :: "(slice \<times> slice) list list \<Rightarrow> nat \<Rightarrow> nat \<Rightarrow> (slice \<times> slice) list" where
  "behind bss j x = (if j < length bss then rev (concat (take j bss) @ take (Suc x) (bss ! j)) else [])"

definition reaches :: "table \<Rightarrow> (slice \<times> slice) list list \<Rightarrow> block_handle list \<Rightarrow>
    ((slice \<times> slice) list list \<Rightarrow> nat \<Rightarrow> nat \<Rightarrow> (slice \<times> slice) list) \<Rightarrow> two_level \<Rightarrow> (slice \<times> slice) list \<Rightarrow> bool" where
  "reaches t bss hs view it es \<longleftrightarrow>
     (\<exists>j x. tl_stands t bss hs it j x \<and> j \<le> length bss \<and> (j < length bss \<longrightarrow> x < length (bss ! j)) \<and> view bss j x = es)"

lemma ahead_next: "j < length bss \<Longrightarrow> x < length (bss ! j) \<Longrightarrow> ahead bss j x = bss ! j ! x # ahead bss j (Suc x)"
  by (simp add: ahead_def Cons_nth_drop_Suc)

lemma ahead_block: "j < length bss \<Longrightarrow> length (bss ! j) \<le> x \<Longrightarrow> ahead bss j x = ahead bss (Suc j) 0"
  by (auto simp: ahead_def Cons_nth_drop_Suc [symmetric] drop_all)

lemma forward_from:
  assumes h: "table_holds t F iv bss hs" and s: "tl_stands t bss hs it j x" and j: "j \<le> length bss"
  shows "\<exists>it'. SkipEmptyDataBlocksForward t ro it None = Some (it', None) \<and> reaches t bss hs ahead it' (ahead bss j x)"
proof -
  let ?cmp = "to_comparator (tab_options t)"
  have i: "stands ?cmp (index_of t bss hs) (tl_index_iter it) j" using s by (simp add: tl_stands_def)
  let ?j = "if j < length bss then Suc j else j"
  obtain it' where it': "skip_empty ni_Next ni_SeekToFirst t ro it None = Some (it', None)"
    "if j < length bss \<and> length (bss ! j) \<le> x then tl_stands t bss hs it' ?j 0 else tl_stands t bss hs it' j x"
  proof (rule exE [OF skip_step [OF h s j, of ?j ni_Next ni_SeekToFirst 0 ro]])
    show "j < length bss \<Longrightarrow> \<exists>i. ni_Next (tl_index_iter it) = Some i \<and> stands ?cmp (index_of t bss hs) i ?j"
      using stands_Next [OF i] index_at(1) [OF h] by simp
    show "?j < length bss \<Longrightarrow> 0 < length (bss ! ?j)" using index_at(4) [OF h, of ?j] by simp
  qed (use j over_SeekToFirst in auto)
  show ?thesis
  proof (cases "j < length bss \<and> length (bss ! j) \<le> x")
    case True
    then have "tl_stands t bss hs it' (Suc j) 0" using it'(2) by simp
    then have "reaches t bss hs ahead it' (ahead bss (Suc j) 0)"
      unfolding reaches_def using True index_at(4) [OF h, of "Suc j"]
      by (intro exI [of _ "Suc j"] exI [of _ "0 :: nat"]) auto
    then show ?thesis using it'(1) True ahead_block [of j bss x] by (simp add: SkipEmptyDataBlocksForward_def)
  next
    case False
    then have "reaches t bss hs ahead it' (ahead bss j x)"
      unfolding reaches_def using it'(2) j by (intro exI [of _ j] exI [of _ x]) auto
    then show ?thesis using it'(1) by (simp add: SkipEmptyDataBlocksForward_def)
  qed
qed

lemma behind_prev: "j < length bss \<Longrightarrow> x < length (bss ! j) \<Longrightarrow>
  behind bss j x = bss ! j ! x # (if x = 0 then (if j = 0 then [] else behind bss (j - 1) (length (bss ! (j - 1)) - 1)) else behind bss j (x - 1))"
proof -
  assume j: "j < length bss" and x: "x < length (bss ! j)"
  show ?thesis
  proof (cases x)
    case Suc
    then show ?thesis using j x by (simp add: behind_def take_Suc_conv_app_nth)
  next
    case 0
    then show ?thesis
    proof (cases j)
      case 0
      then show ?thesis using \<open>x = 0\<close> j x by (simp add: behind_def take_Suc_conv_app_nth)
    next
      case (Suc i)
      have "take (Suc (length (bss ! i) - 1)) (bss ! i) = bss ! i" by simp
      moreover have "concat (take (Suc i) bss) = concat (take i bss) @ bss ! i" using Suc j by (simp add: take_Suc_conv_app_nth)
      ultimately show ?thesis using Suc \<open>x = 0\<close> j x by (simp add: behind_def take_Suc_conv_app_nth [of 0])
    qed
  qed
qed

lemma behind_all: "bss \<noteq> [] \<Longrightarrow> behind bss (length bss - 1) (length (last bss) - 1) = rev (concat bss)"
proof -
  assume "bss \<noteq> []"
  then have e: "bss = butlast bss @ [last bss]" by simp
  have "bss ! (length bss - 1) = last bss" "take (length bss - 1) bss = butlast bss"
    using \<open>bss \<noteq> []\<close> by (simp_all add: last_conv_nth butlast_conv_take)
  moreover from e have "concat bss = concat (butlast bss) @ last bss" by (metis concat_append concat.simps append_Nil2)
  ultimately show ?thesis using \<open>bss \<noteq> []\<close> by (simp add: behind_def)
qed

text \<open>Backward from the entry \<open>x\<close>, or from before the first entry of the block.\<close>

lemma backward_from:
  assumes h: "table_holds t F iv bss hs" and s: "tl_stands t bss hs it j x" and j: "j \<le> length bss"
  shows "\<exists>it'. SkipEmptyDataBlocksBackward t ro it None = Some (it', None) \<and> reaches t bss hs behind it'
    (if j < length bss \<and> length (bss ! j) \<le> x then (if j = 0 then [] else behind bss (j - 1) (length (bss ! (j - 1)) - 1)) else behind bss j x)"
proof -
  let ?cmp = "to_comparator (tab_options t)"
  have i: "stands ?cmp (index_of t bss hs) (tl_index_iter it) j" using s by (simp add: tl_stands_def)
  let ?j = "if j = 0 then length bss else j - 1"
  let ?x = "length (bss ! ?j) - 1"
  obtain it' where it': "skip_empty ni_Prev ni_SeekToLast t ro it None = Some (it', None)"
    "if j < length bss \<and> length (bss ! j) \<le> x then tl_stands t bss hs it' ?j ?x else tl_stands t bss hs it' j x"
  proof (rule exE [OF skip_step [OF h s j, of ?j ni_Prev ni_SeekToLast ?x ro]])
    show "j < length bss \<Longrightarrow> \<exists>i. ni_Prev (tl_index_iter it) = Some i \<and> stands ?cmp (index_of t bss hs) i ?j"
      using stands_Prev [OF i] index_at(1) [OF h] by (cases "j = 0") simp_all
    show "?j < length bss \<Longrightarrow> ?x < length (bss ! ?j)" using index_at(4) [OF h, of ?j] by simp
    show "?j < length bss \<Longrightarrow> over ?cmp (bss ! ?j) d \<Longrightarrow> \<exists>d'. ni_SeekToLast d = Some d' \<and> stands ?cmp (bss ! ?j) d' ?x" for d
      using over_SeekToLast index_at(4) [OF h, of ?j] by blast
  qed (use j in auto)
  show ?thesis
  proof (cases "j < length bss \<and> length (bss ! j) \<le> x")
    case True
    then have st: "tl_stands t bss hs it' ?j ?x" using it'(2) by simp
    show ?thesis
    proof (cases "j = 0")
      case z: True
      then have "reaches t bss hs behind it' []"
        unfolding reaches_def using st by (intro exI [of _ "length bss"] exI [of _ ?x]) (simp add: behind_def)
      then show ?thesis using it'(1) True z by (simp add: SkipEmptyDataBlocksBackward_def)
    next
      case nz: False
      then have "reaches t bss hs behind it' (behind bss (j - 1) (length (bss ! (j - 1)) - 1))"
        unfolding reaches_def using st True index_at(4) [OF h, of "j - 1"]
        by (intro exI [of _ "j - 1"] exI [of _ "length (bss ! (j - 1)) - 1"]) auto
      then show ?thesis using it'(1) True nz by (simp add: SkipEmptyDataBlocksBackward_def)
    qed
  next
    case False
    then have "reaches t bss hs behind it' (behind bss j x)"
      unfolding reaches_def using it'(2) j by (intro exI [of _ j] exI [of _ x]) auto
    then show ?thesis using it'(1) False by (auto simp: SkipEmptyDataBlocksBackward_def)
  qed
qed

text \<open>The moves.\<close>

lemma reaches_Valid:
  assumes h: "table_holds t F iv bss hs" and r: "reaches t bss hs ahead it es \<or> reaches t bss hs behind it es"
  shows "tl_Valid it \<longleftrightarrow> es \<noteq> []" and "tl_status it = status_OK" and "es \<noteq> [] \<Longrightarrow> (tl_key it, tl_value it) = hd es"
proof -
  obtain j x where p: "tl_stands t bss hs it j x" "j < length bss \<Longrightarrow> x < length (bss ! j)" "es = ahead bss j x \<or> es = behind bss j x"
    using r by (auto simp: reaches_def)
  note v = tl_Valid_stands [OF h p(1)]
  have e: "if j < length bss then es \<noteq> [] \<and> hd es = bss ! j ! x else es = []"
    using p(2,3) ahead_next [of j bss x] behind_prev [of j bss x] by (auto simp: ahead_def behind_def)
  show "tl_Valid it \<longleftrightarrow> es \<noteq> []" "tl_status it = status_OK" "es \<noteq> [] \<Longrightarrow> (tl_key it, tl_value it) = hd es"
    using v e p(2) by (auto split: if_splits)
qed

lemma Next_reaches:
  assumes h: "table_holds t F iv bss hs" and r: "reaches t bss hs ahead it (e # es)"
  shows "\<exists>it'. tl_Next t ro it None = Some (it', None) \<and> reaches t bss hs ahead it' es"
proof -
  obtain j x where p: "tl_stands t bss hs it j x" "j \<le> length bss" "j < length bss \<Longrightarrow> x < length (bss ! j)" "ahead bss j x = e # es"
    using r by (auto simp: reaches_def)
  have j: "j < length bss" using p(4) by (auto simp: ahead_def split: if_splits)
  obtain d where d: "tl_data_iter it = Some (d, None)" "stands (to_comparator (tab_options t)) (bss ! j) d x"
    using p(1) j by (auto simp: tl_stands_def)
  obtain d' where d': "ni_Next d = Some d'" "stands (to_comparator (tab_options t)) (bss ! j) d' (Suc x)"
    using stands_Next [OF d(2) p(3) [OF j]] by blast
  have "tl_stands t bss hs (it\<lparr>tl_data_iter := Some (d', None)\<rparr>) j (Suc x)" using p(1) j d' by (auto simp: tl_stands_def)
  then show ?thesis
    using forward_from [OF h _ p(2), of "it\<lparr>tl_data_iter := Some (d', None)\<rparr>" "Suc x" ro] d d' ahead_next [OF j p(3) [OF j]] p(4)
    by (simp add: tl_Next_def move_data_def)
qed

lemma Prev_reaches:
  assumes h: "table_holds t F iv bss hs" and r: "reaches t bss hs behind it (e # es)"
  shows "\<exists>it'. tl_Prev t ro it None = Some (it', None) \<and> reaches t bss hs behind it' es"
proof -
  obtain j x where p: "tl_stands t bss hs it j x" "j \<le> length bss" "j < length bss \<Longrightarrow> x < length (bss ! j)" "behind bss j x = e # es"
    using r by (auto simp: reaches_def)
  have j: "j < length bss" using p(4) by (auto simp: behind_def split: if_splits)
  obtain d where d: "tl_data_iter it = Some (d, None)" "stands (to_comparator (tab_options t)) (bss ! j) d x"
    using p(1) j by (auto simp: tl_stands_def)
  let ?x = "if x = 0 then length (bss ! j) else x - 1"
  obtain d' where d': "ni_Prev d = Some d'" "stands (to_comparator (tab_options t)) (bss ! j) d' ?x"
    using stands_Prev [OF d(2) p(3) [OF j]] by blast
  have s: "tl_stands t bss hs (it\<lparr>tl_data_iter := Some (d', None)\<rparr>) j ?x" using p(1) j d' by (auto simp: tl_stands_def)
  have "es = (if x = 0 then (if j = 0 then [] else behind bss (j - 1) (length (bss ! (j - 1)) - 1)) else behind bss j (x - 1))"
    using behind_prev [OF j p(3) [OF j]] p(4) by simp
  moreover have "length (bss ! j) \<le> ?x \<longleftrightarrow> x = 0" using p(3) [OF j] by auto
  ultimately have "\<exists>it'. SkipEmptyDataBlocksBackward t ro (it\<lparr>tl_data_iter := Some (d', None)\<rparr>) None = Some (it', None) \<and> reaches t bss hs behind it' es"
    using backward_from [OF h s p(2), of ro] j by (cases "x = 0") simp_all
  then show ?thesis using d(1) d'(1) by (simp add: tl_Prev_def move_data_def)
qed

text \<open>The entries from the place a search leads to.\<close>

lemma dropWhile_split: "(\<And>a. a \<in> set as \<Longrightarrow> P a) \<Longrightarrow> (bs \<noteq> [] \<Longrightarrow> \<not> P (hd bs)) \<Longrightarrow> dropWhile P (as @ bs) = bs"
  by (cases bs) (auto simp: dropWhile_append)

context table_order
begin

lemma ahead_search:
  assumes s: "sorted_wrt (before cmp) (concat bss)" and ne: "[] \<notin> set bss" and keys: "\<forall>e \<in> set (concat bss). key (fst e)"
    and k: "key k" and m: "m \<le> length bss" and earlier: "\<And>j. j < m \<Longrightarrow> Compare cmp (index_keys cmp bss ! j) k < 0"
    and here: "m < length bss \<Longrightarrow> \<not> Compare cmp (index_keys cmp bss ! m) k < 0"
    and x: "m < length bss \<Longrightarrow> \<forall>y < x. Compare cmp (fst (bss ! m ! y)) k < 0" "m < length bss \<Longrightarrow> x \<le> length (bss ! m)"
      "m < length bss \<Longrightarrow> x < length (bss ! m) \<Longrightarrow> \<not> Compare cmp (fst (bss ! m ! x)) k < 0"
  shows "ahead bss m x = dropWhile (\<lambda>e. Compare cmp (fst e) k < 0) (concat bss)"
proof (cases "m < length bss")
  case False
  then have "m = length bss" using m by simp
  then have "first_at cmp k (concat bss) = None" using first_at_beyond [OF s ne keys k] earlier by blast
  then have "dropWhile (\<lambda>e. Compare cmp (fst e) k < 0) (concat bss) = []"
    unfolding first_at_None dropWhile_eq_Nil_conv .
  moreover have "ahead bss m x = []" using False by (simp add: ahead_def)
  ultimately show ?thesis by (simp only:)
next
  case True
  have kk: "key (fst e)" if "e \<in> set (bss ! j)" "j < length bss" for e j using that keys by fastforce
  have nb: "bss ! j \<noteq> []" if "j < length bss" for j using ne that by (metis nth_mem)
  let ?A = "concat (take m bss) @ take x (bss ! m)" and ?B = "drop x (bss ! m) @ concat (drop (Suc m) bss)"
  have split: "concat bss = ?A @ ?B" using concat_nth [OF True] by simp
  have "Compare cmp (fst e) k < 0" if e: "e \<in> set ?A" for e
  proof (cases "e \<in> set (take x (bss ! m))")
    case in_m: True
    then obtain y where "y < x" "e = bss ! m ! y" by (auto simp: in_set_conv_nth)
    then show ?thesis using x(1) [OF True] by simp
  next
    case False
    then have "e \<in> set (concat (take m bss))" using e by simp
    then obtain b where "b \<in> set (take m bss)" "e \<in> set b" unfolding set_concat by blast
    then obtain j where j: "j < m" "e \<in> set (bss ! j)" by (auto simp: in_set_conv_nth [of b])
    then have jl: "j < length bss" using True by simp
    have "Compare cmp (fst e) (index_keys cmp bss ! j) \<le> 0" "key (index_keys cmp bss ! j)"
      using index_bounds(1,2) [OF s ne keys jl] j(2) by blast+
    then show ?thesis using earlier [OF j(1)] le_less kk [OF j(2) jl] k by blast
  qed
  moreover have "\<not> Compare cmp (fst (hd ?B)) k < 0" if "?B \<noteq> []"
  proof (cases "x < length (bss ! m)")
    case x1: True
    then show ?thesis using x(3) [OF True] by (simp add: hd_append hd_drop_conv_nth)
  next
    case False
    then have B: "?B = concat (drop (Suc m) bss)" by simp
    then have m1: "Suc m < length bss" using that by (cases "Suc m < length bss") auto
    then have hd: "hd ?B = hd (bss ! Suc m)" unfolding B using nb [OF m1] by (simp add: Cons_nth_drop_Suc [symmetric] hd_append)
    note ib = index_bounds(3) [OF s ne keys True m1]
    have "Compare cmp (index_keys cmp bss ! m) (first_of (bss ! Suc m)) < 0" using ib separator by simp
    moreover have "Compare cmp k (index_keys cmp bss ! m) \<le> 0"
      using here [OF True] greater [OF k index_bounds(1) [OF s ne keys True]] by force
    ultimately have "Compare cmp k (first_of (bss ! Suc m)) < 0"
      using le_less [OF k index_bounds(1) [OF s ne keys True], of "first_of (bss ! Suc m)"] ib by blast
    then show ?thesis unfolding hd using less_trans [of k "first_of (bss ! Suc m)" k] refl [OF k] k ib by (auto simp: first_of_def)
  qed
  ultimately show ?thesis unfolding split using dropWhile_split [of ?A "\<lambda>e. Compare cmp (fst e) k < 0" ?B] True by (simp add: ahead_def)
qed

end

section \<open>The seeks and the whole way\<close>

lemma SeekToFirst_reaches:
  assumes h: "table_holds t F iv bss hs" and l: "loose t bss hs it"
  shows "\<exists>it'. tl_SeekToFirst t ro it None = Some (it', None) \<and> reaches t bss hs ahead it' (concat bss)"
proof -
  have a: "ahead bss 0 0 = concat bss" by (cases bss) (simp_all add: ahead_def)
  show ?thesis
    unfolding tl_SeekToFirst_def
  proof (rule seek_both_on [OF h l, of 0])
    show "\<exists>i. ni_SeekToFirst (tl_index_iter it) = Some i \<and> stands (to_comparator (tab_options t)) (index_of t bss hs) i 0"
      using l over_SeekToFirst by (simp add: loose_def)
  qed (use over_SeekToFirst forward_from [OF h, of _ 0 0 ro] a in auto)
qed

lemma SeekToLast_reaches:
  assumes h: "table_holds t F iv bss hs" and l: "loose t bss hs it"
  shows "\<exists>it'. tl_SeekToLast t ro it None = Some (it', None) \<and> reaches t bss hs behind it' (rev (concat bss))"
proof -
  let ?n = "length bss - 1"
  have o: "over (to_comparator (tab_options t)) (index_of t bss hs) (tl_index_iter it)" using l by (simp add: loose_def)
  have e: "behind bss ?n (length (bss ! ?n) - 1) = rev (concat bss)"
    using behind_all [of bss] by (cases "bss = []") (simp_all add: last_conv_nth, simp add: behind_def)
  show ?thesis
    unfolding tl_SeekToLast_def
  proof (rule seek_both_on [OF h l, of ?n])
    show "\<exists>i. ni_SeekToLast (tl_index_iter it) = Some i \<and> stands (to_comparator (tab_options t)) (index_of t bss hs) i ?n"
    proof (cases "bss = []")
      case True
      then have "index_of t bss hs = []" using index_at(1) [OF h] by simp
      then show ?thesis using over_SeekToLast_empty o True by simp
    next
      case False
      then have "index_of t bss hs \<noteq> []" using index_at(1) [OF h] by fastforce
      then show ?thesis using over_SeekToLast [OF o] index_at(1) [OF h] by simp
    qed
    show "?n < length bss \<Longrightarrow> over (to_comparator (tab_options t)) (bss ! ?n) d \<Longrightarrow>
        \<exists>d'. ni_SeekToLast d = Some d' \<and> stands (to_comparator (tab_options t)) (bss ! ?n) d' (length (bss ! ?n) - 1)" for d
      using over_SeekToLast index_at(4) [OF h] by blast
    show "\<exists>it''. SkipEmptyDataBlocksBackward t ro it' None = Some (it'', None) \<and> reaches t bss hs behind it'' (rev (concat bss))"
      if s: "tl_stands t bss hs it' ?n (length (bss ! ?n) - 1)" for it'
    proof -
      have neg: "\<not> (?n < length bss \<and> length (bss ! ?n) \<le> length (bss ! ?n) - 1)"
        using index_at(4) [OF h, of ?n] by (cases "bss ! ?n") auto
      have "?n \<le> length bss" by simp
      then show ?thesis using backward_from [OF h s, of ro] unfolding if_not_P [OF neg] e by blast
    qed
  qed simp
qed

context table_order
begin

lemma Seek_reaches:
  assumes h: "table_holds t F iv bss hs" and l: "loose t bss hs it" and t: "to_comparator (tab_options t) = cmp"
    and s: "sorted_wrt (before cmp) (concat bss)" and keys: "\<forall>e \<in> set (concat bss). key (fst e)" and k: "key k"
  shows "\<exists>it'. tl_Seek k t ro it None = Some (it', None) \<and>
    reaches t bss hs ahead it' (dropWhile (\<lambda>e. Compare cmp (fst e) k < 0) (concat bss))"
proof -
  have ne: "[] \<notin> set bss" using h by (simp add: table_holds_def)
  let ?E = "index_of t bss hs"
  have lK: "length (index_keys cmp bss) = length bss" by (cases bss rule: rev_cases) (simp_all add: index_keys_def length_separators)
  have mK: "map fst ?E = index_keys cmp bss" using lK index_at(3) [OF h] by (simp add: index_entries_def t)
  have Ek: "fst (?E ! j) = index_keys cmp bss ! j" if "j < length bss" for j
    using nth_map [of j ?E fst] that index_at(1) [OF h] unfolding mK by simp
  have kK: "key a" if "a \<in> fst ` set ?E" for a
    using that index_bounds(1) [OF s ne keys] lK unfolding list.set_map [symmetric] mK by (auto simp: in_set_conv_nth)
  have o: "over cmp ?E (tl_index_iter it)" using l t by (simp add: loose_def)
  obtain i m where i: "ni_Seek k (tl_index_iter it) = Some i" "stands cmp ?E i m" "m \<le> length ?E"
      "\<forall>x < m. Compare cmp (fst (?E ! x)) k < 0" "m < length ?E \<Longrightarrow> \<not> Compare cmp (fst (?E ! m)) k < 0"
    using over_Seek [OF o, of k] less_trans [OF kK kK k] index_sorted [OF s ne keys] mK by auto
  have m: "m \<le> length bss" using i(3) index_at(1) [OF h] by simp
  define x where "x = (if m < length bss then length (takeWhile (\<lambda>e. Compare cmp (fst e) k < 0) (bss ! m)) else 0)"
  have data: "\<exists>d'. ni_Seek k d = Some d' \<and> stands cmp (bss ! m) d' x" if mb: "m < length bss" and d: "over cmp (bss ! m) d" for d
  proof -
    have bk: "key a" if "a \<in> fst ` set (bss ! m)" for a using that keys mb by fastforce
    have bs: "sorted_wrt (\<lambda>a b. Compare cmp a b < 0) (map fst (bss ! m))"
      using sorted_concat_block [OF s mb] by (simp add: sorted_wrt_map before_def [abs_def])
    obtain d' y where y: "ni_Seek k d = Some d'" "stands cmp (bss ! m) d' y" "y \<le> length (bss ! m)"
        "\<forall>z < y. Compare cmp (fst (bss ! m ! z)) k < 0" "y < length (bss ! m) \<Longrightarrow> \<not> Compare cmp (fst (bss ! m ! y)) k < 0"
      using over_Seek [OF d, of k] less_trans [OF bk bk k] bs by auto
    have "takeWhile (\<lambda>e. Compare cmp (fst e) k < 0) (bss ! m) = take y (bss ! m)"
      by (rule takeWhile_eq_take_P_nth) (use y in auto)
    then have "x = y" using mb y(3) by (simp add: x_def)
    then show ?thesis using y by blast
  qed
  have xs: "\<forall>y < x. Compare cmp (fst (bss ! m ! y)) k < 0" "x \<le> length (bss ! m)"
    "x < length (bss ! m) \<Longrightarrow> \<not> Compare cmp (fst (bss ! m ! x)) k < 0" if "m < length bss"
  proof -
    let ?P = "\<lambda>e. Compare cmp (fst e) k < 0" and ?B = "bss ! m"
    have "?P (?B ! y)" if "y < length (takeWhile ?P ?B)" for y
      using that takeWhile_nth [OF that] nth_mem [OF that] set_takeWhileD [of _ ?P ?B] by metis
    then show "\<forall>y < x. Compare cmp (fst (bss ! m ! y)) k < 0" using that by (simp add: x_def)
    show "x \<le> length (bss ! m)" using that length_takeWhile_le [of ?P ?B] by (simp add: x_def)
    show "x < length (bss ! m) \<Longrightarrow> \<not> Compare cmp (fst (bss ! m ! x)) k < 0"
      using that nth_length_takeWhile [of ?P ?B] by (simp add: x_def)
  qed
  have a: "ahead bss m x = dropWhile (\<lambda>e. Compare cmp (fst e) k < 0) (concat bss)"
    by (rule ahead_search [OF s ne keys k m]) (use i(4,5) index_at(1) [OF h] Ek m xs in auto)
  show ?thesis
    unfolding tl_Seek_def
    by (rule seek_both_on [OF h l m, of _ x]) (use i t data forward_from [OF h _ m, of _ x ro] a in auto)
qed

end

text \<open>What an iterator goes over, and its status at the end.\<close>

fun scan_table :: "(two_level \<Rightarrow> block_cache \<Rightarrow> (two_level \<times> block_cache) option) \<Rightarrow> nat \<Rightarrow> two_level \<Rightarrow> block_cache \<Rightarrow>
    ((slice \<times> slice) list \<times> status) option" where
  "scan_table move 0 it cache = None"
| "scan_table move (Suc n) it cache =
     (if tl_Valid it
      then Option.bind (move it cache) (\<lambda>(it', cache). map_option (\<lambda>(es, s). ((tl_key it, tl_value it) # es, s)) (scan_table move n it' cache))
      else Some ([], tl_status it))"

lemma scan_reaches:
  assumes h: "table_holds t F iv bss hs" and view: "view = ahead \<or> view = behind"
    and move: "\<And>it e es. reaches t bss hs view it (e # es) \<Longrightarrow> \<exists>it'. move it None = Some (it', None) \<and> reaches t bss hs view it' es"
  shows "reaches t bss hs view it es \<Longrightarrow> length es < n \<Longrightarrow> scan_table move n it None = Some (es, status_OK)"
proof (induction es arbitrary: it n)
  case Nil
  then show ?case using reaches_Valid(1,2) [OF h, of it "[]"] view by (cases n) auto
next
  case (Cons e es)
  obtain it' where "move it None = Some (it', None)" "reaches t bss hs view it' es" using move [OF Cons.prems(1)] by blast
  moreover obtain n' where "n = Suc n'" "length es < n'" using Cons.prems(2) by (cases n) auto
  moreover have "tl_Valid it" "(tl_key it, tl_value it) = e" using reaches_Valid(1,3) [OF h, of it "e # es"] Cons.prems(1) view by auto
  ultimately show ?case using Cons.IH by auto
qed

context table_order
begin

lemma opened_holds:
  assumes o: "opened_on t opts file F bss hs" and r: "reads file F" and F: "length F < 2 ^ 32" and c: "to_comparator opts = cmp"
    and s: "sorted_wrt (before cmp) (concat bss)"
    and keys: "\<forall>e \<in> set (concat bss). key (fst e) \<and> length (fst e) < 2 ^ 32 \<and> length (snd e) < 2 ^ 32"
  shows "table_holds t F (to_block_restart_interval opts) bss hs"
proof -
  have ne: "[] \<notin> set bss" and lh: "length hs = length bss" using o by (auto simp: opened_on_def dest: list_all2_lengthD)
  have keys': "\<forall>e \<in> set (concat bss). key (fst e)" using keys by blast
  let ?E = "index_entries (index_keys cmp bss) hs"
  have lK: "length (index_keys cmp bss) = length bss" by (cases bss rule: rev_cases) (simp_all add: index_keys_def length_separators)
  have "length (index_keys cmp bss ! i) < 2 ^ 32" if i: "i < length bss" for i
  proof -
    have "bss ! i \<noteq> []" using ne i by (metis nth_mem)
    then have "last (bss ! i) \<in> set (concat bss)" using nth_mem [OF i] last_in_set unfolding set_concat by blast
    then show ?thesis using index_bounds(4) [OF s ne keys' i] keys unfolding last_of_def by fastforce
  qed
  then have "list_all (\<lambda>(k, v). length k < 2 ^ 32 \<and> length v < 2 ^ 32) ?E"
    using lK lh make_entry_fits by (simp add: list_all_length index_entries_def)
  then have "over cmp ?E (block_NewIterator cmp (make_Block (build_block 1 ?E)))"
    using over_new [of ?E 1 cmp] o c by (simp add: opened_on_def Let_def)
  then show ?thesis using o r F c keys by (simp add: table_holds_def opened_on_def Let_def)
qed

end

text \<open>
  C4. An iterator over a table file that was built and finished without an error goes over exactly the entries that were
  added, in their order from the first and in the opposite order from the last; after a search it goes over the entries
  from the first at or after the key it looked for. At the end it has no error, and no move leaves the blocks or fails to end.
\<close>
theorem table_scan:
  assumes "appends_if_ok ops contents" and "contents f = []" and "internal_options opts"
    and "sorted_wrt (before (InternalKeyComparator BytewiseComparator)) es" and "length es < 2 ^ 30"
    and "\<forall>(k, v) \<in> set es. 8 \<le> length k \<and> length k < 2 ^ 32 \<and> length v < 2 ^ 32"
    and "tb_Finish ops (tb_Adds ops es (make_TableBuilder opts f)) = (s, r)" and "status_ok s"
    and "length (contents (tb_file r)) < 2 ^ 32" and "reads file (contents (tb_file r))"
  shows "\<exists>t. table_Open opts file (tb_FileSize r) None = Some (status_OK, Some t, None) \<and>
    (\<forall>ro. Option.bind (tl_SeekToFirst t ro (table_NewIterator t) None) (\<lambda>(it, c). scan_table (tl_Next t ro) (Suc (length es)) it c) =
       Some (es, status_OK)) \<and>
    (\<forall>ro. Option.bind (tl_SeekToLast t ro (table_NewIterator t) None) (\<lambda>(it, c). scan_table (tl_Prev t ro) (Suc (length es)) it c) =
       Some (rev es, status_OK)) \<and>
    (\<forall>k ro. 8 \<le> length k \<longrightarrow>
       Option.bind (tl_Seek k t ro (table_NewIterator t) None) (\<lambda>(it, c). scan_table (tl_Next t ro) (Suc (length es)) it c) =
       Some (dropWhile (\<lambda>e. Compare (InternalKeyComparator BytewiseComparator) (fst e) k < 0) es, status_OK))"
proof -
  let ?F = "contents (tb_file r)" and ?cmp = "InternalKeyComparator BytewiseComparator"
  obtain t bss hs where t: "table_Open opts file (tb_FileSize r) None = Some (status_OK, Some t, None)" "concat bss = es"
      "opened_on t opts file ?F bss hs"
    using internal_table_built [OF assms] by blast
  have c: "to_comparator opts = ?cmp" "to_comparator (tab_options t) = ?cmp"
    using assms(3) t(3) by (simp_all add: internal_options_def opened_on_def)
  have keys: "\<forall>e \<in> set (concat bss). 8 \<le> length (fst e) \<and> True" using assms(6) t(2) by auto
  have h: "table_holds t ?F (to_block_restart_interval opts) bss hs"
    using bytewise.internal_table.opened_holds [OF t(3) assms(10,9) c(1)] assms(4,6) t(2) by (simp add: split_beta)
  note l = loose_new [OF h]
  have fwd: "scan_table (tl_Next t ro) n it None = Some (xs, status_OK)" if "reaches t bss hs ahead it xs" "length xs < n" for ro n it xs
    using scan_reaches [OF h, of ahead "tl_Next t ro"] Next_reaches [OF h] that by blast
  have bwd: "scan_table (tl_Prev t ro) n it None = Some (xs, status_OK)" if "reaches t bss hs behind it xs" "length xs < n" for ro n it xs
    using scan_reaches [OF h, of behind "tl_Prev t ro"] Prev_reaches [OF h] that by blast
  have "Option.bind (tl_SeekToFirst t ro (table_NewIterator t) None) (\<lambda>(it, c). scan_table (tl_Next t ro) (Suc (length es)) it c) =
      Some (es, status_OK)" for ro
    using SeekToFirst_reaches [OF h l, of ro] fwd t(2) by (auto simp del: scan_table.simps)
  moreover have "Option.bind (tl_SeekToLast t ro (table_NewIterator t) None) (\<lambda>(it, c). scan_table (tl_Prev t ro) (Suc (length es)) it c) =
      Some (rev es, status_OK)" for ro
    using SeekToLast_reaches [OF h l, of ro] bwd t(2) by (auto simp del: scan_table.simps)
  moreover have "Option.bind (tl_Seek k t ro (table_NewIterator t) None) (\<lambda>(it, c). scan_table (tl_Next t ro) (Suc (length es)) it c) =
      Some (dropWhile (\<lambda>e. Compare ?cmp (fst e) k < 0) es, status_OK)" if k8: "8 \<le> length k" for k ro
  proof -
    obtain it where "tl_Seek k t ro (table_NewIterator t) None = Some (it, None)"
        "reaches t bss hs ahead it (dropWhile (\<lambda>e. Compare ?cmp (fst e) k < 0) es)"
      using bytewise.internal_table.Seek_reaches [OF h l c(2) _ keys, of k ro] assms(4) t(2) k8 by auto
    then show ?thesis using fwd length_dropWhile_le [of "\<lambda>e. Compare ?cmp (fst e) k < 0" es] by (simp del: scan_table.simps add: less_Suc_eq_le)
  qed
  ultimately show ?thesis using t(1) by blast
qed

lemma table_scan_witness:
  "\<exists>r t. tb_Finish memory_writer (tb_Adds memory_writer example_entries (make_TableBuilder example_options [])) = (status_OK, r) \<and>
     table_Open example_options (\<lambda>off n. (status_OK, take n (drop (unat off) (tb_file r)), False)) (tb_FileSize r) None =
       Some (status_OK, Some t, None) \<and>
     Option.bind (tl_SeekToFirst t \<lparr>verify_checksums = True, fill_cache = False\<rparr> (table_NewIterator t) None)
       (\<lambda>(it, c). scan_table (tl_Next t \<lparr>verify_checksums = True, fill_cache = False\<rparr>) (Suc (length example_entries)) it c) =
       Some (example_entries, status_OK)"
proof -
  obtain r where r: "tb_Finish memory_writer (tb_Adds memory_writer example_entries (make_TableBuilder example_options [])) = (status_OK, r)"
      "length (tb_file r) < 2 ^ 32"
    using example_table by blast
  have rd: "reads (\<lambda>off n. (status_OK, take n (drop (unat off) (tb_file r)), False)) (tb_file r)" unfolding reads_def by blast
  show ?thesis
    using table_scan [OF example_conditions(1) refl example_conditions(2,3,5,4) r(1) _ r(2) rd] r(1) by auto
qed

end
