(* ===== verification/LdbFileName.thy ===== *)
theory LdbFileName
  imports LdbStatus
begin

text \<open>
  Names and numbers: \<open>leveldb-library/util/logging.cc\<close>, \<open>db/filename.h\<close>, \<open>filename.cc\<close>, and the whole-file reader and
  writer of \<open>util/env.cc\<close>, through which \<open>CURRENT\<close> is read and changed. What \<open>snprintf\<close> does with \<open>%llu\<close>, \<open>%06llu\<close> and
  \<open>%02x\<close> is written out; its buffers hold any number. The file system behind \<open>Env\<close> is a parameter, a state with the
  virtual functions as a record.

  The lemmas show that a name is parsed as it was made, that the parser of numbers gives the value of the leading digits
  and refuses exactly what does not fit 64 bits, that a file is read as a whole, and that \<open>SetCurrentFile\<close> replaces
  \<open>CURRENT\<close> as a whole or not at all.
\<close>

section \<open>Numbers\<close>

text \<open>\<open>decimal\<close> is the text of a number as for the messages of a status.\<close>

definition decimal6 :: "nat \<Rightarrow> bytes" where
  "decimal6 n = replicate (6 - length (decimal n)) 48 @ decimal n"

definition AppendNumberTo :: "bytes \<Rightarrow> u64 \<Rightarrow> bytes" where
  "AppendNumberTo str num = str @ decimal (unat num)"

definition NumberToString :: "u64 \<Rightarrow> bytes" where
  "NumberToString num = AppendNumberTo [] num"

definition hex_digit :: "u8 \<Rightarrow> u8" where
  "hex_digit d = (if d < 10 then 48 + d else 97 + (d - 10))"

fun AppendEscapedStringTo :: "bytes \<Rightarrow> slice \<Rightarrow> bytes" where
  "AppendEscapedStringTo str [] = str"
| "AppendEscapedStringTo str (c # value) =
     AppendEscapedStringTo
       (if 32 \<le> c \<and> c \<le> 126 then str @ [c] else str @ c_str [CHR 0x5c, CHR ''x''] @ [hex_digit (c div 16), hex_digit (c mod 16)]) value"

definition EscapeString :: "slice \<Rightarrow> bytes" where
  "EscapeString value = AppendEscapedStringTo [] value"

text \<open>The loop over the digits: \<open>None\<close> when the number does not fit.\<close>

fun consume_digits :: "u64 \<Rightarrow> slice \<Rightarrow> (u64 \<times> slice) option" where
  "consume_digits v [] = Some (v, [])"
| "consume_digits v (ch # rest) =
     (if ch < 48 \<or> 57 < ch then Some (v, ch # rest)
      else if (NOT 0) div 10 < v \<or> v = (NOT 0) div 10 \<and> 48 + ucast ((NOT 0 :: u64) mod 10) < ch then None
      else consume_digits (v * 10 + ucast (ch - 48)) rest)"

text \<open>Whether there was a number, the value stored and the rest of the input; \<open>val\<close> is what the value was before.\<close>

definition ConsumeDecimalNumber :: "slice \<Rightarrow> u64 \<Rightarrow> bool \<times> u64 \<times> slice" where
  "ConsumeDecimalNumber input val =
     (case consume_digits 0 input of
        None \<Rightarrow> (False, val, input)
      | Some (v, rest) \<Rightarrow> (length input - length rest \<noteq> 0, v, remove_prefix input (length input - length rest)))"

section \<open>File names\<close>

datatype file_type = kLogFile | kDBLockFile | kTableFile | kDescriptorFile | kCurrentFile | kTempFile | kInfoLogFile

definition MakeFileName :: "bytes \<Rightarrow> u64 \<Rightarrow> string \<Rightarrow> bytes" where
  "MakeFileName dbname number suffix = dbname @ c_str ''/'' @ decimal6 (unat number) @ c_str ''.'' @ c_str suffix"

definition LogFileName :: "bytes \<Rightarrow> u64 \<Rightarrow> bytes" where
  "LogFileName dbname number = MakeFileName dbname number ''log''"

definition TableFileName :: "bytes \<Rightarrow> u64 \<Rightarrow> bytes" where
  "TableFileName dbname number = MakeFileName dbname number ''ldb''"

definition SSTTableFileName :: "bytes \<Rightarrow> u64 \<Rightarrow> bytes" where
  "SSTTableFileName dbname number = MakeFileName dbname number ''sst''"

definition DescriptorFileName :: "bytes \<Rightarrow> u64 \<Rightarrow> bytes" where
  "DescriptorFileName dbname number = dbname @ c_str ''/MANIFEST-'' @ decimal6 (unat number)"

definition CurrentFileName :: "bytes \<Rightarrow> bytes" where
  "CurrentFileName dbname = dbname @ c_str ''/CURRENT''"

definition LockFileName :: "bytes \<Rightarrow> bytes" where
  "LockFileName dbname = dbname @ c_str ''/LOCK''"

definition TempFileName :: "bytes \<Rightarrow> u64 \<Rightarrow> bytes" where
  "TempFileName dbname number = MakeFileName dbname number ''dbtmp''"

definition InfoLogFileName :: "bytes \<Rightarrow> bytes" where
  "InfoLogFileName dbname = dbname @ c_str ''/LOG''"

definition OldInfoLogFileName :: "bytes \<Rightarrow> bytes" where
  "OldInfoLogFileName dbname = dbname @ c_str ''/LOG.old''"

definition ParseFileName :: "bytes \<Rightarrow> (u64 \<times> file_type) option" where
  "ParseFileName filename =
     (if slice_eq filename (c_str ''CURRENT'') then Some (0, kCurrentFile)
      else if slice_eq filename (c_str ''LOCK'') then Some (0, kDBLockFile)
      else if slice_eq filename (c_str ''LOG'') \<or> slice_eq filename (c_str ''LOG.old'') then Some (0, kInfoLogFile)
      else if starts_with filename (c_str ''MANIFEST-'') then
        let (ok, num, rest) = ConsumeDecimalNumber (remove_prefix filename (length ''MANIFEST-'')) 0 in
        if \<not> ok then None else if rest \<noteq> [] then None else Some (num, kDescriptorFile)
      else
        let (ok, num, suffix) = ConsumeDecimalNumber filename 0 in
        if \<not> ok then None
        else if slice_eq suffix (c_str ''.log'') then Some (num, kLogFile)
        else if slice_eq suffix (c_str ''.sst'') \<or> slice_eq suffix (c_str ''.ldb'') then Some (num, kTableFile)
        else if slice_eq suffix (c_str ''.dbtmp'') then Some (num, kTempFile)
        else None)"

section \<open>Writing a whole file\<close>

text \<open>A writable file is known by its name in the state of the file system.\<close>

record 'e env =
  env_NewWritableFile :: "bytes \<Rightarrow> 'e \<Rightarrow> status \<times> 'e"
  env_Append :: "bytes \<Rightarrow> slice \<Rightarrow> 'e \<Rightarrow> status \<times> 'e"
  env_Sync :: "bytes \<Rightarrow> 'e \<Rightarrow> status \<times> 'e"
  env_Close :: "bytes \<Rightarrow> 'e \<Rightarrow> status \<times> 'e"
  env_delete :: "bytes \<Rightarrow> 'e \<Rightarrow> 'e"
  env_DeleteFile :: "bytes \<Rightarrow> 'e \<Rightarrow> status \<times> 'e"
  env_RenameFile :: "bytes \<Rightarrow> bytes \<Rightarrow> 'e \<Rightarrow> status \<times> 'e"

definition DoWriteStringToFile :: "'e env \<Rightarrow> slice \<Rightarrow> bytes \<Rightarrow> bool \<Rightarrow> 'e \<Rightarrow> status \<times> 'e" where
  "DoWriteStringToFile env data fname should_sync e =
     (let (s, e) = env_NewWritableFile env fname e in
      if \<not> status_ok s then (s, e)
      else
        let (s, e) = env_Append env fname data e;
            (s, e) = (if status_ok s \<and> should_sync then env_Sync env fname e else (s, e));
            (s, e) = (if status_ok s then env_Close env fname e else (s, e));
            e = env_delete env fname e;
            e = (if \<not> status_ok s then snd (env_DeleteFile env fname e) else e)
        in (s, e))"

definition WriteStringToFile :: "'e env \<Rightarrow> slice \<Rightarrow> bytes \<Rightarrow> 'e \<Rightarrow> status \<times> 'e" where
  "WriteStringToFile env data fname = DoWriteStringToFile env data fname False"

definition WriteStringToFileSync :: "'e env \<Rightarrow> slice \<Rightarrow> bytes \<Rightarrow> 'e \<Rightarrow> status \<times> 'e" where
  "WriteStringToFileSync env data fname = DoWriteStringToFile env data fname True"

text \<open>
  Reading a whole file. \<open>read_file\<close> is \<open>SequentialFile::Read\<close> on the state of the open file; a file that never ends is
  never read to its end.
\<close>

partial_function (option) read_fragments ::
  "(nat \<Rightarrow> 'f \<Rightarrow> status \<times> slice \<times> 'f) \<Rightarrow> 'f \<Rightarrow> bytes \<Rightarrow> (status \<times> bytes) option" where
  "read_fragments read_file file data =
     (let (s, fragment, file) = read_file 8192 file in
      if \<not> status_ok s then Some (s, data)
      else if fragment = [] then Some (s, data @ fragment)
      else read_fragments read_file file (data @ fragment))"

definition ReadFileToString ::
  "(bytes \<Rightarrow> status \<times> 'f) \<Rightarrow> (nat \<Rightarrow> 'f \<Rightarrow> status \<times> slice \<times> 'f) \<Rightarrow> bytes \<Rightarrow> (status \<times> bytes) option" where
  "ReadFileToString new_file read_file fname =
     (let (s, file) = new_file fname in if \<not> status_ok s then Some (s, []) else read_fragments read_file file [])"

definition SetCurrentFile :: "'e env \<Rightarrow> bytes \<Rightarrow> u64 \<Rightarrow> 'e \<Rightarrow> status \<times> 'e" where
  "SetCurrentFile env dbname descriptor_number e =
     (let manifest = DescriptorFileName dbname descriptor_number;
          contents = remove_prefix manifest (length dbname + 1);
          tmp = TempFileName dbname descriptor_number;
          (s, e) = WriteStringToFileSync env (contents @ [10]) tmp e;
          (s, e) = (if status_ok s then env_RenameFile env tmp (CurrentFileName dbname) e else (s, e));
          e = (if \<not> status_ok s then snd (env_DeleteFile env tmp e) else e)
      in (s, e))"

section \<open>The value of the digits\<close>

definition is_digit :: "u8 \<Rightarrow> bool" where
  "is_digit ch \<longleftrightarrow> 48 \<le> ch \<and> ch \<le> 57"

definition digits_value :: "nat \<Rightarrow> bytes \<Rightarrow> nat" where
  "digits_value v ds = foldl (\<lambda>v ch. v * 10 + (unat ch - 48)) v ds"

lemma digits_value_simps [simp]:
  "digits_value v [] = v" "digits_value v (ch # ds) = digits_value (v * 10 + (unat ch - 48)) ds"
  "digits_value v (ds @ [ch]) = digits_value v ds * 10 + (unat ch - 48)"
  by (simp_all add: digits_value_def)

lemma digits_value_ge: "v \<le> digits_value v ds"
proof (induction ds arbitrary: v)
  case (Cons ch ds)
  show ?case using Cons [of "v * 10 + (unat ch - 48)"] by simp
qed simp

text \<open>The test for overflow says exactly that the number with one more digit does not fit.\<close>

lemma consume_overflow:
  assumes "is_digit ch"
  shows "(NOT 0) div 10 < v \<or> v = (NOT 0) div 10 \<and> 48 + ucast ((NOT 0 :: u64) mod 10) < ch \<longleftrightarrow>
         2 ^ 64 \<le> unat (v :: u64) * 10 + (unat ch - 48)"
proof -
  have "unat ch \<le> 57" "48 \<le> unat ch" using assms by (simp_all add: is_digit_def word_le_nat_alt)
  moreover have "unat ((NOT 0 :: u64) div 10) = 1844674407370955161" "48 + ucast ((NOT 0 :: u64) mod 10) = (53 :: u8)"
    by (simp_all add: unat_div)
  ultimately show ?thesis unfolding word_less_nat_alt word_unat_eq_iff by simp linarith
qed

lemma consume_digit:
  assumes "is_digit ch" and "unat (v :: u64) * 10 + (unat ch - 48) < 2 ^ 64"
  shows "unat (v * 10 + ucast (ch - 48)) = unat v * 10 + (unat ch - 48)"
proof -
  have "unat (ch - 48) = unat ch - 48" using assms(1) by (simp add: is_digit_def word_le_nat_alt unat_sub)
  moreover have "unat (ucast (ch - 48) :: u64) = unat (ch - 48)" using unsigned_less [of "ch - 48", where 'a = nat] by (simp add: unsigned_ucast_eq take_bit_eq_mod)
  ultimately show ?thesis using assms(2) by (simp add: unat_word_ariths)
qed

lemma consume_digits_value:
  "consume_digits v input =
     (if digits_value (unat v) (takeWhile is_digit input) < 2 ^ 64
      then Some (of_nat (digits_value (unat v) (takeWhile is_digit input)), dropWhile is_digit input) else None)"
proof (induction input arbitrary: v)
  case Nil
  then show ?case using unat_u64_lt [of v] by simp
next
  case (Cons ch rest)
  show ?case
  proof (cases "is_digit ch")
    case False
    then have "ch < 48 \<or> 57 < ch" by (auto simp: is_digit_def not_le)
    then show ?thesis using False unat_u64_lt [of v] by simp
  next
    case True
    then have d: "\<not> (ch < 48 \<or> 57 < ch)" by (auto simp: is_digit_def)
    show ?thesis
    proof (cases "2 ^ 64 \<le> unat v * 10 + (unat ch - 48)")
      case over: True
      have "\<not> digits_value (unat v) (takeWhile is_digit (ch # rest)) < 2 ^ 64"
        using over True digits_value_ge [of "unat v * 10 + (unat ch - 48)" "takeWhile is_digit rest"] by simp
      then show ?thesis unfolding consume_digits.simps consume_overflow [OF True] using over d by simp
    next
      case fits: False
      show ?thesis
        unfolding consume_digits.simps consume_overflow [OF True] Cons consume_digit [OF True fits [unfolded not_le]]
        using d True fits by simp
    qed
  qed
qed

theorem ConsumeDecimalNumber_value:
  "ConsumeDecimalNumber input val =
     (let ds = takeWhile is_digit input in
      if digits_value 0 ds < 2 ^ 64 then (ds \<noteq> [], of_nat (digits_value 0 ds), dropWhile is_digit input) else (False, val, input))"
proof -
  have n: "length input - length (dropWhile is_digit input) = length (takeWhile is_digit input)"
    by (metis add_diff_cancel_right' length_append takeWhile_dropWhile_id)
  then have "length input \<le> length (dropWhile is_digit input) \<longleftrightarrow> takeWhile is_digit input = []"
    by (metis diff_is_0_eq length_0_conv)
  then show ?thesis
    by (simp add: ConsumeDecimalNumber_def consume_digits_value remove_prefix_def n Let_def dropWhile_eq_drop [symmetric])
qed

section \<open>Names are parsed as they are made\<close>

lemma decimal_digits: "\<forall>ch \<in> set (decimal n). is_digit ch"
proof (induction n rule: decimal.induct)
  case (1 n)
  have "is_digit (48 + of_nat (k :: nat))" if "k < 10" for k
    using that unfolding is_digit_def word_le_nat_alt by (simp add: unat_word_ariths unat_of_nat)
  then show ?case using 1 by (subst decimal.simps) (auto intro: 1)
qed

lemma decimal_not_Nil: "decimal n \<noteq> []"
  by (subst decimal.simps) simp

lemma digits_value_decimal: "digits_value 0 (decimal n) = n"
proof (induction n rule: decimal.induct)
  case (1 n)
  have "unat (48 + of_nat k :: u8) = 48 + k" if "k < 10" for k
    using that by (simp add: unat_word_ariths unat_of_nat)
  then show ?case using 1 by (subst decimal.simps) simp
qed

lemma digits_value_zeros: "digits_value 0 (replicate k 48 @ ds) = digits_value 0 ds"
  by (induction k) simp_all

lemma decimal6_digits: "ch \<in> set (decimal6 n) \<Longrightarrow> is_digit ch"
  using decimal_digits by (auto simp: decimal6_def is_digit_def)

lemma decimal6_Cons:
  obtains d ds where "decimal6 n = d # ds" and "is_digit d"
proof (cases "decimal6 n")
  case Nil
  then show ?thesis by (simp add: decimal6_def decimal_not_Nil)
next
  case (Cons d ds)
  then show ?thesis using that decimal6_digits [of d n] by simp
qed

lemma consume_decimal6:
  assumes "\<And>ch. rest \<noteq> [] \<Longrightarrow> \<not> is_digit (hd rest)"
  shows "ConsumeDecimalNumber (decimal6 (unat num) @ rest) val = (True, num, rest)"
proof -
  have "takeWhile is_digit (decimal6 (unat num) @ rest) = decimal6 (unat num)"
    "dropWhile is_digit (decimal6 (unat num) @ rest) = rest"
    using decimal6_digits assms by (cases rest; simp)+
  moreover have "digits_value 0 (decimal6 (unat num)) = unat num"
    by (simp add: decimal6_def digits_value_zeros digits_value_decimal)
  ultimately show ?thesis
    using unat_u64_lt [of num] by (simp add: ConsumeDecimalNumber_value decimal6_def decimal_not_Nil)
qed

text \<open>
  C29. Every name the database makes for a file, for any number and without the directory, is parsed back as that number and
  the type of the file; tables under the old suffix as well. Names without a number are parsed as number 0.
\<close>

theorem parse_file_name:
  "map (\<lambda>name. ParseFileName (remove_prefix name (length dbname + 1)))
     [LogFileName dbname num, TableFileName dbname num, SSTTableFileName dbname num, DescriptorFileName dbname num,
      TempFileName dbname num, CurrentFileName dbname, LockFileName dbname, InfoLogFileName dbname, OldInfoLogFileName dbname] =
   map Some
     [(num, kLogFile), (num, kTableFile), (num, kTableFile), (num, kDescriptorFile),
      (num, kTempFile), (0, kCurrentFile), (0, kDBLockFile), (0, kInfoLogFile), (0, kInfoLogFile)]"
proof -
  have suffix: "ConsumeDecimalNumber (decimal6 (unat num) @ 46 # rest) 0 = (True, num, 46 # rest)" for rest
    by (rule consume_decimal6) (simp add: is_digit_def)
  have none: "ConsumeDecimalNumber (decimal6 (unat num)) 0 = (True, num, [])"
    using consume_decimal6 [of "[]" num 0] by simp
  obtain d ds where six: "decimal6 (unat num) = d # ds" "is_digit d" by (rule decimal6_Cons)
  have d: "d \<noteq> 67" "d \<noteq> 76" "d \<noteq> 77" using six(2) by (auto simp: is_digit_def)
  show ?thesis
    using d suffix none
    by (simp add: ParseFileName_def LogFileName_def TableFileName_def SSTTableFileName_def DescriptorFileName_def
        TempFileName_def CurrentFileName_def LockFileName_def InfoLogFileName_def OldInfoLogFileName_def MakeFileName_def
        remove_prefix_def c_str_def slice_eq_iff starts_with_def six(1))
qed

section \<open>A whole file is read\<close>

text \<open>A read returns the next bytes of the file, as many as it likes but none only at the end, or an error.\<close>

definition reads_in_order :: "(nat \<Rightarrow> 'f \<Rightarrow> status \<times> slice \<times> 'f) \<Rightarrow> ('f \<Rightarrow> bytes) \<Rightarrow> bool" where
  "reads_in_order read_file left \<longleftrightarrow>
     (\<forall>n file s fragment file'. read_file n file = (s, fragment, file') \<longrightarrow> status_ok s \<longrightarrow> 0 < n \<longrightarrow>
        left file = fragment @ left file' \<and> (fragment = [] \<longrightarrow> left file = []))"

lemma read_fragments_reads:
  assumes "reads_in_order read_file left"
  shows "\<exists>s got. read_fragments read_file src data = Some (s, data @ got) \<and>
           (if status_ok s then got = left src else \<exists>more. left src = got @ more)"
proof (induction "length (left src)" arbitrary: src data rule: less_induct)
  case less
  obtain s fragment src' where r: "read_file 8192 src = (s, fragment, src')" by (rule prod_cases3)
  have law: "left src = fragment @ left src' \<and> (fragment = [] \<longrightarrow> left src = [])" if "status_ok s"
    using assms [unfolded reads_in_order_def, rule_format, OF r that] by auto
  consider "\<not> status_ok s" | "status_ok s" "fragment = []" | "status_ok s" "fragment \<noteq> []" by blast
  then show ?case
  proof cases
    case 1
    then show ?thesis using r by (subst read_fragments.simps) simp
  next
    case 2
    then have "left src = []" using law by blast
    then show ?thesis using r 2 by (subst read_fragments.simps) simp
  next
    case 3
    have left: "left src = fragment @ left src'" using law 3(1) by blast
    obtain t got where got: "read_fragments read_file src' (data @ fragment) = Some (t, (data @ fragment) @ got)"
        "if status_ok t then got = left src' else \<exists>more. left src' = got @ more"
      using less [of src' "data @ fragment"] left 3(2) by auto
    have "read_fragments read_file src data = Some (t, data @ (fragment @ got))"
      using r 3 got(1) by (subst read_fragments.simps) simp
    moreover have "if status_ok t then fragment @ got = left src else \<exists>more. left src = (fragment @ got) @ more"
      using got(2) left by (cases "status_ok t") auto
    ultimately show ?thesis by blast
  qed
qed

theorem ReadFileToString_whole:
  assumes "reads_in_order read_file left" and "new_file fname = (s, src)" and "status_ok s"
  shows "\<exists>t data. ReadFileToString new_file read_file fname = Some (t, data) \<and>
           (if status_ok t then data = left src else \<exists>more. left src = data @ more)"
  using read_fragments_reads [OF assms(1), of src "[]"] assms(2,3) by (simp add: ReadFileToString_def)

section \<open>How CURRENT is replaced\<close>

text \<open>
  What the code relies on in \<open>Env\<close>. \<open>content\<close> is what a file holds as the program sees it. \<open>lasting\<close> is what of the file
  that a name denotes now may be found after a crash, by whatever name, and \<open>survives\<close> what the name may denote after a
  crash; a name is not stable with the file it denotes. An operation concerns the file it names only. A new file is empty,
  \<open>Append\<close> adds its data at the end, after \<open>Sync\<close> the file has no other contents than those the program sees, closing
  it changes nothing. Renaming replaces what the program sees at once; after a crash the new name denotes what it
  might have denoted before, or the file that was renamed. A renaming that fails does nothing.
\<close>

definition only_file :: "('e \<Rightarrow> bytes \<Rightarrow> 'c) \<Rightarrow> bytes \<Rightarrow> 'e \<Rightarrow> 'e \<Rightarrow> bool" where
  "only_file files f e e' \<longleftrightarrow> (\<forall>g. g \<noteq> f \<longrightarrow> files e' g = files e g)"

definition touches :: "('e \<Rightarrow> bytes \<Rightarrow> bytes option) \<Rightarrow> ('e \<Rightarrow> bytes \<Rightarrow> bytes option set) \<Rightarrow> bytes \<Rightarrow> 'e \<Rightarrow> 'e \<Rightarrow> bool" where
  "touches content survives f e e' \<longleftrightarrow> only_file content f e e' \<and> only_file survives f e e'"

definition env_laws ::
  "'e env \<Rightarrow> ('e \<Rightarrow> bytes \<Rightarrow> bytes option) \<Rightarrow> ('e \<Rightarrow> bytes \<Rightarrow> bytes set) \<Rightarrow> ('e \<Rightarrow> bytes \<Rightarrow> bytes option set) \<Rightarrow> bool" where
  "env_laws env content lasting survives \<longleftrightarrow>
     (\<forall>f e s e'. env_NewWritableFile env f e = (s, e') \<longrightarrow>
        touches content survives f e e' \<and> (status_ok s \<longrightarrow> content e' f = Some [])) \<and>
     (\<forall>f data e s e'. env_Append env f data e = (s, e') \<longrightarrow>
        touches content survives f e e' \<and> (status_ok s \<longrightarrow> content e' f = map_option (\<lambda>held. held @ data) (content e f))) \<and>
     (\<forall>f e s e'. env_Sync env f e = (s, e') \<longrightarrow>
        touches content survives f e e' \<and>
        (status_ok s \<longrightarrow> content e' f = content e f \<and> Some ` lasting e' f \<subseteq> {content e f})) \<and>
     (\<forall>f e s e'. env_Close env f e = (s, e') \<longrightarrow>
        touches content survives f e e' \<and> (status_ok s \<longrightarrow> content e' f = content e f \<and> lasting e' f \<subseteq> lasting e f)) \<and>
     (\<forall>f e. content (env_delete env f e) = content e \<and> lasting (env_delete env f e) = lasting e \<and>
        survives (env_delete env f e) = survives e) \<and>
     (\<forall>f e s e'. env_DeleteFile env f e = (s, e') \<longrightarrow> touches content survives f e e') \<and>
     (\<forall>f g e s e'. f \<noteq> g \<longrightarrow> env_RenameFile env f g e = (s, e') \<longrightarrow>
        (if status_ok s
         then content e' = (content e)(g := content e f, f := None) \<and>
           survives e' g \<subseteq> survives e g \<union> Some ` lasting e f \<and> (\<forall>h. h \<noteq> f \<and> h \<noteq> g \<longrightarrow> survives e' h = survives e h)
         else content e' = content e \<and> survives e' = survives e))"

lemma touches_trans: "touches content survives f e e' \<Longrightarrow> touches content survives f e' e'' \<Longrightarrow> touches content survives f e e''"
  by (simp add: touches_def only_file_def)

lemma touches_refl [simp]: "touches content survives f e e"
  by (simp add: touches_def only_file_def)

lemma env_laws_touches:
  assumes "env_laws env content lasting survives"
  shows "env_NewWritableFile env f e = (s, e') \<Longrightarrow> touches content survives f e e'"
    and "env_Append env f data e = (s, e') \<Longrightarrow> touches content survives f e e'"
    and "env_Sync env f e = (s, e') \<Longrightarrow> touches content survives f e e'"
    and "env_Close env f e = (s, e') \<Longrightarrow> touches content survives f e e'"
    and "touches content survives f e (env_delete env g e)"
    and "env_DeleteFile env f e = (s, e') \<Longrightarrow> touches content survives f e e'"
  using assms unfolding env_laws_def by (simp; fail | (simp only:, blast) | simp add: touches_def only_file_def)+

lemma env_laws_ok:
  assumes "env_laws env content lasting survives"
  shows "env_NewWritableFile env f e = (s, e') \<Longrightarrow> status_ok s \<Longrightarrow> content e' f = Some []"
    and "env_Append env f data e = (s, e') \<Longrightarrow> status_ok s \<Longrightarrow>
         content e' f = map_option (\<lambda>held. held @ data) (content e f)"
    and "env_Sync env f e = (s, e') \<Longrightarrow> status_ok s \<Longrightarrow> content e' f = content e f \<and> Some ` lasting e' f \<subseteq> {content e f}"
    and "env_Close env f e = (s, e') \<Longrightarrow> status_ok s \<Longrightarrow> content e' f = content e f \<and> lasting e' f \<subseteq> lasting e f"
    and "content (env_delete env f e) = content e \<and> lasting (env_delete env f e) = lasting e"
  by (use assms [unfolded env_laws_def] in \<open>simp; fail | (simp only:, blast)\<close>)+

lemma env_laws_rename:
  assumes "env_laws env content lasting survives" and "f \<noteq> g" and "env_RenameFile env f g e = (s, e')"
  shows "if status_ok s
         then content e' = (content e)(g := content e f, f := None) \<and>
           survives e' g \<subseteq> survives e g \<union> Some ` lasting e f \<and> (\<forall>h. h \<noteq> f \<and> h \<noteq> g \<longrightarrow> survives e' h = survives e h)
         else content e' = content e \<and> survives e' = survives e"
proof -
  have "\<forall>f g e s e'. f \<noteq> g \<longrightarrow> env_RenameFile env f g e = (s, e') \<longrightarrow>
      (if status_ok s
       then content e' = (content e)(g := content e f, f := None) \<and>
         survives e' g \<subseteq> survives e g \<union> Some ` lasting e f \<and> (\<forall>h. h \<noteq> f \<and> h \<noteq> g \<longrightarrow> survives e' h = survives e h)
       else content e' = content e \<and> survives e' = survives e)"
    using assms(1) unfolding env_laws_def by (elim conjE) assumption
  then show ?thesis using assms(2,3) by blast
qed

text \<open>Writing a whole file: it is what the program sees and, when it was asked to sync, all that is found after a crash.\<close>

lemma DoWriteStringToFile_touches:
  assumes laws: "env_laws env content lasting survives" and w: "DoWriteStringToFile env data f should_sync e = (s, e')"
  shows "touches content survives f e e'"
proof -
  obtain s1 e1 where new: "env_NewWritableFile env f e = (s1, e1)" by fastforce
  obtain s2 e2 where app: "env_Append env f data e1 = (s2, e2)" by fastforce
  obtain s3 e3 where sync: "(if status_ok s2 \<and> should_sync then env_Sync env f e2 else (s2, e2)) = (s3, e3)" by fastforce
  obtain s4 e4 where close: "(if status_ok s3 then env_Close env f e3 else (s3, e3)) = (s4, e4)" by fastforce
  note only = env_laws_touches [OF laws]
  have 1: "touches content survives f e e1" "touches content survives f e1 e2"
    by (rule only(1) [OF new], rule only(2) [OF app])
  have 3: "touches content survives f e2 e3"
    using sync only(3) [of f e2 s3 e3] by (cases "status_ok s2 \<and> should_sync") auto
  have 4: "touches content survives f e3 e4"
    using close only(4) [of f e3 s4 e4] by (cases "status_ok s3") auto
  have 5: "touches content survives f e4 (env_delete env f e4)" by (rule only(5))
  have 6: "touches content survives f (env_delete env f e4) (snd (env_DeleteFile env f (env_delete env f e4)))"
    by (rule only(6)) (rule prod.collapse [symmetric])
  have "e' = e1 \<or> e' = env_delete env f e4 \<or> e' = snd (env_DeleteFile env f (env_delete env f e4))"
    using w new app sync close by (auto simp: DoWriteStringToFile_def Let_def split: if_splits)
  moreover have "touches content survives f e (env_delete env f e4)"
    by (rule touches_trans [OF touches_trans [OF touches_trans [OF touches_trans [OF 1] 3] 4] 5])
  ultimately show ?thesis using 1(1) 6 touches_trans by metis
qed

lemma DoWriteStringToFile_ok:
  assumes laws: "env_laws env content lasting survives" and w: "DoWriteStringToFile env data f should_sync e = (s, e')"
    and ok: "status_ok s"
  shows "content e' f = Some data \<and> (should_sync \<longrightarrow> lasting e' f \<subseteq> {data})"
proof -
  obtain s1 e1 where new: "env_NewWritableFile env f e = (s1, e1)" by fastforce
  obtain s2 e2 where app: "env_Append env f data e1 = (s2, e2)" by fastforce
  obtain s3 e3 where sync: "(if status_ok s2 \<and> should_sync then env_Sync env f e2 else (s2, e2)) = (s3, e3)" by fastforce
  obtain s4 e4 where close: "(if status_ok s3 then env_Close env f e3 else (s3, e3)) = (s4, e4)" by fastforce
  have oks: "status_ok s1" "status_ok s2" "status_ok s3" "status_ok s4" and e': "e' = env_delete env f e4"
    using w new app sync close ok by (auto simp: DoWriteStringToFile_def Let_def split: if_splits)
  have 1: "content e1 f = Some []" by (rule env_laws_ok(1) [OF laws new oks(1)])
  have "content e2 f = map_option (\<lambda>held. held @ data) (content e1 f)" by (rule env_laws_ok(2) [OF laws app oks(2)])
  then have 2: "content e2 f = Some data" using 1 by simp
  have 3: "content e3 f = Some data \<and> (should_sync \<longrightarrow> lasting e3 f \<subseteq> {data})"
  proof (cases should_sync)
    case True
    then have "env_Sync env f e2 = (s3, e3)" using sync oks(2) by simp
    then have "content e3 f = content e2 f \<and> Some ` lasting e3 f \<subseteq> {content e2 f}"
      by (rule env_laws_ok(3) [OF laws _ oks(3)])
    then show ?thesis using 2 by auto
  qed (use sync 2 in simp)
  have "env_Close env f e3 = (s4, e4)" using close oks(3) by simp
  then have "content e4 f = content e3 f \<and> lasting e4 f \<subseteq> lasting e3 f" by (rule env_laws_ok(4) [OF laws _ oks(4)])
  moreover have "content e' = content e4 \<and> lasting e' = lasting e4" using env_laws_ok(5) [OF laws] e' by simp
  ultimately show ?thesis using 3 by auto
qed

text \<open>The temporary file is another one than \<open>CURRENT\<close>.\<close>

lemma TempFileName_not_Current: "TempFileName dbname num \<noteq> CurrentFileName dbname"
proof (cases rule: decimal6_Cons [of "unat num"])
  case (1 d ds)
  then show ?thesis
    by (auto simp: is_digit_def TempFileName_def CurrentFileName_def MakeFileName_def c_str_def)
qed

lemma descriptor_text:
  "remove_prefix (DescriptorFileName dbname num) (Suc (length dbname)) = c_str ''MANIFEST-'' @ decimal6 (unat num)"
  by (simp add: DescriptorFileName_def remove_prefix_def c_str_def)

text \<open>
  C34. Over any file system that keeps the laws, \<open>SetCurrentFile\<close> either returns OK, and then \<open>CURRENT\<close> holds the name
  of the descriptor with a newline and a crash leaves this whole text in it or what it might have left there before; or
  it returns an error, and then \<open>CURRENT\<close> is as it was, also after a crash. A crash never leaves a part of the text.
  Apart from \<open>CURRENT\<close>, only the temporary file is touched.
\<close>

theorem SetCurrentFile_atomic:
  assumes "env_laws env content lasting survives" and "SetCurrentFile env dbname num e = (s, e')"
  shows "content e' (CurrentFileName dbname) =
           (if status_ok s then Some (c_str ''MANIFEST-'' @ decimal6 (unat num) @ [10]) else content e (CurrentFileName dbname)) \<and>
         survives e' (CurrentFileName dbname) \<subseteq> survives e (CurrentFileName dbname) \<union>
           (if status_ok s then {Some (c_str ''MANIFEST-'' @ decimal6 (unat num) @ [10])} else {}) \<and>
         (\<forall>f. f \<noteq> CurrentFileName dbname \<and> f \<noteq> TempFileName dbname num \<longrightarrow>
           content e' f = content e f \<and> survives e' f = survives e f)"
proof -
  let ?tmp = "TempFileName dbname num" and ?current = "CurrentFileName dbname"
  let ?text = "c_str ''MANIFEST-'' @ decimal6 (unat num) @ [10]"
  obtain s1 e1 where w: "DoWriteStringToFile env ?text ?tmp True e = (s1, e1)" by fastforce
  obtain s2 e2 where r: "(if status_ok s1 then env_RenameFile env ?tmp ?current e1 else (s1, e1)) = (s2, e2)" by fastforce
  have s: "s = s2" and e': "e' = (if \<not> status_ok s2 then snd (env_DeleteFile env ?tmp e2) else e2)"
    using assms(2) w r by (auto simp: SetCurrentFile_def WriteStringToFileSync_def descriptor_text Let_def)
  have wrote: "touches content survives ?tmp e e1" by (rule DoWriteStringToFile_touches [OF assms(1) w])
  have removed: "touches content survives ?tmp e2 (snd (env_DeleteFile env ?tmp e2))"
    by (rule env_laws_touches(6) [OF assms(1)]) (rule prod.collapse [symmetric])
  show ?thesis
  proof (cases "status_ok s1")
    case False
    then show ?thesis
      using wrote removed r TempFileName_not_Current [of dbname num] by (auto simp: s e' touches_def only_file_def)
  next
    case True
    have tmp: "content e1 ?tmp = Some ?text" "lasting e1 ?tmp \<subseteq> {?text}"
      using DoWriteStringToFile_ok [OF assms(1) w True] by auto
    have "env_RenameFile env ?tmp ?current e1 = (s2, e2)" using r True by simp
    note renamed = env_laws_rename [OF assms(1) TempFileName_not_Current this]
    show ?thesis
    proof (cases "status_ok s2")
      case True
      then show ?thesis
        using wrote tmp renamed TempFileName_not_Current [of dbname num]
        by (simp add: s e' touches_def only_file_def) blast
    next
      case False
      then show ?thesis
        using wrote removed renamed TempFileName_not_Current [of dbname num]
        by (simp add: s e' touches_def only_file_def)
    qed
  qed
qed

text \<open>
  A file system in memory: what the program sees, the contents each file may have after a crash, and what each name may
  denote then. Renaming a file that does not exist fails.
\<close>

record memory_files =
  mf_held :: "bytes \<Rightarrow> bytes option"
  mf_stable :: "bytes \<Rightarrow> bytes set"
  mf_names :: "bytes \<Rightarrow> bytes option set"

definition memory_env :: "memory_files env" where
  "memory_env =
     \<lparr>env_NewWritableFile = (\<lambda>f m. (status_OK,
        m\<lparr>mf_held := (mf_held m)(f \<mapsto> []), mf_stable := (mf_stable m)(f := UNIV), mf_names := (mf_names m)(f := UNIV)\<rparr>)),
      env_Append = (\<lambda>f data m. (status_OK,
        m\<lparr>mf_held := (mf_held m)(f := map_option (\<lambda>text. text @ data) (mf_held m f)), mf_stable := (mf_stable m)(f := UNIV)\<rparr>)),
      env_Sync = (\<lambda>f m. (status_OK, m\<lparr>mf_stable := (mf_stable m)(f := set_option (mf_held m f))\<rparr>)),
      env_Close = (\<lambda>f m. (status_OK, m)),
      env_delete = (\<lambda>f m. m),
      env_DeleteFile = (\<lambda>f m. (status_OK, m\<lparr>mf_held := (mf_held m)(f := None), mf_names := (mf_names m)(f := UNIV)\<rparr>)),
      env_RenameFile = (\<lambda>f g m.
        if mf_held m f = None then (status_IOError [] [], m)
        else (status_OK, m\<lparr>mf_held := (mf_held m)(g := mf_held m f, f := None), mf_stable := (mf_stable m)(g := mf_stable m f),
          mf_names := (mf_names m)(g := mf_names m g \<union> Some ` mf_stable m f, f := UNIV)\<rparr>))\<rparr>"

lemma memory_env_laws: "env_laws memory_env mf_held mf_stable mf_names"
  unfolding env_laws_def touches_def memory_env_def only_file_def by (auto split: if_splits option.splits)

definition empty_files :: memory_files where
  "empty_files = \<lparr>mf_held = (\<lambda>f. None), mf_stable = (\<lambda>f. {}), mf_names = (\<lambda>f. {None})\<rparr>"

theorem SetCurrentFile_atomic_witness:
  "mf_held (snd (SetCurrentFile memory_env [100] 7 empty_files)) (CurrentFileName [100]) = Some (c_str ''MANIFEST-000007'' @ [10]) \<and>
   mf_names (snd (SetCurrentFile memory_env [100] 7 empty_files)) (CurrentFileName [100]) \<subseteq>
     {None, Some (c_str ''MANIFEST-000007'' @ [10])}"
proof -
  obtain s e' where set: "SetCurrentFile memory_env [100] 7 empty_files = (s, e')" by (rule prod.exhaust)
  have "fst (SetCurrentFile memory_env [100] 7 empty_files) = status_OK"
    by (simp add: SetCurrentFile_def WriteStringToFileSync_def DoWriteStringToFile_def memory_env_def Let_def)
  then have "s = status_OK" using set by simp
  moreover have "decimal 7 = [55]" by (subst decimal.simps) simp
  then have "decimal6 7 = c_str ''000007''" by (simp add: decimal6_def c_str_def eval_nat_numeral)
  moreover have "mf_names empty_files (CurrentFileName [100]) = {None}" by (simp add: empty_files_def)
  ultimately show ?thesis
    using SetCurrentFile_atomic [OF memory_env_laws set] set by (simp add: c_str_def insert_commute)
qed

end
