(* ===== verification/Spec2Isabelle.thy ===== *)
theory Spec2Isabelle
  imports EncoderProperties DecoderProperties Base64 LdbLog LdbSkipReaders LdbArena LdbMemTable LdbBlock LdbRecovery LdbVersionEdit
    LdbCacheRun LdbTableIter LdbFileName
begin

text \<open>
  \<^bold>\<open>What the repository is.\<close> An iOS application on top of the Firebase libraries. Its Swift code is user interface and calls
  of remote services; what computes is C and C++ in \<open>src/anissagram/Pods\<close>. This library models the parts of it that
  encode, store and find data:

  \<^item> \<open>nanopb\<close>, the protobuf codec, with the two generated message families that use it (the log events of
    \<open>GoogleDataTransport\<close>, the diagnostics of \<open>FirebaseCoreDiagnostics\<close>);
  \<^item> \<open>FirebaseDatabase/third_party/SocketRocket/fbase64.c\<close>, the base64 codec of the web socket;
  \<^item> \<open>leveldb-library\<close>, in which Firebase Database keeps its data: byte encodings, checksum, log, memtable, write path and
    recovery, version edits, table files, the block cache and the names of files.

  The build settings are those of the pods: 64-bit little-endian targets, \<open>PB_FIELD_32BIT\<close>, \<open>PB_ENABLE_MALLOC\<close>,
  neither \<open>HAVE_SNAPPY\<close> nor \<open>HAVE_CRC32C\<close>.

  \<^bold>\<open>How the model reads.\<close> A definition has the name of the function it models, with a prefix (\<open>bi_\<close>, \<open>tb_\<close>, \<open>ve_\<close>) where
  the name alone would be taken. Integers whose wrap-around can be seen are words of their width; the others are \<open>nat\<close> or
  \<open>int\<close>. A structure is a record that is passed and returned. \<open>None\<close> is what the theory at hand says: in \<open>nanopb\<close> the
  result \<open>false\<close>; in LevelDB a call that would read where it must not, or does not end. Status codes are values of
  \<open>status\<close>. Files, allocation, comparators, filter policies, callbacks and virtual functions of clients are parameters.

  \<^bold>\<open>nanopb.\<close> \<open>Prelude\<close> has the words, the combinators and the shared lemmas, \<open>PbWire\<close> the wire format without streams,
  \<open>CMemory\<close> the memory of the message structures.

  \<^item> \<open>PbTypes\<close>, \<open>PbLayout\<close> (\<open>pb.h\<close>): descriptors, the macros that build them, C layout. \<open>CctTables\<close>, \<open>CoreTables\<close> are the
    generated files written with these macros; \<open>TableLayouts\<close> shows that the tables describe the structures.
  \<^item> \<open>PbCommon\<close> (\<open>pb_common.c\<close>): the field iterator, and where it leads.
  \<^item> \<open>PbOStream\<close>, \<open>PbEncode\<close> (\<open>pb_encode.c\<close>): streams and scalars, then messages. \<open>PbEncodeSpec\<close> is the specification
    \<open>message_bytes\<close> and the proof that \<open>pb_encode\<close> implements it on every stream; \<open>EncoderProperties\<close> draws the
    consequences for the callers.
  \<^item> \<open>PbIStream\<close>, \<open>PbDefaults\<close>, \<open>PbRelease\<close>, \<open>PbDecode\<close> (\<open>pb_decode.c\<close>): the decoder. \<open>PbCodec\<close> proves the round trips of
    the scalars, \<open>DecodeSafety\<close> memory safety and termination for any input, \<open>DecoderProperties\<close> states them and what
    goes wrong in the corners of the code.

  \<^bold>\<open>Base64.\<close> \<open>Base64\<close> has both functions of \<open>fbase64.c\<close>, with sums and results at the width of their C types, a reference encoding, and
  the round trip.

  \<^bold>\<open>LevelDB.\<close> From the bytes up:

  \<^item> \<open>LdbCoding\<close> (\<open>coding\<close>, \<open>slice.h\<close>), \<open>LdbStatus\<close> (\<open>status\<close>), \<open>LdbCrc32c\<close> (\<open>crc32c.cc\<close>; equal to the bitwise division by the
    polynomial), \<open>LdbBloom\<close> (\<open>hash.cc\<close>, \<open>bloom.cc\<close>), \<open>LdbRandom\<close> (\<open>random.h\<close>), \<open>LdbFormat\<close> (\<open>comparator.cc\<close>,
    \<open>dbformat\<close>).
  \<^item> \<open>LdbLog\<close> (\<open>log_writer.cc\<close>, \<open>log_reader.cc\<close>): what is written is read back up to the point where the file is cut, and
    damage is reported. \<open>LdbBatch\<close> (\<open>write_batch.cc\<close>).
  \<^item> \<open>LdbSkipList\<close> (\<open>skiplist.h\<close>): store of nodes, insertion, iterators; \<open>LdbSkipReaders\<close>: one writer and any number of
    readers, a step per load or store. \<open>LdbArena\<close> (\<open>arena\<close>), \<open>LdbMemTable\<close> (\<open>memtable\<close>).
  \<^item> \<open>LdbWrite\<close> (\<open>db_impl.cc\<close>): the queue of writers and their condition variables as a step relation, \<open>Get\<close>, recovery of the
    log; \<open>LdbVisible\<close> is what holds in all of its runs, whatever the files do: what is in the memtable, and that nobody
    waits for ever; \<open>LdbRun\<close> is what the log holds in the runs in which no append has failed; \<open>LdbRecovery\<close> has what
    the runs promise, across a crash as well. \<open>LdbVersionEdit\<close> (\<open>version_edit\<close>).
  \<^item> \<open>LdbBlock\<close> (\<open>block_builder.cc\<close>, \<open>block.cc\<close>), \<open>LdbTableFormat\<close> (\<open>format.cc\<close>), \<open>LdbFilterBlock\<close> (\<open>filter_block.cc\<close>),
    \<open>LdbTable\<close> (\<open>table_builder.cc\<close>, \<open>table.cc\<close>): the table files. \<open>LdbTableBuilt\<close> shows what the builder leaves in the file,
    \<open>LdbTableOrder\<close> how the index orders the blocks, \<open>LdbTableRead\<close> that a lookup in the file finds what was added.
    \<open>LdbTableIter\<close> (\<open>two_level_iterator.cc\<close>) has the iterator over a table, which goes over what was added in both directions.
  \<^item> \<open>LdbCache\<close> (\<open>cache.cc\<close>), \<open>LdbCacheTable\<close>, \<open>LdbCacheInv\<close>, \<open>LdbCacheRun\<close>: the block cache, its rings and hash table, its
    invariant, and what its clients may rely on.
  \<^item> \<open>LdbFileName\<close> (\<open>logging.cc\<close>, \<open>filename.cc\<close>, \<open>env.cc\<close>): numbers as text, the names of files and their parser, whole files
    read and written, and how \<open>CURRENT\<close> is replaced.

  \<^bold>\<open>How the parts meet.\<close> A batch is logged and inserted into the memtable by the write path; \<open>crash_recovery\<close> goes from the
  calls of the writers through the log, its truncation and \<open>RecoverLogFile\<close> back to a memtable, and \<open>get_sees_acked_writes\<close>
  from the calls to a lookup. \<open>table_get_finds\<close> goes from \<open>TableBuilder::Add\<close> through blocks, filters, index and footer to
  \<open>Table::InternalGet\<close>, and \<open>table_scan\<close> to the iterator of the table. A table reads its blocks through the block cache in \<open>BlockReader\<close>.

  \<^bold>\<open>Contracts.\<close> \<open>codec\<close> (an encoder and a decoder of a wire format; interpreted by every pair of nanopb), \<open>slice_codec\<close> (the same for
  LevelDB), \<open>submessage_encoder\<close> and \<open>safe_level\<close> (one nesting level of messages and the next), \<open>key_order\<close> and \<open>user_order\<close>
  (comparators; bytewise, and by a \<open>sublocale\<close> the internal keys), \<open>skip_order\<close> and \<open>ordered_index\<close> (skip lists; the
  memtable), \<open>filter_contract\<close> (filter policies; Bloom, and Bloom on user keys), \<open>table_order\<close> and \<open>filtered_order\<close> (what the
  index of a table needs of its comparator; bytewise, and internal keys).

  \<^bold>\<open>Bounds.\<close> Messages nest; the number \<open>n\<close> of \<open>pb_encode\<close>, \<open>pb_decode\<close>, \<open>pb_release\<close> and the defaults bounds the nesting.
  A table nested less deep than \<open>n\<close> never reaches the bound (\<open>pb_encode_bound_irrelevant\<close>, \<open>pb_decode_terminates\<close>). Loops over
  data are total or a \<open>partial_function\<close> whose result \<open>None\<close> the theorems exclude; \<open>block_entries\<close> and \<open>scan_table\<close> take as
  fuel one more than the number of entries there are. Blocks and table files of the theorems are shorter than
  \<open>2 ^ 32\<close> bytes (filter blocks have offsets of 32 bits) with fewer than \<open>2 ^ 30\<close> entries, sequence numbers stay below \<open>2 ^ 56\<close>,
  the write path is given fewer than \<open>2 ^ 31 - 1\<close> operations (\<open>few_ops\<close>; a batch counts its own with 32 bits), a cache sees fewer than \<open>2 ^ 31\<close> calls (its reference counts have 32 bits), an arena is asked for at most \<open>2 ^ 64 - 8\<close> bytes at
  a time, and the decoder of base64 works on buffers of less than \<open>2 ^ 31\<close> bytes, beyond which its result is negative.

  \<^bold>\<open>Assumptions.\<close> Loads and stores of the skip list are sequentially consistent, which acquire and release on one link at
  a time give. The mutex of the write path and of a cache shard makes what it protects one step; a run of the write path
  ends where the memtable would be switched, and its waits for memory and compactions are not steps. \<open>malloc\<close> does not fail in the
  cache, and gives blocks apart from others in nanopb (\<open>good_allocator\<close>). A table file takes all bytes of an append that reports success (\<open>appends_if_ok\<close>). The theorems on the log
  itself have a file whose every append and flush succeeds (\<open>appends_ok\<close>); in a run of the write path they succeed or the file
  remembers that one has failed (\<open>appends_tracked\<close>), and only the crash theorem asks that none has: after a failed append the
  code goes on behind a broken record, and what it acknowledges then may be lost (\<open>record_after_failed_append_lost\<close>). A read gives
  the bytes of the file (\<open>reads_ok\<close>, \<open>reads\<close>, \<open>reads_in_order\<close>). What the names of files denote, now and after a crash,
  follows \<open>env_laws\<close>; a rename may be undone by a crash. The table theorems open a table without a block cache.

  \<^bold>\<open>Not modelled.\<close> Of LevelDB: \<open>env_posix.cc\<close> and \<open>posix_logger.h\<close> (system calls),
  \<open>version_set.cc\<close>, \<open>table_cache.cc\<close>, compaction and file deletion in \<open>db_impl.cc\<close> (background threads over a directory of files),
  iterators over the whole database, \<open>repair.cc\<close>, \<open>dumpfile.cc\<close>, the C bindings and debug strings. Assertions and
  the ownership of memory, except in nanopb's decoder and in the cache, are left out as well. Of the rest: the
  Objective-C libraries (object graphs over network services), the Swift application and the cloud functions, which have no
  algorithm apart from the calls of those services.
\<close>

end
